(* ===== verification/CF_Prelude.thy ===== *)
theory CF_Prelude
  imports Main "HOL-Library.Word" "HOL-Library.Monad_Syntax" "HOL-Library.Multiset"
begin

text \<open>
  Shared vocabulary of the development: the integer types of
  \<^verbatim>\<open>src/Include/CF/Types.h\<close>, bytes and memory objects, and the generic facts on
  lists, options and natural numbers that the component theories use.

  A C pointer into a character buffer is modelled by the bytes of the underlying
  object from the pointed-to position on. A read past the end of the object is
  undefined behaviour in C++; the model returns \<^term>\<open>None\<close> for it, so that a theorem
  with a \<^term>\<open>Some\<close> on its right-hand side also says that the code reads only
  memory it owns.
\<close>

section \<open>Machine types\<close>

type_synonym UInt8 = "8 word"
type_synonym UInt16 = "16 word"
type_synonym UInt32 = "32 word"

text \<open>Unsigned 32-bit arithmetic on natural numbers, with its wrap-around.\<close>

definition u32 :: "nat \<Rightarrow> nat" where
  "u32 n = n mod 2 ^ 32"

lemma u32_less [simp]: "u32 n < 2 ^ 32"
  by (simp add: u32_def)

lemma u32_id [simp]: "n < 2 ^ 32 \<Longrightarrow> u32 n = n"
  by (simp add: u32_def)

section \<open>Bytes and memory objects\<close>

type_synonym mem = "char list"

definition byte :: "char \<Rightarrow> nat" where
  "byte c = of_char c"

lemma byte_less [simp]: "byte c < 256"
  by (simp add: byte_def)

lemma byte_eq_iff [simp]: "byte c = byte d \<longleftrightarrow> c = d"
  by (simp add: byte_def)

text \<open>Reading one byte of an object.\<close>

definition rd :: "mem \<Rightarrow> nat \<Rightarrow> char option" where
  "rd m i = (if i < length m then Some (m ! i) else None)"

lemma rd_Some [simp]: "i < length m \<Longrightarrow> rd m i = Some (m ! i)"
  by (simp add: rd_def)

lemma rd_None [simp]: "length m \<le> i \<Longrightarrow> rd m i = None"
  by (simp add: rd_def)

text \<open>Writing bytes to an object from a position on.\<close>

definition write_at :: "mem \<Rightarrow> nat \<Rightarrow> mem \<Rightarrow> mem option" where
  "write_at dest pos bytes =
     (if pos + length bytes \<le> length dest
      then Some (take pos dest @ bytes @ drop (pos + length bytes) dest) else None)"

lemma write_at_spec:
  assumes "pos + length bs \<le> length dest"
  shows "\<exists>dest'. write_at dest pos bs = Some dest' \<and> length dest' = length dest \<and>
    take pos dest' = take pos dest \<and> take (pos + length bs) dest' = take pos dest @ bs"
  using assms by (auto simp: write_at_def)

text \<open>
  A C string is the prefix of an object before its first zero byte. An object
  without a zero byte is not a C string.
\<close>

abbreviation NUL :: char where
  "NUL \<equiv> CHR 0x00"

definition strlen :: "mem \<Rightarrow> nat option" where
  "strlen m = (if NUL \<in> set m then Some (length (takeWhile (\<lambda>c. c \<noteq> NUL) m)) else None)"

definition cstring :: "string \<Rightarrow> mem" where
  "cstring s = s @ [NUL]"

lemma takeWhile_NUL_cstring [simp]:
  "NUL \<notin> set s \<Longrightarrow> takeWhile (\<lambda>c. c \<noteq> NUL) (s @ NUL # r) = s"
  by (induction s) auto

lemma strlen_cstring [simp]: "NUL \<notin> set s \<Longrightarrow> strlen (cstring s) = Some (length s)"
  by (simp add: strlen_def cstring_def)

text \<open>\<^verbatim>\<open>strncpy\<close>: up to \<open>n\<close> characters, padded with zero bytes to \<open>n\<close>.\<close>

definition strncpy :: "mem \<Rightarrow> mem \<Rightarrow> nat \<Rightarrow> mem option" where
  "strncpy dest src n = do {
     let t = takeWhile (\<lambda>c. c \<noteq> NUL) (take n src);
     if length t = n \<or> length t < length src then write_at dest 0 (t @ replicate (n - length t) NUL) else None
   }"

lemma strncpy_text:
  assumes "take (length t) m = t" "NUL \<notin> set t" "length t < n"
  shows "strncpy (replicate n NUL) m (length t) = Some (t @ replicate (n - length t) NUL)"
proof -
  have "takeWhile (\<lambda>c. c \<noteq> NUL) (take (length t) m) = t" using assms(1,2) by (auto simp: takeWhile_eq_all_conv)
  then show ?thesis using assms(3) by (simp add: strncpy_def write_at_def)
qed

text \<open>The end of a line on the wire.\<close>

definition crlf :: string where "crlf = [CHR 0x0D, CHR 0x0A]"

section \<open>Lists\<close>

lemma drop_nth_Cons: "i < length xs \<Longrightarrow> drop i xs = xs ! i # drop (Suc i) xs"
  by (simp add: Cons_nth_drop_Suc)

lemma take_drop_Cons:
  "i < j \<Longrightarrow> j \<le> length xs \<Longrightarrow> take (j - i) (drop i xs) = xs ! i # take (j - Suc i) (drop (Suc i) xs)"
  by (subst drop_nth_Cons) (auto simp: take_Cons' Suc_diff_Suc)

lemma takeWhile_neq_append [simp]: "x \<notin> set ys \<Longrightarrow> takeWhile (\<lambda>c. c \<noteq> x) (ys @ x # zs) = ys"
  by (induction ys) auto

lemma takeWhile_stop: "\<forall>x \<in> set a. P x \<Longrightarrow> \<not> P c \<Longrightarrow> takeWhile P (a @ c # r) = a"
  by (induction a) auto

lemma dropWhile_stop: "\<forall>x \<in> set a. P x \<Longrightarrow> \<not> P c \<Longrightarrow> dropWhile P (a @ c # r) = c # r"
  by (induction a) auto

lemma card_filter_upt: "card {i. i < n \<and> P i} = length (filter P [0..<n])"
proof -
  have "{i. i < n \<and> P i} = set (filter P [0..<n])" by auto
  then show ?thesis by (metis distinct_card distinct_filter distinct_upt)
qed

text \<open>Exchanging two entries of an array.\<close>

definition swap :: "nat \<Rightarrow> nat \<Rightarrow> 'a list \<Rightarrow> 'a list" where
  "swap i j xs = xs[i := xs ! j, j := xs ! i]"

lemma length_swap [simp]: "length (swap i j xs) = length xs"
  by (simp add: swap_def)

lemma nth_swap:
  "i < length xs \<Longrightarrow> j < length xs \<Longrightarrow> p < length xs \<Longrightarrow>
   swap i j xs ! p = (if p = j then xs ! i else if p = i then xs ! j else xs ! p)"
  by (auto simp: swap_def nth_list_update)

end
