(* ===== verification/CF_StrPtrLen.thy ===== *)
theory CF_StrPtrLen
  imports CF_Prelude
begin

text \<open>
  The counted string of \<^verbatim>\<open>src/CFCore/StrPtrLen.cpp\<close> and
  \<^verbatim>\<open>src/CFCore/include/CF/StrPtrLen.h\<close>. \<open>Ptr\<close> is the memory from
  the pointed-to byte to the end of its object (\<^term>\<open>None\<close> for
  \<^verbatim>\<open>nullptr\<close>), so a pointer that moves forward drops bytes from the list.
  Results are optional: \<^term>\<open>None\<close> is undefined behaviour, a read outside an object
  or of uninitialised memory.
\<close>

section \<open>Data\<close>

record StrPtrLen =
  Ptr :: "mem option"
  Len :: nat

definition sCaseInsensitiveMask :: "nat list" where
  "sCaseInsensitiveMask =
     [0, 1, 2, 3, 4, 5, 6, 7, 8, 9, 10, 11, 12, 13, 14, 15, 16, 17, 18, 19,
      20, 21, 22, 23, 24, 25, 26, 27, 28, 29, 30, 31, 32, 33, 34, 35, 36, 37, 38, 39,
      40, 41, 42, 43, 44, 45, 46, 47, 48, 49, 50, 51, 52, 53, 54, 55, 56, 57, 58, 59,
      60, 61, 62, 63, 64, 97, 98, 99, 100, 101, 102, 103, 104, 105, 106, 107, 108, 109, 110, 111,
      112, 113, 114, 115, 116, 117, 118, 119, 120, 121, 122, 91, 92, 93, 94, 95, 96, 97, 98, 99,
      100, 101, 102, 103, 104, 105, 106, 107, 108, 109, 110, 111, 112, 113, 114, 115, 116, 117, 118, 119,
      120, 121, 122, 123, 124, 125, 126, 127, 128, 129]"

definition sNonPrintChars :: "nat list" where
  "sNonPrintChars =
     [0, 1, 1, 1, 1, 1, 1, 1, 1, 1, 0, 1, 1, 0, 1, 1, 1, 1, 1, 1,
      1, 1, 1, 1, 1, 1, 1, 1, 1, 1, 1, 1, 0, 0, 0, 0, 0, 0, 0, 0,
      0, 0, 0, 0, 0, 0, 0, 0, 0, 0, 0, 0, 0, 0, 0, 0, 0, 0, 0, 0,
      0, 0, 0, 0, 0, 0, 0, 0, 0, 0, 0, 0, 0, 0, 0, 0, 0, 0, 0, 0,
      0, 0, 0, 0, 0, 0, 0, 0, 0, 0, 0, 0, 0, 0, 0, 0, 0, 0, 0, 0,
      0, 0, 0, 0, 0, 0, 0, 0, 0, 0, 0, 0, 0, 0, 0, 0, 0, 0, 0, 0,
      0, 0, 0, 0, 0, 0, 0, 0, 0, 0, 0, 0, 0, 0, 0, 0, 0, 0, 0, 0,
      0, 0, 0, 0, 0, 0, 0, 0, 0, 0, 0, 0, 0, 0, 0, 0, 0, 0, 0, 0,
      0, 0, 0, 0, 0, 0, 0, 0, 0, 0, 0, 0, 0, 0, 0, 0, 0, 0, 1, 1,
      1, 1, 1, 1, 1, 1, 1, 1, 1, 1, 1, 1, 1, 1, 1, 1, 1, 1, 1, 1,
      1, 1, 1, 1, 1, 1, 1, 1, 1, 1, 1, 1, 1, 1, 1, 1, 1, 1, 1, 1,
      1, 1, 1, 1, 1, 1, 1, 1, 1, 1, 1, 1, 1, 1, 1, 1, 1, 1, 1, 1,
      1, 1, 1, 1, 1, 1, 1, 1, 1, 1, 1, 1, 1, 1, 1, 1]"

definition mask :: "nat list \<Rightarrow> char \<Rightarrow> nat option" where
  "mask tbl c = (if byte c < length tbl then Some (tbl ! byte c) else None)"

definition rdp :: "mem option \<Rightarrow> nat \<Rightarrow> char option" where
  "rdp p i = (case p of None \<Rightarrow> None | Some m \<Rightarrow> rd m i)"

text \<open>\<^verbatim>\<open>memcmp\<close> of \<open>n\<close> bytes; both objects must have them.\<close>

definition memcmp_eq :: "mem \<Rightarrow> mem \<Rightarrow> nat \<Rightarrow> bool option" where
  "memcmp_eq a b n = (if n \<le> length a \<and> n \<le> length b then Some (take n a = take n b) else None)"

section \<open>Operations\<close>

definition StrPtrLen_null :: StrPtrLen where
  "StrPtrLen_null = \<lparr>Ptr = None, Len = 0\<rparr>"

definition StrPtrLen_cstr :: "mem option \<Rightarrow> StrPtrLen option" where
  "StrPtrLen_cstr sp =
     (case sp of
        None \<Rightarrow> Some \<lparr>Ptr = None, Len = 0\<rparr>
      | Some m \<Rightarrow> do { n \<leftarrow> strlen m; Some \<lparr>Ptr = Some m, Len = n\<rparr> })"

definition StrPtrLen_of :: "mem option \<Rightarrow> nat \<Rightarrow> StrPtrLen" where
  "StrPtrLen_of sp len = \<lparr>Ptr = sp, Len = len\<rparr>"

definition Set_ptr_len :: "StrPtrLen \<Rightarrow> mem option \<Rightarrow> nat \<Rightarrow> StrPtrLen" where
  "Set_ptr_len s inPtr inLen = s\<lparr>Ptr := inPtr, Len := inLen\<rparr>"

definition CopyAsCString :: "mem option \<Rightarrow> mem option" where
  "CopyAsCString sp =
     (case sp of
        None \<Rightarrow> Some [NUL]
      | Some m \<Rightarrow> do { len \<leftarrow> strlen m; Some (take len m @ [NUL]) })"

text \<open>With a null pointer and a positive length the first bytes stay uninitialised.\<close>

definition GetAsCString :: "StrPtrLen \<Rightarrow> mem option" where
  "GetAsCString s =
     (case Ptr s of
        None \<Rightarrow> (if Len s = 0 then Some [NUL] else None)
      | Some m \<Rightarrow> (if Len s \<le> length m then Some (take (Len s) m @ [NUL]) else None))"

definition Equal :: "StrPtrLen \<Rightarrow> StrPtrLen \<Rightarrow> bool option" where
  "Equal s compare =
     (case (Ptr compare, Ptr s) of
        (None, None) \<Rightarrow> Some True
      | (Some c, Some p) \<Rightarrow> (if Len compare = Len s then memcmp_eq c p (Len s) else Some False)
      | _ \<Rightarrow> Some False)"

definition Equal_c :: "StrPtrLen \<Rightarrow> mem option \<Rightarrow> bool option" where
  "Equal_c s compare =
     (case (compare, Ptr s) of
        (None, None) \<Rightarrow> Some True
      | (Some c, Some p) \<Rightarrow> do { n \<leftarrow> strlen c; if n = Len s then memcmp_eq c p (Len s) else Some False }
      | _ \<Rightarrow> Some False)"

fun ci_loop :: "mem option \<Rightarrow> mem option \<Rightarrow> nat \<Rightarrow> nat \<Rightarrow> bool option" where
  "ci_loop p compare x 0 = Some True"
| "ci_loop p compare x (Suc n) =
     do {
       a \<leftarrow> rdp p x; ma \<leftarrow> mask sCaseInsensitiveMask a;
       b \<leftarrow> rdp compare x; mb \<leftarrow> mask sCaseInsensitiveMask b;
       if ma \<noteq> mb then Some False else ci_loop p compare (x + 1) n
     }"

definition EqualIgnoreCase :: "StrPtrLen \<Rightarrow> mem option \<Rightarrow> nat \<Rightarrow> bool option" where
  "EqualIgnoreCase s compare len =
     (if len = Len s then ci_loop (Ptr s) compare 0 len else Some False)"

definition NumEqualIgnoreCase :: "StrPtrLen \<Rightarrow> mem option \<Rightarrow> nat \<Rightarrow> bool option" where
  "NumEqualIgnoreCase s compare len =
     (if len \<le> Len s then ci_loop (Ptr s) compare 0 len else Some False)"

text \<open>\<^verbatim>\<open>toupper\<close> in the C locale.\<close>

definition toupper :: "char \<Rightarrow> char" where
  "toupper c = (if 97 \<le> byte c \<and> byte c \<le> 122 then char_of (byte c - 32) else c)"

definition tolower :: "char \<Rightarrow> char" where
  "tolower c = (if 65 \<le> byte c \<and> byte c \<le> 90 then char_of (byte c + 32) else c)"

fun upper_loop :: "mem \<Rightarrow> nat \<Rightarrow> nat \<Rightarrow> mem option" where
  "upper_loop m x 0 = Some m"
| "upper_loop m x (Suc n) = do { c \<leftarrow> rd m x; upper_loop (m[x := toupper c]) (x + 1) n }"

definition ToUpper :: "StrPtrLen \<Rightarrow> mem option option" where
  "ToUpper s =
     (case Ptr s of
        None \<Rightarrow> (if Len s = 0 then Some None else None)
      | Some m \<Rightarrow> map_option Some (upper_loop m 0 (Len s)))"

text \<open>
  \<^verbatim>\<open>strstr\<close> on two C strings: the offset of the first occurrence.
\<close>

fun occurs_at :: "string \<Rightarrow> string \<Rightarrow> bool" where
  "occurs_at [] s = True"
| "occurs_at (q # qs) [] = False"
| "occurs_at (q # qs) (c # cs) = (q = c \<and> occurs_at qs cs)"

fun find_sub :: "string \<Rightarrow> string \<Rightarrow> nat option" where
  "find_sub q [] = (if occurs_at q [] then Some 0 else None)"
| "find_sub q (c # cs) = (if occurs_at q (c # cs) then Some 0 else map_option Suc (find_sub q cs))"

definition cstr :: "mem \<Rightarrow> string option" where
  "cstr m = (if NUL \<in> set m then Some (takeWhile (\<lambda>c. c \<noteq> NUL) m) else None)"

definition strstr :: "mem \<Rightarrow> mem \<Rightarrow> nat option option" where
  "strstr source query = do { s \<leftarrow> cstr source; q \<leftarrow> cstr query; Some (find_sub q s) }"

definition strdup :: "mem \<Rightarrow> mem option" where
  "strdup m = do { s \<leftarrow> cstr m; Some (s @ [NUL]) }"

definition search_str :: "bool \<Rightarrow> mem \<Rightarrow> mem \<Rightarrow> nat option option" where
  "search_str caseSensitive sourceString query =
     (if \<not> caseSensitive then do {
        dupSource \<leftarrow> strdup sourceString;
        dupQuery \<leftarrow> strdup query;
        n1 \<leftarrow> strlen dupSource;
        n2 \<leftarrow> strlen dupQuery;
        src \<leftarrow> upper_loop dupSource 0 n1;
        qry \<leftarrow> upper_loop dupQuery 0 n2;
        strstr src qry
      } else strstr sourceString query)"

text \<open>
  \<open>Some (r, res)\<close>: \<open>r\<close> is the offset of the returned pointer in the source
  buffer (\<^term>\<open>None\<close> for \<^verbatim>\<open>nullptr\<close>), \<open>res\<close> the content of
  \<^verbatim>\<open>*resultStr\<close>.
\<close>

definition FindStringCase :: "StrPtrLen \<Rightarrow> mem option \<Rightarrow> bool \<Rightarrow> (nat option \<times> StrPtrLen) option" where
  "FindStringCase s queryCharStr caseSensitive =
     (case (queryCharStr, Ptr s) of
        (Some query, Some p) \<Rightarrow>
          if Len s = 0 then Some (None, StrPtrLen_null)
          else do {
            queryLen \<leftarrow> strlen query;
            lastSourceChar \<leftarrow> rd p (Len s - 1);
            let sourceString = (if lastSourceChar \<noteq> NUL then take (Len s) p @ [NUL] else p);
            resultChar \<leftarrow> search_str caseSensitive sourceString query;
            let r = (case resultChar of
                       None \<Rightarrow> None
                     | Some foundLen \<Rightarrow> (if foundLen > Len s then None else Some foundLen));
            Some (r, case r of
                       None \<Rightarrow> StrPtrLen_null
                     | Some foundLen \<Rightarrow> \<lparr>Ptr = Some (drop foundLen p), Len = queryLen\<rparr>)
          }
      | _ \<Rightarrow> Some (None, StrPtrLen_null))"

definition FindString :: "StrPtrLen \<Rightarrow> mem option \<Rightarrow> (nat option \<times> StrPtrLen) option" where
  "FindString s query = FindStringCase s query True"

definition FindStringIgnoreCase :: "StrPtrLen \<Rightarrow> mem option \<Rightarrow> (nat option \<times> StrPtrLen) option" where
  "FindStringIgnoreCase s query = FindStringCase s query False"

definition blank :: "char \<Rightarrow> bool" where
  "blank c \<longleftrightarrow> c = CHR '' '' \<or> c = CHR 0x09"

function rm_ws :: "mem \<Rightarrow> nat \<Rightarrow> nat \<Rightarrow> nat \<Rightarrow> (mem \<times> nat) option" where
  "rm_ws m src dest endp =
     (if src < endp then
        do {
          c \<leftarrow> rd m src;
          if \<not> blank c
          then rm_ws (if src \<noteq> dest then m[dest := c] else m) (src + 1) (dest + 1) endp
          else rm_ws m (src + 1) dest endp
        }
      else Some (m, dest))"
  by pat_completeness auto
termination
  by (relation "measure (\<lambda>(m, src, dest, endp). endp - src)") auto

declare rm_ws.simps [simp del]

definition RemoveWhitespace :: "StrPtrLen \<Rightarrow> (nat \<times> StrPtrLen) option" where
  "RemoveWhitespace s =
     (case Ptr s of
        None \<Rightarrow> Some (0, s)
      | Some m \<Rightarrow>
          if Len s = 0 then Some (0, s)
          else do { (m', len) \<leftarrow> rm_ws m 0 0 (Len s); Some (len, s\<lparr>Ptr := Some m', Len := len\<rparr>) })"

fun trim_lead :: "mem \<Rightarrow> nat \<Rightarrow> (mem \<times> nat) option" where
  "trim_lead m 0 = Some (m, 0)"
| "trim_lead [] (Suc n) = None"
| "trim_lead (c # m) (Suc n) = (if \<not> blank c then Some (c # m, Suc n) else trim_lead m n)"

definition TrimLeadingWhitespace :: "StrPtrLen \<Rightarrow> (nat \<times> StrPtrLen) option" where
  "TrimLeadingWhitespace s =
     (case Ptr s of
        None \<Rightarrow> Some (0, s)
      | Some m \<Rightarrow>
          if Len s = 0 then Some (0, s)
          else do { (m', len) \<leftarrow> trim_lead m (Len s); Some (len, s\<lparr>Ptr := Some m', Len := len\<rparr>) })"

fun trim_trail :: "mem \<Rightarrow> nat \<Rightarrow> nat option" where
  "trim_trail m 0 = Some 0"
| "trim_trail m (Suc n) = do { c \<leftarrow> rd m n; if \<not> blank c then Some (Suc n) else trim_trail m n }"

definition TrimTrailingWhitespace :: "StrPtrLen \<Rightarrow> (nat \<times> StrPtrLen) option" where
  "TrimTrailingWhitespace s =
     (case Ptr s of
        None \<Rightarrow> Some (0, s)
      | Some m \<Rightarrow>
          if Len s = 0 then Some (0, s)
          else do { len \<leftarrow> trim_trail m (Len s); Some (len, s\<lparr>Len := len\<rparr>) })"

definition TrimWhitespace :: "StrPtrLen \<Rightarrow> StrPtrLen option" where
  "TrimWhitespace s =
     do { (_, s1) \<leftarrow> TrimLeadingWhitespace s; (_, s2) \<leftarrow> TrimTrailingWhitespace s1; Some s2 }"

text \<open>
  The printing functions return the list of format strings they pass to
  \<^verbatim>\<open>s_printf\<close>.
\<close>

fun stop_at :: "mem option \<Rightarrow> mem \<Rightarrow> nat \<Rightarrow> nat \<Rightarrow> mem option" where
  "stop_at p thestr i 0 = Some thestr"
| "stop_at p thestr i (Suc n) =
     do {
       c \<leftarrow> rdp p i;
       v \<leftarrow> mask sNonPrintChars c;
       if v \<noteq> 0 then Some (thestr[i := NUL]) else stop_at p thestr (i + 1) n
     }"

definition PrintStr :: "StrPtrLen \<Rightarrow> mem option \<Rightarrow> mem option \<Rightarrow> string list option" where
  "PrintStr s prependStr appendStr =
     do {
       pre \<leftarrow> (case prependStr of None \<Rightarrow> Some [] | Some p \<Rightarrow> map_option (\<lambda>x. [x]) (cstr p));
       thestr \<leftarrow> GetAsCString s;
       thestr \<leftarrow> stop_at (Ptr s) thestr 0 (Len s);
       out \<leftarrow> cstr thestr;
       post \<leftarrow> (case appendStr of None \<Rightarrow> Some [] | Some p \<Rightarrow> map_option (\<lambda>x. [x]) (cstr p));
       Some (pre @ [out] @ post)
     }"

text \<open>Replacing the format characters: the loop runs to the first zero byte.\<close>

function defuse :: "mem \<Rightarrow> nat \<Rightarrow> (mem \<times> nat) option" where
  "defuse thestr i =
     (if i < length thestr then
        (if thestr ! i = NUL then Some (thestr, i)
         else if thestr ! i = CHR ''%'' then
           do { d \<leftarrow> rd thestr (i + 1);
                defuse (if d \<noteq> CHR ''%'' then thestr[i := CHR ''$''] else thestr) (i + 1) }
         else defuse thestr (i + 1))
      else None)"
  by pat_completeness auto
termination
  by (relation "measure (\<lambda>(m, i). length m - i)") auto

declare defuse.simps [simp del]

function eol_loop :: "mem \<Rightarrow> nat \<Rightarrow> nat \<Rightarrow> string list option" where
  "eol_loop line i tempLen =
     (if i < tempLen then
        do {
          c \<leftarrow> rd line i;
          if c = CHR 0x0D \<or> c = CHR 0x0A then
            do {
              rest \<leftarrow> eol_loop (drop (i + 1) line) 0 (tempLen - (i + 1));
              Some (takeWhile (\<lambda>c. c \<noteq> NUL) (take i line) #
                    (if c = CHR 0x0D then [CHR 0x5C, CHR ''r''] else [CHR 0x5C, CHR ''n'', CHR 0x0A]) # rest)
            }
          else eol_loop line (i + 1) tempLen
        }
      else map_option (\<lambda>x. [x]) (cstr line))"
  by pat_completeness auto
termination
  by (relation "measure (\<lambda>(m, i, n). n - i)") auto

declare eol_loop.simps [simp del]

definition PrintStrEOL :: "StrPtrLen \<Rightarrow> mem option \<Rightarrow> mem option \<Rightarrow> string list option" where
  "PrintStrEOL s stopStr appendStr =
     do {
       thestr \<leftarrow> GetAsCString s;
       thestr \<leftarrow> stop_at (Ptr s) thestr 0 (Len s);
       (thestr, i) \<leftarrow> defuse thestr 0;
       stopLen \<leftarrow> (case stopStr of None \<Rightarrow> Some 0 | Some p \<Rightarrow> strlen p);
       (thestr, i) \<leftarrow>
         (case stopStr of
            Some p \<Rightarrow>
              if stopLen > 0 \<and> stopLen \<le> i then
                do {
                  r \<leftarrow> strstr thestr p;
                  Some (case r of
                          None \<Rightarrow> (thestr, i)
                        | Some off \<Rightarrow> (thestr[off + stopLen := NUL], off + stopLen))
                }
              else Some (thestr, i)
          | None \<Rightarrow> Some (thestr, i));
       out \<leftarrow> eol_loop thestr 0 i;
       post \<leftarrow> (case appendStr of None \<Rightarrow> Some [] | Some p \<Rightarrow> map_option (\<lambda>x. [x]) (cstr p));
       Some (out @ post)
     }"

section \<open>Contents and validity\<close>

definition str :: "StrPtrLen \<Rightarrow> string" where
  "str s = (case Ptr s of None \<Rightarrow> [] | Some m \<Rightarrow> take (Len s) m)"

definition valid :: "StrPtrLen \<Rightarrow> bool" where
  "valid s \<longleftrightarrow> (case Ptr s of None \<Rightarrow> Len s = 0 | Some m \<Rightarrow> Len s \<le> length m)"

lemma length_str [simp]: "valid s \<Longrightarrow> length (str s) = Len s"
  by (auto simp: valid_def str_def split: option.splits)

lemma Equal_valid:
  assumes "valid s" "valid t" "Ptr s \<noteq> None" "Ptr t \<noteq> None"
  shows "Equal s t = Some (str s = str t)"
proof -
  obtain p c where p: "Ptr s = Some p" "Ptr t = Some c" using assms by auto
  then have "str s = str t \<Longrightarrow> Len t = Len s"
    using assms by (metis length_str)
  then show ?thesis using assms p by (auto simp: Equal_def valid_def str_def memcmp_eq_def)
qed

lemma Equal_c_valid:
  assumes "valid s" "Ptr s \<noteq> None" "NUL \<notin> set q"
  shows "Equal_c s (Some (cstring q)) = Some (str s = q)"
proof -
  obtain p where p: "Ptr s = Some p" using assms by auto
  show ?thesis
  proof (cases "length q = Len s")
    case True
    then show ?thesis using assms p
      by (auto simp: Equal_c_def valid_def str_def memcmp_eq_def cstring_def strlen_def)
  next
    case False
    then have "str s \<noteq> q" using assms by auto
    with False assms p show ?thesis by (simp add: Equal_c_def)
  qed
qed

text \<open>The case table: lower case for the upper-case letters, the identity elsewhere.\<close>

lemma byte_char_of [simp]: "n < 256 \<Longrightarrow> byte (char_of n) = n"
  by (simp add: byte_def)

lemma mask_table:
  "i < 130 \<Longrightarrow> sCaseInsensitiveMask ! i = (if 65 \<le> i \<and> i \<le> 90 then i + 32 else i)"
proof -
  have "\<forall>i \<in> {0..<130}. sCaseInsensitiveMask ! i = (if 65 \<le> i \<and> i \<le> 90 then i + 32 else i)"
    by code_simp
  then show "i < 130 \<Longrightarrow> ?thesis" by simp
qed

lemma length_mask_table [simp]: "length sCaseInsensitiveMask = 130"
  by (simp add: sCaseInsensitiveMask_def)

lemma mask_tolower: "byte c < 130 \<Longrightarrow> mask sCaseInsensitiveMask c = Some (byte (tolower c))"
  by (simp add: mask_def mask_table tolower_def)

lemma ci_loop_spec:
  assumes "x + n \<le> length p" "x + n \<le> length c"
    and "\<forall>a \<in> set (take n (drop x p)) \<union> set (take n (drop x c)). byte a < 130"
  shows "ci_loop (Some p) (Some c) x n =
    Some (map tolower (take n (drop x p)) = map tolower (take n (drop x c)))"
  using assms
proof (induction n arbitrary: x)
  case (Suc n)
  have d: "take (Suc n) (drop x p) = p ! x # take n (drop (x + 1) p)"
      "take (Suc n) (drop x c) = c ! x # take n (drop (x + 1) c)"
    using Suc.prems by (simp_all add: drop_nth_Cons)
  then show ?case using Suc by (simp add: rdp_def mask_tolower)
qed simp

text \<open>Substring search.\<close>

lemma occurs_at_iff: "occurs_at q s \<longleftrightarrow> (\<exists>v. s = q @ v)"
  by (induction q s rule: occurs_at.induct) auto

lemma find_sub_Some:
  "find_sub q s = Some i \<Longrightarrow> i \<le> length s \<and> (\<exists>v. s = take i s @ q @ v) \<and> (\<forall>u v. s = u @ q @ v \<longrightarrow> i \<le> length u)"
proof (induction s arbitrary: i)
  case Nil
  then show ?case by (auto simp: occurs_at_iff split: if_splits)
next
  case (Cons c s)
  show ?case
  proof (cases "occurs_at q (c # s)")
    case True
    with Cons.prems show ?thesis by (auto simp: occurs_at_iff)
  next
    case False
    with Cons.prems obtain j where j: "find_sub q s = Some j" "i = Suc j" by auto
    have "i \<le> length u" if "c # s = u @ q @ v" for u v
      using that False Cons.IH [OF j(1)] j(2) by (cases u) (auto simp: occurs_at_iff)
    with Cons.IH [OF j(1)] j(2) show ?thesis by auto
  qed
qed

lemma find_sub_None: "find_sub q s = None \<Longrightarrow> s \<noteq> u @ q @ v"
proof (induction s arbitrary: u)
  case Nil
  then show ?case by (auto simp: occurs_at_iff split: if_splits)
next
  case (Cons c s)
  then show ?case by (cases u) (auto simp: occurs_at_iff split: if_splits)
qed

lemma toupper_NUL [simp]: "toupper c = NUL \<longleftrightarrow> c = NUL"
proof (cases "97 \<le> byte c \<and> byte c \<le> 122")
  case True
  then have "byte (toupper c) \<noteq> 0" "byte c \<noteq> 0" by (auto simp: toupper_def)
  moreover have "byte NUL = 0" by (simp add: byte_def)
  ultimately show ?thesis by metis
qed (auto simp: toupper_def)

lemma upper_loop_spec:
  "x + n \<le> length m \<Longrightarrow>
   upper_loop m x n = Some (take x m @ map toupper (take n (drop x m)) @ drop (x + n) m)"
proof (induction n arbitrary: m x)
  case (Suc n)
  let ?m = "m[x := toupper (m ! x)]"
  have "take (Suc x) ?m = take x m @ [toupper (m ! x)]"
    using Suc.prems by (simp add: take_Suc_conv_app_nth)
  moreover have "drop (Suc x) ?m = drop (Suc x) m" "drop (Suc x + n) ?m = drop (Suc x + n) m" by simp_all
  moreover have "take (Suc n) (drop x m) = m ! x # take n (drop (Suc x) m)"
    using Suc.prems by (simp add: drop_nth_Cons)
  ultimately show ?case using Suc.prems Suc.IH [of "Suc x" ?m] by simp
qed simp

lemma upper_loop_cstring:
  "upper_loop (s @ [NUL]) 0 (length s) = Some (map toupper s @ [NUL])"
  by (simp add: upper_loop_spec)

lemma cstr_append [simp]: "NUL \<notin> set s \<Longrightarrow> cstr (s @ NUL # r) = Some s"
  by (simp add: cstr_def)

lemma strlen_append [simp]: "NUL \<notin> set s \<Longrightarrow> strlen (s @ NUL # r) = Some (length s)"
  by (simp add: strlen_def)

lemma NUL_map_toupper [simp]: "NUL \<in> toupper ` set s \<longleftrightarrow> NUL \<in> set s"
  using toupper_NUL by (metis imageE image_eqI)

text \<open>The comparison key of the search: upper case unless it is case-sensitive.\<close>

definition fold_case :: "bool \<Rightarrow> string \<Rightarrow> string" where
  "fold_case cs s = (if cs then s else map toupper s)"

lemma FindStringCase_eq:
  assumes s: "valid s" "Ptr s \<noteq> None" "Len s > 0" "NUL \<notin> set (str s)" and q: "NUL \<notin> set q"
  shows "FindStringCase s (Some (cstring q)) cs =
    Some (find_sub (fold_case cs q) (fold_case cs (str s)),
          case find_sub (fold_case cs q) (fold_case cs (str s)) of None \<Rightarrow> StrPtrLen_null
          | Some i \<Rightarrow> \<lparr>Ptr = map_option (drop i) (Ptr s), Len = length q\<rparr>)"
proof -
  obtain p where p: "Ptr s = Some p" using s(2) by auto
  have len: "Len s \<le> length p" and st: "str s = take (Len s) p" using s p by (auto simp: valid_def str_def)
  have "p ! (Len s - 1) \<in> set (str s)" using s(3) len unfolding st
    by (auto simp: in_set_conv_nth intro!: exI [of _ "Len s - 1"])
  then have last: "p ! (Len s - 1) \<noteq> NUL" using s(4) by metis
  have bound: "\<not> Len s < i" if "find_sub (fold_case cs q) (fold_case cs (str s)) = Some i" for i
    using find_sub_Some [OF that] s(1) by (auto simp: fold_case_def split: if_splits)
  have d: "strdup (str s @ [NUL]) = Some (str s @ [NUL])" "strdup (q @ [NUL]) = Some (q @ [NUL])"
    using s q by (simp_all add: strdup_def)
  have search: "search_str cs (str s @ [NUL]) (q @ [NUL]) = Some (find_sub (fold_case cs q) (fold_case cs (str s)))"
    using s q by (simp add: search_str_def d fold_case_def strstr_def upper_loop_cstring del: length_str)
  show ?thesis
    unfolding FindStringCase_def
    using s(3) last len search bound
    by (auto simp: p st [symmetric] cstring_def Let_def q split: option.splits)
qed

text \<open>Trimming.\<close>

lemma trim_lead_spec:
  "n \<le> length m \<Longrightarrow> \<exists>m' n'. trim_lead m n = Some (m', n') \<and> n' \<le> length m' \<and> take n' m' = dropWhile blank (take n m)"
  by (induction m n rule: trim_lead.induct) auto

lemma trim_trail_spec:
  "n \<le> length m \<Longrightarrow> \<exists>n'. trim_trail m n = Some n' \<and> n' \<le> n \<and> take n' m = rev (dropWhile blank (rev (take n m)))"
proof (induction n)
  case (Suc n)
  have "take (Suc n) m = take n m @ [m ! n]" using Suc.prems by (simp add: take_Suc_conv_app_nth)
  with Suc show ?case by auto
qed simp

lemma rm_ws_spec:
  assumes "dest \<le> src" "src \<le> endp" "endp \<le> length m"
  shows "\<exists>m' d. rm_ws m src dest endp = Some (m', d) \<and> length m' = length m \<and> d \<le> endp \<and>
    take d m' = take dest m @ filter (Not \<circ> blank) (take (endp - src) (drop src m)) \<and> drop endp m' = drop endp m"
  using assms
proof (induction m src dest endp rule: rm_ws.induct)
  case (1 m src dest endp)
  show ?case
  proof (cases "src < endp")
    case False
    then have "rm_ws m src dest endp = Some (m, dest)" by (subst rm_ws.simps) simp
    with False 1 show ?thesis by auto
  next
    case True
    then have lt: "src < length m" using 1 by simp
    have d: "take (endp - src) (drop src m) = m ! src # take (endp - Suc src) (drop (Suc src) m)"
      using True 1 by (intro take_drop_Cons) auto
    show ?thesis
    proof (cases "blank (m ! src)")
      case blank: True
      have "rm_ws m src dest endp = rm_ws m (src + 1) dest endp"
        using True lt blank by (simp add: rm_ws.simps [of m src dest endp])
      with 1(2) [OF True, of "m ! src"] 1 True lt blank d show ?thesis by simp
    next
      case nb: False
      let ?m = "if src \<noteq> dest then m[dest := m ! src] else m"
      have e: "rm_ws m src dest endp = rm_ws ?m (src + 1) (dest + 1) endp"
        using True lt nb by (simp add: rm_ws.simps [of m src dest endp])
      have t: "take (dest + 1) ?m = take dest m @ [m ! src]" "drop (src + 1) ?m = drop (src + 1) m"
          "drop endp ?m = drop endp m" "length ?m = length m"
        using 1 lt True by (auto simp: take_Suc_conv_app_nth)
      show ?thesis
        using 1(1) [OF True, of "m ! src"] 1(3-5) True lt nb d t unfolding e by simp
    qed
  qed
qed

text \<open>Printing.\<close>

lemma stop_at_printable:
  "i + n \<le> length m \<Longrightarrow> \<forall>c \<in> set (take n (drop i m)). mask sNonPrintChars c = Some 0 \<Longrightarrow>
   stop_at (Some m) t i n = Some t"
proof (induction n arbitrary: i)
  case (Suc n)
  have "take (Suc n) (drop i m) = m ! i # take n (drop (Suc i) m)"
    using Suc.prems by (simp add: drop_nth_Cons)
  with Suc show ?case by (simp add: rdp_def)
qed simp

lemma defuse_plain:
  "i \<le> length xs \<Longrightarrow> NUL \<notin> set xs \<Longrightarrow> CHR ''%'' \<notin> set xs \<Longrightarrow> defuse (xs @ [NUL]) i = Some (xs @ [NUL], length xs)"
proof (induction "length xs - i" arbitrary: i)
  case 0
  then have i: "i = length xs" by simp
  show ?case unfolding i by (subst defuse.simps) simp
next
  case (Suc n)
  then have "i < length xs" by simp
  moreover from this Suc.prems have "xs ! i \<noteq> NUL" "xs ! i \<noteq> CHR ''%''" by (auto simp: in_set_conv_nth)
  ultimately show ?case using Suc by (subst defuse.simps) (simp add: nth_append)
qed

definition eol_escape :: "char \<Rightarrow> string" where
  "eol_escape c =
     (if c = CHR 0x0D then [CHR 0x5C, CHR ''r'']
      else if c = CHR 0x0A then [CHR 0x5C, CHR ''n'', CHR 0x0A] else [c])"

lemma eol_escape_plain: "CHR 0x0D \<notin> set xs \<Longrightarrow> CHR 0x0A \<notin> set xs \<Longrightarrow> concat (map eol_escape xs) = xs"
  by (induction xs) (auto simp: eol_escape_def)

lemma takeWhile_all: "NUL \<notin> set xs \<Longrightarrow> takeWhile (\<lambda>c. c \<noteq> NUL) xs = xs"
  by (induction xs) auto

lemma eol_loop_spec:
  assumes "i \<le> length xs" "NUL \<notin> set xs" "CHR 0x0D \<notin> set (take i xs)" "CHR 0x0A \<notin> set (take i xs)"
  shows "\<exists>out. eol_loop (xs @ [NUL]) i (length xs) = Some out \<and> concat out = concat (map eol_escape xs)"
  using assms
proof (induction "2 * length xs - i" arbitrary: xs i rule: less_induct)
  case less
  show ?case
  proof (cases "i < length xs")
    case False
    then have "i = length xs" using less.prems by simp
    then show ?thesis using less.prems by (subst eol_loop.simps) (simp add: eol_escape_plain)
  next
    case True
    let ?c = "xs ! i"
    have split: "xs = take i xs @ ?c # drop (Suc i) xs" using True by (simp add: id_take_nth_drop)
    have esc: "concat (map eol_escape xs) = take i xs @ eol_escape ?c @ concat (map eol_escape (drop (Suc i) xs))"
      by (subst split) (use less.prems in \<open>simp add: eol_escape_plain\<close>)
    show ?thesis
    proof (cases "?c = CHR 0x0D \<or> ?c = CHR 0x0A")
      case False
      moreover have "take (Suc i) xs = take i xs @ [?c]" using True by (simp add: take_Suc_conv_app_nth)
      ultimately have "\<exists>out. eol_loop (xs @ [NUL]) (Suc i) (length xs) = Some out \<and> concat out = concat (map eol_escape xs)"
        using less.prems True by (intro less.hyps) auto
      with False True show ?thesis by (subst eol_loop.simps) (simp add: nth_append)
    next
      case nl: True
      have "NUL \<notin> set (drop (Suc i) xs)" "NUL \<notin> set (take i xs)"
        using less.prems(2) by (auto dest: in_set_dropD in_set_takeD)
      moreover have "2 * length (drop (Suc i) xs) - 0 < 2 * length xs - i" using True by simp
      ultimately obtain out where
        out: "eol_loop (drop (Suc i) xs @ [NUL]) 0 (length (drop (Suc i) xs)) = Some out"
        "concat out = concat (map eol_escape (drop (Suc i) xs))"
        using less.hyps [of "drop (Suc i) xs" 0] by auto
      have dr: "drop (Suc i) (xs @ [NUL]) = drop (Suc i) xs @ [NUL]" using True by simp
      have "take i (xs @ [NUL]) = take i xs" using True by simp
      then have e: "eol_loop (xs @ [NUL]) i (length xs) = Some (take i xs # eol_escape ?c # out)"
        using True nl out(1) dr \<open>NUL \<notin> set (take i xs)\<close>
        by (subst eol_loop.simps) (auto simp: nth_append eol_escape_def takeWhile_all)
      show ?thesis unfolding e using esc out(2) by simp
    qed
  qed
qed

section \<open>Properties\<close>

lemma EqualIgnoreCase_eq:
  assumes "valid s" "Ptr s \<noteq> None" "len \<le> length c"
    and "\<forall>a \<in> set (str s) \<union> set (take len c). byte a < 130"
  shows "EqualIgnoreCase s (Some c) len = Some (map tolower (str s) = map tolower (take len c))"
proof (cases "len = Len s")
  case True
  obtain p where p: "Ptr s = Some p" using assms by auto
  with True ci_loop_spec [of 0 len p c] assms show ?thesis
    by (simp add: EqualIgnoreCase_def valid_def str_def)
next
  case False
  then have "length (map tolower (str s)) \<noteq> length (map tolower (take len c))" using assms by simp
  with False show ?thesis by (auto simp: EqualIgnoreCase_def simp del: length_map)
qed

text \<open>\<^verbatim>\<open>StrPtrLen::EqualIgnoreCase\<close> on text whose bytes are below 130
  compares the two strings after mapping A-Z to a-z, reads only bytes of the two
  strings, and is false for different lengths.\<close>

theorem EqualIgnoreCase_spec:
  assumes "valid s" "Ptr s \<noteq> None" "len \<le> length c"
    and "\<forall>a \<in> set (str s) \<union> set (take len c). byte a < 130"
  shows "EqualIgnoreCase s (Some c) len = Some (map tolower (str s) = map tolower (take len c))"
  by (rule EqualIgnoreCase_eq [OF assms])

theorem EqualIgnoreCase_spec_witness:
  "EqualIgnoreCase \<lparr>Ptr = Some ''Host: x'', Len = 4\<rparr> (Some ''hOST'') 4 = Some True"
proof -
  let ?s = "\<lparr>Ptr = Some ''Host: x'', Len = 4\<rparr>"
  have 1: "valid ?s" and 2: "Ptr ?s \<noteq> None" and 3: "4 \<le> length ''hOST''" by code_simp+
  have 4: "\<forall>a \<in> set (str ?s) \<union> set (take 4 ''hOST''). byte a < 130" by code_simp
  have 5: "map tolower (str ?s) = map tolower (take 4 ''hOST'')" by code_simp
  show ?thesis using EqualIgnoreCase_spec [OF 1 2 3 4] unfolding 5 by (simp only: simp_thms)
qed

text \<open>For a byte of 130 or more \<^verbatim>\<open>EqualIgnoreCase\<close> reads outside the
  130 entries of \<^verbatim>\<open>sCaseInsensitiveMask\<close>.\<close>

theorem EqualIgnoreCase_high_byte:
  assumes "130 \<le> byte a"
  shows "EqualIgnoreCase \<lparr>Ptr = Some (a # p), Len = Suc n\<rparr> (Some c) (Suc n) = None"
  using assms by (simp add: EqualIgnoreCase_def rdp_def mask_def)

theorem EqualIgnoreCase_high_byte_witness:
  "EqualIgnoreCase \<lparr>Ptr = Some [CHR 0xE9], Len = 1\<rparr> (Some [CHR 0xE9]) 1 = None"
  using EqualIgnoreCase_high_byte [of "CHR 0xE9" "[]" 0 "[CHR 0xE9]"] by (simp add: byte_def)

text \<open>\<^verbatim>\<open>FindString\<close> and \<^verbatim>\<open>FindStringIgnoreCase\<close> return the
  first occurrence of the query in the counted string, compared byte by byte or in upper
  case, and \<^verbatim>\<open>nullptr\<close> exactly when there is none; \<^verbatim>\<open>*resultStr\<close> is
  set to the matched bytes, or to the null string. Neither the copy that adds a missing
  terminator nor the upper-case copies are read out of bounds.\<close>

theorem FindStringCase_spec:
  assumes "valid s" "Ptr s \<noteq> None" "Len s > 0" "NUL \<notin> set (str s)" "NUL \<notin> set q"
  shows "\<exists>r res. FindStringCase s (Some (cstring q)) cs = Some (r, res) \<and>
    (case r of
       None \<Rightarrow> (\<forall>u v. fold_case cs (str s) \<noteq> u @ fold_case cs q @ v) \<and> res = StrPtrLen_null
     | Some i \<Rightarrow> valid res \<and> Len res = length q \<and> fold_case cs (str res) = fold_case cs q \<and>
         str res = take (length q) (drop i (str s)) \<and>
         (\<forall>u v. fold_case cs (str s) = u @ fold_case cs q @ v \<longrightarrow> i \<le> length u))"
proof (cases "find_sub (fold_case cs q) (fold_case cs (str s))")
  case None
  with find_sub_None [OF None] FindStringCase_eq [OF assms, of cs] show ?thesis by auto
next
  case (Some i)
  obtain p where p: "Ptr s = Some p" using assms by auto
  then have st: "str s = take (Len s) p" "Len s \<le> length p" using assms by (auto simp: str_def valid_def)
  from find_sub_Some [OF Some] obtain v where
    v: "fold_case cs (str s) = take i (fold_case cs (str s)) @ fold_case cs q @ v"
    and least: "\<forall>u v. fold_case cs (str s) = u @ fold_case cs q @ v \<longrightarrow> i \<le> length u"
    and i: "i \<le> length (str s)" by (auto simp: fold_case_def split: if_splits)
  have "length (fold_case cs (str s)) = i + length q + length v"
    using i by (subst v) (simp add: fold_case_def)
  then have len: "i + length q \<le> Len s" using assms(1) by (simp add: fold_case_def split: if_splits)
  have "take (length q) (drop i (fold_case cs (str s))) = fold_case cs q"
    using i by (subst v) (simp add: fold_case_def)
  then have m: "fold_case cs (take (length q) (drop i (str s))) = fold_case cs q"
    by (simp add: fold_case_def take_map drop_map split: if_splits)
  have "take (length q) (drop i p) = take (length q) (drop i (str s))"
    using len by (simp add: st(1) drop_take min_def)
  with m least len st(2) Some p FindStringCase_eq [OF assms, of cs] show ?thesis
    by (auto simp: valid_def str_def)
qed

theorem FindStringCase_spec_witness:
  "\<exists>r res. FindStringCase \<lparr>Ptr = Some ''Content-Type: x'', Len = 12\<rparr> (Some (cstring ''TYPE'')) False = Some (r, res)"
  using FindStringCase_spec [of "\<lparr>Ptr = Some ''Content-Type: x'', Len = 12\<rparr>" "''TYPE''" False]
  by (auto simp: valid_def str_def)

text \<open>\<^verbatim>\<open>TrimWhitespace\<close> removes exactly the leading and trailing blanks and
  tabs, \<^verbatim>\<open>RemoveWhitespace\<close> compacts the string in place to its other
  characters without touching memory behind it; both stay inside the buffer.\<close>

theorem whitespace_spec:
  assumes "valid s" "Ptr s = Some m"
  shows "(\<exists>t. TrimWhitespace s = Some t \<and> valid t \<and>
            str t = rev (dropWhile blank (rev (dropWhile blank (str s))))) \<and>
         (\<exists>n t m'. RemoveWhitespace s = Some (n, t) \<and> valid t \<and> n = Len t \<and>
            str t = filter (Not \<circ> blank) (str s) \<and>
            Ptr t = Some m' \<and> length m' = length m \<and> drop (Len s) m' = drop (Len s) m)"
proof
  have len: "Len s \<le> length m" using assms by (simp add: valid_def)
  obtain m1 n1 where 1: "trim_lead m (Len s) = Some (m1, n1)" "n1 \<le> length m1" "take n1 m1 = dropWhile blank (take (Len s) m)"
    using trim_lead_spec [OF len] by auto
  obtain n2 where 2: "trim_trail m1 n1 = Some n2" "n2 \<le> n1" "take n2 m1 = rev (dropWhile blank (rev (take n1 m1)))"
    using trim_trail_spec [OF 1(2)] by auto
  show "\<exists>t. TrimWhitespace s = Some t \<and> valid t \<and> str t = rev (dropWhile blank (rev (dropWhile blank (str s))))"
    using assms 1 2 by (auto simp: TrimWhitespace_def TrimLeadingWhitespace_def TrimTrailingWhitespace_def
        valid_def str_def)
  from rm_ws_spec [of 0 0 "Len s" m] len obtain m' d where
    "rm_ws m 0 0 (Len s) = Some (m', d)" "length m' = length m" "d \<le> Len s"
    "take d m' = filter (Not \<circ> blank) (take (Len s) m)" "drop (Len s) m' = drop (Len s) m" by auto
  with assms len show "\<exists>n t m'. RemoveWhitespace s = Some (n, t) \<and> valid t \<and> n = Len t \<and>
            str t = filter (Not \<circ> blank) (str s) \<and>
            Ptr t = Some m' \<and> length m' = length m \<and> drop (Len s) m' = drop (Len s) m"
    by (cases "Len s = 0") (auto simp: RemoveWhitespace_def valid_def str_def)
qed

theorem whitespace_spec_witness:
  "\<exists>t. TrimWhitespace \<lparr>Ptr = Some ''  a b  c'', Len = 7\<rparr> = Some t \<and> str t = ''a b''"
  using whitespace_spec [of "\<lparr>Ptr = Some ''  a b  c'', Len = 7\<rparr>" "''  a b  c''"]
  by (auto simp: valid_def str_def blank_def)

text \<open>\<^verbatim>\<open>PrintStrEOL\<close> of printable text without percent signs prints the
  text with every carriage return shown as backslash-r and every line feed as backslash-n
  followed by a line break, then the appended string.\<close>

theorem PrintStrEOL_spec:
  assumes "valid s" "Ptr s \<noteq> None" "NUL \<notin> set (str s)" "CHR ''%'' \<notin> set (str s)"
    and "\<forall>c \<in> set (str s). mask sNonPrintChars c = Some 0" "NUL \<notin> set a"
  shows "\<exists>out. PrintStrEOL s None (Some (cstring a)) = Some out \<and>
    concat out = concat (map eol_escape (str s)) @ a"
proof -
  obtain p where p: "Ptr s = Some p" using assms by auto
  have st: "GetAsCString s = Some (str s @ [NUL])"
    using assms(1) p by (simp add: GetAsCString_def valid_def str_def)
  have sa: "stop_at (Ptr s) (str s @ [NUL]) 0 (Len s) = Some (str s @ [NUL])"
    unfolding p using assms p by (intro stop_at_printable) (auto simp: valid_def str_def)
  have df: "defuse (str s @ [NUL]) 0 = Some (str s @ [NUL], length (str s))"
    using assms by (intro defuse_plain) auto
  obtain out where out: "eol_loop (str s @ [NUL]) 0 (length (str s)) = Some out"
      "concat out = concat (map eol_escape (str s))"
    using eol_loop_spec [of 0 "str s"] assms by auto
  have "cstr (cstring a) = Some a" using assms by (simp add: cstring_def)
  with st sa df out show ?thesis by (simp add: PrintStrEOL_def del: length_str)
qed

theorem PrintStrEOL_spec_witness:
  "\<exists>out. PrintStrEOL \<lparr>Ptr = Some [CHR ''a'', CHR 0x0D, CHR 0x0A, CHR ''b''], Len = 4\<rparr> None (Some (cstring ''.'')) = Some out \<and>
     concat out = [CHR ''a'', CHR 0x5C, CHR ''r'', CHR 0x5C, CHR ''n'', CHR 0x0A, CHR ''b'', CHR ''.'']"
proof -
  have "\<forall>c \<in> {CHR ''a'', CHR 0x0D, CHR 0x0A, CHR ''b''}. mask sNonPrintChars c = Some 0" by code_simp
  then show ?thesis
    using PrintStrEOL_spec [of "\<lparr>Ptr = Some [CHR ''a'', CHR 0x0D, CHR 0x0A, CHR ''b''], Len = 4\<rparr>" "''.''"]
    by (simp add: valid_def str_def eol_escape_def)
qed

text \<open>\<^verbatim>\<open>PrintStrEOL\<close> means to neutralise format directives, but a doubled
  percent sign becomes a percent-dollar pair, so \<^verbatim>\<open>s_printf\<close> still receives a
  (malformed) directive.\<close>

theorem PrintStrEOL_percent:
  "PrintStrEOL \<lparr>Ptr = Some ''a%%d'', Len = 4\<rparr> None None = Some [''a%$d'']"
  by code_simp

end
