(* ===== verification/CF_StrPtrLen_Test.thy ===== *)
theory CF_StrPtrLen_Test
  imports CF_StrPtrLen
begin

text \<open>
  The self-test \<^verbatim>\<open>StrPtrLen::Test\<close> of \<^verbatim>\<open>src/CFCore/StrPtrLen.cpp\<close>,
  evaluated on the model of \<^verbatim>\<open>StrPtrLen\<close>.
\<close>

section \<open>The self-test of the class\<close>

text \<open>
  \<^verbatim>\<open>StrPtrLen::Test\<close>, compiled only with \<^verbatim>\<open>STRPTRLEN_TESTING\<close>, as
  the list of its checks in order: the test returns true when each of them is
  \<open>Some True\<close>.
\<close>

definition test1 :: mem where "test1 = cstring (''2347.;.]['' @ CHR 0x27 # '';[;]abcdefghijklmnopqrstuvwxyz#%#$$#'')"
definition test2 :: mem where "test2 = cstring (''2347.;.]['' @ CHR 0x27 # '';[;]ABCDEFGHIJKLMNOPQRSTUVWXYZ#%#$$#'')"
definition test3 :: mem where "test3 = cstring ''Content-Type:''"
definition test4 :: mem where "test4 = cstring ''cONTent-TYPe:''"
definition test5 :: mem where "test5 = cstring ''cONTnnt-TYPe:''"
definition test6 :: mem where "test6 = cstring ''cONTent-TY''"
definition test7 :: mem where "test7 = cstring ''ontent-Type:''"
definition test8 :: mem where "test8 = cstring ''ONTent-TYPe:''"
definition test9 :: mem where "test9 = cstring ''-TYPe:''"
definition test10 :: mem where "test10 = cstring '':''"

definition eq_ci :: "StrPtrLen \<Rightarrow> mem \<Rightarrow> bool option" where
  "eq_ci v t = do { n \<leftarrow> strlen t; EqualIgnoreCase v (Some t) n }"

definition finds :: "StrPtrLen \<Rightarrow> mem \<Rightarrow> bool option" where
  "finds v t = map_option (\<lambda>r. fst r \<noteq> None) (FindString v (Some t))"

definition finds_ci :: "StrPtrLen \<Rightarrow> mem \<Rightarrow> bool option" where
  "finds_ci v t = map_option (\<lambda>r. fst r \<noteq> None) (FindStringIgnoreCase v (Some t))"

definition fails :: "bool option \<Rightarrow> bool option" where
  "fails b = map_option Not b"

definition victim :: "mem \<Rightarrow> StrPtrLen" where
  "victim t = \<lparr>Ptr = Some t, Len = length t - 1\<rparr>"

definition equal_found :: "StrPtrLen \<Rightarrow> mem \<Rightarrow> bool option" where
  "equal_found v t =
     do { q \<leftarrow> StrPtrLen_cstr (Some t);
          (r, _) \<leftarrow> FindString v (Some t);
          Equal_c q (do { i \<leftarrow> r; p \<leftarrow> Ptr v; Some (drop i p) }) }"

definition no_result :: "StrPtrLen \<Rightarrow> mem \<Rightarrow> bool option" where
  "no_result v t = map_option (\<lambda>(r, res). r = None \<and> Len res = 0 \<and> Ptr res = None) (FindString v (Some t))"

definition result_equal :: "StrPtrLen \<Rightarrow> mem \<Rightarrow> bool option" where
  "result_equal v t =
     do { q \<leftarrow> StrPtrLen_cstr (Some t); (r, res) \<leftarrow> FindString v (Some t); Equal res q }"

definition StrPtrLen_Test_search :: "bool option list" where
  "StrPtrLen_Test_search =
     [eq_ci (victim test1) test2, fails (eq_ci (victim test1) test3), eq_ci (victim test1) test1,
      eq_ci (victim test3) test4, fails (eq_ci (victim test3) test5), fails (eq_ci (victim test3) test6),
      finds_ci (victim test1) test2, fails (finds_ci (victim test1) test3), finds_ci (victim test1) test1,
      finds_ci (victim test3) test4, fails (finds_ci (victim test3) test5), finds_ci (victim test3) test6,
      finds_ci (victim test3) test7, finds_ci (victim test3) test8, finds_ci (victim test3) test9,
      finds_ci (victim test3) test10,
      fails (finds (victim test1) test2), fails (finds (victim test1) test3), finds (victim test1) test1,
      fails (finds (victim test3) test4), fails (finds (victim test3) test5), fails (finds (victim test3) test6),
      finds (victim test3) test7, fails (finds (victim test3) test8), fails (finds (victim test3) test9),
      finds (victim test3) test10]"

definition StrPtrLen_Test_result :: "bool option list" where
  "StrPtrLen_Test_result =
     (let partialStaticSource = \<lparr>Ptr = Some test1, Len = 5\<rparr>
      in [no_result (victim test1) test2, no_result (victim test1) test3,
          result_equal (victim test1) test1,
          fails (equal_found (victim test3) test4), fails (equal_found (victim test3) test5),
          fails (equal_found (victim test3) test6), equal_found (victim test3) test7,
          fails (equal_found (victim test3) test8), fails (equal_found (victim test3) test9),
          equal_found (victim test3) test10, equal_found (victim test3) test10,
          fails (equal_found partialStaticSource (cstring ''abcd'')),
          fails (equal_found partialStaticSource (cstring ''47'')),
          do { (r, _) \<leftarrow> FindString partialStaticSource (Some (cstring ''47''));
               i \<leftarrow> r;
               fails (finds (victim (cstring ''47'')) (drop i test1)) },
          result_equal partialStaticSource (cstring ''47'')])"

section \<open>Result\<close>

lemma test_case:
  shows "eq_ci (victim test1) test2 = Some True"
  and "fails (eq_ci (victim test1) test3) = Some True"
  and "eq_ci (victim test1) test1 = Some True"
  and "eq_ci (victim test3) test4 = Some True"
  and "fails (eq_ci (victim test3) test5) = Some True"
  and "fails (eq_ci (victim test3) test6) = Some True"
  by code_simp+

lemma test_find_ci1:
  shows "finds_ci (victim test1) test2 = Some True"
  and "fails (finds_ci (victim test1) test3) = Some True"
  and "finds_ci (victim test1) test1 = Some True"
  by code_simp+

lemma test_find_ci2:
  shows "finds_ci (victim test3) test4 = Some True"
  and "fails (finds_ci (victim test3) test5) = Some True"
  and "finds_ci (victim test3) test6 = Some True"
  and "finds_ci (victim test3) test7 = Some True"
  and "finds_ci (victim test3) test8 = Some True"
  and "finds_ci (victim test3) test9 = Some True"
  and "finds_ci (victim test3) test10 = Some True"
  by code_simp+

lemma test_find:
  shows "fails (finds (victim test1) test2) = Some True"
  and "fails (finds (victim test1) test3) = Some True"
  and "finds (victim test1) test1 = Some True"
  and "fails (finds (victim test3) test4) = Some True"
  and "fails (finds (victim test3) test5) = Some True"
  and "fails (finds (victim test3) test6) = Some True"
  and "finds (victim test3) test7 = Some True"
  and "fails (finds (victim test3) test8) = Some True"
  and "fails (finds (victim test3) test9) = Some True"
  and "finds (victim test3) test10 = Some True"
  by code_simp+

lemma test_result:
  shows "no_result (victim test1) test2 = Some True"
  and "no_result (victim test1) test3 = Some True"
  and "result_equal (victim test1) test1 = Some True"
  by code_simp+

lemma test_found:
  shows "fails (equal_found (victim test3) test4) = Some True"
  and "fails (equal_found (victim test3) test5) = Some True"
  and "fails (equal_found (victim test3) test6) = Some True"
  and "equal_found (victim test3) test7 = Some True"
  and "fails (equal_found (victim test3) test8) = Some True"
  and "fails (equal_found (victim test3) test9) = Some True"
  and "equal_found (victim test3) test10 = Some True"
  by code_simp+

lemma test_partial:
  shows "fails (equal_found \<lparr>Ptr = Some test1, Len = 5\<rparr> (cstring ''abcd'')) = Some True"
  and "fails (equal_found \<lparr>Ptr = Some test1, Len = 5\<rparr> (cstring ''47'')) = Some True"
  and "result_equal \<lparr>Ptr = Some test1, Len = 5\<rparr> (cstring ''47'') = Some True"
  and "do { (r, _) \<leftarrow> FindString \<lparr>Ptr = Some test1, Len = 5\<rparr> (Some (cstring ''47'')); i \<leftarrow> r;
        fails (finds (victim (cstring ''47'')) (drop i test1)) } = Some True"
  by code_simp+

text \<open>The self-test \<^verbatim>\<open>StrPtrLen::Test\<close> passes: every one of its checks
  holds, and none of them reads out of bounds.\<close>

theorem StrPtrLen_Test_passes:
  "StrPtrLen_Test_search @ StrPtrLen_Test_result = replicate 41 (Some True)"
  unfolding StrPtrLen_Test_search_def StrPtrLen_Test_result_def Let_def
  by (simp only: test_case test_find_ci1 test_find_ci2 test_find test_result test_found test_partial) code_simp

end
