(* ===== verification/CF_Def.thy ===== *)
theory CF_Def
  imports CF_Prelude
begin

text \<open>
  The error codes and limits of \<^verbatim>\<open>src/Include/CF/CFDef.h\<close> that the HTTP
  components use. A \<^verbatim>\<open>CF_Error\<close> is a signed 32-bit integer that also carries
  values of \<^verbatim>\<open>errno\<close>, so it is an \<^typ>\<open>int\<close> here.
\<close>

definition CF_NoErr :: int where "CF_NoErr = 0"
definition CF_RequestFailed :: int where "CF_RequestFailed = - 1"
definition CF_RequestArrived :: int where "CF_RequestArrived = - 3"
definition CF_OutOfState :: int where "CF_OutOfState = - 4"
definition CF_BadArgument :: int where "CF_BadArgument = - 10"
definition CF_NotEnoughSpace :: int where "CF_NotEnoughSpace = - 13"
definition CF_WouldBlock :: int where "CF_WouldBlock = - 14"
definition CF_NotConnected :: int where "CF_NotConnected = - 15"
definition CF_FileNotFound :: int where "CF_FileNotFound = - 16"
definition CF_NoMoreData :: int where "CF_NoMoreData = - 17"

definition CF_MAX_REQUEST_BUFFER_SIZE :: nat where "CF_MAX_REQUEST_BUFFER_SIZE = 2 * 1024"

definition cfWriteFlagsBufferData :: nat where "cfWriteFlagsBufferData = 8"

text \<open>The two values of \<^verbatim>\<open>errno\<close> (on Linux) that the code tests for.\<close>

definition E2BIG :: int where "E2BIG = 7"
definition EAGAIN :: int where "EAGAIN = 11"

text \<open>
  \<^verbatim>\<open>Assert\<close> is compiled in by default; a failed assertion ends the process, which is
  \<^term>\<open>None\<close> here like every other undefined outcome.
\<close>

definition Assert :: "bool \<Rightarrow> unit option" where
  "Assert condition = (if condition then Some () else None)"

lemma Assert_simps [simp]: "Assert True = Some ()" "Assert False = None"
  by (simp_all add: Assert_def)

lemmas cf_error_defs =
  CF_NoErr_def CF_RequestFailed_def CF_RequestArrived_def CF_OutOfState_def CF_BadArgument_def CF_NotEnoughSpace_def
  CF_WouldBlock_def CF_NotConnected_def CF_FileNotFound_def CF_NoMoreData_def E2BIG_def EAGAIN_def

end
