(* ===== verification/CF_Queue.thy ===== *)
theory CF_Queue
  imports CF_Def
begin

text \<open>
  The intrusive doubly linked queue of \<^verbatim>\<open>src/CFCore/Queue.cpp\<close>, its iterator,
  the locked variants of \<^verbatim>\<open>src/CFCore/ConcurrentQueue.cpp\<close> and its client
  \<^verbatim>\<open>src/CFCore/BufferPool.cpp\<close>. Elements are objects the queue does not own, so
  the model has a store from addresses to \<^verbatim>\<open>QueueElem\<close> records; every statement
  of the source that writes a pointer is one store update. The sentinel is itself an
  element of the store. The abstract queue is the list of addresses, oldest first.
  The mutexes make each operation atomic; a condition-variable wait lets other
  threads change the state, which the model takes as an argument. The length is a number without
  wrap-around: it differs from the source's \<^verbatim>\<open>UInt32\<close> only from 2 to the 32 live elements on.
\<close>

section \<open>State\<close>

type_synonym addr = nat

record QueueElem =
  fNext :: "addr option"
  fPrev :: "addr option"
  fQueue :: "addr option"
  fObject :: addr

type_synonym qstore = "addr \<Rightarrow> QueueElem"

record Queue =
  queueAddr :: addr
  fSentinel :: addr
  fLength :: nat

definition QueueElem_new :: "addr \<Rightarrow> QueueElem" where
  "QueueElem_new enclosingObject = \<lparr>fNext = None, fPrev = None, fQueue = None, fObject = enclosingObject\<rparr>"

definition set_fNext :: "qstore \<Rightarrow> addr \<Rightarrow> addr option \<Rightarrow> qstore" where
  "set_fNext st a v = st(a := (st a)\<lparr>fNext := v\<rparr>)"

definition set_fPrev :: "qstore \<Rightarrow> addr \<Rightarrow> addr option \<Rightarrow> qstore" where
  "set_fPrev st a v = st(a := (st a)\<lparr>fPrev := v\<rparr>)"

definition set_fQueue :: "qstore \<Rightarrow> addr \<Rightarrow> addr option \<Rightarrow> qstore" where
  "set_fQueue st a v = st(a := (st a)\<lparr>fQueue := v\<rparr>)"

lemma store_upd [simp]:
  "fNext (set_fNext st a v x) = (if x = a then v else fNext (st x))"
  "fPrev (set_fNext st a v x) = fPrev (st x)"
  "fQueue (set_fNext st a v x) = fQueue (st x)"
  "fObject (set_fNext st a v x) = fObject (st x)"
  "fNext (set_fPrev st a v x) = fNext (st x)"
  "fPrev (set_fPrev st a v x) = (if x = a then v else fPrev (st x))"
  "fQueue (set_fPrev st a v x) = fQueue (st x)"
  "fObject (set_fPrev st a v x) = fObject (st x)"
  "fNext (set_fQueue st a v x) = fNext (st x)"
  "fPrev (set_fQueue st a v x) = fPrev (st x)"
  "fQueue (set_fQueue st a v x) = (if x = a then v else fQueue (st x))"
  "fObject (set_fQueue st a v x) = fObject (st x)"
  by (simp_all add: set_fNext_def set_fPrev_def set_fQueue_def)

section \<open>Operations\<close>

definition Queue_new :: "qstore \<Rightarrow> addr \<Rightarrow> addr \<Rightarrow> qstore \<times> Queue" where
  "Queue_new st this sentinel =
     (let st1 = st(sentinel := QueueElem_new 0);
          st2 = set_fNext st1 sentinel (Some sentinel);
          st3 = set_fPrev st2 sentinel (Some sentinel)
      in (st3, \<lparr>queueAddr = this, fSentinel = sentinel, fLength = 0\<rparr>))"

text \<open>
  Dereferencing a null pointer and a failed assertion are \<^term>\<open>None\<close> in the model;
  the assertions that an argument is not null hold because addresses are passed.
\<close>

definition EnQueue :: "qstore \<times> Queue \<Rightarrow> addr \<Rightarrow> (qstore \<times> Queue) option" where
  "EnQueue s elem =
     (let (st, q) = s
      in if fQueue (st elem) = Some (queueAddr q) then Some (st, q)
         else
           do {
             Assert (fQueue (st elem) = None);
             let st1 = set_fNext st elem (fNext (st (fSentinel q)));
             let st2 = set_fPrev st1 elem (Some (fSentinel q));
             let st3 = set_fQueue st2 elem (Some (queueAddr q));
             n \<leftarrow> fNext (st3 (fSentinel q));
             let st4 = set_fPrev st3 n (Some elem);
             let st5 = set_fNext st4 (fSentinel q) (Some elem);
             Some (st5, q\<lparr>fLength := fLength q + 1\<rparr>)
           })"

definition DeQueue :: "qstore \<times> Queue \<Rightarrow> (addr option \<times> qstore \<times> Queue) option" where
  "DeQueue s =
     (let (st, q) = s
      in if fLength q > 0 then
           do {
             elem \<leftarrow> fPrev (st (fSentinel q));
             Assert (elem \<noteq> fSentinel q);
             p \<leftarrow> fPrev (st elem);
             let st1 = set_fNext st p (Some (fSentinel q));
             let st2 = set_fPrev st1 (fSentinel q) (fPrev (st1 elem));
             let st3 = set_fQueue st2 elem None;
             Some (Some elem, st3, q\<lparr>fLength := fLength q - 1\<rparr>)
           }
         else Some (None, st, q))"

definition Remove_q :: "qstore \<times> Queue \<Rightarrow> addr \<Rightarrow> (qstore \<times> Queue) option" where
  "Remove_q s elem =
     (let (st, q) = s
      in do {
           Assert (elem \<noteq> fSentinel q);
           if fQueue (st elem) = Some (queueAddr q) then
             do {
               n \<leftarrow> fNext (st elem);
               let st1 = set_fPrev st n (fPrev (st elem));
               p \<leftarrow> fPrev (st1 elem);
               let st2 = set_fNext st1 p (fNext (st1 elem));
               let st3 = set_fQueue st2 elem None;
               Some (st3, q\<lparr>fLength := fLength q - 1\<rparr>)
             }
           else Some (st, q)
         })"

definition GetHead :: "qstore \<times> Queue \<Rightarrow> addr option" where
  "GetHead s = (if fLength (snd s) > 0 then fPrev (fst s (fSentinel (snd s))) else None)"

definition GetTail :: "qstore \<times> Queue \<Rightarrow> addr option" where
  "GetTail s = (if fLength (snd s) > 0 then fNext (fst s (fSentinel (snd s))) else None)"

definition GetLength :: "qstore \<times> Queue \<Rightarrow> nat" where
  "GetLength s = fLength (snd s)"

definition IsMember :: "qstore \<Rightarrow> addr \<Rightarrow> Queue \<Rightarrow> bool" where
  "IsMember st e q \<longleftrightarrow> Some (queueAddr q) = fQueue (st e)"

definition IsMemberOfAnyQueue :: "qstore \<Rightarrow> addr \<Rightarrow> bool" where
  "IsMemberOfAnyQueue st e \<longleftrightarrow> fQueue (st e) \<noteq> None"

text \<open>\<^verbatim>\<open>QueueElem::Remove\<close>, for an element whose queue, if any, is the given one.\<close>

definition QueueElem_Remove :: "qstore \<times> Queue \<Rightarrow> addr \<Rightarrow> (qstore \<times> Queue) option" where
  "QueueElem_Remove s elem = (if fQueue (fst s elem) \<noteq> None then Remove_q s elem else Some s)"

text \<open>The iterator holds the queue and the current element.\<close>

definition QueueIter :: "qstore \<times> Queue \<Rightarrow> addr option" where
  "QueueIter s = GetHead s"

definition QueueIter_at :: "qstore \<times> Queue \<Rightarrow> addr option \<Rightarrow> addr option option" where
  "QueueIter_at s startElemP =
     (case startElemP of
        Some e \<Rightarrow> do { Assert (IsMember (fst s) e (snd s)); Some (Some e) }
      | None \<Rightarrow> Some None)"

definition QueueIter_Next :: "qstore \<times> Queue \<Rightarrow> addr option \<Rightarrow> addr option option" where
  "QueueIter_Next s fCurrentElemP =
     (if fCurrentElemP = GetTail s then Some None
      else (case fCurrentElemP of None \<Rightarrow> None | Some e \<Rightarrow> Some (fPrev (fst s e))))"

definition QueueIter_IsDone :: "addr option \<Rightarrow> bool" where
  "QueueIter_IsDone fCurrentElemP \<longleftrightarrow> fCurrentElemP = None"

text \<open>
  A client's traversal \<^verbatim>\<open>for (QueueIter it(&q); !it.IsDone(); it.Next())\<close>,
  collecting the elements.
\<close>

fun iterate :: "nat \<Rightarrow> qstore \<times> Queue \<Rightarrow> addr option \<Rightarrow> addr list option" where
  "iterate 0 s cur = None"
| "iterate (Suc fuel) s cur =
     (case cur of
        None \<Rightarrow> Some []
      | Some e \<Rightarrow> do { cur' \<leftarrow> QueueIter_Next s cur; r \<leftarrow> iterate fuel s cur'; Some (e # r) })"

section \<open>Representation\<close>

fun linked :: "qstore \<Rightarrow> addr list \<Rightarrow> bool" where
  "linked st (x # y # zs) \<longleftrightarrow> fNext (st x) = Some y \<and> fPrev (st y) = Some x \<and> linked st (y # zs)"
| "linked st _ \<longleftrightarrow> True"

text \<open>
  \<open>queue_rep (st, q) xs\<close>: starting from the sentinel, the \<^verbatim>\<open>fNext\<close> pointers
  run through \<open>xs\<close> from the newest to the oldest element and back to the sentinel,
  the \<^verbatim>\<open>fPrev\<close> pointers run the other way, and exactly the elements of
  \<open>xs\<close> point to this queue.
\<close>

definition queue_rep :: "qstore \<times> Queue \<Rightarrow> addr list \<Rightarrow> bool" where
  "queue_rep s xs \<longleftrightarrow>
     (let (st, q) = s in
      linked st (fSentinel q # rev xs @ [fSentinel q]) \<and> distinct xs \<and>
      fQueue (st (fSentinel q)) = None \<and>
      (\<forall>e. fQueue (st e) = Some (queueAddr q) \<longleftrightarrow> e \<in> set xs) \<and> fLength q = length xs)"

lemma linked_append:
  "linked st (xs @ y # ys) \<longleftrightarrow> linked st (xs @ [y]) \<and> linked st (y # ys)"
proof (induction xs)
  case Nil
  then show ?case by simp
next
  case (Cons x xs)
  then show ?case by (cases xs) auto
qed

lemma linked_set_fNext [simp]:
  "x \<notin> set (butlast ys) \<Longrightarrow> linked (set_fNext st x v) ys = linked st ys"
proof (induction ys)
  case (Cons y ys)
  then show ?case by (cases ys) (auto split: if_splits)
qed simp

lemma linked_set_fPrev [simp]:
  "x \<notin> set (tl ys) \<Longrightarrow> linked (set_fPrev st x v) ys = linked st ys"
proof (induction ys)
  case (Cons y ys)
  then show ?case by (cases ys) auto
qed simp

lemma linked_set_fQueue [simp]: "linked (set_fQueue st x v) ys = linked st ys"
proof (induction ys)
  case (Cons y ys)
  then show ?case by (cases ys) auto
qed simp

lemma sentinel_not_member:
  "queue_rep (st, q) xs \<Longrightarrow> fSentinel q \<notin> set xs"
  by (force simp: queue_rep_def)

lemma queue_rep_empty:
  assumes "\<forall>e. fQueue (st e) \<noteq> Some this"
  shows "queue_rep (Queue_new st this sentinel) []"
  using assms by (simp add: queue_rep_def Queue_new_def QueueElem_new_def Let_def)

text \<open>Insertion behind the sentinel.\<close>

lemma EnQueue_rep:
  assumes rep: "queue_rep (st, q) xs" and free: "fQueue (st e) = None" and e: "e \<noteq> fSentinel q"
  shows "\<exists>st'. EnQueue (st, q) e = Some (st', q\<lparr>fLength := fLength q + 1\<rparr>) \<and>
     queue_rep (st', q\<lparr>fLength := fLength q + 1\<rparr>) (xs @ [e]) \<and>
     (\<forall>a. fObject (st' a) = fObject (st a)) \<and>
     (\<forall>a. fQueue (st' a) = (if a = e then Some (queueAddr q) else fQueue (st a))) \<and>
     (\<forall>a. a \<notin> insert e (insert (fSentinel q) (set xs)) \<longrightarrow> st' a = st a)"
proof -
  let ?s = "fSentinel q"
  have s: "?s \<notin> set xs" "fQueue (st ?s) = None" using rep by (auto simp: sentinel_not_member queue_rep_def)
  have exs: "e \<notin> set xs" using rep free by (force simp: queue_rep_def)
  obtain n ys where n: "rev xs @ [?s] = n # ys" by (cases "rev xs @ [?s]") auto
  have nmem: "n \<in> insert ?s (set xs)" using n by (cases "rev xs") auto
  have link: "fNext (st ?s) = Some n" "fPrev (st n) = Some ?s" "linked st (n # ys)"
    using rep n by (auto simp: queue_rep_def)
  define st5 where "st5 = set_fNext (set_fPrev (set_fQueue (set_fPrev (set_fNext st e (Some n)) e (Some ?s)) e
      (Some (queueAddr q))) n (Some e)) ?s (Some e)"
  have eq: "EnQueue (st, q) e = Some (st5, q\<lparr>fLength := fLength q + 1\<rparr>)"
    using e free link by (simp add: EnQueue_def st5_def Let_def)
  have ys: "n \<notin> set ys" "e \<notin> set ys" "?s \<notin> set (butlast (n # ys))" "e \<notin> set (n # ys)"
  proof -
    have "distinct (n # ys)" "set (n # ys) = insert ?s (set xs)" "butlast (n # ys) = rev xs"
      using n rep s by (auto simp flip: n simp: queue_rep_def)
    then show "n \<notin> set ys" "e \<notin> set ys" "?s \<notin> set (butlast (n # ys))" "e \<notin> set (n # ys)"
      using e exs s by auto
  qed
  have "e \<notin> set (butlast (n # ys))" using ys(4) by (meson in_set_butlastD)
  with ys link(3) have "linked st5 (n # ys)" unfolding st5_def by simp
  moreover have "e \<noteq> n" using nmem e exs by auto
  ultimately have "linked st5 (?s # e # n # ys)" using e by (simp add: st5_def)
  moreover have ring: "?s # rev (xs @ [e]) @ [?s] = ?s # e # n # ys" using n by simp
  ultimately have l5: "linked st5 (?s # rev (xs @ [e]) @ [?s])" by (simp only: ring)
  have fq: "fQueue (st5 a) = (if a = e then Some (queueAddr q) else fQueue (st a))"
    and ob: "fObject (st5 a) = fObject (st a)" for a
    by (simp_all add: st5_def)
  have mem: "fQueue (st a) = Some (queueAddr q) \<longleftrightarrow> a \<in> set xs" and len: "fLength q = length xs"
    and d: "distinct xs" for a
    using rep by (auto simp: queue_rep_def)
  have rep': "queue_rep (st5, q\<lparr>fLength := fLength q + 1\<rparr>) (xs @ [e])"
    unfolding queue_rep_def Let_def prod.case using l5 exs e s by (simp add: fq mem len d)
  have "st5 a = st a" if "a \<notin> insert e (insert ?s (set xs))" for a
    using that nmem by (auto simp: st5_def set_fNext_def set_fPrev_def set_fQueue_def)
  with eq rep' fq ob show ?thesis by blast
qed

text \<open>Unlinking one element; \<^verbatim>\<open>DeQueue\<close> is the case of the oldest one.\<close>

definition unlink :: "qstore \<Rightarrow> addr \<Rightarrow> addr \<Rightarrow> addr \<Rightarrow> qstore" where
  "unlink st p e n = set_fQueue (set_fNext (set_fPrev st n (Some p)) p (Some n)) e None"

lemma unlink_rep:
  assumes rep: "queue_rep (st, q) (us @ e # vs)"
  defines "p \<equiv> last (fSentinel q # rev vs)" and "n \<equiv> hd (rev us @ [fSentinel q])"
  shows "queue_rep (unlink st p e n, q\<lparr>fLength := fLength q - 1\<rparr>) (us @ vs)"
    and "fNext (st e) = Some n" "fPrev (st e) = Some p" "p \<noteq> e" "n \<noteq> e"
proof -
  let ?s = "fSentinel q"
  obtain ps where ps: "?s # rev vs = ps @ [p]" by (metis append_butlast_last_id list.distinct(1) p_def)
  obtain ns where ns: "rev us @ [?s] = n # ns" by (cases "rev us @ [?s]") (auto simp: n_def)
  have s: "?s \<notin> set (us @ e # vs)" using sentinel_not_member [OF rep] .
  have d: "distinct (us @ e # vs)" and l: "linked st (?s # rev (us @ e # vs) @ [?s])"
    using rep by (auto simp: queue_rep_def)
  have "?s # rev (us @ e # vs) @ [?s] = (?s # rev vs) @ e # (rev us @ [?s])"
    "?s # rev (us @ vs) @ [?s] = (?s # rev vs) @ (rev us @ [?s])" by simp_all
  then have ring: "?s # rev (us @ e # vs) @ [?s] = ps @ p # e # n # ns" "?s # rev (us @ vs) @ [?s] = ps @ p # n # ns"
    unfolding ps ns by simp_all
  have l': "linked st (ps @ [p])" "linked st (p # e # n # ns)"
    using l linked_append [of st ps p "e # n # ns"] unfolding ring by blast+
  then show "fNext (st e) = Some n" "fPrev (st e) = Some p" by auto
  have pm: "set (ps @ [p]) = insert ?s (set vs)" "distinct (ps @ [p])"
    unfolding ps [symmetric] using s d by auto
  have nm: "set (n # ns) = insert ?s (set us)" "distinct (n # ns)"
    unfolding ns [symmetric] using s d by auto
  show pe: "p \<noteq> e" and ne: "n \<noteq> e" using pm nm s d by auto
  have tp: "set (tl (ps @ [p])) \<subseteq> set vs" unfolding ps [symmetric] by auto
  have bn: "set (butlast (n # ns)) \<subseteq> set us" unfolding ns [symmetric] by auto
  have nin: "n \<in> insert ?s (set us)" using nm(1) by auto
  have pin: "p \<in> insert ?s (set vs)" using pm(1) by auto
  have "n \<notin> set (tl (ps @ [p]))" using nin tp d s by auto
  moreover have "p \<notin> set (butlast (ps @ [p]))" using pm(2) by simp
  ultimately have 1: "linked (unlink st p e n) (ps @ [p])" using l'(1) by (simp add: unlink_def)
  have "p \<notin> set (butlast (n # ns))" using pin bn d s by auto
  moreover have "n \<notin> set (tl (n # ns))" using nm(2) by simp
  ultimately have 2: "linked (unlink st p e n) (n # ns)"
    using l'(2) by (simp add: unlink_def del: butlast.simps)
  from 1 2 have "linked (unlink st p e n) (ps @ p # n # ns)"
    using pe ne by (subst linked_append) (simp add: unlink_def)
  then have lr: "linked (unlink st p e n) (?s # rev (us @ vs) @ [?s])" by (simp only: ring)
  have mem: "fQueue (st a) = Some (queueAddr q) \<longleftrightarrow> a \<in> set (us @ e # vs)"
    and len: "fLength q = length (us @ e # vs)" and sq: "fQueue (st ?s) = None" for a
    using rep by (auto simp: queue_rep_def)
  have fq: "fQueue (unlink st p e n a) = (if a = e then None else fQueue (st a))" for a
    by (simp add: unlink_def)
  show "queue_rep (unlink st p e n, q\<lparr>fLength := fLength q - 1\<rparr>) (us @ vs)"
    unfolding queue_rep_def Let_def prod.case using lr d s by (auto simp: fq mem len sq)
qed

lemma DeQueue_unlink:
  assumes rep: "queue_rep (st, q) (e # vs)"
  shows "DeQueue (st, q) = Some (Some e, unlink st (last (fSentinel q # rev vs)) e (fSentinel q),
           q\<lparr>fLength := fLength q - 1\<rparr>)"
proof -
  let ?p = "last (fSentinel q # rev vs)"
  note u = unlink_rep [of st q "[]" e vs, simplified, OF rep]
  have "linked st ((fSentinel q # rev vs) @ e # [fSentinel q])" using rep by (simp add: queue_rep_def)
  then have "fPrev (st (fSentinel q)) = Some e" by (subst (asm) linked_append) simp
  moreover have "e \<noteq> fSentinel q" using sentinel_not_member [OF rep] by auto
  moreover have "fLength q = Suc (length vs)" using rep by (simp add: queue_rep_def)
  moreover have "set_fPrev (set_fNext st ?p (Some (fSentinel q))) (fSentinel q) (Some ?p)
      = set_fNext (set_fPrev st (fSentinel q) (Some ?p)) ?p (Some (fSentinel q))"
    by (auto simp: set_fNext_def set_fPrev_def)
  ultimately show ?thesis using u(3) by (simp add: DeQueue_def unlink_def Let_def)
qed

lemma Remove_q_unlink:
  assumes rep: "queue_rep (st, q) (us @ e # vs)"
  shows "Remove_q (st, q) e = Some (unlink st (last (fSentinel q # rev vs)) e (hd (rev us @ [fSentinel q])),
           q\<lparr>fLength := fLength q - 1\<rparr>)"
proof -
  have "fQueue (st e) = Some (queueAddr q)" using rep by (auto simp: queue_rep_def)
  moreover have "e \<noteq> fSentinel q" using sentinel_not_member [OF rep] by auto
  ultimately show ?thesis using unlink_rep(2-5) [OF rep] by (simp add: Remove_q_def unlink_def Let_def)
qed

section \<open>The queue interface\<close>

text \<open>
  The abstract queue is a list without duplicates. Inserting a member changes nothing,
  as in \<^verbatim>\<open>Queue::EnQueue\<close>; removing a non-member changes nothing.
\<close>

datatype 'e qop = Put 'e | Take | Drop 'e

fun abs_step :: "'e list \<Rightarrow> 'e qop \<Rightarrow> 'e option \<times> 'e list" where
  "abs_step xs (Put e) = (None, if e \<in> set xs then xs else xs @ [e])"
| "abs_step xs Take = (case xs of [] \<Rightarrow> (None, []) | x # ys \<Rightarrow> (Some x, ys))"
| "abs_step xs (Drop e) = (None, remove1 e xs)"

fun abs_run :: "'e list \<Rightarrow> 'e qop list \<Rightarrow> 'e option list \<times> 'e list" where
  "abs_run xs [] = ([], xs)"
| "abs_run xs (op # ops) = (let (r, ys) = abs_step xs op; (rs, zs) = abs_run ys ops in (r # rs, zs))"

definition conc_step :: "('s \<Rightarrow> 'e \<Rightarrow> 's option) \<Rightarrow> ('s \<Rightarrow> ('e option \<times> 's) option) \<Rightarrow> ('s \<Rightarrow> 'e \<Rightarrow> 's option)
    \<Rightarrow> 's \<Rightarrow> 'e qop \<Rightarrow> ('e option \<times> 's) option" where
  "conc_step enq deq rem s op =
     (case op of
        Put e \<Rightarrow> map_option (Pair None) (enq s e)
      | Take \<Rightarrow> deq s
      | Drop e \<Rightarrow> map_option (Pair None) (rem s e))"

fun conc_run :: "('s \<Rightarrow> 'e \<Rightarrow> 's option) \<Rightarrow> ('s \<Rightarrow> ('e option \<times> 's) option) \<Rightarrow> ('s \<Rightarrow> 'e \<Rightarrow> 's option)
    \<Rightarrow> 's \<Rightarrow> 'e qop list \<Rightarrow> ('e option list \<times> 's) option" where
  "conc_run enq deq rem s [] = Some ([], s)"
| "conc_run enq deq rem s (op # ops) =
     do { (r, s1) \<leftarrow> conc_step enq deq rem s op; (rs, s2) \<leftarrow> conc_run enq deq rem s1 ops; Some (r # rs, s2) }"

fun op_elem :: "'e qop \<Rightarrow> 'e set" where
  "op_elem (Put e) = {e}"
| "op_elem (Drop e) = {e}"
| "op_elem Take = {}"

locale fifo_queue =
  fixes rep :: "'s \<Rightarrow> 'e list \<Rightarrow> bool"
    and avail :: "'s \<Rightarrow> 'e \<Rightarrow> bool"
    and enq :: "'s \<Rightarrow> 'e \<Rightarrow> 's option"
    and deq :: "'s \<Rightarrow> ('e option \<times> 's) option"
    and rem :: "'s \<Rightarrow> 'e \<Rightarrow> 's option"
  assumes rep_distinct: "rep s xs \<Longrightarrow> distinct xs"
    and enq_new: "rep s xs \<Longrightarrow> avail s e \<Longrightarrow>
      \<exists>s'. enq s e = Some s' \<and> rep s' (xs @ [e]) \<and> (\<forall>a. avail s' a \<longleftrightarrow> avail s a \<and> a \<noteq> e)"
    and enq_member: "rep s xs \<Longrightarrow> e \<in> set xs \<Longrightarrow> enq s e = Some s"
    and deq_empty: "rep s [] \<Longrightarrow> deq s = Some (None, s)"
    and deq_Cons: "rep s (e # xs) \<Longrightarrow>
      \<exists>s'. deq s = Some (Some e, s') \<and> rep s' xs \<and> (\<forall>a. avail s' a \<longleftrightarrow> avail s a \<or> a = e)"
    and rem_member: "rep s xs \<Longrightarrow> e \<in> set xs \<Longrightarrow>
      \<exists>s'. rem s e = Some s' \<and> rep s' (remove1 e xs) \<and> (\<forall>a. avail s' a \<longleftrightarrow> avail s a \<or> a = e)"
    and rem_absent: "rep s xs \<Longrightarrow> avail s e \<Longrightarrow> rem s e = Some s"
    and avail_fresh: "rep s xs \<Longrightarrow> avail s e \<Longrightarrow> e \<notin> set xs"
begin

lemma step_refines:
  assumes "rep s xs" "\<forall>e \<in> U. avail s e \<or> e \<in> set xs" "op_elem op \<subseteq> U"
  shows "\<exists>s'. conc_step enq deq rem s op = Some (fst (abs_step xs op), s') \<and>
     rep s' (snd (abs_step xs op)) \<and> (\<forall>e \<in> U. avail s' e \<or> e \<in> set (snd (abs_step xs op)))"
proof (cases op)
  case (Put e)
  show ?thesis
  proof (cases "e \<in> set xs")
    case True
    with Put assms enq_member [OF assms(1) True] show ?thesis by (auto simp: conc_step_def)
  next
    case False
    with Put assms have "avail s e" by auto
    from enq_new [OF assms(1) this] False Put assms(2) show ?thesis by (auto simp: conc_step_def)
  qed
next
  case Take
  show ?thesis
  proof (cases xs)
    case Nil
    with Take assms deq_empty show ?thesis by (auto simp: conc_step_def)
  next
    case (Cons x ys)
    with deq_Cons [of s x ys] Take assms show ?thesis by (auto simp: conc_step_def)
  qed
next
  case (Drop e)
  show ?thesis
  proof (cases "e \<in> set xs")
    case True
    with rem_member [OF assms(1) True] Drop assms rep_distinct [OF assms(1)] show ?thesis
      by (auto simp: conc_step_def)
  next
    case False
    with Drop assms have "avail s e" by auto
    with rem_absent [OF assms(1) this] Drop assms False show ?thesis
      by (auto simp: conc_step_def remove1_idem)
  qed
qed

lemma run_refines:
  assumes "rep s xs" "\<forall>e \<in> U. avail s e \<or> e \<in> set xs" "\<forall>op \<in> set ops. op_elem op \<subseteq> U"
  shows "\<exists>s'. conc_run enq deq rem s ops = Some (fst (abs_run xs ops), s') \<and> rep s' (snd (abs_run xs ops))"
  using assms
proof (induction ops arbitrary: s xs)
  case Nil
  then show ?case by simp
next
  case (Cons op ops)
  from step_refines [OF Cons.prems(1,2), of op] Cons.prems(3)
  obtain t where t: "conc_step enq deq rem s op = Some (fst (abs_step xs op), t)"
      "rep t (snd (abs_step xs op))" "\<forall>e \<in> U. avail t e \<or> e \<in> set (snd (abs_step xs op))" by auto
  from Cons.IH [OF t(2,3)] Cons.prems(3) t(1) show ?case by (auto simp: case_prod_beta)
qed

end

definition avail_q :: "qstore \<times> Queue \<Rightarrow> addr \<Rightarrow> bool" where
  "avail_q s e \<longleftrightarrow> fQueue (fst s e) = None \<and> e \<noteq> fSentinel (snd s)"

lemma unlink_fields [simp]:
  "fQueue (unlink st p e n a) = (if a = e then None else fQueue (st a))"
  "fObject (unlink st p e n a) = fObject (st a)"
  by (simp_all add: unlink_def)

lemma Remove_q_rep:
  assumes rep: "queue_rep (st, q) xs" and e: "e \<in> set xs"
  shows "\<exists>s'. Remove_q (st, q) e = Some s' \<and> queue_rep s' (remove1 e xs) \<and>
    (\<forall>a. avail_q s' a \<longleftrightarrow> avail_q (st, q) a \<or> a = e)"
proof -
  obtain us vs where xs: "xs = us @ e # vs" using e by (auto simp: in_set_conv_decomp)
  have d: "e \<notin> set us" "remove1 e xs = us @ vs" using rep by (auto simp: queue_rep_def xs remove1_append)
  note r = rep [unfolded xs]
  have "e \<noteq> fSentinel q" using sentinel_not_member [OF rep] e by auto
  with Remove_q_unlink [OF r] unlink_rep(1) [OF r] d show ?thesis by (auto simp: avail_q_def)
qed

interpretation queue: fifo_queue queue_rep avail_q EnQueue DeQueue Remove_q
proof (unfold_locales, goal_cases)
  case (1 s xs)
  then show ?case by (auto simp: queue_rep_def)
next
  case (2 s xs e)
  then show ?case using EnQueue_rep [of "fst s" "snd s" xs e]
    by (auto simp: avail_q_def split: if_splits)
next
  case (3 s xs e)
  then show ?case by (auto simp: queue_rep_def EnQueue_def Let_def)
next
  case (4 s)
  then show ?case by (auto simp: queue_rep_def DeQueue_def)
next
  case (5 s e xs)
  have r: "queue_rep (fst s, snd s) (e # xs)" using 5 by simp
  moreover have "e \<noteq> fSentinel (snd s)" using sentinel_not_member [OF r] by auto
  ultimately show ?case using DeQueue_unlink [OF r] unlink_rep(1) [of "fst s" "snd s" "[]" e xs]
    by (auto simp: avail_q_def)
next
  case (6 s xs e)
  then show ?case using Remove_q_rep [of "fst s" "snd s" xs e] by simp
next
  case (7 s xs e)
  then show ?case by (auto simp: queue_rep_def Remove_q_def avail_q_def)
next
  case (8 s xs e)
  then show ?case by (force simp: queue_rep_def avail_q_def)
qed

lemma GetHead_rep: "queue_rep s xs \<Longrightarrow> GetHead s = (case xs of [] \<Rightarrow> None | x # ys \<Rightarrow> Some x)"
proof (cases xs)
  case Nil
  assume "queue_rep s xs" with Nil show ?thesis by (auto simp: queue_rep_def GetHead_def)
next
  case (Cons x ys)
  assume r: "queue_rep s xs"
  obtain st q where s: "s = (st, q)" by (cases s)
  from r Cons have "linked st ((fSentinel q # rev ys) @ x # [fSentinel q])" by (simp add: queue_rep_def s)
  then have "fPrev (st (fSentinel q)) = Some x" by (subst (asm) linked_append) simp
  with r Cons show ?thesis by (auto simp: GetHead_def s queue_rep_def)
qed

lemma GetTail_rep: "queue_rep s xs \<Longrightarrow> GetTail s = (if xs = [] then None else Some (last xs))"
proof (cases xs rule: rev_cases)
  case Nil
  assume "queue_rep s xs" with Nil show ?thesis by (auto simp: queue_rep_def GetTail_def)
next
  case (snoc ys x)
  assume "queue_rep s xs" with snoc show ?thesis by (auto simp: queue_rep_def GetTail_def)
qed

text \<open>The iterator walks from the oldest to the newest element.\<close>

lemma iterate_suffix:
  assumes rep: "queue_rep (st, q) (us @ xs)" and "length xs < fuel"
  shows "iterate fuel (st, q) (case xs of [] \<Rightarrow> None | x # ys \<Rightarrow> Some x) = Some xs"
  using assms
proof (induction xs arbitrary: us fuel)
  case Nil
  then show ?case by (cases fuel) auto
next
  case (Cons x ys)
  then obtain f where f: "fuel = Suc f" by (cases fuel) auto
  have d: "distinct (us @ x # ys)" using Cons.prems by (simp add: queue_rep_def)
  have "QueueIter_Next (st, q) (Some x) = Some (case ys of [] \<Rightarrow> None | y # zs \<Rightarrow> Some y)"
  proof (cases ys)
    case Nil
    with Cons.prems show ?thesis using GetTail_rep [OF Cons.prems(1)] by (simp add: QueueIter_Next_def)
  next
    case C: (Cons y zs)
    have "linked st ((fSentinel q # rev zs) @ y # (x # rev us @ [fSentinel q]))"
      using Cons.prems(1) C by (simp add: queue_rep_def)
    then have "fPrev (st x) = Some y" by (subst (asm) linked_append) simp
    moreover have "GetTail (st, q) \<noteq> Some x" using GetTail_rep [OF Cons.prems(1)] C d by auto
    ultimately show ?thesis using C by (simp add: QueueIter_Next_def)
  qed
  moreover have "iterate f (st, q) (case ys of [] \<Rightarrow> None | y # zs \<Rightarrow> Some y) = Some ys"
    using Cons.IH [of "us @ [x]" f] Cons.prems f by simp
  ultimately show ?case using f by simp
qed

section \<open>The self-test of the class\<close>

text \<open>
  \<^verbatim>\<open>Queue::Test\<close>, compiled only with \<^verbatim>\<open>CF_QUEUE_TESTING\<close>: three
  elements at addresses 1, 2 and 3, the queue at address 100 with its sentinel at 101.
  A check of the test that fails makes it return false; the model records the checks as
  the result of \<open>chk\<close>, so that \<^term>\<open>Some False\<close> is a failed test and
  \<^term>\<open>None\<close> undefined behaviour.
\<close>

definition test_store :: qstore where
  "test_store = (\<lambda>a. QueueElem_new (if a \<le> 3 then a else 0))"

definition chk :: "bool \<Rightarrow> bool option \<Rightarrow> bool option" where
  "chk b rest = (if b then rest else Some False)"

definition ends :: "qstore \<times> Queue \<Rightarrow> addr option \<Rightarrow> addr option \<Rightarrow> bool" where
  "ends s h t \<longleftrightarrow> GetHead s = h \<and> GetTail s = t"

definition Queue_Test_basic :: "qstore \<times> Queue \<Rightarrow> ((qstore \<times> Queue) \<Rightarrow> bool option) \<Rightarrow> bool option" where
  "Queue_Test_basic s0 k =
     chk (ends s0 None None) (do {
       s1 \<leftarrow> EnQueue s0 1;
       chk (ends s1 (Some 1) (Some 1)) (do {
         (e, s2) \<leftarrow> DeQueue s1;
         chk (e = Some 1 \<and> ends s2 None None) (do {
           s3 \<leftarrow> EnQueue s2 1;
           s4 \<leftarrow> EnQueue s3 2;
           chk (ends s4 (Some 1) (Some 2)) (do {
             (e, s5) \<leftarrow> DeQueue s4;
             chk (e = Some 1 \<and> ends s5 (Some 2) (Some 2)) (do {
               (e, s6) \<leftarrow> DeQueue s5;
               chk (e = Some 2) (do {
                 s7 \<leftarrow> EnQueue s6 1;
                 s8 \<leftarrow> EnQueue s7 2;
                 s9 \<leftarrow> EnQueue s8 3;
                 chk (ends s9 (Some 1) (Some 3)) (do {
                   (e, s10) \<leftarrow> DeQueue s9;
                   chk (e = Some 1 \<and> ends s10 (Some 2) (Some 3)) (do {
                     (e, s11) \<leftarrow> DeQueue s10;
                     chk (e = Some 2 \<and> ends s11 (Some 3) (Some 3)) (do {
                       (e, s12) \<leftarrow> DeQueue s11;
                       chk (e = Some 3) (do {
                         s13 \<leftarrow> EnQueue s12 1;
                         s14 \<leftarrow> EnQueue s13 2;
                         s15 \<leftarrow> EnQueue s14 3;
                         k s15 }) }) }) }) }) }) }) }) }) })"

definition Queue_Test_iter :: "qstore \<times> Queue \<Rightarrow> bool option \<Rightarrow> bool option" where
  "Queue_Test_iter s rest =
     (let it0 = QueueIter s
      in chk (\<not> QueueIter_IsDone it0 \<and> it0 = Some 3) (do {
           it1 \<leftarrow> QueueIter_Next s it0;
           chk (\<not> QueueIter_IsDone it1 \<and> it1 = Some 2) (do {
             it2 \<leftarrow> QueueIter_Next s it1;
             chk (\<not> QueueIter_IsDone it2 \<and> it2 = Some 1) (do {
               it3 \<leftarrow> QueueIter_Next s it2;
               chk (QueueIter_IsDone it3 \<and> it3 = None) rest }) }) }))"

definition Queue_Test_remove :: "qstore \<times> Queue \<Rightarrow> bool option" where
  "Queue_Test_remove s =
     do {
       s1 \<leftarrow> Remove_q s 1;
       chk (ends s1 (Some 2) (Some 3)) (do {
         s2 \<leftarrow> Remove_q s1 1;
         chk (ends s2 (Some 2) (Some 3)) (do {
           s3 \<leftarrow> Remove_q s2 3;
           chk (ends s3 (Some 2) (Some 2)) (Some True) }) }) }"

definition Queue_Test :: "bool option" where
  "Queue_Test =
     Queue_Test_basic (Queue_new test_store 100 101)
       (\<lambda>s. Queue_Test_iter s (Queue_Test_remove s))"

section \<open>Locked queues and the buffer pool\<close>

definition ConcurrentQueue_EnQueue :: "qstore \<times> Queue \<Rightarrow> addr \<Rightarrow> (qstore \<times> Queue) option" where
  "ConcurrentQueue_EnQueue s elem = EnQueue s elem"

definition ConcurrentQueue_DeQueue :: "qstore \<times> Queue \<Rightarrow> (addr option \<times> qstore \<times> Queue) option" where
  "ConcurrentQueue_DeQueue s = DeQueue s"

definition ConcurrentQueue_Remove :: "qstore \<times> Queue \<Rightarrow> addr \<Rightarrow> (qstore \<times> Queue) option" where
  "ConcurrentQueue_Remove s elem = Remove_q s elem"

text \<open>
  \<^verbatim>\<open>BlockingQueue\<close>: the queue and the number of signals sent to its condition
  variable. \<open>during\<close> is what other threads do to the queue while
  \<^verbatim>\<open>fCond.Wait\<close> has released the mutex (the identity for a plain timeout).
\<close>

record BlockingQueue =
  bqQueue :: "qstore \<times> Queue"
  bqSignals :: nat

definition BlockingQueue_EnQueue :: "BlockingQueue \<Rightarrow> addr \<Rightarrow> BlockingQueue option" where
  "BlockingQueue_EnQueue b obj =
     do { s \<leftarrow> EnQueue (bqQueue b) obj; Some (b\<lparr>bqQueue := s, bqSignals := bqSignals b + 1\<rparr>) }"

definition BlockingQueue_DeQueue :: "BlockingQueue \<Rightarrow> (addr option \<times> BlockingQueue) option" where
  "BlockingQueue_DeQueue b = do { (r, s) \<leftarrow> DeQueue (bqQueue b); Some (r, b\<lparr>bqQueue := s\<rparr>) }"

definition DeQueueBlocking ::
  "(qstore \<times> Queue \<Rightarrow> qstore \<times> Queue) \<Rightarrow> BlockingQueue \<Rightarrow> (addr option \<times> BlockingQueue) option" where
  "DeQueueBlocking during b =
     (let s1 = (if GetLength (bqQueue b) = 0 then during (bqQueue b) else bqQueue b)
      in do { (r, s) \<leftarrow> DeQueue s1; Some (r, b\<lparr>bqQueue := s\<rparr>) })"

record BufferPool =
  poolQueue :: "qstore \<times> Queue"
  fBufSize :: nat
  fTotNumBuffers :: nat

text \<open>
  \<^verbatim>\<open>sizeof(QueueElem)\<close>: virtual-table pointer and four pointers on a 64-bit
  machine. The address \<open>newBuf\<close> is what \<^verbatim>\<open>operator new\<close> returns.
\<close>

definition sizeof_QueueElem :: nat where
  "sizeof_QueueElem = 40"

definition BufferPool_Get :: "addr \<Rightarrow> BufferPool \<Rightarrow> (addr \<times> BufferPool) option" where
  "BufferPool_Get newBuf p =
     (if GetLength (poolQueue p) = 0 then
        Some (newBuf + sizeof_QueueElem,
              p\<lparr>fTotNumBuffers := fTotNumBuffers p + 1,
                poolQueue := ((fst (poolQueue p))(newBuf := QueueElem_new (newBuf + sizeof_QueueElem)),
                              snd (poolQueue p))\<rparr>)
      else do {
        (r, s) \<leftarrow> DeQueue (poolQueue p);
        e \<leftarrow> r;
        Some (fObject (fst s e), p\<lparr>poolQueue := s\<rparr>)
      })"

definition BufferPool_Put :: "addr \<Rightarrow> BufferPool \<Rightarrow> BufferPool option" where
  "BufferPool_Put inBuffer p =
     do { s \<leftarrow> EnQueue (poolQueue p) (inBuffer - sizeof_QueueElem); Some (p\<lparr>poolQueue := s\<rparr>) }"

text \<open>
  The pool invariant, with the set \<open>B\<close> of buffers that are handed out: their
  headers are in no queue, the headers of free buffers form the queue, every header
  points to its buffer and the total counts both.
\<close>

definition pool_inv :: "BufferPool \<Rightarrow> addr set \<Rightarrow> addr list \<Rightarrow> bool" where
  "pool_inv p B xs \<longleftrightarrow>
     queue_rep (poolQueue p) xs \<and> finite B \<and>
     (\<forall>b \<in> B. sizeof_QueueElem \<le> b \<and> avail_q (poolQueue p) (b - sizeof_QueueElem) \<and>
        fObject (fst (poolQueue p) (b - sizeof_QueueElem)) = b) \<and>
     (\<forall>e \<in> set xs. fObject (fst (poolQueue p) e) = e + sizeof_QueueElem) \<and>
     fTotNumBuffers p = length xs + card B"

section \<open>Properties\<close>

text \<open>C6: \<^verbatim>\<open>Queue\<close> refines the list queue: for every sequence of
  \<^verbatim>\<open>EnQueue\<close>, \<^verbatim>\<open>DeQueue\<close> and \<^verbatim>\<open>Remove\<close> calls on elements
  that are in this queue or in none, no null pointer is dereferenced, every
  \<^verbatim>\<open>DeQueue\<close> returns the oldest element of the list (\<^verbatim>\<open>nullptr\<close>
  exactly when it is empty), and the pointer structure again represents the list.\<close>

theorem Queue_refines_list:
  assumes "queue_rep s xs" "\<forall>op \<in> set ops. \<forall>e \<in> op_elem op. avail_q s e \<or> e \<in> set xs"
  shows "\<exists>s'. conc_run EnQueue DeQueue Remove_q s ops = Some (fst (abs_run xs ops), s') \<and>
    queue_rep s' (snd (abs_run xs ops)) \<and> GetLength s' = length (snd (abs_run xs ops)) \<and>
    GetHead s' = (case snd (abs_run xs ops) of [] \<Rightarrow> None | x # ys \<Rightarrow> Some x)"
proof -
  let ?U = "\<Union> (op_elem ` set ops)"
  from queue.run_refines [OF assms(1), of ?U ops] assms(2)
  obtain s' where r: "conc_run EnQueue DeQueue Remove_q s ops = Some (fst (abs_run xs ops), s')"
    "queue_rep s' (snd (abs_run xs ops))" by auto
  moreover have "GetLength s' = length (snd (abs_run xs ops))"
    using r(2) by (auto simp: GetLength_def queue_rep_def)
  ultimately show ?thesis using GetHead_rep [OF r(2)] by blast
qed

lemma test_queue_rep: "queue_rep (Queue_new test_store 100 101) []"
  by (rule queue_rep_empty) (simp add: test_store_def QueueElem_new_def)

lemma test_queue_avail: "a < 100 \<Longrightarrow> avail_q (Queue_new test_store 100 101) a"
  by (simp add: avail_q_def Queue_new_def test_store_def QueueElem_new_def Let_def)

theorem Queue_refines_list_witness:
  "\<exists>s'. conc_run EnQueue DeQueue Remove_q (Queue_new test_store 100 101)
      [Put 1, Put 2, Put 3, Put 2, Drop 2, Take, Take, Take]
    = Some ([None, None, None, None, None, Some 1, Some 3, None], s')"
  using Queue_refines_list [OF test_queue_rep, of "[Put 1, Put 2, Put 3, Put 2, Drop 2, Take, Take, Take]"]
    test_queue_avail by auto

text \<open>The loop over a \<^verbatim>\<open>QueueIter\<close> terminates after one round per element
  and visits the elements from the oldest (\<^verbatim>\<open>GetHead\<close>) to the newest
  (\<^verbatim>\<open>GetTail\<close>), each exactly once.\<close>

theorem QueueIter_visits_all:
  assumes "queue_rep s xs"
  shows "iterate (GetLength s + 1) s (QueueIter s) = Some xs"
proof -
  obtain st q where s: "s = (st, q)" by (cases s)
  have "GetLength s = length xs" using assms by (auto simp: s GetLength_def queue_rep_def)
  then show ?thesis using iterate_suffix [of st q "[]" xs "GetLength s + 1"] assms GetHead_rep [OF assms]
    by (simp add: s QueueIter_def)
qed

theorem QueueIter_visits_all_witness:
  "iterate 1 (Queue_new test_store 100 101) (QueueIter (Queue_new test_store 100 101)) = Some []"
  using QueueIter_visits_all [OF test_queue_rep] by (simp add: GetLength_def Queue_new_def Let_def)

definition test_rep :: "qstore \<times> Queue \<Rightarrow> addr list \<Rightarrow> bool" where
  "test_rep s xs \<longleftrightarrow> queue_rep s xs \<and> (\<forall>a \<in> {1, 2, 3}. avail_q s a \<or> a \<in> set xs)"

lemma test_rep_enq:
  "test_rep s xs \<Longrightarrow> e \<in> {1, 2, 3} \<Longrightarrow> e \<notin> set xs \<Longrightarrow> \<exists>s'. EnQueue s e = Some s' \<and> test_rep s' (xs @ [e])"
  using queue.enq_new [of s xs e] by (auto simp: test_rep_def)

lemma test_rep_deq:
  "test_rep s (e # xs) \<Longrightarrow> \<exists>s'. DeQueue s = Some (Some e, s') \<and> test_rep s' xs"
  using queue.deq_Cons [of s e xs] by (auto simp: test_rep_def)

lemma test_rep_rem:
  assumes r: "test_rep s xs" and e: "e \<in> {1, 2, 3}"
  shows "\<exists>s'. Remove_q s e = Some s' \<and> test_rep s' (remove1 e xs)"
proof (cases "e \<in> set xs")
  case True
  with r queue.rem_member [of s xs e] queue.rep_distinct [of s xs] show ?thesis
    unfolding test_rep_def by (metis in_set_remove1)
next
  case False
  with r e have "avail_q s e" "queue_rep s xs" unfolding test_rep_def by blast+
  with r False queue.rem_absent [of s xs e] show ?thesis by (metis remove1_idem)
qed

lemma test_rep_ends:
  "test_rep s xs \<Longrightarrow> ends s h t \<longleftrightarrow>
     h = (case xs of [] \<Rightarrow> None | x # ys \<Rightarrow> Some x) \<and> t = (if xs = [] then None else Some (last xs))"
  by (auto simp: test_rep_def ends_def GetHead_rep GetTail_rep)

lemma Queue_Test_basic_passes:
  "\<exists>s. (\<forall>k. Queue_Test_basic (Queue_new test_store 100 101) k = k s) \<and> test_rep s [1, 2, 3]"
proof -
  let ?s = "Queue_new test_store 100 101"
  have r0: "test_rep ?s []" using test_queue_rep test_queue_avail by (auto simp: test_rep_def)
  from test_rep_enq [OF r0, of 1] obtain s1 where s1: "EnQueue ?s 1 = Some s1" "test_rep s1 [1]" by auto
  from test_rep_deq [OF s1(2)] obtain s2 where s2: "DeQueue s1 = Some (Some 1, s2)" "test_rep s2 []" by auto
  from test_rep_enq [OF s2(2), of 1] obtain s3 where s3: "EnQueue s2 1 = Some s3" "test_rep s3 [1]" by auto
  from test_rep_enq [OF s3(2), of 2] obtain s4 where s4: "EnQueue s3 2 = Some s4" "test_rep s4 [1, 2]" by auto
  from test_rep_deq [OF s4(2)] obtain s5 where s5: "DeQueue s4 = Some (Some 1, s5)" "test_rep s5 [2]" by auto
  from test_rep_deq [OF s5(2)] obtain s6 where s6: "DeQueue s5 = Some (Some 2, s6)" "test_rep s6 []" by auto
  from test_rep_enq [OF s6(2), of 1] obtain s7 where s7: "EnQueue s6 1 = Some s7" "test_rep s7 [1]" by auto
  from test_rep_enq [OF s7(2), of 2] obtain s8 where s8: "EnQueue s7 2 = Some s8" "test_rep s8 [1, 2]" by auto
  from test_rep_enq [OF s8(2), of 3] obtain s9 where s9: "EnQueue s8 3 = Some s9" "test_rep s9 [1, 2, 3]" by auto
  from test_rep_deq [OF s9(2)] obtain s10 where s10: "DeQueue s9 = Some (Some 1, s10)" "test_rep s10 [2, 3]" by auto
  from test_rep_deq [OF s10(2)] obtain s11 where s11: "DeQueue s10 = Some (Some 2, s11)" "test_rep s11 [3]" by auto
  from test_rep_deq [OF s11(2)] obtain s12 where s12: "DeQueue s11 = Some (Some 3, s12)" "test_rep s12 []" by auto
  from test_rep_enq [OF s12(2), of 1] obtain s13 where s13: "EnQueue s12 1 = Some s13" "test_rep s13 [1]" by auto
  from test_rep_enq [OF s13(2), of 2] obtain s14 where s14: "EnQueue s13 2 = Some s14" "test_rep s14 [1, 2]" by auto
  from test_rep_enq [OF s14(2), of 3] obtain s15 where s15: "EnQueue s14 3 = Some s15" "test_rep s15 [1, 2, 3]" by auto
  note S = s1 s2 s3 s4 s5 s6 s7 s8 s9 s10 s11 s12 s13 s14 s15
  have "Queue_Test_basic ?s k = k s15" for k
    unfolding Queue_Test_basic_def chk_def by (simp del: One_nat_def add: S(1,3,5,7,9,11,13,15,17,19,21,23,25,27,29) test_rep_ends [OF r0]
        S(2,4,6,8,10,12,14,16,18,20,22,24,26,28,30) [THEN test_rep_ends])
  with s15(2) show ?thesis by blast
qed

lemma Queue_Test_remove_passes:
  assumes "test_rep s [1, 2, 3]"
  shows "Queue_Test_remove s = Some True"
proof -
  from test_rep_rem [OF assms, of 1] obtain s1 where s1: "Remove_q s 1 = Some s1" "test_rep s1 [2, 3]" by auto
  from test_rep_rem [OF s1(2), of 1] obtain s2 where s2: "Remove_q s1 1 = Some s2" "test_rep s2 [2, 3]" by auto
  from test_rep_rem [OF s2(2), of 3] obtain s3 where s3: "Remove_q s2 3 = Some s3" "test_rep s3 [2]" by auto
  show ?thesis unfolding Queue_Test_remove_def chk_def
    by (simp del: One_nat_def add: s1 s2 s3 test_rep_ends [OF s1(2)] test_rep_ends [OF s2(2)] test_rep_ends [OF s3(2)])
qed

text \<open>The self-test of the class does not pass: \<^verbatim>\<open>Queue::Test\<close> expects
  a fresh iterator at the newest element, while the constructor starts it at
  \<^verbatim>\<open>GetHead()\<close>, the oldest; the checks before and after the iterator part
  hold.\<close>

theorem Queue_Test_fails:
  "Queue_Test = Some False \<and>
   Queue_Test_basic (Queue_new test_store 100 101) Queue_Test_remove = Some True"
proof -
  obtain s where s: "\<And>k. Queue_Test_basic (Queue_new test_store 100 101) k = k s" "test_rep s [1, 2, 3]"
    using Queue_Test_basic_passes by blast
  have "QueueIter s = Some 1" using s(2) GetHead_rep [of s "[1, 2, 3]"] by (simp add: QueueIter_def test_rep_def)
  then show ?thesis using s Queue_Test_remove_passes [OF s(2)]
    by (simp add: Queue_Test_def Queue_Test_iter_def chk_def)
qed

text \<open>\<^verbatim>\<open>BufferPool::Get\<close> never hands out a buffer that is in use. It
  reuses the oldest free buffer and allocates only when there is none;
  \<^verbatim>\<open>GetTotalNumBuffers\<close> stays the number of free buffers plus the number of
  buffers in use.\<close>

theorem BufferPool_Get_fresh:
  assumes "pool_inv p B xs"
    and "newBuf \<notin> (\<lambda>b. b - sizeof_QueueElem) ` B" "fQueue (fst (poolQueue p) newBuf) = None"
    and "newBuf \<noteq> fSentinel (snd (poolQueue p))"
  shows "\<exists>b p'. BufferPool_Get newBuf p = Some (b, p') \<and> b \<notin> B \<and> pool_inv p' (insert b B) (tl xs) \<and>
    b = (if xs = [] then newBuf else hd xs) + sizeof_QueueElem \<and>
    fTotNumBuffers p' = fTotNumBuffers p + (if xs = [] then 1 else 0)"
proof -
  obtain st q where q: "poolQueue p = (st, q)" by (cases "poolQueue p")
  note rep = assms(1) [unfolded pool_inv_def q, THEN conjunct1]
  have len: "fLength q = length xs" using rep by (simp add: queue_rep_def)
  show ?thesis
  proof (cases xs)
    case Nil
    let ?b = "newBuf + sizeof_QueueElem"
    have b: "?b \<notin> B" using assms(2) by force
    have "queue_rep (st(newBuf := QueueElem_new ?b), q) []"
      using rep assms(3,4) Nil by (auto simp: queue_rep_def QueueElem_new_def q)
    then have "pool_inv (p\<lparr>fTotNumBuffers := fTotNumBuffers p + 1,
        poolQueue := (st(newBuf := QueueElem_new ?b), q)\<rparr>) (insert ?b B) []"
      using assms Nil b by (auto simp: pool_inv_def q avail_q_def QueueElem_new_def)
    with Nil len b show ?thesis by (simp add: BufferPool_Get_def GetLength_def q)
  next
    case (Cons e ys)
    let ?b = "e + sizeof_QueueElem"
    note r = rep [unfolded Cons]
    obtain s' where d: "DeQueue (st, q) = Some (Some e, s')" "queue_rep s' ys"
        "\<forall>a. avail_q s' a \<longleftrightarrow> avail_q (st, q) a \<or> a = e"
      using queue.deq_Cons [OF r] by auto
    have ob: "fObject (fst s' a) = fObject (st a)" for a
      using d(1) unfolding DeQueue_unlink [OF r] by auto
    have be: "fObject (st e) = ?b" using assms(1) Cons by (simp add: pool_inv_def q)
    have b: "?b \<notin> B"
    proof
      assume "?b \<in> B"
      then have "avail_q (st, q) e" using assms(1) by (force simp: pool_inv_def q)
      then show False using queue.avail_fresh [OF r] by auto
    qed
    have "pool_inv (p\<lparr>poolQueue := s'\<rparr>) (insert ?b B) ys"
      using assms(1) Cons b d(2,3) be by (auto simp: pool_inv_def q ob)
    with Cons len d(1) b be show ?thesis by (simp add: BufferPool_Get_def GetLength_def q ob)
  qed
qed

definition ex_pool :: BufferPool where
  "ex_pool = \<lparr>poolQueue = Queue_new test_store 100 101, fBufSize = 512, fTotNumBuffers = 0\<rparr>"

theorem BufferPool_Get_fresh_witness:
  "\<exists>p'. BufferPool_Get 5000 ex_pool = Some (5040, p') \<and> pool_inv p' {5040} []"
proof -
  have "pool_inv ex_pool {} []" using test_queue_rep by (simp add: ex_pool_def pool_inv_def)
  moreover have "fQueue (fst (poolQueue ex_pool) 5000) = None" "fSentinel (snd (poolQueue ex_pool)) = 101"
    by (simp_all add: ex_pool_def Queue_new_def test_store_def QueueElem_new_def Let_def)
  ultimately show ?thesis using BufferPool_Get_fresh [of ex_pool "{}" "[]" 5000]
    by (auto simp: sizeof_QueueElem_def)
qed

text \<open>Returning a buffer to the pool with \<^verbatim>\<open>BufferPool::Put\<close> makes it the
  newest free buffer, leaves the other buffers alone and keeps the total.\<close>

theorem BufferPool_Put_returns:
  assumes "pool_inv p B xs" "b \<in> B"
  shows "\<exists>p'. BufferPool_Put b p = Some p' \<and>
    pool_inv p' (B - {b}) (xs @ [b - sizeof_QueueElem]) \<and> fTotNumBuffers p' = fTotNumBuffers p"
proof -
  obtain st q where q: "poolQueue p = (st, q)" by (cases "poolQueue p")
  let ?e = "b - sizeof_QueueElem"
  note rep = assms(1) [unfolded pool_inv_def q, THEN conjunct1]
  have av: "avail_q (st, q) ?e" "sizeof_QueueElem \<le> b" "fObject (st ?e) = b" "finite B"
    using assms by (auto simp: pool_inv_def q)
  from queue.enq_new [OF rep av(1)] obtain s' where
    e: "EnQueue (st, q) ?e = Some s'" "queue_rep s' (xs @ [?e])" "\<forall>a. avail_q s' a \<longleftrightarrow> avail_q (st, q) a \<and> a \<noteq> ?e"
    by auto
  have ob: "fObject (fst s' a) = fObject (st a)" for a
    using EnQueue_rep [OF rep, of ?e] av(1) e(1) by (auto simp: avail_q_def)
  have "fObject (st (c - sizeof_QueueElem)) = c" if "c \<in> B" for c
    using that assms(1) by (auto simp: pool_inv_def q)
  then have ne: "c - sizeof_QueueElem \<noteq> ?e" if "c \<in> B - {b}" for c
    using that assms(2) by (metis DiffE insertCI)
  have "card B = Suc (card (B - {b}))" using av(4) assms(2) by (metis card_Suc_Diff1)
  then have "pool_inv (p\<lparr>poolQueue := s'\<rparr>) (B - {b}) (xs @ [?e])"
    using assms(1) e(2,3) av ne by (auto simp: pool_inv_def q ob)
  with e(1) show ?thesis by (simp add: BufferPool_Put_def q)
qed

theorem BufferPool_Put_returns_witness:
  "\<exists>p p'. BufferPool_Get 5000 ex_pool = Some (5040, p) \<and> BufferPool_Put 5040 p = Some p' \<and> pool_inv p' {} [5000]"
proof -
  define p where "p = snd (the (BufferPool_Get 5000 ex_pool))"
  have g: "BufferPool_Get 5000 ex_pool = Some (5040, p)"
    by (simp add: p_def BufferPool_Get_def ex_pool_def Queue_new_def GetLength_def Let_def sizeof_QueueElem_def)
  have "pool_inv p {5040} []"
    using test_queue_rep unfolding p_def
    by (auto simp: BufferPool_Get_def ex_pool_def Queue_new_def GetLength_def Let_def sizeof_QueueElem_def
        pool_inv_def queue_rep_def avail_q_def QueueElem_new_def test_store_def set_fNext_def set_fPrev_def)
  from BufferPool_Put_returns [OF this, of 5040] g show ?thesis by (auto simp: sizeof_QueueElem_def)
qed

end
