(* ===== verification/CF_FileSource.thy ===== *)
theory CF_FileSource
  imports CF_Def CF_Queue
begin

text \<open>
  Files that are served, and the cache of their blocks: \<^verbatim>\<open>src/CFCore/FileSource.cpp\<close> and its
  header. The cache maps the blocks of a file to buffers, which a pool keeps in a queue in the order of
  their last use; a buffer whose turn has come is taken for another block. Buffers live in a store; the
  address of a buffer also stands for the queue element inside of it. The operating system is an argument:
  opening, \<^verbatim>\<open>fstat\<close>, \<^verbatim>\<open>lseek\<close> and \<^verbatim>\<open>read\<close>. Memory that a
  call fills is an argument and a result. \<^term>\<open>None\<close> is an access outside of an object, a null
  pointer, a division by zero or a failed assertion. The debug output is left out.
\<close>

section \<open>Buffers\<close>

definition FS_NoErr :: int where "FS_NoErr = 0"

record FileBlockBuffer =
  fArrayIndex :: int
  fBufferSize :: nat
  fBufferFillSize :: nat
  fDataBuffer :: "mem option"

definition FileBlockBuffer_new :: FileBlockBuffer where
  "FileBlockBuffer_new = \<lparr>fArrayIndex = -1, fBufferSize = 0, fBufferFillSize = 0, fDataBuffer = None\<rparr>"

text \<open>The new memory is written with zero bytes here; only its last byte matters before it is filled.\<close>

definition AllocateBuffer :: "nat \<Rightarrow> FileBlockBuffer \<Rightarrow> FileBlockBuffer" where
  "AllocateBuffer buffSize b = b\<lparr>fBufferSize := buffSize, fDataBuffer := Some ((replicate (buffSize + 1) NUL)[buffSize := NUL])\<rparr>"

definition FileBlockBuffer_destroy :: "FileBlockBuffer \<Rightarrow> FileBlockBuffer option" where
  "FileBlockBuffer_destroy b = do {
     d \<leftarrow> fDataBuffer b;
     c \<leftarrow> rd d (fBufferSize b);
     Assert (c = NUL);
     Some (b\<lparr>fDataBuffer := None, fArrayIndex := -1\<rparr>)
   }"

definition CleanBuffer :: "FileBlockBuffer \<Rightarrow> FileBlockBuffer option" where
  "CleanBuffer b = do {
     d \<leftarrow> fDataBuffer b;
     d1 \<leftarrow> write_at d 0 (replicate (fBufferSize b) NUL);
     Some (b\<lparr>fDataBuffer := Some d1\<rparr>)
   }"

definition SetFillSize :: "nat \<Rightarrow> FileBlockBuffer \<Rightarrow> FileBlockBuffer" where
  "SetFillSize fillSize b = b\<lparr>fBufferFillSize := fillSize\<rparr>"

definition GetFillSize :: "FileBlockBuffer \<Rightarrow> nat" where
  "GetFillSize b = fBufferFillSize b"

section \<open>The pool\<close>

text \<open>The store of the buffers and the next free address stand for the heap of the process.\<close>

record FileBlockPool =
  fBlockQueue :: "qstore \<times> Queue"
  fMaxBuffers :: nat
  fNumCurrentBuffers :: nat
  fBufferInc :: nat
  fBufferUnitSizeBytes :: nat
  blocks :: "addr \<Rightarrow> FileBlockBuffer"
  freshAddr :: addr

definition kBufferUnitSize :: nat where "kBufferUnitSize = 2 ^ 15"

definition FileBlockPool_new :: FileBlockPool where
  "FileBlockPool_new =
     \<lparr>fBlockQueue = Queue_new (\<lambda>_. QueueElem_new 0) 0 0, fMaxBuffers = 1, fNumCurrentBuffers = 0, fBufferInc = 0,
      fBufferUnitSizeBytes = kBufferUnitSize, blocks = (\<lambda>_. FileBlockBuffer_new), freshAddr = 1\<rparr>"

definition SetMaxBuffers :: "nat \<Rightarrow> FileBlockPool \<Rightarrow> FileBlockPool" where
  "SetMaxBuffers maxBuffers p = (if maxBuffers > 0 then p\<lparr>fMaxBuffers := maxBuffers\<rparr> else p)"

definition SetBuffIncValue :: "nat \<Rightarrow> FileBlockPool \<Rightarrow> FileBlockPool" where
  "SetBuffIncValue bufferInc p = (if bufferInc > 0 then p\<lparr>fBufferInc := bufferInc\<rparr> else p)"



definition DecCurBuffers :: "FileBlockPool \<Rightarrow> FileBlockPool" where
  "DecCurBuffers p = (if fNumCurrentBuffers p > 0 then p\<lparr>fNumCurrentBuffers := fNumCurrentBuffers p - 1\<rparr> else p)"

definition SetBufferUnitSize :: "nat \<Rightarrow> FileBlockPool \<Rightarrow> FileBlockPool" where
  "SetBufferUnitSize inUnitSizeInK p = p\<lparr>fBufferUnitSizeBytes := u32 (inUnitSizeInK * 1024)\<rparr>"

definition MarkUsed :: "addr option \<Rightarrow> FileBlockPool \<Rightarrow> FileBlockPool option" where
  "MarkUsed inBuffPtr p =
     (case inBuffPtr of None \<Rightarrow> Some p
      | Some b \<Rightarrow>
          if GetTail (fBlockQueue p) \<noteq> Some b then do {
            q1 \<leftarrow> Remove_q (fBlockQueue p) b;
            q2 \<leftarrow> EnQueue q1 b;
            Some (p\<lparr>fBlockQueue := q2\<rparr>)
          } else Some p)"

definition GetBufferElement :: "nat \<Rightarrow> FileBlockPool \<Rightarrow> (addr \<times> FileBlockPool) option" where
  "GetBufferElement bufferSizeBytes p =
     (if fNumCurrentBuffers p < fMaxBuffers p then do {
        let b = freshAddr p;
        let q = ((fst (fBlockQueue p))(b := QueueElem_new b), snd (fBlockQueue p));
        q1 \<leftarrow> EnQueue q b;
        Some (b, p\<lparr>blocks := (blocks p)(b := AllocateBuffer bufferSizeBytes FileBlockBuffer_new), freshAddr := b + 1,
                   fNumCurrentBuffers := u32 (fNumCurrentBuffers p + 1), fBlockQueue := q1\<rparr>)
      }
      else do {
        (theElem, q1) \<leftarrow> DeQueue (fBlockQueue p);
        e \<leftarrow> theElem;
        Some (fObject (fst q1 e), p\<lparr>fBlockQueue := q1\<rparr>)
      })"

lemma DeQueue_less: "DeQueue s = Some (Some e, s1) \<Longrightarrow> fLength (snd s1) < fLength (snd s)"
  by (cases s) (auto simp: DeQueue_def Let_def split: if_splits Option.bind_splits)

function delete_buffers :: "FileBlockPool \<Rightarrow> FileBlockPool option" where
  "delete_buffers p = do {
     (theElem, q1) \<leftarrow> DeQueue (fBlockQueue p);
     (case theElem of None \<Rightarrow> Some (p\<lparr>fBlockQueue := q1\<rparr>)
      | Some e \<Rightarrow> do {
          let b = fObject (fst q1 e);
          d \<leftarrow> FileBlockBuffer_destroy (blocks p b);
          delete_buffers (p\<lparr>fBlockQueue := q1, blocks := (blocks p)(b := d)\<rparr>)
        })
   }"
  by pat_completeness auto

termination
  by (relation "measure (\<lambda>p. fLength (snd (fBlockQueue p)))") (auto dest: DeQueue_less)

declare delete_buffers.simps [simp del]

definition DeleteBlockPool :: "FileBlockPool \<Rightarrow> FileBlockPool option" where
  "DeleteBlockPool p = do {
     p1 \<leftarrow> delete_buffers p;
     Some (p1\<lparr>fMaxBuffers := 1, fNumCurrentBuffers := 0, fBufferUnitSizeBytes := kBufferUnitSize\<rparr>)
   }"

section \<open>The map of a file\<close>

text \<open>
  The array holds the entries that were initialised: it has one entry more than its size, which
  nothing sets. The casts to \<^verbatim>\<open>SInt32\<close> in the number of entries, in the number of bytes that are
  set to zero, in the check of an index and in the index of a buffer to fill are \<open>s32\<close>; pointers have
  8 bytes. A negative number of entries makes \<^verbatim>\<open>new\<close> throw, a negative number of bytes makes
  \<^verbatim>\<open>memset\<close> run out of the array.
\<close>

definition s32 :: "int \<Rightarrow> int" where
  "s32 x = (x + 2 ^ 31) mod 2 ^ 32 - 2 ^ 31"

lemma s32_id [simp]: "- (2 ^ 31) \<le> x \<Longrightarrow> x < 2 ^ 31 \<Longrightarrow> s32 x = x"
  by (simp add: s32_def)

definition kPointerSize :: int where "kPointerSize = 8"

record FileMap =
  fBlockPool :: FileBlockPool
  fFileMapArray :: "addr option list option"
  fDataBufferSize :: nat
  fMapArraySize :: int
  fNumBuffSizeUnits :: nat

definition FileMap_new :: FileMap where
  "FileMap_new = \<lparr>fBlockPool = FileBlockPool_new, fFileMapArray = None, fDataBufferSize = 0, fMapArraySize = 0, fNumBuffSizeUnits = 0\<rparr>"

definition Initialized :: "FileMap \<Rightarrow> bool" where
  "Initialized f \<longleftrightarrow> fFileMapArray f \<noteq> None"

definition Clean :: "FileMap \<Rightarrow> FileMap option" where
  "Clean f =
     (if fFileMapArray f = None then Some f
      else
        (let n = s32 (kPointerSize * fMapArraySize f)
         in if 0 \<le> n \<and> n \<le> kPointerSize * s32 (fMapArraySize f + 1)
            then Some (f\<lparr>fFileMapArray := Some (replicate (nat (n div kPointerSize)) None)\<rparr>) else None))"

definition DeleteMap :: "FileMap \<Rightarrow> FileMap" where
  "DeleteMap f = f\<lparr>fFileMapArray := None\<rparr>"

definition AllocateBufferMap :: "nat \<Rightarrow> nat \<Rightarrow> nat \<Rightarrow> nat \<Rightarrow> nat \<Rightarrow> nat \<Rightarrow> FileMap \<Rightarrow> FileMap option" where
  "AllocateBufferMap inUnitSizeInK inNumBuffSizeUnits inBufferIncCount inMaxBitRateBuffSizeInBlocks fileLen inBitRate f =
     (if fFileMapArray f \<noteq> None \<and> fNumBuffSizeUnits f = inNumBuffSizeUnits \<and> inBufferIncCount = fMaxBuffers (fBlockPool f)
      then Some f
      else do {
        let unitSize = (if inUnitSizeInK < 1 then 1 else inUnitSizeInK);
        let p = SetBufferUnitSize unitSize (fBlockPool f);
        let bitRate = (if inBitRate = 0 then u32 (inMaxBitRateBuffSizeInBlocks * fBufferUnitSizeBytes p) else inBitRate);
        units \<leftarrow> (if inNumBuffSizeUnits = 0
                   then (if fBufferUnitSizeBytes p = 0 then None
                         else Some (if bitRate div fBufferUnitSizeBytes p > inMaxBitRateBuffSizeInBlocks
                                    then inMaxBitRateBuffSizeInBlocks else bitRate div fBufferUnitSizeBytes p))
                   else Some inNumBuffSizeUnits);
        let units = (if units < 1 then 1 else units);
        let f1 = DeleteMap (f\<lparr>fBlockPool := p\<rparr>);
        p1 \<leftarrow> DeleteBlockPool (fBlockPool f1);
        let bufSize = u32 (fBufferUnitSizeBytes p1 * units);
        let p2 = SetBuffIncValue inBufferIncCount (SetMaxBuffers inBufferIncCount p1);
        Assert (bufSize \<noteq> 0);
        let f2 = f1\<lparr>fBlockPool := p2, fNumBuffSizeUnits := units, fDataBufferSize := bufSize,
                    fMapArraySize := int (fileLen div bufSize) + 1, fFileMapArray := Some []\<rparr>;
        if s32 (fMapArraySize f2 + 1) < 0 then None else Clean f2
      })"

definition set_entry :: "int \<Rightarrow> addr option \<Rightarrow> FileMap \<Rightarrow> FileMap option" where
  "set_entry i b f = do {
     a \<leftarrow> fFileMapArray f;
     (if 0 \<le> i \<and> nat i < length a then Some (f\<lparr>fFileMapArray := Some (a[nat i := b])\<rparr>) else None)
   }"

definition get_entry :: "int \<Rightarrow> FileMap \<Rightarrow> addr option option" where
  "get_entry i f = do {
     a \<leftarrow> fFileMapArray f;
     (if 0 \<le> i \<and> nat i < length a then Some (a ! nat i) else None)
   }"

lemma GetBufferElement_num:
  "GetBufferElement n p = Some (b, p1) \<Longrightarrow> fMaxBuffers p < fNumCurrentBuffers p \<Longrightarrow>
   fNumCurrentBuffers p1 = fNumCurrentBuffers p"
  by (auto simp: GetBufferElement_def split: Option.bind_splits prod.splits)

function DeleteOldBuffs :: "FileMap \<Rightarrow> FileMap option" where
  "DeleteOldBuffs f =
     (if fNumCurrentBuffers (fBlockPool f) > fMaxBuffers (fBlockPool f) then do {
        (b, p) \<leftarrow> GetBufferElement (fDataBufferSize f) (fBlockPool f);
        f1 \<leftarrow> set_entry (fArrayIndex (blocks p b)) None f;
        d \<leftarrow> FileBlockBuffer_destroy (blocks p b);
        DeleteOldBuffs (f1\<lparr>fBlockPool := DecCurBuffers (p\<lparr>blocks := (blocks p)(b := d)\<rparr>)\<rparr>)
      } else Some f)"
  by pat_completeness auto

termination
  by (relation "measure (\<lambda>f. fNumCurrentBuffers (fBlockPool f))") (auto simp: DecCurBuffers_def dest!: GetBufferElement_num)

declare DeleteOldBuffs.simps [simp del]

text \<open>The buffer of a block, and whether it has to be filled.\<close>

definition GetBuffer :: "int \<Rightarrow> FileMap \<Rightarrow> (addr \<times> bool \<times> FileMap) option" where
  "GetBuffer buffIndex f = do {
     f1 \<leftarrow> DeleteOldBuffs f;
     Assert (buffIndex < s32 (fMapArraySize f1));
     found \<leftarrow> get_entry buffIndex f1;
     (theElem, p1) \<leftarrow> (case found of Some b \<Rightarrow> Some (b, fBlockPool f1)
                        | None \<Rightarrow> GetBufferElement (fDataBufferSize f1) (fBlockPool f1));
     p2 \<leftarrow> MarkUsed (Some theElem) p1;
     let f2 = f1\<lparr>fBlockPool := p2\<rparr>;
     (if fArrayIndex (blocks p2 theElem) = buffIndex then Some (theElem, False, f2)
      else do {
        f3 \<leftarrow> (if fArrayIndex (blocks p2 theElem) \<ge> 0 then set_entry (fArrayIndex (blocks p2 theElem)) None f2 else Some f2);
        f4 \<leftarrow> set_entry buffIndex (Some theElem) f3;
        Some (theElem, True,
          f4\<lparr>fBlockPool := p2\<lparr>blocks := (blocks p2)(theElem := (blocks p2 theElem)\<lparr>fArrayIndex := buffIndex\<rparr>)\<rparr>\<rparr>)
      })
   }"

definition SetIndexBuffFillSize :: "int \<Rightarrow> nat \<Rightarrow> FileMap \<Rightarrow> FileMap option" where
  "SetIndexBuffFillSize bufIndex fillSize f = do {
     Assert (bufIndex \<ge> 0);
     e \<leftarrow> get_entry bufIndex f;
     b \<leftarrow> e;
     let p = fBlockPool f;
     Some (f\<lparr>fBlockPool := p\<lparr>blocks := (blocks p)(b := SetFillSize fillSize (blocks p b))\<rparr>\<rparr>)
   }"

definition GetBuffSize :: "int \<Rightarrow> FileMap \<Rightarrow> nat option" where
  "GetBuffSize bufIndex f = do {
     Assert (bufIndex \<ge> 0);
     e \<leftarrow> get_entry bufIndex f;
     b \<leftarrow> e;
     Some (GetFillSize (blocks (fBlockPool f) b))
   }"

definition GetBuffIndex :: "nat \<Rightarrow> FileMap \<Rightarrow> int option" where
  "GetBuffIndex inPosition f = (if fDataBufferSize f = 0 then None else Some (int (inPosition div fDataBufferSize f)))"

definition GetMaxBuffIndex :: "FileMap \<Rightarrow> int option" where
  "GetMaxBuffIndex f = do { Assert (fMapArraySize f > 0); Some (fMapArraySize f - 1) }"

definition GetBuffOffset :: "int \<Rightarrow> FileMap \<Rightarrow> int" where
  "GetBuffOffset bufIndex f = bufIndex * int (fDataBufferSize f)"

section \<open>Files\<close>

text \<open>
  The operating system: \<^verbatim>\<open>open\<close> gives a descriptor or -1, \<^verbatim>\<open>fstat\<close> the length, the
  time of the last change and whether it is a directory, \<^verbatim>\<open>lseek\<close> an error number or
  zero, and \<^verbatim>\<open>read\<close> an error number or the bytes.
\<close>

record FileOS =
  os_open :: "string \<Rightarrow> int"
  os_fstat :: "int \<Rightarrow> (nat \<times> int \<times> bool) option"
  os_lseek :: "int \<Rightarrow> nat \<Rightarrow> int"
  os_read :: "int \<Rightarrow> nat \<Rightarrow> nat \<Rightarrow> int + string"

record FileSource =
  fFile :: int
  fFileLength :: nat
  fPosition :: nat
  fReadPos :: nat
  fShouldClose :: bool
  fIsDir :: bool
  fModDate :: int
  fFileMap :: FileMap
  fCacheEnabled :: bool

definition FileSource_new :: FileSource where
  "FileSource_new =
     \<lparr>fFile = -1, fFileLength = 0, fPosition = 0, fReadPos = 0, fShouldClose = True, fIsDir = False, fModDate = 0,
      fFileMap = FileMap_new, fCacheEnabled = False\<rparr>"

definition Close :: "FileSource \<Rightarrow> FileSource" where
  "Close s = s\<lparr>fFile := -1, fModDate := 0, fFileLength := 0, fPosition := 0, fReadPos := 0\<rparr>"

definition Set_file :: "FileOS \<Rightarrow> string \<Rightarrow> FileSource \<Rightarrow> FileSource" where
  "Set_file os inPath s =
     (let s1 = (Close s)\<lparr>fFile := os_open os inPath\<rparr>
      in if fFile s1 = -1 then s1
         else (case os_fstat os (fFile s1) of
                 Some (st_size, mtime, dir) \<Rightarrow> s1\<lparr>fFileLength := st_size, fModDate := (if mtime < 0 then 0 else mtime), fIsDir := dir\<rparr>
               | None \<Rightarrow> Close s1))"

definition FileSource_path :: "FileOS \<Rightarrow> string \<Rightarrow> FileSource" where
  "FileSource_path os inPath = Set_file os inPath FileSource_new"

definition DontCloseFD :: "FileSource \<Rightarrow> FileSource" where
  "DontCloseFD s = s\<lparr>fShouldClose := False\<rparr>"

definition EnableFileCache :: "bool \<Rightarrow> FileSource \<Rightarrow> FileSource" where
  "EnableFileCache enabled s = s\<lparr>fCacheEnabled := enabled\<rparr>"

definition AllocateFileCache :: "nat \<Rightarrow> nat \<Rightarrow> nat \<Rightarrow> nat \<Rightarrow> nat \<Rightarrow> FileSource \<Rightarrow> FileSource option" where
  "AllocateFileCache inUnitSizeInK bufferSizeUnits incBuffers inMaxBitRateBuffSizeInBlocks inBitRate s = do {
     f \<leftarrow> AllocateBufferMap inUnitSizeInK bufferSizeUnits incBuffers inMaxBitRateBuffSizeInBlocks (fFileLength s) inBitRate (fFileMap s);
     Some (s\<lparr>fFileMap := f\<rparr>)
   }"



definition Seek :: "nat \<Rightarrow> FileSource \<Rightarrow> FileSource" where
  "Seek newPosition s = s\<lparr>fPosition := newPosition\<rparr>"

definition IsValid :: "FileSource \<Rightarrow> bool" where
  "IsValid s \<longleftrightarrow> fFile s \<noteq> -1"

definition ResetFD :: "FileSource \<Rightarrow> FileSource" where
  "ResetFD s = s\<lparr>fFile := -1\<rparr>"

text \<open>A result is the error, the memory, the number of bytes for the caller and the object.\<close>

type_synonym read_result = "int \<times> mem \<times> nat option \<times> FileSource"

definition ReadFromDisk :: "FileOS \<Rightarrow> mem \<Rightarrow> nat \<Rightarrow> nat option \<Rightarrow> FileSource \<Rightarrow> read_result option" where
  "ReadFromDisk os inBuffer inLength outRcvLen s =
     (let e = os_lseek os (fFile s) (fPosition s)
      in if e \<noteq> 0 then Some (e, inBuffer, outRcvLen, s)
         else (case os_read os (fFile s) (fPosition s) inLength of
                 Inl e \<Rightarrow> Some (e, inBuffer, outRcvLen, s)
               | Inr bs \<Rightarrow> do {
                   m \<leftarrow> write_at inBuffer 0 bs;
                   Some (FS_NoErr, m, map_option (\<lambda>_. length bs) outRcvLen,
                     s\<lparr>fPosition := fPosition s + length bs, fReadPos := fPosition s + length bs\<rparr>)
                 }))"

definition ReadFromPos :: "FileOS \<Rightarrow> nat \<Rightarrow> mem \<Rightarrow> nat \<Rightarrow> nat option \<Rightarrow> FileSource \<Rightarrow> read_result option" where
  "ReadFromPos os inPosition inBuffer inLength outRcvLen s = ReadFromDisk os inBuffer inLength outRcvLen (Seek inPosition s)"

definition FillBuffer :: "FileOS \<Rightarrow> addr \<Rightarrow> int \<Rightarrow> FileSource \<Rightarrow> (int \<times> FileSource) option" where
  "FillBuffer os b buffIndex s = do {
     let buffSize = fDataBufferSize (fFileMap s);
     let startPos = nat (buffIndex mod 2 ^ 64) * buffSize mod 2 ^ 64;
     d \<leftarrow> fDataBuffer (blocks (fBlockPool (fFileMap s)) b);
     (theErr, d1, readLen, s1) \<leftarrow> ReadFromPos os startPos d buffSize (Some 0) s;
     let f = fFileMap s1;
     let p = fBlockPool f;
     let f1 = f\<lparr>fBlockPool := p\<lparr>blocks := (blocks p)(b := (blocks p b)\<lparr>fDataBuffer := Some d1\<rparr>)\<rparr>\<rparr>;
     n \<leftarrow> readLen;
     f2 \<leftarrow> SetIndexBuffFillSize buffIndex n f1;
     Some (theErr, s1\<lparr>fFileMap := f2\<rparr>)
   }"

text \<open>\<^verbatim>\<open>memcpy\<close> of \<open>n\<close> bytes of a buffer from \<open>off\<close> on, the number cast to 32 bits.\<close>

definition copy_out :: "mem \<Rightarrow> nat \<Rightarrow> mem \<Rightarrow> int \<Rightarrow> int \<Rightarrow> mem option" where
  "copy_out outBuf pos d off n =
     (let k = nat (n mod 2 ^ 32)
      in if 0 \<le> off \<and> nat off + k \<le> length d then write_at outBuf pos (take k (drop (nat off) d)) else None)"

text \<open>
  The loop over the blocks. The number of bytes copied so far is also the offset of \<^verbatim>\<open>buffOut\<close>;
  \<^verbatim>\<open>buffCopyLen\<close> is \<^verbatim>\<open>bytesToCopy\<close> at the start of every round.
\<close>

function cache_loop ::
  "FileOS \<Rightarrow> int \<Rightarrow> int \<Rightarrow> int \<Rightarrow> int \<Rightarrow> int \<Rightarrow> mem \<Rightarrow> nat \<Rightarrow> FileSource \<Rightarrow> read_result option" where
  "cache_loop os endIndex maxIndex buffIndex buffPos bytesToCopy outBuf outRcvLen s =
     (if buffIndex \<le> endIndex \<and> buffIndex \<le> maxIndex then do {
        (b, fillBuff, f) \<leftarrow> GetBuffer buffIndex (fFileMap s);
        let s1 = s\<lparr>fFileMap := f\<rparr>;
        (theErr, s2) \<leftarrow> (if fillBuff then FillBuffer os b (s32 buffIndex) s1 else Some (FS_NoErr, s1));
        if theErr \<noteq> FS_NoErr then Some (theErr, outBuf, Some outRcvLen, s2)
        else do {
          n \<leftarrow> GetBuffSize buffIndex (fFileMap s2);
          let buffSize = int n;
          d \<leftarrow> fDataBuffer (blocks (fBlockPool (fFileMap s2)) b);
          if buffPos = 0 \<and> bytesToCopy \<le> int (fDataBufferSize (fFileMap s2)) \<and> buffSize < bytesToCopy
          then do {
            m \<leftarrow> copy_out outBuf outRcvLen d buffPos buffSize;
            Some (FS_NoErr, m, Some (u32 (outRcvLen + n)), s2)
          }
          else do {
            let buffOffsetLen = buffSize - buffPos;
            let buffCopyLen = (if bytesToCopy \<ge> buffOffsetLen then buffOffsetLen else bytesToCopy);
            Assert (buffCopyLen \<le> buffSize);
            m \<leftarrow> copy_out outBuf outRcvLen d buffPos buffCopyLen;
            Assert (bytesToCopy - buffCopyLen \<ge> 0);
            cache_loop os endIndex maxIndex (buffIndex + 1) 0 (bytesToCopy - buffCopyLen) m
              (nat ((int outRcvLen + buffCopyLen) mod 2 ^ 32)) s2
          }
        }
      } else Some (FS_NoErr, outBuf, Some outRcvLen, s))"
  by pat_completeness auto

termination
  by (relation "measure (\<lambda>(os, endIndex, maxIndex, buffIndex, _). nat (endIndex + 1 - buffIndex))") auto

declare cache_loop.simps [simp del]

definition ReadFromCache :: "FileOS \<Rightarrow> nat \<Rightarrow> mem \<Rightarrow> nat \<Rightarrow> nat option \<Rightarrow> FileSource \<Rightarrow> read_result option" where
  "ReadFromCache os inPosition inBuffer inLength outRcvLen s = do {
     Assert (Initialized (fFileMap s) \<and> fCacheEnabled s);
     Assert (outRcvLen \<noteq> None);
     if inPosition \<ge> fFileLength s then Some (FS_NoErr, inBuffer, Some 0, s)
     else do {
       buffIndex \<leftarrow> GetBuffIndex inPosition (fFileMap s);
       endIndex \<leftarrow> GetBuffIndex ((inPosition + inLength) mod 2 ^ 64) (fFileMap s);
       maxIndex \<leftarrow> GetMaxBuffIndex (fFileMap s);
       let buffPos = int inPosition - GetBuffOffset buffIndex (fFileMap s);
       Assert (\<not> (buffIndex > endIndex \<or> endIndex > maxIndex));
       cache_loop os endIndex maxIndex buffIndex buffPos (int inLength) inBuffer 0 s
     }
   }"

definition Read_file :: "FileOS \<Rightarrow> nat \<Rightarrow> mem \<Rightarrow> nat \<Rightarrow> nat option \<Rightarrow> FileSource \<Rightarrow> read_result option" where
  "Read_file os inPosition inBuffer inLength outRcvLen s =
     (if \<not> Initialized (fFileMap s) \<or> \<not> fCacheEnabled s then ReadFromPos os inPosition inBuffer inLength outRcvLen s
      else do {
        i \<leftarrow> GetBuffIndex ((inPosition + inLength) mod 2 ^ 64) (fFileMap s);
        m \<leftarrow> GetMaxBuffIndex (fFileMap s);
        if i > m then ReadFromPos os inPosition inBuffer inLength outRcvLen s
        else ReadFromCache os inPosition inBuffer inLength outRcvLen s
      })"

section \<open>The queue of the buffers\<close>

definition pool_q :: "FileBlockPool \<Rightarrow> addr list \<Rightarrow> bool" where
  "pool_q p xs \<longleftrightarrow>
     queue_rep (fBlockQueue p) xs \<and> fSentinel (snd (fBlockQueue p)) = 0 \<and> 0 < freshAddr p \<and>
     (\<forall>b \<in> set xs. b < freshAddr p \<and> fObject (fst (fBlockQueue p) b) = b)"

lemma pool_qE:
  assumes "pool_q p xs"
  obtains st q where "fBlockQueue p = (st, q)" "queue_rep (st, q) xs" "fSentinel q = 0" "0 < freshAddr p"
    "\<forall>b \<in> set xs. b < freshAddr p \<and> fObject (st b) = b \<and> b \<noteq> 0" "distinct xs"
proof -
  obtain st q where s: "fBlockQueue p = (st, q)" by (cases "fBlockQueue p")
  then have r: "queue_rep (st, q) xs" using assms by (simp add: pool_q_def)
  then have "fSentinel q \<notin> set xs" "distinct xs" using sentinel_not_member by (auto simp: queue_rep_def)
  with assms s r show thesis by (intro that [of st q]) (auto simp: pool_q_def intro: gr0I)
qed

lemma enqueue_pool:
  assumes "queue_rep (st, q) xs" "fSentinel q = 0" "fQueue (st b) = None" "b \<noteq> 0" "fObject (st b) = b" "b < n"
    and "\<forall>a \<in> set xs. a < n \<and> fObject (st a) = a"
  shows "\<exists>s'. EnQueue (st, q) b = Some s' \<and> queue_rep s' (xs @ [b]) \<and> fSentinel (snd s') = 0 \<and>
    (\<forall>a \<in> set (xs @ [b]). a < n \<and> fObject (fst s' a) = a)"
  using EnQueue_rep [OF assms(1), of b] assms by auto

lemma touch:
  assumes "pool_q p xs" "b \<in> set xs"
  shows "\<exists>q ys. MarkUsed (Some b) p = Some (p\<lparr>fBlockQueue := q\<rparr>) \<and> pool_q (p\<lparr>fBlockQueue := q\<rparr>) ys \<and> set ys = set xs \<and>
    length ys = length xs"
proof -
  obtain st q where q: "fBlockQueue p = (st, q)" "queue_rep (st, q) xs" "fSentinel q = 0" "0 < freshAddr p"
    "\<forall>b \<in> set xs. b < freshAddr p \<and> fObject (st b) = b \<and> b \<noteq> 0" "distinct xs"
    by (rule pool_qE [OF assms(1)])
  show ?thesis
  proof (cases "GetTail (st, q) = Some b")
    case True
    then show ?thesis using assms(1) q(1) by (intro exI [of _ "(st, q)"] exI [of _ xs]) (simp add: MarkUsed_def pool_q_def)
  next
    case False
    obtain us vs where xs: "xs = us @ b # vs" using assms(2) by (auto simp: in_set_conv_decomp)
    note r = q(2) [unfolded xs]
    obtain st1 q1 where 1: "Remove_q (st, q) b = Some (st1, q1)" "queue_rep (st1, q1) (us @ vs)" "fSentinel q1 = 0"
        "fQueue (st1 b) = None" "\<forall>a. fObject (st1 a) = fObject (st a)"
      using Remove_q_unlink [OF r] unlink_rep(1) [OF r] q(3) by auto
    obtain s2 where 2: "EnQueue (st1, q1) b = Some s2" "queue_rep s2 ((us @ vs) @ [b])" "fSentinel (snd s2) = 0"
        "\<forall>a \<in> set ((us @ vs) @ [b]). a < freshAddr p \<and> fObject (fst s2 a) = a"
      using enqueue_pool [OF 1(2,3,4), of "freshAddr p"] q(5) 1(5) by (auto simp: xs)
    then have "pool_q (p\<lparr>fBlockQueue := s2\<rparr>) ((us @ vs) @ [b])" using q(4) by (simp add: pool_q_def)
    moreover have "MarkUsed (Some b) p = Some (p\<lparr>fBlockQueue := s2\<rparr>)" using False q(1) 1(1) 2(1) by (simp add: MarkUsed_def)
    ultimately show ?thesis by (intro exI [of _ s2] exI [of _ "(us @ vs) @ [b]"]) (auto simp: xs)
  qed
qed

text \<open>Taking the buffer that was not used for the longest time, and putting it back.\<close>

lemma take_oldest:
  assumes "pool_q p (e # ys)"
  shows "\<exists>q. DeQueue (fBlockQueue p) = Some (Some e, q) \<and> fObject (fst q e) = e \<and> pool_q (p\<lparr>fBlockQueue := q\<rparr>) ys \<and>
    e \<noteq> 0 \<and> e < freshAddr p \<and> fQueue (fst q e) = None"
proof -
  obtain st q where q: "fBlockQueue p = (st, q)" "queue_rep (st, q) (e # ys)" "fSentinel q = 0" "0 < freshAddr p"
    "\<forall>b \<in> set (e # ys). b < freshAddr p \<and> fObject (st b) = b \<and> b \<noteq> 0"
    by (rule pool_qE [OF assms]) blast
  let ?s = "(unlink st (last (fSentinel q # rev ys)) e (fSentinel q), q\<lparr>fLength := fLength q - 1\<rparr>)"
  have "DeQueue (st, q) = Some (Some e, ?s)" by (rule DeQueue_unlink [OF q(2)])
  moreover have "queue_rep ?s ys" using unlink_rep(1) [of st q "[]" e ys] q(2) by simp
  ultimately show ?thesis using q(1,3-5) by (intro exI [of _ ?s]) (auto simp: pool_q_def)
qed

lemma put_back:
  assumes "pool_q p ys" "fQueue (fst (fBlockQueue p) e) = None" "fObject (fst (fBlockQueue p) e) = e" "e \<noteq> 0" "e < freshAddr p"
  shows "\<exists>q. MarkUsed (Some e) p = Some (p\<lparr>fBlockQueue := q\<rparr>) \<and> pool_q (p\<lparr>fBlockQueue := q\<rparr>) (ys @ [e])"
proof -
  obtain st q where q: "fBlockQueue p = (st, q)" "queue_rep (st, q) ys" "fSentinel q = 0" "0 < freshAddr p"
    "\<forall>b \<in> set ys. b < freshAddr p \<and> fObject (st b) = b \<and> b \<noteq> 0"
    by (rule pool_qE [OF assms(1)]) blast
  have n: "fQueue (st e) = None" using assms(2) q(1) by simp
  then have e: "e \<notin> set ys" using q(2) by (force simp: queue_rep_def)
  have "GetTail (st, q) \<noteq> Some e" using GetTail_rep [OF q(2)] e by (auto split: if_splits dest: last_in_set)
  moreover have "Remove_q (st, q) e = Some (st, q)" using n q(3) assms(4) by (simp add: Remove_q_def)
  moreover obtain s2 where "EnQueue (st, q) e = Some s2" "queue_rep s2 (ys @ [e])" "fSentinel (snd s2) = 0"
        "\<forall>a \<in> set (ys @ [e]). a < freshAddr p \<and> fObject (fst s2 a) = a"
    using enqueue_pool [OF q(2,3) n assms(4), of "freshAddr p"] assms(3,5) q(1,5) by auto
  ultimately show ?thesis using q(1,4) by (intro exI [of _ s2]) (simp add: MarkUsed_def pool_q_def)
qed

lemma new_buffer:
  assumes "pool_q p xs" "fNumCurrentBuffers p < fMaxBuffers p" "fMaxBuffers p < 2 ^ 32"
  defines "b \<equiv> freshAddr p"
  shows "\<exists>q. GetBufferElement n p = Some (b, p\<lparr>blocks := (blocks p)(b := AllocateBuffer n FileBlockBuffer_new), freshAddr := b + 1,
      fNumCurrentBuffers := fNumCurrentBuffers p + 1, fBlockQueue := q\<rparr>) \<and>
    pool_q (p\<lparr>blocks := (blocks p)(b := AllocateBuffer n FileBlockBuffer_new), freshAddr := b + 1,
      fNumCurrentBuffers := fNumCurrentBuffers p + 1, fBlockQueue := q\<rparr>) (xs @ [b])"
proof -
  obtain st q where q: "fBlockQueue p = (st, q)" "queue_rep (st, q) xs" "fSentinel q = 0" "0 < freshAddr p"
    "\<forall>b \<in> set xs. b < freshAddr p \<and> fObject (st b) = b \<and> b \<noteq> 0"
    by (rule pool_qE [OF assms(1)]) blast
  let ?st = "st(b := QueueElem_new b)"
  have b: "b \<notin> set xs" "b \<noteq> 0" using q(4,5) by (auto simp: b_def)
  have "linked ?st (fSentinel q # rev xs @ [fSentinel q])"
  proof -
    have "linked (st(b := v)) ys = linked st ys" if "b \<notin> set ys" for ys v
      using that by (induction ys rule: linked.induct [of _ st]) auto
    moreover have "b \<notin> set (fSentinel q # rev xs @ [fSentinel q])" using b q(3) by simp
    ultimately show ?thesis using q(2) by (simp add: queue_rep_def del: linked.simps)
  qed
  then have "queue_rep (?st, q) xs"
    using q(2,3) b by (auto simp: queue_rep_def QueueElem_new_def)
  then obtain s2 where 2: "EnQueue (?st, q) b = Some s2" "queue_rep s2 (xs @ [b])" "fSentinel (snd s2) = 0"
        "\<forall>a \<in> set (xs @ [b]). a < b + 1 \<and> fObject (fst s2 a) = a"
    using enqueue_pool [of ?st q xs b "b + 1"] q(3,5) b by (force simp: QueueElem_new_def b_def)
  then show ?thesis using q(1) assms(2,3) by (intro exI [of _ s2]) (simp add: GetBufferElement_def b_def [symmetric] pool_q_def Let_def)
qed

section \<open>The map and its buffers\<close>

definition sound_block :: "nat \<Rightarrow> FileBlockBuffer \<Rightarrow> bool" where
  "sound_block n b \<longleftrightarrow> fBufferSize b = n \<and> (\<exists>d. fDataBuffer b = Some d \<and> length d = n + 1 \<and> d ! n = NUL)"

definition map_ok :: "FileMap \<Rightarrow> addr list \<Rightarrow> bool" where
  "map_ok f xs \<longleftrightarrow>
     (let p = fBlockPool f in
      pool_q p xs \<and> fNumCurrentBuffers p = length xs \<and> 0 < fMaxBuffers p \<and> fMaxBuffers p < 2 ^ 32 \<and>
      0 < fDataBufferSize f \<and> fDataBufferSize f < 2 ^ 32 \<and> 0 < fMapArraySize f \<and> fMapArraySize f < 2 ^ 28 \<and>
      (\<forall>b \<in> set xs. sound_block (fDataBufferSize f) (blocks p b)) \<and>
      (\<exists>a. fFileMapArray f = Some a \<and> int (length a) = fMapArraySize f \<and>
         (\<forall>i b. i < length a \<and> a ! i = Some b \<longleftrightarrow> b \<in> set xs \<and> fArrayIndex (blocks p b) = int i)))"

text \<open>What an operation on the map leaves alone.\<close>

definition same_map :: "FileMap \<Rightarrow> FileMap \<Rightarrow> bool" where
  "same_map f f' \<longleftrightarrow> fDataBufferSize f' = fDataBufferSize f \<and> fMapArraySize f' = fMapArraySize f \<and>
     fNumBuffSizeUnits f' = fNumBuffSizeUnits f \<and> fMaxBuffers (fBlockPool f') = fMaxBuffers (fBlockPool f) \<and>
     fBufferInc (fBlockPool f') = fBufferInc (fBlockPool f)"

lemma map_okE:
  assumes "map_ok f xs"
  obtains a where "fFileMapArray f = Some a" "int (length a) = fMapArraySize f"
    "\<And>i b. i < length a \<and> a ! i = Some b \<longleftrightarrow> b \<in> set xs \<and> fArrayIndex (blocks (fBlockPool f) b) = int i"
    "pool_q (fBlockPool f) xs" "fNumCurrentBuffers (fBlockPool f) = length xs" "0 < fMaxBuffers (fBlockPool f)"
    "fMaxBuffers (fBlockPool f) < 2 ^ 32" "0 < fDataBufferSize f" "0 < fMapArraySize f" "distinct xs"
    "\<And>b. b \<in> set xs \<Longrightarrow> sound_block (fDataBufferSize f) (blocks (fBlockPool f) b)"
    "fDataBufferSize f < 2 ^ 32" "fMapArraySize f < 2 ^ 28"
proof -
  from assms have q: "pool_q (fBlockPool f) xs" by (simp add: map_ok_def Let_def)
  then have "distinct xs" by (auto elim: pool_qE)
  with assms q that show thesis by (auto simp: map_ok_def Let_def)
qed

lemma map_ok_s32: "map_ok f xs \<Longrightarrow> s32 (fMapArraySize f) = fMapArraySize f"
  by (simp add: map_ok_def Let_def)

lemma destroy_sound: "sound_block n b \<Longrightarrow> FileBlockBuffer_destroy b = Some (b\<lparr>fDataBuffer := None, fArrayIndex := -1\<rparr>)"
  by (auto simp: sound_block_def FileBlockBuffer_destroy_def)

text \<open>Every buffer in the queue is the entry of a block.\<close>

definition all_mapped :: "FileMap \<Rightarrow> addr list \<Rightarrow> bool" where
  "all_mapped f xs \<longleftrightarrow> (\<forall>b \<in> set xs. 0 \<le> fArrayIndex (blocks (fBlockPool f) b) \<and> fArrayIndex (blocks (fBlockPool f) b) < fMapArraySize f)"

lemma set_entry_ok:
  "fFileMapArray f = Some a \<Longrightarrow> 0 \<le> i \<Longrightarrow> i < int (length a) \<Longrightarrow> set_entry i v f = Some (f\<lparr>fFileMapArray := Some (a[nat i := v])\<rparr>)"
  by (auto simp: set_entry_def)

lemma DeleteOldBuffs_ok:
  assumes "map_ok f xs" "all_mapped f xs"
  shows "\<exists>f' ys. DeleteOldBuffs f = Some f' \<and> map_ok f' ys \<and> all_mapped f' ys \<and> set ys \<subseteq> set xs \<and> same_map f f' \<and>
    (\<forall>b \<in> set ys. blocks (fBlockPool f') b = blocks (fBlockPool f) b) \<and>
    fNumCurrentBuffers (fBlockPool f') \<le> fMaxBuffers (fBlockPool f')"
  using assms
proof (induction xs arbitrary: f)
  case Nil
  then have "fNumCurrentBuffers (fBlockPool f) = 0" by (simp add: map_ok_def Let_def)
  with Nil show ?case by (subst DeleteOldBuffs.simps) (auto simp: same_map_def)
next
  case (Cons e xs)
  let ?p = "fBlockPool f"
  obtain a where a: "fFileMapArray f = Some a" "int (length a) = fMapArraySize f"
    "\<And>i b. i < length a \<and> a ! i = Some b \<longleftrightarrow> b \<in> set (e # xs) \<and> fArrayIndex (blocks ?p b) = int i"
    "pool_q ?p (e # xs)" "fNumCurrentBuffers ?p = length (e # xs)" "0 < fMaxBuffers ?p"
    "fMaxBuffers ?p < 2 ^ 32" "0 < fDataBufferSize f" "0 < fMapArraySize f" "distinct (e # xs)"
    "\<And>b. b \<in> set (e # xs) \<Longrightarrow> sound_block (fDataBufferSize f) (blocks ?p b)"
    "fDataBufferSize f < 2 ^ 32" "fMapArraySize f < 2 ^ 28"
    by (rule map_okE [OF Cons.prems(1)]) blast
  show ?case
  proof (cases "fMaxBuffers ?p < fNumCurrentBuffers ?p")
    case False
    then show ?thesis using Cons.prems by (subst DeleteOldBuffs.simps) (auto simp: same_map_def)
  next
    case True
    obtain q where q: "DeQueue (fBlockQueue ?p) = Some (Some e, q)" "fObject (fst q e) = e" "pool_q (?p\<lparr>fBlockQueue := q\<rparr>) xs"
      using take_oldest [OF a(4)] by blast
    let ?i = "fArrayIndex (blocks ?p e)"
    let ?d = "(blocks ?p e)\<lparr>fDataBuffer := None, fArrayIndex := -1\<rparr>"
    let ?p1 = "?p\<lparr>fBlockQueue := q, blocks := (blocks ?p)(e := ?d), fNumCurrentBuffers := length xs\<rparr>"
    let ?f1 = "f\<lparr>fFileMapArray := Some (a[nat ?i := None]), fBlockPool := ?p1\<rparr>"
    have i: "0 \<le> ?i" "?i < int (length a)" using Cons.prems(2) a(2) by (auto simp: all_mapped_def)
    have step: "DeleteOldBuffs f = DeleteOldBuffs ?f1"
      using True q(1,2) a(5) set_entry_ok [OF a(1) i, of None] destroy_sound [OF a(11), of e]
      by (subst DeleteOldBuffs.simps) (simp add: GetBufferElement_def DecCurBuffers_def)
    have m: "map_ok ?f1 xs"
    proof -
      have "i < length a \<and> a[nat ?i := None] ! i = Some b \<longleftrightarrow> b \<in> set xs \<and> fArrayIndex (blocks ?p1 b) = int i" for i b
        using a(3) [of i b] a(3) [of "nat ?i" e] a(3) [of "nat ?i" b] i a(10) by (auto simp: nth_list_update)
      moreover have "pool_q ?p1 xs" using q(3) by (simp add: pool_q_def)
      moreover have "\<forall>b \<in> set xs. sound_block (fDataBufferSize f) (blocks ?p1 b)" using a(10,11) by auto
      ultimately show ?thesis using a(2,5-9,12,13) by (simp add: map_ok_def)
    qed
    have "all_mapped ?f1 xs" using Cons.prems(2) a(10) by (auto simp: all_mapped_def)
    then obtain f' ys where "DeleteOldBuffs ?f1 = Some f'" "map_ok f' ys" "all_mapped f' ys" "set ys \<subseteq> set xs" "same_map ?f1 f'"
      "\<forall>b \<in> set ys. blocks (fBlockPool f') b = blocks ?p1 b" "fNumCurrentBuffers (fBlockPool f') \<le> fMaxBuffers (fBlockPool f')"
      using Cons.IH [OF m] by auto
    then show ?thesis using a(10) unfolding step by (intro exI [of _ f'] exI [of _ ys]) (auto simp: same_map_def)
  qed
qed

lemma assign_entry:
  assumes "\<And>k c. k < length a \<and> a ! k = Some c \<longleftrightarrow> c \<in> S \<and> idx c = int k" "b \<notin> S" "0 \<le> i" "i < int (length a)" "a ! nat i = None"
  shows "k < length a \<and> a[nat i := Some b] ! k = Some c \<longleftrightarrow> c \<in> insert b S \<and> (idx(b := i)) c = int k"
proof -
  have "nat i < length a" using assms(3,4) by simp
  then show ?thesis using assms(1) [of k c] assms(1) [of k b] assms(1) [of "nat i" c] assms(2,3,5) by (auto simp: nth_list_update)
qed

lemma free_entry:
  assumes "\<And>k c. k < length a \<and> a ! k = Some c \<longleftrightarrow> c \<in> S \<and> idx c = int k" "e \<in> S" "0 \<le> idx e" "idx e < int (length a)"
  shows "k < length a \<and> a[nat (idx e) := None] ! k = Some c \<longleftrightarrow> c \<in> S - {e} \<and> idx c = int k"
  using assms(1) [of k c] assms(1) [of "nat (idx e)" e] assms(1) [of "nat (idx e)" c] assms(2-4) by (auto simp: nth_list_update)

text \<open>The result of asking for the buffer of block \<open>i\<close>.\<close>

definition got_buffer :: "int \<Rightarrow> FileMap \<Rightarrow> addr list \<Rightarrow> addr \<Rightarrow> bool \<Rightarrow> FileMap \<Rightarrow> addr list \<Rightarrow> bool" where
  "got_buffer i f xs b fill f' ys \<longleftrightarrow>
     map_ok f' ys \<and> all_mapped f' ys \<and> same_map f f' \<and>
     fNumCurrentBuffers (fBlockPool f') \<le> fMaxBuffers (fBlockPool f') \<and> b \<in> set ys \<and> fArrayIndex (blocks (fBlockPool f') b) = i \<and>
     (\<forall>c \<in> set ys. c \<noteq> b \<or> \<not> fill \<longrightarrow> c \<in> set xs \<and> blocks (fBlockPool f') c = blocks (fBlockPool f) c)"

lemma get_buffer_found:
  assumes "map_ok f xs" "all_mapped f xs" "fFileMapArray f = Some a" "nat i < length a" "0 \<le> i" "a ! nat i = Some b"
    and "fNumCurrentBuffers (fBlockPool f) \<le> fMaxBuffers (fBlockPool f)"
  shows "\<exists>q ys. MarkUsed (Some b) (fBlockPool f) = Some ((fBlockPool f)\<lparr>fBlockQueue := q\<rparr>) \<and>
    fArrayIndex (blocks (fBlockPool f) b) = i \<and>
    got_buffer i f xs b False (f\<lparr>fBlockPool := (fBlockPool f)\<lparr>fBlockQueue := q\<rparr>\<rparr>) ys"
proof -
  let ?p = "fBlockPool f"
  obtain a' where a: "fFileMapArray f = Some a'" "int (length a') = fMapArraySize f"
    "\<And>i b. i < length a' \<and> a' ! i = Some b \<longleftrightarrow> b \<in> set xs \<and> fArrayIndex (blocks ?p b) = int i"
    "pool_q ?p xs" "fNumCurrentBuffers ?p = length xs" "0 < fMaxBuffers ?p"
    "fMaxBuffers ?p < 2 ^ 32" "0 < fDataBufferSize f" "0 < fMapArraySize f" "distinct xs"
    "\<And>b. b \<in> set xs \<Longrightarrow> sound_block (fDataBufferSize f) (blocks ?p b)"
    "fDataBufferSize f < 2 ^ 32" "fMapArraySize f < 2 ^ 28"
    by (rule map_okE [OF assms(1)]) blast
  have b: "b \<in> set xs" "fArrayIndex (blocks ?p b) = i" using a(1) a(3) [of "nat i" b] assms(3-6) by auto
  obtain q ys where q: "MarkUsed (Some b) ?p = Some (?p\<lparr>fBlockQueue := q\<rparr>)" "pool_q (?p\<lparr>fBlockQueue := q\<rparr>) ys"
      "set ys = set xs" "length ys = length xs"
    using touch [OF a(4) b(1)] by blast
  have "map_ok (f\<lparr>fBlockPool := ?p\<lparr>fBlockQueue := q\<rparr>\<rparr>) ys" using a q by (simp add: map_ok_def)
  then show ?thesis using q b assms(2,7) by (intro exI [of _ q] exI [of _ ys]) (auto simp: got_buffer_def all_mapped_def same_map_def)
qed

lemma get_buffer_new:
  assumes "map_ok f xs" "all_mapped f xs" "fFileMapArray f = Some a" "nat i < length a" "0 \<le> i" "a ! nat i = None"
    and "fNumCurrentBuffers (fBlockPool f) < fMaxBuffers (fBlockPool f)"
  shows "\<exists>b p1 p2 ys. GetBufferElement (fDataBufferSize f) (fBlockPool f) = Some (b, p1) \<and> MarkUsed (Some b) p1 = Some p2 \<and>
    fArrayIndex (blocks p2 b) = -1 \<and>
    got_buffer i f xs b True (f\<lparr>fFileMapArray := Some (a[nat i := Some b]),
      fBlockPool := p2\<lparr>blocks := (blocks p2)(b := (blocks p2 b)\<lparr>fArrayIndex := i\<rparr>)\<rparr>\<rparr>) ys"
proof -
  let ?p = "fBlockPool f"
  obtain a' where a: "fFileMapArray f = Some a'" "int (length a') = fMapArraySize f"
    "\<And>i b. i < length a' \<and> a' ! i = Some b \<longleftrightarrow> b \<in> set xs \<and> fArrayIndex (blocks ?p b) = int i"
    "pool_q ?p xs" "fNumCurrentBuffers ?p = length xs" "0 < fMaxBuffers ?p"
    "fMaxBuffers ?p < 2 ^ 32" "0 < fDataBufferSize f" "0 < fMapArraySize f" "distinct xs"
    "\<And>b. b \<in> set xs \<Longrightarrow> sound_block (fDataBufferSize f) (blocks ?p b)"
    "fDataBufferSize f < 2 ^ 32" "fMapArraySize f < 2 ^ 28"
    by (rule map_okE [OF assms(1)]) blast
  have aa: "a' = a" using a(1) assms(3) by simp
  define b where "b = freshAddr ?p"
  have b: "b \<notin> set xs" using a(4) by (auto simp: pool_q_def b_def)
  let ?new = "AllocateBuffer (fDataBufferSize f) FileBlockBuffer_new"
  obtain q where q: "GetBufferElement (fDataBufferSize f) ?p = Some (b, ?p\<lparr>blocks := (blocks ?p)(b := ?new), freshAddr := b + 1,
        fNumCurrentBuffers := fNumCurrentBuffers ?p + 1, fBlockQueue := q\<rparr>)"
      "pool_q (?p\<lparr>blocks := (blocks ?p)(b := ?new), freshAddr := b + 1,
        fNumCurrentBuffers := fNumCurrentBuffers ?p + 1, fBlockQueue := q\<rparr>) (xs @ [b])"
    using new_buffer [OF a(4) assms(7) a(7)] unfolding b_def by blast
  let ?p1 = "?p\<lparr>blocks := (blocks ?p)(b := ?new), freshAddr := b + 1, fNumCurrentBuffers := fNumCurrentBuffers ?p + 1, fBlockQueue := q\<rparr>"
  obtain q2 ys where t: "MarkUsed (Some b) ?p1 = Some (?p1\<lparr>fBlockQueue := q2\<rparr>)" "pool_q (?p1\<lparr>fBlockQueue := q2\<rparr>) ys"
      "set ys = set (xs @ [b])" "length ys = length (xs @ [b])"
    using touch [OF q(2), of b] by auto
  let ?p2 = "?p1\<lparr>fBlockQueue := q2\<rparr>"
  let ?p3 = "?p2\<lparr>blocks := (blocks ?p2)(b := (blocks ?p2 b)\<lparr>fArrayIndex := i\<rparr>)\<rparr>"
  let ?f = "f\<lparr>fFileMapArray := Some (a[nat i := Some b]), fBlockPool := ?p3\<rparr>"
  have n: "fArrayIndex (blocks ?p2 b) = -1" by (simp add: AllocateBuffer_def FileBlockBuffer_new_def)
  have "sound_block (fDataBufferSize f) (blocks ?p3 b)"
    by (simp add: AllocateBuffer_def FileBlockBuffer_new_def sound_block_def del: replicate_Suc list_update.simps)
  moreover have "(k < length a \<and> a[nat i := Some b] ! k = Some c) = (c \<in> set ys \<and> fArrayIndex (blocks ?p3 c) = int k)" for k c
  proof -
    have "(k < length a \<and> a[nat i := Some b] ! k = Some c) = (c \<in> insert b (set xs) \<and> ((\<lambda>c. fArrayIndex (blocks ?p c))(b := i)) c = int k)"
      by (rule assign_entry [OF a(3) [unfolded aa] b assms(5)]) (use assms(4-6) in auto)
    then show ?thesis by (simp add: t(3))
  qed
  moreover have "pool_q ?p3 ys" using t(2) by (simp add: pool_q_def)
  ultimately have "map_ok ?f ys" using a t(3,4) b unfolding aa by (auto simp: map_ok_def)
  then have "got_buffer i f xs b True ?f ys"
    using t(3) b assms(2,4,5,7) a(2) unfolding aa by (auto simp: got_buffer_def all_mapped_def same_map_def)
  then show ?thesis using q(1) t(1) n by blast
qed

lemma get_buffer_reuse:
  assumes "map_ok f xs" "all_mapped f xs" "fFileMapArray f = Some a" "nat i < length a" "0 \<le> i" "a ! nat i = None"
    and "fNumCurrentBuffers (fBlockPool f) = fMaxBuffers (fBlockPool f)"
  shows "\<exists>b p1 p2 ys. GetBufferElement (fDataBufferSize f) (fBlockPool f) = Some (b, p1) \<and> MarkUsed (Some b) p1 = Some p2 \<and>
    0 \<le> fArrayIndex (blocks p2 b) \<and> fArrayIndex (blocks p2 b) < int (length a) \<and> fArrayIndex (blocks p2 b) \<noteq> i \<and>
    got_buffer i f xs b True (f\<lparr>fFileMapArray := Some (a[nat (fArrayIndex (blocks p2 b)) := None, nat i := Some b]),
      fBlockPool := p2\<lparr>blocks := (blocks p2)(b := (blocks p2 b)\<lparr>fArrayIndex := i\<rparr>)\<rparr>\<rparr>) ys"
proof -
  let ?p = "fBlockPool f"
  obtain a' where a: "fFileMapArray f = Some a'" "int (length a') = fMapArraySize f"
    "\<And>i b. i < length a' \<and> a' ! i = Some b \<longleftrightarrow> b \<in> set xs \<and> fArrayIndex (blocks ?p b) = int i"
    "pool_q ?p xs" "fNumCurrentBuffers ?p = length xs" "0 < fMaxBuffers ?p"
    "fMaxBuffers ?p < 2 ^ 32" "0 < fDataBufferSize f" "0 < fMapArraySize f" "distinct xs"
    "\<And>b. b \<in> set xs \<Longrightarrow> sound_block (fDataBufferSize f) (blocks ?p b)"
    "fDataBufferSize f < 2 ^ 32" "fMapArraySize f < 2 ^ 28"
    by (rule map_okE [OF assms(1)]) blast
  have aa: "a' = a" using a(1) assms(3) by simp
  obtain b ys where xs: "xs = b # ys" using a(5,6) assms(7) by (cases xs) auto
  obtain q where q: "DeQueue (fBlockQueue ?p) = Some (Some b, q)" "fObject (fst q b) = b" "pool_q (?p\<lparr>fBlockQueue := q\<rparr>) ys"
      "b \<noteq> 0" "b < freshAddr ?p" "fQueue (fst q b) = None"
    using take_oldest [OF a(4) [unfolded xs]] by blast
  let ?p1 = "?p\<lparr>fBlockQueue := q\<rparr>"
  have g: "GetBufferElement (fDataBufferSize f) ?p = Some (b, ?p1)" using assms(7) q(1,2) by (simp add: GetBufferElement_def)
  obtain q2 where t: "MarkUsed (Some b) ?p1 = Some (?p1\<lparr>fBlockQueue := q2\<rparr>)" "pool_q (?p1\<lparr>fBlockQueue := q2\<rparr>) (ys @ [b])"
    using put_back [OF q(3), of b] q(2,4-6) by auto
  let ?p2 = "?p1\<lparr>fBlockQueue := q2\<rparr>"
  let ?p3 = "?p2\<lparr>blocks := (blocks ?p2)(b := (blocks ?p2 b)\<lparr>fArrayIndex := i\<rparr>)\<rparr>"
  let ?j = "fArrayIndex (blocks ?p b)"
  let ?a = "a[nat ?j := None]"
  let ?f = "f\<lparr>fFileMapArray := Some (?a[nat i := Some b]), fBlockPool := ?p3\<rparr>"
  have j: "0 \<le> ?j" "?j < int (length a)" using assms(2) a(2) unfolding aa by (auto simp: all_mapped_def xs)
  have ji: "?j \<noteq> i"
  proof
    assume "?j = i"
    then have "a ! nat i = Some b" using a(3) [of "nat i" b] assms(5) unfolding aa by (auto simp: xs)
    then show False using assms(6) by simp
  qed
  have r: "(k < length ?a \<and> ?a ! k = Some c) = (c \<in> set ys \<and> fArrayIndex (blocks ?p c) = int k)" for k c
    using free_entry [OF a(3) [unfolded aa] _ j, of k c] a(10) by (auto simp: xs)
  have "(k < length a \<and> ?a[nat i := Some b] ! k = Some c) = (c \<in> insert b (set ys) \<and> ((\<lambda>c. fArrayIndex (blocks ?p c))(b := i)) c = int k)" for k c
    using assign_entry [OF r, of b i k c] a(10) assms(4,5,6) j ji by (auto simp: xs nth_list_update)
  then have rel: "(k < length a \<and> ?a[nat i := Some b] ! k = Some c) = (c \<in> set (ys @ [b]) \<and> fArrayIndex (blocks ?p3 c) = int k)" for k c
    by auto
  have "pool_q ?p3 (ys @ [b])" using t(2) by (simp add: pool_q_def)
  moreover have "sound_block (fDataBufferSize f) ((blocks ?p b)\<lparr>fArrayIndex := i\<rparr>)"
    using a(11) [of b] by (auto simp: xs sound_block_def)
  moreover have "\<forall>c \<in> set ys. sound_block (fDataBufferSize f) (blocks ?p c)" using a(11) by (auto simp: xs)
  ultimately have "map_ok ?f (ys @ [b])" using a(2,5-9,12,13) rel unfolding aa by (auto simp: map_ok_def xs)
  moreover have "all_mapped ?f (ys @ [b])" using assms(2,4,5) a(2) unfolding aa by (auto simp: all_mapped_def xs)
  moreover have "\<forall>c \<in> set (ys @ [b]). c \<noteq> b \<longrightarrow> c \<in> set xs \<and> blocks ?p3 c = blocks ?p c" by (auto simp: xs)
  ultimately have "got_buffer i f xs b True ?f (ys @ [b])" using assms(7) by (simp add: got_buffer_def same_map_def)
  then show ?thesis using g t(1) j ji by (intro exI [of _ b] exI [of _ ?p1] exI [of _ ?p2] exI [of _ "ys @ [b]"]) simp
qed

lemma GetBuffer_ok:
  assumes "map_ok f xs" "all_mapped f xs" "0 \<le> i" "i < fMapArraySize f"
  shows "\<exists>b fill f' ys. GetBuffer i f = Some (b, fill, f') \<and> got_buffer i f xs b fill f' ys"
proof -
  obtain f1 zs where 1: "DeleteOldBuffs f = Some f1" "map_ok f1 zs" "all_mapped f1 zs" "set zs \<subseteq> set xs" "same_map f f1"
      "\<forall>b \<in> set zs. blocks (fBlockPool f1) b = blocks (fBlockPool f) b"
      "fNumCurrentBuffers (fBlockPool f1) \<le> fMaxBuffers (fBlockPool f1)"
    using DeleteOldBuffs_ok [OF assms(1,2)] by blast
  obtain a where a: "fFileMapArray f1 = Some a" "int (length a) = fMapArraySize f1"
    by (rule map_okE [OF 1(2)]) blast
  have s: "fMapArraySize f1 = fMapArraySize f" using 1(5) by (simp add: same_map_def)
  have sz: "s32 (fMapArraySize f1) = fMapArraySize f1" by (rule map_ok_s32 [OF 1(2)])
  have i: "nat i < length a" "i < s32 (fMapArraySize f1)" unfolding sz using a(2) assms(3,4) s by simp_all
  have e: "get_entry i f1 = Some (a ! nat i)" using a(1) i(1) assms(3) by (simp add: get_entry_def)
  have trans: "got_buffer i f xs b fill f' ys" if "got_buffer i f1 zs b fill f' ys" for b fill f' ys
    using that 1(4-6) unfolding got_buffer_def same_map_def by (metis subsetD)
  show ?thesis
  proof (cases "a ! nat i")
    case (Some b)
    from get_buffer_found [OF 1(2,3) a(1) i(1) assms(3) Some 1(7)] obtain q ys where
      g: "MarkUsed (Some b) (fBlockPool f1) = Some ((fBlockPool f1)\<lparr>fBlockQueue := q\<rparr>)" "fArrayIndex (blocks (fBlockPool f1) b) = i"
      "got_buffer i f1 zs b False (f1\<lparr>fBlockPool := (fBlockPool f1)\<lparr>fBlockQueue := q\<rparr>\<rparr>) ys" by blast
    have "GetBuffer i f = Some (b, False, f1\<lparr>fBlockPool := (fBlockPool f1)\<lparr>fBlockQueue := q\<rparr>\<rparr>)"
      using 1(1) i(2) e Some g(1,2) by (simp add: GetBuffer_def)
    then show ?thesis using trans [OF g(3)] by blast
  next
    case None
    show ?thesis
    proof (cases "fNumCurrentBuffers (fBlockPool f1) < fMaxBuffers (fBlockPool f1)")
      case True
      from get_buffer_new [OF 1(2,3) a(1) i(1) assms(3) None True] obtain b p1 p2 ys where
        g: "GetBufferElement (fDataBufferSize f1) (fBlockPool f1) = Some (b, p1)" "MarkUsed (Some b) p1 = Some p2"
          "fArrayIndex (blocks p2 b) = -1" "got_buffer i f1 zs b True (f1\<lparr>fFileMapArray := Some (a[nat i := Some b]),
          fBlockPool := p2\<lparr>blocks := (blocks p2)(b := (blocks p2 b)\<lparr>fArrayIndex := i\<rparr>)\<rparr>\<rparr>) ys" by blast
      have "set_entry i (Some b) (f1\<lparr>fBlockPool := p2\<rparr>) = Some (f1\<lparr>fBlockPool := p2, fFileMapArray := Some (a[nat i := Some b])\<rparr>)"
        using set_entry_ok [of "f1\<lparr>fBlockPool := p2\<rparr>" a i "Some b"] a i assms(3) by simp
      then have "GetBuffer i f = Some (b, True, f1\<lparr>fFileMapArray := Some (a[nat i := Some b]),
          fBlockPool := p2\<lparr>blocks := (blocks p2)(b := (blocks p2 b)\<lparr>fArrayIndex := i\<rparr>)\<rparr>\<rparr>)"
        using 1(1) i(2) e None g(1-3) assms(3) by (simp add: GetBuffer_def)
      then show ?thesis using trans [OF g(4)] by blast
    next
      case False
      then have m: "fNumCurrentBuffers (fBlockPool f1) = fMaxBuffers (fBlockPool f1)" using 1(7) by simp
      from get_buffer_reuse [OF 1(2,3) a(1) i(1) assms(3) None m] obtain b p1 p2 ys where
        g: "GetBufferElement (fDataBufferSize f1) (fBlockPool f1) = Some (b, p1)" "MarkUsed (Some b) p1 = Some p2"
          "0 \<le> fArrayIndex (blocks p2 b)" "fArrayIndex (blocks p2 b) < int (length a)" "fArrayIndex (blocks p2 b) \<noteq> i"
          "got_buffer i f1 zs b True (f1\<lparr>fFileMapArray := Some (a[nat (fArrayIndex (blocks p2 b)) := None, nat i := Some b]),
          fBlockPool := p2\<lparr>blocks := (blocks p2)(b := (blocks p2 b)\<lparr>fArrayIndex := i\<rparr>)\<rparr>\<rparr>) ys" by blast
      let ?j = "fArrayIndex (blocks p2 b)"
      have "set_entry ?j None (f1\<lparr>fBlockPool := p2\<rparr>) = Some (f1\<lparr>fBlockPool := p2, fFileMapArray := Some (a[nat ?j := None])\<rparr>)"
        using set_entry_ok [of "f1\<lparr>fBlockPool := p2\<rparr>" a ?j None] a g(3,4) by simp
      moreover have "set_entry i (Some b) (f1\<lparr>fBlockPool := p2, fFileMapArray := Some (a[nat ?j := None])\<rparr>) =
          Some (f1\<lparr>fBlockPool := p2, fFileMapArray := Some (a[nat ?j := None, nat i := Some b])\<rparr>)"
        using set_entry_ok [of "f1\<lparr>fBlockPool := p2, fFileMapArray := Some (a[nat ?j := None])\<rparr>" "a[nat ?j := None]" i "Some b"] a i assms(3)
        by simp
      ultimately have "GetBuffer i f = Some (b, True, f1\<lparr>fFileMapArray := Some (a[nat ?j := None, nat i := Some b]),
          fBlockPool := p2\<lparr>blocks := (blocks p2)(b := (blocks p2 b)\<lparr>fArrayIndex := i\<rparr>)\<rparr>\<rparr>)"
        using 1(1) i(2) e None g(1-3,5) by (simp add: GetBuffer_def)
      then show ?thesis using trans [OF g(6)] by blast
    qed
  qed
qed

section \<open>The contents of the buffers\<close>

definition block_of :: "string \<Rightarrow> nat \<Rightarrow> nat \<Rightarrow> string" where
  "block_of dat n i = take n (drop (i * n) dat)"

definition holds :: "string \<Rightarrow> nat \<Rightarrow> FileBlockBuffer \<Rightarrow> bool" where
  "holds dat n b \<longleftrightarrow> fBufferFillSize b = length (block_of dat n (nat (fArrayIndex b))) \<and>
     (\<exists>d. fDataBuffer b = Some d \<and> take (fBufferFillSize b) d = block_of dat n (nat (fArrayIndex b)))"

text \<open>A descriptor that gives the bytes of a file.\<close>

definition reads :: "FileOS \<Rightarrow> int \<Rightarrow> string \<Rightarrow> bool" where
  "reads os fd dat \<longleftrightarrow> (\<forall>pos. os_lseek os fd pos = 0) \<and> (\<forall>pos n. os_read os fd pos n = Inr (take n (drop pos dat)))"

definition cache_ok :: "string \<Rightarrow> FileMap \<Rightarrow> addr list \<Rightarrow> bool" where
  "cache_ok dat f xs \<longleftrightarrow>
     map_ok f xs \<and> all_mapped f xs \<and> fDataBufferSize f < 2 ^ 32 \<and>
     fMapArraySize f = int (length dat div fDataBufferSize f) + 1 \<and>
     (\<forall>b \<in> set xs. holds dat (fDataBufferSize f) (blocks (fBlockPool f) b))"

lemma entry_of:
  assumes "map_ok f xs" "b \<in> set xs" "fArrayIndex (blocks (fBlockPool f) b) = i" "0 \<le> i"
  shows "get_entry i f = Some (Some b)"
proof -
  obtain a where a: "fFileMapArray f = Some a"
    "\<And>i b. i < length a \<and> a ! i = Some b \<longleftrightarrow> b \<in> set xs \<and> fArrayIndex (blocks (fBlockPool f) b) = int i"
    by (rule map_okE [OF assms(1)]) blast
  have "nat i < length a \<and> a ! nat i = Some b" unfolding a(2) using assms(2-4) by simp
  then show ?thesis using a(1) assms(4) by (simp add: get_entry_def)
qed

lemma map_ok_data:
  assumes "map_ok f xs" "b \<in> set xs" "sound_block (fDataBufferSize f) v" "fArrayIndex v = fArrayIndex (blocks (fBlockPool f) b)"
  shows "map_ok (f\<lparr>fBlockPool := (fBlockPool f)\<lparr>blocks := (blocks (fBlockPool f))(b := v)\<rparr>\<rparr>) xs"
  using assms by (auto simp: map_ok_def Let_def pool_q_def)

lemma block_le: "length (block_of dat n i) \<le> n"
  by (simp add: block_of_def)

text \<open>A buffer of the map is filled with its block.\<close>

lemma FillBuffer_ok:
  assumes "reads os (fFile s) dat" "map_ok (fFileMap s) xs" "all_mapped (fFileMap s) xs" "b \<in> set xs"
    and "fArrayIndex (blocks (fBlockPool (fFileMap s)) b) = i" "0 \<le> i"
  shows "\<exists>s' v. FillBuffer os b (s32 i) s = Some (FS_NoErr, s') \<and> fFile s' = fFile s \<and> fFileLength s' = fFileLength s \<and>
    fCacheEnabled s' = fCacheEnabled s \<and>
    fFileMap s' = (fFileMap s)\<lparr>fBlockPool := (fBlockPool (fFileMap s))\<lparr>blocks := (blocks (fBlockPool (fFileMap s)))(b := v)\<rparr>\<rparr> \<and>
    fArrayIndex v = i \<and> sound_block (fDataBufferSize (fFileMap s)) v \<and> holds dat (fDataBufferSize (fFileMap s)) v"
proof -
  let ?f = "fFileMap s" and ?p = "fBlockPool (fFileMap s)"
  let ?n = "fDataBufferSize ?f"
  let ?blk = "block_of dat ?n (nat i)"
  obtain d where d: "fBufferSize (blocks ?p b) = ?n" "fDataBuffer (blocks ?p b) = Some d" "length d = ?n + 1" "d ! ?n = NUL"
    using map_okE [OF assms(2)] assms(4) by (metis sound_block_def)
  have "i < fMapArraySize ?f" using assms(3-5) by (auto simp: all_mapped_def)
  moreover have "fMapArraySize ?f < 2 ^ 28" "?n < 2 ^ 32" using assms(2) by (simp_all add: map_ok_def Let_def)
  ultimately have i: "i < 2 ^ 28" "?n < 2 ^ 32" by linarith+
  have si: "s32 i = i" using i(1) assms(6) by simp
  have st: "nat (i mod 2 ^ 64) * ?n mod 2 ^ 64 = nat i * ?n"
  proof -
    have "nat i * ?n < 2 ^ 28 * 2 ^ 32" using i assms(6) by (intro mult_strict_mono') simp_all
    then show ?thesis using i(1) assms(6) by simp
  qed
  have l: "length ?blk \<le> ?n" by (rule block_le)
  let ?d = "?blk @ drop (length ?blk) d"
  let ?s = "s\<lparr>fPosition := nat i * ?n + length ?blk, fReadPos := nat i * ?n + length ?blk\<rparr>"
  have r: "ReadFromPos os (nat i * ?n) d ?n (Some 0) s = Some (FS_NoErr, ?d, Some (length ?blk), ?s)"
    using assms(1) d(3) l by (simp add: ReadFromPos_def ReadFromDisk_def Seek_def reads_def write_at_def block_of_def)
  let ?f1 = "?f\<lparr>fBlockPool := ?p\<lparr>blocks := (blocks ?p)(b := (blocks ?p b)\<lparr>fDataBuffer := Some ?d\<rparr>)\<rparr>\<rparr>"
  let ?v = "(blocks ?p b)\<lparr>fDataBuffer := Some ?d, fBufferFillSize := length ?blk\<rparr>"
  have "get_entry i ?f1 = Some (Some b)" using entry_of [OF assms(2,4,5,6)] by (simp add: get_entry_def)
  then have "SetIndexBuffFillSize i (length ?blk) ?f1 = Some (?f\<lparr>fBlockPool := ?p\<lparr>blocks := (blocks ?p)(b := ?v)\<rparr>\<rparr>)"
    using assms(6) by (simp add: SetIndexBuffFillSize_def SetFillSize_def)
  then have "FillBuffer os b (s32 i) s = Some (FS_NoErr, ?s\<lparr>fFileMap := ?f\<lparr>fBlockPool := ?p\<lparr>blocks := (blocks ?p)(b := ?v)\<rparr>\<rparr>\<rparr>)"
    unfolding si using d(2) r by (simp only: FillBuffer_def Let_def st) simp
  moreover have "sound_block ?n ?v" using d l by (auto simp: sound_block_def nth_append)
  moreover have "holds dat ?n ?v" using assms(5) by (simp add: holds_def)
  ultimately show ?thesis using assms(5) by (intro exI [of _ "?s\<lparr>fFileMap := _\<rparr>"] exI [of _ ?v]) simp
qed

text \<open>A buffer that is there is found again.\<close>

lemma GetBuffer_hit:
  assumes "map_ok f xs" "all_mapped f xs" "fNumCurrentBuffers (fBlockPool f) \<le> fMaxBuffers (fBlockPool f)"
    and "b \<in> set xs" "fArrayIndex (blocks (fBlockPool f) b) = i" "0 \<le> i"
  shows "\<exists>q ys. GetBuffer i f = Some (b, False, f\<lparr>fBlockPool := (fBlockPool f)\<lparr>fBlockQueue := q\<rparr>\<rparr>) \<and>
    got_buffer i f xs b False (f\<lparr>fBlockPool := (fBlockPool f)\<lparr>fBlockQueue := q\<rparr>\<rparr>) ys"
proof -
  have d: "DeleteOldBuffs f = Some f" using assms(3) by (subst DeleteOldBuffs.simps) simp
  have e: "get_entry i f = Some (Some b)" by (rule entry_of [OF assms(1,4,5,6)])
  obtain a where a: "fFileMapArray f = Some a" "int (length a) = fMapArraySize f" by (rule map_okE [OF assms(1)]) blast
  have i: "nat i < length a" "a ! nat i = Some b" using e a(1) by (auto simp: get_entry_def split: if_splits)
  obtain q ys where "MarkUsed (Some b) (fBlockPool f) = Some ((fBlockPool f)\<lparr>fBlockQueue := q\<rparr>)"
      "got_buffer i f xs b False (f\<lparr>fBlockPool := (fBlockPool f)\<lparr>fBlockQueue := q\<rparr>\<rparr>) ys"
    using get_buffer_found [OF assms(1,2) a(1) i(1) assms(6) i(2) assms(3)] by blast
  moreover have "i < s32 (fMapArraySize f)" unfolding map_ok_s32 [OF assms(1)] using i(1) a(2) assms(6) by linarith
  ultimately show ?thesis using d e assms(5) by (intro exI [of _ q] exI [of _ ys]) (simp add: GetBuffer_def)
qed

text \<open>A block of the file is at hand: asked for, and filled if it was not there.\<close>

definition fetched :: "FileOS \<Rightarrow> string \<Rightarrow> FileSource \<Rightarrow> FileSource \<Rightarrow> bool" where
  "fetched os dat s s' \<longleftrightarrow> fFile s' = fFile s \<and> fFileLength s' = fFileLength s \<and> fCacheEnabled s' = fCacheEnabled s \<and>
     same_map (fFileMap s) (fFileMap s') \<and> (\<exists>ys. cache_ok dat (fFileMap s') ys)"

definition resident :: "string \<Rightarrow> int \<Rightarrow> FileMap \<Rightarrow> bool" where
  "resident dat i f \<longleftrightarrow> (\<exists>xs. cache_ok dat f xs \<and> fNumCurrentBuffers (fBlockPool f) \<le> fMaxBuffers (fBlockPool f) \<and>
     (\<exists>b \<in> set xs. fArrayIndex (blocks (fBlockPool f) b) = i))"

definition fetch :: "FileOS \<Rightarrow> int \<Rightarrow> FileSource \<Rightarrow> nat \<Rightarrow> string \<Rightarrow> FileSource \<Rightarrow> bool" where
  "fetch os i s n blk s' \<longleftrightarrow>
     (\<exists>b fill f d. GetBuffer i (fFileMap s) = Some (b, fill, f) \<and>
        (if fill then FillBuffer os b (s32 i) (s\<lparr>fFileMap := f\<rparr>) else Some (FS_NoErr, s\<lparr>fFileMap := f\<rparr>)) = Some (FS_NoErr, s') \<and>
        GetBuffSize i (fFileMap s') = Some (length blk) \<and> fDataBufferSize (fFileMap s') = n \<and>
        fDataBuffer (blocks (fBlockPool (fFileMap s')) b) = Some d \<and> length d = n + 1 \<and> take (length blk) d = blk)"

text \<open>The contents of a buffer that holds a block.\<close>

lemma block_at_hand:
  assumes "cache_ok dat f ys" "b \<in> set ys" "fArrayIndex (blocks (fBlockPool f) b) = i" "0 \<le> i"
  shows "\<exists>d. GetBuffSize i f = Some (length (block_of dat (fDataBufferSize f) (nat i))) \<and>
    fDataBuffer (blocks (fBlockPool f) b) = Some d \<and> length d = fDataBufferSize f + 1 \<and>
    take (length (block_of dat (fDataBufferSize f) (nat i))) d = block_of dat (fDataBufferSize f) (nat i)"
proof -
  have m: "map_ok f ys" using assms(1) by (simp add: cache_ok_def)
  have h: "holds dat (fDataBufferSize f) (blocks (fBlockPool f) b)" "sound_block (fDataBufferSize f) (blocks (fBlockPool f) b)"
    using assms(1,2) map_okE [OF m] by (auto simp: cache_ok_def)
  then show ?thesis
    using entry_of [OF m assms(2-4)] assms(3,4) by (auto simp: GetBuffSize_def GetFillSize_def holds_def sound_block_def)
qed

text \<open>A block that is there is given without asking the operating system, whatever the file is now.\<close>

lemma fetch_resident:
  assumes "resident dat i (fFileMap s)" "0 \<le> i"
  shows "\<exists>f. fetch os i s (fDataBufferSize (fFileMap s)) (block_of dat (fDataBufferSize (fFileMap s)) (nat i)) (s\<lparr>fFileMap := f\<rparr>)"
proof -
  let ?f = "fFileMap s"
  obtain xs b where x: "cache_ok dat ?f xs" "fNumCurrentBuffers (fBlockPool ?f) \<le> fMaxBuffers (fBlockPool ?f)" "b \<in> set xs"
      "fArrayIndex (blocks (fBlockPool ?f) b) = i"
    using assms(1) by (auto simp: resident_def)
  have m: "map_ok ?f xs" "all_mapped ?f xs" using x(1) by (simp_all add: cache_ok_def)
  obtain q ys where g: "GetBuffer i ?f = Some (b, False, ?f\<lparr>fBlockPool := (fBlockPool ?f)\<lparr>fBlockQueue := q\<rparr>\<rparr>)"
    "got_buffer i ?f xs b False (?f\<lparr>fBlockPool := (fBlockPool ?f)\<lparr>fBlockQueue := q\<rparr>\<rparr>) ys"
    using GetBuffer_hit [OF m x(2-4) assms(2)] by blast
  let ?f1 = "?f\<lparr>fBlockPool := (fBlockPool ?f)\<lparr>fBlockQueue := q\<rparr>\<rparr>"
  have "cache_ok dat ?f1 ys" using g(2) x(1) by (auto simp: got_buffer_def cache_ok_def)
  moreover have "b \<in> set ys" using g(2) by (simp add: got_buffer_def)
  ultimately obtain d where "GetBuffSize i ?f1 = Some (length (block_of dat (fDataBufferSize ?f1) (nat i)))"
    "fDataBuffer (blocks (fBlockPool ?f1) b) = Some d" "length d = fDataBufferSize ?f1 + 1"
    "take (length (block_of dat (fDataBufferSize ?f1) (nat i))) d = block_of dat (fDataBufferSize ?f1) (nat i)"
    using block_at_hand [of dat ?f1 ys b i] x(4) assms(2) by auto
  then show ?thesis using g(1) by (intro exI [of _ ?f1]) (auto simp: fetch_def)
qed

lemma fetch_ok:
  assumes "reads os (fFile s) dat" "cache_ok dat (fFileMap s) xs" "0 \<le> i" "i < fMapArraySize (fFileMap s)"
  shows "\<exists>s'. fetch os i s (fDataBufferSize (fFileMap s)) (block_of dat (fDataBufferSize (fFileMap s)) (nat i)) s' \<and>
    fetched os dat s s' \<and> resident dat i (fFileMap s')"
proof -
  let ?n = "fDataBufferSize (fFileMap s)"
  have m: "map_ok (fFileMap s) xs" "all_mapped (fFileMap s) xs" using assms(2) by (simp_all add: cache_ok_def)
  obtain b fill f ys where g: "GetBuffer i (fFileMap s) = Some (b, fill, f)" "got_buffer i (fFileMap s) xs b fill f ys"
    using GetBuffer_ok [OF m assms(3,4)] by blast
  have y: "map_ok f ys" "all_mapped f ys" "same_map (fFileMap s) f" "b \<in> set ys" "fArrayIndex (blocks (fBlockPool f) b) = i"
      "\<And>c. c \<in> set ys \<Longrightarrow> c \<noteq> b \<or> \<not> fill \<Longrightarrow> c \<in> set xs \<and> blocks (fBlockPool f) c = blocks (fBlockPool (fFileMap s)) c"
    using g(2) unfolding got_buffer_def by blast+
  have nm: "fNumCurrentBuffers (fBlockPool f) \<le> fMaxBuffers (fBlockPool f)" using g(2) by (simp add: got_buffer_def)
  have n: "fDataBufferSize f = ?n" using y(3) by (simp add: same_map_def)
  have "\<exists>s'. (if fill then FillBuffer os b (s32 i) (s\<lparr>fFileMap := f\<rparr>) else Some (FS_NoErr, s\<lparr>fFileMap := f\<rparr>)) = Some (FS_NoErr, s') \<and>
    fFile s' = fFile s \<and> fFileLength s' = fFileLength s \<and> fCacheEnabled s' = fCacheEnabled s \<and> same_map (fFileMap s) (fFileMap s') \<and>
    cache_ok dat (fFileMap s') ys \<and> fArrayIndex (blocks (fBlockPool (fFileMap s')) b) = i \<and>
    fNumCurrentBuffers (fBlockPool (fFileMap s')) \<le> fMaxBuffers (fBlockPool (fFileMap s'))"
  proof (cases fill)
    case False
    then have "cache_ok dat f ys"
      using assms(2) y n by (auto simp: cache_ok_def same_map_def)
    then show ?thesis using False y(3,5) nm by auto
  next
    case True
    obtain s' v where s': "FillBuffer os b (s32 i) (s\<lparr>fFileMap := f\<rparr>) = Some (FS_NoErr, s')" "fFile s' = fFile s" "fFileLength s' = fFileLength s"
        "fCacheEnabled s' = fCacheEnabled s"
        "fFileMap s' = f\<lparr>fBlockPool := (fBlockPool f)\<lparr>blocks := (blocks (fBlockPool f))(b := v)\<rparr>\<rparr>"
        "fArrayIndex v = i" "sound_block ?n v" "holds dat ?n v"
      using FillBuffer_ok [where s = "s\<lparr>fFileMap := f\<rparr>" and xs = ys and i = i and b = b and dat = dat and os = os]
        assms(1,3) y(1,2,4,5) n by auto
    have "map_ok (fFileMap s') ys" using map_ok_data [OF y(1,4), of v] s'(5-7) y(5) n by simp
    moreover have "all_mapped (fFileMap s') ys" using y(2,5) s'(5,6) by (auto simp: all_mapped_def)
    moreover have "\<forall>c \<in> set ys. holds dat ?n (blocks (fBlockPool (fFileMap s')) c)"
      using y(6) assms(2) s'(5,8) by (auto simp: cache_ok_def)
    moreover have "same_map (fFileMap s) (fFileMap s')" using y(3) s'(5) by (simp add: same_map_def)
    ultimately have "cache_ok dat (fFileMap s') ys" using assms(2) by (simp add: cache_ok_def same_map_def)
    then show ?thesis using True s' nm \<open>same_map (fFileMap s) (fFileMap s')\<close> by auto
  qed
  then obtain s' where s': "(if fill then FillBuffer os b (s32 i) (s\<lparr>fFileMap := f\<rparr>) else Some (FS_NoErr, s\<lparr>fFileMap := f\<rparr>)) = Some (FS_NoErr, s')"
    "fFile s' = fFile s" "fFileLength s' = fFileLength s" "fCacheEnabled s' = fCacheEnabled s" "same_map (fFileMap s) (fFileMap s')"
    "cache_ok dat (fFileMap s') ys" "fArrayIndex (blocks (fBlockPool (fFileMap s')) b) = i"
    "fNumCurrentBuffers (fBlockPool (fFileMap s')) \<le> fMaxBuffers (fBlockPool (fFileMap s'))" by blast
  have n': "fDataBufferSize (fFileMap s') = ?n" using s'(5) by (simp add: same_map_def)
  have "fetch os i s ?n (block_of dat ?n (nat i)) s'"
    using g(1) s'(1) n' block_at_hand [OF s'(6) y(4) s'(7) assms(3)] by (auto simp: fetch_def)
  moreover have "fetched os dat s s'" using s' by (auto simp: fetched_def)
  moreover have "resident dat i (fFileMap s')" using s'(6-8) y(4) by (auto simp: resident_def)
  ultimately show ?thesis by blast
qed


lemma copy_out_block:
  assumes "length d = n + 1" "take (length blk) d = blk" "off + k \<le> length blk" "length blk \<le> n" "n < 2 ^ 32"
  shows "copy_out m c d (int off) (int k) = write_at m c (take k (drop off blk))"
proof -
  have "take k (drop off d) = take k (drop off blk)" using assms(2,3) by (metis drop_take take_take min.absorb1 le_diff_conv2 add_leD1 add.commute)
  then show ?thesis using assms by (simp add: copy_out_def)
qed


text \<open>One round of the loop that does not end it.\<close>

lemma cache_loop_round:
  assumes "fetch os (int i) s n (block_of dat n i) s1" "n < 2 ^ 32" "i \<le> e" "int i \<le> m"
    and "p \<le> length (block_of dat n i)" "c + r \<le> length out" "c + r < 2 ^ 32"
    and "\<not> (p = 0 \<and> r \<le> n \<and> length (block_of dat n i) < r)"
  defines "x \<equiv> take r (drop p (block_of dat n i))"
  shows "\<exists>out1. write_at out c x = Some out1 \<and>
    cache_loop os (int e) m (int i) (int p) (int r) out c s =
    cache_loop os (int e) m (int (i + 1)) (int 0) (int (r - length x)) out1 (c + length x) s1"
proof -
  let ?blk = "block_of dat n i"
  obtain b fill f d where g: "GetBuffer (int i) (fFileMap s) = Some (b, fill, f)"
    "(if fill then FillBuffer os b (s32 (int i)) (s\<lparr>fFileMap := f\<rparr>) else Some (FS_NoErr, s\<lparr>fFileMap := f\<rparr>)) = Some (FS_NoErr, s1)"
    "GetBuffSize (int i) (fFileMap s1) = Some (length ?blk)" "fDataBufferSize (fFileMap s1) = n"
    "fDataBuffer (blocks (fBlockPool (fFileMap s1)) b) = Some d" "length d = n + 1" "take (length ?blk) d = ?blk"
    using assms(1) unfolding fetch_def by blast
  let ?k = "min r (length ?blk - p)"
  have lx: "length x = ?k" by (simp add: x_def min.commute)
  have k: "(if int r \<ge> int (length ?blk) - int p then int (length ?blk) - int p else int r) = int ?k"
    using assms(5) by (auto simp: min_def of_nat_diff)
  have "take ?k (drop p ?blk) = x" by (simp add: x_def min_def)
  then have co: "copy_out out c d (int p) (int ?k) = write_at out c x"
    using copy_out_block [OF g(6,7), of p ?k out c] assms(2,5) block_le [of dat n i] by simp
  have "c + length x \<le> length out" using assms(6) lx by simp
  then obtain out1 where o1: "write_at out c x = Some out1" by (simp add: write_at_def)
  have a1: "int ?k \<le> int (length ?blk)" by simp
  have a2: "int r - int ?k = int (r - length x)" using lx by (simp add: of_nat_diff)
  have a3: "nat ((int c + int ?k) mod 2 ^ 32) = c + length x"
  proof -
    have "c + ?k < 2 ^ 32" using assms(7) by simp
    then have "(int c + int ?k) mod 2 ^ 32 = int (c + ?k)" by simp
    then show ?thesis unfolding lx by (simp only: nat_int)
  qed
  have np: "(int p = 0 \<and> int r \<le> int n \<and> int (length ?blk) < int r) = False" using assms(8) by simp
  have "cache_loop os (int e) m (int i) (int p) (int r) out c s =
      cache_loop os (int e) m (int i + 1) 0 (int r - int ?k) out1 (nat ((int c + int ?k) mod 2 ^ 32)) s1"
    using g(1-5) assms(3,4) k co o1 a1 a2 np
    by (subst cache_loop.simps) (simp only: Let_def of_nat_le_iff option.case Option.bind.bind_lunit Assert_simps prod.case if_True if_False simp_thms
        not_True_eq_False of_nat_0_le_iff add.commute [of 1] semiring_1_class.of_nat_simps)
  then have "cache_loop os (int e) m (int i) (int p) (int r) out c s =
      cache_loop os (int e) m (int (i + 1)) (int 0) (int (r - length x)) out1 (c + length x) s1"
    unfolding a2 a3 by (simp add: add.commute)
  then show ?thesis using o1 by blast
qed

lemma block_drop:
  assumes "i * n + p \<le> length dat" "p < n" "r \<le> n - p"
  shows "take r (drop p (block_of dat n i)) = take r (drop (i * n + p) dat)" "p \<le> length (block_of dat n i)"
proof -
  have "take r (drop p (block_of dat n i)) = take (min r (n - p)) (drop (i * n + p) dat)"
    by (simp add: block_of_def drop_take add.commute)
  then show "take r (drop p (block_of dat n i)) = take r (drop (i * n + p) dat)" using assms(3) by (simp add: min_def)
  show "p \<le> length (block_of dat n i)" using assms(1,2) by (simp add: block_of_def)
qed

text \<open>The last block.\<close>

lemma cache_loop_last:
  assumes "fetch os (int i) s n (block_of dat n i) s1" "n < 2 ^ 32" "int i \<le> m"
    and "i * n + p \<le> length dat" "p + r < n" "c + r \<le> length out" "c + r < 2 ^ 32"
    and "x = take r (drop (i * n + p) dat)"
  shows "\<exists>out1. write_at out c x = Some out1 \<and>
    cache_loop os (int i) m (int i) (int p) (int r) out c s = Some (FS_NoErr, out1, Some (c + length x), s1)"
proof -
  let ?blk = "block_of dat n i"
  have blk: "take r (drop p ?blk) = x" "p \<le> length ?blk" using block_drop [OF assms(4), of r] assms(5,8) by simp_all
  show ?thesis
  proof (cases "p = 0 \<and> r \<le> n \<and> length ?blk < r")
    case True
    then have xb: "x = ?blk" using blk(1) by simp
    obtain b fill f d where g: "GetBuffer (int i) (fFileMap s) = Some (b, fill, f)"
      "(if fill then FillBuffer os b (s32 (int i)) (s\<lparr>fFileMap := f\<rparr>) else Some (FS_NoErr, s\<lparr>fFileMap := f\<rparr>)) = Some (FS_NoErr, s1)"
      "GetBuffSize (int i) (fFileMap s1) = Some (length ?blk)" "fDataBufferSize (fFileMap s1) = n"
      "fDataBuffer (blocks (fBlockPool (fFileMap s1)) b) = Some d" "length d = n + 1" "take (length ?blk) d = ?blk"
      using assms(1) unfolding fetch_def by blast
    have co: "copy_out out c d 0 (int (length ?blk)) = write_at out c ?blk"
      using copy_out_block [OF g(6,7), of 0 "length ?blk" out c] block_le [of dat n i] assms(2) by simp
    obtain out1 where o1: "write_at out c ?blk = Some out1" using True assms(6) by (simp add: write_at_def)
    have "u32 (c + length ?blk) = c + length ?blk" using True assms(7) by simp
    then have "cache_loop os (int i) m (int i) (int p) (int r) out c s = Some (FS_NoErr, out1, Some (c + length ?blk), s1)"
      using True g(1-5) assms(3) co o1
      by (subst cache_loop.simps) (simp add: Let_def del: of_nat_min of_nat_diff split del: if_split)
    then show ?thesis using o1 xb by blast
  next
    case False
    obtain out1 where r: "write_at out c x = Some out1"
      "cache_loop os (int i) m (int i) (int p) (int r) out c s =
       cache_loop os (int i) m (int (i + 1)) (int 0) (int (r - length x)) out1 (c + length x) s1"
      using cache_loop_round [OF assms(1,2) order_refl assms(3) blk(2) assms(6,7) False] unfolding blk(1) by blast
    have "cache_loop os (int i) m (int (i + 1)) (int 0) (int (r - length x)) out1 (c + length x) s1 =
        Some (FS_NoErr, out1, Some (c + length x), s1)"
      by (subst cache_loop.simps) simp
    then show ?thesis using r by auto
  qed
qed


section \<open>Reading\<close>

text \<open>A source with a cache, its file, and the descriptor that reads the file.\<close>

definition source_ok :: "FileOS \<Rightarrow> string \<Rightarrow> FileSource \<Rightarrow> bool" where
  "source_ok os dat s \<longleftrightarrow>
     reads os (fFile s) dat \<and> fFileLength s = length dat \<and> (\<exists>xs. cache_ok dat (fFileMap s) xs)"


text \<open>A read within one block.\<close>

lemma Read_one_block:
  assumes "fetch os (int i) s n (block_of dat n i) s1" "fDataBufferSize (fFileMap s) = n" "0 < n" "n < 2 ^ 32"
    and "fCacheEnabled s" "Initialized (fFileMap s)" "i = pos div n" "i = (pos + len) div n" "int i < fMapArraySize (fFileMap s)"
    and "pos < fFileLength s" "pos \<le> length dat" "len \<le> length out" "pos + len < 2 ^ 64"
  defines "x \<equiv> take len (drop pos dat)"
  shows "Read_file os pos out len (Some 0) s = Some (FS_NoErr, x @ drop (length x) out, Some (length x), s1)"
proof -
  let ?f = "fFileMap s" and ?m = "fMapArraySize (fFileMap s) - 1"
  have w64: "(pos + len) mod 2 ^ 64 = pos + len" using assms(13) by simp
  have ix: "GetBuffIndex ((pos + len) mod 2 ^ 64) ?f = Some (int i)" "GetBuffIndex pos ?f = Some (int i)" "GetMaxBuffIndex ?f = Some ?m"
    using assms(2,3,7-9) unfolding w64 by (simp_all add: GetBuffIndex_def GetMaxBuffIndex_def)
  have p: "i * n + pos mod n = pos" using assms(7) by simp
  have pr: "pos mod n + len < n"
  proof -
    have "(i * n + (pos mod n + len)) div n = i" using p assms(8) by (simp only: add.assoc [symmetric])
    then have "(pos mod n + len) div n = 0" using assms(3) by simp
    then show ?thesis using assms(3) by (simp add: div_eq_0_iff)
  qed
  have im: "int i \<le> ?m" using assms(9) by simp
  have pl: "i * n + pos mod n \<le> length dat" unfolding p by (rule assms(11))
  have c: "0 + len \<le> length out" "0 + len < 2 ^ 32" using assms(4,12) pr by simp_all
  have xx: "x = take len (drop (i * n + pos mod n) dat)" unfolding p x_def ..
  obtain out1 where o: "write_at out 0 x = Some out1"
    "cache_loop os (int i) ?m (int i) (int (pos mod n)) (int len) out 0 s = Some (FS_NoErr, out1, Some (0 + length x), s1)"
    using cache_loop_last [OF assms(1,4) im pl pr c xx] by blast
  have bp: "int pos - int i * int n = int (pos mod n)" unfolding assms(7) by (simp add: of_nat_mod of_nat_div minus_div_mult_eq_mod)
  have "ReadFromCache os pos out len (Some 0) s = Some (FS_NoErr, out1, Some (length x), s1)"
    using assms(2,5,6,10) ix im o(2) bp by (simp only: ReadFromCache_def GetBuffOffset_def Let_def) simp
  moreover have "Read_file os pos out len (Some 0) s = ReadFromCache os pos out len (Some 0) s"
    using assms(5,6) ix im by (simp add: Read_file_def)
  moreover have "out1 = x @ drop (length x) out" using o(1) by (auto simp: write_at_def split: if_splits)
  ultimately show ?thesis by simp
qed

section \<open>Properties\<close>








text \<open>A new cache.\<close>

lemma DeleteBlockPool_fields: "DeleteBlockPool p = Some p1 \<Longrightarrow> fBufferUnitSizeBytes p1 = kBufferUnitSize \<and> fMaxBuffers p1 = 1"
  by (auto simp: DeleteBlockPool_def split: Option.bind_splits)

lemma set_buffers_fields [simp]:
  "fBufferUnitSizeBytes (SetBuffIncValue n (SetMaxBuffers n p)) = fBufferUnitSizeBytes p"
  "fMaxBuffers (SetBuffIncValue n (SetMaxBuffers n p)) = (if n > 0 then n else fMaxBuffers p)"
  "fBufferInc (SetBuffIncValue n (SetMaxBuffers n p)) = (if n > 0 then n else fBufferInc p)"
  "fNumCurrentBuffers (SetBuffIncValue n (SetMaxBuffers n p)) = fNumCurrentBuffers p"
  "fBlockQueue (SetBuffIncValue n (SetMaxBuffers n p)) = fBlockQueue p"
  "freshAddr (SetBuffIncValue n (SetMaxBuffers n p)) = freshAddr p"
  by (simp_all add: SetBuffIncValue_def SetMaxBuffers_def)

text \<open>The number of entries that fit: their bytes are counted in 31 bits.\<close>

lemma Clean_small:
  assumes "fFileMapArray f = Some a" "0 \<le> fMapArraySize f" "fMapArraySize f < 2 ^ 28"
  shows "Clean f = Some (f\<lparr>fFileMapArray := Some (replicate (nat (fMapArraySize f)) None)\<rparr>)"
proof -
  have "s32 (kPointerSize * fMapArraySize f) = kPointerSize * fMapArraySize f" "s32 (fMapArraySize f + 1) = fMapArraySize f + 1"
    using assms(2,3) by (simp_all add: kPointerSize_def)
  then show ?thesis using assms by (simp add: Clean_def kPointerSize_def)
qed

lemma Clean_large:
  assumes "fFileMapArray f \<noteq> None" "2 ^ 28 \<le> fMapArraySize f" "fMapArraySize f < 2 ^ 29"
  shows "Clean f = None"
proof -
  have "s32 (8 * fMapArraySize f) = 8 * fMapArraySize f - 2 ^ 32"
  proof -
    have "(8 * fMapArraySize f + 2 ^ 31) div 2 ^ 32 = 1" using assms(2,3) by (intro int_div_pos_eq [where r = "8 * fMapArraySize f - 2 ^ 31"]) simp_all
    then show ?thesis by (simp add: s32_def minus_div_mult_eq_mod [symmetric])
  qed
  then have "s32 (kPointerSize * fMapArraySize f) < 0" using assms(3) by (simp add: kPointerSize_def)
  then show ?thesis using assms(1) by (simp add: Clean_def Let_def)
qed

lemma Clean_fields:
  assumes "Clean f = Some f'"
  shows "fBlockPool f' = fBlockPool f" "fNumBuffSizeUnits f' = fNumBuffSizeUnits f" "fDataBufferSize f' = fDataBufferSize f"
    "fMapArraySize f' = fMapArraySize f"
  using assms by (auto simp: Clean_def Let_def split: if_splits)

text \<open>What a new array is made from.\<close>

lemma AllocateBufferMap_unfold:
  assumes "\<not> (fFileMapArray f \<noteq> None \<and> fNumBuffSizeUnits f = k \<and> inc = fMaxBuffers (fBlockPool f))"
    and "AllocateBufferMap u k inc mb len br f = Some f' \<or> k \<noteq> 0 \<and> DeleteBlockPool (SetBufferUnitSize (if u < 1 then 1 else u) (fBlockPool f)) \<noteq> None"
  obtains p1 units where "DeleteBlockPool (SetBufferUnitSize (if u < 1 then 1 else u) (fBlockPool f)) = Some p1"
    "1 \<le> units" "k = 0 \<or> units = k"
    "\<And>n f2. n = u32 (kBufferUnitSize * units) \<Longrightarrow>
      f2 = f\<lparr>fBlockPool := SetBuffIncValue inc (SetMaxBuffers inc p1), fNumBuffSizeUnits := units, fDataBufferSize := n,
             fMapArraySize := int (len div n) + 1, fFileMapArray := Some []\<rparr> \<Longrightarrow>
      AllocateBufferMap u k inc mb len br f = (if n = 0 \<or> s32 (fMapArraySize f2 + 1) < 0 then None else Clean f2)"
proof -
  let ?p = "SetBufferUnitSize (if u < 1 then 1 else u) (fBlockPool f)"
  let ?b = "if br = 0 then u32 (mb * fBufferUnitSizeBytes ?p) else br"
  define w where "w = (if k = 0 then (if ?b div fBufferUnitSizeBytes ?p > mb then mb else ?b div fBufferUnitSizeBytes ?p) else k)"
  define units where "units = (if w < 1 then 1 else w)"
  have n: "(fFileMapArray f \<noteq> None \<and> fNumBuffSizeUnits f = k \<and> inc = fMaxBuffers (fBlockPool f)) = False" using assms(1) by simp
  have z: "k \<noteq> 0 \<or> fBufferUnitSizeBytes ?p \<noteq> 0"
  proof (rule ccontr)
    assume k: "\<not> (k \<noteq> 0 \<or> fBufferUnitSizeBytes ?p \<noteq> 0)"
    then have "AllocateBufferMap u k inc mb len br f = None" unfolding AllocateBufferMap_def n if_False Let_def by simp
    with assms(2) k show False by simp
  qed
  have e: "(if k = 0 then if fBufferUnitSizeBytes ?p = 0 then None
         else Some (if ?b div fBufferUnitSizeBytes ?p > mb then mb else ?b div fBufferUnitSizeBytes ?p) else Some k) = Some w"
    using z by (auto simp: w_def)
  have "DeleteBlockPool ?p \<noteq> None"
  proof
    assume d: "DeleteBlockPool ?p = None"
    then have "AllocateBufferMap u k inc mb len br f = None"
      unfolding AllocateBufferMap_def n if_False Let_def DeleteMap_def by (simp add: e [unfolded Let_def])
    with assms(2) d show False by simp
  qed
  then obtain p1 where p1: "DeleteBlockPool ?p = Some p1" by blast
  have "AllocateBufferMap u k inc mb len br f = (if N = 0 \<or> s32 (fMapArraySize f2 + 1) < 0 then None else Clean f2)"
    if "N = u32 (kBufferUnitSize * units)" "f2 = f\<lparr>fBlockPool := SetBuffIncValue inc (SetMaxBuffers inc p1), fNumBuffSizeUnits := units,
      fDataBufferSize := N, fMapArraySize := int (len div N) + 1, fFileMapArray := Some []\<rparr>" for N f2
    using DeleteBlockPool_fields [OF p1] p1
    unfolding AllocateBufferMap_def n if_False Let_def DeleteMap_def e Option.bind.bind_lunit units_def [symmetric] that
    by (cases "u32 (kBufferUnitSize * units) = 0") (simp_all add: units_def [symmetric] Let_def)
  moreover have "1 \<le> units" "k = 0 \<or> units = k" by (auto simp: units_def w_def)
  ultimately show thesis using that [OF p1, of units] by blast
qed

lemma AllocateBufferMap_fields:
  assumes "AllocateBufferMap u k inc mb len br f = Some f'"
    and "\<not> (fFileMapArray f \<noteq> None \<and> fNumBuffSizeUnits f = k \<and> inc = fMaxBuffers (fBlockPool f))"
  obtains p1 units where "DeleteBlockPool (SetBufferUnitSize (if u < 1 then 1 else u) (fBlockPool f)) = Some p1"
    "fBlockPool f' = SetBuffIncValue inc (SetMaxBuffers inc p1)" "fNumBuffSizeUnits f' = units" "1 \<le> units"
    "fDataBufferSize f' = u32 (kBufferUnitSize * units)" "fDataBufferSize f' \<noteq> 0"
    "fMapArraySize f' = int (len div fDataBufferSize f') + 1"
    "fMapArraySize f' < 2 ^ 28 \<Longrightarrow> fFileMapArray f' = Some (replicate (len div fDataBufferSize f' + 1) None)"
proof -
  obtain p1 units where a: "DeleteBlockPool (SetBufferUnitSize (if u < 1 then 1 else u) (fBlockPool f)) = Some p1" "1 \<le> units"
    "\<And>n f2. n = u32 (kBufferUnitSize * units) \<Longrightarrow>
      f2 = f\<lparr>fBlockPool := SetBuffIncValue inc (SetMaxBuffers inc p1), fNumBuffSizeUnits := units, fDataBufferSize := n,
             fMapArraySize := int (len div n) + 1, fFileMapArray := Some []\<rparr> \<Longrightarrow>
      AllocateBufferMap u k inc mb len br f = (if n = 0 \<or> s32 (fMapArraySize f2 + 1) < 0 then None else Clean f2)"
    by (rule AllocateBufferMap_unfold [OF assms(2) disjI1 [OF assms(1)]]) blast
  define n where "n = u32 (kBufferUnitSize * units)"
  define f2 where "f2 = f\<lparr>fBlockPool := SetBuffIncValue inc (SetMaxBuffers inc p1), fNumBuffSizeUnits := units, fDataBufferSize := n,
             fMapArraySize := int (len div n) + 1, fFileMapArray := Some []\<rparr>"
  have c: "n \<noteq> 0" "Clean f2 = Some f'" using a(3) [OF n_def f2_def] assms(1) by (simp_all split: if_splits)
  note d = Clean_fields [OF c(2)]
  have "fFileMapArray f' = Some (replicate (len div n + 1) None)" if "fMapArraySize f' < 2 ^ 28"
  proof -
    have "fFileMapArray f2 = Some []" "0 \<le> fMapArraySize f2" "fMapArraySize f2 < 2 ^ 28" "nat (fMapArraySize f2) = len div n + 1"
      using that d(4) by (simp_all add: f2_def nat_add_distrib)
    then show ?thesis using Clean_small [of f2] c(2) by auto
  qed
  moreover have "fBlockPool f2 = SetBuffIncValue inc (SetMaxBuffers inc p1)" "fNumBuffSizeUnits f2 = units" "fDataBufferSize f2 = n"
    "fMapArraySize f2 = int (len div n) + 1" by (simp_all add: f2_def)
  ultimately show thesis using that [OF a(1)] a(2) c(1) d n_def by simp
qed

lemma block_size_bound:
  assumes "n = u32 (kBufferUnitSize * units)" "n \<noteq> 0" "len < 2 ^ 43 - 2 ^ 15"
  shows "int (len div n) + 1 < 2 ^ 28"
proof -
  have "kBufferUnitSize dvd n" unfolding assms(1) by (simp add: u32_def kBufferUnitSize_def dvd_mod_iff)
  then have "kBufferUnitSize \<le> n" using assms(2) by (simp add: dvd_imp_le)
  then have "len div n \<le> len div 2 ^ 15" by (simp add: div_le_mono2 kBufferUnitSize_def)
  moreover have "len div 2 ^ 15 < 2 ^ 28 - 1" using assms(3) by (simp add: less_mult_imp_div_less)
  ultimately show ?thesis by simp
qed

lemma new_pool: "DeleteBlockPool (SetBufferUnitSize n FileBlockPool_new) = Some FileBlockPool_new"
  by (simp add: DeleteBlockPool_def SetBufferUnitSize_def FileBlockPool_new_def delete_buffers.simps DeQueue_def Queue_new_def Let_def)

lemma AllocateFileCache_new:
  assumes "AllocateFileCache u k inc mb br (EnableFileCache c (FileSource_path os path)) = Some s"
    and "fd = os_open os path" "fd \<noteq> -1" "os_fstat os fd = Some (length dat, mtime, dir)" "reads os fd dat" "inc < 2 ^ 32"
    and "length dat < 2 ^ 43 - 2 ^ 15"
  shows "source_ok os dat s" "fMaxBuffers (fBlockPool (fFileMap s)) = (if inc > 0 then inc else 1)"
    "fBufferInc (fBlockPool (fFileMap s)) = inc"
proof -
  let ?s0 = "EnableFileCache c (FileSource_path os path)" and ?f = "fFileMap s"
  have s0: "fFile ?s0 = fd" "fFileLength ?s0 = length dat" "fFileMap ?s0 = FileMap_new"
    using assms(2-4) by (simp_all add: EnableFileCache_def FileSource_path_def Set_file_def Close_def FileSource_new_def Let_def)
  have f: "fFile s = fd" "fFileLength s = length dat"
    using assms(1) s0 unfolding AllocateFileCache_def by (auto split: Option.bind_splits)
  have m: "AllocateBufferMap u k inc mb (length dat) br FileMap_new = Some ?f"
    using assms(1) s0 unfolding AllocateFileCache_def by (auto split: Option.bind_splits)
  obtain p1 units where p: "DeleteBlockPool (SetBufferUnitSize (if u < 1 then 1 else u) FileBlockPool_new) = Some p1"
    "fBlockPool ?f = SetBuffIncValue inc (SetMaxBuffers inc p1)" "fNumBuffSizeUnits ?f = units" "1 \<le> units"
    "fDataBufferSize ?f = u32 (kBufferUnitSize * units)" "fDataBufferSize ?f \<noteq> 0"
    "fMapArraySize ?f = int (length dat div fDataBufferSize ?f) + 1"
    "fMapArraySize ?f < 2 ^ 28 \<Longrightarrow> fFileMapArray ?f = Some (replicate (length dat div fDataBufferSize ?f + 1) None)"
    by (rule AllocateBufferMap_fields [OF m]) (simp_all add: FileMap_new_def)
  have e: "fMapArraySize ?f < 2 ^ 28" unfolding p(7) by (rule block_size_bound [OF p(5,6) assms(7)])
  have n32: "fDataBufferSize ?f < 2 ^ 32" unfolding p(5) by (rule u32_less)
  have p1: "p1 = FileBlockPool_new" using p(1) new_pool by simp
  have q: "queue_rep (Queue_new (\<lambda>_. QueueElem_new 0) 0 0) []" by (rule queue_rep_empty) (simp add: QueueElem_new_def)
  have "map_ok ?f []"
    using p(2,6,7) p(8) [OF e] e n32 q assms(6) unfolding p1
    by (simp add: map_ok_def Let_def pool_q_def FileBlockPool_new_def Queue_new_def del: replicate_Suc)
  then show "source_ok os dat s"
    using f n32 assms(5) p(7) unfolding source_ok_def cache_ok_def all_mapped_def by (intro conjI exI [of _ "[]"]) simp_all
  show "fMaxBuffers (fBlockPool ?f) = (if inc > 0 then inc else 1)" "fBufferInc (fBlockPool ?f) = inc"
    unfolding p(2) p1 by (simp_all add: FileBlockPool_new_def)
qed


definition big_file :: string where
  "big_file = replicate 100000 (CHR ''a'') @ ''end''"

definition ex_os :: FileOS where
  "ex_os = \<lparr>os_open = (\<lambda>path. if path = ''a'' then 3 else if path = ''b'' then 4 else -1),
     os_fstat = (\<lambda>fd. Some (100003, 0, False)), os_lseek = (\<lambda>_ _. 0),
     os_read = (\<lambda>fd pos n. Inr (if fd = 3 then take n (drop pos big_file) else take n (drop pos (replicate 100003 (CHR ''b'')))))\<rparr>"

lemma ex_os_simps: "os_open ex_os ''a'' = 3" "os_fstat ex_os fd = Some (100003, 0, False)" "reads ex_os 3 big_file"
  by (simp_all add: ex_os_def reads_def)

lemma big_file_length: "length big_file = 100003"
  by (simp add: big_file_def)

lemma ex_cache:
  "\<exists>s. AllocateFileCache 32 0 1 8 32768 (EnableFileCache True (FileSource_path ex_os ''a'')) = Some s \<and> fCacheEnabled s \<and>
    fDataBufferSize (fFileMap s) = 32768"
proof -
  have f: "fFileMap (EnableFileCache True (FileSource_path ex_os ''a'')) = FileMap_new"
    by (simp add: EnableFileCache_def FileSource_path_def Set_file_def Close_def FileSource_new_def Let_def ex_os_simps)
  have k: "fBufferUnitSizeBytes FileBlockPool_new = 32768" by (simp add: FileBlockPool_new_def kBufferUnitSize_def)
  have u: "fBufferUnitSizeBytes (SetBufferUnitSize 32 FileBlockPool_new) = 32768" by (simp add: SetBufferUnitSize_def)
  have "\<exists>f. AllocateBufferMap 32 0 1 8 100003 32768 FileMap_new = Some f \<and> fDataBufferSize f = 32768"
    by (simp add: AllocateBufferMap_def FileMap_new_def Let_def DeleteMap_def u new_pool k Clean_def kPointerSize_def)
  moreover have "fFileLength (EnableFileCache True (FileSource_path ex_os ''a'')) = 100003"
    by (simp add: EnableFileCache_def FileSource_path_def Set_file_def Close_def FileSource_new_def Let_def ex_os_simps)
  ultimately obtain m where "AllocateBufferMap 32 0 1 8 (fFileLength (EnableFileCache True (FileSource_path ex_os ''a''))) 32768 FileMap_new = Some m"
    "fDataBufferSize m = 32768"
    by auto
  then show ?thesis
    using f by (auto simp: AllocateFileCache_def EnableFileCache_def)
qed


text \<open>Opening another file does not empty the cache: a read of a block that was read from the first file gives the
  bytes of the first file again, whatever the second one holds.\<close>

theorem Set_keeps_old_blocks:
  assumes "source_ok os dat s" "fCacheEnabled s" "pos div fDataBufferSize (fFileMap s) = (pos + len) div fDataBufferSize (fFileMap s)"
    and "pos < length dat" "len \<le> length out" "pos + len < 2 ^ 64"
    and "os_open os path \<noteq> -1" "os_fstat os (os_open os path) = Some (n2, mtime, dir)" "pos < n2"
  shows "\<exists>s1 s2. Read_file os pos out len (Some 0) s =
      Some (FS_NoErr, take len (drop pos dat) @ drop (length (take len (drop pos dat))) out, Some (length (take len (drop pos dat))), s1) \<and>
    Read_file os pos out len (Some 0) (Set_file os path s1) =
      Some (FS_NoErr, take len (drop pos dat) @ drop (length (take len (drop pos dat))) out, Some (length (take len (drop pos dat))), s2)"
proof -
  let ?n = "fDataBufferSize (fFileMap s)"
  let ?i = "pos div ?n"
  obtain xs where r: "reads os (fFile s) dat" and l: "fFileLength s = length dat" and k: "cache_ok dat (fFileMap s) xs"
    using assms(1) by (auto simp: source_ok_def)
  have n: "0 < ?n" "?n < 2 ^ 32" "Initialized (fFileMap s)" "fMapArraySize (fFileMap s) = int (length dat div ?n) + 1"
    using k by (auto simp: cache_ok_def map_ok_def Let_def Initialized_def)
  have "?i \<le> length dat div ?n" using assms(4) by (intro div_le_mono) simp
  then have im: "int ?i < fMapArraySize (fFileMap s)" using n(4) by simp
  obtain s1 where s1: "fetch os (int ?i) s ?n (block_of dat ?n ?i) s1" "fetched os dat s s1" "resident dat (int ?i) (fFileMap s1)"
    using fetch_ok [OF r k, of "int ?i"] im by auto
  have pd: "pos \<le> length dat" "pos < fFileLength s" using assms(4) l by simp_all
  note first = Read_one_block [OF s1(1) refl n(1,2) assms(2) n(3) refl assms(3) im pd(2,1) assms(5,6)]
  let ?t = "Set_file os path s1"
  have t: "fFileMap ?t = fFileMap s1" "fFileLength ?t = n2" "fCacheEnabled ?t"
    using assms(2,7,8) s1(2) by (auto simp: Set_file_def Close_def Let_def fetched_def)
  have n1: "fDataBufferSize (fFileMap s1) = ?n" "fMapArraySize (fFileMap s1) = fMapArraySize (fFileMap s)"
    using s1(2) by (simp_all add: fetched_def same_map_def)
  have i1: "Initialized (fFileMap s1)"
    using s1(2) by (auto simp: fetched_def cache_ok_def map_ok_def Let_def Initialized_def)
  obtain f where f: "fetch os (int ?i) ?t ?n (block_of dat ?n ?i) (?t\<lparr>fFileMap := f\<rparr>)"
    using fetch_resident [of dat "int ?i" ?t os] s1(3) t(1) n1(1) by auto
  have "Read_file os pos out len (Some 0) ?t =
      Some (FS_NoErr, take len (drop pos dat) @ drop (length (take len (drop pos dat))) out, Some (length (take len (drop pos dat))), ?t\<lparr>fFileMap := f\<rparr>)"
    by (rule Read_one_block [OF f]) (use t n1 i1 n im assms pd in simp_all)
  then show ?thesis using first by blast
qed

theorem Set_keeps_old_blocks_witness:
  "\<exists>s s1 s2. AllocateFileCache 32 0 1 8 32768 (EnableFileCache True (FileSource_path ex_os ''a'')) = Some s \<and>
    Read_file ex_os 10 (replicate 2 NUL) 2 (Some 0) s = Some (0, ''aa'', Some 2, s1) \<and>
    Read_file ex_os 10 (replicate 2 NUL) 2 (Some 0) (Set_file ex_os ''b'' s1) = Some (0, ''aa'', Some 2, s2) \<and>
    os_read ex_os (os_open ex_os ''b'') 10 2 = Inr ''bb''"
proof -
  obtain s where s: "AllocateFileCache 32 0 1 8 32768 (EnableFileCache True (FileSource_path ex_os ''a'')) = Some s" "fCacheEnabled s"
      "fDataBufferSize (fFileMap s) = 32768"
    using ex_cache by blast
  have k: "source_ok ex_os big_file s"
    by (rule AllocateFileCache_new [OF s(1) refl, where mtime = 0 and dir = False]) (simp_all add: ex_os_simps big_file_length)
  have r: "replicate 2 c = [c, c]" for c :: char by (simp add: numeral_2_eq_2)
  have x: "take 2 (drop 10 big_file) = ''aa''" by (simp add: big_file_def r)
  have l: "length (take 2 (drop 10 big_file)) = 2" unfolding x by simp
  have y: "os_open ex_os ''b'' = 4" "os_read ex_os 4 10 2 = Inr ''bb''" by (simp_all add: ex_os_def r)
  show ?thesis
    using Set_keeps_old_blocks [OF k s(2), of 10 2 "replicate 2 NUL" "''b''" 100003 0 False] s(1,3)
    unfolding l unfolding x by (simp add: big_file_length ex_os_simps FS_NoErr_def y r)
qed

text \<open>A file of 8 TiB and a cache with blocks of one unit: the number of bytes to set to zero is negative.\<close>

theorem AllocateBufferMap_too_long:
  assumes "2 ^ 43 - 2 ^ 15 \<le> len" "len < 2 ^ 44 - 2 ^ 15"
  shows "AllocateBufferMap u 1 inc mb len br FileMap_new = None"
proof -
  have "fBlockPool FileMap_new = FileBlockPool_new" "fFileMapArray FileMap_new = None" by (simp_all add: FileMap_new_def)
  then obtain p1 units where a: "units = 1"
    "\<And>n f2. n = u32 (kBufferUnitSize * units) \<Longrightarrow>
      f2 = FileMap_new\<lparr>fBlockPool := SetBuffIncValue inc (SetMaxBuffers inc p1), fNumBuffSizeUnits := units, fDataBufferSize := n,
             fMapArraySize := int (len div n) + 1, fFileMapArray := Some []\<rparr> \<Longrightarrow>
      AllocateBufferMap u 1 inc mb len br FileMap_new = (if n = 0 \<or> s32 (fMapArraySize f2 + 1) < 0 then None else Clean f2)"
    using AllocateBufferMap_unfold [of FileMap_new 1 inc u mb len br undefined] new_pool [of "if u < 1 then 1 else u"]
    by (metis option.distinct(1) zero_neq_one)
  define f2 where "f2 = FileMap_new\<lparr>fBlockPool := SetBuffIncValue inc (SetMaxBuffers inc p1), fNumBuffSizeUnits := units,
             fDataBufferSize := 2 ^ 15, fMapArraySize := int (len div 2 ^ 15) + 1, fFileMapArray := Some []\<rparr>"
  have n: "2 ^ 15 = u32 (kBufferUnitSize * units)" by (simp add: a(1) kBufferUnitSize_def)
  have "2 ^ 28 - 1 \<le> len div 2 ^ 15" using div_le_mono [OF assms(1), of "2 ^ 15"] by simp
  moreover have "len div 2 ^ 15 < 2 ^ 29 - 1" using assms(2) by (simp add: less_mult_imp_div_less)
  ultimately have "Clean f2 = None" by (intro Clean_large) (simp_all add: f2_def)
  then show ?thesis using a(2) [OF n f2_def] by simp
qed

theorem AllocateBufferMap_too_long_witness:
  "AllocateBufferMap 32 1 1 8 (2 ^ 43) 0 FileMap_new = None"
  by (rule AllocateBufferMap_too_long) simp_all

text \<open>The size of a unit that is asked for has no effect: emptying the pool sets it back to 32 KB before the size of a
  block is computed from it.\<close>

theorem unit_size_ignored:
  assumes "AllocateBufferMap u k inc mb len br f = Some f'" "fFileMapArray f = None"
  shows "fDataBufferSize f' = u32 (2 ^ 15 * fNumBuffSizeUnits f')"
  by (rule AllocateBufferMap_fields [OF assms(1)]) (use assms(2) in \<open>simp_all add: kBufferUnitSize_def\<close>)

theorem unit_size_ignored_witness:
  "\<exists>f'. AllocateBufferMap 1 4 1 8 1000 0 FileMap_new = Some f' \<and> fDataBufferSize f' = 131072"
proof -
  have k: "fBufferUnitSizeBytes FileBlockPool_new = 32768" by (simp add: FileBlockPool_new_def kBufferUnitSize_def)
  have "\<exists>f'. AllocateBufferMap 1 4 1 8 1000 0 FileMap_new = Some f' \<and> fNumBuffSizeUnits f' = 4"
    by (simp add: AllocateBufferMap_def FileMap_new_def Let_def DeleteMap_def new_pool k Clean_def kPointerSize_def)
  then obtain f' where f: "AllocateBufferMap 1 4 1 8 1000 0 FileMap_new = Some f'" "fNumBuffSizeUnits f' = 4" by blast
  show ?thesis using f unit_size_ignored [OF f(1)] by (auto simp: FileMap_new_def)
qed

end
