(* ===== verification/CF_Ev.thy ===== *)
theory CF_Ev
  imports CF_Def
begin

text \<open>
  The interface to the readiness of descriptors (\<^verbatim>\<open>src/CFSocket/include/CF/Net/ev.h\<close>) and what
  its implementations promise.  Descriptors and masks are integers, the pointer \<open>er_data\<close> is a
  number, zero for the null pointer.

  A history of calls is a list of \<open>ev_op\<close>; an operation carries what the operating system answers to it.
  A call to wait that is still in the system call has no result yet.
\<close>

unbundle bit_operations_syntax

definition EV_FD :: int where "EV_FD = 1"
definition EV_RE_bit :: int where "EV_RE_bit = 0x0001"
definition EV_WR_bit :: int where "EV_WR_bit = 0x0002"
definition EV_EX :: int where "EV_EX = 0x0004"
definition EV_RM :: int where "EV_RM = 0x0008"
definition EV_OS :: int where "EV_OS = 0x0010"
definition EV_ET :: int where "EV_ET = 0x0020"

lemmas ev_defs = EV_FD_def EV_RE_bit_def EV_WR_bit_def EV_EX_def EV_RM_def EV_OS_def EV_ET_def

record eventreq =
  er_type :: int
  er_handle :: int
  er_data :: nat
  er_rcnt :: int
  er_wcnt :: int
  er_ecnt :: int
  er_eventbits :: int

definition eventreq_zero :: eventreq where
  "eventreq_zero = \<lparr>er_type = 0, er_handle = 0, er_data = 0, er_rcnt = 0, er_wcnt = 0, er_ecnt = 0, er_eventbits = 0\<rparr>"

definition EBADF :: int where "EBADF = 9"
definition EINTR_errno :: int where "EINTR_errno = 4"

section \<open>Histories\<close>

datatype ('c, 'e) ev_op =
    OWatch 'c eventreq int
  | OMod 'c eventreq int
  | ORemove 'c int
  | OWait 'e

datatype ev_item =
    Watched int nat int
  | Removed int
  | Delivered int nat int

type_synonym ('c, 's) ev_change = "'c \<Rightarrow> eventreq \<Rightarrow> int \<Rightarrow> 's \<Rightarrow> (int \<times> 's) option"
type_synonym ('c, 's) ev_remove = "'c \<Rightarrow> int \<Rightarrow> 's \<Rightarrow> (int \<times> 's) option"
type_synonym ('e, 's) ev_wait = "'e \<Rightarrow> eventreq \<Rightarrow> 's \<Rightarrow> (int option \<times> eventreq \<times> 's) option"

text \<open>What an operation that succeeds leaves in the history.\<close>

definition ev_step ::
  "('c, 's) ev_change \<Rightarrow> ('c, 's) ev_change \<Rightarrow> ('c, 's) ev_remove \<Rightarrow> ('e, 's) ev_wait \<Rightarrow>
   ('c, 'e) ev_op \<Rightarrow> eventreq \<Rightarrow> 's \<Rightarrow> (ev_item list \<times> eventreq \<times> 's) option" where
  "ev_step watch modw remov wait opr req s =
     (case opr of
        OWatch c q w \<Rightarrow> do { (r, s') \<leftarrow> watch c q w s;
          Some (if r = 0 then [Watched (er_handle q) (er_data q) w] else [], req, s') }
      | OMod c q w \<Rightarrow> do { (r, s') \<leftarrow> modw c q w s;
          Some (if r = 0 then [Watched (er_handle q) (er_data q) w] else [], req, s') }
      | ORemove c fd \<Rightarrow> do { (r, s') \<leftarrow> remov c fd s; Some (if r = 0 then [Removed fd] else [], req, s') }
      | OWait e \<Rightarrow> do { (r, req', s') \<leftarrow> wait e req s;
          Some (if r = Some 0 then [Delivered (er_handle req') (er_data req') (er_eventbits req')] else [], req', s') })"

fun ev_run ::
  "('c, 's) ev_change \<Rightarrow> ('c, 's) ev_change \<Rightarrow> ('c, 's) ev_remove \<Rightarrow> ('e, 's) ev_wait \<Rightarrow>
   ('c, 'e) ev_op list \<Rightarrow> eventreq \<Rightarrow> 's \<Rightarrow> (ev_item list \<times> eventreq \<times> 's) option" where
  "ev_run watch modw remov wait [] req s = Some ([], req, s)"
| "ev_run watch modw remov wait (opr # oprs) req s = do {
     (tr1, req1, s1) \<leftarrow> ev_step watch modw remov wait opr req s;
     (tr2, req2, s2) \<leftarrow> ev_run watch modw remov wait oprs req1 s1;
     Some (tr1 @ tr2, req2, s2)
   }"

text \<open>The value that the last watch of a descriptor gave it, zero after its removal.\<close>

fun cookies :: "(int \<Rightarrow> nat) \<Rightarrow> ev_item list \<Rightarrow> int \<Rightarrow> nat" where
  "cookies m [] = m"
| "cookies m (Watched fd d w # tr) = cookies (m(fd := d)) tr"
| "cookies m (Removed fd # tr) = cookies (m(fd := 0)) tr"
| "cookies m (Delivered fd d b # tr) = cookies m tr"

text \<open>Every event carries the value of the last watch of its descriptor.\<close>

fun cookies_ok :: "(int \<Rightarrow> nat) \<Rightarrow> ev_item list \<Rightarrow> bool" where
  "cookies_ok m [] = True"
| "cookies_ok m (Watched fd d w # tr) = cookies_ok (m(fd := d)) tr"
| "cookies_ok m (Removed fd # tr) = cookies_ok (m(fd := 0)) tr"
| "cookies_ok m (Delivered fd d b # tr) = (m fd = d \<and> cookies_ok m tr)"

lemma cookies_append: "cookies m (tr1 @ tr2) = cookies (cookies m tr1) tr2"
proof (induction tr1 arbitrary: m)
  case (Cons a tr1)
  then show ?case by (cases a) (simp_all only: cookies.simps append_Cons simp_thms)
qed simp

lemma cookies_ok_append: "cookies_ok m (tr1 @ tr2) \<longleftrightarrow> cookies_ok m tr1 \<and> cookies_ok (cookies m tr1) tr2"
proof (induction tr1 arbitrary: m)
  case (Cons a tr1)
  then show ?case by (cases a) (simp_all only: cookies.simps cookies_ok.simps conj_assoc append_Cons simp_thms)
qed simp

section \<open>The contract\<close>

locale event_queue =
  fixes inv :: "'s \<Rightarrow> bool"
    and cookie :: "'s \<Rightarrow> int \<Rightarrow> nat"
    and watch :: "('c, 's) ev_change"
    and modw :: "('c, 's) ev_change"
    and remov :: "('c, 's) ev_remove"
    and wait :: "('e, 's) ev_wait"
  assumes watch_law: "inv s \<Longrightarrow> watch c q w s = Some (r, s') \<Longrightarrow>
      inv s' \<and> cookie s' = (if r = 0 then (cookie s)(er_handle q := er_data q) else cookie s)"
    and modw_law: "inv s \<Longrightarrow> modw c q w s = Some (r, s') \<Longrightarrow>
      inv s' \<and> cookie s' = (if r = 0 then (cookie s)(er_handle q := er_data q) else cookie s)"
    and remov_law: "inv s \<Longrightarrow> remov c fd s = Some (r, s') \<Longrightarrow>
      inv s' \<and> cookie s' = (if r = 0 then (cookie s)(fd := 0) else cookie s)"
    and wait_law: "inv s \<Longrightarrow> wait e req s = Some (ro, req', s') \<Longrightarrow>
      inv s' \<and> cookie s' = cookie s \<and> (ro = Some 0 \<longrightarrow> cookie s (er_handle req') = er_data req')"
begin

lemma step_cookies:
  assumes "inv s" "ev_step watch modw remov wait opr req s = Some (tr, req', s')"
  shows "inv s' \<and> cookie s' = cookies (cookie s) tr \<and> cookies_ok (cookie s) tr"
proof (cases opr)
  case (OWatch c q w)
  then show ?thesis using assms(2) by (auto simp: ev_step_def split: bind_splits dest: watch_law [OF assms(1)])
next
  case (OMod c q w)
  then show ?thesis using assms(2) by (auto simp: ev_step_def split: bind_splits dest: modw_law [OF assms(1)])
next
  case (ORemove c fd)
  then show ?thesis using assms(2) by (auto simp: ev_step_def split: bind_splits dest: remov_law [OF assms(1)])
next
  case (OWait e)
  then show ?thesis using assms(2) by (auto simp: ev_step_def split: bind_splits dest: wait_law [OF assms(1)])
qed

lemma run_cookies:
  "inv s \<Longrightarrow> ev_run watch modw remov wait oprs req s = Some (tr, req', s') \<Longrightarrow>
   inv s' \<and> cookie s' = cookies (cookie s) tr \<and> cookies_ok (cookie s) tr"
proof (induction oprs arbitrary: req s tr)
  case (Cons opr oprs)
  from Cons.prems(2) obtain tr1 req1 s1 tr2 where h: "ev_step watch modw remov wait opr req s = Some (tr1, req1, s1)"
    "ev_run watch modw remov wait oprs req1 s1 = Some (tr2, req', s')" "tr = tr1 @ tr2"
    by (auto split: bind_splits)
  show ?case using step_cookies [OF Cons.prems(1) h(1)] Cons.IH [OF _ h(2)] h(3)
    by (simp add: cookies_append cookies_ok_append)
qed simp

end

end
