(* ===== verification/CF_Select.thy ===== *)
theory CF_Select
  imports CF_Ev
begin

text \<open>
  Readiness of descriptors by \<^verbatim>\<open>select\<close> (\<^verbatim>\<open>src/CFSocket/ev.cpp\<close>).  A set of descriptors is
  its membership function; access outside of the \<open>FD_SETSIZE\<close> bits of a set has no value.  The statics
  of the file are one record.  The event thread is either outside of the system call or in it:
  \<open>in_select\<close> holds the arguments of the call, so other threads can watch and remove descriptors while
  it lasts.  The source takes its lock anew for the scan of the reads, for the scan of the writes, for the
  counters and for the copies of the sets; a step here covers all of them up to the system call, or after
  it, so that other threads act between calls and during the system call, and not in the gaps between these
  regions.
\<close>

type_synonym fd_set = "int \<Rightarrow> bool"

definition FD_SETSIZE :: int where "FD_SETSIZE = 1024"

definition FD_ISSET :: "int \<Rightarrow> fd_set \<Rightarrow> bool option" where
  "FD_ISSET fd s = (if 0 \<le> fd \<and> fd < FD_SETSIZE then Some (s fd) else None)"

definition FD_SET :: "int \<Rightarrow> fd_set \<Rightarrow> fd_set option" where
  "FD_SET fd s = (if 0 \<le> fd \<and> fd < FD_SETSIZE then Some (s(fd := True)) else None)"

definition FD_CLR :: "int \<Rightarrow> fd_set \<Rightarrow> fd_set option" where
  "FD_CLR fd s = (if 0 \<le> fd \<and> fd < FD_SETSIZE then Some (s(fd := False)) else None)"

record SelectState =
  sReadSet :: fd_set
  sWriteSet :: fd_set
  sReturnedReadSet :: fd_set
  sReturnedWriteSet :: fd_set
  sCookieArray :: "int \<Rightarrow> nat"
  sFDsToCloseArray :: "int list"
  sPipe :: int
  sCurrentFDPos :: int
  sMaxFDPos :: int
  sInReadSet :: bool
  sNumFDsBackFromSelect :: int
  sNumFDsProcessed :: int
  pipe_bytes :: nat
  closed :: "int list"
  in_select :: "(int \<times> fd_set \<times> fd_set) option"

text \<open>The read end of the pipe is an argument.\<close>

definition select_startevents :: "int \<Rightarrow> SelectState option" where
  "select_startevents p = do {
     r \<leftarrow> FD_SET p (\<lambda>_. False);
     Some \<lparr>sReadSet = r, sWriteSet = \<lambda>_. False, sReturnedReadSet = \<lambda>_. False, sReturnedWriteSet = \<lambda>_. False,
       sCookieArray = \<lambda>_. 0, sFDsToCloseArray = replicate (nat FD_SETSIZE) (-1), sPipe = p,
       sCurrentFDPos = 0, sMaxFDPos = p, sInReadSet = True, sNumFDsBackFromSelect = 0, sNumFDsProcessed = 0,
       pipe_bytes = 0, closed = [], in_select = None\<rparr>
   }"

function max_down :: "fd_set \<Rightarrow> fd_set \<Rightarrow> int \<Rightarrow> int" where
  "max_down r w m = (if \<not> r m \<and> \<not> w m \<and> m > 0 then max_down r w (m - 1) else m)"
  by pat_completeness auto
termination by (relation "measure (\<lambda>(r, w, m). nat m)") auto

declare max_down.simps [simp del]

text \<open>The first free place of the array of descriptors to close; a full array is read past its end.\<close>

fun free_index :: "int list \<Rightarrow> nat option" where
  "free_index [] = None"
| "free_index (x # xs) = (if x = -1 then Some 0 else map_option Suc (free_index xs))"

definition select_removeevent :: "int \<Rightarrow> SelectState \<Rightarrow> (int \<times> SelectState) option" where
  "select_removeevent which st = do {
     w \<leftarrow> FD_CLR which (sWriteSet st);
     r \<leftarrow> FD_CLR which (sReadSet st);
     rr \<leftarrow> FD_CLR which (sReturnedReadSet st);
     rw \<leftarrow> FD_CLR which (sReturnedWriteSet st);
     i \<leftarrow> free_index (sFDsToCloseArray st);
     Some (0, st\<lparr>sWriteSet := w, sReadSet := r, sReturnedReadSet := rr, sReturnedWriteSet := rw,
       sCookieArray := (sCookieArray st)(which := 0),
       sMaxFDPos := (if which = sMaxFDPos st then max_down r w (sMaxFDPos st) else sMaxFDPos st),
       sFDsToCloseArray := (sFDsToCloseArray st)[i := which], pipe_bytes := pipe_bytes st + 1\<rparr>)
   }"

definition select_modwatch :: "eventreq \<Rightarrow> int \<Rightarrow> SelectState \<Rightarrow> (int \<times> SelectState) option" where
  "select_modwatch req which st = do {
     r \<leftarrow> (if which AND EV_RE_bit \<noteq> 0 then FD_SET (er_handle req) (sReadSet st) else FD_CLR (er_handle req) (sReadSet st));
     w \<leftarrow> (if which AND EV_WR_bit \<noteq> 0 then FD_SET (er_handle req) (sWriteSet st) else FD_CLR (er_handle req) (sWriteSet st));
     Assert (er_handle req < FD_SETSIZE);
     Assert (er_data req \<noteq> 0);
     Some (0, st\<lparr>sReadSet := r, sWriteSet := w, sMaxFDPos := max (sMaxFDPos st) (er_handle req),
       sCookieArray := (sCookieArray st)(er_handle req := er_data req), pipe_bytes := pipe_bytes st + 1\<rparr>)
   }"

definition select_watchevent :: "eventreq \<Rightarrow> int \<Rightarrow> SelectState \<Rightarrow> (int \<times> SelectState) option" where
  "select_watchevent req which st = select_modwatch req which st"

section \<open>Waiting\<close>

definition constructeventreq :: "eventreq \<Rightarrow> int \<Rightarrow> int \<Rightarrow> SelectState \<Rightarrow> (int \<times> eventreq \<times> SelectState) option" where
  "constructeventreq req fd event st = do {
     Assert (fd < FD_SETSIZE);
     w \<leftarrow> FD_CLR fd (sWriteSet st);
     r \<leftarrow> FD_CLR fd (sReadSet st);
     Some (0, req\<lparr>er_handle := fd, er_eventbits := event, er_data := sCookieArray st fd\<rparr>,
       st\<lparr>sCurrentFDPos := sCurrentFDPos st + 1, sNumFDsProcessed := sNumFDsProcessed st + 1,
          sWriteSet := w, sReadSet := r\<rparr>)
   }"

text \<open>The loop that looks for the next member of a set.\<close>

function scan :: "fd_set \<Rightarrow> int \<Rightarrow> int \<Rightarrow> (bool \<times> int) option" where
  "scan s pos mx = do {
     isSet \<leftarrow> FD_ISSET pos s;
     if \<not> isSet \<and> pos < mx then scan s (pos + 1) mx else Some (isSet, pos)
   }"
  by pat_completeness auto
termination by (relation "measure (\<lambda>(s, pos, mx). nat (mx - pos))") auto

declare scan.simps [simp del]

text \<open>Closing the descriptors that were removed.\<close>

fun close_fds :: "int list \<Rightarrow> (int list \<times> int list) option" where
  "close_fds [] = None"
| "close_fds (x # xs) =
     (if x = -1 then Some ([], x # xs) else do { (cs, r) \<leftarrow> close_fds xs; Some (x # cs, -1 # r) })"

definition selecthasdata :: "int \<Rightarrow> SelectState \<Rightarrow> (bool \<times> SelectState) option" where
  "selecthasdata errno st =
     (if sNumFDsBackFromSelect st < 0 then Some (\<not> (errno = EBADF \<or> errno = EINTR_errno), st)
      else if sNumFDsBackFromSelect st = 0 then Some (False, st)
      else do {
        onPipe \<leftarrow> FD_ISSET (sPipe st) (sReturnedReadSet st);
        st1 \<leftarrow> (if onPipe then do {
                   rr \<leftarrow> FD_CLR (sPipe st) (sReturnedReadSet st);
                   (cs, a) \<leftarrow> close_fds (sFDsToCloseArray st);
                   Some (st\<lparr>pipe_bytes := pipe_bytes st - min 4096 (pipe_bytes st), sReturnedReadSet := rr,
                     sNumFDsBackFromSelect := sNumFDsBackFromSelect st - 1, sFDsToCloseArray := a, closed := closed st @ cs\<rparr>)
                 } else Some st);
        onWrite \<leftarrow> FD_ISSET (sPipe st1) (sReturnedWriteSet st1);
        Assert (\<not> onWrite);
        Some (sNumFDsBackFromSelect st1 \<noteq> 0, st1)
      })"

text \<open>
  The head of the loop around the system call: the call is made when there is no data yet.  Without a call the
  result is that of the last one when it is negative, and \<open>EINTR_errno\<close> otherwise.
\<close>

definition select_loop :: "int \<Rightarrow> SelectState \<Rightarrow> (int option \<times> SelectState) option" where
  "select_loop errno st = do {
     (b, st1) \<leftarrow> selecthasdata errno st;
     if b then Some (Some (if sNumFDsBackFromSelect st1 \<ge> 0 then EINTR_errno else sNumFDsBackFromSelect st1), st1)
     else Some (None, st1\<lparr>sReturnedReadSet := sReadSet st1, sReturnedWriteSet := sWriteSet st1,
       in_select := Some (sMaxFDPos st1 + 1, sReadSet st1, sWriteSet st1)\<rparr>)
   }"

text \<open>The start of a call: an event of the last result, or the system call.\<close>

definition wait_write :: "int \<Rightarrow> eventreq \<Rightarrow> SelectState \<Rightarrow> (int option \<times> eventreq \<times> SelectState) option" where
  "wait_write errno req st = do {
     (isSet, pos) \<leftarrow> scan (sReturnedWriteSet st) (sCurrentFDPos st) (sMaxFDPos st);
     if isSet then do {
       rw \<leftarrow> FD_CLR pos (sReturnedWriteSet st);
       (r, req', st') \<leftarrow> constructeventreq req pos EV_WR_bit (st\<lparr>sCurrentFDPos := pos, sReturnedWriteSet := rw\<rparr>);
       Some (Some r, req', st')
     } else do {
       Assert (sNumFDsBackFromSelect st > 0);
       (r, st') \<leftarrow> select_loop errno (st\<lparr>sNumFDsProcessed := 0, sNumFDsBackFromSelect := 0, sCurrentFDPos := 0, sInReadSet := True\<rparr>);
       Some (r, req, st')
     }
   }"

definition wait_enter :: "int \<Rightarrow> eventreq \<Rightarrow> SelectState \<Rightarrow> (int option \<times> eventreq \<times> SelectState) option" where
  "wait_enter errno req st =
     (if sNumFDsProcessed st < sNumFDsBackFromSelect st then
        if sInReadSet st then do {
          (isSet, pos) \<leftarrow> scan (sReturnedReadSet st) (sCurrentFDPos st) (sMaxFDPos st);
          if isSet then do {
            rr \<leftarrow> FD_CLR pos (sReturnedReadSet st);
            (r, req', st') \<leftarrow> constructeventreq req pos EV_RE_bit (st\<lparr>sCurrentFDPos := pos, sReturnedReadSet := rr\<rparr>);
            Some (Some r, req', st')
          } else wait_write errno req (st\<lparr>sInReadSet := False, sCurrentFDPos := 0\<rparr>)
        } else wait_write errno req st
      else do {
        (r, st') \<leftarrow> select_loop errno
          (if sNumFDsProcessed st > 0
           then st\<lparr>sNumFDsProcessed := 0, sNumFDsBackFromSelect := 0, sCurrentFDPos := 0, sInReadSet := True\<rparr> else st);
        Some (r, req, st')
      })"

text \<open>The system call returns.\<close>

type_synonym select_call = "int \<Rightarrow> fd_set \<Rightarrow> fd_set \<Rightarrow> int \<times> int \<times> fd_set \<times> fd_set"

definition wait_return :: "select_call \<Rightarrow> int \<times> fd_set \<times> fd_set \<Rightarrow> SelectState \<Rightarrow> (int option \<times> SelectState) option" where
  "wait_return call args st =
     (case args of (nfds, r, w) \<Rightarrow>
        (case call nfds r w of (n, errno, rr, rw) \<Rightarrow>
           select_loop errno (st\<lparr>in_select := None, sNumFDsBackFromSelect := n, sReturnedReadSet := rr, sReturnedWriteSet := rw\<rparr>)))"

text \<open>A call is entered with the current \<open>errno\<close>, or the system call it is in returns.\<close>

datatype select_event = Enter int | Return select_call

definition select_waitevent :: "select_event \<Rightarrow> eventreq \<Rightarrow> SelectState \<Rightarrow> (int option \<times> eventreq \<times> SelectState) option" where
  "select_waitevent e req st =
     (case (in_select st, e) of
        (None, Enter errno) \<Rightarrow> wait_enter errno req st
      | (Some args, Return call) \<Rightarrow> do { (r, st') \<leftarrow> wait_return call args st; Some (r, req, st') }
      | _ \<Rightarrow> Some (None, req, st))"

section \<open>The contract of the interface\<close>

definition watch_select :: "(unit, SelectState) ev_change" where
  "watch_select c req which st = select_watchevent req which st"

definition modwatch_select :: "(unit, SelectState) ev_change" where
  "modwatch_select c req which st = select_modwatch req which st"

definition remove_select :: "(unit, SelectState) ev_remove" where
  "remove_select c which st = select_removeevent which st"

abbreviation select_run :: "(unit, select_event) ev_op list \<Rightarrow> eventreq \<Rightarrow> SelectState \<Rightarrow> (ev_item list \<times> eventreq \<times> SelectState) option" where
  "select_run \<equiv> ev_run watch_select modwatch_select remove_select select_waitevent"

lemmas select_ops = watch_select_def modwatch_select_def remove_select_def select_watchevent_def

lemma selecthasdata_cookie: "selecthasdata errno st = Some (b, st1) \<Longrightarrow> sCookieArray st1 = sCookieArray st"
  by (auto simp: selecthasdata_def split: if_splits bind_splits)

lemma select_loop_cookie:
  assumes "select_loop errno st = Some (r, st')"
  shows "sCookieArray st' = sCookieArray st \<and> r \<noteq> Some 0"
  using assms by (auto simp: select_loop_def EINTR_errno_def split: if_splits bind_splits dest!: selecthasdata_cookie)

lemma constructeventreq_cookie:
  "constructeventreq req fd b st = Some (r, req', st') \<Longrightarrow>
     r = 0 \<and> er_handle req' = fd \<and> er_eventbits req' = b \<and> er_data req' = sCookieArray st fd \<and> sCookieArray st' = sCookieArray st"
  by (auto simp: constructeventreq_def split: bind_splits)

lemma wait_write_cookie:
  assumes "wait_write errno req st = Some (r, req', st')"
  shows "sCookieArray st' = sCookieArray st \<and> (r = Some 0 \<longrightarrow> sCookieArray st (er_handle req') = er_data req')"
  using assms by (auto simp: wait_write_def split: if_splits bind_splits dest!: select_loop_cookie constructeventreq_cookie)

lemma wait_enter_cookie:
  assumes "wait_enter errno req st = Some (r, req', st')"
  shows "sCookieArray st' = sCookieArray st \<and> (r = Some 0 \<longrightarrow> sCookieArray st (er_handle req') = er_data req')"
  using assms by (auto simp: wait_enter_def split: if_splits bind_splits
    dest!: select_loop_cookie constructeventreq_cookie wait_write_cookie)

lemma wait_return_cookie:
  "wait_return call args st = Some (r, st') \<Longrightarrow> sCookieArray st' = sCookieArray st \<and> r \<noteq> Some 0"
  by (auto simp: wait_return_def split: prod.splits dest!: select_loop_cookie)

interpretation select_queue: event_queue "\<lambda>_. True" sCookieArray watch_select modwatch_select remove_select select_waitevent
proof (unfold_locales, goal_cases)
  case (4 s e req ro req' s')
  then show ?case by (auto simp: select_waitevent_def split: option.splits select_event.splits bind_splits
    dest!: wait_enter_cookie wait_return_cookie)
qed (auto simp: select_ops select_modwatch_def select_removeevent_def split: bind_splits)

section \<open>Every history\<close>

text \<open>
  The read and write events that were asked for and have not come yet.  There is no value when an event comes that
  was not asked for.
\<close>

fun armed :: "fd_set \<times> fd_set \<Rightarrow> ev_item list \<Rightarrow> (fd_set \<times> fd_set) option" where
  "armed a [] = Some a"
| "armed (r, w) (Watched fd d m # tr) =
     armed (if m AND EV_RE_bit \<noteq> 0 then r(fd := True) else r, if m AND EV_WR_bit \<noteq> 0 then w(fd := True) else w) tr"
| "armed a (Removed fd # tr) = armed a tr"
| "armed (r, w) (Delivered fd d b # tr) =
     (if b = EV_RE_bit \<and> r fd then armed (r(fd := False), w) tr
      else if b = EV_WR_bit \<and> w fd then armed (r, w(fd := False)) tr else None)"

fun removed :: "ev_item list \<Rightarrow> int list" where
  "removed [] = []"
| "removed (Removed fd # tr) = fd # removed tr"
| "removed (_ # tr) = removed tr"

text \<open>The answer of \<^verbatim>\<open>select\<close> has only descriptors that were in the sets.\<close>

definition answer_ok :: "select_call \<Rightarrow> bool" where
  "answer_ok call \<longleftrightarrow> (\<forall>nfds r w n e rr rw. call nfds r w = (n, e, rr, rw) \<longrightarrow>
     (\<forall>fd. (rr fd \<longrightarrow> r fd) \<and> (rw fd \<longrightarrow> w fd)))"

text \<open>Descriptors below \<open>FD_SETSIZE - 1\<close> other than the pipe, with a cookie.\<close>

fun op_ok :: "int \<Rightarrow> (unit, select_event) ev_op \<Rightarrow> bool" where
  "op_ok p (OWatch c q m) = (0 \<le> er_handle q \<and> er_handle q < FD_SETSIZE - 1 \<and> er_handle q \<noteq> p \<and> er_data q \<noteq> 0)"
| "op_ok p (OMod c q m) = (0 \<le> er_handle q \<and> er_handle q < FD_SETSIZE - 1 \<and> er_handle q \<noteq> p \<and> er_data q \<noteq> 0)"
| "op_ok p (ORemove c fd) = (0 \<le> fd \<and> fd < FD_SETSIZE - 1 \<and> fd \<noteq> p)"
| "op_ok p (OWait (Enter errno)) = True"
| "op_ok p (OWait (Return call)) = answer_ok call"

fun removals :: "('c, 'e) ev_op list \<Rightarrow> nat" where
  "removals [] = 0"
| "removals (ORemove c fd # oprs) = Suc (removals oprs)"
| "removals (_ # oprs) = removals oprs"

lemma armed_append: "armed a (tr1 @ tr2) = Option.bind (armed a tr1) (\<lambda>a'. armed a' tr2)"
  by (induction a tr1 rule: armed.induct) (auto split del: if_split split: if_split)

lemma removed_append: "removed (tr1 @ tr2) = removed tr1 @ removed tr2"
  by (induction tr1 rule: removed.induct) simp_all

definition sets_ok :: "int \<Rightarrow> fd_set \<times> fd_set \<Rightarrow> fd_set \<Rightarrow> fd_set \<Rightarrow> bool" where
  "sets_ok p a r w \<longleftrightarrow> (\<forall>fd. (r fd \<longrightarrow> 0 \<le> fd \<and> fd \<le> 1022 \<and> (fd = p \<or> fst a fd)) \<and>
     (w fd \<longrightarrow> 0 \<le> fd \<and> fd \<le> 1022 \<and> fd \<noteq> p \<and> snd a fd))"

definition to_close :: "int list \<Rightarrow> SelectState \<Rightarrow> bool" where
  "to_close rm st \<longleftrightarrow> (\<exists>pend. rm = closed st @ pend \<and> (\<forall>x \<in> set pend. 0 \<le> x) \<and> length pend \<le> 1024 \<and>
     sFDsToCloseArray st = pend @ replicate (1024 - length pend) (-1))"

definition sel_base :: "int \<Rightarrow> fd_set \<times> fd_set \<Rightarrow> int list \<Rightarrow> SelectState \<Rightarrow> bool" where
  "sel_base p a rm st \<longleftrightarrow> sPipe st = p \<and> 0 \<le> p \<and> p \<le> 1022 \<and> 0 \<le> sMaxFDPos st \<and> sMaxFDPos st \<le> 1022 \<and>
     0 \<le> sCurrentFDPos st \<and> sCurrentFDPos st \<le> 1023 \<and> 0 \<le> sNumFDsProcessed st \<and>
     sets_ok p a (sReadSet st) (sWriteSet st) \<and> sets_ok p a (sReturnedReadSet st) (sReturnedWriteSet st) \<and> to_close rm st"

text \<open>Nothing of a result is being handed out.\<close>

definition at_start :: "SelectState \<Rightarrow> bool" where
  "at_start st \<longleftrightarrow> sNumFDsProcessed st = 0 \<and> sCurrentFDPos st = 0 \<and> sInReadSet st"

definition sel_inv :: "int \<Rightarrow> fd_set \<times> fd_set \<Rightarrow> int list \<Rightarrow> SelectState \<Rightarrow> bool" where
  "sel_inv p a rm st \<longleftrightarrow> sel_base p a rm st \<and> (at_start st \<or> in_select st = None \<and> 0 < sNumFDsBackFromSelect st) \<and>
     (case in_select st of None \<Rightarrow> 0 < sNumFDsBackFromSelect st \<longrightarrow> \<not> sReturnedReadSet st p
        | Some (m, r, w) \<Rightarrow> sets_ok p a r w)"

lemma FD_simps [simp]:
  assumes "0 \<le> fd" "fd \<le> 1023"
  shows "FD_ISSET fd s = Some (s fd)" "FD_SET fd s = Some (s(fd := True))" "FD_CLR fd s = Some (s(fd := False))"
  using assms by (simp_all add: FD_ISSET_def FD_SET_def FD_CLR_def FD_SETSIZE_def)

lemma max_down_bounds: "0 \<le> m \<Longrightarrow> 0 \<le> max_down r w m \<and> max_down r w m \<le> m"
proof (induction r w m rule: max_down.induct)
  case (1 r w m)
  then show ?case by (subst (1 2) max_down.simps) auto
qed

lemma scan_ok:
  assumes "0 \<le> pos" "pos \<le> 1023" "mx \<le> 1022"
  shows "\<exists>q. scan s pos mx = Some (s q, q) \<and> pos \<le> q \<and> q \<le> 1023"
  using assms
proof (induction s pos mx rule: scan.induct)
  case (1 s pos mx)
  show ?case
  proof (cases "\<not> s pos \<and> pos < mx")
    case True
    then show ?thesis using 1 by (subst scan.simps) fastforce
  next
    case False
    then show ?thesis using "1.prems" by (subst scan.simps) auto
  qed
qed

lemma close_fds_pending: "(\<forall>x \<in> set pend. 0 \<le> x) \<Longrightarrow> close_fds (pend @ -1 # rest) = Some (pend, replicate (length pend) (-1) @ -1 # rest)"
  by (induction pend) auto

lemma free_index_pending: "(\<forall>x \<in> set pend. 0 \<le> x) \<Longrightarrow> free_index (pend @ -1 # rest) = Some (length pend)"
  by (induction pend) auto

lemma replicate_room: "n < 1024 \<Longrightarrow> replicate (1024 - n) (x :: int) = x # replicate (1023 - n) x"
proof -
  assume "n < 1024"
  then have "1024 - n = Suc (1023 - n)" by arith
  then show ?thesis by simp
qed

lemma hasdata_ok:
  assumes b: "sel_base p a rm st" and l: "length rm < 1024"
  shows "\<exists>b st'. selecthasdata e st = Some (b, st') \<and> sel_base p a rm st' \<and> in_select st' = in_select st \<and> at_start st' = at_start st \<and>
    (b \<longrightarrow> 0 < sNumFDsBackFromSelect st' \<longrightarrow> \<not> sReturnedReadSet st' p)"
proof (cases "sNumFDsBackFromSelect st > 0")
  case False
  then show ?thesis using b by (auto simp: selecthasdata_def)
next
  case True
  have pp: "sPipe st = p" "0 \<le> p" "p \<le> 1022" using b by (simp_all add: sel_base_def)
  have nw: "\<not> sReturnedWriteSet st p" using b by (auto simp: sel_base_def sets_ok_def)
  show ?thesis
  proof (cases "sReturnedReadSet st p")
    case False
    then have "selecthasdata e st = Some (True, st)" using True pp nw by (simp add: selecthasdata_def)
    then show ?thesis using False b by (intro exI [of _ True] exI [of _ st]) simp
  next
    case on: True
    obtain pend where q: "rm = closed st @ pend" "\<forall>x \<in> set pend. 0 \<le> x" "length pend \<le> 1024"
      "sFDsToCloseArray st = pend @ replicate (1024 - length pend) (-1)" using b by (auto simp: sel_base_def to_close_def)
    then have n: "length pend < 1024" using l by simp
    have c: "close_fds (sFDsToCloseArray st) = Some (pend, replicate 1024 (-1))"
      unfolding q(4) replicate_room [OF n] close_fds_pending [OF q(2)] using n
      by (simp flip: replicate_Suc replicate_add)
    let ?st = "st\<lparr>pipe_bytes := pipe_bytes st - min 4096 (pipe_bytes st), sReturnedReadSet := (sReturnedReadSet st)(p := False),
      sNumFDsBackFromSelect := sNumFDsBackFromSelect st - 1, sFDsToCloseArray := replicate 1024 (-1), closed := closed st @ pend\<rparr>"
    have "selecthasdata e st = Some (sNumFDsBackFromSelect st - 1 \<noteq> 0, ?st)"
      using True pp nw on c by (simp add: selecthasdata_def)
    moreover have "sel_base p a rm ?st" using b q(1) by (auto simp: sel_base_def sets_ok_def to_close_def)
    ultimately show ?thesis by (simp add: at_start_def)
  qed
qed

lemma select_loop_ok:
  assumes b: "sel_base p a rm st" and at: "at_start st" and l: "length rm < 1024" and n: "in_select st = None"
  shows "\<exists>r st'. select_loop e st = Some (r, st') \<and> sel_inv p a rm st' \<and> r \<noteq> Some 0"
proof -
  obtain d st' where h: "selecthasdata e st = Some (d, st')" "sel_base p a rm st'" "in_select st' = in_select st" "at_start st' = at_start st"
    "d \<longrightarrow> 0 < sNumFDsBackFromSelect st' \<longrightarrow> \<not> sReturnedReadSet st' p" using hasdata_ok [OF b l] by blast
  show ?thesis
  proof (cases d)
    case True
    then show ?thesis using h n at by (auto simp: select_loop_def EINTR_errno_def sel_inv_def)
  next
    case False
    then show ?thesis using h n at by (auto simp: select_loop_def sel_inv_def sel_base_def to_close_def at_start_def)
  qed
qed

text \<open>An event of a set is taken.\<close>

lemma constructeventreq_eq:
  assumes "0 \<le> pos" "pos \<le> 1023"
  shows "constructeventreq req pos ev st = Some (0, req\<lparr>er_handle := pos, er_eventbits := ev, er_data := sCookieArray st pos\<rparr>,
    st\<lparr>sCurrentFDPos := sCurrentFDPos st + 1, sNumFDsProcessed := sNumFDsProcessed st + 1,
       sWriteSet := (sWriteSet st)(pos := False), sReadSet := (sReadSet st)(pos := False)\<rparr>)"
  using assms by (simp add: constructeventreq_def FD_SETSIZE_def)

definition wait_result :: "int \<Rightarrow> fd_set \<times> fd_set \<Rightarrow> int list \<Rightarrow> (int option \<times> eventreq \<times> SelectState) option \<Rightarrow> bool" where
  "wait_result p a rm res \<longleftrightarrow> (\<exists>r req' st' a'. res = Some (r, req', st') \<and> sel_inv p a' rm st' \<and>
     armed a (if r = Some 0 then [Delivered (er_handle req') (er_data req') (er_eventbits req')] else []) = Some a')"

lemma wait_result_event:
  assumes "res = Some (Some 0, req', st')" "sel_inv p a' rm st'"
    "armed a [Delivered (er_handle req') (er_data req') (er_eventbits req')] = Some a'"
  shows "wait_result p a rm res"
  unfolding wait_result_def using assms(2,3)
  by (intro exI [of _ "Some 0"] exI [of _ req'] exI [of _ st'] exI [of _ a']) (simp add: assms(1) del: armed.simps)

lemma wait_result_none:
  assumes "res = Some (r, req, st')" "sel_inv p a rm st'" "r \<noteq> Some 0"
  shows "wait_result p a rm res"
  unfolding wait_result_def using assms(2,3)
  by (intro exI [of _ r] exI [of _ req] exI [of _ st'] exI [of _ a]) (simp add: assms(1))

lemma wait_write_ok:
  assumes i: "sel_inv p a rm st" and l: "length rm < 1024" and n: "in_select st = None" and k: "0 < sNumFDsBackFromSelect st"
  shows "wait_result p a rm (wait_write e req st)"
proof -
  have b: "sel_base p a rm st" and np: "\<not> sReturnedReadSet st p" using i n k by (auto simp: sel_inv_def)
  have bd: "0 \<le> sCurrentFDPos st" "sCurrentFDPos st \<le> 1023" "sMaxFDPos st \<le> 1022" using b by (simp_all add: sel_base_def)
  obtain q where q: "scan (sReturnedWriteSet st) (sCurrentFDPos st) (sMaxFDPos st) = Some (sReturnedWriteSet st q, q)"
    "sCurrentFDPos st \<le> q" "q \<le> 1023" using scan_ok [OF bd] by blast
  show ?thesis
  proof (cases "sReturnedWriteSet st q")
    case True
    let ?st = "st\<lparr>sReturnedWriteSet := (sReturnedWriteSet st)(q := False), sCurrentFDPos := q + 1,
      sNumFDsProcessed := sNumFDsProcessed st + 1, sWriteSet := (sWriteSet st)(q := False), sReadSet := (sReadSet st)(q := False)\<rparr>"
    have w: "0 \<le> q" "q \<le> 1022" "snd a q" using b True by (auto simp: sel_base_def sets_ok_def)
    have "wait_write e req st = Some (Some 0, req\<lparr>er_handle := q, er_eventbits := EV_WR_bit, er_data := sCookieArray st q\<rparr>, ?st)"
      using q True w by (simp add: wait_write_def constructeventreq_eq)
    moreover have "sel_inv p (fst a, (snd a)(q := False)) rm ?st"
      using b w n np k by (auto simp: sel_inv_def sel_base_def sets_ok_def to_close_def at_start_def)
    moreover have "armed a [Delivered q (sCookieArray st q) EV_WR_bit] = Some (fst a, (snd a)(q := False))"
      using w(3) by (cases a) (simp add: ev_defs)
    ultimately show ?thesis by (auto intro!: wait_result_event simp del: armed.simps)
  next
    case False
    let ?st = "st\<lparr>sNumFDsProcessed := 0, sNumFDsBackFromSelect := 0, sCurrentFDPos := 0, sInReadSet := True\<rparr>"
    have "sel_base p a rm ?st" "at_start ?st" using b by (auto simp: sel_base_def to_close_def at_start_def)
    then obtain r st' where s: "select_loop e ?st = Some (r, st')" "sel_inv p a rm st'" "r \<noteq> Some 0"
      using select_loop_ok [OF _ _ l, of p a ?st e] n by auto
    have "wait_write e req st = Some (r, req, st')" using q False k s(1) by (simp add: wait_write_def)
    then show ?thesis using s(2,3) by (rule wait_result_none)
  qed
qed

lemma wait_enter_ok:
  assumes i: "sel_inv p a rm st" and l: "length rm < 1024" and n: "in_select st = None"
  shows "wait_result p a rm (wait_enter e req st)"
proof (cases "sNumFDsProcessed st < sNumFDsBackFromSelect st")
  case lt: True
  have True: "sNumFDsProcessed st < sNumFDsBackFromSelect st" "0 < sNumFDsBackFromSelect st"
    using lt i by (auto simp: sel_inv_def sel_base_def)
  have b: "sel_base p a rm st" and np: "\<not> sReturnedReadSet st p" using i n True by (auto simp: sel_inv_def)
  have bd: "0 \<le> sCurrentFDPos st" "sCurrentFDPos st \<le> 1023" "sMaxFDPos st \<le> 1022" using b by (simp_all add: sel_base_def)
  obtain q where q: "scan (sReturnedReadSet st) (sCurrentFDPos st) (sMaxFDPos st) = Some (sReturnedReadSet st q, q)"
    "sCurrentFDPos st \<le> q" "q \<le> 1023" using scan_ok [OF bd] by blast
  show ?thesis
  proof (cases "sInReadSet st \<and> sReturnedReadSet st q")
    case found: True
    let ?st = "st\<lparr>sReturnedReadSet := (sReturnedReadSet st)(q := False), sCurrentFDPos := q + 1,
      sNumFDsProcessed := sNumFDsProcessed st + 1, sWriteSet := (sWriteSet st)(q := False), sReadSet := (sReadSet st)(q := False)\<rparr>"
    have w: "0 \<le> q" "q \<le> 1022" "q \<noteq> p" "fst a q" using b found np by (auto simp: sel_base_def sets_ok_def)
    have "wait_enter e req st = Some (Some 0, req\<lparr>er_handle := q, er_eventbits := EV_RE_bit, er_data := sCookieArray st q\<rparr>, ?st)"
      using q True found w by (simp add: wait_enter_def constructeventreq_eq)
    moreover have "sel_inv p ((fst a)(q := False), snd a) rm ?st"
      using b w n np True(2) by (auto simp: sel_inv_def sel_base_def sets_ok_def to_close_def at_start_def)
    moreover have "armed a [Delivered q (sCookieArray st q) EV_RE_bit] = Some ((fst a)(q := False), snd a)"
      using w(4) by (cases a) (simp add: ev_defs)
    ultimately show ?thesis by (auto intro!: wait_result_event simp del: armed.simps)
  next
    case False
    let ?st = "st\<lparr>sInReadSet := False, sCurrentFDPos := 0\<rparr>"
    have "wait_enter e req st = (if sInReadSet st then wait_write e req ?st else wait_write e req st)"
      using q True False by (simp add: wait_enter_def)
    moreover have "sel_inv p a rm ?st" using b n np True(2) by (auto simp: sel_inv_def sel_base_def to_close_def)
    then have "wait_result p a rm (wait_write e req ?st)" using wait_write_ok [OF _ l] n True by simp
    ultimately show ?thesis using wait_write_ok [OF i l n] True by simp
  qed
next
  case False
  let ?st = "if sNumFDsProcessed st > 0
    then st\<lparr>sNumFDsProcessed := 0, sNumFDsBackFromSelect := 0, sCurrentFDPos := 0, sInReadSet := True\<rparr> else st"
  have b: "sel_base p a rm ?st" using i by (auto simp: sel_inv_def sel_base_def to_close_def)
  have n': "in_select ?st = None" using n by simp
  have at: "at_start ?st" using i False by (auto simp: sel_inv_def sel_base_def at_start_def)
  obtain r st' where s: "select_loop e ?st = Some (r, st')" "sel_inv p a rm st'" "r \<noteq> Some 0"
    using select_loop_ok [OF b at l n'] by blast
  have "wait_enter e req st = Some (r, req, st')" using False s(1) by (simp add: wait_enter_def)
  then show ?thesis using s(2,3) by (rule wait_result_none)
qed

lemma wait_return_ok:
  assumes i: "sel_inv p a rm st" and l: "length rm < 1024" and n: "in_select st = Some args" and c: "answer_ok call"
  shows "\<exists>r st'. wait_return call args st = Some (r, st') \<and> sel_inv p a rm st' \<and> r \<noteq> Some 0"
proof -
  obtain nfds r w where ar: "args = (nfds, r, w)" by (cases args)
  obtain k e rr rw where an: "call nfds r w = (k, e, rr, rw)" by (cases "call nfds r w")
  let ?st = "st\<lparr>in_select := None, sNumFDsBackFromSelect := k, sReturnedReadSet := rr, sReturnedWriteSet := rw\<rparr>"
  have sub: "rr fd \<Longrightarrow> r fd" "rw fd \<Longrightarrow> w fd" for fd using c an unfolding answer_ok_def by blast+
  have "sets_ok p a r w" using i n ar by (simp add: sel_inv_def)
  then have "sets_ok p a rr rw" using sub unfolding sets_ok_def by blast
  then have "sel_base p a rm ?st" using i by (auto simp: sel_inv_def sel_base_def to_close_def)
  moreover have "at_start ?st" using i n by (auto simp: sel_inv_def at_start_def)
  moreover have "wait_return call args st = select_loop e ?st" by (simp add: wait_return_def ar an)
  ultimately show ?thesis using select_loop_ok [of p a rm ?st e] l by simp
qed

lemma waitevent_ok:
  assumes "sel_inv p a rm st" "length rm < 1024" "op_ok p (OWait e)"
  shows "wait_result p a rm (select_waitevent e req st)"
proof (cases "in_select st")
  case None
  show ?thesis
  proof (cases e)
    case (Enter en)
    then show ?thesis using wait_enter_ok [OF assms(1,2) None] by (simp add: select_waitevent_def None)
  next
    case (Return call)
    then show ?thesis using assms(1) by (intro wait_result_none [where r = None]) (simp_all add: select_waitevent_def None)
  qed
next
  case (Some args)
  show ?thesis
  proof (cases e)
    case (Enter en)
    then show ?thesis using assms(1) by (intro wait_result_none [where r = None]) (simp_all add: select_waitevent_def Some)
  next
    case (Return call)
    then obtain r st' where h: "wait_return call args st = Some (r, st')" "sel_inv p a rm st'" "r \<noteq> Some 0"
      using wait_return_ok [OF assms(1,2) Some, of call] assms(3) by auto
    have "select_waitevent e req st = Some (r, req, st')" by (simp add: select_waitevent_def Some Return h(1))
    then show ?thesis using h(2,3) by (rule wait_result_none)
  qed
qed

lemma modwatch_ok:
  assumes i: "sel_inv p a rm st" and q: "0 \<le> er_handle q" "er_handle q < FD_SETSIZE - 1" "er_handle q \<noteq> p" "er_data q \<noteq> 0"
  shows "\<exists>st' a'. select_modwatch q m st = Some (0, st') \<and> armed a [Watched (er_handle q) (er_data q) m] = Some a' \<and> sel_inv p a' rm st'"
proof -
  let ?h = "er_handle q"
  have h: "0 \<le> ?h" "?h \<le> 1023" "?h \<le> 1022" using q by (simp_all add: FD_SETSIZE_def)
  let ?st = "st\<lparr>sReadSet := (sReadSet st)(?h := (m AND EV_RE_bit \<noteq> 0)), sWriteSet := (sWriteSet st)(?h := (m AND EV_WR_bit \<noteq> 0)),
    sMaxFDPos := max (sMaxFDPos st) ?h, sCookieArray := (sCookieArray st)(?h := er_data q), pipe_bytes := pipe_bytes st + 1\<rparr>"
  let ?a = "(if m AND EV_RE_bit \<noteq> 0 then (fst a)(?h := True) else fst a, if m AND EV_WR_bit \<noteq> 0 then (snd a)(?h := True) else snd a)"
  have "select_modwatch q m st = Some (0, ?st)" using h q by (simp add: select_modwatch_def FD_SETSIZE_def)
  moreover have "armed a [Watched ?h (er_data q) m] = Some ?a" by (cases a) simp
  moreover have w: "sets_ok p ?a r w" if "sets_ok p a r w" for r w using that by (auto simp: sets_ok_def)
  have "sets_ok p ?a (sReadSet ?st) (sWriteSet ?st)" using i h q(3) by (auto simp: sel_inv_def sel_base_def sets_ok_def)
  then have "sel_inv p ?a rm ?st" using i h w unfolding sel_inv_def sel_base_def at_start_def
    by (auto simp: to_close_def split: option.splits)
  ultimately show ?thesis by blast
qed

lemma removeevent_ok:
  assumes i: "sel_inv p a rm st" and l: "length rm < 1024" and q: "0 \<le> fd" "fd < FD_SETSIZE - 1" "fd \<noteq> p"
  shows "\<exists>st'. select_removeevent fd st = Some (0, st') \<and> sel_inv p a (rm @ [fd]) st'"
proof -
  obtain pend where pd: "rm = closed st @ pend" "\<forall>x \<in> set pend. 0 \<le> x" "length pend \<le> 1024"
    "sFDsToCloseArray st = pend @ replicate (1024 - length pend) (-1)" using i by (auto simp: sel_inv_def sel_base_def to_close_def)
  then have n: "length pend < 1024" using l by simp
  have f: "free_index (sFDsToCloseArray st) = Some (length pend)"
    unfolding pd(4) replicate_room [OF n] by (rule free_index_pending [OF pd(2)])
  have h: "0 \<le> fd" "fd \<le> 1023" using q by (simp_all add: FD_SETSIZE_def)
  let ?r = "(sReadSet st)(fd := False)" and ?w = "(sWriteSet st)(fd := False)"
  let ?st = "st\<lparr>sWriteSet := ?w, sReadSet := ?r, sReturnedReadSet := (sReturnedReadSet st)(fd := False),
    sReturnedWriteSet := (sReturnedWriteSet st)(fd := False), sCookieArray := (sCookieArray st)(fd := 0),
    sMaxFDPos := (if fd = sMaxFDPos st then max_down ?r ?w (sMaxFDPos st) else sMaxFDPos st),
    sFDsToCloseArray := (sFDsToCloseArray st)[length pend := fd], pipe_bytes := pipe_bytes st + 1\<rparr>"
  have "select_removeevent fd st = Some (0, ?st)" using h f by (simp add: select_removeevent_def)
  moreover have "to_close (rm @ [fd]) ?st"
    unfolding to_close_def using n q(1) pd(1,2)
    by (intro exI [of _ "pend @ [fd]"]) (auto simp: pd(4) replicate_room)
  moreover have "0 \<le> max_down ?r ?w (sMaxFDPos st) \<and> max_down ?r ?w (sMaxFDPos st) \<le> sMaxFDPos st"
    using i by (intro max_down_bounds) (simp add: sel_inv_def sel_base_def)
  ultimately show ?thesis using i unfolding sel_inv_def sel_base_def at_start_def
    by (auto simp: sets_ok_def split: option.splits)
qed

lemma select_step_ok:
  assumes i: "sel_inv p a rm st" and l: "length rm < 1024" and q: "op_ok p opr"
  shows "\<exists>tr req' st' a'. ev_step watch_select modwatch_select remove_select select_waitevent opr req st = Some (tr, req', st') \<and>
    armed a tr = Some a' \<and> sel_inv p a' (rm @ removed tr) st' \<and> length (removed tr) = removals [opr]"
proof (cases opr)
  case (OWatch c q m)
  then show ?thesis using modwatch_ok [OF i, of q m] q by (fastforce simp: ev_step_def select_ops)
next
  case (OMod c q m)
  then show ?thesis using modwatch_ok [OF i, of q m] q by (fastforce simp: ev_step_def select_ops)
next
  case (ORemove c fd)
  then show ?thesis using removeevent_ok [OF i l, of fd] q by (auto simp: ev_step_def select_ops simp del: split_paired_Ex)
next
  case (OWait e)
  then have "wait_result p a rm (select_waitevent e req st)" using waitevent_ok [OF i l] q by simp
  then obtain r req' st' a' where "select_waitevent e req st = Some (r, req', st')" "sel_inv p a' rm st'"
    "armed a (if r = Some 0 then [Delivered (er_handle req') (er_data req') (er_eventbits req')] else []) = Some a'"
    unfolding wait_result_def by blast
  then show ?thesis using OWait by (cases "r = Some 0") (auto simp: ev_step_def simp del: armed.simps split_paired_Ex)
qed

lemma select_run_ok:
  assumes "sel_inv p a rm st" "length rm + removals oprs < 1024" "\<forall>opr \<in> set oprs. op_ok p opr"
  shows "\<exists>tr req' st' a'. select_run oprs req st = Some (tr, req', st') \<and> armed a tr = Some a' \<and> sel_inv p a' (rm @ removed tr) st'"
  using assms
proof (induction oprs arbitrary: a rm st req)
  case (Cons opr oprs)
  have k: "removals (opr # oprs) = removals [opr] + removals oprs" by (cases opr) simp_all
  obtain tr1 req1 st1 a1 where h: "ev_step watch_select modwatch_select remove_select select_waitevent opr req st = Some (tr1, req1, st1)"
    "armed a tr1 = Some a1" "sel_inv p a1 (rm @ removed tr1) st1" "length (removed tr1) = removals [opr]"
    using select_step_ok [OF Cons.prems(1), of opr req] Cons.prems(2,3) by auto
  have "length (rm @ removed tr1) + removals oprs < 1024" using Cons.prems(2) h(4) k by simp
  from Cons.IH [OF h(3) this] Cons.prems(3) obtain tr2 req2 st2 a2 where
    "select_run oprs req1 st1 = Some (tr2, req2, st2)" "armed a1 tr2 = Some a2" "sel_inv p a2 ((rm @ removed tr1) @ removed tr2) st2"
    by (metis list.set_intros(2))
  then show ?case using h(1,2) by (auto simp: armed_append removed_append simp del: split_paired_Ex)
qed auto

lemma select_start_inv:
  assumes "select_startevents p = Some s0" "0 \<le> p" "p < FD_SETSIZE - 1"
  shows "sel_inv p (\<lambda>_. False, \<lambda>_. False) [] s0"
  using assms by (auto simp: select_startevents_def FD_SETSIZE_def sel_inv_def sel_base_def sets_ok_def to_close_def at_start_def
    split: if_splits)

text \<open>C15: Whatever threads do with the select queue, no access leaves its arrays and no assertion fails, as long as the descriptors are
  below \<open>FD_SETSIZE - 1\<close> and fewer than \<open>FD_SETSIZE\<close> are removed. An event comes only if it was asked for since the last time it
  came, and with the cookie of the last watch of its descriptor (zero once it is removed). The descriptors that were removed are
  closed once each, in their order, by a later wake-up, those that wait for it being in the array.\<close>

theorem select_history:
  assumes p: "0 \<le> p" "p < FD_SETSIZE - 1" and ok: "\<forall>opr \<in> set oprs. op_ok p opr" and few: "removals oprs < 1024"
  shows "\<exists>tr req' st. do { s0 \<leftarrow> select_startevents p; select_run oprs req s0 } = Some (tr, req', st) \<and>
    cookies_ok (\<lambda>_. 0) tr \<and> armed (\<lambda>_. False, \<lambda>_. False) tr \<noteq> None \<and>
    (\<exists>pend. removed tr = closed st @ pend \<and> sFDsToCloseArray st = pend @ replicate (1024 - length pend) (-1))"
proof -
  obtain s0 where s0: "select_startevents p = Some s0" using p by (simp add: select_startevents_def FD_SETSIZE_def)
  have c: "sCookieArray s0 = (\<lambda>_. 0)" using s0 p by (auto simp: select_startevents_def FD_SETSIZE_def)
  have i: "sel_inv p (\<lambda>_. False, \<lambda>_. False) [] s0" using s0 p by (rule select_start_inv)
  obtain tr req' st a' where r: "select_run oprs req s0 = Some (tr, req', st)" "armed (\<lambda>_. False, \<lambda>_. False) tr = Some a'"
    "sel_inv p a' ([] @ removed tr) st" using select_run_ok [OF i _ ok] few by fastforce
  have "cookies_ok (\<lambda>_. 0) tr" using select_queue.run_cookies [OF TrueI r(1)] c by simp
  moreover have "\<exists>pend. removed tr = closed st @ pend \<and> sFDsToCloseArray st = pend @ replicate (1024 - length pend) (-1)"
    using r(3) by (auto simp: sel_inv_def sel_base_def to_close_def)
  ultimately show ?thesis using r s0 by simp
qed

section \<open>Handing out a result\<close>


















section \<open>Runs\<close>

definition ex_req :: "int \<Rightarrow> nat \<Rightarrow> eventreq" where
  "ex_req fd d = eventreq_zero\<lparr>er_type := EV_FD, er_handle := fd, er_data := d\<rparr>"

text \<open>An answer with fixed sets, as far as they were asked for.\<close>

definition ex_call :: "int \<Rightarrow> int list \<Rightarrow> int list \<Rightarrow> select_call" where
  "ex_call n rs ws nfds r w = (n, 0, \<lambda>fd. fd \<in> set rs \<and> r fd, \<lambda>fd. fd \<in> set ws \<and> w fd)"

lemma ex_call_ok: "answer_ok (ex_call n rs ws)"
  by (simp add: answer_ok_def ex_call_def)

lemma ex_req_simps [simp]: "er_handle (ex_req fd d) = fd" "er_data (ex_req fd d) = d"
  by (simp_all add: ex_req_def)

lemma mask_simps [simp]: "(3 :: int) AND EV_RE_bit \<noteq> 0" "(3 :: int) AND EV_WR_bit \<noteq> 0" "(1 :: int) AND EV_RE_bit \<noteq> 0" "(1 :: int) AND EV_WR_bit = 0"
  by (simp_all add: ev_defs)

definition ex_history :: "(unit, select_event) ev_op list" where
  "ex_history = [OWatch () (ex_req 5 50) 3, OWatch () (ex_req 9 90) 1, OWait (Enter 0)]"

definition ex_state :: SelectState where
  "ex_state = snd (snd (the (do { s0 \<leftarrow> select_startevents 3; select_run ex_history eventreq_zero s0 })))"

lemmas select_eval = select_startevents_def ex_history_def ev_step_def select_ops select_modwatch_def FD_SETSIZE_def select_waitevent_def
  wait_enter_def select_loop_def selecthasdata_def

theorem select_history_witness:
  "(0 :: int) \<le> 3 \<and> (\<exists>tr req' st. do { s0 \<leftarrow> select_startevents 3;
      select_run (ex_history @ [OWait (Return (ex_call 2 [5] [5])), OWait (Enter 0), ORemove () 9, OWait (Enter 0)]) eventreq_zero s0 } = Some (tr, req', st) \<and>
    cookies_ok (\<lambda>_. 0) tr \<and> armed (\<lambda>_. False, \<lambda>_. False) tr \<noteq> None \<and>
    (\<exists>pend. removed tr = closed st @ pend \<and> sFDsToCloseArray st = pend @ replicate (1024 - length pend) (-1)))"
  by (intro conjI select_history) (auto simp: FD_SETSIZE_def ex_history_def ex_call_ok)

lemma ex_state_eq: "ex_state = \<lparr>sReadSet = (\<lambda>fd. fd \<in> {3, 5, 9}), sWriteSet = (\<lambda>fd. fd = 5), sReturnedReadSet = (\<lambda>fd. fd \<in> {3, 5, 9}),
    sReturnedWriteSet = (\<lambda>fd. fd = 5), sCookieArray = (\<lambda>_. 0)(5 := 50, 9 := 90), sFDsToCloseArray = replicate 1024 (-1), sPipe = 3,
    sCurrentFDPos = 0, sMaxFDPos = 9, sInReadSet = True, sNumFDsBackFromSelect = 0, sNumFDsProcessed = 0, pipe_bytes = 2, closed = [],
    in_select = Some (10, \<lambda>fd. fd \<in> {3, 5, 9}, \<lambda>fd. fd = 5)\<rparr>"
  by (auto simp: ex_state_def select_eval fun_eq_iff)



lemma scan_step:
  assumes "0 \<le> pos" "pos \<le> 1023"
  shows "scan s pos mx = (if \<not> s pos \<and> pos < mx then scan s (pos + 1) mx else Some (s pos, pos))"
  using assms by (subst scan.simps) simp

lemma free_index_first: "free_index (replicate 1024 (-1)) = Some 0"
  using free_index_pending [of "[]"] replicate_room [of 0 "-1"] by simp





text \<open>
  When the highest descriptor is removed while a result is handed out, the events behind the new highest descriptor are
  skipped: the write of descriptor 5, which was not removed, does not come.
\<close>

lemma select_skips_event:
  "\<exists>req st. select_run [OWait (Return (ex_call 2 [5] [5])), OWait (Enter 0), ORemove () 9, OWait (Enter 0)] eventreq_zero ex_state =
    Some ([Delivered 5 50 EV_RE_bit, Removed 9], req, st) \<and> in_select st \<noteq> None"
  by (simp add: ex_state_eq ev_step_def select_waitevent_def wait_return_def ex_call_def select_loop_def selecthasdata_def EINTR_errno_def
    wait_enter_def wait_write_def constructeventreq_eq scan_step select_ops select_removeevent_def free_index_first max_down.simps)

text \<open>
  The last descriptor of a set: after its read is handed out while something is left, the next call tests the bit behind
  the set.
\<close>

lemma select_last_descriptor:
  assumes "in_select st = None" "sInReadSet st" "sCurrentFDPos st = FD_SETSIZE - 1" "sMaxFDPos st = FD_SETSIZE - 1"
    "sReturnedReadSet st (FD_SETSIZE - 1)" "sNumFDsProcessed st + 1 < sNumFDsBackFromSelect st"
  shows "\<exists>req' st'. select_waitevent (Enter e) req st = Some (Some 0, req', st') \<and> select_waitevent (Enter e') req' st' = None"
  using assms by (simp add: FD_SETSIZE_def select_waitevent_def wait_enter_def scan.simps constructeventreq_eq FD_ISSET_def)

end
