(* ===== verification/CF_Epoll.thy ===== *)
theory CF_Epoll
  imports CF_Ev
begin

text \<open>
  Readiness of descriptors by \<^verbatim>\<open>epoll\<close> (\<^verbatim>\<open>src/CFSocket/epollev.cpp\<close>), the
  implementation on Linux.  The answers of the system calls are arguments; \<open>interest\<close> is the list of watched
  descriptors that the kernel keeps.
\<close>

definition MAX_EPOLL_FD :: nat where "MAX_EPOLL_FD = 20000"

definition EPOLLIN :: int where "EPOLLIN = 0x001"
definition EPOLLOUT :: int where "EPOLLOUT = 0x004"
definition EPOLLERR :: int where "EPOLLERR = 0x008"
definition EPOLLHUP :: int where "EPOLLHUP = 0x010"
definition EPOLLONESHOT :: int where "EPOLLONESHOT = 0x40000000"
definition EPOLLET :: int where "EPOLLET = 0x80000000"

lemmas epoll_defs = EPOLLIN_def EPOLLOUT_def EPOLLERR_def EPOLLHUP_def EPOLLONESHOT_def EPOLLET_def

record epoll_event =
  ep_events :: int
  ep_fd :: int

record EpollState =
  gEpollFD :: int
  gEpollEvents :: "epoll_event list option"
  gCurEventReadPos :: int
  gCurTotalEvents :: int
  gDataMap :: "int \<rightharpoonup> nat"
  interest :: "int \<rightharpoonup> int"

definition epoll_statics :: EpollState where
  "epoll_statics = \<lparr>gEpollFD = -1, gEpollEvents = None, gCurEventReadPos = 0, gCurTotalEvents = 0, gDataMap = Map.empty, interest = Map.empty\<rparr>"

text \<open>Failure to create the descriptor ends the process.  The new array is written with zeroes here.\<close>

definition startevents_ep :: "int \<Rightarrow> EpollState \<Rightarrow> EpollState option" where
  "startevents_ep fd st = do {
     let st1 = (if gEpollFD st = -1 then st\<lparr>gEpollFD := fd\<rparr> else st);
     Assert (gEpollFD st1 \<noteq> -1);
     let st2 = (if gEpollEvents st1 = None
                then st1\<lparr>gEpollEvents := Some (replicate MAX_EPOLL_FD \<lparr>ep_events = 0, ep_fd = 0\<rparr>)\<rparr> else st1);
     Some (st2\<lparr>gCurEventReadPos := 0, gCurTotalEvents := 0\<rparr>)
   }"

text \<open>Closing the descriptor ends the interest of the kernel.\<close>

definition stopevents_ep :: "EpollState \<Rightarrow> EpollState" where
  "stopevents_ep st = (if gEpollFD st \<noteq> -1 then st\<lparr>gEpollFD := -1, interest := Map.empty\<rparr> else st)\<lparr>gEpollEvents := None\<rparr>"

text \<open>A control call is repeated while it is interrupted; an answer is the result and \<open>errno\<close>.\<close>

type_synonym ctl_answers = "(int \<times> int) list"

fun ctl_loop :: "ctl_answers \<Rightarrow> int option" where
  "ctl_loop [] = None"
| "ctl_loop ((ret, errno) # answers) = (if ret = -1 \<and> errno = EINTR_errno then ctl_loop answers else Some ret)"

definition epoll_mask :: "int \<Rightarrow> int" where
  "epoll_mask which =
     (let e0 = (if which AND EV_ET \<noteq> 0 then EPOLLET else 0);
          e1 = (if which AND EV_OS \<noteq> 0 then e0 OR EPOLLONESHOT else e0);
          e2 = (if which AND EV_RE_bit \<noteq> 0 then e1 OR (EPOLLIN OR EPOLLHUP OR EPOLLERR) else e1)
      in if which AND EV_WR_bit \<noteq> 0 then e2 OR EPOLLOUT else e2)"

definition modwatch0_ep :: "ctl_answers \<Rightarrow> eventreq option \<Rightarrow> int \<Rightarrow> bool \<Rightarrow> EpollState \<Rightarrow> (int \<times> EpollState) option" where
  "modwatch0_ep answers reqp which isAdd st =
     (case reqp of
        None \<Rightarrow> Some (-1, st)
      | Some req \<Rightarrow> do {
          ret \<leftarrow> ctl_loop answers;
          Some (ret, if ret = 0 then st\<lparr>interest := (interest st)(er_handle req \<mapsto> epoll_mask which),
                                       gDataMap := (gDataMap st)(er_handle req \<mapsto> er_data req)\<rparr> else st)
        })"

definition modwatch_ep :: "(ctl_answers, EpollState) ev_change" where
  "modwatch_ep answers req which st = modwatch0_ep answers (Some req) which False st"

definition watchevent_ep :: "(ctl_answers, EpollState) ev_change" where
  "watchevent_ep answers req which st = modwatch0_ep answers (Some req) which True st"

definition removeevent_ep :: "(ctl_answers, EpollState) ev_remove" where
  "removeevent_ep answers which st = do {
     (ret, _) \<leftarrow> (case answers of [] \<Rightarrow> None | a # _ \<Rightarrow> Some a);
     Some (ret, if ret = 0 then st\<lparr>interest := (interest st)(which := None), gDataMap := (gDataMap st)(which := None)\<rparr> else st)
   }"

text \<open>The answer of \<^verbatim>\<open>epoll_wait\<close> and the events it writes; it is used when the call is made.\<close>

type_synonym wait_answer = "int \<times> epoll_event list"

definition epoll_waitevent :: "wait_answer \<Rightarrow> EpollState \<Rightarrow> (int \<times> EpollState) option" where
  "epoll_waitevent answer st = do {
     st1 \<leftarrow> (if gCurTotalEvents st \<le> 0 then do {
                arr \<leftarrow> gEpollEvents st;
                Assert (length (snd answer) \<le> length arr);
                Some (st\<lparr>gCurTotalEvents := (if fst answer > 0 then fst answer else 0), gCurEventReadPos := 0,
                  gEpollEvents := Some (snd answer @ drop (length (snd answer)) arr)\<rparr>)
              } else Some st);
     if gCurTotalEvents st1 > 0 then
       Some (gCurEventReadPos st1,
         if gCurEventReadPos st1 + 1 \<ge> gCurTotalEvents st1 - 1 then st1\<lparr>gCurEventReadPos := 0, gCurTotalEvents := 0\<rparr>
         else st1\<lparr>gCurEventReadPos := gCurEventReadPos st1 + 1\<rparr>)
     else Some (-1, st1)
   }"

definition event_bits :: "int \<Rightarrow> int \<Rightarrow> int" where
  "event_bits events old =
     (if events = EPOLLIN \<or> events = EPOLLHUP \<or> events = EPOLLERR then EV_RE_bit else if events = EPOLLOUT then EV_WR_bit else old)"

definition waitevent_ep :: "(wait_answer, EpollState) ev_wait" where
  "waitevent_ep answer req st = do {
     (eventPos, st1) \<leftarrow> epoll_waitevent answer st;
     if eventPos \<ge> 0 then do {
       arr \<leftarrow> gEpollEvents st1;
       Assert (nat eventPos < length arr);
       let e = arr ! nat eventPos;
       let m = (if gDataMap st1 (ep_fd e) = None then (gDataMap st1)(ep_fd e \<mapsto> 0) else gDataMap st1);
       d \<leftarrow> m (ep_fd e);
       Some (Some 0, req\<lparr>er_handle := ep_fd e, er_eventbits := event_bits (ep_events e) (er_eventbits req), er_data := d\<rparr>, st1\<lparr>gDataMap := m\<rparr>)
     } else Some (Some EINTR_errno, req, st1)
   }"

abbreviation epoll_run :: "(ctl_answers, wait_answer) ev_op list \<Rightarrow> eventreq \<Rightarrow> EpollState \<Rightarrow> (ev_item list \<times> eventreq \<times> EpollState) option" where
  "epoll_run \<equiv> ev_run watchevent_ep modwatch_ep removeevent_ep waitevent_ep"

section \<open>The contract of the interface\<close>

definition data_of :: "EpollState \<Rightarrow> int \<Rightarrow> nat" where
  "data_of st fd = (case gDataMap st fd of None \<Rightarrow> 0 | Some d \<Rightarrow> d)"

lemma epoll_waitevent_map: "epoll_waitevent answer st = Some (i, st') \<Longrightarrow> gDataMap st' = gDataMap st"
  by (auto simp: epoll_waitevent_def split: if_splits bind_splits)

lemma data_of_default: "data_of (st\<lparr>gDataMap := (if gDataMap st fd = None then (gDataMap st)(fd \<mapsto> 0) else gDataMap st)\<rparr>) = data_of st"
  by (auto simp: data_of_def fun_eq_iff)

lemma modwatch0_data:
  "modwatch0_ep answers (Some req) which add st = Some (r, st') \<Longrightarrow>
     data_of st' = (if r = 0 then (data_of st)(er_handle req := er_data req) else data_of st)"
  by (auto simp: modwatch0_ep_def data_of_def fun_eq_iff split: bind_splits)

lemma waitevent_data:
  assumes "waitevent_ep answer req st = Some (r, req', st')"
  shows "data_of st' = data_of st \<and> (r = Some 0 \<longrightarrow> data_of st (er_handle req') = er_data req')"
proof -
  obtain i st1 where w: "epoll_waitevent answer st = Some (i, st1)" using assms by (auto simp: waitevent_ep_def split: bind_splits)
  note m = epoll_waitevent_map [OF w]
  show ?thesis
  proof (cases "i \<ge> 0")
    case True
    then obtain arr where a: "gEpollEvents st1 = Some arr" "nat i < length arr"
      using assms w by (auto simp: waitevent_ep_def Assert_def split: bind_splits if_splits)
    define e where "e = arr ! nat i"
    define n where "n = (if gDataMap st1 (ep_fd e) = None then (gDataMap st1)(ep_fd e \<mapsto> 0) else gDataMap st1)"
    obtain d where d: "n (ep_fd e) = Some d" by (cases "gDataMap st1 (ep_fd e)") (auto simp: n_def)
    have "r = Some 0 \<and> er_handle req' = ep_fd e \<and> er_data req' = d \<and> st' = st1\<lparr>gDataMap := n\<rparr>"
      using assms w True a d by (auto simp: waitevent_ep_def e_def n_def Let_def split: bind_splits)
    moreover have "data_of (st1\<lparr>gDataMap := n\<rparr>) = data_of st1" unfolding n_def by (rule data_of_default)
    moreover have "data_of st1 = data_of st" using m by (simp add: data_of_def fun_eq_iff)
    moreover have "data_of (st1\<lparr>gDataMap := n\<rparr>) (ep_fd e) = d" using d by (simp add: data_of_def)
    ultimately show ?thesis by simp
  next
    case False
    then show ?thesis using assms w m by (auto simp: waitevent_ep_def EINTR_errno_def data_of_def fun_eq_iff)
  qed
qed

interpretation epoll_queue: event_queue "\<lambda>_. True" data_of watchevent_ep modwatch_ep removeevent_ep waitevent_ep
proof (unfold_locales, goal_cases)
  case (3 s c fd r s')
  then show ?case by (auto simp: removeevent_ep_def data_of_def fun_eq_iff split: list.splits bind_splits)
qed (auto simp: watchevent_ep_def modwatch_ep_def dest!: modwatch0_data waitevent_data)

text \<open>Whatever threads do with the epoll queue, an event comes with the cookie of the last watch of its descriptor that succeeded,
  and with the null pointer once the descriptor is removed, whatever the kernel answers.\<close>

theorem epoll_history:
  assumes "do { s0 \<leftarrow> startevents_ep fd epoll_statics; epoll_run oprs req s0 } = Some (tr, req', st)"
  shows "cookies_ok (\<lambda>_. 0) tr \<and> data_of st = cookies (\<lambda>_. 0) tr"
proof -
  obtain s0 where s0: "startevents_ep fd epoll_statics = Some s0" "epoll_run oprs req s0 = Some (tr, req', st)"
    using assms by (auto split: bind_splits)
  have "data_of s0 = (\<lambda>_. 0)" using s0(1)
    by (auto simp: startevents_ep_def epoll_statics_def data_of_def Let_def split: bind_splits if_splits)
  then show ?thesis using epoll_queue.run_cookies [OF TrueI s0(2)] by simp
qed

section \<open>Handing out an answer\<close>

text \<open>The item of an event, with the value of its descriptor; an event that is neither exactly a read nor exactly a write keeps the old bits.\<close>

fun items_of :: "EpollState \<Rightarrow> int \<Rightarrow> epoll_event list \<Rightarrow> ev_item list" where
  "items_of st b [] = []"
| "items_of st b (e # es) =
     Delivered (ep_fd e) (data_of st (ep_fd e)) (event_bits (ep_events e) b) # items_of st (event_bits (ep_events e) b) es"

lemma items_of_cong: "data_of st = data_of st' \<Longrightarrow> items_of st b es = items_of st' b es"
  by (induction es arbitrary: b) simp_all

text \<open>An answer of which the events \<open>es\<close> and one more are left.\<close>

definition buffered_ev :: "epoll_event list \<Rightarrow> EpollState \<Rightarrow> bool" where
  "buffered_ev es st \<longleftrightarrow> (\<exists>arr pos. gEpollEvents st = Some arr \<and> gCurEventReadPos st = int pos \<and> 0 < gCurTotalEvents st \<and>
     gCurTotalEvents st = int (pos + length es + 1) \<and> pos + length es < length arr \<and> es = take (length es) (drop pos arr))"

lemma waitevent_eq:
  assumes "epoll_waitevent answer st = Some (int i, st1)" "gEpollEvents st1 = Some arr" "i < length arr" "e = arr ! i"
  shows "\<exists>st'. waitevent_ep answer req st =
      Some (Some 0, req\<lparr>er_handle := ep_fd e, er_eventbits := event_bits (ep_events e) (er_eventbits req), er_data := data_of st1 (ep_fd e)\<rparr>, st') \<and>
    st' = st1\<lparr>gDataMap := (if gDataMap st1 (ep_fd e) = None then (gDataMap st1)(ep_fd e \<mapsto> 0) else gDataMap st1)\<rparr>"
  using assms by (cases "gDataMap st1 (ep_fd e)") (simp_all add: waitevent_ep_def data_of_def Let_def)

lemma wait_buffered:
  assumes b: "buffered_ev (e # es) st"
  shows "\<exists>req' st'. waitevent_ep answer req st = Some (Some 0, req', st') \<and> data_of st' = data_of st \<and>
    er_handle req' = ep_fd e \<and> er_data req' = data_of st (ep_fd e) \<and> er_eventbits req' = event_bits (ep_events e) (er_eventbits req) \<and>
    (if es = [] then gCurTotalEvents st' = 0 else buffered_ev es st')"
proof -
  obtain arr pos where a: "gEpollEvents st = Some arr" "gCurEventReadPos st = int pos" "0 < gCurTotalEvents st"
    "gCurTotalEvents st = int (pos + length (e # es) + 1)" "pos + length (e # es) < length arr" "e # es = take (length (e # es)) (drop pos arr)"
    using b by (auto simp: buffered_ev_def)
  have e: "e = arr ! pos" "es = take (length es) (drop (Suc pos) arr)"
    using a(5,6) by (auto simp: take_Suc_conv_app_nth Cons_nth_drop_Suc [symmetric])
  let ?st1 = "if es = [] then st\<lparr>gCurEventReadPos := 0, gCurTotalEvents := 0\<rparr> else st\<lparr>gCurEventReadPos := int pos + 1\<rparr>"
  have w: "epoll_waitevent answer st = Some (int pos, ?st1)" using a by (simp add: epoll_waitevent_def)
  have g: "gEpollEvents ?st1 = Some arr" "pos < length arr" "data_of ?st1 = data_of st" using a by (simp_all add: data_of_def fun_eq_iff)
  let ?st' = "?st1\<lparr>gDataMap := (if gDataMap ?st1 (ep_fd e) = None then (gDataMap ?st1)(ep_fd e \<mapsto> 0) else gDataMap ?st1)\<rparr>"
  have "if es = [] then gCurTotalEvents ?st' = 0 else buffered_ev es ?st'"
    using a e(2) by (auto simp: buffered_ev_def intro!: exI [of _ "Suc pos"])
  moreover have "data_of ?st' = data_of st" using data_of_default [of ?st1] g(3) by simp
  ultimately show ?thesis using waitevent_eq [OF w g(1,2) e(1), of req] g(3) by auto
qed

lemma run_buffered:
  "buffered_ev es st \<Longrightarrow> length later = length es \<Longrightarrow> es \<noteq> [] \<Longrightarrow>
   \<exists>req' st'. epoll_run (map OWait later) req st = Some (items_of st (er_eventbits req) es, req', st') \<and> gCurTotalEvents st' = 0"
proof (induction es arbitrary: st req later)
  case (Cons e es)
  obtain a as where l: "later = a # as" "length as = length es" using Cons.prems(2) by (cases later) auto
  obtain req1 st1 where w: "waitevent_ep a req st = Some (Some 0, req1, st1)" "data_of st1 = data_of st" "er_handle req1 = ep_fd e"
    "er_data req1 = data_of st (ep_fd e)" "er_eventbits req1 = event_bits (ep_events e) (er_eventbits req)"
    "if es = [] then gCurTotalEvents st1 = 0 else buffered_ev es st1" using wait_buffered [OF Cons.prems(1)] by blast
  show ?case
  proof (cases "es = []")
    case True
    then show ?thesis using w l by (simp add: ev_step_def)
  next
    case False
    then obtain req2 st2 where r: "epoll_run (map OWait as) req1 st1 = Some (items_of st1 (er_eventbits req1) es, req2, st2)" "gCurTotalEvents st2 = 0"
      using Cons.IH [of st1 as req1] w(6) l(2) by auto
    then show ?thesis using w l items_of_cong [OF w(2)] by (simp add: ev_step_def)
  qed
qed simp

lemma wait_filled:
  assumes "gEpollEvents st = Some arr" "gCurTotalEvents st \<le> 0" "length evs \<le> length arr" "evs \<noteq> []"
  shows "waitevent_ep (int (length evs), evs) req st = waitevent_ep answer req
    (st\<lparr>gCurTotalEvents := int (length evs), gCurEventReadPos := 0, gEpollEvents := Some (evs @ drop (length evs) arr)\<rparr>)"
  using assms by (simp add: waitevent_ep_def epoll_waitevent_def)

text \<open>C33: The last event of an answer is dropped: when the kernel answers with two or more events, the calls give all but the last one, and
  the call after them asks the kernel again, which overwrites it. A single event is given.\<close>

theorem epoll_drops_last:
  assumes arr: "gEpollEvents st = Some arr" and none: "gCurTotalEvents st \<le> 0" and evs: "length evs \<le> length arr" "evs \<noteq> []"
    and es: "es = (if length evs = 1 then evs else butlast evs)" and later: "length later + 1 = length es"
  shows "\<exists>req' st'. epoll_run (OWait (int (length evs), evs) # map OWait later) req st =
      Some (items_of st (er_eventbits req) es, req', st') \<and> gCurTotalEvents st' = 0"
proof -
  let ?st = "st\<lparr>gCurTotalEvents := int (length evs), gCurEventReadPos := 0, gEpollEvents := Some (evs @ drop (length evs) arr)\<rparr>"
  let ?a = "(int (length evs), evs)"
  have d: "data_of ?st = data_of st" by (simp add: data_of_def fun_eq_iff)
  have w: "waitevent_ep ?a req st = waitevent_ep ?a req ?st" by (rule wait_filled [OF arr none evs])
  show ?thesis
  proof (cases "length evs = 1")
    case True
    then obtain e where e: "evs = [e]" by (auto simp: length_Suc_conv)
    let ?st1 = "?st\<lparr>gCurEventReadPos := 0, gCurTotalEvents := 0\<rparr>"
    have p: "epoll_waitevent ?a ?st = Some (int 0, ?st1)" by (simp add: epoll_waitevent_def e)
    have q: "gEpollEvents ?st1 = Some (evs @ drop (length evs) arr)" "0 < length (evs @ drop (length evs) arr)"
      "e = (evs @ drop (length evs) arr) ! 0" using e by simp_all
    have d1: "data_of ?st1 = data_of st" by (simp add: data_of_def fun_eq_iff)
    obtain st' where s: "waitevent_ep ?a req ?st = Some (Some 0, req\<lparr>er_handle := ep_fd e,
        er_eventbits := event_bits (ep_events e) (er_eventbits req), er_data := data_of ?st1 (ep_fd e)\<rparr>, st')"
      "st' = ?st1\<lparr>gDataMap := (if gDataMap ?st1 (ep_fd e) = None then (gDataMap ?st1)(ep_fd e \<mapsto> 0) else gDataMap ?st1)\<rparr>"
      using waitevent_eq [OF p q, of req] by blast
    have "gCurTotalEvents st' = 0" unfolding s(2) by simp
    moreover have "later = []" "es = [e]" using later es True e by auto
    ultimately show ?thesis using w s(1) d1 by (simp add: ev_step_def)
  next
    case False
    then have len: "length evs \<ge> 2" using evs(2) by (cases evs) (auto simp: Suc_le_eq)
    have "buffered_ev es ?st" unfolding buffered_ev_def
      using evs es False len by (intro exI [of _ "evs @ drop (length evs) arr"] exI [of _ 0]) (simp add: butlast_conv_take)
    moreover have "es \<noteq> []" using es False len by (metis One_nat_def Suc_1 length_butlast length_greater_0_conv not_less_eq_eq zero_less_diff less_eq_Suc_le)
    ultimately obtain req' st' where "epoll_run (map OWait (?a # later)) req ?st = Some (items_of ?st (er_eventbits req) es, req', st')"
      "gCurTotalEvents st' = 0" using run_buffered [of es ?st "?a # later" req] later by auto
    then show ?thesis using w items_of_cong [OF d] by (auto simp: ev_step_def)
  qed
qed

definition ex_epoll :: EpollState where
  "ex_epoll = (epoll_statics\<lparr>gEpollFD := 7, gEpollEvents := Some (replicate 4 \<lparr>ep_events = 0, ep_fd = 0\<rparr>),
     gDataMap := [5 \<mapsto> 50, 6 \<mapsto> 60, 9 \<mapsto> 90]\<rparr>)"

abbreviation ex_ev :: "int \<Rightarrow> int \<Rightarrow> epoll_event" where
  "ex_ev fd m \<equiv> \<lparr>ep_events = m, ep_fd = fd\<rparr>"

theorem epoll_drops_last_witness:
  "\<exists>req' st'. epoll_run [OWait (3, [ex_ev 5 EPOLLIN, ex_ev 6 EPOLLOUT, ex_ev 9 EPOLLIN]), OWait (0, [])] eventreq_zero ex_epoll =
      Some ([Delivered 5 50 EV_RE_bit, Delivered 6 60 EV_WR_bit], req', st') \<and> gCurTotalEvents st' = 0"
  using epoll_drops_last [of ex_epoll "replicate 4 \<lparr>ep_events = 0, ep_fd = 0\<rparr>" "[ex_ev 5 EPOLLIN, ex_ev 6 EPOLLOUT, ex_ev 9 EPOLLIN]"
      "[ex_ev 5 EPOLLIN, ex_ev 6 EPOLLOUT]" "[(0, [])]" eventreq_zero]
  by (simp add: ex_epoll_def epoll_statics_def data_of_def event_bits_def epoll_defs)

definition ex_epoll_ops :: "(ctl_answers, wait_answer) ev_op list" where
  "ex_epoll_ops = [OWatch [(-1, EINTR_errno), (0, 0)] (eventreq_zero\<lparr>er_handle := 5, er_data := 50\<rparr>) EV_RE_bit, OWait (1, [ex_ev 5 EPOLLIN]),
     ORemove [(0, 0)] 5, OWait (1, [ex_ev 5 EPOLLIN])]"

lemma ex_epoll_run:
  "\<exists>req' st. do { s0 \<leftarrow> startevents_ep 7 epoll_statics; epoll_run ex_epoll_ops eventreq_zero s0 } =
    Some ([Watched 5 50 EV_RE_bit, Delivered 5 50 EV_RE_bit, Removed 5, Delivered 5 0 EV_RE_bit], req', st)"
  by (simp add: ex_epoll_ops_def startevents_ep_def epoll_statics_def ev_step_def watchevent_ep_def modwatch0_ep_def removeevent_ep_def
    waitevent_ep_def epoll_waitevent_def event_bits_def MAX_EPOLL_FD_def EINTR_errno_def Let_def)

theorem epoll_history_witness:
  "\<exists>tr req' st. do { s0 \<leftarrow> startevents_ep 7 epoll_statics; epoll_run ex_epoll_ops eventreq_zero s0 } = Some (tr, req', st) \<and>
    length tr = 4 \<and> cookies_ok (\<lambda>_. 0) tr \<and> data_of st = cookies (\<lambda>_. 0) tr"
proof -
  obtain req' st where r: "do { s0 \<leftarrow> startevents_ep 7 epoll_statics; epoll_run ex_epoll_ops eventreq_zero s0 } =
    Some ([Watched 5 50 EV_RE_bit, Delivered 5 50 EV_RE_bit, Removed 5, Delivered 5 0 EV_RE_bit], req', st)" using ex_epoll_run by blast
  show ?thesis by (rule exI, rule exI, rule exI, rule conjI, rule r) (use epoll_history [OF r] in simp)
qed

text \<open>A read together with a hang-up is neither exactly the one nor the other: the event has the bits of the event before.\<close>

lemma mixed_event_keeps_bits: "event_bits (EPOLLIN OR EPOLLHUP) old = old"
  by (simp add: event_bits_def epoll_defs)

end
