(* ===== verification/CF_HashTable.thy ===== *)
theory CF_HashTable
  imports CF_Prelude
begin

text \<open>
  The chained hash table of \<^verbatim>\<open>src/CFCore/include/CF/HashTable.h\<close>. The template
  parameters are arguments: \<open>hash\<close> gives the hash value of an entry (the key of type
  \<^verbatim>\<open>K\<close> built from it), and a lookup takes the hash value of the wanted key and the
  comparison with it. The \<^verbatim>\<open>fNextHashEntry\<close> fields of the entries are the function
  \<open>links\<close>. The chain loops are partial: \<^term>\<open>None\<close> is a loop that does not
  end, an index outside the bucket array or a failed assertion.
\<close>

unbundle bit_operations_syntax

section \<open>State and operations\<close>

type_synonym entry = nat
type_synonym links = "entry \<Rightarrow> entry option"

record HashTable =
  fHashTable :: "entry option list"
  fSize :: nat
  fMask :: nat
  fNumEntries :: nat

definition HashTable_new :: "nat \<Rightarrow> HashTable" where
  "HashTable_new sz =
     (let mask = u32 (sz + (2 ^ 32 - 1))
      in \<lparr>fHashTable = replicate sz None, fSize = sz,
          fMask = (if mask AND sz \<noteq> 0 then 0 else mask), fNumEntries = 0\<rparr>)"

definition ComputeIndex :: "HashTable \<Rightarrow> nat \<Rightarrow> nat" where
  "ComputeIndex t hashKey = (if fMask t \<noteq> 0 then hashKey AND fMask t else hashKey mod fSize t)"

definition bucket :: "HashTable \<Rightarrow> nat \<Rightarrow> entry option option" where
  "bucket t i = (if i < length (fHashTable t) then Some (fHashTable t ! i) else None)"

definition Add :: "(entry \<Rightarrow> nat) \<Rightarrow> links \<times> HashTable \<Rightarrow> entry \<Rightarrow> (links \<times> HashTable) option" where
  "Add hash s entry =
     (let (nxt, t) = s; theIndex = ComputeIndex t (hash entry)
      in if nxt entry \<noteq> None then None
         else do {
           b \<leftarrow> bucket t theIndex;
           Some (nxt(entry := b),
                 t\<lparr>fHashTable := (fHashTable t)[theIndex := Some entry], fNumEntries := fNumEntries t + 1\<rparr>)
         })"

partial_function (option) remove_loop ::
  "links \<Rightarrow> entry \<Rightarrow> entry option \<Rightarrow> entry option \<Rightarrow> (entry option \<times> entry option) option" where
  "remove_loop nxt entry elem lst =
     (case elem of
        None \<Rightarrow> Some (None, lst)
      | Some x \<Rightarrow> if x \<noteq> entry then remove_loop nxt entry (nxt x) (Some x) else Some (Some x, lst))"

declare remove_loop.simps [code]

definition Remove_h :: "(entry \<Rightarrow> nat) \<Rightarrow> links \<times> HashTable \<Rightarrow> entry \<Rightarrow> (links \<times> HashTable) option" where
  "Remove_h hash s entry =
     (let (nxt, t) = s; theIndex = ComputeIndex t (hash entry)
      in do {
           b \<leftarrow> bucket t theIndex;
           (elem, lst) \<leftarrow> remove_loop nxt entry b None;
           Some (case elem of
                   None \<Rightarrow> (nxt, t)
                 | Some x \<Rightarrow>
                     (case lst of
                        Some l \<Rightarrow> (nxt(l := nxt x, x := None), t\<lparr>fNumEntries := fNumEntries t - 1\<rparr>)
                      | None \<Rightarrow> (nxt(x := None),
                                 t\<lparr>fHashTable := (fHashTable t)[theIndex := nxt x],
                                   fNumEntries := fNumEntries t - 1\<rparr>)))
         })"

partial_function (option) map_loop :: "links \<Rightarrow> (entry \<Rightarrow> bool) \<Rightarrow> entry option \<Rightarrow> entry option option" where
  "map_loop nxt eq elem =
     (case elem of None \<Rightarrow> Some None | Some x \<Rightarrow> if eq x then Some (Some x) else map_loop nxt eq (nxt x))"

declare map_loop.simps [code]

definition Map :: "links \<times> HashTable \<Rightarrow> nat \<Rightarrow> (entry \<Rightarrow> bool) \<Rightarrow> entry option option" where
  "Map s hashKey eq = (let (nxt, t) = s in do { b \<leftarrow> bucket t (ComputeIndex t hashKey); map_loop nxt eq b })"

definition GetNumEntries :: "links \<times> HashTable \<Rightarrow> nat" where
  "GetNumEntries s = fNumEntries (snd s)"

text \<open>The iterator: current entry and bucket index.\<close>

fun scan_from :: "HashTable \<Rightarrow> nat \<Rightarrow> nat \<Rightarrow> entry option \<times> nat" where
  "scan_from t i 0 = (None, i)"
| "scan_from t i (Suc n) =
     (case fHashTable t ! i of Some e \<Rightarrow> (Some e, i) | None \<Rightarrow> scan_from t (i + 1) n)"

definition HashTableIter_First :: "links \<times> HashTable \<Rightarrow> entry option \<times> nat" where
  "HashTableIter_First s = scan_from (snd s) 0 (fSize (snd s))"

definition HashTableIter_Next :: "links \<times> HashTable \<Rightarrow> entry option \<times> nat \<Rightarrow> (entry option \<times> nat) option" where
  "HashTableIter_Next s it =
     (let (nxt, t) = s
      in case fst it of
           None \<Rightarrow> None
         | Some x \<Rightarrow>
             (case nxt x of
                Some y \<Rightarrow> Some (Some y, snd it)
              | None \<Rightarrow> Some (scan_from t (snd it + 1) (fSize t - (snd it + 1)))))"

fun iter_all :: "nat \<Rightarrow> links \<times> HashTable \<Rightarrow> entry option \<times> nat \<Rightarrow> entry list option" where
  "iter_all 0 s it = None"
| "iter_all (Suc fuel) s it =
     (case fst it of
        None \<Rightarrow> Some []
      | Some x \<Rightarrow> do { it' \<leftarrow> HashTableIter_Next s it; r \<leftarrow> iter_all fuel s it'; Some (x # r) })"

section \<open>The index computation\<close>

text \<open>A number without common bits with its predecessor is a power of two.\<close>

lemma half_and: "(a AND b) div 2 = a div 2 AND b div 2" for a b :: nat
proof -
  have "drop_bit 1 (a AND b) = drop_bit 1 a AND drop_bit 1 b" by (rule drop_bit_and)
  then show ?thesis by (simp add: drop_bit_eq_div)
qed

lemma and_pred_zero_pow2:
  "0 < n \<Longrightarrow> n AND (n - 1) = 0 \<Longrightarrow> \<exists>k. n = 2 ^ k" for n :: nat
proof (induction n rule: less_induct)
  case (less n)
  show ?case
  proof (cases "even n")
    case True
    then have "0 < n div 2" "n div 2 < n" using less.prems by (auto elim!: evenE)
    moreover have "(n - 1) div 2 = n div 2 - 1" using True less.prems(1) by (auto elim!: evenE)
    then have "(n div 2) AND (n div 2 - 1) = 0"
      using half_and [of n "n - 1"] less.prems(2) by simp
    ultimately obtain k where "n div 2 = 2 ^ k" using less.IH by blast
    then have "n = 2 ^ Suc k" using True by (auto elim!: evenE)
    then show ?thesis by blast
  next
    case False
    show ?thesis
    proof (cases "n = 1")
      case True
      then show ?thesis by (intro exI [of _ 0]) simp
    next
      case n1: False
      obtain m where m: "n = 2 * m + 1" "0 < m" using False n1 less.prems(1) by (auto elim!: oddE)
      have "(n AND (n - 1)) div 2 = m" using half_and [of n "n - 1"] m by simp
      then show ?thesis using less.prems m by simp
    qed
  qed
qed

lemma ComputeIndex_new:
  assumes "0 < n" "n < 2 ^ 32"
  shows "ComputeIndex (HashTable_new n) h = h mod n"
proof -
  have m: "u32 (n + (2 ^ 32 - 1)) = n - 1"
  proof -
    have "n + (2 ^ 32 - 1) = (n - 1) + 2 ^ 32" using assms by simp
    then have "u32 (n + (2 ^ 32 - 1)) = (n - 1 + 2 ^ 32) mod 2 ^ 32" by (simp only: u32_def)
    also have "\<dots> = (n - 1) mod 2 ^ 32" by (rule mod_add_self2)
    finally show ?thesis using assms by simp
  qed
  show ?thesis
  proof (cases "(n - 1) AND n = 0 \<and> n \<noteq> 1")
    case True
    then obtain k where "n = 2 ^ k" using and_pred_zero_pow2 [OF assms(1)] by (auto simp: and.commute)
    moreover from this have "h AND (n - 1) = h mod n" 
      using mask_eq_exp_minus_1 take_bit_eq_mask take_bit_eq_mod by metis
    ultimately show ?thesis using True m assms by (auto simp: HashTable_new_def ComputeIndex_def Let_def)
  next
    case False
    then show ?thesis using m assms by (auto simp: HashTable_new_def ComputeIndex_def Let_def)
  qed
qed

section \<open>Representation\<close>

fun chain :: "links \<Rightarrow> entry option \<Rightarrow> entry list \<Rightarrow> bool" where
  "chain nxt p [] \<longleftrightarrow> p = None"
| "chain nxt p (x # xs) \<longleftrightarrow> p = Some x \<and> chain nxt (nxt x) xs"

lemma chain_upd [simp]: "x \<notin> set xs \<Longrightarrow> chain (nxt(x := v)) p xs = chain nxt p xs"
  by (induction xs arbitrary: p) auto

text \<open>\<open>bs\<close> is the list of chains, one per bucket.\<close>

definition table_rep :: "(entry \<Rightarrow> nat) \<Rightarrow> links \<times> HashTable \<Rightarrow> entry list list \<Rightarrow> bool" where
  "table_rep hash s bs \<longleftrightarrow>
     (let (nxt, t) = s in
      0 < fSize t \<and> length (fHashTable t) = fSize t \<and> length bs = fSize t \<and>
      (\<forall>h. ComputeIndex t h < fSize t) \<and>
      (\<forall>e. nxt e \<noteq> None \<longrightarrow> (\<exists>j < fSize t. e \<in> set (bs ! j))) \<and>
      (\<forall>i < fSize t. chain nxt (fHashTable t ! i) (bs ! i) \<and> distinct (bs ! i) \<and>
         (\<forall>e \<in> set (bs ! i). ComputeIndex t (hash e) = i)) \<and>
      fNumEntries t = length (concat bs))"

definition members :: "(entry \<Rightarrow> nat) \<Rightarrow> links \<times> HashTable \<Rightarrow> entry set" where
  "members hash s = {e. \<exists>bs. table_rep hash s bs \<and> e \<in> set (concat bs)}"

definition table_inv :: "(entry \<Rightarrow> nat) \<Rightarrow> links \<times> HashTable \<Rightarrow> bool" where
  "table_inv hash s \<longleftrightarrow> (\<exists>bs. table_rep hash s bs)"

lemma chain_unique: "chain nxt p xs \<Longrightarrow> chain nxt p ys \<Longrightarrow> xs = ys"
proof (induction xs arbitrary: p ys)
  case Nil
  then show ?case by (cases ys) auto
next
  case (Cons x xs)
  then show ?case by (cases ys) auto
qed

lemma table_rep_unique:
  assumes "table_rep hash s bs" "table_rep hash s cs"
  shows "bs = cs"
proof (rule nth_equalityI)
  show "length bs = length cs" using assms by (auto simp: table_rep_def)
  obtain nxt t where s: "s = (nxt, t)" by (cases s)
  show "bs ! i = cs ! i" if "i < length bs" for i
  proof -
    have "chain nxt (fHashTable t ! i) (bs ! i)" "chain nxt (fHashTable t ! i) (cs ! i)"
      using assms that by (auto simp: table_rep_def s)
    then show ?thesis by (rule chain_unique)
  qed
qed

lemma members_eq: "table_rep hash s bs \<Longrightarrow> members hash s = set (concat bs)"
  unfolding members_def using table_rep_unique by blast

lemma table_rep_bucket:
  assumes "table_rep hash (nxt, t) bs" "i = ComputeIndex t h"
  shows "bucket t i = Some (fHashTable t ! i)" "i < fSize t" "chain nxt (fHashTable t ! i) (bs ! i)"
  using assms by (auto simp: table_rep_def bucket_def)

lemma in_concat_bucket:
  assumes "table_rep hash (nxt, t) bs"
  shows "e \<in> set (concat bs) \<longleftrightarrow> e \<in> set (bs ! ComputeIndex t (hash e))"
proof
  assume "e \<in> set (concat bs)"
  then obtain b where "b \<in> set bs" "e \<in> set b" by auto
  then obtain i where "i < length bs" "e \<in> set (bs ! i)" by (metis in_set_conv_nth)
  with assms show "e \<in> set (bs ! ComputeIndex t (hash e))" by (auto simp: table_rep_def)
next
  assume "e \<in> set (bs ! ComputeIndex t (hash e))"
  moreover have "ComputeIndex t (hash e) < length bs" using assms by (auto simp: table_rep_def)
  ultimately show "e \<in> set (concat bs)" by auto
qed

lemma table_rep_new:
  assumes "0 < n" "n < 2 ^ 32"
  shows "table_rep hash (\<lambda>_. None, HashTable_new n) (replicate n [])"
proof -
  have "ComputeIndex (HashTable_new n) h < n" for h using ComputeIndex_new [OF assms] assms by simp
  then show ?thesis using assms by (simp add: table_rep_def) (simp add: HashTable_new_def Let_def)
qed

lemma members_new [simp]: "0 < n \<Longrightarrow> n < 2 ^ 32 \<Longrightarrow> members hash (\<lambda>_. None, HashTable_new n) = {}"
  using members_eq [OF table_rep_new [of n hash]] by simp

lemma length_concat_update:
  "i < length bs \<Longrightarrow> length (concat (bs[i := xs])) + length (bs ! i) = length (concat bs) + length xs"
proof (induction bs arbitrary: i)
  case (Cons b bs)
  then show ?case by (cases i) (auto simp: algebra_simps)
qed simp

text \<open>Changing one bucket.\<close>

lemma table_rep_update:
  assumes rep: "table_rep hash (nxt, t) bs" and i: "i < fSize t"
    and b: "chain nxt' b xs" "distinct xs" "\<forall>e \<in> set xs. ComputeIndex t (hash e) = i"
    and same: "\<forall>j < fSize t. j \<noteq> i \<longrightarrow> (\<forall>e \<in> set (bs ! j). nxt' e = nxt e)"
    and n: "n + length (bs ! i) = fNumEntries t + length xs"
    and lnk: "\<forall>e. nxt' e \<noteq> None \<longrightarrow> e \<in> set xs \<or> (\<exists>j < fSize t. j \<noteq> i \<and> e \<in> set (bs ! j))"
  shows "table_rep hash (nxt', t\<lparr>fHashTable := (fHashTable t)[i := b], fNumEntries := n\<rparr>) (bs[i := xs])"
proof -
  have ch: "chain nxt' p ys" if "chain nxt p ys" "\<forall>e \<in> set ys. nxt' e = nxt e" for p ys
    using that by (induction ys arbitrary: p) auto
  have ci: "ComputeIndex (t\<lparr>fHashTable := (fHashTable t)[i := b], fNumEntries := n\<rparr>) h = ComputeIndex t h" for h
    by (simp add: ComputeIndex_def)
  have "n = length (concat (bs[i := xs]))"
    using length_concat_update [of i bs xs] rep i n by (auto simp: table_rep_def)
  moreover have "chain nxt' ((fHashTable t)[i := b] ! j) (bs[i := xs] ! j) \<and> distinct (bs[i := xs] ! j) \<and>
      (\<forall>e \<in> set (bs[i := xs] ! j). ComputeIndex t (hash e) = j)" if "j < fSize t" for j
  proof (cases "j = i")
    case True
    with b i rep show ?thesis by (simp add: table_rep_def)
  next
    case False
    have "chain nxt (fHashTable t ! j) (bs ! j)" "distinct (bs ! j)" "\<forall>e \<in> set (bs ! j). ComputeIndex t (hash e) = j"
      using rep that by (auto simp: table_rep_def)
    with False ch same that show ?thesis by simp
  qed
  moreover have len: "0 < fSize t" "length (fHashTable t) = fSize t" "length bs = fSize t" "\<forall>h. ComputeIndex t h < fSize t"
    using rep by (simp_all add: table_rep_def)
  moreover have "\<exists>j < fSize t. e \<in> set (bs[i := xs] ! j)" if "nxt' e \<noteq> None" for e
    using lnk that i len(3) by (metis nth_list_update)
  ultimately show ?thesis unfolding table_rep_def Let_def prod.case ci by simp
qed

lemma members_update:
  assumes rep: "table_rep hash (nxt, t) bs"
    and rep': "table_rep hash (nxt', t\<lparr>fHashTable := a, fNumEntries := n\<rparr>) (bs[i := xs])"
  shows "members hash (nxt', t\<lparr>fHashTable := a, fNumEntries := n\<rparr>) =
    {e. if ComputeIndex t (hash e) = i then e \<in> set xs else e \<in> members hash (nxt, t)}"
proof -
  have ci: "ComputeIndex (t\<lparr>fHashTable := a, fNumEntries := n\<rparr>) h = ComputeIndex t h" for h
    by (simp add: ComputeIndex_def)
  have lt: "ComputeIndex t (hash e) < length bs" for e using rep by (auto simp: table_rep_def)
  have "e \<in> set (concat (bs[i := xs])) \<longleftrightarrow>
      (if ComputeIndex t (hash e) = i then e \<in> set xs else e \<in> set (concat bs))" for e
    unfolding in_concat_bucket [OF rep'] in_concat_bucket [OF rep] ci using lt [of e] by (simp add: nth_list_update)
  then show ?thesis unfolding members_eq [OF rep'] members_eq [OF rep] by blast
qed

text \<open>The hash value of an object that is not in the table does not matter.\<close>

lemma table_rep_cong:
  assumes "table_rep h s bs" "\<And>e. e \<in> set (concat bs) \<Longrightarrow> h' e = h e"
  shows "table_rep h' s bs"
proof -
  have "h' e = h e" if "i < length bs" "e \<in> set (bs ! i)" for i e using assms(2) [of e] that nth_mem by fastforce
  then show ?thesis using assms(1) by (cases s) (simp add: table_rep_def Let_def)
qed

lemma table_cong:
  assumes inv: "table_inv h s" and same: "\<And>e. e \<in> members h s \<Longrightarrow> h' e = h e"
  shows "table_inv h' s" "members h' s = members h s"
proof -
  obtain bs where rep: "table_rep h s bs" using inv by (auto simp: table_inv_def)
  have rep': "table_rep h' s bs"
    by (rule table_rep_cong [OF rep]) (rule same, simp only: members_eq [OF rep])
  then show "table_inv h' s" unfolding table_inv_def by blast
  show "members h' s = members h s" by (simp only: members_eq [OF rep] members_eq [OF rep'])
qed

section \<open>Correctness of the operations\<close>

lemma map_loop_spec:
  "chain nxt p xs \<Longrightarrow> map_loop nxt eq p = Some (find eq xs)"
proof (induction xs arbitrary: p)
  case Nil
  then show ?case by (subst map_loop.simps) simp
next
  case (Cons x xs)
  then show ?case by (subst map_loop.simps) simp
qed

lemma remove_loop_spec:
  "chain nxt p xs \<Longrightarrow> distinct xs \<Longrightarrow>
   remove_loop nxt e p l = (if e \<in> set xs then
      Some (Some e, if takeWhile (\<lambda>x. x \<noteq> e) xs = [] then l else Some (last (takeWhile (\<lambda>x. x \<noteq> e) xs)))
    else Some (None, if xs = [] then l else Some (last xs)))"
proof (induction xs arbitrary: p l)
  case Nil
  then show ?case by (subst remove_loop.simps) simp
next
  case (Cons x xs)
  then show ?case by (subst remove_loop.simps) auto
qed

lemma Add_spec:
  assumes inv: "table_inv hash s" and e: "e \<notin> members hash s"
  shows "\<exists>s'. Add hash s e = Some s' \<and> table_inv hash s' \<and> members hash s' = insert e (members hash s) \<and>
    GetNumEntries s' = GetNumEntries s + 1"
proof -
  obtain nxt t where s: "s = (nxt, t)" by (cases s)
  obtain bs where rep: "table_rep hash (nxt, t) bs" using inv by (auto simp: table_inv_def s)
  let ?i = "ComputeIndex t (hash e)"
  note b = table_rep_bucket [OF rep refl, of "hash e"]
  have new: "e \<notin> set (concat bs)" using e members_eq [OF rep] by (simp add: s)
  have ib: "?i < length bs" using b rep by (auto simp: table_rep_def)
  let ?t = "t\<lparr>fHashTable := (fHashTable t)[?i := Some e], fNumEntries := fNumEntries t + 1\<rparr>"
  have rep': "table_rep hash (nxt(e := fHashTable t ! ?i), ?t) (bs[?i := e # bs ! ?i])"
  proof (rule table_rep_update [OF rep b(2)])
    have "e \<notin> set (bs ! ?i)" using new in_concat_bucket [OF rep] by blast
    then show "chain (nxt(e := fHashTable t ! ?i)) (Some e) (e # bs ! ?i)" "distinct (e # bs ! ?i)"
      using b rep by (auto simp: table_rep_def)
    show "\<forall>x \<in> set (e # bs ! ?i). ComputeIndex t (hash x) = ?i" using rep b by (auto simp: table_rep_def)
    have "length bs = fSize t" using rep by (simp add: table_rep_def)
    then show "\<forall>j < fSize t. j \<noteq> ?i \<longrightarrow> (\<forall>x \<in> set (bs ! j). (nxt(e := fHashTable t ! ?i)) x = nxt x)"
      using new by (auto simp: set_conv_nth [of bs])
    have "\<forall>x. nxt x \<noteq> None \<longrightarrow> (\<exists>j < fSize t. x \<in> set (bs ! j))" using rep by (simp add: table_rep_def)
    then show "\<forall>x. (nxt(e := fHashTable t ! ?i)) x \<noteq> None \<longrightarrow> x \<in> set (e # bs ! ?i) \<or> (\<exists>j < fSize t. j \<noteq> ?i \<and> x \<in> set (bs ! j))"
      by (metis fun_upd_other list.set_intros)
  qed simp
  have "members hash (nxt(e := fHashTable t ! ?i), ?t) = insert e (members hash (nxt, t))"
    unfolding members_update [OF rep rep'] members_eq [OF rep]
    by (auto simp: in_concat_bucket [OF rep] simp del: set_concat)
  moreover have "nxt e = None" using new rep by (fastforce simp: table_rep_def set_conv_nth [of bs])
  then have "Add hash s e = Some (nxt(e := fHashTable t ! ?i), ?t)"
    using b(1) by (simp add: Add_def s Let_def)
  ultimately show ?thesis using rep' unfolding table_inv_def by (auto simp: s GetNumEntries_def)
qed

lemma chain_splice_hd:
  "chain nxt p (x # vs) \<Longrightarrow> distinct (x # vs) \<Longrightarrow> chain (nxt(x := None)) (nxt x) vs"
  by simp

lemma chain_splice:
  "chain nxt p (us @ l # x # vs) \<Longrightarrow> distinct (us @ l # x # vs) \<Longrightarrow>
   chain (nxt(l := nxt x, x := None)) p (us @ l # vs)"
  by (induction us arbitrary: p) auto

lemma Remove_h_spec:
  assumes inv: "table_inv hash s"
  shows "\<exists>s'. Remove_h hash s e = Some s' \<and> table_inv hash s' \<and> members hash s' = members hash s - {e} \<and>
    GetNumEntries s' = GetNumEntries s - (if e \<in> members hash s then 1 else 0)"
proof -
  obtain nxt t where s: "s = (nxt, t)" by (cases s)
  obtain bs where rep: "table_rep hash (nxt, t) bs" using inv by (auto simp: table_inv_def s)
  let ?i = "ComputeIndex t (hash e)"
  note b = table_rep_bucket [OF rep refl, of "hash e"]
  have d: "distinct (bs ! ?i)" using rep b(2) by (auto simp: table_rep_def)
  note lp = remove_loop_spec [OF b(3) d, of e None]
  have mem: "e \<in> members hash s \<longleftrightarrow> e \<in> set (bs ! ?i)"
    unfolding s members_eq [OF rep] by (rule in_concat_bucket [OF rep])
  show ?thesis
  proof (cases "e \<in> set (bs ! ?i)")
    case False
    then have "Remove_h hash s e = Some s" using b(1) lp by (simp add: Remove_h_def s Let_def)
    then show ?thesis using inv False mem by auto
  next
    case True
    then obtain us vs where uv: "bs ! ?i = us @ e # vs" "e \<notin> set us" using split_list_first by metis
    have tw: "takeWhile (\<lambda>x. x \<noteq> e) (bs ! ?i) = us" using uv by simp
    define nxt' where "nxt' = (if us = [] then nxt(e := None) else nxt(last us := nxt e, e := None))"
    define p' where "p' = (if us = [] then nxt e else fHashTable t ! ?i)"
    let ?t = "t\<lparr>fHashTable := (fHashTable t)[?i := p'], fNumEntries := fNumEntries t - 1\<rparr>"
    have dist: "distinct (us @ e # vs)" using d uv(1) by simp
    have ch: "chain nxt' p' (us @ vs)"
    proof (cases us rule: rev_cases)
      case Nil
      then show ?thesis using chain_splice_hd b(3) dist by (simp add: nxt'_def p'_def uv(1))
    next
      case (snoc ws l)
      then show ?thesis using chain_splice [of nxt "fHashTable t ! ?i" ws l e vs] b(3) dist
        by (simp add: nxt'_def p'_def uv(1))
    qed
    have rl: "remove_loop nxt e (fHashTable t ! ?i) None = Some (Some e, if us = [] then None else Some (last us))"
      using lp True tw by simp
    have "t\<lparr>fNumEntries := fNumEntries t - 1\<rparr> = t\<lparr>fHashTable := (fHashTable t)[?i := fHashTable t ! ?i], fNumEntries := fNumEntries t - 1\<rparr>"
      by (rule HashTable.equality) simp_all
    then have r: "Remove_h hash s e = Some (nxt', ?t)"
      unfolding Remove_h_def s Let_def prod.case b(1) bind.bind_lunit rl nxt'_def p'_def
      by (cases "us = []") simp_all
    have rep': "table_rep hash (nxt', ?t) (bs[?i := us @ vs])"
    proof (rule table_rep_update [OF rep b(2) ch])
      show "distinct (us @ vs)" using dist by simp
      show "\<forall>x \<in> set (us @ vs). ComputeIndex t (hash x) = ?i" using rep b(2) uv(1) by (auto simp: table_rep_def)
      have "length (bs ! ?i) \<le> fNumEntries t"
        using rep b(2) length_concat_update [of ?i bs "[]"] by (auto simp: table_rep_def)
      then show "fNumEntries t - 1 + length (bs ! ?i) = fNumEntries t + length (us @ vs)" using uv(1) by simp
      have lk: "\<forall>x. nxt x \<noteq> None \<longrightarrow> (\<exists>j < fSize t. x \<in> set (bs ! j))" using rep by (simp add: table_rep_def)
      show "\<forall>x. nxt' x \<noteq> None \<longrightarrow> x \<in> set (us @ vs) \<or> (\<exists>j < fSize t. j \<noteq> ?i \<and> x \<in> set (bs ! j))"
      proof (intro allI impI)
        fix x assume x: "nxt' x \<noteq> None"
        then have xe: "x \<noteq> e" by (cases "us = []") (auto simp: nxt'_def)
        show "x \<in> set (us @ vs) \<or> (\<exists>j < fSize t. j \<noteq> ?i \<and> x \<in> set (bs ! j))"
        proof (cases "us \<noteq> [] \<and> x = last us")
          case False
          then have "nxt x \<noteq> None" using x xe by (auto simp: nxt'_def split: if_splits)
          then obtain j where j: "j < fSize t" "x \<in> set (bs ! j)" using lk by blast
          then show ?thesis using xe uv(1) by (cases "j = ?i") auto
        qed simp
      qed
      show "\<forall>j < fSize t. j \<noteq> ?i \<longrightarrow> (\<forall>x \<in> set (bs ! j). nxt' x = nxt x)"
      proof (intro allI impI ballI)
        fix j x assume j: "j < fSize t" "j \<noteq> ?i" and x: "x \<in> set (bs ! j)"
        have idx: "\<forall>k < fSize t. \<forall>y \<in> set (bs ! k). ComputeIndex t (hash y) = k" using rep by (auto simp: table_rep_def)
        then have "x \<notin> set (bs ! ?i)" using j x b(2) by metis
        then have "x \<noteq> e" "us \<noteq> [] \<longrightarrow> x \<noteq> last us" using uv(1) by auto
        then show "nxt' x = nxt x" by (auto simp: nxt'_def)
      qed
    qed
    have "members hash (nxt', ?t) = members hash (nxt, t) - {e}"
      unfolding members_update [OF rep rep'] members_eq [OF rep]
      using uv(1) dist by (auto simp: in_concat_bucket [OF rep] simp del: set_concat)
    then show ?thesis using r rep' mem True unfolding table_inv_def by (auto simp: s GetNumEntries_def)
  qed
qed

lemma Map_spec:
  assumes inv: "table_inv hash s" and law: "\<And>e. eq e \<Longrightarrow> hash e = h"
  shows "\<exists>r. Map s h eq = Some r \<and>
    (case r of None \<Rightarrow> \<forall>e \<in> members hash s. \<not> eq e | Some e \<Rightarrow> e \<in> members hash s \<and> eq e)"
proof -
  obtain nxt t where s: "s = (nxt, t)" by (cases s)
  obtain bs where rep: "table_rep hash (nxt, t) bs" using inv by (auto simp: table_inv_def s)
  let ?i = "ComputeIndex t h"
  note b = table_rep_bucket [OF rep refl, of h]
  have r: "Map s h eq = Some (find eq (bs ! ?i))"
    using b(1) map_loop_spec [OF b(3)] by (simp add: Map_def s)
  have mem: "e \<in> members hash s \<longleftrightarrow> e \<in> set (bs ! ComputeIndex t (hash e))" for e
    unfolding s members_eq [OF rep] by (rule in_concat_bucket [OF rep])
  show ?thesis
  proof (cases "find eq (bs ! ?i)")
    case None
    then have "\<not> eq e" if "e \<in> members hash s" for e
      using that law [of e] mem [of e] by (auto simp: find_None_iff)
    with None r show ?thesis by auto
  next
    case (Some e)
    then have "e \<in> set (bs ! ?i)" "eq e" by (auto simp: find_Some_iff)
    with law [of e] mem [of e] Some r show ?thesis by auto
  qed
qed

text \<open>The iterator walks through the chains in bucket order.\<close>

lemma scan_from_spec:
  assumes rep: "table_rep hash (nxt, t) bs" and "i + n = fSize t"
  shows "case scan_from t i n of
     (None, j) \<Rightarrow> concat (drop i bs) = []
   | (Some e, j) \<Rightarrow> i \<le> j \<and> j < fSize t \<and> (\<exists>xs. bs ! j = e # xs) \<and> concat (drop i bs) = concat (drop j bs)"
  using assms(2)
proof (induction n arbitrary: i)
  case 0
  then show ?case using rep by (simp add: table_rep_def)
next
  case (Suc n)
  have i: "i < fSize t" and ch: "chain nxt (fHashTable t ! i) (bs ! i)" and len: "length bs = fSize t"
    using rep Suc.prems by (auto simp: table_rep_def)
  have d: "drop i bs = bs ! i # drop (Suc i) bs" using i len by (simp add: drop_nth_Cons)
  show ?case
  proof (cases "fHashTable t ! i")
    case None
    then have "bs ! i = []" using ch by (cases "bs ! i") auto
    then show ?thesis using None Suc.IH [of "Suc i"] Suc.prems d
      by (auto split: prod.splits option.splits)
  next
    case (Some e)
    then have "\<exists>xs. bs ! i = e # xs" using ch by (cases "bs ! i") auto
    then show ?thesis using Some i by simp
  qed
qed

lemma iter_all_spec:
  assumes rep: "table_rep hash (nxt, t) bs"
  shows "i < fSize t \<Longrightarrow> bs ! i = us @ e # vs \<Longrightarrow> length (vs @ concat (drop (Suc i) bs)) + 1 < fuel \<Longrightarrow>
    iter_all fuel (nxt, t) (Some e, i) = Some (e # vs @ concat (drop (Suc i) bs))"
proof (induction fuel arbitrary: i us e vs)
  case (Suc fuel)
  have len: "length bs = fSize t" and ch: "chain nxt (fHashTable t ! i) (us @ e # vs)"
    using rep Suc.prems by (auto simp: table_rep_def)
  have chv: "chain nxt p (ws @ e # vs) \<Longrightarrow> chain nxt (nxt e) vs" for p ws
    by (induction ws arbitrary: p) auto
  show ?case
  proof (cases vs)
    case (Cons v ws)
    with chv [OF ch] have "nxt e = Some v" by simp
    moreover have "iter_all fuel (nxt, t) (Some v, i) = Some (v # ws @ concat (drop (Suc i) bs))"
      using Suc.prems Cons by (intro Suc.IH [of i "us @ [e]"]) auto
    ultimately show ?thesis using Cons by (simp add: HashTableIter_Next_def)
  next
    case Nil
    with chv [OF ch] have n: "nxt e = None" by simp
    let ?it = "scan_from t (i + 1) (fSize t - (i + 1))"
    note sc = scan_from_spec [OF rep, of "i + 1" "fSize t - (i + 1)"]
    have "iter_all fuel (nxt, t) ?it = Some (concat (drop (Suc i) bs))"
    proof (cases "fst ?it")
      case None
      then show ?thesis using sc Suc.prems by (cases fuel) (auto split: prod.splits)
    next
      case (Some e')
      define j where "j = snd ?it"
      have it: "?it = (Some e', j)" using Some by (simp add: j_def prod_eq_iff)
      with sc Suc.prems obtain xs where j: "j < fSize t" "bs ! j = [] @ e' # xs" "concat (drop (Suc i) bs) = concat (drop j bs)"
        by auto
      have "drop j bs = bs ! j # drop (Suc j) bs" using j(1) len by (simp add: drop_nth_Cons)
      then have c: "concat (drop (Suc i) bs) = e' # xs @ concat (drop (Suc j) bs)" using j by simp
      have "iter_all fuel (nxt, t) (Some e', j) = Some (e' # xs @ concat (drop (Suc j) bs))"
        using Suc.prems c by (intro Suc.IH [OF j(1,2)]) (simp add: Nil)
      then show ?thesis unfolding it c .
    qed
    then show ?thesis using Nil n by (simp add: HashTableIter_Next_def)
  qed
qed simp

lemma distinct_concat_buckets:
  assumes "\<forall>i < length bs. distinct (bs ! i) \<and> (\<forall>e \<in> set (bs ! i). f e = i)"
  shows "distinct (concat bs)"
proof -
  have "distinct (concat bs) \<and> (\<forall>e \<in> set (concat bs). k \<le> f e)"
    if "\<forall>i < length bs. distinct (bs ! i) \<and> (\<forall>e \<in> set (bs ! i). f e = k + i)" for k
    using that
  proof (induction bs arbitrary: k)
    case (Cons b bs)
    have "\<forall>i < length bs. distinct (bs ! i) \<and> (\<forall>e \<in> set (bs ! i). f e = Suc k + i)"
      using Cons.prems by (auto simp: nth_Cons' dest: spec [of _ "Suc _"])
    from Cons.IH [OF this] have "distinct (concat bs)" "\<forall>e \<in> set (concat bs). Suc k \<le> f e" by auto
    moreover have "distinct b" "\<forall>e \<in> set b. f e = k" using Cons.prems by (auto dest: spec [of _ 0])
    ultimately show ?case by fastforce
  qed simp
  from this [of 0] assms show ?thesis by simp
qed

section \<open>The dictionary interface\<close>

text \<open>
  What the reference table relies on: a set of entries with keys, of which a lookup finds
  one with the wanted key whenever there is one.
\<close>

locale keyed_table =
  fixes invar :: "'s \<Rightarrow> bool"
    and elems :: "'s \<Rightarrow> 'e set"
    and keyof :: "'e \<Rightarrow> 'k"
    and add :: "'s \<Rightarrow> 'e \<Rightarrow> 's option"
    and rem :: "'s \<Rightarrow> 'e \<Rightarrow> 's option"
    and lookup :: "'s \<Rightarrow> 'k \<Rightarrow> 'e option option"
  assumes add_law: "invar s \<Longrightarrow> e \<notin> elems s \<Longrightarrow> \<exists>s'. add s e = Some s' \<and> invar s' \<and> elems s' = insert e (elems s)"
    and rem_law: "invar s \<Longrightarrow> \<exists>s'. rem s e = Some s' \<and> invar s' \<and> elems s' = elems s - {e}"
    and lookup_law: "invar s \<Longrightarrow> \<exists>r. lookup s k = Some r \<and>
      (case r of None \<Rightarrow> \<forall>e \<in> elems s. keyof e \<noteq> k | Some e \<Rightarrow> e \<in> elems s \<and> keyof e = k)"
begin

lemma lookup_iff:
  assumes "invar s" "inj_on keyof (elems s)"
  shows "lookup s k = Some (Some e) \<longleftrightarrow> e \<in> elems s \<and> keyof e = k"
    and "lookup s k = Some None \<longleftrightarrow> (\<forall>e \<in> elems s. keyof e \<noteq> k)"
proof -
  obtain r where r: "lookup s k = Some r"
      "case r of None \<Rightarrow> \<forall>e \<in> elems s. keyof e \<noteq> k | Some e \<Rightarrow> e \<in> elems s \<and> keyof e = k"
    using lookup_law [OF assms(1), of k] by blast
  show "lookup s k = Some (Some e) \<longleftrightarrow> e \<in> elems s \<and> keyof e = k"
    using r assms(2) by (cases r) (auto simp: inj_on_def)
  show "lookup s k = Some None \<longleftrightarrow> (\<forall>e \<in> elems s. keyof e \<noteq> k)"
    using r by (cases r) auto
qed

lemma add_lookup:
  assumes "invar s" "inj_on keyof (elems s)" "lookup s (keyof e) = Some None" "add s e = Some s'"
  shows "invar s' \<and> inj_on keyof (elems s') \<and> (\<forall>k. lookup s' k = (if k = keyof e then Some (Some e) else lookup s k))"
proof -
  have new: "\<forall>x \<in> elems s. keyof x \<noteq> keyof e" using lookup_iff(2) [OF assms(1,2)] assms(3) by blast
  then have e: "e \<notin> elems s" by auto
  from add_law [OF assms(1) e] assms(4) have s': "invar s'" "elems s' = insert e (elems s)" by auto
  have u: "inj_on keyof (elems s')" using assms(2) new s'(2) by (auto simp: inj_on_def)
  moreover have "lookup s' k = (if k = keyof e then Some (Some e) else lookup s k)" for k
  proof (cases "lookup s k")
    case None
    then show ?thesis using lookup_law [OF assms(1), of k] by auto
  next
    case (Some r)
    show ?thesis
    proof (cases "k = keyof e")
      case True
      then show ?thesis using lookup_iff(1) [OF s'(1) u, of k e] s'(2) by simp
    next
      case False
      then show ?thesis
      proof (cases r)
        case None
        with Some False show ?thesis
          using lookup_iff(2) [OF assms(1,2), of k] lookup_iff(2) [OF s'(1) u, of k] s'(2) by auto
      next
        case r: (Some x)
        with Some False show ?thesis
          using lookup_iff(1) [OF assms(1,2), of k x] lookup_iff(1) [OF s'(1) u, of k x] s'(2) by auto
      qed
    qed
  qed
  ultimately show ?thesis using s' by blast
qed

lemma rem_lookup:
  assumes "invar s" "inj_on keyof (elems s)" "rem s e = Some s'"
  shows "invar s' \<and> inj_on keyof (elems s') \<and>
    (\<forall>k. lookup s' k = (if lookup s k = Some (Some e) then Some None else lookup s k))"
proof -
  from rem_law [OF assms(1), of e] assms(3) have s': "invar s'" "elems s' = elems s - {e}" by auto
  have u: "inj_on keyof (elems s')" using assms(2) s'(2) by (auto simp: inj_on_def)
  moreover have "lookup s' k = (if lookup s k = Some (Some e) then Some None else lookup s k)" for k
  proof -
    obtain r where r: "lookup s k = Some r" using lookup_law [OF assms(1), of k] by blast
    show ?thesis
    proof (cases r)
      case None
      with r show ?thesis
        using lookup_iff(2) [OF assms(1,2), of k] lookup_iff(2) [OF s'(1) u, of k] s'(2) by auto
    next
      case (Some x)
      then have x: "x \<in> elems s" "keyof x = k" using r lookup_iff(1) [OF assms(1,2), of k x] by auto
      show ?thesis
      proof (cases "x = e")
        case True
        have "\<forall>y \<in> elems s'. keyof y \<noteq> k" using x True s'(2) assms(2) by (auto simp: inj_on_def)
        then show ?thesis using lookup_iff(2) [OF s'(1) u, of k] r Some True by simp
      next
        case False
        then show ?thesis using lookup_iff(1) [OF s'(1) u, of k x] s'(2) x r Some by simp
      qed
    qed
  qed
  ultimately show ?thesis using s' by blast
qed

end

text \<open>
  The table with a key function: the hash value of an entry is the hash value of its key.
\<close>

definition Map_key :: "(entry \<Rightarrow> 'k) \<Rightarrow> ('k \<Rightarrow> nat) \<Rightarrow> links \<times> HashTable \<Rightarrow> 'k \<Rightarrow> entry option option" where
  "Map_key keyof hashk s k = Map s (hashk k) (\<lambda>e. keyof e = k)"

interpretation hash_table: keyed_table "table_inv (\<lambda>e. hashk (keyof e))" "members (\<lambda>e. hashk (keyof e))" keyof
    "Add (\<lambda>e. hashk (keyof e))" "Remove_h (\<lambda>e. hashk (keyof e))" "Map_key keyof hashk"
  for keyof :: "entry \<Rightarrow> 'k" and hashk :: "'k \<Rightarrow> nat"
proof (unfold_locales, goal_cases)
  case (1 s e)
  then show ?case using Add_spec [of "\<lambda>e. hashk (keyof e)" s e] by blast
next
  case (2 s e)
  then show ?case using Remove_h_spec [of "\<lambda>e. hashk (keyof e)" s e] by blast
next
  case (3 s k)
  then show ?case using Map_spec [of "\<lambda>e. hashk (keyof e)" s "\<lambda>e. keyof e = k" "hashk k"]
    by (auto simp: Map_key_def)
qed

section \<open>Properties\<close>

text \<open>For every table size the mask shortcut of \<^verbatim>\<open>ComputeIndex\<close> agrees with the
  remainder: a constructed table maps a hash value to its remainder modulo the size, which
  is an index of the bucket array.\<close>

theorem ComputeIndex_spec:
  assumes "0 < n" "n < 2 ^ 32"
  shows "ComputeIndex (HashTable_new n) h = h mod n \<and> ComputeIndex (HashTable_new n) h < length (fHashTable (HashTable_new n))"
  using ComputeIndex_new [OF assms] assms(1) by (simp add: HashTable_new_def Let_def)

theorem ComputeIndex_spec_witness:
  "ComputeIndex (HashTable_new 8) 29 = 5 \<and> ComputeIndex (HashTable_new 6) 29 = 5"
  using ComputeIndex_spec [of 8 29] ComputeIndex_spec [of 6 29] by simp

text \<open>A \<^verbatim>\<open>HashTableIter\<close> visits every entry of the table exactly once and
  then is done: the loop ends after one step per entry.\<close>

theorem HashTableIter_visits_all:
  assumes "table_rep hash s bs"
  shows "iter_all (GetNumEntries s + 2) s (HashTableIter_First s) = Some (concat bs) \<and>
    distinct (concat bs) \<and> set (concat bs) = members hash s"
proof -
  obtain nxt t where s: "s = (nxt, t)" by (cases s)
  note rep = assms [unfolded s]
  have len: "GetNumEntries s = length (concat bs)" "length bs = fSize t" using rep by (auto simp: s GetNumEntries_def table_rep_def)
  note sc = scan_from_spec [OF rep, of 0 "fSize t"]
  have "iter_all (GetNumEntries s + 2) s (HashTableIter_First s) = Some (concat bs)"
  proof (cases "fst (HashTableIter_First s)")
    case None
    then show ?thesis using sc by (auto simp: HashTableIter_First_def s split: prod.splits)
  next
    case (Some e)
    define j where "j = snd (scan_from t 0 (fSize t))"
    have it: "scan_from t 0 (fSize t) = (Some e, j)" using Some by (simp add: j_def HashTableIter_First_def s prod_eq_iff)
    with sc obtain xs where j: "j < fSize t" "bs ! j = [] @ e # xs" "concat bs = concat (drop j bs)" by auto
    have "drop j bs = bs ! j # drop (Suc j) bs" using j(1) len by (simp add: drop_nth_Cons)
    then have c: "concat bs = e # xs @ concat (drop (Suc j) bs)" using j by simp
    show ?thesis unfolding HashTableIter_First_def s snd_conv it
      by (subst iter_all_spec [OF rep j(1,2)]) (use len(1) c in \<open>auto simp: s\<close>)
  qed
  moreover have "distinct (concat bs)"
  proof -
    have "\<forall>i < length bs. distinct (bs ! i) \<and> (\<forall>e \<in> set (bs ! i). ComputeIndex t (hash e) = i)"
      using rep by (auto simp: table_rep_def)
    then show ?thesis by (rule distinct_concat_buckets)
  qed
  ultimately show ?thesis by (simp only: members_eq [OF assms] simp_thms)
qed

theorem HashTableIter_visits_all_witness:
  "iter_all 2 (\<lambda>_. None, HashTable_new 4) (HashTableIter_First (\<lambda>_. None, HashTable_new 4)) = Some []"
proof -
  have n: "GetNumEntries (\<lambda>_. None, HashTable_new 4) = 0" by (simp add: GetNumEntries_def HashTable_new_def Let_def)
  have c: "concat (replicate 4 []) = ([] :: entry list)" by simp
  have rep: "table_rep (\<lambda>e. e) (\<lambda>_. None, HashTable_new 4) (replicate 4 [])" by (rule table_rep_new) simp_all
  show ?thesis using HashTableIter_visits_all [OF rep] unfolding n c by (simp only: add_0)
qed

end
