(* ===== verification/CF_Ref.thy ===== *)
theory CF_Ref
  imports CF_HashTable CF_StrPtrLen CF_Def
begin

text \<open>
  The reference table of \<^verbatim>\<open>src/CFCore/Ref.cpp\<close> and
  \<^verbatim>\<open>src/CFCore/include/CF/Ref.h\<close>: reference-counted objects registered under a
  string. The mutex of the table makes each operation atomic. \<^verbatim>\<open>UnRegister\<close> waits
  until enough references are released; the model returns \<open>Blocked\<close> while it waits.
  The assertions of the operations are part of the model: \<^term>\<open>None\<close> is a failed one.
  References are addressed by natural numbers; their \<^verbatim>\<open>fNextHashEntry\<close> fields are
  the links of the hash table.
\<close>

section \<open>State\<close>

record Ref =
  fObjectP :: nat
  fString :: StrPtrLen
  fRefCount :: UInt32
  fHashValue :: nat

record RefTable =
  refs :: "entry \<Rightarrow> Ref"
  fTable :: "links \<times> HashTable"

datatype OS_Error = OS_NoErr | EPERM

datatype 'a outcome = Done 'a | Blocked

section \<open>Operations\<close>

definition HashString :: "StrPtrLen \<Rightarrow> nat option" where
  "HashString inString = do {
     Assert (Ptr inString \<noteq> None);
     Assert (Len inString > 0);
     (if Len inString = 0 \<or> Ptr inString = None then Some 0
      else
        (let quarterLen = Len inString div 4
         in do {
              c0 \<leftarrow> rdp (Ptr inString) 0;
              c1 \<leftarrow> rdp (Ptr inString) quarterLen;
              c2 \<leftarrow> rdp (Ptr inString) (quarterLen * 2);
              c3 \<leftarrow> rdp (Ptr inString) (quarterLen * 3);
              c4 \<leftarrow> rdp (Ptr inString) (Len inString - 1);
              Some (u32 (Len inString * (byte c0 + byte c1 + byte c2 + byte c3 + byte c4)))
            }))
   }"

definition Ref_new :: "StrPtrLen \<Rightarrow> nat \<Rightarrow> Ref option" where
  "Ref_new inString inObjectP =
     do { h \<leftarrow> HashString inString;
          Some \<lparr>fObjectP = inObjectP, fString = inString, fRefCount = 0, fHashValue = h\<rparr> }"

definition RefTable_new :: "(entry \<Rightarrow> Ref) \<Rightarrow> nat \<Rightarrow> RefTable" where
  "RefTable_new rs tableSize = \<lparr>refs = rs, fTable = (\<lambda>_. None, HashTable_new tableSize)\<rparr>"

definition hash_of :: "RefTable \<Rightarrow> entry \<Rightarrow> nat" where
  "hash_of st e = fHashValue (refs st e)"

definition key_eq :: "RefTable \<Rightarrow> StrPtrLen \<Rightarrow> entry \<Rightarrow> bool" where
  "key_eq st key e \<longleftrightarrow> Equal (fString (refs st e)) key = Some True"

definition table_map :: "RefTable \<Rightarrow> StrPtrLen \<Rightarrow> entry option option" where
  "table_map st key = do { h \<leftarrow> HashString key; Map (fTable st) h (key_eq st key) }"

definition Register :: "RefTable \<Rightarrow> entry option \<Rightarrow> (OS_Error \<times> RefTable) option" where
  "Register st inRef = do {
     Assert (inRef \<noteq> None);
     (case inRef of
        None \<Rightarrow> Some (EPERM, st)
      | Some r \<Rightarrow> do {
          Assert (fRefCount (refs st r) = 0);
          Assert (Ptr (fString (refs st r)) \<noteq> None);
          Assert (Len (fString (refs st r)) \<noteq> 0);
          if Ptr (fString (refs st r)) = None \<or> Len (fString (refs st r)) = 0 then Some (EPERM, st)
          else do {
            duplicateRef \<leftarrow> table_map st (fString (refs st r));
            if duplicateRef \<noteq> None then Some (EPERM, st)
            else do { t \<leftarrow> Add (hash_of st) (fTable st) r; Some (OS_NoErr, st\<lparr>fTable := t\<rparr>) }
          }
        })
   }"

definition Resolve :: "RefTable \<Rightarrow> StrPtrLen \<Rightarrow> (entry option \<times> RefTable) option" where
  "Resolve st inUniqueID = do {
     ref \<leftarrow> table_map st inUniqueID;
     (case ref of
        None \<Rightarrow> Some (None, st)
      | Some r \<Rightarrow> do {
          let st' = st\<lparr>refs := (refs st)(r := (refs st r)\<lparr>fRefCount := fRefCount (refs st r) + 1\<rparr>)\<rparr>;
          Assert (fRefCount (refs st' r) > 0);
          Some (Some r, st')
        })
   }"

definition RegisterOrResolve :: "RefTable \<Rightarrow> entry \<Rightarrow> (entry option \<times> RefTable) option" where
  "RegisterOrResolve st inRef = do {
     Assert (fRefCount (refs st inRef) = 0);
     (duplicateRef, st1) \<leftarrow> Resolve st (fString (refs st inRef));
     if duplicateRef \<noteq> None then Some (duplicateRef, st1)
     else do { t \<leftarrow> Add (hash_of st1) (fTable st1) inRef; Some (None, st1\<lparr>fTable := t\<rparr>) }
   }"

definition UnRegister :: "RefTable \<Rightarrow> entry \<Rightarrow> UInt32 \<Rightarrow> RefTable outcome option" where
  "UnRegister st ref refCount =
     (if fRefCount (refs st ref) > refCount then Some Blocked
      else do { t \<leftarrow> Remove_h (hash_of st) (fTable st) ref; Some (Done (st\<lparr>fTable := t\<rparr>)) })"

definition TryUnRegister :: "RefTable \<Rightarrow> entry \<Rightarrow> UInt32 \<Rightarrow> (bool \<times> RefTable) outcome option" where
  "TryUnRegister st ref refCount =
     (if fRefCount (refs st ref) > refCount then Some (Done (False, st))
      else do {
        r \<leftarrow> UnRegister st ref refCount;
        Some (case r of Done st' \<Rightarrow> Done (True, st') | Blocked \<Rightarrow> Blocked)
      })"

definition Release :: "RefTable \<Rightarrow> entry \<Rightarrow> RefTable option" where
  "Release st ref = do {
     let st' = st\<lparr>refs := (refs st)(ref := (refs st ref)\<lparr>fRefCount := fRefCount (refs st ref) - 1\<rparr>)\<rparr>;
     Assert (fRefCount (refs st' ref) < 1048576);
     Some st'
   }"

definition Swap :: "RefTable \<Rightarrow> entry \<Rightarrow> RefTable option" where
  "Swap st newRef =
     do {
       oldRef \<leftarrow> table_map st (fString (refs st newRef));
       case oldRef of
         None \<Rightarrow> None
       | Some r \<Rightarrow>
           do {
             t1 \<leftarrow> Remove_h (hash_of st) (fTable st) r;
             t2 \<leftarrow> Add (hash_of st) t1 newRef;
             Some (st\<lparr>fTable := t2\<rparr>)
           }
     }"

definition GetNumRefsInTable :: "RefTable \<Rightarrow> nat option" where
  "GetNumRefsInTable st = do {
     Assert (GetNumEntries (fTable st) < 2 ^ 32 - 1);
     Some (u32 (GetNumEntries (fTable st)))
   }"

section \<open>Abstract view\<close>

definition hash_str :: "string \<Rightarrow> nat" where
  "hash_str s =
     (if s = [] then 0
      else u32 (length s * (byte (s ! 0) + byte (s ! (length s div 4)) + byte (s ! (length s div 4 * 2)) +
                            byte (s ! (length s div 4 * 3)) + byte (s ! (length s - 1)))))"

lemma HashString_valid:
  assumes "valid s" "Ptr s \<noteq> None" "Len s > 0"
  shows "HashString s = Some (hash_str (str s))"
proof -
  obtain m where Some: "Ptr s = Some m" using assms(2) by blast
  have le: "Len s \<le> length m" using assms Some by (simp add: valid_def)
  have q: "Len s div 4 < Len s" "Len s div 4 * 2 < Len s" "Len s div 4 * 3 < Len s" "0 < Len s" "Len s - 1 < Len s"
    using assms(3) by auto
  then have "i < Len s \<Longrightarrow> rd m i = Some (take (Len s) m ! i)" for i using le by simp
  note r = this [OF q(1)] this [OF q(2)] this [OF q(3)] this [OF q(4)] this [OF q(5)]
  have "length (take (Len s) m) = Len s" "m \<noteq> []" using le assms(3) by auto
  then show ?thesis using assms(3) Some r
    by (simp add: HashString_def hash_str_def str_def rdp_def Let_def)
qed

definition refkey :: "RefTable \<Rightarrow> entry \<Rightarrow> string" where
  "refkey st e = str (fString (refs st e))"

abbreviation registered :: "RefTable \<Rightarrow> entry set" where
  "registered st \<equiv> members (\<lambda>e. hash_str (refkey st e)) (fTable st)"

text \<open>
  The invariant: all reference objects were set up with \<^verbatim>\<open>Ref::Set\<close> on a valid
  string, and the registered ones have different, non-empty strings.
\<close>

definition ref_inv :: "RefTable \<Rightarrow> bool" where
  "ref_inv st \<longleftrightarrow>
     (\<forall>e. valid (fString (refs st e)) \<and> fHashValue (refs st e) = hash_str (refkey st e)) \<and>
     table_inv (\<lambda>e. hash_str (refkey st e)) (fTable st) \<and>
     (\<forall>e \<in> registered st. Ptr (fString (refs st e)) \<noteq> None \<and> Len (fString (refs st e)) > 0) \<and>
     inj_on (refkey st) (registered st)"

text \<open>The dictionary a table represents.\<close>

definition dict :: "RefTable \<Rightarrow> string \<Rightarrow> entry option" where
  "dict st k = (case Map_key (refkey st) hash_str (fTable st) k of Some r \<Rightarrow> r | None \<Rightarrow> None)"

lemma hash_of_eq: "ref_inv st \<Longrightarrow> hash_of st = (\<lambda>e. hash_str (refkey st e))"
  by (auto simp: ref_inv_def hash_of_def)

lemma Map_cong:
  assumes "table_inv hash s" "\<And>e. e \<in> members hash s \<Longrightarrow> eq e = eq' e"
  shows "Map s h eq = Map s h eq'"
proof -
  obtain nxt t where s: "s = (nxt, t)" by (cases s)
  obtain bs where rep: "table_rep hash (nxt, t) bs" using assms(1) by (auto simp: table_inv_def s)
  note b = table_rep_bucket [OF rep refl, of h]
  have "ComputeIndex t h < length bs" using rep by (auto simp: table_rep_def)
  then have "e \<in> members hash s" if "e \<in> set (bs ! ComputeIndex t h)" for e
    using that unfolding s members_eq [OF rep] by auto
  with assms(2) have "find eq (bs ! ComputeIndex t h) = find eq' (bs ! ComputeIndex t h)"
    by (intro find_cong) auto
  then show ?thesis using b(1) map_loop_spec [OF b(3)] by (simp add: Map_def s)
qed

lemma table_map_eq:
  assumes inv: "ref_inv st" and k: "valid key" "Ptr key \<noteq> None" "Len key > 0"
  shows "table_map st key = Some (dict st (str key))"
proof -
  have "Map (fTable st) (hash_str (str key)) (key_eq st key)
      = Map (fTable st) (hash_str (str key)) (\<lambda>e. refkey st e = str key)"
  proof (rule Map_cong)
    show "table_inv (\<lambda>e. hash_str (refkey st e)) (fTable st)" using inv by (simp add: ref_inv_def)
    show "key_eq st key e = (refkey st e = str key)" if "e \<in> registered st" for e
      using that inv k Equal_valid [of "fString (refs st e)" key] by (auto simp: key_eq_def refkey_def ref_inv_def)
  qed
  moreover obtain r where "Map_key (refkey st) hash_str (fTable st) (str key) = Some r"
    using hash_table.lookup_law [of hash_str "refkey st" "fTable st" "str key"] inv by (auto simp: ref_inv_def)
  ultimately show ?thesis using HashString_valid [OF k]
    by (simp add: table_map_def dict_def Map_key_def)
qed

lemma dict_iff:
  assumes "ref_inv st"
  shows "dict st k = Some e \<longleftrightarrow> e \<in> registered st \<and> refkey st e = k"
    and "dict st k = None \<longleftrightarrow> (\<forall>e \<in> registered st. refkey st e \<noteq> k)"
proof -
  have t: "table_inv (\<lambda>e. hash_str (refkey st e)) (fTable st)" using assms by (simp add: ref_inv_def)
  have u: "inj_on (refkey st) (registered st)" using assms by (simp add: ref_inv_def)
  note l = hash_table.lookup_iff [where keyof = "refkey st" and hashk = hash_str, OF t u, of k]
  obtain r where "Map_key (refkey st) hash_str (fTable st) k = Some r"
    using hash_table.lookup_law [where keyof = "refkey st" and hashk = hash_str, OF t, of k] by blast
  then show "dict st k = Some e \<longleftrightarrow> e \<in> registered st \<and> refkey st e = k"
    "dict st k = None \<longleftrightarrow> (\<forall>e \<in> registered st. refkey st e \<noteq> k)"
    using l by (auto simp: dict_def)
qed

lemma add_ref:
  assumes inv: "ref_inv st" and new: "dict st (refkey st r) = None" and p: "Ptr (fString (refs st r)) \<noteq> None" "Len (fString (refs st r)) > 0"
  shows "\<exists>t. Add (hash_of st) (fTable st) r = Some t \<and> ref_inv (st\<lparr>fTable := t\<rparr>) \<and>
    registered (st\<lparr>fTable := t\<rparr>) = insert r (registered st) \<and> dict (st\<lparr>fTable := t\<rparr>) = (dict st)(refkey st r \<mapsto> r)"
proof -
  have ti: "table_inv (\<lambda>e. hash_str (refkey st e)) (fTable st)" using inv by (simp add: ref_inv_def)
  have rk: "refkey (st\<lparr>fTable := t\<rparr>) = refkey st" for t by (auto simp: refkey_def)
  have nm: "r \<notin> registered st" using new dict_iff(2) [OF inv] by blast
  obtain t where t: "Add (hash_of st) (fTable st) r = Some t"
      "table_inv (\<lambda>e. hash_str (refkey st e)) t" "members (\<lambda>e. hash_str (refkey st e)) t = insert r (registered st)"
    using hash_table.add_law [where keyof = "refkey st" and hashk = hash_str, OF ti nm] hash_of_eq [OF inv] by auto
  have i': "ref_inv (st\<lparr>fTable := t\<rparr>)"
    using inv t(2,3) p new dict_iff(2) [OF inv, of "refkey st r"]
    unfolding ref_inv_def rk by (auto simp: inj_on_def)
  have reg: "registered (st\<lparr>fTable := t\<rparr>) = insert r (registered st)" using t(3) by (simp add: rk)
  have "dict (st\<lparr>fTable := t\<rparr>) k = ((dict st)(refkey st r \<mapsto> r)) k" for k
  proof (cases "dict st k")
    case None
    then show ?thesis using dict_iff [OF i', of k] dict_iff(2) [OF inv, of k] reg nm new
      by (auto simp: rk)
  next
    case (Some e)
    then show ?thesis using dict_iff(1) [OF i', of k e] dict_iff(1) [OF inv, of k e] reg new by (auto simp: rk)
  qed
  with t(1) i' reg show ?thesis by blast
qed

lemma remove_ref:
  assumes inv: "ref_inv st"
  shows "\<exists>t. Remove_h (hash_of st) (fTable st) r = Some t \<and> ref_inv (st\<lparr>fTable := t\<rparr>) \<and>
    registered (st\<lparr>fTable := t\<rparr>) = registered st - {r} \<and>
    dict (st\<lparr>fTable := t\<rparr>) = (\<lambda>k. if dict st k = Some r then None else dict st k)"
proof -
  have ti: "table_inv (\<lambda>e. hash_str (refkey st e)) (fTable st)" using inv by (simp add: ref_inv_def)
  have rk: "refkey (st\<lparr>fTable := t\<rparr>) = refkey st" for t by (auto simp: refkey_def)
  obtain t where t: "Remove_h (hash_of st) (fTable st) r = Some t"
      "table_inv (\<lambda>e. hash_str (refkey st e)) t" "members (\<lambda>e. hash_str (refkey st e)) t = registered st - {r}"
    using hash_table.rem_law [where keyof = "refkey st" and hashk = hash_str, OF ti, of r] hash_of_eq [OF inv] by auto
  have i': "ref_inv (st\<lparr>fTable := t\<rparr>)"
    using inv t(2,3) unfolding ref_inv_def rk by (auto simp: inj_on_def)
  have reg: "registered (st\<lparr>fTable := t\<rparr>) = registered st - {r}" using t(3) by (simp add: rk)
  have "dict (st\<lparr>fTable := t\<rparr>) k = (if dict st k = Some r then None else dict st k)" for k
  proof (cases "dict st k")
    case None
    then show ?thesis using dict_iff(2) [OF i', of k] dict_iff(2) [OF inv, of k] reg by (auto simp: rk)
  next
    case (Some e)
    then show ?thesis
      using dict_iff [OF i', of k] dict_iff(1) [OF inv, of k e] reg inv
      by (auto simp: rk ref_inv_def inj_on_def)
  qed
  with t(1) i' reg show ?thesis by blast
qed

text \<open>Reference counts do not matter for the dictionary.\<close>

definition set_count :: "RefTable \<Rightarrow> entry \<Rightarrow> UInt32 \<Rightarrow> RefTable" where
  "set_count st r n = st\<lparr>refs := (refs st)(r := (refs st r)\<lparr>fRefCount := n\<rparr>)\<rparr>"

lemma set_count_simps [simp]:
  "refkey (set_count st r n) = refkey st" "fTable (set_count st r n) = fTable st"
  "fString (refs (set_count st r n) e) = fString (refs st e)"
  "fHashValue (refs (set_count st r n) e) = fHashValue (refs st e)"
  "fRefCount (refs (set_count st r n) e) = (if e = r then n else fRefCount (refs st e))"
  by (auto simp: set_count_def refkey_def)

lemma set_count_inv [simp]: "ref_inv (set_count st r n) = ref_inv st" "dict (set_count st r n) = dict st"
  by (auto simp: ref_inv_def dict_def)

lemma Resolve_eq:
  assumes "ref_inv st" "valid key" "Ptr key \<noteq> None" "Len key > 0"
  shows "Resolve st key =
    (case dict st (str key) of
       None \<Rightarrow> Some (None, st)
     | Some r \<Rightarrow> if fRefCount (refs st r) + 1 = 0 then None else Some (Some r, set_count st r (fRefCount (refs st r) + 1)))"
proof (cases "dict st (str key)")
  case (Some r)
  have "fRefCount (refs st r) + 1 > 0 \<longleftrightarrow> fRefCount (refs st r) + 1 \<noteq> 0" by (simp add: word_gt_0)
  then show ?thesis using table_map_eq [OF assms] Some by (simp add: Resolve_def set_count_def Let_def Assert_def)
qed (use table_map_eq [OF assms] in \<open>simp add: Resolve_def\<close>)

lemma Resolve_asserts:
  assumes "Resolve st key = Some x"
  shows "Ptr key \<noteq> None" "Len key > 0"
  using assms by (auto simp: Resolve_def table_map_def HashString_def Assert_def split: bind_splits if_splits)

lemma Release_eq: "Release st r = (if fRefCount (refs st r) - 1 < 1048576 then Some (set_count st r (fRefCount (refs st r) - 1)) else None)"
  by (simp add: Release_def set_count_def Let_def Assert_def)

section \<open>Concurrent use\<close>

text \<open>
  The operations as atomic steps of clients, with two ghost counters per object: \<open>held\<close> is the
  number of references it has handed out and not yet had released, \<open>allowed\<close> the number of
  references with which it was allowed to leave the table when it last did, the level of the
  call that unregistered it (0 while it is registered); \<^verbatim>\<open>Swap\<close> takes the old object out whatever is
  held. A client releases only what it resolved.
\<close>

type_synonym ref_state = "RefTable \<times> (entry \<Rightarrow> nat) \<times> (entry \<Rightarrow> nat)"

inductive ref_step :: "ref_state \<Rightarrow> ref_state \<Rightarrow> bool" where
  register: "Register st (Some r) = Some (e, st') \<Longrightarrow>
    ref_step (st, held, allowed) (st', held, if e = OS_NoErr then allowed(r := 0) else allowed)"
| register_new: "RegisterOrResolve st r = Some (None, st') \<Longrightarrow> ref_step (st, held, allowed) (st', held, allowed(r := 0))"
| register_dup: "RegisterOrResolve st r = Some (Some d, st') \<Longrightarrow> ref_step (st, held, allowed) (st', held(d := held d + 1), allowed)"
| resolve: "valid key \<Longrightarrow> Resolve st key = Some (Some r, st') \<Longrightarrow> ref_step (st, held, allowed) (st', held(r := held r + 1), allowed)"
| release: "0 < held r \<Longrightarrow> Release st r = Some st' \<Longrightarrow> ref_step (st, held, allowed) (st', held(r := held r - 1), allowed)"
| unregister: "UnRegister st r n = Some (Done st') \<Longrightarrow> ref_step (st, held, allowed) (st', held, allowed(r := unat n))"
| try_unregister: "TryUnRegister st r n = Some (Done (b, st')) \<Longrightarrow>
    ref_step (st, held, allowed) (st', held, if b then allowed(r := unat n) else allowed)"
| swap: "table_map st (fString (refs st r)) = Some (Some d) \<Longrightarrow> Swap st r = Some st' \<Longrightarrow>
    ref_step (st, held, allowed) (st', held, (allowed(d := held d))(r := 0))"

definition held_inv :: "ref_state \<Rightarrow> bool" where
  "held_inv s = (case s of (st, held, allowed) \<Rightarrow> ref_inv st \<and>
     (\<forall>e. fRefCount (refs st e) = of_nat (held e) \<and> held e < 2 ^ 32 \<and> (allowed e < held e \<longrightarrow> e \<in> registered st)))"

lemma Register_asserts:
  assumes "Register st (Some r) = Some x"
  shows "fRefCount (refs st r) = 0" "Ptr (fString (refs st r)) \<noteq> None" "Len (fString (refs st r)) > 0"
  using assms by (auto simp: Register_def Assert_def split: bind_splits if_splits)

lemma Register_cases:
  assumes inv: "ref_inv st" and c: "fRefCount (refs st r) = 0" and p: "Ptr (fString (refs st r)) \<noteq> None" "Len (fString (refs st r)) > 0"
  shows "\<exists>e st'. Register st (Some r) = Some (e, st') \<and>
    (if dict st (refkey st r) \<noteq> None then e = EPERM \<and> st' = st
     else e = OS_NoErr \<and> ref_inv st' \<and> refs st' = refs st \<and> registered st' = insert r (registered st) \<and>
          dict st' = (dict st)(refkey st r \<mapsto> r))"
proof -
  have v: "valid (fString (refs st r))" using inv by (simp add: ref_inv_def)
  have m: "table_map st (fString (refs st r)) = Some (dict st (refkey st r))"
    using table_map_eq [OF inv v p] by (simp add: refkey_def)
  show ?thesis
  proof (cases "dict st (refkey st r)")
    case None
    then obtain t where "Add (hash_of st) (fTable st) r = Some t" "ref_inv (st\<lparr>fTable := t\<rparr>)"
        "registered (st\<lparr>fTable := t\<rparr>) = insert r (registered st)" "dict (st\<lparr>fTable := t\<rparr>) = (dict st)(refkey st r \<mapsto> r)"
      using add_ref [OF inv None p] by (metis (no_types, lifting))
    with c p m None show ?thesis by (auto simp: Register_def)
  next
    case (Some d)
    with c p m show ?thesis by (auto simp: Register_def)
  qed
qed

lemma UnRegister_cases:
  assumes inv: "ref_inv st"
  shows "\<exists>st'. UnRegister st r n = Some (if fRefCount (refs st r) > n then Blocked else Done st') \<and>
    ref_inv st' \<and> refs st' = refs st \<and> registered st' = registered st - {r} \<and>
    dict st' = (\<lambda>k. if dict st k = Some r then None else dict st k)"
proof -
  obtain t where t: "Remove_h (hash_of st) (fTable st) r = Some t" "ref_inv (st\<lparr>fTable := t\<rparr>)"
      "registered (st\<lparr>fTable := t\<rparr>) = registered st - {r}"
      "dict (st\<lparr>fTable := t\<rparr>) = (\<lambda>k. if dict st k = Some r then None else dict st k)"
    using remove_ref [OF inv] by blast
  then show ?thesis by (intro exI [of _ "st\<lparr>fTable := t\<rparr>"]) (auto simp: UnRegister_def)
qed

lemma registered_cong: "refkey st' = refkey st \<Longrightarrow> fTable st' = fTable st \<Longrightarrow> registered st' = registered st"
  by simp

lemma of_nat_UInt32_zero: "n < 2 ^ 32 \<Longrightarrow> (of_nat n :: UInt32) = 0 \<longleftrightarrow> n = 0"
  unfolding word_of_nat_eq_0_iff by (auto dest: dvd_imp_le)

lemma word_not_pos: "\<not> (0 < w) \<longleftrightarrow> w = 0" for w :: UInt32
  by (metis word_gt_0)

lemma held_invD:
  assumes "held_inv (st, held, allowed)"
  shows "ref_inv st" "fRefCount (refs st e) = of_nat (held e)" "held e < 2 ^ 32" "allowed e < held e \<Longrightarrow> e \<in> registered st"
  using assms by (auto simp: held_inv_def)

text \<open>One more reference handed out, one given back.\<close>

lemma held_inv_resolved:
  assumes inv: "held_inv (st, held, allowed)" and r: "r \<in> registered st" "fRefCount (refs st r) + 1 \<noteq> 0"
  shows "held_inv (set_count st r (fRefCount (refs st r) + 1), held(r := held r + 1), allowed)"
proof -
  note h = held_invD [OF inv]
  have "held r + 1 < 2 ^ 32"
  proof (rule ccontr)
    assume "\<not> held r + 1 < 2 ^ 32"
    then have e: "held r + 1 = 2 ^ 32" using h(3) [of r] by simp
    have "(of_nat (held r + 1) :: UInt32) = 0" unfolding e by simp
    then show False using r(2) h(2) [of r] by (simp add: add.commute)
  qed
  then show ?thesis using inv r(1) by (auto simp: held_inv_def)
qed

lemma held_inv_removed:
  assumes inv: "held_inv (st, held, allowed)" and u: "UnRegister st r n = Some (Done st')"
  shows "held_inv (st', held, allowed(r := unat n))"
proof -
  note h = held_invD [OF inv]
  obtain st1 where c: "UnRegister st r n = Some (if fRefCount (refs st r) > n then Blocked else Done st1)"
      "ref_inv st1" "refs st1 = refs st" "registered st1 = registered st - {r}"
    using UnRegister_cases [OF h(1), of r n] by blast
  have s1: "st' = st1" "fRefCount (refs st r) \<le> n" using c(1) u by (auto split: if_splits)
  have "unat (fRefCount (refs st r)) = held r" using h(2) [of r] h(3) [of r] by (simp add: unat_of_nat)
  then have "held r \<le> unat n" using s1(2) by (simp add: word_le_nat_alt)
  then show ?thesis using inv c(2,3,4) s1(1) by (auto simp: held_inv_def)
qed

lemma Swap_cases:
  assumes inv: "ref_inv st" and d: "table_map st (fString (refs st r)) = Some (Some d)"
  shows "\<exists>st'. Swap st r = Some st' \<and> ref_inv st' \<and> refs st' = refs st \<and> dict st' = (dict st)(refkey st r \<mapsto> r) \<and>
    registered st' = insert r (registered st - {d})"
proof -
  have v: "valid (fString (refs st r))" using inv by (simp add: ref_inv_def)
  have p: "Ptr (fString (refs st r)) \<noteq> None" "Len (fString (refs st r)) > 0"
    using d by (auto simp: table_map_def HashString_def Assert_def split: bind_splits if_splits)
  have Some: "dict st (refkey st r) = Some d" using table_map_eq [OF inv v p] d by (simp add: refkey_def)
  obtain t1 where t1: "Remove_h (hash_of st) (fTable st) d = Some t1" "ref_inv (st\<lparr>fTable := t1\<rparr>)"
      "registered (st\<lparr>fTable := t1\<rparr>) = registered st - {d}"
      "dict (st\<lparr>fTable := t1\<rparr>) = (\<lambda>k. if dict st k = Some d then None else dict st k)"
    using remove_ref [OF inv, of d] by blast
  let ?s = "st\<lparr>fTable := t1\<rparr>"
  have rk: "refkey ?s = refkey st" by (auto simp: refkey_def)
  have hk: "hash_of ?s = hash_of st" by (auto simp: hash_of_def)
  have nn: "dict ?s (refkey ?s r) = None" using Some t1(4) by (simp add: rk)
  have pp: "Ptr (fString (refs ?s r)) \<noteq> None" "Len (fString (refs ?s r)) > 0" using p by simp_all
  obtain t2 where t2: "Add (hash_of ?s) (fTable ?s) r = Some t2" "ref_inv (?s\<lparr>fTable := t2\<rparr>)"
      "registered (?s\<lparr>fTable := t2\<rparr>) = insert r (registered ?s)"
      "dict (?s\<lparr>fTable := t2\<rparr>) = (dict ?s)(refkey ?s r \<mapsto> r)"
    using add_ref [OF t1(2) nn pp] by (elim exE conjE) (rule that)
  have "dict (st\<lparr>fTable := t2\<rparr>) = (dict st)(refkey st r \<mapsto> r)"
  proof
    fix k
    have "dict st k = Some d \<Longrightarrow> k = refkey st r" using Some dict_iff(1) [OF inv] by metis
    then show "dict (st\<lparr>fTable := t2\<rparr>) k = ((dict st)(refkey st r \<mapsto> r)) k"
      using t2(4) t1(4) by (auto simp: rk)
  qed
  moreover have "Swap st r = Some (st\<lparr>fTable := t2\<rparr>)" using d t1(1) t2(1) hk by (simp add: Swap_def)
  moreover have "registered (st\<lparr>fTable := t2\<rparr>) = insert r (registered st - {d})" using t2(3) t1(3) by simp
  ultimately show ?thesis using t2(2) by (intro exI [of _ "st\<lparr>fTable := t2\<rparr>"]) simp
qed

lemma RegisterOrResolve_cases:
  assumes inv: "ref_inv st" and e: "RegisterOrResolve st r = Some (x, st')"
  shows "(x = None \<and> ref_inv st' \<and> refs st' = refs st \<and> registered st' = insert r (registered st)) \<or>
    (\<exists>d. x = Some d \<and> d \<in> registered st \<and> fRefCount (refs st d) + 1 \<noteq> 0 \<and> st' = set_count st d (fRefCount (refs st d) + 1))"
proof -
  obtain y st1 where res: "Resolve st (fString (refs st r)) = Some (y, st1)" and c: "fRefCount (refs st r) = 0"
    using e by (auto simp: RegisterOrResolve_def Assert_def split: bind_splits if_splits)
  have v: "valid (fString (refs st r))" using inv by (simp add: ref_inv_def)
  note p = Resolve_asserts [OF res]
  note re = Resolve_eq [OF inv v p, folded refkey_def]
  show ?thesis
  proof (cases "dict st (refkey st r)")
    case None
    obtain t where t: "Add (hash_of st) (fTable st) r = Some t" "ref_inv (st\<lparr>fTable := t\<rparr>)"
        "registered (st\<lparr>fTable := t\<rparr>) = insert r (registered st)"
      using add_ref [OF inv None p] by blast
    with e c None re have "x = None" "st' = st\<lparr>fTable := t\<rparr>" by (simp_all add: RegisterOrResolve_def)
    with t(2,3) show ?thesis by simp
  next
    case (Some d)
    with res re have "fRefCount (refs st d) + 1 \<noteq> 0" by (auto split: if_splits)
    moreover from this have "x = Some d" "st' = set_count st d (fRefCount (refs st d) + 1)"
      using e c Some re by (simp_all add: RegisterOrResolve_def)
    ultimately show ?thesis using dict_iff(1) [OF inv] Some by blast
  qed
qed

lemma ref_step_inv:
  assumes "ref_step s s'" "held_inv s"
  shows "held_inv s'"
  using assms
proof (cases rule: ref_step.cases)
  case (register st r e st' held allowed)
  note h = held_invD [OF assms(2) [unfolded register(1)]]
  obtain e1 st1 where "Register st (Some r) = Some (e1, st1)"
    "if dict st (refkey st r) \<noteq> None then e1 = EPERM \<and> st1 = st
     else e1 = OS_NoErr \<and> ref_inv st1 \<and> refs st1 = refs st \<and> registered st1 = insert r (registered st) \<and>
          dict st1 = (dict st)(refkey st r \<mapsto> r)"
    using Register_cases [OF h(1) Register_asserts [OF register(3)]] by blast
  with register assms(2) show ?thesis unfolding held_inv_def by (auto split: if_splits)
next
  case (register_new st r st' held allowed)
  note h = held_invD [OF assms(2) [unfolded register_new(1)]]
  from RegisterOrResolve_cases [OF h(1) register_new(3)] register_new(1,2) assms(2) show ?thesis
    by (auto simp: held_inv_def)
next
  case (register_dup st r d st' held allowed)
  note h = held_invD [OF assms(2) [unfolded register_dup(1)]]
  from RegisterOrResolve_cases [OF h(1) register_dup(3)] register_dup(1,2) assms(2) show ?thesis
    using held_inv_resolved by auto
next
  case (resolve key st r st' held allowed)
  note h = held_invD [OF assms(2) [unfolded resolve(1)]]
  have d: "dict st (str key) = Some r" "st' = set_count st r (fRefCount (refs st r) + 1)" "fRefCount (refs st r) + 1 \<noteq> 0"
    using Resolve_eq [OF h(1) resolve(3) Resolve_asserts [OF resolve(4)]] resolve(4) by (auto split: option.splits if_splits)
  then have "r \<in> registered st" using dict_iff(1) [OF h(1)] by blast
  with d resolve(1,2) assms(2) held_inv_resolved show ?thesis by auto
next
  case (release held r st st' allowed)
  have "st' = set_count st r (fRefCount (refs st r) - 1)" using release(4) by (simp add: Release_eq split: if_splits)
  moreover have "(of_nat (held r) :: UInt32) - 1 = of_nat (held r - 1)" using release(3) by (simp add: of_nat_diff)
  moreover have "held r - 1 < 2 ^ 32" using assms(2) release(1) by (auto simp: held_inv_def intro: le_less_trans [OF diff_le_self])
  ultimately show ?thesis using assms(2) release(1,2,3) by (auto simp: held_inv_def)
next
  case (unregister st r n st' held allowed)
  then show ?thesis using held_inv_removed assms(2) by blast
next
  case (try_unregister st r n b st' held allowed)
  then consider "b = False" "st' = st" | "b" "UnRegister st r n = Some (Done st')"
    by (cases "UnRegister st r n"; cases "the (UnRegister st r n)")
      (auto simp: TryUnRegister_def split: if_splits)
  then show ?thesis using held_inv_removed assms(2) try_unregister by cases auto
next
  case (swap st r d st' held allowed)
  note h = held_invD [OF assms(2) [unfolded swap(1)]]
  obtain st1 where "Swap st r = Some st1" "ref_inv st1" "refs st1 = refs st" "registered st1 = insert r (registered st - {d})"
    using Swap_cases [OF h(1) swap(3)] by blast
  with swap assms(2) show ?thesis by (auto simp: held_inv_def)
qed

section \<open>Properties\<close>


definition ex_str :: "string \<Rightarrow> StrPtrLen" where
  "ex_str s = \<lparr>Ptr = Some s, Len = length s\<rparr>"

definition ex_refs :: "entry \<Rightarrow> Ref" where
  "ex_refs e = the (Ref_new (ex_str (if e = 1 then ''alpha'' else ''beta'')) e)"

lemma ex_refs_simps:
  "fString (ex_refs e) = ex_str (if e = 1 then ''alpha'' else ''beta'')"
  "fHashValue (ex_refs e) = hash_str (if e = 1 then ''alpha'' else ''beta'')" "fRefCount (ex_refs e) = 0"
  "valid (ex_str s)" "str (ex_str s) = s"
proof -
  show v: "valid (ex_str s)" "str (ex_str s) = s" for s by (simp_all add: valid_def ex_str_def str_def)
  have "HashString (ex_str s) = Some (hash_str s)" if "s \<noteq> []" for s
    using HashString_valid [of "ex_str s"] v that by (simp add: ex_str_def)
  then show "fString (ex_refs e) = ex_str (if e = 1 then ''alpha'' else ''beta'')"
    "fHashValue (ex_refs e) = hash_str (if e = 1 then ''alpha'' else ''beta'')" "fRefCount (ex_refs e) = 0"
    by (simp_all add: ex_refs_def Ref_new_def)
qed

lemma ex_ref_inv: "ref_inv (RefTable_new ex_refs 7)"
proof -
  have rep: "table_rep h (\<lambda>_. None, HashTable_new 7) (replicate 7 [])" for h by (rule table_rep_new) simp_all
  then show ?thesis
    by (auto simp: ref_inv_def RefTable_new_def refkey_def ex_refs_simps table_inv_def)
qed


text \<open>Removal: \<^verbatim>\<open>UnRegister\<close> waits exactly while more than the given
  number of references is out, and \<^verbatim>\<open>TryUnRegister\<close> returns false instead of
  waiting; both then remove exactly that reference. \<^verbatim>\<open>Swap\<close> replaces the reference
  registered under the string of the new one, and its assertion fails when there is none.\<close>

theorem RefTable_removal:
  assumes "ref_inv st" "Ptr (fString (refs st r)) \<noteq> None \<and> Len (fString (refs st r)) > 0" "r \<notin> registered st \<or> dict st (refkey st r) = Some r"
  shows "\<exists>st'. UnRegister st r n = Some (if n < fRefCount (refs st r) then Blocked else Done st') \<and>
      TryUnRegister st r n = Some (Done (if n < fRefCount (refs st r) then (False, st) else (True, st'))) \<and>
      ref_inv st' \<and> dict st' = (\<lambda>k. if dict st k = Some r then None else dict st k) \<and>
      (if dict st (refkey st r) = None then Swap st r = None
       else \<exists>st''. Swap st r = Some st'' \<and> ref_inv st'' \<and> dict st'' = (dict st)(refkey st r \<mapsto> r))"
proof -
  obtain st' where u: "UnRegister st r n = Some (if n < fRefCount (refs st r) then Blocked else Done st')"
      "ref_inv st'" "dict st' = (\<lambda>k. if dict st k = Some r then None else dict st k)"
    using UnRegister_cases [OF assms(1), of r n] by blast
  have t: "TryUnRegister st r n = Some (Done (if n < fRefCount (refs st r) then (False, st) else (True, st')))"
    using u(1) by (simp add: TryUnRegister_def)
  have v: "valid (fString (refs st r))" using assms(1) by (simp add: ref_inv_def)
  have p: "Ptr (fString (refs st r)) \<noteq> None" "Len (fString (refs st r)) > 0" using assms(2) by simp_all
  note tm = table_map_eq [OF assms(1) v p, folded refkey_def]
  have "if dict st (refkey st r) = None then Swap st r = None
       else \<exists>st''. Swap st r = Some st'' \<and> ref_inv st'' \<and> dict st'' = (dict st)(refkey st r \<mapsto> r)"
  proof (cases "dict st (refkey st r)")
    case None
    then show ?thesis using tm assms(1) by (simp add: Swap_def)
  next
    case (Some d)
    then show ?thesis using tm Swap_cases [OF assms(1), of r d] by auto
  qed
  with u t show ?thesis by blast
qed

theorem RefTable_removal_witness:
  "\<exists>st'. TryUnRegister (RefTable_new ex_refs 7) 1 0 = Some (Done (True, st'))"
proof -
  let ?st = "RefTable_new ex_refs 7"
  have p: "Ptr (fString (refs ?st 1)) \<noteq> None \<and> Len (fString (refs ?st 1)) > 0" "fRefCount (refs ?st 1) = 0"
    by (simp_all add: RefTable_new_def ex_refs_simps ex_str_def)
  have "1 \<notin> registered ?st \<or> dict ?st (refkey ?st 1) = Some 1" by (simp add: RefTable_new_def)
  from RefTable_removal [OF ex_ref_inv p(1) this, of 0] p(2) show ?thesis by auto
qed

text \<open>C19: In every state reachable by any interleaving of registering, resolving (with either
  operation), releasing, unregistering at any level (waiting or trying) and swapping, where clients
  release only what they resolved, the reference count of an object is the number of its
  references that are out, and an object with more references out than the level at which it was
  last unregistered is still registered under its string. So unregistering at level 0, the default,
  never leaves a client with a reference to an object that was removed; only a positive level
  and \<^verbatim>\<open>Swap\<close> do, as their comments say.\<close>

theorem references_keep_objects:
  assumes "ref_step\<^sup>*\<^sup>* (RefTable_new rs n, \<lambda>_. 0, \<lambda>_. 0) (st, held, allowed)"
    and "ref_inv (RefTable_new rs n)" "\<forall>e. fRefCount (rs e) = 0"
  shows "fRefCount (refs st e) = of_nat (held e) \<and> held e < 2 ^ 32 \<and>
    (allowed e < held e \<longrightarrow> dict st (refkey st e) = Some e) \<and>
    (UnRegister st e 0 = Some Blocked \<longleftrightarrow> 0 < held e)"
proof -
  have "held_inv (RefTable_new rs n, \<lambda>_. 0, \<lambda>_. 0)" using assms(2,3) by (simp add: held_inv_def RefTable_new_def)
  with assms(1) have inv: "held_inv (st, held, allowed)"
    by (induction rule: rtranclp_induct) (auto intro: ref_step_inv)
  note h = held_invD(1) [OF inv] held_invD(2-4) [OF inv, of e]
  have "dict st (refkey st e) = Some e" if "allowed e < held e" using h(4) [OF that] dict_iff(1) [OF h(1)] by blast
  moreover have "UnRegister st e 0 = Some Blocked \<longleftrightarrow> 0 < held e"
  proof -
    obtain st1 where "UnRegister st e 0 = Some (if fRefCount (refs st e) > 0 then Blocked else Done st1)"
      using UnRegister_cases [OF h(1), of e 0] by blast
    then show ?thesis using h(2) of_nat_UInt32_zero [OF h(3)] word_not_pos [of "fRefCount (refs st e)"] by auto
  qed
  ultimately show ?thesis using h(2,3) by blast
qed

theorem references_keep_objects_witness:
  "\<exists>st held allowed. ref_step\<^sup>*\<^sup>* (RefTable_new ex_refs 7, \<lambda>_. 0, \<lambda>_. 0) (st, held, allowed) \<and> held 1 = 1 \<and>
     fRefCount (refs st 1) = 1 \<and> dict st ''alpha'' = Some 1 \<and> UnRegister st 1 0 = Some Blocked"
proof -
  let ?s0 = "RefTable_new ex_refs 7"
  have k: "refkey ?s0 1 = ''alpha''" by (simp add: refkey_def RefTable_new_def ex_refs_simps)
  have c: "fRefCount (refs ?s0 x) = 0" for x by (simp add: RefTable_new_def ex_refs_simps)
  have p: "Ptr (fString (refs ?s0 1)) \<noteq> None" "Len (fString (refs ?s0 1)) > 0"
    by (simp_all add: RefTable_new_def ex_refs_simps ex_str_def)
  have d0: "dict ?s0 ''alpha'' = None" using dict_iff(2) [OF ex_ref_inv] by (simp add: RefTable_new_def)
  obtain s1 where s1: "Register ?s0 (Some 1) = Some (OS_NoErr, s1)" "ref_inv s1" "refs s1 = refs ?s0" "dict s1 ''alpha'' = Some 1"
    using Register_cases [OF ex_ref_inv c p] d0 k by auto
  let ?s2 = "set_count s1 1 1"
  have v: "valid (fString (refs s1 1))" using s1(2) by (simp add: ref_inv_def)
  have "str (fString (refs s1 1)) = ''alpha''" using s1(3) k by (simp add: refkey_def)
  then have res: "Resolve s1 (fString (refs s1 1)) = Some (Some 1, ?s2)"
    using Resolve_eq [OF s1(2) v] p s1(3,4) c [of 1] by simp
  let ?a = "\<lambda>_::entry. 0::nat"
  have 1: "ref_step (?s0, ?a, ?a) (s1, ?a, ?a)" using ref_step.register [OF s1(1), of ?a ?a] by (simp add: fun_upd_idem)
  have 2: "ref_step (s1, ?a, ?a) (?s2, ?a(1 := 1), ?a)" using ref_step.resolve [OF v res, of ?a ?a] by simp
  have re: "ref_step\<^sup>*\<^sup>* (?s0, ?a, ?a) (?s2, ?a(1 := 1), ?a)" using 1 2 by (meson converse_rtranclp_into_rtranclp rtranclp.rtrancl_refl)
  have k2: "refkey ?s2 1 = ''alpha''" using s1(3) k by (simp add: refkey_def)
  from references_keep_objects [OF re ex_ref_inv, of 1] k2 show ?thesis
    using re by (intro exI [of _ ?s2] exI [of _ "?a(1 := 1)"] exI [of _ ?a]) (simp add: ex_refs_simps)
qed

end
