(* ===== verification/CF_EventContext.thy ===== *)
theory CF_EventContext
  imports CF_Epoll CF_Ref
begin

text \<open>
  Event contexts and the event thread (\<^verbatim>\<open>src/CFSocket/EventContext.cpp\<close>) on top of the
  epoll queue and the reference table.  A context has the address of the \<^verbatim>\<open>Ref\<close> inside it.  The string of its
  unique id is the eight bytes of the id; the events that the contexts signal to their tasks are logged in order.
\<close>

section \<open>State\<close>

record EventContext =
  fFileDesc :: int
  fEventReq :: eventreq
  fUseETMode :: bool
  fUniqueID :: nat
  fWatchEventCalled :: bool
  fAutoCleanup :: bool
  fTask :: "nat option"

record Net =
  contexts :: "entry \<Rightarrow> EventContext"
  fRefTable :: RefTable
  poll :: EpollState
  sUniqueID :: nat
  topVal :: nat
  sDisabled :: bool
  signalled :: "nat list"
  closed_fds :: "int list"

definition kInvalidFileDesc :: int where "kInvalidFileDesc = -1"

definition EventContext_new :: "int \<Rightarrow> EventContext" where
  "EventContext_new inFileDesc = \<lparr>fFileDesc = inFileDesc, fEventReq = eventreq_zero, fUseETMode = False, fUniqueID = 0,
     fWatchEventCalled = False, fAutoCleanup = True, fTask = None\<rparr>"

definition SetMode :: "bool \<Rightarrow> EventContext \<Rightarrow> EventContext" where
  "SetMode useET x = x\<lparr>fUseETMode := useET\<rparr>"

definition SetTask_ctx :: "nat option \<Rightarrow> EventContext \<Rightarrow> EventContext" where
  "SetTask_ctx inTask x = x\<lparr>fTask := inTask\<rparr>"

definition DontAutoCleanup :: "EventContext \<Rightarrow> EventContext" where
  "DontAutoCleanup x = x\<lparr>fAutoCleanup := False\<rparr>"

definition id_bytes :: "nat \<Rightarrow> string" where
  "id_bytes n = map (\<lambda>i. char_of (n div 256 ^ i mod 256)) [0..<8]"

definition unique_str :: "nat \<Rightarrow> StrPtrLen" where
  "unique_str n = \<lparr>Ptr = Some (id_bytes n), Len = 8\<rparr>"

definition Ref_set :: "StrPtrLen \<Rightarrow> nat \<Rightarrow> Ref \<Rightarrow> Ref option" where
  "Ref_set inString inObjectP r =
     do { h \<leftarrow> HashString inString; Some (r\<lparr>fString := inString, fObjectP := inObjectP, fHashValue := h\<rparr>) }"

section \<open>Requesting events\<close>

text \<open>
  The next id with the two counters; the exchange that fails writes the value it saw to \<open>topVal\<close>. A weak exchange may fail
  although the values are equal; \<open>weak\<close> says for one exchange after the other whether it does, and none does at its end.
\<close>

definition next_id :: "bool \<Rightarrow> nat \<Rightarrow> nat \<Rightarrow> nat \<times> nat \<times> nat" where
  "next_id fails tv sid = (if sid = tv \<and> \<not> fails then (1, tv, 1) else (u32 (sid + 1), sid, u32 (sid + 1)))"

definition weak_fails :: "bool list \<Rightarrow> bool" where
  "weak_fails weak = (weak \<noteq> [] \<and> hd weak)"

partial_function (option) find_id :: "bool list \<Rightarrow> RefTable \<Rightarrow> nat \<Rightarrow> nat \<Rightarrow> (nat \<times> RefTable \<times> nat \<times> nat) option" where
  "find_id weak tb tv sid = do {
     (ref, tb1) \<leftarrow> Resolve tb (unique_str (fst (next_id (weak_fails weak) tv sid)));
     (case ref of
        None \<Rightarrow> Some (fst (next_id (weak_fails weak) tv sid), tb1, fst (snd (next_id (weak_fails weak) tv sid)),
                      snd (snd (next_id (weak_fails weak) tv sid)))
      | Some r \<Rightarrow> do {
          tb2 \<leftarrow> Release tb1 r;
          find_id (tl weak) tb2 (fst (snd (next_id (weak_fails weak) tv sid))) (snd (snd (next_id (weak_fails weak) tv sid)))
        })
   }"

text \<open>The first request: a new id, its registration and the first watch.\<close>

definition first_watch :: "ctl_answers \<Rightarrow> bool list \<Rightarrow> entry \<Rightarrow> int \<Rightarrow> Net \<Rightarrow> Net option" where
  "first_watch answers weak c theMask net = do {
     let x = contexts net c;
     (i, tb, tv, sid) \<leftarrow> find_id weak (fRefTable net) (topVal net) (sUniqueID net);
     rf \<leftarrow> Ref_set (unique_str i) c (refs tb c);
     (e, tb1) \<leftarrow> Register (tb\<lparr>refs := (refs tb)(c := rf)\<rparr>) (Some c);
     let req = eventreq_zero\<lparr>er_type := EV_FD, er_handle := fFileDesc x, er_eventbits := theMask, er_data := i\<rparr>;
     (r, p) \<leftarrow> watchevent_ep answers req theMask (poll net);
     Assert (r = 0);
     Some (net\<lparr>contexts := (contexts net)(c := x\<lparr>fUniqueID := i, fEventReq := req, fWatchEventCalled := True\<rparr>),
       fRefTable := tb1, poll := p, topVal := tv, sUniqueID := sid\<rparr>)
   }"

definition RequestEvent_ctx :: "ctl_answers \<Rightarrow> bool list \<Rightarrow> entry \<Rightarrow> int \<Rightarrow> Net \<Rightarrow> Net option" where
  "RequestEvent_ctx answers weak c theMask net =
     (let x = contexts net c
      in if sDisabled net then Some net
         else if theMask AND EV_RM \<noteq> 0 then
           if fWatchEventCalled x then do {
             (r, p) \<leftarrow> removeevent_ep answers (fFileDesc x) (poll net);
             Some (net\<lparr>poll := p\<rparr>)
           } else Some net
         else
           (let mask = (if fUseETMode x then theMask OR EV_ET else theMask)
            in if fWatchEventCalled x then do {
                 let req = (fEventReq x)\<lparr>er_eventbits := mask\<rparr>;
                 (r, p) \<leftarrow> modwatch_ep answers req mask (poll net);
                 Assert (r = 0);
                 Some (net\<lparr>contexts := (contexts net)(c := x\<lparr>fEventReq := req\<rparr>), poll := p\<rparr>)
               }
               else if fFileDesc x = kInvalidFileDesc then Some net
               else first_watch answers weak c mask net))"

section \<open>Giving up a descriptor\<close>

text \<open>
  The queue is asked to remove the invalid descriptor, since the field was overwritten before.  Closing a descriptor ends the
  interest of the kernel in it.  The reference table makes the caller wait while the context is in use.
\<close>

definition Cleanup :: "ctl_answers \<Rightarrow> int \<Rightarrow> entry \<Rightarrow> Net \<Rightarrow> Net outcome option" where
  "Cleanup answers err c net =
     (let x = contexts net c;
          x1 = x\<lparr>fFileDesc := kInvalidFileDesc, fWatchEventCalled := False\<rparr>
      in if fFileDesc x = kInvalidFileDesc
         then Some (Done (net\<lparr>contexts := (contexts net)(c := x1\<lparr>fUniqueID := 0\<rparr>)\<rparr>))
         else if fUniqueID x > 0 then do {
           (r, p) \<leftarrow> removeevent_ep answers (fFileDesc x1) (poll net);
           u \<leftarrow> UnRegister (fRefTable net) c 0;
           (case u of
              Blocked \<Rightarrow> Some Blocked
            | Done tb \<Rightarrow> do {
                Assert (err = 0);
                Some (Done (net\<lparr>contexts := (contexts net)(c := x1\<lparr>fUniqueID := 0\<rparr>), fRefTable := tb,
                  poll := p\<lparr>interest := (interest p)(fFileDesc x := None)\<rparr>, closed_fds := closed_fds net @ [fFileDesc x]\<rparr>))
              })
         } else do {
           Assert (err = 0);
           Some (Done (net\<lparr>contexts := (contexts net)(c := x1\<lparr>fUniqueID := 0\<rparr>),
             poll := (poll net)\<lparr>interest := (interest (poll net))(fFileDesc x := None)\<rparr>, closed_fds := closed_fds net @ [fFileDesc x]\<rparr>))
         })"

definition SnarfEventContext :: "entry \<Rightarrow> entry \<Rightarrow> Net \<Rightarrow> Net outcome option" where
  "SnarfEventContext c from_c net = do {
     let y = contexts net from_c;
     let ctx1 = (contexts net)(from_c := y\<lparr>fFileDesc := kInvalidFileDesc\<rparr>);
     let x = (ctx1 c)\<lparr>fWatchEventCalled := fWatchEventCalled y, fUniqueID := fUniqueID y, fEventReq := fEventReq y\<rparr>;
     rf \<leftarrow> Ref_set (unique_str (fUniqueID y)) c (refs (fRefTable net) c);
     tb1 \<leftarrow> Swap ((fRefTable net)\<lparr>refs := (refs (fRefTable net))(c := rf)\<rparr>) c;
     u \<leftarrow> UnRegister tb1 from_c 0;
     (case u of
        Blocked \<Rightarrow> Some Blocked
      | Done tb2 \<Rightarrow> Some (Done (net\<lparr>contexts := ctx1(c := x), fRefTable := tb2\<rparr>)))
   }"

section \<open>The event thread\<close>

definition ProcessEvent :: "entry \<Rightarrow> Net \<Rightarrow> Net" where
  "ProcessEvent c net = (case fTask (contexts net c) of None \<Rightarrow> net | Some t \<Rightarrow> net\<lparr>signalled := signalled net @ [t]\<rparr>)"

definition dispatch_event :: "eventreq \<Rightarrow> Net \<Rightarrow> Net option" where
  "dispatch_event req net =
     (if er_data req = 0 then Some net
      else do {
        (ref, tb) \<leftarrow> Resolve (fRefTable net) (unique_str (er_data req));
        (case ref of
           None \<Rightarrow> Some (net\<lparr>fRefTable := tb\<rparr>)
         | Some r \<Rightarrow> do {
             let net1 = ProcessEvent (fObjectP (refs tb r)) (net\<lparr>fRefTable := tb\<rparr>);
             tb1 \<leftarrow> Release (fRefTable net1) r;
             Some (net1\<lparr>fRefTable := tb1\<rparr>)
           })
      })"

text \<open>A round without a request to stop; \<open>errno\<close> is used when the queue reports a failure.\<close>

definition event_round :: "wait_answer \<Rightarrow> int \<Rightarrow> eventreq \<Rightarrow> Net \<Rightarrow> (eventreq \<times> Net) option" where
  "event_round answer errno req net = do {
     (ro, req1, p) \<leftarrow> waitevent_ep answer req (poll net);
     theReturnValue \<leftarrow> ro;
     let theErr = (if theReturnValue \<ge> 0 then theReturnValue else errno);
     let net1 = net\<lparr>poll := p\<rparr>;
     if theErr = EINTR_errno then Some (req1, net1)
     else do {
       Assert (theErr = 0);
       net2 \<leftarrow> dispatch_event req1 net1;
       Some (req1, net2)
     }
   }"

section \<open>Ids\<close>

lemma unique_str_simps [simp]: "valid (unique_str n)" "Ptr (unique_str n) = Some (id_bytes n)" "Len (unique_str n) = 8"
  "str (unique_str n) = id_bytes n"
  by (simp_all add: unique_str_def valid_def str_def id_bytes_def)

text \<open>The counts are far from their limits, as the table asserts when it releases a reference.\<close>

definition counts_ok :: "RefTable \<Rightarrow> bool" where
  "counts_ok tb \<longleftrightarrow> (\<forall>r. fRefCount (refs tb r) < 1048576)"

lemma set_count_back [simp]: "set_count (set_count tb r n) r (fRefCount (refs tb r)) = tb"
  by (simp add: set_count_def)

lemma count_no_wrap: "n < 1048576 \<Longrightarrow> n + 1 \<noteq> 0" for n :: UInt32
proof
  assume n: "n < 1048576" and "n + 1 = 0"
  then have "n = - 1" by (simp add: eq_neg_iff_add_eq_0)
  then show False using n by simp
qed

lemma Release_resolved: "counts_ok tb \<Longrightarrow> Release (set_count tb r (fRefCount (refs tb r) + 1)) r = Some tb"
  by (simp add: Release_eq counts_ok_def)

lemma Resolve_id:
  assumes "ref_inv tb" "counts_ok tb"
  shows "Resolve tb (unique_str i) = Some (dict tb (id_bytes i),
    case dict tb (id_bytes i) of None \<Rightarrow> tb | Some r \<Rightarrow> set_count tb r (fRefCount (refs tb r) + 1))"
  using Resolve_eq [OF assms(1), of "unique_str i"] assms(2) count_no_wrap by (auto simp: counts_ok_def split: option.splits)

lemma find_id_step:
  assumes "ref_inv tb" "counts_ok tb"
  shows "find_id weak tb tv sid =
    (case next_id (weak_fails weak) tv sid of (i, tv', sid') \<Rightarrow>
       if dict tb (id_bytes i) = None then Some (i, tb, tv', sid') else find_id (tl weak) tb tv' sid')"
proof -
  obtain i t s where n: "next_id (weak_fails weak) tv sid = (i, t, s)" by (cases "next_id (weak_fails weak) tv sid")
  show ?thesis
    by (subst find_id.simps) (cases "dict tb (id_bytes i)", simp_all add: n Resolve_id [OF assms] Release_resolved [OF assms(2)])
qed

lemma find_id_free_raw:
  assumes "find_id weak tb tv sid = Some r"
  shows "ref_inv tb \<longrightarrow> fst (snd r) = tb \<and> dict tb (id_bytes (fst r)) = None"
proof (rule find_id.raw_induct [where P = "\<lambda>weak tb tv sid r. ref_inv tb \<longrightarrow> fst (snd r) = tb \<and> dict tb (id_bytes (fst r)) = None", OF _ assms], goal_cases)
  case (1 f weak tb tv sid r)
  show ?case
  proof
    assume inv: "ref_inv tb"
    show "fst (snd r) = tb \<and> dict tb (id_bytes (fst r)) = None"
    proof (cases "dict tb (id_bytes (fst (next_id (weak_fails weak) tv sid)))")
      case None
      then show ?thesis using 1(2) by (auto simp: Resolve_eq [OF inv])
    next
      case (Some e)
      then have "f (tl weak) tb (fst (snd (next_id (weak_fails weak) tv sid))) (snd (snd (next_id (weak_fails weak) tv sid))) = Some r"
        using 1(2) by (auto simp: Resolve_eq [OF inv] Release_eq split: if_splits)
      from 1(1) [OF this] inv show ?thesis by simp
    qed
  qed
qed

lemma find_id_free:
  assumes "find_id weak tb tv sid = Some (i, tb', tv', sid')" "ref_inv tb"
  shows "tb' = tb" "dict tb (id_bytes i) = None"
  using find_id_free_raw [OF assms(1)] assms(2) by simp_all

text \<open>The ids after the first one are never reset: the value to compare with is always the last id, which is not the current one.\<close>

lemma next_id_never_resets: "tv \<noteq> sid \<Longrightarrow> sid < 2 ^ 32 \<Longrightarrow> next_id b tv sid = (i, tv', sid') \<Longrightarrow>
    i = u32 (sid + 1) \<and> sid' = u32 (sid + 1) \<and> tv' \<noteq> sid' \<and> sid' < 2 ^ 32"
  by (cases "sid + 1 = 2 ^ 32") (auto simp: next_id_def u32_def)

lemma find_id_returns:
  "ref_inv tb \<Longrightarrow> counts_ok tb \<Longrightarrow> tv \<noteq> sid \<Longrightarrow> sid < 2 ^ 32 \<Longrightarrow> dict tb (id_bytes (u32 (sid + Suc k))) = None \<Longrightarrow>
   (\<And>j. j < k \<Longrightarrow> dict tb (id_bytes (u32 (sid + Suc j))) \<noteq> None) \<Longrightarrow>
   \<exists>tv'. find_id weak tb tv sid = Some (u32 (sid + Suc k), tb, tv', u32 (sid + Suc k)) \<and> tv' \<noteq> u32 (sid + Suc k)"
proof (induction k arbitrary: weak tv sid)
  case 0
  obtain i tv' sid' where n: "next_id (weak_fails weak) tv sid = (i, tv', sid')" by (cases "next_id (weak_fails weak) tv sid")
  note nn = next_id_never_resets [OF 0(3,4) n]
  show ?case using nn 0(5) by (simp add: find_id_step [OF 0(1,2)] n)
next
  case (Suc k)
  obtain i tv' sid' where n: "next_id (weak_fails weak) tv sid = (i, tv', sid')" by (cases "next_id (weak_fails weak) tv sid")
  note nn = next_id_never_resets [OF Suc.prems(3,4) n]
  have u: "u32 (u32 (sid + 1) + Suc j) = u32 (sid + Suc (Suc j))" for j
    using mod_add_left_eq [of "sid + 1" "2 ^ 32" "Suc j"] by (simp add: u32_def)
  have "dict tb (id_bytes i) \<noteq> None" using Suc.prems(6) [of 0] nn by simp
  then have "find_id weak tb tv sid = find_id (tl weak) tb tv' sid'" by (subst find_id_step [OF Suc.prems(1,2)]) (auto simp: n)
  moreover have "\<exists>tv''. find_id (tl weak) tb tv' sid' = Some (u32 (sid' + Suc k), tb, tv'', u32 (sid' + Suc k)) \<and> tv'' \<noteq> u32 (sid' + Suc k)"
  proof (rule Suc.IH [OF Suc.prems(1,2)])
    show "tv' \<noteq> sid'" "sid' < 2 ^ 32" using nn by simp_all
    show "dict tb (id_bytes (u32 (sid' + Suc k))) = None" using Suc.prems(5) nn u [of k] by simp
    show "dict tb (id_bytes (u32 (sid' + Suc j))) \<noteq> None" if "j < k" for j using Suc.prems(6) [of "Suc j"] that nn u [of j] by simp
  qed
  ultimately show ?case using nn u [of k] by simp
qed

section \<open>From the kernel to the task\<close>

text \<open>A reference that is not registered may be changed.\<close>

lemma set_unregistered:
  assumes inv: "ref_inv tb" and c: "c \<notin> registered tb" and r: "valid (fString r)" "fHashValue r = hash_str (str (fString r))"
  defines "tb' \<equiv> tb\<lparr>refs := (refs tb)(c := r)\<rparr>"
  shows "ref_inv tb'" "registered tb' = registered tb" "dict tb' = dict tb" "refkey tb' c = str (fString r)"
proof -
  obtain bs where b: "table_rep (\<lambda>e. hash_str (refkey tb e)) (fTable tb) bs" using inv by (auto simp: ref_inv_def table_inv_def)
  have m: "registered tb = set (concat bs)" by (rule members_eq [OF b])
  have k: "refkey tb' e = refkey tb e" if "e \<noteq> c" for e using that by (simp add: tb'_def refkey_def)
  have ft: "fTable tb' = fTable tb" by (simp add: tb'_def)
  have b': "table_rep (\<lambda>e. hash_str (refkey tb' e)) (fTable tb') bs" unfolding ft
    by (rule table_rep_cong [OF b]) (use c m k in metis)
  show reg: "registered tb' = registered tb" unfolding m by (rule members_eq [OF b'])
  have kr: "refkey tb' e = refkey tb e" if "e \<in> registered tb" for e using that c k by metis
  show i: "ref_inv tb'"
    unfolding ref_inv_def
  proof (intro conjI allI ballI)
    fix e
    show "valid (fString (refs tb' e))" "fHashValue (refs tb' e) = hash_str (refkey tb' e)"
      using inv r by (auto simp: ref_inv_def tb'_def refkey_def)
  next
    show "table_inv (\<lambda>e. hash_str (refkey tb' e)) (fTable tb')" using b' by (auto simp: table_inv_def)
    show "Ptr (fString (refs tb' e)) \<noteq> None" "Len (fString (refs tb' e)) > 0" if "e \<in> registered tb'" for e
      using that inv c unfolding reg by (auto simp: ref_inv_def tb'_def)
    have "inj_on (refkey tb) (registered tb)" using inv by (simp add: ref_inv_def)
    then show "inj_on (refkey tb') (registered tb')" unfolding reg by (rule inj_on_cong [THEN iffD1, rotated]) (simp add: kr)
  qed
  show "dict tb' = dict tb"
  proof
    fix k
    show "dict tb' k = dict tb k"
      using dict_iff [OF i, of k, unfolded reg] dict_iff [OF inv, of k] kr by (cases "dict tb k") (simp, metis)
  qed
  show "refkey tb' c = str (fString r)" by (simp add: tb'_def refkey_def)
qed

text \<open>The first request of a context registers it under a new id and gives the id to the queue.\<close>

lemma first_request:
  assumes inv: "ref_inv (fRefTable net)" and new: "c \<notin> registered (fRefTable net)" and on: "\<not> sDisabled net" "theMask AND EV_RM = 0"
    and x: "\<not> fWatchEventCalled (contexts net c)" "fFileDesc (contexts net c) \<noteq> kInvalidFileDesc"
    and req: "RequestEvent_ctx answers weak c theMask net = Some net1"
  defines "i \<equiv> fUniqueID (contexts net1 c)" and "fd \<equiv> fFileDesc (contexts net c)"
  shows "ref_inv (fRefTable net1)" "dict (fRefTable net1) = (dict (fRefTable net))(id_bytes i \<mapsto> c)" "dict (fRefTable net) (id_bytes i) = None"
    "fObjectP (refs (fRefTable net1) c) = c" "gDataMap (poll net1) = (gDataMap (poll net))(fd \<mapsto> i)"
    "gEpollEvents (poll net1) = gEpollEvents (poll net)" "gCurTotalEvents (poll net1) = gCurTotalEvents (poll net)"
    "signalled net1 = signalled net" "fTask (contexts net1 c) = fTask (contexts net c)"
    "counts_ok (fRefTable net) \<Longrightarrow> counts_ok (fRefTable net1)"
proof -
  let ?x = "contexts net c" and ?tb = "fRefTable net"
  define m where "m = (if fUseETMode ?x then theMask OR EV_ET else theMask)"
  let ?req = "\<lambda>j. eventreq_zero\<lparr>er_type := EV_FD, er_handle := fd, er_eventbits := m, er_data := j\<rparr>"
  obtain j tb tv sid rf e tb1 r p where f: "find_id weak ?tb (topVal net) (sUniqueID net) = Some (j, tb, tv, sid)"
    and rs: "Ref_set (unique_str j) c (refs tb c) = Some rf" and rg0: "Register (tb\<lparr>refs := (refs tb)(c := rf)\<rparr>) (Some c) = Some (e, tb1)"
    and w: "watchevent_ep answers (?req j) m (poll net) = Some (r, p)" "r = 0"
    "net1 = net\<lparr>contexts := (contexts net)(c := ?x\<lparr>fUniqueID := j, fEventReq := ?req j, fWatchEventCalled := True\<rparr>),
       fRefTable := tb1, poll := p, topVal := tv, sUniqueID := sid\<rparr>"
    using req on x unfolding m_def fd_def
    by (auto simp: RequestEvent_ctx_def first_watch_def Let_def Assert_def split: bind_splits if_splits)
  note ff = find_id_free [OF f inv]
  have rfe: "rf = (refs ?tb c)\<lparr>fString := unique_str j, fObjectP := c, fHashValue := hash_str (id_bytes j)\<rparr>"
    using rs ff(1) by (simp add: Ref_set_def HashString_valid)
  let ?tb0 = "?tb\<lparr>refs := (refs ?tb)(c := rf)\<rparr>"
  note su = set_unregistered [OF inv new, of rf]
  have v: "valid (fString rf)" "fHashValue rf = hash_str (str (fString rf))" by (simp_all add: rfe)
  have k: "refkey ?tb0 c = id_bytes j" using su(4) [OF v] by (simp add: rfe)
  have d0: "dict ?tb0 (refkey ?tb0 c) = None" unfolding k using su(3) [OF v] ff(2) by simp
  have rg1: "Register ?tb0 (Some c) = Some (e, tb1)" using rg0 ff(1) by simp
  have rg: "ref_inv tb1" "refs tb1 = refs ?tb0" "dict tb1 = (dict ?tb0)(refkey ?tb0 c \<mapsto> c)"
    using Register_cases [OF su(1) [OF v] Register_asserts [OF rg1]] d0 rg1 by auto
  have ij: "i = j" by (simp add: i_def w(3))
  have p: "gDataMap p = (gDataMap (poll net))(fd \<mapsto> j)" "gEpollEvents p = gEpollEvents (poll net)" "gCurTotalEvents p = gCurTotalEvents (poll net)"
    using w(1,2) by (auto simp: watchevent_ep_def modwatch0_ep_def split: bind_splits)
  show "ref_inv (fRefTable net1)" "dict (fRefTable net1) = (dict (fRefTable net))(id_bytes i \<mapsto> c)" "dict (fRefTable net) (id_bytes i) = None"
    "fObjectP (refs (fRefTable net1) c) = c" "gDataMap (poll net1) = (gDataMap (poll net))(fd \<mapsto> i)"
    "gEpollEvents (poll net1) = gEpollEvents (poll net)" "gCurTotalEvents (poll net1) = gCurTotalEvents (poll net)"
    "signalled net1 = signalled net" "fTask (contexts net1 c) = fTask (contexts net c)"
    using rg k su(3) [OF v] ff(2) p by (simp_all add: w(3) ij rfe)
  show "counts_ok (fRefTable net) \<Longrightarrow> counts_ok (fRefTable net1)" using rg(2) by (simp add: w(3) rfe counts_ok_def)
qed

text \<open>One event from the kernel.\<close>

lemma one_event:
  assumes q: "gEpollEvents p = Some arr" "arr \<noteq> []" "gCurTotalEvents p \<le> 0" and d: "gDataMap p fd = Some i"
  shows "\<exists>req' p'. waitevent_ep (1, [\<lparr>ep_events = ev, ep_fd = fd\<rparr>]) req p = Some (Some 0, req', p') \<and> er_data req' = i \<and> gDataMap p' = gDataMap p"
  using assms by (cases arr) (simp_all add: waitevent_ep_def epoll_waitevent_def Let_def Suc_le_eq)

lemma dispatch_known:
  assumes inv: "ref_inv (fRefTable net)" "counts_ok (fRefTable net)"
    and d: "er_data req \<noteq> 0" "dict (fRefTable net) (id_bytes (er_data req)) = Some c"
  shows "dispatch_event req net = Some (ProcessEvent (fObjectP (refs (fRefTable net) c)) net)"
proof -
  have "fObjectP (refs (set_count tb c n) c) = fObjectP (refs tb c)" for tb n by (simp add: set_count_def)
  then show ?thesis using d
    by (simp add: dispatch_event_def Resolve_id [OF inv] Let_def Release_resolved [OF inv(2)] ProcessEvent_def split: option.split)
qed

text \<open>C16: A ready socket reaches its task: after the first request of a context for events on a queue that has no answers of the kernel
  left to hand out, when the next answer of the kernel is exactly one event, for the descriptor of the context, then the next
  round of the event thread signals exactly the task of the context, once, and leaves the reference table as it was.
  The id that the context got is not zero, the context has a task and is not registered before, and the counts of the table are far from
  their limits. An answer of two or more events loses its last one (epoll_drops_last), so that nothing is said of it here.\<close>

theorem event_reaches_task:
  assumes inv: "ref_inv (fRefTable net)" "counts_ok (fRefTable net)" and new: "c \<notin> registered (fRefTable net)" and on: "\<not> sDisabled net" "theMask AND EV_RM = 0"
    and x: "\<not> fWatchEventCalled (contexts net c)" "fFileDesc (contexts net c) = fd" "fd \<noteq> kInvalidFileDesc" "fTask (contexts net c) = Some t"
    and q: "gEpollEvents (poll net) = Some arr" "arr \<noteq> []" "gCurTotalEvents (poll net) \<le> 0"
    and req: "RequestEvent_ctx answers weak c theMask net = Some net1" and i: "fUniqueID (contexts net1 c) \<noteq> 0"
  shows "\<exists>req1 net2. event_round (1, [\<lparr>ep_events = ev, ep_fd = fd\<rparr>]) errno req0 net1 = Some (req1, net2) \<and>
    signalled net2 = signalled net @ [t] \<and> fRefTable net2 = fRefTable net1"
proof -
  note fr = first_request [OF inv(1) new on x(1) _ req, unfolded x(2), OF x(3)]
  have d: "gDataMap (poll net1) fd = Some (fUniqueID (contexts net1 c))" using fr(5) by simp
  have g: "gEpollEvents (poll net1) = Some arr" "gCurTotalEvents (poll net1) \<le> 0" using fr(6,7) q by simp_all
  obtain req1 p' where w: "waitevent_ep (1, [\<lparr>ep_events = ev, ep_fd = fd\<rparr>]) req0 (poll net1) = Some (Some 0, req1, p')"
    "er_data req1 = fUniqueID (contexts net1 c)"
    using one_event [OF g(1) q(2) g(2) d] by blast
  have "dispatch_event req1 (net1\<lparr>poll := p'\<rparr>) = Some (ProcessEvent c (net1\<lparr>poll := p'\<rparr>))"
    using dispatch_known [of "net1\<lparr>poll := p'\<rparr>" req1 c] fr(1,2,4) fr(10) [OF inv(2)] i w(2) by simp
  then have "event_round (1, [\<lparr>ep_events = ev, ep_fd = fd\<rparr>]) errno req0 net1 = Some (req1, ProcessEvent c (net1\<lparr>poll := p'\<rparr>))"
    using w(1) by (simp add: event_round_def EINTR_errno_def)
  then show ?thesis using fr(8,9) x(4) by (simp add: ProcessEvent_def)
qed

text \<open>A context that was cleaned up gets no event any more: its id is not in the reference table, so an event that the kernel still reports
  for its descriptor signals no task. The queue keeps the entry of the descriptor, since it is asked to remove the
  descriptor -1.\<close>

theorem cleaned_up_gets_nothing:
  assumes inv: "ref_inv (fRefTable net)" and x: "fFileDesc (contexts net c) = fd" "fd \<noteq> kInvalidFileDesc" "fUniqueID (contexts net c) = i" "0 < i"
    and d: "dict (fRefTable net) (id_bytes i) = Some c" and m: "gDataMap (poll net) fd = Some i"
    and q: "gEpollEvents (poll net) = Some arr" "arr \<noteq> []" "gCurTotalEvents (poll net) \<le> 0"
    and cl: "Cleanup answers err c net = Some (Done net1)"
  shows "gDataMap (poll net1) fd = Some i \<and> dict (fRefTable net1) (id_bytes i) = None \<and>
    (\<exists>req1 net2. event_round (1, [\<lparr>ep_events = ev, ep_fd = fd\<rparr>]) errno req0 net1 = Some (req1, net2) \<and> signalled net2 = signalled net)"
proof -
  obtain tb where u: "UnRegister (fRefTable net) c 0 = Some (if 0 < fRefCount (refs (fRefTable net) c) then Blocked else Done tb)"
    "ref_inv tb" "dict tb = (\<lambda>k. if dict (fRefTable net) k = Some c then None else dict (fRefTable net) k)"
    using UnRegister_cases [OF inv, of c 0] by blast
  obtain r p where rm: "removeevent_ep answers kInvalidFileDesc (poll net) = Some (r, p)"
    and n1: "fRefTable net1 = tb" "poll net1 = p\<lparr>interest := (interest p)(fd := None)\<rparr>" "signalled net1 = signalled net"
    using cl x u(1) by (auto simp: Cleanup_def Let_def Assert_def split: bind_splits outcome.splits if_splits)
  have p: "gDataMap p fd = gDataMap (poll net) fd" "gEpollEvents p = gEpollEvents (poll net)" "gCurTotalEvents p = gCurTotalEvents (poll net)"
    using rm x(2) by (auto simp: removeevent_ep_def split: bind_splits list.splits)
  have g: "gDataMap (poll net1) fd = Some i" "gEpollEvents (poll net1) = Some arr" "gCurTotalEvents (poll net1) \<le> 0"
    using n1(2) p m q by simp_all
  have dn: "dict (fRefTable net1) (id_bytes i) = None" using u(3) d n1(1) by simp
  obtain req1 p' where w: "waitevent_ep (1, [\<lparr>ep_events = ev, ep_fd = fd\<rparr>]) req0 (poll net1) = Some (Some 0, req1, p')" "er_data req1 = i"
    using one_event [OF g(2) q(2) g(3,1)] by blast
  have "dispatch_event req1 (net1\<lparr>poll := p'\<rparr>) = Some (net1\<lparr>poll := p'\<rparr>)"
    using w(2) x(4) dn u(2) n1(1) by (simp add: dispatch_event_def Resolve_eq)
  then have "event_round (1, [\<lparr>ep_events = ev, ep_fd = fd\<rparr>]) errno req0 net1 = Some (req1, net1\<lparr>poll := p'\<rparr>)"
    using w(1) by (simp add: event_round_def EINTR_errno_def)
  then show ?thesis using g(1) dn n1(3) by simp
qed

section \<open>A run\<close>

definition ex_net :: Net where
  "ex_net = \<lparr>contexts = \<lambda>_. SetTask_ctx (Some 77) (EventContext_new 5), fRefTable = RefTable_new ex_refs 7, poll = ex_epoll,
     sUniqueID = 1, topVal = 10000000, sDisabled = False, signalled = [], closed_fds = []\<rparr>"

lemma ex_net_simps [simp]: "contexts ex_net c = SetTask_ctx (Some 77) (EventContext_new 5)" "fRefTable ex_net = RefTable_new ex_refs 7"
  "poll ex_net = ex_epoll" "sUniqueID ex_net = 1" "topVal ex_net = 10000000" "\<not> sDisabled ex_net" "signalled ex_net = []"
  by (simp_all add: ex_net_def)

lemma ex_context [simp]: "fFileDesc (SetTask_ctx t (EventContext_new fd)) = fd" "fTask (SetTask_ctx t (EventContext_new fd)) = t"
  "\<not> fWatchEventCalled (SetTask_ctx t (EventContext_new fd))" "\<not> fUseETMode (SetTask_ctx t (EventContext_new fd))"
  by (simp_all add: SetTask_ctx_def EventContext_new_def)

lemma ex_epoll_simps: "gEpollEvents ex_epoll = Some (replicate 4 \<lparr>ep_events = 0, ep_fd = 0\<rparr>)" "gCurTotalEvents ex_epoll \<le> 0"
  by (simp_all add: ex_epoll_def epoll_statics_def)

lemma ex_registered: "registered (RefTable_new ex_refs 7) = {}"
proof -
  have "table_rep h (\<lambda>_. None, HashTable_new 7) (replicate 7 [])" for h by (rule table_rep_new) simp_all
  from members_eq [OF this] show ?thesis by (simp add: RefTable_new_def)
qed

lemma ex_dict: "dict (RefTable_new ex_refs 7) k = None"
  using dict_iff(2) [OF ex_ref_inv] ex_registered by auto

lemma ex_counts: "counts_ok (RefTable_new ex_refs 7)"
  by (simp add: counts_ok_def RefTable_new_def ex_refs_simps)

lemma ex_request: "\<exists>net1. RequestEvent_ctx [(0, 0)] [] 1 EV_RE_bit ex_net = Some net1 \<and> fUniqueID (contexts net1 1) = 2 \<and>
    fFileDesc (contexts net1 1) = 5 \<and> fRefCount (refs (fRefTable net1) 1) = 0"
proof -
  let ?tb = "RefTable_new ex_refs 7"
  obtain tv where f: "find_id [] ?tb 10000000 1 = Some (2, ?tb, tv, 2)"
    using find_id_returns [OF ex_ref_inv ex_counts, of 10000000 1 0 "[]"] ex_dict by (auto simp flip: numeral_2_eq_2)
  let ?rf = "(refs ?tb 1)\<lparr>fString := unique_str 2, fObjectP := 1, fHashValue := hash_str (id_bytes 2)\<rparr>"
  have rs: "Ref_set (unique_str 2) 1 (refs ?tb 1) = Some ?rf" by (simp add: Ref_set_def HashString_valid)
  have v: "valid (fString ?rf)" "fHashValue ?rf = hash_str (str (fString ?rf))" by simp_all
  have nr: "1 \<notin> registered ?tb" using ex_registered by simp
  note su = set_unregistered [OF ex_ref_inv nr v]
  obtain e tb1 where rg: "Register (?tb\<lparr>refs := (refs ?tb)(1 := ?rf)\<rparr>) (Some 1) = Some (e, tb1)" "refs tb1 = (refs ?tb)(1 := ?rf)"
    using Register_cases [OF su(1), of 1] by (auto simp: RefTable_new_def ex_refs_simps split: if_splits)
  have mk: "EV_RE_bit AND EV_RM = 0" by (simp add: ev_defs)
  show ?thesis using f rs rg mk
    by (simp add: RequestEvent_ctx_def first_watch_def Let_def kInvalidFileDesc_def watchevent_ep_def modwatch0_ep_def RefTable_new_def ex_refs_simps
      del: fun_upd_apply) (simp add: ex_refs_simps)
qed

theorem event_reaches_task_witness:
  "\<exists>net1 req1 net2. RequestEvent_ctx [(0, 0)] [] 1 EV_RE_bit ex_net = Some net1 \<and>
    event_round (1, [\<lparr>ep_events = EPOLLIN, ep_fd = 5\<rparr>]) 0 eventreq_zero net1 = Some (req1, net2) \<and> signalled net2 = [77]"
proof -
  obtain net1 where r: "RequestEvent_ctx [(0, 0)] [] 1 EV_RE_bit ex_net = Some net1" "fUniqueID (contexts net1 1) = 2" using ex_request by blast
  have "\<exists>req1 net2. event_round (1, [\<lparr>ep_events = EPOLLIN, ep_fd = 5\<rparr>]) 0 eventreq_zero net1 = Some (req1, net2) \<and>
    signalled net2 = signalled ex_net @ [77] \<and> fRefTable net2 = fRefTable net1"
    by (rule event_reaches_task [where net = ex_net and c = 1 and answers = "[(0, 0)]" and theMask = EV_RE_bit and
        arr = "replicate 4 \<lparr>ep_events = 0, ep_fd = 0\<rparr>"])
      (use r ex_ref_inv ex_counts ex_registered ex_epoll_simps in \<open>simp_all add: ev_defs kInvalidFileDesc_def\<close>)
  then show ?thesis using r(1) by auto
qed

theorem cleaned_up_gets_nothing_witness:
  "\<exists>net1 net2 req1 net3. RequestEvent_ctx [(0, 0)] [] 1 EV_RE_bit ex_net = Some net1 \<and> Cleanup [(-1, EBADF)] 0 1 net1 = Some (Done net2) \<and>
    gDataMap (poll net2) 5 = Some 2 \<and>
    event_round (1, [\<lparr>ep_events = EPOLLIN, ep_fd = 5\<rparr>]) 0 eventreq_zero net2 = Some (req1, net3) \<and> signalled net3 = []"
proof -
  obtain net1 where r: "RequestEvent_ctx [(0, 0)] [] 1 EV_RE_bit ex_net = Some net1" "fUniqueID (contexts net1 1) = 2"
    "fFileDesc (contexts net1 1) = 5" "fRefCount (refs (fRefTable net1) 1) = 0" using ex_request by blast
  have nr: "1 \<notin> registered (fRefTable ex_net)" using ex_registered by simp
  have fr: "ref_inv (fRefTable net1)" "dict (fRefTable net1) (id_bytes 2) = Some 1" "gDataMap (poll net1) 5 = Some 2"
    "gEpollEvents (poll net1) = Some (replicate 4 \<lparr>ep_events = 0, ep_fd = 0\<rparr>)" "gCurTotalEvents (poll net1) \<le> 0" "signalled net1 = []"
    using first_request [OF _ nr _ _ _ _ r(1)] ex_ref_inv ex_epoll_simps r(2) by (simp_all add: ev_defs kInvalidFileDesc_def)
  obtain tb where u: "UnRegister (fRefTable net1) 1 0 = Some (Done tb)" using UnRegister_cases [OF fr(1), of 1 0] r(4) by auto
  obtain net2 where c: "Cleanup [(-1, EBADF)] 0 1 net1 = Some (Done net2)"
    using u r(2,3) by (auto simp: Cleanup_def Let_def removeevent_ep_def kInvalidFileDesc_def)
  have "gDataMap (poll net2) 5 = Some 2 \<and> dict (fRefTable net2) (id_bytes 2) = None \<and>
    (\<exists>req1 net3. event_round (1, [\<lparr>ep_events = EPOLLIN, ep_fd = 5\<rparr>]) 0 eventreq_zero net2 = Some (req1, net3) \<and> signalled net3 = signalled net1)"
    by (rule cleaned_up_gets_nothing [where arr = "replicate 4 \<lparr>ep_events = 0, ep_fd = 0\<rparr>", OF fr(1) r(3) _ r(2) _ fr(2,3,4) _ fr(5) c])
      (simp_all add: kInvalidFileDesc_def)
  then show ?thesis using r(1) c fr(6) by auto
qed

text \<open>
  The counter of the ids is not reset at ten million, and after \<open>2 ^ 32\<close> ids it gives the id zero, which the event thread
  takes for no context.
\<close>

lemma next_id_zero: "tv \<noteq> 2 ^ 32 - 1 \<Longrightarrow> fst (next_id b tv (2 ^ 32 - 1)) = 0"
  by (simp add: next_id_def u32_def)

lemma id_zero_gets_nothing: "er_data req = 0 \<Longrightarrow> dispatch_event req net = Some net"
  by (simp add: dispatch_event_def)

end
