(* ===== verification/CF_RWMutex.thy ===== *)
theory CF_RWMutex
  imports CF_Prelude
begin

text \<open>
  The reader-writer lock of \<^verbatim>\<open>src/CFCore/RWMutex.cpp\<close> and
  \<^verbatim>\<open>src/CFCore/include/CF/Core/RWMutex.h\<close>. Every method runs under the internal
  mutex and gives it up only inside \<^verbatim>\<open>Cond::Wait\<close>; the model therefore has one atomic
  operation from the call to the first test of the waiting condition, and one for each
  later test after a wake-up or a timeout. The threads of the program are a function from
  thread numbers to what the thread does with the lock.
\<close>

section \<open>Lock state and operations\<close>

record RWMutex =
  fState :: int
  fWriteWaiters :: int
  fReadWaiters :: int
  fActiveReaders :: int

definition RWMutex_new :: RWMutex where
  "RWMutex_new = \<lparr>fState = 0, fWriteWaiters = 0, fReadWaiters = 0, fActiveReaders = 0\<rparr>"

definition eActiveWriterState :: int where "eActiveWriterState = -1"
definition eNoWriterState :: int where "eNoWriterState = 0"

definition addWriteWaiter :: "RWMutex \<Rightarrow> RWMutex" where
  "addWriteWaiter m = m\<lparr>fWriteWaiters := fWriteWaiters m + 1\<rparr>"

definition removeWriteWaiter :: "RWMutex \<Rightarrow> RWMutex" where
  "removeWriteWaiter m = m\<lparr>fWriteWaiters := fWriteWaiters m - 1\<rparr>"

definition addReadWaiter :: "RWMutex \<Rightarrow> RWMutex" where
  "addReadWaiter m = m\<lparr>fReadWaiters := fReadWaiters m + 1\<rparr>"

definition removeReadWaiter :: "RWMutex \<Rightarrow> RWMutex" where
  "removeReadWaiter m = m\<lparr>fReadWaiters := fReadWaiters m - 1\<rparr>"

definition addActiveReader :: "RWMutex \<Rightarrow> RWMutex" where
  "addActiveReader m = m\<lparr>fState := fState m + 1\<rparr>"

definition removeActiveReader :: "RWMutex \<Rightarrow> RWMutex" where
  "removeActiveReader m = m\<lparr>fState := fState m - 1\<rparr>"

definition setState :: "int \<Rightarrow> RWMutex \<Rightarrow> RWMutex" where
  "setState i m = m\<lparr>fState := i\<rparr>"

definition waitingWriters :: "RWMutex \<Rightarrow> bool" where "waitingWriters m \<longleftrightarrow> fWriteWaiters m > 0"
definition active :: "RWMutex \<Rightarrow> bool" where "active m \<longleftrightarrow> fState m \<noteq> 0"
definition activeReaders :: "RWMutex \<Rightarrow> bool" where "activeReaders m \<longleftrightarrow> fState m > 0"
definition activeWriter :: "RWMutex \<Rightarrow> bool" where "activeWriter m \<longleftrightarrow> fState m < 0"

definition noteReaders :: "RWMutex \<Rightarrow> RWMutex" where
  "noteReaders m = m\<lparr>fActiveReaders := fState m\<rparr>"

lemmas rw_defs = addWriteWaiter_def removeWriteWaiter_def addReadWaiter_def removeReadWaiter_def
  addActiveReader_def removeActiveReader_def setState_def waitingWriters_def active_def activeReaders_def
  activeWriter_def noteReaders_def eActiveWriterState_def eNoWriterState_def

text \<open>\<open>(True, m)\<close>: the lock is taken; \<open>(False, m)\<close>: the thread waits.\<close>

definition LockRead_test :: "RWMutex \<Rightarrow> bool \<times> RWMutex" where
  "LockRead_test m =
     (if activeWriter m \<or> waitingWriters m then (False, m)
      else (True, noteReaders (addActiveReader (removeReadWaiter m))))"

definition LockRead :: "RWMutex \<Rightarrow> bool \<times> RWMutex" where
  "LockRead m = LockRead_test (addReadWaiter m)"

definition LockWrite_test :: "RWMutex \<Rightarrow> bool \<times> RWMutex" where
  "LockWrite_test m =
     (if activeReaders m then (False, m)
      else (True, noteReaders (setState eActiveWriterState (removeWriteWaiter m))))"

definition LockWrite :: "RWMutex \<Rightarrow> bool \<times> RWMutex" where
  "LockWrite m = LockWrite_test (addWriteWaiter m)"

datatype wakeup = NoWakeup | SignalWriter | BroadcastReaders

definition Unlock :: "RWMutex \<Rightarrow> wakeup \<times> RWMutex" where
  "Unlock m =
     (let (w, m1) =
        (if activeWriter m then
           (let m1 = setState eNoWriterState m
            in (if waitingWriters m1 then SignalWriter else BroadcastReaders, m1))
         else
           (let m1 = removeActiveReader m
            in if \<not> activeReaders m1 then (SignalWriter, setState eNoWriterState m1) else (NoWakeup, m1)))
      in (w, noteReaders m1))"

text \<open>
  The try operations hold the internal mutex, which is recursive, across the call of the
  lock operation. They return \<open>True\<close> for status 0 and \<open>False\<close> for
  \<^verbatim>\<open>EBUSY\<close>.
\<close>

definition TryLockWrite :: "RWMutex \<Rightarrow> bool \<times> RWMutex" where
  "TryLockWrite m = (if \<not> active m \<and> \<not> waitingWriters m then LockWrite m else (False, m))"

definition TryLockRead :: "RWMutex \<Rightarrow> bool \<times> RWMutex" where
  "TryLockRead m = (if \<not> activeWriter m \<and> \<not> waitingWriters m then LockRead m else (False, m))"

section \<open>Threads\<close>

datatype thread = Idle | WaitRead | WaitWrite | Reading | Writing

type_synonym rw_system = "RWMutex \<times> (nat \<Rightarrow> thread)"

definition after :: "thread \<Rightarrow> thread \<Rightarrow> bool \<times> RWMutex \<Rightarrow> (nat \<Rightarrow> thread) \<Rightarrow> nat \<Rightarrow> rw_system" where
  "after waiting running r ts t = (snd r, ts(t := if fst r then running else waiting))"

inductive rw_step :: "nat set \<Rightarrow> rw_system \<Rightarrow> rw_system \<Rightarrow> bool" for writers :: "nat set" where
  lock_read: "ts t = Idle \<Longrightarrow> rw_step writers (m, ts) (after WaitRead Reading (LockRead m) ts t)"
| wake_read: "ts t = WaitRead \<Longrightarrow> rw_step writers (m, ts) (after WaitRead Reading (LockRead_test m) ts t)"
| try_read: "ts t = Idle \<Longrightarrow> rw_step writers (m, ts) (after Idle Reading (TryLockRead m) ts t)"
| lock_write: "ts t = Idle \<Longrightarrow> t \<in> writers \<Longrightarrow> rw_step writers (m, ts) (after WaitWrite Writing (LockWrite m) ts t)"
| wake_write: "ts t = WaitWrite \<Longrightarrow> rw_step writers (m, ts) (after WaitWrite Writing (LockWrite_test m) ts t)"
| try_write: "ts t = Idle \<Longrightarrow> t \<in> writers \<Longrightarrow> rw_step writers (m, ts) (after Idle Writing (TryLockWrite m) ts t)"
| unlock: "ts t = Reading \<or> ts t = Writing \<Longrightarrow> rw_step writers (m, ts) (snd (Unlock m), ts(t := Idle))"

inductive_cases rw_stepE: "rw_step writers s s'"

text \<open>
  The lock state describes the threads: the number of readers, or -1 for the writer,
  and the waiting threads are counted.
\<close>

definition cnt :: "(nat \<Rightarrow> thread) \<Rightarrow> thread \<Rightarrow> int" where
  "cnt ts x = int (card {u. ts u = x})"

definition fin :: "(nat \<Rightarrow> thread) \<Rightarrow> bool" where
  "fin ts \<longleftrightarrow> finite {t. ts t \<noteq> Idle}"

definition rw_inv :: "nat \<Rightarrow> rw_system \<Rightarrow> bool" where
  "rw_inv w s \<longleftrightarrow>
     (let (m, ts) = s in
      fin ts \<and> (\<forall>t. t \<noteq> w \<longrightarrow> ts t \<noteq> WaitWrite \<and> ts t \<noteq> Writing) \<and>
      (ts w = Writing \<longrightarrow> cnt ts Reading = 0) \<and>
      fState m = (if ts w = Writing then -1 else cnt ts Reading) \<and>
      fWriteWaiters m = (if ts w = WaitWrite then 1 else 0) \<and>
      fReadWaiters m = cnt ts WaitRead \<and> fActiveReaders m = fState m)"

lemma cnt_upd:
  assumes "fin ts" "x \<noteq> Idle"
  shows "cnt (ts(t := y)) x = cnt ts x + (if y = x then 1 else 0) - (if ts t = x then 1 else 0)"
proof -
  have f: "finite {u. ts u = x}" using assms by (auto simp: fin_def intro: rev_finite_subset)
  have eq: "{u. (ts(t := y)) u = x} = (if y = x then insert t {u. ts u = x} else {u. ts u = x} - {t})"
    by auto
  show ?thesis
  proof (cases "ts t = x")
    case True
    then have "t \<in> {u. ts u = x}" by simp
    then have "0 < card {u. ts u = x}" using f card_gt_0_iff by blast
    with True f show ?thesis unfolding cnt_def eq by (auto simp: insert_absorb)
  next
    case False
    with f show ?thesis unfolding cnt_def eq by auto
  qed
qed

lemma fin_upd [simp]: "fin ts \<Longrightarrow> fin (ts(t := y))"
  unfolding fin_def by (rule finite_subset [of _ "insert t {t. ts t \<noteq> Idle}"]) auto

lemma cnt_nonneg [simp]: "0 \<le> cnt ts x"
  by (simp add: cnt_def)

lemma cnt_zero: "fin ts \<Longrightarrow> x \<noteq> Idle \<Longrightarrow> cnt ts x = 0 \<Longrightarrow> ts t \<noteq> x"
proof
  assume f: "fin ts" and n: "cnt ts x = 0" "x \<noteq> Idle" and r: "ts t = x"
  have "finite {t. ts t = x}" using f n(2) by (auto simp: fin_def intro: rev_finite_subset)
  with n r show False by (auto simp: cnt_def)
qed

lemma rw_inv_init: "rw_inv w (RWMutex_new, \<lambda>_. Idle)"
  by (simp add: rw_inv_def RWMutex_new_def fin_def cnt_def)

text \<open>The tests of the waiting conditions, from the state with the waiter counted.\<close>

lemma rw_inv_LockRead_test:
  assumes inv: "rw_inv w (m, ts)" and t: "ts t = WaitRead"
  shows "rw_inv w (after WaitRead Reading (LockRead_test m) ts t)"
proof (cases "activeWriter m \<or> waitingWriters m")
  case True
  with assms show ?thesis by (simp add: LockRead_test_def after_def fun_upd_idem)
next
  case False
  have f: "fin ts" using inv by (simp add: rw_inv_def)
  have "ts w \<noteq> Writing" "ts w \<noteq> WaitWrite" using inv False by (auto simp: rw_inv_def rw_defs split: if_splits)
  then show ?thesis using inv t False f
    unfolding rw_inv_def LockRead_test_def after_def
    by (simp add: rw_defs cnt_upd)
qed

lemma rw_inv_LockWrite_test:
  assumes inv: "rw_inv w (m, ts)" and t: "ts w = WaitWrite"
  shows "rw_inv w (after WaitWrite Writing (LockWrite_test m) ts w)"
proof (cases "activeReaders m")
  case True
  with assms show ?thesis by (simp add: LockWrite_test_def after_def fun_upd_idem)
next
  case False
  have f: "fin ts" using inv by (simp add: rw_inv_def)
  have "cnt ts Reading = 0" using inv t False cnt_nonneg [of ts Reading] by (simp add: rw_inv_def rw_defs)
  then show ?thesis using inv t False f
    unfolding rw_inv_def LockWrite_test_def after_def
    by (simp add: rw_defs cnt_upd)
qed

lemma rw_inv_wait:
  assumes inv: "rw_inv w (m, ts)" and t: "ts t = Idle"
  shows "rw_inv w (addReadWaiter m, ts(t := WaitRead))"
    and "t = w \<Longrightarrow> rw_inv w (addWriteWaiter m, ts(t := WaitWrite))"
  using assms by (auto simp: rw_inv_def rw_defs cnt_upd)

lemma after_upd [simp]: "after p q r (ts(t := x)) t = after p q r ts t"
  by (simp add: after_def)

lemma rw_inv_LockRead:
  assumes "rw_inv w (m, ts)" "ts t = Idle"
  shows "rw_inv w (after WaitRead Reading (LockRead m) ts t)"
  using rw_inv_LockRead_test [OF rw_inv_wait(1) [OF assms], of t] by (simp add: LockRead_def)

lemma rw_inv_LockWrite:
  assumes "rw_inv w (m, ts)" "ts w = Idle"
  shows "rw_inv w (after WaitWrite Writing (LockWrite m) ts w)"
  using rw_inv_LockWrite_test [OF rw_inv_wait(2) [OF assms refl]] by (simp add: LockWrite_def)

lemma rw_inv_Unlock:
  assumes inv: "rw_inv w (m, ts)" and t: "ts t = Reading \<or> ts t = Writing"
  shows "rw_inv w (snd (Unlock m), ts(t := Idle))"
proof (cases "ts t = Writing")
  case True
  then have "t = w" using inv by (auto simp: rw_inv_def)
  then show ?thesis using inv True unfolding rw_inv_def Unlock_def by (auto simp: rw_defs cnt_upd Let_def)
next
  case False
  have f: "fin ts" using inv by (simp add: rw_inv_def)
  have r: "ts t = Reading" using t False by simp
  have "cnt ts Reading \<noteq> 0" using cnt_zero [OF f, of Reading t] r by auto
  then have pos: "0 < cnt ts Reading" using cnt_nonneg [of ts Reading] by linarith
  then have "ts w \<noteq> Writing" using inv by (auto simp: rw_inv_def)
  then show ?thesis using inv r pos f unfolding rw_inv_def Unlock_def
    by (auto simp: rw_defs cnt_upd Let_def)
qed

lemma TryLockRead_cases:
  "TryLockRead m = (if \<not> activeWriter m \<and> \<not> waitingWriters m then LockRead m else (False, m))"
  "\<not> activeWriter m \<and> \<not> waitingWriters m \<Longrightarrow> fst (LockRead m)"
  "\<not> active m \<and> \<not> waitingWriters m \<Longrightarrow> fst (LockWrite m)"
  by (auto simp: TryLockRead_def LockRead_def LockRead_test_def LockWrite_def LockWrite_test_def rw_defs)

lemma rw_step_inv:
  assumes "rw_step {w} s s'" "rw_inv w s"
  shows "rw_inv w s'"
  using assms
proof (cases rule: rw_step.cases)
  case (lock_read ts t m)
  then show ?thesis using rw_inv_LockRead assms(2) by simp
next
  case (wake_read ts t m)
  then show ?thesis using rw_inv_LockRead_test assms(2) by simp
next
  case (try_read ts t m)
  show ?thesis
  proof (cases "\<not> activeWriter m \<and> \<not> waitingWriters m")
    case True
    then have "fst (LockRead m)" by (rule TryLockRead_cases)
    then have "after Idle Reading (TryLockRead m) ts t = after WaitRead Reading (LockRead m) ts t"
      using True by (simp add: TryLockRead_def after_def)
    then show ?thesis using rw_inv_LockRead assms(2) try_read by simp
  next
    case False
    then have "TryLockRead m = (False, m)" by (auto simp: TryLockRead_def)
    then show ?thesis using assms(2) try_read by (simp add: after_def fun_upd_idem)
  qed
next
  case (lock_write ts t m)
  then show ?thesis using rw_inv_LockWrite assms(2) by simp
next
  case (wake_write ts t m)
  then have "t = w" using assms(2) by (auto simp: rw_inv_def)
  then show ?thesis using rw_inv_LockWrite_test assms(2) wake_write by simp
next
  case (try_write ts t m)
  show ?thesis
  proof (cases "\<not> active m \<and> \<not> waitingWriters m")
    case True
    then have "fst (LockWrite m)" by (rule TryLockRead_cases)
    then have "after Idle Writing (TryLockWrite m) ts t = after WaitWrite Writing (LockWrite m) ts t"
      using True by (simp add: TryLockWrite_def after_def)
    then show ?thesis using rw_inv_LockWrite assms(2) try_write by simp
  next
    case False
    then have "TryLockWrite m = (False, m)" by (auto simp: TryLockWrite_def)
    then show ?thesis using assms(2) try_write by (simp add: after_def fun_upd_idem)
  qed
next
  case (unlock ts t m)
  then show ?thesis using rw_inv_Unlock assms(2) by simp
qed

section \<open>Properties\<close>

text \<open>C20: When only one thread ever takes the lock for writing, the lock works: in every
  reachable state a writing thread excludes all readers, the state field is the number
  of readers or -1 for the writer, and the waiter counters are exact.\<close>

theorem RWMutex_single_writer:
  assumes "(rw_step {w})\<^sup>*\<^sup>* (RWMutex_new, \<lambda>_. Idle) (m, ts)"
  shows "(\<forall>t u. ts t = Writing \<and> t \<noteq> u \<longrightarrow> ts u \<noteq> Reading \<and> ts u \<noteq> Writing) \<and>
    fState m = (if ts w = Writing then -1 else int (card {t. ts t = Reading})) \<and>
    fReadWaiters m = int (card {t. ts t = WaitRead}) \<and> fWriteWaiters m = int (card {t. ts t = WaitWrite})"
proof -
  have inv: "rw_inv w (m, ts)"
    using assms by (induction rule: rtranclp_induct2) (auto intro: rw_inv_init rw_step_inv)
  have f: "fin ts" using inv by (simp add: rw_inv_def)
  have "ts u \<noteq> Reading \<and> ts u \<noteq> Writing" if t: "ts t = Writing" "t \<noteq> u" for t u
  proof -
    have tw: "t = w" using inv t(1) by (auto simp: rw_inv_def)
    then have "cnt ts Reading = 0" using inv t(1) by (simp add: rw_inv_def)
    moreover have "ts u \<noteq> Writing" using inv tw t(2) by (auto simp: rw_inv_def)
    ultimately show ?thesis using cnt_zero [OF f, of Reading u] by simp
  qed
  moreover have "{t. ts t = WaitWrite} = (if ts w = WaitWrite then {w} else {})" using inv by (auto simp: rw_inv_def)
  ultimately show ?thesis using inv by (auto simp: rw_inv_def cnt_def)
qed

theorem RWMutex_single_writer_witness:
  "fState (snd (LockRead RWMutex_new)) = int (card {t. ((\<lambda>_::nat. Idle)(3 := Reading)) t = Reading})"
proof -
  let ?i = "\<lambda>_::nat. Idle"
  have "fst (LockRead RWMutex_new)" by code_simp
  then have "rw_step {0} (RWMutex_new, ?i) (snd (LockRead RWMutex_new), ?i(3 := Reading))"
    using rw_step.lock_read [of ?i 3 "{0}" RWMutex_new] by (simp add: after_def)
  then show ?thesis
    using RWMutex_single_writer [of 0 "snd (LockRead RWMutex_new)" "?i(3 := Reading)"] by (simp add: r_into_rtranclp)
qed

text \<open>With two writing threads the lock does not exclude: \<^verbatim>\<open>LockWrite\<close> waits
  only for active readers, so a second writer enters beside the first; and when one of
  the two unlocks, a reader enters beside the other.\<close>

theorem RWMutex_two_writers:
  "\<exists>m ts m' ts'. (rw_step {0, 1})\<^sup>*\<^sup>* (RWMutex_new, \<lambda>_. Idle) (m, ts) \<and> ts 0 = Writing \<and> ts 1 = Writing \<and>
     (rw_step {0, 1})\<^sup>*\<^sup>* (m, ts) (m', ts') \<and> ts' 1 = Writing \<and> ts' 2 = Reading"
proof -
  let ?i = "\<lambda>_::nat. Idle"
  let ?m1 = "snd (LockWrite RWMutex_new)" and ?t1 = "?i(0 := Writing)"
  let ?m2 = "snd (LockWrite ?m1)" and ?t2 = "?i(0 := Writing, 1 := Writing)"
  let ?m3 = "snd (Unlock ?m2)" and ?t3 = "?t2(0 := Idle)"
  let ?m4 = "snd (LockRead ?m3)" and ?t4 = "?t3(2 := Reading)"
  have f: "fst (LockWrite RWMutex_new)" "fst (LockWrite ?m1)" "fst (LockRead ?m3)" by code_simp+
  have 1: "rw_step {0, 1} (RWMutex_new, ?i) (?m1, ?t1)"
    using rw_step.lock_write [of ?i 0 "{0, 1}" RWMutex_new] f(1) by (simp add: after_def)
  have 2: "rw_step {0, 1} (?m1, ?t1) (?m2, ?t2)"
    using rw_step.lock_write [of ?t1 1 "{0, 1}" ?m1] f(2) by (simp add: after_def)
  have 3: "rw_step {0, 1} (?m2, ?t2) (?m3, ?t3)"
    using rw_step.unlock [of ?t2 0 "{0, 1}" ?m2] by simp
  have 4: "rw_step {0, 1} (?m3, ?t3) (?m4, ?t4)"
    using rw_step.lock_read [of ?t3 2 "{0, 1}" ?m3] f(3) by (simp add: after_def)
  have "(rw_step {0, 1})\<^sup>*\<^sup>* (RWMutex_new, ?i) (?m2, ?t2)" "(rw_step {0, 1})\<^sup>*\<^sup>* (?m2, ?t2) (?m4, ?t4)"
    using 1 2 3 4 by (meson converse_rtranclp_into_rtranclp rtranclp.rtrancl_refl)+
  moreover have "?t2 0 = Writing" "?t2 1 = Writing" "?t4 1 = Writing" "?t4 2 = Reading" by simp_all
  ultimately show ?thesis by blast
qed

end
