(* ===== verification/CF_Heap.thy ===== *)
theory CF_Heap
  imports CF_Def
begin

text \<open>
  The binary min-heap of \<^verbatim>\<open>src/CFCore/Heap.cpp\<close> and
  \<^verbatim>\<open>src/CFCore/include/CF/Heap.h\<close>. A \<^verbatim>\<open>Heap\<close> stores pointers to
  \<^verbatim>\<open>HeapElem\<close> objects it does not own, so the model has a store of elements
  (address to object) beside the heap record; the array slots hold addresses. Slot 0
  is unused, slots from \<^verbatim>\<open>fFreeIndex\<close> on are uninitialised memory (0 in the
  model, never read). Array indices are natural numbers: \<^verbatim>\<open>parent * 2 + 1\<close>
  stays below \<open>2 ^ 32\<close> as long as the heap has at most \<open>2 ^ 31\<close> slots. The doubling of the
  array size in \<^verbatim>\<open>Insert\<close> is the one of \<^verbatim>\<open>UInt32\<close>, which gives 0 at \<open>2 ^ 31\<close> slots;
  copying the old array into one that is too small is \<^term>\<open>None\<close>.
  The \<^verbatim>\<open>fHeap == nullptr\<close> tests of the source are always false after the
  constructor, which allocates the array. An assertion that fails is \<^term>\<open>None\<close>;
  the assertions that an element is not null hold because addresses are passed.
\<close>

section \<open>State\<close>

record HeapElem =
  fValue :: int
  fEnclosingObject :: nat
  fCurrentHeap :: "nat option"

type_synonym elem_store = "nat \<Rightarrow> HeapElem"

record Heap =
  heapAddr :: nat
  fHeap :: "nat list"
  fFreeIndex :: nat
  fArraySize :: nat

section \<open>Operations\<close>

definition HeapElem_new :: "nat \<Rightarrow> HeapElem" where
  "HeapElem_new enclosingObject =
     \<lparr>fValue = 0, fEnclosingObject = enclosingObject, fCurrentHeap = None\<rparr>"

definition SetValue :: "elem_store \<Rightarrow> nat \<Rightarrow> int \<Rightarrow> elem_store" where
  "SetValue st e newValue = st(e := (st e)\<lparr>fValue := newValue\<rparr>)"

definition IsMemberOfAnyHeap :: "elem_store \<Rightarrow> nat \<Rightarrow> bool" where
  "IsMemberOfAnyHeap st e \<longleftrightarrow> fCurrentHeap (st e) \<noteq> None"

definition Heap_new :: "nat \<Rightarrow> nat \<Rightarrow> Heap" where
  "Heap_new this inStartSize =
     (let size = (if inStartSize < 2 then 2 else inStartSize)
      in \<lparr>heapAddr = this, fHeap = replicate size 0, fFreeIndex = 1, fArraySize = size\<rparr>)"

definition CurrentHeapSize :: "Heap \<Rightarrow> nat" where
  "CurrentHeapSize h = fFreeIndex h - 1"

definition PeekMin :: "Heap \<Rightarrow> nat option" where
  "PeekMin h = (if CurrentHeapSize h > 0 then Some (fHeap h ! 1) else None)"

definition key :: "elem_store \<Rightarrow> nat list \<Rightarrow> nat \<Rightarrow> int" where
  "key st a i = fValue (st (a ! i))"

function ShiftUp :: "elem_store \<Rightarrow> nat list \<Rightarrow> nat \<Rightarrow> nat list" where
  "ShiftUp st a swapPos =
     (if swapPos > 1 then
        (let nextSwapPos = swapPos div 2
         in if key st a swapPos < key st a nextSwapPos
            then ShiftUp st (swap swapPos nextSwapPos a) nextSwapPos
            else a)
      else a)"
  by pat_completeness auto
termination
  by (relation "measure (\<lambda>(st, a, p). p)") auto

definition smallest :: "elem_store \<Rightarrow> nat \<Rightarrow> nat list \<Rightarrow> nat \<Rightarrow> nat" where
  "smallest st free a parent =
     (let leftChild = parent * 2;
          greatest = (if leftChild < free \<and> key st a leftChild < key st a parent
                      then leftChild else parent);
          rightChild = parent * 2 + 1
      in if rightChild < free \<and> key st a rightChild < key st a greatest
         then rightChild else greatest)"

lemma smallest_cases:
  "smallest st free a parent = parent \<or>
   smallest st free a parent = parent * 2 \<and> parent * 2 < free \<or>
   smallest st free a parent = parent * 2 + 1 \<and> parent * 2 + 1 < free"
  by (auto simp: smallest_def Let_def)

function ShiftDown :: "elem_store \<Rightarrow> nat \<Rightarrow> nat list \<Rightarrow> nat \<Rightarrow> nat list" where
  "ShiftDown st free a parent =
     (if parent < free then
        (let greatest = smallest st free a parent
         in if greatest = parent then a
            else ShiftDown st free (swap parent greatest a) greatest)
      else a)"
  by pat_completeness auto
termination
proof (relation "measure (\<lambda>(st, free, a, p). free - p)", goal_cases)
  case 1
  then show ?case by simp
next
  case (2 st free a parent g)
  then show ?case using smallest_cases [of st free a parent]
    by (auto simp: smallest_def Let_def split: if_splits)
qed

declare ShiftUp.simps [simp del] ShiftDown.simps [simp del]

text \<open>Evaluation goes through words, whose numerals are binary.\<close>

lemma u32_code [code]: "u32 n = unat (of_nat n :: UInt32)"
  by (simp add: u32_def unat_of_nat)

definition Insert :: "elem_store \<times> Heap \<Rightarrow> nat \<Rightarrow> (elem_store \<times> Heap) option" where
  "Insert s inElem =
     (let (st, h) = s;
          arraySize = u32 (fArraySize h * 2);
          copied = (if fFreeIndex h > 1 then take (fFreeIndex h) (fHeap h) else [])
      in do {
           h1 \<leftarrow> (if fFreeIndex h \<ge> fArraySize h
                 then (if length copied \<le> arraySize
                       then Some (h\<lparr>fArraySize := arraySize, fHeap := copied @ replicate (arraySize - length copied) 0\<rparr>)
                       else None)
                 else Some h);
           Assert (fCurrentHeap (st inElem) = None);
           Assert (fArraySize h1 > fFreeIndex h1);
           let a1 = (fHeap h1)[fFreeIndex h1 := inElem];
           let a2 = ShiftUp st a1 (fFreeIndex h1);
           Some (st(inElem := (st inElem)\<lparr>fCurrentHeap := Some (heapAddr h)\<rparr>),
                 h1\<lparr>fHeap := a2, fFreeIndex := fFreeIndex h1 + 1\<rparr>)
         })"

definition Extract :: "elem_store \<times> Heap \<Rightarrow> nat \<Rightarrow> (nat option \<times> elem_store \<times> Heap) option" where
  "Extract s inIndex =
     (let (st, h) = s
      in if fFreeIndex h \<le> inIndex then Some (None, s)
         else
           do {
             let victim = fHeap h ! inIndex;
             Assert (fCurrentHeap (st victim) = Some (heapAddr h));
             let st1 = st(victim := (st victim)\<lparr>fCurrentHeap := None\<rparr>);
             let a1 = (fHeap h)[inIndex := fHeap h ! (fFreeIndex h - 1)];
             let free1 = fFreeIndex h - 1;
             let a2 = ShiftDown st1 free1 a1 inIndex;
             Some (Some victim, st1, h\<lparr>fHeap := a2, fFreeIndex := free1\<rparr>)
           })"

definition ExtractMin :: "elem_store \<times> Heap \<Rightarrow> (nat option \<times> elem_store \<times> Heap) option" where
  "ExtractMin s = Extract s 1"

function locate :: "nat list \<Rightarrow> nat \<Rightarrow> nat \<Rightarrow> nat \<Rightarrow> nat" where
  "locate a free inElem theIndex =
     (if theIndex < free then
        (if inElem = a ! theIndex then theIndex else locate a free inElem (theIndex + 1))
      else theIndex)"
  by pat_completeness auto
termination
  by (relation "measure (\<lambda>(a, free, e, i). free - i)") auto

declare locate.simps [simp del]

definition Remove :: "elem_store \<times> Heap \<Rightarrow> nat option \<Rightarrow> (nat option \<times> elem_store \<times> Heap) option" where
  "Remove s inElem =
     (let (st, h) = s
      in case inElem of
           None \<Rightarrow> Some (None, s)
         | Some e \<Rightarrow>
             if fFreeIndex h \<le> 1 then Some (None, s)
             else if \<not> IsMemberOfAnyHeap st e then Some (None, s)
             else (let theIndex = locate (fHeap h) (fFreeIndex h) e 1
                   in if theIndex = fFreeIndex h then Some (None, s) else Extract s theIndex))"

definition heapUpdateFlagNone :: nat where "heapUpdateFlagNone = 0"
definition heapUpdateFlagExpectUp :: nat where "heapUpdateFlagExpectUp = 1"
definition heapUpdateFlagExpectDown :: nat where "heapUpdateFlagExpectDown = 2"

unbundle bit_operations_syntax

definition Update :: "elem_store \<times> Heap \<Rightarrow> nat option \<Rightarrow> int \<Rightarrow> nat \<Rightarrow> elem_store \<times> Heap" where
  "Update s inElem inValue inFlag =
     (let (st, h) = s
      in case inElem of
           None \<Rightarrow> s
         | Some e \<Rightarrow>
             if fFreeIndex h \<le> 1 then s
             else
               (let theIndex = locate (fHeap h) (fFreeIndex h) e 1
                in if theIndex = fFreeIndex h then s
                   else if inValue < key st (fHeap h) theIndex then
                     (if heapUpdateFlagExpectDown AND inFlag \<noteq> 0 then s
                      else (let st1 = SetValue st (fHeap h ! theIndex) inValue
                            in (st1, h\<lparr>fHeap := ShiftUp st1 (fHeap h) theIndex\<rparr>)))
                   else if inValue > key st (fHeap h) theIndex then
                     (if heapUpdateFlagExpectUp AND inFlag \<noteq> 0 then s
                      else (let st1 = SetValue st (fHeap h ! theIndex) inValue
                            in (st1, h\<lparr>fHeap := ShiftDown st1 (fFreeIndex h) (fHeap h) theIndex\<rparr>)))
                   else s))"

section \<open>Order and contents\<close>

text \<open>The occupied slots 1 to \<open>n - 1\<close> of the array, and the min-heap order on them.\<close>

definition slots :: "nat \<Rightarrow> nat list \<Rightarrow> nat list" where
  "slots n a = take (n - 1) (drop 1 a)"

definition heap_ordered :: "elem_store \<Rightarrow> nat \<Rightarrow> nat list \<Rightarrow> bool" where
  "heap_ordered st n a \<longleftrightarrow> (\<forall>i \<in> {2..<n}. key st a (i div 2) \<le> key st a i)"

lemma length_slots [simp]: "n \<le> length a \<Longrightarrow> length (slots n a) = n - 1"
  by (auto simp: slots_def)

lemma nth_slots: "i < n - 1 \<Longrightarrow> n \<le> length a \<Longrightarrow> slots n a ! i = a ! Suc i"
  by (simp add: slots_def)

lemma set_slots: "n \<le> length a \<Longrightarrow> set (slots n a) = {a ! i | i. 1 \<le> i \<and> i < n}"
proof (safe, goal_cases)
  case (1 x)
  then obtain i where "i < n - 1" "x = a ! Suc i"
    by (auto simp: in_set_conv_nth nth_slots)
  then show ?case by (intro exI [of _ "Suc i"]) auto
next
  case (2 x i)
  then show ?case
    by (auto simp: in_set_conv_nth nth_slots intro!: exI [of _ "i - 1"])
qed

lemma slots_swap:
  assumes "1 \<le> i" "i < n" "1 \<le> j" "j < n" "n \<le> length a"
  shows "slots n (swap i j a) = swap (i - 1) (j - 1) (slots n a)"
proof (rule nth_equalityI)
  show "length (slots n (swap i j a)) = length (swap (i - 1) (j - 1) (slots n a))"
    using assms by simp
next
  fix p assume "p < length (slots n (swap i j a))"
  then show "slots n (swap i j a) ! p = swap (i - 1) (j - 1) (slots n a) ! p"
    using assms by (auto simp: nth_slots nth_swap)
qed

lemma mset_swap_list: "i < length xs \<Longrightarrow> j < length xs \<Longrightarrow> mset (swap i j xs) = mset xs"
  unfolding swap_def by (rule mset_swap)

lemma mset_slots_swap:
  assumes "1 \<le> i" "i < n" "1 \<le> j" "j < n" "n \<le> length a"
  shows "mset (slots n (swap i j a)) = mset (slots n a)"
  using assms by (simp add: slots_swap mset_swap_list)

lemma key_swap:
  "i < length a \<Longrightarrow> j < length a \<Longrightarrow> p < length a \<Longrightarrow>
   key st (swap i j a) p = (if p = j then key st a i else if p = i then key st a j else key st a p)"
  by (simp add: key_def nth_swap)

section \<open>Sifting\<close>

lemma half_bounds: "1 < (p::nat) \<Longrightarrow> 1 \<le> p div 2 \<and> p div 2 < p"
  by auto

lemma length_ShiftUp [simp]: "length (ShiftUp st a p) = length a"
  by (induction st a p rule: ShiftUp.induct) (subst ShiftUp.simps, simp add: Let_def)

lemma mset_ShiftUp:
  "1 \<le> p \<Longrightarrow> p < n \<Longrightarrow> n \<le> length a \<Longrightarrow> mset (slots n (ShiftUp st a p)) = mset (slots n a)"
proof (induction st a p rule: ShiftUp.induct)
  case (1 st a p)
  show ?case
  proof (cases "p > 1 \<and> key st a p < key st a (p div 2)")
    case True
    then have "mset (slots n (ShiftUp st (swap p (p div 2) a) (p div 2)))
        = mset (slots n (swap p (p div 2) a))"
      using 1 half_bounds [of p] by simp
    with True 1 half_bounds [of p] show ?thesis
      by (subst ShiftUp.simps) (simp add: Let_def mset_slots_swap)
  next
    case False
    then show ?thesis by (subst ShiftUp.simps) (auto simp: Let_def)
  qed
qed

text \<open>
  While an element sifts up, the order holds everywhere except between it and its
  parent, and its children are not smaller than its parent.
\<close>

definition up_inv :: "elem_store \<Rightarrow> nat \<Rightarrow> nat list \<Rightarrow> nat \<Rightarrow> bool" where
  "up_inv st n a p \<longleftrightarrow>
     (\<forall>i \<in> {2..<n}. i \<noteq> p \<longrightarrow> key st a (i div 2) \<le> key st a i) \<and>
     (\<forall>i \<in> {2..<n}. i div 2 = p \<and> 2 \<le> p \<longrightarrow> key st a (p div 2) \<le> key st a i)"

lemma up_inv_step:
  assumes inv: "up_inv st n a p" and p: "1 < p" "p < n" "n \<le> length a"
    and less: "key st a p < key st a (p div 2)"
  shows "up_inv st n (swap p (p div 2) a) (p div 2)"
proof -
  let ?q = "p div 2" let ?b = "swap p ?q a"
  have pq: "?q < p" "1 \<le> ?q" using p by auto
  have k: "key st ?b i = (if i = ?q then key st a p else if i = p then key st a ?q else key st a i)"
    if "i < n" for i using that p pq by (simp add: key_swap)
  have ord: "key st a (i div 2) \<le> key st a i" if "2 \<le> i" "i < n" "i \<noteq> p" for i
    using inv that by (auto simp: up_inv_def)
  have child: "key st a ?q \<le> key st a i" if "2 \<le> i" "i < n" "i div 2 = p" for i
    using inv that p by (auto simp: up_inv_def)
  have 1: "key st ?b (i div 2) \<le> key st ?b i" if i: "2 \<le> i" "i < n" "i \<noteq> ?q" for i
  proof -
    have d: "i div 2 < n" using i by auto
    consider "i = p" | "i \<noteq> p" "i div 2 = p" | "i \<noteq> p" "i div 2 = ?q" | "i \<noteq> p" "i div 2 \<noteq> p" "i div 2 \<noteq> ?q"
      by blast
    then show ?thesis
    proof cases
      case 1 with less pq p show ?thesis by (simp add: k)
    next
      case 2 with i d child [of i] pq p show ?thesis by (auto simp: k)
    next
      case 3 with i d ord [of i] less pq p show ?thesis by (simp add: k)
    next
      case 4 with i d ord [of i] pq p show ?thesis by (simp add: k)
    qed
  qed
  have 2: "key st ?b (?q div 2) \<le> key st ?b i" if i: "2 \<le> i" "i < n" "i div 2 = ?q" "2 \<le> ?q" for i
  proof -
    have q: "key st a (?q div 2) \<le> key st a ?q" using ord [of ?q] i pq p by simp
    have qq: "?q div 2 < ?q" using i by simp
    with pq p have kq: "key st ?b (?q div 2) = key st a (?q div 2)" by (subst k) auto
    show ?thesis unfolding kq using q qq i ord [of i] pq p less by (cases "i = p") (auto simp: k)
  qed
  from 1 2 show ?thesis by (auto simp: up_inv_def)
qed

lemma ShiftUp_ordered:
  "up_inv st n a p \<Longrightarrow> 1 \<le> p \<Longrightarrow> p < n \<Longrightarrow> n \<le> length a \<Longrightarrow> heap_ordered st n (ShiftUp st a p)"
proof (induction st a p rule: ShiftUp.induct)
  case (1 st a p)
  show ?case
  proof (cases "p > 1 \<and> key st a p < key st a (p div 2)")
    case True
    with 1 have "heap_ordered st n (ShiftUp st (swap p (p div 2) a) (p div 2))"
      using half_bounds [of p] by (simp add: up_inv_step)
    with True show ?thesis by (subst ShiftUp.simps) (simp add: Let_def)
  next
    case False
    with 1(2,3) have "heap_ordered st n a"
      by (fastforce simp: up_inv_def heap_ordered_def)
    with False show ?thesis by (subst ShiftUp.simps) (auto simp: Let_def)
  qed
qed

lemma length_ShiftDown [simp]: "length (ShiftDown st n a p) = length a"
  by (induction st n a p rule: ShiftDown.induct) (subst ShiftDown.simps, simp add: Let_def)

lemma smallest_bounds:
  assumes "smallest st n a p \<noteq> p" "1 \<le> p" "p < n"
  shows "p < smallest st n a p" "smallest st n a p < n" "smallest st n a p div 2 = p"
    "key st a (smallest st n a p) < key st a p"
  using assms by (auto simp: smallest_def Let_def split: if_splits)

lemma smallest_le:
  assumes "1 \<le> p" "i div 2 = p" "i < n"
  shows "key st a (smallest st n a p) \<le> key st a i"
proof -
  have "i = p * 2 \<or> i = p * 2 + 1" using assms by auto
  with assms show ?thesis by (auto simp: smallest_def Let_def)
qed

lemma mset_ShiftDown:
  "1 \<le> p \<Longrightarrow> n \<le> length a \<Longrightarrow> mset (slots n (ShiftDown st n a p)) = mset (slots n a)"
proof (induction st n a p rule: ShiftDown.induct)
  case (1 st n a p)
  let ?g = "smallest st n a p"
  show ?case
  proof (cases "p < n \<and> ?g \<noteq> p")
    case True
    with 1 have "mset (slots n (ShiftDown st n (swap p ?g a) ?g)) = mset (slots n (swap p ?g a))"
      using smallest_bounds [of st n a p] by simp
    also have "\<dots> = mset (slots n a)"
      using True 1 smallest_bounds [of st n a p] by (intro mset_slots_swap) auto
    finally show ?thesis using True by (subst ShiftDown.simps) (simp add: Let_def)
  next
    case False
    then show ?thesis by (subst ShiftDown.simps) (auto simp: Let_def)
  qed
qed

text \<open>
  While an element sifts down, the order holds everywhere except between it and its
  children, and its children are not smaller than its parent.
\<close>

definition down_inv :: "elem_store \<Rightarrow> nat \<Rightarrow> nat list \<Rightarrow> nat \<Rightarrow> bool" where
  "down_inv st n a p \<longleftrightarrow>
     (\<forall>i \<in> {2..<n}. i div 2 \<noteq> p \<longrightarrow> key st a (i div 2) \<le> key st a i) \<and>
     (\<forall>i \<in> {2..<n}. i div 2 = p \<and> 2 \<le> p \<longrightarrow> key st a (p div 2) \<le> key st a i)"

lemma down_inv_step:
  assumes inv: "down_inv st n a p" and p: "1 \<le> p" "p < n" "n \<le> length a"
    and neq: "smallest st n a p \<noteq> p"
  shows "down_inv st n (swap p (smallest st n a p) a) (smallest st n a p)"
proof -
  let ?g = "smallest st n a p" let ?b = "swap p ?g a"
  note g = smallest_bounds [OF neq p(1,2)]
  have k: "key st ?b i = (if i = ?g then key st a p else if i = p then key st a ?g else key st a i)"
    if "i < n" for i using that p g by (simp add: key_swap)
  have ord: "key st a (i div 2) \<le> key st a i" if "2 \<le> i" "i < n" "i div 2 \<noteq> p" for i
    using inv that by (auto simp: down_inv_def)
  have child: "key st a (p div 2) \<le> key st a i" if "2 \<le> i" "i < n" "i div 2 = p" "2 \<le> p" for i
    using inv that by (auto simp: down_inv_def)
  have least: "key st a ?g \<le> key st a i" if "i div 2 = p" "i < n" for i
    using that p by (intro smallest_le) auto
  have 1: "key st ?b (i div 2) \<le> key st ?b i" if i: "2 \<le> i" "i < n" "i div 2 \<noteq> ?g" for i
  proof -
    have d: "i div 2 < n" using i by auto
    consider "i div 2 = p" "i = ?g" | "i div 2 = p" "i \<noteq> ?g" | "i div 2 \<noteq> p" "i = p"
      | "i div 2 \<noteq> p" "i \<noteq> p" "i \<noteq> ?g" using g by metis
    then show ?thesis
    proof cases
      case 1 with i d g p show ?thesis by (auto simp: k)
    next
      case 2 with i d g p least [of i] show ?thesis by (auto simp: k)
    next
      case 3 with i d g p child [of ?g] show ?thesis by (auto simp: k)
    next
      case 4 with i d g p ord [of i] show ?thesis by (auto simp: k)
    qed
  qed
  have 2: "key st ?b (?g div 2) \<le> key st ?b i" if i: "2 \<le> i" "i < n" "i div 2 = ?g" "2 \<le> ?g" for i
    using i g p ord [of i] by (auto simp: k)
  from 1 2 show ?thesis by (auto simp: down_inv_def)
qed

lemma ShiftDown_ordered:
  "down_inv st n a p \<Longrightarrow> 1 \<le> p \<Longrightarrow> n \<le> length a \<Longrightarrow> heap_ordered st n (ShiftDown st n a p)"
proof (induction st n a p rule: ShiftDown.induct)
  case (1 st n a p)
  let ?g = "smallest st n a p"
  show ?case
  proof (cases "p < n \<and> ?g \<noteq> p")
    case True
    with 1 have "heap_ordered st n (ShiftDown st n (swap p ?g a) ?g)"
      using smallest_bounds [of st n a p] down_inv_step [of st n a p] by simp
    with True show ?thesis by (subst ShiftDown.simps) (simp add: Let_def)
  next
    case False
    have "heap_ordered st n a"
      unfolding heap_ordered_def
    proof
      fix i assume i: "i \<in> {2..<n}"
      show "key st a (i div 2) \<le> key st a i"
      proof (cases "i div 2 = p")
        case True
        with i False have "?g = p" by auto
        with True i 1(3) smallest_le [of p i n st a] show ?thesis by auto
      qed (use i 1(2) in \<open>auto simp: down_inv_def\<close>)
    qed
    with False show ?thesis by (subst ShiftDown.simps) (auto simp: Let_def)
  qed
qed

section \<open>The heap invariant and its operations\<close>

definition elems :: "elem_store \<times> Heap \<Rightarrow> nat set" where
  "elems s = set (slots (fFreeIndex (snd s)) (fHeap (snd s)))"

definition prio :: "elem_store \<times> Heap \<Rightarrow> nat \<Rightarrow> int" where
  "prio s e = fValue (fst s e)"

text \<open>The shape of a heap, without its order.\<close>

definition heap_shape :: "elem_store \<times> Heap \<Rightarrow> bool" where
  "heap_shape s \<longleftrightarrow>
     1 \<le> fFreeIndex (snd s) \<and> fFreeIndex (snd s) \<le> fArraySize (snd s) \<and> 2 \<le> fArraySize (snd s) \<and>
     length (fHeap (snd s)) = fArraySize (snd s) \<and>
     distinct (slots (fFreeIndex (snd s)) (fHeap (snd s))) \<and>
     (\<forall>e \<in> elems s. fCurrentHeap (fst s e) = Some (heapAddr (snd s)))"

definition heap_inv :: "elem_store \<times> Heap \<Rightarrow> bool" where
  "heap_inv s \<longleftrightarrow> heap_shape s \<and> heap_ordered (fst s) (fFreeIndex (snd s)) (fHeap (snd s))"

lemma key_upd_fCurrentHeap [simp]:
  "key (st(e := (st e)\<lparr>fCurrentHeap := x\<rparr>)) a i = key st a i"
  by (simp add: key_def)

lemma heap_ordered_upd_fCurrentHeap [simp]:
  "heap_ordered (st(e := (st e)\<lparr>fCurrentHeap := x\<rparr>)) n a = heap_ordered st n a"
  by (simp add: heap_ordered_def)

lemma slots_Suc:
  "1 \<le> n \<Longrightarrow> n < length a \<Longrightarrow> slots (Suc n) a = slots n a @ [a ! n]"
  by (cases n) (auto simp: slots_def take_Suc_conv_app_nth)

lemma slots_beyond [simp]: "n \<le> i \<Longrightarrow> slots n (a[i := x]) = slots n a"
  by (cases n) (auto simp: slots_def drop_update_swap)

lemma slots_append: "n \<le> length a \<Longrightarrow> slots n (a @ b) = slots n a"
  by (cases a) (auto simp: slots_def)

lemma key_append: "i < length a \<Longrightarrow> key st (a @ b) i = key st a i"
  by (simp add: key_def nth_append)

lemma heap_root_least:
  assumes "heap_ordered st n a" "1 \<le> i" "i < n"
  shows "key st a 1 \<le> key st a i"
  using assms(2,3)
proof (induction i rule: less_induct)
  case (less i)
  show ?case
  proof (cases "i = 1")
    case False
    with less.prems have i: "2 \<le> i" by simp
    with less have "key st a 1 \<le> key st a (i div 2)" by simp
    also have "\<dots> \<le> key st a i" using assms(1) i less.prems by (auto simp: heap_ordered_def)
    finally show ?thesis .
  qed simp
qed

text \<open>The array after the optional growth of \<^verbatim>\<open>Insert\<close>.\<close>

definition grown :: "Heap \<Rightarrow> Heap" where
  "grown h = (if fFreeIndex h \<ge> fArraySize h
              then h\<lparr>fArraySize := fArraySize h * 2,
                     fHeap := take (fFreeIndex h) (fHeap h)
                              @ replicate (fArraySize h * 2 - fFreeIndex h) 0\<rparr>
              else h)"

lemma grown_facts:
  assumes "heap_shape (st, h)"
  shows "fFreeIndex (grown h) = fFreeIndex h" "heapAddr (grown h) = heapAddr h"
    "fFreeIndex h < fArraySize (grown h)" "length (fHeap (grown h)) = fArraySize (grown h)"
    "slots (fFreeIndex h) (fHeap (grown h)) = slots (fFreeIndex h) (fHeap h)"
    "2 \<le> fArraySize (grown h)"
  using assms by (auto simp: grown_def heap_shape_def slots_append)

lemma grown_key:
  assumes "heap_shape (st, h)" "i < fFreeIndex h"
  shows "key st (fHeap (grown h)) i = key st (fHeap h) i"
  using assms by (auto simp: grown_def heap_shape_def key_append)

text \<open>What \<^verbatim>\<open>Insert\<close> leaves when its assertions hold.\<close>

definition inserted :: "elem_store \<times> Heap \<Rightarrow> nat \<Rightarrow> elem_store \<times> Heap" where
  "inserted s e = (case s of (st, h) \<Rightarrow>
     (st(e := (st e)\<lparr>fCurrentHeap := Some (heapAddr h)\<rparr>),
      (grown h)\<lparr>fHeap := ShiftUp st ((fHeap (grown h))[fFreeIndex (grown h) := e]) (fFreeIndex (grown h)),
                fFreeIndex := fFreeIndex (grown h) + 1\<rparr>))"

text \<open>The array can be doubled: its size stays below \<open>2 ^ 32\<close>.\<close>

definition heap_room :: "elem_store \<times> Heap \<Rightarrow> bool" where
  "heap_room s \<longleftrightarrow> fFreeIndex (snd s) < 2 ^ 31"

lemma Insert_member: "IsMemberOfAnyHeap (fst s) e \<Longrightarrow> Insert s e = None"
  by (auto simp: Insert_def IsMemberOfAnyHeap_def Let_def bind_eq_None_conv Assert_def split: prod.splits)

lemma Insert_eq:
  assumes sh: "heap_shape s" and room: "heap_room s"
  shows "Insert s e = (if IsMemberOfAnyHeap (fst s) e then None else Some (inserted s e))"
proof (cases "IsMemberOfAnyHeap (fst s) e")
  case True
  then show ?thesis by (simp add: Insert_member)
next
  case False
  obtain st h where s: "s = (st, h)" by (cases s)
  have g: "fFreeIndex (grown h) < fArraySize (grown h)" using grown_facts(1,3) [of st h] sh by (simp add: s)
  have f: "1 < fFreeIndex h \<and> length (take (fFreeIndex h) (fHeap h)) = fFreeIndex h \<and> u32 (fArraySize h * 2) = fArraySize h * 2"
    if "fFreeIndex h \<ge> fArraySize h"
    using that sh room by (auto simp: s heap_shape_def heap_room_def)
  have n: "fCurrentHeap (st e) = None" using False by (simp add: s IsMemberOfAnyHeap_def)
  show ?thesis
  proof (cases "fFreeIndex h \<ge> fArraySize h")
    case True
    with f have "Insert s e = Some (inserted s e)" using g n sh
      by (simp add: s Insert_def inserted_def Let_def grown_def heap_shape_def)
    with False show ?thesis by simp
  next
    case less: False
    with g n have "Insert s e = Some (inserted s e)"
      by (simp add: s Insert_def inserted_def Let_def grown_def)
    with False show ?thesis by simp
  qed
qed

text \<open>At \<open>2 ^ 31\<close> slots the doubled size is 0 and the copy runs past the new array.\<close>

lemma Insert_overflow:
  assumes "heap_shape s" "fFreeIndex (snd s) = 2 ^ 31" "fArraySize (snd s) = 2 ^ 31"
  shows "Insert s e = None"
proof -
  obtain st h where s: "s = (st, h)" by (cases s)
  have "length (take (2 ^ 31) (fHeap h)) = 2 ^ 31" using assms by (simp add: s heap_shape_def)
  moreover have "u32 (2 ^ 31 * 2) = 0" by (simp add: u32_def)
  ultimately show ?thesis using assms(2,3) by (simp add: s Insert_def Let_def)
qed

lemma mset_slots_Insert:
  assumes "heap_shape (st, h)"
  shows "mset (slots (fFreeIndex (snd (inserted (st, h) e))) (fHeap (snd (inserted (st, h) e))))
       = mset (slots (fFreeIndex h) (fHeap h)) + {#e#}"
proof -
  note g = grown_facts [OF assms]
  have n: "1 \<le> fFreeIndex h" using assms by (simp add: heap_shape_def)
  let ?a = "(fHeap (grown h))[fFreeIndex h := e]"
  have "mset (slots (Suc (fFreeIndex h)) (ShiftUp st ?a (fFreeIndex h))) = mset (slots (Suc (fFreeIndex h)) ?a)"
    using g n by (intro mset_ShiftUp) auto
  also have "\<dots> = mset (slots (fFreeIndex h) (fHeap h)) + {#e#}"
    using g n by (simp add: slots_Suc)
  finally show ?thesis using g by (simp add: inserted_def)
qed

lemma inserted_inv:
  assumes inv: "heap_inv (st, h)" and new: "e \<notin> elems (st, h)"
  defines "s' \<equiv> inserted (st, h) e"
  shows "heap_inv s'" "elems s' = insert e (elems (st, h))" "prio s' = prio (st, h)"
proof -
  have sh: "heap_shape (st, h)" and ord: "heap_ordered st (fFreeIndex h) (fHeap h)"
    using inv by (auto simp: heap_inv_def)
  note g = grown_facts [OF sh]
  have n: "1 \<le> fFreeIndex h" using sh by (simp add: heap_shape_def)
  note ms = mset_slots_Insert [OF sh, of e, folded s'_def]
  show el: "elems s' = insert e (elems (st, h))"
    using arg_cong [OF ms, of set_mset] by (simp add: elems_def)
  have di: "distinct (slots (fFreeIndex (snd s')) (fHeap (snd s')))"
  proof -
    have "mset (slots (fFreeIndex (snd s')) (fHeap (snd s'))) = mset (e # slots (fFreeIndex h) (fHeap h))"
      using ms by simp
    moreover have "distinct (e # slots (fFreeIndex h) (fHeap h))"
      using sh new by (simp add: heap_shape_def elems_def)
    ultimately show ?thesis by (metis mset_eq_imp_distinct_iff)
  qed
  let ?a = "(fHeap (grown h))[fFreeIndex h := e]"
  have k: "key st ?a i = key st (fHeap h) i" if "i < fFreeIndex h" for i
    using that grown_key [OF sh that] by (simp add: key_def)
  have "up_inv st (Suc (fFreeIndex h)) ?a (fFreeIndex h)"
    using ord by (auto simp: up_inv_def heap_ordered_def k less_Suc_eq)
  then have "heap_ordered st (Suc (fFreeIndex h)) (ShiftUp st ?a (fFreeIndex h))"
    using g n by (intro ShiftUp_ordered) auto
  then have or: "heap_ordered (fst s') (fFreeIndex (snd s')) (fHeap (snd s'))"
    using g by (simp add: s'_def inserted_def)
  have "heap_shape s'"
    unfolding heap_shape_def using di el sh g by (auto simp: s'_def inserted_def heap_shape_def)
  with or show "heap_inv s'" by (simp add: heap_inv_def)
  show "prio s' = prio (st, h)" by (auto simp: prio_def s'_def inserted_def)
qed

text \<open>An element that is in no heap can be inserted; the others keep their objects.\<close>

lemma Insert_inv:
  assumes inv: "heap_inv s" and new: "\<not> IsMemberOfAnyHeap (fst s) e" and room: "heap_room s"
  shows "\<exists>s'. Insert s e = Some s' \<and> heap_inv s' \<and> elems s' = insert e (elems s) \<and> prio s' = prio s \<and>
     fst s' = (fst s)(e := (fst s e)\<lparr>fCurrentHeap := Some (heapAddr (snd s))\<rparr>) \<and>
     CurrentHeapSize (snd s') = CurrentHeapSize (snd s) + 1"
proof -
  obtain st h where s: "s = (st, h)" by (cases s)
  have sh: "heap_shape (st, h)" using inv by (simp add: s heap_inv_def)
  have "e \<notin> elems (st, h)" using sh new by (auto simp: s heap_shape_def IsMemberOfAnyHeap_def)
  from inserted_inv [OF inv [unfolded s] this] grown_facts(1) [OF sh] Insert_eq [OF sh, of e] new sh room
  show ?thesis by (simp add: s) (simp add: inserted_def CurrentHeapSize_def heap_shape_def)
qed

text \<open>Taking an element out: the last leaf moves into its slot.\<close>

lemma mset_butlast_update:
  assumes "i < length xs"
  shows "mset (butlast (xs[i := last xs])) = mset xs - {#xs ! i#}"
proof -
  obtain ys z where xs: "xs = ys @ [z]" using assms by (metis list.size(3) not_less0 rev_exhaust)
  show ?thesis
  proof (cases "i = length xs - 1")
    case True
    with xs show ?thesis by simp
  next
    case False
    with assms have i: "i < length (butlast xs)" by simp
    with xs have "mset (ys[i := z]) = mset ys - {#ys ! i#} + {#z#}"
      by (simp add: mset_update)
    moreover have "ys ! i \<in># mset ys" using i xs by simp
    ultimately show ?thesis
      using i xs by (simp add: list_update_append nth_append)
  qed
qed

lemma slots_pred_update:
  assumes "1 \<le> i" "i < n" "n \<le> length a"
  shows "slots (n - 1) (a[i := a ! (n - 1)]) = butlast ((slots n a)[i - 1 := last (slots n a)])"
proof -
  obtain m where m: "n = Suc m" and "1 \<le> m" using assms by (cases n) auto
  then have "slots n a = slots m a @ [a ! m]" using assms by (simp add: slots_Suc)
  then have l: "last (slots n a) = a ! (n - 1)" using m by simp
  show ?thesis
    by (rule nth_equalityI) (use assms l in \<open>auto simp: nth_slots nth_butlast nth_list_update\<close>)
qed

lemma Extract_Some:
  assumes sh: "heap_shape (st, h)" and i: "1 \<le> i" "i < fFreeIndex h"
  shows "Extract (st, h) i =
     (let v = fHeap h ! i; st1 = st(v := (st v)\<lparr>fCurrentHeap := None\<rparr>)
      in Some (Some v, st1,
          h\<lparr>fHeap := ShiftDown st1 (fFreeIndex h - 1) ((fHeap h)[i := fHeap h ! (fFreeIndex h - 1)]) i,
            fFreeIndex := fFreeIndex h - 1\<rparr>))"
proof -
  have "fHeap h ! i \<in> elems (st, h)" using sh i by (auto simp: elems_def set_slots heap_shape_def)
  with sh have "fCurrentHeap (st (fHeap h ! i)) = Some (heapAddr h)" by (simp add: heap_shape_def)
  with i show ?thesis by (simp add: Extract_def Let_def)
qed

lemma Extract_mset:
  assumes sh: "heap_shape (st, h)" and i: "1 \<le> i" "i < fFreeIndex h"
    and ex: "Extract (st, h) i = Some (v, s')"
  shows "mset (slots (fFreeIndex (snd s')) (fHeap (snd s')))
       = mset (slots (fFreeIndex h) (fHeap h)) - {#fHeap h ! i#}"
proof -
  let ?n = "fFreeIndex h" and ?a = "fHeap h"
  have n: "?n \<le> length ?a" using sh by (simp add: heap_shape_def)
  have "mset (slots (?n - 1) (?a[i := ?a ! (?n - 1)])) = mset (slots ?n ?a) - {#?a ! i#}"
    using i n mset_butlast_update [of "i - 1" "slots ?n ?a"]
    unfolding slots_pred_update [OF i n] by (simp add: nth_slots)
  moreover have "snd s' = h\<lparr>fHeap := ShiftDown (fst s') (?n - 1) (?a[i := ?a ! (?n - 1)]) i,
      fFreeIndex := ?n - 1\<rparr>"
    using ex i by (auto simp: Extract_Some [OF sh] Let_def)
  ultimately show ?thesis using i n by (simp add: mset_ShiftDown)
qed

lemma Extract_shape:
  assumes sh: "heap_shape (st, h)" and i: "1 \<le> i" "i < fFreeIndex h"
    and ex: "Extract (st, h) i = Some (v, s')"
  shows "v = Some (fHeap h ! i)" "heap_shape s'" "elems s' = elems (st, h) - {fHeap h ! i}"
    "prio s' = prio (st, h)" "fHeap h ! i \<in> elems (st, h)"
    "fst s' = st(fHeap h ! i := (st (fHeap h ! i))\<lparr>fCurrentHeap := None\<rparr>)"
proof -
  let ?n = "fFreeIndex h" and ?a = "fHeap h" and ?v = "fHeap h ! i"
  have n: "?n \<le> length ?a" using sh by (simp add: heap_shape_def)
  note e = ex [unfolded Extract_Some [OF sh i] Let_def]
  show "v = Some ?v" and f: "fst s' = st(?v := (st ?v)\<lparr>fCurrentHeap := None\<rparr>)" using e by auto
  show mem: "?v \<in> elems (st, h)" using i n by (auto simp: elems_def set_slots)
  note ms = Extract_mset [OF sh i ex]
  have d: "distinct (slots ?n ?a)" using sh by (simp add: heap_shape_def)
  have "mset (slots (fFreeIndex (snd s')) (fHeap (snd s'))) = mset (remove1 ?v (slots ?n ?a))"
    using ms by simp
  with d have d': "distinct (slots (fFreeIndex (snd s')) (fHeap (snd s')))"
    by (metis distinct_remove1 mset_eq_imp_distinct_iff)
  show el: "elems s' = elems (st, h) - {?v}"
    using d ms mset_eq_setD [of "slots (fFreeIndex (snd s')) (fHeap (snd s'))" "remove1 ?v (slots ?n ?a)"]
    by (simp add: elems_def)
  show "prio s' = prio (st, h)" using f by (auto simp: prio_def)
  show "heap_shape s'"
    using sh i d' el f e by (auto simp: heap_shape_def)
qed

text \<open>
  \<^verbatim>\<open>Extract\<close> only sifts the moved leaf down. The order survives when the leaf is
  not smaller than the parent of the vacated slot, in particular for the root.
\<close>

lemma Extract_inv:
  assumes inv: "heap_inv (st, h)" and i: "1 \<le> i" "i < fFreeIndex h"
    and leaf: "i = 1 \<or> key st (fHeap h) (i div 2) \<le> key st (fHeap h) (fFreeIndex h - 1)"
    and ex: "Extract (st, h) i = Some (v, s')"
  shows "heap_inv s'"
proof -
  let ?n = "fFreeIndex h" and ?a = "fHeap h"
  let ?b = "?a[i := ?a ! (?n - 1)]"
  have sh: "heap_shape (st, h)" and ord: "heap_ordered st ?n ?a"
    using inv by (auto simp: heap_inv_def)
  then have n: "?n \<le> length ?a" by (simp add: heap_shape_def)
  have k: "key st ?b j = (if j = i then key st ?a (?n - 1) else key st ?a j)" for j
    using i n by (auto simp: key_def nth_list_update)
  have o: "key st ?a (j div 2) \<le> key st ?a j" if "2 \<le> j" "j < ?n" for j
    using ord that by (auto simp: heap_ordered_def)
  have "down_inv st (?n - 1) ?b i"
    unfolding down_inv_def
  proof (intro conjI ballI impI)
    fix j assume j: "j \<in> {2..<?n - 1}" and "j div 2 \<noteq> i"
    then show "key st ?b (j div 2) \<le> key st ?b j"
      unfolding k using leaf o [of j] by (cases "j = i") auto
  next
    fix j assume j: "j \<in> {2..<?n - 1}" and p: "j div 2 = i \<and> 2 \<le> i"
    have "key st ?a (i div 2) \<le> key st ?a i" using o [of i] p i by simp
    also have "\<dots> \<le> key st ?a j" using o [of j] p j by auto
    finally show "key st ?b (i div 2) \<le> key st ?b j" unfolding k using p by auto
  qed
  moreover have key: "key (fst s') a j = key st a j" for a j
    using Extract_shape(6) [OF sh i ex] by simp
  ultimately have "down_inv (fst s') (?n - 1) ?b i" by (simp only: down_inv_def)
  then have "heap_ordered (fst s') (?n - 1) (ShiftDown (fst s') (?n - 1) ?b i)"
    using i n by (intro ShiftDown_ordered) auto
  moreover have "snd s' = h\<lparr>fHeap := ShiftDown (fst s') (?n - 1) ?b i, fFreeIndex := ?n - 1\<rparr>"
    using ex i by (auto simp: Extract_Some [OF sh] Let_def)
  ultimately show ?thesis using Extract_shape(2) [OF sh i ex] by (simp add: heap_inv_def)
qed

section \<open>Searching, removing and re-prioritising\<close>

lemma locate_bounds:
  "i \<le> n \<Longrightarrow> i \<le> locate a n e i \<and> locate a n e i \<le> n \<and>
    (locate a n e i < n \<longrightarrow> a ! locate a n e i = e)"
proof (induction a n e i rule: locate.induct)
  case (1 a n e i)
  then show ?case
    by (cases "i < n \<and> e \<noteq> a ! i") (subst (1 2 3 4) locate.simps; fastforce)+
qed

lemma locate_absent: "i \<le> n \<Longrightarrow> locate a n e i = n \<Longrightarrow> i \<le> j \<Longrightarrow> j < n \<Longrightarrow> a ! j \<noteq> e"
proof (induction a n e i rule: locate.induct)
  case (1 a n e i)
  from "1.prems" have "e \<noteq> a ! i" "i < n" by (auto simp: locate.simps [of a n e i] split: if_splits)
  with "1.prems" "1.IH" show ?case
    by (cases "i = j") (auto simp: locate.simps [of a n e i])
qed

lemma locate_elems:
  assumes sh: "heap_shape (st, h)" and e: "e \<in> elems (st, h)"
  shows "1 \<le> locate (fHeap h) (fFreeIndex h) e 1" "locate (fHeap h) (fFreeIndex h) e 1 < fFreeIndex h"
    "fHeap h ! locate (fHeap h) (fFreeIndex h) e 1 = e"
proof -
  let ?i = "locate (fHeap h) (fFreeIndex h) e 1"
  have n: "1 \<le> fFreeIndex h" "fFreeIndex h \<le> length (fHeap h)" using sh by (auto simp: heap_shape_def)
  from e obtain j where "1 \<le> j" "j < fFreeIndex h" "fHeap h ! j = e"
    using n by (auto simp: elems_def set_slots)
  with locate_absent [OF n(1), of "fHeap h" e j] have "?i \<noteq> fFreeIndex h" by auto
  with locate_bounds [OF n(1), of "fHeap h" e]
  show "1 \<le> ?i" "?i < fFreeIndex h" "fHeap h ! ?i = e" by auto
qed

lemma Remove_member:
  assumes sh: "heap_shape (st, h)" and e: "e \<in> elems (st, h)"
  shows "Remove (st, h) (Some e) = Extract (st, h) (locate (fHeap h) (fFreeIndex h) e 1)"
proof -
  have "fCurrentHeap (st e) \<noteq> None" using sh e by (auto simp: heap_shape_def)
  with locate_elems [OF sh e] show ?thesis
    by (simp add: Remove_def IsMemberOfAnyHeap_def Let_def)
qed

lemma Remove_absent:
  assumes sh: "heap_shape (st, h)" and e: "e \<notin> elems (st, h)"
  shows "Remove (st, h) (Some e) = Some (None, st, h)"
proof -
  let ?i = "locate (fHeap h) (fFreeIndex h) e 1"
  have n: "1 \<le> fFreeIndex h" "fFreeIndex h \<le> length (fHeap h)" using sh by (auto simp: heap_shape_def)
  have "?i = fFreeIndex h"
  proof (rule ccontr)
    assume "?i \<noteq> fFreeIndex h"
    with locate_bounds [OF n(1), of "fHeap h" e] have "1 \<le> ?i" "?i < fFreeIndex h" "fHeap h ! ?i = e" by auto
    with e n show False by (auto simp: elems_def set_slots)
  qed
  then show ?thesis by (simp add: Remove_def Let_def)
qed

text \<open>
  \<^verbatim>\<open>Remove\<close> always takes exactly the element out; it keeps the order only under
  the condition of \<open>Extract_inv\<close>.
\<close>

lemma Remove_shape:
  assumes sh: "heap_shape (st, h)" and e: "e \<in> elems (st, h)" and r: "Remove (st, h) (Some e) = Some (v, s')"
  shows "v = Some e" "heap_shape s'" "elems s' = elems (st, h) - {e}" "prio s' = prio (st, h)"
  using Extract_shape [OF sh locate_elems(1,2) [OF sh e], of v s'] locate_elems(3) [OF sh e] r
  by (simp_all add: Remove_member [OF sh e])

text \<open>Changing one priority.\<close>

lemma key_SetValue:
  assumes "distinct (slots n a)" "n \<le> length a" "1 \<le> i" "i < n" "1 \<le> j" "j < n"
  shows "key (SetValue st (a ! i) v) a j = (if j = i then v else key st a j)"
proof -
  have "slots n a ! (i - 1) = a ! i" "slots n a ! (j - 1) = a ! j" using assms by (simp_all add: nth_slots)
  with assms have "a ! j = a ! i \<longleftrightarrow> j = i"
    using nth_eq_iff_index_eq [OF assms(1), of "j - 1" "i - 1"] by auto
  then show ?thesis by (auto simp: key_def SetValue_def)
qed

lemma heap_shape_SetValue:
  assumes sh: "heap_shape (st, h)"
    and b: "mset (slots (fFreeIndex h) b) = mset (slots (fFreeIndex h) (fHeap h))" "length b = length (fHeap h)"
  shows "heap_shape (SetValue st e v, h\<lparr>fHeap := b\<rparr>)"
    and "elems (SetValue st e v, h\<lparr>fHeap := b\<rparr>) = elems (st, h)"
    and "prio (SetValue st e v, h\<lparr>fHeap := b\<rparr>) = (prio (st, h))(e := v)"
  using sh b mset_eq_setD [OF b(1)] mset_eq_imp_distinct_iff [OF b(1)]
  by (auto simp: heap_shape_def elems_def SetValue_def prio_def)

lemma up_inv_SetValue:
  assumes ord: "heap_ordered st n a" and n: "distinct (slots n a)" "n \<le> length a"
    and i: "1 \<le> i" "i < n" and v: "v < key st a i"
  shows "up_inv (SetValue st (a ! i) v) n a i"
proof -
  note k = key_SetValue [OF n i, where st = st and v = v]
  have o: "key st a (j div 2) \<le> key st a j" if "2 \<le> j" "j < n" for j
    using ord that by (auto simp: heap_ordered_def)
  show ?thesis
    unfolding up_inv_def
  proof (intro conjI ballI impI)
    fix j assume j: "j \<in> {2..<n}" and "j \<noteq> i"
    with o [of j] v k [of j] k [of "j div 2"]
    show "key (SetValue st (a ! i) v) a (j div 2) \<le> key (SetValue st (a ! i) v) a j"
      by (auto split: if_splits)
  next
    fix j assume j: "j \<in> {2..<n}" and p: "j div 2 = i \<and> 2 \<le> i"
    then have "key st a (i div 2) \<le> key st a j" using o [of i] o [of j] i by auto
    with j p k [of j] k [of "i div 2"]
    show "key (SetValue st (a ! i) v) a (i div 2) \<le> key (SetValue st (a ! i) v) a j" by auto
  qed
qed

lemma down_inv_SetValue:
  assumes ord: "heap_ordered st n a" and n: "distinct (slots n a)" "n \<le> length a"
    and i: "1 \<le> i" "i < n" and v: "key st a i < v"
  shows "down_inv (SetValue st (a ! i) v) n a i"
proof -
  note k = key_SetValue [OF n i, where st = st and v = v]
  have o: "key st a (j div 2) \<le> key st a j" if "2 \<le> j" "j < n" for j
    using ord that by (auto simp: heap_ordered_def)
  show ?thesis
    unfolding down_inv_def
  proof (intro conjI ballI impI)
    fix j assume j: "j \<in> {2..<n}" and "j div 2 \<noteq> i"
    with o [of j] v k [of j] k [of "j div 2"]
    show "key (SetValue st (a ! i) v) a (j div 2) \<le> key (SetValue st (a ! i) v) a j"
      by (auto split: if_splits)
  next
    fix j assume j: "j \<in> {2..<n}" and p: "j div 2 = i \<and> 2 \<le> i"
    then have "key st a (i div 2) \<le> key st a j" using o [of i] o [of j] i by auto
    with j p k [of j] k [of "i div 2"]
    show "key (SetValue st (a ! i) v) a (i div 2) \<le> key (SetValue st (a ! i) v) a j" by auto
  qed
qed

text \<open>
  The caller's flag refuses a change in the unexpected direction: \<^verbatim>\<open>ExpectUp\<close>
  accepts only smaller values (the element moves towards the root),
  \<^verbatim>\<open>ExpectDown\<close> only larger ones.
\<close>

definition update_refused :: "int \<Rightarrow> int \<Rightarrow> nat \<Rightarrow> bool" where
  "update_refused old v flag \<longleftrightarrow>
     v < old \<and> heapUpdateFlagExpectDown AND flag \<noteq> 0 \<or>
     v > old \<and> heapUpdateFlagExpectUp AND flag \<noteq> 0"

lemma Update_cases:
  assumes sh: "heap_shape (st, h)" and e: "e \<in> elems (st, h)"
  defines "i \<equiv> locate (fHeap h) (fFreeIndex h) e 1"
  shows "Update (st, h) (Some e) v flag =
    (if update_refused (prio (st, h) e) v flag \<or> v = prio (st, h) e then (st, h)
     else if v < prio (st, h) e
          then (SetValue st e v, h\<lparr>fHeap := ShiftUp (SetValue st e v) (fHeap h) i\<rparr>)
          else (SetValue st e v, h\<lparr>fHeap := ShiftDown (SetValue st e v) (fFreeIndex h) (fHeap h) i\<rparr>))"
  using locate_elems [OF sh e]
  by (auto simp: Update_def Let_def update_refused_def i_def key_def prio_def)

lemma Update_inv:
  assumes inv: "heap_inv (st, h)" and e: "e \<in> elems (st, h)"
  shows "heap_inv (Update (st, h) (Some e) v flag) \<and>
         elems (Update (st, h) (Some e) v flag) = elems (st, h) \<and>
         prio (Update (st, h) (Some e) v flag) =
           (if update_refused (prio (st, h) e) v flag then prio (st, h) else (prio (st, h))(e := v))"
proof -
  let ?n = "fFreeIndex h" and ?a = "fHeap h"
  define i where "i = locate ?a ?n e 1"
  define st1 where "st1 = SetValue st e v"
  have sh: "heap_shape (st, h)" and ord: "heap_ordered st ?n ?a" using inv by (auto simp: heap_inv_def)
  have i: "1 \<le> i" "i < ?n" "?a ! i = e" using locate_elems [OF sh e] by (auto simp: i_def)
  have n: "distinct (slots ?n ?a)" "?n \<le> length ?a" using sh by (auto simp: heap_shape_def)
  have ke: "key st ?a i = prio (st, h) e" using i by (simp add: key_def prio_def)
  have up: "heap_ordered st1 ?n (ShiftUp st1 ?a i)" if "v < prio (st, h) e"
    using up_inv_SetValue [OF ord n i(1,2)] that i n ke by (auto simp: st1_def intro!: ShiftUp_ordered)
  have down: "heap_ordered st1 ?n (ShiftDown st1 ?n ?a i)" if "prio (st, h) e < v"
    using down_inv_SetValue [OF ord n i(1,2)] that i n ke by (auto simp: st1_def intro!: ShiftDown_ordered)
  have mu: "mset (slots ?n (ShiftUp st1 ?a i)) = mset (slots ?n ?a)"
    and md: "mset (slots ?n (ShiftDown st1 ?n ?a i)) = mset (slots ?n ?a)"
    using i n by (simp_all add: mset_ShiftUp mset_ShiftDown)
  note eq = Update_cases [OF sh e, of v flag, folded i_def st1_def]
  note S = heap_shape_SetValue [OF sh, where e = e and v = v, folded st1_def]
  consider "update_refused (prio (st, h) e) v flag \<or> v = prio (st, h) e"
    | "\<not> update_refused (prio (st, h) e) v flag" "v < prio (st, h) e"
    | "\<not> update_refused (prio (st, h) e) v flag" "prio (st, h) e < v" by linarith
  then show ?thesis
  proof cases
    case 1
    with inv show ?thesis unfolding eq by auto
  next
    case 2
    then have u: "Update (st, h) (Some e) v flag = (st1, h\<lparr>fHeap := ShiftUp st1 ?a i\<rparr>)"
      unfolding eq by simp
    show ?thesis unfolding u
      using S [OF mu length_ShiftUp] up [OF 2(2)] 2(1) by (simp only: heap_inv_def) simp
  next
    case 3
    then have u: "Update (st, h) (Some e) v flag = (st1, h\<lparr>fHeap := ShiftDown st1 ?n ?a i\<rparr>)"
      unfolding eq by simp
    show ?thesis unfolding u
      using S [OF md length_ShiftDown] down [OF 3(2)] 3(1) by (simp only: heap_inv_def) simp
  qed
qed

section \<open>The priority-queue interface\<close>

text \<open>
  What the timer threads rely on: a set of elements with priorities, of which
  \<^verbatim>\<open>PeekMin\<close> shows and \<^verbatim>\<open>ExtractMin\<close> removes a least one. The loop
  of \<^verbatim>\<open>IdleTaskThread::Entry\<close>, which pops as long as a condition on the least
  element holds, is \<open>pop_while\<close>; its fuel bounds the number of rounds.
\<close>

fun pop_while :: "('s \<Rightarrow> 'e option) \<Rightarrow> ('s \<Rightarrow> ('e option \<times> 's) option) \<Rightarrow> ('s \<Rightarrow> 'e \<Rightarrow> bool) \<Rightarrow> nat \<Rightarrow> 's
    \<Rightarrow> ('e list \<times> 's) option" where
  "pop_while peek pop P 0 s = Some ([], s)"
| "pop_while peek pop P (Suc n) s =
     (case peek s of
        None \<Rightarrow> Some ([], s)
      | Some e \<Rightarrow>
          if P s e then
            do {
              (r, s') \<leftarrow> pop s;
              x \<leftarrow> r;
              (es, s'') \<leftarrow> pop_while peek pop P n s';
              Some (x # es, s'')
            }
          else Some ([], s))"

locale priority_queue =
  fixes invar :: "'s \<Rightarrow> bool"
    and members :: "'s \<Rightarrow> 'e set"
    and free :: "'s \<Rightarrow> 'e \<Rightarrow> bool"
    and room :: "'s \<Rightarrow> bool"
    and priority :: "'s \<Rightarrow> 'e \<Rightarrow> int"
    and peek :: "'s \<Rightarrow> 'e option"
    and add :: "'s \<Rightarrow> 'e \<Rightarrow> 's option"
    and pop :: "'s \<Rightarrow> ('e option \<times> 's) option"
  assumes finite_members: "invar s \<Longrightarrow> finite (members s)"
    and free_new: "invar s \<Longrightarrow> free s e \<Longrightarrow> e \<notin> members s"
    and peek_None: "invar s \<Longrightarrow> peek s = None \<longleftrightarrow> members s = {}"
    and peek_Some: "invar s \<Longrightarrow> peek s = Some e \<Longrightarrow> e \<in> members s \<and> (\<forall>x \<in> members s. priority s e \<le> priority s x)"
    and add_law: "invar s \<Longrightarrow> free s e \<Longrightarrow> room s \<Longrightarrow>
      \<exists>s'. add s e = Some s' \<and> invar s' \<and> members s' = insert e (members s) \<and> priority s' = priority s \<and>
        (\<forall>x. free s' x \<longleftrightarrow> free s x \<and> x \<noteq> e)"
    and pop_law: "invar s \<Longrightarrow>
      \<exists>s'. pop s = Some (peek s, s') \<and> invar s' \<and> members s' = members s - set_option (peek s) \<and>
        priority s' = priority s \<and> (\<forall>x. free s' x \<longleftrightarrow> free s x \<or> Some x = peek s)"
begin

lemma pop_while_due:
  assumes "invar s" "card (members s) \<le> n"
  shows "\<exists>es s'. pop_while peek pop (\<lambda>s e. priority s e \<le> now) n s = Some (es, s') \<and>
    invar s' \<and> priority s' = priority s \<and>
    set es = {e \<in> members s. priority s e \<le> now} \<and>
    members s' = {e \<in> members s. now < priority s e} \<and>
    distinct es \<and> sorted (map (priority s) es)"
  using assms
proof (induction n arbitrary: s)
  case 0
  then have "members s = {}" using finite_members [of s] by simp
  with 0 show ?case by auto
next
  case (Suc n)
  note inv = Suc.prems(1)
  show ?case
  proof (cases "peek s")
    case None
    with Suc.prems peek_None [OF inv] show ?thesis by auto
  next
    case (Some e)
    note e = peek_Some [OF inv Some]
    show ?thesis
    proof (cases "priority s e \<le> now")
      case False
      with Some e have "\<forall>x \<in> members s. now < priority s x" by force
      with inv False Some show ?thesis by auto
    next
      case True
      from pop_law [OF inv] Some obtain t where
        t: "pop s = Some (Some e, t)" "invar t" "members t = members s - {e}" "priority t = priority s" by auto
      have "card (members t) \<le> n"
        using Suc.prems(2) t(3) e finite_members [OF inv] by simp
      from Suc.IH [OF t(2) this, unfolded t(3,4)] obtain es s' where
        IH: "pop_while peek pop (\<lambda>s e. priority s e \<le> now) n t = Some (es, s')"
          "invar s'" "priority s' = priority s" "set es = {x \<in> members s - {e}. priority s x \<le> now}"
          "members s' = {x \<in> members s - {e}. now < priority s x}" "distinct es" "sorted (map (priority s) es)"
        by blast
      have "pop_while peek pop (\<lambda>s e. priority s e \<le> now) (Suc n) s = Some (e # es, s')"
        using Some True t(1) IH(1) by simp
      moreover have "set (e # es) = {x \<in> members s. priority s x \<le> now}"
        unfolding list.set IH(4) using e True by blast
      moreover have "members s' = {x \<in> members s. now < priority s x}"
        unfolding IH(5) using True leD by blast
      moreover have "distinct (e # es)" using IH(4,6) by simp
      moreover have "sorted (map (priority s) (e # es))" using IH(4,7) e(1) True peek_Some [OF inv Some] by simp
      ultimately show ?thesis using IH(2,3) by (intro exI [of _ "e # es"] exI [of _ s']) simp
    qed
  qed
qed

lemma pop_while_all:
  assumes "invar s" "card (members s) \<le> n"
  shows "\<exists>es s'. pop_while peek pop (\<lambda>s e. True) n s = Some (es, s') \<and>
    set es = members s \<and> members s' = {} \<and> distinct es \<and> sorted (map (priority s) es)"
  using assms
proof (induction n arbitrary: s)
  case 0
  then have "members s = {}" using finite_members [of s] by simp
  with 0 show ?case by auto
next
  case (Suc n)
  note inv = Suc.prems(1)
  show ?case
  proof (cases "peek s")
    case None
    with Suc.prems peek_None [OF inv] show ?thesis by auto
  next
    case (Some e)
    note e = peek_Some [OF inv Some]
    from pop_law [OF inv] Some obtain t where
      t: "pop s = Some (Some e, t)" "invar t" "members t = members s - {e}" "priority t = priority s" by auto
    have "card (members t) \<le> n"
      using Suc.prems(2) t(3) e finite_members [OF inv] by simp
    from Suc.IH [OF t(2) this, unfolded t(3,4)] obtain es s' where
      IH: "pop_while peek pop (\<lambda>s e. True) n t = Some (es, s')" "set es = members s - {e}"
        "members s' = {}" "distinct es" "sorted (map (priority s) es)"
      by blast
    have "pop_while peek pop (\<lambda>s e. True) (Suc n) s = Some (e # es, s')" using Some t(1) IH(1) by simp
    moreover have "set (e # es) = members s" using IH(2) e by auto
    moreover have "distinct (e # es)" using IH(2,4) by simp
    moreover have "sorted (map (priority s) (e # es))" using IH(2,5) e by simp
    ultimately show ?thesis using IH(3) by (intro exI [of _ "e # es"] exI [of _ s']) simp
  qed
qed

end

lemma PeekMin_None: "heap_shape s \<Longrightarrow> PeekMin (snd s) = None \<longleftrightarrow> elems s = {}"
  by (auto simp: PeekMin_def CurrentHeapSize_def elems_def heap_shape_def slots_def)

lemma PeekMin_least:
  assumes inv: "heap_inv s" and p: "PeekMin (snd s) = Some e"
  shows "e \<in> elems s \<and> (\<forall>x \<in> elems s. prio s e \<le> prio s x)"
proof -
  obtain st h where s: "s = (st, h)" by (cases s)
  have n: "1 < fFreeIndex h" "fHeap h ! 1 = e" "fFreeIndex h \<le> length (fHeap h)"
    using inv p by (auto simp: s PeekMin_def CurrentHeapSize_def heap_inv_def heap_shape_def split: if_splits)
  moreover have "prio s e \<le> prio s x" if "x \<in> elems s" for x
  proof -
    from that n obtain i where i: "1 \<le> i" "i < fFreeIndex h" "x = fHeap h ! i" by (auto simp: elems_def s set_slots)
    with heap_root_least [of st "fFreeIndex h" "fHeap h" i] inv n(2)
    show ?thesis by (simp add: s heap_inv_def key_def prio_def)
  qed
  ultimately show ?thesis by (auto simp: elems_def s set_slots intro: exI [of _ 1])
qed

lemma ExtractMin_law:
  assumes inv: "heap_inv s"
  shows "\<exists>s'. ExtractMin s = Some (PeekMin (snd s), s') \<and> heap_inv s' \<and>
    elems s' = elems s - set_option (PeekMin (snd s)) \<and> prio s' = prio s \<and>
    (case PeekMin (snd s) of
       None \<Rightarrow> s' = s
     | Some e \<Rightarrow> fst s' = (fst s)(e := (fst s e)\<lparr>fCurrentHeap := None\<rparr>))"
proof -
  obtain st h where s: "s = (st, h)" by (cases s)
  have sh: "heap_shape (st, h)" using inv by (simp add: s heap_inv_def)
  show ?thesis
  proof (cases "1 < fFreeIndex h")
    case True
    obtain v s' where ex: "Extract (st, h) 1 = Some (v, s')" using Extract_Some [OF sh _ True] by (auto simp: Let_def)
    from Extract_shape [OF sh _ True ex] Extract_inv [OF inv [unfolded s] _ True _ ex] True ex
    show ?thesis by (simp add: s ExtractMin_def PeekMin_def CurrentHeapSize_def)
  next
    case False
    with inv show ?thesis by (simp add: s ExtractMin_def Extract_def PeekMin_def CurrentHeapSize_def)
  qed
qed

interpretation heap: priority_queue heap_inv elems "\<lambda>s e. \<not> IsMemberOfAnyHeap (fst s) e" heap_room prio "PeekMin \<circ> snd"
  Insert ExtractMin
proof (unfold_locales, goal_cases)
  case (1 s)
  then show ?case by (simp add: elems_def)
next
  case (2 s e)
  then show ?case by (auto simp: heap_inv_def heap_shape_def IsMemberOfAnyHeap_def)
next
  case (3 s)
  then show ?case by (simp add: PeekMin_None heap_inv_def)
next
  case (4 s e)
  then show ?case using PeekMin_least by simp
next
  case (5 s e)
  from Insert_inv [OF this] show ?case by (auto simp: IsMemberOfAnyHeap_def)
next
  case (6 s)
  from ExtractMin_law [OF this] show ?case
    by (cases "PeekMin (snd s)") (auto simp: IsMemberOfAnyHeap_def)
qed

section \<open>Properties of the heap\<close>

lemma Heap_new_inv: "heap_inv (st, Heap_new this n)" "elems (st, Heap_new this n) = {}"
  by (auto simp: heap_inv_def heap_shape_def Heap_new_def elems_def slots_def heap_ordered_def Let_def)

text \<open>C8: \<^verbatim>\<open>Heap::Insert\<close> of an element that is in no heap, into a heap with fewer
  than \<open>2 ^ 31 - 1\<close> elements, passes its assertions; with or without the doubling of the array it
  keeps the heap invariant (size bounds, distinct slots, owner pointers, min-heap order), adds
  exactly that element, marks it as a member of this heap and changes no priority. For an element
  that is in a heap, this one or another, the assertion fails. In a full array of \<open>2 ^ 31\<close> slots the
  doubled size wraps around to 0 and the copy of the old array overruns the new one.\<close>

theorem Insert_correct:
  assumes "heap_inv s"
  shows "(IsMemberOfAnyHeap (fst s) e \<longrightarrow> Insert s e = None) \<and>
    (\<not> IsMemberOfAnyHeap (fst s) e \<and> CurrentHeapSize (snd s) < 2 ^ 31 - 1 \<longrightarrow>
      (\<exists>s'. Insert s e = Some s' \<and> heap_inv s' \<and> elems s' = insert e (elems s) \<and> e \<notin> elems s \<and>
        prio s' = prio s \<and> fCurrentHeap (fst s' e) = Some (heapAddr (snd s)) \<and>
        (\<forall>x. x \<noteq> e \<longrightarrow> fst s' x = fst s x) \<and> CurrentHeapSize (snd s') = CurrentHeapSize (snd s) + 1)) \<and>
    (fFreeIndex (snd s) = 2 ^ 31 \<and> fArraySize (snd s) = 2 ^ 31 \<longrightarrow> Insert s e = None)"
proof -
  have "heap_room s" if "CurrentHeapSize (snd s) < 2 ^ 31 - 1"
    using that assms by (auto simp: heap_room_def CurrentHeapSize_def heap_inv_def heap_shape_def)
  with Insert_inv [OF assms, of e] heap.free_new [OF assms, of e]
  have "\<exists>s'. Insert s e = Some s' \<and> heap_inv s' \<and> elems s' = insert e (elems s) \<and> e \<notin> elems s \<and>
      prio s' = prio s \<and> fCurrentHeap (fst s' e) = Some (heapAddr (snd s)) \<and>
      (\<forall>x. x \<noteq> e \<longrightarrow> fst s' x = fst s x) \<and> CurrentHeapSize (snd s') = CurrentHeapSize (snd s) + 1"
    if "\<not> IsMemberOfAnyHeap (fst s) e" "CurrentHeapSize (snd s) < 2 ^ 31 - 1"
    using that by fastforce
  then show ?thesis using Insert_member Insert_overflow assms by (auto simp: heap_inv_def)
qed

definition ex_store :: elem_store where
  "ex_store = (\<lambda>e. (HeapElem_new e)\<lparr>fValue := int e\<rparr>)"

definition ex_heap :: "nat list \<Rightarrow> elem_store \<times> Heap" where
  "ex_heap es = fold (\<lambda>e s. the (Insert s e)) es (ex_store, Heap_new 7 2)"

lemma heap_room_size: "heap_inv s \<Longrightarrow> heap_room s \<longleftrightarrow> card (elems s) < 2 ^ 31 - 1"
  by (auto simp: heap_room_def elems_def distinct_card heap_inv_def heap_shape_def)

lemma ex_heap_facts:
  "distinct es \<Longrightarrow> length es < 100 \<Longrightarrow> heap_inv (ex_heap es) \<and> elems (ex_heap es) = set es \<and>
     (\<forall>e. IsMemberOfAnyHeap (fst (ex_heap es)) e \<longleftrightarrow> e \<in> set es)"
proof (induction es rule: rev_induct)
  case Nil
  then show ?case using Heap_new_inv by (simp add: ex_heap_def IsMemberOfAnyHeap_def ex_store_def HeapElem_new_def)
next
  case (snoc e es)
  then have "heap_inv (ex_heap es)" "elems (ex_heap es) = set es" "\<not> IsMemberOfAnyHeap (fst (ex_heap es)) e"
    "\<forall>e. IsMemberOfAnyHeap (fst (ex_heap es)) e \<longleftrightarrow> e \<in> set es" by auto
  moreover have "card (set es) < 100" using snoc.prems by (simp add: distinct_card)
  ultimately show ?case using heap.add_law [of "ex_heap es" e] heap_room_size [of "ex_heap es"]
    by (force simp: ex_heap_def)
qed

lemma ex_heap_inv: "distinct es \<Longrightarrow> length es < 100 \<Longrightarrow> heap_inv (ex_heap es) \<and> elems (ex_heap es) = set es"
  using ex_heap_facts by blast

theorem Insert_correct_witness:
  "(\<exists>s'. Insert (ex_heap [5, 3]) 4 = Some s' \<and> elems s' = {3, 4, 5}) \<and> Insert (ex_heap [5, 3]) 3 = None"
proof -
  have i: "heap_inv (ex_heap [5, 3])" "elems (ex_heap [5, 3]) = {5, 3}"
    and m: "\<And>e. IsMemberOfAnyHeap (fst (ex_heap [5, 3])) e \<longleftrightarrow> e \<in> {5, 3}"
    using ex_heap_facts [of "[5, 3]"] by auto
  have "CurrentHeapSize (snd (ex_heap [5, 3])) = 2" by code_simp
  with Insert_correct [OF i(1), of 4] Insert_correct [OF i(1), of 3] m i(2) show ?thesis by auto
qed

text \<open>C5: \<^verbatim>\<open>Heap::ExtractMin\<close> passes its assertion and returns an element of
  least priority (and \<^verbatim>\<open>nullptr\<close> exactly for the empty heap), removes exactly
  that element, clears its owner pointer and keeps the heap invariant.\<close>

theorem ExtractMin_correct:
  assumes "heap_inv s"
  shows "\<exists>r s'. ExtractMin s = Some (r, s') \<and> heap_inv s' \<and> prio s' = prio s \<and>
     (case r of
        None \<Rightarrow> elems s = {} \<and> s' = s
      | Some e \<Rightarrow> e \<in> elems s \<and> (\<forall>x \<in> elems s. prio s e \<le> prio s x) \<and>
                  elems s' = elems s - {e} \<and> \<not> IsMemberOfAnyHeap (fst s') e)"
proof -
  from ExtractMin_law [OF assms] obtain s' where
    x: "ExtractMin s = Some (PeekMin (snd s), s')" "heap_inv s'" "prio s' = prio s"
      "elems s' = elems s - set_option (PeekMin (snd s))"
      "case PeekMin (snd s) of None \<Rightarrow> s' = s | Some e \<Rightarrow> fst s' = (fst s)(e := (fst s e)\<lparr>fCurrentHeap := None\<rparr>)"
    by blast
  show ?thesis
  proof (cases "PeekMin (snd s)")
    case None
    with x heap.peek_None [OF assms] show ?thesis by simp
  next
    case (Some e)
    with x heap.peek_Some [OF assms, of e] show ?thesis by (simp add: IsMemberOfAnyHeap_def)
  qed
qed

theorem ExtractMin_correct_witness:
  "\<exists>s'. ExtractMin (ex_heap [5, 3, 9]) = Some (Some 3, s') \<and> heap_inv s' \<and> elems s' = {5, 9}"
proof -
  have "map_option fst (ExtractMin (ex_heap [5, 3, 9])) = Some (Some 3)"
    by code_simp
  then show ?thesis
    using ExtractMin_correct [of "ex_heap [5, 3, 9]"] ex_heap_inv [of "[5, 3, 9]"] by auto
qed

text \<open>Emptying a heap with \<^verbatim>\<open>ExtractMin\<close> yields every element exactly once,
  in order of increasing priority, and leaves the heap empty.\<close>

theorem heap_drains_sorted:
  assumes "heap_inv s"
  shows "\<exists>es s'. pop_while (PeekMin \<circ> snd) ExtractMin (\<lambda>s e. True) (CurrentHeapSize (snd s)) s = Some (es, s') \<and>
    set es = elems s \<and> distinct es \<and> sorted (map (prio s) es) \<and> elems s' = {}"
proof -
  have "card (elems s) \<le> CurrentHeapSize (snd s)"
    unfolding elems_def CurrentHeapSize_def
    using card_length [of "slots (fFreeIndex (snd s)) (fHeap (snd s))"] assms
    by (simp add: heap_inv_def heap_shape_def)
  from heap.pop_while_all [OF assms this] show ?thesis by blast
qed

theorem heap_drains_sorted_witness:
  "\<exists>es s'. pop_while (PeekMin \<circ> snd) ExtractMin (\<lambda>s e. True) (CurrentHeapSize (snd (ex_heap [5, 3, 9])))
     (ex_heap [5, 3, 9]) = Some (es, s') \<and> set es = {3, 5, 9}"
  using heap_drains_sorted [of "ex_heap [5, 3, 9]"] ex_heap_inv [of "[5, 3, 9]"] by auto

text \<open>\<^verbatim>\<open>Heap::Update\<close> of a member keeps the heap invariant and the set of
  elements; it sets the new priority, except that it leaves everything unchanged when the
  flag \<^verbatim>\<open>ExpectUp\<close> or \<^verbatim>\<open>ExpectDown\<close> excludes the direction of the
  change.\<close>

theorem Update_correct:
  assumes "heap_inv s" "e \<in> elems s"
  shows "heap_inv (Update s (Some e) v flag) \<and> elems (Update s (Some e) v flag) = elems s \<and>
    prio (Update s (Some e) v flag) =
      (if update_refused (prio s e) v flag then prio s else (prio s)(e := v))"
  using Update_inv [of "fst s" "snd s" e v flag] assms by simp

theorem Update_correct_witness:
  "heap_inv (Update (ex_heap [5, 3, 9]) (Some 3) 20 heapUpdateFlagNone) \<and>
   prio (Update (ex_heap [5, 3, 9]) (Some 3) 20 heapUpdateFlagNone) 3 = 20"
  using Update_correct [of "ex_heap [5, 3, 9]" 3 20 heapUpdateFlagNone] ex_heap_inv [of "[5, 3, 9]"]
  by (simp add: update_refused_def heapUpdateFlagNone_def)

text \<open>\<^verbatim>\<open>Heap::Remove\<close> takes exactly the given member out of the heap, and
  returns \<^verbatim>\<open>nullptr\<close> and changes nothing for an element that is not in it. The
  heap order survives whenever the last leaf is not smaller than the parent of the
  removed element.\<close>

theorem Remove_correct:
  assumes "heap_inv s"
  shows "(e \<notin> elems s \<longrightarrow> Remove s (Some e) = Some (None, s)) \<and>
    (e \<in> elems s \<longrightarrow> (\<exists>s'. Remove s (Some e) = Some (Some e, s') \<and> heap_shape s' \<and>
       elems s' = elems s - {e} \<and> prio s' = prio s \<and>
       (let i = locate (fHeap (snd s)) (fFreeIndex (snd s)) e 1 in
        i = 1 \<or> key (fst s) (fHeap (snd s)) (i div 2) \<le> key (fst s) (fHeap (snd s)) (fFreeIndex (snd s) - 1)
        \<longrightarrow> heap_inv s')))"
proof -
  obtain st h where s: "s = (st, h)" by (cases s)
  have sh: "heap_shape (st, h)" using assms by (simp add: s heap_inv_def)
  have "Remove s (Some e) = Some (None, s)" if "e \<notin> elems s"
    using Remove_absent [OF sh, of e] that by (simp add: s)
  moreover have "\<exists>s'. Remove s (Some e) = Some (Some e, s') \<and> heap_shape s' \<and>
       elems s' = elems s - {e} \<and> prio s' = prio s \<and>
       (let i = locate (fHeap (snd s)) (fFreeIndex (snd s)) e 1 in
        i = 1 \<or> key (fst s) (fHeap (snd s)) (i div 2) \<le> key (fst s) (fHeap (snd s)) (fFreeIndex (snd s) - 1)
        \<longrightarrow> heap_inv s')" if e: "e \<in> elems s"
  proof -
    note m = e [unfolded s]
    obtain r s' where ex: "Extract (st, h) (locate (fHeap h) (fFreeIndex h) e 1) = Some (r, s')"
      using Extract_Some [OF sh locate_elems(1,2) [OF sh m]] by (auto simp: Let_def)
    have x: "Remove (st, h) (Some e) = Some (r, s')" using ex by (simp only: Remove_member [OF sh m])
    show ?thesis
      using Remove_shape [OF sh m x] x
        Extract_inv [OF assms [unfolded s] locate_elems(1,2) [OF sh m] _ ex]
      by (simp add: s Let_def)
  qed
  ultimately show ?thesis by blast
qed

theorem Remove_correct_witness:
  "(\<exists>s'. Remove (ex_heap [5, 3, 9]) (Some 5) = Some (Some 5, s')) \<and>
   Remove (ex_heap [5, 3, 9]) (Some 6) = Some (None, ex_heap [5, 3, 9])"
  using Remove_correct [of "ex_heap [5, 3, 9]" 5] Remove_correct [of "ex_heap [5, 3, 9]" 6]
    ex_heap_inv [of "[5, 3, 9]"] by auto

text \<open>The order does not always survive \<^verbatim>\<open>Heap::Remove\<close>:
  \<^verbatim>\<open>Extract\<close> only sifts the moved leaf down. Removing the element of priority 11
  from the heap 1, 10, 2, 11, 12, 3, 4 puts the leaf 4 below the parent 10.\<close>

theorem Remove_breaks_order:
  "heap_inv (ex_heap [1, 10, 2, 11, 12, 3, 4]) \<and>
   (\<exists>s. Remove (ex_heap [1, 10, 2, 11, 12, 3, 4]) (Some 11) = Some (Some 11, s) \<and> \<not> heap_inv s)"
proof -
  let ?r = "Remove (ex_heap [1, 10, 2, 11, 12, 3, 4]) (Some 11)"
  have 1: "map_option fst ?r = Some (Some 11)" by code_simp
  have 2: "map_option (\<lambda>(v, s). heap_ordered (fst s) (fFreeIndex (snd s)) (fHeap (snd s))) ?r = Some False"
    by code_simp
  show ?thesis using 1 2 ex_heap_inv [of "[1, 10, 2, 11, 12, 3, 4]"] by (auto simp: heap_inv_def)
qed

end
