(* ===== verification/CF_Task.thy ===== *)
theory CF_Task
  imports CF_Heap
begin

unbundle bit_operations_syntax

text \<open>
  The task scheduler of \<^verbatim>\<open>src/CFThread/Task.cpp\<close> and
  \<^verbatim>\<open>src/CFThread/include/CF/Thread/Task.h\<close>: tasks with their event mask, task threads
  with a timer heap and a queue of signalled tasks, and the pool with its thread pickers.

  The state of the whole scheduler is one record. The atomic operations of the code are
  the steps of the model: a \<^verbatim>\<open>Signal\<close> is the atomic or on the event mask followed, for
  the caller that finds the task not alive, by a separate step that picks a thread and
  puts the task into its queue (\<open>sInFlight\<close> holds the tasks between the two); a task
  thread polls its timer heap, takes from its queue, runs the task, and treats the
  value returned by \<^verbatim>\<open>Run\<close>. What \<^verbatim>\<open>Run\<close> does is open: it may read its events, ask for
  the same thread or for the global lock, signal any task, and return any value.

  The timer heap is the heap of theory \<open>CF_Heap\<close> over one store of heap elements, the
  element of task \<open>t\<close> being element \<open>t\<close>. The queue of a thread appears as the list of
  its tasks, which theory \<open>CF_Queue\<close> shows the pointer structure to implement. A step
  that runs into a failing assertion is \<^term>\<open>None\<close>; the thread array is null as
  long as it has no thread.
\<close>

section \<open>Tasks\<close>

definition kKillEvent :: UInt32 where "kKillEvent = 0x01"
definition kIdleEvent :: UInt32 where "kIdleEvent = 0x02"
definition kStartEvent :: UInt32 where "kStartEvent = 0x04"
definition kTimeoutEvent :: UInt32 where "kTimeoutEvent = 0x08"
definition kReadEvent :: UInt32 where "kReadEvent = 0x10"
definition kWriteEvent :: UInt32 where "kWriteEvent = 0x20"
definition kUpdateEvent :: UInt32 where "kUpdateEvent = 0x40"
definition kAlive :: UInt32 where "kAlive = 0x80000000"

datatype picker = ShortPicker | BlockingPicker | OtherPicker

record Task =
  fTaskName :: string
  fEvents :: UInt32
  fUseThisThread :: "nat option"
  fDefaultThread :: "nat option"
  fWriteLock :: bool
  pickerToUse :: picker

definition sTaskStateStr :: string where "sTaskStateStr = ''live_''"

text \<open>The name field has 48 bytes, the last of which is always zero.\<close>

definition SetTaskName :: "string option \<Rightarrow> Task \<Rightarrow> Task" where
  "SetTaskName name t =
     (case name of None \<Rightarrow> t
      | Some n \<Rightarrow> t\<lparr>fTaskName := take 47 sTaskStateStr @ take (48 - length sTaskStateStr - 1) n\<rparr>)"

definition Task_new :: Task where
  "Task_new = SetTaskName (Some ''unknown'')
     \<lparr>fTaskName = [], fEvents = 0, fUseThisThread = None, fDefaultThread = None, fWriteLock = False,
      pickerToUse = ShortPicker\<rparr>"

definition Valid :: "Task \<Rightarrow> bool" where
  "Valid t \<longleftrightarrow> take 5 (fTaskName t) = sTaskStateStr"

definition SetDefaultThread :: "nat option \<Rightarrow> Task \<Rightarrow> Task" where
  "SetDefaultThread d t = t\<lparr>fDefaultThread := d\<rparr>"

definition SetThreadPicker :: "picker \<Rightarrow> Task \<Rightarrow> Task" where
  "SetThreadPicker p t = t\<lparr>pickerToUse := p\<rparr>"

section \<open>Threads and the scheduler state\<close>

text \<open>\<open>InRun t b\<close>: the thread is inside \<^verbatim>\<open>Run\<close> of task \<open>t\<close>, under the global write lock if \<open>b\<close>.\<close>

datatype pc = AtWait | AtQueue | InRun nat bool | Exited

record TaskThread =
  ttHeap :: Heap
  ttQueue :: "nat list"
  ttStop :: bool
  ttPc :: pc

record Sched =
  tasks :: "nat \<Rightarrow> Task"
  elemStore :: elem_store
  sTaskThreadArray :: "TaskThread list"
  sNumTaskThreads :: UInt32
  sNumShortTaskThreads :: UInt32
  sNumBlockingTaskThreads :: UInt32
  sShortTaskThreadPicker :: UInt32
  sBlockingTaskThreadPicker :: UInt32
  sInFlight :: "nat set"
  casVal :: UInt32
  now :: int

definition upd_task :: "nat \<Rightarrow> (Task \<Rightarrow> Task) \<Rightarrow> Sched \<Rightarrow> Sched" where
  "upd_task t f s = s\<lparr>tasks := (tasks s)(t := f (tasks s t))\<rparr>"

definition upd_thread :: "nat \<Rightarrow> (TaskThread \<Rightarrow> TaskThread) \<Rightarrow> Sched \<Rightarrow> Sched" where
  "upd_thread i f s = s\<lparr>sTaskThreadArray := (sTaskThreadArray s)[i := f (sTaskThreadArray s ! i)]\<rparr>"

definition TaskThread_new :: "nat \<Rightarrow> TaskThread" where
  "TaskThread_new i = \<lparr>ttHeap = Heap_new i 1024, ttQueue = [], ttStop = False, ttPc = AtWait\<rparr>"

definition CreateThreads :: "UInt32 \<Rightarrow> UInt32 \<Rightarrow> Sched \<Rightarrow> Sched option" where
  "CreateThreads numShortTaskThreads numBlockingThreads s =
     do {
       Assert (sTaskThreadArray s = []);
       let numToAdd = numShortTaskThreads + numBlockingThreads;
       Some (s\<lparr>sTaskThreadArray := map TaskThread_new [0..<unat numToAdd],
           sNumShortTaskThreads := (if numShortTaskThreads = 0 then numToAdd else numShortTaskThreads),
           sNumBlockingTaskThreads := numBlockingThreads,
           sNumTaskThreads := numToAdd\<rparr>)
     }"

definition GetThread :: "UInt32 \<Rightarrow> Sched \<Rightarrow> TaskThread option option" where
  "GetThread index s =
     do {
       Assert (sTaskThreadArray s \<noteq> []);
       Some (if index \<ge> sNumTaskThreads s then None else Some (sTaskThreadArray s ! unat index))
     }"

definition SendStopRequest :: "nat \<Rightarrow> Sched \<Rightarrow> Sched" where
  "SendStopRequest i = upd_thread i (\<lambda>th. th\<lparr>ttStop := True\<rparr>)"

section \<open>Signalling a task\<close>

text \<open>The atomic or; the result tells whether this caller has to schedule the task.\<close>

definition Signal_flag :: "Sched \<Rightarrow> nat \<Rightarrow> UInt32 \<Rightarrow> bool \<times> Sched" where
  "Signal_flag s t events =
     (if \<not> Valid (tasks s t) then (False, s)
      else
        (let events = events OR kAlive;
             oldEvents = fEvents (tasks s t);
             s1 = upd_task t (\<lambda>T. T\<lparr>fEvents := oldEvents OR events\<rparr>) s
         in if oldEvents AND kAlive = 0 \<and> sNumTaskThreads s > 0
            then (True, s1\<lparr>sInFlight := insert t (sInFlight s1)\<rparr>) else (False, s1)))"

text \<open>\<open>Thread i\<close> is the picked thread; \<open>NoThread\<close> the early return for a picker that is
  neither of the two; \<open>DivZero\<close> a remainder by zero.\<close>

datatype pick = Thread nat | NoThread | DivZero

definition use_default :: "Task \<Rightarrow> Task" where
  "use_default T = (if fDefaultThread T \<noteq> None \<and> fUseThisThread T = None
     then T\<lparr>fUseThisThread := fDefaultThread T\<rparr> else T)"

definition Signal_pick :: "Sched \<Rightarrow> nat \<Rightarrow> pick \<times> Sched" where
  "Signal_pick s t =
     (let s1 = upd_task t use_default s
      in case fUseThisThread (tasks s1 t) of
           Some i \<Rightarrow> (Thread i, s1)
         | None \<Rightarrow>
             (case pickerToUse (tasks s1 t) of
                ShortPicker \<Rightarrow>
                  (let ix = sShortTaskThreadPicker s1; s2 = s1\<lparr>sShortTaskThreadPicker := ix + 1\<rparr>
                   in if sNumShortTaskThreads s2 = 0 then (DivZero, s2)
                      else (Thread (unat (ix mod sNumShortTaskThreads s2)), s2))
              | BlockingPicker \<Rightarrow>
                  (let ix = sBlockingTaskThreadPicker s1; s2 = s1\<lparr>sBlockingTaskThreadPicker := ix + 1\<rparr>
                   in if sNumBlockingTaskThreads s2 = 0 then (DivZero, s2)
                      else (Thread (unat (ix mod sNumBlockingTaskThreads s2 + sNumShortTaskThreads s2)), s2))
              | OtherPicker \<Rightarrow> (NoThread, s1)))"

text \<open>
  Putting the task into the queue of thread \<open>i\<close>: nothing happens if it is in that queue,
  and \<^verbatim>\<open>Queue::EnQueue\<close> asserts that it is in no other one.
\<close>

definition enqueue_on :: "nat \<Rightarrow> nat \<Rightarrow> Sched \<Rightarrow> Sched option" where
  "enqueue_on i t s =
     (if t \<in> set (ttQueue (sTaskThreadArray s ! i)) then Some s
      else do {
        Assert (\<forall>th \<in> set (sTaskThreadArray s). t \<notin> set (ttQueue th));
        Some (upd_thread i (\<lambda>th. th\<lparr>ttQueue := ttQueue th @ [t]\<rparr>) s)
      })"

text \<open>\<open>None\<close>: the code divides by zero, indexes past the thread array or fails an assertion.\<close>

definition Signal_enqueue :: "Sched \<Rightarrow> nat \<Rightarrow> Sched option" where
  "Signal_enqueue s t =
     (case Signal_pick (s\<lparr>sInFlight := sInFlight s - {t}\<rparr>) t of
        (Thread i, s1) \<Rightarrow>
          (if i < length (sTaskThreadArray s1) then enqueue_on i t s1 else None)
      | (NoThread, s1) \<Rightarrow> Some s1
      | (DivZero, _) \<Rightarrow> None)"

definition Signal :: "Sched \<Rightarrow> nat \<Rightarrow> UInt32 \<Rightarrow> Sched option" where
  "Signal s t events =
     (case Signal_flag s t events of (True, s1) \<Rightarrow> Signal_enqueue s1 t | (False, s1) \<Rightarrow> Some s1)"

section \<open>What a task does while it runs\<close>

definition GetEvents :: "Sched \<Rightarrow> nat \<Rightarrow> UInt32 \<times> Sched" where
  "GetEvents s t = (fEvents (tasks s t), upd_task t (\<lambda>T. T\<lparr>fEvents := fEvents T AND kAlive\<rparr>) s)"

definition ForceSameThread :: "Sched \<Rightarrow> nat \<Rightarrow> nat \<Rightarrow> Sched" where
  "ForceSameThread s i t = upd_task t (\<lambda>T. T\<lparr>fUseThisThread := Some i\<rparr>) s"

definition CallLocked :: "Sched \<Rightarrow> nat \<Rightarrow> nat \<Rightarrow> int \<times> Sched" where
  "CallLocked s i t = (10, upd_task t (\<lambda>T. T\<lparr>fWriteLock := True\<rparr>) (ForceSameThread s i t))"

definition GlobalUnlock :: "Sched \<Rightarrow> nat \<Rightarrow> bool \<times> Sched" where
  "GlobalUnlock s t =
     (if fWriteLock (tasks s t) then (True, upd_task t (\<lambda>T. T\<lparr>fWriteLock := False\<rparr>) s) else (False, s))"

section \<open>The task thread\<close>

text \<open>The head of the inner loop of \<^verbatim>\<open>Entry\<close>: every run asks anew for a thread.\<close>

definition start_run :: "nat \<Rightarrow> nat \<Rightarrow> Sched \<Rightarrow> Sched" where
  "start_run i t s =
     upd_thread i (\<lambda>th. th\<lparr>ttPc := InRun t (fWriteLock (tasks s t))\<rparr>)
       (upd_task t (\<lambda>T. T\<lparr>fUseThisThread := None\<rparr>) s)"

definition take_task :: "nat \<Rightarrow> nat \<Rightarrow> Sched \<Rightarrow> Sched" where
  "take_task i t s =
     (if Valid (tasks s t) then start_run i t s else upd_thread i (\<lambda>th. th\<lparr>ttPc := Exited\<rparr>) s)"

text \<open>\<^verbatim>\<open>WaitForTask\<close>: a due timer is taken from the heap; otherwise the thread goes to its queue.\<close>

definition WaitForTask_poll :: "Sched \<Rightarrow> nat \<Rightarrow> Sched option" where
  "WaitForTask_poll s i =
     (let th = sTaskThreadArray s ! i
      in case PeekMin (ttHeap th) of
           Some e \<Rightarrow>
             (if fValue (elemStore s e) \<le> now s
              then do {
                (r, st, h) \<leftarrow> ExtractMin (elemStore s, ttHeap th);
                t \<leftarrow> r;
                Some (take_task i t (upd_thread i (\<lambda>th. th\<lparr>ttHeap := h\<rparr>) (s\<lparr>elemStore := st\<rparr>)))
              }
              else Some (upd_thread i (\<lambda>th. th\<lparr>ttPc := AtQueue\<rparr>) s))
         | None \<Rightarrow> Some (upd_thread i (\<lambda>th. th\<lparr>ttPc := AtQueue\<rparr>) s))"

text \<open>How long the thread may wait for its queue, after the poll at the same time.\<close>

definition WaitForTask_timeout :: "Sched \<Rightarrow> nat \<Rightarrow> int option" where
  "WaitForTask_timeout s i =
     do {
       let theTimeout = (case PeekMin (ttHeap (sTaskThreadArray s ! i)) of
             Some e \<Rightarrow> fValue (elemStore s e) - now s | None \<Rightarrow> 0);
       Assert (theTimeout \<ge> 0);
       Some (if theTimeout < 10 then 10 else theTimeout)
     }"

text \<open>The blocking queue has delivered a task, or has timed out without one.\<close>

definition WaitForTask_dequeue :: "Sched \<Rightarrow> nat \<Rightarrow> Sched" where
  "WaitForTask_dequeue s i =
     (let th = sTaskThreadArray s ! i
      in case ttQueue th of
           t # q \<Rightarrow> take_task i t (upd_thread i (\<lambda>th. th\<lparr>ttQueue := q\<rparr>) s)
         | [] \<Rightarrow> upd_thread i (\<lambda>th. th\<lparr>ttPc := (if ttStop th then Exited else AtWait)\<rparr>) s)"

definition kMinWaitTimeInMilSecs :: int where "kMinWaitTimeInMilSecs = 10"

text \<open>
  \<^verbatim>\<open>Run\<close> of task \<open>t\<close> has returned \<open>theTimeout\<close>. A weak compare-exchange may fail although the
  values agree (\<open>spurious\<close>); whenever it fails it stores the value it has seen into
  \<^verbatim>\<open>val\<close>, which is a static variable shared by all threads (\<open>casVal\<close>).
\<close>

definition Entry_return :: "Sched \<Rightarrow> nat \<Rightarrow> nat \<Rightarrow> bool \<Rightarrow> int \<Rightarrow> bool \<Rightarrow> Sched option" where
  "Entry_return s i t locked theTimeout spurious =
     (let s = (if locked then upd_task t (\<lambda>T. T\<lparr>fWriteLock := False\<rparr>) s else s);
          wait = upd_thread i (\<lambda>th. th\<lparr>ttPc := AtWait\<rparr>)
      in if theTimeout < 0 then Some (wait (upd_task t (\<lambda>T. T\<lparr>fTaskName := (fTaskName T)[0 := CHR ''D'']\<rparr>) s))
         else if theTimeout = 0 then
           (if fEvents (tasks s t) = casVal s \<and> \<not> spurious
            then Some (wait (upd_task t (\<lambda>T. T\<lparr>fEvents := 0\<rparr>) s))
            else Some (start_run i t (s\<lparr>casVal := fEvents (tasks s t)\<rparr>)))
         else
           do {
             let theTimeout = (if theTimeout < kMinWaitTimeInMilSecs then kMinWaitTimeInMilSecs else theTimeout);
             (st, h) \<leftarrow> Insert (SetValue (elemStore s) t (now s + theTimeout), ttHeap (sTaskThreadArray s ! i)) t;
             Some (wait (upd_task t (\<lambda>T. T\<lparr>fEvents := fEvents T OR kIdleEvent\<rparr>)
               (upd_thread i (\<lambda>th. th\<lparr>ttHeap := h\<rparr>) (s\<lparr>elemStore := st\<rparr>))))
           })"

text \<open>
  All interleavings of signallers and task threads. Tasks are numbered; there are at most
  \<open>max_tasks\<close> of them, the most that the array of a timer heap can hold, whose size cannot be
  doubled beyond \<open>2 ^ 31\<close> slots.
\<close>

definition max_tasks :: nat where "max_tasks = 2 ^ 31 - 1"

inductive sched_step :: "Sched \<Rightarrow> Sched \<Rightarrow> bool" where
  flag: "t < max_tasks \<Longrightarrow> sched_step s (snd (Signal_flag s t events))"
| enqueue: "t \<in> sInFlight s \<Longrightarrow> Signal_enqueue s t = Some s' \<Longrightarrow> sched_step s s'"
| poll: "i < length (sTaskThreadArray s) \<Longrightarrow> ttPc (sTaskThreadArray s ! i) = AtWait \<Longrightarrow>
    WaitForTask_poll s i = Some s' \<Longrightarrow> sched_step s s'"
| dequeue: "i < length (sTaskThreadArray s) \<Longrightarrow> ttPc (sTaskThreadArray s ! i) = AtQueue \<Longrightarrow>
    sched_step s (WaitForTask_dequeue s i)"
| get_events: "i < length (sTaskThreadArray s) \<Longrightarrow> ttPc (sTaskThreadArray s ! i) = InRun t b \<Longrightarrow>
    sched_step s (snd (GetEvents s t))"
| force: "i < length (sTaskThreadArray s) \<Longrightarrow> ttPc (sTaskThreadArray s ! i) = InRun t b \<Longrightarrow>
    sched_step s (ForceSameThread s i t)"
| call_locked: "i < length (sTaskThreadArray s) \<Longrightarrow> ttPc (sTaskThreadArray s ! i) = InRun t b \<Longrightarrow>
    sched_step s (snd (CallLocked s i t))"
| global_unlock: "i < length (sTaskThreadArray s) \<Longrightarrow> ttPc (sTaskThreadArray s ! i) = InRun t b \<Longrightarrow>
    sched_step s (snd (GlobalUnlock s t))"
| return: "i < length (sTaskThreadArray s) \<Longrightarrow> ttPc (sTaskThreadArray s ! i) = InRun t b \<Longrightarrow>
    Entry_return s i t b theTimeout spurious = Some s' \<Longrightarrow> sched_step s s'"
| tick: "now s \<le> n \<Longrightarrow> sched_step s (s\<lparr>now := n\<rparr>)"
| stop: "i < length (sTaskThreadArray s) \<Longrightarrow> sched_step s (SendStopRequest i s)"


section \<open>Event masks\<close>

definition alive :: "UInt32 \<Rightarrow> bool" where
  "alive e \<longleftrightarrow> e AND kAlive \<noteq> 0"

lemma alive_bit: "alive e \<longleftrightarrow> bit e 31"
proof -
  have k: "kAlive = 2 ^ 31" by (simp add: kAlive_def)
  show ?thesis unfolding alive_def k and_exp_eq_0_iff_not_bit by simp
qed

lemma and_exp_bit: "bit e n \<Longrightarrow> e AND 2 ^ n = 2 ^ n" for e :: "'a::len word"
  by (intro bit_word_eqI) (auto simp: bit_and_iff bit_exp_iff)

lemma alive_simps [simp]:
  "alive (x OR y) \<longleftrightarrow> alive x \<or> alive y" "alive (x AND kAlive) \<longleftrightarrow> alive x" "alive kAlive" "\<not> alive 0"
  by (auto simp: alive_bit bit_or_iff bit_and_iff kAlive_def)

section \<open>Where a task is\<close>

datatype place = InSignal | Queued nat | Timed nat | Running nat

definition heap_tasks :: "Heap \<Rightarrow> nat set" where
  "heap_tasks h = elems (\<lambda>_. HeapElem_new 0, h)"

lemma elems_heap_tasks: "elems (st, h) = heap_tasks h"
  by (simp add: heap_tasks_def elems_def)

fun at :: "Sched \<Rightarrow> nat \<Rightarrow> place \<Rightarrow> bool" where
  "at s t InSignal \<longleftrightarrow> t \<in> sInFlight s"
| "at s t (Queued i) \<longleftrightarrow> i < length (sTaskThreadArray s) \<and> t \<in> set (ttQueue (sTaskThreadArray s ! i))"
| "at s t (Timed i) \<longleftrightarrow> i < length (sTaskThreadArray s) \<and> t \<in> heap_tasks (ttHeap (sTaskThreadArray s ! i))"
| "at s t (Running i) \<longleftrightarrow> i < length (sTaskThreadArray s) \<and> (\<exists>b. ttPc (sTaskThreadArray s ! i) = InRun t b)"

definition thread_ok :: "elem_store \<Rightarrow> TaskThread \<Rightarrow> bool" where
  "thread_ok st th \<longleftrightarrow> heap_inv (st, ttHeap th) \<and> distinct (ttQueue th)"

text \<open>The task as the scheduler keeps it: an event is pending only while the alive bit is set,
  and a thread it asks for exists.\<close>

definition task_ok :: "nat \<Rightarrow> Task \<Rightarrow> bool" where
  "task_ok n T \<longleftrightarrow> (fEvents T = 0 \<or> alive (fEvents T)) \<and> pred_option (\<lambda>i. i < n) (fUseThisThread T) \<and>
     pred_option (\<lambda>i. i < n) (fDefaultThread T)"

definition pool_ok :: "Sched \<Rightarrow> bool" where
  "pool_ok s \<longleftrightarrow> 0 < sNumShortTaskThreads s \<and> 0 < sNumBlockingTaskThreads s \<and>
     unat (sNumShortTaskThreads s) + unat (sNumBlockingTaskThreads s) = length (sTaskThreadArray s) \<and>
     sNumTaskThreads s > 0"

definition placed :: "Sched \<Rightarrow> nat \<Rightarrow> bool" where
  "placed s t \<longleftrightarrow>
     (\<forall>p q. at s t p \<longrightarrow> at s t q \<longrightarrow> p = q) \<and>
     (\<forall>p. at s t p \<longrightarrow> alive (fEvents (tasks s t)) \<and> Valid (tasks s t) \<and> t < max_tasks) \<and>
     (alive (fEvents (tasks s t)) \<and> Valid (tasks s t) \<and> pickerToUse (tasks s t) \<noteq> OtherPicker \<longrightarrow> (\<exists>p. at s t p))"

definition sched_inv :: "Sched \<Rightarrow> bool" where
  "sched_inv s \<longleftrightarrow> pool_ok s \<and> alive (casVal s) \<and>
     (\<forall>th \<in> set (sTaskThreadArray s). thread_ok (elemStore s) th) \<and>
     (\<forall>t. task_ok (length (sTaskThreadArray s)) (tasks s t)) \<and> (\<forall>t. placed s t) \<and>
     (\<forall>t. IsMemberOfAnyHeap (elemStore s) t \<longrightarrow> (\<exists>i. at s t (Timed i)))"

lemma upd_task_simps [simp]:
  "tasks (upd_task t f s) = (tasks s)(t := f (tasks s t))"
  "sTaskThreadArray (upd_task t f s) = sTaskThreadArray s" "elemStore (upd_task t f s) = elemStore s"
  "sInFlight (upd_task t f s) = sInFlight s" "casVal (upd_task t f s) = casVal s"
  "sNumTaskThreads (upd_task t f s) = sNumTaskThreads s" "now (upd_task t f s) = now s"
  "sNumShortTaskThreads (upd_task t f s) = sNumShortTaskThreads s"
  "sNumBlockingTaskThreads (upd_task t f s) = sNumBlockingTaskThreads s"
  "sShortTaskThreadPicker (upd_task t f s) = sShortTaskThreadPicker s"
  "sBlockingTaskThreadPicker (upd_task t f s) = sBlockingTaskThreadPicker s"
  "at (upd_task t f s) u p = at s u p"
  by (simp_all add: upd_task_def) (cases p; simp add: upd_task_def)

lemma upd_thread_simps [simp]:
  "tasks (upd_thread i g s) = tasks s"
  "sTaskThreadArray (upd_thread i g s) = (sTaskThreadArray s)[i := g (sTaskThreadArray s ! i)]"
  "elemStore (upd_thread i g s) = elemStore s"
  "sInFlight (upd_thread i g s) = sInFlight s" "casVal (upd_thread i g s) = casVal s"
  "sNumTaskThreads (upd_thread i g s) = sNumTaskThreads s" "now (upd_thread i g s) = now s"
  "sNumShortTaskThreads (upd_thread i g s) = sNumShortTaskThreads s"
  "sNumBlockingTaskThreads (upd_thread i g s) = sNumBlockingTaskThreads s"
  by (simp_all add: upd_thread_def)

lemma at_cong:
  assumes "sTaskThreadArray s' = sTaskThreadArray s" "sInFlight s' = sInFlight s"
  shows "at s' t p = at s t p"
  using assms by (cases p) auto

lemma placed_cong:
  assumes "\<And>p. at s' t p = at s t p" "alive (fEvents (tasks s' t)) = alive (fEvents (tasks s t))"
    "Valid (tasks s' t) = Valid (tasks s t)" "pickerToUse (tasks s' t) = pickerToUse (tasks s t)"
  shows "placed s' t = placed s t"
  unfolding placed_def assms ..

lemma sched_invI:
  assumes "pool_ok s" "alive (casVal s)" "\<forall>th \<in> set (sTaskThreadArray s). thread_ok (elemStore s) th"
    "\<And>t. task_ok (length (sTaskThreadArray s)) (tasks s t)" "\<And>t. placed s t"
    "\<And>t. IsMemberOfAnyHeap (elemStore s) t \<Longrightarrow> \<exists>i. at s t (Timed i)"
  shows "sched_inv s"
  using assms unfolding sched_inv_def by blast

lemma sched_invD:
  assumes "sched_inv s"
  shows "pool_ok s" "alive (casVal s)" "\<forall>th \<in> set (sTaskThreadArray s). thread_ok (elemStore s) th"
    "task_ok (length (sTaskThreadArray s)) (tasks s t)" "placed s t"
    "IsMemberOfAnyHeap (elemStore s) t \<Longrightarrow> \<exists>i. at s t (Timed i)"
  using assms unfolding sched_inv_def by blast+

text \<open>A step that only changes one task record keeps the invariant.\<close>

lemma inv_task:
  assumes inv: "sched_inv s"
    and same: "sTaskThreadArray s' = sTaskThreadArray s" "sInFlight s' = sInFlight s" "elemStore s' = elemStore s"
      "alive (casVal s')" "pool_ok s'"
    and tasks: "\<And>u. u \<noteq> t \<Longrightarrow> tasks s' u = tasks s u"
    and t: "task_ok (length (sTaskThreadArray s)) (tasks s' t)"
    and pl: "alive (fEvents (tasks s' t)) = alive (fEvents (tasks s t))" "Valid (tasks s' t) = Valid (tasks s t)"
      "pickerToUse (tasks s' t) = pickerToUse (tasks s t)"
  shows "sched_inv s'"
proof (rule sched_invI)
  note at = at_cong [OF same(1,2)]
  show "placed s' u" for u
  proof (cases "u = t")
    case True
    then show ?thesis using placed_cong [of s' t s, OF at pl] sched_invD(5) [OF inv] by simp
  next
    case False
    then show ?thesis using placed_cong [of s' u s, OF at] tasks [OF False] sched_invD(5) [OF inv] by simp
  qed
  show "task_ok (length (sTaskThreadArray s')) (tasks s' u)" for u
    using t tasks sched_invD(4) [OF inv, of u] same(1) by (cases "u = t") simp_all
  show "\<exists>i. at s' u (Timed i)" if "IsMemberOfAnyHeap (elemStore s') u" for u
    using that sched_invD(6) [OF inv, of u] unfolding same(3) at by blast
qed (use same sched_invD(3) [OF inv] in simp_all)

text \<open>A step that moves task \<open>t\<close> to place \<open>q\<close> and leaves all others where they are.\<close>

lemma inv_move:
  assumes inv: "sched_inv s"
    and ok: "pool_ok s'" "alive (casVal s')" "\<forall>th \<in> set (sTaskThreadArray s'). thread_ok (elemStore s') th"
      "length (sTaskThreadArray s') = length (sTaskThreadArray s)"
    and tasks: "\<And>u. u \<noteq> t \<Longrightarrow> tasks s' u = tasks s u"
    and t: "task_ok (length (sTaskThreadArray s)) (tasks s' t)"
    and others: "\<And>u p. u \<noteq> t \<Longrightarrow> at s' u p = at s u p"
    and here: "\<And>p. at s' t p \<longleftrightarrow> p = q" "alive (fEvents (tasks s' t))" "Valid (tasks s' t)" "t < max_tasks"
    and mem: "\<And>u. u \<noteq> t \<Longrightarrow> IsMemberOfAnyHeap (elemStore s') u = IsMemberOfAnyHeap (elemStore s) u"
      "IsMemberOfAnyHeap (elemStore s') t \<Longrightarrow> \<exists>i. q = Timed i"
  shows "sched_inv s'"
proof (rule sched_invI)
  show "placed s' u" for u
  proof (cases "u = t")
    case True
    with here show ?thesis by (simp add: placed_def)
  next
    case False
    then show ?thesis using placed_cong [of s' u s, OF others] tasks [OF False] sched_invD(5) [OF inv] by simp
  qed
  show "task_ok (length (sTaskThreadArray s')) (tasks s' u)" for u
    using t tasks sched_invD(4) [OF inv, of u] ok(4) by (cases "u = t") simp_all
  show "\<exists>i. at s' u (Timed i)" if "IsMemberOfAnyHeap (elemStore s') u" for u
  proof (cases "u = t")
    case True
    with that mem(2) here(1) show ?thesis by blast
  next
    case False
    with that mem(1) [OF False] sched_invD(6) [OF inv, of u] others [OF False] show ?thesis by blast
  qed
qed (use ok in simp_all)

text \<open>Likewise for a step that takes \<open>t\<close> off the scheduler.\<close>

lemma inv_leave:
  assumes inv: "sched_inv s"
    and ok: "pool_ok s'" "alive (casVal s')" "\<forall>th \<in> set (sTaskThreadArray s'). thread_ok (elemStore s') th"
      "length (sTaskThreadArray s') = length (sTaskThreadArray s)"
    and tasks: "\<And>u. u \<noteq> t \<Longrightarrow> tasks s' u = tasks s u"
    and t: "task_ok (length (sTaskThreadArray s)) (tasks s' t)"
    and others: "\<And>u p. u \<noteq> t \<Longrightarrow> at s' u p = at s u p"
    and mem: "\<And>u. u \<noteq> t \<Longrightarrow> IsMemberOfAnyHeap (elemStore s') u = IsMemberOfAnyHeap (elemStore s) u"
      "\<not> IsMemberOfAnyHeap (elemStore s') t"
    and gone: "\<And>p. \<not> at s' t p"
      "\<not> alive (fEvents (tasks s' t)) \<or> \<not> Valid (tasks s' t) \<or> pickerToUse (tasks s' t) = OtherPicker"
  shows "sched_inv s'"
proof (rule sched_invI)
  show "placed s' u" for u
  proof (cases "u = t")
    case True
    with gone show ?thesis by (auto simp: placed_def)
  next
    case False
    then show ?thesis using placed_cong [of s' u s, OF others] tasks [OF False] sched_invD(5) [OF inv] by simp
  qed
  show "task_ok (length (sTaskThreadArray s')) (tasks s' u)" for u
    using t tasks sched_invD(4) [OF inv, of u] ok(4) by (cases "u = t") simp_all
  show "\<exists>i. at s' u (Timed i)" if "IsMemberOfAnyHeap (elemStore s') u" for u
  proof (cases "u = t")
    case True
    with that mem(2) show ?thesis by blast
  next
    case False
    with that mem(1) [OF False] sched_invD(6) [OF inv, of u] others [OF False] show ?thesis by blast
  qed
qed (use ok in simp_all)

text \<open>Changes of a heap element that is in no heap of this thread do not matter to it.\<close>

lemma heap_inv_frame:
  assumes "heap_inv (st, h)" "\<And>e. e \<in> heap_tasks h \<Longrightarrow> st' e = st e"
  shows "heap_inv (st', h)"
proof -
  have n: "fFreeIndex h \<le> length (CF_Heap.fHeap h)" using assms(1) by (simp add: heap_inv_def heap_shape_def)
  have k: "key st' (CF_Heap.fHeap h) i = key st (CF_Heap.fHeap h) i" if "1 \<le> i" "i < fFreeIndex h" for i
  proof -
    have "CF_Heap.fHeap h ! i \<in> heap_tasks h" using that n by (auto simp: heap_tasks_def elems_def set_slots)
    then show ?thesis using assms(2) by (simp add: key_def)
  qed
  have "heap_ordered st' (fFreeIndex h) (CF_Heap.fHeap h)"
    using assms(1) k half_bounds by (auto simp: heap_inv_def heap_ordered_def)
  moreover have "heap_shape (st', h)"
    using assms by (auto simp: heap_inv_def heap_shape_def elems_heap_tasks)
  ultimately show ?thesis by (simp add: heap_inv_def)
qed


section \<open>The steps keep the invariant\<close>

lemma at_unique: "sched_inv s \<Longrightarrow> at s t p \<Longrightarrow> at s t q \<longleftrightarrow> q = p"
  using sched_invD(5) [of s t] unfolding placed_def by metis

lemma at_alive: "sched_inv s \<Longrightarrow> at s t p \<Longrightarrow> alive (fEvents (tasks s t)) \<and> Valid (tasks s t) \<and> t < max_tasks"
  using sched_invD(5) [of s t] unfolding placed_def by metis

lemma inv_same:
  assumes inv: "sched_inv s"
    and ok: "pool_ok s'" "alive (casVal s')" "\<forall>th \<in> set (sTaskThreadArray s'). thread_ok (elemStore s') th"
      "length (sTaskThreadArray s') = length (sTaskThreadArray s)" "tasks s' = tasks s" "\<And>t p. at s' t p = at s t p"
      "\<And>t. IsMemberOfAnyHeap (elemStore s') t = IsMemberOfAnyHeap (elemStore s) t"
  shows "sched_inv s'"
proof (rule sched_invI)
  show "placed s' t" for t using placed_cong [of s' t s, OF ok(6)] ok(5) sched_invD(5) [OF inv] by simp
  show "task_ok (length (sTaskThreadArray s')) (tasks s' t)" for t using ok(4,5) sched_invD(4) [OF inv] by simp
  show "\<exists>i. at s' t (Timed i)" if "IsMemberOfAnyHeap (elemStore s') t" for t
    using that sched_invD(6) [OF inv, of t] unfolding ok(6,7) by blast
qed (use ok in simp_all)

text \<open>A task that is elsewhere, or nowhere, is in no heap.\<close>

lemma not_member:
  assumes "sched_inv s" "\<And>i. \<not> at s t (Timed i)"
  shows "\<not> IsMemberOfAnyHeap (elemStore s) t"
  using sched_invD(6) [OF assms(1), of t] assms(2) by blast

lemma pool_okD:
  assumes "pool_ok s"
  shows "sNumTaskThreads s > 0" "0 < sNumShortTaskThreads s" "0 < sNumBlockingTaskThreads s"
    "unat (sNumShortTaskThreads s) + unat (sNumBlockingTaskThreads s) = length (sTaskThreadArray s)"
  using assms by (simp_all add: pool_ok_def)

lemma pool_ok_cong:
  assumes "sNumTaskThreads s' = sNumTaskThreads s" "sNumShortTaskThreads s' = sNumShortTaskThreads s"
    "sNumBlockingTaskThreads s' = sNumBlockingTaskThreads s"
    "length (sTaskThreadArray s') = length (sTaskThreadArray s)"
  shows "pool_ok s' = pool_ok s"
  unfolding pool_ok_def assms ..

lemma at_InFlight:
  "at (s\<lparr>sInFlight := F\<rparr>) t p = (if p = InSignal then t \<in> F else at s t p)"
  by (cases p) auto

lemma flag_inv:
  assumes inv: "sched_inv s" and tm: "t < max_tasks"
  shows "sched_inv (snd (Signal_flag s t events))"
proof (cases "Valid (tasks s t)")
  case False
  with inv show ?thesis by (simp add: Signal_flag_def)
next
  case True
  let ?T = "(tasks s t)\<lparr>fEvents := fEvents (tasks s t) OR (events OR kAlive)\<rparr>"
  let ?s1 = "upd_task t (\<lambda>T. T\<lparr>fEvents := fEvents (tasks s t) OR (events OR kAlive)\<rparr>) s"
  have ok: "task_ok (length (sTaskThreadArray s)) ?T"
    using sched_invD(4) [OF inv, of t] by (simp add: task_ok_def)
  have V: "Valid ?T" using True by (simp add: Valid_def)
  have n: "sNumTaskThreads s > 0" using pool_okD(1) [OF sched_invD(1) [OF inv]] .
  have po: "pool_ok ?s1" using sched_invD(1) [OF inv] pool_ok_cong [of ?s1 s] by simp
  show ?thesis
  proof (cases "alive (fEvents (tasks s t))")
    case al: True
    then have "snd (Signal_flag s t events) = ?s1" using True by (simp add: Signal_flag_def Let_def alive_def)
    moreover have "sched_inv ?s1"
      by (rule inv_task [OF inv, where t = t]) (use ok V al sched_invD(2) [OF inv] po True in simp_all)
    ultimately show ?thesis by simp
  next
    case dead: False
    let ?s2 = "?s1\<lparr>sInFlight := insert t (sInFlight s)\<rparr>"
    have e: "snd (Signal_flag s t events) = ?s2" using True dead n by (simp add: Signal_flag_def Let_def alive_def)
    have no: "\<not> at s t p" for p using at_alive [OF inv] dead by blast
    have "sched_inv ?s2"
    proof (rule inv_move [OF inv, where t = t and q = InSignal])
      show "pool_ok ?s2" using po pool_ok_cong [of ?s2 ?s1] by simp
      show "at ?s2 u p = at s u p" if "u \<noteq> t" for u p using that by (cases p) auto
      show "at ?s2 t p \<longleftrightarrow> p = InSignal" for p using no [of p] by (cases p) auto
    qed (use ok V tm sched_invD(2,3) [OF inv] not_member [OF inv no] in simp_all)
    with e show ?thesis by simp
  qed
qed

lemma use_default_simps [simp]:
  "fEvents (use_default T) = fEvents T" "Valid (use_default T) = Valid T"
  "pickerToUse (use_default T) = pickerToUse T" "task_ok n (use_default T) = task_ok n T"
  by (auto simp: use_default_def Valid_def task_ok_def)

text \<open>The picked thread is one of the pool.\<close>

lemma Signal_pick_ok:
  assumes p: "pool_ok s" and t: "task_ok (length (sTaskThreadArray s)) (tasks s t)"
  shows "\<exists>r s1. Signal_pick s t = (r, s1) \<and> tasks s1 = (tasks s)(t := use_default (tasks s t)) \<and>
     sTaskThreadArray s1 = sTaskThreadArray s \<and> sInFlight s1 = sInFlight s \<and> elemStore s1 = elemStore s \<and>
     casVal s1 = casVal s \<and> pool_ok s1 \<and>
     (case r of Thread i \<Rightarrow> i < length (sTaskThreadArray s)
      | NoThread \<Rightarrow> pickerToUse (tasks s t) = OtherPicker | DivZero \<Rightarrow> False)"
proof -
  let ?T = "use_default (tasks s t)"
  have T: "pred_option (\<lambda>i. i < length (sTaskThreadArray s)) (fUseThisThread ?T)"
    using t unfolding use_default_simps(4) [symmetric, of _ "tasks s t"] by (simp add: task_ok_def)
  note n = pool_okD [OF p]
  have m1: "unat (x mod sNumShortTaskThreads s) < length (sTaskThreadArray s)" for x
  proof -
    have "unat (x mod sNumShortTaskThreads s) < unat (sNumShortTaskThreads s)"
      using n(2) by (simp add: unat_mod word_greater_zero_iff unat_gt_0)
    with n(4) show ?thesis by linarith
  qed
  have m2: "unat (x mod sNumBlockingTaskThreads s + sNumShortTaskThreads s) < length (sTaskThreadArray s)" for x
  proof -
    have "unat (x mod sNumBlockingTaskThreads s) < unat (sNumBlockingTaskThreads s)"
      using n(3) by (simp add: unat_mod word_greater_zero_iff unat_gt_0)
    moreover have "unat (x mod sNumBlockingTaskThreads s + sNumShortTaskThreads s)
        \<le> unat (x mod sNumBlockingTaskThreads s) + unat (sNumShortTaskThreads s)"
      by (simp add: unat_word_ariths)
    ultimately show ?thesis using n(4) by linarith
  qed
  show ?thesis
  proof (cases "fUseThisThread ?T")
    case (Some i)
    with T p show ?thesis using pool_ok_cong [of "upd_task t use_default s" s]
      by (simp add: Signal_pick_def Let_def)
  next
    case None
    then show ?thesis using n m1 m2 p
      by (cases "pickerToUse (tasks s t)") (auto simp: Signal_pick_def Let_def pool_ok_def)
  qed
qed


lemma at_upd_thread:
  assumes "i < length (sTaskThreadArray s)"
  shows "at (upd_thread i g s) t p =
    (case p of
       Queued j \<Rightarrow> (if j = i then t \<in> set (ttQueue (g (sTaskThreadArray s ! i))) else at s t p)
     | Timed j \<Rightarrow> (if j = i then t \<in> heap_tasks (ttHeap (g (sTaskThreadArray s ! i))) else at s t p)
     | Running j \<Rightarrow> (if j = i then (\<exists>b. ttPc (g (sTaskThreadArray s ! i)) = InRun t b) else at s t p)
     | InSignal \<Rightarrow> at s t p)"
  using assms by (cases p) auto

lemma thread_ok_upd:
  assumes "\<forall>th \<in> set ths. thread_ok st th" "thread_ok st th'"
  shows "\<forall>th \<in> set (ths[i := th']). thread_ok st th"
  using assms set_update_subset_insert [of ths i th'] by blast

lemma enqueue_inv:
  assumes inv: "sched_inv s" and t: "t \<in> sInFlight s"
  shows "\<exists>s'. Signal_enqueue s t = Some s' \<and> sched_inv s'"
proof -
  let ?s0 = "s\<lparr>sInFlight := sInFlight s - {t}\<rparr>"
  have p0: "pool_ok ?s0" using sched_invD(1) [OF inv] pool_ok_cong [of ?s0 s] by simp
  have tk: "task_ok (length (sTaskThreadArray s)) (tasks s t)" by (rule sched_invD(4) [OF inv])
  have al: "alive (fEvents (tasks s t))" "Valid (tasks s t)" "t < max_tasks" using at_alive [OF inv, of t InSignal] t by auto
  have only: "at s t p \<longleftrightarrow> p = InSignal" for p using at_unique [OF inv, of t InSignal] t by simp
  obtain r s1 where r: "Signal_pick ?s0 t = (r, s1)" "tasks s1 = (tasks s)(t := use_default (tasks s t))"
      "sTaskThreadArray s1 = sTaskThreadArray s" "sInFlight s1 = sInFlight s - {t}" "elemStore s1 = elemStore s"
      "casVal s1 = casVal s" "pool_ok s1"
      "case r of Thread i \<Rightarrow> i < length (sTaskThreadArray s)
       | NoThread \<Rightarrow> pickerToUse (tasks s t) = OtherPicker | DivZero \<Rightarrow> False"
    using Signal_pick_ok [OF p0, of t] tk by (fastforce split: pick.splits)
  have nm: "\<not> IsMemberOfAnyHeap (elemStore s) t" by (rule not_member [OF inv]) (simp only: only, simp)
  have at1: "at s1 u p \<longleftrightarrow> at s u p \<and> \<not> (u = t \<and> p = InSignal)" for u p using r(3,4) by (cases p) auto
  show ?thesis
  proof (cases r)
    case (Thread i)
    let ?g = "\<lambda>th. th\<lparr>ttQueue := ttQueue th @ [t]\<rparr>"
    let ?s2 = "upd_thread i ?g s1"
    have i: "i < length (sTaskThreadArray s1)" using r(3,8) Thread by simp
    have nq: "t \<notin> set (ttQueue (sTaskThreadArray s ! j))" if "j < length (sTaskThreadArray s)" for j
      using only [of "Queued j"] that by simp
    then have "\<forall>th \<in> set (sTaskThreadArray s1). t \<notin> set (ttQueue th)" unfolding r(3) by (metis in_set_conv_nth)
    with i have en: "enqueue_on i t s1 = Some ?s2" by (simp add: enqueue_on_def)
    have "sched_inv ?s2"
    proof (rule inv_move [OF inv, where t = t and q = "Queued i"])
      show "pool_ok ?s2" using r(7) pool_ok_cong [of ?s2 s1] by simp
      show "\<forall>th \<in> set (sTaskThreadArray ?s2). thread_ok (elemStore ?s2) th"
        unfolding upd_thread_simps
        by (rule thread_ok_upd) (use sched_invD(3) [OF inv] r i nq in \<open>auto simp: thread_ok_def\<close>)
      show "at ?s2 u p = at s u p" if "u \<noteq> t" for u p
        unfolding at_upd_thread [OF i] using that i at1 [of u] by (cases p) (auto simp: r)
      show "at ?s2 t p \<longleftrightarrow> p = Queued i" for p
        unfolding at_upd_thread [OF i] using at1 [of t p] only [of p] i only [of "Timed i"] only [of "Running i"]
        by (cases p) (auto simp: r)
    qed (use r al tk sched_invD(2) [OF inv] nm in simp_all)
    then show ?thesis using r(1) Thread i en by (simp add: Signal_enqueue_def)
  next
    case NoThread
    have "sched_inv s1"
      by (rule inv_leave [OF inv, where t = t])
         (use r NoThread at1 only tk sched_invD(2,3) [OF inv] nm in simp_all)
    then show ?thesis using r(1) NoThread by (simp add: Signal_enqueue_def)
  next
    case DivZero
    with r(8) show ?thesis by simp
  qed
qed

lemma start_run_inv:
  assumes inv: "sched_inv s" and i: "i < length (sTaskThreadArray s0)" "pool_ok s0" "alive (casVal s0)"
      "\<forall>th \<in> set (sTaskThreadArray s0). thread_ok (elemStore s0) th"
      "length (sTaskThreadArray s0) = length (sTaskThreadArray s)" "tasks s0 = tasks s"
    and others: "\<And>u p. u \<noteq> t \<Longrightarrow> at s0 u p = at s u p"
    and none: "\<And>p. p \<noteq> Running i \<Longrightarrow> \<not> at s0 t p"
    and free: "\<And>u. u \<noteq> t \<Longrightarrow> \<not> at s0 u (Running i)"
    and al: "alive (fEvents (tasks s t))" "Valid (tasks s t)" "t < max_tasks"
    and mem: "\<And>u. u \<noteq> t \<Longrightarrow> IsMemberOfAnyHeap (elemStore s0) u = IsMemberOfAnyHeap (elemStore s) u"
      "\<not> IsMemberOfAnyHeap (elemStore s0) t"
  shows "sched_inv (start_run i t s0)"
proof (rule inv_move [OF inv, where t = t and q = "Running i"])
  let ?s1 = "upd_task t (\<lambda>T. T\<lparr>fUseThisThread := None\<rparr>) s0"
  let ?s2 = "start_run i t s0"
  have i1: "i < length (sTaskThreadArray ?s1)" using i(1) by simp
  show "pool_ok ?s2" using i(2) pool_ok_cong [of ?s2 s0] by (simp add: start_run_def)
  show "\<forall>th \<in> set (sTaskThreadArray ?s2). thread_ok (elemStore ?s2) th"
    unfolding start_run_def upd_thread_simps
    by (rule thread_ok_upd) (use i in \<open>auto simp: thread_ok_def\<close>)
  show "at ?s2 u p = at s u p" if "u \<noteq> t" for u p
    unfolding start_run_def at_upd_thread [OF i1] others [OF that, symmetric] using that i free [OF that]
    by (cases p) auto
  show "at ?s2 t p \<longleftrightarrow> p = Running i" for p
    unfolding start_run_def at_upd_thread [OF i1]
    using none [of p] none [of "Timed i"] none [of "Queued i"] i by (cases p) auto
  show "task_ok (length (sTaskThreadArray s)) (tasks ?s2 t)"
    using sched_invD(4) [OF inv, of t] i(6) by (simp add: start_run_def task_ok_def)
qed (use i al mem in \<open>auto simp: start_run_def Valid_def\<close>)


lemma set_pc_inv:
  assumes inv: "sched_inv s" and i: "i < length (sTaskThreadArray s)"
    and pc: "\<And>t b. ttPc (sTaskThreadArray s ! i) \<noteq> InRun t b"
    and g: "\<And>th. ttHeap (g th) = ttHeap th" "\<And>th. ttQueue (g th) = ttQueue th"
      "\<And>t b. ttPc (g (sTaskThreadArray s ! i)) \<noteq> InRun t b"
  shows "sched_inv (upd_thread i g s)"
proof (rule inv_same [OF inv])
  show "at (upd_thread i g s) t p = at s t p" for t p
    unfolding at_upd_thread [OF i] using i pc g by (cases p) auto
  show "pool_ok (upd_thread i g s)" using sched_invD(1) [OF inv] pool_ok_cong [of "upd_thread i g s" s] by simp
  show "\<forall>th \<in> set (sTaskThreadArray (upd_thread i g s)). thread_ok (elemStore (upd_thread i g s)) th"
    unfolding upd_thread_simps
    by (rule thread_ok_upd) (use sched_invD(3) [OF inv] i g in \<open>auto simp: thread_ok_def\<close>)
qed (use sched_invD(2) [OF inv] in simp_all)

lemma dequeue_inv:
  assumes inv: "sched_inv s" and i: "i < length (sTaskThreadArray s)"
    and pc: "ttPc (sTaskThreadArray s ! i) = AtQueue"
  shows "sched_inv (WaitForTask_dequeue s i)"
proof (cases "ttQueue (sTaskThreadArray s ! i)")
  case Nil
  then show ?thesis using set_pc_inv [OF inv i, of "\<lambda>th. th\<lparr>ttPc := (if ttStop th then Exited else AtWait)\<rparr>"] pc
    by (simp add: WaitForTask_dequeue_def)
next
  case (Cons t q)
  let ?s0 = "upd_thread i (\<lambda>th. th\<lparr>ttQueue := q\<rparr>) s"
  have tq: "at s t (Queued i)" using i Cons by simp
  note al = at_alive [OF inv tq] and only = at_unique [OF inv tq]
  have d: "distinct (t # q)" using sched_invD(3) [OF inv] i Cons by (metis thread_ok_def nth_mem)
  have "sched_inv (start_run i t ?s0)"
  proof (rule start_run_inv [OF inv, of i ?s0 t])
    show "at ?s0 u p = at s u p" if "u \<noteq> t" for u p
      unfolding at_upd_thread [OF i] using that i Cons by (cases p) auto
    show "\<not> at ?s0 t p" for p
      unfolding at_upd_thread [OF i] using only [of p] only [of "Timed i"] d i pc by (cases p) auto
    show "\<not> at ?s0 u (Running i)" for u using i pc by simp
    show "pool_ok ?s0" using sched_invD(1) [OF inv] pool_ok_cong [of ?s0 s] by simp
    show "\<forall>th \<in> set (sTaskThreadArray ?s0). thread_ok (elemStore ?s0) th"
      unfolding upd_thread_simps
      by (rule thread_ok_upd) (use sched_invD(3) [OF inv] i d in \<open>auto simp: thread_ok_def\<close>)
    show "\<not> IsMemberOfAnyHeap (elemStore ?s0) t"
      using not_member [OF inv, of t] only [of "Timed _"] by simp
  qed (use i sched_invD(2) [OF inv] al in simp_all)
  with Cons al show ?thesis by (simp add: WaitForTask_dequeue_def take_task_def)
qed

text \<open>The heap operations of one thread and the heaps of the others.\<close>

lemma threads_ok_frame:
  assumes ok: "\<forall>th \<in> set ths. thread_ok st th" and i: "i < length ths"
    and other: "\<And>j. j < length ths \<Longrightarrow> j \<noteq> i \<Longrightarrow> e \<notin> heap_tasks (ttHeap (ths ! j))"
    and st: "\<And>x. x \<noteq> e \<Longrightarrow> st' x = st x"
    and here: "heap_inv (st', h)"
  shows "\<forall>th \<in> set (ths[i := (ths ! i)\<lparr>ttHeap := h\<rparr>]). thread_ok st' th"
proof
  fix th assume "th \<in> set (ths[i := (ths ! i)\<lparr>ttHeap := h\<rparr>])"
  then obtain j where j: "j < length ths" "th = (ths[i := (ths ! i)\<lparr>ttHeap := h\<rparr>]) ! j"
    by (metis in_set_conv_nth length_list_update)
  show "thread_ok st' th"
  proof (cases "j = i")
    case True
    then show ?thesis using ok i j here by (simp add: thread_ok_def)
  next
    case False
    then have th: "th = ths ! j" using j by simp
    then have "heap_inv (st, ttHeap th)" "distinct (ttQueue th)" using ok j by (auto simp: thread_ok_def)
    moreover have "heap_inv (st', ttHeap th)"
      by (rule heap_inv_frame [OF calculation(1)]) (use other [OF j(1) False] st th in metis)
    ultimately show ?thesis by (simp add: thread_ok_def)
  qed
qed

lemma poll_inv:
  assumes inv: "sched_inv s" and i: "i < length (sTaskThreadArray s)"
    and pc: "ttPc (sTaskThreadArray s ! i) = AtWait"
  shows "\<exists>s'. WaitForTask_poll s i = Some s' \<and> sched_inv s'"
proof (cases "\<exists>e. PeekMin (ttHeap (sTaskThreadArray s ! i)) = Some e \<and> fValue (elemStore s e) \<le> now s")
  case False
  then have "WaitForTask_poll s i = Some (upd_thread i (\<lambda>th. th\<lparr>ttPc := AtQueue\<rparr>) s)"
    by (auto simp: WaitForTask_poll_def Let_def split: option.splits)
  with set_pc_inv [OF inv i, of "\<lambda>th. th\<lparr>ttPc := AtQueue\<rparr>"] pc show ?thesis by simp
next
  case True
  let ?h = "ttHeap (sTaskThreadArray s ! i)"
  from True obtain t where t: "PeekMin ?h = Some t" "fValue (elemStore s t) \<le> now s" by blast
  have hi: "heap_inv (elemStore s, ?h)" using sched_invD(3) [OF inv] i by (auto simp: thread_ok_def)
  from ExtractMin_law [OF hi] t(1) obtain st h where ex: "ExtractMin (elemStore s, ?h) = Some (Some t, st, h)"
    and h': "heap_inv (st, h)" and el: "heap_tasks h = heap_tasks ?h - {t}"
    and st: "st = (elemStore s)(t := (elemStore s t)\<lparr>fCurrentHeap := None\<rparr>)"
    by (auto simp: elems_heap_tasks)
  have "t \<in> heap_tasks ?h" using heap.peek_Some [OF hi] t(1) by (simp add: elems_heap_tasks)
  then have tq: "at s t (Timed i)" using i by simp
  note al = at_alive [OF inv tq] and only = at_unique [OF inv tq]
  let ?s0 = "upd_thread i (\<lambda>th. th\<lparr>ttHeap := h\<rparr>) (s\<lparr>elemStore := st\<rparr>)"
  have ie: "i < length (sTaskThreadArray (s\<lparr>elemStore := st\<rparr>))" using i by simp
  have ae: "at (s\<lparr>elemStore := st\<rparr>) u p = at s u p" for u p by (cases p) auto
  have nj: "t \<notin> heap_tasks (ttHeap (sTaskThreadArray s ! j))" if "j < length (sTaskThreadArray s)" "j \<noteq> i" for j
    using only [of "Timed j"] that by simp
  have "sched_inv (start_run i t ?s0)"
  proof (rule start_run_inv [OF inv, of i ?s0 t])
    show "at ?s0 u p = at s u p" if "u \<noteq> t" for u p
      unfolding at_upd_thread [OF ie] ae using that i el by (cases p) auto
    show "\<not> at ?s0 t p" for p
      unfolding at_upd_thread [OF ie] ae using only [of p] only [of "Queued i"] el i pc by (cases p) auto
    show "\<not> at ?s0 u (Running i)" for u using i pc by simp
    show "pool_ok ?s0" using sched_invD(1) [OF inv] pool_ok_cong [of ?s0 s] by simp
    show "\<forall>th \<in> set (sTaskThreadArray ?s0). thread_ok (elemStore ?s0) th"
      using threads_ok_frame [OF sched_invD(3) [OF inv] i nj _ h'] by (simp add: st)
  qed (use i sched_invD(2) [OF inv] al in \<open>simp_all add: st IsMemberOfAnyHeap_def\<close>)
  with t ex al show ?thesis by (simp add: WaitForTask_poll_def Let_def take_task_def)
qed


lemma SetValue_heap_inv:
  assumes "heap_inv (st, h)" "e \<notin> heap_tasks h"
  shows "heap_inv (SetValue st e v, h)"
  by (rule heap_inv_frame [OF assms(1)]) (use assms(2) in \<open>auto simp: SetValue_def\<close>)

text \<open>A running task is in no heap, so that it can be inserted into one.\<close>

lemma running_free:
  assumes "sched_inv s" "i < length (sTaskThreadArray s)" "ttPc (sTaskThreadArray s ! i) = InRun t b"
  shows "\<not> IsMemberOfAnyHeap (elemStore s) t"
proof (rule not_member [OF assms(1)])
  have "at s t (Running i)" using assms(2,3) by auto
  from at_unique [OF assms(1) this] show "\<not> at s t (Timed j)" for j by (simp only:) simp
qed

lemma SetValue_free:
  assumes "sched_inv s" "i < length (sTaskThreadArray s)" "ttPc (sTaskThreadArray s ! i) = InRun t b"
  shows "\<not> IsMemberOfAnyHeap (fst (SetValue (elemStore s) t v, h)) t"
  using running_free [OF assms] by (simp add: IsMemberOfAnyHeap_def SetValue_def)

text \<open>The timer heap of a thread has room for a task that is not in it.\<close>

lemma heap_tasks_room:
  assumes inv: "sched_inv s" and i: "i < length (sTaskThreadArray s)"
    and t: "t < max_tasks" "t \<notin> heap_tasks (ttHeap (sTaskThreadArray s ! i))"
    and h: "heap_inv (st, ttHeap (sTaskThreadArray s ! i))"
  shows "heap_room (st, ttHeap (sTaskThreadArray s ! i))"
proof -
  let ?H = "heap_tasks (ttHeap (sTaskThreadArray s ! i))"
  have "u < max_tasks" if "u \<in> ?H" for u
    using at_alive [OF inv, of u "Timed i"] that i by simp
  with t have "?H \<subseteq> {..<max_tasks} - {t}" by auto
  then have "card ?H \<le> card ({..<max_tasks} - {t})" by (intro card_mono) auto
  also have "\<dots> < max_tasks" using t(1) by simp
  finally show ?thesis using heap_room_size [OF h] by (simp add: elems_heap_tasks max_tasks_def)
qed

text \<open>\<^verbatim>\<open>Run\<close> returned a positive value: the task waits in the timer heap.\<close>

lemma return_timer_inv:
  assumes inv: "sched_inv s" and i: "i < length (sTaskThreadArray s)" and run: "ttPc (sTaskThreadArray s ! i) = InRun t b"
    and ins: "Insert (SetValue (elemStore s) t v, ttHeap (sTaskThreadArray s ! i)) t = Some (st, h)"
  shows "sched_inv (upd_thread i (\<lambda>th. th\<lparr>ttPc := AtWait\<rparr>)
    (upd_task t (\<lambda>T. T\<lparr>fEvents := fEvents T OR kIdleEvent\<rparr>)
       (upd_thread i (\<lambda>th. th\<lparr>ttHeap := h\<rparr>) (s\<lparr>elemStore := st\<rparr>))))" (is "sched_inv ?s2")
proof -
  let ?h = "ttHeap (sTaskThreadArray s ! i)"
  have tr: "at s t (Running i)" using i run by auto
  note al = at_alive [OF inv tr] and only = at_unique [OF inv tr]
  have nj: "t \<notin> heap_tasks (ttHeap (sTaskThreadArray s ! j))" if "j < length (sTaskThreadArray s)" for j
    using only [of "Timed j"] that by simp
  have "heap_inv (elemStore s, ?h)" using sched_invD(3) [OF inv] i by (auto simp: thread_ok_def)
  then have hi: "heap_inv (SetValue (elemStore s) t v, ?h)" using nj [OF i] by (rule SetValue_heap_inv)
  have "heap_room (SetValue (elemStore s) t v, ?h)" using heap_tasks_room [OF inv i _ nj [OF i] hi] al by blast
  from Insert_inv [OF hi _ this, of t] SetValue_free [OF inv i run] ins
  have h': "heap_inv (st, h)" and el: "heap_tasks h = insert t (heap_tasks ?h)"
    and ste: "st = (SetValue (elemStore s) t v)(t := (SetValue (elemStore s) t v t)\<lparr>fCurrentHeap := Some (heapAddr ?h)\<rparr>)"
    by (auto simp: elems_heap_tasks)
  have st: "st x = elemStore s x" if "x \<noteq> t" for x using that unfolding ste by (simp add: SetValue_def)
  have ths: "sTaskThreadArray ?s2 = (sTaskThreadArray s)[i := (sTaskThreadArray s ! i)\<lparr>ttHeap := h, ttPc := AtWait\<rparr>]"
    using i by simp
  show ?thesis
  proof (rule inv_move [OF inv, where t = t and q = "Timed i"])
    show "pool_ok ?s2" using sched_invD(1) [OF inv] pool_ok_cong [of ?s2 s] by simp
    have "thread_ok st ((sTaskThreadArray s ! i)\<lparr>ttHeap := h, ttPc := AtWait\<rparr>)"
      using sched_invD(3) [OF inv] i h' by (auto simp: thread_ok_def)
    from thread_ok_upd [OF threads_ok_frame [OF sched_invD(3) [OF inv] i nj st h'] this, of i]
    show "\<forall>th \<in> set (sTaskThreadArray ?s2). thread_ok (elemStore ?s2) th"
      unfolding ths by (simp add: list_update_overwrite)
    show "at ?s2 u p = at s u p" if "u \<noteq> t" for u p
      using that i el run by (cases p) (auto simp: nth_list_update)
    show "at ?s2 t p \<longleftrightarrow> p = Timed i" for p
      using only [of p] only [of "Queued i"] i el by (cases p) (auto simp: nth_list_update)
    show "task_ok (length (sTaskThreadArray s)) (tasks ?s2 t)"
      using sched_invD(4) [OF inv, of t] al by (auto simp: task_ok_def)
  qed (use al sched_invD(2) [OF inv] st in \<open>auto simp: Valid_def IsMemberOfAnyHeap_def\<close>)
qed

text \<open>\<^verbatim>\<open>Run\<close> returned a negative value, or zero with no event: the task leaves the scheduler.\<close>

lemma return_leave_inv:
  assumes inv: "sched_inv s" and i: "i < length (sTaskThreadArray s)" and run: "ttPc (sTaskThreadArray s ! i) = InRun t b"
    and f: "task_ok (length (sTaskThreadArray s)) (f (tasks s t))" "\<not> alive (fEvents (f (tasks s t))) \<or> \<not> Valid (f (tasks s t))"
  shows "sched_inv (upd_thread i (\<lambda>th. th\<lparr>ttPc := AtWait\<rparr>) (upd_task t f s))" (is "sched_inv ?s2")
proof (rule inv_leave [OF inv, where t = t])
  have tr: "at s t (Running i)" using i run by auto
  note only = at_unique [OF inv tr]
  show "pool_ok ?s2" using sched_invD(1) [OF inv] pool_ok_cong [of ?s2 s] by simp
  show "\<forall>th \<in> set (sTaskThreadArray ?s2). thread_ok (elemStore ?s2) th"
    unfolding upd_thread_simps upd_task_simps
    by (rule thread_ok_upd) (use sched_invD(3) [OF inv] i in \<open>auto simp: thread_ok_def\<close>)
  show "at ?s2 u p = at s u p" if "u \<noteq> t" for u p
    using that i run by (cases p) (auto simp: nth_list_update)
  show "\<not> at ?s2 t p" for p
    using only [of p] only [of "Queued i"] only [of "Timed i"] i by (cases p) (auto simp: nth_list_update)
qed (use f sched_invD(2) [OF inv] running_free [OF inv i run] in auto)

lemma rename_invalid:
  assumes "Valid T"
  shows "\<not> Valid (T\<lparr>fTaskName := (fTaskName T)[0 := CHR ''D'']\<rparr>)"
proof -
  obtain c cs where "fTaskName T = c # cs" using assms by (cases "fTaskName T") (auto simp: Valid_def sTaskStateStr_def)
  then show ?thesis by (simp add: Valid_def sTaskStateStr_def numeral_eq_Suc)
qed

lemma return_inv:
  assumes inv: "sched_inv s" and i: "i < length (sTaskThreadArray s)" and run: "ttPc (sTaskThreadArray s ! i) = InRun t b"
  shows "\<exists>s'. Entry_return s i t b theTimeout spurious = Some s' \<and> sched_inv s'"
proof -
  define s1 where "s1 = (if b then upd_task t (\<lambda>T. T\<lparr>fWriteLock := False\<rparr>) s else s)"
  have inv1: "sched_inv s1"
  proof (cases b)
    case True
    show ?thesis unfolding s1_def if_P [OF True]
      by (rule inv_task [OF inv, where t = t])
         (use sched_invD(1,2,4) [OF inv] pool_ok_cong [of "upd_task t _ s" s] in \<open>auto simp: task_ok_def Valid_def\<close>)
  qed (simp add: s1_def inv)
  have arr: "sTaskThreadArray s1 = sTaskThreadArray s" by (simp add: s1_def)
  have i1: "i < length (sTaskThreadArray s1)" and run1: "ttPc (sTaskThreadArray s1 ! i) = InRun t b" using i run arr by auto
  have tr: "at s1 t (Running i)" using i1 run1 by auto
  note al = at_alive [OF inv1 tr] and only = at_unique [OF inv1 tr]
  have tk: "task_ok (length (sTaskThreadArray s1)) (tasks s1 t)" by (rule sched_invD(4) [OF inv1])
  note E = Entry_return_def [of s i t b theTimeout spurious, folded s1_def]
  consider "theTimeout < 0" | "theTimeout = 0" "fEvents (tasks s1 t) = casVal s1 \<and> \<not> spurious"
    | "theTimeout = 0" "\<not> (fEvents (tasks s1 t) = casVal s1 \<and> \<not> spurious)" | "theTimeout > 0" by linarith
  then show ?thesis
  proof cases
    case 1
    have "sched_inv (upd_thread i (\<lambda>th. th\<lparr>ttPc := AtWait\<rparr>)
        (upd_task t (\<lambda>T. T\<lparr>fTaskName := (fTaskName T)[0 := CHR ''D'']\<rparr>) s1))"
      by (rule return_leave_inv [OF inv1 i1 run1]) (use tk rename_invalid al in \<open>auto simp: task_ok_def\<close>)
    with 1 show ?thesis unfolding E by (simp add: Let_def)
  next
    case 2
    have "sched_inv (upd_thread i (\<lambda>th. th\<lparr>ttPc := AtWait\<rparr>) (upd_task t (\<lambda>T. T\<lparr>fEvents := 0\<rparr>) s1))"
      by (rule return_leave_inv [OF inv1 i1 run1]) (use tk in \<open>auto simp: task_ok_def\<close>)
    with 2 show ?thesis unfolding E by (simp add: Let_def)
  next
    case 3
    let ?s0 = "s1\<lparr>casVal := fEvents (tasks s1 t)\<rparr>"
    have ae: "at ?s0 u p = at s1 u p" for u p by (cases p) auto
    have "sched_inv (start_run i t ?s0)"
      by (rule start_run_inv [OF inv1])
         (use i1 run1 al only sched_invD(1,3) [OF inv1] pool_ok_cong [of ?s0 s1] ae running_free [OF inv1 i1 run1] in auto)
    with 3 show ?thesis unfolding E by (auto simp: Let_def)
  next
    case 4
    let ?v = "now s1 + (if theTimeout < kMinWaitTimeInMilSecs then kMinWaitTimeInMilSecs else theTimeout)"
    let ?h = "ttHeap (sTaskThreadArray s1 ! i)"
    have "heap_inv (elemStore s1, ?h)" using sched_invD(3) [OF inv1] i1 by (auto simp: thread_ok_def)
    moreover have nt: "t \<notin> heap_tasks ?h" using only [of "Timed i"] i1 by simp
    ultimately have hi: "heap_inv (SetValue (elemStore s1) t ?v, ?h)" by (rule SetValue_heap_inv)
    have room: "heap_room (SetValue (elemStore s1) t ?v, ?h)" using heap_tasks_room [OF inv1 i1 _ nt hi] al by blast
    from Insert_inv [OF hi SetValue_free [OF inv1 i1 run1] room] obtain st h
      where ins: "Insert (SetValue (elemStore s1) t ?v, ?h) t = Some (st, h)" by auto
    from return_timer_inv [OF inv1 i1 run1 ins] 4 show ?thesis unfolding E by (simp add: Let_def ins)
  qed
qed


lemma run_task_inv:
  assumes inv: "sched_inv s" and f: "task_ok (length (sTaskThreadArray s)) (f (tasks s t))"
    "alive (fEvents (f (tasks s t))) = alive (fEvents (tasks s t))" "Valid (f (tasks s t)) = Valid (tasks s t)"
    "pickerToUse (f (tasks s t)) = pickerToUse (tasks s t)"
  shows "sched_inv (upd_task t f s)"
  by (rule inv_task [OF inv, where t = t])
     (use f sched_invD(1,2) [OF inv] pool_ok_cong [of "upd_task t f s" s] in simp_all)

lemma sched_step_inv:
  assumes "sched_step s s'" "sched_inv s"
  shows "sched_inv s'"
  using assms
proof (induction rule: sched_step.induct)
  case (enqueue t s s')
  then show ?case using enqueue_inv by fastforce
next
  case (poll i s s')
  then show ?case using poll_inv by fastforce
next
  case (return i s t b theTimeout spurious s')
  then show ?case using return_inv [OF return(4,1,2), of theTimeout spurious] by auto
next
  case (get_events i s t b)
  then show ?case unfolding GetEvents_def snd_conv
    by (intro run_task_inv) (auto simp: task_ok_def Valid_def dest: sched_invD(4) [of s t])
next
  case (force i s t b)
  then show ?case unfolding ForceSameThread_def
    by (intro run_task_inv) (auto simp: task_ok_def Valid_def dest: sched_invD(4) [of s t])
next
  case (call_locked i s t b)
  have "snd (CallLocked s i t) = upd_task t (\<lambda>T. T\<lparr>fUseThisThread := Some i, fWriteLock := True\<rparr>) s"
    by (simp add: CallLocked_def ForceSameThread_def upd_task_def)
  moreover have "sched_inv (upd_task t (\<lambda>T. T\<lparr>fUseThisThread := Some i, fWriteLock := True\<rparr>) s)"
    using call_locked by (intro run_task_inv) (auto simp: task_ok_def Valid_def dest: sched_invD(4) [of s t])
  ultimately show ?case by simp
next
  case (global_unlock i s t b)
  have "sched_inv (upd_task t (\<lambda>T. T\<lparr>fWriteLock := False\<rparr>) s)"
    using global_unlock by (intro run_task_inv) (auto simp: task_ok_def Valid_def dest: sched_invD(4) [of s t])
  with global_unlock show ?case by (simp add: GlobalUnlock_def)
next
  case (tick s n)
  have "at (s\<lparr>now := n\<rparr>) t p = at s t p" for t p by (cases p) auto
  then show ?case
    by (intro inv_same [OF tick(2)]) (use sched_invD [OF tick(2)] pool_ok_cong [of "s\<lparr>now := n\<rparr>" s] in simp_all)
next
  case (stop i s)
  let ?s' = "SendStopRequest i s"
  have "at ?s' t p = at s t p" for t p
    unfolding SendStopRequest_def at_upd_thread [OF stop(1)] using stop(1) by (cases p) auto
  moreover have "\<forall>th \<in> set (sTaskThreadArray ?s'). thread_ok (elemStore ?s') th"
    unfolding SendStopRequest_def upd_thread_simps
    by (rule thread_ok_upd) (use sched_invD(3) [OF stop(2)] stop(1) in \<open>auto simp: thread_ok_def\<close>)
  ultimately show ?case
    by (intro inv_same [OF stop(2)])
       (use sched_invD [OF stop(2)] pool_ok_cong [of ?s' s] in \<open>simp_all add: SendStopRequest_def\<close>)
qed (simp_all add: flag_inv dequeue_inv)

text \<open>A scheduler that has been set up: threads created, tasks constructed and never signalled.\<close>

definition sched_init :: "UInt32 \<Rightarrow> UInt32 \<Rightarrow> (nat \<Rightarrow> Task) \<Rightarrow> int \<Rightarrow> Sched" where
  "sched_init ns nb T n = the (CreateThreads ns nb
     \<lparr>tasks = T, elemStore = (\<lambda>e. HeapElem_new e), sTaskThreadArray = [], sNumTaskThreads = 0,
      sNumShortTaskThreads = 0, sNumBlockingTaskThreads = 0, sShortTaskThreadPicker = 0,
      sBlockingTaskThreadPicker = 0, sInFlight = {}, casVal = kAlive, now = n\<rparr>)"

definition fresh_task :: "nat \<Rightarrow> Task \<Rightarrow> bool" where
  "fresh_task n T \<longleftrightarrow> fEvents T = 0 \<and> fUseThisThread T = None \<and> pred_option (\<lambda>i. i < n) (fDefaultThread T)"

lemma sched_init_inv:
  assumes n: "0 < ns" "0 < nb" "unat ns + unat nb < 2 ^ 32" and T: "\<And>t. fresh_task (unat ns + unat nb) (T t)"
  shows "sched_inv (sched_init ns nb T n)"
proof -
  have u: "unat (ns + nb) = unat ns + unat nb" using n(3) by (simp add: unat_word_ariths)
  then have nz: "0 < ns + nb" using n(1) by (metis add_is_0 unat_gt_0 word_neq_0_conv unat_0 neq0_conv)
  let ?s = "sched_init ns nb T n"
  have th: "sTaskThreadArray ?s = map TaskThread_new [0..<unat ns + unat nb]"
    by (simp add: sched_init_def CreateThreads_def Let_def u)
  have no: "\<not> at ?s t p" for t p
    by (cases p) (auto simp: th, auto simp: TaskThread_new_def heap_tasks_def Heap_new_inv sched_init_def CreateThreads_def Let_def)
  have al: "fEvents (tasks ?s t) = 0" for t using T by (simp add: sched_init_def CreateThreads_def Let_def fresh_task_def)
  show ?thesis
  proof (rule sched_invI)
    show "pool_ok ?s" using n u nz unfolding pool_ok_def th by (auto simp: sched_init_def CreateThreads_def Let_def)
    show "\<forall>th \<in> set (sTaskThreadArray ?s). thread_ok (elemStore ?s) th"
      unfolding th by (auto simp: thread_ok_def TaskThread_new_def Heap_new_inv)
    show "placed ?s t" for t using no al by (auto simp: placed_def)
    show "task_ok (length (sTaskThreadArray ?s)) (tasks ?s t)" for t
      using T [of t] unfolding th by (simp add: task_ok_def fresh_task_def sched_init_def CreateThreads_def Let_def)
  qed (simp_all add: sched_init_def CreateThreads_def Let_def IsMemberOfAnyHeap_def HeapElem_new_def)
qed

lemma reachable_inv:
  assumes "sched_step\<^sup>*\<^sup>* s s'" "sched_inv s"
  shows "sched_inv s'"
  using assms by (induction rule: rtranclp_induct) (auto intro: sched_step_inv)

section \<open>Properties of the scheduler\<close>

text \<open>C12: A task is never run by two threads at once. In every state that any interleaving of
  signals, timers and task threads reaches from a pool with short and blocking threads,
  a task is in at most one place (being signalled, in one queue, in one timer heap, or
  running on one thread), a place it has means that it is alive and not deleted, no queue
  holds a task twice, every timer heap is a well-formed heap, and no assertion of the heaps
  fails when a task thread polls its timers or handles the value that Run returned. There are at
  most \<open>2 ^ 31 - 1\<close> tasks, the most a timer heap can hold (see C8).\<close>

theorem Task_single_place:
  assumes "0 < ns" "0 < nb" "unat ns + unat nb < 2 ^ 32" "\<And>t. fresh_task (unat ns + unat nb) (T t)"
    and "sched_step\<^sup>*\<^sup>* (sched_init ns nb T n) s"
  shows "(\<forall>t p q. at s t p \<and> at s t q \<longrightarrow> p = q) \<and>
    (\<forall>t p. at s t p \<longrightarrow> fEvents (tasks s t) AND kAlive \<noteq> 0 \<and> Valid (tasks s t)) \<and>
    (\<forall>th \<in> set (sTaskThreadArray s). distinct (ttQueue th) \<and> heap_inv (elemStore s, ttHeap th)) \<and>
    (\<forall>i < length (sTaskThreadArray s). case ttPc (sTaskThreadArray s ! i) of
       AtWait \<Rightarrow> WaitForTask_poll s i \<noteq> None
     | InRun t b \<Rightarrow> (\<forall>theTimeout spurious. Entry_return s i t b theTimeout spurious \<noteq> None)
     | _ \<Rightarrow> True)"
proof -
  have inv: "sched_inv s" using reachable_inv [OF assms(5) sched_init_inv [OF assms(1-4)]] .
  have "case ttPc (sTaskThreadArray s ! i) of
       AtWait \<Rightarrow> WaitForTask_poll s i \<noteq> None
     | InRun t b \<Rightarrow> (\<forall>theTimeout spurious. Entry_return s i t b theTimeout spurious \<noteq> None)
     | _ \<Rightarrow> True" if "i < length (sTaskThreadArray s)" for i
    using poll_inv [OF inv that] return_inv [OF inv that] by (fastforce split: pc.splits)
  then show ?thesis using at_unique [OF inv] at_alive [OF inv] sched_invD(3) [OF inv]
    by (auto simp: thread_ok_def alive_def)
qed

text \<open>A pool of one short and one blocking thread, and a first signal to task 7.\<close>

definition ex_sched :: Sched where
  "ex_sched = sched_init 1 1 (\<lambda>_. Task_new) 0"

definition ex_signalled :: Sched where
  "ex_signalled = snd (Signal_flag ex_sched 7 kReadEvent)"

lemma Task_new_facts [simp]:
  "Valid Task_new" "fEvents Task_new = 0" "fUseThisThread Task_new = None" "fDefaultThread Task_new = None"
  "fWriteLock Task_new = False" "pickerToUse Task_new = ShortPicker" "fresh_task n Task_new"
  by (auto simp: Task_new_def SetTaskName_def Valid_def sTaskStateStr_def fresh_task_def)

lemma ex_reached: "sched_step\<^sup>*\<^sup>* (sched_init 1 1 (\<lambda>_. Task_new) 0) ex_signalled"
  unfolding ex_signalled_def ex_sched_def by (rule r_into_rtranclp, rule sched_step.flag) (simp add: max_tasks_def)

lemma ex_signalled_facts:
  "at ex_signalled 7 InSignal" "fEvents (tasks ex_signalled 7) = kReadEvent OR kAlive"
  "Valid (tasks ex_signalled 7)" "pickerToUse (tasks ex_signalled 7) = ShortPicker"
  by (simp_all add: ex_signalled_def Signal_flag_def ex_sched_def sched_init_def CreateThreads_def Let_def,
      simp_all add: Valid_def Task_new_def SetTaskName_def sTaskStateStr_def)

theorem Task_single_place_witness:
  "\<not> at ex_signalled 7 (Queued 0) \<and> \<not> at ex_signalled 7 (Running 1)"
proof -
  have "\<forall>p q. at ex_signalled 7 p \<and> at ex_signalled 7 q \<longrightarrow> p = q"
    using Task_single_place [OF _ _ _ _ ex_reached] by simp
  with ex_signalled_facts(1) show ?thesis by blast
qed

text \<open>Queues are first in, first out: every step leaves the queue of a thread as it is, appends to
  it, or is the thread itself taking its head.\<close>

lemma upd_thread_queue:
  assumes "\<And>th. ttQueue (g th) = ttQueue th"
  shows "ttQueue (sTaskThreadArray (upd_thread i g s) ! j) = ttQueue (sTaskThreadArray s ! j)"
  using assms by (cases "i < length (sTaskThreadArray s)") (simp_all add: nth_list_update list_update_beyond)

lemma start_run_simps [simp]:
  "ttQueue (sTaskThreadArray (start_run i t s) ! j) = ttQueue (sTaskThreadArray s ! j)"
  "length (sTaskThreadArray (start_run i t s)) = length (sTaskThreadArray s)"
  "fEvents (tasks (start_run i t s) u) = fEvents (tasks s u)"
  by (simp add: start_run_def upd_thread_queue del: upd_thread_simps(2)) (simp_all add: start_run_def)

lemma take_task_simps [simp]:
  "ttQueue (sTaskThreadArray (take_task i t s) ! j) = ttQueue (sTaskThreadArray s ! j)"
  "fEvents (tasks (take_task i t s) u) = fEvents (tasks s u)"
  by (simp add: take_task_def upd_thread_queue del: upd_thread_simps(2)) (simp add: take_task_def)

lemma Entry_return_queue:
  "Entry_return s i t b theTimeout spurious = Some s' \<Longrightarrow>
   ttQueue (sTaskThreadArray s' ! j) = ttQueue (sTaskThreadArray s ! j)"
  by (auto simp: Entry_return_def Let_def bind_eq_Some_conv upd_thread_queue split: if_splits simp del: upd_thread_simps(2))

lemma poll_queue:
  "WaitForTask_poll s i = Some s' \<Longrightarrow> ttQueue (sTaskThreadArray s' ! j) = ttQueue (sTaskThreadArray s ! j)"
  by (auto simp: WaitForTask_poll_def Let_def bind_eq_Some_conv upd_thread_queue split: option.splits if_splits
      simp del: upd_thread_simps(2))

lemma Signal_pick_array: "Signal_pick s t = (r, s') \<Longrightarrow> sTaskThreadArray s' = sTaskThreadArray s \<and> fEvents (tasks s' u) = fEvents (tasks s u)"
  by (auto simp: Signal_pick_def Let_def split: option.splits picker.splits if_splits)

lemma enqueue_on_queue:
  "enqueue_on i t s = Some s' \<Longrightarrow> i < length (sTaskThreadArray s) \<Longrightarrow>
   (\<exists>zs. ttQueue (sTaskThreadArray s' ! j) = ttQueue (sTaskThreadArray s ! j) @ zs) \<and>
   t \<in> set (ttQueue (sTaskThreadArray s' ! i)) \<and> fEvents (tasks s' u) = fEvents (tasks s u)"
  by (auto simp: enqueue_on_def bind_eq_Some_conv nth_list_update split: if_splits)

lemma Signal_enqueue_queue:
  assumes "Signal_enqueue s t = Some s'"
  shows "\<exists>zs. ttQueue (sTaskThreadArray s' ! j) = ttQueue (sTaskThreadArray s ! j) @ zs"
    "fEvents (tasks s' u) = fEvents (tasks s u)"
proof -
  obtain r s1 where r: "Signal_pick (s\<lparr>sInFlight := sInFlight s - {t}\<rparr>) t = (r, s1)" by fastforce
  note p = Signal_pick_array [OF r, of u]
  have "(\<exists>zs. ttQueue (sTaskThreadArray s' ! j) = ttQueue (sTaskThreadArray s ! j) @ zs) \<and> fEvents (tasks s' u) = fEvents (tasks s u)"
  proof (cases r)
    case (Thread i)
    then show ?thesis using assms r p enqueue_on_queue [of i t s1 s' j u] by (auto simp: Signal_enqueue_def split: if_splits)
  qed (use assms r p in \<open>auto simp: Signal_enqueue_def\<close>)
  then show "\<exists>zs. ttQueue (sTaskThreadArray s' ! j) = ttQueue (sTaskThreadArray s ! j) @ zs"
    "fEvents (tasks s' u) = fEvents (tasks s u)" by blast+
qed

lemma dequeue_queue:
  "i \<noteq> j \<Longrightarrow> ttQueue (sTaskThreadArray (WaitForTask_dequeue s i) ! j) = ttQueue (sTaskThreadArray s ! j)"
  "fEvents (tasks (WaitForTask_dequeue s i) u) = fEvents (tasks s u)"
  by (auto simp: WaitForTask_dequeue_def Let_def split: list.splits)

lemma flag_array: "sTaskThreadArray (snd (Signal_flag s t e)) = sTaskThreadArray s"
  by (simp add: Signal_flag_def Let_def)

lemma run_array:
  "sTaskThreadArray (snd (GetEvents s t)) = sTaskThreadArray s" "sTaskThreadArray (ForceSameThread s i t) = sTaskThreadArray s"
  "sTaskThreadArray (snd (CallLocked s i t)) = sTaskThreadArray s" "sTaskThreadArray (snd (GlobalUnlock s t)) = sTaskThreadArray s"
  by (simp_all add: GetEvents_def ForceSameThread_def CallLocked_def GlobalUnlock_def)

lemma step_queue:
  assumes "sched_step s s'"
  shows "(\<exists>zs. ttQueue (sTaskThreadArray s' ! j) = ttQueue (sTaskThreadArray s ! j) @ zs) \<or>
    (ttPc (sTaskThreadArray s ! j) = AtQueue \<and> s' = WaitForTask_dequeue s j)"
  using assms
proof (cases rule: sched_step.cases)
  case (dequeue i)
  then show ?thesis using dequeue_queue(1) [of i j s] by (cases "i = j") auto
next
  case (stop i)
  then show ?thesis using upd_thread_queue [of "\<lambda>th. th\<lparr>ttStop := True\<rparr>" i s j] by (simp add: SendStopRequest_def)
qed (auto simp: Signal_enqueue_queue poll_queue Entry_return_queue flag_array run_array)

text \<open>Events stay in the mask of a task until its own run reads them, or ends on the value that the
  compare-exchange expects.\<close>

lemma Entry_return_events:
  assumes "Entry_return s i t b theTimeout spurious = Some s'" "bit (fEvents (tasks s u)) n" "\<not> bit (fEvents (tasks s' u)) n"
  shows "u = t \<and> Entry_return s i t b 0 False = Some s' \<and> fEvents (tasks s t) = casVal s"
proof -
  define s1 where "s1 = (if b then upd_task t (\<lambda>T. T\<lparr>fWriteLock := False\<rparr>) s else s)"
  have ev: "fEvents (tasks s1 v) = fEvents (tasks s v)" for v by (simp add: s1_def)
  have cv: "casVal s1 = casVal s" by (simp add: s1_def)
  note E = Entry_return_def [of s i t b _ _, folded s1_def]
  consider "theTimeout < 0" | "theTimeout = 0" "fEvents (tasks s1 t) = casVal s1 \<and> \<not> spurious"
    | "theTimeout = 0" "\<not> (fEvents (tasks s1 t) = casVal s1 \<and> \<not> spurious)" | "theTimeout > 0" by linarith
  then show ?thesis
  proof cases
    case 1
    then have "s' = upd_thread i (\<lambda>th. th\<lparr>ttPc := AtWait\<rparr>) (upd_task t (\<lambda>T. T\<lparr>fTaskName := (fTaskName T)[0 := CHR ''D'']\<rparr>) s1)"
      using assms(1) unfolding E by (simp add: Let_def)
    then have "fEvents (tasks s' u) = fEvents (tasks s u)" using ev [of u] ev [of t] by simp
    with assms(2,3) show ?thesis by simp
  next
    case 2
    then have s': "s' = upd_thread i (\<lambda>th. th\<lparr>ttPc := AtWait\<rparr>) (upd_task t (\<lambda>T. T\<lparr>fEvents := 0\<rparr>) s1)"
      using assms(1) unfolding E by (simp add: Let_def)
    then have "u = t" using assms(2,3) ev [of u] by (cases "u = t") auto
    then show ?thesis using 2 assms(1) ev cv by simp
  next
    case 3
    then have "s' = start_run i t (s1\<lparr>casVal := fEvents (tasks s1 t)\<rparr>)"
      using assms(1) unfolding E by (auto simp: Let_def)
    with assms(2,3) ev show ?thesis by simp
  next
    case 4
    then obtain st h where "s' = upd_thread i (\<lambda>th. th\<lparr>ttPc := AtWait\<rparr>) (upd_task t (\<lambda>T. T\<lparr>fEvents := fEvents T OR kIdleEvent\<rparr>)
               (upd_thread i (\<lambda>th. th\<lparr>ttHeap := h\<rparr>) (s1\<lparr>elemStore := st\<rparr>)))"
      using assms(1) unfolding E by (auto simp: Let_def bind_eq_Some_conv)
    then have "bit (fEvents (tasks s' u)) n" using assms(2) ev [of u] ev [of t] by (auto simp: bit_or_iff)
    with assms(3) show ?thesis by simp
  qed
qed

lemma step_events:
  assumes "sched_step s s'" "bit (fEvents (tasks s t)) n" "\<not> bit (fEvents (tasks s' t)) n"
  shows "\<exists>i b. i < length (sTaskThreadArray s) \<and> ttPc (sTaskThreadArray s ! i) = InRun t b \<and>
    (s' = snd (GetEvents s t) \<or> (Entry_return s i t b 0 False = Some s' \<and> fEvents (tasks s t) = casVal s))"
  using assms(1)
proof (cases rule: sched_step.cases)
  case (flag u events)
  then show ?thesis using assms(2,3) by (auto simp: Signal_flag_def Let_def bit_or_iff split: if_splits)
next
  case (get_events i u b)
  then have "u = t" using assms(2,3) by (auto simp: GetEvents_def split: if_splits)
  with get_events show ?thesis by blast
next
  case (return i u b theTimeout spurious)
  from Entry_return_events [OF return(3) assms(2,3)] return(1,2) show ?thesis by blast
next
  case (poll i)
  then show ?thesis using assms(2,3)
    by (auto simp: WaitForTask_poll_def Let_def bind_eq_Some_conv split: option.splits if_splits)
qed (use assms(2,3) in \<open>auto simp: Signal_enqueue_queue(2) dequeue_queue(2) ForceSameThread_def CallLocked_def
      GlobalUnlock_def SendStopRequest_def split: if_splits\<close>)

lemma bit_kAlive: "bit kAlive k \<longleftrightarrow> k = 31"
proof -
  have k: "kAlive = 2 ^ 31" by (simp add: kAlive_def)
  show ?thesis unfolding k bit_exp_iff by auto
qed

text \<open>Being taken from the queue or from the timer heap is running.\<close>

lemma take_task_runs: "Valid (tasks s t) \<Longrightarrow> i < length (sTaskThreadArray s) \<Longrightarrow> at (take_task i t s) t (Running i)"
  by (simp add: take_task_def start_run_def)

lemma dequeue_runs:
  assumes inv: "sched_inv s" and i: "i < length (sTaskThreadArray s)" "ttQueue (sTaskThreadArray s ! i) = t # q"
  shows "at (WaitForTask_dequeue s i) t (Running i)" "ttQueue (sTaskThreadArray (WaitForTask_dequeue s i) ! i) = q"
proof -
  have "Valid (tasks s t)" using at_alive [OF inv, of t "Queued i"] i by simp
  then show "at (WaitForTask_dequeue s i) t (Running i)" "ttQueue (sTaskThreadArray (WaitForTask_dequeue s i) ! i) = q"
    using i take_task_runs [of "upd_thread i (\<lambda>th. th\<lparr>ttQueue := q\<rparr>) s" t i] by (simp_all add: WaitForTask_dequeue_def)
qed

lemma poll_runs:
  assumes inv: "sched_inv s" and i: "i < length (sTaskThreadArray s)"
    and t: "PeekMin (ttHeap (sTaskThreadArray s ! i)) = Some t" "fValue (elemStore s t) \<le> now s"
  shows "\<exists>s'. WaitForTask_poll s i = Some s' \<and> at s' t (Running i) \<and> fEvents (tasks s' t) = fEvents (tasks s t)"
proof -
  let ?h = "ttHeap (sTaskThreadArray s ! i)"
  have hi: "heap_inv (elemStore s, ?h)" using sched_invD(3) [OF inv] i by (auto simp: thread_ok_def)
  from ExtractMin_law [OF hi] t(1) obtain st h where ex: "ExtractMin (elemStore s, ?h) = Some (Some t, st, h)" by auto
  have "t \<in> heap_tasks ?h" using heap.peek_Some [OF hi] t(1) by (simp add: elems_heap_tasks)
  then have "Valid (tasks s t)" using at_alive [OF inv, of t "Timed i"] i by simp
  then show ?thesis using i t ex take_task_runs [of "upd_thread i (\<lambda>th. th\<lparr>ttHeap := h\<rparr>) (s\<lparr>elemStore := st\<rparr>)" t i]
    by (simp add: WaitForTask_poll_def Let_def)
qed

lemma enqueue_queued:
  assumes inv: "sched_inv s" and t: "t \<in> sInFlight s" "pickerToUse (tasks s t) \<noteq> OtherPicker" and e: "Signal_enqueue s t = Some s'"
  shows "\<exists>i. at s' t (Queued i)"
proof -
  have inv': "sched_inv s'" using enqueue_inv [OF inv t(1)] e by auto
  let ?s0 = "s\<lparr>sInFlight := sInFlight s - {t}\<rparr>"
  obtain r s1 where r: "Signal_pick ?s0 t = (r, s1)" by fastforce
  have p0: "pool_ok ?s0" using sched_invD(1) [OF inv] pool_ok_cong [of ?s0 s] by simp
  from Signal_pick_ok [OF p0, of t] sched_invD(4) [OF inv, of t] r obtain i where
    i: "r = Thread i" "i < length (sTaskThreadArray s)" using t(2) by (cases r) auto
  have a: "sTaskThreadArray s1 = sTaskThreadArray s" using Signal_pick_array [OF r] by simp
  have "enqueue_on i t s1 = Some s'" using e r i a by (simp add: Signal_enqueue_def)
  from enqueue_on_queue [OF this, of i] i a have q: "t \<in> set (ttQueue (sTaskThreadArray s' ! i))" by simp
  have "length (sTaskThreadArray s') = length (sTaskThreadArray s)"
    using \<open>enqueue_on i t s1 = Some s'\<close> a by (auto simp: enqueue_on_def bind_eq_Some_conv split: if_splits)
  with q i show ?thesis by (intro exI [of _ i]) simp
qed

text \<open>C13: A signal reaches the run of its task. In every reachable state a task that has an event
  in its mask, is not deleted and uses one of the two thread pickers is in exactly one place of the
  scheduler; a signaller that has set the alive bit always finds a thread of the pool and leaves the
  task in its queue; a queue is only appended to, except by its own thread taking the head, which is
  then running there with its events still in the mask; and a task whose timer is the first of its
  thread and due is running after the thread has polled. No step takes an event out of the mask of a
  task but GetEvents in a run of that task, and the end of a run with the value 0 when the mask
  equals the expected value of the compare-exchange and that value is no longer the alive bit alone
  (the case of C14). There are at most \<open>2 ^ 31 - 1\<close> tasks, as in C12.\<close>

theorem Task_signal_scheduled:
  assumes "0 < ns" "0 < nb" "unat ns + unat nb < 2 ^ 32" "\<And>t. fresh_task (unat ns + unat nb) (T t)"
    and "sched_step\<^sup>*\<^sup>* (sched_init ns nb T n) s"
  shows "(\<forall>t. fEvents (tasks s t) \<noteq> 0 \<and> Valid (tasks s t) \<and> pickerToUse (tasks s t) \<noteq> OtherPicker \<longrightarrow> (\<exists>!p. at s t p)) \<and>
    (\<forall>t \<in> sInFlight s. \<exists>s'. Signal_enqueue s t = Some s' \<and> (pickerToUse (tasks s t) \<noteq> OtherPicker \<longrightarrow> (\<exists>i. at s' t (Queued i)))) \<and>
    (\<forall>s' i. sched_step s s' \<longrightarrow>
      (\<exists>zs. ttQueue (sTaskThreadArray s' ! i) = ttQueue (sTaskThreadArray s ! i) @ zs) \<or>
      (ttPc (sTaskThreadArray s ! i) = AtQueue \<and> s' = WaitForTask_dequeue s i)) \<and>
    (\<forall>i t q. i < length (sTaskThreadArray s) \<and> ttQueue (sTaskThreadArray s ! i) = t # q \<longrightarrow>
      at (WaitForTask_dequeue s i) t (Running i) \<and> ttQueue (sTaskThreadArray (WaitForTask_dequeue s i) ! i) = q \<and>
      fEvents (tasks (WaitForTask_dequeue s i) t) = fEvents (tasks s t)) \<and>
    (\<forall>i t. i < length (sTaskThreadArray s) \<and> PeekMin (ttHeap (sTaskThreadArray s ! i)) = Some t \<and> fValue (elemStore s t) \<le> now s \<longrightarrow>
      (\<exists>s'. WaitForTask_poll s i = Some s' \<and> at s' t (Running i) \<and> fEvents (tasks s' t) = fEvents (tasks s t))) \<and>
    (\<forall>s' t k. sched_step s s' \<and> k < 31 \<and> bit (fEvents (tasks s t)) k \<and> \<not> bit (fEvents (tasks s' t)) k \<longrightarrow>
      (\<exists>i b. i < length (sTaskThreadArray s) \<and> ttPc (sTaskThreadArray s ! i) = InRun t b \<and>
        (s' = snd (GetEvents s t) \<or>
         (Entry_return s i t b 0 False = Some s' \<and> fEvents (tasks s t) = casVal s \<and> casVal s \<noteq> kAlive))))"
proof -
  have inv: "sched_inv s" using reachable_inv [OF assms(5) sched_init_inv [OF assms(1-4)]] .
  have "\<exists>!p. at s t p" if "fEvents (tasks s t) \<noteq> 0" "Valid (tasks s t)" "pickerToUse (tasks s t) \<noteq> OtherPicker" for t
  proof -
    have "alive (fEvents (tasks s t))" using sched_invD(4) [OF inv, of t] that(1) by (simp add: task_ok_def)
    with that sched_invD(5) [OF inv, of t] show ?thesis unfolding placed_def by blast
  qed
  moreover have "\<exists>s'. Signal_enqueue s t = Some s' \<and> (pickerToUse (tasks s t) \<noteq> OtherPicker \<longrightarrow> (\<exists>i. at s' t (Queued i)))"
    if "t \<in> sInFlight s" for t
    using enqueue_inv [OF inv that] enqueue_queued [OF inv that] by blast
  moreover have "casVal s \<noteq> kAlive" if "k < 31" "bit (fEvents (tasks s t)) k" "fEvents (tasks s t) = casVal s" for t k
    using that bit_kAlive [of k] by auto
  then have "\<exists>i b. i < length (sTaskThreadArray s) \<and> ttPc (sTaskThreadArray s ! i) = InRun t b \<and>
      (s' = snd (GetEvents s t) \<or>
       (Entry_return s i t b 0 False = Some s' \<and> fEvents (tasks s t) = casVal s \<and> casVal s \<noteq> kAlive))"
    if "sched_step s s'" "k < 31" "bit (fEvents (tasks s t)) k" "\<not> bit (fEvents (tasks s' t)) k" for s' t k
    using step_events [OF that(1,3,4)] that(2,3) by blast
  moreover have "(\<exists>zs. ttQueue (sTaskThreadArray s' ! i) = ttQueue (sTaskThreadArray s ! i) @ zs) \<or>
      (ttPc (sTaskThreadArray s ! i) = AtQueue \<and> s' = WaitForTask_dequeue s i)" if "sched_step s s'" for s' i
    using step_queue [OF that] .
  moreover have "at (WaitForTask_dequeue s i) t (Running i) \<and> ttQueue (sTaskThreadArray (WaitForTask_dequeue s i) ! i) = q \<and>
      fEvents (tasks (WaitForTask_dequeue s i) t) = fEvents (tasks s t)"
    if "i < length (sTaskThreadArray s)" "ttQueue (sTaskThreadArray s ! i) = t # q" for i t q
    using dequeue_runs [OF inv that] dequeue_queue(2) by blast
  moreover have "\<exists>s'. WaitForTask_poll s i = Some s' \<and> at s' t (Running i) \<and> fEvents (tasks s' t) = fEvents (tasks s t)"
    if "i < length (sTaskThreadArray s)" "PeekMin (ttHeap (sTaskThreadArray s ! i)) = Some t" "fValue (elemStore s t) \<le> now s" for i t
    using poll_runs [OF inv that] .
  ultimately show ?thesis
    by (intro conjI allI ballI impI; (elim conjE)?) (assumption | metis (no_types))+
qed

theorem Task_signal_scheduled_witness:
  "(\<exists>!p. at ex_signalled 7 p) \<and> (\<exists>s' i. Signal_enqueue ex_signalled 7 = Some s' \<and> at s' 7 (Queued i))"
proof -
  have "fEvents (tasks ex_signalled 7) \<noteq> 0"
    unfolding ex_signalled_facts(2) by (simp add: kReadEvent_def kAlive_def)
  moreover have "\<forall>t. fEvents (tasks ex_signalled t) \<noteq> 0 \<and> Valid (tasks ex_signalled t) \<and>
      pickerToUse (tasks ex_signalled t) \<noteq> OtherPicker \<longrightarrow> (\<exists>!p. at ex_signalled t p)"
    using Task_signal_scheduled [OF _ _ _ _ ex_reached] by simp
  moreover have "\<forall>t \<in> sInFlight ex_signalled. \<exists>s'. Signal_enqueue ex_signalled t = Some s' \<and>
      (pickerToUse (tasks ex_signalled t) \<noteq> OtherPicker \<longrightarrow> (\<exists>i. at s' t (Queued i)))"
    using Task_signal_scheduled [OF _ _ _ _ ex_reached] by simp
  moreover have "7 \<in> sInFlight ex_signalled" "pickerToUse (tasks ex_signalled 7) \<noteq> OtherPicker"
    using ex_signalled_facts by simp_all
  ultimately show ?thesis using ex_signalled_facts(3) by blast
qed

text \<open>The thread that a signal picks: with both kinds of threads every pick is an index of
  the thread array, short tasks stay on the short threads and blocking tasks on the
  blocking ones; but a pool created with no short threads makes the blocking picker run
  past the array, and one without blocking threads makes it divide by zero.\<close>

theorem Signal_pick_range:
  fixes ns nb :: UInt32
  assumes n: "unat ns + unat nb < 2 ^ 32" and u: "fUseThisThread (T t) = None" "fDefaultThread (T t) = None"
    and p: "s = (sched_init ns nb T n)\<lparr>sShortTaskThreadPicker := a, sBlockingTaskThreadPicker := b\<rparr>"
  shows "(0 < ns \<and> pickerToUse (T t) = ShortPicker \<longrightarrow> (\<exists>i < unat ns. fst (Signal_pick s t) = Thread i)) \<and>
    (0 < ns \<and> 0 < nb \<and> pickerToUse (T t) = BlockingPicker \<longrightarrow>
      (\<exists>i. unat ns \<le> i \<and> i < unat ns + unat nb \<and> fst (Signal_pick s t) = Thread i)) \<and>
    (ns = 0 \<and> 0 < nb \<and> pickerToUse (T t) = BlockingPicker \<and> 2 * unat nb < 2 ^ 32 \<longrightarrow>
      (\<exists>i \<ge> length (sTaskThreadArray s). fst (Signal_pick s t) = Thread i) \<and> Signal_enqueue s t = None) \<and>
    (nb = 0 \<and> pickerToUse (T t) = BlockingPicker \<longrightarrow> fst (Signal_pick s t) = DivZero)"
proof -
  have m: "unat (x mod y) < unat y" if "0 < y" for x y :: UInt32
    using that by (simp add: unat_mod word_greater_zero_iff unat_gt_0)
  have add: "unat (x + y) = unat x + unat y" if "unat x + unat y < 2 ^ 32" for x y :: UInt32
    using that by (simp add: unat_word_ariths)
  have ud: "use_default (T t) = T t" using u by (simp add: use_default_def)
  note d = p sched_init_def CreateThreads_def Let_def Signal_pick_def ud u
  have "\<exists>i < unat ns. fst (Signal_pick s t) = Thread i" if "0 < ns" "pickerToUse (T t) = ShortPicker"
    using that m [of ns a] by (auto simp: d)
  moreover have "\<exists>i. unat ns \<le> i \<and> i < unat ns + unat nb \<and> fst (Signal_pick s t) = Thread i"
    if "0 < ns" "0 < nb" "pickerToUse (T t) = BlockingPicker"
    using that m [of nb b] add [of "b mod nb" ns] n by (auto simp: d)
  moreover have "(\<exists>i \<ge> length (sTaskThreadArray s). fst (Signal_pick s t) = Thread i) \<and> Signal_enqueue s t = None"
    if "ns = 0" "0 < nb" "pickerToUse (T t) = BlockingPicker" "2 * unat nb < 2 ^ 32"
    using that m [of nb b] add [of "b mod nb" nb] by (auto simp: d Signal_enqueue_def)
  moreover have "fst (Signal_pick s t) = DivZero" if "nb = 0" "pickerToUse (T t) = BlockingPicker"
    using that by (auto simp: d)
  ultimately show ?thesis by blast
qed

theorem Signal_pick_range_witness:
  "Signal_enqueue (sched_init 0 2 (\<lambda>_. SetThreadPicker BlockingPicker Task_new) 0) 4 = None"
proof -
  let ?T = "\<lambda>_::nat. SetThreadPicker BlockingPicker Task_new"
  have e: "sched_init 0 2 ?T 0 = (sched_init 0 2 ?T 0)\<lparr>sShortTaskThreadPicker := 0, sBlockingTaskThreadPicker := 0\<rparr>"
    by (simp add: sched_init_def CreateThreads_def Let_def)
  show ?thesis using Signal_pick_range [OF _ _ _ e, of 4] by (simp add: SetThreadPicker_def)
qed


text \<open>
  A run in which the compare-exchange drops an event: task 7 is signalled, runs and reads
  its events; a second signal arrives before it returns 0, so the exchange fails and leaves
  \<open>kAlive OR kReadEvent\<close> in the static variable; the task runs again, reads its events, and a
  third signal arrives before it returns 0: now the exchange succeeds on the stale value.
\<close>

definition ex_running :: Sched where
  "ex_running = WaitForTask_dequeue (the (WaitForTask_poll (the (Signal_enqueue ex_signalled 7)) 0)) 0"

definition ex_round :: "Sched \<Rightarrow> Sched" where
  "ex_round s = snd (Signal_flag (snd (GetEvents s 7)) 7 kReadEvent)"

lemma PeekMin_new [simp]: "PeekMin (Heap_new i n) = None"
  by (simp add: PeekMin_def CurrentHeapSize_def Heap_new_def Let_def)

lemma ex_running_facts:
  "sTaskThreadArray ex_running = [(TaskThread_new 0)\<lparr>ttPc := InRun 7 False\<rparr>, TaskThread_new 1]"
  "tasks ex_running 7 = Task_new\<lparr>fEvents := kReadEvent OR kAlive\<rparr>"
  "casVal ex_running = kAlive" "sInFlight ex_running = {}"
  "Signal_enqueue ex_signalled 7 \<noteq> None"
  "sTaskThreadArray (the (Signal_enqueue ex_signalled 7)) = [(TaskThread_new 0)\<lparr>ttQueue := [7]\<rparr>, TaskThread_new 1]"
  "sTaskThreadArray (the (WaitForTask_poll (the (Signal_enqueue ex_signalled 7)) 0)) =
     [(TaskThread_new 0)\<lparr>ttQueue := [7], ttPc := AtQueue\<rparr>, TaskThread_new 1]"
  "WaitForTask_poll (the (Signal_enqueue ex_signalled 7)) 0 =
     Some (the (WaitForTask_poll (the (Signal_enqueue ex_signalled 7)) 0))"
proof -
  have th: "sTaskThreadArray ex_signalled = [TaskThread_new 0, TaskThread_new 1]"
    by (simp add: ex_signalled_def Signal_flag_def ex_sched_def sched_init_def CreateThreads_def Let_def upt_rec)
  have tk: "tasks ex_signalled = (\<lambda>_. Task_new)(7 := Task_new\<lparr>fEvents := kReadEvent OR kAlive\<rparr>)"
    "sNumShortTaskThreads ex_signalled = 1" "sShortTaskThreadPicker ex_signalled = 0"
    "casVal ex_signalled = kAlive" "sInFlight ex_signalled = {7}"
    by (simp_all add: ex_signalled_def Signal_flag_def ex_sched_def sched_init_def CreateThreads_def Let_def)
  have nq: "7 \<notin> set (ttQueue (TaskThread_new i))" for i by (simp add: TaskThread_new_def)
  note d = th tk nq enqueue_on_def Signal_enqueue_def Signal_pick_def use_default_def Let_def
  show 1: "Signal_enqueue ex_signalled 7 \<noteq> None" by (simp add: d)
  show 2: "sTaskThreadArray (the (Signal_enqueue ex_signalled 7)) = [(TaskThread_new 0)\<lparr>ttQueue := [7]\<rparr>, TaskThread_new 1]"
    by (simp add: d TaskThread_new_def)
  let ?s = "the (Signal_enqueue ex_signalled 7)"
  have t2: "tasks ?s 7 = Task_new\<lparr>fEvents := kReadEvent OR kAlive\<rparr>" "casVal ?s = kAlive" "sInFlight ?s = {}"
    by (simp_all add: d)
  have p: "WaitForTask_poll ?s 0 = Some (upd_thread 0 (\<lambda>th. th\<lparr>ttPc := AtQueue\<rparr>) ?s)"
    by (simp add: WaitForTask_poll_def 2) (simp add: TaskThread_new_def)
  show 3: "sTaskThreadArray (the (WaitForTask_poll ?s 0)) = [(TaskThread_new 0)\<lparr>ttQueue := [7], ttPc := AtQueue\<rparr>, TaskThread_new 1]"
    by (simp add: p 2)
  show "WaitForTask_poll ?s 0 = Some (the (WaitForTask_poll ?s 0))" by (simp add: p)
  have V: "Valid (Task_new\<lparr>fEvents := kReadEvent OR kAlive\<rparr>)" using Task_new_facts(1) by (simp add: Valid_def)
  have e: "ex_running = start_run 0 7 (upd_thread 0 (\<lambda>th. th\<lparr>ttQueue := []\<rparr>) (the (WaitForTask_poll ?s 0)))"
    unfolding ex_running_def WaitForTask_dequeue_def Let_def 3 by (simp add: take_task_def p t2 V)
  show "sTaskThreadArray ex_running = [(TaskThread_new 0)\<lparr>ttPc := InRun 7 False\<rparr>, TaskThread_new 1]"
    unfolding e start_run_def by (simp add: 2 3 p t2) (simp add: TaskThread_new_def)
  show "tasks ex_running 7 = Task_new\<lparr>fEvents := kReadEvent OR kAlive\<rparr>" "casVal ex_running = kAlive" "sInFlight ex_running = {}"
    unfolding e start_run_def by (simp_all add: p t2)
qed


lemma ex_running_reached: "sched_step\<^sup>*\<^sup>* ex_sched ex_running"
proof -
  let ?s2 = "the (Signal_enqueue ex_signalled 7)"
  have 1: "sched_step\<^sup>*\<^sup>* ex_sched ex_signalled" using ex_reached by (simp add: ex_sched_def)
  have 2: "sched_step ex_signalled ?s2"
    by (rule sched_step.enqueue [of 7]) (use ex_signalled_facts(1) ex_running_facts(5) in auto)
  have 3: "sched_step ?s2 (the (WaitForTask_poll ?s2 0))"
    by (rule sched_step.poll [OF _ _ ex_running_facts(8)]) (simp_all add: ex_running_facts(6) TaskThread_new_def)
  have 4: "sched_step (the (WaitForTask_poll ?s2 0)) ex_running"
    unfolding ex_running_def by (rule sched_step.dequeue) (simp_all add: ex_running_facts(7))
  from 1 2 3 4 show ?thesis by (meson rtranclp.rtrancl_into_rtrancl)
qed

text \<open>One round: read the events, get signalled again.\<close>

lemma ex_round_facts:
  assumes "alive (fEvents (tasks s 7))" "Valid (tasks s 7)" "0 < length (sTaskThreadArray s)"
    "ttPc (sTaskThreadArray s ! 0) = InRun 7 False"
  shows "sched_step\<^sup>*\<^sup>* s (ex_round s)" "sTaskThreadArray (ex_round s) = sTaskThreadArray s"
    "tasks (ex_round s) 7 = (tasks s 7)\<lparr>fEvents := kAlive OR kReadEvent\<rparr>" "casVal (ex_round s) = casVal s"
    "sInFlight (ex_round s) = sInFlight s"
proof -
  let ?s1 = "snd (GetEvents s 7)"
  have "sched_step s ?s1" by (rule sched_step.get_events [of 0]) (use assms in auto)
  moreover have "sched_step ?s1 (ex_round s)" unfolding ex_round_def by (rule sched_step.flag) (simp add: max_tasks_def)
  ultimately show "sched_step\<^sup>*\<^sup>* s (ex_round s)" by simp
  have k: "fEvents (tasks s 7) AND kAlive = kAlive"
  proof -
    have k: "kAlive = 2 ^ 31" by (simp add: kAlive_def)
    show ?thesis using assms(1) unfolding k alive_bit by (rule and_exp_bit)
  qed
  have V: "Valid (tasks ?s1 7)" using assms(2) by (simp add: GetEvents_def Valid_def)
  have a: "fEvents (tasks ?s1 7) AND kAlive \<noteq> 0" "fEvents (tasks ?s1 7) = kAlive"
    using k by (simp_all add: GetEvents_def) (simp add: kAlive_def)
  have e: "ex_round s = upd_task 7 (\<lambda>T. T\<lparr>fEvents := kAlive OR (kReadEvent OR kAlive)\<rparr>) ?s1"
    unfolding ex_round_def Signal_flag_def using V a by (simp add: Let_def)
  have "kAlive OR (kReadEvent OR kAlive) = kAlive OR kReadEvent" by (simp add: kAlive_def kReadEvent_def)
  then show "sTaskThreadArray (ex_round s) = sTaskThreadArray s"
    "tasks (ex_round s) 7 = (tasks s 7)\<lparr>fEvents := kAlive OR kReadEvent\<rparr>" "casVal (ex_round s) = casVal s"
    "sInFlight (ex_round s) = sInFlight s"
    unfolding e by (simp_all add: GetEvents_def)
qed

text \<open>C14: The compare-exchange at the end of a run keeps its expected value in a static
  variable that a failed exchange overwrites, and so an event can be lost: there is a
  reachable state in which a running task has an unread read event, and after the task
  thread has handled its return value 0 the event mask is empty and the task is scheduled
  nowhere. The comment in the code promises that Run is invoked again in this case.\<close>

theorem Entry_loses_event:
  "\<exists>s s'. sched_step\<^sup>*\<^sup>* (sched_init 1 1 (\<lambda>_. Task_new) 0) s \<and> ttPc (sTaskThreadArray s ! 0) = InRun 7 False \<and>
     fEvents (tasks s 7) = kAlive OR kReadEvent \<and>
     Entry_return s 0 7 False 0 False = Some s' \<and> fEvents (tasks s' 7) = 0 \<and> (\<forall>p. \<not> at s' 7 p)"
proof -
  let ?a = "ex_round ex_running"
  let ?b = "start_run 0 7 (?a\<lparr>casVal := kAlive OR kReadEvent\<rparr>)"
  let ?c = "ex_round ?b"
  note r = ex_running_facts
  have V: "Valid (tasks ex_running 7)" using Task_new_facts(1) unfolding r by (simp add: Valid_def)
  have al: "alive (fEvents (tasks ex_running 7))" unfolding r by simp
  note A = ex_round_facts [OF al V]
  have Aa: "sched_step\<^sup>*\<^sup>* ex_running ?a" "sTaskThreadArray ?a = [(TaskThread_new 0)\<lparr>ttPc := InRun 7 False\<rparr>, TaskThread_new 1]"
    "tasks ?a 7 = Task_new\<lparr>fEvents := kAlive OR kReadEvent\<rparr>" "casVal ?a = kAlive" "sInFlight ?a = {}"
    using A r by simp_all
  have ne: "kAlive OR kReadEvent \<noteq> kAlive" by (simp add: kAlive_def kReadEvent_def)
  have B: "Entry_return ?a 0 7 False 0 False = Some ?b"
    using Aa ne by (simp add: Entry_return_def Let_def)
  have Bb: "sched_step ?a ?b" by (rule sched_step.return [OF _ _ B]) (use Aa in simp_all)
  have Bt: "sTaskThreadArray ?b = [(TaskThread_new 0)\<lparr>ttPc := InRun 7 False\<rparr>, TaskThread_new 1]"
    "fEvents (tasks ?b 7) = kAlive OR kReadEvent" "Valid (tasks ?b 7)" "casVal ?b = kAlive OR kReadEvent" "sInFlight ?b = {}"
    using Aa V r unfolding start_run_def by (simp_all add: Valid_def)
  note C = ex_round_facts [of ?b, unfolded Bt]
  have Cc: "sched_step\<^sup>*\<^sup>* ?b ?c" "sTaskThreadArray ?c = [(TaskThread_new 0)\<lparr>ttPc := InRun 7 False\<rparr>, TaskThread_new 1]"
    "fEvents (tasks ?c 7) = kAlive OR kReadEvent" "casVal ?c = kAlive OR kReadEvent" "sInFlight ?c = {}"
    using C Bt by simp_all
  let ?d = "upd_thread 0 (\<lambda>th. th\<lparr>ttPc := AtWait\<rparr>) (upd_task 7 (\<lambda>T. T\<lparr>fEvents := 0\<rparr>) ?c)"
  have D: "Entry_return ?c 0 7 False 0 False = Some ?d"
    using Cc by (simp add: Entry_return_def Let_def)
  have "\<not> at ?d 7 p" for p
    by (cases p) (auto simp: Cc TaskThread_new_def heap_tasks_def Heap_new_inv nth_Cons split: nat.splits)
  moreover have "sched_step\<^sup>*\<^sup>* ex_sched ?c"
    using ex_running_reached Aa(1) Bb Cc(1) by (meson rtranclp.rtrancl_into_rtrancl rtranclp_trans)
  ultimately show ?thesis using Cc D unfolding ex_sched_def by (intro exI [of _ ?c] exI [of _ ?d]) simp
qed

end
