(* ===== verification/CF_IdleTask.thy ===== *)
theory CF_IdleTask
  imports CF_Task
begin

text \<open>
  Idle timers (\<^verbatim>\<open>src/CFThread/IdleTask.cpp\<close>) and timeout supervision
  (\<^verbatim>\<open>src/CFThread/TimeoutTask.cpp\<close>).

  The idle thread keeps one heap of tasks ordered by the time at which they want an idle
  event. Every method holds the heap mutex, so it is one atomic operation on the pair of
  element store and heap; one pass of the thread's loop is the operation
  \<open>IdleTaskThread_pass\<close>, which also gives the time it sleeps afterwards. The element of
  idle task \<open>t\<close> is element \<open>t\<close> of the store.

  A timeout task supervises one task; the timeout thread is itself a task whose
  \<^verbatim>\<open>Run\<close> walks the queue of all timeout tasks.
\<close>

section \<open>Idle timers\<close>

type_synonym idle_state = "elem_store \<times> Heap"

definition SetIdleTimer :: "int \<Rightarrow> idle_state \<Rightarrow> nat \<Rightarrow> int \<Rightarrow> idle_state option" where
  "SetIdleTimer curTime s activeObj msec =
     (let theMsec = curTime + msec
      in if IsMemberOfAnyHeap (fst s) activeObj
         then Some (Update s (Some activeObj) theMsec heapUpdateFlagExpectUp)
         else Insert (SetValue (fst s) activeObj theMsec, snd s) activeObj)"

definition CancelTimeout :: "idle_state \<Rightarrow> nat option \<Rightarrow> idle_state option" where
  "CancelTimeout s idleObj =
     do {
       Assert (idleObj \<noteq> None);
       (_, s') \<leftarrow> Remove s idleObj;
       Some s'
     }"

definition IdleTask_delete :: "idle_state \<Rightarrow> nat \<Rightarrow> idle_state option" where
  "IdleTask_delete s t = (if IsMemberOfAnyHeap (fst s) t then CancelTimeout s (Some t) else Some s)"

text \<open>
  One pass of the loop of \<^verbatim>\<open>IdleTaskThread::Entry\<close> at time \<open>msec\<close>: the tasks it signals, in
  order, the heap it leaves, and what the thread does then. A thread that finds the heap empty
  returns when a stop is requested (\<open>stop\<close>), and waits for a second otherwise; else it waits until
  the time of the least element. The pop loop runs at most once per element.
\<close>

datatype idle_next = IdleReturn | IdleWait UInt32

definition idle_block :: "bool \<Rightarrow> idle_next" where
  "idle_block stop = (if stop then IdleReturn else IdleWait 1000)"

definition IdleTaskThread_pass :: "idle_state \<Rightarrow> bool \<Rightarrow> int \<Rightarrow> (nat list \<times> idle_state \<times> idle_next) option" where
  "IdleTaskThread_pass s stop msec =
     (if CurrentHeapSize (snd s) = 0 then Some ([], s, idle_block stop)
      else
        do {
          (sig, s') \<leftarrow> pop_while (PeekMin \<circ> snd) ExtractMin (\<lambda>s e. fValue (fst s e) \<le> msec) (CurrentHeapSize (snd s)) s;
          case PeekMin (snd s') of
            None \<Rightarrow> Some (sig, s', idle_block stop)
          | Some e \<Rightarrow>
              do {
                let timeoutTime = fValue (fst s' e) - msec;
                Assert (timeoutTime > 0);
                Some (sig, s', IdleWait (word_of_int timeoutTime))
              }
        })"

text \<open>The signalled tasks get the idle event.\<close>

fun signal_all :: "UInt32 \<Rightarrow> nat list \<Rightarrow> Sched \<Rightarrow> Sched option" where
  "signal_all ev [] s = Some s"
| "signal_all ev (t # ts) s = (case Signal s t ev of None \<Rightarrow> None | Some s' \<Rightarrow> signal_all ev ts s')"

definition IdleTaskThread_round :: "Sched \<times> idle_state \<Rightarrow> bool \<Rightarrow> int \<Rightarrow> (Sched \<times> idle_state \<times> idle_next) option" where
  "IdleTaskThread_round ss stop msec =
     do {
       (sig, s', w) \<leftarrow> IdleTaskThread_pass (snd ss) stop msec;
       sch \<leftarrow> signal_all kIdleEvent sig (fst ss);
       Some (sch, s', w)
     }"

section \<open>Timeouts\<close>

record TimeoutTask =
  fTask :: "nat option"
  fTimeoutAtThisTime :: int
  fTimeoutInMilSecs :: int

definition SetTimeout :: "int \<Rightarrow> int \<Rightarrow> TimeoutTask \<Rightarrow> TimeoutTask" where
  "SetTimeout curTime inTimeoutInMilSecs t =
     t\<lparr>fTimeoutInMilSecs := inTimeoutInMilSecs,
       fTimeoutAtThisTime := (if inTimeoutInMilSecs = 0 then 0 else curTime + inTimeoutInMilSecs)\<rparr>"

definition TimeoutTask_new :: "int \<Rightarrow> nat option \<Rightarrow> int \<Rightarrow> TimeoutTask" where
  "TimeoutTask_new curTime inTask inTimeoutInMilSecs =
     SetTimeout curTime inTimeoutInMilSecs \<lparr>fTask = inTask, fTimeoutAtThisTime = 0, fTimeoutInMilSecs = 0\<rparr>"

text \<open>
  The clock counts from the epoch, so that the assertion of
  \<^verbatim>\<open>RefreshTimeout\<close> that the new time is positive holds.
\<close>

definition RefreshTimeout :: "int \<Rightarrow> TimeoutTask \<Rightarrow> TimeoutTask" where
  "RefreshTimeout curTime t = t\<lparr>fTimeoutAtThisTime := curTime + fTimeoutInMilSecs t\<rparr>"

definition SetTask :: "nat option \<Rightarrow> TimeoutTask \<Rightarrow> TimeoutTask" where
  "SetTask inTask t = t\<lparr>fTask := inTask\<rparr>"

definition kIntervalSeconds :: int where "kIntervalSeconds = 15"

definition timed_out :: "int \<Rightarrow> TimeoutTask \<Rightarrow> bool" where
  "timed_out curTime t \<longleftrightarrow> fTimeoutAtThisTime t > 0 \<and> curTime \<ge> fTimeoutAtThisTime t"

text \<open>The loop over the queue, with the signals sent and the interval so far.\<close>

fun timeout_loop :: "int \<Rightarrow> TimeoutTask list \<Rightarrow> nat list \<Rightarrow> int \<Rightarrow> nat list \<times> int" where
  "timeout_loop curTime [] sig intervalMilli = (sig, intervalMilli)"
| "timeout_loop curTime (t # ts) sig intervalMilli =
     (if timed_out curTime t then
        timeout_loop curTime ts (case fTask t of None \<Rightarrow> sig | Some x \<Rightarrow> sig @ [x]) intervalMilli
      else
        (let taskInterval = fTimeoutAtThisTime t - curTime
         in timeout_loop curTime ts sig
              (if taskInterval > 0 \<and> fTimeoutInMilSecs t > 0 \<and> intervalMilli > taskInterval
               then taskInterval + 1000 else intervalMilli)))"

definition TimeoutTaskThread_Run :: "UInt32 \<Rightarrow> int \<Rightarrow> TimeoutTask list \<Rightarrow> nat list \<times> int" where
  "TimeoutTaskThread_Run events curTime q =
     (if events AND kKillEvent \<noteq> 0 then ([], 0) else timeout_loop curTime q [] (kIntervalSeconds * 1000))"

section \<open>Idle timer properties\<close>

definition idle_inv :: "idle_state \<Rightarrow> bool" where
  "idle_inv s \<longleftrightarrow> heap_inv s \<and> (\<forall>e. IsMemberOfAnyHeap (fst s) e \<longrightarrow> e \<in> elems s)"

lemma idle_inv_member: "idle_inv s \<Longrightarrow> IsMemberOfAnyHeap (fst s) e \<longleftrightarrow> e \<in> elems s"
  by (auto simp: idle_inv_def heap_inv_def heap_shape_def IsMemberOfAnyHeap_def)

lemma Update_members:
  "IsMemberOfAnyHeap (fst (Update s (Some e) v flag)) x = IsMemberOfAnyHeap (fst s) x"
  by (auto simp: Update_def Let_def IsMemberOfAnyHeap_def SetValue_def split: prod.splits)

text \<open>In a heap with room for one more, \<^verbatim>\<open>SetIdleTimer\<close> fails no assertion and arms exactly one timer per task: the
  task is in the heap afterwards, due at the given time, or at its earlier time if it was
  already armed for an earlier one; all other timers and the heap invariant are untouched.\<close>

theorem SetIdleTimer_spec:
  assumes inv: "idle_inv s" and room: "CurrentHeapSize (snd s) < 2 ^ 31 - 1"
  shows "\<exists>s'. SetIdleTimer curTime s t msec = Some s' \<and> idle_inv s' \<and> elems s' = insert t (elems s) \<and>
    prio s' = (prio s)(t := (if t \<in> elems s then min (prio s t) (curTime + msec) else curTime + msec))"
proof -
  have h: "heap_inv s" using inv by (simp add: idle_inv_def)
  note mem = idle_inv_member [OF inv, of t]
  show ?thesis
  proof (cases "t \<in> elems s")
    case True
    let ?s = "Update s (Some t) (curTime + msec) heapUpdateFlagExpectUp"
    from Update_inv [of "fst s" "snd s" t "curTime + msec" heapUpdateFlagExpectUp] h True
    have u: "heap_inv ?s" "elems ?s = elems s" "prio ?s =
      (if update_refused (prio s t) (curTime + msec) heapUpdateFlagExpectUp then prio s else (prio s)(t := curTime + msec))"
      by simp_all
    have r: "update_refused (prio s t) (curTime + msec) heapUpdateFlagExpectUp \<longleftrightarrow> curTime + msec > prio s t"
      by (simp add: update_refused_def heapUpdateFlagExpectUp_def heapUpdateFlagExpectDown_def)
    have "idle_inv ?s" using u inv by (simp add: idle_inv_def Update_members)
    moreover have "prio ?s = (prio s)(t := min (prio s t) (curTime + msec))"
      unfolding u(3) r by (auto simp: fun_eq_iff)
    ultimately show ?thesis using True mem u by (simp add: SetIdleTimer_def insert_absorb)
  next
    case False
    let ?s0 = "(SetValue (fst s) t (curTime + msec), snd s)"
    have h0: "heap_inv ?s0"
      using SetValue_heap_inv [of "fst s" "snd s" t] h False by (simp add: elems_heap_tasks [symmetric, of _ "fst s"])
    have e0: "elems ?s0 = elems s" by (simp add: elems_def)
    have p0: "prio ?s0 = (prio s)(t := curTime + msec)" by (auto simp: prio_def SetValue_def fun_eq_iff)
    have m0: "IsMemberOfAnyHeap (fst ?s0) x = IsMemberOfAnyHeap (fst s) x" for x
      by (simp add: IsMemberOfAnyHeap_def SetValue_def)
    have "\<not> IsMemberOfAnyHeap (fst ?s0) t" using m0 mem False by blast
    moreover have "heap_room ?s0" using room h
      by (auto simp: heap_room_def CurrentHeapSize_def heap_inv_def heap_shape_def)
    ultimately obtain s' where
      i: "Insert ?s0 t = Some s'" "heap_inv s'" "elems s' = insert t (elems s)" "prio s' = prio ?s0"
        "\<forall>x. \<not> IsMemberOfAnyHeap (fst s') x \<longleftrightarrow> \<not> IsMemberOfAnyHeap (fst ?s0) x \<and> x \<noteq> t"
      using heap.add_law [OF h0] unfolding e0 by blast
    have "idle_inv s'" using i inv m0 by (auto simp: idle_inv_def)
    with i p0 mem False show ?thesis by (simp add: SetIdleTimer_def)
  qed
qed

lemma card_elems_size: "heap_inv s \<Longrightarrow> card (elems s) \<le> CurrentHeapSize (snd s)"
  unfolding elems_def CurrentHeapSize_def
  using card_length [of "slots (fFreeIndex (snd s)) (CF_Heap.fHeap (snd s))"]
  by (simp add: heap_inv_def heap_shape_def)

text \<open>C21: One pass of the idle thread over a well-formed heap of timers fails no assertion and
  signals exactly the tasks whose time has come, each once and in the order of their times, keeps
  all other timers and the heap well-formed, and then sleeps until the earliest remaining one
  (modulo \<open>2^32\<close> milliseconds); when no timer is left it returns if a stop is requested and sleeps
  for a second otherwise. The heap is well-formed as long as timers are only set (SetIdleTimer);
  cancelling one can break it, and then a due task may be missed (CancelTimeout_starves).\<close>

theorem IdleTaskThread_pass_spec:
  assumes inv: "heap_inv s"
  shows "\<exists>sig s' w. IdleTaskThread_pass s stop msec = Some (sig, s', w) \<and>
    set sig = {e \<in> elems s. prio s e \<le> msec} \<and> distinct sig \<and> sorted (map (prio s) sig) \<and>
    heap_inv s' \<and> prio s' = prio s \<and> elems s' = {e \<in> elems s. msec < prio s e} \<and>
    (if elems s' = {} then w = (if stop then IdleReturn else IdleWait 1000)
     else \<exists>v. w = IdleWait v \<and> (\<exists>e \<in> elems s'. (\<forall>x \<in> elems s'. prio s e \<le> prio s x) \<and> 0 < prio s e - msec \<and>
         uint v = (prio s e - msec) mod 2 ^ 32))"
proof (cases "CurrentHeapSize (snd s) = 0")
  case True
  then have "elems s = {}" using card_elems_size [OF inv] heap.finite_members [OF inv] by simp
  moreover have "IdleTaskThread_pass s stop msec = Some ([], s, idle_block stop)"
    using True by (simp add: IdleTaskThread_pass_def)
  ultimately show ?thesis using inv by (simp add: idle_block_def)
next
  case size: False
  from heap.pop_while_due [OF inv card_elems_size [OF inv], of msec] obtain es t where
    po: "pop_while (PeekMin \<circ> snd) ExtractMin (\<lambda>s e. prio s e \<le> msec) (CurrentHeapSize (snd s)) s = Some (es, t)"
    and d: "heap_inv t" "prio t = prio s" "set es = {e \<in> elems s. prio s e \<le> msec}"
      "elems t = {e \<in> elems s. msec < prio s e}" "distinct es" "sorted (map (prio s) es)" by blast
  note po' = po [unfolded prio_def]
  show ?thesis
  proof (cases "PeekMin (snd t)")
    case None
    then have "IdleTaskThread_pass s stop msec = Some (es, t, idle_block stop)"
      using po' size by (simp add: IdleTaskThread_pass_def)
    moreover have "elems t = {}" using None heap.peek_None [OF d(1)] by simp
    ultimately show ?thesis using d by (intro exI [of _ es] exI [of _ t] exI [of _ "idle_block stop"]) (simp add: idle_block_def)
  next
    case (Some e)
    have e: "e \<in> elems t" "\<forall>x \<in> elems t. prio s e \<le> prio s x"
      using heap.peek_Some [OF d(1), of e] Some d(2) by auto
    have pos: "0 < prio s e - msec" using e(1) d(4) by auto
    have "fValue (fst t e) = prio s e" using d(2) by (metis prio_def)
    then have run: "IdleTaskThread_pass s stop msec = Some (es, t, IdleWait (word_of_int (prio s e - msec)))"
      using po' Some pos size by (simp add: IdleTaskThread_pass_def Let_def)
    define v :: UInt32 where "v = word_of_int (prio s e - msec)"
    have v: "uint v = (prio s e - msec) mod 2 ^ 32" unfolding v_def by (simp add: uint_word_of_int del: of_int_diff)
    have "elems t \<noteq> {}" using e(1) by blast
    with v e pos have "if elems t = {} then IdleWait v = (if stop then IdleReturn else IdleWait 1000)
     else \<exists>v'. IdleWait v = IdleWait v' \<and> (\<exists>e \<in> elems t. (\<forall>x \<in> elems t. prio s e \<le> prio s x) \<and> 0 < prio s e - msec \<and>
         uint v' = (prio s e - msec) mod 2 ^ 32)" by (simp only: if_False) blast
    with run [folded v_def] d show ?thesis by (intro exI conjI)
  qed
qed

theorem SetIdleTimer_spec_witness:
  "\<exists>s'. SetIdleTimer 100 (\<lambda>e. HeapElem_new e, Heap_new 1 1024) 4 50 = Some s' \<and> elems s' = {4}"
proof -
  have "idle_inv (\<lambda>e. HeapElem_new e, Heap_new 1 1024)"
    by (simp add: idle_inv_def Heap_new_inv IsMemberOfAnyHeap_def HeapElem_new_def)
  moreover have "CurrentHeapSize (snd (\<lambda>e. HeapElem_new e, Heap_new 1 1024)) < 2 ^ 31 - 1"
    by (simp add: CurrentHeapSize_def Heap_new_def)
  ultimately show ?thesis using SetIdleTimer_spec [of "(\<lambda>e. HeapElem_new e, Heap_new 1 1024)" 100 4 50]
    by (auto simp: Heap_new_inv)
qed

theorem IdleTaskThread_pass_spec_witness:
  "\<exists>sig s' w. IdleTaskThread_pass (ex_heap [5, 3, 9]) False 6 = Some (sig, s', w) \<and> set sig = {3, 5}"
proof -
  have inv: "heap_inv (ex_heap [5, 3, 9])" "elems (ex_heap [5, 3, 9]) = {3, 5, 9}"
    using ex_heap_inv [of "[5, 3, 9]"] by auto
  have pr: "prio (ex_heap [5, 3, 9]) 3 = 3" "prio (ex_heap [5, 3, 9]) 5 = 5" "prio (ex_heap [5, 3, 9]) 9 = 9" by code_simp+
  from inv(2) pr have "{e \<in> elems (ex_heap [5, 3, 9]). prio (ex_heap [5, 3, 9]) e \<le> 6} = {3, 5}" by auto
  with IdleTaskThread_pass_spec [OF inv(1), of False 6] show ?thesis by auto
qed

text \<open>Cancelling a timer can make another task miss its time. From a well-formed heap of
  timers for the times 1, 4, 3, 9, 7, 11 and 2, cancelling the timer of task 9 puts the
  timer of task 2 below that of task 4; the pass at time 3 then signals the tasks 1 and 2
  but not task 3, which is due, and the thread goes back to sleep until the time of task 4.\<close>

theorem CancelTimeout_starves:
  "heap_inv (ex_heap [1, 4, 3, 9, 7, 11, 2]) \<and>
   (\<exists>s s'. CancelTimeout (ex_heap [1, 4, 3, 9, 7, 11, 2]) (Some 9) = Some s \<and> 3 \<in> elems s \<and> prio s 3 = 3 \<and>
      IdleTaskThread_pass s False 3 = Some ([1, 2], s', IdleWait 1))"
proof -
  let ?c = "CancelTimeout (ex_heap [1, 4, 3, 9, 7, 11, 2]) (Some 9)"
  have 1: "map_option (\<lambda>s. (3 \<in> elems s, prio s 3)) ?c = Some (True, 3)" by code_simp
  have 2: "map_option (\<lambda>s. map_option (\<lambda>(sig, s', w). (sig, w)) (IdleTaskThread_pass s False 3)) ?c
      = Some (Some ([1, 2], IdleWait 1))" by code_simp
  show ?thesis using 1 2 ex_heap_inv [of "[1, 4, 3, 9, 7, 11, 2]"] by auto
qed

section \<open>Timeout properties\<close>

lemma timeout_loop_spec:
  assumes "timeout_loop curTime ts sig iv = (sig', iv')"
  shows "sig' = sig @ List.map_filter fTask (filter (timed_out curTime) ts) \<and>
    (0 < iv \<longrightarrow> 0 < iv') \<and> iv' \<le> max iv 0 + 1000 * int (length ts)"
  using assms
proof (induction ts arbitrary: sig iv)
  case Nil
  then show ?case by (simp add: map_filter_simps)
next
  case (Cons t ts)
  show ?case
  proof (cases "timed_out curTime t")
    case True
    with Cons.prems Cons.IH [of "case fTask t of None \<Rightarrow> sig | Some x \<Rightarrow> sig @ [x]" iv]
    show ?thesis by (auto simp: map_filter_simps split: option.splits)
  next
    case False
    let ?iv = "if fTimeoutAtThisTime t - curTime > 0 \<and> fTimeoutInMilSecs t > 0 \<and> iv > fTimeoutAtThisTime t - curTime
      then fTimeoutAtThisTime t - curTime + 1000 else iv"
    from False Cons.prems have "timeout_loop curTime ts sig ?iv = (sig', iv')" by (simp add: Let_def)
    from Cons.IH [OF this] False show ?thesis by (auto simp: map_filter_simps split: if_splits)
  qed
qed

text \<open>\<^verbatim>\<open>TimeoutTaskThread::Run\<close> signals exactly the supervised tasks whose timeout has
  expired, in queue order, and asks to be run again after a positive time, at most 15
  seconds plus one second for every supervised task; on the kill event it signals nobody
  and returns 0.\<close>

theorem TimeoutTaskThread_Run_spec:
  assumes "TimeoutTaskThread_Run events curTime q = (sig, iv)"
  shows "(if events AND kKillEvent \<noteq> 0 then sig = [] \<and> iv = 0
    else sig = List.map_filter fTask (filter (\<lambda>t. 0 < fTimeoutAtThisTime t \<and> fTimeoutAtThisTime t \<le> curTime) q) \<and>
         0 < iv \<and> iv \<le> 15000 + 1000 * int (length q))"
proof (cases "events AND kKillEvent = 0")
  case True
  have f: "timed_out curTime = (\<lambda>t. 0 < fTimeoutAtThisTime t \<and> fTimeoutAtThisTime t \<le> curTime)"
    by (auto simp: timed_out_def fun_eq_iff)
  from assms True have "timeout_loop curTime q [] 15000 = (sig, iv)"
    by (simp add: TimeoutTaskThread_Run_def kIntervalSeconds_def)
  from timeout_loop_spec [OF this] True show ?thesis by (simp add: f)
next
  case False
  with assms show ?thesis by (simp add: TimeoutTaskThread_Run_def)
qed

theorem TimeoutTaskThread_Run_spec_witness:
  "fst (TimeoutTaskThread_Run 0 100 [TimeoutTask_new 0 (Some 3) 50, TimeoutTask_new 0 (Some 4) 500]) = [3]"
  using TimeoutTaskThread_Run_spec [of 0 100 "[TimeoutTask_new 0 (Some 3) 50, TimeoutTask_new 0 (Some 4) 500]"]
  by (cases "TimeoutTaskThread_Run 0 100 [TimeoutTask_new 0 (Some 3) 50, TimeoutTask_new 0 (Some 4) 500]")
     (simp add: TimeoutTask_new_def SetTimeout_def map_filter_simps)

text \<open>Three ways in which timeouts go wrong. The wake-up interval is not the least one: a
  task due in 14.999 s followed by tasks due one second later each makes the thread sleep
  almost 18 s. A task without a timeout (0, never) that is refreshed is timed out at the
  very next run. And the default timeout of 15 is in milliseconds, so a task with the
  default is timed out unless it is refreshed within 15 ms, although it is documented as
  never.\<close>

theorem TimeoutTask_defects:
  "snd (TimeoutTaskThread_Run 0 0 (map (TimeoutTask_new 0 (Some 1)) [14999, 15998, 16997])) = 17997 \<and>
   (\<forall>curTime > 0. \<forall>t. fTask t = Some x \<longrightarrow>
      fst (TimeoutTaskThread_Run 0 curTime [SetTimeout curTime 0 t]) = [] \<and>
      fst (TimeoutTaskThread_Run 0 curTime [RefreshTimeout curTime (SetTimeout curTime 0 t)]) = [x]) \<and>
   fst (TimeoutTaskThread_Run 0 15 [TimeoutTask_new 0 (Some x) 15]) = [x]"
  by (simp add: TimeoutTaskThread_Run_def TimeoutTask_new_def SetTimeout_def RefreshTimeout_def timed_out_def
      kIntervalSeconds_def Let_def)

theorem TimeoutTask_defects_witness:
  "fst (TimeoutTaskThread_Run 0 7 [RefreshTimeout 7 (SetTimeout 7 0 (TimeoutTask_new 0 (Some 2) 0))]) = [2]"
proof -
  have "\<forall>curTime > 0. \<forall>t. fTask t = Some 2 \<longrightarrow>
      fst (TimeoutTaskThread_Run 0 curTime [RefreshTimeout curTime (SetTimeout curTime 0 t)]) = [2]"
    using TimeoutTask_defects [of 2] by blast
  moreover have "fTask (TimeoutTask_new 0 (Some 2) 0) = Some 2" by (simp add: TimeoutTask_new_def SetTimeout_def)
  moreover have "0 < (7::int)" by simp
  ultimately show ?thesis by blast
qed

end
