(* ===== verification/CF_StringParser.thy ===== *)
theory CF_StringParser
  imports CF_StrPtrLen
begin

text \<open>
  The scanner of \<^verbatim>\<open>src/CFCore/StringParser.cpp\<close> and
  \<^verbatim>\<open>src/CFCore/include/CF/StringParser.h\<close>. The three pointers of the class are
  the memory of the stream from its first byte on (\<^term>\<open>None\<close> for a null stream) and
  two indices into it. Every consuming operation returns the string it writes to its
  out-parameter and the new parser; \<^term>\<open>None\<close> is a read outside the stream's object.
  \<^verbatim>\<open>ConsumeFloat\<close> and \<^verbatim>\<open>ConsumeNPT\<close> compute in single-precision floating
  point and are not modelled.
\<close>

section \<open>Character masks\<close>

text \<open>Letters, the hyphen and the underscore are word characters.\<close>

definition word_char :: "nat \<Rightarrow> bool" where
  "word_char i \<longleftrightarrow> 65 \<le> i \<and> i \<le> 90 \<or> 97 \<le> i \<and> i \<le> 122 \<or> i = 45 \<or> i = 95"

definition sNonWordFSlashMask :: "nat list" where
  "sNonWordFSlashMask =
     [1, 1, 1, 1, 1, 1, 1, 1, 1, 1, 1, 1, 1, 1, 1, 1, 1, 1, 1, 1, 1, 1, 1, 1, 1, 1, 1, 1, 1, 1,
      1, 1, 1, 1, 1, 1, 1, 1, 1, 1, 1, 1, 1, 1, 1, 0, 1, 0, 1, 1, 1, 1, 1, 1, 1, 1, 1, 1, 1, 1,
      1, 1, 1, 1, 1, 0, 0, 0, 0, 0, 0, 0, 0, 0, 0, 0, 0, 0, 0, 0, 0, 0, 0, 0, 0, 0, 0, 0, 0, 0,
      0, 1, 1, 1, 1, 0, 1, 0, 0, 0, 0, 0, 0, 0, 0, 0, 0, 0, 0, 0, 0, 0, 0, 0, 0, 0, 0, 0, 0, 0,
      0, 0, 0, 1, 1, 1, 1, 1, 1, 1, 1, 1, 1, 1, 1, 1, 1, 1, 1, 1, 1, 1, 1, 1, 1, 1, 1, 1, 1, 1,
      1, 1, 1, 1, 1, 1, 1, 1, 1, 1, 1, 1, 1, 1, 1, 1, 1, 1, 1, 1, 1, 1, 1, 1, 1, 1, 1, 1, 1, 1,
      1, 1, 1, 1, 1, 1, 1, 1, 1, 1, 1, 1, 1, 1, 1, 1, 1, 1, 1, 1, 1, 1, 1, 1, 1, 1, 1, 1, 1, 1,
      1, 1, 1, 1, 1, 1, 1, 1, 1, 1, 1, 1, 1, 1, 1, 1, 1, 1, 1, 1, 1, 1, 1, 1, 1, 1, 1, 1, 1, 1,
      1, 1, 1, 1, 1, 1, 1, 1, 1, 1, 1, 1, 1, 1, 1, 1]"

definition sNonWordMask :: "nat list" where
  "sNonWordMask =
     [1, 1, 1, 1, 1, 1, 1, 1, 1, 1, 1, 1, 1, 1, 1, 1, 1, 1, 1, 1, 1, 1, 1, 1, 1, 1, 1, 1, 1, 1,
      1, 1, 1, 1, 1, 1, 1, 1, 1, 1, 1, 1, 1, 1, 1, 0, 1, 1, 1, 1, 1, 1, 1, 1, 1, 1, 1, 1, 1, 1,
      1, 1, 1, 1, 1, 0, 0, 0, 0, 0, 0, 0, 0, 0, 0, 0, 0, 0, 0, 0, 0, 0, 0, 0, 0, 0, 0, 0, 0, 0,
      0, 1, 1, 1, 1, 0, 1, 0, 0, 0, 0, 0, 0, 0, 0, 0, 0, 0, 0, 0, 0, 0, 0, 0, 0, 0, 0, 0, 0, 0,
      0, 0, 0, 1, 1, 1, 1, 1, 1, 1, 1, 1, 1, 1, 1, 1, 1, 1, 1, 1, 1, 1, 1, 1, 1, 1, 1, 1, 1, 1,
      1, 1, 1, 1, 1, 1, 1, 1, 1, 1, 1, 1, 1, 1, 1, 1, 1, 1, 1, 1, 1, 1, 1, 1, 1, 1, 1, 1, 1, 1,
      1, 1, 1, 1, 1, 1, 1, 1, 1, 1, 1, 1, 1, 1, 1, 1, 1, 1, 1, 1, 1, 1, 1, 1, 1, 1, 1, 1, 1, 1,
      1, 1, 1, 1, 1, 1, 1, 1, 1, 1, 1, 1, 1, 1, 1, 1, 1, 1, 1, 1, 1, 1, 1, 1, 1, 1, 1, 1, 1, 1,
      1, 1, 1, 1, 1, 1, 1, 1, 1, 1, 1, 1, 1, 1, 1, 1]"

definition sWordMask :: "nat list" where
  "sWordMask =
     [0, 0, 0, 0, 0, 0, 0, 0, 0, 0, 0, 0, 0, 0, 0, 0, 0, 0, 0, 0, 0, 0, 0, 0, 0, 0, 0, 0, 0, 0,
      0, 0, 0, 0, 0, 0, 0, 0, 0, 0, 0, 0, 0, 0, 0, 1, 0, 0, 0, 0, 0, 0, 0, 0, 0, 0, 0, 0, 0, 0,
      0, 0, 0, 0, 0, 1, 1, 1, 1, 1, 1, 1, 1, 1, 1, 1, 1, 1, 1, 1, 1, 1, 1, 1, 1, 1, 1, 1, 1, 1,
      1, 0, 0, 0, 0, 1, 0, 1, 1, 1, 1, 1, 1, 1, 1, 1, 1, 1, 1, 1, 1, 1, 1, 1, 1, 1, 1, 1, 1, 1,
      1, 1, 1, 0, 0, 0, 0, 0, 0, 0, 0, 0, 0, 0, 0, 0, 0, 0, 0, 0, 0, 0, 0, 0, 0, 0, 0, 0, 0, 0,
      0, 0, 0, 0, 0, 0, 0, 0, 0, 0, 0, 0, 0, 0, 0, 0, 0, 0, 0, 0, 0, 0, 0, 0, 0, 0, 0, 0, 0, 0,
      0, 0, 0, 0, 0, 0, 0, 0, 0, 0, 0, 0, 0, 0, 0, 0, 0, 0, 0, 0, 0, 0, 0, 0, 0, 0, 0, 0, 0, 0,
      0, 0, 0, 0, 0, 0, 0, 0, 0, 0, 0, 0, 0, 0, 0, 0, 0, 0, 0, 0, 0, 0, 0, 0, 0, 0, 0, 0, 0, 0,
      0, 0, 0, 0, 0, 0, 0, 0, 0, 0, 0, 0, 0, 0, 0, 0]"

definition sDigitMask :: "nat list" where
  "sDigitMask =
     [0, 0, 0, 0, 0, 0, 0, 0, 0, 0, 0, 0, 0, 0, 0, 0, 0, 0, 0, 0, 0, 0, 0, 0, 0, 0, 0, 0, 0, 0,
      0, 0, 0, 0, 0, 0, 0, 0, 0, 0, 0, 0, 0, 0, 0, 0, 0, 0, 1, 1, 1, 1, 1, 1, 1, 1, 1, 1, 0, 0,
      0, 0, 0, 0, 0, 0, 0, 0, 0, 0, 0, 0, 0, 0, 0, 0, 0, 0, 0, 0, 0, 0, 0, 0, 0, 0, 0, 0, 0, 0,
      0, 0, 0, 0, 0, 0, 0, 0, 0, 0, 0, 0, 0, 0, 0, 0, 0, 0, 0, 0, 0, 0, 0, 0, 0, 0, 0, 0, 0, 0,
      0, 0, 0, 0, 0, 0, 0, 0, 0, 0, 0, 0, 0, 0, 0, 0, 0, 0, 0, 0, 0, 0, 0, 0, 0, 0, 0, 0, 0, 0,
      0, 0, 0, 0, 0, 0, 0, 0, 0, 0, 0, 0, 0, 0, 0, 0, 0, 0, 0, 0, 0, 0, 0, 0, 0, 0, 0, 0, 0, 0,
      0, 0, 0, 0, 0, 0, 0, 0, 0, 0, 0, 0, 0, 0, 0, 0, 0, 0, 0, 0, 0, 0, 0, 0, 0, 0, 0, 0, 0, 0,
      0, 0, 0, 0, 0, 0, 0, 0, 0, 0, 0, 0, 0, 0, 0, 0, 0, 0, 0, 0, 0, 0, 0, 0, 0, 0, 0, 0, 0, 0,
      0, 0, 0, 0, 0, 0, 0, 0, 0, 0, 0, 0, 0, 0, 0, 0]"

definition sEOLMask :: "nat list" where
  "sEOLMask =
     [0, 0, 0, 0, 0, 0, 0, 0, 0, 0, 1, 0, 0, 1, 0, 0, 0, 0, 0, 0, 0, 0, 0, 0, 0, 0, 0, 0, 0, 0,
      0, 0, 0, 0, 0, 0, 0, 0, 0, 0, 0, 0, 0, 0, 0, 0, 0, 0, 0, 0, 0, 0, 0, 0, 0, 0, 0, 0, 0, 0,
      0, 0, 0, 0, 0, 0, 0, 0, 0, 0, 0, 0, 0, 0, 0, 0, 0, 0, 0, 0, 0, 0, 0, 0, 0, 0, 0, 0, 0, 0,
      0, 0, 0, 0, 0, 0, 0, 0, 0, 0, 0, 0, 0, 0, 0, 0, 0, 0, 0, 0, 0, 0, 0, 0, 0, 0, 0, 0, 0, 0,
      0, 0, 0, 0, 0, 0, 0, 0, 0, 0, 0, 0, 0, 0, 0, 0, 0, 0, 0, 0, 0, 0, 0, 0, 0, 0, 0, 0, 0, 0,
      0, 0, 0, 0, 0, 0, 0, 0, 0, 0, 0, 0, 0, 0, 0, 0, 0, 0, 0, 0, 0, 0, 0, 0, 0, 0, 0, 0, 0, 0,
      0, 0, 0, 0, 0, 0, 0, 0, 0, 0, 0, 0, 0, 0, 0, 0, 0, 0, 0, 0, 0, 0, 0, 0, 0, 0, 0, 0, 0, 0,
      0, 0, 0, 0, 0, 0, 0, 0, 0, 0, 0, 0, 0, 0, 0, 0, 0, 0, 0, 0, 0, 0, 0, 0, 0, 0, 0, 0, 0, 0,
      0, 0, 0, 0, 0, 0, 0, 0, 0, 0, 0, 0, 0, 0, 0, 0]"

definition sNonWhitespaceMask :: "nat list" where
  "sNonWhitespaceMask =
     [1, 1, 1, 1, 1, 1, 1, 1, 1, 0, 0, 0, 0, 0, 1, 1, 1, 1, 1, 1, 1, 1, 1, 1, 1, 1, 1, 1, 1, 1,
      1, 1, 0, 1, 1, 1, 1, 1, 1, 1, 1, 1, 1, 1, 1, 1, 1, 1, 1, 1, 1, 1, 1, 1, 1, 1, 1, 1, 1, 1,
      1, 1, 1, 1, 1, 1, 1, 1, 1, 1, 1, 1, 1, 1, 1, 1, 1, 1, 1, 1, 1, 1, 1, 1, 1, 1, 1, 1, 1, 1,
      1, 1, 1, 1, 1, 1, 1, 1, 1, 1, 1, 1, 1, 1, 1, 1, 1, 1, 1, 1, 1, 1, 1, 1, 1, 1, 1, 1, 1, 1,
      1, 1, 1, 1, 1, 1, 1, 1, 1, 1, 1, 1, 1, 1, 1, 1, 1, 1, 1, 1, 1, 1, 1, 1, 1, 1, 1, 1, 1, 1,
      1, 1, 1, 1, 1, 1, 1, 1, 1, 1, 1, 1, 1, 1, 1, 1, 1, 1, 1, 1, 1, 1, 1, 1, 1, 1, 1, 1, 1, 1,
      1, 1, 1, 1, 1, 1, 1, 1, 1, 1, 1, 1, 1, 1, 1, 1, 1, 1, 1, 1, 1, 1, 1, 1, 1, 1, 1, 1, 1, 1,
      1, 1, 1, 1, 1, 1, 1, 1, 1, 1, 1, 1, 1, 1, 1, 1, 1, 1, 1, 1, 1, 1, 1, 1, 1, 1, 1, 1, 1, 1,
      1, 1, 1, 1, 1, 1, 1, 1, 1, 1, 1, 1, 1, 1, 1, 1]"

definition sEOLWhitespaceMask :: "nat list" where
  "sEOLWhitespaceMask =
     [0, 0, 0, 0, 0, 0, 0, 0, 0, 1, 1, 1, 1, 1, 0, 0, 0, 0, 0, 0, 0, 0, 0, 0, 0, 0, 0, 0, 0, 0,
      0, 0, 1, 0, 0, 0, 0, 0, 0, 0, 0, 0, 0, 0, 0, 0, 0, 0, 0, 0, 0, 0, 0, 0, 0, 0, 0, 0, 0, 0,
      0, 0, 0, 0, 0, 0, 0, 0, 0, 0, 0, 0, 0, 0, 0, 0, 0, 0, 0, 0, 0, 0, 0, 0, 0, 0, 0, 0, 0, 0,
      0, 0, 0, 0, 0, 0, 0, 0, 0, 0, 0, 0, 0, 0, 0, 0, 0, 0, 0, 0, 0, 0, 0, 0, 0, 0, 0, 0, 0, 0,
      0, 0, 0, 0, 0, 0, 0, 0, 0, 0, 0, 0, 0, 0, 0, 0, 0, 0, 0, 0, 0, 0, 0, 0, 0, 0, 0, 0, 0, 0,
      0, 0, 0, 0, 0, 0, 0, 0, 0, 0, 0, 0, 0, 0, 0, 0, 0, 0, 0, 0, 0, 0, 0, 0, 0, 0, 0, 0, 0, 0,
      0, 0, 0, 0, 0, 0, 0, 0, 0, 0, 0, 0, 0, 0, 0, 0, 0, 0, 0, 0, 0, 0, 0, 0, 0, 0, 0, 0, 0, 0,
      0, 0, 0, 0, 0, 0, 0, 0, 0, 0, 0, 0, 0, 0, 0, 0, 0, 0, 0, 0, 0, 0, 0, 0, 0, 0, 0, 0, 0, 0,
      0, 0, 0, 0, 0, 0, 0, 0, 0, 0, 0, 0, 0, 0, 0, 0]"

definition sEOLWhitespaceQueryMask :: "nat list" where
  "sEOLWhitespaceQueryMask =
     [0, 0, 0, 0, 0, 0, 0, 0, 0, 1, 1, 1, 1, 1, 0, 0, 0, 0, 0, 0, 0, 0, 0, 0, 0, 0, 0, 0, 0, 0,
      0, 0, 1, 0, 0, 0, 0, 0, 0, 0, 0, 0, 0, 0, 0, 0, 0, 0, 0, 0, 0, 0, 0, 0, 0, 0, 0, 0, 0, 0,
      0, 0, 0, 1, 0, 0, 0, 0, 0, 0, 0, 0, 0, 0, 0, 0, 0, 0, 0, 0, 0, 0, 0, 0, 0, 0, 0, 0, 0, 0,
      0, 0, 0, 0, 0, 0, 0, 0, 0, 0, 0, 0, 0, 0, 0, 0, 0, 0, 0, 0, 0, 0, 0, 0, 0, 0, 0, 0, 0, 0,
      0, 0, 0, 0, 0, 0, 0, 0, 0, 0, 0, 0, 0, 0, 0, 0, 0, 0, 0, 0, 0, 0, 0, 0, 0, 0, 0, 0, 0, 0,
      0, 0, 0, 0, 0, 0, 0, 0, 0, 0, 0, 0, 0, 0, 0, 0, 0, 0, 0, 0, 0, 0, 0, 0, 0, 0, 0, 0, 0, 0,
      0, 0, 0, 0, 0, 0, 0, 0, 0, 0, 0, 0, 0, 0, 0, 0, 0, 0, 0, 0, 0, 0, 0, 0, 0, 0, 0, 0, 0, 0,
      0, 0, 0, 0, 0, 0, 0, 0, 0, 0, 0, 0, 0, 0, 0, 0, 0, 0, 0, 0, 0, 0, 0, 0, 0, 0, 0, 0, 0, 0,
      0, 0, 0, 0, 0, 0, 0, 0, 0, 0, 0, 0, 0, 0, 0, 0]"

text \<open>Tab, line feed, vertical tab, form feed, carriage return and blank.\<close>

definition space_char :: "nat \<Rightarrow> bool" where
  "space_char i \<longleftrightarrow> 9 \<le> i \<and> i \<le> 13 \<or> i = 32"

text \<open>Each table is the characteristic function of a class of byte values.\<close>

definition mask_of :: "(nat \<Rightarrow> bool) \<Rightarrow> nat list" where
  "mask_of P = map (\<lambda>i. if P i then 1 else 0) [0..<256]"

lemma sNonWordFSlashMask_eq: "sNonWordFSlashMask = mask_of (\<lambda>i. \<not> (word_char i \<or> i = 47))"
  by code_simp

lemma sNonWordMask_eq: "sNonWordMask = mask_of (\<lambda>i. \<not> word_char i)"
  by code_simp

lemma sWordMask_eq: "sWordMask = mask_of (\<lambda>i. word_char i)"
  by code_simp

lemma sDigitMask_eq: "sDigitMask = mask_of (\<lambda>i. 48 \<le> i \<and> i \<le> 57)"
  by code_simp

lemma sEOLMask_eq: "sEOLMask = mask_of (\<lambda>i. i = 10 \<or> i = 13)"
  by code_simp

lemma sNonWhitespaceMask_eq: "sNonWhitespaceMask = mask_of (\<lambda>i. \<not> space_char i)"
  by code_simp

lemma sEOLWhitespaceMask_eq: "sEOLWhitespaceMask = mask_of (\<lambda>i. space_char i)"
  by code_simp

lemma sEOLWhitespaceQueryMask_eq: "sEOLWhitespaceQueryMask = mask_of (\<lambda>i. space_char i \<or> i = 63)"
  by code_simp

lemma mask_mask_of [simp]: "mask (mask_of P) c = Some (if P (byte c) then 1 else 0)"
  by (simp add: mask_def mask_of_def)

section \<open>State and operations\<close>

record StringParser =
  fObj :: "mem option"
  fStartGet :: nat
  fEndGet :: nat
  fCurLineNumber :: int

definition StringParser_new :: "StrPtrLen option \<Rightarrow> StringParser" where
  "StringParser_new inStream =
     (case inStream of
        None \<Rightarrow> \<lparr>fObj = None, fStartGet = 0, fEndGet = 0, fCurLineNumber = 1\<rparr>
      | Some s \<Rightarrow> \<lparr>fObj = Ptr s, fStartGet = 0, fEndGet = Len s, fCurLineNumber = 1\<rparr>)"

definition ParserIsEmpty :: "StringParser \<Rightarrow> bool" where
  "ParserIsEmpty p \<longleftrightarrow> fObj p = None"

definition advanceMark :: "StringParser \<Rightarrow> StringParser option" where
  "advanceMark p =
     (if ParserIsEmpty p then Some p
      else do {
        c \<leftarrow> rdp (fObj p) (fStartGet p);
        boundary \<leftarrow>
          (if c = CHR 0x0A then Some True
           else if c = CHR 0x0D then do { d \<leftarrow> rdp (fObj p) (fStartGet p + 1); Some (d \<noteq> CHR 0x0A) }
           else Some False);
        Some (p\<lparr>fCurLineNumber := fCurLineNumber p + (if boundary then 1 else 0),
                fStartGet := fStartGet p + 1\<rparr>)
      })"

lemma advanceMark_Some:
  "advanceMark p = Some p' \<Longrightarrow> rdp (fObj p) (fStartGet p) = Some c \<Longrightarrow>
   fObj p' = fObj p \<and> fEndGet p' = fEndGet p \<and> fStartGet p' = fStartGet p + 1"
  by (auto simp: advanceMark_def ParserIsEmpty_def rdp_def bind_eq_Some_conv split: if_splits)

text \<open>The loop \<^verbatim>\<open>while (fStartGet < fEndGet && !stop(*fStartGet)) advanceMark();\<close>\<close>

function consume_loop :: "(char \<Rightarrow> bool option) \<Rightarrow> StringParser \<Rightarrow> StringParser option" where
  "consume_loop stop p =
     (if fStartGet p < fEndGet p then
        do {
          c \<leftarrow> rdp (fObj p) (fStartGet p);
          s \<leftarrow> stop c;
          if s then Some p else do { p' \<leftarrow> advanceMark p; consume_loop stop p' }
        }
      else Some p)"
  by pat_completeness auto
termination
  by (relation "measure (\<lambda>(stop, p). fEndGet p - fStartGet p)") (auto dest: advanceMark_Some)

declare consume_loop.simps [simp del]

definition since :: "StringParser \<Rightarrow> StringParser \<Rightarrow> StrPtrLen" where
  "since p p' = \<lparr>Ptr = map_option (drop (fStartGet p)) (fObj p), Len = fStartGet p' - fStartGet p\<rparr>"

definition consume_with :: "(char \<Rightarrow> bool option) \<Rightarrow> StringParser \<Rightarrow> (StrPtrLen \<times> StringParser) option" where
  "consume_with stop p =
     (if ParserIsEmpty p then Some (StrPtrLen_null, p)
      else do { p' \<leftarrow> consume_loop stop p; Some (since p p', p') })"

definition ConsumeUntil :: "StringParser \<Rightarrow> char \<Rightarrow> (StrPtrLen \<times> StringParser) option" where
  "ConsumeUntil p inStop = consume_with (\<lambda>c. Some (c = inStop)) p"

definition ConsumeUntil_mask :: "StringParser \<Rightarrow> nat list \<Rightarrow> (StrPtrLen \<times> StringParser) option" where
  "ConsumeUntil_mask p inMask = consume_with (\<lambda>c. do { v \<leftarrow> mask inMask c; Some (v \<noteq> 0) }) p"

definition ConsumeWord :: "StringParser \<Rightarrow> (StrPtrLen \<times> StringParser) option" where
  "ConsumeWord p = ConsumeUntil_mask p sNonWordMask"

definition ConsumeWordAndFSlash :: "StringParser \<Rightarrow> (StrPtrLen \<times> StringParser) option" where
  "ConsumeWordAndFSlash p = ConsumeUntil_mask p sNonWordFSlashMask"

definition ConsumeWhitespace :: "StringParser \<Rightarrow> StringParser option" where
  "ConsumeWhitespace p = map_option snd (ConsumeUntil_mask p sNonWhitespaceMask)"

definition ConsumeUntilWhitespace :: "StringParser \<Rightarrow> (StrPtrLen \<times> StringParser) option" where
  "ConsumeUntilWhitespace p = ConsumeUntil_mask p sEOLWhitespaceMask"

definition ConsumeUntilDigit :: "StringParser \<Rightarrow> (StrPtrLen \<times> StringParser) option" where
  "ConsumeUntilDigit p = ConsumeUntil_mask p sDigitMask"

text \<open>
  The counter of the loop in \<^verbatim>\<open>ConsumeLength\<close> is a 16-bit \<^verbatim>\<open>short\<close>:
  incrementing 32767 gives -32768. A loop that does not end is \<^term>\<open>None\<close>.
\<close>

definition short :: "int \<Rightarrow> int" where
  "short n = (n + 32768) mod 65536 - 32768"

partial_function (option) short_loop :: "int \<Rightarrow> int \<Rightarrow> StringParser \<Rightarrow> StringParser option" where
  "short_loop i inLength p =
     (if i < inLength then do { p' \<leftarrow> advanceMark p; short_loop (short (i + 1)) inLength p' } else Some p)"

declare short_loop.simps [code]

definition ConsumeLength :: "StringParser \<Rightarrow> int \<Rightarrow> (StrPtrLen \<times> StringParser) option" where
  "ConsumeLength p inLength =
     (if ParserIsEmpty p then Some (StrPtrLen_null, p)
      else
        (let avail = int (fEndGet p) - int (fStartGet p);
             len = (if avail < inLength then avail else inLength);
             spl = \<lparr>Ptr = map_option (drop (fStartGet p)) (fObj p), Len = u32 (nat (len mod 2 ^ 32))\<rparr>
         in if len > 0 then do { p' \<leftarrow> short_loop 0 len p; Some (spl, p') }
            else if 0 \<le> int (fStartGet p) + len
                 then Some (spl, p\<lparr>fStartGet := nat (int (fStartGet p) + len)\<rparr>)
                 else None))"

definition is_digit :: "char \<Rightarrow> bool" where
  "is_digit c \<longleftrightarrow> 48 \<le> byte c \<and> byte c \<le> 57"

function integer_loop :: "UInt32 \<Rightarrow> StringParser \<Rightarrow> (UInt32 \<times> StringParser) option" where
  "integer_loop theValue p =
     (if fStartGet p < fEndGet p then
        do {
          c \<leftarrow> rdp (fObj p) (fStartGet p);
          if is_digit c
          then do { p' \<leftarrow> advanceMark p; integer_loop (theValue * 10 + of_nat (byte c - 48)) p' }
          else Some (theValue, p)
        }
      else Some (theValue, p))"
  by pat_completeness auto
termination
  by (relation "measure (\<lambda>(v, p). fEndGet p - fStartGet p)") (auto dest: advanceMark_Some)

declare integer_loop.simps [simp del]

definition ConsumeInteger :: "StringParser \<Rightarrow> (UInt32 \<times> StrPtrLen \<times> StringParser) option" where
  "ConsumeInteger p =
     (if ParserIsEmpty p then Some (0, StrPtrLen_null, p)
      else do { (v, p') \<leftarrow> integer_loop 0 p; Some (v, since p p', p') })"

definition Expect :: "StringParser \<Rightarrow> char \<Rightarrow> (bool \<times> StringParser) option" where
  "Expect p stopChar =
     (if ParserIsEmpty p then Some (False, p)
      else if fStartGet p \<ge> fEndGet p then Some (False, p)
      else do {
        c \<leftarrow> rdp (fObj p) (fStartGet p);
        if c \<noteq> stopChar then Some (False, p) else do { p' \<leftarrow> advanceMark p; Some (True, p') }
      })"

definition eol_step :: "StringParser \<Rightarrow> (bool \<times> StringParser) option" where
  "eol_step p =
     (if fStartGet p < fEndGet p then
        do {
          c \<leftarrow> rdp (fObj p) (fStartGet p);
          if c = CHR 0x0D \<or> c = CHR 0x0A then
            do {
              p1 \<leftarrow> advanceMark p;
              if fStartGet p1 < fEndGet p1 then
                do {
                  a \<leftarrow> rdp (fObj p1) (fStartGet p1 - 1);
                  b \<leftarrow> rdp (fObj p1) (fStartGet p1);
                  if a = CHR 0x0D \<and> b = CHR 0x0A then do { p2 \<leftarrow> advanceMark p1; Some (True, p2) }
                  else Some (True, p1)
                }
              else Some (True, p1)
            }
          else Some (False, p)
        }
      else Some (False, p))"

definition ExpectEOL :: "StringParser \<Rightarrow> (bool \<times> StringParser) option" where
  "ExpectEOL p = (if ParserIsEmpty p then Some (False, p) else eol_step p)"

definition ConsumeEOL :: "StringParser \<Rightarrow> (StrPtrLen \<times> StringParser) option" where
  "ConsumeEOL p =
     (if ParserIsEmpty p then Some (StrPtrLen_null, p)
      else do { (_, p') \<leftarrow> eol_step p; Some (since p p', p') })"

definition GetThru :: "StringParser \<Rightarrow> char \<Rightarrow> (bool \<times> StrPtrLen \<times> StringParser) option" where
  "GetThru p stop =
     do { (out, p1) \<leftarrow> ConsumeUntil p stop; (b, p2) \<leftarrow> Expect p1 stop; Some (b, out, p2) }"

definition GetThruEOL :: "StringParser \<Rightarrow> (bool \<times> StrPtrLen \<times> StringParser) option" where
  "GetThruEOL p =
     do { (out, p1) \<leftarrow> ConsumeUntil_mask p sEOLMask; (b, p2) \<leftarrow> ExpectEOL p1; Some (b, out, p2) }"

definition PeekFast :: "StringParser \<Rightarrow> char option" where
  "PeekFast p = (case fObj p of None \<Rightarrow> Some NUL | Some m \<Rightarrow> rd m (fStartGet p))"

definition GetDataParsedLen :: "StringParser \<Rightarrow> nat" where
  "GetDataParsedLen p = fStartGet p"

definition GetDataReceivedLen :: "StringParser \<Rightarrow> nat" where
  "GetDataReceivedLen p = fEndGet p"

definition GetDataRemaining :: "StringParser \<Rightarrow> nat" where
  "GetDataRemaining p = fEndGet p - fStartGet p"

definition quote :: "char \<Rightarrow> bool" where
  "quote c \<longleftrightarrow> c = CHR 0x22 \<or> c = CHR 0x27"

definition UnQuote :: "StrPtrLen \<Rightarrow> StrPtrLen option" where
  "UnQuote s =
     (case Ptr s of
        None \<Rightarrow> Some s
      | Some m \<Rightarrow>
          if Len s < 2 then Some s
          else do {
            a \<leftarrow> rd m 0;
            let s1 = (if quote a then s\<lparr>Ptr := Some (drop 1 m), Len := Len s - 1\<rparr> else s);
            b \<leftarrow> rdp (Ptr s1) (Len s1 - 1);
            Some (if quote b then s1\<lparr>Len := Len s1 - 1\<rparr> else s1)
          })"

section \<open>Abstract view\<close>

text \<open>
  \<^verbatim>\<open>advanceMark\<close> looks one byte ahead at a carriage return, so a stream that
  ends with one needs a further readable byte.
\<close>

definition guarded :: "mem \<Rightarrow> nat \<Rightarrow> bool" where
  "guarded m e \<longleftrightarrow> e \<le> length m \<and> (e = length m \<longrightarrow> e = 0 \<or> m ! (e - 1) \<noteq> CHR 0x0D)"

definition parser_ok :: "StringParser \<Rightarrow> mem \<Rightarrow> bool" where
  "parser_ok p m \<longleftrightarrow> fObj p = Some m \<and> fStartGet p \<le> fEndGet p \<and> guarded m (fEndGet p)"

definition remaining :: "StringParser \<Rightarrow> string" where
  "remaining p =
     (case fObj p of None \<Rightarrow> [] | Some m \<Rightarrow> take (fEndGet p - fStartGet p) (drop (fStartGet p) m))"

text \<open>A line boundary: a line feed, or a carriage return not followed by one.\<close>

definition eol_at :: "mem \<Rightarrow> nat \<Rightarrow> bool" where
  "eol_at m i \<longleftrightarrow> m ! i = CHR 0x0A \<or> m ! i = CHR 0x0D \<and> m ! (i + 1) \<noteq> CHR 0x0A"

definition advance :: "nat \<Rightarrow> StringParser \<Rightarrow> StringParser" where
  "advance n p =
     p\<lparr>fCurLineNumber := fCurLineNumber p +
         int (length (filter (eol_at (the (fObj p))) [fStartGet p..<fStartGet p + n])),
       fStartGet := fStartGet p + n\<rparr>"

lemma advance_sel [simp]:
  "fObj (advance n p) = fObj p" "fEndGet (advance n p) = fEndGet p"
  "fStartGet (advance n p) = fStartGet p + n"
  by (simp_all add: advance_def)

lemma advance_0 [simp]: "advance 0 p = p"
  by (simp add: advance_def)

lemma advance_advance [simp]: "advance n (advance k p) = advance (k + n) p"
proof -
  have "[fStartGet p..<fStartGet p + (k + n)] =
      [fStartGet p..<fStartGet p + k] @ [fStartGet p + k..<fStartGet p + k + n]"
    by (metis add.assoc le_add1 upt_add_eq_append)
  then show ?thesis by (simp add: advance_def add.assoc)
qed

lemma length_remaining: "parser_ok p m \<Longrightarrow> length (remaining p) = fEndGet p - fStartGet p"
  by (auto simp: parser_ok_def remaining_def guarded_def)

lemma remaining_eq: "parser_ok p m \<Longrightarrow> remaining p = take (fEndGet p - fStartGet p) (drop (fStartGet p) m)"
  by (simp add: parser_ok_def remaining_def)

lemma nth_remaining: "parser_ok p m \<Longrightarrow> i < fEndGet p - fStartGet p \<Longrightarrow> remaining p ! i = m ! (fStartGet p + i)"
  by (auto simp: parser_ok_def remaining_def guarded_def)

lemma parser_ok_advance [intro]:
  "parser_ok p m \<Longrightarrow> n \<le> length (remaining p) \<Longrightarrow> parser_ok (advance n p) m"
  by (simp add: length_remaining) (auto simp: parser_ok_def)

lemma remaining_advance [simp]:
  "parser_ok p m \<Longrightarrow> n \<le> length (remaining p) \<Longrightarrow> remaining (advance n p) = drop n (remaining p)"
  by (simp add: length_remaining) (auto simp: remaining_def parser_ok_def drop_take add.commute)

lemma remaining_Cons:
  assumes "parser_ok p m" "fStartGet p < fEndGet p"
  shows "remaining p = m ! fStartGet p # remaining (advance 1 p)" "fStartGet p < length m"
proof -
  show "fStartGet p < length m" using assms by (auto simp: parser_ok_def guarded_def)
  then show "remaining p = m ! fStartGet p # remaining (advance 1 p)"
    using assms take_drop_Cons [of "fStartGet p" "fEndGet p" m]
    by (auto simp: remaining_def parser_ok_def guarded_def)
qed

lemma advanceMark_ok:
  assumes ok: "parser_ok p m" and lt: "fStartGet p < fEndGet p"
  shows "advanceMark p = Some (advance 1 p)"
proof -
  have m: "fObj p = Some m" "fStartGet p < length m" using assms by (auto simp: parser_ok_def guarded_def)
  have "fStartGet p + 1 < length m" if "m ! fStartGet p = CHR 0x0D"
  proof (cases "fStartGet p + 1 = fEndGet p")
    case True
    then have "m ! (fEndGet p - 1) = CHR 0x0D" using that by (metis add_diff_cancel_right')
    moreover have "guarded m (fEndGet p)" "fEndGet p \<noteq> 0" using ok lt by (auto simp: parser_ok_def)
    ultimately have "fEndGet p < length m" unfolding guarded_def by (metis le_neq_implies_less)
    with True show ?thesis by simp
  next
    case False
    with ok lt show ?thesis by (auto simp: parser_ok_def guarded_def)
  qed
  with m show ?thesis
    by (auto simp: advanceMark_def ParserIsEmpty_def rdp_def advance_def eol_at_def)
qed

lemma consume_loop_ok:
  assumes "parser_ok p m" "\<And>c. stop c = Some (P c)"
  shows "consume_loop stop p = Some (advance (length (takeWhile (\<lambda>c. \<not> P c) (remaining p))) p)"
  using assms
proof (induction "fEndGet p - fStartGet p" arbitrary: p)
  case 0
  then show ?case by (subst consume_loop.simps) (simp add: remaining_def parser_ok_def)
next
  case (Suc n)
  then have lt: "fStartGet p < fEndGet p" by simp
  note c = remaining_Cons [OF Suc.prems(1) lt]
  have ob: "fObj p = Some m" using Suc.prems by (simp add: parser_ok_def)
  have step: "consume_loop stop p =
      (if P (m ! fStartGet p) then Some p else consume_loop stop (advance 1 p))"
    using lt c(2) Suc.prems(2)
    by (subst consume_loop.simps) (simp add: rdp_def ob advanceMark_ok [OF Suc.prems(1) lt])
  have ok1: "parser_ok (advance 1 p) m"
    using Suc.prems(1) by (rule parser_ok_advance) (simp add: c(1))
  with Suc.hyps(1) [of "advance 1 p"] Suc.hyps(2) Suc.prems(2)
  have "consume_loop stop (advance 1 p)
      = Some (advance (length (takeWhile (\<lambda>c. \<not> P c) (remaining (advance 1 p)))) (advance 1 p))" by simp
  then show ?case unfolding step by (subst c(1)) simp
qed

lemma takeWhile_le: "length (takeWhile P xs) \<le> length xs"
  by (rule length_takeWhile_le)

lemma since_advance:
  assumes "parser_ok p m" "n \<le> length (remaining p)"
  shows "str (since p (advance n p)) = take n (remaining p)" "valid (since p (advance n p))"
    "Ptr (since p (advance n p)) = Some (drop (fStartGet p) m)" "Len (since p (advance n p)) = n"
  using assms(1) assms(2) [unfolded length_remaining [OF assms(1)]]
  by (auto simp: since_def str_def valid_def parser_ok_def remaining_def guarded_def min_def)

lemma ParserIsEmpty_ok: "parser_ok p m \<Longrightarrow> \<not> ParserIsEmpty p"
  by (simp add: parser_ok_def ParserIsEmpty_def)

text \<open>The common specification of the consuming operations.\<close>

definition consumes :: "(StrPtrLen \<times> StringParser) option \<Rightarrow> StringParser \<Rightarrow> nat \<Rightarrow> bool" where
  "consumes r p n \<longleftrightarrow>
     (\<exists>out. r = Some (out, advance n p) \<and> n \<le> length (remaining p) \<and> valid out \<and> Len out = n \<and>
            str out = take n (remaining p) \<and> remaining (advance n p) = drop n (remaining p))"

lemma consume_with_ok:
  assumes ok: "parser_ok p m" and "\<And>c. stop c = Some (P c)"
  shows "consumes (consume_with stop p) p (length (takeWhile (\<lambda>c. \<not> P c) (remaining p)))"
  unfolding consumes_def consume_with_def
  using consume_loop_ok [OF assms] ParserIsEmpty_ok [OF ok]
    since_advance [OF ok takeWhile_le] remaining_advance [OF ok takeWhile_le] takeWhile_le
  by auto

lemma ConsumeUntil_mask_ok:
  assumes "parser_ok p m" "tbl = mask_of P"
  shows "consumes (ConsumeUntil_mask p tbl) p (length (takeWhile (\<lambda>c. \<not> P (byte c)) (remaining p)))"
  unfolding ConsumeUntil_mask_def assms(2) by (rule consume_with_ok [OF assms(1)]) simp

lemma integer_loop_ok:
  assumes "parser_ok p m"
  shows "integer_loop v p =
    Some (foldl (\<lambda>a c. a * 10 + of_nat (byte c - 48)) v (takeWhile is_digit (remaining p)),
          advance (length (takeWhile is_digit (remaining p))) p)"
  using assms
proof (induction "fEndGet p - fStartGet p" arbitrary: p v)
  case 0
  then show ?case by (subst integer_loop.simps) (simp add: remaining_def parser_ok_def)
next
  case (Suc n)
  then have lt: "fStartGet p < fEndGet p" by simp
  note c = remaining_Cons [OF Suc.prems(1) lt]
  have ob: "fObj p = Some m" using Suc.prems by (simp add: parser_ok_def)
  let ?c = "m ! fStartGet p"
  have step: "integer_loop v p =
      (if is_digit ?c then integer_loop (v * 10 + of_nat (byte ?c - 48)) (advance 1 p) else Some (v, p))"
    using lt c(2) by (subst integer_loop.simps) (simp add: rdp_def ob advanceMark_ok [OF Suc.prems(1) lt])
  have ok1: "parser_ok (advance 1 p) m"
    using Suc.prems(1) by (rule parser_ok_advance) (simp add: c(1))
  with Suc.hyps(1) [of "advance 1 p"] Suc.hyps(2)
  have "integer_loop w (advance 1 p) =
     Some (foldl (\<lambda>a c. a * 10 + of_nat (byte c - 48)) w (takeWhile is_digit (remaining (advance 1 p))),
          advance (length (takeWhile is_digit (remaining (advance 1 p)))) (advance 1 p))" for w by simp
  then show ?case unfolding step by (subst (1 2) c(1)) simp
qed

text \<open>The line terminator at the front of a string: CR LF, CR or LF.\<close>

fun eol_len :: "string \<Rightarrow> nat" where
  "eol_len (c # d # r) = (if c = CHR 0x0D then (if d = CHR 0x0A then 2 else 1) else if c = CHR 0x0A then 1 else 0)"
| "eol_len [c] = (if c = CHR 0x0D \<or> c = CHR 0x0A then 1 else 0)"
| "eol_len [] = 0"

lemma eol_len_le: "eol_len xs \<le> length xs"
  by (cases xs rule: eol_len.cases) auto

lemma eol_step_ok:
  assumes ok: "parser_ok p m"
  shows "eol_step p = Some (0 < eol_len (remaining p), advance (eol_len (remaining p)) p)"
proof (cases "fStartGet p < fEndGet p")
  case False
  with ok show ?thesis by (simp add: eol_step_def remaining_def parser_ok_def)
next
  case lt: True
  note c = remaining_Cons [OF ok lt]
  have ob: "fObj p = Some m" using ok by (simp add: parser_ok_def)
  have ok1: "parser_ok (advance 1 p) m"
    using ok by (rule parser_ok_advance) (simp add: c(1))
  show ?thesis
  proof (cases "fStartGet p + 1 < fEndGet p")
    case lt2: True
    then have lt': "fStartGet (advance 1 p) < fEndGet (advance 1 p)" by simp
    note c2 = remaining_Cons [OF ok1 lt']
    have r: "remaining p = m ! fStartGet p # m ! (fStartGet p + 1) # remaining (advance 1 (advance 1 p))"
      using c(1) c2(1) by simp
    show ?thesis
      using lt lt2 c(2) c2(2) advanceMark_ok [OF ok lt] advanceMark_ok [OF ok1 lt']
      by (auto simp: eol_step_def ob rdp_def r numeral_2_eq_2)
  next
    case False
    with lt have e: "fEndGet p = fStartGet p + 1" by simp
    then have r: "remaining p = [m ! fStartGet p]" using c by (simp add: remaining_def ob)
    show ?thesis using lt e c(2) advanceMark_ok [OF ok lt]
      by (auto simp: eol_step_def ob rdp_def r)
  qed
qed

lemma Expect_ok:
  assumes ok: "parser_ok p m"
  shows "Expect p c = Some (case remaining p of [] \<Rightarrow> (False, p) | d # r \<Rightarrow> if d = c then (True, advance 1 p) else (False, p))"
proof (cases "fStartGet p < fEndGet p")
  case False
  with ok show ?thesis by (simp add: Expect_def remaining_def parser_ok_def)
next
  case lt: True
  note r = remaining_Cons [OF ok lt]
  have "fObj p = Some m" using ok by (simp add: parser_ok_def)
  with lt r(2) show ?thesis unfolding r(1)
    by (simp add: Expect_def ParserIsEmpty_def rdp_def advanceMark_ok [OF ok lt])
qed

text \<open>The short counter.\<close>

lemma short_id: "0 \<le> i \<Longrightarrow> i \<le> 32767 \<Longrightarrow> short i = i"
  by (simp add: short_def)

lemma short_le: "short i \<le> 32767"
proof -
  have "(i + 32768) mod 65536 < 65536" by simp
  then show ?thesis unfolding short_def by linarith
qed

lemma short_loop_ok:
  assumes "parser_ok p m" "i + k \<le> 32767" "k \<le> length (remaining p)"
  shows "short_loop (int i) (int (i + k)) p = Some (advance k p)"
  using assms
proof (induction k arbitrary: i p)
  case 0
  then show ?case by (subst short_loop.simps) simp
next
  case (Suc k)
  have lt: "fStartGet p < fEndGet p" using Suc.prems length_remaining [OF Suc.prems(1)] by simp
  have ok1: "parser_ok (advance 1 p) m" using Suc.prems by (intro parser_ok_advance) auto
  have "short (int i + 1) = int (Suc i)" using Suc.prems by (simp add: short_id)
  moreover have "short_loop (int (Suc i)) (int (Suc i + k)) (advance 1 p) = Some (advance k (advance 1 p))"
    using Suc.prems ok1 by (intro Suc.IH) auto
  ultimately show ?case
    using advanceMark_ok [OF Suc.prems(1) lt] by (subst short_loop.simps) simp
qed

lemma short_loop_overflow:
  assumes "fObj p = Some m" "i \<le> 32767" "32767 < n"
  shows "short_loop i n p = None"
  using assms
proof (induction "Suc (length m) - fStartGet p" arbitrary: i p)
  case 0
  then have "advanceMark p = None" by (simp add: advanceMark_def ParserIsEmpty_def rdp_def)
  then show ?case using 0 by (subst short_loop.simps) simp
next
  case (Suc k)
  show ?case
  proof (cases "advanceMark p")
    case None
    then show ?thesis using Suc by (subst short_loop.simps) simp
  next
    case (Some p')
    then obtain c where "rdp (fObj p) (fStartGet p) = Some c"
      using Suc.prems by (cases "rdp (fObj p) (fStartGet p)") (auto simp: advanceMark_def ParserIsEmpty_def)
    from advanceMark_Some [OF Some this] Suc.hyps(2) Suc.prems
    have "short_loop (short (i + 1)) n p' = None" by (intro Suc.hyps(1)) (auto simp: short_le)
    then show ?thesis using Suc.prems Some by (subst short_loop.simps) simp
  qed
qed

section \<open>Properties\<close>

definition http_line :: "string" where
  "http_line = ''GET /a?b=1 HTTP'' @ [CHR 0x0D, CHR 0x0A] @ ''x''"

definition ex_parser :: StringParser where
  "ex_parser = StringParser_new (Some \<lparr>Ptr = Some (cstring http_line), Len = length http_line\<rparr>)"

lemma ex_parser_ok: "parser_ok ex_parser (cstring http_line)" "remaining ex_parser = http_line"
  by (simp_all add: ex_parser_def StringParser_new_def parser_ok_def guarded_def cstring_def remaining_def)

text \<open>C10: The mask scanners of \<^verbatim>\<open>StringParser\<close> (\<^verbatim>\<open>ConsumeWord\<close>,
  \<^verbatim>\<open>ConsumeWordAndFSlash\<close>, \<^verbatim>\<open>ConsumeWhitespace\<close>,
  \<^verbatim>\<open>ConsumeUntilWhitespace\<close>, \<^verbatim>\<open>ConsumeUntilDigit\<close>) and
  \<^verbatim>\<open>ConsumeUntil\<close> consume exactly the longest prefix of the remaining text
  without a stop character, return that prefix, and read only bytes of the stream and
  the one byte after it; the 256-entry tables stop on exactly the documented
  characters.\<close>

theorem Consume_spec:
  assumes "parser_ok p m"
  shows "consumes (ConsumeWord p) p (length (takeWhile (\<lambda>c. word_char (byte c)) (remaining p))) \<and>
    consumes (ConsumeWordAndFSlash p) p
      (length (takeWhile (\<lambda>c. word_char (byte c) \<or> byte c = 47) (remaining p))) \<and>
    ConsumeWhitespace p = Some (advance (length (takeWhile (\<lambda>c. space_char (byte c)) (remaining p))) p) \<and>
    consumes (ConsumeUntilWhitespace p) p (length (takeWhile (\<lambda>c. \<not> space_char (byte c)) (remaining p))) \<and>
    consumes (ConsumeUntilDigit p) p (length (takeWhile (\<lambda>c. \<not> is_digit c) (remaining p))) \<and>
    consumes (ConsumeUntil p stop) p (length (takeWhile (\<lambda>c. c \<noteq> stop) (remaining p)))"
proof (intro conjI)
  show "consumes (ConsumeWord p) p (length (takeWhile (\<lambda>c. word_char (byte c)) (remaining p)))"
    using ConsumeUntil_mask_ok [OF assms sNonWordMask_eq] by (simp add: ConsumeWord_def)
  show "consumes (ConsumeWordAndFSlash p) p
      (length (takeWhile (\<lambda>c. word_char (byte c) \<or> byte c = 47) (remaining p)))"
    using ConsumeUntil_mask_ok [OF assms sNonWordFSlashMask_eq] by (simp add: ConsumeWordAndFSlash_def)
  show "ConsumeWhitespace p = Some (advance (length (takeWhile (\<lambda>c. space_char (byte c)) (remaining p))) p)"
    using ConsumeUntil_mask_ok [OF assms sNonWhitespaceMask_eq] by (auto simp: ConsumeWhitespace_def consumes_def)
  show "consumes (ConsumeUntilWhitespace p) p (length (takeWhile (\<lambda>c. \<not> space_char (byte c)) (remaining p)))"
    using ConsumeUntil_mask_ok [OF assms sEOLWhitespaceMask_eq] by (simp add: ConsumeUntilWhitespace_def)
  show "consumes (ConsumeUntilDigit p) p (length (takeWhile (\<lambda>c. \<not> is_digit c) (remaining p)))"
    using ConsumeUntil_mask_ok [OF assms sDigitMask_eq] by (simp add: ConsumeUntilDigit_def is_digit_def)
  show "consumes (ConsumeUntil p stop) p (length (takeWhile (\<lambda>c. c \<noteq> stop) (remaining p)))"
    unfolding ConsumeUntil_def by (rule consume_with_ok [OF assms]) simp
qed

theorem Consume_spec_witness:
  "consumes (ConsumeUntil ex_parser (CHR ''?'')) ex_parser 6"
proof -
  have "length (takeWhile (\<lambda>c. c \<noteq> CHR ''?'') http_line) = 6" by (simp add: http_line_def)
  then show ?thesis
    using Consume_spec [OF ex_parser_ok(1), of "CHR ''?''"] unfolding ex_parser_ok(2) by argo
qed

text \<open>C11: \<^verbatim>\<open>GetThru\<close> and \<^verbatim>\<open>GetThruEOL\<close> return the text before the
  stop character, respectively the line, and move past the terminator: exactly one of
  LF, CR or CR LF. They return false exactly when there is no terminator, and then have
  consumed everything.\<close>

theorem GetThru_spec:
  assumes "parser_ok p m"
  shows "(\<exists>out. GetThru p stop = Some (stop \<in> set (remaining p), out,
            advance (length (str out) + (if stop \<in> set (remaining p) then 1 else 0)) p) \<and>
            str out = takeWhile (\<lambda>c. c \<noteq> stop) (remaining p)) \<and>
    (\<exists>out. GetThruEOL p = Some (0 < eol_len (drop (length (str out)) (remaining p)), out,
            advance (length (str out) + eol_len (drop (length (str out)) (remaining p))) p) \<and>
            str out = takeWhile (\<lambda>c. byte c \<noteq> 10 \<and> byte c \<noteq> 13) (remaining p))"
proof
  let ?n = "length (takeWhile (\<lambda>c. c \<noteq> stop) (remaining p))"
  have "consumes (ConsumeUntil p stop) p ?n"
    unfolding ConsumeUntil_def by (rule consume_with_ok [OF assms]) simp
  then obtain out where out: "ConsumeUntil p stop = Some (out, advance ?n p)"
      "str out = takeWhile (\<lambda>c. c \<noteq> stop) (remaining p)" "remaining (advance ?n p) = drop ?n (remaining p)"
    by (auto simp: consumes_def takeWhile_eq_take [symmetric])
  have ok: "parser_ok (advance ?n p) m" by (intro parser_ok_advance assms takeWhile_le)
  have "Expect (advance ?n p) stop
      = Some (stop \<in> set (remaining p), advance (?n + (if stop \<in> set (remaining p) then 1 else 0)) p)"
  proof (cases "stop \<in> set (remaining p)")
    case True
    then obtain ys zs where r: "remaining p = ys @ stop # zs" "stop \<notin> set ys"
      using split_list_first by metis
    then have "takeWhile (\<lambda>c. c \<noteq> stop) (remaining p) = ys" by simp
    then have "drop ?n (remaining p) = stop # zs" using r by simp
    with True show ?thesis by (simp add: Expect_ok [OF ok] out(3))
  next
    case False
    then have "drop ?n (remaining p) = []" by (auto simp: dropWhile_eq_drop [symmetric])
    with False show ?thesis by (simp add: Expect_ok [OF ok] out(3))
  qed
  with out show "\<exists>out. GetThru p stop = Some (stop \<in> set (remaining p), out,
            advance (length (str out) + (if stop \<in> set (remaining p) then 1 else 0)) p) \<and>
            str out = takeWhile (\<lambda>c. c \<noteq> stop) (remaining p)"
    by (simp add: GetThru_def)
next
  let ?n = "length (takeWhile (\<lambda>c. \<not> (byte c = 10 \<or> byte c = 13)) (remaining p))"
  have "consumes (ConsumeUntil_mask p sEOLMask) p ?n"
    by (rule ConsumeUntil_mask_ok [OF assms sEOLMask_eq])
  then obtain out where out: "ConsumeUntil_mask p sEOLMask = Some (out, advance ?n p)"
      "str out = takeWhile (\<lambda>c. \<not> (byte c = 10 \<or> byte c = 13)) (remaining p)"
      "remaining (advance ?n p) = drop ?n (remaining p)"
    by (auto simp: consumes_def takeWhile_eq_take [symmetric])
  have ok: "parser_ok (advance ?n p) m" by (intro parser_ok_advance assms takeWhile_le)
  show "\<exists>out. GetThruEOL p = Some (0 < eol_len (drop (length (str out)) (remaining p)), out,
            advance (length (str out) + eol_len (drop (length (str out)) (remaining p))) p) \<and>
            str out = takeWhile (\<lambda>c. byte c \<noteq> 10 \<and> byte c \<noteq> 13) (remaining p)"
    using out ParserIsEmpty_ok [OF ok] eol_step_ok [OF ok]
    by (intro exI [of _ out]) (simp add: GetThruEOL_def ExpectEOL_def)
qed

theorem GetThru_spec_witness:
  "\<exists>out. GetThru ex_parser (CHR '' '') = Some (True, out, advance 4 ex_parser) \<and> str out = ''GET''"
proof -
  have t: "takeWhile (\<lambda>c. c \<noteq> CHR '' '') http_line = ''GET''" and m: "CHR '' '' \<in> set http_line"
    by (simp_all add: http_line_def)
  from GetThru_spec [OF ex_parser_ok(1), of "CHR '' ''", THEN conjunct1] obtain out where
    "GetThru ex_parser (CHR '' '') = Some (True, out, advance (length (str out) + 1) ex_parser)" "str out = ''GET''"
    unfolding ex_parser_ok(2) t using m by auto
  then show ?thesis by (auto simp: eval_nat_numeral)
qed

lemma ConsumeInteger_ok:
  assumes "parser_ok p m"
  shows "\<exists>v out. ConsumeInteger p = Some (v, out, advance (length (takeWhile is_digit (remaining p))) p) \<and>
    str out = takeWhile is_digit (remaining p) \<and>
    unat v = foldl (\<lambda>a c. a * 10 + (byte c - 48)) 0 (takeWhile is_digit (remaining p)) mod 2 ^ 32"
proof -
  have conv: "foldl (\<lambda>a c. a * 10 + of_nat (byte c - 48)) (of_nat n :: UInt32) ds
      = of_nat (foldl (\<lambda>a c. a * 10 + (byte c - 48)) n ds)" for n ds
  proof (induction ds arbitrary: n)
    case (Cons c ds)
    from Cons.IH [of "n * 10 + (byte c - 48)"] show ?case by simp
  qed simp
  let ?ds = "takeWhile is_digit (remaining p)"
  have "ConsumeInteger p = Some (of_nat (foldl (\<lambda>a c. a * 10 + (byte c - 48)) 0 ?ds),
      since p (advance (length ?ds) p), advance (length ?ds) p)"
    using integer_loop_ok [OF assms, of 0] ParserIsEmpty_ok [OF assms] conv [of 0 ?ds]
    by (simp add: ConsumeInteger_def)
  moreover have "str (since p (advance (length ?ds) p)) = ?ds"
    using since_advance(1) [OF assms takeWhile_le] by (simp add: takeWhile_eq_take [symmetric])
  ultimately show ?thesis by (auto simp: unat_of_nat)
qed

text \<open>\<^verbatim>\<open>ConsumeInteger\<close> consumes the longest prefix of digits and returns
  its decimal value modulo \<open>2 ^ 32\<close> (0 when there is no digit).\<close>

theorem ConsumeInteger_spec:
  assumes "parser_ok p m"
  shows "\<exists>v out. ConsumeInteger p = Some (v, out, advance (length (takeWhile is_digit (remaining p))) p) \<and>
    str out = takeWhile is_digit (remaining p) \<and>
    unat v = foldl (\<lambda>a c. a * 10 + (byte c - 48)) 0 (takeWhile is_digit (remaining p)) mod 2 ^ 32"
  using assms by (rule ConsumeInteger_ok)

theorem ConsumeInteger_spec_witness:
  "\<exists>v out p'. ConsumeInteger (StringParser_new (Some \<lparr>Ptr = Some ''4294967299 x'', Len = 12\<rparr>)) = Some (v, out, p') \<and>
     unat v = 3"
proof -
  let ?p = "StringParser_new (Some \<lparr>Ptr = Some ''4294967299 x'', Len = 12\<rparr>)"
  have ok: "parser_ok ?p ''4294967299 x''" by code_simp
  have ds: "takeWhile is_digit (remaining ?p) = ''4294967299''" by code_simp
  have "foldl (\<lambda>a c. a * 10 + (byte c - 48)) 0 ''4294967299'' mod 2 ^ 32 = (3::nat)" by (simp add: byte_def)
  then show ?thesis using ConsumeInteger_spec [OF ok] unfolding ds by auto
qed

lemma ConsumeLength_ok:
  assumes "parser_ok p m"
  shows "(0 < n \<and> min n (length (remaining p)) \<le> 32767 \<longrightarrow>
            consumes (ConsumeLength p (int n)) p (min n (length (remaining p)))) \<and>
         (32767 < min n (length (remaining p)) \<longrightarrow> ConsumeLength p (int n) = None)"
proof -
  let ?k = "min n (length (remaining p))"
  note len = length_remaining [OF assms]
  have ob: "fObj p = Some m" "fStartGet p \<le> fEndGet p" using assms by (auto simp: parser_ok_def)
  have k: "(if int (fEndGet p) - int (fStartGet p) < int n then int (fEndGet p) - int (fStartGet p) else int n) = int ?k"
    using len ob by (auto simp: min_def)
  have e: "ConsumeLength p (int n) =
      (let spl = \<lparr>Ptr = Some (drop (fStartGet p) m), Len = u32 (nat (int ?k mod 2 ^ 32))\<rparr>
       in if int ?k > 0 then do { p' \<leftarrow> short_loop 0 (int ?k) p; Some (spl, p') } else Some (spl, p))"
    unfolding ConsumeLength_def Let_def k using ob by (simp add: ParserIsEmpty_def)
  show ?thesis
  proof (intro conjI impI)
    assume n: "0 < n \<and> ?k \<le> 32767"
    show "consumes (ConsumeLength p (int n)) p ?k"
    proof (cases "?k = 0")
      case True
      with n have "remaining p = []" by (auto simp: min_def split: if_splits)
      then show ?thesis using True ob assms
        by (auto simp: e consumes_def str_def valid_def)
    next
      case False
      have "short_loop 0 (int ?k) p = Some (advance ?k p)"
        using short_loop_ok [OF assms, of 0 ?k] n by simp
      moreover have "u32 (nat (int ?k mod 2 ^ 32)) = ?k"
      proof -
        have "int ?k mod 2 ^ 32 = int ?k" using n by (intro mod_pos_pos_trivial) auto
        then show ?thesis using n by simp
      qed
      moreover note since_advance [OF assms, of ?k]
      ultimately show ?thesis using False remaining_advance [OF assms, of ?k]
        by (auto simp: e consumes_def since_def ob Let_def)
    qed
  next
    assume "32767 < ?k"
    then have "short_loop 0 (int ?k) p = None" by (intro short_loop_overflow [OF ob(1)]) auto
    moreover from \<open>32767 < ?k\<close> have "0 < int ?k" by linarith
    ultimately show "ConsumeLength p (int n) = None" unfolding e Let_def by (simp only: if_True bind.bind_lzero)
  qed
qed

text \<open>\<^verbatim>\<open>ConsumeLength\<close> consumes \<open>inLength\<close> bytes, or all that remain,
  for lengths up to 32767. A longer length that is available never returns: the loop
  counter is a \<^verbatim>\<open>short\<close>, which wraps before it reaches the bound, so the scanner
  runs off the buffer.\<close>

theorem ConsumeLength_spec:
  assumes "parser_ok p m"
  shows "(0 < n \<and> min n (length (remaining p)) \<le> 32767 \<longrightarrow>
            consumes (ConsumeLength p (int n)) p (min n (length (remaining p)))) \<and>
         (32767 < min n (length (remaining p)) \<longrightarrow> ConsumeLength p (int n) = None)"
  by (rule ConsumeLength_ok [OF assms])

theorem ConsumeLength_spec_witness:
  "consumes (ConsumeLength ex_parser 3) ex_parser 3"
proof -
  have "length http_line = 18" by (simp add: http_line_def)
  then show ?thesis using ConsumeLength_spec [OF ex_parser_ok(1), of 3, THEN conjunct1]
    unfolding ex_parser_ok(2) by simp
qed

text \<open>The line number of a parser is the number of line boundaries before its
  position plus one, counting CR LF once, however the text was consumed.\<close>

theorem line_number_spec:
  assumes "parser_ok (StringParser_new (Some s)) m"
    and "ConsumeUntil (StringParser_new (Some s)) stop = Some (out1, p1)"
    and "ConsumeEOL p1 = Some (out2, p2)" "ConsumeInteger p2 = Some (v, out3, p3)"
  shows "fCurLineNumber p3 = 1 + int (card {i. i < fStartGet p3 \<and> eol_at m i})"
proof -
  let ?p = "StringParser_new (Some s)"
  define n1 where "n1 = length (takeWhile (\<lambda>c. c \<noteq> stop) (remaining ?p))"
  have "consumes (ConsumeUntil ?p stop) ?p n1"
    unfolding ConsumeUntil_def n1_def by (rule consume_with_ok [OF assms(1)]) simp
  then have p1: "p1 = advance n1 ?p" "parser_ok p1 m"
    using assms(1,2) by (auto simp: consumes_def)
  have p2: "p2 = advance (eol_len (remaining p1)) p1" "parser_ok p2 m"
    using assms(3) ParserIsEmpty_ok [OF p1(2)] eol_step_ok [OF p1(2)] parser_ok_advance [OF p1(2) eol_len_le]
    by (auto simp: ConsumeEOL_def)
  have p3: "p3 = advance (length (takeWhile is_digit (remaining p2))) p2"
    using assms(4) ParserIsEmpty_ok [OF p2(2)] integer_loop_ok [OF p2(2), of 0]
    by (auto simp: ConsumeInteger_def)
  obtain n where n: "p3 = advance n ?p" using p1(1) p2(1) p3 by simp
  have m: "fObj ?p = Some m" "fStartGet ?p = 0" "fCurLineNumber ?p = 1"
    using assms(1) by (auto simp: parser_ok_def StringParser_new_def)
  show ?thesis using n m by (simp add: advance_def card_filter_upt)
qed

theorem line_number_spec_witness:
  "fCurLineNumber (snd (the (ConsumeEOL (snd (the (ConsumeUntil ex_parser (CHR 0x0D))))))) = 2"
proof -
  have a: "parser_ok (StringParser_new (Some \<lparr>Ptr = Some (cstring http_line), Len = length http_line\<rparr>)) (cstring http_line)"
    using ex_parser_ok(1) by (simp add: ex_parser_def)
  define p1 where "p1 = snd (the (ConsumeUntil ex_parser (CHR 0x0D)))"
  define p2 where "p2 = snd (the (ConsumeEOL p1))"
  have e1: "ConsumeUntil ex_parser (CHR 0x0D) = Some (since ex_parser p1, p1)" unfolding p1_def by code_simp
  have e2: "ConsumeEOL p1 = Some (since p1 p2, p2)" unfolding p1_def p2_def by code_simp
  have e3: "ConsumeInteger p2 = Some (0, since p2 p2, p2)" unfolding p1_def p2_def by code_simp
  from line_number_spec [OF a e1 [unfolded ex_parser_def] e2 e3]
  have "fCurLineNumber p2 = 1 + int (card {i. i < fStartGet p2 \<and> eol_at (cstring http_line) i})" .
  moreover have "fStartGet p2 = 17" unfolding p1_def p2_def by code_simp
  moreover have "filter (eol_at (cstring http_line)) [0..<17] = [16]" by code_simp
  ultimately show ?thesis unfolding card_filter_upt by (simp add: p1_def p2_def)
qed

section \<open>Rules for the clients of the parser\<close>

text \<open>
  What a caller needs of each operation: it succeeds, its result is a prefix of what
  remains, and the parser is well formed on the rest.
\<close>

lemma consumesE:
  assumes "consumes r p n" "parser_ok p m"
  obtains out p' where "r = Some (out, p')" "parser_ok p' m" "str out = take n (remaining p)"
    "remaining p' = drop n (remaining p)" "valid out" "Len out = n" "fEndGet p' = fEndGet p"
    "fStartGet p' = fStartGet p + n" "n \<le> length (remaining p)"
proof -
  from assms(1) obtain out where o: "r = Some (out, advance n p)" "n \<le> length (remaining p)" "valid out" "Len out = n"
      "str out = take n (remaining p)" "remaining (advance n p) = drop n (remaining p)"
    unfolding consumes_def by blast
  show thesis by (rule that [OF o(1) parser_ok_advance [OF assms(2) o(2)] o(5,6,3,4) _ _ o(2)]) simp_all
qed

lemma take_takeWhile_length [simp]: "take (length (takeWhile P xs)) xs = takeWhile P xs"
  by (metis takeWhile_eq_take)

lemma drop_takeWhile_length [simp]: "drop (length (takeWhile P xs)) xs = dropWhile P xs"
  by (metis dropWhile_eq_drop)

lemma ConsumeUntilE:
  assumes "parser_ok p m"
  obtains out p' where "ConsumeUntil p c = Some (out, p')" "parser_ok p' m" "str out = takeWhile (\<lambda>x. x \<noteq> c) (remaining p)"
    "remaining p' = dropWhile (\<lambda>x. x \<noteq> c) (remaining p)" "valid out" "Len out = length (str out)" "fEndGet p' = fEndGet p"
proof -
  have c: "consumes (ConsumeUntil p c) p (length (takeWhile (\<lambda>x. x \<noteq> c) (remaining p)))"
    unfolding ConsumeUntil_def using consume_with_ok [OF assms, of "\<lambda>x. Some (x = c)" "\<lambda>x. x = c"] by simp
  show ?thesis
  proof (rule consumesE [OF c assms])
    fix out p' assume "ConsumeUntil p c = Some (out, p')" "parser_ok p' m"
      "str out = take (length (takeWhile (\<lambda>x. x \<noteq> c) (remaining p))) (remaining p)"
      "remaining p' = drop (length (takeWhile (\<lambda>x. x \<noteq> c) (remaining p))) (remaining p)"
      "valid out" "Len out = length (takeWhile (\<lambda>x. x \<noteq> c) (remaining p))" "fEndGet p' = fEndGet p"
    then show thesis by (intro that [of out p']) simp_all
  qed
qed

lemma ConsumeUntil_maskE:
  assumes "parser_ok p m" "tbl = mask_of P"
  obtains out p' where "ConsumeUntil_mask p tbl = Some (out, p')" "parser_ok p' m"
    "str out = takeWhile (\<lambda>x. \<not> P (byte x)) (remaining p)"
    "remaining p' = dropWhile (\<lambda>x. \<not> P (byte x)) (remaining p)" "valid out" "Len out = length (str out)" "fEndGet p' = fEndGet p"
proof (rule consumesE [OF ConsumeUntil_mask_ok [OF assms] assms(1)])
  fix out p' assume "ConsumeUntil_mask p tbl = Some (out, p')" "parser_ok p' m"
    "str out = take (length (takeWhile (\<lambda>x. \<not> P (byte x)) (remaining p))) (remaining p)"
    "remaining p' = drop (length (takeWhile (\<lambda>x. \<not> P (byte x)) (remaining p))) (remaining p)"
    "valid out" "Len out = length (takeWhile (\<lambda>x. \<not> P (byte x)) (remaining p))" "fEndGet p' = fEndGet p"
  then show thesis by (intro that [of out p']) simp_all
qed

lemma ConsumeLengthE:
  assumes "parser_ok p m" "0 < n" "n \<le> 32767"
  obtains out p' where "ConsumeLength p (int n) = Some (out, p')" "parser_ok p' m" "str out = take n (remaining p)"
    "remaining p' = drop n (remaining p)" "valid out" "Len out = length (str out)" "fEndGet p' = fEndGet p"
proof -
  let ?k = "min n (length (remaining p))"
  have c: "consumes (ConsumeLength p (int n)) p ?k" using ConsumeLength_ok [OF assms(1), of n] assms by simp
  have "take ?k (remaining p) = take n (remaining p)" "drop ?k (remaining p) = drop n (remaining p)"
    by (auto simp: min_def)
  note e = this
  show ?thesis
  proof (rule consumesE [OF c assms(1)])
    fix out p' assume "ConsumeLength p (int n) = Some (out, p')" "parser_ok p' m" "str out = take ?k (remaining p)"
      "remaining p' = drop ?k (remaining p)" "valid out" "Len out = ?k" "fEndGet p' = fEndGet p"
    then show thesis by (intro that [of out p']) (simp_all add: e min.commute)
  qed
qed

lemma ConsumeLength1E:
  assumes "parser_ok p m"
  obtains out p' where "ConsumeLength p 1 = Some (out, p')" "parser_ok p' m" "str out = take 1 (remaining p)"
    "remaining p' = drop 1 (remaining p)" "valid out" "fEndGet p' = fEndGet p"
proof (rule ConsumeLengthE [OF assms, of 1])
  fix out p' assume "ConsumeLength p (int 1) = Some (out, p')" "parser_ok p' m" "str out = take 1 (remaining p)"
    "remaining p' = drop 1 (remaining p)" "valid out" "fEndGet p' = fEndGet p"
  then show thesis by (intro that [of out p']) simp_all
qed simp_all

lemma ConsumeWhitespaceE:
  assumes "parser_ok p m"
  obtains p' where "ConsumeWhitespace p = Some p'" "parser_ok p' m"
    "remaining p' = dropWhile (\<lambda>x. space_char (byte x)) (remaining p)" "fEndGet p' = fEndGet p"
proof (rule ConsumeUntil_maskE [OF assms sNonWhitespaceMask_eq])
  fix out p' assume "ConsumeUntil_mask p sNonWhitespaceMask = Some (out, p')" "parser_ok p' m"
    "remaining p' = dropWhile (\<lambda>x. \<not> \<not> space_char (byte x)) (remaining p)" "fEndGet p' = fEndGet p"
  then show thesis by (intro that [of p']) (simp_all add: ConsumeWhitespace_def)
qed

lemma ConsumeIntegerE:
  assumes "parser_ok p m"
  obtains v out p' where "ConsumeInteger p = Some (v, out, p')" "parser_ok p' m"
    "remaining p' = dropWhile is_digit (remaining p)" "fEndGet p' = fEndGet p"
    "unat v = foldl (\<lambda>a c. a * 10 + (byte c - 48)) 0 (takeWhile is_digit (remaining p)) mod 2 ^ 32"
proof -
  let ?n = "length (takeWhile is_digit (remaining p))"
  obtain v out where "ConsumeInteger p = Some (v, out, advance ?n p)"
      "unat v = foldl (\<lambda>a c. a * 10 + (byte c - 48)) 0 (takeWhile is_digit (remaining p)) mod 2 ^ 32"
    using ConsumeInteger_ok [OF assms] by blast
  moreover have "parser_ok (advance ?n p) m" using assms takeWhile_le by (rule parser_ok_advance)
  moreover have "remaining (advance ?n p) = dropWhile is_digit (remaining p)"
    unfolding remaining_advance [OF assms takeWhile_le] by (rule dropWhile_eq_drop [symmetric])
  ultimately show thesis using that [of v out "advance ?n p"] by simp
qed

lemma ExpectE:
  assumes "parser_ok p m"
  obtains p' where "Expect p c = Some (remaining p \<noteq> [] \<and> hd (remaining p) = c, p')" "parser_ok p' m"
    "remaining p' = (if remaining p \<noteq> [] \<and> hd (remaining p) = c then tl (remaining p) else remaining p)" "fEndGet p' = fEndGet p"
proof (cases "remaining p")
  case Nil
  with Expect_ok [OF assms, of c] that [of p] assms show ?thesis by simp
next
  case (Cons d r)
  have "parser_ok (advance 1 p) m" "remaining (advance 1 p) = r"
    using parser_ok_advance [OF assms, of 1] remaining_advance [OF assms, of 1] Cons by auto
  with Expect_ok [OF assms, of c] that [of "advance 1 p"] that [of p] assms Cons show ?thesis
    by (cases "d = c") simp_all
qed

lemma eol_stepE:
  assumes "parser_ok p m"
  obtains p' where "eol_step p = Some (0 < eol_len (remaining p), p')" "parser_ok p' m"
    "remaining p' = drop (eol_len (remaining p)) (remaining p)" "fEndGet p' = fEndGet p"
  using eol_step_ok [OF assms] parser_ok_advance [OF assms eol_len_le] remaining_advance [OF assms eol_len_le] that
  by (metis advance_sel(2))

lemma ExpectEOLE:
  assumes "parser_ok p m"
  obtains p' where "ExpectEOL p = Some (0 < eol_len (remaining p), p')" "parser_ok p' m"
    "remaining p' = drop (eol_len (remaining p)) (remaining p)" "fEndGet p' = fEndGet p"
  using eol_stepE [OF assms] that ParserIsEmpty_ok [OF assms] unfolding ExpectEOL_def by metis

lemma GetThruE:
  assumes "parser_ok p m"
  obtains out p' where "GetThru p c = Some (c \<in> set (remaining p), out, p')" "parser_ok p' m"
    "str out = takeWhile (\<lambda>x. x \<noteq> c) (remaining p)" "remaining p' = tl (dropWhile (\<lambda>x. x \<noteq> c) (remaining p))"
    "valid out" "fEndGet p' = fEndGet p" "Ptr out \<noteq> None"
proof -
  obtain out p1 where 1: "ConsumeUntil p c = Some (out, p1)" "parser_ok p1 m" "str out = takeWhile (\<lambda>x. x \<noteq> c) (remaining p)"
      "remaining p1 = dropWhile (\<lambda>x. x \<noteq> c) (remaining p)" "valid out" "fEndGet p1 = fEndGet p"
    using ConsumeUntilE [OF assms] by metis
  obtain p2 where 2: "Expect p1 c = Some (remaining p1 \<noteq> [] \<and> hd (remaining p1) = c, p2)" "parser_ok p2 m"
      "remaining p2 = (if remaining p1 \<noteq> [] \<and> hd (remaining p1) = c then tl (remaining p1) else remaining p1)" "fEndGet p2 = fEndGet p1"
    using ExpectE [OF 1(2)] by metis
  have h: "remaining p1 \<noteq> [] \<and> hd (remaining p1) = c \<longleftrightarrow> c \<in> set (remaining p)"
    using hd_dropWhile [of "\<lambda>x. x \<noteq> c" "remaining p"] by (auto simp: 1(4) dropWhile_eq_Nil_conv)
  have "c \<notin> set (remaining p) \<Longrightarrow> remaining p1 = []" by (auto simp: 1(4) dropWhile_eq_Nil_conv)
  then have "remaining p2 = tl (remaining p1)" using 2(3) h by (cases "c \<in> set (remaining p)") simp_all
  moreover have "Ptr out \<noteq> None"
    using 1(1) ParserIsEmpty_ok [OF assms] assms
    by (auto simp: ConsumeUntil_def consume_with_def since_def bind_eq_Some_conv parser_ok_def)
  ultimately show thesis using that [of out p2] 1 2 h by (simp add: GetThru_def)
qed

lemma GetThruEOLE:
  assumes "parser_ok p m"
  obtains out p' where
    "GetThruEOL p = Some (0 < eol_len (dropWhile (\<lambda>x. byte x \<noteq> 10 \<and> byte x \<noteq> 13) (remaining p)), out, p')"
    "parser_ok p' m" "str out = takeWhile (\<lambda>x. byte x \<noteq> 10 \<and> byte x \<noteq> 13) (remaining p)"
    "remaining p' = (let r = dropWhile (\<lambda>x. byte x \<noteq> 10 \<and> byte x \<noteq> 13) (remaining p) in drop (eol_len r) r)"
    "valid out" "fEndGet p' = fEndGet p" "Ptr out = Some (drop (fStartGet p) m)"
proof -
  let ?P = "\<lambda>x. \<not> (byte x = 10 \<or> byte x = 13)"
  have e: "(\<lambda>x. byte x \<noteq> 10 \<and> byte x \<noteq> 13) = ?P" by auto
  obtain out p1 where 1: "ConsumeUntil_mask p sEOLMask = Some (out, p1)" "parser_ok p1 m" "str out = takeWhile ?P (remaining p)"
      "remaining p1 = dropWhile ?P (remaining p)" "valid out" "Len out = length (str out)" "fEndGet p1 = fEndGet p"
    by (rule ConsumeUntil_maskE [OF assms sEOLMask_eq])
  obtain p2 where 2: "ExpectEOL p1 = Some (0 < eol_len (remaining p1), p2)" "parser_ok p2 m"
      "remaining p2 = drop (eol_len (remaining p1)) (remaining p1)" "fEndGet p2 = fEndGet p1"
    using ExpectEOLE [OF 1(2)] by metis
  have "Ptr out = Some (drop (fStartGet p) m)"
    using 1(1) ParserIsEmpty_ok [OF assms] assms
    by (auto simp: ConsumeUntil_mask_def consume_with_def since_def bind_eq_Some_conv parser_ok_def)
  then show thesis using that [of out p2] 1 2 unfolding e by (simp add: GetThruEOL_def Let_def)
qed

lemma PeekFast_ok:
  assumes "parser_ok p m" "remaining p = c # r"
  shows "PeekFast p = Some c"
proof -
  have lt: "fStartGet p < fEndGet p" using assms length_remaining [OF assms(1)] by auto
  from remaining_Cons [OF assms(1) lt] assms show ?thesis by (simp add: PeekFast_def parser_ok_def)
qed

lemma GetDataRemaining_ok: "parser_ok p m \<Longrightarrow> GetDataRemaining p = length (remaining p)"
  by (simp add: GetDataRemaining_def length_remaining)

text \<open>A parser over a counted string that has a readable byte behind it.\<close>

definition stream_ok :: "StrPtrLen \<Rightarrow> mem \<Rightarrow> bool" where
  "stream_ok s m \<longleftrightarrow> Ptr s = Some m \<and> Len s < length m"

text \<open>The value of a field: absent, or text with a readable byte behind it.\<close>

definition field_ok :: "StrPtrLen \<Rightarrow> bool" where
  "field_ok x \<longleftrightarrow> x = StrPtrLen_null \<or> (\<exists>m. stream_ok x m)"

lemma field_ok_null [simp]: "field_ok StrPtrLen_null"
  by (simp add: field_ok_def)

lemma StringParser_new_ok:
  assumes "stream_ok s m"
  shows "parser_ok (StringParser_new (Some s)) m" "remaining (StringParser_new (Some s)) = str s"
    "fEndGet (StringParser_new (Some s)) = Len s"
  using assms by (auto simp: stream_ok_def StringParser_new_def parser_ok_def guarded_def remaining_def str_def)

end
