(* ===== verification/CF_UserAgentParser.thy ===== *)
theory CF_UserAgentParser
  imports CF_StringParser
begin

text \<open>
  The parser of the \<^verbatim>\<open>User-Agent\<close> header,
  \<^verbatim>\<open>src/CFHttp/UserAgentParser.cpp\<close> and its header: a client of the scanner of
  theory \<^verbatim>\<open>CF_StringParser\<close> that collects six named fields from the
  parenthesised comment and splits the version off the operating-system field.
\<close>

section \<open>Data\<close>

record UserAgentFields =
  fFieldName :: mem
  fLen :: nat
  fID :: nat

record UserAgentData =
  fData :: StrPtrLen
  fFound :: bool

definition eQtid :: nat where "eQtid = 0"
definition eQtver :: nat where "eQtver = 1"
definition eLang :: nat where "eLang = 2"
definition eOs :: nat where "eOs = 3"
definition eOsver :: nat where "eOsver = 4"
definition eCpu :: nat where "eCpu = 5"
definition eNumAttributes :: nat where "eNumAttributes = 6"

definition eMaxAttributeSize :: nat where "eMaxAttributeSize = 60"

definition UserAgentFields_init :: "string \<Rightarrow> nat \<Rightarrow> UserAgentFields" where
  "UserAgentFields_init n i =
     \<lparr>fFieldName = n @ replicate (eMaxAttributeSize + 1 - length n) NUL, fLen = length n, fID = i\<rparr>"

definition sFieldIDs :: "UserAgentFields list" where
  "sFieldIDs =
     [UserAgentFields_init ''qtid'' eQtid, UserAgentFields_init ''qtver'' eQtver,
      UserAgentFields_init ''lang'' eLang, UserAgentFields_init ''Core'' eOs,
      UserAgentFields_init ''osver'' eOsver, UserAgentFields_init ''cpu'' eCpu]"

definition sEOLWhitespaceEqualMask :: "nat list" where
  "sEOLWhitespaceEqualMask =
     [0, 0, 0, 0, 0, 0, 0, 0, 0, 1, 1, 0, 0, 1, 0, 0, 0, 0, 0, 0, 0, 0, 0, 0, 0, 0, 0, 0, 0, 0,
      0, 0, 1, 0, 0, 0, 0, 0, 0, 0, 0, 0, 0, 0, 0, 0, 0, 0, 0, 0, 0, 0, 0, 0, 0, 0, 0, 0, 0, 0,
      0, 1, 0, 0, 0, 0, 0, 0, 0, 0, 0, 0, 0, 0, 0, 0, 0, 0, 0, 0, 0, 0, 0, 0, 0, 0, 0, 0, 0, 0,
      0, 0, 0, 0, 0, 0, 0, 0, 0, 0, 0, 0, 0, 0, 0, 0, 0, 0, 0, 0, 0, 0, 0, 0, 0, 0, 0, 0, 0, 0,
      0, 0, 0, 0, 0, 0, 0, 0, 0, 0, 0, 0, 0, 0, 0, 0, 0, 0, 0, 0, 0, 0, 0, 0, 0, 0, 0, 0, 0, 0,
      0, 0, 0, 0, 0, 0, 0, 0, 0, 0, 0, 0, 0, 0, 0, 0, 0, 0, 0, 0, 0, 0, 0, 0, 0, 0, 0, 0, 0, 0,
      0, 0, 0, 0, 0, 0, 0, 0, 0, 0, 0, 0, 0, 0, 0, 0, 0, 0, 0, 0, 0, 0, 0, 0, 0, 0, 0, 0, 0, 0,
      0, 0, 0, 0, 0, 0, 0, 0, 0, 0, 0, 0, 0, 0, 0, 0, 0, 0, 0, 0, 0, 0, 0, 0, 0, 0, 0, 0, 0, 0,
      0, 0, 0, 0, 0, 0, 0, 0, 0, 0, 0, 0, 0, 0, 0, 0]"

definition sEOLSemicolonCloseParenMask :: "nat list" where
  "sEOLSemicolonCloseParenMask =
     [0, 0, 0, 0, 0, 0, 0, 0, 0, 1, 1, 0, 0, 1, 0, 0, 0, 0, 0, 0, 0, 0, 0, 0, 0, 0, 0, 0, 0, 0,
      0, 0, 0, 0, 0, 0, 0, 0, 0, 0, 0, 1, 0, 0, 0, 0, 0, 0, 0, 0, 0, 0, 0, 0, 0, 0, 0, 0, 0, 1,
      0, 0, 0, 0, 0, 0, 0, 0, 0, 0, 0, 0, 0, 0, 0, 0, 0, 0, 0, 0, 0, 0, 0, 0, 0, 0, 0, 0, 0, 0,
      0, 0, 0, 0, 0, 0, 0, 0, 0, 0, 0, 0, 0, 0, 0, 0, 0, 0, 0, 0, 0, 0, 0, 0, 0, 0, 0, 0, 0, 0,
      0, 0, 0, 0, 0, 0, 0, 0, 0, 0, 0, 0, 0, 0, 0, 0, 0, 0, 0, 0, 0, 0, 0, 0, 0, 0, 0, 0, 0, 0,
      0, 0, 0, 0, 0, 0, 0, 0, 0, 0, 0, 0, 0, 0, 0, 0, 0, 0, 0, 0, 0, 0, 0, 0, 0, 0, 0, 0, 0, 0,
      0, 0, 0, 0, 0, 0, 0, 0, 0, 0, 0, 0, 0, 0, 0, 0, 0, 0, 0, 0, 0, 0, 0, 0, 0, 0, 0, 0, 0, 0,
      0, 0, 0, 0, 0, 0, 0, 0, 0, 0, 0, 0, 0, 0, 0, 0, 0, 0, 0, 0, 0, 0, 0, 0, 0, 0, 0, 0, 0, 0,
      0, 0, 0, 0, 0, 0, 0, 0, 0, 0, 0, 0, 0, 0, 0, 0]"

section \<open>Operations\<close>

text \<open>The inner loop over the known fields: the first occurrence of a field is kept.\<close>

fun match_fields ::
  "UserAgentFields list \<Rightarrow> StrPtrLen \<Rightarrow> StrPtrLen \<Rightarrow> UserAgentData list \<Rightarrow> UserAgentData list option" where
  "match_fields [] tempID tempData fd = Some fd"
| "match_fields (f # fs) tempID tempData fd =
     do {
       hit \<leftarrow> (if fFound (fd ! fID f) then Some False
              else Equal \<lparr>Ptr = Some (fFieldName f), Len = fLen f\<rparr> tempID);
       match_fields fs tempID tempData
         (if hit then fd[fID f := \<lparr>fData = tempData, fFound = True\<rparr>] else fd)
     }"

partial_function (option) fields_loop :: "StringParser \<Rightarrow> UserAgentData list \<Rightarrow> UserAgentData list option" where
  "fields_loop parser fd =
     do {
       (_, p1) \<leftarrow> ConsumeLength parser 1;
       p2 \<leftarrow> ConsumeWhitespace p1;
       (tempID, p3) \<leftarrow> ConsumeUntil_mask p2 sEOLWhitespaceEqualMask;
       if Len tempID = 0 then Some fd
       else do {
         (_, p4) \<leftarrow> ConsumeUntil p3 (CHR ''='');
         (_, p5) \<leftarrow> ConsumeLength p4 1;
         (tempData, p6) \<leftarrow> ConsumeUntil_mask p5 sEOLSemicolonCloseParenMask;
         if Len tempData = 0 then Some fd
         else do {
           fd' \<leftarrow> match_fields sFieldIDs tempID tempData fd;
           fields_loop p6 fd'
         }
       }
     }"

declare fields_loop.simps [code]

text \<open>
  The search for the encoded blank: \<open>Some None\<close> is the early return, the outer
  \<open>None\<close> a read outside the object. The length is a \<^verbatim>\<open>UInt16\<close>.
\<close>

fun skip_to_blank :: "mem \<Rightarrow> UInt16 \<Rightarrow> (mem \<times> UInt16) option option" where
  "skip_to_blank [] len = None"
| "skip_to_blank (c # cp) len =
     (if c = CHR ''%'' then Some (Some (c # cp, len))
      else if c = NUL \<or> len - 1 = 0 then Some None
      else skip_to_blank cp (len - 1))"

definition split_version :: "UserAgentData list \<Rightarrow> UserAgentData list option" where
  "split_version fd =
     (if fFound (fd ! eOs) \<and> \<not> fFound (fd ! eOsver) then
        do {
          m \<leftarrow> Ptr (fData (fd ! eOs));
          r \<leftarrow> skip_to_blank m (of_nat (Len (fData (fd ! eOs))));
          case r of
            None \<Rightarrow> Some fd
          | Some (cp, len) \<Rightarrow>
              (let len1 = len - 3;
                   os = fData (fd ! eOs);
                   os1 = os\<lparr>Len := nat ((int (Len os) - (int (unat len1) + 3)) mod 2 ^ 32)\<rparr>
               in Some (fd[eOsver := \<lparr>fData = \<lparr>Ptr = Some (drop 3 cp), Len = unat len1\<rparr>, fFound = True\<rparr>,
                           eOs := (fd ! eOs)\<lparr>fData := os1\<rparr>]))
        }
      else Some fd)"

text \<open>\<^verbatim>\<open>memset\<close> clears every field.\<close>

definition UserAgentParser_Parse :: "StrPtrLen \<Rightarrow> UserAgentData list option" where
  "UserAgentParser_Parse inStream =
     (let fd = replicate eNumAttributes \<lparr>fData = StrPtrLen_null, fFound = False\<rparr>
      in do {
        (startFields, p) \<leftarrow> ConsumeUntil (StringParser_new (Some inStream)) (CHR ''('');
        fd' \<leftarrow> (if Len startFields \<noteq> 0 then fields_loop p fd else Some fd);
        split_version fd'
      })"

definition GetUserID :: "UserAgentData list \<Rightarrow> StrPtrLen" where "GetUserID fd = fData (fd ! eQtid)"
definition GetUserVersion :: "UserAgentData list \<Rightarrow> StrPtrLen" where "GetUserVersion fd = fData (fd ! eQtver)"
definition GetUserLanguage :: "UserAgentData list \<Rightarrow> StrPtrLen" where "GetUserLanguage fd = fData (fd ! eLang)"
definition GetrUserOS :: "UserAgentData list \<Rightarrow> StrPtrLen" where "GetrUserOS fd = fData (fd ! eOs)"
definition GetUserOSVersion :: "UserAgentData list \<Rightarrow> StrPtrLen" where "GetUserOSVersion fd = fData (fd ! eOsver)"
definition GetUserCPU :: "UserAgentData list \<Rightarrow> StrPtrLen" where "GetUserCPU fd = fData (fd ! eCpu)"

section \<open>Specification\<close>

definition id_stop :: "char \<Rightarrow> bool" where
  "id_stop c \<longleftrightarrow> byte c \<in> {9, 10, 13, 32, 61}"

definition value_stop :: "char \<Rightarrow> bool" where
  "value_stop c \<longleftrightarrow> byte c \<in> {9, 10, 13, 41, 59}"

text \<open>The name/value pairs of a comment, from its opening parenthesis on.\<close>

function ua_scan :: "string \<Rightarrow> (string \<times> string) list" where
  "ua_scan r =
     (let a = dropWhile (\<lambda>x. space_char (byte x)) (drop 1 r);
          name = takeWhile (\<lambda>x. \<not> id_stop x) a;
          b = drop 1 (dropWhile (\<lambda>x. x \<noteq> CHR ''='') (dropWhile (\<lambda>x. \<not> id_stop x) a));
          v = takeWhile (\<lambda>x. \<not> value_stop x) b
      in if name = [] \<or> v = [] then [] else (name, v) # ua_scan (dropWhile (\<lambda>x. \<not> value_stop x) b))"
  by pat_completeness auto
termination
proof (relation "measure length", simp, clarsimp)
  fix r :: string
  let ?a = "dropWhile (\<lambda>x. space_char (byte x)) (drop 1 r)"
  let ?c = "dropWhile (\<lambda>x. x \<noteq> CHR ''='') (dropWhile (\<lambda>x. \<not> id_stop x) ?a)"
  assume v: "takeWhile (\<lambda>x. \<not> value_stop x) (drop (Suc 0) (dropWhile (\<lambda>x. x \<noteq> CHR ''='')
      (dropWhile (\<lambda>x. \<not> id_stop x) (dropWhile (\<lambda>x. space_char (byte x)) (drop (Suc 0) r))))) \<noteq> []"
  then have "drop 1 ?c \<noteq> []" by (metis One_nat_def takeWhile.simps(1))
  then have "length (drop 1 ?c) < length ?c" by auto
  moreover have "length ?c \<le> length r"
    using length_dropWhile_le by (metis le_trans diff_le_self length_drop)
  moreover have "length (dropWhile (\<lambda>x. \<not> value_stop x) (drop 1 ?c)) \<le> length (drop 1 ?c)"
    by (rule length_dropWhile_le)
  ultimately show "length (dropWhile (\<lambda>x. \<not> value_stop x) (drop (Suc 0) (dropWhile (\<lambda>x. x \<noteq> CHR ''='')
      (dropWhile (\<lambda>x. \<not> id_stop x) (dropWhile (\<lambda>x. space_char (byte x)) (drop (Suc 0) r)))))) < length r"
    by simp
qed

declare ua_scan.simps [simp del]

definition ua_name :: "nat \<Rightarrow> string" where
  "ua_name i = [''qtid'', ''qtver'', ''lang'', ''Core'', ''osver'', ''cpu''] ! i"

definition ua_pairs :: "string \<Rightarrow> (string \<times> string) list" where
  "ua_pairs t = (if t = [] \<or> hd t = CHR ''('' then [] else ua_scan (dropWhile (\<lambda>x. x \<noteq> CHR ''('') t))"

text \<open>The value of a field: its first occurrence, with the version split off the system.\<close>

definition blank_split :: "string \<Rightarrow> (string \<times> string) option" where
  "blank_split v =
     (if CHR ''%'' \<in> set v
      then Some (takeWhile (\<lambda>c. c \<noteq> CHR ''%'') v, drop 3 (dropWhile (\<lambda>c. c \<noteq> CHR ''%'') v)) else None)"

definition ua_field :: "string \<Rightarrow> nat \<Rightarrow> string option" where
  "ua_field t i =
     (let f = (\<lambda>i. map_of (ua_pairs t) (ua_name i))
      in case (f eOs, f eOsver) of
           (Some v, None) \<Rightarrow>
             (case blank_split v of
                None \<Rightarrow> f i
              | Some (os, ver) \<Rightarrow> if i = eOs then Some os else if i = eOsver then Some ver else f i)
         | _ \<Rightarrow> f i)"

definition field_of :: "UserAgentData list \<Rightarrow> nat \<Rightarrow> string option" where
  "field_of fd i = (if fFound (fd ! i) then Some (str (fData (fd ! i))) else None)"

section \<open>The field loop\<close>

lemma sEOLWhitespaceEqualMask_eq: "sEOLWhitespaceEqualMask = mask_of (\<lambda>i. i \<in> {9, 10, 13, 32, 61})"
  by code_simp

lemma sEOLSemicolonCloseParenMask_eq: "sEOLSemicolonCloseParenMask = mask_of (\<lambda>i. i \<in> {9, 10, 13, 41, 59})"
  by code_simp

definition fields_ok :: "UserAgentData list \<Rightarrow> (string \<times> string) list \<Rightarrow> bool" where
  "fields_ok fd ps \<longleftrightarrow> length fd = 6 \<and>
     (\<forall>i<6. field_of fd i = map_of ps (ua_name i) \<and>
            (fFound (fd ! i) \<longrightarrow> valid (fData (fd ! i)) \<and> Ptr (fData (fd ! i)) \<noteq> None \<and> Len (fData (fd ! i)) \<noteq> 0))"

definition put :: "StrPtrLen \<Rightarrow> StrPtrLen \<Rightarrow> nat \<Rightarrow> UserAgentData list \<Rightarrow> UserAgentData list" where
  "put n v i fd = (if \<not> fFound (fd ! i) \<and> str n = ua_name i then fd[i := \<lparr>fData = v, fFound = True\<rparr>] else fd)"

lemma match_step:
  assumes "valid n" "Ptr n \<noteq> None" "ua_name i = s" "length s < 61"
  shows "match_fields (UserAgentFields_init s i # fs) n v fd = match_fields fs n v (put n v i fd)"
proof -
  have "Equal \<lparr>Ptr = Some (fFieldName (UserAgentFields_init s i)), Len = fLen (UserAgentFields_init s i)\<rparr> n = Some (s = str n)"
  proof -
    let ?f = "\<lparr>Ptr = Some (fFieldName (UserAgentFields_init s i)), Len = fLen (UserAgentFields_init s i)\<rparr>"
    have "valid ?f" "str ?f = s"
      by (simp_all add: valid_def str_def UserAgentFields_init_def eMaxAttributeSize_def)
    with Equal_valid [of ?f n] assms show ?thesis by simp
  qed
  moreover have "fID (UserAgentFields_init s i) = i" by (simp add: UserAgentFields_init_def)
  ultimately show ?thesis using assms(3) by (auto simp: put_def)
qed

lemma put_nth: "i < length fd \<Longrightarrow> put n v i fd ! j =
   (if i = j \<and> \<not> fFound (fd ! j) \<and> str n = ua_name j then \<lparr>fData = v, fFound = True\<rparr> else fd ! j)"
  by (auto simp: put_def nth_list_update)

lemma length_put [simp]: "length (put n v i fd) = length fd"
  by (simp add: put_def)

lemma match_fields_map:
  assumes "valid n" "Ptr n \<noteq> None" "\<forall>i\<in>set is. i < length fd \<and> length (ua_name i) < 61" "distinct is"
  shows "\<exists>fd'. match_fields (map (\<lambda>i. UserAgentFields_init (ua_name i) i) is) n v fd = Some fd' \<and> length fd' = length fd \<and>
    (\<forall>j. fd' ! j = (if j \<in> set is \<and> \<not> fFound (fd ! j) \<and> str n = ua_name j then \<lparr>fData = v, fFound = True\<rparr> else fd ! j))"
  using assms(3,4)
proof (induction "is" arbitrary: fd)
  case (Cons i js)
  have "match_fields (map (\<lambda>i. UserAgentFields_init (ua_name i) i) (i # js)) n v fd =
      match_fields (map (\<lambda>i. UserAgentFields_init (ua_name i) i) js) n v (put n v i fd)"
    using Cons.prems match_step [OF assms(1,2) refl, of i] by simp
  moreover obtain fd' where "match_fields (map (\<lambda>i. UserAgentFields_init (ua_name i) i) js) n v (put n v i fd) = Some fd'"
    "length fd' = length (put n v i fd)"
    "\<forall>j. fd' ! j = (if j \<in> set js \<and> \<not> fFound (put n v i fd ! j) \<and> str n = ua_name j then \<lparr>fData = v, fFound = True\<rparr> else put n v i fd ! j)"
    using Cons.IH [of "put n v i fd"] Cons.prems by auto
  moreover have "i < length fd" "i \<notin> set js" using Cons.prems by auto
  ultimately show ?case by (auto simp: put_nth)
qed simp

lemma sFieldIDs_eq: "sFieldIDs = map (\<lambda>i. UserAgentFields_init (ua_name i) i) [0, 1, 2, 3, 4, 5]"
  by (simp add: sFieldIDs_def ua_name_def eQtid_def eQtver_def eLang_def eOs_def eOsver_def eCpu_def)

lemma match_fields_all:
  assumes "valid n" "Ptr n \<noteq> None" "length fd = 6"
  obtains fd' where "match_fields sFieldIDs n v fd = Some fd'" "length fd' = 6"
    "\<And>j. j < 6 \<Longrightarrow> fd' ! j = (if \<not> fFound (fd ! j) \<and> str n = ua_name j then \<lparr>fData = v, fFound = True\<rparr> else fd ! j)"
proof -
  let ?is = "[0, 1, 2, 3, 4, 5::nat]"
  have "\<forall>i\<in>set ?is. i < length fd \<and> length (ua_name i) < 61" using assms(3) by (simp add: ua_name_def)
  from match_fields_map [OF assms(1,2) this] obtain fd' where fd': "match_fields sFieldIDs n v fd = Some fd'" "length fd' = length fd"
    "\<forall>j. fd' ! j = (if j \<in> set ?is \<and> \<not> fFound (fd ! j) \<and> str n = ua_name j then \<lparr>fData = v, fFound = True\<rparr> else fd ! j)"
    unfolding sFieldIDs_eq by auto
  have "j \<in> set ?is" if "j < 6" for j using that by auto
  with fd' assms(3) show thesis by (intro that [of fd']) auto
qed

lemma fields_ok_add:
  assumes ok: "fields_ok fd ps" and n: "valid n" "Ptr n \<noteq> None" and v: "valid v" "Ptr v \<noteq> None" "Len v \<noteq> 0"
  shows "\<exists>fd'. match_fields sFieldIDs n v fd = Some fd' \<and> fields_ok fd' (ps @ [(str n, str v)])"
proof -
  have l: "length fd = 6" using ok by (simp add: fields_ok_def)
  obtain fd' where fd': "match_fields sFieldIDs n v fd = Some fd'" "length fd' = 6"
    "\<And>j. j < 6 \<Longrightarrow> fd' ! j = (if \<not> fFound (fd ! j) \<and> str n = ua_name j then \<lparr>fData = v, fFound = True\<rparr> else fd ! j)"
    using match_fields_all [OF n l] by metis
  have "field_of fd' i = map_of (ps @ [(str n, str v)]) (ua_name i) \<and>
     (fFound (fd' ! i) \<longrightarrow> valid (fData (fd' ! i)) \<and> Ptr (fData (fd' ! i)) \<noteq> None \<and> Len (fData (fd' ! i)) \<noteq> 0)"
    if i: "i < 6" for i
  proof -
    have f: "field_of fd i = map_of ps (ua_name i)"
        "fFound (fd ! i) \<longrightarrow> valid (fData (fd ! i)) \<and> Ptr (fData (fd ! i)) \<noteq> None \<and> Len (fData (fd ! i)) \<noteq> 0"
      using ok i by (auto simp: fields_ok_def)
    show ?thesis
    proof (cases "fFound (fd ! i)")
      case True
      then have "fd' ! i = fd ! i" "map_of ps (ua_name i) = Some (str (fData (fd ! i)))"
        using f(1) fd'(3) [OF i] by (auto simp: field_of_def)
      then show ?thesis using True f by (simp add: field_of_def map_add_def)
    next
      case False
      then have "map_of ps (ua_name i) = None" using f(1) by (simp add: field_of_def)
      then show ?thesis using False v fd'(3) [OF i] by (simp add: field_of_def map_add_def)
    qed
  qed
  then show ?thesis using fd' by (simp add: fields_ok_def)
qed

lemma fields_loop_ok:
  assumes "parser_ok p m" "fields_ok fd ps"
  shows "\<exists>fd'. fields_loop p fd = Some fd' \<and> fields_ok fd' (ps @ ua_scan (remaining p))"
  using assms
proof (induction "length (remaining p)" arbitrary: p fd ps rule: less_induct)
  case less
  note ok = less.prems(1)
  obtain o1 p1 where 1: "ConsumeLength p 1 = Some (o1, p1)" "parser_ok p1 m" "remaining p1 = drop 1 (remaining p)"
    using ConsumeLength1E [OF ok] by metis
  obtain p2 where 2: "ConsumeWhitespace p1 = Some p2" "parser_ok p2 m"
      "remaining p2 = dropWhile (\<lambda>x. space_char (byte x)) (remaining p1)"
    using ConsumeWhitespaceE [OF 1(2)] by metis
  obtain n p3 where 3: "ConsumeUntil_mask p2 sEOLWhitespaceEqualMask = Some (n, p3)" "parser_ok p3 m"
      "str n = takeWhile (\<lambda>x. \<not> id_stop x) (remaining p2)" "remaining p3 = dropWhile (\<lambda>x. \<not> id_stop x) (remaining p2)"
      "valid n" "Len n = length (str n)"
    using ConsumeUntil_maskE [OF 2(2) sEOLWhitespaceEqualMask_eq] unfolding id_stop_def by metis
  obtain o4 p4 where 4: "ConsumeUntil p3 (CHR ''='') = Some (o4, p4)" "parser_ok p4 m"
      "remaining p4 = dropWhile (\<lambda>x. x \<noteq> CHR ''='') (remaining p3)"
    using ConsumeUntilE [OF 3(2)] by metis
  obtain o5 p5 where 5: "ConsumeLength p4 1 = Some (o5, p5)" "parser_ok p5 m" "remaining p5 = drop 1 (remaining p4)"
    using ConsumeLength1E [OF 4(2)] by metis
  obtain v p6 where 6: "ConsumeUntil_mask p5 sEOLSemicolonCloseParenMask = Some (v, p6)" "parser_ok p6 m"
      "str v = takeWhile (\<lambda>x. \<not> value_stop x) (remaining p5)" "remaining p6 = dropWhile (\<lambda>x. \<not> value_stop x) (remaining p5)"
      "valid v" "Len v = length (str v)"
    using ConsumeUntil_maskE [OF 5(2) sEOLSemicolonCloseParenMask_eq] unfolding value_stop_def by metis
  have scan: "ua_scan (remaining p) = (if str n = [] \<or> str v = [] then [] else (str n, str v) # ua_scan (remaining p6))"
    by (subst ua_scan.simps) (simp add: Let_def 3 6 5 4 2 1 del: One_nat_def)
  have step: "fields_loop p fd =
      (if str n = [] \<or> str v = [] then Some fd
       else do { fd' \<leftarrow> match_fields sFieldIDs n v fd; fields_loop p6 fd' })"
    by (subst fields_loop.simps) (auto simp: 1(1) 2(1) 3(1,6) 4(1) 5(1) 6(1,6))
  show ?case
  proof (cases "str n = [] \<or> str v = []")
    case True
    then show ?thesis using step scan less.prems by auto
  next
    case False
    then have nn: "Ptr n \<noteq> None" "Ptr v \<noteq> None" by (auto simp: str_def split: option.splits)
    obtain fd' where fd': "match_fields sFieldIDs n v fd = Some fd'" "fields_ok fd' (ps @ [(str n, str v)])"
      using fields_ok_add [OF less.prems(2) 3(5) nn(1) 6(5) nn(2)] 6(6) False by auto
    have "length (remaining p6) < length (remaining p)"
    proof -
      have "remaining p5 \<noteq> []" using False 6(3) by auto
      then have "length (remaining p5) < length (remaining p4)" using 5(3) by auto
      moreover have "length (remaining p6) \<le> length (remaining p5)" "length (remaining p4) \<le> length (remaining p3)"
        "length (remaining p3) \<le> length (remaining p2)" "length (remaining p2) \<le> length (remaining p1)"
        unfolding 6(4) 4(3) 3(4) 2(3) by (rule length_dropWhile_le)+
      moreover have "length (remaining p1) \<le> length (remaining p)" using 1(3) by simp
      ultimately show ?thesis by linarith
    qed
    from less.hyps [OF this 6(2) fd'(2)] show ?thesis using False by (simp add: step scan fd'(1))
  qed
qed


section \<open>The version\<close>

lemma skip_to_blank_ok:
  assumes "valid \<lparr>Ptr = Some m, Len = n\<rparr>" "0 < n" "n < 65536" "NUL \<notin> set (take n m)"
  shows "skip_to_blank m (of_nat n) =
    Some (if CHR ''%'' \<in> set (take n m)
          then (let k = length (takeWhile (\<lambda>c. c \<noteq> CHR ''%'') (take n m)) in Some (drop k m, of_nat (n - k))) else None)"
  using assms
proof (induction m arbitrary: n)
  case (Cons c m)
  then obtain k where n: "n = Suc k" by (cases n) auto
  have w: "(of_nat (Suc k) :: UInt16) - 1 = of_nat k" by simp
  have u: "unat (of_nat k :: UInt16) = k" using Cons.prems n by (simp add: unat_of_nat)
  have "k = 0" if "(of_nat k :: UInt16) = 0" using u unfolding that by simp
  then have z: "(of_nat k :: UInt16) = 0 \<longleftrightarrow> k = 0" by auto
  show ?case
  proof (cases "c = CHR ''%'' \<or> k = 0")
    case True
    then show ?thesis using Cons.prems n by (auto simp: Let_def)
  next
    case False
    then have "skip_to_blank m (of_nat k) =
      Some (if CHR ''%'' \<in> set (take k m)
          then (let k' = length (takeWhile (\<lambda>c. c \<noteq> CHR ''%'') (take k m)) in Some (drop k' m, of_nat (k - k'))) else None)"
      using Cons.prems n by (intro Cons.IH) (auto simp: valid_def)
    moreover have "skip_to_blank (c # m) (of_nat n) = skip_to_blank m (of_nat k)"
      using False Cons.prems n z by (auto simp: w simp del: of_nat_Suc)
    ultimately show ?thesis using False n by (auto simp: Let_def simp del: skip_to_blank.simps)
  qed
qed (simp add: valid_def)

lemma ua_scan_sub: "(n, v) \<in> set (ua_scan r) \<Longrightarrow> set v \<subseteq> set r \<and> length v \<le> length r"
proof (induction r arbitrary: n v rule: ua_scan.induct)
  case (1 r)
  define a where "a = dropWhile (\<lambda>x. space_char (byte x)) (drop 1 r)"
  define b where "b = drop 1 (dropWhile (\<lambda>x. x \<noteq> CHR ''='') (dropWhile (\<lambda>x. \<not> id_stop x) a))"
  have len: "length b \<le> length r"
  proof -
    have "length b \<le> length a"
      unfolding b_def using length_dropWhile_le by (metis le_trans diff_le_self length_drop)
    moreover have "length a \<le> length r" unfolding a_def using length_dropWhile_le by (metis le_trans diff_le_self length_drop)
    ultimately show ?thesis by simp
  qed
  have sub: "set b \<subseteq> set r"
    unfolding a_def b_def by (meson set_drop_subset set_dropWhileD subset_iff)
  have e: "ua_scan r = (if takeWhile (\<lambda>x. \<not> id_stop x) a = [] \<or> takeWhile (\<lambda>x. \<not> value_stop x) b = [] then []
      else (takeWhile (\<lambda>x. \<not> id_stop x) a, takeWhile (\<lambda>x. \<not> value_stop x) b) # ua_scan (dropWhile (\<lambda>x. \<not> value_stop x) b))"
    unfolding a_def b_def by (subst ua_scan.simps) (simp only: Let_def)
  from "1.prems" have c: "takeWhile (\<lambda>x. \<not> id_stop x) a \<noteq> []" "takeWhile (\<lambda>x. \<not> value_stop x) b \<noteq> []"
    unfolding e by (auto split: if_splits)
  have "v = takeWhile (\<lambda>x. \<not> value_stop x) b \<or> (n, v) \<in> set (ua_scan (dropWhile (\<lambda>x. \<not> value_stop x) b))"
    using "1.prems" c unfolding e by auto
  then show ?case
  proof
    assume "v = takeWhile (\<lambda>x. \<not> value_stop x) b"
    then show ?thesis using len sub length_takeWhile_le [of _ b] by (metis le_trans set_takeWhileD subset_iff)
  next
    assume "(n, v) \<in> set (ua_scan (dropWhile (\<lambda>x. \<not> value_stop x) b))"
    from "1.IH" [OF a_def refl b_def refl _ this] c
    have "set v \<subseteq> set (dropWhile (\<lambda>x. \<not> value_stop x) b)" "length v \<le> length (dropWhile (\<lambda>x. \<not> value_stop x) b)" by auto
    then show ?thesis using len sub length_dropWhile_le [of _ b] by (meson le_trans set_dropWhileD subset_iff)
  qed
qed

lemma ua_pairs_sub:
  assumes "map_of (ua_pairs t) n = Some v"
  shows "set v \<subseteq> set t" "length v \<le> length t"
proof -
  have "(n, v) \<in> set (ua_scan (dropWhile (\<lambda>x. x \<noteq> CHR ''('') t))"
    using map_of_SomeD [OF assms] by (auto simp: ua_pairs_def split: if_splits)
  from ua_scan_sub [OF this] show "set v \<subseteq> set t" "length v \<le> length t"
    using length_dropWhile_le [of _ t] by (auto dest: set_dropWhileD intro: le_trans)
qed

lemma ua_pairs_small:
  assumes "stream_ok s m" "Len s < 65536" "NUL \<notin> set (str s)" "map_of (ua_pairs (str s)) x = Some v"
  shows "length v < 65536 \<and> NUL \<notin> set v"
proof -
  have "valid s" using assms(1) by (auto simp: stream_ok_def valid_def)
  then show ?thesis using ua_pairs_sub [OF assms(4)] assms(2,3) by auto
qed

lemma fields_ok_init: "fields_ok (replicate eNumAttributes \<lparr>fData = StrPtrLen_null, fFound = False\<rparr>) []"
  by (simp add: fields_ok_def field_of_def eNumAttributes_def)

lemma Parse_fields:
  assumes "stream_ok s m"
  obtains fd where "UserAgentParser_Parse s = split_version fd" "fields_ok fd (ua_pairs (str s))"
proof -
  let ?p = "StringParser_new (Some s)"
  note p = StringParser_new_ok [OF assms]
  obtain a q where q: "ConsumeUntil ?p (CHR ''('') = Some (a, q)" "parser_ok q m"
      "str a = takeWhile (\<lambda>x. x \<noteq> CHR ''('') (str s)" "remaining q = dropWhile (\<lambda>x. x \<noteq> CHR ''('') (str s)"
      "Len a = length (str a)"
    using ConsumeUntilE [OF p(1)] unfolding p(2) by metis
  obtain fd where fd: "fields_loop q (replicate eNumAttributes \<lparr>fData = StrPtrLen_null, fFound = False\<rparr>) = Some fd"
      "fields_ok fd (ua_scan (remaining q))"
    using fields_loop_ok [OF q(2) fields_ok_init] by auto
  have z: "Len a = 0 \<longleftrightarrow> str s = [] \<or> hd (str s) = CHR ''(''"
    unfolding q(5,3) by (cases "str s") auto
  show thesis
  proof (cases "Len a = 0")
    case True
    have "UserAgentParser_Parse s = split_version (replicate eNumAttributes \<lparr>fData = StrPtrLen_null, fFound = False\<rparr>)"
      using True by (simp add: UserAgentParser_Parse_def q(1))
    moreover have "ua_pairs (str s) = []" using True z unfolding ua_pairs_def by simp
    ultimately show thesis using fields_ok_init that by metis
  next
    case False
    have "UserAgentParser_Parse s = split_version fd"
      using False by (simp add: UserAgentParser_Parse_def q(1) fd(1))
    moreover have "ua_pairs (str s) = ua_scan (remaining q)" using False z unfolding ua_pairs_def q(4) by simp
    ultimately show thesis using fd(2) that by metis
  qed
qed

text \<open>What the split does to a system field with an encoded blank.\<close>

lemma split_version_blank:
  assumes ok: "fields_ok fd ps" and ps: "map_of ps ''Core'' = Some v" "map_of ps ''osver'' = None"
    and v: "CHR ''%'' \<in> set v" "length v < 65536" "NUL \<notin> set v"
  defines "k \<equiv> length (takeWhile (\<lambda>c. c \<noteq> CHR ''%'') v)"
  obtains m where "Ptr (fData (fd ! eOs)) = Some m" "take (length v) m = v"
    "split_version fd = Some
      (fd[eOsver := \<lparr>fData = \<lparr>Ptr = Some (drop (k + 3) m), Len = unat (of_nat (length v - k) - 3 :: UInt16)\<rparr>, fFound = True\<rparr>,
          eOs := (fd ! eOs)\<lparr>fData := (fData (fd ! eOs))\<lparr>Len :=
            nat ((int (length v) - (int (unat (of_nat (length v - k) - 3 :: UInt16)) + 3)) mod 2 ^ 32)\<rparr>\<rparr>])"
proof -
  have n: "ua_name eOs = ''Core''" "ua_name eOsver = ''osver''" "eOs < 6" "eOsver < 6"
    by (simp_all add: ua_name_def eOs_def eOsver_def)
  have f: "field_of fd eOs = Some v" "field_of fd eOsver = None"
    using ok ps n unfolding fields_ok_def by metis+
  then have os: "fFound (fd ! eOs)" "str (fData (fd ! eOs)) = v" "\<not> fFound (fd ! eOsver)"
    by (auto simp: field_of_def split: if_splits)
  then have d: "valid (fData (fd ! eOs))" "Ptr (fData (fd ! eOs)) \<noteq> None" "Len (fData (fd ! eOs)) \<noteq> 0"
    using ok n(3) by (auto simp: fields_ok_def)
  then obtain m where m: "Ptr (fData (fd ! eOs)) = Some m" by auto
  have len: "Len (fData (fd ! eOs)) = length v" using length_str [OF d(1)] os(2) by simp
  have t: "take (length v) m = v" using os(2) len by (simp add: str_def m)
  have "valid \<lparr>Ptr = Some m, Len = length v\<rparr>" using d(1) m len by (simp add: valid_def)
  then have "skip_to_blank m (of_nat (length v)) = Some (Some (drop k m, of_nat (length v - k)))"
    using skip_to_blank_ok [of m "length v"] v d(3) len by (simp add: t k_def Let_def)
  then show thesis using os m len t
    by (intro that [of m]) (simp_all add: split_version_def Let_def add.commute)
qed

lemma split_version_same:
  assumes ok: "fields_ok fd ps"
    and v: "\<And>v. map_of ps ''Core'' = Some v \<Longrightarrow> map_of ps ''osver'' = None \<Longrightarrow>
            CHR ''%'' \<notin> set v \<and> length v < 65536 \<and> NUL \<notin> set v"
  shows "split_version fd = Some fd"
proof (cases "fFound (fd ! eOs) \<and> \<not> fFound (fd ! eOsver)")
  case True
  have n: "ua_name eOs = ''Core''" "ua_name eOsver = ''osver''" "eOs < 6" "eOsver < 6"
    by (simp_all add: ua_name_def eOs_def eOsver_def)
  define w where "w = str (fData (fd ! eOs))"
  have "map_of ps ''Core'' = Some w" "map_of ps ''osver'' = None"
    using ok n True unfolding fields_ok_def field_of_def w_def by metis+
  note w = v [OF this]
  have d: "valid (fData (fd ! eOs))" "Ptr (fData (fd ! eOs)) \<noteq> None" "Len (fData (fd ! eOs)) \<noteq> 0"
    using ok n(3) True by (auto simp: fields_ok_def)
  then obtain m where m: "Ptr (fData (fd ! eOs)) = Some m" by auto
  have len: "Len (fData (fd ! eOs)) = length w" using length_str [OF d(1)] by (simp add: w_def)
  have t: "take (length w) m = w" using len by (simp add: str_def m w_def)
  have "valid \<lparr>Ptr = Some m, Len = length w\<rparr>" using d(1) m len by (simp add: valid_def)
  then have "skip_to_blank m (of_nat (length w)) = Some None"
    using skip_to_blank_ok [of m "length w"] w d(3) len by (simp add: t)
  then show ?thesis using m len by (simp add: split_version_def)
qed (auto simp: split_version_def)

text \<open>A complete escape: both parts are what they should be.\<close>

lemma split_version_complete:
  assumes ok: "fields_ok fd ps" and ps: "map_of ps ''Core'' = Some v" "map_of ps ''osver'' = None"
    and v: "CHR ''%'' \<in> set v" "length v < 65536" "NUL \<notin> set v" "3 \<le> length (dropWhile (\<lambda>c. c \<noteq> CHR ''%'') v)"
  shows "\<exists>fd'. split_version fd = Some fd' \<and> length fd' = 6 \<and>
    (\<forall>i<6. field_of fd' i = (if i = eOs then Some (takeWhile (\<lambda>c. c \<noteq> CHR ''%'') v)
          else if i = eOsver then Some (drop 3 (dropWhile (\<lambda>c. c \<noteq> CHR ''%'') v)) else field_of fd i))"
proof -
  define k where "k = length (takeWhile (\<lambda>c. c \<noteq> CHR ''%'') v)"
  have "length (dropWhile (\<lambda>c. c \<noteq> CHR ''%'') v) = length v - k"
    unfolding k_def by (metis length_drop drop_takeWhile_length)
  then have k3: "k + 3 \<le> length v" using v by auto
  have "(of_nat (length v - k) - 3 :: UInt16) = of_nat (length v - k - 3)" using k3 by (simp add: of_nat_diff)
  moreover have "(length v - k - 3) mod 65536 = length v - k - 3" using v(2) by (intro mod_less) simp
  ultimately have u: "unat (of_nat (length v - k) - 3 :: UInt16) = length v - k - 3" by (simp only: unat_of_nat) simp
  have "int (length v) - (int (length v - k - 3) + 3) = int k" using k3 by simp
  moreover have "int k mod 2 ^ 32 = int k" using v(2) k3 by (intro mod_pos_pos_trivial) auto
  ultimately have kk: "nat ((int (length v) - (int (length v - k - 3) + 3)) mod 2 ^ 32) = k" by simp
  define ver where "ver m = \<lparr>fData = \<lparr>Ptr = Some (drop (k + 3) m), Len = length v - k - 3\<rparr>, fFound = True\<rparr>" for m :: mem
  define os where "os = (fd ! eOs)\<lparr>fData := (fData (fd ! eOs))\<lparr>Len := k\<rparr>\<rparr>"
  obtain m where m: "Ptr (fData (fd ! eOs)) = Some m" "take (length v) m = v" "split_version fd = Some (fd[eOsver := ver m, eOs := os])"
    using split_version_blank [OF ok ps v(1,2,3), folded k_def, unfolded u kk] unfolding ver_def os_def by metis
  have "take k m = take k (take (length v) m)" using k3 by simp
  then have 1: "take k m = takeWhile (\<lambda>c. c \<noteq> CHR ''%'') v" unfolding m(2) k_def by simp
  have "take (length v - k - 3) (drop (k + 3) m) = drop (k + 3) (take (length v) m)" by (simp add: drop_take)
  also have "\<dots> = drop 3 (drop k v)" unfolding m(2) by (simp add: add.commute)
  finally have 2: "take (length v - k - 3) (drop (k + 3) m) = drop 3 (dropWhile (\<lambda>c. c \<noteq> CHR ''%'') v)"
    unfolding k_def by simp
  have "ua_name eOs = ''Core''" "eOs < 6" by (simp_all add: ua_name_def eOs_def)
  then have "field_of fd eOs = Some v" using ok ps(1) unfolding fields_ok_def by metis
  then have found: "fFound (fd ! eOs)" by (auto simp: field_of_def split: if_splits)
  have l: "length fd = 6" using ok by (simp add: fields_ok_def)
  have "field_of (fd[eOsver := ver m, eOs := os]) i = (if i = eOs then Some (takeWhile (\<lambda>c. c \<noteq> CHR ''%'') v)
          else if i = eOsver then Some (drop 3 (dropWhile (\<lambda>c. c \<noteq> CHR ''%'') v)) else field_of fd i)" if i: "i < 6" for i
  proof -
    have e: "fd[eOsver := ver m, eOs := os] ! i = (if i = eOs then os else if i = eOsver then ver m else fd ! i)"
      using l i by (auto simp: nth_list_update eOs_def eOsver_def)
    show ?thesis using found 1 2 unfolding field_of_def e unfolding os_def ver_def
      using m(1) by (simp add: str_def eOs_def eOsver_def)
  qed
  then show ?thesis using m(3) l by simp
qed

section \<open>Properties\<close>

text \<open>\<^verbatim>\<open>UserAgentParser::Parse\<close> gives every known field the value of its first
  occurrence among the name/value pairs of the parenthesised comment; if there is a
  system field with an encoded blank and no version field, the part before the blank
  becomes the system and the part behind it the version. This holds for a header of
  less than 64 kB in which the percent sign of the system field starts a complete
  escape; the parser reads only bytes of the header and the one behind it.\<close>

theorem UserAgentParser_spec:
  assumes "stream_ok s m" "Len s < 65536" "NUL \<notin> set (str s)"
    and "\<forall>v. map_of (ua_pairs (str s)) ''Core'' = Some v \<and> CHR ''%'' \<in> set v \<longrightarrow>
             3 \<le> length (dropWhile (\<lambda>c. c \<noteq> CHR ''%'') v)"
  shows "\<exists>fd. UserAgentParser_Parse s = Some fd \<and> length fd = 6 \<and> (\<forall>i<6. field_of fd i = ua_field (str s) i)"
proof -
  obtain fd where fd: "UserAgentParser_Parse s = split_version fd" "fields_ok fd (ua_pairs (str s))"
    using Parse_fields [OF assms(1)] by metis
  have n: "ua_name eOs = ''Core''" "ua_name eOsver = ''osver''" by (simp_all add: ua_name_def eOs_def eOsver_def)
  have f: "length fd = 6" "\<And>i. i < 6 \<Longrightarrow> field_of fd i = map_of (ua_pairs (str s)) (ua_name i)"
    using fd(2) by (auto simp: fields_ok_def)
  note small = ua_pairs_small [OF assms(1-3)]
  show ?thesis
  proof (cases "\<exists>v. map_of (ua_pairs (str s)) ''Core'' = Some v \<and> map_of (ua_pairs (str s)) ''osver'' = None \<and> CHR ''%'' \<in> set v")
    case False
    then have "split_version fd = Some fd" using small by (intro split_version_same [OF fd(2)]) auto
    moreover have "ua_field (str s) i = map_of (ua_pairs (str s)) (ua_name i)" for i
      using False by (auto simp: ua_field_def n blank_split_def split: option.splits)
    ultimately show ?thesis using f fd(1) by simp
  next
    case True
    then obtain v where v: "map_of (ua_pairs (str s)) ''Core'' = Some v" "map_of (ua_pairs (str s)) ''osver'' = None"
      "CHR ''%'' \<in> set v" by auto
    moreover have "ua_field (str s) i = (if i = eOs then Some (takeWhile (\<lambda>c. c \<noteq> CHR ''%'') v)
          else if i = eOsver then Some (drop 3 (dropWhile (\<lambda>c. c \<noteq> CHR ''%'') v)) else field_of fd i)" if "i < 6" for i
      using v f(2) [OF that] by (simp add: ua_field_def n blank_split_def)
    ultimately show ?thesis
      using split_version_complete [OF fd(2) v] small [OF v(1)] assms(4) unfolding fd(1) by metis
  qed
qed

definition ua_header :: string where
  "ua_header = ''QTS (qtver=6.1; cpu=PPC; Core=Mac%2010.2; lang=de)''"

definition counted :: "string \<Rightarrow> StrPtrLen" where
  "counted t = \<lparr>Ptr = Some (cstring t), Len = length t\<rparr>"

lemma counted_ok: "stream_ok (counted t) (cstring t)" "str (counted t) = t"
  by (simp_all add: counted_def stream_ok_def cstring_def str_def)

theorem UserAgentParser_spec_witness:
  "\<exists>fd. UserAgentParser_Parse (counted ua_header) = Some fd \<and>
     field_of fd eOs = Some ''Mac'' \<and> field_of fd eOsver = Some ''10.2'' \<and> field_of fd eCpu = Some ''PPC'' \<and>
     field_of fd eQtid = None"
proof -
  have ps: "map_of (ua_pairs ua_header) ''Core'' = Some ''Mac%2010.2''" by code_simp
  have 1: "Len (counted ua_header) < 65536" "NUL \<notin> set (str (counted ua_header))" unfolding counted_ok(2)
    by (simp_all add: counted_def ua_header_def)
  have 2: "\<forall>v. map_of (ua_pairs (str (counted ua_header))) ''Core'' = Some v \<and> CHR ''%'' \<in> set v \<longrightarrow>
             3 \<le> length (dropWhile (\<lambda>c. c \<noteq> CHR ''%'') v)" unfolding counted_ok(2) ps by simp
  have 3: "ua_field ua_header eOs = Some ''Mac''" "ua_field ua_header eOsver = Some ''10.2''"
     "ua_field ua_header eCpu = Some ''PPC''" "ua_field ua_header eQtid = None" by code_simp+
  have 4: "eOs < 6" "eOsver < 6" "eCpu < 6" "eQtid < 6" by code_simp+
  from UserAgentParser_spec [OF counted_ok(1) 1 2] 3 4 show ?thesis unfolding counted_ok(2) by metis
qed

text \<open>If the percent sign of the system field is followed by fewer than two bytes,
  the 16-bit length wraps around: the version field claims more than 65 thousand bytes
  behind the header and the length of the system field wraps below zero, so neither
  field describes text of the header.\<close>

theorem UserAgentParser_overrun:
  assumes "stream_ok s m" "Len s < 65536" "NUL \<notin> set (str s)"
    and "map_of (ua_pairs (str s)) ''Core'' = Some v" "map_of (ua_pairs (str s)) ''osver'' = None"
    and "CHR ''%'' \<in> set v" "length (dropWhile (\<lambda>c. c \<noteq> CHR ''%'') v) < 3"
  shows "\<exists>fd. UserAgentParser_Parse s = Some fd \<and>
    Len (GetUserOSVersion fd) = 65533 + length (dropWhile (\<lambda>c. c \<noteq> CHR ''%'') v) \<and>
    Len (GetrUserOS fd) = 2 ^ 32 - 65536 + length (takeWhile (\<lambda>c. c \<noteq> CHR ''%'') v)"
proof -
  obtain fd where fd: "UserAgentParser_Parse s = split_version fd" "fields_ok fd (ua_pairs (str s))"
    using Parse_fields [OF assms(1)] by metis
  define k where "k = length (takeWhile (\<lambda>c. c \<noteq> CHR ''%'') v)"
  define d where "d = length v - k"
  have d: "length (dropWhile (\<lambda>c. c \<noteq> CHR ''%'') v) = d"
    unfolding k_def d_def by (metis length_drop drop_takeWhile_length)
  have dk: "k + d = length v" unfolding k_def d_def using length_takeWhile_le [of _ v] by auto
  note small = ua_pairs_small [OF assms(1-4)]
  have "d = 0 \<or> d = 1 \<or> d = 2" using assms(7) d by linarith
  then have u: "unat (of_nat d - 3 :: UInt16) = 65533 + d"
    by (elim disjE) (simp_all add: unsigned_minus_1_eq_mask mask_eq_exp_minus_1)
  have a: "int (length v) - (int (65533 + d) + 3) = int k - 65536" using dk by simp
  have b: "(int k - 65536) mod 2 ^ 32 = int k - 65536 + 2 ^ 32"
  proof -
    have "(int k - 65536 + 2 ^ 32) mod 2 ^ 32 = int k - 65536 + 2 ^ 32"
      using small dk by (intro mod_pos_pos_trivial) auto
    then show ?thesis by (simp only: mod_add_self2)
  qed
  have w: "nat ((int (length v) - (int (65533 + d) + 3)) mod 2 ^ 32) = 2 ^ 32 - 65536 + k" unfolding a b by simp
  define ver where "ver m = \<lparr>fData = \<lparr>Ptr = Some (drop (k + 3) m), Len = 65533 + d\<rparr>, fFound = True\<rparr>" for m :: mem
  define os where "os = (fd ! eOs)\<lparr>fData := (fData (fd ! eOs))\<lparr>Len := 2 ^ 32 - 65536 + k\<rparr>\<rparr>"
  obtain m' where sp: "split_version fd = Some (fd[eOsver := ver m', eOs := os])"
    using split_version_blank [OF fd(2) assms(4,5,6), folded k_def, folded d_def, unfolded u w] small
    unfolding ver_def os_def by metis
  have l: "length fd = 6" using fd(2) by (simp add: fields_ok_def)
  have "GetUserOSVersion (fd[eOsver := ver m', eOs := os]) = fData (ver m')" "GetrUserOS (fd[eOsver := ver m', eOs := os]) = fData os"
    using l by (simp_all add: GetUserOSVersion_def GetrUserOS_def eOs_def eOsver_def)
  then show ?thesis unfolding d fd(1) k_def [symmetric] sp by (simp add: ver_def os_def)
qed

theorem UserAgentParser_overrun_witness:
  "\<exists>fd. UserAgentParser_Parse (counted ''x (Core=a%)'') = Some fd \<and> Len (GetUserOSVersion fd) = 65534"
proof -
  have 1: "Len (counted ''x (Core=a%)'') < 65536" "NUL \<notin> set (str (counted ''x (Core=a%)''))"
    unfolding counted_ok(2) by (simp_all add: counted_def)
  have 2: "map_of (ua_pairs (str (counted ''x (Core=a%)''))) ''Core'' = Some ''a%''"
    "map_of (ua_pairs (str (counted ''x (Core=a%)''))) ''osver'' = None" by code_simp+
  show ?thesis using UserAgentParser_overrun [OF counted_ok(1) 1 2] by auto
qed

end
