(* ===== verification/CF_DList.thy ===== *)
theory CF_DList
  imports CF_Prelude
begin

text \<open>
  The doubly linked list template of \<^verbatim>\<open>src/CFCore/include/CF/PLDoubleLinkedList.h\<close>,
  at the level of its pointers. Nodes live in a store; the element of a node is left to the
  client. The assertions of the debugging build, which is the default, are part of the
  model: an operation whose assertion fails, or that follows a null pointer, is
  \<^term>\<open>None\<close>. The number of nodes is a 32-bit word; the index of \<^verbatim>\<open>GetNthNode\<close> is an
  \<^verbatim>\<open>int\<close> that only counts down to zero.
\<close>

section \<open>State\<close>

record DNode =
  nNext :: "nat option"
  nPrev :: "nat option"

type_synonym dstore = "nat \<Rightarrow> DNode"

record DList =
  dHead :: "nat option"
  dTail :: "nat option"
  fNumNodes :: UInt32

definition DNode_new :: DNode where
  "DNode_new = \<lparr>nNext = None, nPrev = None\<rparr>"

definition DList_new :: DList where
  "DList_new = \<lparr>dHead = None, dTail = None, fNumNodes = 0\<rparr>"

definition set_nNext :: "dstore \<Rightarrow> nat \<Rightarrow> nat option \<Rightarrow> dstore" where
  "set_nNext st x v = st(x := (st x)\<lparr>nNext := v\<rparr>)"

definition set_nPrev :: "dstore \<Rightarrow> nat \<Rightarrow> nat option \<Rightarrow> dstore" where
  "set_nPrev st x v = st(x := (st x)\<lparr>nPrev := v\<rparr>)"

definition assert :: "bool \<Rightarrow> unit option" where
  "assert b = (if b then Some () else None)"

lemma assert_simps [simp]: "assert True = Some ()" "assert False = None" "assert b = Some u \<longleftrightarrow> b"
  by (auto simp: assert_def)

section \<open>Validation\<close>

definition node_linked :: "dstore \<Rightarrow> DList \<Rightarrow> nat \<Rightarrow> unit option" where
  "node_linked st l x =
     do {
       (if dHead l = Some x then Some ()
        else do { p \<leftarrow> nPrev (st x); assert (nNext (st p) = Some x) });
       (if dTail l = Some x then Some ()
        else do { n \<leftarrow> nNext (st x); assert (nPrev (st n) = Some x) })
     }"

partial_function (option) validate_fwd :: "dstore \<Rightarrow> DList \<Rightarrow> nat option \<Rightarrow> unit option" where
  "validate_fwd st l cur =
     (case cur of
        None \<Rightarrow> Some ()
      | Some x \<Rightarrow>
          do {
            node_linked st l x;
            assert (nNext (st x) = None \<longrightarrow> dTail l = Some x);
            validate_fwd st l (nNext (st x))
          })"

declare validate_fwd.simps [code]

partial_function (option) validate_bwd :: "dstore \<Rightarrow> DList \<Rightarrow> nat option \<Rightarrow> unit option" where
  "validate_bwd st l cur =
     (case cur of
        None \<Rightarrow> Some ()
      | Some x \<Rightarrow>
          do {
            node_linked st l x;
            assert (nPrev (st x) = None \<longrightarrow> dHead l = Some x);
            validate_bwd st l (nPrev (st x))
          })"

declare validate_bwd.simps [code]

definition opt_all :: "('a \<Rightarrow> bool) \<Rightarrow> 'a option \<Rightarrow> bool" where
  "opt_all P v = (case v of None \<Rightarrow> True | Some x \<Rightarrow> P x)"

definition ValidateLinks :: "dstore \<Rightarrow> DList \<Rightarrow> unit option" where
  "ValidateLinks st l =
     do {
       assert (opt_all (\<lambda>h. nPrev (st h) = None) (dHead l));
       assert (opt_all (\<lambda>t. nNext (st t) = None) (dTail l));
       assert (dTail l = dHead l \<longrightarrow> opt_all (\<lambda>t. nPrev (st t) = None \<and> nNext (st t) = None) (dTail l));
       assert (dHead l \<noteq> None \<longrightarrow> dTail l \<noteq> None);
       assert (dTail l \<noteq> None \<longrightarrow> dHead l \<noteq> None);
       assert (opt_all (\<lambda>t. opt_all (\<lambda>p. nNext (st p) = Some t) (nPrev (st t))) (dTail l));
       assert (opt_all (\<lambda>h. opt_all (\<lambda>n. nPrev (st n) = Some h) (nNext (st h))) (dHead l));
       validate_fwd st l (dHead l);
       validate_bwd st l (dTail l)
     }"

section \<open>Operations\<close>

definition AddNodeToTail :: "dstore \<times> DList \<Rightarrow> nat \<Rightarrow> (dstore \<times> DList) option" where
  "AddNodeToTail s node =
     (let (st, l) = s
      in do {
        assert (nPrev (st node) = None \<and> nNext (st node) = None);
        let st1 = (case dTail l of None \<Rightarrow> st | Some t \<Rightarrow> set_nNext st t (Some node));
        let st2 = set_nNext (set_nPrev st1 node (dTail l)) node None;
        let l1 = l\<lparr>dTail := Some node,
                   dHead := (if dHead l = None then Some node else dHead l),
                   fNumNodes := fNumNodes l + 1\<rparr>;
        ValidateLinks st2 l1;
        Some (st2, l1)
      })"

definition AddNode :: "dstore \<times> DList \<Rightarrow> nat \<Rightarrow> (dstore \<times> DList) option" where
  "AddNode s node =
     (let (st, l) = s
      in do {
        assert (nPrev (st node) = None \<and> nNext (st node) = None);
        let st1 = (case dHead l of None \<Rightarrow> st | Some h \<Rightarrow> set_nPrev st h (Some node));
        let st2 = set_nNext (set_nPrev st1 node None) node (dHead l);
        let l1 = l\<lparr>dHead := Some node,
                   dTail := (if dTail l = None then Some node else dTail l),
                   fNumNodes := fNumNodes l + 1\<rparr>;
        ValidateLinks st2 l1;
        Some (st2, l1)
      })"

definition RemoveNode :: "dstore \<times> DList \<Rightarrow> nat \<Rightarrow> (dstore \<times> DList) option" where
  "RemoveNode s node =
     (let (st, l) = s
      in do {
        node_linked st l node;
        (st1, h1) \<leftarrow>
          (if dHead l = Some node then Some (st, nNext (st node))
           else do { p \<leftarrow> nPrev (st node); Some (set_nNext st p (nNext (st node)), dHead l) });
        (st2, t1) \<leftarrow>
          (if dTail l = Some node then Some (st1, nPrev (st1 node))
           else do { n \<leftarrow> nNext (st1 node); Some (set_nPrev st1 n (nPrev (st1 node)), dTail l) });
        let st3 = set_nNext (set_nPrev st2 node None) node None;
        let l1 = l\<lparr>dHead := h1, dTail := t1, fNumNodes := fNumNodes l - 1\<rparr>;
        ValidateLinks st3 l1;
        Some (st3, l1)
      })"

text \<open>The callback of \<^verbatim>\<open>ForEachUntil\<close> reads and updates its user data.\<close>

partial_function (option) until_loop ::
  "dstore \<Rightarrow> (nat \<Rightarrow> 'd \<Rightarrow> bool \<times> 'd) \<Rightarrow> 'd \<Rightarrow> nat option \<Rightarrow> (nat option \<times> 'd) option" where
  "until_loop st doFunc d cur =
     (case cur of
        None \<Rightarrow> Some (None, d)
      | Some x \<Rightarrow>
          if fst (doFunc x d) then Some (Some x, snd (doFunc x d))
          else until_loop st doFunc (snd (doFunc x d)) (nNext (st x)))"

declare until_loop.simps [code]

definition ForEachUntil ::
  "dstore \<times> DList \<Rightarrow> (nat \<Rightarrow> 'd \<Rightarrow> bool \<times> 'd) \<Rightarrow> 'd \<Rightarrow> (nat option \<times> 'd) option" where
  "ForEachUntil s doFunc d = until_loop (fst s) doFunc d (dHead (snd s))"

text \<open>The callback of \<^verbatim>\<open>ForEach\<close> may change the list; the successor is read before the call.\<close>

partial_function (option) each_loop ::
  "(nat \<Rightarrow> dstore \<times> DList \<Rightarrow> (dstore \<times> DList) option) \<Rightarrow> nat option \<Rightarrow> dstore \<times> DList \<Rightarrow> (dstore \<times> DList) option" where
  "each_loop doFunc cur s =
     (case cur of
        None \<Rightarrow> Some s
      | Some x \<Rightarrow> do { s' \<leftarrow> doFunc x s; each_loop doFunc (nNext (fst s x)) s' })"

declare each_loop.simps [code]

definition ForEach ::
  "(nat \<Rightarrow> dstore \<times> DList \<Rightarrow> (dstore \<times> DList) option) \<Rightarrow> dstore \<times> DList \<Rightarrow> (dstore \<times> DList) option" where
  "ForEach doFunc s = each_loop doFunc (dHead (snd s)) s"

text \<open>Removing a node and deleting it; its destructor asserts that it is unlinked.\<close>

definition DoClearList :: "nat \<Rightarrow> dstore \<times> DList \<Rightarrow> (dstore \<times> DList) option" where
  "DoClearList node s =
     do {
       s' \<leftarrow> RemoveNode s node;
       assert (nPrev (fst s' node) = None \<and> nNext (fst s' node) = None);
       Some s'
     }"

definition ClearList :: "dstore \<times> DList \<Rightarrow> (dstore \<times> DList) option" where
  "ClearList s = ForEach DoClearList s"

definition CompareIndexToZero :: "nat \<Rightarrow> int \<Rightarrow> bool \<times> int" where
  "CompareIndexToZero node val = (if val = 0 then (True, val) else (False, val - 1))"

definition GetNthNode :: "dstore \<times> DList \<Rightarrow> int \<Rightarrow> nat option option" where
  "GetNthNode s nodeIndex = map_option fst (ForEachUntil s CompareIndexToZero nodeIndex)"

definition GetNumNodes :: "dstore \<times> DList \<Rightarrow> UInt32" where
  "GetNumNodes s = fNumNodes (snd s)"

section \<open>Doubly linked segments\<close>

definition hdo :: "nat list \<Rightarrow> nat option \<Rightarrow> nat option" where
  "hdo xs q = (case xs of [] \<Rightarrow> q | x # _ \<Rightarrow> Some x)"

definition lasto :: "nat option \<Rightarrow> nat list \<Rightarrow> nat option" where
  "lasto p xs = (if xs = [] then p else Some (last xs))"

lemma hdo_lasto_simps [simp]:
  "hdo [] q = q" "hdo (x # xs) q = Some x" "lasto p [] = p" "lasto p (x # xs) = lasto (Some x) xs"
  "lasto p (xs @ [x]) = Some x" "hdo (xs @ ys) q = hdo xs (hdo ys q)" "lasto p (xs @ ys) = lasto (lasto p xs) ys"
  by (auto simp: hdo_def lasto_def split: list.splits)

fun dseg :: "dstore \<Rightarrow> nat option \<Rightarrow> nat list \<Rightarrow> nat option \<Rightarrow> bool" where
  "dseg st p [] q \<longleftrightarrow> True"
| "dseg st p (x # xs) q \<longleftrightarrow> nPrev (st x) = p \<and> nNext (st x) = hdo xs q \<and> dseg st (Some x) xs q"

lemma dseg_append:
  "dseg st p (xs @ ys) q \<longleftrightarrow> dseg st p xs (hdo ys q) \<and> dseg st (lasto p xs) ys q"
  by (induction xs arbitrary: p) auto

lemma dseg_frame: "(\<And>x. x \<in> set xs \<Longrightarrow> st' x = st x) \<Longrightarrow> dseg st' p xs q = dseg st p xs q"
  by (induction xs arbitrary: p) auto

lemma dseg_upd [simp]: "x \<notin> set xs \<Longrightarrow> dseg (st(x := v)) p xs q = dseg st p xs q"
  by (rule dseg_frame) auto

lemma dseg_upd_links [simp]:
  "x \<notin> set xs \<Longrightarrow> dseg (set_nNext st x v) p xs q = dseg st p xs q"
  "x \<notin> set xs \<Longrightarrow> dseg (set_nPrev st x v) p xs q = dseg st p xs q"
  by (simp_all add: set_nNext_def set_nPrev_def)

lemma dseg_set_nNext:
  "dseg st p (xs @ [x]) q \<Longrightarrow> x \<notin> set xs \<Longrightarrow> dseg (set_nNext st x q') p (xs @ [x]) q'"
  by (induction xs arbitrary: p) (auto simp: set_nNext_def)

lemma dseg_set_nPrev:
  "dseg st p (x # xs) q \<Longrightarrow> x \<notin> set xs \<Longrightarrow> dseg (set_nPrev st x p') p' (x # xs) q"
  by (auto simp: set_nPrev_def)

definition dlist_rep :: "dstore \<times> DList \<Rightarrow> nat list \<Rightarrow> bool" where
  "dlist_rep s xs \<longleftrightarrow>
     distinct xs \<and> dHead (snd s) = hdo xs None \<and> dTail (snd s) = lasto None xs \<and>
     fNumNodes (snd s) = of_nat (length xs) \<and> dseg (fst s) None xs None"

definition unlinked :: "dstore \<Rightarrow> nat \<Rightarrow> bool" where
  "unlinked st x \<longleftrightarrow> nPrev (st x) = None \<and> nNext (st x) = None"


lemma dlist_repD:
  assumes "dlist_rep (st, l) (ys @ x # zs)"
  shows "nPrev (st x) = lasto None ys" "nNext (st x) = hdo zs None" "dHead l = hdo ys (Some x)" "dTail l = lasto (Some x) zs"
    "x \<notin> set ys" "x \<notin> set zs" "dseg st None ys (Some x)" "dseg st (Some x) zs None"
  using assms by (auto simp: dlist_rep_def dseg_append)

lemma dseg_last: "dseg st p (ys @ [y]) q \<Longrightarrow> nNext (st y) = q"
  by (simp add: dseg_append)

lemma hdo_neq: "x \<notin> set ys \<Longrightarrow> ys \<noteq> [] \<Longrightarrow> hdo ys q \<noteq> Some x"
  by (cases ys) auto

lemma lasto_neq: "x \<notin> set ys \<Longrightarrow> ys \<noteq> [] \<Longrightarrow> lasto p ys \<noteq> Some x"
  by (auto simp: lasto_def)

lemma node_linked_ok:
  assumes rep: "dlist_rep (st, l) (ys @ x # zs)"
  shows "node_linked st l x = Some ()"
proof -
  note d = dlist_repD [OF rep]
  have "(if dHead l = Some x then Some () else do { p \<leftarrow> nPrev (st x); assert (nNext (st p) = Some x) }) = Some ()"
  proof (cases ys rule: rev_cases)
    case (snoc ys' y)
    with d dseg_last [of st None ys' y "Some x"] hdo_neq [of x ys] show ?thesis by auto
  qed (simp add: d)
  moreover have "(if dTail l = Some x then Some () else do { n \<leftarrow> nNext (st x); assert (nPrev (st n) = Some x) }) = Some ()"
  proof (cases zs)
    case (Cons z zs')
    with d lasto_neq [of x zs] show ?thesis by auto
  qed (simp add: d)
  ultimately show ?thesis by (simp add: node_linked_def)
qed

lemma validate_fwd_ok: "dlist_rep (st, l) (ys @ zs) \<Longrightarrow> validate_fwd st l (hdo zs None) = Some ()"
proof (induction zs arbitrary: ys)
  case (Cons z zs)
  note d = dlist_repD [OF Cons.prems]
  have "validate_fwd st l (hdo zs None) = Some ()" using Cons.IH [of "ys @ [z]"] Cons.prems by simp
  moreover have "nNext (st z) = None \<longrightarrow> dTail l = Some z" using d by (cases zs) auto
  ultimately show ?case
    using node_linked_ok [OF Cons.prems] d by (subst validate_fwd.simps) simp
qed (subst validate_fwd.simps, simp)

lemma validate_bwd_ok: "dlist_rep (st, l) (ys @ zs) \<Longrightarrow> validate_bwd st l (lasto None ys) = Some ()"
proof (induction ys arbitrary: zs rule: rev_induct)
  case (snoc y ys)
  have rep: "dlist_rep (st, l) (ys @ y # zs)" using snoc.prems by simp
  note d = dlist_repD [OF rep]
  have "validate_bwd st l (lasto None ys) = Some ()" using snoc.IH [OF rep] .
  moreover have "nPrev (st y) = None \<longrightarrow> dHead l = Some y" using d by (cases ys) (auto simp: lasto_def)
  ultimately show ?case
    using node_linked_ok [OF rep] d by (subst validate_bwd.simps) simp
qed (subst validate_bwd.simps, simp)

text \<open>The assertions hold for every well-formed list.\<close>

lemma ValidateLinks_ok:
  assumes rep: "dlist_rep (st, l) xs"
  shows "ValidateLinks st l = Some ()"
proof -
  have f: "validate_fwd st l (dHead l) = Some ()" "validate_bwd st l (dTail l) = Some ()"
    using validate_fwd_ok [of st l "[]" xs] validate_bwd_ok [of st l xs "[]"] rep by (auto simp: dlist_rep_def)
  show ?thesis
  proof (cases xs)
    case Nil
    with rep f show ?thesis by (simp add: ValidateLinks_def dlist_rep_def opt_all_def)
  next
    case (Cons h hs)
    obtain ts t where t: "xs = ts @ [t]" using Cons by (metis list.distinct(1) rev_exhaust)
    note dh = dlist_repD [of st l "[]" h hs] and dt = dlist_repD [of st l ts t "[]"]
    have h: "dHead l = Some h" "nPrev (st h) = None" "nNext (st h) = hdo hs None" "dseg st (Some h) hs None" "h \<notin> set hs"
      using dh rep Cons by auto
    have t': "dTail l = Some t" "nNext (st t) = None" "nPrev (st t) = lasto None ts" "dseg st None ts (Some t)"
      using dt rep t by auto
    have 1: "opt_all (\<lambda>n. nPrev (st n) = Some h) (nNext (st h))" using h by (cases hs) (auto simp: opt_all_def)
    have 2: "opt_all (\<lambda>p. nNext (st p) = Some t) (nPrev (st t))"
      using t' dseg_last by (cases ts rule: rev_cases) (auto simp: opt_all_def)
    have 3: "t = h \<longrightarrow> nPrev (st t) = None \<and> nNext (st t) = None" using h t' by auto
    show ?thesis using h t' f 1 2 3 by (simp add: ValidateLinks_def opt_all_def)
  qed
qed

lemma dlist_rep_empty: "dlist_rep (st, DList_new) []"
  by (simp add: dlist_rep_def DList_new_def)

lemma AddNode_rep:
  assumes rep: "dlist_rep (st, l) xs" and new: "x \<notin> set xs" "unlinked st x"
  shows "\<exists>s'. AddNode (st, l) x = Some s' \<and> dlist_rep s' (x # xs) \<and> (\<forall>y. y \<notin> set (x # xs) \<longrightarrow> fst s' y = st y)"
proof -
  let ?st1 = "case dHead l of None \<Rightarrow> st | Some h \<Rightarrow> set_nPrev st h (Some x)"
  let ?st2 = "set_nNext (set_nPrev ?st1 x None) x (dHead l)"
  let ?l = "l\<lparr>dHead := Some x, dTail := (if dTail l = None then Some x else dTail l), fNumNodes := fNumNodes l + 1\<rparr>"
  have hd: "dHead l = hdo xs None" and dx: "distinct xs" and sg: "dseg st None xs None"
    using rep by (auto simp: dlist_rep_def)
  have s1: "dseg ?st1 (Some x) xs None"
    using dseg_set_nPrev [of st None "hd xs" "tl xs" None "Some x"] sg dx hd by (cases xs) auto
  have s2: "dseg ?st2 (Some x) xs None"
    using s1 new by simp
  have "dlist_rep (?st2, ?l) (x # xs)"
    using rep s2 new hd by (auto simp: dlist_rep_def set_nNext_def set_nPrev_def lasto_def)
  moreover have "?st2 y = st y" if "y \<notin> set (x # xs)" for y
    using that hd by (cases xs) (auto simp: set_nNext_def set_nPrev_def)
  ultimately show ?thesis using new ValidateLinks_ok [of ?st2 ?l "x # xs"]
    by (auto simp: AddNode_def Let_def unlinked_def)
qed

lemma AddNodeToTail_rep:
  assumes rep: "dlist_rep (st, l) xs" and new: "x \<notin> set xs" "unlinked st x"
  shows "\<exists>s'. AddNodeToTail (st, l) x = Some s' \<and> dlist_rep s' (xs @ [x]) \<and> (\<forall>y. y \<notin> set (x # xs) \<longrightarrow> fst s' y = st y)"
proof -
  let ?st1 = "case dTail l of None \<Rightarrow> st | Some t \<Rightarrow> set_nNext st t (Some x)"
  let ?st2 = "set_nNext (set_nPrev ?st1 x (dTail l)) x None"
  let ?l = "l\<lparr>dTail := Some x, dHead := (if dHead l = None then Some x else dHead l), fNumNodes := fNumNodes l + 1\<rparr>"
  have tl: "dTail l = lasto None xs" "dHead l = hdo xs None" and dx: "distinct xs" and sg: "dseg st None xs None"
    using rep by (auto simp: dlist_rep_def)
  have s1: "dseg ?st1 None xs (Some x)"
    using dseg_set_nNext [of st None "butlast xs" "last xs" None "Some x"] sg dx tl
    by (cases xs rule: rev_cases) auto
  have s2: "dseg ?st2 None xs (Some x)"
    using s1 new by simp
  have "dlist_rep (?st2, ?l) (xs @ [x])"
    using rep s2 new tl by (cases xs) (auto simp: dlist_rep_def dseg_append set_nNext_def set_nPrev_def)
  moreover have "?st2 y = st y" if "y \<notin> set (x # xs)" for y
    using that tl by (cases xs rule: rev_cases) (auto simp: set_nNext_def set_nPrev_def)
  ultimately show ?thesis using new ValidateLinks_ok [of ?st2 ?l "xs @ [x]"]
    by (auto simp: AddNodeToTail_def Let_def unlinked_def)
qed


lemma RemoveNode_rep:
  assumes rep: "dlist_rep (st, l) (ys @ x # zs)"
  shows "\<exists>s'. RemoveNode (st, l) x = Some s' \<and> dlist_rep s' (ys @ zs) \<and> unlinked (fst s') x \<and>
    (\<forall>y. y \<notin> set (ys @ x # zs) \<longrightarrow> fst s' y = st y)"
proof -
  note d = dlist_repD [OF rep]
  have dis: "distinct (ys @ x # zs)" and n: "fNumNodes l = of_nat (length (ys @ x # zs))" using rep by (auto simp: dlist_rep_def)
  let ?st1 = "if ys = [] then st else set_nNext st (last ys) (hdo zs None)"
  have r1: "(if dHead l = Some x then Some (st, nNext (st x))
      else do { p \<leftarrow> nPrev (st x); Some (set_nNext st p (nNext (st x)), dHead l) }) = Some (?st1, hdo ys (hdo zs None))"
    using d hdo_neq [of x ys] by (cases ys rule: rev_cases) (auto simp: hdo_def split: list.splits)
  have x1: "?st1 x = st x" using d(5) by (auto simp: set_nNext_def)
  let ?st2 = "if zs = [] then ?st1 else set_nPrev ?st1 (hd zs) (lasto None ys)"
  have r2: "(if dTail l = Some x then Some (?st1, nPrev (?st1 x))
      else do { n \<leftarrow> nNext (?st1 x); Some (set_nPrev ?st1 n (nPrev (?st1 x)), dTail l) })
      = Some (?st2, lasto (lasto None ys) zs)"
    using d x1 lasto_neq [of x zs] by (cases zs) (auto simp: lasto_def)
  let ?st3 = "set_nNext (set_nPrev ?st2 x None) x None"
  let ?l = "l\<lparr>dHead := hdo ys (hdo zs None), dTail := lasto (lasto None ys) zs, fNumNodes := fNumNodes l - 1\<rparr>"
  have seg1: "dseg ?st1 None ys (hdo zs None)"
  proof (cases ys rule: rev_cases)
    case (snoc ys' y)
    with dseg_set_nNext [of st None ys' y "Some x" "hdo zs None"] d(7) dis show ?thesis by simp
  qed simp
  have seg2: "dseg ?st1 (Some x) zs None"
    using d(8) dis by (cases ys rule: rev_cases) (auto simp: set_nNext_def)
  have seg2': "dseg ?st2 (lasto None ys) zs None"
  proof (cases zs)
    case (Cons z zs')
    with dseg_set_nPrev [of ?st1 "Some x" z zs' None "lasto None ys"] seg2 dis show ?thesis by simp
  qed simp
  have seg1': "dseg ?st2 None ys (hdo zs None)"
    using seg1 dis by (cases zs) (auto simp: set_nPrev_def)
  have fr: "dseg ?st3 p us q = dseg ?st2 p us q" if "x \<notin> set us" for p us q
    using that by simp
  have seg: "dseg ?st3 None (ys @ zs) None"
    unfolding dseg_append using fr [OF d(5)] fr [OF d(6)] seg1' seg2' by simp
  have rep': "dlist_rep (?st3, ?l) (ys @ zs)"
    using seg dis n by (simp add: dlist_rep_def)
  have "?st3 y = st y" if "y \<notin> set (ys @ x # zs)" for y
    using that by (cases ys rule: rev_cases; cases zs) (auto simp: set_nNext_def set_nPrev_def)
  moreover have "unlinked ?st3 x" by (simp add: unlinked_def set_nNext_def set_nPrev_def)
  moreover have "RemoveNode (st, l) x = Some (?st3, ?l)"
    unfolding RemoveNode_def Let_def prod.case node_linked_ok [OF rep] r1
    using r2 ValidateLinks_ok [OF rep'] by simp
  ultimately show ?thesis using rep' by (intro exI [of _ "(?st3, ?l)"]) simp
qed

text \<open>Iteration.\<close>

fun find_until :: "(nat \<Rightarrow> 'd \<Rightarrow> bool \<times> 'd) \<Rightarrow> 'd \<Rightarrow> nat list \<Rightarrow> nat option \<times> 'd" where
  "find_until f d [] = (None, d)"
| "find_until f d (x # xs) = (if fst (f x d) then (Some x, snd (f x d)) else find_until f (snd (f x d)) xs)"

lemma until_loop_ok: "dseg st p xs None \<Longrightarrow> until_loop st f d (hdo xs None) = Some (find_until f d xs)"
proof (induction xs arbitrary: p d)
  case (Cons x xs)
  then show ?case by (subst until_loop.simps) auto
qed (subst until_loop.simps, simp)

lemma ForEachUntil_ok: "dlist_rep s xs \<Longrightarrow> ForEachUntil s f d = Some (find_until f d xs)"
  using until_loop_ok [of "fst s" None xs f d] by (simp add: ForEachUntil_def dlist_rep_def)

lemma find_until_pred: "find_until (\<lambda>x d. (P x, d)) d xs = (List.find P xs, d)"
  by (induction xs) auto

lemma GetNthNode_ok:
  assumes "dlist_rep s xs"
  shows "GetNthNode s (int n) = Some (if n < length xs then Some (xs ! n) else None)"
proof -
  have "fst (find_until CompareIndexToZero (int n) xs) = (if n < length xs then Some (xs ! n) else None)"
    by (induction xs arbitrary: n) (auto simp: CompareIndexToZero_def nth_Cons of_nat_diff split: nat.splits)
  then show ?thesis by (simp add: GetNthNode_def ForEachUntil_ok [OF assms])
qed

lemma ClearList_loop:
  assumes "dlist_rep s xs"
  shows "\<exists>s'. each_loop DoClearList (hdo xs None) s = Some s' \<and> dlist_rep s' [] \<and>
    (\<forall>x \<in> set xs. unlinked (fst s') x) \<and> (\<forall>y. y \<notin> set xs \<longrightarrow> fst s' y = fst s y)"
  using assms
proof (induction xs arbitrary: s)
  case Nil
  then show ?case by (subst each_loop.simps) simp
next
  case (Cons x xs)
  obtain st l where s: "s = (st, l)" by (cases s)
  from RemoveNode_rep [of st l "[]" x xs] Cons.prems s obtain s1 where
    r: "RemoveNode s x = Some s1" "dlist_rep s1 xs" "unlinked (fst s1) x" "\<forall>y. y \<notin> set (x # xs) \<longrightarrow> fst s1 y = st y" by auto
  have nx: "nNext (fst s x) = hdo xs None" "x \<notin> set xs" using Cons.prems by (auto simp: dlist_rep_def)
  from Cons.IH [OF r(2)] obtain s' where
    s': "each_loop DoClearList (hdo xs None) s1 = Some s'" "dlist_rep s' []" "\<forall>y \<in> set xs. unlinked (fst s') y"
      "\<forall>y. y \<notin> set xs \<longrightarrow> fst s' y = fst s1 y" by auto
  have "DoClearList x s = Some s1" using r by (simp add: DoClearList_def unlinked_def)
  then have "each_loop DoClearList (hdo (x # xs) None) s = Some s'"
    using s'(1) nx by (subst each_loop.simps) simp
  moreover have "unlinked (fst s') x" using s'(4) nx(2) r(3) by (simp add: unlinked_def)
  ultimately show ?case using s' r(4) s by auto
qed

section \<open>The list as an interface\<close>

text \<open>
  What a client of the template sees: a sequence of nodes with insertion at both ends,
  removal of a member, and a search that stops at the first match.
\<close>

fun add_all :: "('s \<Rightarrow> 'n \<Rightarrow> 's option) \<Rightarrow> 's \<Rightarrow> 'n list \<Rightarrow> 's option" where
  "add_all add s [] = Some s"
| "add_all add s (x # xs) = (case add s x of None \<Rightarrow> None | Some s' \<Rightarrow> add_all add s' xs)"

locale node_list =
  fixes rep :: "'s \<Rightarrow> 'n list \<Rightarrow> bool"
    and free :: "'s \<Rightarrow> 'n \<Rightarrow> bool"
    and add_first :: "'s \<Rightarrow> 'n \<Rightarrow> 's option"
    and add_last :: "'s \<Rightarrow> 'n \<Rightarrow> 's option"
    and remove :: "'s \<Rightarrow> 'n \<Rightarrow> 's option"
    and search :: "'s \<Rightarrow> ('n \<Rightarrow> bool) \<Rightarrow> 'n option option"
  assumes rep_distinct: "rep s xs \<Longrightarrow> distinct xs"
    and first_law: "rep s xs \<Longrightarrow> x \<notin> set xs \<Longrightarrow> free s x \<Longrightarrow>
      \<exists>s'. add_first s x = Some s' \<and> rep s' (x # xs) \<and> (\<forall>y. free s y \<and> y \<notin> set (x # xs) \<longrightarrow> free s' y)"
    and last_law: "rep s xs \<Longrightarrow> x \<notin> set xs \<Longrightarrow> free s x \<Longrightarrow>
      \<exists>s'. add_last s x = Some s' \<and> rep s' (xs @ [x]) \<and> (\<forall>y. free s y \<and> y \<notin> set (x # xs) \<longrightarrow> free s' y)"
    and remove_law: "rep s (ys @ x # zs) \<Longrightarrow> \<exists>s'. remove s x = Some s' \<and> rep s' (ys @ zs) \<and> free s' x \<and>
      (\<forall>y. free s y \<and> y \<notin> set (ys @ x # zs) \<longrightarrow> free s' y)"
    and search_law: "rep s xs \<Longrightarrow> search s P = Some (List.find P xs)"
begin

lemma add_all_rev:
  assumes "rep s ys" "distinct xs" "set xs \<inter> set ys = {}" "\<And>x. x \<in> set xs \<Longrightarrow> free s x"
  shows "\<exists>s'. add_all add_first s xs = Some s' \<and> rep s' (rev xs @ ys)"
  using assms
proof (induction xs arbitrary: s ys)
  case (Cons x xs)
  from first_law [OF Cons.prems(1), of x] Cons.prems obtain s' where
    s': "add_first s x = Some s'" "rep s' (x # ys)" "\<forall>y. free s y \<and> y \<notin> set (x # ys) \<longrightarrow> free s' y" by auto
  have "\<exists>s''. add_all add_first s' xs = Some s'' \<and> rep s'' (rev xs @ x # ys)"
    using Cons.IH [OF s'(2)] Cons.prems s'(3) by auto
  with s'(1) show ?case by auto
qed auto

lemma search_latest:
  assumes "rep s []" "distinct xs" "\<And>x. x \<in> set xs \<Longrightarrow> free s x"
  shows "\<exists>s'. add_all add_first s xs = Some s' \<and> search s' P = Some (List.find P (rev xs))"
  using add_all_rev [OF assms(1,2) _ assms(3)] search_law by fastforce

end

interpretation dl: node_list dlist_rep "\<lambda>s. unlinked (fst s)" AddNode AddNodeToTail RemoveNode
  "\<lambda>s P. map_option fst (ForEachUntil s (\<lambda>x d. (P x, d)) ())"
proof (unfold_locales, goal_cases)
  case (1 s xs)
  then show ?case by (simp add: dlist_rep_def)
next
  case (2 s xs x)
  then show ?case using AddNode_rep [of "fst s" "snd s" xs x] by (auto simp: unlinked_def)
next
  case (3 s xs x)
  then show ?case using AddNodeToTail_rep [of "fst s" "snd s" xs x] by (auto simp: unlinked_def)
next
  case (4 s ys x zs)
  then show ?case using RemoveNode_rep [of "fst s" "snd s" ys x zs] by (auto simp: unlinked_def)
next
  case (5 s xs P)
  then show ?case by (simp add: ForEachUntil_ok find_until_pred)
qed

section \<open>Properties\<close>

text \<open>C40: The doubly linked list implements a sequence, the empty one included: inserting an
  unlinked node that is not in the list, at the head or at the tail, and removing a member at any
  position give the expected sequence and touch no other node; the assertions and the full link
  validation never fail; removal unlinks the node; the search stops at the first match; the n-th
  node is the one of the sequence, and none behind its end; the number of nodes is the length of
  the sequence as a 32-bit word; clearing the list ends, leaves it empty and unlinks every
  node.\<close>

theorem DList_refines_sequence:
  assumes "dlist_rep s xs"
  shows "(\<forall>y. y \<notin> set xs \<and> unlinked (fst s) y \<longrightarrow>
      (\<exists>s'. AddNode s y = Some s' \<and> dlist_rep s' (y # xs) \<and> (\<forall>z. z \<notin> set (y # xs) \<longrightarrow> fst s' z = fst s z)) \<and>
      (\<exists>s'. AddNodeToTail s y = Some s' \<and> dlist_rep s' (xs @ [y]) \<and> (\<forall>z. z \<notin> set (y # xs) \<longrightarrow> fst s' z = fst s z))) \<and>
    (\<forall>ys x zs. xs = ys @ x # zs \<longrightarrow>
      (\<exists>s'. RemoveNode s x = Some s' \<and> dlist_rep s' (ys @ zs) \<and> unlinked (fst s') x \<and>
        (\<forall>z. z \<notin> set xs \<longrightarrow> fst s' z = fst s z))) \<and>
    (\<forall>P. map_option fst (ForEachUntil s (\<lambda>x d. (P x, d)) ()) = Some (List.find P xs)) \<and>
    (\<forall>n. GetNthNode s (int n) = Some (if n < length xs then Some (xs ! n) else None)) \<and>
    GetNumNodes s = of_nat (length xs) \<and>
    ValidateLinks (fst s) (snd s) = Some () \<and>
    (\<exists>s'. ClearList s = Some s' \<and> dlist_rep s' [] \<and> (\<forall>x \<in> set xs. unlinked (fst s') x))"
proof -
  obtain st l where s: "s = (st, l)" by (cases s)
  have rep: "dlist_rep (st, l) xs" using assms s by simp
  have "\<exists>s'. ClearList s = Some s' \<and> dlist_rep s' [] \<and> (\<forall>x \<in> set xs. unlinked (fst s') x)"
    using ClearList_loop [OF assms] assms by (auto simp: ClearList_def ForEach_def dlist_rep_def)
  moreover have "map_option fst (ForEachUntil s (\<lambda>x d. (P x, d)) ()) = Some (List.find P xs)" for P
    using dl.search_law [OF assms] .
  moreover have "\<exists>s'. RemoveNode s x = Some s' \<and> dlist_rep s' (ys @ zs) \<and> unlinked (fst s') x \<and>
        (\<forall>z. z \<notin> set xs \<longrightarrow> fst s' z = fst s z)" if "xs = ys @ x # zs" for ys x zs
    using RemoveNode_rep [of st l ys x zs] rep that s by simp
  moreover have "GetNumNodes s = of_nat (length xs)" using assms by (simp add: GetNumNodes_def dlist_rep_def)
  moreover have "GetNthNode s (int n) = Some (if n < length xs then Some (xs ! n) else None)" for n
    using GetNthNode_ok [OF assms] .
  moreover have "ValidateLinks (fst s) (snd s) = Some ()" using ValidateLinks_ok [OF rep] s by simp
  moreover note AddNode_rep [OF rep] AddNodeToTail_rep [OF rep]
  ultimately show ?thesis using s by simp
qed

theorem DList_refines_sequence_witness:
  "\<exists>s. dlist_rep s [8] \<and> (\<exists>s'. AddNodeToTail s 5 = Some s' \<and> dlist_rep s' [8, 5]) \<and> GetNumNodes s = 1"
proof -
  let ?s0 = "(\<lambda>_::nat. DNode_new, DList_new)"
  have u: "unlinked (fst ?s0) y" for y by (simp add: unlinked_def DNode_new_def)
  have "\<exists>s. AddNode ?s0 8 = Some s \<and> dlist_rep s [8] \<and> (\<forall>z. z \<notin> set [8] \<longrightarrow> fst s z = fst ?s0 z)"
    using DList_refines_sequence [OF dlist_rep_empty, of "\<lambda>_. DNode_new"] u by (metis empty_iff empty_set)
  then obtain s where s: "dlist_rep s [8]" "\<forall>z. z \<notin> set [8] \<longrightarrow> fst s z = fst ?s0 z" by blast
  have "unlinked (fst s) 5" using s(2) u [of 5] by (simp add: unlinked_def)
  moreover have "\<forall>y. y \<notin> set [8] \<and> unlinked (fst s) y \<longrightarrow> (\<exists>s'. AddNodeToTail s y = Some s' \<and> dlist_rep s' ([8] @ [y]))"
    using DList_refines_sequence [OF s(1)] by blast
  ultimately have "\<exists>s'. AddNodeToTail s 5 = Some s' \<and> dlist_rep s' [8, 5]" by (simp del: split_paired_Ex)
  moreover have "GetNumNodes s = 1" using DList_refines_sequence [OF s(1)] by simp
  ultimately show ?thesis using s(1) by blast
qed

end
