(* ===== verification/CF_QueryParamList.thy ===== *)
theory CF_QueryParamList
  imports CF_StringParser CF_DList
begin

text \<open>
  Query strings: \<^verbatim>\<open>src/CFHttp/QueryParamList.cpp\<close>. The list of name/value pairs is the
  doubly linked list of theory \<open>CF_DList\<close>; the name and the value of a node are two
  allocated C strings. The address of a new node is the next unused one.
\<close>

section \<open>Decoding in place\<close>

definition IsHex :: "char \<Rightarrow> bool" where
  "IsHex c \<longleftrightarrow> 48 \<le> byte c \<and> byte c \<le> 57 \<or> 65 \<le> byte c \<and> byte c \<le> 70 \<or> 97 \<le> byte c \<and> byte c \<le> 102"

definition hex_value :: "char \<Rightarrow> nat" where
  "hex_value c = (if byte c \<le> 57 then byte c - 48 else if byte c \<le> 70 then byte c - 55 else byte c - 87)"

datatype line_state = kLastWasText | kPctEscape | kRcvHexDigitOne

text \<open>
  The loop of \<^verbatim>\<open>DecodeArg\<close>: \<open>m\<close> is the buffer, \<open>d\<close> the index of \<^verbatim>\<open>destPtr\<close>, \<open>i\<close> that of
  \<^verbatim>\<open>curChar\<close>, \<open>h\<close> the character in \<^verbatim>\<open>hexBuff[2]\<close>. \<^verbatim>\<open>strtoul\<close> of the digits
  \<^verbatim>\<open>0xhc\<close> is \<open>16 * hex_value h + hex_value c\<close>.
\<close>

function decode_arg_loop :: "mem \<Rightarrow> nat \<Rightarrow> nat \<Rightarrow> line_state \<Rightarrow> char \<Rightarrow> mem option" where
  "decode_arg_loop m d i lineState h =
     (if i \<ge> length m then None
      else
        (let c = m ! i
         in if c = NUL then Some (m[d := NUL])
            else case lineState of
              kRcvHexDigitOne \<Rightarrow>
                (if IsHex c
                 then decode_arg_loop (m[d := char_of (16 * hex_value h + hex_value c)]) (d + 1) (i + 1) kLastWasText h
                 else decode_arg_loop (m[d := CHR ''%'', d + 1 := h, d + 2 := c]) (d + 3) (i + 1) kLastWasText h)
            | kLastWasText \<Rightarrow>
                (if c = CHR ''%'' then decode_arg_loop m d (i + 1) kPctEscape h
                 else decode_arg_loop (m[d := (if c = CHR ''+'' then CHR '' '' else c)]) (d + 1) (i + 1) kLastWasText h)
            | kPctEscape \<Rightarrow>
                (if c = CHR ''%'' then decode_arg_loop (m[d := CHR ''%'']) (d + 1) (i + 1) kLastWasText h
                 else if IsHex c then decode_arg_loop m d (i + 1) kRcvHexDigitOne c
                 else decode_arg_loop (m[d := CHR ''%'', d + 1 := c]) (d + 2) (i + 1) kLastWasText h)))"
  by pat_completeness auto
termination
  by (relation "measure (\<lambda>(m, d, i, s, h). length m - i)") auto

declare decode_arg_loop.simps [simp del]

definition DecodeArg :: "mem option \<Rightarrow> mem option option" where
  "DecodeArg ioCodedPtr =
     (case ioCodedPtr of None \<Rightarrow> Some None | Some m \<Rightarrow> map_option Some (decode_arg_loop m 0 0 kLastWasText NUL))"

section \<open>The list of parameters\<close>

record QueryParamListElement =
  mName :: mem
  mValue :: mem

record QueryParamList =
  qNodes :: dstore
  fNameValueQueryParamList :: DList
  qElems :: "nat \<Rightarrow> QueryParamListElement"
  qNew :: nat

definition QueryParamList_new :: QueryParamList where
  "QueryParamList_new =
     \<lparr>qNodes = (\<lambda>_. DNode_new), fNameValueQueryParamList = DList_new,
      qElems = (\<lambda>_. \<lparr>mName = [], mValue = []\<rparr>), qNew = 0\<rparr>"

definition AddNameValuePairToList :: "QueryParamList \<Rightarrow> mem \<Rightarrow> mem \<Rightarrow> QueryParamList option" where
  "AddNameValuePairToList q name value =
     do {
       n \<leftarrow> decode_arg_loop name 0 0 kLastWasText NUL;
       v \<leftarrow> decode_arg_loop value 0 0 kLastWasText NUL;
       let nvNode = qNew q;
       (st, l) \<leftarrow> AddNode ((qNodes q)(nvNode := DNode_new), fNameValueQueryParamList q) nvNode;
       Some (q\<lparr>qNodes := st, fNameValueQueryParamList := l,
               qElems := (qElems q)(nvNode := \<lparr>mName = n, mValue = v\<rparr>), qNew := nvNode + 1\<rparr>)
     }"

text \<open>The value of a parameter, quoted or up to the next ampersand.\<close>

definition read_value :: "StringParser \<Rightarrow> (StrPtrLen \<times> StringParser) option" where
  "read_value p2 =
     do {
       c \<leftarrow> rdp (fObj p2) (fStartGet p2);
       if c = CHR 0x22 then
         do {
           (_, a) \<leftarrow> ConsumeLength p2 1;
           (v, b) \<leftarrow> ConsumeUntil a (CHR 0x22);
           (_, e) \<leftarrow> ConsumeLength b 1;
           (_, f) \<leftarrow> ConsumeUntil e (CHR ''&'');
           Some (v, f)
         }
       else ConsumeUntil p2 (CHR ''&'')
     }"

partial_function (option) build_loop :: "StringParser \<Rightarrow> QueryParamList \<Rightarrow> QueryParamList option" where
  "build_loop p q =
     (if GetDataRemaining p > 0 then
        do {
          (theCGIParamName, p1) \<leftarrow> ConsumeUntil p (CHR ''='');
          if GetDataRemaining p1 \<ge> 1 then
            do {
              (_, p2) \<leftarrow> ConsumeLength p1 1;
              (theCGIParamValue, p3) \<leftarrow> read_value p2;
              name \<leftarrow> GetAsCString theCGIParamName;
              value \<leftarrow> GetAsCString theCGIParamValue;
              q' \<leftarrow> AddNameValuePairToList q name value;
              (_, p4) \<leftarrow> ConsumeLength p3 1;
              build_loop p4 q'
            }
          else build_loop p1 q
        }
      else Some q)"

declare build_loop.simps [code]

definition BulidList :: "QueryParamList \<Rightarrow> StrPtrLen \<Rightarrow> QueryParamList option" where
  "BulidList q querySPL = build_loop (StringParser_new (Some querySPL)) q"

definition CompareStrToName :: "QueryParamList \<Rightarrow> mem \<Rightarrow> nat \<Rightarrow> bool option" where
  "CompareStrToName q userData node =
     do {
       n \<leftarrow> strlen (mName (qElems q node));
       k \<leftarrow> strlen userData;
       EqualIgnoreCase \<lparr>Ptr = Some (mName (qElems q node)), Len = n\<rparr> (Some userData) k
     }"

text \<open>The search stops at a comparison that reads outside the case table (\<open>None\<close>).\<close>

definition DoFindCGIValueForParam :: "QueryParamList \<Rightarrow> mem \<Rightarrow> mem option option" where
  "DoFindCGIValueForParam q name =
     do {
       node \<leftarrow> map_option fst (ForEachUntil (qNodes q, fNameValueQueryParamList q)
                 (\<lambda>x d. (CompareStrToName q name x \<noteq> Some False, d)) ());
       case node of
         None \<Rightarrow> Some None
       | Some x \<Rightarrow> do { CompareStrToName q name x; Some (Some (mValue (qElems q x))) }
     }"


section \<open>Form decoding\<close>

text \<open>What the decoder computes, as a function on strings.\<close>

fun form_decode :: "string \<Rightarrow> string" where
  "form_decode [] = []"
| "form_decode (c # r) =
     (if c = CHR ''+'' then CHR '' '' # form_decode r
      else if c \<noteq> CHR ''%'' then c # form_decode r
      else
        (case r of
           [] \<Rightarrow> []
         | a # r1 \<Rightarrow>
             if a = CHR ''%'' then CHR ''%'' # form_decode r1
             else if \<not> IsHex a then CHR ''%'' # a # form_decode r1
             else
               (case r1 of
                  [] \<Rightarrow> []
                | b # r2 \<Rightarrow>
                    if IsHex b then char_of (16 * hex_value a + hex_value b) # form_decode r2
                    else CHR ''%'' # a # b # form_decode r2)))"

text \<open>The same by states, as the loop goes.\<close>

fun decode_from :: "line_state \<Rightarrow> char \<Rightarrow> string \<Rightarrow> string" where
  "decode_from s h [] = []"
| "decode_from kRcvHexDigitOne h (c # r) =
     (if IsHex c then char_of (16 * hex_value h + hex_value c) # decode_from kLastWasText h r
      else CHR ''%'' # h # c # decode_from kLastWasText h r)"
| "decode_from kLastWasText h (c # r) =
     (if c = CHR ''%'' then decode_from kPctEscape h r
      else (if c = CHR ''+'' then CHR '' '' else c) # decode_from kLastWasText h r)"
| "decode_from kPctEscape h (c # r) =
     (if c = CHR ''%'' then CHR ''%'' # decode_from kLastWasText h r
      else if IsHex c then decode_from kRcvHexDigitOne c r
      else CHR ''%'' # c # decode_from kLastWasText h r)"

declare form_decode.simps(2) [simp del]

lemma decode_from_form: "decode_from kLastWasText h xs = form_decode xs"
proof (induction xs arbitrary: h rule: length_induct)
  case (1 xs)
  then have IH: "length ys < length xs \<Longrightarrow> decode_from kLastWasText g ys = form_decode ys" for ys g by blast
  show ?case
  proof (cases xs)
    case c: (Cons c r)
    show ?thesis
    proof (cases "c = CHR ''%''")
      case False
      then show ?thesis using IH [of r] by (simp add: c form_decode.simps(2) [of c r])
    next
      case True
      show ?thesis
      proof (cases r)
        case Nil
        with True show ?thesis by (simp add: c form_decode.simps(2))
      next
        case a: (Cons a r1)
        show ?thesis
        proof (cases "a = CHR ''%'' \<or> \<not> IsHex a")
          case t: True
          then show ?thesis using IH [of r1] True form_decode.simps(2) [of c r] by (auto simp: c a)
        next
          case f: False
          then show ?thesis using True IH form_decode.simps(2) [of c r] by (cases r1) (auto simp: c a)
        qed
      qed
    qed
  qed simp
qed

definition pending :: "line_state \<Rightarrow> nat" where
  "pending s = (case s of kLastWasText \<Rightarrow> 0 | kPctEscape \<Rightarrow> 1 | kRcvHexDigitOne \<Rightarrow> 2)"

lemma decode_from_length: "length (decode_from s h xs) \<le> pending s + length xs"
  by (induction s h xs rule: decode_from.induct) (auto simp: pending_def)

lemma drop_upd_before: "d < i \<Longrightarrow> drop i (m[d := v]) = drop i m"
  by (simp add: drop_update_cancel)

text \<open>The write index never overtakes the read index: what is still to be read is intact.\<close>

lemma decode_arg_loop_ok:
  assumes "drop i m = r @ NUL # z" "NUL \<notin> set r" "d + pending s \<le> i" "length m = i + length r + 1 + length z"
  shows "\<exists>m'. decode_arg_loop m d i s h = Some m' \<and> take d m' = take d m \<and> length m' = length m \<and>
    take (length (decode_from s h r)) (drop d m') = decode_from s h r \<and> m' ! (d + length (decode_from s h r)) = NUL"
  using assms
proof (induction r arbitrary: i m d s h)
  case Nil
  have i: "i < length m" "m ! i = NUL" using Nil.prems by (auto simp: drop_nth_Cons)
  then have "decode_arg_loop m d i s h = Some (m[d := NUL])" by (subst decode_arg_loop.simps) simp
  moreover have "d < length m" using Nil.prems i by simp
  ultimately show ?case by simp
next
  case (Cons c r)
  have len: "i < length m" "d \<le> i" using Cons.prems by auto
  have c: "m ! i = c" "c \<noteq> NUL" "drop (Suc i) m = r @ NUL # z" "NUL \<notin> set r"
    using Cons.prems(1,2) len(1) by (auto simp: Cons_nth_drop_Suc [symmetric])
  have IH: "\<exists>m'. decode_arg_loop m1 d1 (i + 1) s1 h1 = Some m' \<and> take d1 m' = take d1 m1 \<and> length m' = length m1 \<and>
    take (length (decode_from s1 h1 r)) (drop d1 m') = decode_from s1 h1 r \<and> m' ! (d1 + length (decode_from s1 h1 r)) = NUL"
    if "drop (Suc i) m1 = drop (Suc i) m" "d1 + pending s1 \<le> i + 1" "length m1 = length m" for m1 d1 s1 h1
    using that c Cons.prems(4) by (intro Cons.IH) auto
  have step: ?case
    if st: "decode_arg_loop m d i s h = decode_arg_loop m1 (d + length w) (i + 1) s1 h1"
      "decode_from s h (c # r) = w @ decode_from s1 h1 r" "drop (Suc i) m1 = drop (Suc i) m"
      "take (d + length w) m1 = take d m @ w" "length m1 = length m" "d + length w + pending s1 \<le> i + 1" for m1 w s1 h1
  proof -
    from IH [OF st(3,6,5), of h1] obtain m' where m': "decode_arg_loop m1 (d + length w) (i + 1) s1 h1 = Some m'"
      "take (d + length w) m' = take d m @ w" "length m' = length m"
      "take (length (decode_from s1 h1 r)) (drop (d + length w) m') = decode_from s1 h1 r"
      "m' ! (d + length w + length (decode_from s1 h1 r)) = NUL" using st(4,5) by auto
    have dl: "length (take d m) = d" using len by simp
    have "take d m' = take d (take (d + length w) m')" by simp
    also have "\<dots> = take d m" unfolding m'(2) using dl by simp
    finally have 1: "take d m' = take d m" .
    have "take (length w) (drop d m') = drop d (take (d + length w) m')" by (simp add: drop_take)
    also have "\<dots> = w" unfolding m'(2) using dl by simp
    finally have 2: "take (length w) (drop d m') = w" .
    have "take (length w + length (decode_from s1 h1 r)) (drop d m') = w @ decode_from s1 h1 r"
      unfolding take_add 2 using m'(4) by (simp add: add.commute)
    with m' 1 st(1,2) show ?thesis by (simp add: add.assoc)
  qed
  have u: "decode_arg_loop m d i s h =
      (case s of
         kRcvHexDigitOne \<Rightarrow>
           (if IsHex c
            then decode_arg_loop (m[d := char_of (16 * hex_value h + hex_value c)]) (d + 1) (i + 1) kLastWasText h
            else decode_arg_loop (m[d := CHR ''%'', d + 1 := h, d + 2 := c]) (d + 3) (i + 1) kLastWasText h)
       | kLastWasText \<Rightarrow>
           (if c = CHR ''%'' then decode_arg_loop m d (i + 1) kPctEscape h
            else decode_arg_loop (m[d := (if c = CHR ''+'' then CHR '' '' else c)]) (d + 1) (i + 1) kLastWasText h)
       | kPctEscape \<Rightarrow>
           (if c = CHR ''%'' then decode_arg_loop (m[d := CHR ''%'']) (d + 1) (i + 1) kLastWasText h
            else if IsHex c then decode_arg_loop m d (i + 1) kRcvHexDigitOne c
            else decode_arg_loop (m[d := CHR ''%'', d + 1 := c]) (d + 2) (i + 1) kLastWasText h))"
    by (subst decode_arg_loop.simps) (use len(1) c(1,2) in \<open>simp add: Let_def\<close>)
  have w1: "take (d + 1) (m[d := x]) = take d m @ [x]" for x
    using len by (simp add: take_Suc_conv_app_nth)
  show ?case
  proof (cases s)
    case s: kLastWasText
    show ?thesis
    proof (cases "c = CHR ''%''")
      case True
      then show ?thesis using u s Cons.prems(3) by (intro step [of m "[]" kPctEscape h]) (auto simp: pending_def)
    next
      case False
      let ?x = "if c = CHR ''+'' then CHR '' '' else c"
      show ?thesis using u s False Cons.prems(3) w1
        by (intro step [of "m[d := ?x]" "[?x]" kLastWasText h]) (auto simp: pending_def)
    qed
  next
    case s: kPctEscape
    then have di: "d + 1 \<le> i" using Cons.prems(3) by (simp add: pending_def)
    have w2: "take (d + 2) (m[d := x, d + 1 := y]) = take d m @ [x, y]" for x y
      using len di by (simp add: take_Suc_conv_app_nth numeral_2_eq_2)
    consider "c = CHR ''%''" | "c \<noteq> CHR ''%''" "IsHex c" | "c \<noteq> CHR ''%''" "\<not> IsHex c" by blast
    then show ?thesis
    proof cases
      case 1
      then show ?thesis using u s di w1
        by (intro step [of "m[d := CHR ''%'']" "''%''" kLastWasText h]) (auto simp: pending_def)
    next
      case 2
      then show ?thesis using u s Cons.prems(3)
        by (intro step [of m "[]" kRcvHexDigitOne c]) (auto simp: pending_def)
    next
      case 3
      then show ?thesis using u s di w2
        by (intro step [of "m[d := CHR ''%'', d + 1 := c]" "[CHR ''%'', c]" kLastWasText h]) (auto simp: pending_def)
    qed
  next
    case s: kRcvHexDigitOne
    then have di: "d + 2 \<le> i" using Cons.prems(3) by (simp add: pending_def)
    have w3: "take (d + 3) (m[d := x, d + 1 := y, d + 2 := z]) = take d m @ [x, y, z]" for x y z
      using len di by (simp add: take_Suc_conv_app_nth numeral_2_eq_2 numeral_3_eq_3)
    show ?thesis
    proof (cases "IsHex c")
      case True
      then show ?thesis using u s di w1
        by (intro step [of "m[d := char_of (16 * hex_value h + hex_value c)]" "[char_of (16 * hex_value h + hex_value c)]" kLastWasText h])
           (auto simp: pending_def)
    next
      case False
      then show ?thesis using u s di w3
        by (intro step [of "m[d := CHR ''%'', d + 1 := h, d + 2 := c]" "[CHR ''%'', h, c]" kLastWasText h])
           (auto simp: pending_def numeral_3_eq_3)
    qed
  qed
qed


text \<open>The C string that the decoder leaves in the buffer.\<close>

definition arg_text :: "string \<Rightarrow> string" where
  "arg_text s = takeWhile (\<lambda>c. c \<noteq> NUL) (form_decode (takeWhile (\<lambda>c. c \<noteq> NUL) s))"

lemma takeWhile_take_NUL:
  assumes "take k m = w" "k < length m" "m ! k = NUL" "length w = k"
  shows "NUL \<in> set m" "takeWhile (\<lambda>c. c \<noteq> NUL) m = takeWhile (\<lambda>c. c \<noteq> NUL) w"
proof -
  have m: "m = w @ NUL # drop (Suc k) m" using assms by (metis id_take_nth_drop)
  then show "NUL \<in> set m" by (metis in_set_conv_decomp)
  have "takeWhile (\<lambda>c. c \<noteq> NUL) (w @ NUL # z) = takeWhile (\<lambda>c. c \<noteq> NUL) w" for z by (induction w) auto
  then show "takeWhile (\<lambda>c. c \<noteq> NUL) m = takeWhile (\<lambda>c. c \<noteq> NUL) w" by (subst m) blast
qed

lemma cstr_takeWhile: "cstr (s @ [NUL]) = Some (takeWhile (\<lambda>c. c \<noteq> NUL) s)"
  by (auto simp: cstr_def takeWhile_tail)

lemma decode_arg_cstr:
  shows "\<exists>m'. decode_arg_loop (s @ [NUL]) 0 0 kLastWasText NUL = Some m' \<and> cstr m' = Some (arg_text s)"
proof -
  let ?r = "takeWhile (\<lambda>c. c \<noteq> NUL) s"
  have d: "\<exists>z. s @ [NUL] = ?r @ NUL # z"
    by (induction s) auto
  then obtain z where z: "s @ [NUL] = ?r @ NUL # z" by blast
  have "NUL \<notin> set ?r" by (auto dest: set_takeWhileD)
  with decode_arg_loop_ok [of 0 "s @ [NUL]" ?r z 0 kLastWasText NUL] z obtain m' where
    m': "decode_arg_loop (s @ [NUL]) 0 0 kLastWasText NUL = Some m'" "length m' = length (s @ [NUL])"
      "take (length (form_decode ?r)) m' = form_decode ?r" "m' ! length (form_decode ?r) = NUL"
    by (auto simp: pending_def decode_from_form)
  have "length (form_decode ?r) \<le> length ?r"
    using decode_from_length [of kLastWasText NUL ?r] by (simp add: decode_from_form pending_def)
  also have "\<dots> \<le> length s" by (rule length_takeWhile_le)
  finally have "length (form_decode ?r) < length m'" using m'(2) by simp
  from takeWhile_take_NUL [OF m'(3) this m'(4) refl] m'(1) show ?thesis by (simp add: cstr_def arg_text_def)
qed

section \<open>Parsing a query\<close>

lemma parse_query_shorter:
  assumes "dropWhile P s \<noteq> []"
  shows "length (drop 1 (dropWhile Q (tl (dropWhile P s)))) < length s"
    "length (drop 1 (dropWhile Q (drop 1 (dropWhile R (tl (tl (dropWhile P s))))))) < length s"
proof -
  have 1: "length (tl (dropWhile P s)) < length s"
    using assms length_dropWhile_le [of P s] by (cases "dropWhile P s") auto
  then show "length (drop 1 (dropWhile Q (tl (dropWhile P s)))) < length s"
    using length_dropWhile_le [of Q "tl (dropWhile P s)"] by simp
  show "length (drop 1 (dropWhile Q (drop 1 (dropWhile R (tl (tl (dropWhile P s))))))) < length s"
    using 1 length_dropWhile_le [of R "tl (tl (dropWhile P s))"]
      length_dropWhile_le [of Q "drop 1 (dropWhile R (tl (tl (dropWhile P s))))"] by simp
qed

function parse_query :: "string \<Rightarrow> (string \<times> string) list" where
  "parse_query s =
     (let name = takeWhile (\<lambda>c. c \<noteq> CHR ''='') s; r = dropWhile (\<lambda>c. c \<noteq> CHR ''='') s
      in if r = [] then []
         else
           (let r1 = tl r
            in if r1 \<noteq> [] \<and> hd r1 = CHR 0x22
               then (let q = tl r1
                     in (name, takeWhile (\<lambda>c. c \<noteq> CHR 0x22) q)
                        # parse_query (drop 1 (dropWhile (\<lambda>c. c \<noteq> CHR ''&'') (drop 1 (dropWhile (\<lambda>c. c \<noteq> CHR 0x22) q)))))
               else (name, takeWhile (\<lambda>c. c \<noteq> CHR ''&'') r1)
                    # parse_query (drop 1 (dropWhile (\<lambda>c. c \<noteq> CHR ''&'') r1))))"
  by pat_completeness auto

termination
proof (relation "measure length", goal_cases)
  case (2 s name r r1 q)
  then show ?case using parse_query_shorter(2) [of "\<lambda>c. c \<noteq> CHR ''=''" s] by simp
next
  case (3 s name r r1)
  then show ?case using parse_query_shorter(1) [of "\<lambda>c. c \<noteq> CHR ''=''" s] by simp
qed simp

declare parse_query.simps [simp del]

definition qpl_rep :: "QueryParamList \<Rightarrow> nat list \<Rightarrow> (string \<times> string) list \<Rightarrow> bool" where
  "qpl_rep q xs ps \<longleftrightarrow> dlist_rep (qNodes q, fNameValueQueryParamList q) xs \<and> (\<forall>x \<in> set xs. x < qNew q) \<and>
     map (\<lambda>x. (cstr (mName (qElems q x)), cstr (mValue (qElems q x)))) xs = map (\<lambda>(n, v). (Some n, Some v)) ps"

lemma AddNameValuePairToList_ok:
  assumes "qpl_rep q xs ps"
  shows "\<exists>q'. AddNameValuePairToList q (n @ [NUL]) (v @ [NUL]) = Some q' \<and> qpl_rep q' (qNew q # xs) ((arg_text n, arg_text v) # ps)"
proof -
  obtain a where a: "decode_arg_loop (n @ [NUL]) 0 0 kLastWasText NUL = Some a" "cstr a = Some (arg_text n)"
    using decode_arg_cstr by blast
  obtain b where b: "decode_arg_loop (v @ [NUL]) 0 0 kLastWasText NUL = Some b" "cstr b = Some (arg_text v)"
    using decode_arg_cstr by blast
  let ?st = "(qNodes q)(qNew q := DNode_new)"
  have nw: "qNew q \<notin> set xs" using assms by (auto simp: qpl_rep_def)
  have "dlist_rep (?st, fNameValueQueryParamList q) xs"
    using assms nw by (simp add: qpl_rep_def dlist_rep_def)
  from AddNode_rep [OF this nw] obtain st l where
    s: "AddNode (?st, fNameValueQueryParamList q) (qNew q) = Some (st, l)" "dlist_rep (st, l) (qNew q # xs)"
    by (auto simp: unlinked_def DNode_new_def)
  let ?q = "q\<lparr>qNodes := st, fNameValueQueryParamList := l, qElems := (qElems q)(qNew q := \<lparr>mName = a, mValue = b\<rparr>), qNew := qNew q + 1\<rparr>"
  have "AddNameValuePairToList q (n @ [NUL]) (v @ [NUL]) = Some ?q"
    using a(1) b(1) s(1) by (simp add: AddNameValuePairToList_def Let_def)
  moreover have "map (\<lambda>x. (cstr (mName (qElems ?q x)), cstr (mValue (qElems ?q x)))) (qNew q # xs) =
      map (\<lambda>(n, v). (Some n, Some v)) ((arg_text n, arg_text v) # ps)"
  proof -
    have e: "map (\<lambda>x. (cstr (mName (qElems ?q x)), cstr (mValue (qElems ?q x)))) xs =
        map (\<lambda>x. (cstr (mName (qElems q x)), cstr (mValue (qElems q x)))) xs"
      using nw by (intro map_cong) auto
    show ?thesis unfolding list.map e using assms a(2) b(2) by (simp add: qpl_rep_def)
  qed
  moreover have "\<forall>x \<in> set (qNew q # xs). x < qNew ?q" using assms by (auto simp: qpl_rep_def)
  ultimately show ?thesis using s(2) unfolding qpl_rep_def by (intro exI [of _ ?q]) simp
qed


definition arg_pair :: "string \<times> string \<Rightarrow> string \<times> string" where
  "arg_pair nv = (arg_text (fst nv), arg_text (snd nv))"

lemma remaining_pos: "parser_ok p m \<Longrightarrow> GetDataRemaining p > 0 \<longleftrightarrow> remaining p \<noteq> []"
  by (metis GetDataRemaining_def length_greater_0_conv length_remaining)

lemma GetAsCString_valid: "valid s \<Longrightarrow> GetAsCString s = Some (str s @ [NUL])"
  by (auto simp: GetAsCString_def valid_def str_def split: option.splits)

lemma read_valueE:
  assumes ok: "parser_ok p m" and fend: "fEndGet p < length m"
  obtains v p' where "read_value p = Some (v, p')" "parser_ok p' m" "valid v" "fEndGet p' = fEndGet p"
    "str v = (if remaining p \<noteq> [] \<and> hd (remaining p) = CHR 0x22 then takeWhile (\<lambda>c. c \<noteq> CHR 0x22) (tl (remaining p))
       else takeWhile (\<lambda>c. c \<noteq> CHR ''&'') (remaining p))"
    "remaining p' = (if remaining p \<noteq> [] \<and> hd (remaining p) = CHR 0x22
       then dropWhile (\<lambda>c. c \<noteq> CHR ''&'') (drop 1 (dropWhile (\<lambda>c. c \<noteq> CHR 0x22) (tl (remaining p))))
       else dropWhile (\<lambda>c. c \<noteq> CHR ''&'') (remaining p))"
proof -
  have st: "fStartGet p < length m" "fObj p = Some m" using ok fend by (auto simp: parser_ok_def)
  let ?c = "m ! fStartGet p"
  have rd: "rdp (fObj p) (fStartGet p) = Some ?c" using st by (simp add: rdp_def)
  have hd: "remaining p \<noteq> [] \<Longrightarrow> hd (remaining p) = ?c"
    using nth_remaining [OF ok, of 0] remaining_pos [OF ok] by (simp add: hd_conv_nth GetDataRemaining_def)
  obtain o1 a where a: "ConsumeLength p 1 = Some (o1, a)" "parser_ok a m" "remaining a = drop 1 (remaining p)" "fEndGet a = fEndGet p"
    using ConsumeLength1E [OF ok] by metis
  obtain v b where b: "ConsumeUntil a (CHR 0x22) = Some (v, b)" "parser_ok b m" "str v = takeWhile (\<lambda>x. x \<noteq> CHR 0x22) (remaining a)"
    "remaining b = dropWhile (\<lambda>x. x \<noteq> CHR 0x22) (remaining a)" "valid v" "fEndGet b = fEndGet a" using ConsumeUntilE [OF a(2)] by metis
  obtain o2 e where e: "ConsumeLength b 1 = Some (o2, e)" "parser_ok e m" "remaining e = drop 1 (remaining b)" "fEndGet e = fEndGet b"
    using ConsumeLength1E [OF b(2)] by metis
  obtain o3 f where f: "ConsumeUntil e (CHR ''&'') = Some (o3, f)" "parser_ok f m"
    "remaining f = dropWhile (\<lambda>x. x \<noteq> CHR ''&'') (remaining e)" "fEndGet f = fEndGet e" using ConsumeUntilE [OF e(2)] by metis
  obtain w g where g: "ConsumeUntil p (CHR ''&'') = Some (w, g)" "parser_ok g m" "str w = takeWhile (\<lambda>x. x \<noteq> CHR ''&'') (remaining p)"
    "remaining g = dropWhile (\<lambda>x. x \<noteq> CHR ''&'') (remaining p)" "valid w" "fEndGet g = fEndGet p" using ConsumeUntilE [OF ok] by metis
  show thesis
  proof (cases "?c = CHR 0x22")
    case True
    have r: "read_value p = Some (v, f)" using rd True a(1) b(1) e(1) f(1) by (simp add: read_value_def)
    show thesis
    proof (rule that [OF r f(2) b(5)])
      show "fEndGet f = fEndGet p" using a b e f by simp
    qed (use True hd a b e f in \<open>cases "remaining p = []"; auto simp: drop_Suc\<close>)+
  next
    case False
    then have r: "read_value p = Some (w, g)" using rd g(1) by (simp add: read_value_def)
    show thesis by (rule that [OF r g(2,5,6)]) (use False hd g in auto)
  qed
qed

lemma build_loop_ok:
  assumes "parser_ok p m" "fEndGet p < length m" "qpl_rep q xs ps"
  shows "\<exists>q' ys. build_loop p q = Some q' \<and> qpl_rep q' ys (rev (map arg_pair (parse_query (remaining p))) @ ps)"
  using assms
proof (induction "length (remaining p)" arbitrary: p q xs ps rule: less_induct)
  case less
  note ok = less.prems(1)
  let ?s = "remaining p"
  obtain nm p1 where n: "ConsumeUntil p (CHR ''='') = Some (nm, p1)" "parser_ok p1 m" "str nm = takeWhile (\<lambda>x. x \<noteq> CHR ''='') ?s"
    "remaining p1 = dropWhile (\<lambda>x. x \<noteq> CHR ''='') ?s" "valid nm" "fEndGet p1 = fEndGet p" using ConsumeUntilE [OF ok] by metis
  let ?r = "dropWhile (\<lambda>x. x \<noteq> CHR ''='') ?s"
  show ?case
  proof (cases "?r = []")
    case True
    then have pq: "parse_query ?s = []" by (subst parse_query.simps) (simp add: Let_def)
    have "build_loop p q = Some q"
    proof (cases "?s = []")
      case e: True
      then show ?thesis using remaining_pos [OF ok] by (subst build_loop.simps) simp
    next
      case ne: False
      have z: "\<not> GetDataRemaining p1 > 0" using remaining_pos [OF n(2)] n(4) True by simp
      then have "build_loop p1 q = Some q" by (subst build_loop.simps) simp
      then show ?thesis using remaining_pos [OF ok] ne z n(1) by (subst build_loop.simps) (simp add: not_le)
    qed
    then show ?thesis using less.prems(3) pq by auto
  next
    case ne: False
    then have sne: "?s \<noteq> []" by auto
    obtain o2 p2 where p2: "ConsumeLength p1 1 = Some (o2, p2)" "parser_ok p2 m" "remaining p2 = drop 1 (remaining p1)"
      "fEndGet p2 = fEndGet p1" using ConsumeLength1E [OF n(2)] by metis
    have r2: "remaining p2 = tl ?r" using p2(3) n(4) by (simp add: drop_Suc)
    obtain v p3 where v: "read_value p2 = Some (v, p3)" "parser_ok p3 m" "valid v" "fEndGet p3 = fEndGet p2"
      "str v = (if tl ?r \<noteq> [] \<and> hd (tl ?r) = CHR 0x22 then takeWhile (\<lambda>c. c \<noteq> CHR 0x22) (tl (tl ?r))
         else takeWhile (\<lambda>c. c \<noteq> CHR ''&'') (tl ?r))"
      "remaining p3 = (if tl ?r \<noteq> [] \<and> hd (tl ?r) = CHR 0x22
         then dropWhile (\<lambda>c. c \<noteq> CHR ''&'') (drop 1 (dropWhile (\<lambda>c. c \<noteq> CHR 0x22) (tl (tl ?r))))
         else dropWhile (\<lambda>c. c \<noteq> CHR ''&'') (tl ?r))"
      using read_valueE [OF p2(2)] less.prems(2) n(6) p2(4) r2 by metis
    obtain o4 p4 where p4: "ConsumeLength p3 1 = Some (o4, p4)" "parser_ok p4 m" "remaining p4 = drop 1 (remaining p3)"
      "fEndGet p4 = fEndGet p3" using ConsumeLength1E [OF v(2)] by metis
    have pq: "parse_query ?s = (str nm, str v) # parse_query (remaining p4)"
      using ne by (subst parse_query.simps) (auto simp: Let_def n(3) v(5,6) p4(3))
    obtain q1 where q1: "AddNameValuePairToList q (str nm @ [NUL]) (str v @ [NUL]) = Some q1"
        "qpl_rep q1 (qNew q # xs) ((arg_text (str nm), arg_text (str v)) # ps)"
      using AddNameValuePairToList_ok [OF less.prems(3)] by blast
    have sh: "length (remaining p4) < length ?s"
      using parse_query_shorter [OF ne] p4(3) v(6) by (auto split: if_splits)
    have "fEndGet p4 < length m" using less.prems(2) n(6) p2(4) v(4) p4(4) by simp
    from less.hyps [OF sh p4(2) this q1(2)] obtain q' ys where
      q': "build_loop p4 q1 = Some q'"
        "qpl_rep q' ys (rev (map arg_pair (parse_query (remaining p4))) @ (arg_text (str nm), arg_text (str v)) # ps)" by blast
    have g1: "GetDataRemaining p > 0" "GetDataRemaining p1 \<ge> Suc 0"
      using remaining_pos [OF ok] remaining_pos [OF n(2)] sne ne n(4) by auto
    have "build_loop p q = build_loop p4 q1"
      using g1 n(1) p2(1) v(1) q1(1) p4(1) GetAsCString_valid [OF n(5)] GetAsCString_valid [OF v(3)]
      by (subst build_loop.simps) simp
    then show ?thesis using q' by (auto simp: pq arg_pair_def)
  qed
qed


text \<open>The search through the list.\<close>

lemma strlen_cstr: "cstr m = Some s \<Longrightarrow> strlen m = Some (length s) \<and> take (length s) m = s \<and> length s < length m"
proof -
  assume "cstr m = Some s"
  then have n: "NUL \<in> set m" "s = takeWhile (\<lambda>c. c \<noteq> NUL) m" by (auto simp: cstr_def split: if_splits)
  moreover have "length s < length m"
  proof (rule ccontr)
    assume "\<not> length s < length m"
    then have "takeWhile (\<lambda>c. c \<noteq> NUL) m = m"
      using n(2) length_takeWhile_le [of "\<lambda>c. c \<noteq> NUL" m] by (metis not_less order_antisym take_all takeWhile_eq_take)
    then show False using n(1) by (metis (mono_tags, lifting) set_takeWhileD)
  qed
  ultimately show ?thesis by (simp add: strlen_def)
qed

definition same_name :: "string \<Rightarrow> string \<times> string \<Rightarrow> bool" where
  "same_name name nv \<longleftrightarrow> map tolower (fst nv) = map tolower name"

lemma CompareStrToName_ok:
  assumes "cstr (mName (qElems q x)) = Some n" "cstr userData = Some name" "\<forall>a \<in> set n \<union> set name. byte a < 130"
  shows "CompareStrToName q userData x = Some (same_name name (n, v))"
proof -
  note a = strlen_cstr [OF assms(1)] and b = strlen_cstr [OF assms(2)]
  have "EqualIgnoreCase \<lparr>Ptr = Some (mName (qElems q x)), Len = length n\<rparr> (Some userData) (length name) =
      Some (map tolower n = map tolower (take (length name) userData))"
    using EqualIgnoreCase_eq [of "\<lparr>Ptr = Some (mName (qElems q x)), Len = length n\<rparr>" "length name" userData] a b assms(3)
    by (simp add: valid_def str_def)
  then show ?thesis using a b by (simp add: CompareStrToName_def same_name_def)
qed

lemma find_map_eq:
  assumes "map f xs = map g ys" "\<And>x y. x \<in> set xs \<Longrightarrow> y \<in> set ys \<Longrightarrow> f x = g y \<Longrightarrow> P x = Q y"
  shows "rel_option (\<lambda>x y. x \<in> set xs \<and> f x = g y) (List.find P xs) (List.find Q ys)"
  using assms
proof (induction xs arbitrary: ys)
  case (Cons x xs)
  then obtain y ys' where ys: "ys = y # ys'" "f x = g y" "map f xs = map g ys'" by (cases ys) auto
  have "rel_option (\<lambda>x y. x \<in> set xs \<and> f x = g y) (List.find P xs) (List.find Q ys')"
    by (rule Cons.IH [OF ys(3)]) (use Cons.prems(2) ys in auto)
  moreover have "P x = Q y" using Cons.prems(2) ys by auto
  ultimately show ?case using ys by (auto elim: option.rel_mono_strong)
qed auto

lemma DoFind_ok:
  assumes rep: "qpl_rep q xs ps" and nm: "cstr userData = Some name" "\<forall>a \<in> set name. byte a < 130"
    and asc: "\<forall>nv \<in> set ps. \<forall>a \<in> set (fst nv). byte a < 130"
  shows "\<exists>r. DoFindCGIValueForParam q userData = Some r \<and> map_option cstr r = map_option (Some \<circ> snd) (List.find (same_name name) ps)"
proof -
  let ?P = "\<lambda>x. CompareStrToName q userData x \<noteq> Some False"
  let ?f = "\<lambda>x. (cstr (mName (qElems q x)), cstr (mValue (qElems q x)))"
  have d: "dlist_rep (qNodes q, fNameValueQueryParamList q) xs" and m: "map ?f xs = map (\<lambda>(n, v). (Some n, Some v)) ps"
    using rep by (auto simp: qpl_rep_def)
  have se: "map_option fst (ForEachUntil (qNodes q, fNameValueQueryParamList q) (\<lambda>x d. (?P x, d)) ()) = Some (List.find ?P xs)"
    by (rule dl.search_law [OF d])
  have cmp: "CompareStrToName q userData x = Some (same_name name nv)"
    if "nv \<in> set ps" "?f x = (case nv of (n, v) \<Rightarrow> (Some n, Some v))" for x nv
  proof -
    have all: "\<forall>a \<in> set (fst nv) \<union> set name. byte a < 130" using that(1) nm asc by blast
    show ?thesis using CompareStrToName_ok [OF _ nm(1) all, of q x "snd nv"] that(2) by (cases nv) auto
  qed
  have r: "rel_option (\<lambda>x nv. x \<in> set xs \<and> ?f x = (case nv of (n, v) \<Rightarrow> (Some n, Some v))) (List.find ?P xs) (List.find (same_name name) ps)"
    by (rule find_map_eq [OF m]) (use cmp in auto)
  show ?thesis
  proof (cases "List.find (same_name name) ps")
    case None
    with r have n: "List.find ?P xs = None" by (cases "List.find ?P xs") auto
    then have "DoFindCGIValueForParam q userData = Some None"
      unfolding DoFindCGIValueForParam_def se by simp
    with None show ?thesis by simp
  next
    case (Some nv)
    with r obtain x where x: "List.find ?P xs = Some x" "?f x = (case nv of (n, v) \<Rightarrow> (Some n, Some v))"
      by (cases "List.find ?P xs") auto
    have "nv \<in> set ps" using Some by (auto simp: find_Some_iff)
    from cmp [OF this x(2)] have "DoFindCGIValueForParam q userData = Some (Some (mValue (qElems q x)))"
      unfolding DoFindCGIValueForParam_def se using x(1) by simp
    with Some x(2) show ?thesis by (cases nv) simp
  qed
qed

section \<open>Encoding\<close>

text \<open>The form encoding that the decoder undoes.\<close>

definition hex_digit :: "nat \<Rightarrow> char" where
  "hex_digit k = (if k < 10 then char_of (48 + k) else char_of (55 + k))"

definition plain_char :: "char \<Rightarrow> bool" where
  "plain_char c \<longleftrightarrow> 48 \<le> byte c \<and> byte c \<le> 57 \<or> 65 \<le> byte c \<and> byte c \<le> 90 \<or> 97 \<le> byte c \<and> byte c \<le> 122"

fun form_encode :: "string \<Rightarrow> string" where
  "form_encode [] = []"
| "form_encode (c # r) =
     (if plain_char c then [c] else [CHR ''%'', hex_digit (byte c div 16), hex_digit (byte c mod 16)]) @ form_encode r"

fun query_string :: "(string \<times> string) list \<Rightarrow> string" where
  "query_string [] = []"
| "query_string [(n, v)] = form_encode n @ CHR ''='' # form_encode v"
| "query_string ((n, v) # ps) = form_encode n @ CHR ''='' # form_encode v @ CHR ''&'' # query_string ps"

lemma byte_div16: "byte c div 16 < 16"
  using byte_less [of c] by (simp add: less_mult_imp_div_less)

lemma no_NUL_takeWhile: "NUL \<notin> set s \<Longrightarrow> takeWhile (\<lambda>c. c \<noteq> NUL) s = s"
  by (simp add: takeWhile_eq_all_conv) metis

lemma hex_digit_facts:
  assumes "k < 16"
  shows "IsHex (hex_digit k)" "hex_value (hex_digit k) = k" "byte (hex_digit k) < 130" "48 \<le> byte (hex_digit k)"
    "plain_char (hex_digit k)"
  using assms by (auto simp: hex_digit_def IsHex_def hex_value_def plain_char_def)

lemma plain_not:
  "plain_char c \<Longrightarrow> c \<noteq> CHR ''%'' \<and> c \<noteq> CHR ''+'' \<and> c \<noteq> CHR ''='' \<and> c \<noteq> CHR ''&'' \<and> c \<noteq> NUL \<and> c \<noteq> CHR 0x22"
  by (auto simp: plain_char_def byte_def)

lemma form_decode_encode: "form_decode (form_encode s) = s"
proof (induction s)
  case (Cons c r)
  show ?case
  proof (cases "plain_char c")
    case True
    then show ?thesis using Cons plain_not [OF True] by (simp add: form_decode.simps(2))
  next
    case False
    have d: "byte c div 16 < 16" "byte c mod 16 < 16" by (simp_all add: byte_div16)
    have "16 * (byte c div 16) + byte c mod 16 = byte c" by simp
    then have "char_of (16 * (byte c div 16) + byte c mod 16) = c" by (simp add: byte_def)
    then show ?thesis using False Cons hex_digit_facts [OF d(1)] hex_digit_facts [OF d(2)] plain_not [OF hex_digit_facts(5) [OF d(1)]]
      by (simp add: form_decode.simps(2))
  qed
qed simp

lemma form_encode_chars: "c \<in> set (form_encode s) \<Longrightarrow> plain_char c \<or> c = CHR ''%''"
proof (induction s)
  case (Cons a s)
  have d: "byte a div 16 < 16" "byte a mod 16 < 16" by (simp_all add: byte_div16)
  show ?case using Cons hex_digit_facts(5) [OF d(1)] hex_digit_facts(5) [OF d(2)] by (auto split: if_splits)
qed simp

lemma form_encode_not_in:
  "CHR ''='' \<notin> set (form_encode s)" "CHR ''&'' \<notin> set (form_encode s)" "NUL \<notin> set (form_encode s)" "CHR 0x22 \<notin> set (form_encode s)"
  using form_encode_chars plain_not by fastforce+

lemma arg_text_encode: "NUL \<notin> set s \<Longrightarrow> arg_text (form_encode s) = s"
  using form_encode_not_in(3) [of s] by (simp add: arg_text_def form_decode_encode no_NUL_takeWhile)

lemma while_neq_all:
  "x \<notin> set ys \<Longrightarrow> takeWhile (\<lambda>c. c \<noteq> x) ys = ys" "x \<notin> set ys \<Longrightarrow> dropWhile (\<lambda>c. c \<noteq> x) ys = []"
  by (induction ys) auto

lemma dropWhile_neq_append [simp]: "x \<notin> set ys \<Longrightarrow> dropWhile (\<lambda>c. c \<noteq> x) (ys @ x # zs) = x # zs"
  by (induction ys) auto

lemma hd_form_encode: "hd (form_encode v @ CHR ''&'' # r) \<noteq> CHR 0x22" "form_encode v \<noteq> [] \<Longrightarrow> hd (form_encode v) \<noteq> CHR 0x22"
  using form_encode_not_in(4) [of v] by (cases "form_encode v"; auto)+

lemma parse_query_string: "parse_query (query_string ps) = map (\<lambda>(n, v). (form_encode n, form_encode v)) ps"
proof (induction ps rule: query_string.induct)
  case 1
  then show ?case by (subst parse_query.simps) simp
next
  case (2 n v)
  have e: "parse_query [] = []" by (subst parse_query.simps) simp
  have w: "takeWhile (\<lambda>c. c \<noteq> CHR ''&'') (form_encode v) = form_encode v" "dropWhile (\<lambda>c. c \<noteq> CHR ''&'') (form_encode v) = []"
    using form_encode_not_in(2) [of v] by (simp_all add: while_neq_all)
  have c: "\<not> (form_encode v \<noteq> [] \<and> hd (form_encode v) = CHR 0x22)" using hd_form_encode(2) [of v] by blast
  show ?case by (subst parse_query.simps) (simp add: Let_def form_encode_not_in c w e)
next
  case (3 n v p ps)
  have c: "\<not> (form_encode v @ CHR ''&'' # query_string (p # ps) \<noteq> [] \<and> hd (form_encode v @ CHR ''&'' # query_string (p # ps)) = CHR 0x22)"
    using hd_form_encode(1) by blast
  show ?case using 3
    by (subst parse_query.simps) (simp add: Let_def form_encode_not_in hd_form_encode)
qed

section \<open>Properties\<close>

lemma BulidList_ok:
  assumes "stream_ok s m"
  shows "\<exists>q xs. BulidList QueryParamList_new s = Some q \<and> qpl_rep q xs (rev (map arg_pair (parse_query (str s))))"
proof -
  have q: "qpl_rep QueryParamList_new [] []"
    by (simp add: qpl_rep_def QueryParamList_new_def dlist_rep_empty)
  have "fEndGet (StringParser_new (Some s)) < length m" using assms by (simp add: stream_ok_def StringParser_new_def)
  from build_loop_ok [OF StringParser_new_ok(1) [OF assms] this q] show ?thesis
    by (simp add: BulidList_def StringParser_new_ok(2) [OF assms])
qed

lemma BulidList_null: "BulidList QueryParamList_new \<lparr>Ptr = None, Len = 0\<rparr> = Some QueryParamList_new"
  unfolding BulidList_def StringParser_new_def by (subst build_loop.simps) (simp add: GetDataRemaining_def)

text \<open>\<^verbatim>\<open>QueryParamList\<close> builds, for every query string that is followed by a readable
  byte, the list of the parameters it contains, decoded, the last one first: the scanner and
  the in-place decoder end, read and write only their own buffers and agree with a parser
  and a decoder on strings.\<close>

theorem QueryParamList_spec:
  assumes "stream_ok s m"
  shows "\<exists>q xs. BulidList QueryParamList_new s = Some q \<and> qpl_rep q xs (rev (map arg_pair (parse_query (str s))))"
  by (rule BulidList_ok [OF assms])

theorem QueryParamList_spec_witness:
  "\<exists>q xs. BulidList QueryParamList_new \<lparr>Ptr = Some (cstring ''a=1&b=%41+''), Len = 10\<rparr> = Some q \<and>
     qpl_rep q xs [(''b'', ''A ''), (''a'', ''1'')]"
proof -
  have "parse_query ''a=1&b=%41+'' = [(''a'', ''1''), (''b'', ''%41+'')]" by code_simp
  moreover have "rev (map arg_pair [(''a'', ''1''), (''b'', ''%41+'')]) = [(''b'', ''A ''), (''a'', ''1'')]" by code_simp
  ultimately show ?thesis
    using QueryParamList_spec [of "\<lparr>Ptr = Some (cstring ''a=1&b=%41+''), Len = 10\<rparr>" "cstring ''a=1&b=%41+''"]
    by (simp add: stream_ok_def cstring_def str_def)
qed

text \<open>Parameters survive the way through a URL: for any list of names and values without
  zero bytes, building the list from their form encoding and looking up a name, in any case,
  gives the value of the last parameter of that name, and nothing exactly when there is none.
  The comment in the code promises the first one.\<close>

theorem query_lookup_roundtrip:
  assumes nul: "\<forall>(n, v) \<in> set ps. NUL \<notin> set n \<and> NUL \<notin> set v \<and> (\<forall>a \<in> set n. byte a < 130)"
    and nm: "NUL \<notin> set name" "\<forall>a \<in> set name. byte a < 130"
    and s: "s = \<lparr>Ptr = Some (cstring (query_string ps)), Len = length (query_string ps)\<rparr>"
  shows "\<exists>q r. BulidList QueryParamList_new s = Some q \<and> DoFindCGIValueForParam q (cstring name) = Some r \<and>
    map_option cstr r = map_option (Some \<circ> snd) (List.find (same_name name) (rev ps))"
proof -
  have ok: "stream_ok s (cstring (query_string ps))" by (simp add: s stream_ok_def cstring_def)
  have str: "str s = query_string ps" by (simp add: s str_def cstring_def)
  have e: "map arg_pair (parse_query (str s)) = ps"
    unfolding str parse_query_string map_map using nul
    by (intro map_idI) (auto simp: arg_pair_def arg_text_encode)
  have q0: "qpl_rep QueryParamList_new [] []"
    by (simp add: qpl_rep_def QueryParamList_new_def dlist_rep_empty)
  have "fEndGet (StringParser_new (Some s)) < length (cstring (query_string ps))" by (simp add: s StringParser_new_def cstring_def)
  from build_loop_ok [OF StringParser_new_ok(1) [OF ok] this q0] obtain q xs where
    q: "BulidList QueryParamList_new s = Some q" "qpl_rep q xs (rev ps)"
    by (auto simp: BulidList_def StringParser_new_ok(2) [OF ok] e)
  have "cstr (cstring name) = Some name" using nm(1) by (simp add: cstr_def cstring_def)
  from DoFind_ok [OF q(2) this nm(2)] nul q(1) show ?thesis by fastforce
qed

theorem query_lookup_roundtrip_witness:
  "\<exists>q r. BulidList QueryParamList_new
       \<lparr>Ptr = Some (cstring (query_string [(''id'', ''1''), (''ID'', ''a&b'')])),
        Len = length (query_string [(''id'', ''1''), (''ID'', ''a&b'')])\<rparr> = Some q \<and>
     DoFindCGIValueForParam q (cstring ''Id'') = Some r \<and> map_option cstr r = Some (Some ''a&b'')"
proof -
  have f: "map_option (Some \<circ> snd) (List.find (same_name ''Id'') (rev [(''id'', ''1''), (''ID'', ''a&b'')])) = Some (Some ''a&b'')"
    by code_simp
  have n: "\<forall>(n, v) \<in> set [(''id'', ''1''), (''ID'', ''a&b'')]. NUL \<notin> set n \<and> NUL \<notin> set v \<and> (\<forall>a \<in> set n. byte a < 130)"
    by code_simp
  have m: "NUL \<notin> set ''Id''" "\<forall>a \<in> set ''Id''. byte a < 130" by code_simp+
  show ?thesis using query_lookup_roundtrip [OF n m refl] unfolding f .
qed

end
