(* ===== verification/CF_HTTPProtocol.thy ===== *)
theory CF_HTTPProtocol
  imports CF_StrPtrLen
begin

text \<open>
  The protocol tables of \<^verbatim>\<open>src/CFHttp/HTTPProtocol.cpp\<close> and
  \<^verbatim>\<open>src/CFHttp/include/CF/Net/Http/HTTPProtocol.h\<close>: the names of methods, headers,
  status codes and versions and the functions that look a name up. The enumerations of the
  code index the tables and are cast from loop counters, so they are natural numbers here,
  with the names of the enumerators as constants.
\<close>

section \<open>Enumerations and tables\<close>

definition http09version :: nat where "http09version = 0"
definition http10Version :: nat where "http10Version = 1"
definition http11Version :: nat where "http11Version = 2"
definition httpIllegalVersion :: nat where "httpIllegalVersion = 3"
definition easyIllegalStreamType :: nat where "easyIllegalStreamType = 3"
definition httpGetMethod :: nat where "httpGetMethod = 0"
definition httpHeadMethod :: nat where "httpHeadMethod = 1"
definition httpPostMethod :: nat where "httpPostMethod = 2"
definition httpOptionsMethod :: nat where "httpOptionsMethod = 3"
definition httpPutMethod :: nat where "httpPutMethod = 4"
definition httpDeleteMethod :: nat where "httpDeleteMethod = 5"
definition httpTraceMethod :: nat where "httpTraceMethod = 6"
definition httpConnectMethod :: nat where "httpConnectMethod = 7"
definition httpIllegalMethod :: nat where "httpIllegalMethod = 8"
definition httpRequestType :: nat where "httpRequestType = 0"
definition httpResponseType :: nat where "httpResponseType = 1"
definition httpIllegalType :: nat where "httpIllegalType = 2"
definition httpConnectionHeader :: nat where "httpConnectionHeader = 0"
definition httpDateHeader :: nat where "httpDateHeader = 1"
definition httpAuthorizationHeader :: nat where "httpAuthorizationHeader = 2"
definition httpIfModifiedSinceHeader :: nat where "httpIfModifiedSinceHeader = 3"
definition httpServerHeader :: nat where "httpServerHeader = 4"
definition httpWWWAuthenticateHeader :: nat where "httpWWWAuthenticateHeader = 5"
definition httpExpiresHeader :: nat where "httpExpiresHeader = 6"
definition httpLastModifiedHeader :: nat where "httpLastModifiedHeader = 7"
definition httpNumVIPHeaders :: nat where "httpNumVIPHeaders = 8"
definition httpHostHeader :: nat where "httpHostHeader = 21"
definition httpUserAgentHeader :: nat where "httpUserAgentHeader = 31"
definition httpContentLengthHeader :: nat where "httpContentLengthHeader = 42"
definition httpContentTypeHeader :: nat where "httpContentTypeHeader = 46"
definition httpSessionCookieHeader :: nat where "httpSessionCookieHeader = 47"
definition httpAccessControlAllowOriginHeader :: nat where "httpAccessControlAllowOriginHeader = 49"
definition httpNumHeaders :: nat where "httpNumHeaders = 51"
definition httpIllegalHeader :: nat where "httpIllegalHeader = 51"
definition httpOK :: nat where "httpOK = 2"
definition httpBadRequest :: nat where "httpBadRequest = 16"
definition httpNotFound :: nat where "httpNotFound = 20"
definition httpInternalServerError :: nat where "httpInternalServerError = 34"
definition httpNotImplemented :: nat where "httpNotImplemented = 35"
definition httpHTTPVersionNotSupported :: nat where "httpHTTPVersionNotSupported = 39"
definition httpNumStatusCodes :: nat where "httpNumStatusCodes = 40"

definition sMethods :: "string list" where
  "sMethods = [''GET'', ''HEAD'', ''POST'', ''OPTIONS'', ''PUT'', ''DELETE'', ''TRACE'', ''CONNECT'']"

definition sStreamTypes :: "string list" where
  "sStreamTypes = [''RTSP'', ''RTMP'', ''HLS'']"

definition sHeaders :: "string list" where
  "sHeaders = [''Connection'', ''Date'', ''Authorization'', ''If-Modified-Since'', ''Server'', ''WWW-Authenticate'',
      ''Expires'', ''Last-Modified'', ''Cache-Control'', ''Pragma'', ''Trailer'', ''Transfer-Encoding'',
      ''Upgrade'', ''Via'', ''Warning'', ''Accept'', ''Accept-Charset'', ''Accept-Encoding'',
      ''Accept-Language'', ''Expect'', ''From'', ''Host'', ''If-Match'', ''If-None-Match'', ''If-Range'',
      ''If-Unmodified-Since'', ''Max-Forwards'', ''Proxy-Authorization'', ''Range'', ''Referer'', ''TE'',
      ''User-Agent'', ''Accept-Ranges'', ''Age'', ''ETag'', ''Location'', ''Proxy-Authenticate'',
      ''Retry-After'', ''Vary'', ''Allow'', ''Content-Encoding'', ''Content-Language'', ''Content-Length'',
      ''Content-Location'', ''Content-MD5'', ''Content-Range'', ''Content-Type'', ''X-SessionCookie'',
      ''X-Server-IP-Address'', ''Access-Control-Allow-Origin'', ''Cookie'', '' ,'']"

definition sStatusCodeStrings :: "string list" where
  "sStatusCodeStrings = [''Continue'', ''Switching Protocols'', ''OK'', ''Created'', ''Accepted'',
      ''Non Authoritative Information'', ''No Content'', ''Reset Content'', ''Partial Content'',
      ''Multiple Choices'', ''Moved Permanently'', ''Found'', ''See Other'', ''Not Modified'',
      ''Use Proxy'', ''Temporary Redirect'', ''Bad Request'', ''Unauthorized'', ''Payment Required'',
      ''Forbidden'', ''Not Found'', ''Method Not Allowed'', ''Not Acceptable'',
      ''Proxy Authentication Required'', ''Request Time-out'', ''Conflict'', ''Gone'', ''Length Required'',
      ''Precondition Failed'', ''Request Entity Too Large'', ''Request-URI Too Large'',
      ''Unsupported Media Type'', ''Request Range Not Satisfiable'', ''Expectation Failed'',
      ''Internal Server Error'', ''Not Implemented'', ''Bad Gateway'', ''Service Unavailable'',
      ''Gateway Timeout'', ''HTTP Version not supported'']"

definition sStatusCodes :: "int list" where
  "sStatusCodes = [100, 101, 200, 201, 202, 203, 204, 205, 206, 300, 301, 302, 303, 304, 305, 307, 400, 401, 402, 403,
      404, 405, 406, 407, 408, 409, 410, 411, 412, 413, 414, 415, 416, 417, 500, 501, 502, 503, 504, 505]"

definition sStatusCodeAsStrings :: "string list" where
  "sStatusCodeAsStrings = [''100'', ''101'', ''200'', ''201'', ''202'', ''203'', ''204'', ''205'', ''206'', ''300'', ''301'',
      ''302'', ''303'', ''304'', ''305'', ''307'', ''400'', ''401'', ''402'', ''403'', ''404'', ''405'',
      ''406'', ''407'', ''408'', ''409'', ''410'', ''411'', ''412'', ''413'', ''414'', ''415'', ''416'',
      ''417'', ''500'', ''501'', ''502'', ''503'', ''504'', ''505'']"

definition sVersionStrings :: "string list" where
  "sVersionStrings = [''HTTP/0.9'', ''HTTP/1.0'', ''HTTP/1.1'']"

text \<open>A table entry as the code has it: a counted string over a C literal.\<close>

definition lit :: "string \<Rightarrow> StrPtrLen" where
  "lit s = \<lparr>Ptr = Some (s @ [NUL]), Len = length s\<rparr>"

section \<open>Lookups\<close>

definition method_guess :: "char \<Rightarrow> nat" where
  "method_guess c =
     (if c = CHR ''G'' then httpGetMethod else if c = CHR ''H'' then httpHeadMethod
      else if c = CHR ''P'' then httpPostMethod else if c = CHR ''O'' then httpOptionsMethod
      else if c = CHR ''D'' then httpDeleteMethod else if c = CHR ''T'' then httpTraceMethod
      else if c = CHR ''C'' then httpConnectMethod else httpIllegalMethod)"

definition GetMethod :: "StrPtrLen \<Rightarrow> nat option" where
  "GetMethod inMethodStr =
     (if Len inMethodStr = 0 then Some httpIllegalMethod
      else do {
        c \<leftarrow> rdp (Ptr inMethodStr) 0;
        let theMethod = method_guess c;
        e \<leftarrow> (if theMethod \<noteq> httpIllegalMethod then Equal inMethodStr (lit (sMethods ! theMethod)) else Some False);
        if e then Some theMethod
        else do {
          p \<leftarrow> Equal inMethodStr (lit (sMethods ! httpPutMethod));
          Some (if p then httpPutMethod else httpIllegalMethod)
        }
      })"

definition header_guess :: "char \<Rightarrow> nat" where
  "header_guess c =
     (if c \<in> {CHR ''C'', CHR ''c''} then httpConnectionHeader else if c \<in> {CHR ''S'', CHR ''s''} then httpServerHeader
      else if c \<in> {CHR ''D'', CHR ''d''} then httpDateHeader else if c \<in> {CHR ''A'', CHR ''a''} then httpAuthorizationHeader
      else if c \<in> {CHR ''W'', CHR ''w''} then httpWWWAuthenticateHeader
      else if c \<in> {CHR ''I'', CHR ''i''} then httpIfModifiedSinceHeader
      else if c \<in> {CHR ''E'', CHR ''e''} then httpExpiresHeader else if c \<in> {CHR ''L'', CHR ''l''} then httpLastModifiedHeader
      else if c \<in> {CHR ''X'', CHR ''x''} then httpSessionCookieHeader else httpIllegalHeader)"

text \<open>The search loops: the first of the next \<open>n\<close> table entries from \<open>x\<close> on that is equal
  up to case, or \<open>x + n\<close>.\<close>

fun find_ci :: "string list \<Rightarrow> StrPtrLen \<Rightarrow> nat \<Rightarrow> nat \<Rightarrow> nat option" where
  "find_ci tbl s x 0 = Some x"
| "find_ci tbl s x (Suc n) =
     do {
       e \<leftarrow> EqualIgnoreCase s (Ptr (lit (tbl ! x))) (Len (lit (tbl ! x)));
       if e then Some x else find_ci tbl s (x + 1) n
     }"

definition GetHeader :: "StrPtrLen \<Rightarrow> nat option" where
  "GetHeader inHeaderStr =
     (if Len inHeaderStr = 0 then Some httpIllegalHeader
      else do {
        c \<leftarrow> rdp (Ptr inHeaderStr) 0;
        let theHeader = header_guess c;
        e \<leftarrow> (if theHeader \<noteq> httpIllegalHeader
              then EqualIgnoreCase inHeaderStr (Ptr (lit (sHeaders ! theHeader))) (Len (lit (sHeaders ! theHeader)))
              else Some False);
        if e then Some theHeader
        else find_ci sHeaders inHeaderStr httpNumVIPHeaders (httpNumHeaders - httpNumVIPHeaders)
      })"

definition GetVersion :: "StrPtrLen \<Rightarrow> nat option" where
  "GetVersion versionStr =
     (if Len versionStr \<noteq> 8 then Some httpIllegalVersion else find_ci sVersionStrings versionStr 0 3)"

definition GetStreamType :: "StrPtrLen \<Rightarrow> nat option" where
  "GetStreamType s =
     (if Len s < 3 \<or> Len s > 4 then Some easyIllegalStreamType else find_ci sStreamTypes s 0 3)"

definition GetStatusCode :: "nat \<Rightarrow> int" where
  "GetStatusCode inStat = sStatusCodes ! inStat"

definition GetStatusCodeString :: "nat \<Rightarrow> StrPtrLen" where
  "GetStatusCodeString inStat = lit (sStatusCodeStrings ! inStat)"

definition GetStatusCodeAsString :: "nat \<Rightarrow> StrPtrLen" where
  "GetStatusCodeAsString inStat = lit (sStatusCodeAsStrings ! inStat)"

definition GetMethodString :: "nat \<Rightarrow> StrPtrLen" where
  "GetMethodString inMethod = lit (sMethods ! inMethod)"

definition GetHeaderString :: "nat \<Rightarrow> StrPtrLen" where
  "GetHeaderString inHeader = lit (sHeaders ! inHeader)"

definition GetVersionString :: "nat \<Rightarrow> StrPtrLen" where
  "GetVersionString version = lit (sVersionStrings ! version)"

fun status_loop :: "int \<Rightarrow> nat \<Rightarrow> nat \<Rightarrow> nat" where
  "status_loop inCode x 0 = httpInternalServerError"
| "status_loop inCode x (Suc n) = (if GetStatusCode x = inCode then x else status_loop inCode (x + 1) n)"

definition GetStatusCodeEnum :: "int \<Rightarrow> nat" where
  "GetStatusCodeEnum inCode = status_loop inCode 0 httpNumStatusCodes"


section \<open>Lookup lemmas\<close>

lemma lit_simps [simp]:
  "str (lit t) = t" "valid (lit t)" "Ptr (lit t) \<noteq> None" "Len (lit t) = length t"
  by (auto simp: lit_def str_def valid_def)

definition ascii :: "string \<Rightarrow> bool" where
  "ascii s \<longleftrightarrow> (\<forall>a \<in> set s. byte a < 130)"

text \<open>A counted string in memory whose bytes are within the case table.\<close>

definition text_ok :: "StrPtrLen \<Rightarrow> bool" where
  "text_ok s \<longleftrightarrow> valid s \<and> Ptr s \<noteq> None \<and> ascii (str s)"

lemma EqualIgnoreCase_lit:
  assumes "text_ok s" "ascii t"
  shows "EqualIgnoreCase s (Ptr (lit t)) (length t) = Some (map tolower (str s) = map tolower t)"
proof -
  have "EqualIgnoreCase s (Some (t @ [NUL])) (length t) = Some (map tolower (str s) = map tolower (take (length t) (t @ [NUL])))"
    using assms by (intro EqualIgnoreCase_eq) (auto simp: text_ok_def ascii_def)
  then show ?thesis by (simp add: lit_def)
qed

lemma find_ci_spec:
  assumes "text_ok s" "\<forall>t \<in> set tbl. ascii t" "x + n \<le> length tbl"
  shows "\<exists>r. find_ci tbl s x n = Some r \<and> x \<le> r \<and> r \<le> x + n \<and>
    (r < x + n \<longrightarrow> map tolower (str s) = map tolower (tbl ! r)) \<and>
    (\<forall>i. x \<le> i \<and> i < r \<longrightarrow> map tolower (str s) \<noteq> map tolower (tbl ! i))"
  using assms(3)
proof (induction n arbitrary: x)
  case 0
  then show ?case by auto
next
  case (Suc n)
  have e: "EqualIgnoreCase s (Ptr (lit (tbl ! x))) (Len (lit (tbl ! x))) = Some (map tolower (str s) = map tolower (tbl ! x))"
    using EqualIgnoreCase_lit [OF assms(1)] assms(2) Suc.prems by simp
  show ?case
  proof (cases "map tolower (str s) = map tolower (tbl ! x)")
    case True
    with e show ?thesis by auto
  next
    case False
    from Suc.IH [of "x + 1"] Suc.prems obtain r where
      r: "find_ci tbl s (x + 1) n = Some r" "x + 1 \<le> r" "r \<le> x + 1 + n"
        "r < x + 1 + n \<longrightarrow> map tolower (str s) = map tolower (tbl ! r)"
        "\<forall>i. x + 1 \<le> i \<and> i < r \<longrightarrow> map tolower (str s) \<noteq> map tolower (tbl ! i)" by auto
    moreover have "map tolower (str s) \<noteq> map tolower (tbl ! i)" if "x \<le> i" "i < r" for i
      using False r(5) that by (cases "i = x") auto
    ultimately show ?thesis using e False by auto
  qed
qed

lemma tables_ascii: "\<forall>t \<in> set sHeaders. ascii t" "\<forall>t \<in> set sVersionStrings. ascii t" "\<forall>t \<in> set sStreamTypes. ascii t"
  unfolding ascii_def by code_simp+

lemma tables_length: "length sHeaders = 52" "length sVersionStrings = 3" "length sMethods = 8" "length sStatusCodes = 40"
  by code_simp+

lemma rdp_str: "valid s \<Longrightarrow> i < Len s \<Longrightarrow> rdp (Ptr s) i = Some (str s ! i)"
  by (auto simp: valid_def str_def rdp_def split: option.splits)

lemma tolower_cases: "tolower c = d \<Longrightarrow> c = d \<or> c = toupper d"
  by (auto simp: tolower_def toupper_def byte_def split: if_splits)

section \<open>Properties\<close>

text \<open>\<^verbatim>\<open>GetMethod\<close> recognises exactly the eight method names: the guess from the first
  letter and the two comparisons give the same result as comparing with every name.\<close>

theorem GetMethod_spec:
  assumes "valid s" "Len s > 0 \<longrightarrow> Ptr s \<noteq> None"
  shows "\<exists>m. GetMethod s = Some m \<and>
    (if str s \<in> set sMethods then m < 8 \<and> sMethods ! m = str s else m = httpIllegalMethod)"
proof (cases "Len s = 0")
  case True
  then have "str s = []" using length_str [OF assms(1)] by simp
  moreover have "[] \<notin> set sMethods" by code_simp
  ultimately show ?thesis using True by (simp add: GetMethod_def)
next
  case False
  then have p: "Ptr s \<noteq> None" using assms by simp
  have E: "Equal s (lit t) = Some (str s = t)" for t using Equal_valid [OF assms(1) _ p, of "lit t"] by simp
  have g: "GetMethod s = Some (if method_guess (str s ! 0) \<noteq> 8 \<and> str s = sMethods ! method_guess (str s ! 0)
      then method_guess (str s ! 0) else if str s = sMethods ! 4 then 4 else 8)"
    using False rdp_str [OF assms(1), of 0] by (simp add: GetMethod_def E Let_def httpIllegalMethod_def httpPutMethod_def)
  have all: "\<forall>i \<in> {0..<8}. i = 4 \<or> method_guess (sMethods ! i ! 0) = i" by code_simp
  have d: "distinct sMethods" by code_simp
  show ?thesis
  proof (cases "str s \<in> set sMethods")
    case True
    then obtain i where i: "i < 8" "str s = sMethods ! i" unfolding in_set_conv_nth tables_length by auto
    with all have "i = 4 \<or> method_guess (str s ! 0) = i" by auto
    moreover have "method_guess (sMethods ! 4 ! 0) = 2" "sMethods ! 4 \<noteq> sMethods ! 2" by code_simp+
    ultimately show ?thesis using g i True nth_eq_iff_index_eq [OF d, of i 4] by (auto simp: tables_length)
  next
    case False
    have "method_guess c \<le> 8" for c by (simp add: method_guess_def httpGetMethod_def httpHeadMethod_def httpPostMethod_def
      httpOptionsMethod_def httpDeleteMethod_def httpTraceMethod_def httpConnectMethod_def httpIllegalMethod_def)
    then have "method_guess c \<noteq> 8 \<Longrightarrow> sMethods ! method_guess c \<in> set sMethods" for c
      by (metis le_neq_implies_less nth_mem tables_length(3))
    moreover have "sMethods ! 4 \<in> set sMethods" by code_simp
    ultimately have "str s \<noteq> sMethods ! 4" "method_guess c \<noteq> 8 \<Longrightarrow> str s \<noteq> sMethods ! method_guess c" for c
      using False by metis+
    then show ?thesis using g False by (auto simp: httpIllegalMethod_def)
  qed
qed

theorem GetMethod_spec_witness:
  "GetMethod \<lparr>Ptr = Some ''PUT /x'', Len = 3\<rparr> = Some httpPutMethod"
proof -
  let ?s = "\<lparr>Ptr = Some ''PUT /x'', Len = 3\<rparr>"
  have m: "str ?s \<in> set sMethods" and d: "\<forall>m < 8. sMethods ! m = str ?s \<longrightarrow> m = httpPutMethod" by code_simp+
  show ?thesis using GetMethod_spec [of ?s] m d by (auto simp: valid_def)
qed


lemma VIP_letters: "map (\<lambda>h. tolower (h ! 0)) (take 8 sHeaders) = ''cdaiswel''"
  unfolding sHeaders_def by (simp, code_simp)

lemma header_guess_letter:
  assumes "i < 8" "d = ''cdaiswel'' ! i" "c = d \<or> c = toupper d"
  shows "header_guess c = i"
proof -
  have "map toupper ''cdaiswel'' = ''CDAISWEL''" by code_simp
  moreover have "toupper (''cdaiswel'' ! i) = map toupper ''cdaiswel'' ! i" using assms(1) by (subst nth_map) auto
  ultimately have c: "c = ''cdaiswel'' ! i \<or> c = ''CDAISWEL'' ! i" using assms(2,3) by metis
  note d = header_guess_def httpConnectionHeader_def httpServerHeader_def httpDateHeader_def
      httpAuthorizationHeader_def httpWWWAuthenticateHeader_def httpIfModifiedSinceHeader_def httpExpiresHeader_def
      httpLastModifiedHeader_def
  from assms(1) consider "i = 0" | "i = 1" | "i = 2" | "i = 3" | "i = 4" | "i = 5" | "i = 6" | "i = 7" by linarith
  then show ?thesis using c by cases (erule disjE; simp add: d)+
qed

lemma header_guess_VIP:
  assumes "i < 8" "map tolower x = map tolower (sHeaders ! i)" "x \<noteq> []"
  shows "header_guess (x ! 0) = i"
proof -
  obtain c cs where x: "x = c # cs" using assms(3) by (cases x) auto
  have "sHeaders ! i \<noteq> []" using assms x by auto
  then have "tolower c = tolower (sHeaders ! i ! 0)" using assms(2) x by (cases "sHeaders ! i") auto
  then have "c = tolower (sHeaders ! i ! 0) \<or> c = toupper (tolower (sHeaders ! i ! 0))" by (rule tolower_cases)
  moreover have "tolower (sHeaders ! i ! 0) = map (\<lambda>h. tolower (h ! 0)) (take 8 sHeaders) ! i"
    using assms(1) by (simp add: tables_length)
  ultimately have "header_guess c = i" using header_guess_letter [OF assms(1) refl] unfolding VIP_letters by simp
  then show ?thesis by (simp add: x)
qed

lemma GetHeader_ok:
  assumes ok: "text_ok s"
  shows "\<exists>h \<le> httpIllegalHeader. GetHeader s = Some h \<and>
    (h < httpIllegalHeader \<longrightarrow> map tolower (str s) = map tolower (sHeaders ! h)) \<and>
    (h = httpIllegalHeader \<longrightarrow> (\<forall>i < 51. map tolower (str s) \<noteq> map tolower (sHeaders ! i)))"
proof (cases "Len s = 0")
  case True
  then have "str s = []" using ok by (metis length_0_conv length_str text_ok_def)
  moreover have "\<forall>i \<in> {0..<51}. sHeaders ! i \<noteq> []" by code_simp
  ultimately show ?thesis using True by (auto simp: GetHeader_def)
next
  case False
  let ?g = "header_guess (str s ! 0)"
  have v: "valid s" using ok by (simp add: text_ok_def)
  have ne: "str s \<noteq> []" using length_str [OF v] False by auto
  have gb: "header_guess c \<le> 51" for c
    by (simp add: header_guess_def httpConnectionHeader_def httpServerHeader_def httpDateHeader_def httpAuthorizationHeader_def
      httpWWWAuthenticateHeader_def httpIfModifiedSinceHeader_def httpExpiresHeader_def httpLastModifiedHeader_def
      httpSessionCookieHeader_def httpIllegalHeader_def)
  have asc: "ascii (sHeaders ! ?g)" using gb [of "str s ! 0"] tables_ascii(1) tables_length(1) by (simp add: le_less_trans)
  have c: "rdp (Ptr s) 0 = Some (str s ! 0)" using rdp_str [OF v, of 0] False by simp
  obtain r where r: "find_ci sHeaders s 8 43 = Some r" "8 \<le> r" "r \<le> 51"
      "r < 51 \<longrightarrow> map tolower (str s) = map tolower (sHeaders ! r)"
      "\<forall>i. 8 \<le> i \<and> i < r \<longrightarrow> map tolower (str s) \<noteq> map tolower (sHeaders ! i)"
    using find_ci_spec [OF ok tables_ascii(1), of 8 43] tables_length(1) by auto
  have G: "GetHeader s = (if ?g \<noteq> 51 \<and> map tolower (str s) = map tolower (sHeaders ! ?g) then Some ?g
      else find_ci sHeaders s 8 43)"
    using False c EqualIgnoreCase_lit [OF ok asc]
    by (simp add: GetHeader_def Let_def httpIllegalHeader_def httpNumVIPHeaders_def httpNumHeaders_def)
  show ?thesis
  proof (cases "?g \<noteq> 51 \<and> map tolower (str s) = map tolower (sHeaders ! ?g)")
    case True
    with G gb [of "str s ! 0"] show ?thesis by (intro exI [of _ ?g]) (simp add: httpIllegalHeader_def)
  next
    case no: False
    have "map tolower (str s) \<noteq> map tolower (sHeaders ! i)" if "i < 51" "r = 51" for i
      using that r(5) no header_guess_VIP [of i "str s"] ne by (cases "i < 8") auto
    with no G r show ?thesis by (intro exI [of _ r]) (auto simp: httpIllegalHeader_def)
  qed
qed

lemma headers_distinct: "distinct (map (map tolower) (take 51 sHeaders))"
  by code_simp

lemma GetHeader_name:
  assumes "text_ok s" "h < 51" "map tolower (str s) = map tolower (sHeaders ! h)"
  shows "GetHeader s = Some h"
proof -
  obtain g where g: "g \<le> 51" "GetHeader s = Some g" "g < 51 \<longrightarrow> map tolower (str s) = map tolower (sHeaders ! g)"
      "g = 51 \<longrightarrow> (\<forall>i < 51. map tolower (str s) \<noteq> map tolower (sHeaders ! i))"
    using GetHeader_ok [OF assms(1)] unfolding httpIllegalHeader_def by blast
  then have "g < 51" using assms(2,3) le_neq_implies_less by blast
  then have "map (map tolower) (take 51 sHeaders) ! g = map (map tolower) (take 51 sHeaders) ! h"
    using g(3) assms tables_length(1) by simp
  then have "g = h" using nth_eq_iff_index_eq [OF headers_distinct, of g h] \<open>g < 51\<close> assms(2) tables_length(1) by simp
  then show ?thesis using g(2) by simp
qed

lemma GetMethod_name:
  assumes "valid s" "Ptr s \<noteq> None" "m < 8" "str s = sMethods ! m"
  shows "GetMethod s = Some m"
proof -
  have "str s \<in> set sMethods" using assms(3,4) tables_length(3) by simp
  then obtain k where k: "GetMethod s = Some k" "k < 8" "sMethods ! k = sMethods ! m"
    using GetMethod_spec [of s] assms by auto
  moreover have "distinct sMethods" by code_simp
  ultimately have "k = m" using nth_eq_iff_index_eq [of sMethods k m] assms(3) tables_length(3) by simp
  then show ?thesis using k(1) by simp
qed

text \<open>\<^verbatim>\<open>GetHeader\<close> recognises exactly the 51 header names, in any mixture of upper and
  lower case: the guess from the first letter followed by the search that leaves the first
  eight entries out finds the same entry as a search of the whole table.\<close>

theorem GetHeader_spec:
  assumes ok: "text_ok s"
  shows "\<exists>h \<le> httpIllegalHeader. GetHeader s = Some h \<and>
    (h < httpIllegalHeader \<longrightarrow> map tolower (str s) = map tolower (sHeaders ! h)) \<and>
    (h = httpIllegalHeader \<longrightarrow> (\<forall>i < 51. map tolower (str s) \<noteq> map tolower (sHeaders ! i)))"
  by (rule GetHeader_ok [OF ok])

theorem GetHeader_spec_witness:
  "\<exists>h < 51. GetHeader \<lparr>Ptr = Some ''content-LENGTH: 5'', Len = 14\<rparr> = Some h \<and> map tolower (sHeaders ! h) = ''content-length''"
proof -
  let ?s = "\<lparr>Ptr = Some ''content-LENGTH: 5'', Len = 14\<rparr>"
  have ok: "text_ok ?s" unfolding text_ok_def ascii_def valid_def by code_simp
  have l: "map tolower (str ?s) = ''content-length''" by code_simp
  have "sHeaders ! 42 = ''Content-Length''" by (simp add: sHeaders_def)
  then have no: "map tolower (sHeaders ! 42) = ''content-length''" by (simp, code_simp)
  obtain h where h: "h \<le> 51" "GetHeader ?s = Some h" "h < 51 \<longrightarrow> map tolower (str ?s) = map tolower (sHeaders ! h)"
      "h = 51 \<longrightarrow> (\<forall>i < 51. map tolower (str ?s) \<noteq> map tolower (sHeaders ! i))"
    using GetHeader_spec [OF ok] unfolding httpIllegalHeader_def by blast
  have "(42::nat) < 51" by simp
  then have "h \<noteq> 51" using h(4) no l by metis
  then have "h < 51" using h(1) by simp
  with h(2,3) l show ?thesis by metis
qed

lemma status_loop_spec:
  "status_loop c x n = (case find (\<lambda>i. GetStatusCode i = c) [x..<x + n] of Some i \<Rightarrow> i | None \<Rightarrow> httpInternalServerError)"
  by (induction n arbitrary: x) (simp_all add: upt_rec)

text \<open>The three status tables agree: every status code is found again from its number,
  its text in \<^verbatim>\<open>sStatusCodeAsStrings\<close> has three digits that spell the number, an unknown
  number gives the internal server error; and the version strings are recognised in any
  case, anything else is an illegal version.\<close>

theorem status_version_spec:
  "(\<forall>x < httpNumStatusCodes. GetStatusCodeEnum (GetStatusCode x) = x \<and>
      map byte (sStatusCodeAsStrings ! x) =
        [48 + nat (GetStatusCode x) div 100, 48 + nat (GetStatusCode x) div 10 mod 10, 48 + nat (GetStatusCode x) mod 10]) \<and>
   (\<forall>c. c \<notin> set sStatusCodes \<longrightarrow> GetStatusCodeEnum c = httpInternalServerError) \<and>
   (\<forall>s. text_ok s \<longrightarrow> (\<exists>v. GetVersion s = Some v \<and>
      (if \<exists>i < 3. map tolower (str s) = map tolower (sVersionStrings ! i)
       then v < 3 \<and> map tolower (str s) = map tolower (sVersionStrings ! v) else v = httpIllegalVersion)))"
proof -
  have "\<forall>x \<in> {0..<40}. GetStatusCodeEnum (GetStatusCode x) = x" by code_simp
  moreover have "\<forall>x \<in> {0..<40}. map byte (sStatusCodeAsStrings ! x) =
        [48 + nat (GetStatusCode x) div 100, 48 + nat (GetStatusCode x) div 10 mod 10, 48 + nat (GetStatusCode x) mod 10]"
    by code_simp
  moreover have "GetStatusCodeEnum c = httpInternalServerError" if "c \<notin> set sStatusCodes" for c
  proof -
    have "find (\<lambda>i. GetStatusCode i = c) [0..<0 + 40] = None"
      using that tables_length(4) by (auto simp: find_None_iff GetStatusCode_def)
    then show ?thesis by (simp add: GetStatusCodeEnum_def httpNumStatusCodes_def status_loop_spec)
  qed
  moreover have "\<exists>v. GetVersion s = Some v \<and>
      (if \<exists>i < 3. map tolower (str s) = map tolower (sVersionStrings ! i)
       then v < 3 \<and> map tolower (str s) = map tolower (sVersionStrings ! v) else v = httpIllegalVersion)"
    if ok: "text_ok s" for s
  proof (cases "Len s = 8")
    case True
    then show ?thesis using find_ci_spec [OF ok tables_ascii(2), of 0 3] tables_length(2)
      by (auto simp: GetVersion_def httpIllegalVersion_def) (metis le_neq_implies_less)+
  next
    case False
    have "length (str s) \<noteq> 8" using False ok by (simp add: text_ok_def)
    moreover have "\<forall>i \<in> {0..<3}. length (sVersionStrings ! i) = 8" by code_simp
    ultimately have "\<not> (\<exists>i < 3. map tolower (str s) = map tolower (sVersionStrings ! i))"
      by (metis atLeastLessThan_iff length_map zero_le)
    then show ?thesis using False by (auto simp: GetVersion_def)
  qed
  ultimately show ?thesis by (auto simp: httpNumStatusCodes_def)
qed

theorem status_version_spec_witness:
  "GetStatusCodeEnum 404 = httpNotFound"
proof -
  have "GetStatusCodeEnum (GetStatusCode 20) = 20" using status_version_spec by (simp add: httpNumStatusCodes_def)
  moreover have "GetStatusCode 20 = 404" by code_simp
  ultimately show ?thesis by (simp add: httpNotFound_def)
qed

end
