(* ===== verification/CF_StringTranslator.thy ===== *)
theory CF_StringTranslator
  imports CF_StrPtrLen
begin

text \<open>
  URL decoding and encoding of \<^verbatim>\<open>src/CFCore/StringTranslator.cpp\<close>.
  \<^verbatim>\<open>DecodeURL\<close> writes its destination strictly from left to right and only ever
  looks at the byte before the write position, so the model keeps the written prefix
  \<open>out\<close> (its length is \<^verbatim>\<open>theLengthWritten\<close>). \<^verbatim>\<open>EncodeURL\<close> writes
  through \<^verbatim>\<open>sprintf\<close>, which also stores a terminator, so its destination is the
  whole buffer. \<^term>\<open>None\<close> is an access outside a buffer. The section on the destination
  buffer has \<^verbatim>\<open>DecodeURL\<close> with its destination as memory, where the writes of calls that
  end in an error are visible too. The length of a destination is not negative here; a negative
  one would never stop the loop.
\<close>

section \<open>Operations\<close>

datatype url_error = OS_BadURLFormat | OS_NotEnoughSpace

definition slash :: char where "slash = CHR ''/''"
definition dot :: char where "dot = CHR ''.''"
definition kPathDelimiterChar :: char where "kPathDelimiterChar = CHR ''/''"

definition isxdigit :: "char \<Rightarrow> bool" where
  "isxdigit c \<longleftrightarrow> 48 \<le> byte c \<and> byte c \<le> 57 \<or> 65 \<le> byte c \<and> byte c \<le> 70 \<or> 97 \<le> byte c \<and> byte c \<le> 102"

definition hexval :: "char \<Rightarrow> nat" where
  "hexval c = (if byte c \<le> 57 then byte c - 48 else if byte c \<le> 70 then byte c - 55 else byte c - 87)"

text \<open>One decoded character: the part of the loop after the character is read.\<close>

definition emit :: "bool \<Rightarrow> nat \<Rightarrow> string \<Rightarrow> char \<Rightarrow> ((string \<times> nat) + url_error) option" where
  "emit inQuery numDotChars out tempChar =
     (if \<not> inQuery then
        if tempChar = kPathDelimiterChar \<and> kPathDelimiterChar \<noteq> slash then Some (Inr OS_BadURLFormat)
        else
          do {
            out1 \<leftarrow> (if tempChar = slash \<and> numDotChars \<le> 2 \<and> numDotChars > 0
                     then (if numDotChars + 1 \<le> length out
                           then Some (take (length out - (numDotChars + 1)) out) else None)
                     else Some out);
            if tempChar = dot then
              (if out1 = [] then None
               else Some (Inl (out1 @ [tempChar],
                      if numDotChars = 0 \<and> last out1 = slash then numDotChars + 1
                      else if numDotChars > 0 \<and> last out1 = dot then numDotChars + 1
                      else numDotChars)))
            else Some (Inl (out1 @ [tempChar], 0))
          }
      else Some (Inl (out @ [tempChar], numDotChars)))"

text \<open>The next character of the source: the character and how many bytes it takes.\<close>

definition next_char :: "mem \<Rightarrow> nat \<Rightarrow> ((char \<times> nat) + url_error) option" where
  "next_char src inSrcLen =
     do {
       c \<leftarrow> rd src 0;
       if c = CHR ''%'' then
         (if inSrcLen < 3 then Some (Inr OS_BadURLFormat)
          else do {
            a \<leftarrow> rd src 1;
            if \<not> isxdigit a then Some (Inr OS_BadURLFormat)
            else do {
              b \<leftarrow> rd src 2;
              if \<not> isxdigit b then Some (Inr OS_BadURLFormat)
              else Some (Inl (char_of (16 * hexval a + hexval b), 3))
            }
          })
       else if c = NUL then Some (Inr OS_BadURLFormat)
       else Some (Inl (c, 1))
     }"

lemma next_char_pos: "next_char src n = Some (Inl (c, k)) \<Longrightarrow> 0 < k"
  by (auto simp: next_char_def bind_eq_Some_conv split: if_splits)

function decode_loop :: "nat \<Rightarrow> mem \<Rightarrow> nat \<Rightarrow> string \<Rightarrow> nat \<Rightarrow> bool \<Rightarrow> ((string \<times> nat) + url_error) option" where
  "decode_loop inDestLen src inSrcLen out numDotChars inQuery =
     (if inSrcLen > 0 then
        if length out = inDestLen then Some (Inr OS_NotEnoughSpace)
        else do {
          c0 \<leftarrow> rd src 0;
          let inQuery' = (inQuery \<or> c0 = CHR ''?'');
          nc \<leftarrow> next_char src inSrcLen;
          case nc of
            Inr e \<Rightarrow> Some (Inr e)
          | Inl (tempChar, k) \<Rightarrow>
              do {
                r \<leftarrow> emit inQuery' numDotChars out tempChar;
                case r of
                  Inr e \<Rightarrow> Some (Inr e)
                | Inl (out', dots') \<Rightarrow>
                    decode_loop inDestLen (drop k src) (inSrcLen - k) out' dots' inQuery'
              }
        }
      else Some (Inl (out, numDotChars)))"
  by pat_completeness auto
termination
  by (relation "measure (\<lambda>(d, src, n, out, dots, q). n)") (auto dest: next_char_pos)

declare decode_loop.simps [simp del]

text \<open>The result is the written prefix and the returned length.\<close>

definition DecodeURL :: "mem \<Rightarrow> int \<Rightarrow> nat \<Rightarrow> ((string \<times> int) + url_error) option" where
  "DecodeURL inSrc inSrcLen inDestLen =
     (if inSrcLen \<le> 0 then Some (Inr OS_BadURLFormat)
      else do {
        c \<leftarrow> rd inSrc 0;
        if c \<noteq> slash then Some (Inr OS_BadURLFormat)
        else do {
          r \<leftarrow> decode_loop inDestLen inSrc (nat inSrcLen) [] 0 False;
          Some (case r of
                  Inr e \<Rightarrow> Inr e
                | Inl (out, numDotChars) \<Rightarrow>
                    Inl (out, int (length out) - (if numDotChars \<le> 2 then int numDotChars else 0)))
        }
      })"

definition url_escaped :: "char \<Rightarrow> bool" where
  "url_escaped c \<longleftrightarrow> byte c \<in> {32, 13, 10, 9, 60, 62, 35, 37, 123, 125, 124, 92, 94, 126, 91, 93, 96, 59,
                              63, 64, 61, 38, 36, 34}"

definition hexdigit :: "nat \<Rightarrow> char" where
  "hexdigit n = char_of (if n < 10 then 48 + n else 55 + n)"

text \<open>\<^verbatim>\<open>sprintf("%%%X", v)\<close> for a value below 256, with its terminator.\<close>

definition sprintf_percent_X :: "nat \<Rightarrow> mem" where
  "sprintf_percent_X v =
     CHR ''%'' # (if v < 16 then [hexdigit v] else [hexdigit (v div 16), hexdigit (v mod 16)]) @ [NUL]"

fun encode_loop :: "mem \<Rightarrow> nat \<Rightarrow> mem \<Rightarrow> nat \<Rightarrow> nat \<Rightarrow> ((mem \<times> nat) + url_error) option" where
  "encode_loop src 0 dest theLengthWritten inDestLen = Some (Inl (dest, theLengthWritten))"
| "encode_loop src (Suc inSrcLen) dest theLengthWritten inDestLen =
     (if theLengthWritten = inDestLen then Some (Inr OS_NotEnoughSpace)
      else do {
        c \<leftarrow> rd src 0;
        if byte c > 127 \<or> url_escaped c then
          (if inDestLen - theLengthWritten < 3 then Some (Inr OS_NotEnoughSpace)
           else do {
             dest' \<leftarrow> write_at dest theLengthWritten (sprintf_percent_X (byte c));
             encode_loop (drop 1 src) inSrcLen dest' (theLengthWritten + 3) inDestLen
           })
        else do {
          dest' \<leftarrow> write_at dest theLengthWritten [c];
          encode_loop (drop 1 src) inSrcLen dest' (theLengthWritten + 1) inDestLen
        }
      })"

definition EncodeURL :: "mem \<Rightarrow> nat \<Rightarrow> mem \<Rightarrow> nat \<Rightarrow> ((mem \<times> nat) + url_error) option" where
  "EncodeURL inSrc inSrcLen ioDest inDestLen = encode_loop inSrc inSrcLen ioDest 0 inDestLen"

fun decode_path_loop :: "mem \<Rightarrow> nat \<Rightarrow> nat \<Rightarrow> mem option" where
  "decode_path_loop m x 0 = Some m"
| "decode_path_loop m x (Suc n) =
     do { c \<leftarrow> rd m x;
          decode_path_loop (if c = slash then m[x := kPathDelimiterChar] else m) (x + 1) n }"

definition DecodePath :: "mem \<Rightarrow> nat \<Rightarrow> mem option" where
  "DecodePath inSrc inSrcLen = decode_path_loop inSrc 0 inSrcLen"

section \<open>Path segments\<close>

fun segs :: "string \<Rightarrow> string list" where
  "segs [] = [[]]"
| "segs (c # cs) = (if c = slash then [] # segs cs else (c # hd (segs cs)) # tl (segs cs))"

definition dot_seg :: "string \<Rightarrow> bool" where
  "dot_seg s \<longleftrightarrow> s = [dot] \<or> s = [dot, dot]"

lemma segs_not_Nil [simp]: "segs s \<noteq> []"
  by (cases s) auto

lemma segs_append_slash: "segs (w @ slash # z) = segs w @ segs z"
  by (induction w) (auto simp: neq_Nil_conv)

lemma segs_no_slash: "slash \<notin> set z \<Longrightarrow> segs z = [z]"
  by (induction z) auto

lemma segs_snoc: "segs (s @ [c]) = (if c = slash then segs s @ [[]] else butlast (segs s) @ [last (segs s) @ [c]])"
proof (cases "slash \<in> set s")
  case True
  then obtain w z where "s = w @ slash # z" "slash \<notin> set z" using split_list_last by metis
  then show ?thesis
    using segs_append_slash [of w "z @ [c]"] segs_append_slash [of w z] segs_no_slash [of z]
      segs_append_slash [of "w @ slash # z" "[]"] segs_no_slash [of "z @ [c]"] by auto
next
  case False
  then show ?thesis
    using segs_no_slash [of s] segs_no_slash [of "s @ [c]"] segs_append_slash [of s "[]"] by auto
qed

lemma segs_last_split:
  assumes "s \<noteq> []" "hd s = slash"
  shows "\<exists>w z. s = w @ slash # z \<and> slash \<notin> set z \<and> segs s = segs w @ [z] \<and> (w \<noteq> [] \<longrightarrow> hd w = slash)"
proof -
  have "slash \<in> set s" using assms by (metis hd_in_set)
  then obtain w z where s: "s = w @ slash # z" "slash \<notin> set z" using split_list_last by metis
  then show ?thesis using segs_append_slash [of w z] segs_no_slash [of z] assms(2)
    by (intro exI [of _ w] exI [of _ z]) (auto simp: hd_append)
qed

lemma kPathDelimiterChar_slash [simp]: "kPathDelimiterChar = slash"
  by (simp add: kPathDelimiterChar_def slash_def)

lemma all_segs:
  "(\<forall>s \<in> set (segs out). P s) \<longleftrightarrow> (\<forall>s \<in> set (butlast (segs out)). P s) \<and> P (last (segs out))"
  using segs_not_Nil [of out] by (cases "segs out" rule: rev_cases) auto

lemma slash_neq_dot [simp]: "slash \<noteq> dot" "dot \<noteq> slash"
  by (simp_all add: slash_def dot_def)

text \<open>
  The invariant of the decoding loop outside a query: the output is rooted, no finished
  segment is a dot segment, and \<^verbatim>\<open>numDotChars\<close> is the length of the last segment
  when that consists of dots only.
\<close>

definition decode_inv :: "string \<Rightarrow> nat \<Rightarrow> bool" where
  "decode_inv out dots \<longleftrightarrow>
     out \<noteq> [] \<and> hd out = slash \<and> (\<forall>s \<in> set (butlast (segs out)). \<not> dot_seg s) \<and>
     dots = (if set (last (segs out)) \<subseteq> {dot} then length (last (segs out)) else 0)"

lemma dots_replicate: "set z \<subseteq> {dot} \<Longrightarrow> z = replicate (length z) dot"
  by (induction z) auto

lemma decode_inv_strip:
  assumes inv: "decode_inv out k" and k: "0 < k"
  shows "\<exists>w. out = w @ slash # replicate k dot \<and> (w \<noteq> [] \<longrightarrow> hd w = slash) \<and> (\<forall>s \<in> set (segs w). \<not> dot_seg s)"
proof -
  obtain w z where w: "out = w @ slash # z" "segs out = segs w @ [z]" "w \<noteq> [] \<longrightarrow> hd w = slash"
    using segs_last_split inv by (metis decode_inv_def)
  have "set z \<subseteq> {dot}" "length z = k" using inv k w by (auto simp: decode_inv_def split: if_splits)
  then have "z = replicate k dot" using dots_replicate by metis
  with w inv show ?thesis by (auto simp: decode_inv_def)
qed

lemma decode_inv_emit:
  assumes inv: "decode_inv out k"
  shows "\<exists>out' k'. emit False k out c = Some (Inl (out', k')) \<and> decode_inv out' k' \<and> length out' \<le> Suc (length out) \<and>
     (\<not> (c = slash \<and> dot_seg (last (segs out))) \<longrightarrow> out' = out @ [c])"
proof -
  consider (strip) "c = slash" "0 < k" "k \<le> 2" | (slash) "c = slash" "k = 0 \<or> 2 < k" | (dot) "c = dot" | (other) "c \<noteq> slash" "c \<noteq> dot"
    by linarith
  then show ?thesis
  proof cases
    case strip
    obtain w where w: "out = w @ slash # replicate k dot" "w \<noteq> [] \<longrightarrow> hd w = slash" "\<forall>s \<in> set (segs w). \<not> dot_seg s"
      using decode_inv_strip [OF inv strip(2)] by auto
    have "emit False k out c = Some (Inl (w @ [slash], 0))"
      using strip w(1) by (simp add: emit_def)
    moreover have "decode_inv (w @ [slash]) 0"
      using w(2,3) by (auto simp: decode_inv_def segs_snoc hd_append)
    moreover have "dot_seg (last (segs out))"
    proof -
      have "slash \<notin> set (replicate k dot)" by auto
      then have "last (segs out) = replicate k dot"
        by (simp add: w(1) segs_append_slash segs_no_slash)
      moreover have "k = 1 \<or> k = 2" using strip by auto
      ultimately show ?thesis by (auto simp: dot_seg_def numeral_2_eq_2)
    qed
    ultimately show ?thesis using w(1) strip(1) by auto
  next
    case slash
    then have "\<not> (k \<le> 2 \<and> k > 0)" by auto
    then have "emit False k out c = Some (Inl (out @ [c], 0))"
      unfolding emit_def slash(1) by (simp only: simp_thms if_True if_False bind.bind_lunit kPathDelimiterChar_slash slash_neq_dot)
    moreover have "\<not> dot_seg (last (segs out))"
    proof
      have k: "k = (if set (last (segs out)) \<subseteq> {dot} then length (last (segs out)) else 0)"
        using inv by (simp add: decode_inv_def)
      assume "dot_seg (last (segs out))"
      then show False using k slash(2) unfolding dot_seg_def by (elim disjE) simp_all
    qed
    then have "decode_inv (out @ [c]) 0"
      using inv slash(1) by (simp add: decode_inv_def segs_snoc hd_append all_segs)
    ultimately show ?thesis by auto
  next
    case dot
    have "last out = slash \<longleftrightarrow> last (segs out) = []"
    proof -
      obtain w z where "out = w @ slash # z" "slash \<notin> set z" "segs out = segs w @ [z]"
        using segs_last_split inv by (metis decode_inv_def)
      then show ?thesis by (auto simp: last_append split: if_splits) (metis last_in_set)
    qed
    moreover have "last out = CF_StringTranslator.dot" if "0 < k"
      using decode_inv_strip [OF inv that] that by auto
    moreover have "out \<noteq> []" "k = 0 \<Longrightarrow> last (segs out) = [] \<or> \<not> set (last (segs out)) \<subseteq> {CF_StringTranslator.dot}"
      using inv by (auto simp: decode_inv_def split: if_splits)
    ultimately have "emit False k out c = Some (Inl (out @ [c],
        if set (last (segs out)) \<subseteq> {CF_StringTranslator.dot} then Suc (length (last (segs out))) else 0))"
      using dot inv by (auto simp: emit_def decode_inv_def)
    moreover have "decode_inv (out @ [c])
        (if set (last (segs out)) \<subseteq> {CF_StringTranslator.dot} then Suc (length (last (segs out))) else 0)"
      using inv dot by (auto simp: decode_inv_def segs_snoc hd_append)
    ultimately show ?thesis by auto
  next
    case other
    then have "emit False k out c = Some (Inl (out @ [c], 0))"
      by (auto simp: emit_def)
    moreover have "decode_inv (out @ [c]) 0"
      using inv other by (auto simp: decode_inv_def segs_snoc hd_append)
    ultimately show ?thesis by auto
  qed
qed

lemma decode_inv_last:
  assumes inv: "decode_inv out k" and k: "k = 0 \<or> 2 < k"
  shows "\<not> dot_seg (last (segs out))"
proof
  have l: "k = (if set (last (segs out)) \<subseteq> {dot} then length (last (segs out)) else 0)"
    using inv by (simp add: decode_inv_def)
  assume "dot_seg (last (segs out))"
  then show False using l k unfolding dot_seg_def by (elim disjE) simp_all
qed

lemma decode_inv_less: "decode_inv out k \<Longrightarrow> k < length out"
proof (cases k)
  case 0
  assume "decode_inv out k" with 0 show ?thesis by (auto simp: decode_inv_def)
next
  case (Suc j)
  assume "decode_inv out k"
  from decode_inv_strip [OF this] Suc show ?thesis by auto
qed

text \<open>What is left after the trailing dots are cut off.\<close>

lemma decode_inv_final:
  assumes inv: "decode_inv out k"
  defines "n \<equiv> length out - (if k \<le> 2 then k else 0)"
  shows "0 < n \<and> hd (take n out) = slash \<and> (\<forall>s \<in> set (segs (take n out)). \<not> dot_seg s)"
proof (cases "k = 0 \<or> 2 < k")
  case True
  then have "take n out = out" "n = length out" by (auto simp: n_def)
  then show ?thesis using inv decode_inv_last [OF inv True] by (simp add: all_segs) (simp add: decode_inv_def)
next
  case False
  then obtain w where w: "out = w @ slash # replicate k dot" "w \<noteq> [] \<longrightarrow> hd w = slash" "\<forall>s \<in> set (segs w). \<not> dot_seg s"
    using decode_inv_strip [OF inv] by auto
  have "n = Suc (length w)" using False by (simp add: n_def w(1))
  then have "take n out = w @ [slash]" by (simp add: w(1))
  with \<open>n = Suc (length w)\<close> w(2,3) show ?thesis by (auto simp: segs_snoc hd_append dot_seg_def)
qed

lemma next_char_total:
  assumes "0 < n" "n \<le> length src"
  shows "\<exists>r. next_char src n = Some r \<and> (\<forall>c k. r = Inl (c, k) \<longrightarrow> 0 < k \<and> k \<le> n)"
  using assms by (auto simp: next_char_def rd_def)

text \<open>The loop reads only the source and never leaves the destination.\<close>

lemma decode_loop_safe:
  assumes "n \<le> length src" "length out \<le> d" "k < length out" "q \<or> decode_inv out k"
  shows "\<exists>r. decode_loop d src n out k q = Some r \<and>
    (\<forall>out' k'. r = Inl (out', k') \<longrightarrow> length out' \<le> d \<and> k' < length out' \<and>
       (q \<or> CHR ''?'' \<in> set (take n src) \<or> decode_inv out' k'))"
  using assms
proof (induction n arbitrary: src out k q rule: less_induct)
  case (less n)
  show ?case
  proof (cases "0 < n \<and> length out \<noteq> d")
    case False
    with less.prems show ?thesis by (subst decode_loop.simps) auto
  next
    case True
    let ?q = "q \<or> src ! 0 = CHR ''?''"
    have r0: "rd src 0 = Some (src ! 0)" using True less.prems(1) by (auto simp: rd_def)
    obtain nc where nc: "next_char src n = Some nc" "\<And>c j. nc = Inl (c, j) \<Longrightarrow> 0 < j \<and> j \<le> n"
      using next_char_total [of n src] True less.prems(1) by blast
    show ?thesis
    proof (cases nc)
      case (Inr e)
      with True r0 nc(1) show ?thesis by (subst decode_loop.simps) (simp add: Let_def)
    next
      case (Inl cj)
      obtain c j where cj: "cj = (c, j)" by (cases cj)
      have j: "0 < j" "j \<le> n" using nc(2) Inl cj by auto
      obtain out1 k1 where e: "emit ?q k out c = Some (Inl (out1, k1))" "length out1 \<le> Suc (length out)"
          "k1 < length out1" "?q \<or> decode_inv out1 k1"
      proof (cases ?q)
        case True
        then show ?thesis using that [of "out @ [c]" k] less.prems(3) by (simp add: emit_def)
      next
        case False
        with less.prems(4) have "decode_inv out k" by simp
        from decode_inv_emit [OF this, of c] False that show ?thesis
          using decode_inv_less by metis
      qed
      have step: "decode_loop d src n out k q = decode_loop d (drop j src) (n - j) out1 k1 ?q"
        using True r0 nc(1) Inl cj e(1) by (subst decode_loop.simps) (simp add: Let_def)
      have "set (take (n - j) (drop j src)) \<subseteq> set (take n src)"
        using j by (metis drop_take set_drop_subset)
      moreover have "src ! 0 \<in> set (take n src)" using True less.prems(1) by (auto simp: in_set_conv_nth intro!: exI [of _ 0])
      moreover have "\<exists>r. decode_loop d (drop j src) (n - j) out1 k1 ?q = Some r \<and>
        (\<forall>out' k'. r = Inl (out', k') \<longrightarrow> length out' \<le> d \<and> k' < length out' \<and>
           (?q \<or> CHR ''?'' \<in> set (take (n - j) (drop j src)) \<or> decode_inv out' k'))"
        using j e True less.prems(1,2) by (intro less.IH) auto
      ultimately show ?thesis unfolding step by (elim exE conjE) (intro exI conjI, assumption, force)
    qed
  qed
qed

section \<open>Encoding\<close>

text \<open>The encoding of one character of at least 16 (three bytes when it is escaped).\<close>

definition enc :: "char \<Rightarrow> string" where
  "enc c = (if byte c > 127 \<or> url_escaped c
            then [CHR ''%'', hexdigit (byte c div 16), hexdigit (byte c mod 16)] else [c])"

definition plain_text :: "char \<Rightarrow> bool" where
  "plain_text c \<longleftrightarrow> c \<noteq> NUL \<and> byte c \<notin> {9, 10, 13}"

lemma escaped_ge_16: "plain_text c \<Longrightarrow> byte c > 127 \<or> url_escaped c \<Longrightarrow> 16 \<le> byte c"
  by (auto simp: plain_text_def url_escaped_def)

lemma hexdigit_byte: "n < 16 \<Longrightarrow> byte (hexdigit n) = (if n < 10 then 48 + n else 55 + n)"
  by (simp add: hexdigit_def)

lemma hexdigit_ok: "n < 16 \<Longrightarrow> isxdigit (hexdigit n) \<and> hexval (hexdigit n) = n"
  by (auto simp: isxdigit_def hexval_def hexdigit_byte)

lemma char_of_byte [simp]: "char_of (byte c) = c"
  by (simp add: byte_def)

lemma percent_escaped [simp]: "url_escaped (CHR ''%'')" "url_escaped (CHR ''?'')"
  by (simp_all add: url_escaped_def byte_def)

lemma next_char_enc:
  assumes "plain_text c" "length (enc c) \<le> n"
  shows "next_char (enc c @ r) n = Some (Inl (c, length (enc c)))"
proof (cases "byte c > 127 \<or> url_escaped c")
  case True
  have "byte c div 16 < 16" using byte_less [of c] by (intro less_mult_imp_div_less) simp
  moreover have "16 * (byte c div 16) + byte c mod 16 = byte c" by simp
  ultimately show ?thesis using True assms hexdigit_ok [of "byte c div 16"] hexdigit_ok [of "byte c mod 16"]
    by (simp add: next_char_def enc_def numeral_2_eq_2)
next
  case False
  then have "c \<noteq> CHR ''%''" by auto
  with False assms show ?thesis by (simp add: next_char_def enc_def plain_text_def)
qed

lemma enc_head: "enc c @ r \<noteq> [] \<and> (enc c @ r) ! 0 \<noteq> CHR ''?''"
  by (auto simp: enc_def)

lemma enc_pos: "0 < length (enc c)"
  by (simp add: enc_def)

lemma decode_loop_enc:
  assumes "decode_inv out k" "\<forall>c \<in> set s. plain_text c" "length (out @ s) \<le> d"
    and "\<forall>t \<in> set (segs (out @ s)). \<not> dot_seg t"
  shows "\<exists>k'. decode_loop d (concat (map enc s) @ junk) (length (concat (map enc s))) out k False = Some (Inl (out @ s, k')) \<and>
    decode_inv (out @ s) k'"
  using assms
proof (induction s arbitrary: out k)
  case Nil
  then show ?case by (subst decode_loop.simps) simp
next
  case (Cons c s)
  let ?r = "concat (map enc s) @ junk" and ?n = "length (concat (map enc (c # s)))"
  have "out @ c # s = (out @ [c]) @ s" by simp
  have nd: "\<not> (c = slash \<and> dot_seg (last (segs out)))"
    using Cons.prems(4) all_segs [of out "\<lambda>t. \<not> dot_seg t"] by (auto simp: segs_append_slash)
  obtain k1 where e: "emit False k out c = Some (Inl (out @ [c], k1))" "decode_inv (out @ [c]) k1"
    using decode_inv_emit [OF Cons.prems(1), of c] nd by auto
  have nc: "next_char (enc c @ ?r) ?n = Some (Inl (c, length (enc c)))"
    using Cons.prems(2) by (intro next_char_enc) auto
  have step: "decode_loop d (concat (map enc (c # s)) @ junk) ?n out k False
      = decode_loop d ?r (length (concat (map enc s))) (out @ [c]) k1 False"
    using Cons.prems(3) nc e(1) enc_head [of c ?r] enc_pos [of c]
    by (subst decode_loop.simps) (simp add: Let_def rd_def)
  show ?case unfolding step using Cons.IH [OF e(2)] Cons.prems by simp
qed

lemma write_enc:
  assumes "plain_text c" "byte c > 127 \<or> url_escaped c" "pos + 3 < length dest"
  shows "\<exists>dest'. write_at dest pos (sprintf_percent_X (byte c)) = Some dest' \<and> length dest' = length dest \<and>
    take (pos + 3) dest' = take pos dest @ enc c"
proof -
  have x: "sprintf_percent_X (byte c) = enc c @ [NUL]" "length (enc c) = 3"
    using escaped_ge_16 [OF assms(1,2)] assms(2) by (auto simp: sprintf_percent_X_def enc_def)
  then show ?thesis using assms(3) by (auto simp: write_at_def)
qed

lemma encode_loop_spec:
  assumes "\<forall>c \<in> set s. plain_text c" "pos + length (concat (map enc s)) \<le> d"
    "pos + length (concat (map enc s)) < length dest"
  shows "\<exists>dest'. encode_loop (s @ junk) (length s) dest pos d = Some (Inl (dest', pos + length (concat (map enc s)))) \<and>
    length dest' = length dest \<and>
    take (pos + length (concat (map enc s))) dest' = take pos dest @ concat (map enc s)"
  using assms
proof (induction s arbitrary: dest pos)
  case Nil
  then show ?case by simp
next
  case (Cons c s)
  have pd: "pos \<noteq> d" using Cons.prems(2) enc_pos [of c] by auto
  have pc: "plain_text c" using Cons.prems(1) by simp
  obtain dest1 where w: "take (pos + length (enc c)) dest1 = take pos dest @ enc c" "length dest1 = length dest"
     "encode_loop ((c # s) @ junk) (length (c # s)) dest pos d = encode_loop (s @ junk) (length s) dest1 (pos + length (enc c)) d"
  proof (cases "byte c > 127 \<or> url_escaped c")
    case True
    then have l: "length (enc c) = 3" by (simp add: enc_def)
    obtain dest1 where "write_at dest pos (sprintf_percent_X (byte c)) = Some dest1" "length dest1 = length dest"
        "take (pos + 3) dest1 = take pos dest @ enc c"
      using write_enc [OF pc True, of pos dest] Cons.prems(3) l by auto
    moreover have "\<not> d - pos < 3" using Cons.prems(2) l by simp
    ultimately show ?thesis using that [of dest1] True l pd by simp
  next
    case False
    then have l: "enc c = [c]" by (simp add: enc_def)
    obtain dest1 where "write_at dest pos [c] = Some dest1" "length dest1 = length dest"
        "take (pos + 1) dest1 = take pos dest @ enc c"
      using write_at_spec [of pos "[c]" dest] Cons.prems(3) l by auto
    with that [of dest1] False l pd show ?thesis by simp
  qed
  have "\<exists>dest'. encode_loop (s @ junk) (length s) dest1 (pos + length (enc c)) d
        = Some (Inl (dest', pos + length (enc c) + length (concat (map enc s)))) \<and> length dest' = length dest1 \<and>
      take (pos + length (enc c) + length (concat (map enc s))) dest' = take (pos + length (enc c)) dest1 @ concat (map enc s)"
    using Cons.prems w(2) by (intro Cons.IH) auto
  then show ?case unfolding w(3) using w(1,2) by (simp add: add.assoc)
qed

section \<open>Properties\<close>

lemma DecodeURL_written:
  assumes "0 < n" "n \<le> length src"
  shows "\<exists>r. DecodeURL src (int n) d = Some r \<and>
    (\<forall>out len. r = Inl (out, len) \<longrightarrow> 0 < len \<and> len \<le> int d \<and> length out \<le> d \<and>
       (CHR ''?'' \<notin> set (take n src) \<longrightarrow>
          hd (take (nat len) out) = slash \<and> (\<forall>s \<in> set (segs (take (nat len) out)). \<not> dot_seg s)))"
proof -
  have r0: "rd src 0 = Some (src ! 0)" using assms by (auto simp: rd_def)
  show ?thesis
  proof (cases "src ! 0 = slash \<and> d \<noteq> 0")
    case False
    with assms r0 show ?thesis
      by (auto simp: DecodeURL_def) (subst decode_loop.simps, simp)
  next
    case True
    then have sl: "src ! 0 = slash" and d: "0 < d" by auto
    have nc: "next_char src n = Some (Inl (slash, 1))" using r0 sl by (simp add: next_char_def slash_def)
    have inv: "decode_inv [slash] 0" by (simp add: decode_inv_def dot_seg_def)
    have "emit False 0 [] slash = Some (Inl ([slash], 0))" by (simp add: emit_def)
    moreover have "slash \<noteq> CHR ''?''" by (simp add: slash_def)
    ultimately have step: "decode_loop d src n [] 0 False = decode_loop d (drop 1 src) (n - 1) [slash] 0 False"
      using r0 sl nc d assms by (subst decode_loop.simps) (simp add: Let_def)
    have "set (take (n - 1) (drop 1 src)) \<subseteq> set (take n src)"
      using assms(1) by (metis drop_take set_drop_subset)
    moreover have "n - 1 \<le> length (drop 1 src)" using assms(2) by (simp add: diff_le_mono)
    moreover from this obtain r where r: "decode_loop d (drop 1 src) (n - 1) [slash] 0 False = Some r"
        "\<And>out' k'. r = Inl (out', k') \<Longrightarrow> length out' \<le> d \<and> k' < length out' \<and>
           (CHR ''?'' \<in> set (take (n - 1) (drop 1 src)) \<or> decode_inv out' k')"
      using decode_loop_safe [of "n - 1" "drop 1 src" "[slash]" d 0 False] inv d assms(2) by auto
    ultimately have fin: "length out' \<le> d \<and> k' < length out' \<and> (CHR ''?'' \<notin> set (take n src) \<longrightarrow> decode_inv out' k')"
      if "r = Inl (out', k')" for out' k'
      using that by blast
    have res: "DecodeURL src (int n) d = Some (case r of Inr e \<Rightarrow> Inr e
        | Inl (out, k) \<Rightarrow> Inl (out, int (length out) - (if k \<le> 2 then int k else 0)))"
      using assms r0 sl step r(1) by (simp add: DecodeURL_def)
    show ?thesis
    proof (cases r)
      case (Inr e)
      then show ?thesis unfolding res by simp
    next
      case (Inl ok)
      obtain out k where ok: "ok = (out, k)" by (cases ok)
      note f = fin [OF Inl [unfolded ok]]
      define m where "m = length out - (if k \<le> 2 then k else 0)"
      have eq: "int (length out) - (if k \<le> 2 then int k else 0) = int m" and m: "0 < m" "m \<le> length out"
        using f by (auto simp: m_def)
      have "hd (take m out) = slash \<and> (\<forall>s \<in> set (segs (take m out)). \<not> dot_seg s)" if "CHR ''?'' \<notin> set (take n src)"
        using f that decode_inv_final [of out k] by (simp add: m_def)
      then show ?thesis using f m unfolding res Inl ok sum.case prod.case eq by auto
    qed
  qed
qed

text \<open>C9: Decoding what \<^verbatim>\<open>EncodeURL\<close> produced gives back the original path,
  for every rooted path without zero bytes, tabs and line breaks and without dot segments,
  when the destination of the encoder has one byte to spare for the terminator.\<close>

theorem URL_roundtrip:
  assumes "s \<noteq> []" "hd s = slash" "\<forall>c \<in> set s. plain_text c" "\<forall>t \<in> set (segs s). \<not> dot_seg t"
    and "length (concat (map enc s)) \<le> d" "d < length dest" "length s \<le> d'"
  shows "\<exists>dest' n. EncodeURL s (length s) dest d = Some (Inl (dest', n)) \<and> n \<le> d \<and>
    DecodeURL dest' (int n) d' = Some (Inl (s, int (length s)))"
proof -
  let ?e = "concat (map enc s)"
  obtain dest' where e: "EncodeURL s (length s) dest d = Some (Inl (dest', length ?e))" "length dest' = length dest"
      "take (length ?e) dest' = ?e"
    using encode_loop_spec [OF assms(3), of 0 d dest "[]"] assms(5,6) by (auto simp: EncodeURL_def)
  have dest': "dest' = ?e @ drop (length ?e) dest'" using e(3) by (metis append_take_drop_id)
  obtain s1 where s: "s = slash # s1" using assms(1,2) by (cases s) auto
  have es: "enc slash = [slash]" by (simp add: enc_def slash_def url_escaped_def byte_def)
  let ?j = "drop (length ?e) dest'" and ?n = "length (concat (map enc s1))"
  have d2: "dest' = slash # concat (map enc s1) @ ?j" using dest' s es by simp
  have len: "length ?e = Suc ?n" using s es by simp
  have inv: "decode_inv [slash] 0" by (simp add: decode_inv_def dot_seg_def)
  have "emit False 0 [] slash = Some (Inl ([slash], 0))" by (simp add: emit_def)
  moreover have "slash \<noteq> CHR ''?''" "slash \<noteq> CHR ''%''" "slash \<noteq> NUL" by (simp_all add: slash_def)
  moreover have r0: "rd dest' 0 = Some slash" by (subst d2) simp
  moreover have "drop 1 dest' = concat (map enc s1) @ ?j" by (subst d2) simp
  moreover have "0 < d'" using assms(7) s by simp
  ultimately have step: "decode_loop d' dest' (Suc ?n) [] 0 False
      = decode_loop d' (concat (map enc s1) @ ?j) ?n [slash] 0 False"
    by (subst decode_loop.simps) (simp add: Let_def next_char_def)
  obtain k where k: "decode_loop d' (concat (map enc s1) @ ?j) ?n [slash] 0 False = Some (Inl (s, k))" "decode_inv s k"
    using decode_loop_enc [OF inv, of s1 d' ?j] assms(3,4,7) s by auto
  have "\<not> dot_seg (last (segs s))" using assms(4) all_segs [of s "\<lambda>t. \<not> dot_seg t"] by blast
  then have "k = 0 \<or> 2 < k"
  proof (rule contrapos_np)
    assume "\<not> (k = 0 \<or> 2 < k)"
    then have "k = 1 \<or> k = 2" by auto
    moreover obtain w where "s = w @ slash # replicate k dot" using decode_inv_strip [OF k(2)] calculation by auto
    ultimately show "dot_seg (last (segs s))"
      by (auto simp: segs_append_slash dot_seg_def numeral_2_eq_2)
  qed
  then have "DecodeURL dest' (int (length ?e)) d' = Some (Inl (s, int (length s)))"
    using step k(1) r0 unfolding len by (auto simp: DecodeURL_def simp del: of_nat_Suc)
  with e(1) assms(5) show ?thesis by blast
qed

theorem URL_roundtrip_witness:
  "\<exists>dest' n. EncodeURL ''/a b/..c'' 8 (replicate 20 NUL) 15 = Some (Inl (dest', n)) \<and> n \<le> 15 \<and>
    DecodeURL dest' (int n) 30 = Some (Inl (''/a b/..c'', 8))"
proof -
  have 1: "hd ''/a b/..c'' = slash" by code_simp
  have 2: "\<forall>c \<in> set ''/a b/..c''. plain_text c" by code_simp
  have 3: "\<forall>t \<in> set (segs ''/a b/..c''). \<not> dot_seg t" by code_simp
  have 4: "length (concat (map enc ''/a b/..c'')) \<le> 15" by code_simp
  have 5: "length ''/a b/..c'' = 8" by simp
  show ?thesis using URL_roundtrip [OF _ 1 2 3 4, of "replicate 20 NUL" 30] unfolding 5 by simp
qed

text \<open>A dot segment right before a query survives \<^verbatim>\<open>DecodeURL\<close>, and the
  query loses as many characters at its end: the dot count is not reset when the query
  starts.\<close>

theorem DecodeURL_query_dots:
  "DecodeURL ''/..?abc'' 7 100 = Some (Inl (''/..?abc'', 5))"
  by code_simp

text \<open>\<^verbatim>\<open>EncodeURL\<close> encodes a line feed as a percent sign, one hexadecimal
  digit and a zero byte, counted as three characters, which \<^verbatim>\<open>DecodeURL\<close> rejects;
  and it stores the terminator of \<^verbatim>\<open>sprintf\<close> behind a destination that the
  encoded character fills exactly.\<close>

theorem EncodeURL_defects:
  "EncodeURL [CHR ''/'', CHR 0x0A] 2 (replicate 10 (CHR ''x'')) 10
     = Some (Inl ([CHR ''/'', CHR ''%'', CHR ''A'', NUL] @ ''xxxxxx'', 4)) \<and>
   DecodeURL ([CHR ''/'', CHR ''%'', CHR ''A'', NUL] @ ''xxxxxx'') 4 10 = Some (Inr OS_BadURLFormat) \<and>
   EncodeURL '' '' 1 (replicate 3 NUL) 3 = None"
  by (intro conjI; code_simp)

section \<open>The destination buffer\<close>

text \<open>
  \<^verbatim>\<open>DecodeURL\<close> once more, with the destination as memory: the bytes behind the returned
  length matter to a caller that copies more than that, and \<^verbatim>\<open>inDestLen\<close> need not be the
  size of the destination. A write outside the destination is \<^term>\<open>None\<close>. \<open>w\<close> is
  \<^verbatim>\<open>theLengthWritten\<close>.
\<close>

function decode_into ::
  "nat \<Rightarrow> mem \<Rightarrow> nat \<Rightarrow> mem \<Rightarrow> nat \<Rightarrow> nat \<Rightarrow> bool \<Rightarrow> (mem \<times> ((nat \<times> nat) + url_error)) option" where
  "decode_into inDestLen src inSrcLen dest w numDotChars inQuery =
     (if inSrcLen > 0 then
        if w = inDestLen then Some (dest, Inr OS_NotEnoughSpace)
        else do {
          c0 \<leftarrow> rd src 0;
          let inQuery' = (inQuery \<or> c0 = CHR ''?'');
          nc \<leftarrow> next_char src inSrcLen;
          case nc of
            Inr e \<Rightarrow> Some (dest, Inr e)
          | Inl (tempChar, k) \<Rightarrow>
              do {
                r \<leftarrow> emit inQuery' numDotChars (take w dest) tempChar;
                case r of
                  Inr e \<Rightarrow> Some (dest, Inr e)
                | Inl (out', dots') \<Rightarrow>
                    if length out' \<le> length dest
                    then decode_into inDestLen (drop k src) (inSrcLen - k) (dest[length out' - 1 := tempChar])
                           (length out') dots' inQuery'
                    else None
              }
        }
      else Some (dest, Inl (w, numDotChars)))"
  by pat_completeness auto
termination
  by (relation "measure (\<lambda>(d, src, n, dest, w, dots, q). n)") (auto dest: next_char_pos)

declare decode_into.simps [simp del]

definition DecodeURL_into :: "mem \<Rightarrow> int \<Rightarrow> mem \<Rightarrow> nat \<Rightarrow> (mem \<times> (int + url_error)) option" where
  "DecodeURL_into inSrc inSrcLen ioDest inDestLen =
     (if inSrcLen \<le> 0 then Some (ioDest, Inr OS_BadURLFormat)
      else do {
        c \<leftarrow> rd inSrc 0;
        if c \<noteq> slash then Some (ioDest, Inr OS_BadURLFormat)
        else do {
          (dest, r) \<leftarrow> decode_into inDestLen inSrc (nat inSrcLen) ioDest 0 0 False;
          Some (dest, case r of
                  Inr e \<Rightarrow> Inr e
                | Inl (w, numDotChars) \<Rightarrow> Inl (int w - (if numDotChars \<le> 2 then int numDotChars else 0)))
        }
      })"

text \<open>
  A path that is copied as it is: no escapes, no query, no zero byte, and no dot behind a
  slash. \<open>prev\<close> is the character before.
\<close>

fun plain_after :: "char \<Rightarrow> string \<Rightarrow> bool" where
  "plain_after prev [] = True"
| "plain_after prev (c # cs) =
     (c \<noteq> CHR ''%'' \<and> c \<noteq> CHR ''?'' \<and> c \<noteq> NUL \<and> \<not> (c = dot \<and> prev = slash) \<and> plain_after c cs)"

definition plain_path :: "string \<Rightarrow> bool" where
  "plain_path p \<longleftrightarrow> p \<noteq> [] \<and> hd p = slash \<and> plain_after slash (tl p)"

lemma emit_plain:
  assumes "out \<noteq> []" "\<not> (c = dot \<and> last out = slash)"
  shows "emit False 0 out c = Some (Inl (out @ [c], 0))"
  using assms by (simp add: emit_def)

lemma take_upd_snoc: "w < length m \<Longrightarrow> take (Suc w) (m[w := c]) = take w m @ [c]"
  by (simp add: take_Suc_conv_app_nth)

text \<open>On such a path the buffer fills from left to right; one byte too many leaves it.\<close>

lemma decode_into_plain:
  assumes "plain_after (last (take w dest)) cs" "0 < w" "w \<le> length dest" "w + length cs < inDestLen" "take (length cs) src = cs"
  shows "decode_into inDestLen src (length cs) dest w 0 False =
    (if w + length cs \<le> length dest
     then Some (take w dest @ cs @ drop (w + length cs) dest, Inl (w + length cs, 0)) else None)"
  using assms
proof (induction cs arbitrary: src dest w)
  case Nil
  then show ?case by (subst decode_into.simps) simp
next
  case (Cons c cs)
  obtain src' where src: "src = c # src'" "take (length cs) src' = cs"
    using Cons.prems(5) by (cases src) auto
  have c: "c \<noteq> CHR ''%''" "c \<noteq> CHR ''?''" "c \<noteq> NUL" "\<not> (c = dot \<and> last (take w dest) = slash)" "plain_after c cs"
    using Cons.prems(1) by auto
  have ne: "take w dest \<noteq> []" using Cons.prems(2,3) by auto
  have nc: "next_char src (Suc (length cs)) = Some (Inl (c, 1))" using c src by (simp add: next_char_def)
  have em: "emit False 0 (take w dest) c = Some (Inl (take w dest @ [c], 0))" using emit_plain [OF ne] c(4) by blast
  have wl: "length (take w dest @ [c]) = Suc w" using Cons.prems(3) by simp
  have step: "decode_into inDestLen src (length (c # cs)) dest w 0 False =
      (if Suc w \<le> length dest then decode_into inDestLen src' (length cs) (dest[w := c]) (Suc w) 0 False else None)"
    using Cons.prems(4) c(2) by (subst decode_into.simps) (simp add: src nc [unfolded src] em wl del: length_append)
  show ?case
  proof (cases "Suc w \<le> length dest")
    case True
    have t: "take (Suc w) (dest[w := c]) = take w dest @ [c]" using True by (intro take_upd_snoc) simp
    have "decode_into inDestLen src' (length cs) (dest[w := c]) (Suc w) 0 False =
       (if Suc w + length cs \<le> length (dest[w := c])
        then Some (take (Suc w) (dest[w := c]) @ cs @ drop (Suc w + length cs) (dest[w := c]), Inl (Suc w + length cs, 0)) else None)"
      using Cons.prems(4) c(5) True src(2) by (intro Cons.IH) (simp_all add: t)
    then show ?thesis unfolding step t using True by (simp add: drop_update_cancel)
  next
    case False
    then show ?thesis unfolding step by simp
  qed
qed

lemma DecodeURL_into_plain:
  assumes "plain_path p" "length p < inDestLen" "take (length p) src = p" "dest \<noteq> []"
  shows "DecodeURL_into src (int (length p)) dest inDestLen =
    (if length p \<le> length dest then Some (p @ drop (length p) dest, Inl (int (length p))) else None)"
proof -
  obtain cs where p: "p = slash # cs" "plain_after slash cs" using assms(1) by (cases p) (auto simp: plain_path_def)
  obtain src' where src: "src = slash # src'" "take (length cs) src' = cs" using assms(3) p by (cases src) auto
  obtain d ds where d: "dest = d # ds" using assms(4) by (cases dest) auto
  have s0: "slash \<noteq> CHR ''?''" "slash \<noteq> CHR ''%''" "slash \<noteq> NUL" by (simp_all add: slash_def)
  have nc: "next_char src (Suc (length cs)) = Some (Inl (slash, 1))" using s0 src by (simp add: next_char_def)
  have em: "emit False 0 [] slash = Some (Inl ([slash], 0))" by (simp add: emit_def)
  have "decode_into inDestLen src (length p) dest 0 0 False = decode_into inDestLen src' (length cs) (slash # ds) 1 0 False"
    using assms(2) s0 by (subst decode_into.simps) (simp add: src nc [unfolded src] em p d)
  also have "\<dots> = (if 1 + length cs \<le> length (slash # ds)
     then Some (take 1 (slash # ds) @ cs @ drop (1 + length cs) (slash # ds), Inl (1 + length cs, 0)) else None)"
    using p src assms(2) by (intro decode_into_plain) simp_all
  also have "\<dots> = (if length p \<le> length dest then Some (p @ drop (length p) dest, Inl (length p, 0)) else None)"
    using p d by simp
  finally have r: "decode_into inDestLen src (nat (int (length p))) dest 0 0 False =
    (if length p \<le> length dest then Some (p @ drop (length p) dest, Inl (length p, 0)) else None)"
    unfolding nat_int .
  have "0 < int (length p)" "rd src 0 = Some slash" using p src by simp_all
  then show ?thesis unfolding DecodeURL_into_def r by simp
qed

text \<open>The decoder looks at no byte behind the length it is given.\<close>

lemma rd_take: "i < n \<Longrightarrow> rd (take n src) i = rd src i"
  by (auto simp: rd_def)

lemma next_char_take:
  assumes "0 < n"
  shows "next_char (take n src) n = next_char src n"
proof -
  have "\<not> n < 3 \<Longrightarrow> rd (take n src) 1 = rd src 1" "\<not> n < 3 \<Longrightarrow> rd (take n src) 2 = rd src 2" by (simp_all add: rd_take)
  then show ?thesis using rd_take [OF assms, of src] unfolding next_char_def
    by (cases "n < 3") (simp_all cong: if_cong)
qed

lemma decode_into_take:
  "n \<le> length src \<Longrightarrow> decode_into d (take n src) n dest w k q = decode_into d src n dest w k q"
proof (induction n arbitrary: src dest w k q rule: less_induct)
  case (less n)
  show ?case
  proof (cases "0 < n")
    case True
    note r = rd_take [OF True, of src]
    have IH: "decode_into d (drop j (take n src)) (n - j) dest' w' k' q' = decode_into d (drop j src) (n - j) dest' w' k' q'"
      if "0 < j" for j dest' w' k' q'
      using less.IH [of "n - j" "drop j src"] less.prems that True by (simp add: drop_take)
    show ?thesis
    proof (cases "next_char src n")
      case None
      then show ?thesis
        by (subst (1 2) decode_into.simps) (simp add: r next_char_take [OF True])
    next
      case (Some nc)
      show ?thesis
      proof (cases nc)
        case (Inl x)
        obtain c j where x: "x = (c, j)" by (cases x)
        have "0 < j" using next_char_pos Some Inl x by simp
        then show ?thesis
          by (subst (1 2) decode_into.simps) (simp add: r next_char_take [OF True] Some Inl x IH cong: if_cong)
      next
        case (Inr e)
        then show ?thesis
          by (subst (1 2) decode_into.simps) (simp add: r next_char_take [OF True] Some)
      qed
    qed
  next
    case False
    then show ?thesis by (subst (1 2) decode_into.simps) simp
  qed
qed

lemma DecodeURL_into_take:
  assumes "take n src = u" "length u = n"
  shows "DecodeURL_into src (int n) dest d = DecodeURL_into u (int n) dest d"
proof (cases "n = 0")
  case False
  have r: "rd u 0 = rd src 0" using False rd_take [of 0 n src] assms(1) by simp
  have d: "decode_into d src n dest 0 0 False = decode_into d u n dest 0 0 False"
    using decode_into_take [of n src d dest 0 0 False] assms by auto
  show ?thesis unfolding DecodeURL_into_def r nat_int d ..
qed (simp add: DecodeURL_into_def)

text \<open>The loop with the buffer does what the loop on the written prefix does, and keeps out of the
  bytes behind \<open>inDestLen\<close>.\<close>

lemma emit_append: "emit q k out c = Some (Inl (out', k')) \<Longrightarrow> \<exists>m \<le> length out. out' = take m out @ [c]"
  by (auto simp: emit_def bind_eq_Some_conv split: if_splits
    intro: exI [of _ "length out"] exI [of _ "length out - Suc k"])

lemma decode_into_sim:
  assumes "decode_loop d src n (take w dest) k q = Some r" "w \<le> d" "d \<le> length dest"
  shows "\<exists>dest'. length dest' = length dest \<and> drop d dest' = drop d dest \<and>
    (case r of
       Inr e \<Rightarrow> decode_into d src n dest w k q = Some (dest', Inr e)
     | Inl (out, k') \<Rightarrow> decode_into d src n dest w k q = Some (dest', Inl (length out, k')) \<and> take (length out) dest' = out)"
  using assms
proof (induction n arbitrary: src dest w k q rule: less_induct)
  case (less n)
  have wl: "length (take w dest) = w" using less.prems(2,3) by simp
  show ?case
  proof (cases "0 < n \<and> w \<noteq> d")
    case False
    then have "decode_into d src n dest w k q = Some (dest, if n = 0 then Inl (w, k) else Inr OS_NotEnoughSpace)"
      by (subst decode_into.simps) auto
    moreover have "r = (if n = 0 then Inl (take w dest, k) else Inr OS_NotEnoughSpace)"
      using less.prems(1) False wl by (subst (asm) decode_loop.simps) auto
    ultimately show ?thesis using wl by (intro exI [of _ dest]) auto
  next
    case True
    let ?q = "q \<or> hd src = CHR ''?''"
    from less.prems(1) True wl obtain nc where src: "rd src 0 = Some (hd src)" and nc: "next_char src n = Some nc"
      by (subst (asm) decode_loop.simps) (auto simp: Let_def bind_eq_Some_conv rd_def hd_conv_nth split: if_splits)
    show ?thesis
    proof (cases nc)
      case (Inr e)
      with less.prems(1) True wl src nc show ?thesis
        by (subst decode_into.simps, subst (asm) decode_loop.simps) (auto simp: Let_def)
    next
      case (Inl cj)
      obtain c j where cj: "nc = Inl (c, j)" using Inl by (cases cj) auto
      have j: "0 < j" using next_char_pos nc cj by simp
      from less.prems(1) True wl src nc cj obtain r1 where em: "emit ?q k (take w dest) c = Some r1"
        by (subst (asm) decode_loop.simps) (auto simp: Let_def bind_eq_Some_conv)
      show ?thesis
      proof (cases r1)
        case (Inr e)
        with less.prems(1) True wl src nc cj em show ?thesis
          by (subst decode_into.simps, subst (asm) decode_loop.simps) (auto simp: Let_def)
      next
        case (Inl ok)
        obtain out1 k1 where o: "r1 = Inl (out1, k1)" using Inl by (cases ok) auto
        obtain m where m: "m \<le> w" "out1 = take m (take w dest) @ [c]" using emit_append [OF em [unfolded o]] wl by auto
        let ?dest = "dest[length out1 - 1 := c]"
        have m': "length out1 = Suc m" "Suc m \<le> d" "Suc m \<le> length dest" using m True less.prems(2,3) by auto
        have t: "take (Suc m) ?dest = out1" using m m' by (simp add: take_upd_snoc min_def)
        have loop: "decode_loop d (drop j src) (n - j) (take (Suc m) ?dest) k1 ?q = Some r"
          using less.prems(1) True wl src nc cj em o unfolding t
          by (subst (asm) decode_loop.simps) (simp add: Let_def)
        have into: "decode_into d src n dest w k q = decode_into d (drop j src) (n - j) ?dest (Suc m) k1 ?q"
          using True src nc cj em o m' by (subst decode_into.simps) (simp add: Let_def)
        have "\<exists>dest'. length dest' = length ?dest \<and> drop d dest' = drop d ?dest \<and>
          (case r of
             Inr e \<Rightarrow> decode_into d (drop j src) (n - j) ?dest (Suc m) k1 ?q = Some (dest', Inr e)
           | Inl (out, k') \<Rightarrow> decode_into d (drop j src) (n - j) ?dest (Suc m) k1 ?q = Some (dest', Inl (length out, k')) \<and>
               take (length out) dest' = out)"
          using j True m' less.prems(3) by (intro less.IH [OF _ loop]) auto
        then show ?thesis unfolding into using m' by simp
      qed
    qed
  qed
qed

text \<open>C7: \<^verbatim>\<open>DecodeURL\<close> on a destination in memory: for every source of at least
  \<open>inSrcLen\<close> bytes, every destination of at least \<open>inDestLen\<close> bytes (which is not negative) and every
  outcome, errors included, it reads only the \<open>inSrcLen\<close> bytes of the source, never accesses memory
  outside the destination, never backs up before its start and leaves the bytes behind the first
  \<open>inDestLen\<close> as they were. A length it returns lies between 1 and \<open>inDestLen\<close> when \<open>inSrcLen\<close> is
  positive, and on a URL without a query the bytes it has written up to that length are rooted at the
  slash and none of their path segments is a single or double dot, whether the dots and slashes were
  written plainly or percent-encoded.\<close>

theorem DecodeURL_no_dot_segments:
  assumes "nat inSrcLen \<le> length inSrc" "inDestLen \<le> length ioDest"
  shows "\<exists>dest r. DecodeURL_into inSrc inSrcLen ioDest inDestLen = Some (dest, r) \<and>
    DecodeURL_into (take (nat inSrcLen) inSrc) inSrcLen ioDest inDestLen = Some (dest, r) \<and>
    length dest = length ioDest \<and> drop inDestLen dest = drop inDestLen ioDest \<and>
    (\<forall>n. r = Inl n \<longrightarrow> 0 < n \<and> n \<le> int inDestLen \<and>
       (CHR ''?'' \<notin> set (take (nat inSrcLen) inSrc) \<longrightarrow>
          hd (take (nat n) dest) = slash \<and> (\<forall>s \<in> set (segs (take (nat n) dest)). \<not> dot_seg s)))"
proof (cases "0 < inSrcLen")
  case False
  then show ?thesis by (simp add: DecodeURL_into_def)
next
  case True
  define n where "n = nat inSrcLen"
  have n: "inSrcLen = int n" "0 < n" "n \<le> length inSrc" using True assms(1) by (auto simp: n_def)
  have tk: "DecodeURL_into inSrc inSrcLen ioDest inDestLen = DecodeURL_into (take n inSrc) inSrcLen ioDest inDestLen"
    using DecodeURL_into_take [of n inSrc "take n inSrc" ioDest inDestLen] n(1,3) by simp
  have r0: "rd inSrc 0 = Some (inSrc ! 0)" using n(2,3) by (auto simp: rd_def)
  obtain r where r: "DecodeURL inSrc (int n) inDestLen = Some r" "\<And>out len. r = Inl (out, len) \<Longrightarrow>
      0 < len \<and> len \<le> int inDestLen \<and> length out \<le> inDestLen \<and> (CHR ''?'' \<notin> set (take n inSrc) \<longrightarrow>
        hd (take (nat len) out) = slash \<and> (\<forall>s \<in> set (segs (take (nat len) out)). \<not> dot_seg s))"
    using DecodeURL_written [OF n(2,3), of inDestLen] by blast
  show ?thesis
  proof (cases "inSrc ! 0 = slash")
    case False
    then show ?thesis using True r0 tk n_def by (simp add: DecodeURL_into_def)
  next
    case slash: True
    obtain rl where rl: "decode_loop inDestLen inSrc n [] 0 False = Some rl" and rr: "r = (case rl of Inr e \<Rightarrow> Inr e
        | Inl (out, k) \<Rightarrow> Inl (out, int (length out) - (if k \<le> 2 then int k else 0)))"
      using r(1) n(2) r0 slash by (auto simp: DecodeURL_def bind_eq_Some_conv)
    have "decode_loop inDestLen inSrc n (take 0 ioDest) 0 False = Some rl" using rl by simp
    from decode_into_sim [OF this _ assms(2)] obtain dest where
      d: "length dest = length ioDest" "drop inDestLen dest = drop inDestLen ioDest" and
      di: "case rl of Inr e \<Rightarrow> decode_into inDestLen inSrc n ioDest 0 0 False = Some (dest, Inr e)
        | Inl (out, k') \<Rightarrow> decode_into inDestLen inSrc n ioDest 0 0 False = Some (dest, Inl (length out, k')) \<and>
            take (length out) dest = out" by auto
    show ?thesis
    proof (cases rl)
      case (Inr e)
      then have "DecodeURL_into inSrc inSrcLen ioDest inDestLen = Some (dest, Inr e)"
        using di True r0 slash by (simp add: DecodeURL_into_def n_def)
      then show ?thesis using d tk n_def by simp
    next
      case (Inl ok)
      obtain out k where ok: "rl = Inl (out, k)" using Inl by (cases ok) auto
      define len where "len = int (length out) - (if k \<le> 2 then int k else 0)"
      have di': "DecodeURL_into inSrc inSrcLen ioDest inDestLen = Some (dest, Inl len)"
        using di ok True r0 slash by (simp add: DecodeURL_into_def n_def len_def)
      have "take (nat len) (take (length out) dest) = take (nat len) out" using di ok by simp
      then have t: "take (nat len) dest = take (nat len) out" by (simp add: min_def nat_le_iff len_def split: if_splits)
      have "r = Inl (out, len)" using rr ok by (simp add: len_def)
      from r(2) [OF this] show ?thesis using d di' tk t unfolding n_def [symmetric] by (simp del: hd_take)
    qed
  qed
qed

theorem DecodeURL_no_dot_segments_witness:
  "\<exists>dest n. DecodeURL_into ''/a/%2e%2E/b'' 11 (replicate 20 (CHR ''x'')) 10 = Some (dest, Inl n) \<and> n = 4 \<and>
    drop 10 dest = replicate 10 (CHR ''x'') \<and> (\<forall>s \<in> set (segs (take 4 dest)). \<not> dot_seg s)"
proof -
  have "DecodeURL_into ''/a/%2e%2E/b'' 11 (replicate 20 (CHR ''x'')) 10 =
      Some (''/a/b.'' @ replicate 15 (CHR ''x''), Inl 4)"
    by code_simp
  with DecodeURL_no_dot_segments [of 11 "''/a/%2e%2E/b''" 10 "replicate 20 (CHR ''x'')"] show ?thesis by auto
qed

end
