(* ===== verification/CF_StringFormatter.thy ===== *)
theory CF_StringFormatter
  imports CF_StringTranslator
begin

text \<open>
  The output buffers of \<^verbatim>\<open>src/CFCore/StringFormatter.cpp\<close>,
  \<^verbatim>\<open>src/CFCore/ResizeableStringFormatter.cpp\<close> and their headers. The three pointers of
  the class are the memory between \<^verbatim>\<open>fStartPut\<close> and \<^verbatim>\<open>fEndPut\<close> and an
  index into it. The virtual method \<^verbatim>\<open>BufferIsFull\<close> is an argument of the writing
  operations; the locale \<^verbatim>\<open>formatter\<close> states what every implementation promises,
  the locale \<^verbatim>\<open>growing_formatter\<close> what the resizing one adds. The text passed to
  \<^verbatim>\<open>Put\<close> is the list of its bytes; \<^term>\<open>None\<close> is a write outside the buffer
  or a loop that does not end.
\<close>

section \<open>State and operations\<close>

record StringFormatter =
  fBuffer :: mem
  fCurrentPut :: nat
  fBytesWritten :: UInt32

definition StringFormatter_new :: "mem \<Rightarrow> StringFormatter" where
  "StringFormatter_new buffer = \<lparr>fBuffer = buffer, fCurrentPut = 0, fBytesWritten = 0\<rparr>"

definition Set_f :: "'a StringFormatter_scheme \<Rightarrow> mem \<Rightarrow> 'a StringFormatter_scheme" where
  "Set_f s buffer = s\<lparr>fBuffer := buffer, fCurrentPut := 0, fBytesWritten := 0\<rparr>"

definition Reset :: "'a StringFormatter_scheme \<Rightarrow> nat \<Rightarrow> 'a StringFormatter_scheme" where
  "Reset s inNumBytesToLeave = s\<lparr>fCurrentPut := inNumBytesToLeave\<rparr>"

definition GetCurrentOffset :: "'a StringFormatter_scheme \<Rightarrow> nat" where
  "GetCurrentOffset s = fCurrentPut s"

definition GetSpaceLeft :: "'a StringFormatter_scheme \<Rightarrow> nat" where
  "GetSpaceLeft s = length (fBuffer s) - fCurrentPut s"

definition GetTotalBufferSize :: "'a StringFormatter_scheme \<Rightarrow> nat" where
  "GetTotalBufferSize s = length (fBuffer s)"

definition ResetBytesWritten :: "'a StringFormatter_scheme \<Rightarrow> 'a StringFormatter_scheme" where
  "ResetBytesWritten s = s\<lparr>fBytesWritten := 0\<rparr>"

text \<open>Copying bytes to the current position: \<^verbatim>\<open>memcpy\<close> and the two updates behind it.\<close>

definition copy_in :: "'a StringFormatter_scheme \<Rightarrow> string \<Rightarrow> 'a StringFormatter_scheme option" where
  "copy_in s bytes =
     do {
       b \<leftarrow> write_at (fBuffer s) (fCurrentPut s) bytes;
       Some (s\<lparr>fBuffer := b, fCurrentPut := fCurrentPut s + length bytes,
               fBytesWritten := fBytesWritten s + of_nat (length bytes)\<rparr>)
     }"

text \<open>
  \<^verbatim>\<open>spaceInBuffer\<close> is \<^verbatim>\<open>spaceLeft - 1\<close>; it wraps around only for
  \<^verbatim>\<open>spaceLeft == 0\<close>, where the loop condition does not depend on it.
\<close>

partial_function (option) put_loop ::
  "('a StringFormatter_scheme \<Rightarrow> bool \<times> 'a StringFormatter_scheme) \<Rightarrow> 'a StringFormatter_scheme \<Rightarrow> string \<Rightarrow> nat \<Rightarrow>
   'a StringFormatter_scheme option" where
  "put_loop full s buffer spaceLeft =
     (if spaceLeft = 0 \<or> spaceLeft - 1 < length buffer then
        do {
          s1 \<leftarrow> (if spaceLeft > 0 then copy_in s (take (spaceLeft - 1) buffer) else Some s);
          let buffer1 = (if spaceLeft > 0 then drop (spaceLeft - 1) buffer else buffer);
          let s2 = snd (full s1);
          if spaceLeft = GetSpaceLeft s2 then Some s2
          else put_loop full s2 buffer1 (GetSpaceLeft s2)
        }
      else copy_in s buffer)"

definition Put ::
  "('a StringFormatter_scheme \<Rightarrow> bool \<times> 'a StringFormatter_scheme) \<Rightarrow> 'a StringFormatter_scheme \<Rightarrow> string \<Rightarrow>
   'a StringFormatter_scheme option" where
  "Put full s buffer =
     (if length buffer = 1 \<and> fCurrentPut s \<noteq> length (fBuffer s) then copy_in s buffer
      else put_loop full s buffer (GetSpaceLeft s))"

definition sEOL :: string where
  "sEOL = [CHR 0x0D, CHR 0x0A]"

definition PutEOL ::
  "('a StringFormatter_scheme \<Rightarrow> bool \<times> 'a StringFormatter_scheme) \<Rightarrow> 'a StringFormatter_scheme \<Rightarrow>
   'a StringFormatter_scheme option" where
  "PutEOL full s = Put full s sEOL"

definition PutChar ::
  "('a StringFormatter_scheme \<Rightarrow> bool \<times> 'a StringFormatter_scheme) \<Rightarrow> 'a StringFormatter_scheme \<Rightarrow> char \<Rightarrow>
   'a StringFormatter_scheme option" where
  "PutChar full s c = Put full s [c]"

definition PutSpace ::
  "('a StringFormatter_scheme \<Rightarrow> bool \<times> 'a StringFormatter_scheme) \<Rightarrow> 'a StringFormatter_scheme \<Rightarrow>
   'a StringFormatter_scheme option" where
  "PutSpace full s = PutChar full s (CHR '' '')"

text \<open>A counted string and a C string as arguments.\<close>

definition bytes_of :: "StrPtrLen \<Rightarrow> string option" where
  "bytes_of s = (case Ptr s of
       None \<Rightarrow> (if Len s = 0 then Some [] else None)
     | Some m \<Rightarrow> (if Len s \<le> length m then Some (take (Len s) m) else None))"

definition Put_spl ::
  "('a StringFormatter_scheme \<Rightarrow> bool \<times> 'a StringFormatter_scheme) \<Rightarrow> 'a StringFormatter_scheme \<Rightarrow> StrPtrLen \<Rightarrow>
   'a StringFormatter_scheme option" where
  "Put_spl full s t = do { b \<leftarrow> bytes_of t; Put full s b }"

definition Put_cstr ::
  "('a StringFormatter_scheme \<Rightarrow> bool \<times> 'a StringFormatter_scheme) \<Rightarrow> 'a StringFormatter_scheme \<Rightarrow> mem \<Rightarrow>
   'a StringFormatter_scheme option" where
  "Put_cstr full s t = do { n \<leftarrow> strlen t; Put full s (take n t) }"

text \<open>\<^verbatim>\<open>sprintf\<close> of a number in decimal.\<close>

fun dec :: "nat \<Rightarrow> string" where
  "dec n = (if n < 10 then [char_of (48 + n)] else dec (n div 10) @ [char_of (48 + n mod 10)])"

declare dec.simps [simp del]

definition dec_int :: "int \<Rightarrow> string" where
  "dec_int i = (if i < 0 then CHR ''-'' # dec (nat (- i)) else dec (nat i))"

definition Put_int ::
  "('a StringFormatter_scheme \<Rightarrow> bool \<times> 'a StringFormatter_scheme) \<Rightarrow> 'a StringFormatter_scheme \<Rightarrow> 32 word \<Rightarrow>
   'a StringFormatter_scheme option" where
  "Put_int full s num = Put full s (dec_int (sint num))"

definition PutFilePath ::
  "('a StringFormatter_scheme \<Rightarrow> bool \<times> 'a StringFormatter_scheme) \<Rightarrow> 'a StringFormatter_scheme \<Rightarrow>
   StrPtrLen option \<Rightarrow> StrPtrLen option \<Rightarrow> 'a StringFormatter_scheme option" where
  "PutFilePath full s inPath inFileName =
     do {
       s1 \<leftarrow> (case inPath of
                None \<Rightarrow> Some s
              | Some p \<Rightarrow>
                  if Len p > 0 then
                    do {
                      s1 \<leftarrow> Put_spl full s p;
                      c \<leftarrow> rdp (Ptr p) (Len p - 1);
                      if kPathDelimiterChar \<noteq> c then Put full s1 [kPathDelimiterChar] else Some s1
                    }
                  else Some s);
       case inFileName of
         None \<Rightarrow> Some s1
       | Some f \<Rightarrow> if Len f > 0 then Put_spl full s1 f else Some s1
     }"

text \<open>
  \<open>text\<close> is what the format and its arguments print; \<^verbatim>\<open>vsnprintf\<close> stores as much
  of it as fits before the terminator. The result pairs the returned flag with the
  formatter.
\<close>

definition vsnprintf_at :: "mem \<Rightarrow> nat \<Rightarrow> string \<Rightarrow> mem option" where
  "vsnprintf_at b pos text =
     (let n = length b - pos
      in if n = 0 then Some b else write_at b pos (take (n - 1) text @ [NUL]))"

partial_function (option) PutFmtStr ::
  "('a StringFormatter_scheme \<Rightarrow> bool \<times> 'a StringFormatter_scheme) \<Rightarrow> 'a StringFormatter_scheme \<Rightarrow> string \<Rightarrow>
   (bool \<times> 'a StringFormatter_scheme) option" where
  "PutFmtStr full s text =
     do {
       b \<leftarrow> vsnprintf_at (fBuffer s) (fCurrentPut s) text;
       let s1 = s\<lparr>fBuffer := b\<rparr>;
       if length text \<ge> GetSpaceLeft s1 then
         (if fst (full s1) then PutFmtStr full (snd (full s1)) text
          else
            (let s2 = snd (full s1);
                 bytesWritten = unat (of_nat (GetSpaceLeft s2) - 1 :: UInt32)
             in Some (False, s2\<lparr>fBytesWritten := fBytesWritten s2 + of_nat bytesWritten,
                                fCurrentPut := fCurrentPut s2 + bytesWritten\<rparr>)))
       else Some (True, s1\<lparr>fBytesWritten := fBytesWritten s1 + of_nat (length text),
                          fCurrentPut := fCurrentPut s1 + length text\<rparr>)
     }"

declare put_loop.simps [code] PutFmtStr.simps [code]

section \<open>The two implementations of BufferIsFull\<close>

definition BufferIsFull_fixed :: "StringFormatter \<Rightarrow> bool \<times> StringFormatter" where
  "BufferIsFull_fixed s = (False, s)"

text \<open>
  The resizing formatter remembers its original buffer. \<open>fOriginalBuffer\<close> is
  \<^term>\<open>None\<close> as long as \<^verbatim>\<open>fStartPut\<close> still is the original buffer, afterwards
  the content the original buffer was left with. The bytes of the new buffer behind the
  copied ones are uninitialised in the code and zero here; no theorem depends on them.
\<close>

record ResizeableStringFormatter = StringFormatter +
  fOriginalBuffer :: "mem option"

definition ResizeableStringFormatter_new :: "mem \<Rightarrow> ResizeableStringFormatter" where
  "ResizeableStringFormatter_new inBuffer =
     \<lparr>fBuffer = inBuffer, fCurrentPut = 0, fBytesWritten = 0, fOriginalBuffer = None\<rparr>"

definition BufferIsFull ::
  "'a ResizeableStringFormatter_scheme \<Rightarrow> bool \<times> 'a ResizeableStringFormatter_scheme" where
  "BufferIsFull s =
     (let theNewBufferSize = u32 (GetTotalBufferSize s * 2);
          theNewBufferSize = (if theNewBufferSize = 0 then 64 else theNewBufferSize);
          inBufferLen = GetCurrentOffset s
      in (True, s\<lparr>fBuffer := take inBufferLen (fBuffer s) @ replicate (theNewBufferSize - inBufferLen) NUL,
                  fOriginalBuffer := (case fOriginalBuffer s of None \<Rightarrow> Some (fBuffer s) | Some b \<Rightarrow> Some b)\<rparr>))"

section \<open>Contents\<close>

text \<open>What has been written since the last reset.\<close>

definition contents :: "'a StringFormatter_scheme \<Rightarrow> string" where
  "contents s = take (fCurrentPut s) (fBuffer s)"

definition fmt_ok :: "'a StringFormatter_scheme \<Rightarrow> bool" where
  "fmt_ok s \<longleftrightarrow> fCurrentPut s \<le> length (fBuffer s)"

lemma length_contents [simp]: "fmt_ok s \<Longrightarrow> length (contents s) = fCurrentPut s"
  by (simp add: fmt_ok_def contents_def)

definition appended :: "'a StringFormatter_scheme \<Rightarrow> string \<Rightarrow> 'a StringFormatter_scheme \<Rightarrow> bool" where
  "appended s t s' \<longleftrightarrow> fmt_ok s' \<and> contents s' = contents s @ t \<and> fBytesWritten s' = fBytesWritten s + of_nat (length t)"

lemma appended_trans: "appended s t s' \<Longrightarrow> appended s' u s'' \<Longrightarrow> appended s (t @ u) s''"
  by (auto simp: appended_def)

lemma copy_in_ok:
  assumes "fmt_ok s" "length t \<le> GetSpaceLeft s"
  shows "\<exists>s'. copy_in s t = Some s' \<and> appended s t s' \<and> length (fBuffer s') = length (fBuffer s) \<and>
    fCurrentPut s' = fCurrentPut s + length t \<and> StringFormatter.more s' = StringFormatter.more s"
  using assms by (simp add: copy_in_def write_at_def GetSpaceLeft_def fmt_ok_def appended_def contents_def)

lemma copy_inE:
  assumes "fmt_ok s" "length t \<le> GetSpaceLeft s"
  obtains s' where "copy_in s t = Some s'" "appended s t s'" "length (fBuffer s') = length (fBuffer s)"
    "fCurrentPut s' = fCurrentPut s + length t" "StringFormatter.more s' = StringFormatter.more s"
  using copy_in_ok [OF assms] by blast

text \<open>What neither copying nor the overflow method changes, no writing operation changes.\<close>

lemma put_loop_frame:
  assumes "put_loop full s b n = Some s'"
    and copy: "\<And>s t s'. copy_in s t = Some s' \<Longrightarrow> F s' = F s" and ful: "\<And>s. F (snd (full s)) = F s"
  shows "F s' = F s"
proof -
  have "fl = full \<longrightarrow> F s' = F s" if pl: "put_loop fl s b n = Some s'" for fl s b n s'
  proof (rule put_loop.raw_induct [OF _ pl, of "\<lambda>fl s b n s'. fl = full \<longrightarrow> F s' = F s"])
    fix g fl s b n s'
    assume 1: "\<And>fl s b n s'. g fl s b n = Some s' \<Longrightarrow> fl = full \<longrightarrow> F s' = F s"
      "(if n = 0 \<or> n - 1 < length b
        then do { s1 \<leftarrow> (if 0 < n then copy_in s (take (n - 1) b) else Some s);
                  let buffer1 = (if 0 < n then drop (n - 1) b else b);
                  let s2 = snd (fl s1);
                  if n = GetSpaceLeft s2 then Some s2 else g fl s2 buffer1 (GetSpaceLeft s2) }
        else copy_in s b) = Some s'"
    show "fl = full \<longrightarrow> F s' = F s"
    proof
      assume fl: "fl = full"
      show "F s' = F s"
      proof (cases "n = 0 \<or> n - 1 < length b")
        case True
        obtain s1 where s1: "(if 0 < n then copy_in s (take (n - 1) b) else Some s) = Some s1"
          using 1(2) unfolding if_P [OF True] by (cases "if 0 < n then copy_in s (take (n - 1) b) else Some s") simp_all
        then have "F s1 = F s" using copy by (auto split: if_splits)
        moreover have "(if n = GetSpaceLeft (snd (fl s1)) then Some (snd (fl s1))
            else g fl (snd (fl s1)) (if 0 < n then drop (n - 1) b else b) (GetSpaceLeft (snd (fl s1)))) = Some s'"
          using 1(2) unfolding if_P [OF True] s1 Let_def by simp
        then have "F s' = F (snd (fl s1))"
          using 1(1) [of fl "snd (fl s1)"] fl by (metis option.inject)
        ultimately show ?thesis using ful by (simp add: fl)
      next
        case False
        then show ?thesis using 1(2) copy by simp
      qed
    qed
  qed
  then show ?thesis using assms(1) by blast
qed

lemma Put_frame:
  assumes "Put full s b = Some s'"
    and "\<And>s t s'. copy_in s t = Some s' \<Longrightarrow> F s' = F s" and "\<And>s. F (snd (full s)) = F s"
  shows "F s' = F s"
  using assms put_loop_frame [of full s b "GetSpaceLeft s" s' F] by (auto simp: Put_def split: if_splits)

section \<open>The contract of BufferIsFull\<close>

locale formatter =
  fixes full :: "'a StringFormatter_scheme \<Rightarrow> bool \<times> 'a StringFormatter_scheme"
  assumes full_keeps: "fmt_ok s \<Longrightarrow> length (fBuffer s) < 2 ^ 31 \<Longrightarrow> appended s [] (snd (full s))"
begin

text \<open>One iteration of the loop: it fills the buffer up to its last byte and then calls the method.\<close>

lemma put_step:
  assumes ok: "fmt_ok s" and bound: "fCurrentPut s + length b < 2 ^ 31 - 1"
    and L: "L = GetSpaceLeft s" and loop: "L = 0 \<or> L - 1 < length b"
  obtains s1 where "fmt_ok s1" "length (fBuffer s1) = length (fBuffer s)" "length (fBuffer s) < 2 ^ 31"
    "GetSpaceLeft s1 = (if L = 0 then 0 else 1)" "appended s (take (L - 1) b) s1" "appended s (take (L - 1) b) (snd (full s1))"
    "fCurrentPut (snd (full s1)) + length (drop (L - 1) b) < 2 ^ 31 - 1"
    "put_loop full s b L = (if L = GetSpaceLeft (snd (full s1)) then Some (snd (full s1))
       else put_loop full (snd (full s1)) (drop (L - 1) b) (GetSpaceLeft (snd (full s1))))"
proof -
  define t where "t = take (L - 1) b"
  obtain s0 where s0: "copy_in s t = Some s0" "appended s t s0" "length (fBuffer s0) = length (fBuffer s)"
      "fCurrentPut s0 = fCurrentPut s + length t"
    using copy_inE [OF ok, of t] by (metis L diff_le_self length_take min.coboundedI2 min.commute t_def)
  define s1 where "s1 = (if L > 0 then s0 else s)"
  have c: "fCurrentPut s + L = length (fBuffer s)" using ok L by (simp add: GetSpaceLeft_def fmt_ok_def)
  have small: "length (fBuffer s) < 2 ^ 31" using c loop bound by (cases "L = 0") auto
  have t: "L = 0 \<Longrightarrow> t = []" "L > 0 \<Longrightarrow> length t = L - 1" using loop by (auto simp: t_def min_def)
  have app1: "appended s t s1" using s0(2) ok t(1) by (cases "L = 0") (auto simp: s1_def appended_def)
  have ok1: "fmt_ok s1" using app1 by (simp add: appended_def)
  have len1: "length (fBuffer s1) = length (fBuffer s)" using s0(3) by (simp add: s1_def)
  have sp: "GetSpaceLeft s1 = (if L = 0 then 0 else 1)"
    using c t s0(3,4) L by (auto simp: s1_def GetSpaceLeft_def)
  have app2: "appended s t (snd (full s1))"
    using appended_trans [OF app1 full_keeps [OF ok1]] small len1 by simp
  have cur: "fCurrentPut (snd (full s1)) = fCurrentPut s + length t"
    using app2 ok length_contents [of "snd (full s1)"] by (simp add: appended_def)
  have "length t + length (drop (L - 1) b) = length b" by (simp add: t_def)
  then have bnd: "fCurrentPut (snd (full s1)) + length (drop (L - 1) b) < 2 ^ 31 - 1" using bound cur by simp
  have step: "put_loop full s b L = (if L = GetSpaceLeft (snd (full s1)) then Some (snd (full s1))
       else put_loop full (snd (full s1)) (drop (L - 1) b) (GetSpaceLeft (snd (full s1))))"
    using loop s0(1) [unfolded t_def]
    by (subst put_loop.simps) (auto simp: s1_def Let_def simp del: One_nat_def)
  show thesis by (rule that [OF ok1 len1 small sp app1 [unfolded t_def] app2 [unfolded t_def] bnd step])
qed

end

text \<open>A method that leaves the buffer as it is: the text is cut off one byte before the end.\<close>

locale fixed_formatter = formatter full
  for full :: "'a StringFormatter_scheme \<Rightarrow> bool \<times> 'a StringFormatter_scheme" +
  assumes full_same: "GetSpaceLeft (snd (full s)) = GetSpaceLeft s"
begin

lemma put_loop_cut:
  assumes ok: "fmt_ok s" and bound: "fCurrentPut s + length b < 2 ^ 31 - 1"
  shows "\<exists>s'. put_loop full s b (GetSpaceLeft s) = Some s' \<and> appended s (take (GetSpaceLeft s - 1) b) s'"
proof -
  define L where "L = GetSpaceLeft s"
  show ?thesis
  proof (cases "L = 0 \<or> L - 1 < length b")
    case False
    then have "length b \<le> GetSpaceLeft s" "take (L - 1) b = b" by (auto simp: L_def)
    moreover from this(1) obtain s' where "copy_in s b = Some s'" "appended s b s'" by (rule copy_inE [OF ok])
    moreover have "put_loop full s b L = copy_in s b" using False by (subst put_loop.simps) simp
    ultimately show ?thesis unfolding L_def by metis
  next
    case loop: True
    obtain s1 where s1: "GetSpaceLeft s1 = (if L = 0 then 0 else 1)" "appended s (take (L - 1) b) (snd (full s1))"
        "fCurrentPut (snd (full s1)) + length (drop (L - 1) b) < 2 ^ 31 - 1"
        "put_loop full s b L = (if L = GetSpaceLeft (snd (full s1)) then Some (snd (full s1))
           else put_loop full (snd (full s1)) (drop (L - 1) b) (GetSpaceLeft (snd (full s1))))"
      by (rule put_step [OF ok bound L_def loop])
    define s2 where "s2 = snd (full s1)"
    have sp2: "GetSpaceLeft s2 = (if L = 0 then 0 else 1)" using s1(1) full_same by (simp add: s2_def)
    show ?thesis
    proof (cases "L = GetSpaceLeft s2")
      case True
      then show ?thesis using s1(2,4) by (simp add: s2_def L_def)
    next
      case False
      then have g: "1 = GetSpaceLeft s2" "1 < L" using sp2 by (auto split: if_splits)
      have ok2: "fmt_ok s2" using s1(2) by (simp add: s2_def appended_def)
      have "1 = (0::nat) \<or> 1 - 1 < length (drop (L - 1) b)" using loop g by auto
      then obtain s3 where s3: "GetSpaceLeft s3 = 1" "appended s2 (take (1 - 1) (drop (L - 1) b)) (snd (full s3))"
          "put_loop full s2 (drop (L - 1) b) 1 = (if 1 = GetSpaceLeft (snd (full s3)) then Some (snd (full s3))
             else put_loop full (snd (full s3)) (drop (1 - 1) (drop (L - 1) b)) (GetSpaceLeft (snd (full s3))))"
        using put_step [OF ok2 s1(3) [folded s2_def] g(1)] by (metis one_neq_zero)
      have "put_loop full s b L = Some (snd (full s3))"
        using s1(4) s3(3) False g(1) full_same [of s3] s3(1) by (simp add: s2_def)
      moreover have "appended s (take (L - 1) b) (snd (full s3))"
        using appended_trans [OF s1(2) [folded s2_def] s3(2)] by simp
      ultimately show ?thesis by (simp add: L_def)
    qed
  qed
qed

lemma Put_cut:
  assumes "fmt_ok s" "fCurrentPut s + length b < 2 ^ 31 - 1"
  obtains s' where "Put full s b = Some s'"
    "appended s (if length b = 1 then take (GetSpaceLeft s) b else take (GetSpaceLeft s - 1) b) s'"
proof (cases "length b = 1 \<and> fCurrentPut s \<noteq> length (fBuffer s)")
  case True
  then have "length b \<le> GetSpaceLeft s" using assms(1) unfolding GetSpaceLeft_def fmt_ok_def by arith
  moreover from this obtain s' where "copy_in s b = Some s'" "appended s b s'" by (rule copy_inE [OF assms(1)])
  ultimately show ?thesis using True that by (simp add: Put_def)
next
  case False
  have "length b = 1 \<Longrightarrow> GetSpaceLeft s = 0" using False by (simp add: GetSpaceLeft_def)
  moreover obtain s' where "put_loop full s b (GetSpaceLeft s) = Some s'" "appended s (take (GetSpaceLeft s - 1) b) s'"
    using put_loop_cut [OF assms] by blast
  ultimately show ?thesis using False that [of s'] by (cases "length b = 1") (simp_all add: Put_def)
qed

end

locale growing_formatter = formatter full
  for full :: "'a StringFormatter_scheme \<Rightarrow> bool \<times> 'a StringFormatter_scheme" +
  assumes full_true: "fst (full s)"
    and full_grows: "fmt_ok s \<Longrightarrow> length (fBuffer s) < 2 ^ 31 \<Longrightarrow>
      0 < GetSpaceLeft (snd (full s)) \<and> length (fBuffer s) + GetSpaceLeft s \<le> GetSpaceLeft (snd (full s))"
begin

text \<open>An iteration that copies nothing makes room, one that copies makes progress.\<close>

lemma put_loop_all:
  assumes "fmt_ok s" "fCurrentPut s + length b < 2 ^ 31 - 1"
  shows "\<exists>s'. put_loop full s b (GetSpaceLeft s) = Some s' \<and> appended s b s'"
  using assms
proof (induction "length b + (2 - GetSpaceLeft s)" arbitrary: s b rule: less_induct)
  case less
  define L where "L = GetSpaceLeft s"
  show ?case
  proof (cases "L = 0 \<or> L - 1 < length b")
    case False
    then have "length b \<le> GetSpaceLeft s" by (auto simp: L_def)
    then obtain s' where "copy_in s b = Some s'" "appended s b s'" by (rule copy_inE [OF less.prems(1)])
    moreover have "put_loop full s b L = copy_in s b" using False by (subst put_loop.simps) simp
    ultimately show ?thesis by (simp add: L_def)
  next
    case True
    obtain s1 where s1: "fmt_ok s1" "length (fBuffer s1) = length (fBuffer s)" "length (fBuffer s) < 2 ^ 31"
        "GetSpaceLeft s1 = (if L = 0 then 0 else 1)" "appended s (take (L - 1) b) (snd (full s1))"
        "fCurrentPut (snd (full s1)) + length (drop (L - 1) b) < 2 ^ 31 - 1"
        "put_loop full s b L = (if L = GetSpaceLeft (snd (full s1)) then Some (snd (full s1))
           else put_loop full (snd (full s1)) (drop (L - 1) b) (GetSpaceLeft (snd (full s1))))"
      by (rule put_step [OF less.prems L_def True])
    have grow: "L < GetSpaceLeft (snd (full s1))"
      using full_grows [OF s1(1)] s1(2,3,4) by (cases "L = 0") (auto simp: L_def GetSpaceLeft_def)
    have ok2: "fmt_ok (snd (full s1))" using s1(5) by (simp add: appended_def)
    have "length (drop (L - 1) b) + (2 - GetSpaceLeft (snd (full s1))) < length b + (2 - GetSpaceLeft s)"
      using grow True unfolding L_def [symmetric] by (cases "L \<le> 1") auto
    from less.hyps [OF this ok2 s1(6)] obtain s' where
      s': "put_loop full (snd (full s1)) (drop (L - 1) b) (GetSpaceLeft (snd (full s1))) = Some s'"
        "appended (snd (full s1)) (drop (L - 1) b) s'" by blast
    from appended_trans [OF s1(5) s'(2)] have "appended s b s'" by simp
    moreover have "put_loop full s b (GetSpaceLeft s) = Some s'" using s1(7) s'(1) grow by (simp add: L_def)
    ultimately show ?thesis by blast
  qed
qed

lemma Put_all:
  assumes "fmt_ok s" "fCurrentPut s + length b < 2 ^ 31 - 1"
  obtains s' where "Put full s b = Some s'" "appended s b s'"
proof (cases "length b = 1 \<and> fCurrentPut s \<noteq> length (fBuffer s)")
  case True
  then have "length b \<le> GetSpaceLeft s" using assms(1) unfolding GetSpaceLeft_def fmt_ok_def by arith
  then obtain s' where "copy_in s b = Some s'" "appended s b s'" by (rule copy_inE [OF assms(1)])
  with True that show ?thesis by (simp add: Put_def)
next
  case False
  with put_loop_all [OF assms] that show ?thesis by (auto simp: Put_def)
qed

end


interpretation fixed: fixed_formatter BufferIsFull_fixed
  by unfold_locales (simp_all add: BufferIsFull_fixed_def appended_def)

lemma BufferIsFull_space:
  assumes "fmt_ok s" "length (fBuffer s) < 2 ^ 31"
  shows "GetSpaceLeft (snd (BufferIsFull s)) =
    (if fBuffer s = [] then 64 else length (fBuffer s) + GetSpaceLeft s)"
  using assms by (auto simp: BufferIsFull_def Let_def GetSpaceLeft_def GetTotalBufferSize_def GetCurrentOffset_def fmt_ok_def)

interpretation resizing: growing_formatter "BufferIsFull :: 'a ResizeableStringFormatter_scheme \<Rightarrow> _"
proof unfold_locales
  fix s :: "'a ResizeableStringFormatter_scheme"
  assume ok: "fmt_ok s" "length (fBuffer s) < 2 ^ 31"
  show "appended s [] (snd (BufferIsFull s))"
    using ok by (auto simp: BufferIsFull_def Let_def GetTotalBufferSize_def GetCurrentOffset_def fmt_ok_def appended_def contents_def)
  show "0 < GetSpaceLeft (snd (BufferIsFull s)) \<and> length (fBuffer s) + GetSpaceLeft s \<le> GetSpaceLeft (snd (BufferIsFull s))"
    unfolding BufferIsFull_space [OF ok] by (auto simp: GetSpaceLeft_def)
qed (simp add: BufferIsFull_def Let_def)

section \<open>Numbers\<close>

lemma dec_digits: "\<forall>c \<in> set (dec n). 48 \<le> byte c \<and> byte c \<le> 57"
proof (induction n rule: dec.induct)
  case (1 n)
  have d: "48 \<le> byte (char_of (48 + m)) \<and> byte (char_of (48 + m)) \<le> 57" if "m < 10" for m :: nat
    using that by (simp add: byte_def)
  show ?case
  proof (cases "n < 10")
    case True
    then show ?thesis using d [of n] by (simp add: dec.simps [of n])
  next
    case False
    then show ?thesis using 1 d [of "n mod 10"] by (subst dec.simps) auto
  qed
qed

lemma dec_value: "foldl (\<lambda>a c. a * 10 + (byte c - 48)) 0 (dec n) = n"
proof (induction n rule: dec.induct)
  case (1 n)
  have d: "byte (char_of (48 + m)) - 48 = m" if "m < 10" for m :: nat
    using that by (simp add: byte_def)
  show ?case
  proof (cases "n < 10")
    case True
    then show ?thesis using d [of n] by (simp add: dec.simps [of n])
  next
    case False
    then show ?thesis using 1 d [of "n mod 10"] by (subst dec.simps) (simp add: mult.commute)
  qed
qed

lemma dec_not_Nil [simp]: "dec n \<noteq> []"
  by (subst dec.simps) simp

lemma length_dec: "n < 10 ^ k \<Longrightarrow> 0 < k \<Longrightarrow> length (dec n) \<le> k"
proof (induction n arbitrary: k rule: dec.induct)
  case (1 n)
  show ?case
  proof (cases "n < 10")
    case True
    then show ?thesis using "1.prems" by (simp add: dec.simps [of n])
  next
    case False
    with "1.prems" obtain j where k: "k = Suc j" "0 < j" by (cases k; cases "k = 1") auto
    then have "n div 10 < 10 ^ j" using "1.prems" by (simp add: div_less_iff_less_mult mult.commute)
    from "1.IH" [OF False this k(2)] show ?thesis using False k by (subst dec.simps) simp
  qed
qed

section \<open>Properties\<close>

text \<open>\<^verbatim>\<open>Put\<close> on a resizing formatter returns with the text appended in full, however
  often the buffer has to be replaced on the way. On a fixed buffer it appends what fits
  and leaves the last byte free (a single character may take it). In both cases it writes
  only inside the buffer and counts exactly the bytes it wrote, provided the total stays
  below two gigabytes.\<close>

theorem Put_spec:
  assumes "fmt_ok r" "fmt_ok s"
    and "GetCurrentOffset r + length text < 2 ^ 31 - 1" "GetCurrentOffset s + length text < 2 ^ 31 - 1"
  shows "(\<exists>r'. Put BufferIsFull (r :: 'a ResizeableStringFormatter_scheme) text = Some r' \<and> fmt_ok r' \<and>
            contents r' = contents r @ text \<and> fBytesWritten r' = fBytesWritten r + of_nat (length text)) \<and>
         (\<exists>s' n. Put BufferIsFull_fixed s text = Some s' \<and> fmt_ok s' \<and> contents s' = contents s @ take n text \<and>
            fBytesWritten s' = fBytesWritten s + of_nat (length (take n text)) \<and>
            n = (if length text = 1 then GetSpaceLeft s else GetSpaceLeft s - 1))"
proof
  obtain r' where "Put BufferIsFull r text = Some r'" "appended r text r'"
    using resizing.Put_all [OF assms(1)] assms(3) unfolding GetCurrentOffset_def by blast
  then show "\<exists>r'. Put BufferIsFull r text = Some r' \<and> fmt_ok r' \<and>
      contents r' = contents r @ text \<and> fBytesWritten r' = fBytesWritten r + of_nat (length text)"
    by (auto simp: appended_def)
  obtain s' where "Put BufferIsFull_fixed s text = Some s'"
      "appended s (if length text = 1 then take (GetSpaceLeft s) text else take (GetSpaceLeft s - 1) text) s'"
    using fixed.Put_cut [OF assms(2)] assms(4) unfolding GetCurrentOffset_def by blast
  then show "\<exists>s' n. Put BufferIsFull_fixed s text = Some s' \<and> fmt_ok s' \<and> contents s' = contents s @ take n text \<and>
      fBytesWritten s' = fBytesWritten s + of_nat (length (take n text)) \<and>
      n = (if length text = 1 then GetSpaceLeft s else GetSpaceLeft s - 1)"
    by (auto simp: appended_def)
qed

definition ex_resizeable :: ResizeableStringFormatter where
  "ex_resizeable = ResizeableStringFormatter_new (replicate 4 NUL)"

definition ex_fixed :: StringFormatter where
  "ex_fixed = StringFormatter_new (replicate 4 NUL)"

theorem Put_spec_witness:
  "\<exists>r' s'. Put BufferIsFull ex_resizeable ''hello world'' = Some r' \<and> contents r' = ''hello world'' \<and>
     Put BufferIsFull_fixed ex_fixed ''hello world'' = Some s' \<and> contents s' = ''hel''"
proof -
  have ok: "fmt_ok ex_resizeable" "fmt_ok ex_fixed" "GetCurrentOffset ex_resizeable + length ''hello world'' < 2 ^ 31 - 1"
    "GetCurrentOffset ex_fixed + length ''hello world'' < 2 ^ 31 - 1" "contents ex_resizeable = []" "contents ex_fixed = []"
    "GetSpaceLeft ex_fixed = 4"
    by (simp_all add: fmt_ok_def GetCurrentOffset_def contents_def GetSpaceLeft_def
        ex_resizeable_def ex_fixed_def ResizeableStringFormatter_new_def StringFormatter_new_def)
  show ?thesis using Put_spec [OF ok(1-4)] unfolding ok(5,6,7) by auto
qed

text \<open>\<^verbatim>\<open>PutFmtStr\<close> on a fixed buffer that is completely full (as single characters
  can leave it) computes the number of bytes it may count as zero minus one in 32-bit
  arithmetic: the write position moves four gigabytes past the end of the buffer.\<close>

theorem PutFmtStr_full_buffer:
  assumes "GetSpaceLeft s = 0" "fmt_ok s"
  shows "\<exists>s'. PutFmtStr BufferIsFull_fixed s text = Some (False, s') \<and>
    GetCurrentOffset s' = GetTotalBufferSize s + (2 ^ 32 - 1)"
proof -
  have e: "fCurrentPut s = length (fBuffer s)" using assms by (simp add: GetSpaceLeft_def fmt_ok_def)
  have 1: "vsnprintf_at (fBuffer s) (length (fBuffer s)) text = Some (fBuffer s)" by (simp add: vsnprintf_at_def)
  have 2: "unat (of_nat 0 - 1 :: UInt32) = 2 ^ 32 - 1"
    by (simp add: unsigned_minus_1_eq_mask mask_eq_exp_minus_1)
  show ?thesis
    by (subst PutFmtStr.simps)
      (simp add: e 1 2 [simplified] Let_def BufferIsFull_fixed_def GetCurrentOffset_def GetTotalBufferSize_def GetSpaceLeft_def)
qed

theorem PutFmtStr_full_buffer_witness:
  "\<exists>s'. PutFmtStr BufferIsFull_fixed (StringFormatter_new []) ''x'' = Some (False, s') \<and> GetCurrentOffset s' = 2 ^ 32 - 1"
  using PutFmtStr_full_buffer [of "StringFormatter_new []" "''x''"]
  by (simp add: StringFormatter_new_def GetSpaceLeft_def fmt_ok_def GetTotalBufferSize_def)

end
