(* ===== verification/CF_HTTPPacket.thy ===== *)
theory CF_HTTPPacket
  imports CF_Def CF_QueryParamList CF_HTTPProtocol CF_StringFormatter
begin

text \<open>
  HTTP messages: \<^verbatim>\<open>src/CFHttp/HTTPPacket.cpp\<close> and its header. This theory has the state
  of a packet and the parser; the construction of headers is in theory
  \<^verbatim>\<open>CF_HTTPHeader\<close>. The parser works on the scanner of theory
  \<^verbatim>\<open>CF_StringParser\<close>, the tables of \<^verbatim>\<open>CF_HTTPProtocol\<close>, the URL decoder of
  \<^verbatim>\<open>CF_StringTranslator\<close> and the parameter list of \<^verbatim>\<open>CF_QueryParamList\<close>.
  \<^term>\<open>None\<close> is a read or write outside an object, or a failed assertion.
\<close>

section \<open>State\<close>

definition sURLStopConditions :: "nat list" where
  "sURLStopConditions =
     [0, 0, 0, 0, 0, 0, 0, 0, 0, 1, 1, 0, 0, 1, 0, 0, 0, 0, 0, 0, 0, 0, 0, 0, 0, 0, 0, 0, 0, 0,
      0, 0, 1, 0, 0, 0, 0, 0, 0, 0, 0, 0, 0, 0, 0, 0, 0, 0, 0, 0, 0, 0, 0, 0, 0, 0, 0, 0, 0, 0,
      0, 0, 0, 1, 0, 0, 0, 0, 0, 0, 0, 0, 0, 0, 0, 0, 0, 0, 0, 0, 0, 0, 0, 0, 0, 0, 0, 0, 0, 0,
      0, 0, 0, 0, 0, 0, 0, 0, 0, 0, 0, 0, 0, 0, 0, 0, 0, 0, 0, 0, 0, 0, 0, 0, 0, 0, 0, 0, 0, 0,
      0, 0, 0, 0, 0, 0, 0, 0, 0, 0, 0, 0, 0, 0, 0, 0, 0, 0, 0, 0, 0, 0, 0, 0, 0, 0, 0, 0, 0, 0,
      0, 0, 0, 0, 0, 0, 0, 0, 0, 0, 0, 0, 0, 0, 0, 0, 0, 0, 0, 0, 0, 0, 0, 0, 0, 0, 0, 0, 0, 0,
      0, 0, 0, 0, 0, 0, 0, 0, 0, 0, 0, 0, 0, 0, 0, 0, 0, 0, 0, 0, 0, 0, 0, 0, 0, 0, 0, 0, 0, 0,
      0, 0, 0, 0, 0, 0, 0, 0, 0, 0, 0, 0, 0, 0, 0, 0, 0, 0, 0, 0, 0, 0, 0, 0, 0, 0, 0, 0, 0, 0,
      0, 0, 0, 0, 0, 0, 0, 0, 0, 0, 0, 0, 0, 0, 0, 0]"

text \<open>
  \<open>fHTTPHeader\<close> is the length that \<^verbatim>\<open>fHTTPHeader\<close> records; its pointer is the buffer the
  formatter was created on.
\<close>

record HTTPPacket =
  fPacketHeader :: StrPtrLen
  fHTTPHeaderFormatter :: "ResizeableStringFormatter option"
  fHTTPHeader :: nat
  fHTTPBody :: "StrPtrLen option"
  fHTTPType :: nat
  fVersion :: nat
  fMethod :: nat
  fStatusCode :: nat
  fRequestLine :: StrPtrLen
  fAbsoluteURI :: StrPtrLen
  fRelativeURI :: StrPtrLen
  fAbsoluteURIScheme :: StrPtrLen
  fHostHeader :: StrPtrLen
  fRequestPath :: "mem option"
  fQueryString :: "mem option"
  fQueryValues :: "QueryParamList option"
  fRequestKeepAlive :: bool
  fFieldValues :: "StrPtrLen list"
  fSvrHeader :: StrPtrLen

text \<open>The two constructors; the server header comes from \<^verbatim>\<open>CFEnv::GetServerHeader()\<close>.\<close>

definition HTTPPacket_new :: "StrPtrLen \<Rightarrow> nat \<Rightarrow> HTTPPacket" where
  "HTTPPacket_new serverHeader httpType =
     \<lparr>fPacketHeader = StrPtrLen_null, fHTTPHeaderFormatter = None, fHTTPHeader = 0, fHTTPBody = None,
      fHTTPType = httpType, fVersion = httpIllegalVersion, fMethod = httpIllegalMethod, fStatusCode = httpOK,
      fRequestLine = StrPtrLen_null, fAbsoluteURI = StrPtrLen_null, fRelativeURI = StrPtrLen_null,
      fAbsoluteURIScheme = StrPtrLen_null, fHostHeader = StrPtrLen_null, fRequestPath = None,
      fQueryString = None, fQueryValues = None, fRequestKeepAlive = False,
      fFieldValues = replicate httpNumHeaders StrPtrLen_null, fSvrHeader = serverHeader\<rparr>"

definition HTTPPacket_parse :: "StrPtrLen \<Rightarrow> StrPtrLen \<Rightarrow> HTTPPacket" where
  "HTTPPacket_parse serverHeader packet =
     (HTTPPacket_new serverHeader httpIllegalType)\<lparr>fPacketHeader := packet\<rparr>"

section \<open>Parsing\<close>

definition sCloseString :: StrPtrLen where "sCloseString = lit ''close''"
definition sKeepAliveString :: StrPtrLen where "sKeepAliveString = lit ''keep-alive''"

definition setKeepAlive :: "HTTPPacket \<Rightarrow> StrPtrLen \<Rightarrow> HTTPPacket option" where
  "setKeepAlive k keepAliveValue =
     do {
       c \<leftarrow> EqualIgnoreCase sCloseString (Ptr keepAliveValue) (Len keepAliveValue);
       if c then Some (k\<lparr>fRequestKeepAlive := False\<rparr>)
       else do {
         a \<leftarrow> EqualIgnoreCase sKeepAliveString (Ptr keepAliveValue) (Len keepAliveValue);
         Assert a;
         Some (k\<lparr>fRequestKeepAlive := True\<rparr>)
       }
     }"

text \<open>The query string behind the question mark, if there is one.\<close>

definition parse_query_part :: "HTTPPacket \<Rightarrow> StringParser \<Rightarrow> (StringParser \<times> HTTPPacket) option" where
  "parse_query_part k parser =
     (if GetDataRemaining parser > 0 then
        do {
          c \<leftarrow> PeekFast parser;
          if c = CHR ''?'' then
            do {
              (_, p1) \<leftarrow> ConsumeLength parser 1;
              (queryString, p2) \<leftarrow> ConsumeUntilWhitespace p1;
              if Len queryString \<noteq> 0 then
                do { b \<leftarrow> bytes_of queryString; Some (p2, k\<lparr>fQueryString := Some (b @ [NUL])\<rparr>) }
              else Some (p2, k)
            }
          else Some (parser, k)
        }
      else Some (parser, k))"

text \<open>
  The decoded path: \<^verbatim>\<open>relativeURIDecoded\<close> is an array of 512 zero bytes, but
  \<^verbatim>\<open>DecodeURL\<close> is told that it has room for the whole URI.
\<close>

definition decode_path :: "HTTPPacket \<Rightarrow> (int \<times> HTTPPacket) option" where
  "decode_path k =
     (let len = u32 (Len (fRelativeURI k) + 1)
      in do {
        src \<leftarrow> Ptr (fRelativeURI k);
        (decoded, r) \<leftarrow> DecodeURL_into src (int (Len (fRelativeURI k))) (replicate 512 NUL) len;
        case r of
          Inr e \<Rightarrow> Some (CF_BadArgument, k\<lparr>fStatusCode := httpBadRequest\<rparr>)
        | Inl n \<Rightarrow>
            if n < 0 \<or> nat n = len then Some (CF_BadArgument, k\<lparr>fStatusCode := httpBadRequest\<rparr>)
            else if nat n + 1 \<le> length decoded
                 then Some (CF_NoErr, k\<lparr>fRequestPath := Some (take (nat n) (drop 1 decoded) @ [NUL])\<rparr>)
                 else None
      })"

definition parseURI :: "HTTPPacket \<Rightarrow> StringParser \<Rightarrow> (int \<times> StringParser \<times> HTTPPacket) option" where
  "parseURI k parser =
     do {
       (abs, parser1) \<leftarrow> ConsumeUntil_mask parser sURLStopConditions;
       let k1 = k\<lparr>fAbsoluteURI := abs\<rparr>;
       let url0 = StringParser_new (Some abs);
       c \<leftarrow> rdp (Ptr abs) 0;
       (url, k2) \<leftarrow>
         (if c \<noteq> slash then
            do {
              (scheme, u1) \<leftarrow> ConsumeUntil url0 (CHR '':'');
              (_, u2) \<leftarrow> ConsumeLength u1 3;
              (host, u3) \<leftarrow> ConsumeUntil u2 slash;
              Some (u3, k1\<lparr>fAbsoluteURIScheme := scheme, fHostHeader := host\<rparr>)
            }
          else Some (url0, k1));
       (parser2, k3) \<leftarrow> parse_query_part k2 parser1;
       spl \<leftarrow> StrPtrLen_cstr (fQueryString k3);
       q \<leftarrow> BulidList QueryParamList_new spl;
       let k4 = k3\<lparr>fQueryValues := Some q,
                   fRelativeURI := \<lparr>Ptr = map_option (drop (fStartGet url)) (fObj url),
                                    Len = GetDataReceivedLen url - GetDataParsedLen url\<rparr>\<rparr>;
       (err, k5) \<leftarrow> decode_path k4;
       Some (err, parser2, k5)
     }"

text \<open>The end of the request line.\<close>

definition expect_eol :: "HTTPPacket \<Rightarrow> StringParser \<Rightarrow> (int \<times> StringParser \<times> HTTPPacket) option" where
  "expect_eol k parser =
     do {
       (b, p) \<leftarrow> ExpectEOL parser;
       Some (if b then (CF_NoErr, p, k) else (CF_BadArgument, p, k\<lparr>fStatusCode := httpBadRequest\<rparr>))
     }"

text \<open>The second half of \<^verbatim>\<open>parseRequestLine\<close>, from the blank behind the method on.\<close>

definition parse_request :: "HTTPPacket \<Rightarrow> StringParser \<Rightarrow> (int \<times> StringParser \<times> HTTPPacket) option" where
  "parse_request k parser =
     do {
       p1 \<leftarrow> ConsumeWhitespace parser;
       (err, p2, k1) \<leftarrow> parseURI (k\<lparr>fHTTPType := httpRequestType\<rparr>) p1;
       if err \<noteq> CF_NoErr then Some (err, p2, k1)
       else do {
         p3 \<leftarrow> ConsumeWhitespace p2;
         (versionStr, p4) \<leftarrow> ConsumeUntil_mask p3 sEOLMask;
         k2 \<leftarrow> (if Len versionStr > 0 then do { v \<leftarrow> GetVersion versionStr; Some (k1\<lparr>fVersion := v\<rparr>) } else Some k1);
         expect_eol k2 p4
       }
     }"

definition parseRequestLine :: "HTTPPacket \<Rightarrow> StringParser \<Rightarrow> (int \<times> StringParser \<times> HTTPPacket) option" where
  "parseRequestLine k parser =
     do {
       (theParsedData, p1) \<leftarrow> ConsumeWord parser;
       m \<leftarrow> GetMethod theParsedData;
       let k1 = k\<lparr>fMethod := m\<rparr>;
       http \<leftarrow> (if m = httpIllegalMethod then Equal_c theParsedData (Some (cstring ''HTTP'')) else Some False);
       if http then
         do {
           (_, p2) \<leftarrow> ConsumeUntilWhitespace p1;
           (_, p3) \<leftarrow> ConsumeUntilDigit p2;
           (statusCode, _, p4) \<leftarrow> ConsumeInteger p3;
           if statusCode \<noteq> 0 then
             do {
               p5 \<leftarrow> ConsumeWhitespace p4;
               (_, p6) \<leftarrow> ConsumeUntilWhitespace p5;
               expect_eol (k1\<lparr>fHTTPType := httpResponseType\<rparr>) p6
             }
           else parse_request k1 p4
         }
       else if m = httpIllegalMethod then expect_eol k1 p1
       else parse_request k1 p1
     }"

text \<open>The headers, up to and including the empty line.\<close>

partial_function (option) parseHeaders :: "HTTPPacket \<Rightarrow> StringParser \<Rightarrow> (int \<times> StringParser \<times> HTTPPacket) option" where
  "parseHeaders k parser =
     do {
       c \<leftarrow> PeekFast parser;
       if c \<noteq> CHR 0x0D \<and> c \<noteq> CHR 0x0A then
         do {
           kw \<leftarrow> GetThru parser (CHR '':'');
           if \<not> fst kw then Some (CF_BadArgument, snd (snd kw), k\<lparr>fStatusCode := httpBadRequest\<rparr>)
           else do {
             d \<leftarrow> PeekFast (snd (snd kw));
             p2 \<leftarrow> (if d = CHR '' '' then do { e \<leftarrow> Expect (snd (snd kw)) (CHR '' ''); Assert (fst e); Some (snd e) }
                   else Some (snd (snd kw)));
             theHeader \<leftarrow> GetHeader (fst (snd kw));
             v \<leftarrow> GetThruEOL p2;
             if \<not> fst v then Some (CF_BadArgument, snd (snd v), k\<lparr>fStatusCode := httpBadRequest\<rparr>)
             else do {
               k1 \<leftarrow> (if theHeader = httpConnectionHeader then setKeepAlive k (fst (snd v)) else Some k);
               parseHeaders
                 (if theHeader \<noteq> httpIllegalHeader
                  then k1\<lparr>fFieldValues := (fFieldValues k1)[theHeader := fst (snd v)]\<rparr> else k1)
                 (snd (snd v))
             }
           }
         }
       else do {
         e \<leftarrow> ExpectEOL parser;
         Assert (fst e);
         Some (CF_NoErr, snd e, k)
       }
     }"

partial_function (option) request_line_loop :: "HTTPPacket \<Rightarrow> StringParser \<Rightarrow> (int \<times> StringParser \<times> HTTPPacket) option" where
  "request_line_loop k parser =
     do {
       r \<leftarrow> parseRequestLine k parser;
       if fst r \<noteq> CF_NoErr then Some r
       else if fHTTPType (snd (snd r)) = httpIllegalType then request_line_loop (snd (snd r)) (fst (snd r))
       else Some r
     }"

declare parseHeaders.simps [code] request_line_loop.simps [code]

definition Parse :: "HTTPPacket \<Rightarrow> (int \<times> HTTPPacket) option" where
  "Parse k =
     do {
       Assert (Ptr (fPacketHeader k) \<noteq> None);
       (line, _) \<leftarrow> ConsumeUntil_mask (StringParser_new (Some (fPacketHeader k))) sEOLMask;
       (err, p, k1) \<leftarrow> request_line_loop (k\<lparr>fRequestLine := line\<rparr>) (StringParser_new (Some (fPacketHeader k)));
       if err \<noteq> CF_NoErr then Some (err, k1)
       else do { (err2, _, k2) \<leftarrow> parseHeaders k1 p; Some (err2, k2) }
     }"

definition GetQueryValues :: "HTTPPacket \<Rightarrow> mem \<Rightarrow> mem option option" where
  "GetQueryValues k inParam = do { q \<leftarrow> fQueryValues k; DoFindCGIValueForParam q inParam }"

definition GetHeaderValue :: "HTTPPacket \<Rightarrow> nat \<Rightarrow> StrPtrLen option" where
  "GetHeaderValue k inHeader = (if inHeader \<noteq> httpIllegalHeader then Some (fFieldValues k ! inHeader) else None)"

section \<open>Requests as text\<close>

definition header_line :: "nat \<times> string \<Rightarrow> string" where
  "header_line hv = sHeaders ! fst hv @ '': '' @ snd hv @ crlf"

definition query_part :: "string \<Rightarrow> string" where
  "query_part q = (if q = [] then [] else CHR ''?'' # q)"

definition request_line :: "nat \<Rightarrow> string \<Rightarrow> string \<Rightarrow> nat \<Rightarrow> string" where
  "request_line mth p q v = sMethods ! mth @ '' '' @ p @ query_part q @ '' '' @ sVersionStrings ! v"

definition request_text :: "nat \<Rightarrow> string \<Rightarrow> string \<Rightarrow> nat \<Rightarrow> (nat \<times> string) list \<Rightarrow> string" where
  "request_text mth p q v hs = request_line mth p q v @ crlf @ concat (map header_line hs) @ crlf"

definition line_end :: "char \<Rightarrow> bool" where
  "line_end c \<longleftrightarrow> byte c = 10 \<or> byte c = 13"

text \<open>A header the parser accepts: the value of a connection header is one of two words.\<close>

definition header_text :: "nat \<times> string \<Rightarrow> bool" where
  "header_text hv \<longleftrightarrow> fst hv < 51 \<and> ascii (snd hv) \<and> (\<forall>c \<in> set (snd hv). \<not> line_end c)"

definition header_ok :: "nat \<times> string \<Rightarrow> bool" where
  "header_ok hv \<longleftrightarrow> header_text hv \<and>
     (fst hv = httpConnectionHeader \<longrightarrow> map tolower (snd hv) \<in> {''close'', ''keep-alive''})"

definition path_ok :: "string \<Rightarrow> bool" where
  "path_ok p \<longleftrightarrow> plain_path p \<and> (\<forall>c \<in> set p. byte c \<notin> {9, 10, 13, 32, 63})"

definition query_ok :: "string \<Rightarrow> bool" where
  "query_ok q \<longleftrightarrow> NUL \<notin> set q \<and> (\<forall>c \<in> set q. \<not> space_char (byte c))"

definition field_texts :: "string list \<Rightarrow> (nat \<times> string) list \<Rightarrow> string list" where
  "field_texts fs hs = foldl (\<lambda>fs (h, v). fs[h := v]) fs hs"

definition keeps_alive :: "bool \<Rightarrow> (nat \<times> string) list \<Rightarrow> bool" where
  "keeps_alive b hs = foldl (\<lambda>b (h, v). if h = httpConnectionHeader then map tolower v = ''keep-alive'' else b) b hs"

section \<open>The parts of the parser\<close>

lemma lower_words: "map tolower ''close'' = ''close''" "map tolower ''keep-alive'' = ''keep-alive''"
  by (simp, code_simp)+

lemma setKeepAlive_ok:
  assumes "text_ok v"
  shows "setKeepAlive k v =
    (if map tolower (str v) = ''close'' then Some (k\<lparr>fRequestKeepAlive := False\<rparr>)
     else if map tolower (str v) = ''keep-alive'' then Some (k\<lparr>fRequestKeepAlive := True\<rparr>) else None)"
proof -
  obtain m where m: "Ptr v = Some m" "Len v \<le> length m" "take (Len v) m = str v"
    using assms by (auto simp: text_ok_def valid_def str_def)
  have e: "EqualIgnoreCase (lit t) (Ptr v) (Len v) = Some (map tolower t = map tolower (str v))" if "ascii t" for t
    using EqualIgnoreCase_eq [of "lit t" "Len v" m] assms that m by (auto simp: text_ok_def ascii_def)
  have "ascii ''close''" "ascii ''keep-alive''" by (simp_all add: ascii_def byte_def)
  then show ?thesis using e lower_words
    by (auto simp: setKeepAlive_def sCloseString_def sKeepAliveString_def)
qed

lemma header_names: "\<forall>t \<in> set (take 51 sHeaders). t \<noteq> [] \<and> (\<forall>c \<in> set t. c \<noteq> CHR '':'' \<and> \<not> line_end c)"
  unfolding line_end_def by code_simp

lemma header_name:
  assumes "h < 51"
  shows "sHeaders ! h \<noteq> []" "CHR '':'' \<notin> set (sHeaders ! h)" "\<forall>c \<in> set (sHeaders ! h). \<not> line_end c" "ascii (sHeaders ! h)"
proof -
  have "sHeaders ! h = take 51 sHeaders ! h" "h < length (take 51 sHeaders)" using assms tables_length(1) by auto
  then have "sHeaders ! h \<in> set (take 51 sHeaders)" by (metis nth_mem)
  then show "sHeaders ! h \<noteq> []" "CHR '':'' \<notin> set (sHeaders ! h)" "\<forall>c \<in> set (sHeaders ! h). \<not> line_end c"
    using header_names by auto
  show "ascii (sHeaders ! h)" using assms tables_ascii(1) tables_length(1) by simp
qed

lemma cr_lf: "line_end (CHR 0x0D)" "line_end (CHR 0x0A)" "eol_len (CHR 0x0D # CHR 0x0A # r) = 2"
  by (simp_all add: line_end_def byte_def)

lemma not_line_end: "\<not> line_end c \<Longrightarrow> c \<noteq> CHR 0x0D \<and> c \<noteq> CHR 0x0A"
  using cr_lf by auto

text \<open>One header line.\<close>

lemma parseHeaders_line:
  assumes ok: "parser_ok p m" and r: "remaining p = header_line (h, v) @ rest" and hv: "header_text (h, v)"
  obtains p' t where "parser_ok p' m" "remaining p' = rest" "fEndGet p' = fEndGet p" "text_ok t" "str t = v" "field_ok t"
    "parseHeaders k p = do {
       k1 \<leftarrow> (if h = httpConnectionHeader then setKeepAlive k t else Some k);
       parseHeaders (k1\<lparr>fFieldValues := (fFieldValues k1)[h := t]\<rparr>) p' }"
proof -
  have h: "h < 51" and v: "ascii v" "\<forall>c \<in> set v. \<not> line_end c" using hv by (auto simp: header_text_def)
  note n = header_name [OF h]
  have rem: "remaining p = sHeaders ! h @ CHR '':'' # CHR '' '' # v @ CHR 0x0D # CHR 0x0A # rest"
    by (simp add: r header_line_def crlf_def)
  obtain c0 n' where c0: "sHeaders ! h = c0 # n'" using n(1) by (cases "sHeaders ! h") auto
  have pk: "PeekFast p = Some c0" "c0 \<noteq> CHR 0x0D \<and> c0 \<noteq> CHR 0x0A"
    using PeekFast_ok [OF ok, of c0] n(3) not_line_end [of c0] by (simp_all add: rem c0)
  have tw: "takeWhile (\<lambda>x. x \<noteq> CHR '':'') (remaining p) = sHeaders ! h"
    "dropWhile (\<lambda>x. x \<noteq> CHR '':'') (remaining p) = CHR '':'' # CHR '' '' # v @ CHR 0x0D # CHR 0x0A # rest"
    unfolding rem using n(2) by (intro takeWhile_stop dropWhile_stop; auto)+
  obtain kw p1 where 1: "GetThru p (CHR '':'') = Some (True, kw, p1)" "parser_ok p1 m" "str kw = sHeaders ! h"
      "remaining p1 = CHR '' '' # v @ CHR 0x0D # CHR 0x0A # rest" "valid kw" "fEndGet p1 = fEndGet p" "Ptr kw \<noteq> None"
  proof (rule GetThruE [OF ok, of "CHR '':''"])
    fix out p' assume "GetThru p (CHR '':'') = Some (CHR '':'' \<in> set (remaining p), out, p')" "parser_ok p' m"
      "str out = takeWhile (\<lambda>x. x \<noteq> CHR '':'') (remaining p)" "remaining p' = tl (dropWhile (\<lambda>x. x \<noteq> CHR '':'') (remaining p))"
      "valid out" "fEndGet p' = fEndGet p" "Ptr out \<noteq> None"
    moreover have "CHR '':'' \<in> set (remaining p)" by (simp add: rem)
    ultimately show thesis using that [of out p'] tw by simp
  qed
  have hd: "GetHeader kw = Some h" using 1 n(4) h by (intro GetHeader_name) (simp_all add: text_ok_def)
  obtain p2 where 2: "Expect p1 (CHR '' '') = Some (True, p2)" "parser_ok p2 m"
      "remaining p2 = v @ CHR 0x0D # CHR 0x0A # rest" "fEndGet p2 = fEndGet p1"
    using ExpectE [OF 1(2), of "CHR '' ''"] unfolding 1(4) by auto
  have tv: "takeWhile (\<lambda>x. byte x \<noteq> 10 \<and> byte x \<noteq> 13) (remaining p2) = v"
    "dropWhile (\<lambda>x. byte x \<noteq> 10 \<and> byte x \<noteq> 13) (remaining p2) = CHR 0x0D # CHR 0x0A # rest"
    unfolding 2(3) using v(2) by (intro takeWhile_stop dropWhile_stop; auto simp: line_end_def byte_def)+
  obtain t p3 where 3: "GetThruEOL p2 = Some (True, t, p3)" "parser_ok p3 m" "str t = v" "remaining p3 = rest"
      "valid t" "fEndGet p3 = fEndGet p2" "Ptr t = Some (drop (fStartGet p2) m)"
    using GetThruEOLE [OF 2(2)] unfolding tv by (auto simp: Let_def)
  have "length (remaining p2) \<le> length (drop (fStartGet p2) m)"
    using 2(2) by (auto simp: length_remaining [OF 2(2)] parser_ok_def guarded_def)
  moreover have "Len t = length v" using 3(3,5) length_str by metis
  ultimately have fo: "field_ok t" using 3(7) unfolding 2(3) field_ok_def stream_ok_def by auto
  have "parseHeaders k p = do {
       k1 \<leftarrow> (if h = httpConnectionHeader then setKeepAlive k t else Some k);
       parseHeaders (k1\<lparr>fFieldValues := (fFieldValues k1)[h := t]\<rparr>) p3 }"
    using pk 1(1) PeekFast_ok [OF 1(2,4)] 2(1) hd 3(1) h
    by (subst parseHeaders.simps) (simp add: httpIllegalHeader_def)
  then show thesis using that [of p3 t] 3 1(6) 2(4) v(1) fo by (simp add: text_ok_def)
qed

lemma parseHeaders_ok:
  assumes "parser_ok p m" "remaining p = concat (map header_line hs) @ crlf @ rest" "\<forall>x \<in> set hs. header_ok x"
    "length (fFieldValues k) = 51" "\<forall>x \<in> set (fFieldValues k). field_ok x"
  shows "\<exists>p' fv. parseHeaders k p = Some (CF_NoErr, p', k\<lparr>fFieldValues := fv, fRequestKeepAlive := keeps_alive (fRequestKeepAlive k) hs\<rparr>) \<and>
    parser_ok p' m \<and> remaining p' = rest \<and> fEndGet p' = fEndGet p \<and> length fv = 51 \<and>
    map str fv = field_texts (map str (fFieldValues k)) hs \<and> (\<forall>x \<in> set fv. field_ok x)"
  using assms
proof (induction hs arbitrary: p k)
  case Nil
  have r: "remaining p = CHR 0x0D # CHR 0x0A # rest" using Nil.prems(2) by (simp add: crlf_def)
  obtain p' where p': "ExpectEOL p = Some (True, p')" "parser_ok p' m" "remaining p' = rest" "fEndGet p' = fEndGet p"
    using ExpectEOLE [OF Nil.prems(1)] unfolding r cr_lf by auto
  have "parseHeaders k p = Some (CF_NoErr, p', k)"
    using PeekFast_ok [OF Nil.prems(1) r] p'(1) by (subst parseHeaders.simps) simp
  then show ?case using p' Nil.prems(4,5)
    by (intro exI [of _ p'] exI [of _ "fFieldValues k"]) (simp add: field_texts_def keeps_alive_def)
next
  case (Cons x hs)
  obtain h v where x: "x = (h, v)" by (cases x)
  have hv: "header_ok (h, v)" using Cons.prems(3) x by simp
  have r: "remaining p = header_line (h, v) @ concat (map header_line hs) @ crlf @ rest" using Cons.prems(2) x by simp
  obtain p1 t where 1: "parser_ok p1 m" "remaining p1 = concat (map header_line hs) @ crlf @ rest" "fEndGet p1 = fEndGet p"
      "text_ok t" "str t = v" "field_ok t"
      "parseHeaders k p = do {
         k1 \<leftarrow> (if h = httpConnectionHeader then setKeepAlive k t else Some k);
         parseHeaders (k1\<lparr>fFieldValues := (fFieldValues k1)[h := t]\<rparr>) p1 }"
    by (rule parseHeaders_line [OF Cons.prems(1) r]) (use hv in \<open>simp add: header_ok_def\<close>)
  define ka where "ka = (if h = httpConnectionHeader then map tolower v = ''keep-alive'' else fRequestKeepAlive k)"
  define k1 where "k1 = k\<lparr>fRequestKeepAlive := ka, fFieldValues := (fFieldValues k)[h := t]\<rparr>"
  have step: "parseHeaders k p = parseHeaders k1 p1"
    using 1(7) hv setKeepAlive_ok [OF 1(4), of k] by (auto simp: 1(5) ka_def k1_def header_ok_def)
  obtain p' fv where "parseHeaders k1 p1 = Some (CF_NoErr, p', k1\<lparr>fFieldValues := fv, fRequestKeepAlive := keeps_alive (fRequestKeepAlive k1) hs\<rparr>)"
    "parser_ok p' m" "remaining p' = rest" "fEndGet p' = fEndGet p1" "length fv = 51"
    "map str fv = field_texts (map str (fFieldValues k1)) hs" "\<forall>x \<in> set fv. field_ok x"
    using Cons.IH [OF 1(1,2), of k1] Cons.prems(3,4,5) 1(6) set_update_subset_insert [of "fFieldValues k" h t]
    by (auto simp: k1_def)
  then show ?case
    using step 1(3,5) x
    by (intro exI [of _ p'] exI [of _ fv]) (simp add: k1_def ka_def keeps_alive_def field_texts_def map_update)
qed

lemma sURLStopConditions_eq: "sURLStopConditions = mask_of (\<lambda>i. i \<in> {9, 10, 13, 32, 63})"
  by code_simp

text \<open>The query part of a URI.\<close>

lemma space_not: "space_char (byte (CHR '' ''))" "\<not> space_char (byte slash)" "\<not> space_char (byte (CHR ''?''))"
  by (simp_all add: space_char_def byte_def slash_def)

lemma parse_query_part_ok:
  assumes ok: "parser_ok p m" and r: "remaining p = query_part q @ CHR '' '' # rest" and q: "query_ok q"
  obtains p' where "parser_ok p' m" "remaining p' = CHR '' '' # rest" "fEndGet p' = fEndGet p"
    "parse_query_part k p = Some (p', if q = [] then k else k\<lparr>fQueryString := Some (q @ [NUL])\<rparr>)"
proof (cases "q = []")
  case True
  have r': "remaining p = CHR '' '' # rest" using r True by (simp add: query_part_def)
  have "parse_query_part k p = Some (p, k)"
    using PeekFast_ok [OF ok r'] GetDataRemaining_ok [OF ok] by (simp add: parse_query_part_def r')
  then show ?thesis using that [of p] ok r' True by simp
next
  case False
  have r': "remaining p = CHR ''?'' # q @ CHR '' '' # rest" using r False by (simp add: query_part_def)
  have d1: "drop 1 (remaining p) = q @ CHR '' '' # rest" by (simp add: r')
  obtain o1 p1 where 1: "ConsumeLength p 1 = Some (o1, p1)" "parser_ok p1 m" "remaining p1 = q @ CHR '' '' # rest" "fEndGet p1 = fEndGet p"
    using ConsumeLength1E [OF ok] unfolding d1 by metis
  have tw: "takeWhile (\<lambda>x. \<not> space_char (byte x)) (remaining p1) = q"
    "dropWhile (\<lambda>x. \<not> space_char (byte x)) (remaining p1) = CHR '' '' # rest"
    unfolding 1(3) using q space_not by (intro takeWhile_stop dropWhile_stop; auto simp: query_ok_def)+
  obtain s p2 where 2: "ConsumeUntil_mask p1 sEOLWhitespaceMask = Some (s, p2)" "parser_ok p2 m" "str s = q"
      "remaining p2 = CHR '' '' # rest" "valid s" "Len s = length q" "fEndGet p2 = fEndGet p1"
    using ConsumeUntil_maskE [OF 1(2) sEOLWhitespaceMask_eq] unfolding tw by metis
  have "bytes_of s = Some q" using 2(3,5,6) False by (auto simp: bytes_of_def str_def valid_def split: option.splits)
  then have "parse_query_part k p = Some (p2, k\<lparr>fQueryString := Some (q @ [NUL])\<rparr>)"
    using PeekFast_ok [OF ok r'] GetDataRemaining_ok [OF ok] 1(1) 2(1,6) False
    by (simp add: parse_query_part_def r' ConsumeUntilWhitespace_def)
  then show ?thesis using that [of p2] 2 1(4) False by simp
qed

text \<open>The parameters of a query string.\<close>

definition has_params :: "QueryParamList \<Rightarrow> string \<Rightarrow> bool" where
  "has_params qv q \<longleftrightarrow> (\<exists>xs. qpl_rep qv xs (rev (map arg_pair (parse_query q))))"

lemma query_values_ok:
  assumes "NUL \<notin> set q" "q = [] \<Longrightarrow> fQueryString k = None" "q \<noteq> [] \<Longrightarrow> fQueryString k = Some (q @ [NUL])"
  obtains spl qv where "StrPtrLen_cstr (fQueryString k) = Some spl" "BulidList QueryParamList_new spl = Some qv" "has_params qv q"
proof (cases "q = []")
  case True
  have "parse_query [] = []" by (subst parse_query.simps) simp
  moreover have "qpl_rep QueryParamList_new [] []"
    by (simp add: qpl_rep_def QueryParamList_new_def dlist_rep_empty)
  ultimately have "has_params QueryParamList_new q" using True by (auto simp: has_params_def)
  then show ?thesis using that BulidList_null assms(2) True by (simp add: StrPtrLen_cstr_def)
next
  case False
  let ?s = "\<lparr>Ptr = Some (q @ [NUL]), Len = length q\<rparr>"
  have "strlen (q @ [NUL]) = Some (length q)" using strlen_cstring [OF assms(1)] by (simp add: cstring_def)
  then have "StrPtrLen_cstr (fQueryString k) = Some ?s" using assms(3) False by (simp add: StrPtrLen_cstr_def)
  moreover have "stream_ok ?s (q @ [NUL])" "str ?s = q" by (simp_all add: stream_ok_def str_def)
  moreover from BulidList_ok [OF this(1)] this(2) obtain qv where "BulidList QueryParamList_new ?s = Some qv" "has_params qv q"
    by (auto simp: has_params_def)
  ultimately show ?thesis using that by blast
qed

text \<open>The path, for any outcome of the decoder.\<close>

lemma parseURI_relative:
  assumes ok: "parser_ok p m" and r: "remaining p = u @ query_part q @ CHR '' '' # rest"
    and u: "u \<noteq> []" "hd u = slash" "\<forall>c \<in> set u. byte c \<notin> {9, 10, 13, 32, 63}" and q: "query_ok q"
    and k: "fQueryString k = None"
  obtains p' abs qv where "parser_ok p' m" "remaining p' = CHR '' '' # rest" "fEndGet p' = fEndGet p"
    "str abs = u" "valid abs" "Len abs = length u" "has_params qv q"
    "parseURI k p = do {
       (err, k5) \<leftarrow> decode_path (k\<lparr>fAbsoluteURI := abs, fQueryString := (if q = [] then None else Some (q @ [NUL])),
                                   fQueryValues := Some qv, fRelativeURI := abs\<rparr>);
       Some (err, p', k5) }"
proof -
  define c where "c = (if q = [] then CHR '' '' else CHR ''?'')"
  have rc: "\<exists>z. query_part q @ CHR '' '' # rest = c # z" by (simp add: c_def query_part_def)
  then obtain z where z: "query_part q @ CHR '' '' # rest = c # z" by blast
  have tw: "takeWhile (\<lambda>x. \<not> byte x \<in> {9, 10, 13, 32, 63}) (remaining p) = u"
    "dropWhile (\<lambda>x. \<not> byte x \<in> {9, 10, 13, 32, 63}) (remaining p) = query_part q @ CHR '' '' # rest"
    unfolding r z using u(3) by (intro takeWhile_stop dropWhile_stop; auto simp: c_def byte_def)+
  obtain abs p1 where 1: "ConsumeUntil_mask p sURLStopConditions = Some (abs, p1)" "parser_ok p1 m" "str abs = u"
      "remaining p1 = query_part q @ CHR '' '' # rest" "valid abs" "Len abs = length (str abs)" "fEndGet p1 = fEndGet p"
    using ConsumeUntil_maskE [OF ok sURLStopConditions_eq] unfolding tw by metis
  obtain am where am: "Ptr abs = Some am" "take (length u) am = u" "length u \<le> length am"
    using 1(3,5,6) u(1) by (auto simp: str_def valid_def split: option.splits)
  have c0: "rdp (Ptr abs) 0 = Some slash"
    using am u(1,2) by (cases am; cases u) (auto simp: rdp_def)
  obtain p2 where 2: "parser_ok p2 m" "remaining p2 = CHR '' '' # rest" "fEndGet p2 = fEndGet p1"
    "parse_query_part (k\<lparr>fAbsoluteURI := abs\<rparr>) p1 = Some (p2, if q = [] then k\<lparr>fAbsoluteURI := abs\<rparr> else k\<lparr>fAbsoluteURI := abs, fQueryString := Some (q @ [NUL])\<rparr>)"
    by (rule parse_query_part_ok [OF 1(2,4) q, of "k\<lparr>fAbsoluteURI := abs\<rparr>"]) simp
  define k3 where "k3 = k\<lparr>fAbsoluteURI := abs, fQueryString := (if q = [] then None else Some (q @ [NUL]))\<rparr>"
  have k3: "parse_query_part (k\<lparr>fAbsoluteURI := abs\<rparr>) p1 = Some (p2, k3)" using 2(4) k by (simp add: k3_def)
  obtain spl qv where qv: "StrPtrLen_cstr (fQueryString k3) = Some spl" "BulidList QueryParamList_new spl = Some qv" "has_params qv q"
    by (rule query_values_ok [of q k3]) (use q in \<open>auto simp: k3_def query_ok_def\<close>)
  have rel: "\<lparr>Ptr = map_option (drop (fStartGet (StringParser_new (Some abs)))) (fObj (StringParser_new (Some abs))),
      Len = GetDataReceivedLen (StringParser_new (Some abs)) - GetDataParsedLen (StringParser_new (Some abs))\<rparr> = abs"
    by (simp add: StringParser_new_def GetDataReceivedLen_def GetDataParsedLen_def am(1))
  have "parseURI k p = do {
       (err, k5) \<leftarrow> decode_path (k3\<lparr>fQueryValues := Some qv, fRelativeURI := abs\<rparr>);
       Some (err, p2, k5) }"
    unfolding parseURI_def by (simp add: 1(1) c0 k3 qv(1,2) rel Let_def)
  then show thesis using that [of p2 abs qv] 2 1 qv(3) by (simp add: k3_def)
qed

lemma decode_path_plain:
  assumes "valid (fRelativeURI k)" "str (fRelativeURI k) = u" "plain_path u" "length u + 1 < 2 ^ 32"
  shows "decode_path k = (if length u \<le> 511 then Some (CF_NoErr, k\<lparr>fRequestPath := Some (tl u @ [NUL, NUL])\<rparr>) else None)"
proof -
  have ne: "u \<noteq> []" using assms(3) by (simp add: plain_path_def)
  have len: "Len (fRelativeURI k) = length u" using length_str [OF assms(1)] assms(2) by simp
  obtain m where m: "Ptr (fRelativeURI k) = Some m" "take (length u) m = u"
    using assms(1,2) ne len by (auto simp: str_def valid_def split: option.splits)
  have d: "DecodeURL_into m (int (length u)) (replicate 512 NUL) (length u + 1) =
      (if length u \<le> 512 then Some (u @ drop (length u) (replicate 512 NUL), Inl (int (length u))) else None)"
    using DecodeURL_into_plain [OF assms(3), of "length u + 1" m "replicate 512 NUL"] m(2) by simp
  have w: "u32 (length u + 1) = length u + 1" using assms(4) by simp
  have "take (length u) (drop 1 (u @ replicate (512 - length u) NUL)) = tl u @ [NUL]" if "length u \<le> 511"
  proof -
    have "512 - length u = Suc (511 - length u)" using that by simp
    then have "drop 1 (u @ replicate (512 - length u) NUL) = (tl u @ [NUL]) @ replicate (511 - length u) NUL"
      using ne by (cases u) simp_all
    moreover have "length (tl u @ [NUL]) = length u" using ne by simp
    ultimately show ?thesis by (metis append_eq_conv_conj)
  qed
  then show ?thesis unfolding decode_path_def Let_def len w using m(1) d by auto
qed

lemma GetVersion_name:
  assumes "text_ok s" "v < 3" "str s = sVersionStrings ! v"
  shows "GetVersion s = Some v"
proof -
  have len: "\<forall>i \<in> {0..<3}. length (sVersionStrings ! i) = 8" by code_simp
  have "length (str s) = Len s" using assms(1) by (simp add: text_ok_def)
  then have 8: "Len s = 8" using len assms(2,3) by auto
  have d: "distinct (map (map tolower) sVersionStrings)" by code_simp
  obtain r where r: "find_ci sVersionStrings s 0 3 = Some r" "r \<le> 3"
      "r < 3 \<longrightarrow> map tolower (str s) = map tolower (sVersionStrings ! r)"
      "\<forall>i. i < r \<longrightarrow> map tolower (str s) \<noteq> map tolower (sVersionStrings ! i)"
    using find_ci_spec [OF assms(1) tables_ascii(2), of 0 3] tables_length(2) by auto
  have "\<not> v < r" using r(4) assms(3) by metis
  then have "r < 3" "map (map tolower) sVersionStrings ! r = map (map tolower) sVersionStrings ! v"
    using r(3) assms tables_length(2) by auto
  then have "r = v" using nth_eq_iff_index_eq [OF d, of r v] assms(2) tables_length(2) by simp
  then show ?thesis using r(1) 8 by (simp add: GetVersion_def)
qed

lemma str_Ptr: "str s \<noteq> [] \<Longrightarrow> Ptr s \<noteq> None"
  by (auto simp: str_def split: option.splits)

lemma names_ok:
  "mth < 8 \<Longrightarrow> \<forall>c \<in> set (sMethods ! mth). word_char (byte c)"
  "v < 3 \<Longrightarrow> \<forall>c \<in> set (sVersionStrings ! v). \<not> line_end c" "v < 3 \<Longrightarrow> sVersionStrings ! v \<noteq> []"
  "v < 3 \<Longrightarrow> \<not> space_char (byte (hd (sVersionStrings ! v)))" "v < 3 \<Longrightarrow> ascii (sVersionStrings ! v)"
  "mth < 8 \<Longrightarrow> sMethods ! mth \<noteq> []"
proof -
  have 1: "\<forall>t \<in> set sMethods. t \<noteq> [] \<and> (\<forall>c \<in> set t. word_char (byte c))" by code_simp
  have 2: "\<forall>t \<in> set sVersionStrings. (\<forall>c \<in> set t. \<not> line_end c) \<and> t \<noteq> [] \<and> \<not> space_char (byte (hd t))"
    unfolding line_end_def by code_simp
  show "mth < 8 \<Longrightarrow> \<forall>c \<in> set (sMethods ! mth). word_char (byte c)" "mth < 8 \<Longrightarrow> sMethods ! mth \<noteq> []"
    using 1 nth_mem [of mth sMethods] tables_length(3) by auto
  show "v < 3 \<Longrightarrow> \<forall>c \<in> set (sVersionStrings ! v). \<not> line_end c" "v < 3 \<Longrightarrow> sVersionStrings ! v \<noteq> []"
    "v < 3 \<Longrightarrow> \<not> space_char (byte (hd (sVersionStrings ! v)))"
    using 2 nth_mem [of v sVersionStrings] tables_length(2) by auto
  show "v < 3 \<Longrightarrow> ascii (sVersionStrings ! v)" using tables_ascii(2) tables_length(2) by simp
qed

text \<open>The rest of the request line behind the URI.\<close>

lemma version_ok:
  assumes ok: "parser_ok p m" and r: "remaining p = CHR '' '' # sVersionStrings ! v @ crlf @ rest" and v: "v < 3"
  obtains p' where "parser_ok p' m" "remaining p' = rest" "fEndGet p' = fEndGet p"
    "\<And>k1. do { p3 \<leftarrow> ConsumeWhitespace p;
          (versionStr, p4) \<leftarrow> ConsumeUntil_mask p3 sEOLMask;
          k2 \<leftarrow> (if Len versionStr > 0 then do { v \<leftarrow> GetVersion versionStr; Some (k1\<lparr>fVersion := v\<rparr>) } else Some k1);
          expect_eol k2 p4 } = Some (CF_NoErr, p', k1\<lparr>fVersion := v\<rparr>)"
proof -
  note n = names_ok(2-5) [OF v]
  obtain c0 n' where c0: "sVersionStrings ! v = c0 # n'" using n(2) by (cases "sVersionStrings ! v") auto
  have dw: "dropWhile (\<lambda>x. space_char (byte x)) (remaining p) = sVersionStrings ! v @ CHR 0x0D # CHR 0x0A # rest"
    using n(3) space_not by (simp add: r c0 crlf_def)
  obtain p3 where 3: "ConsumeWhitespace p = Some p3" "parser_ok p3 m"
      "remaining p3 = sVersionStrings ! v @ CHR 0x0D # CHR 0x0A # rest" "fEndGet p3 = fEndGet p"
    using ConsumeWhitespaceE [OF ok] unfolding dw by metis
  have tw: "takeWhile (\<lambda>x. \<not> (byte x = 10 \<or> byte x = 13)) (remaining p3) = sVersionStrings ! v"
    "dropWhile (\<lambda>x. \<not> (byte x = 10 \<or> byte x = 13)) (remaining p3) = CHR 0x0D # CHR 0x0A # rest"
    unfolding 3(3) using n(1) by (intro takeWhile_stop dropWhile_stop; auto simp: line_end_def byte_def)+
  obtain s p4 where 4: "ConsumeUntil_mask p3 sEOLMask = Some (s, p4)" "parser_ok p4 m" "str s = sVersionStrings ! v"
      "remaining p4 = CHR 0x0D # CHR 0x0A # rest" "valid s" "Len s = length (str s)" "fEndGet p4 = fEndGet p3"
    by (rule ConsumeUntil_maskE [OF 3(2) sEOLMask_eq, unfolded tw])
  have "Ptr s \<noteq> None" using 4(3) n(2) str_Ptr by metis
  then have gv: "GetVersion s = Some v" using 4 n(4) v by (intro GetVersion_name) (simp_all add: text_ok_def)
  obtain p5 where 5: "ExpectEOL p4 = Some (True, p5)" "parser_ok p5 m" "remaining p5 = rest" "fEndGet p5 = fEndGet p4"
    using ExpectEOLE [OF 4(2)] unfolding 4(4) cr_lf by auto
  show thesis
    by (rule that [of p5]) (use 3 4 5 gv n(2) in \<open>simp_all add: expect_eol_def\<close>)
qed

lemma parseRequestLine_ok:
  assumes ok: "parser_ok p m" and r: "remaining p = request_line mth u q v @ crlf @ rest" and mv: "mth < 8" "v < 3"
    and u: "u \<noteq> []" "hd u = slash" "\<forall>c \<in> set u. byte c \<notin> {9, 10, 13, 32, 63}" and q: "query_ok q"
    and k: "fQueryString k = None"
  obtains p' p2 abs qv where "parser_ok p' m" "remaining p' = rest" "fEndGet p' = fEndGet p"
    "str abs = u" "valid abs" "has_params qv q"
    "parseRequestLine k p = do {
       (err, k5) \<leftarrow> decode_path (k\<lparr>fMethod := mth, fHTTPType := httpRequestType, fAbsoluteURI := abs,
          fQueryString := (if q = [] then None else Some (q @ [NUL])), fQueryValues := Some qv, fRelativeURI := abs\<rparr>);
       if err \<noteq> CF_NoErr then Some (err, p2, k5) else Some (CF_NoErr, p', k5\<lparr>fVersion := v\<rparr>) }"
proof -
  have rem: "remaining p = sMethods ! mth @ CHR '' '' # u @ query_part q @ CHR '' '' # sVersionStrings ! v @ crlf @ rest"
    by (simp add: r request_line_def)
  have tw: "takeWhile (\<lambda>x. \<not> \<not> word_char (byte x)) (remaining p) = sMethods ! mth"
    "dropWhile (\<lambda>x. \<not> \<not> word_char (byte x)) (remaining p) = CHR '' '' # u @ query_part q @ CHR '' '' # sVersionStrings ! v @ crlf @ rest"
    unfolding rem using names_ok(1) [OF mv(1)] by (intro takeWhile_stop dropWhile_stop; auto simp: word_char_def byte_def)+
  obtain w p1 where 1: "ConsumeUntil_mask p sNonWordMask = Some (w, p1)" "parser_ok p1 m" "str w = sMethods ! mth"
      "remaining p1 = CHR '' '' # u @ query_part q @ CHR '' '' # sVersionStrings ! v @ crlf @ rest"
      "valid w" "Len w = length (str w)" "fEndGet p1 = fEndGet p"
    by (rule ConsumeUntil_maskE [OF ok sNonWordMask_eq, unfolded tw])
  have "Ptr w \<noteq> None" using 1(3) names_ok(6) [OF mv(1)] str_Ptr by metis
  then have gm: "GetMethod w = Some mth" using 1 mv(1) by (intro GetMethod_name)
  have dw: "dropWhile (\<lambda>x. space_char (byte x)) (remaining p1) = u @ query_part q @ CHR '' '' # sVersionStrings ! v @ crlf @ rest"
    using u(1,2) space_not unfolding 1(4) by (cases u) auto
  obtain p1' where W: "ConsumeWhitespace p1 = Some p1'" "parser_ok p1' m"
      "remaining p1' = u @ query_part q @ CHR '' '' # sVersionStrings ! v @ crlf @ rest" "fEndGet p1' = fEndGet p1"
    using ConsumeWhitespaceE [OF 1(2)] unfolding dw by metis
  define k0 where "k0 = k\<lparr>fMethod := mth, fHTTPType := httpRequestType\<rparr>"
  have k0: "fQueryString k0 = None" using k by (simp add: k0_def)
  obtain p2 abs qv where 2: "parser_ok p2 m" "remaining p2 = CHR '' '' # sVersionStrings ! v @ crlf @ rest" "fEndGet p2 = fEndGet p1'"
    "str abs = u" "valid abs" "Len abs = length u" "has_params qv q"
    "parseURI k0 p1' = do {
       (err, k5) \<leftarrow> decode_path (k0\<lparr>fAbsoluteURI := abs, fQueryString := (if q = [] then None else Some (q @ [NUL])),
                                   fQueryValues := Some qv, fRelativeURI := abs\<rparr>);
       Some (err, p2, k5) }"
    by (rule parseURI_relative [OF W(2,3) u q k0])
  obtain p5 where 5: "parser_ok p5 m" "remaining p5 = rest" "fEndGet p5 = fEndGet p2"
    "\<And>k1. do { p3 \<leftarrow> ConsumeWhitespace p2;
          (versionStr, p4) \<leftarrow> ConsumeUntil_mask p3 sEOLMask;
          k2 \<leftarrow> (if Len versionStr > 0 then do { v \<leftarrow> GetVersion versionStr; Some (k1\<lparr>fVersion := v\<rparr>) } else Some k1);
          expect_eol k2 p4 } = Some (CF_NoErr, p5, k1\<lparr>fVersion := v\<rparr>)"
    by (rule version_ok [OF 2(1,2) mv(2)]) blast
  have m8: "mth \<noteq> httpIllegalMethod" using mv(1) by (simp add: httpIllegalMethod_def)
  have "parseRequestLine k p = parse_request (k\<lparr>fMethod := mth\<rparr>) p1"
    using 1(1) gm m8 by (simp add: parseRequestLine_def ConsumeWord_def)
  also have "\<dots> = do {
       (err, k5) \<leftarrow> decode_path (k0\<lparr>fAbsoluteURI := abs, fQueryString := (if q = [] then None else Some (q @ [NUL])),
                                   fQueryValues := Some qv, fRelativeURI := abs\<rparr>);
       if err \<noteq> CF_NoErr then Some (err, p2, k5) else Some (CF_NoErr, p5, k5\<lparr>fVersion := v\<rparr>) }"
    unfolding parse_request_def W(1) bind.bind_lunit using 2(8) 5(4)
    by (simp add: k0_def split: Option.bind_split)
  finally show thesis using that [of p5 abs qv p2] 5 2 1(7) W(4) by (simp add: k0_def)
qed

section \<open>Properties\<close>

text \<open>A packet over a text that is followed by a readable byte.\<close>

definition packet_of :: "StrPtrLen \<Rightarrow> string \<Rightarrow> HTTPPacket" where
  "packet_of serverHeader t = HTTPPacket_parse serverHeader \<lparr>Ptr = Some (cstring t), Len = length t\<rparr>"

lemma decode_path_frame:
  assumes "decode_path k = Some (e, k')"
  shows "fHTTPType k' = fHTTPType k" "fFieldValues k' = fFieldValues k" "fRequestKeepAlive k' = fRequestKeepAlive k"
proof -
  obtain src where src: "Ptr (fRelativeURI k) = Some src" using assms by (cases "Ptr (fRelativeURI k)") (simp_all add: decode_path_def)
  let ?D = "DecodeURL_into src (int (Len (fRelativeURI k))) (replicate 512 NUL) (u32 (Len (fRelativeURI k) + 1))"
  obtain d r where D: "?D = Some (d, r)" using assms src by (cases ?D) (auto simp: decode_path_def Let_def)
  show "fHTTPType k' = fHTTPType k" "fFieldValues k' = fFieldValues k" "fRequestKeepAlive k' = fRequestKeepAlive k"
    using assms unfolding decode_path_def Let_def src bind.bind_lunit D by (cases r; auto split: if_splits)+
qed

lemma request_line_chars:
  assumes "\<forall>c \<in> set u. byte c \<notin> {9, 10, 13, 32, 63}" "query_ok q" "mth < 8" "v < 3"
  shows "\<forall>c \<in> set (request_line mth u q v). \<not> (byte c = 10 \<or> byte c = 13)"
proof -
  have "\<forall>c \<in> set (sMethods ! mth). \<not> (byte c = 10 \<or> byte c = 13)"
    using names_ok(1) [OF assms(3)] by (auto simp: word_char_def)
  moreover have "\<forall>c \<in> set (query_part q). \<not> (byte c = 10 \<or> byte c = 13)"
    using assms(2) by (auto simp: query_part_def query_ok_def space_char_def byte_def)
  moreover have "\<forall>c \<in> set (sVersionStrings ! v). \<not> (byte c = 10 \<or> byte c = 13)"
    using names_ok(2) [OF assms(4)] by (simp add: line_end_def)
  ultimately show ?thesis using assms(1) by (auto simp: request_line_def byte_def)
qed

text \<open>Parsing a request comes down to decoding its path and reading its headers.\<close>

lemma packet_of_ok:
  "stream_ok (fPacketHeader (packet_of sh t)) (cstring t)" "str (fPacketHeader (packet_of sh t)) = t" "fQueryString (packet_of sh t) = None"
  by (simp_all add: packet_of_def HTTPPacket_parse_def HTTPPacket_new_def stream_ok_def cstring_def str_def)

lemma packet_of_parse [simp]: "HTTPPacket_parse sh (fPacketHeader (packet_of sh t)) = packet_of sh t"
  by (simp add: packet_of_def HTTPPacket_parse_def HTTPPacket_new_def)

lemma Parse_request:
  assumes K: "stream_ok (fPacketHeader K) m" "str (fPacketHeader K) = request_text mth u q v hs" "fQueryString K = None"
    and u: "u \<noteq> []" "hd u = slash" "\<forall>c \<in> set u. byte c \<notin> {9, 10, 13, 32, 63}" and q: "query_ok q" and mv: "mth < 8" "v < 3"
  obtains p' abs qv line where "str abs = u" "valid abs" "has_params qv q" "str line = request_line mth u q v"
    "parser_ok p' m" "remaining p' = concat (map header_line hs) @ crlf"
    "Parse K = do {
       (err, k5) \<leftarrow> decode_path (K\<lparr>fRequestLine := line, fMethod := mth,
          fHTTPType := httpRequestType, fAbsoluteURI := abs, fQueryString := (if q = [] then None else Some (q @ [NUL])),
          fQueryValues := Some qv, fRelativeURI := abs\<rparr>);
       if err \<noteq> CF_NoErr then Some (err, k5)
       else do { (err2, _, k2) \<leftarrow> parseHeaders (k5\<lparr>fVersion := v\<rparr>) p'; Some (err2, k2) } }"
proof -
  let ?t = "request_text mth u q v hs"
  let ?p = "StringParser_new (Some (fPacketHeader K))"
  note p = StringParser_new_ok(1,2) [OF K(1), unfolded K(2)]
  have rem: "remaining ?p = request_line mth u q v @ CHR 0x0D # CHR 0x0A # concat (map header_line hs) @ crlf"
    unfolding p(2) by (simp add: request_text_def crlf_def)
  have tw: "takeWhile (\<lambda>x. \<not> (byte x = 10 \<or> byte x = 13)) (remaining ?p) = request_line mth u q v"
    unfolding rem using request_line_chars [OF u(3) q mv] by (intro takeWhile_stop; auto simp: byte_def)+
  obtain line lp where line: "ConsumeUntil_mask ?p sEOLMask = Some (line, lp)" "str line = request_line mth u q v"
    using ConsumeUntil_maskE [OF p(1) sEOLMask_eq, unfolded tw] by metis
  define k1 where "k1 = K\<lparr>fRequestLine := line\<rparr>"
  have k1: "fQueryString k1 = None" using K(3) by (simp add: k1_def)
  have r: "remaining ?p = request_line mth u q v @ crlf @ concat (map header_line hs) @ crlf"
    unfolding p(2) by (simp add: request_text_def)
  obtain p' p2 abs qv where R: "parser_ok p' m" "remaining p' = concat (map header_line hs) @ crlf" "fEndGet p' = fEndGet ?p"
    "str abs = u" "valid abs" "has_params qv q"
    "parseRequestLine k1 ?p = do {
       (err, k5) \<leftarrow> decode_path (k1\<lparr>fMethod := mth, fHTTPType := httpRequestType, fAbsoluteURI := abs,
          fQueryString := (if q = [] then None else Some (q @ [NUL])), fQueryValues := Some qv, fRelativeURI := abs\<rparr>);
       if err \<noteq> CF_NoErr then Some (err, p2, k5) else Some (CF_NoErr, p', k5\<lparr>fVersion := v\<rparr>) }"
    by (rule parseRequestLine_ok [OF p(1) r mv u q k1])
  let ?base = "k1\<lparr>fMethod := mth, fHTTPType := httpRequestType, fAbsoluteURI := abs,
          fQueryString := (if q = [] then None else Some (q @ [NUL])), fQueryValues := Some qv, fRelativeURI := abs\<rparr>"
  have ty: "fHTTPType k5 \<noteq> httpIllegalType" if "decode_path ?base = Some (e, k5)" for e k5
    using decode_path_frame(1) [OF that] by (simp add: httpIllegalType_def httpRequestType_def)
  have loop: "request_line_loop k1 ?p = parseRequestLine k1 ?p"
    by (subst request_line_loop.simps) (use ty in \<open>auto simp: R(7) split: Option.bind_split prod.splits\<close>)
  have "Parse K = do { (err, pp, kk) \<leftarrow> request_line_loop k1 ?p;
       if err \<noteq> CF_NoErr then Some (err, kk) else do { (err2, _, k2) \<leftarrow> parseHeaders kk pp; Some (err2, k2) } }"
    unfolding Parse_def using line(1) K(1) by (simp add: k1_def stream_ok_def)
  also have "\<dots> = do { (err, k5) \<leftarrow> decode_path ?base;
       if err \<noteq> CF_NoErr then Some (err, k5)
       else do { (err2, _, k2) \<leftarrow> parseHeaders (k5\<lparr>fVersion := v\<rparr>) p'; Some (err2, k2) } }"
    unfolding loop R(7) by (auto split: Option.bind_split prod.splits)
  finally show thesis using that [of abs qv line p'] R line(2) by (simp add: k1_def)
qed





text \<open>A request whose path has 512 bytes or more makes the parser leave its 512-byte array on
  the stack: \<^verbatim>\<open>DecodeURL\<close> is told that the destination has room for the whole URI, and
  the copy behind it reads one byte more than was decoded.\<close>

theorem Parse_long_path:
  assumes "path_ok u" "512 \<le> length u" "length u < 2 ^ 31" "query_ok q" "mth < 8" "v < 3"
  shows "Parse (packet_of sh (request_text mth u q v hs)) = None"
proof -
  have u: "u \<noteq> []" "hd u = slash" "\<forall>c \<in> set u. byte c \<notin> {9, 10, 13, 32, 63}" "plain_path u"
    using assms(1) by (auto simp: path_ok_def plain_path_def)
  show ?thesis
  proof (rule Parse_request [where K = "packet_of sh (request_text mth u q v hs)" and hs = hs, OF packet_of_ok(1) packet_of_ok(2) packet_of_ok(3) u(1-3) assms(4-6)])
    fix p' abs qv line
    let ?K = "(packet_of sh (request_text mth u q v hs))\<lparr>fRequestLine := line, fMethod := mth,
          fHTTPType := httpRequestType, fAbsoluteURI := abs, fQueryString := (if q = [] then None else Some (q @ [NUL])),
          fQueryValues := Some qv, fRelativeURI := abs\<rparr>"
    assume a: "str abs = u" "valid abs"
    assume P: "Parse (packet_of sh (request_text mth u q v hs)) = do {
       (err, k5) \<leftarrow> decode_path ?K; if err \<noteq> CF_NoErr then Some (err, k5)
       else do { (err2, _, k2) \<leftarrow> parseHeaders (k5\<lparr>fVersion := v\<rparr>) p'; Some (err2, k2) } }"
    have "decode_path ?K = None" using decode_path_plain [of ?K u] a u(4) assms(2,3) by simp
    then show ?thesis unfolding P by simp
  qed
qed

theorem Parse_long_path_witness:
  "Parse (packet_of (lit ''S'') (request_text httpGetMethod (CHR ''/'' # replicate 600 (CHR ''a'')) [] http10Version [])) = None"
proof -
  have "plain_after c (replicate n (CHR ''a''))" for c n
    by (induction n arbitrary: c) (simp_all add: dot_def)
  then have 1: "path_ok (CHR ''/'' # replicate 600 (CHR ''a''))"
    by (simp add: path_ok_def plain_path_def slash_def byte_def)
  have 2: "query_ok []" by (simp add: query_ok_def)
  show ?thesis
    using Parse_long_path [OF 1 _ _ 2, of httpGetMethod http10Version "lit ''S''" "[]"] by (simp add: httpGetMethod_def http10Version_def)
qed

text \<open>A connection header with any other value than \<^verbatim>\<open>close\<close> or
  \<^verbatim>\<open>keep-alive\<close> (\<^verbatim>\<open>Upgrade\<close>, say) fails an assertion and ends the server.\<close>

theorem Parse_connection_abort:
  assumes "path_ok u" "length u \<le> 511" "query_ok q" "mth < 8" "v < 3"
    and "header_text (httpConnectionHeader, w)" "map tolower w \<notin> {''close'', ''keep-alive''}"
  shows "Parse (packet_of sh (request_text mth u q v ((httpConnectionHeader, w) # hs))) = None"
proof -
  let ?hs = "(httpConnectionHeader, w) # hs"
  have u: "u \<noteq> []" "hd u = slash" "\<forall>c \<in> set u. byte c \<notin> {9, 10, 13, 32, 63}" "plain_path u"
    using assms(1) by (auto simp: path_ok_def plain_path_def)
  show ?thesis
  proof (rule Parse_request [where K = "packet_of sh (request_text mth u q v ?hs)" and hs = ?hs, OF packet_of_ok(1) packet_of_ok(2) packet_of_ok(3) u(1-3) assms(3-5)])
    fix p' abs qv line
    let ?K = "(packet_of sh (request_text mth u q v ?hs))\<lparr>fRequestLine := line, fMethod := mth,
          fHTTPType := httpRequestType, fAbsoluteURI := abs, fQueryString := (if q = [] then None else Some (q @ [NUL])),
          fQueryValues := Some qv, fRelativeURI := abs\<rparr>"
    assume a: "str abs = u" "valid abs" "parser_ok p' (cstring (request_text mth u q v ?hs))"
      "remaining p' = concat (map header_line ?hs) @ crlf"
    assume P: "Parse (packet_of sh (request_text mth u q v ?hs)) = do {
       (err, k5) \<leftarrow> decode_path ?K; if err \<noteq> CF_NoErr then Some (err, k5)
       else do { (err2, _, k2) \<leftarrow> parseHeaders (k5\<lparr>fVersion := v\<rparr>) p'; Some (err2, k2) } }"
    have d: "decode_path ?K = Some (CF_NoErr, ?K\<lparr>fRequestPath := Some (tl u @ [NUL, NUL])\<rparr>)"
      using decode_path_plain [of ?K u] a(1,2) u(4) assms(2) by simp
    have r: "remaining p' = header_line (httpConnectionHeader, w) @ concat (map header_line hs) @ crlf" using a(4) by simp
    have "parseHeaders k p' = None" for k
    proof (rule parseHeaders_line [OF a(3) r assms(6), of k])
      fix p2 t
      assume t: "text_ok t" "str t = w"
      assume "parseHeaders k p' = do {
         k1 \<leftarrow> (if httpConnectionHeader = httpConnectionHeader then setKeepAlive k t else Some k);
         parseHeaders (k1\<lparr>fFieldValues := (fFieldValues k1)[httpConnectionHeader := t]\<rparr>) p2 }"
      then show ?thesis using setKeepAlive_ok [OF t(1), of k] t(2) assms(7) by simp
    qed
    then show ?thesis unfolding P d by simp
  qed
qed

theorem Parse_connection_abort_witness:
  "Parse (packet_of (lit ''S'') (request_text httpGetMethod ''/'' [] http11Version [(httpConnectionHeader, ''Upgrade'')])) = None"
proof -
  have 1: "path_ok ''/''" "query_ok []" by code_simp+
  have 2: "header_text (httpConnectionHeader, ''Upgrade'')"
    by (simp add: header_text_def ascii_def line_end_def byte_def httpConnectionHeader_def)
  have "map tolower ''Upgrade'' = ''upgrade''" by (simp, code_simp)
  then have 3: "map tolower ''Upgrade'' \<notin> {''close'', ''keep-alive''}" by simp
  show ?thesis
    using Parse_connection_abort [OF 1(1) _ 1(2) _ _ 2 3, of httpGetMethod http11Version "lit ''S''" "[]"]
    by (simp add: httpGetMethod_def http11Version_def)
qed

text \<open>A dot segment in the URI leaves a byte of the undecoded path behind the decoded one, and
  the copy takes it along: for \<^verbatim>\<open>/a/../b\<close> the request path is \<^verbatim>\<open>a/b.\<close>
  instead of \<^verbatim>\<open>a/b\<close>, to which the decoder has reduced the URI.\<close>

theorem Parse_stale_byte:
  "\<exists>k. Parse (packet_of sh (request_text httpGetMethod ''/a/../b'' [] http11Version [])) = Some (CF_NoErr, k) \<and>
     fRequestPath k = Some (''a/b.'' @ [NUL])"
proof (rule Parse_request [where K = "packet_of sh (request_text httpGetMethod ''/a/../b'' [] http11Version [])" and hs = "[]" and u = "''/a/../b''" and q = "[]" and mth = httpGetMethod and v = http11Version,
    OF packet_of_ok(1) packet_of_ok(2) packet_of_ok(3)])
  fix p' abs qv line
  let ?P = "packet_of sh (request_text httpGetMethod ''/a/../b'' [] http11Version [])"
  let ?K = "?P\<lparr>fRequestLine := line, fMethod := httpGetMethod,
        fHTTPType := httpRequestType, fAbsoluteURI := abs, fQueryString := (if ([] :: string) = [] then None else Some ([] @ [NUL])),
        fQueryValues := Some qv, fRelativeURI := abs\<rparr>"
  assume a: "str abs = ''/a/../b''" "valid abs" "parser_ok p' (cstring (request_text httpGetMethod ''/a/../b'' [] http11Version []))"
    "remaining p' = concat (map header_line []) @ crlf"
  assume P: "Parse ?P = do {
     (err, k5) \<leftarrow> decode_path ?K; if err \<noteq> CF_NoErr then Some (err, k5)
     else do { (err2, _, k2) \<leftarrow> parseHeaders (k5\<lparr>fVersion := http11Version\<rparr>) p'; Some (err2, k2) } }"
  obtain m where m: "Ptr abs = Some m" "Len abs = 7" "take 7 m = ''/a/../b''"
  proof (cases "Ptr abs")
    case None
    then show ?thesis using a(1) by (simp add: str_def)
  next
    case (Some m)
    moreover have "Len abs = 7" using a(1) length_str [OF a(2)] by simp
    ultimately show ?thesis using a(1) that by (simp add: str_def)
  qed
  have "DecodeURL_into m (int 7) (replicate 512 NUL) 8 = DecodeURL_into ''/a/../b'' (int 7) (replicate 512 NUL) 8"
    using m(3) by (intro DecodeURL_into_take) simp_all
  also have "\<dots> = Some (''/a/b.'' @ replicate 507 NUL, Inl 4)" by code_simp
  finally have D: "DecodeURL_into m 7 (replicate 512 NUL) 8 = Some (''/a/b.'' @ replicate 507 NUL, Inl 4)" by simp
  define k5 where "k5 = ?K\<lparr>fRequestPath := Some (''a/b.'' @ [NUL])\<rparr>"
  have d: "decode_path ?K = Some (CF_NoErr, k5)"
    by (simp add: decode_path_def m(1,2) D k5_def Let_def)
  have l: "length (fFieldValues (k5\<lparr>fVersion := http11Version\<rparr>)) = 51"
    by (simp add: k5_def packet_of_def HTTPPacket_parse_def HTTPPacket_new_def httpNumHeaders_def)
  have f: "\<forall>x \<in> set (fFieldValues (k5\<lparr>fVersion := http11Version\<rparr>)). field_ok x"
    by (simp add: k5_def packet_of_def HTTPPacket_parse_def HTTPPacket_new_def)
  have "remaining p' = concat (map header_line []) @ crlf @ []" using a(4) by simp
  from parseHeaders_ok [OF a(3) this _ l f] obtain p2 fv where
    "parseHeaders (k5\<lparr>fVersion := http11Version\<rparr>) p' = Some (CF_NoErr, p2, (k5\<lparr>fVersion := http11Version\<rparr>)\<lparr>fFieldValues := fv,
       fRequestKeepAlive := keeps_alive (fRequestKeepAlive (k5\<lparr>fVersion := http11Version\<rparr>)) []\<rparr>)" by auto
  then show ?thesis unfolding P d by (simp add: k5_def)
qed (simp_all add: slash_def byte_def query_ok_def httpGetMethod_def http11Version_def)

end
