(* ===== verification/CF_HTTPHeader.thy ===== *)
theory CF_HTTPHeader
  imports CF_HTTPPacket
begin

text \<open>
  The construction of HTTP headers, the second part of \<^verbatim>\<open>src/CFHttp/HTTPPacket.cpp\<close>:
  status and request lines, header fields, the complete header. The text goes through the
  growing formatter of theory \<^verbatim>\<open>CF_StringFormatter\<close>; the counted string that is handed
  out points to the block the formatter started on. The date buffer of the current thread is
  the argument \<open>now\<close>. The bytes of a fresh block are zero here; no theorem depends on them.
\<close>

section \<open>Operations\<close>

definition kMinHeaderSizeInBytes :: nat where "kMinHeaderSizeInBytes = 512"
definition kDateBufferLen :: nat where "kDateBufferLen = 29"
definition sAllString :: StrPtrLen where "sAllString = lit ''*''"
definition sColonSpace :: StrPtrLen where "sColonSpace = lit '': ''"

definition putStatusLine ::
  "ResizeableStringFormatter \<Rightarrow> nat \<Rightarrow> nat \<Rightarrow> ResizeableStringFormatter option" where
  "putStatusLine putStream status version =
     do {
       s1 \<leftarrow> Put_spl BufferIsFull putStream (GetVersionString version);
       s2 \<leftarrow> PutSpace BufferIsFull s1;
       s3 \<leftarrow> Put_spl BufferIsFull s2 (GetStatusCodeAsString status);
       s4 \<leftarrow> PutSpace BufferIsFull s3;
       s5 \<leftarrow> Put_spl BufferIsFull s4 (GetStatusCodeString status);
       PutEOL BufferIsFull s5
     }"

definition putMethedLine ::
  "ResizeableStringFormatter \<Rightarrow> nat \<Rightarrow> nat \<Rightarrow> ResizeableStringFormatter option" where
  "putMethedLine putStream mth version =
     do {
       s1 \<leftarrow> Put_spl BufferIsFull putStream (GetMethodString mth);
       s2 \<leftarrow> PutSpace BufferIsFull s1;
       s3 \<leftarrow> Put_cstr BufferIsFull s2 (cstring ''/'');
       s4 \<leftarrow> PutSpace BufferIsFull s3;
       s5 \<leftarrow> Put_spl BufferIsFull s4 (GetVersionString version);
       PutEOL BufferIsFull s5
     }"

definition AppendResponseHeader :: "HTTPPacket \<Rightarrow> nat \<Rightarrow> StrPtrLen \<Rightarrow> HTTPPacket option" where
  "AppendResponseHeader k inHeader inValue =
     do {
       f \<leftarrow> fHTTPHeaderFormatter k;
       f1 \<leftarrow> Put_spl BufferIsFull f (GetHeaderString inHeader);
       f2 \<leftarrow> Put_spl BufferIsFull f1 sColonSpace;
       f3 \<leftarrow> Put_spl BufferIsFull f2 inValue;
       f4 \<leftarrow> PutEOL BufferIsFull f3;
       Some (k\<lparr>fHTTPHeaderFormatter := Some f4, fHTTPHeader := GetCurrentOffset f4\<rparr>)
     }"

definition AppendContentLengthHeader_64 :: "HTTPPacket \<Rightarrow> 64 word \<Rightarrow> HTTPPacket option" where
  "AppendContentLengthHeader_64 k length_64bit =
     do {
       contentLengthPtr \<leftarrow> StrPtrLen_cstr (Some (cstring (dec (unat length_64bit))));
       AppendResponseHeader k httpContentLengthHeader contentLengthPtr
     }"

definition AppendContentLengthHeader :: "HTTPPacket \<Rightarrow> UInt32 \<Rightarrow> HTTPPacket option" where
  "AppendContentLengthHeader k length_32bit =
     do {
       contentLengthPtr \<leftarrow> StrPtrLen_cstr (Some (cstring (dec (unat length_32bit))));
       AppendResponseHeader k httpContentLengthHeader contentLengthPtr
     }"

definition AppendConnectionCloseHeader :: "HTTPPacket \<Rightarrow> HTTPPacket option" where
  "AppendConnectionCloseHeader k = AppendResponseHeader k httpConnectionHeader sCloseString"

definition AppendConnectionKeepAliveHeader :: "HTTPPacket \<Rightarrow> HTTPPacket option" where
  "AppendConnectionKeepAliveHeader k = AppendResponseHeader k httpConnectionHeader sKeepAliveString"

definition theDate :: "mem \<Rightarrow> StrPtrLen" where
  "theDate now = \<lparr>Ptr = Some now, Len = kDateBufferLen\<rparr>"

definition AppendDateField :: "mem \<Rightarrow> HTTPPacket \<Rightarrow> HTTPPacket option" where
  "AppendDateField now k = AppendResponseHeader k httpDateHeader (theDate now)"

definition AppendDateAndExpiresFields :: "mem \<Rightarrow> HTTPPacket \<Rightarrow> HTTPPacket option" where
  "AppendDateAndExpiresFields now k =
     do {
       k1 \<leftarrow> AppendResponseHeader k httpDateHeader (theDate now);
       AppendResponseHeader k1 httpExpiresHeader (theDate now)
     }"

definition CreateResponseHeader :: "mem \<Rightarrow> HTTPPacket \<Rightarrow> (bool \<times> HTTPPacket) option" where
  "CreateResponseHeader now k =
     (if fHTTPType k \<noteq> httpResponseType then Some (False, k)
      else do {
        let f = ResizeableStringFormatter_new (replicate kMinHeaderSizeInBytes NUL);
        f1 \<leftarrow> putStatusLine f (fStatusCode k) (fVersion k);
        Assert (Ptr (fSvrHeader k) \<noteq> None);
        let k1 = k\<lparr>fHTTPHeader := kMinHeaderSizeInBytes, fHTTPHeaderFormatter := Some f1\<rparr>;
        k2 \<leftarrow> AppendResponseHeader k1 httpServerHeader (fSvrHeader k);
        k3 \<leftarrow> AppendDateField now k2;
        k4 \<leftarrow> AppendResponseHeader k3 httpAccessControlAllowOriginHeader sAllString;
        f4 \<leftarrow> fHTTPHeaderFormatter k4;
        Some (True, k4\<lparr>fHTTPHeader := GetCurrentOffset f4\<rparr>)
      })"

definition CreateRequestHeader :: "HTTPPacket \<Rightarrow> (bool \<times> HTTPPacket) option" where
  "CreateRequestHeader k =
     (if fHTTPType k \<noteq> httpRequestType then Some (False, k)
      else do {
        let f = ResizeableStringFormatter_new (replicate kMinHeaderSizeInBytes NUL);
        f1 \<leftarrow> putMethedLine f (fMethod k) (fVersion k);
        Assert (Ptr (fSvrHeader k) \<noteq> None);
        let k1 = k\<lparr>fHTTPHeader := kMinHeaderSizeInBytes, fHTTPHeaderFormatter := Some f1\<rparr>;
        k2 \<leftarrow> AppendResponseHeader k1 httpUserAgentHeader (fSvrHeader k);
        f2 \<leftarrow> fHTTPHeaderFormatter k2;
        Some (True, k2\<lparr>fHTTPHeader := GetCurrentOffset f2\<rparr>)
      })"

text \<open>The pointer of \<^verbatim>\<open>fHTTPHeader\<close> is the block the formatter was created on.\<close>

definition start_block :: "ResizeableStringFormatter \<Rightarrow> mem" where
  "start_block f = (case fOriginalBuffer f of None \<Rightarrow> fBuffer f | Some b \<Rightarrow> b)"

definition GetCompleteHTTPHeader :: "HTTPPacket \<Rightarrow> (StrPtrLen \<times> HTTPPacket) option" where
  "GetCompleteHTTPHeader k =
     do {
       f \<leftarrow> fHTTPHeaderFormatter k;
       f1 \<leftarrow> PutEOL BufferIsFull f;
       Some (\<lparr>Ptr = Some (start_block f1), Len = GetCurrentOffset f1\<rparr>,
             k\<lparr>fHTTPHeaderFormatter := Some f1, fHTTPHeader := GetCurrentOffset f1\<rparr>)
     }"

definition GetAndSetBody :: "HTTPPacket \<Rightarrow> StrPtrLen option \<Rightarrow> StrPtrLen option \<times> HTTPPacket" where
  "GetAndSetBody k body = (fHTTPBody k, k\<lparr>fHTTPBody := body\<rparr>)"

definition SetBody :: "HTTPPacket \<Rightarrow> StrPtrLen option \<Rightarrow> HTTPPacket" where
  "SetBody k body = k\<lparr>fHTTPBody := body\<rparr>"

definition SetVersion :: "HTTPPacket \<Rightarrow> nat \<Rightarrow> HTTPPacket" where
  "SetVersion k version = k\<lparr>fVersion := version\<rparr>"

definition SetStatusCode :: "HTTPPacket \<Rightarrow> nat \<Rightarrow> HTTPPacket" where
  "SetStatusCode k statusCode = k\<lparr>fStatusCode := statusCode\<rparr>"

section \<open>Headers as text\<close>

definition status_line :: "nat \<Rightarrow> nat \<Rightarrow> string" where
  "status_line st v = sVersionStrings ! v @ '' '' @ sStatusCodeAsStrings ! st @ '' '' @ sStatusCodeStrings ! st"

definition response_text :: "nat \<Rightarrow> nat \<Rightarrow> (nat \<times> string) list \<Rightarrow> string" where
  "response_text st v hs = status_line st v @ crlf @ concat (map header_line hs) @ crlf"

text \<open>Fields that are appended one after the other.\<close>

fun append_fields :: "HTTPPacket \<Rightarrow> (nat \<times> StrPtrLen) list \<Rightarrow> HTTPPacket option" where
  "append_fields k [] = Some k"
| "append_fields k ((h, v) # hs) = do { k1 \<leftarrow> AppendResponseHeader k h v; append_fields k1 hs }"

section \<open>The formatter under the header\<close>

text \<open>
  \<open>written f t\<close>: the text so far is \<open>t\<close>, and as long as it leaves a byte of the first
  block free it is still in that block.
\<close>

definition written :: "ResizeableStringFormatter \<Rightarrow> string \<Rightarrow> bool" where
  "written f t \<longleftrightarrow> fmt_ok f \<and> contents f = t \<and> length (start_block f) = kMinHeaderSizeInBytes \<and>
     (length t < kMinHeaderSizeInBytes \<longrightarrow> fOriginalBuffer f = None)"

lemma start_block_full: "start_block (snd (BufferIsFull f)) = start_block f"
  by (simp add: start_block_def BufferIsFull_def Let_def split: option.splits)

lemma copy_in_start_block: "copy_in f t = Some f' \<Longrightarrow> length (start_block f') = length (start_block f)"
  by (auto simp: copy_in_def write_at_def start_block_def split: option.splits if_splits)

lemma Put_written:
  assumes "written f t" "length (t @ b) < 2 ^ 31 - 1"
  obtains f' where "Put BufferIsFull f b = Some f'" "written f' (t @ b)"
proof -
  have f: "fmt_ok f" "contents f = t" "length (start_block f) = 512" "fCurrentPut f = length t"
    using assms(1) length_contents [of f] by (auto simp: written_def kMinHeaderSizeInBytes_def)
  obtain f' where f': "Put BufferIsFull f b = Some f'" "appended f b f'"
    using resizing.Put_all [OF f(1)] assms(2) f(4) by auto
  have s: "length (start_block f') = 512"
    using Put_frame [OF f'(1), of "\<lambda>f. length (start_block f)"] copy_in_start_block f(3) by (simp add: start_block_full)
  have "fOriginalBuffer f' = None" if l: "length (t @ b) < 512"
  proof -
    have o: "fOriginalBuffer f = None" using assms(1) l by (simp add: written_def kMinHeaderSizeInBytes_def)
    then have "GetSpaceLeft f = 512 - length t" using f(3,4) by (simp add: start_block_def GetSpaceLeft_def)
    then have "Put BufferIsFull f b = copy_in f b"
      using l by (auto simp: Put_def put_loop.simps [of _ _ b])
    then show ?thesis using f'(1) o by (auto simp: copy_in_def write_at_def split: Option.bind_splits if_splits)
  qed
  then have "written f' (t @ b)" using f'(2) f(2) s by (simp add: written_def kMinHeaderSizeInBytes_def appended_def)
  then show thesis using that f'(1) by blast
qed

lemma written_new: "written (ResizeableStringFormatter_new (replicate kMinHeaderSizeInBytes NUL)) []"
  by (simp add: written_def ResizeableStringFormatter_new_def fmt_ok_def contents_def start_block_def)

text \<open>The operations in terms of the text they add.\<close>

lemma bytes_of_lit: "bytes_of (lit t) = Some t"
  by (simp add: bytes_of_def lit_def)

lemma bytes_of_text: "text_ok t \<Longrightarrow> bytes_of t = Some (str t)"
  by (auto simp: text_ok_def valid_def bytes_of_def str_def)

lemmas put_defs = Put_spl_def Put_cstr_def PutSpace_def PutChar_def PutEOL_def bytes_of_lit

definition appends :: "(ResizeableStringFormatter \<Rightarrow> ResizeableStringFormatter option) \<Rightarrow> string \<Rightarrow> bool" where
  "appends g b \<longleftrightarrow> (\<forall>f t. written f t \<and> length (t @ b) < 2 ^ 31 - 1 \<longrightarrow> (\<exists>f'. g f = Some f' \<and> written f' (t @ b)))"

lemma appends_Put: "appends (\<lambda>f. Put BufferIsFull f b) b"
  unfolding appends_def using Put_written by metis

lemma appends_bind:
  assumes "appends g b" "appends h c"
  shows "appends (\<lambda>f. do { f1 \<leftarrow> g f; h f1 }) (b @ c)"
  unfolding appends_def
proof (intro allI impI, elim conjE)
  fix f t assume 1: "written f t" "length (t @ b @ c) < 2 ^ 31 - 1"
  then have "length (t @ b) < 2 ^ 31 - 1" by simp
  then obtain f1 where f1: "g f = Some f1" "written f1 (t @ b)" using assms(1) 1(1) unfolding appends_def by blast
  moreover obtain f2 where "h f1 = Some f2" "written f2 ((t @ b) @ c)"
    using assms(2) f1(2) 1(2) unfolding appends_def by (metis append.assoc)
  ultimately show "\<exists>f'. do { f1 \<leftarrow> g f; h f1 } = Some f' \<and> written f' (t @ b @ c)" by simp
qed

lemma appends_lit: "appends (\<lambda>f. Put_spl BufferIsFull f (lit t)) t"
  using appends_Put [of t] by (simp add: put_defs)

lemma appends_text: "text_ok v \<Longrightarrow> appends (\<lambda>f. Put_spl BufferIsFull f v) (str v)"
  using appends_Put by (simp add: Put_spl_def bytes_of_text)

lemma appends_space: "appends (PutSpace BufferIsFull) '' ''"
  using appends_Put [of "'' ''"] by (simp add: put_defs [abs_def])

lemma appends_EOL: "appends (PutEOL BufferIsFull) crlf"
  using appends_Put [of crlf] by (simp add: put_defs [abs_def] sEOL_def crlf_def)

lemmas appends_rules = appends_bind appends_lit appends_text appends_space appends_EOL

lemma appends_status_line: "appends (\<lambda>f. putStatusLine f st v) (status_line st v @ crlf)"
proof -
  have "appends (\<lambda>f. putStatusLine f st v)
      (sVersionStrings ! v @ '' '' @ sStatusCodeAsStrings ! st @ '' '' @ sStatusCodeStrings ! st @ crlf)"
    unfolding putStatusLine_def GetVersionString_def GetStatusCodeAsString_def GetStatusCodeString_def
    by (intro appends_rules)
  then show ?thesis by (simp add: status_line_def)
qed

lemma appends_request_line:
  "appends (\<lambda>f. putMethedLine f mth v) (sMethods ! mth @ '' '' @ ''/'' @ '' '' @ sVersionStrings ! v @ crlf)"
proof -
  have "appends (\<lambda>f. Put_cstr BufferIsFull f (cstring ''/'')) ''/''"
    using appends_Put [of "''/''"] by (simp add: Put_cstr_def cstring_def strlen_def)
  then show ?thesis
    unfolding putMethedLine_def GetVersionString_def GetMethodString_def by (intro appends_rules)
qed

section \<open>Packets under construction\<close>

definition built :: "HTTPPacket \<Rightarrow> string \<Rightarrow> bool" where
  "built k t \<longleftrightarrow> (\<exists>f. fHTTPHeaderFormatter k = Some f \<and> written f t \<and> fHTTPHeader k = length t)"

lemma written_offset: "written f t \<Longrightarrow> GetCurrentOffset f = length t"
  using length_contents [of f] by (auto simp: written_def GetCurrentOffset_def)

lemma builtD:
  assumes "built k t"
  obtains f where "fHTTPHeaderFormatter k = Some f" "written f t" "fHTTPHeader k = length t"
  using assms unfolding built_def by blast

lemma appends_field: "text_ok v \<Longrightarrow> appends (\<lambda>f. do {
     f1 \<leftarrow> Put_spl BufferIsFull f (GetHeaderString h);
     f2 \<leftarrow> Put_spl BufferIsFull f1 sColonSpace;
     f3 \<leftarrow> Put_spl BufferIsFull f2 v;
     PutEOL BufferIsFull f3 }) (header_line (h, str v))"
  unfolding GetHeaderString_def sColonSpace_def header_line_def fst_conv snd_conv by (intro appends_rules)

lemma AppendResponseHeader_ok:
  assumes "built k t" "text_ok v" "length (t @ header_line (h, str v)) < 2 ^ 31 - 1"
  obtains f where "AppendResponseHeader k h v = Some (k\<lparr>fHTTPHeaderFormatter := Some f,
      fHTTPHeader := length (t @ header_line (h, str v))\<rparr>)" "written f (t @ header_line (h, str v))"
proof (rule builtD [OF assms(1)])
  fix f assume f: "fHTTPHeaderFormatter k = Some f" "written f t"
  obtain f4 where f4: "do {
     f1 \<leftarrow> Put_spl BufferIsFull f (GetHeaderString h);
     f2 \<leftarrow> Put_spl BufferIsFull f1 sColonSpace;
     f3 \<leftarrow> Put_spl BufferIsFull f2 v;
     PutEOL BufferIsFull f3 } = Some f4" "written f4 (t @ header_line (h, str v))"
    using appends_field [OF assms(2), of h] f(2) assms(3) unfolding appends_def by blast
  have "AppendResponseHeader k h v = do { f4 \<leftarrow> do {
     f1 \<leftarrow> Put_spl BufferIsFull f (GetHeaderString h);
     f2 \<leftarrow> Put_spl BufferIsFull f1 sColonSpace;
     f3 \<leftarrow> Put_spl BufferIsFull f2 v;
     PutEOL BufferIsFull f3 }; Some (k\<lparr>fHTTPHeaderFormatter := Some f4, fHTTPHeader := GetCurrentOffset f4\<rparr>) }"
    by (simp add: AppendResponseHeader_def f(1))
  then show thesis using that f4 written_offset [OF f4(2)] by simp
qed

lemma built_upd: "written f t \<Longrightarrow> built (k\<lparr>fHTTPHeaderFormatter := Some f, fHTTPHeader := length t\<rparr>) t"
  by (simp add: built_def)

definition fields_text :: "(nat \<times> StrPtrLen) list \<Rightarrow> string" where
  "fields_text hs = concat (map (\<lambda>x. header_line (fst x, str (snd x))) hs)"

lemma append_fields_ok:
  assumes "built k t" "\<forall>x \<in> set hs. text_ok (snd x)" "length (t @ fields_text hs) < 2 ^ 31 - 1"
  shows "\<exists>f. append_fields k hs = Some (k\<lparr>fHTTPHeaderFormatter := Some f, fHTTPHeader := length (t @ fields_text hs)\<rparr>) \<and>
    written f (t @ fields_text hs)"
  using assms
proof (induction hs arbitrary: k t)
  case Nil
  obtain f where "fHTTPHeaderFormatter k = Some f" "written f t" "fHTTPHeader k = length t" by (rule builtD [OF Nil.prems(1)])
  moreover from this have "k = k\<lparr>fHTTPHeaderFormatter := Some f, fHTTPHeader := length t\<rparr>" by (cases k) simp
  ultimately show ?case unfolding fields_text_def list.map concat.simps append_Nil2 append_fields.simps by metis
next
  case (Cons x hs)
  obtain h v where x: "x = (h, v)" by (cases x)
  let ?t = "t @ header_line (h, str v)"
  have T: "t @ fields_text (x # hs) = ?t @ fields_text hs" by (simp add: x fields_text_def)
  have v: "text_ok v" "length ?t < 2 ^ 31 - 1" "\<forall>x \<in> set hs. text_ok (snd x)" "length (?t @ fields_text hs) < 2 ^ 31 - 1"
    using Cons.prems(2,3) unfolding T by (auto simp: x)
  obtain f where f: "AppendResponseHeader k h v = Some (k\<lparr>fHTTPHeaderFormatter := Some f, fHTTPHeader := length ?t\<rparr>)" "written f ?t"
    by (rule AppendResponseHeader_ok [OF Cons.prems(1) v(1,2)])
  from Cons.IH [OF built_upd [OF f(2)] v(3,4)] show ?case unfolding T by (simp add: x f(1))
qed

text \<open>The header fields that every response starts with.\<close>

definition first_fields :: "StrPtrLen \<Rightarrow> mem \<Rightarrow> (nat \<times> StrPtrLen) list" where
  "first_fields server now =
     [(httpServerHeader, server), (httpDateHeader, theDate now), (httpAccessControlAllowOriginHeader, sAllString)]"

lemma CreateResponseHeader_fields:
  assumes "fHTTPType k = httpResponseType" "Ptr (fSvrHeader k) \<noteq> None"
    "putStatusLine (ResizeableStringFormatter_new (replicate kMinHeaderSizeInBytes NUL)) (fStatusCode k) (fVersion k) = Some f1"
  shows "CreateResponseHeader now k = do {
     k4 \<leftarrow> append_fields (k\<lparr>fHTTPHeader := kMinHeaderSizeInBytes, fHTTPHeaderFormatter := Some f1\<rparr>) (first_fields (fSvrHeader k) now);
     f4 \<leftarrow> fHTTPHeaderFormatter k4;
     Some (True, k4\<lparr>fHTTPHeader := GetCurrentOffset f4\<rparr>) }"
  using assms by (simp add: CreateResponseHeader_def first_fields_def AppendDateField_def Let_def)

lemma text_ok_date: "length now \<ge> kDateBufferLen \<Longrightarrow> ascii (take kDateBufferLen now) \<Longrightarrow> text_ok (theDate now)"
  by (simp add: text_ok_def theDate_def valid_def str_def)

lemma CreateResponseHeader_ok:
  assumes k: "fHTTPType k = httpResponseType" "text_ok (fSvrHeader k)" and now: "kDateBufferLen \<le> length now" "ascii (take kDateBufferLen now)"
    and t: "t = status_line (fStatusCode k) (fVersion k) @ crlf @ fields_text (first_fields (fSvrHeader k) now)" "length t < 2 ^ 31 - 1"
  obtains f where "CreateResponseHeader now k = Some (True, k\<lparr>fHTTPHeaderFormatter := Some f, fHTTPHeader := length t\<rparr>)" "written f t"
proof -
  let ?s = "status_line (fStatusCode k) (fVersion k) @ crlf"
  obtain f1 where f1: "putStatusLine (ResizeableStringFormatter_new (replicate kMinHeaderSizeInBytes NUL)) (fStatusCode k) (fVersion k) = Some f1"
    "written f1 ?s"
    using appends_status_line [of "fStatusCode k" "fVersion k"] written_new t unfolding appends_def by fastforce
  have ff: "\<forall>x \<in> set (first_fields (fSvrHeader k) now). text_ok (snd x)"
    using k(2) text_ok_date [OF now] by (simp add: first_fields_def sAllString_def text_ok_def [of "lit ''*''"] ascii_def byte_def)
  have l: "length (?s @ fields_text (first_fields (fSvrHeader k) now)) < 2 ^ 31 - 1" using t by simp
  obtain f where f: "append_fields (k\<lparr>fHTTPHeaderFormatter := Some f1, fHTTPHeader := length ?s\<rparr>) (first_fields (fSvrHeader k) now) =
      Some (k\<lparr>fHTTPHeaderFormatter := Some f, fHTTPHeader := length t\<rparr>)" "written f t"
    using append_fields_ok [OF built_upd [OF f1(2)] ff l, of k] t(1) by auto
  have n: "append_fields (k\<lparr>fHTTPHeader := n, fHTTPHeaderFormatter := g\<rparr>) (first_fields sv now)
      = append_fields (k\<lparr>fHTTPHeaderFormatter := g, fHTTPHeader := n'\<rparr>) (first_fields sv now)" for n n' g sv
    by (simp add: first_fields_def AppendResponseHeader_def)
  have "CreateResponseHeader now k = Some (True, k\<lparr>fHTTPHeaderFormatter := Some f, fHTTPHeader := length t\<rparr>)"
    unfolding CreateResponseHeader_fields [OF k(1) _ f1(1)] n [of _ _ _ "length ?s"] f(1)
    using k(2) written_offset [OF f(2)] f1(1) 
    by (subst CreateResponseHeader_fields [OF k(1) _ f1(1)]) (simp_all add: text_ok_def n [of _ _ _ "length ?s"] f(1) [simplified])
  then show thesis using that f(2) by blast
qed

text \<open>The complete header: the text, and the counted string that is handed out for it.\<close>

lemma GetCompleteHTTPHeader_ok:
  assumes "built k t" "length (t @ crlf) < 2 ^ 31 - 1"
  obtains f where "GetCompleteHTTPHeader k = Some (\<lparr>Ptr = Some (start_block f), Len = length (t @ crlf)\<rparr>,
      k\<lparr>fHTTPHeaderFormatter := Some f, fHTTPHeader := length (t @ crlf)\<rparr>)" "written f (t @ crlf)"
proof (rule builtD [OF assms(1)])
  fix f assume f: "fHTTPHeaderFormatter k = Some f" "written f t"
  obtain f1 where f1: "PutEOL BufferIsFull f = Some f1" "written f1 (t @ crlf)"
    using appends_EOL f(2) assms(2) unfolding appends_def by blast
  then show thesis using that [of f1] f written_offset [OF f1(2)] by (simp add: GetCompleteHTTPHeader_def)
qed

lemma start_block_text:
  assumes "written f t"
  shows "length t < 512 \<Longrightarrow> take (length t) (start_block f) = t" "length (start_block f) = 512"
  using assms length_contents [of f] by (auto simp: written_def kMinHeaderSizeInBytes_def start_block_def contents_def)

section \<open>Properties\<close>

definition header_values :: "(nat \<times> StrPtrLen) list \<Rightarrow> (nat \<times> string) list" where
  "header_values hs = map (\<lambda>x. (fst x, str (snd x))) hs"

lemma fields_text_values: "fields_text hs = concat (map header_line (header_values hs))"
  by (simp add: fields_text_def header_values_def comp_def)

text \<open>The sequence of calls that makes a response header: the partial header, further fields,
  the empty line.\<close>

definition make_header :: "mem \<Rightarrow> HTTPPacket \<Rightarrow> (nat \<times> StrPtrLen) list \<Rightarrow> (StrPtrLen \<times> HTTPPacket) option" where
  "make_header now k hs =
     do {
       (_, k1) \<leftarrow> CreateResponseHeader now k;
       k2 \<leftarrow> append_fields k1 hs;
       GetCompleteHTTPHeader k2
     }"

definition response_of :: "HTTPPacket \<Rightarrow> mem \<Rightarrow> (nat \<times> StrPtrLen) list \<Rightarrow> string" where
  "response_of k now hs =
     response_text (fStatusCode k) (fVersion k) (header_values (first_fields (fSvrHeader k) now @ hs))"

lemma make_header_ok:
  assumes k: "fHTTPType k = httpResponseType" "text_ok (fSvrHeader k)" and now: "kDateBufferLen \<le> length now" "ascii (take kDateBufferLen now)"
    and hs: "\<forall>x \<in> set hs. text_ok (snd x)" and len: "length (response_of k now hs) < 2 ^ 31 - 1"
  obtains f where "make_header now k hs = Some (\<lparr>Ptr = Some (start_block f), Len = length (response_of k now hs)\<rparr>,
      k\<lparr>fHTTPHeaderFormatter := Some f, fHTTPHeader := length (response_of k now hs)\<rparr>)" "written f (response_of k now hs)"
proof -
  define t where "t = status_line (fStatusCode k) (fVersion k) @ crlf @ fields_text (first_fields (fSvrHeader k) now)"
  have T: "response_of k now hs = (t @ fields_text hs) @ crlf"
    by (simp add: response_of_def response_text_def t_def fields_text_values header_values_def)
  have l: "length t < 2 ^ 31 - 1" "length (t @ fields_text hs) < 2 ^ 31 - 1" "length ((t @ fields_text hs) @ crlf) < 2 ^ 31 - 1"
    using len unfolding T by auto
  obtain f1 where f1: "CreateResponseHeader now k = Some (True, k\<lparr>fHTTPHeaderFormatter := Some f1, fHTTPHeader := length t\<rparr>)" "written f1 t"
    by (rule CreateResponseHeader_ok [OF k now t_def l(1)])
  obtain f2 where f2: "append_fields (k\<lparr>fHTTPHeaderFormatter := Some f1, fHTTPHeader := length t\<rparr>) hs =
      Some (k\<lparr>fHTTPHeaderFormatter := Some f2, fHTTPHeader := length (t @ fields_text hs)\<rparr>)" "written f2 (t @ fields_text hs)"
    using append_fields_ok [OF built_upd [OF f1(2)] hs l(2), of k] by auto
  obtain f3 where f3: "GetCompleteHTTPHeader (k\<lparr>fHTTPHeaderFormatter := Some f2, fHTTPHeader := length (t @ fields_text hs)\<rparr>) =
      Some (\<lparr>Ptr = Some (start_block f3), Len = length ((t @ fields_text hs) @ crlf)\<rparr>,
            k\<lparr>fHTTPHeaderFormatter := Some f3, fHTTPHeader := length ((t @ fields_text hs) @ crlf)\<rparr>)"
      "written f3 ((t @ fields_text hs) @ crlf)"
    using GetCompleteHTTPHeader_ok [OF built_upd [OF f2(2)] l(3), of k] by auto
  show thesis using that [of f3] f1(1) f2(1) f3 by (simp add: make_header_def T)
qed

text \<open>C30: A response header that leaves one byte of the first block free is handed out complete:
  the counted string holds the status line, the server, date and origin fields, the fields
  that were appended, in this order, and the empty line. Above the size of the first block
  the formatter has moved on to another block, and the counted string claims more bytes than the block it
  points to has.\<close>

theorem response_header_text:
  assumes "fHTTPType k = httpResponseType" "text_ok (fSvrHeader k)" "29 \<le> length now" "ascii (take 29 now)"
    and "\<forall>x \<in> set hs. text_ok (snd x)" "length (response_of k now hs) < 2 ^ 31 - 1"
  shows "\<exists>h k'. make_header now k hs = Some (h, k') \<and> Len h = length (response_of k now hs) \<and>
    (length (response_of k now hs) < 512 \<longrightarrow> valid h \<and> str h = response_of k now hs) \<and>
    (512 < length (response_of k now hs) \<longrightarrow> \<not> valid h)"
proof -
  obtain f where f: "make_header now k hs = Some (\<lparr>Ptr = Some (start_block f), Len = length (response_of k now hs)\<rparr>,
      k\<lparr>fHTTPHeaderFormatter := Some f, fHTTPHeader := length (response_of k now hs)\<rparr>)" "written f (response_of k now hs)"
    using make_header_ok [of k now hs] assms unfolding kDateBufferLen_def by metis
  show ?thesis using f(1) start_block_text [OF f(2)] by (auto simp: valid_def str_def)
qed

definition ex_now :: mem where "ex_now = ''Mon, 04 Nov 1996 21:42:17 GMT'' @ [NUL, NUL]"

theorem response_header_text_witness:
  "\<exists>h k'. make_header ex_now ((HTTPPacket_new (lit ''CF'') httpResponseType)\<lparr>fVersion := http11Version\<rparr>)
      [(httpContentLengthHeader, lit ''0'')] = Some (h, k') \<and>
    Len h = length (response_of ((HTTPPacket_new (lit ''CF'') httpResponseType)\<lparr>fVersion := http11Version\<rparr>) ex_now
      [(httpContentLengthHeader, lit ''0'')])"
proof -
  let ?k = "(HTTPPacket_new (lit ''CF'') httpResponseType)\<lparr>fVersion := http11Version\<rparr>"
  have 1: "fHTTPType ?k = httpResponseType" "text_ok (fSvrHeader ?k)" "text_ok (lit ''0'')"
    by (simp_all add: HTTPPacket_new_def text_ok_def ascii_def byte_def)
  have 2: "29 \<le> length ex_now" "ascii (take 29 ex_now)" by (simp_all add: ex_now_def ascii_def byte_def)
  have "length (response_of ?k ex_now [(httpContentLengthHeader, lit ''0'')]) < 2 ^ 31 - 1"
    by (simp add: response_of_def response_text_def status_line_def header_values_def first_fields_def header_line_def crlf_def
        HTTPPacket_new_def http11Version_def httpOK_def sVersionStrings_def sStatusCodeAsStrings_def sStatusCodeStrings_def
        sHeaders_def httpServerHeader_def httpDateHeader_def httpAccessControlAllowOriginHeader_def httpContentLengthHeader_def
        theDate_def sAllString_def ex_now_def kDateBufferLen_def str_def lit_def)
  then show ?thesis using response_header_text [OF 1(1,2) 2, of "[(httpContentLengthHeader, lit ''0'')]"] 1(3) by auto
qed

section \<open>Reading a response\<close>

text \<open>Facts about the tables.\<close>

lemma reason_chars:
  "\<forall>t \<in> set sStatusCodeStrings. t \<noteq> [] \<and> hd t \<noteq> CHR '' '' \<and>
     (\<forall>c \<in> set t. \<not> line_end c \<and> (space_char (byte c) \<longrightarrow> c = CHR '' ''))"
  unfolding line_end_def by code_simp

lemma code_chars: "\<forall>t \<in> set sStatusCodeAsStrings. t \<noteq> [] \<and> (\<forall>c \<in> set t. is_digit c)"
  by code_simp

lemma code_values: "\<forall>t \<in> set sStatusCodeAsStrings. 0 < foldl (\<lambda>a c. a * 10 + (byte c - 48)) 0 t \<and>
    foldl (\<lambda>a c. a * 10 + (byte c - 48)) 0 t < 2 ^ 32"
  by (simp add: sStatusCodeAsStrings_def byte_def)

lemma version_split:
  assumes "v < 3"
  obtains d e where "sVersionStrings ! v = ''HTTP'' @ CHR ''/'' # d # CHR ''.'' # e # []" "is_digit d" "is_digit e"
proof -
  have "v = 0 \<or> v = 1 \<or> v = 2" using assms by auto
  then show thesis using that [of "CHR ''0''" "CHR ''9''"] that [of "CHR ''1''" "CHR ''0''"] that [of "CHR ''1''" "CHR ''1''"]
    by (auto simp: sVersionStrings_def is_digit_def byte_def)
qed

lemma table_lengths: "length sStatusCodeStrings = 40" "length sStatusCodeAsStrings = 40"
  by (simp_all add: sStatusCodeStrings_def sStatusCodeAsStrings_def)

text \<open>Up to the reason: the status line is scanned word by word.\<close>

lemma parseRequestLine_response:
  assumes ok: "parser_ok p m" and r: "remaining p = status_line st v @ CHR 0x0D # CHR 0x0A # rest" and st: "st < 40" and v: "v < 3"
  obtains p6 p7 where "parseRequestLine k p = expect_eol (k\<lparr>fMethod := httpIllegalMethod, fHTTPType := httpResponseType\<rparr>) p6"
    "parser_ok p6 m" "remaining p6 = dropWhile (\<lambda>c. c \<noteq> CHR '' '') (sStatusCodeStrings ! st) @ CHR 0x0D # CHR 0x0A # rest"
    "fEndGet p6 = fEndGet p"
proof -
  let ?reason = "sStatusCodeStrings ! st" and ?code = "sStatusCodeAsStrings ! st"
  let ?tail = "CHR 0x0D # CHR 0x0A # rest"
  obtain d e where ver: "sVersionStrings ! v = ''HTTP'' @ CHR ''/'' # d # CHR ''.'' # e # []" "is_digit d" "is_digit e"
    by (rule version_split [OF v])
  have rs: "?reason \<noteq> []" "hd ?reason \<noteq> CHR '' ''" "\<forall>c \<in> set ?reason. \<not> line_end c \<and> (space_char (byte c) \<longrightarrow> c = CHR '' '')"
    using bspec [OF reason_chars nth_mem, of st] st unfolding table_lengths by blast+
  have cd: "?code \<noteq> []" "\<forall>c \<in> set ?code. is_digit c" "0 < foldl (\<lambda>a c. a * 10 + (byte c - 48)) 0 ?code"
      "foldl (\<lambda>a c. a * 10 + (byte c - 48)) 0 ?code < 2 ^ 32"
    using bspec [OF code_chars nth_mem, of st] bspec [OF code_values nth_mem, of st] st unfolding table_lengths by blast+
  have dig: "is_digit c \<Longrightarrow> \<not> space_char (byte c)" for c by (auto simp: is_digit_def space_char_def)
  have rem: "remaining p = ''HTTP'' @ CHR ''/'' # d # CHR ''.'' # e # CHR '' '' # ?code @ CHR '' '' # ?reason @ ?tail"
    by (simp add: r status_line_def ver(1))
  have tw1: "takeWhile (\<lambda>x. \<not> \<not> word_char (byte x)) (remaining p) = ''HTTP''"
    "dropWhile (\<lambda>x. \<not> \<not> word_char (byte x)) (remaining p) = CHR ''/'' # d # CHR ''.'' # e # CHR '' '' # ?code @ CHR '' '' # ?reason @ ?tail"
    unfolding rem by (intro takeWhile_stop dropWhile_stop; auto simp: word_char_def byte_def)+
  obtain w p1 where 1: "ConsumeUntil_mask p sNonWordMask = Some (w, p1)" "parser_ok p1 m" "str w = ''HTTP''"
      "remaining p1 = (CHR ''/'' # d # CHR ''.'' # e # []) @ CHR '' '' # ?code @ CHR '' '' # ?reason @ ?tail" "valid w" "fEndGet p1 = fEndGet p"
    using ConsumeUntil_maskE [OF ok sNonWordMask_eq, unfolded tw1] by (metis append_Cons append_Nil)
  have pw: "Ptr w \<noteq> None" using 1(3) by (auto simp: str_def split: option.splits)
  have "''HTTP'' \<notin> set sMethods" by code_simp
  then have gm: "GetMethod w = Some httpIllegalMethod" using GetMethod_spec [of w] 1(3,5) pw by auto
  have eq: "Equal_c w (Some (cstring ''HTTP'')) = Some True" using Equal_c_valid [of w "''HTTP''"] 1(3,5) pw by auto
  have tw2: "dropWhile (\<lambda>x. \<not> space_char (byte x)) (remaining p1) = CHR '' '' # ?code @ CHR '' '' # ?reason @ ?tail"
    unfolding 1(4) using ver(2,3) dig by (intro dropWhile_stop) (auto simp: space_char_def byte_def)
  obtain o2 p2 where 2: "ConsumeUntil_mask p1 sEOLWhitespaceMask = Some (o2, p2)" "parser_ok p2 m"
      "remaining p2 = CHR '' '' # ?code @ CHR '' '' # ?reason @ ?tail" "fEndGet p2 = fEndGet p1"
    using ConsumeUntil_maskE [OF 1(2) sEOLWhitespaceMask_eq] unfolding tw2 by metis
  have tw3: "dropWhile (\<lambda>x. \<not> (48 \<le> byte x \<and> byte x \<le> 57)) (remaining p2) = ?code @ CHR '' '' # ?reason @ ?tail"
    using cd(1,2) unfolding 2(3) by (cases ?code) (auto simp: is_digit_def byte_def)
  obtain o3 p3 where 3: "ConsumeUntil_mask p2 sDigitMask = Some (o3, p3)" "parser_ok p3 m"
      "remaining p3 = ?code @ CHR '' '' # ?reason @ ?tail" "fEndGet p3 = fEndGet p2"
    using ConsumeUntil_maskE [OF 2(2) sDigitMask_eq] unfolding tw3 by metis
  have tw4: "takeWhile is_digit (remaining p3) = ?code" "dropWhile is_digit (remaining p3) = CHR '' '' # ?reason @ ?tail"
    unfolding 3(3) using cd(2) by (intro takeWhile_stop dropWhile_stop; auto simp: is_digit_def byte_def)+
  obtain sc o4 p4 where 4: "ConsumeInteger p3 = Some (sc, o4, p4)" "parser_ok p4 m" "remaining p4 = CHR '' '' # ?reason @ ?tail"
      "fEndGet p4 = fEndGet p3" "unat sc = foldl (\<lambda>a c. a * 10 + (byte c - 48)) 0 ?code mod 2 ^ 32"
    using ConsumeIntegerE [OF 3(2)] unfolding tw4 by metis
  have sc: "sc \<noteq> 0" using 4(5) cd(3,4) by auto
  have tw5: "dropWhile (\<lambda>x. space_char (byte x)) (remaining p4) = ?reason @ ?tail"
    using rs unfolding 4(3) by (cases ?reason) (auto simp: space_not)
  obtain p5 where 5: "ConsumeWhitespace p4 = Some p5" "parser_ok p5 m" "remaining p5 = ?reason @ ?tail" "fEndGet p5 = fEndGet p4"
    using ConsumeWhitespaceE [OF 4(2)] unfolding tw5 by metis
  have tw6: "dropWhile (\<lambda>x. \<not> space_char (byte x)) (s @ ?tail) = dropWhile (\<lambda>c. c \<noteq> CHR '' '') s @ ?tail"
    if "\<forall>c \<in> set s. \<not> line_end c \<and> (space_char (byte c) \<longrightarrow> c = CHR '' '')" for s
    using that
  proof (induction s)
    case Nil
    then show ?case by (simp add: space_char_def byte_def)
  next
    case (Cons c s)
    have IH: "dropWhile (\<lambda>x. \<not> space_char (byte x)) (s @ ?tail) = dropWhile (\<lambda>c. c \<noteq> CHR '' '') s @ ?tail"
      by (rule Cons.IH) (use Cons.prems in simp)
    show ?case
    proof (cases "c = CHR '' ''")
      case True
      then show ?thesis by (simp add: space_not)
    next
      case False
      then have "\<not> space_char (byte c)" using Cons.prems by simp
      then show ?thesis using IH False by simp
    qed
  qed
  obtain o6 p6 where 6: "ConsumeUntil_mask p5 sEOLWhitespaceMask = Some (o6, p6)" "parser_ok p6 m"
      "remaining p6 = dropWhile (\<lambda>c. c \<noteq> CHR '' '') ?reason @ ?tail" "fEndGet p6 = fEndGet p5"
    using ConsumeUntil_maskE [OF 5(2) sEOLWhitespaceMask_eq] unfolding 5(3) tw6 [OF rs(3)] by metis
  have "parseRequestLine k p = expect_eol (k\<lparr>fMethod := httpIllegalMethod, fHTTPType := httpResponseType\<rparr>) p6"
    using 1(1) gm eq 2(1) 3(1) 4(1) sc 5(1) 6(1)
    by (simp add: parseRequestLine_def ConsumeWord_def ConsumeUntilWhitespace_def ConsumeUntilDigit_def)
  then show thesis using that 6 5(4) 4(4) 3(4) 2(4) 1(6) by simp
qed

text \<open>Of its own responses the parser reads those whose reason phrase is a single word: status
  line, headers and empty line are accepted and the fields are found again, but the status is not
  stored, it stays 200. A response with a longer reason, such as 404 Not Found, is rejected as a
  bad request, whatever its headers.\<close>

theorem Parse_response:
  assumes "st < 40" "v < 3" "\<forall>x \<in> set hs. header_ok x"
  shows "\<exists>k. Parse (packet_of sh (response_text st v hs)) =
      Some (if CHR '' '' \<in> set (sStatusCodeStrings ! st) then CF_BadArgument else CF_NoErr, k) \<and>
    fHTTPType k = httpResponseType \<and>
    fStatusCode k = (if CHR '' '' \<in> set (sStatusCodeStrings ! st) then httpBadRequest else httpOK) \<and>
    (CHR '' '' \<notin> set (sStatusCodeStrings ! st) \<longrightarrow>
       map str (fFieldValues k) = field_texts (replicate 51 []) hs \<and> fRequestKeepAlive k = keeps_alive False hs)"
proof -
  let ?t = "response_text st v hs" and ?reason = "sStatusCodeStrings ! st"
  let ?k = "packet_of sh ?t"
  let ?p = "StringParser_new (Some (fPacketHeader ?k))"
  have pk: "fPacketHeader ?k = \<lparr>Ptr = Some (cstring ?t), Len = length ?t\<rparr>"
    by (simp add: packet_of_def HTTPPacket_parse_def HTTPPacket_new_def)
  have "stream_ok (fPacketHeader ?k) (cstring ?t)" "str (fPacketHeader ?k) = ?t"
    unfolding pk by (simp_all add: stream_ok_def cstring_def str_def)
  note p = StringParser_new_ok(1,2) [OF this(1), unfolded this(2)]
  let ?hs = "concat (map header_line hs) @ crlf"
  have rem: "remaining ?p = status_line st v @ CHR 0x0D # CHR 0x0A # ?hs"
    unfolding p(2) by (simp add: response_text_def crlf_def)
  obtain line lp where line: "ConsumeUntil_mask ?p sEOLMask = Some (line, lp)"
    using ConsumeUntil_maskE [OF p(1) sEOLMask_eq] by metis
  define k1 where "k1 = ?k\<lparr>fRequestLine := line, fMethod := httpIllegalMethod, fHTTPType := httpResponseType\<rparr>"
  have k1: "fFieldValues k1 = replicate 51 StrPtrLen_null" "\<not> fRequestKeepAlive k1" "fStatusCode k1 = httpOK" "fHTTPType k1 = httpResponseType"
    by (simp_all add: k1_def packet_of_def HTTPPacket_parse_def HTTPPacket_new_def httpNumHeaders_def)
  obtain p6 where 6: "parseRequestLine (?k\<lparr>fRequestLine := line\<rparr>) ?p = expect_eol k1 p6" "parser_ok p6 (cstring ?t)"
    "remaining p6 = dropWhile (\<lambda>c. c \<noteq> CHR '' '') ?reason @ CHR 0x0D # CHR 0x0A # ?hs"
    unfolding k1_def by (rule parseRequestLine_response [OF p(1) rem assms(1,2)]) (simp, blast)
  have P: "Parse ?k = do { (err, pp, kk) \<leftarrow> request_line_loop (?k\<lparr>fRequestLine := line\<rparr>) ?p;
       if err \<noteq> CF_NoErr then Some (err, kk) else do { (err2, _, k2) \<leftarrow> parseHeaders kk pp; Some (err2, k2) } }"
    unfolding Parse_def using line by (simp add: pk)
  show ?thesis
  proof (cases "CHR '' '' \<in> set ?reason")
    case True
    then obtain r where r: "dropWhile (\<lambda>c. c \<noteq> CHR '' '') ?reason = CHR '' '' # r"
    proof -
      obtain ys zs where "?reason = ys @ CHR '' '' # zs" "CHR '' '' \<notin> set ys" using split_list_first [OF True] by blast
      then have "dropWhile (\<lambda>c. c \<noteq> CHR '' '') ?reason = CHR '' '' # zs" by (simp add: dropWhile_append2)
      then show thesis by (rule that)
    qed
    have e: "eol_len (CHR '' '' # r @ CHR 0x0D # CHR 0x0A # ?hs) = 0" by (cases r) auto
    obtain p7 where "ExpectEOL p6 = Some (False, p7)"
      using ExpectEOLE [OF 6(2)] unfolding 6(3) r append_Cons e by auto
    then have "parseRequestLine (?k\<lparr>fRequestLine := line\<rparr>) ?p = Some (CF_BadArgument, p7, k1\<lparr>fStatusCode := httpBadRequest\<rparr>)"
      by (simp add: 6(1) expect_eol_def)
    then show ?thesis unfolding P by (subst request_line_loop.simps) (simp add: True cf_error_defs k1(4))
  next
    case False
    then have r: "dropWhile (\<lambda>c. c \<noteq> CHR '' '') ?reason = []" by auto
    obtain p7 where 7: "ExpectEOL p6 = Some (True, p7)" "parser_ok p7 (cstring ?t)" "remaining p7 = ?hs @ []"
      using ExpectEOLE [OF 6(2)] unfolding 6(3) r append_Nil cr_lf by auto
    then have "parseRequestLine (?k\<lparr>fRequestLine := line\<rparr>) ?p = Some (CF_NoErr, p7, k1)"
      by (simp add: 6(1) expect_eol_def)
    then have l: "request_line_loop (?k\<lparr>fRequestLine := line\<rparr>) ?p = Some (CF_NoErr, p7, k1)"
      by (subst request_line_loop.simps) (simp add: k1(4) httpResponseType_def httpIllegalType_def)
    obtain p8 fv where H: "parseHeaders k1 p7 = Some (CF_NoErr, p8,
       k1\<lparr>fFieldValues := fv, fRequestKeepAlive := keeps_alive (fRequestKeepAlive k1) hs\<rparr>)"
      "map str fv = field_texts (map str (fFieldValues k1)) hs"
      using parseHeaders_ok [OF 7(2) _ assms(3), of "[]" k1] 7(3) k1(1) by auto
    moreover have "str StrPtrLen_null = []" by (simp add: str_def StrPtrLen_null_def)
    ultimately show ?thesis unfolding P l using False k1 by (simp add: cf_error_defs)
  qed
qed

theorem Parse_response_witness:
  "\<exists>k k'. Parse (packet_of (lit [])  (response_text httpOK http11Version [(httpContentLengthHeader, ''0'')])) = Some (CF_NoErr, k) \<and>
     Parse (packet_of (lit [])  (response_text httpNotFound http11Version [(httpContentLengthHeader, ''0'')])) = Some (CF_BadArgument, k')"
proof -
  have h: "\<forall>x \<in> set [(httpContentLengthHeader, ''0'')]. header_ok x"
    by (simp add: header_ok_def header_text_def ascii_def line_end_def byte_def httpContentLengthHeader_def httpConnectionHeader_def)
  show ?thesis
    using Parse_response [OF _ _ h, of httpOK http11Version "lit []"] Parse_response [OF _ _ h, of httpNotFound http11Version "lit []"]
    by (auto simp: httpOK_def httpNotFound_def http11Version_def sStatusCodeStrings_def)
qed

end
