(* ===== verification/CF_HTTPDispatcher.thy ===== *)
theory CF_HTTPDispatcher
  imports CF_Def CF_StrPtrLen
begin

text \<open>
  The URL dispatcher of \<^verbatim>\<open>src/CFHttp/HTTPDispatcher.cpp\<close> and its header. A handler is a
  function of request and response, here an opaque value that the dispatcher selects. The
  class hierarchy of path mappers is a datatype with the pattern each class stores; the C
  library's \<^verbatim>\<open>qsort\<close>, which leaves the order of equal elements open, is an
  argument of the constructor.
\<close>

section \<open>Mappers\<close>

record 'f HTTPMapping =
  path :: "mem option"
  func :: "'f option"

datatype 'f HTTPPathMapper =
  ExactPathMapper StrPtrLen 'f
| WildcardPathMapper StrPtrLen 'f
| ExtensionPathMapper StrPtrLen 'f
| DefaultPathMapper 'f

definition sAllSuffix :: StrPtrLen where "sAllSuffix = \<lparr>Ptr = Some (cstring ''/*''), Len = 2\<rparr>"
definition sTypePrefix :: StrPtrLen where "sTypePrefix = \<lparr>Ptr = Some (cstring ''*.''), Len = 2\<rparr>"
definition sRootPath :: StrPtrLen where "sRootPath = \<lparr>Ptr = Some (cstring ''/''), Len = 1\<rparr>"

text \<open>The copy a mapper's constructor makes of part of its path.\<close>

definition pattern_copy :: "mem \<Rightarrow> nat \<Rightarrow> nat \<Rightarrow> StrPtrLen option" where
  "pattern_copy p from len =
     (if from + len \<le> length p then Some \<lparr>Ptr = Some (take len (drop from p) @ [NUL]), Len = len\<rparr> else None)"

definition BuildPathMatcher :: "mem \<Rightarrow> 'f \<Rightarrow> 'f HTTPPathMapper option" where
  "BuildPathMatcher p f =
     do {
       len \<leftarrow> strlen p;
       wild \<leftarrow> (if len \<ge> 2 then Equal sAllSuffix \<lparr>Ptr = Some (drop (len - 2) p), Len = 2\<rparr> else Some False);
       if wild then do { pat \<leftarrow> pattern_copy p 0 (len - 2); Some (WildcardPathMapper pat f) }
       else do {
         ext \<leftarrow> (if len \<ge> 2 then Equal sTypePrefix \<lparr>Ptr = Some p, Len = 2\<rparr> else Some False);
         if ext then do { pat \<leftarrow> pattern_copy p 1 (len - 1); Some (ExtensionPathMapper pat f) }
         else do {
           root \<leftarrow> Equal_c sRootPath (Some p);
           if root then Some (DefaultPathMapper f)
           else do { pat \<leftarrow> pattern_copy p 0 len; Some (ExactPathMapper pat f) }
         }
       }
     }"

fun ItsType :: "'f HTTPPathMapper \<Rightarrow> nat" where
  "ItsType (ExactPathMapper _ _) = 0"
| "ItsType (WildcardPathMapper _ _) = 1"
| "ItsType (ExtensionPathMapper _ _) = 2"
| "ItsType (DefaultPathMapper _) = 4"

fun Match :: "'f HTTPPathMapper \<Rightarrow> StrPtrLen \<Rightarrow> bool option" where
  "Match (ExactPathMapper pattern _) p = Equal pattern p"
| "Match (WildcardPathMapper pattern _) p =
     (if Len p < Len pattern then Some False else Equal pattern \<lparr>Ptr = Ptr p, Len = Len pattern\<rparr>)"
| "Match (ExtensionPathMapper pattern _) p =
     (if Len p < Len pattern then Some False
      else Equal pattern \<lparr>Ptr = map_option (drop (Len p - Len pattern)) (Ptr p), Len = Len pattern\<rparr>)"
| "Match (DefaultPathMapper _) p = Some True"

fun fFunc :: "'f HTTPPathMapper \<Rightarrow> 'f" where
  "fFunc (ExactPathMapper _ f) = f"
| "fFunc (WildcardPathMapper _ f) = f"
| "fFunc (ExtensionPathMapper _ f) = f"
| "fFunc (DefaultPathMapper f) = f"

definition ComparePriority :: "'f HTTPPathMapper \<Rightarrow> 'f HTTPPathMapper \<Rightarrow> int" where
  "ComparePriority a b = int (ItsType a) - int (ItsType b)"

section \<open>The dispatcher\<close>

text \<open>The table ends with an entry without path or function; running past it is \<open>None\<close>.\<close>

fun build_mappers :: "'f HTTPMapping list \<Rightarrow> 'f HTTPPathMapper list option" where
  "build_mappers [] = None"
| "build_mappers (m # ms) =
     (case (path m, func m) of
        (Some p, Some f) \<Rightarrow> do { x \<leftarrow> BuildPathMatcher p f; xs \<leftarrow> build_mappers ms; Some (x # xs) }
      | _ \<Rightarrow> Some [])"

definition HTTPDispatcher_new ::
  "(('f HTTPPathMapper \<Rightarrow> 'f HTTPPathMapper \<Rightarrow> int) \<Rightarrow> 'f HTTPPathMapper list \<Rightarrow> 'f HTTPPathMapper list) \<Rightarrow>
   'f HTTPMapping list \<Rightarrow> 'f HTTPPathMapper list option" where
  "HTTPDispatcher_new qsort mapping = map_option (qsort ComparePriority) (build_mappers mapping)"

text \<open>The result of \<^verbatim>\<open>Dispatch\<close>: the handler that is called, or the error.\<close>

fun Dispatch :: "'f HTTPPathMapper list \<Rightarrow> StrPtrLen \<Rightarrow> ('f + int) option" where
  "Dispatch [] requestPath = Some (Inr CF_FileNotFound)"
| "Dispatch (m # ms) requestPath =
     do { b \<leftarrow> Match m requestPath; if b then Some (Inl (fFunc m)) else Dispatch ms requestPath }"

section \<open>Specification\<close>

text \<open>What a path of the table means: its priority and the request paths it covers.\<close>

definition route_type :: "string \<Rightarrow> nat" where
  "route_type p =
     (if 2 \<le> length p \<and> drop (length p - 2) p = ''/*'' then 1
      else if 2 \<le> length p \<and> take 2 p = ''*.'' then 2
      else if p = ''/'' then 4 else 0)"

definition covers :: "string \<Rightarrow> string \<Rightarrow> bool" where
  "covers p t =
     (if route_type p = 1 then take (length p - 2) t = take (length p - 2) p \<and> length p - 2 \<le> length t
      else if route_type p = 2 then length p - 1 \<le> length t \<and> drop (length t - (length p - 1)) t = drop 1 p
      else route_type p = 4 \<or> t = p)"

definition table :: "(string \<times> 'f) list \<Rightarrow> 'f HTTPMapping list" where
  "table rs = map (\<lambda>(p, f). \<lparr>path = Some (cstring p), func = Some f\<rparr>) rs @ [\<lparr>path = None, func = None\<rparr>]"

definition mapper_for :: "string \<Rightarrow> 'f \<Rightarrow> 'f HTTPPathMapper \<Rightarrow> bool" where
  "mapper_for p f m \<longleftrightarrow> ItsType m = route_type p \<and> fFunc m = f \<and>
     (\<forall>t. valid t \<and> Ptr t \<noteq> None \<longrightarrow> Match m t = Some (covers p (str t)))"

lemma Equal_lit:
  assumes "valid t" "Ptr t \<noteq> None" "n = length s"
  shows "Equal \<lparr>Ptr = Some (s @ r), Len = n\<rparr> t = Some (str t = s)"
proof -
  have "valid \<lparr>Ptr = Some (s @ r), Len = n\<rparr>" "str \<lparr>Ptr = Some (s @ r), Len = n\<rparr> = s"
    using assms(3) by (simp_all add: valid_def str_def)
  with Equal_valid [of "\<lparr>Ptr = Some (s @ r), Len = n\<rparr>" t] assms show ?thesis by auto
qed

lemma Match_wildcard:
  assumes "valid t" "Ptr t \<noteq> None" "n = length s"
  shows "Match (WildcardPathMapper \<lparr>Ptr = Some (s @ r), Len = n\<rparr> f) t = Some (n \<le> length (str t) \<and> take n (str t) = s)"
proof (cases "Len t < n")
  case False
  obtain m where m: "Ptr t = Some m" using assms by auto
  have "valid \<lparr>Ptr = Ptr t, Len = n\<rparr>" "str \<lparr>Ptr = Ptr t, Len = n\<rparr> = take n (str t)"
    using False assms(1) by (auto simp: valid_def str_def m min_def)
  with Equal_lit [of "\<lparr>Ptr = Ptr t, Len = n\<rparr>" n s r] assms False show ?thesis by simp
qed (use assms in simp)

lemma Match_extension:
  assumes "valid t" "Ptr t \<noteq> None" "n = length s"
  shows "Match (ExtensionPathMapper \<lparr>Ptr = Some (s @ r), Len = n\<rparr> f) t =
    Some (n \<le> length (str t) \<and> drop (length (str t) - n) (str t) = s)"
proof (cases "Len t < n")
  case False
  obtain m where m: "Ptr t = Some m" using assms by auto
  let ?o = "\<lparr>Ptr = map_option (drop (Len t - n)) (Ptr t), Len = n\<rparr>"
  have "valid ?o" "str ?o = drop (length (str t) - n) (str t)"
    using False assms(1) by (auto simp: valid_def str_def m drop_take min_def)
  with Equal_lit [of ?o n s r] assms False show ?thesis by simp
qed (use assms in simp)

lemma BuildPathMatcher_ok:
  assumes "NUL \<notin> set p"
  shows "\<exists>m. BuildPathMatcher (cstring p) f = Some m \<and> mapper_for p f m"
proof -
  let ?n = "length p"
  have two: "?n \<ge> 2 \<Longrightarrow> Equal sAllSuffix \<lparr>Ptr = Some (drop (?n - 2) (cstring p)), Len = 2\<rparr> = Some (drop (?n - 2) p = ''/*'')"
    "?n \<ge> 2 \<Longrightarrow> Equal sTypePrefix \<lparr>Ptr = Some (cstring p), Len = 2\<rparr> = Some (take 2 p = ''*.'')"
    unfolding sAllSuffix_def sTypePrefix_def cstring_def
    by (subst Equal_lit; force simp: valid_def str_def)+
  have root: "Equal_c sRootPath (Some (cstring p)) = Some (p = ''/'')"
    using assms by (auto simp: Equal_c_def sRootPath_def memcmp_eq_def cstring_def strlen_def take_Cons')
  have len: "strlen (cstring p) = Some ?n" using assms by simp
  have pat: "pattern_copy (cstring p) k j = Some \<lparr>Ptr = Some (take j (drop k p) @ [NUL]), Len = j\<rparr>" if "k + j \<le> ?n" for k j
    using that by (simp add: pattern_copy_def cstring_def)
  consider (wild) "2 \<le> ?n" "drop (?n - 2) p = ''/*''" | (ext) "2 \<le> ?n" "drop (?n - 2) p \<noteq> ''/*''" "take 2 p = ''*.''"
    | (root) "p = ''/''"
    | (exact) "\<not> (2 \<le> ?n \<and> drop (?n - 2) p = ''/*'')" "\<not> (2 \<le> ?n \<and> take 2 p = ''*.'')" "p \<noteq> ''/''" by blast
  then show ?thesis
  proof cases
    case wild
    let ?m = "WildcardPathMapper \<lparr>Ptr = Some (take (?n - 2) p @ [NUL]), Len = ?n - 2\<rparr> f"
    have "BuildPathMatcher (cstring p) f = Some ?m"
      using wild two pat [of 0 "?n - 2"] by (simp add: BuildPathMatcher_def len)
    moreover have "mapper_for p f ?m"
      using wild Match_wildcard [of _ "?n - 2" "take (?n - 2) p" "[NUL]" f] by (auto simp: mapper_for_def covers_def route_type_def)
    ultimately show ?thesis by blast
  next
    case ext
    let ?m = "ExtensionPathMapper \<lparr>Ptr = Some (take (?n - 1) (drop 1 p) @ [NUL]), Len = ?n - 1\<rparr> f"
    have "BuildPathMatcher (cstring p) f = Some ?m"
      using ext two pat [of 1 "?n - 1"] by (simp add: BuildPathMatcher_def len)
    moreover have "mapper_for p f ?m"
      using ext Match_extension [of _ "?n - 1" "drop 1 p" "[NUL]" f] by (auto simp: mapper_for_def covers_def route_type_def)
    ultimately show ?thesis by blast
  next
    case r: root
    have "BuildPathMatcher (cstring p) f = Some (DefaultPathMapper f)"
      using r root len by (simp add: BuildPathMatcher_def)
    moreover have "mapper_for p f (DefaultPathMapper f)" using r by (simp add: mapper_for_def covers_def route_type_def)
    ultimately show ?thesis by blast
  next
    case exact
    let ?m = "ExactPathMapper \<lparr>Ptr = Some (p @ [NUL]), Len = ?n\<rparr> f"
    have 1: "(if ?n \<ge> 2 then Equal sAllSuffix \<lparr>Ptr = Some (drop (?n - 2) (cstring p)), Len = 2\<rparr> else Some False) = Some False"
      "(if ?n \<ge> 2 then Equal sTypePrefix \<lparr>Ptr = Some (cstring p), Len = 2\<rparr> else Some False) = Some False"
      using exact two by auto
    have "BuildPathMatcher (cstring p) f = Some ?m"
      unfolding BuildPathMatcher_def len bind.bind_lunit 1 root using exact(3) pat [of 0 ?n] by simp
    moreover have "mapper_for p f ?m"
      using exact Equal_lit [of _ ?n p "[NUL]"] by (auto simp: mapper_for_def covers_def route_type_def)
    ultimately show ?thesis by blast
  qed
qed

lemma build_mappers_ok:
  assumes "\<forall>(p, f) \<in> set rs. NUL \<notin> set p"
  shows "\<exists>ms. build_mappers (table rs) = Some ms \<and> list_all2 (\<lambda>(p, f) m. mapper_for p f m) rs ms"
  using assms
proof (induction rs)
  case (Cons r rs)
  obtain p f where r: "r = (p, f)" by (cases r)
  obtain m where "BuildPathMatcher (cstring p) f = Some m" "mapper_for p f m"
    using BuildPathMatcher_ok [of p f] Cons.prems r by auto
  moreover obtain ms where "build_mappers (table rs) = Some ms" "list_all2 (\<lambda>(p, f) m. mapper_for p f m) rs ms"
    using Cons by auto
  ultimately show ?case by (simp add: table_def r)
qed (simp add: table_def)

text \<open>Dispatch along any list of mappers that all answer.\<close>

lemma Dispatch_first:
  assumes "\<forall>m \<in> set ms. \<exists>b. Match m t = Some b"
  shows "Dispatch ms t = Some (case filter (\<lambda>m. Match m t = Some True) ms of [] \<Rightarrow> Inr CF_FileNotFound | m # _ \<Rightarrow> Inl (fFunc m))"
  using assms by (induction ms) (auto split: if_splits)

section \<open>Properties\<close>

definition sorts :: "(('a \<Rightarrow> 'a \<Rightarrow> int) \<Rightarrow> 'a list \<Rightarrow> 'a list) \<Rightarrow> bool" where
  "sorts qsort \<longleftrightarrow> (\<forall>cmp xs. mset (qsort cmp xs) = mset xs \<and>
     ((\<exists>key :: 'a \<Rightarrow> nat. \<forall>a b. cmp a b = int (key a) - int (key b)) \<longrightarrow>
       sorted_wrt (\<lambda>a b. cmp a b \<le> 0) (qsort cmp xs)))"

text \<open>C29: A dispatcher built from a table of routes calls the handler of a route that covers the
  request path and whose kind has the highest priority among all that do (exact path, then
  prefix wildcard, then extension, then the default route), and reports
  \<^verbatim>\<open>CF_FileNotFound\<close> exactly if no route covers the path, whichever order
  \<^verbatim>\<open>qsort\<close> gives to routes of the same kind.\<close>

theorem Dispatch_spec:
  assumes "sorts qsort" "\<forall>(p, f) \<in> set rs. NUL \<notin> set p" "valid t" "Ptr t \<noteq> None"
  shows "\<exists>d r. HTTPDispatcher_new qsort (table rs) = Some d \<and> Dispatch d t = Some r \<and>
    (case r of
       Inl g \<Rightarrow> \<exists>p. (p, g) \<in> set rs \<and> covers p (str t) \<and>
                  (\<forall>(p', g') \<in> set rs. covers p' (str t) \<longrightarrow> route_type p \<le> route_type p')
     | Inr e \<Rightarrow> e = CF_FileNotFound \<and> (\<forall>(p, g) \<in> set rs. \<not> covers p (str t)))"
proof -
  obtain ms where ms: "build_mappers (table rs) = Some ms" "list_all2 (\<lambda>(p, f) m. mapper_for p f m) rs ms"
    using build_mappers_ok [OF assms(2)] by blast
  define d where "d = qsort ComparePriority ms"
  have dn: "HTTPDispatcher_new qsort (table rs) = Some d" by (simp add: HTTPDispatcher_new_def ms d_def)
  have "\<exists>key :: 'a HTTPPathMapper \<Rightarrow> nat. \<forall>a b. ComparePriority a b = int (key a) - int (key b)"
    by (intro exI [of _ ItsType]) (simp add: ComparePriority_def)
  then have "mset d = mset ms" "sorted_wrt (\<lambda>a b. ComparePriority a b \<le> 0) d"
    using assms(1) unfolding sorts_def d_def by blast+
  then have d: "set d = set ms" "sorted_wrt (\<lambda>a b. ItsType a \<le> ItsType b) d"
    by (auto simp: ComparePriority_def dest: mset_eq_setD)
  have m1: "\<exists>p f. (p, f) \<in> set rs \<and> mapper_for p f m" if "m \<in> set d" for m
    using that ms(2) unfolding d(1) by (fastforce simp: list_all2_conv_all_nth in_set_conv_nth)
  have m2: "\<exists>m \<in> set d. mapper_for p f m" if "(p, f) \<in> set rs" for p f
    using that ms(2) unfolding d(1) by (fastforce simp: list_all2_conv_all_nth in_set_conv_nth)
  have mt: "Match m t = Some (covers p (str t))" if "mapper_for p f m" for m p f
    using that assms(3,4) by (simp add: mapper_for_def)
  let ?F = "filter (\<lambda>m. Match m t = Some True) d"
  have D: "Dispatch d t = Some (case ?F of [] \<Rightarrow> Inr CF_FileNotFound | m # _ \<Rightarrow> Inl (fFunc m))"
  proof (rule Dispatch_first, rule ballI)
    fix m assume "m \<in> set d"
    then obtain p f where "mapper_for p f m" using m1 by blast
    from mt [OF this] show "\<exists>b. Match m t = Some b" by simp
  qed
  show ?thesis
  proof (cases ?F)
    case Nil
    have "\<not> covers p (str t)" if pg: "(p, g) \<in> set rs" for p g
    proof -
      obtain m where "m \<in> set d" and m: "mapper_for p g m" using m2 [OF pg] by blast
      then have "Match m t \<noteq> Some True" using Nil by (simp add: filter_empty_conv)
      then show ?thesis using mt [OF m] by simp
    qed
    then show ?thesis using dn D Nil by auto
  next
    case (Cons m F)
    have F: "x \<in> set (m # F) \<longleftrightarrow> x \<in> set d \<and> Match x t = Some True" for x using Cons [symmetric] by auto
    from F [of m] have m: "m \<in> set d" "Match m t = Some True" by simp_all
    obtain p f where p: "(p, f) \<in> set rs" "mapper_for p f m" using m1 [OF m(1)] by blast
    have sF: "sorted_wrt (\<lambda>a b. ItsType a \<le> ItsType b) (m # F)" using sorted_wrt_filter [OF d(2)] Cons by metis
    have "route_type p \<le> route_type p'" if pg: "(p', g') \<in> set rs" "covers p' (str t)" for p' g'
    proof -
      obtain m' where m': "m' \<in> set d" "mapper_for p' g' m'" using m2 [OF pg(1)] by blast
      then have "m' \<in> set (m # F)" using mt [OF m'(2)] pg(2) F by simp
      then have "ItsType m \<le> ItsType m'" using sF by auto
      then show ?thesis using p(2) m'(2) by (simp add: mapper_for_def)
    qed
    moreover have "covers p (str t)" using mt [OF p(2)] m(2) by simp
    moreover have "Dispatch d t = Some (Inl f)" using D Cons p(2) by (simp add: mapper_for_def)
    ultimately show ?thesis using dn p(1) by auto
  qed
qed

text \<open>A sorting function, to show that the hypothesis on \<^verbatim>\<open>qsort\<close> can hold.\<close>

fun insert_by :: "('a \<Rightarrow> 'a \<Rightarrow> int) \<Rightarrow> 'a \<Rightarrow> 'a list \<Rightarrow> 'a list" where
  "insert_by cmp x [] = [x]"
| "insert_by cmp x (y # ys) = (if cmp x y \<le> 0 then x # y # ys else y # insert_by cmp x ys)"

definition insertion_sort :: "('a \<Rightarrow> 'a \<Rightarrow> int) \<Rightarrow> 'a list \<Rightarrow> 'a list" where
  "insertion_sort cmp xs = foldr (insert_by cmp) xs []"

lemma mset_insert_by [simp]: "mset (insert_by cmp x ys) = add_mset x (mset ys)"
  by (induction ys) auto

lemma set_insert_by [simp]: "set (insert_by cmp x ys) = insert x (set ys)"
  by (induction ys) auto

lemma insertion_sort_sorts: "sorts insertion_sort"
proof -
  have "mset (foldr (insert_by cmp) xs []) = mset xs" for cmp and xs :: "'a list"
    by (induction xs) auto
  moreover have "sorted_wrt (\<lambda>a b. cmp a b \<le> 0) (insert_by cmp x ys)"
    if "\<forall>a b. cmp a b = int (key a) - int (key b)" "sorted_wrt (\<lambda>a b. cmp a b \<le> 0) ys"
    for cmp and x :: 'a and ys and key :: "'a \<Rightarrow> nat"
    using that(2) by (induction ys) (auto simp: that(1))
  then have "sorted_wrt (\<lambda>a b. cmp a b \<le> 0) (foldr (insert_by cmp) xs [])"
    if "\<forall>a b. cmp a b = int (key a) - int (key b)" for cmp and xs :: "'a list" and key :: "'a \<Rightarrow> nat"
    using that by (induction xs) auto
  ultimately show ?thesis unfolding sorts_def insertion_sort_def by blast
qed

definition ex_routes :: "(string \<times> nat) list" where
  "ex_routes = [(''/'', 1), (''/api/*'', 2), (''*.html'', 3), (''/api/v1'', 4)]"

definition ex_path :: StrPtrLen where
  "ex_path = \<lparr>Ptr = Some (cstring ''/api/x.html''), Len = 11\<rparr>"

theorem Dispatch_spec_witness:
  "\<exists>d. HTTPDispatcher_new insertion_sort (table ex_routes) = Some d \<and> Dispatch d ex_path = Some (Inl 2)"
proof -
  have 1: "\<forall>(p, f) \<in> set ex_routes. NUL \<notin> set p" by (simp add: ex_routes_def)
  have 2: "valid ex_path" "Ptr ex_path \<noteq> None" "str ex_path = ''/api/x.html''"
    by (simp_all add: ex_path_def valid_def str_def cstring_def)
  have 3: "covers ''/api/*'' ''/api/x.html''" "route_type ''/api/*'' = 1" "route_type ''/'' = 4" "route_type ''*.html'' = 2"
    "\<not> covers ''/api/v1'' ''/api/x.html''" by (simp_all add: covers_def route_type_def)
  obtain d r where d: "HTTPDispatcher_new insertion_sort (table ex_routes) = Some d" "Dispatch d ex_path = Some r"
    "case r of Inl g \<Rightarrow> \<exists>p. (p, g) \<in> set ex_routes \<and> covers p (str ex_path) \<and>
         (\<forall>(p', g') \<in> set ex_routes. covers p' (str ex_path) \<longrightarrow> route_type p \<le> route_type p')
     | Inr e \<Rightarrow> e = CF_FileNotFound \<and> (\<forall>(p, g) \<in> set ex_routes. \<not> covers p (str ex_path))"
    using Dispatch_spec [OF insertion_sort_sorts 1 2(1,2)] by blast
  have "r = Inl 2"
    using d(3) 3 unfolding 2(3) ex_routes_def by (cases r) auto
  with d show ?thesis by blast
qed

end
