(* ===== verification/CF_Socket.thy ===== *)
theory CF_Socket
  imports CF_Def
begin

text \<open>
  The data path of a socket: \<^verbatim>\<open>Send\<close>, \<^verbatim>\<open>WriteV\<close> and \<^verbatim>\<open>Read\<close> of
  \<^verbatim>\<open>src/CFSocket/Socket.cpp\<close>. The operating system is the environment: a script holds
  the outcomes of the coming calls in order, and the socket remembers what the system has
  accepted so far. The system behaves as documented: it accepts a prefix of what it is offered and
  delivers at most as much as is asked for. Behind the end of a script the socket is
  flow-controlled. \<^verbatim>\<open>Open\<close>, \<^verbatim>\<open>Bind\<close> and the socket options only call the
  system and are not modelled.
\<close>

unbundle bit_operations_syntax

section \<open>State\<close>

definition kNonBlockingSocketType :: UInt32 where "kNonBlockingSocketType = 1"
definition kBound :: UInt32 where "kBound = 4"
definition kConnected :: UInt32 where "kConnected = 8"

text \<open>Values of \<^verbatim>\<open>errno\<close> on Linux.\<close>

definition EINTR :: int where "EINTR = 4"
definition ENOTCONN :: int where "ENOTCONN = 107"

datatype os_send = Accepted nat | SendFails int

datatype os_recv = Arrived string | RecvFails int

record TCPSocket =
  sState :: UInt32
  sSends :: "os_send list"
  sRecvs :: "os_recv list"
  sWire :: string

definition IsConnected :: "TCPSocket \<Rightarrow> bool" where
  "IsConnected s \<longleftrightarrow> sState s AND kConnected \<noteq> 0"

section \<open>Operations\<close>

text \<open>The system calls, repeated while a signal interrupts them.\<close>

fun os_send_call :: "os_send list \<Rightarrow> string \<Rightarrow> (int + string) \<times> os_send list" where
  "os_send_call [] inData = (Inl EAGAIN, [])"
| "os_send_call (SendFails e # r) inData = (if e = EINTR then os_send_call r inData else (Inl e, r))"
| "os_send_call (Accepted n # r) inData = (Inr (take n inData), r)"

fun os_recv_call :: "os_recv list \<Rightarrow> nat \<Rightarrow> (int + string) \<times> os_recv list" where
  "os_recv_call [] len = (Inl EAGAIN, [])"
| "os_recv_call (RecvFails e # r) len = (if e = EINTR then os_recv_call r len else (Inl e, r))"
| "os_recv_call (Arrived d # r) len = (Inr (take len d), if length d \<le> len then r else Arrived (drop len d) # r)"

definition failed :: "int \<Rightarrow> TCPSocket \<Rightarrow> TCPSocket" where
  "failed theErr s = (if theErr \<noteq> EAGAIN \<and> IsConnected s then s\<lparr>sState := sState s XOR kConnected\<rparr> else s)"

text \<open>
  The second component of a result is the out parameter: the number of bytes sent or the
  bytes read, \<^term>\<open>None\<close> where the code does not assign it.
\<close>

definition Send :: "TCPSocket \<Rightarrow> string \<Rightarrow> int \<times> nat option \<times> TCPSocket" where
  "Send s inData =
     (if \<not> IsConnected s then (ENOTCONN, None, s)
      else case os_send_call (sSends s) inData of
        (Inl e, r) \<Rightarrow> (e, None, failed e (s\<lparr>sSends := r\<rparr>))
      | (Inr d, r) \<Rightarrow> (CF_NoErr, Some (length d), s\<lparr>sSends := r, sWire := sWire s @ d\<rparr>))"

definition WriteV :: "TCPSocket \<Rightarrow> string list \<Rightarrow> int \<times> nat option \<times> TCPSocket" where
  "WriteV s iov =
     (if \<not> IsConnected s then (ENOTCONN, None, s)
      else case os_send_call (sSends s) (concat iov) of
        (Inl e, r) \<Rightarrow> (e, None, failed e (s\<lparr>sSends := r\<rparr>))
      | (Inr d, r) \<Rightarrow> (CF_NoErr, Some (length d), s\<lparr>sSends := r, sWire := sWire s @ d\<rparr>))"

definition Read :: "TCPSocket \<Rightarrow> nat \<Rightarrow> int \<times> string option \<times> TCPSocket" where
  "Read s len =
     (if \<not> IsConnected s then (ENOTCONN, None, s)
      else case os_recv_call (sRecvs s) len of
        (Inl e, r) \<Rightarrow> (e, None, failed e (s\<lparr>sRecvs := r\<rparr>))
      | (Inr d, r) \<Rightarrow>
          if d = [] then (ENOTCONN, None, s\<lparr>sRecvs := r, sState := sState s XOR kConnected\<rparr>)
          else (CF_NoErr, Some d, s\<lparr>sRecvs := r\<rparr>))"

section \<open>What callers rely on\<close>

lemma os_send_prefix: "os_send_call r d = (Inr t, r') \<Longrightarrow> \<exists>n. t = take n d"
  by (induction r d rule: os_send_call.induct) (auto split: if_splits)

lemma failed_simps [simp]:
  "sWire (failed e s) = sWire s" "sSends (failed e s) = sSends s" "sRecvs (failed e s) = sRecvs s"
  by (simp_all add: failed_def)

lemma connected_bit: "IsConnected s \<longleftrightarrow> bit (sState s) 3"
  unfolding IsConnected_def kConnected_def
  using and_exp_eq_0_iff_not_bit [of "sState s" 3] by simp

lemma disconnect [simp]: "IsConnected s \<Longrightarrow> \<not> IsConnected (s\<lparr>sState := sState s XOR kConnected\<rparr>)"
proof -
  have "bit (8 :: UInt32) 3" by simp
  then show "IsConnected s \<Longrightarrow> ?thesis" unfolding connected_bit by (simp add: bit_xor_iff kConnected_def)
qed

lemma IsConnected_cong [simp]:
  "IsConnected (s\<lparr>sSends := a\<rparr>) = IsConnected s" "IsConnected (s\<lparr>sRecvs := b\<rparr>) = IsConnected s"
  "IsConnected (s\<lparr>sWire := w\<rparr>) = IsConnected s"
  by (simp_all add: IsConnected_def)

text \<open>
  Sending: the wire grows by the prefix that is reported as sent, and an error sends nothing.
\<close>

lemma SendE:
  obtains n s' where "Send s d = (CF_NoErr, Some n, s')" "n \<le> length d" "sWire s' = sWire s @ take n d" "sRecvs s' = sRecvs s"
      "IsConnected s"
  | e s' where "Send s d = (e, None, s')" "sWire s' = sWire s" "sRecvs s' = sRecvs s"
proof (cases "IsConnected s")
  case False
  then show thesis using that(2) [of ENOTCONN s] by (simp add: Send_def)
next
  case True
  show thesis
  proof (cases "fst (os_send_call (sSends s) d)")
    case (Inl e)
    then obtain r where "os_send_call (sSends s) d = (Inl e, r)" by (cases "os_send_call (sSends s) d") auto
    then show thesis using that(2) [of e "failed e (s\<lparr>sSends := r\<rparr>)"] True by (simp add: Send_def)
  next
    case (Inr t)
    then obtain r where r: "os_send_call (sSends s) d = (Inr t, r)" by (cases "os_send_call (sSends s) d") auto
    then obtain n where "t = take n d" using os_send_prefix by blast
    then show thesis using that(1) [of "length t"] r True by (simp add: Send_def min_def)
  qed
qed

lemma WriteV_Send: "WriteV s iov = Send s (concat iov)"
  by (simp add: WriteV_def Send_def)

text \<open>
  Receiving: what is delivered is the next part of what arrives; errors are positive numbers, and
  the socket is disconnected after every error but \<^verbatim>\<open>EAGAIN\<close>. An arrival of nothing is the
  end of the connection.
\<close>

fun arrivals :: "os_recv list \<Rightarrow> string" where
  "arrivals [] = []"
| "arrivals (Arrived d # r) = d @ arrivals r"
| "arrivals (RecvFails e # r) = arrivals r"

definition recv_ok :: "TCPSocket \<Rightarrow> bool" where
  "recv_ok k \<longleftrightarrow> (\<forall>e. RecvFails e \<in> set (sRecvs k) \<longrightarrow> 0 < e \<and> e \<noteq> E2BIG)"

lemma os_recv_ok:
  assumes "os_recv_call r n = (x, r')"
  shows "set r' \<subseteq> set r \<union> {Arrived d | d. True} \<and>
    (case x of Inl e \<Rightarrow> arrivals r' = arrivals r \<and> (e = EAGAIN \<or> RecvFails e \<in> set r)
     | Inr d \<Rightarrow> length d \<le> n \<and> arrivals r = d @ arrivals r')"
  using assms
proof (induction r n rule: os_recv_call.induct)
  case (2 e r len)
  then show ?case by (cases "e = EINTR") (auto split: sum.splits)
qed (auto split: if_splits)

lemma ReadE:
  assumes "recv_ok k"
  obtains k' where "Read k n = (EAGAIN, None, k')" "recv_ok k'" "arrivals (sRecvs k') = arrivals (sRecvs k)" "sWire k' = sWire k"
      "sSends k' = sSends k"
  | e k' where "Read k n = (e, None, k')" "0 < e" "e \<noteq> EAGAIN" "e \<noteq> E2BIG" "\<not> IsConnected k'" "recv_ok k'"
      "arrivals (sRecvs k') = arrivals (sRecvs k)" "sWire k' = sWire k" "sSends k' = sSends k"
  | d k' where "Read k n = (CF_NoErr, Some d, k')" "d \<noteq> []" "length d \<le> n" "arrivals (sRecvs k) = d @ arrivals (sRecvs k')"
      "recv_ok k'" "sWire k' = sWire k" "sSends k' = sSends k" "IsConnected k'" "sState k' = sState k"
proof (cases "IsConnected k")
  case False
  then show thesis using that(2) [of ENOTCONN k] assms by (simp add: Read_def ENOTCONN_def EAGAIN_def E2BIG_def)
next
  case True
  obtain x r where x: "os_recv_call (sRecvs k) n = (x, r)" by fastforce
  note ok = os_recv_ok [OF x]
  have r: "recv_ok (k\<lparr>sRecvs := r\<rparr>)" using assms ok by (auto simp: recv_ok_def)
  then have r': "recv_ok (k\<lparr>sRecvs := r, sState := st\<rparr>)" for st by (simp add: recv_ok_def)
  show thesis
  proof (cases x)
    case (Inl e)
    show thesis
    proof (cases "e = EAGAIN")
      case True
      then show thesis using that(1) [of "k\<lparr>sRecvs := r\<rparr>"] x Inl ok r \<open>IsConnected k\<close> by (simp add: Read_def failed_def)
    next
      case False
      then have "0 < e" "e \<noteq> E2BIG" using ok Inl assms by (auto simp: recv_ok_def)
      moreover have "\<not> IsConnected (k\<lparr>sRecvs := r, sState := sState k XOR kConnected\<rparr>)"
        using disconnect [of "k\<lparr>sRecvs := r\<rparr>"] True by simp
      ultimately show thesis using that(2) [of e "k\<lparr>sRecvs := r, sState := sState k XOR kConnected\<rparr>"] x Inl ok r' False True
        by (simp add: Read_def failed_def)
    qed
  next
    case (Inr d)
    show thesis
    proof (cases "d = []")
      case d: True
      have "\<not> IsConnected (k\<lparr>sRecvs := r, sState := sState k XOR kConnected\<rparr>)"
        using disconnect [of "k\<lparr>sRecvs := r\<rparr>"] True by simp
      then show thesis
        using that(2) [of ENOTCONN "k\<lparr>sRecvs := r, sState := sState k XOR kConnected\<rparr>"] x Inr ok r' d True
        by (simp add: Read_def ENOTCONN_def EAGAIN_def E2BIG_def)
    next
      case False
      then show thesis using that(3) [of d "k\<lparr>sRecvs := r\<rparr>"] x Inr ok r True by (simp add: Read_def)
    qed
  qed
qed

end
