(* ===== verification/CF_Base64.thy ===== *)
theory CF_Base64
  imports CF_Prelude
begin

text \<open>
  The base64 codec of \<^verbatim>\<open>src/CFBasic/base64.c\<close>, on the memory blocks of theory
  \<^verbatim>\<open>CF_Prelude\<close>: a pointer that moves is an index, and \<^term>\<open>None\<close> is a read or write
  outside a block. Characters are shifted and masked in a way that does not depend on their
  sign, so they are bytes here. Lengths are those of blocks below two gigabytes.
\<close>

unbundle bit_operations_syntax

section \<open>Tables\<close>

definition pr2six :: "nat list" where
  "pr2six =
    [64, 64, 64, 64, 64, 64, 64, 64, 64, 64, 64, 64, 64, 64, 64, 64,
     64, 64, 64, 64, 64, 64, 64, 64, 64, 64, 64, 64, 64, 64, 64, 64,
     64, 64, 64, 64, 64, 64, 64, 64, 64, 64, 64, 62, 64, 64, 64, 63,
     52, 53, 54, 55, 56, 57, 58, 59, 60, 61, 64, 64, 64, 64, 64, 64,
     64, 0, 1, 2, 3, 4, 5, 6, 7, 8, 9, 10, 11, 12, 13, 14,
     15, 16, 17, 18, 19, 20, 21, 22, 23, 24, 25, 64, 64, 64, 64, 64,
     64, 26, 27, 28, 29, 30, 31, 32, 33, 34, 35, 36, 37, 38, 39, 40,
     41, 42, 43, 44, 45, 46, 47, 48, 49, 50, 51, 64, 64, 64, 64, 64,
     64, 64, 64, 64, 64, 64, 64, 64, 64, 64, 64, 64, 64, 64, 64, 64,
     64, 64, 64, 64, 64, 64, 64, 64, 64, 64, 64, 64, 64, 64, 64, 64,
     64, 64, 64, 64, 64, 64, 64, 64, 64, 64, 64, 64, 64, 64, 64, 64,
     64, 64, 64, 64, 64, 64, 64, 64, 64, 64, 64, 64, 64, 64, 64, 64,
     64, 64, 64, 64, 64, 64, 64, 64, 64, 64, 64, 64, 64, 64, 64, 64,
     64, 64, 64, 64, 64, 64, 64, 64, 64, 64, 64, 64, 64, 64, 64, 64,
     64, 64, 64, 64, 64, 64, 64, 64, 64, 64, 64, 64, 64, 64, 64, 64,
     64, 64, 64, 64, 64, 64, 64, 64, 64, 64, 64, 64, 64, 64, 64, 64]"

definition basis_64 :: string where
  "basis_64 = ''ABCDEFGHIJKLMNOPQRSTUVWXYZabcdefghijklmnopqrstuvwxyz0123456789+/''"

definition six :: "char \<Rightarrow> nat" where
  "six c = pr2six ! byte c"

section \<open>Decoding\<close>

text \<open>The scan over the characters of the alphabet.\<close>

definition scan_six :: "mem \<Rightarrow> nat option" where
  "scan_six bufcoded =
     (if \<exists>c \<in> set bufcoded. \<not> six c \<le> 63 then Some (length (takeWhile (\<lambda>c. six c \<le> 63) bufcoded)) else None)"

definition Base64decode_len :: "mem \<Rightarrow> nat option" where
  "Base64decode_len bufcoded = do { nprbytes \<leftarrow> scan_six bufcoded; Some ((nprbytes + 3) div 4 * 3 + 1) }"

definition byte_1 :: "char \<Rightarrow> char \<Rightarrow> char" where
  "byte_1 a b = char_of (push_bit 2 (six a) OR drop_bit 4 (six b))"

definition byte_2 :: "char \<Rightarrow> char \<Rightarrow> char" where
  "byte_2 a b = char_of (push_bit 4 (six a) OR drop_bit 2 (six b))"

definition byte_3 :: "char \<Rightarrow> char \<Rightarrow> char" where
  "byte_3 a b = char_of (push_bit 6 (six a) OR six b)"

fun decode64_loop :: "mem \<Rightarrow> nat \<Rightarrow> mem \<Rightarrow> nat \<Rightarrow> nat \<Rightarrow> (mem \<times> nat \<times> nat \<times> nat) option" where
  "decode64_loop bufplain bufout bufcoded bufin nprbytes =
     (if nprbytes > 4 then do {
        a \<leftarrow> rd bufcoded bufin; b \<leftarrow> rd bufcoded (bufin + 1); c \<leftarrow> rd bufcoded (bufin + 2); d \<leftarrow> rd bufcoded (bufin + 3);
        m \<leftarrow> write_at bufplain bufout [byte_1 a b, byte_2 b c, byte_3 c d];
        decode64_loop m (bufout + 3) bufcoded (bufin + 4) (nprbytes - 4)
      }
      else Some (bufplain, bufout, bufin, nprbytes))"

declare decode64_loop.simps [simp del]

definition decode64_rest :: "mem \<Rightarrow> nat \<Rightarrow> mem \<Rightarrow> nat \<Rightarrow> nat \<Rightarrow> (mem \<times> nat) option" where
  "decode64_rest bufplain bufout bufcoded bufin nprbytes =
     do {
       (m1, o1) \<leftarrow> (if nprbytes > 1 then do { a \<leftarrow> rd bufcoded bufin; b \<leftarrow> rd bufcoded (bufin + 1);
                       m \<leftarrow> write_at bufplain bufout [byte_1 a b]; Some (m, bufout + 1) } else Some (bufplain, bufout));
       (m2, o2) \<leftarrow> (if nprbytes > 2 then do { b \<leftarrow> rd bufcoded (bufin + 1); c \<leftarrow> rd bufcoded (bufin + 2);
                       m \<leftarrow> write_at m1 o1 [byte_2 b c]; Some (m, o1 + 1) } else Some (m1, o1));
       if nprbytes > 3 then do { c \<leftarrow> rd bufcoded (bufin + 2); d \<leftarrow> rd bufcoded (bufin + 3);
                       m \<leftarrow> write_at m2 o2 [byte_3 c d]; Some (m, o2 + 1) } else Some (m2, o2)
     }"

definition Base64decode :: "mem \<Rightarrow> mem \<Rightarrow> (nat \<times> mem) option" where
  "Base64decode bufplain bufcoded =
     do {
       n \<leftarrow> scan_six bufcoded;
       (m1, o1, i1, nprbytes) \<leftarrow> decode64_loop bufplain 0 bufcoded 0 n;
       (m2, o2) \<leftarrow> decode64_rest m1 o1 bufcoded i1 nprbytes;
       m3 \<leftarrow> write_at m2 o2 [NUL];
       Some ((n + 3) div 4 * 3 - ((4 - nprbytes) AND 3), m3)
     }"

section \<open>Encoding\<close>

definition sym :: "nat \<Rightarrow> char" where
  "sym i = basis_64 ! i"

definition sym_1 :: "char \<Rightarrow> char" where
  "sym_1 a = sym (drop_bit 2 (byte a) AND 0x3F)"

definition sym_2 :: "char \<Rightarrow> nat \<Rightarrow> char" where
  "sym_2 a b = sym (push_bit 4 (byte a AND 3) OR drop_bit 4 (b AND 0xF0))"

definition sym_3 :: "char \<Rightarrow> nat \<Rightarrow> char" where
  "sym_3 b c = sym (push_bit 2 (byte b AND 0xF) OR drop_bit 6 (c AND 0xC0))"

definition sym_4 :: "char \<Rightarrow> char" where
  "sym_4 c = sym (byte c AND 0x3F)"

definition Base64encode_len :: "nat \<Rightarrow> nat" where
  "Base64encode_len len = (len + 2) div 3 * 4 + 1"

function encode64_loop :: "mem \<Rightarrow> nat \<Rightarrow> mem \<Rightarrow> nat \<Rightarrow> nat \<Rightarrow> (mem \<times> nat \<times> nat) option" where
  "encode64_loop encoded p string i len =
     (if i + 2 < len then do {
        a \<leftarrow> rd string i; b \<leftarrow> rd string (i + 1); c \<leftarrow> rd string (i + 2);
        e \<leftarrow> write_at encoded p [sym_1 a, sym_2 a (byte b), sym_3 b (byte c), sym_4 c];
        encode64_loop e (p + 4) string (i + 3) len
      }
      else Some (encoded, p, i))"
  by pat_completeness auto

termination
  by (relation "measure (\<lambda>(e, p, s, i, len). len - i)") auto

declare encode64_loop.simps [simp del]

definition Base64encode :: "mem \<Rightarrow> mem \<Rightarrow> nat \<Rightarrow> (nat \<times> mem) option" where
  "Base64encode encoded string len =
     do {
       (e1, p1, i) \<leftarrow> encode64_loop encoded 0 string 0 len;
       (e2, p2) \<leftarrow> (if i < len then do {
           a \<leftarrow> rd string i;
           t \<leftarrow> (if i = len - 1 then Some [sym_1 a, sym_2 a 0, CHR ''='', CHR ''='']
                 else do { b \<leftarrow> rd string (i + 1); Some [sym_1 a, sym_2 a (byte b), sym_3 b 0, CHR ''=''] });
           e \<leftarrow> write_at e1 p1 t;
           Some (e, p1 + 4)
         } else Some (e1, p1));
       e3 \<leftarrow> write_at e2 p2 [NUL];
       Some (p2 + 1, e3)
     }"

section \<open>The code on lists\<close>

fun enc64 :: "string \<Rightarrow> string" where
  "enc64 (a # b # c # r) = [sym_1 a, sym_2 a (byte b), sym_3 b (byte c), sym_4 c] @ enc64 r"
| "enc64 [a, b] = [sym_1 a, sym_2 a (byte b), sym_3 b 0, CHR ''='']"
| "enc64 [a] = [sym_1 a, sym_2 a 0, CHR ''='', CHR ''='']"
| "enc64 [] = []"

fun dec64 :: "string \<Rightarrow> string" where
  "dec64 (a # b # c # d # r) = [byte_1 a b, byte_2 b c, byte_3 c d] @ dec64 r"
| "dec64 [a, b, c] = [byte_1 a b, byte_2 b c]"
| "dec64 [a, b] = [byte_1 a b]"
| "dec64 _ = []"

lemma length_enc64: "length (enc64 s) = (length s + 2) div 3 * 4"
  by (induction s rule: enc64.induct) (auto, presburger)

text \<open>The characters that are left for the last group.\<close>

fun left :: "nat \<Rightarrow> nat" where
  "left n = (if n > 4 then left (n - 4) else n)"

declare left.simps [simp del]

section \<open>The symbols of a group\<close>

lemma six_sym: "i < 64 \<Longrightarrow> six (sym i) = i"
proof -
  have "map (\<lambda>i. six (sym i)) [0..<64] = [0..<64]" by code_simp
  then show "i < 64 \<Longrightarrow> ?thesis" using map_eq_conv [of "\<lambda>i. six (sym i)" "[0..<64]" "\<lambda>i. i"] by simp
qed

lemma six_pad: "six (CHR ''='') = 64" "six NUL = 64"
  by code_simp+

lemma or_add: "b < 2 ^ n \<Longrightarrow> push_bit n a OR b = a * 2 ^ n + (b :: nat)"
proof -
  assume b: "b < 2 ^ n"
  have "\<not> bit (push_bit n a) k \<or> \<not> bit b k" for k
    using b by (metis bit_push_bit_iff_nat bit_take_bit_iff not_le take_bit_nat_eq_self)
  from disjunctive_add [OF this] show ?thesis by (simp add: push_bit_eq_mult)
qed

lemma and_low: "x AND (3 :: nat) = x mod 4" "x AND (0xF :: nat) = x mod 16" "x AND (0x3F :: nat) = x mod 64"
  using take_bit_eq_mask [of 2 x] take_bit_eq_mask [of 4 x] take_bit_eq_mask [of 6 x]
  by (simp_all add: take_bit_eq_mod mask_eq_exp_minus_1)

lemma and_high: "drop_bit 4 (x AND 0xF0) = x div 16 mod 16" "drop_bit 6 (x AND 0xC0) = x div 64 mod (4 :: nat)"
  unfolding drop_bit_and
  using and_low(2) [of "drop_bit 4 x"] and_low(1) [of "drop_bit 6 x"] by (simp_all add: drop_bit_eq_div)

lemma byte_div_less: "byte a div 4 < 64" "byte a div 16 < 16" "byte a div 64 < 4"
  using byte_less [of a] by (simp_all add: div_less_iff_less_mult)

lemma sym_eqs:
  "sym_1 a = sym (byte a div 4)" "b < 256 \<Longrightarrow> sym_2 a b = sym (byte a mod 4 * 16 + b div 16)"
  "c < 256 \<Longrightarrow> sym_3 d c = sym (byte d mod 16 * 4 + c div 64)" "sym_4 e = sym (byte e mod 64)"
proof -
  show "sym_1 a = sym (byte a div 4)" using byte_div_less(1) [of a] by (simp add: sym_1_def and_low drop_bit_eq_div)
  show "b < 256 \<Longrightarrow> sym_2 a b = sym (byte a mod 4 * 16 + b div 16)"
    using or_add [of "b div 16" 4] unfolding sym_2_def and_low and_high by (simp add: less_mult_imp_div_less)
  show "c < 256 \<Longrightarrow> sym_3 d c = sym (byte d mod 16 * 4 + c div 64)"
    using or_add [of "c div 64" 2] unfolding sym_3_def and_low and_high by (simp add: less_mult_imp_div_less)
  show "sym_4 e = sym (byte e mod 64)" by (simp add: sym_4_def and_low)
qed

lemma char_of_byte_mod: "n mod 256 = byte c \<Longrightarrow> char_of n = c" for n :: nat
  unfolding byte_def by (metis char_of_char of_char_of)

text \<open>Four symbols give the three bytes they were made of.\<close>

lemma group_bytes:
  assumes "y < 256" "z < 256"
  shows "byte_1 (sym_1 a) (sym_2 a y) = a" "byte_2 (sym_2 a y) (sym_3 (char_of y) z) = char_of y"
    "byte_3 (sym_3 b z) (sym_4 (char_of z)) = char_of z"
proof -
  have s: "six (sym_1 a) = byte a div 4" "six (sym_2 a y) = byte a mod 4 * 16 + y div 16" "six (sym_3 d z) = byte d mod 16 * 4 + z div 64"
    "six (sym_4 e) = byte e mod 64" for d e
    using assms byte_div_less(1) [of a] by (simp_all add: sym_eqs six_sym less_mult_imp_div_less)
  have "byte_1 (sym_1 a) (sym_2 a y) = char_of (byte a div 4 * 4 + byte a mod 4)"
    using or_add [of "byte a mod 4" 2 "byte a div 4"] assms(1)
    by (simp add: byte_1_def s drop_bit_eq_div less_mult_imp_div_less)
  then show "byte_1 (sym_1 a) (sym_2 a y) = a" by (simp add: byte_def)
  have "(y mod 16 * 4 + z div 64) div 4 = y mod 16" using assms(2) by (simp add: less_mult_imp_div_less)
  then have "byte_2 (sym_2 a y) (sym_3 (char_of y) z) = char_of ((byte a mod 4 * 16 + y div 16) * 16 + y mod 16)"
    using or_add [of "y mod 16" 4 "byte a mod 4 * 16 + y div 16"] assms(1)
    by (simp add: byte_2_def s drop_bit_eq_div byte_def)
  also have "(byte a mod 4 * 16 + y div 16) * 16 + y mod 16 = byte a mod 4 * 256 + y" by (simp add: algebra_simps)
  finally show "byte_2 (sym_2 a y) (sym_3 (char_of y) z) = char_of y"
    using assms(1) char_of_byte_mod [of "byte a mod 4 * 256 + y" "char_of y"] by (simp add: byte_def)
  have "byte_3 (sym_3 b z) (sym_4 (char_of z)) = char_of ((byte b mod 16 * 4 + z div 64) * 64 + z mod 64)"
    using or_add [of "z mod 64" 6 "byte b mod 16 * 4 + z div 64"] assms(2) by (simp add: byte_3_def s byte_def)
  also have "(byte b mod 16 * 4 + z div 64) * 64 + z mod 64 = byte b mod 16 * 256 + z" by (simp add: algebra_simps)
  finally show "byte_3 (sym_3 b z) (sym_4 (char_of z)) = char_of z"
    using assms(2) char_of_byte_mod [of "byte b mod 16 * 256 + z" "char_of z"] by (simp add: byte_def)
qed

lemma group_chars:
  "byte_1 (sym_1 a) (sym_2 a (byte b)) = a" "byte_1 (sym_1 a) (sym_2 a 0) = a" "byte_2 (sym_2 a (byte b)) (sym_3 b (byte c)) = b"
  "byte_2 (sym_2 a (byte b)) (sym_3 b 0) = b" "byte_3 (sym_3 b (byte c)) (sym_4 c) = c"
proof -
  have [simp]: "char_of (byte x) = x" for x by (simp add: byte_def)
  show "byte_1 (sym_1 a) (sym_2 a (byte b)) = a" "byte_1 (sym_1 a) (sym_2 a 0) = a" "byte_2 (sym_2 a (byte b)) (sym_3 b (byte c)) = b"
    "byte_2 (sym_2 a (byte b)) (sym_3 b 0) = b" "byte_3 (sym_3 b (byte c)) (sym_4 c) = c"
    using group_bytes(1) [of "byte b" 0 a] group_bytes(1) [of 0 0 a] group_bytes(2) [of "byte b" "byte c" a]
      group_bytes(2) [of "byte b" 0 a] group_bytes(3) [of 0 "byte c" b] by simp_all
qed

text \<open>The symbols are in the alphabet, the padding is not.\<close>

lemma six_syms: "six (sym_1 a) \<le> 63" "b < 256 \<Longrightarrow> six (sym_2 a b) \<le> 63" "c < 256 \<Longrightarrow> six (sym_3 d c) \<le> 63" "six (sym_4 e) \<le> 63"
  using byte_div_less(1) [of a] by (simp_all add: sym_eqs six_sym less_mult_imp_div_less less_Suc_eq_le [symmetric] del: less_Suc_eq_le)

section \<open>The loops\<close>

lemma write_ex:
  "n \<le> length dest \<Longrightarrow> n = pos + length bs \<Longrightarrow>
   \<exists>d. write_at dest pos bs = Some d \<and> length d = length dest \<and> take n d = take pos dest @ bs"
  using write_at_spec [of pos bs dest] by auto

lemma rd_at:
  assumes "take (length t) (drop i s) = t" "k < length t"
  shows "rd s (i + k) = Some (t ! k)"
proof -
  have "length (take (length t) (drop i s)) = length t" by (simp only: assms(1))
  then have l: "i + length t \<le> length s \<or> length t = 0" unfolding length_take length_drop by linarith
  have "t ! k = take (length t) (drop i s) ! k" by (simp only: assms(1))
  also have "\<dots> = drop i s ! k" using assms(2) by simp
  also have "\<dots> = s ! (i + k)" using assms(2) l by (intro nth_drop) auto
  finally have "t ! k = s ! (i + k)" .
  moreover have "i + k < length s" using l assms(2) by auto
  ultimately show ?thesis by simp
qed

lemma drop_at: "take (length (u @ t)) (drop i s) = u @ t \<Longrightarrow> take (length t) (drop (i + length u) s) = t"
proof -
  assume "take (length (u @ t)) (drop i s) = u @ t"
  then have "drop (length u) (take (length (u @ t)) (drop i s)) = t" by simp
  then show ?thesis by (simp add: drop_take add.commute)
qed

text \<open>The part of the encoder behind its loop.\<close>

definition encode64_rest :: "mem \<Rightarrow> nat \<Rightarrow> mem \<Rightarrow> nat \<Rightarrow> nat \<Rightarrow> (mem \<times> nat) option" where
  "encode64_rest e1 p1 string i len =
     (if i < len then do {
         a \<leftarrow> rd string i;
         t \<leftarrow> (if i = len - 1 then Some [sym_1 a, sym_2 a 0, CHR ''='', CHR ''='']
               else do { b \<leftarrow> rd string (i + 1); Some [sym_1 a, sym_2 a (byte b), sym_3 b 0, CHR ''=''] });
         e \<leftarrow> write_at e1 p1 t;
         Some (e, p1 + 4)
       } else Some (e1, p1))"

lemma encode64_ok:
  assumes "take (length t) (drop i s) = t" "p + length (enc64 t) \<le> length e"
  shows "\<exists>e' p' i' e''. encode64_loop e p s i (i + length t) = Some (e', p', i') \<and>
    encode64_rest e' p' s i' (i + length t) = Some (e'', p + length (enc64 t)) \<and> length e'' = length e \<and>
    take (p + length (enc64 t)) e'' = take p e @ enc64 t"
  using assms
proof (induction t arbitrary: i p e rule: enc64.induct)
  case (1 a b c r)
  let ?g = "[sym_1 a, sym_2 a (byte b), sym_3 b (byte c), sym_4 c]"
  have g: "rd s i = Some a" "rd s (i + 1) = Some b" "rd s (i + 2) = Some c"
    using rd_at [OF "1.prems"(1), of 0] rd_at [OF "1.prems"(1), of 1] rd_at [OF "1.prems"(1), of 2] by simp_all
  have t: "take (length r) (drop (i + 3) s) = r" using drop_at [of "[a, b, c]" r i s] "1.prems"(1) by (simp add: numeral_eq_Suc)
  have "p + 4 \<le> length e" using "1.prems"(2) by simp
  from write_ex [OF this, of "p" "?g"] obtain d where d: "write_at e p ?g = Some d" "length d = length e"
    "take (p + 4) d = take p e @ ?g" by fastforce
  have "p + 4 + length (enc64 r) \<le> length d" using d(2) "1.prems"(2) by simp
  from "1.IH" [OF t this] obtain e' p' i' e'' where
    r: "encode64_loop d (p + 4) s (i + 3) (i + 3 + length r) = Some (e', p', i')"
    "encode64_rest e' p' s i' (i + 3 + length r) = Some (e'', p + 4 + length (enc64 r))" "length e'' = length d"
    "take (p + 4 + length (enc64 r)) e'' = take (p + 4) d @ enc64 r" by blast
  have l: "i + length (a # b # c # r) = i + 3 + length r" "p + length (enc64 (a # b # c # r)) = p + 4 + length (enc64 r)" by simp_all
  have "encode64_loop e p s i (i + length (a # b # c # r)) = encode64_loop d (p + 4) s (i + 3) (i + 3 + length r)"
    using g d(1) unfolding l by (subst encode64_loop.simps) simp
  then show ?case using r d(2,3) unfolding l by simp
next
  case (2 a b)
  have g: "rd s i = Some a" "rd s (i + 1) = Some b"
    using rd_at [OF "2.prems"(1), of 0] rd_at [OF "2.prems"(1), of 1] by simp_all
  show ?case using write_ex [OF "2.prems"(2) refl] g
    by (auto simp: encode64_loop.simps [of e p s i] encode64_rest_def)
next
  case (3 a)
  have g: "rd s i = Some a" using rd_at [OF "3.prems"(1), of 0] by simp
  show ?case using write_ex [OF "3.prems"(2) refl] g
    by (auto simp: encode64_loop.simps [of e p s i] encode64_rest_def)
next
  case 4
  then show ?case by (simp add: encode64_loop.simps [of e p s i] encode64_rest_def)
qed

lemma decode64_ok:
  assumes "take (length t) (drop i s) = t" "p + length (dec64 t) \<le> length m"
  shows "\<exists>m' p' i' m''. decode64_loop m p s i (length t) = Some (m', p', i', left (length t)) \<and>
    decode64_rest m' p' s i' (left (length t)) = Some (m'', p + length (dec64 t)) \<and> length m'' = length m \<and>
    take (p + length (dec64 t)) m'' = take p m @ dec64 t \<and>
    length (dec64 t) + ((4 - left (length t)) AND 3) = (length t + 3) div 4 * 3"
  using assms
proof (induction t arbitrary: i p m rule: dec64.induct)
  case (1 a b c d r)
  let ?g = "[byte_1 a b, byte_2 b c, byte_3 c d]"
  have g: "rd s i = Some a" "rd s (i + 1) = Some b" "rd s (i + 2) = Some c" "rd s (i + 3) = Some d"
    using rd_at [OF "1.prems"(1), of 0] rd_at [OF "1.prems"(1), of 1] rd_at [OF "1.prems"(1), of 2] rd_at [OF "1.prems"(1), of 3] by simp_all
  have t: "take (length r) (drop (i + 4) s) = r" using drop_at [of "[a, b, c, d]" r i s] "1.prems"(1) by (simp add: numeral_eq_Suc)
  show ?case
  proof (cases "r = []")
    case True
    have "p + 1 \<le> length m" using "1.prems"(2) by simp
    from write_ex [OF this, of "p" "[byte_1 a b]"] obtain m1 where m1: "write_at m p [byte_1 a b] = Some m1" "length m1 = length m"
      "take (p + 1) m1 = take p m @ [byte_1 a b]" by fastforce
    have "p + 2 \<le> length m1" using "1.prems"(2) m1(2) by simp
    from write_ex [OF this, of "p + 1" "[byte_2 b c]"] obtain m2 where m2: "write_at m1 (p + 1) [byte_2 b c] = Some m2" "length m2 = length m1"
      "take (p + 2) m2 = take (p + 1) m1 @ [byte_2 b c]" by fastforce
    have "p + 3 \<le> length m2" using "1.prems"(2) m1(2) m2(2) by simp
    from write_ex [OF this, of "p + 2" "[byte_3 c d]"] obtain m3 where m3: "write_at m2 (p + 2) [byte_3 c d] = Some m3" "length m3 = length m2"
      "take (p + 3) m3 = take (p + 2) m2 @ [byte_3 c d]" by fastforce
    have L: "length (a # b # c # d # r) = 4" "length (dec64 (a # b # c # d # r)) = 3" using True by simp_all
    have "left 4 = 4" by (subst left.simps) simp
    moreover have "decode64_loop m p s i 4 = Some (m, p, i, 4)" by (subst decode64_loop.simps) simp
    moreover have "decode64_rest m p s i 4 = Some (m3, p + 3)"
      using g m1(1) m2(1) m3(1) by (simp add: decode64_rest_def)
    moreover have "take (p + 3) m3 = take p m @ dec64 (a # b # c # d # r)" using True m1(3) m2(3) m3(3) by simp
    ultimately show ?thesis unfolding L using m1(2) m2(2) m3(2) by simp
  next
    case False
    then have n: "4 < length (a # b # c # d # r)" "length (a # b # c # d # r) - 4 = length r" by auto
    have "p + 3 \<le> length m" using "1.prems"(2) by simp
    from write_ex [OF this, of "p" "?g"] obtain w where w: "write_at m p ?g = Some w" "length w = length m"
      "take (p + 3) w = take p m @ ?g" by fastforce
    have "p + 3 + length (dec64 r) \<le> length w" using w(2) "1.prems"(2) by simp
    from "1.IH" [OF t this] obtain m' p' i' m'' where
      r: "decode64_loop w (p + 3) s (i + 4) (length r) = Some (m', p', i', left (length r))"
      "decode64_rest m' p' s i' (left (length r)) = Some (m'', p + 3 + length (dec64 r))" "length m'' = length w"
      "take (p + 3 + length (dec64 r)) m'' = take (p + 3) w @ dec64 r"
      "length (dec64 r) + ((4 - left (length r)) AND 3) = (length r + 3) div 4 * 3" by blast
    have l: "left (length (a # b # c # d # r)) = left (length r)" using n by (subst left.simps) simp
    let ?t = "a # b # c # d # r"
    have D: "decode64_loop m p s i (length ?t) = Some (m', p', i', left (length r))"
      using g w(1) n r(1) by (subst decode64_loop.simps) simp
    have L: "p + length (dec64 ?t) = p + 3 + length (dec64 r)" by simp
    have T: "take (p + length (dec64 ?t)) m'' = take p m @ dec64 ?t" unfolding L r(4) w(3) by simp
    have R: "decode64_rest m' p' s i' (left (length r)) = Some (m'', p + length (dec64 ?t))"
      unfolding L by (rule r(2))
    have "(length ?t + 3) div 4 * 3 = 3 + (length r + 3) div 4 * 3"
      using div_add_self2 [of 4 "length r + 3"] by (simp add: algebra_simps)
    then have N: "length (dec64 ?t) + ((4 - left (length r)) AND 3) = (length ?t + 3) div 4 * 3" using r(5) by simp
    have M: "length m'' = length m" using r(3) w(2) by simp
    show ?thesis unfolding l by (intro exI conjI) (rule D, rule R, rule M, rule T, rule N)
  qed
next
  case (2 a b c)
  have g: "rd s i = Some a" "rd s (i + 1) = Some b" "rd s (i + 2) = Some c"
    using rd_at [OF "2.prems"(1), of 0] rd_at [OF "2.prems"(1), of 1] rd_at [OF "2.prems"(1), of 2] by simp_all
  have "p + 1 \<le> length m" using "2.prems"(2) by simp
  from write_ex [OF this, of "p" "[byte_1 a b]"] obtain m1 where m1: "write_at m p [byte_1 a b] = Some m1" "length m1 = length m"
    "take (p + 1) m1 = take p m @ [byte_1 a b]" by fastforce
  have "p + 2 \<le> length m1" using "2.prems"(2) m1(2) by simp
  from write_ex [OF this, of "p + 1" "[byte_2 b c]"] obtain m2 where m2: "write_at m1 (p + 1) [byte_2 b c] = Some m2" "length m2 = length m1"
    "take (p + 2) m2 = take (p + 1) m1 @ [byte_2 b c]" by fastforce
  have L: "length [a, b, c] = 3" "dec64 [a, b, c] = [byte_1 a b, byte_2 b c]" "length [byte_1 a b, byte_2 b c] = 2" "left 3 = 3"
    "(3 + 3) div 4 * 3 = (3 :: nat)" "2 + ((4 - 3) AND 3) = (3 :: nat)" by (simp_all add: left.simps)
  have D: "decode64_loop m p s i 3 = Some (m, p, i, 3)" by (subst decode64_loop.simps) simp
  have R: "decode64_rest m p s i 3 = Some (m2, p + 2)" using g m1(1) m2(1) by (simp add: decode64_rest_def)
  have M: "length m2 = length m" using m1(2) m2(2) by simp
  have T: "take (p + 2) m2 = take p m @ [byte_1 a b, byte_2 b c]" using m1(3) m2(3) by simp
  show ?case unfolding L by (intro exI conjI) (rule D, rule R, rule M, rule T, rule refl)
next
  case (3 a b)
  have g: "rd s i = Some a" "rd s (i + 1) = Some b"
    using rd_at [OF "3.prems"(1), of 0] rd_at [OF "3.prems"(1), of 1] by simp_all
  have "p + 1 \<le> length m" using "3.prems"(2) by simp
  from write_ex [OF this, of "p" "[byte_1 a b]"] obtain m1 where m1: "write_at m p [byte_1 a b] = Some m1" "length m1 = length m"
    "take (p + 1) m1 = take p m @ [byte_1 a b]" by fastforce
  have L: "length [a, b] = 2" "dec64 [a, b] = [byte_1 a b]" "length [byte_1 a b] = 1" "left 2 = 2"
    "(2 + 3) div 4 * 3 = (3 :: nat)" "1 + ((4 - 2) AND 3) = (3 :: nat)" by (simp_all add: left.simps)
  have D: "decode64_loop m p s i 2 = Some (m, p, i, 2)" by (subst decode64_loop.simps) simp
  have R: "decode64_rest m p s i 2 = Some (m1, p + 1)" using g m1(1) by (simp add: decode64_rest_def)
  show ?case unfolding L by (intro exI conjI) (rule D, rule R, rule m1(2), rule m1(3), rule refl)
qed (simp_all add: decode64_loop.simps [of m p s i for m p s i] decode64_rest_def left.simps [of 0] left.simps [of 1] left.simps [of "Suc 0"])

section \<open>Properties\<close>

lemma enc64_alphabet: "\<exists>u v. enc64 s = u @ v \<and> (\<forall>c \<in> set u. six c \<le> 63) \<and> (\<forall>c \<in> set v. six c = 64) \<and> dec64 u = s"
proof (induction s rule: enc64.induct)
  case (1 a b c r)
  then obtain u v where "enc64 r = u @ v" "\<forall>c \<in> set u. six c \<le> 63" "\<forall>c \<in> set v. six c = 64" "dec64 u = r" by blast
  then show ?case using group_chars six_syms
    by (intro exI [of _ "[sym_1 a, sym_2 a (byte b), sym_3 b (byte c), sym_4 c] @ u"] exI [of _ v]) simp
next
  case (2 a b)
  show ?case using group_chars six_syms six_pad
    by (intro exI [of _ "[sym_1 a, sym_2 a (byte b), sym_3 b 0]"] exI [of _ "''=''"]) simp
next
  case (3 a)
  show ?case using group_chars six_syms six_pad
    by (intro exI [of _ "[sym_1 a, sym_2 a 0]"] exI [of _ "''==''"]) simp
qed simp

lemma Base64encode_ok:
  assumes "len \<le> length s" "Base64encode_len len \<le> length e"
  shows "\<exists>e'. Base64encode e s len = Some (Base64encode_len len, e') \<and> length e' = length e \<and>
    take (Base64encode_len len) e' = enc64 (take len s) @ [NUL]"
proof -
  let ?t = "take len s"
  have n: "Base64encode_len len = length (enc64 ?t) + 1" using assms(1) by (simp add: Base64encode_len_def length_enc64 min_def)
  have t: "take (length ?t) (drop 0 s) = ?t" "0 + length (enc64 ?t) \<le> length e" "length ?t = len"
    using assms n by (simp_all add: min_def)
  obtain e1 p1 i e2 where l: "encode64_loop e 0 s 0 len = Some (e1, p1, i)"
    "encode64_rest e1 p1 s i len = Some (e2, length (enc64 ?t))" "length e2 = length e" "take (length (enc64 ?t)) e2 = enc64 ?t"
    using encode64_ok [OF t(1,2)] unfolding t(3) by auto
  have "length (enc64 ?t) + 1 \<le> length e2" using assms(2) n l(3) by simp
  from write_ex [OF this, of "length (enc64 ?t)" "[NUL]"] obtain e3 where
    e3: "write_at e2 (length (enc64 ?t)) [NUL] = Some e3" "length e3 = length e2" "take (length (enc64 ?t) + 1) e3 = enc64 ?t @ [NUL]"
    using l(4) by auto
  have "Base64encode e s len = do { (e1, p1, i) \<leftarrow> encode64_loop e 0 s 0 len; (e2, p2) \<leftarrow> encode64_rest e1 p1 s i len;
      e3 \<leftarrow> write_at e2 p2 [NUL]; Some (p2 + 1, e3) }"
    by (simp add: Base64encode_def encode64_rest_def)
  then show ?thesis using l e3 unfolding n by simp
qed

text \<open>C39: \<^verbatim>\<open>Base64encode\<close> writes, into any buffer of the size that
  \<^verbatim>\<open>Base64encode_len\<close> asks for, the encoding of the input with its terminator, and returns the
  number of bytes it wrote; \<^verbatim>\<open>Base64decode\<close>, given that text and a buffer of the size that
  \<^verbatim>\<open>Base64decode_len\<close> asks for, restores the input, terminates it and returns its length.
  Neither leaves its buffers.\<close>

theorem Base64_roundtrip:
  assumes "len \<le> length s" "Base64encode_len len \<le> length e"
  shows "\<exists>e' d. Base64encode e s len = Some (Base64encode_len len, e') \<and> length e' = length e \<and>
    Base64decode_len e' = Some d \<and>
    (\<forall>m. d \<le> length m \<longrightarrow> (\<exists>m'. Base64decode m e' = Some (len, m') \<and> length m' = length m \<and> take (len + 1) m' = take len s @ [NUL]))"
proof -
  let ?t = "take len s"
  obtain e' where e': "Base64encode e s len = Some (Base64encode_len len, e')" "length e' = length e"
      "take (Base64encode_len len) e' = enc64 ?t @ [NUL]"
    using Base64encode_ok [OF assms] by blast
  obtain u v where u: "enc64 ?t = u @ v" "\<forall>c \<in> set u. six c \<le> 63" "\<forall>c \<in> set v. six c = 64" "dec64 u = ?t"
    using enc64_alphabet by blast
  have "e' = take (Base64encode_len len) e' @ drop (Base64encode_len len) e'" by simp
  then obtain w where "e' = (u @ v @ [NUL]) @ w" unfolding e'(3) u(1) by auto
  moreover obtain c r where c: "v @ [NUL] = c # r" "six c = 64" using u(3) six_pad(2) by (cases v) auto
  ultimately have E: "e' = u @ c # r @ w" by simp
  have tw: "takeWhile (\<lambda>c. six c \<le> 63) e' = u" unfolding E using u(2) c(2) by (intro takeWhile_stop) auto
  then have scan: "scan_six e' = Some (length u)" using c(2) by (auto simp: scan_six_def E)
  have lt: "length ?t = len" using assms(1) by simp
  have "\<exists>m'. Base64decode m e' = Some (len, m') \<and> length m' = length m \<and> take (len + 1) m' = ?t @ [NUL]"
    if m: "(length u + 3) div 4 * 3 + 1 \<le> length m" for m
  proof -
    have t: "take (length u) (drop 0 e') = u" by (simp add: E)
    have "length (dec64 u) \<le> (length u + 3) div 4 * 3"
      using decode64_ok [OF t, of 0 "replicate (length (dec64 u)) NUL"] by auto
    then have l: "0 + length (dec64 u) \<le> length m" "len + 1 \<le> length m" using m u(4) lt by simp_all
    obtain m1 o1 i1 m2 where d: "decode64_loop m 0 e' 0 (length u) = Some (m1, o1, i1, left (length u))"
      "decode64_rest m1 o1 e' i1 (left (length u)) = Some (m2, len)" "length m2 = length m" "take len m2 = ?t"
      "len + ((4 - left (length u)) AND 3) = (length u + 3) div 4 * 3"
      using decode64_ok [OF t l(1)] u(4) lt by auto
    have "len + 1 \<le> length m2" using l(2) d(3) by simp
    from write_ex [OF this, of len "[NUL]"] obtain m3 where m3: "write_at m2 len [NUL] = Some m3" "length m3 = length m2"
      "take (len + 1) m3 = ?t @ [NUL]" using d(4) by auto
    then show ?thesis using scan d by (simp add: Base64decode_def flip: d(5))
  qed
  then show ?thesis using e'(1,2) scan by (intro exI [of _ e']) (auto simp: Base64decode_len_def)
qed

theorem Base64_roundtrip_witness:
  "\<exists>e'. Base64encode (replicate 9 NUL) ''user:'' 5 = Some (9, e') \<and>
     (\<exists>m'. Base64decode (replicate 30 NUL) e' = Some (5, m') \<and> take 6 m' = ''user:'' @ [NUL])"
proof -
  have 1: "(5 :: nat) \<le> length ''user:''" "Base64encode_len 5 \<le> length (replicate 9 NUL)" by (simp_all add: Base64encode_len_def)
  obtain e' d where e': "Base64encode (replicate 9 NUL) ''user:'' 5 = Some (Base64encode_len 5, e')" "length e' = 9" "Base64decode_len e' = Some d"
    "\<forall>m. d \<le> length m \<longrightarrow> (\<exists>m'. Base64decode m e' = Some (5, m') \<and> length m' = length m \<and> take (5 + 1) m' = take 5 ''user:'' @ [NUL])"
    using Base64_roundtrip [OF 1] by auto
  have "length (takeWhile (\<lambda>c. six c \<le> 63) e') \<le> 9" using length_takeWhile_le [of _ e'] e'(2) by metis
  then have "(length (takeWhile (\<lambda>c. six c \<le> 63) e') + 3) div 4 * 3 \<le> 12 div 4 * 3" by (intro mult_right_mono div_le_mono) auto
  then have "d \<le> 30" using e'(3) by (auto simp: Base64decode_len_def scan_six_def split: if_splits)
  with e'(4) obtain m' where "Base64decode (replicate 30 NUL) e' = Some (5, m')" "take (5 + 1) m' = take 5 ''user:'' @ [NUL]"
    by (metis length_replicate)
  then show ?thesis using e'(1) by (auto simp: Base64encode_len_def)
qed

end
