(* ===== verification/CF_HTTPRequestStream.thy ===== *)
theory CF_HTTPRequestStream
  imports CF_Socket CF_StringParser CF_Base64
begin

text \<open>
  The input stream of a session: \<^verbatim>\<open>src/CFHttp/HTTPRequestStream.cpp\<close> and its header. It
  collects what the socket delivers until the end of a request header has arrived, hands out the
  header, and keeps the bytes behind it (the retreat bytes) for the reader of the body and for the
  next request. The socket belongs to the session, so it is an argument of the operations
  here. \<open>blk\<close> is the block that the allocator returns when decoding needs a buffer of its own.
  \<^term>\<open>None\<close> is an access outside of a block or a failed assertion. Debug output
  (\<^verbatim>\<open>fPrintRTSP\<close>) is left out.
\<close>

section \<open>State\<close>

definition kRequestBufferSizeInBytes :: nat where
  "kRequestBufferSizeInBytes = CF_MAX_REQUEST_BUFFER_SIZE"

text \<open>
  \<open>fDecoded\<close> is the block \<^verbatim>\<open>fRequest.Ptr\<close> points to, where it is not
  \<^verbatim>\<open>fRequestBuffer\<close> itself; \<open>fRequestPtr\<close> says whether that pointer is set.
\<close>

record HTTPRequestStream =
  fRetreatBytes :: nat
  fRetreatBytesRead :: nat
  fRequestBuffer :: mem
  fCurOffset :: nat
  fEncodedBytesRemaining :: nat
  fDecoded :: "mem option"
  fRequestLen :: nat
  fRequestPtr :: bool
  fDecode :: bool
  fIsDataPacket :: bool

definition HTTPRequestStream_new :: "mem \<Rightarrow> HTTPRequestStream" where
  "HTTPRequestStream_new buf =
     \<lparr>fRetreatBytes = 0, fRetreatBytesRead = 0, fRequestBuffer = buf, fCurOffset = 0, fEncodedBytesRemaining = 0,
      fDecoded = None, fRequestLen = 0, fRequestPtr = False, fDecode = False, fIsDataPacket = False\<rparr>"

definition IsBase64Encoded :: "HTTPRequestStream \<Rightarrow> bool \<Rightarrow> HTTPRequestStream" where
  "IsBase64Encoded s isDataEncoded = s\<lparr>fDecode := isDataEncoded\<rparr>"

definition fRequest_mem :: "HTTPRequestStream \<Rightarrow> mem" where
  "fRequest_mem s = (case fDecoded s of None \<Rightarrow> fRequestBuffer s | Some m \<Rightarrow> m)"

definition set_fRequest_mem :: "HTTPRequestStream \<Rightarrow> mem \<Rightarrow> HTTPRequestStream" where
  "set_fRequest_mem s m = (case fDecoded s of None \<Rightarrow> s\<lparr>fRequestBuffer := m\<rparr> | Some _ \<Rightarrow> s\<lparr>fDecoded := Some m\<rparr>)"

definition GetRequestBuffer :: "HTTPRequestStream \<Rightarrow> StrPtrLen option" where
  "GetRequestBuffer s = (if fRequestPtr s then Some \<lparr>Ptr = Some (fRequest_mem s), Len = fRequestLen s\<rparr> else None)"

text \<open>Copies between blocks: the bytes from \<open>i\<close> on, and \<^verbatim>\<open>memmove\<close>.\<close>

definition slice :: "mem \<Rightarrow> nat \<Rightarrow> nat \<Rightarrow> string option" where
  "slice m i n = (if i + n \<le> length m then Some (take n (drop i m)) else None)"

definition memmove :: "mem \<Rightarrow> nat \<Rightarrow> nat \<Rightarrow> nat \<Rightarrow> mem option" where
  "memmove m dst src n = do { bs \<leftarrow> slice m src n; write_at m dst bs }"

section \<open>Operations\<close>

definition SnarfRetreat :: "HTTPRequestStream \<Rightarrow> HTTPRequestStream \<Rightarrow> HTTPRequestStream option" where
  "SnarfRetreat s fromRequest = do {
     Assert (fRetreatBytes s < kRequestBufferSizeInBytes);
     bs \<leftarrow> slice (fRequest_mem fromRequest) (fRequestLen fromRequest) (fRetreatBytes fromRequest);
     buf \<leftarrow> write_at (fRequestBuffer s) 0 bs;
     Some (s\<lparr>fRequestPtr := False, fRetreatBytes := fRetreatBytes fromRequest, fEncodedBytesRemaining := 0,
             fCurOffset := 0, fRequestLen := 0, fRequestBuffer := buf\<rparr>)
   }"

text \<open>
  Decoding. \<open>off\<close> is the position of \<^verbatim>\<open>inSrcData\<close> in the request buffer; the loop
  decodes from \<open>consumed\<close> up to the zero byte that was put at the end of the last group of four.
\<close>

function decode_data :: "mem \<Rightarrow> mem \<Rightarrow> nat \<Rightarrow> nat \<Rightarrow> nat \<Rightarrow> (bool \<times> mem \<times> nat \<times> nat) option" where
  "decode_data src d len consumed bytesToDecode =
     (if consumed < bytesToDecode then do {
        Assert (consumed mod 4 = 0);
        Assert (bytesToDecode mod 4 = 0);
        (bytesDecoded, d1) \<leftarrow> Base64decode (drop len d) (drop consumed src);
        if bytesDecoded = 0 then Some (False, take len d @ d1, len, consumed)
        else decode_data src (take len d @ d1) (len + bytesDecoded)
               (consumed + bytesDecoded div 3 * 4 + (if bytesDecoded mod 3 > 0 then 4 else 0)) bytesToDecode
      }
      else Some (True, d, len, consumed))"
  by pat_completeness auto

termination
  by (relation "measure (\<lambda>(src, d, len, consumed, n). n - consumed)") (auto split: if_splits)

declare decode_data.simps [simp del]

definition DecodeIncomingData :: "mem \<Rightarrow> HTTPRequestStream \<Rightarrow> nat \<Rightarrow> nat \<Rightarrow> (int \<times> HTTPRequestStream) option" where
  "DecodeIncomingData blk s off inSrcDataLen = do {
     Assert (fRetreatBytes s = 0);
     let s1 = (if fDecoded s = None then s\<lparr>fDecoded := Some blk, fRequestLen := 0\<rparr> else s);
     let s2 = s1\<lparr>fEncodedBytesRemaining := inSrcDataLen mod 4\<rparr>;
     let bytesToDecode = inSrcDataLen - inSrcDataLen mod 4;
     endChar \<leftarrow> rd (fRequestBuffer s2) (off + bytesToDecode);
     buf \<leftarrow> write_at (fRequestBuffer s2) (off + bytesToDecode) [NUL];
     (done, d, len, consumed) \<leftarrow> decode_data (drop off buf) (fRequest_mem s2) (fRequestLen s2) 0 bytesToDecode;
     let s3 = s2\<lparr>fRequestBuffer := buf, fDecoded := Some d, fRequestLen := len\<rparr>;
     if \<not> done then Some (CF_BadArgument, s3)
     else do {
       buf1 \<leftarrow> write_at buf (off + bytesToDecode) [endChar];
       Assert (len < kRequestBufferSizeInBytes);
       Assert (consumed = bytesToDecode);
       Some (CF_NoErr, s3\<lparr>fRequestBuffer := buf1\<rparr>)
     }
   }"

text \<open>
  The start of a round of \<^verbatim>\<open>ReadRequest\<close>: when the last request is done with, what is
  left of the data moves to the beginning of the buffer. The result is \<^verbatim>\<open>newOffset\<close>.
\<close>

definition next_request :: "HTTPRequestStream \<Rightarrow> (nat \<times> HTTPRequestStream) option" where
  "next_request s =
     (if \<not> fRequestPtr s then Some (0, s)
      else do {
        s1 \<leftarrow> (if fRetreatBytes s > 0 \<and> fRequestLen s > 0
               then map_option (set_fRequest_mem s)
                      (memmove (fRequest_mem s) 0 (fRequestLen s + fRetreatBytesRead s) (fRetreatBytes s))
               else Some s);
        s2 \<leftarrow> (if fEncodedBytesRemaining s1 > 0
               then do {
                 buf \<leftarrow> (if fEncodedBytesRemaining s1 \<le> fCurOffset s1
                        then memmove (fRequestBuffer s1) (fRetreatBytes s1) (fCurOffset s1 - fEncodedBytesRemaining s1)
                               (fEncodedBytesRemaining s1)
                        else None);
                 let n = fRetreatBytes s1 + fEncodedBytesRemaining s1;
                 Assert (n < kRequestBufferSizeInBytes);
                 Some (s1\<lparr>fRequestBuffer := buf, fCurOffset := n\<rparr>)
               }
               else Some (s1\<lparr>fCurOffset := fRetreatBytes s1\<rparr>));
        Some (fRetreatBytes s2, s2\<lparr>fRequestPtr := False, fRequestLen := fRetreatBytes s2, fRetreatBytes := 0,
                                    fRetreatBytesRead := 0\<rparr>)
      })"

text \<open>New data goes behind the old, decoded if the client encodes. The result is the number of
  new bytes.\<close>

definition take_in :: "mem \<Rightarrow> HTTPRequestStream \<Rightarrow> nat \<Rightarrow> HTTPRequestStream option" where
  "take_in blk s newOffset = do {
     s1 \<leftarrow> (if fDecode s then do {
              Assert (fCurOffset s \<ge> fEncodedBytesRemaining s);
              (err, s1) \<leftarrow> DecodeIncomingData blk s (fCurOffset s - fEncodedBytesRemaining s)
                            (newOffset + fEncodedBytesRemaining s);
              Assert (err = CF_NoErr \<longrightarrow> fEncodedBytesRemaining s1 < 4);
              Some s1
            }
            else Some (s\<lparr>fRequestLen := fRequestLen s + newOffset\<rparr>));
     Assert (fRequestLen s1 < kRequestBufferSizeInBytes);
     Some (s1\<lparr>fCurOffset := fCurOffset s1 + newOffset\<rparr>)
   }"

text \<open>The room that is left in the buffer, less one byte.\<close>

definition room :: "HTTPRequestStream \<Rightarrow> nat" where
  "room s = unat (of_nat kRequestBufferSizeInBytes - of_nat (fCurOffset s) - 1 :: UInt32)"

definition get_data ::
  "mem \<Rightarrow> TCPSocket \<Rightarrow> HTTPRequestStream \<Rightarrow> ((int + nat) \<times> TCPSocket \<times> HTTPRequestStream) option" where
  "get_data blk k s =
     (if fRetreatBytes s > 0 then do {
        Assert (fEncodedBytesRemaining s = 0);
        s1 \<leftarrow> take_in blk (s\<lparr>fRetreatBytes := 0\<rparr>) (fRetreatBytes s);
        Some (Inr (fRetreatBytes s), k, s1)
      }
      else case Read k (room s) of (sockErr, data, k1) \<Rightarrow>
        if sockErr = EAGAIN then Some (Inl CF_NoErr, k1, s)
        else if sockErr \<noteq> CF_NoErr then do { Assert (\<not> IsConnected k1); Some (Inl sockErr, k1, s) }
        else do {
          let d = (case data of None \<Rightarrow> [] | Some d \<Rightarrow> d);
          buf \<leftarrow> write_at (fRequestBuffer s) (fCurOffset s) d;
          s1 \<leftarrow> take_in blk (s\<lparr>fRequestBuffer := buf\<rparr>) (length d);
          Some (Inr (length d), k1, s1)
        })"

text \<open>
  The search for the end of the header: an empty line, where a carriage return that may be followed
  by its line feed does not count yet, or a first line when there is no blank in all of the data.
  \<open>n\<close> is the number of lines so far.
\<close>

definition no_blanks :: "mem \<Rightarrow> nat \<Rightarrow> bool" where
  "no_blanks m n \<longleftrightarrow> (of_nat (length (filter (\<lambda>c. c = CHR '' '') (take n m))) :: UInt16) = 0"

partial_function (option) header_loop :: "mem \<Rightarrow> nat \<Rightarrow> UInt16 \<Rightarrow> StringParser \<Rightarrow> (bool \<times> StringParser) option" where
  "header_loop m len lcount p = do {
     (b, _, p1) \<leftarrow> GetThruEOL p;
     if \<not> b then Some (False, p1)
     else do {
       (e, p2) \<leftarrow> ExpectEOL p1;
       if e then do {
         again \<leftarrow> (if GetDataParsedLen p2 > 2
                    then do { t \<leftarrow> slice m (GetDataParsedLen p2 - 3) 3; Some (t = [CHR 0x0D, CHR 0x0A, CHR 0x0D]) }
                    else Some False);
         if again then header_loop m len (lcount + 1) p2 else Some (True, p2)
       }
       else if lcount + 1 = 1 \<and> no_blanks m len then Some (True, p2)
       else header_loop m len (lcount + 1) p2
     }
   }"

declare header_loop.simps [code]

text \<open>A data packet on the connection: a dollar sign, a channel, and the length in two bytes.\<close>

definition interleavedPacketLen :: "mem \<Rightarrow> nat option" where
  "interleavedPacketLen m = do { h \<leftarrow> rd m 2; l \<leftarrow> rd m 3; Some (byte h * 256 + byte l + 4) }"

text \<open>What the data in the buffer amounts to: the result of \<^verbatim>\<open>ReadRequest\<close>, or
  \<^term>\<open>None\<close> for another round.\<close>

definition complete :: "HTTPRequestStream \<Rightarrow> nat \<Rightarrow> HTTPRequestStream" where
  "complete s n = s\<lparr>fRetreatBytes := fRetreatBytes s + (fRequestLen s - n), fRequestLen := n, fRequestPtr := True\<rparr>"

definition examine :: "HTTPRequestStream \<Rightarrow> (int option \<times> HTTPRequestStream) option" where
  "examine s = do {
     c \<leftarrow> rd (fRequest_mem s) 0;
     if c = CHR ''$'' then
       (if fRequestLen s < 4 then Some (None, s)
        else do {
          n \<leftarrow> interleavedPacketLen (fRequest_mem s);
          if n > fRequestLen s then Some (None, s)
          else Some (Some CF_RequestArrived, (complete s n)\<lparr>fIsDataPacket := True\<rparr>)
        })
     else do {
       let s1 = s\<lparr>fIsDataPacket := False\<rparr>;
       (weAreDone, p) \<leftarrow> header_loop (fRequest_mem s1) (fRequestLen s1) 0
                           (StringParser_new (Some \<lparr>Ptr = Some (fRequest_mem s1), Len = fRequestLen s1\<rparr>));
       if weAreDone then Some (Some CF_RequestArrived, complete s1 (fRequestLen s1 - GetDataRemaining p))
       else if fCurOffset s1 = kRequestBufferSizeInBytes - 1
       then Some (Some E2BIG, s1\<lparr>fRequestPtr := True\<rparr>)
       else Some (None, s1)
     }
   }"

definition read_round ::
  "mem \<Rightarrow> TCPSocket \<Rightarrow> HTTPRequestStream \<Rightarrow> (int option \<times> TCPSocket \<times> HTTPRequestStream) option" where
  "read_round blk k s = do {
     (n, s1) \<leftarrow> next_request s;
     (r, k1, s2) \<leftarrow> (if n = 0 then get_data blk k s1 else Some (Inr n, k, s1));
     case r of
       Inl e \<Rightarrow> Some (Some e, k1, s2)
     | Inr newOffset \<Rightarrow> do {
         Assert (newOffset > 0);
         (e, s3) \<leftarrow> examine s2;
         Some (e, k1, s3)
       }
   }"

partial_function (option) ReadRequest ::
  "mem \<Rightarrow> TCPSocket \<Rightarrow> HTTPRequestStream \<Rightarrow> (int \<times> TCPSocket \<times> HTTPRequestStream) option" where
  "ReadRequest blk k s = do {
     (r, k1, s1) \<leftarrow> read_round blk k s;
     case r of Some e \<Rightarrow> Some (e, k1, s1) | None \<Rightarrow> ReadRequest blk k1 s1
   }"

declare ReadRequest.simps [code]

text \<open>Reading the body: the retreat bytes first, then the socket. The second component is what is
  written to the caller's buffer.\<close>

definition Read_stream ::
  "TCPSocket \<Rightarrow> HTTPRequestStream \<Rightarrow> nat \<Rightarrow> (int \<times> string \<times> TCPSocket \<times> HTTPRequestStream) option" where
  "Read_stream k s inBufLen = do {
     let theLengthRead = min (fRetreatBytes s) inBufLen;
     bs \<leftarrow> slice (fRequest_mem s) (fRequestLen s + fRetreatBytesRead s) theLengthRead;
     let s1 = s\<lparr>fRetreatBytes := fRetreatBytes s - theLengthRead, fRetreatBytesRead := fRetreatBytesRead s + theLengthRead\<rparr>;
     if theLengthRead = inBufLen then Some (CF_NoErr, bs, k, s1)
     else case Read k (inBufLen - theLengthRead) of (theErr, data, k1) \<Rightarrow>
       Some (theErr, bs @ (case data of None \<Rightarrow> [] | Some d \<Rightarrow> d), k1, s1)
   }"

section \<open>The search for the end of the header\<close>

lemma slice_remaining:
  assumes "parser_ok p m" "i + n \<le> length (remaining p)"
  shows "slice m (fStartGet p + i) n = Some (take n (drop i (remaining p)))"
proof -
  have l: "length (remaining p) = fEndGet p - fStartGet p" "fStartGet p \<le> fEndGet p" "fEndGet p \<le> length m"
    using length_remaining [OF assms(1)] assms(1) by (auto simp: parser_ok_def guarded_def)
  have "take n (drop i (remaining p)) = take n (drop (fStartGet p + i) m)"
    using assms(2) l by (simp add: remaining_eq [OF assms(1)] drop_take min_def add.commute)
  then show ?thesis using assms(2) l by (simp add: slice_def)
qed

lemma start_remaining:
  assumes "parser_ok p m" "parser_ok p' m" "fEndGet p' = fEndGet p" "remaining p' = drop n (remaining p)" "n \<le> length (remaining p)"
  shows "fStartGet p' = fStartGet p + n"
proof -
  have "length (remaining p') = length (remaining p) - n" using assms(4) by simp
  moreover have "fStartGet p \<le> fEndGet p" "fStartGet p' \<le> fEndGet p'" using assms(1,2) by (auto simp: parser_ok_def)
  ultimately show ?thesis using length_remaining [OF assms(1)] length_remaining [OF assms(2)] assms(3,5) by linarith
qed

text \<open>One step of the loop: the search goes on behind \<open>a\<close> bytes of the text, or it ends.\<close>

lemma header_loop_done:
  assumes "parser_ok p m" "\<forall>c \<in> set (remaining p). byte c \<noteq> 10 \<and> byte c \<noteq> 13"
  shows "\<exists>p'. header_loop m len lc p = Some (False, p')"
proof -
  obtain out p1 where "GetThruEOL p = Some (0 < eol_len (dropWhile (\<lambda>x. byte x \<noteq> 10 \<and> byte x \<noteq> 13) (remaining p)), out, p1)"
    by (rule GetThruEOLE [OF assms(1)])
  moreover have "dropWhile (\<lambda>x. byte x \<noteq> 10 \<and> byte x \<noteq> 13) (remaining p) = []" using assms(2) by simp
  ultimately show ?thesis by (subst header_loop.simps) simp
qed

lemma header_loop_total:
  assumes "parser_ok p m"
  shows "\<exists>b p'. header_loop m len lc p = Some (b, p') \<and> parser_ok p' m \<and> fEndGet p' = fEndGet p \<and>
    (b \<longrightarrow> length (remaining p') < length (remaining p))"
  using assms
proof (induction "length (remaining p)" arbitrary: p lc rule: less_induct)
  case less
  let ?r = "dropWhile (\<lambda>x. byte x \<noteq> 10 \<and> byte x \<noteq> 13) (remaining p)"
  obtain out p1 where 1: "GetThruEOL p = Some (0 < eol_len ?r, out, p1)" "parser_ok p1 m" "remaining p1 = drop (eol_len ?r) ?r"
    "fEndGet p1 = fEndGet p"
    by (rule GetThruEOLE [OF less.prems]) (simp add: Let_def)
  obtain p2 where 2: "ExpectEOL p1 = Some (0 < eol_len (remaining p1), p2)" "parser_ok p2 m"
    "remaining p2 = drop (eol_len (remaining p1)) (remaining p1)" "fEndGet p2 = fEndGet p1"
    by (rule ExpectEOLE [OF 1(2)])
  show ?case
  proof (cases "0 < eol_len ?r")
    case False
    then show ?thesis using 1 by (subst header_loop.simps) auto
  next
    case True
    have "length ?r \<le> length (remaining p)" by (rule length_dropWhile_le)
    then have s: "length (remaining p1) < length (remaining p)" "length (remaining p2) < length (remaining p)"
      using True eol_len_le [of ?r] 1(3) 2(3) by auto
    note IH = less.hyps [OF s(2) 2(2), of "lc + 1"]
    have "\<exists>b p'. (if b0 then header_loop m len (lc + 1) p2 else Some (True, p2)) = Some (b, p') \<and> parser_ok p' m \<and>
        fEndGet p' = fEndGet p \<and> (b \<longrightarrow> length (remaining p') < length (remaining p))" for b0
      using IH 2 1 s by (cases b0) fastforce+
    note fin = this
    have sl: "slice m (GetDataParsedLen p2 - 3) 3 = Some (take 3 (drop (GetDataParsedLen p2 - 3) m))" if "GetDataParsedLen p2 > 2"
      using that 2(2) by (auto simp: slice_def GetDataParsedLen_def parser_ok_def guarded_def)
    show ?thesis
    proof (cases "0 < eol_len (remaining p1)")
      case e: True
      show ?thesis
      proof (cases "GetDataParsedLen p2 > 2")
        case True
        then show ?thesis using fin [of "take 3 (drop (GetDataParsedLen p2 - 3) m) = [CHR 0x0D, CHR 0x0A, CHR 0x0D]"] 1 2 e sl \<open>0 < eol_len ?r\<close>
          by (subst header_loop.simps) simp
      next
        case False
        then show ?thesis using fin [of False] 1 2 e \<open>0 < eol_len ?r\<close> by (subst header_loop.simps) simp
      qed
    next
      case False
      then have H: "header_loop m len lc p = (if lc + 1 = 1 \<and> no_blanks m len then Some (True, p2) else header_loop m len (lc + 1) p2)"
        using 1 2 True by (subst header_loop.simps) simp
      show ?thesis
      proof (cases "lc + 1 = 1 \<and> no_blanks m len")
        case True
        show ?thesis unfolding H if_P [OF True] using fin [of False] by simp
      next
        case False
        show ?thesis unfolding H if_not_P [OF False] using fin [of True] by simp
      qed
    qed
  qed
qed

text \<open>A header is a sequence of lines and an empty line.\<close>

definition line_ok :: "string \<Rightarrow> bool" where
  "line_ok l \<longleftrightarrow> l \<noteq> [] \<and> (\<forall>c \<in> set l. byte c \<noteq> 10 \<and> byte c \<noteq> 13)"

definition head_text :: "string list \<Rightarrow> string" where
  "head_text ls = concat (map (\<lambda>l. l @ crlf) ls) @ crlf"

lemma cr_lf_byte: "byte (CHR 0x0D) = 13" "byte (CHR 0x0A) = 10"
  by (simp_all add: byte_def)

lemma dropWhile_line:
  assumes "line_ok l"
  shows "dropWhile (\<lambda>x. byte x \<noteq> 10 \<and> byte x \<noteq> 13) (l @ CHR 0x0D # r) = CHR 0x0D # r"
  using assms by (intro dropWhile_stop) (auto simp: line_ok_def cr_lf_byte)

text \<open>A line with its end is skipped; what happens then depends on what has arrived behind it.\<close>

lemma header_line_step:
  assumes "parser_ok p m" "remaining p = l @ CHR 0x0D # CHR 0x0A # r" "line_ok l"
  obtains out p1 where "GetThruEOL p = Some (True, out, p1)" "parser_ok p1 m" "remaining p1 = r" "fEndGet p1 = fEndGet p"
proof -
  have d: "dropWhile (\<lambda>x. byte x \<noteq> 10 \<and> byte x \<noteq> 13) (remaining p) = CHR 0x0D # CHR 0x0A # r"
    unfolding assms(2) by (rule dropWhile_line [OF assms(3)])
  obtain out p1 where "GetThruEOL p = Some (0 < eol_len (CHR 0x0D # CHR 0x0A # r), out, p1)" "parser_ok p1 m"
    "remaining p1 = drop (eol_len (CHR 0x0D # CHR 0x0A # r)) (CHR 0x0D # CHR 0x0A # r)" "fEndGet p1 = fEndGet p"
    by (rule GetThruEOLE [OF assms(1), unfolded d]) (simp add: Let_def)
  then show thesis using that [of out p1] by simp
qed

lemma empty_line_end:
  assumes "parser_ok p m" "remaining p = l @ CHR 0x0D # CHR 0x0A # CHR 0x0D # r" "line_ok l"
  shows "if r \<noteq> [] \<and> hd r = CHR 0x0A
    then \<exists>p'. header_loop m len lc p = Some (True, p') \<and> parser_ok p' m \<and> remaining p' = tl r \<and> fEndGet p' = fEndGet p
    else r = [] \<longrightarrow> (\<exists>p'. header_loop m len lc p = Some (False, p'))"
proof -
  obtain out p1 where 1: "GetThruEOL p = Some (True, out, p1)" "parser_ok p1 m" "remaining p1 = CHR 0x0D # r" "fEndGet p1 = fEndGet p"
    by (rule header_line_step [OF assms])
  obtain p2 where 2: "ExpectEOL p1 = Some (0 < eol_len (CHR 0x0D # r), p2)" "parser_ok p2 m"
    "remaining p2 = drop (eol_len (CHR 0x0D # r)) (CHR 0x0D # r)" "fEndGet p2 = fEndGet p1"
    by (rule ExpectEOLE [OF 1(2), unfolded 1(3)])
  have n: "remaining p2 = drop (length l + 2 + eol_len (CHR 0x0D # r)) (remaining p)"
    unfolding 2(3) assms(2) by (cases r) (auto simp: numeral_2_eq_2)
  have le: "length l + 2 + eol_len (CHR 0x0D # r) \<le> length (remaining p)"
    using eol_len_le [of "CHR 0x0D # r"] unfolding assms(2) by simp
  have f: "fStartGet p2 = fStartGet p + (length l + 2 + eol_len (CHR 0x0D # r))"
    by (rule start_remaining [OF assms(1) 2(2) _ n le]) (simp add: 1(4) 2(4))
  show ?thesis
  proof (cases "r \<noteq> [] \<and> hd r = CHR 0x0A")
    case True
    then obtain r' where r: "r = CHR 0x0A # r'" by (cases r) auto
    have "slice m (fStartGet p + (length l + 1)) 3 = Some (take 3 (drop (length l + 1) (remaining p)))"
      by (rule slice_remaining [OF assms(1)]) (simp add: assms(2) r)
    moreover have "fStartGet p2 - 3 = fStartGet p + (length l + 1)" "2 < fStartGet p2" using f r by simp_all
    ultimately have "slice m (GetDataParsedLen p2 - 3) 3 = Some [CHR 0x0A, CHR 0x0D, CHR 0x0A]" "2 < GetDataParsedLen p2"
      by (simp_all add: GetDataParsedLen_def assms(2) r)
    then have "header_loop m len lc p = Some (True, p2)" using 1 2 r by (subst header_loop.simps) simp
    then show ?thesis using True 1(4) 2 r by simp
  next
    case False
    have "\<exists>p'. header_loop m len lc p = Some (False, p')" if r: "r = []"
    proof -
      have "slice m (fStartGet p + length l) 3 = Some (take 3 (drop (length l) (remaining p)))"
        by (rule slice_remaining [OF assms(1)]) (simp add: assms(2) r)
      moreover have "fStartGet p2 - 3 = fStartGet p + length l" "2 < fStartGet p2" using f r by simp_all
      ultimately have "slice m (GetDataParsedLen p2 - 3) 3 = Some [CHR 0x0D, CHR 0x0A, CHR 0x0D]" "2 < GetDataParsedLen p2"
        by (simp_all add: GetDataParsedLen_def assms(2) r)
      moreover have "remaining p2 = []" using 2(3) r by simp
      ultimately show ?thesis using 1 2 r header_loop_done [OF 2(2), of len "lc + 1"] by (subst header_loop.simps) simp
    qed
    then show ?thesis using False by auto
  qed
qed

lemma no_eol_len: "\<forall>c \<in> set r. byte c \<noteq> 10 \<and> byte c \<noteq> 13 \<Longrightarrow> eol_len (r @ s) = (if r = [] then eol_len s else 0)"
  by (cases r; cases "tl r @ s") (auto simp: cr_lf_byte)

text \<open>On a prefix of a text that starts with a header the search succeeds when the whole header is
  there, and ends exactly behind it.\<close>

lemma header_loop_scan:
  assumes "ls \<noteq> []" "\<forall>l \<in> set ls. line_ok l" "parser_ok p m" "\<not> no_blanks m len"
    "remaining p = take n (head_text ls @ x)" "n \<le> length (head_text ls @ x)"
  shows "if length (head_text ls) \<le> n
    then \<exists>p'. header_loop m len lc p = Some (True, p') \<and> parser_ok p' m \<and> fEndGet p' = fEndGet p \<and>
           remaining p' = drop (length (head_text ls)) (remaining p)
    else \<exists>p'. header_loop m len lc p = Some (False, p')"
  using assms
proof (induction ls arbitrary: p n lc)
  case Nil
  then show ?case by simp
next
  case (Cons l ls)
  let ?Y = "head_text ls @ x"
  have l: "line_ok l" "\<forall>c \<in> set l. byte c \<noteq> 10 \<and> byte c \<noteq> 13" using Cons.prems(2) by (auto simp: line_ok_def)
  have t: "head_text (l # ls) = l @ CHR 0x0D # CHR 0x0A # head_text ls" by (simp add: head_text_def crlf_def)
  have r: "remaining p = take n (l @ CHR 0x0D # CHR 0x0A # ?Y)" using Cons.prems(5) t by simp
  consider "n \<le> length l" | "n = length l + 1" | "length l + 2 \<le> n" by linarith
  then show ?case
  proof cases
    case 1
    then have "\<forall>c \<in> set (remaining p). byte c \<noteq> 10 \<and> byte c \<noteq> 13" using l(2) r set_take_subset [of n l] by auto
    then show ?thesis using header_loop_done [OF Cons.prems(3)] 1 t by simp
  next
    case 2
    then have r1: "remaining p = l @ [CHR 0x0D]" using r by simp
    have d: "dropWhile (\<lambda>x. byte x \<noteq> 10 \<and> byte x \<noteq> 13) (remaining p) = [CHR 0x0D]"
      unfolding r1 by (rule dropWhile_line [OF l(1)])
    obtain out p1 where 1: "GetThruEOL p = Some (0 < eol_len [CHR 0x0D], out, p1)" "parser_ok p1 m"
      "remaining p1 = drop (eol_len [CHR 0x0D]) [CHR 0x0D]"
      by (rule GetThruEOLE [OF Cons.prems(3), unfolded d]) (simp add: Let_def)
    obtain p2 where 2: "ExpectEOL p1 = Some (0 < eol_len (remaining p1), p2)" "parser_ok p2 m"
      "remaining p2 = drop (eol_len (remaining p1)) (remaining p1)"
      by (rule ExpectEOLE [OF 1(2)])
    have "remaining p1 = []" "remaining p2 = []" using 1(3) 2(3) by simp_all
    then have "\<exists>p'. header_loop m len lc p = Some (False, p')"
      using 1 2 header_loop_done [OF 2(2), of len "lc + 1"] Cons.prems(4) by (subst header_loop.simps) simp
    then show ?thesis using t \<open>n = length l + 1\<close> by simp
  next
    case 3
    define k where "k = n - length l - 2"
    have n: "n = length l + Suc (Suc k)" using 3 by (simp add: k_def)
    have r1: "remaining p = l @ CHR 0x0D # CHR 0x0A # take k ?Y" unfolding r n by simp
    show ?thesis
    proof (cases "ls = []")
      case False
      obtain out p1 where 1: "GetThruEOL p = Some (True, out, p1)" "parser_ok p1 m" "remaining p1 = take k ?Y" "fEndGet p1 = fEndGet p"
        by (rule header_line_step [OF Cons.prems(3) r1 l(1)])
      obtain p2 where 2: "ExpectEOL p1 = Some (0 < eol_len (remaining p1), p2)" "parser_ok p2 m"
        "remaining p2 = drop (eol_len (remaining p1)) (remaining p1)" "fEndGet p2 = fEndGet p1"
        by (rule ExpectEOLE [OF 1(2)])
      obtain l' ls' where ls: "ls = l' # ls'" using False by (cases ls) auto
      then have "line_ok l'" using Cons.prems(2) by simp
      then obtain c y where c: "l' = c # y" "byte c \<noteq> 10 \<and> byte c \<noteq> 13" by (cases l') (auto simp: line_ok_def)
      have Y: "?Y = c # y @ crlf @ head_text ls' @ x" by (simp add: ls c(1) head_text_def)
      have e: "eol_len (remaining p1) = 0"
        unfolding 1(3) Y using c(2) no_eol_len [of "[c]" "take (k - 1) (y @ crlf @ head_text ls' @ x)"] by (cases k) simp_all
      have H: "header_loop m len lc p = header_loop m len (lc + 1) p2"
        using 1 2 e Cons.prems(4) by (subst header_loop.simps) simp
      have "if length (head_text ls) \<le> k
        then \<exists>p'. header_loop m len (lc + 1) p2 = Some (True, p') \<and> parser_ok p' m \<and> fEndGet p' = fEndGet p2 \<and>
           remaining p' = drop (length (head_text ls)) (remaining p2)
        else \<exists>p'. header_loop m len (lc + 1) p2 = Some (False, p')"
        by (rule Cons.IH) (use False Cons.prems 2 e 1 t n in simp_all)
      then show ?thesis unfolding H t using 1 2 e r1 n by (cases "length (head_text ls) \<le> k") simp_all
    next
      case True
      have Y: "?Y = CHR 0x0D # CHR 0x0A # x" using True by (simp add: head_text_def crlf_def)
      show ?thesis
      proof (cases k)
        case 0
        then have r2: "remaining p = l @ CHR 0x0D # CHR 0x0A # []" using r1 by simp
        obtain out p1 where 1: "GetThruEOL p = Some (True, out, p1)" "parser_ok p1 m" "remaining p1 = []"
          by (rule header_line_step [OF Cons.prems(3) r2 l(1)])
        obtain p2 where 2: "ExpectEOL p1 = Some (0 < eol_len (remaining p1), p2)" "parser_ok p2 m"
          "remaining p2 = drop (eol_len (remaining p1)) (remaining p1)"
          by (rule ExpectEOLE [OF 1(2)])
        have "\<exists>p'. header_loop m len lc p = Some (False, p')"
          using 1 2 header_loop_done [OF 2(2), of len "lc + 1"] Cons.prems(4) by (subst header_loop.simps) simp
        then show ?thesis using t n 0 True by (simp add: head_text_def crlf_def)
      next
        case (Suc j)
        have r2: "remaining p = l @ CHR 0x0D # CHR 0x0A # CHR 0x0D # take j (CHR 0x0A # x)" using r1 Y Suc by simp
        have h: "length (head_text (l # ls)) = length l + 4" using t True by (simp add: head_text_def crlf_def)
        have h2: "drop (length l + 4) (remaining p) = tl (take j (CHR 0x0A # x))"
          unfolding r2 by (cases j) (simp_all add: numeral_eq_Suc)
        show ?thesis
          using empty_line_end [OF Cons.prems(3) r2 l(1), of len lc] unfolding h h2 n Suc by (cases j) auto
      qed
    qed
  qed
qed

section \<open>What the stream still holds\<close>

text \<open>
  A stream that does not decode. Its unread input are the bytes in its buffer behind the part that
  was handed out, followed by what the socket will deliver.
\<close>

definition rs_ok :: "HTTPRequestStream \<Rightarrow> bool" where
  "rs_ok s \<longleftrightarrow> \<not> fDecode s \<and> fDecoded s = None \<and> fEncodedBytesRemaining s = 0 \<and>
     length (fRequestBuffer s) = kRequestBufferSizeInBytes \<and>
     fRequestLen s + fRetreatBytesRead s + fRetreatBytes s < kRequestBufferSizeInBytes \<and>
     (if fRequestPtr s then 0 < fRequestLen s
      else fRetreatBytes s = 0 \<and> fRetreatBytesRead s = 0 \<and> fCurOffset s = fRequestLen s)"

definition request_of :: "HTTPRequestStream \<Rightarrow> string" where
  "request_of s = take (fRequestLen s) (fRequestBuffer s)"

definition buffered :: "HTTPRequestStream \<Rightarrow> string" where
  "buffered s =
     (if fRequestPtr s then take (fRetreatBytes s) (drop (fRequestLen s + fRetreatBytesRead s) (fRequestBuffer s))
      else request_of s)"

definition unread :: "HTTPRequestStream \<Rightarrow> TCPSocket \<Rightarrow> string" where
  "unread s k = buffered s @ arrivals (sRecvs k)"

lemma rs_ok_new: "length buf = kRequestBufferSizeInBytes \<Longrightarrow> rs_ok (HTTPRequestStream_new buf)"
  by (simp add: rs_ok_def HTTPRequestStream_new_def kRequestBufferSizeInBytes_def CF_MAX_REQUEST_BUFFER_SIZE_def)

lemma next_request_ok:
  assumes "rs_ok s"
  shows "\<exists>s1. next_request s = Some (if fRequestPtr s then length (buffered s) else 0, s1) \<and> rs_ok s1 \<and> \<not> fRequestPtr s1 \<and>
    buffered s1 = buffered s \<and> fIsDataPacket s1 = fIsDataPacket s \<and> (\<not> fRequestPtr s \<longrightarrow> s1 = s)"
proof (cases "fRequestPtr s")
  case False
  then show ?thesis using assms by (simp add: next_request_def)
next
  case True
  have b: "length (fRequestBuffer s) = kRequestBufferSizeInBytes" "fRequestLen s + fRetreatBytesRead s + fRetreatBytes s < kRequestBufferSizeInBytes"
    "0 < fRequestLen s" "fDecoded s = None" "fEncodedBytesRemaining s = 0"
    using assms True by (auto simp: rs_ok_def)
  have l: "length (buffered s) = fRetreatBytes s" using True b by (simp add: buffered_def)
  show ?thesis
  proof (cases "fRetreatBytes s = 0")
    case z: True
    then show ?thesis using True b assms l
      by (auto simp: next_request_def rs_ok_def buffered_def request_of_def)
  next
    case False
    have "memmove (fRequest_mem s) 0 (fRequestLen s + fRetreatBytesRead s) (fRetreatBytes s) =
        Some (buffered s @ drop (fRetreatBytes s) (fRequestBuffer s))"
      using True b l by (simp add: memmove_def slice_def fRequest_mem_def write_at_def buffered_def)
    then show ?thesis using True False b assms l
      by (auto simp: next_request_def set_fRequest_mem_def rs_ok_def buffered_def request_of_def)
  qed
qed

lemma room_eq: "rs_ok s \<Longrightarrow> \<not> fRequestPtr s \<Longrightarrow> room s = kRequestBufferSizeInBytes - 1 - fRequestLen s"
proof -
  assume a: "rs_ok s" "\<not> fRequestPtr s"
  then have "fRequestLen s < 2048" "fCurOffset s = fRequestLen s"
    by (auto simp: rs_ok_def kRequestBufferSizeInBytes_def CF_MAX_REQUEST_BUFFER_SIZE_def)
  then have "(of_nat kRequestBufferSizeInBytes - of_nat (fCurOffset s) - 1 :: UInt32) = of_nat (2048 - fRequestLen s - 1)"
    by (simp add: kRequestBufferSizeInBytes_def CF_MAX_REQUEST_BUFFER_SIZE_def of_nat_diff)
  then show ?thesis
    by (simp add: room_def unat_of_nat kRequestBufferSizeInBytes_def CF_MAX_REQUEST_BUFFER_SIZE_def)
qed

text \<open>One reading: everything that arrives goes behind what is in the buffer.\<close>

definition more_data :: "HTTPRequestStream \<Rightarrow> string \<Rightarrow> HTTPRequestStream" where
  "more_data s d = s\<lparr>fRequestBuffer := take (fCurOffset s) (fRequestBuffer s) @ d @ drop (fCurOffset s + length d) (fRequestBuffer s),
     fRequestLen := fRequestLen s + length d, fCurOffset := fCurOffset s + length d\<rparr>"

lemma more_data_ok:
  assumes "rs_ok s" "\<not> fRequestPtr s" "length d \<le> room s"
  shows "rs_ok (more_data s d)" "\<not> fRequestPtr (more_data s d)" "buffered (more_data s d) = buffered s @ d"
    "fRequestLen (more_data s d) = fRequestLen s + length d"
  using assms by (auto simp: rs_ok_def more_data_def buffered_def request_of_def room_eq)

lemma get_data_ok:
  assumes "rs_ok s" "\<not> fRequestPtr s" "recv_ok k"
  shows "\<exists>r k' s'. get_data blk k s = Some (r, k', s') \<and> recv_ok k' \<and> sWire k' = sWire k \<and> sSends k' = sSends k \<and>
    (case r of
       Inl e \<Rightarrow> s' = s \<and> arrivals (sRecvs k') = arrivals (sRecvs k) \<and> (e = CF_NoErr \<or> 0 < e \<and> e \<noteq> E2BIG \<and> \<not> IsConnected k')
     | Inr n \<Rightarrow> \<exists>d. s' = more_data s d \<and> n = length d \<and> 0 < n \<and> n \<le> room s \<and> arrivals (sRecvs k) = d @ arrivals (sRecvs k'))"
proof -
  have s: "fRetreatBytes s = 0" "fCurOffset s = fRequestLen s" "\<not> fDecode s" "length (fRequestBuffer s) = kRequestBufferSizeInBytes"
    "fRequestLen s < kRequestBufferSizeInBytes"
    using assms(1,2) by (auto simp: rs_ok_def)
  show ?thesis
  proof (rule ReadE [OF assms(3), of "room s"])
    fix d k'
    assume a: "Read k (room s) = (CF_NoErr, Some d, k')" "d \<noteq> []" "length d \<le> room s"
      "arrivals (sRecvs k) = d @ arrivals (sRecvs k')" "recv_ok k'" "sWire k' = sWire k" "sSends k' = sSends k"
    have "fRequestLen s + length d < kRequestBufferSizeInBytes" using a(3) s(5) room_eq [OF assms(1,2)] by linarith
    then have "get_data blk k s = Some (Inr (length d), k', more_data s d)"
      using a(1) s room_eq [OF assms(1,2)]
      by (simp add: get_data_def take_in_def write_at_def more_data_def CF_NoErr_def EAGAIN_def)
    then show ?thesis using a by auto
  qed (use s in \<open>auto simp: get_data_def CF_NoErr_def EAGAIN_def E2BIG_def\<close>)
qed

text \<open>Looking at the data in the buffer.\<close>

lemma examine_ok:
  assumes "rs_ok s" "\<not> fRequestPtr s" "0 < fRequestLen s"
  shows "\<exists>r s'. examine s = Some (r, s') \<and> rs_ok s' \<and>
    (case r of None \<Rightarrow> \<not> fRequestPtr s' \<and> buffered s' = buffered s
     | Some e \<Rightarrow> e \<in> {CF_RequestArrived, E2BIG} \<and> fRequestPtr s' \<and> buffered s = request_of s' @ buffered s')"
proof -
  let ?m = "fRequestBuffer s"
  have m: "fRequest_mem s = ?m" "length ?m = kRequestBufferSizeInBytes" "fRequestLen s < kRequestBufferSizeInBytes"
    "fRetreatBytes s = 0" "fRetreatBytesRead s = 0" "fCurOffset s = fRequestLen s" "\<not> fDecode s" "fDecoded s = None"
    "fEncodedBytesRemaining s = 0"
    using assms by (auto simp: rs_ok_def fRequest_mem_def)
  have big: "4 < kRequestBufferSizeInBytes" by (simp add: kRequestBufferSizeInBytes_def CF_MAX_REQUEST_BUFFER_SIZE_def)
  have c: "rs_ok ((complete s n)\<lparr>fIsDataPacket := b\<rparr>) \<and> fRequestPtr (complete s n) \<and>
      buffered s = request_of ((complete s n)\<lparr>fIsDataPacket := b\<rparr>) @ buffered ((complete s n)\<lparr>fIsDataPacket := b\<rparr>)"
    if "0 < n" "n \<le> fRequestLen s" for n b
    using that assms(2) m
    by (auto simp: complete_def rs_ok_def buffered_def request_of_def take_drop min_def
        simp flip: drop_take take_add) (metis append_take_drop_id take_take min.absorb1 take_drop)
  show ?thesis
  proof (cases "?m ! 0 = CHR ''$''")
    case True
    have "interleavedPacketLen ?m = Some (byte (?m ! 2) * 256 + byte (?m ! 3) + 4)" if "4 \<le> fRequestLen s"
      using m(2,3) that by (simp add: interleavedPacketLen_def)
    then show ?thesis using True m big assms c [of "byte (?m ! 2) * 256 + byte (?m ! 3) + 4" True]
      by (cases "fRequestLen s < 4"; cases "byte (?m ! 2) * 256 + byte (?m ! 3) + 4 > fRequestLen s")
        (auto simp: examine_def complete_def)
  next
    case False
    let ?s = "s\<lparr>fIsDataPacket := False\<rparr>"
    let ?p = "StringParser_new (Some \<lparr>Ptr = Some ?m, Len = fRequestLen s\<rparr>)"
    have p: "parser_ok ?p ?m" "remaining ?p = request_of s"
      using StringParser_new_ok [of "\<lparr>Ptr = Some ?m, Len = fRequestLen s\<rparr>" ?m] m
      by (simp_all add: stream_ok_def str_def request_of_def)
    obtain b p' where l: "header_loop ?m (fRequestLen s) 0 ?p = Some (b, p')" "parser_ok p' ?m"
      "b \<longrightarrow> length (remaining p') < length (remaining ?p)"
      using header_loop_total [OF p(1)] by blast
    have g: "GetDataRemaining p' < fRequestLen s" if b
      using l(3) that m by (simp add: p(2) GetDataRemaining_ok [OF l(2)] request_of_def)
    have E: "examine s = (if b then Some (Some CF_RequestArrived, complete ?s (fRequestLen s - GetDataRemaining p'))
        else if fCurOffset s = kRequestBufferSizeInBytes - 1 then Some (Some E2BIG, ?s\<lparr>fRequestPtr := True\<rparr>) else Some (None, ?s))"
      using False m big l(1) by (simp add: examine_def fRequest_mem_def)
    have cs: "complete ?s n = (complete s n)\<lparr>fIsDataPacket := False\<rparr>" for n by (simp add: complete_def)
    show ?thesis
    proof (cases b)
      case True
      then show ?thesis using c [of "fRequestLen s - GetDataRemaining p'" False] g unfolding E cs by simp
    next
      case False
      then show ?thesis unfolding E using assms m
        by (auto simp: rs_ok_def buffered_def request_of_def)
    qed
  qed
qed

text \<open>One round, and the whole loop.\<close>

lemma read_round_ok:
  assumes "rs_ok s" "recv_ok k"
  shows "\<exists>r k' s'. read_round blk k s = Some (r, k', s') \<and> rs_ok s' \<and> recv_ok k' \<and> sWire k' = sWire k \<and> sSends k' = sSends k \<and>
    (case r of
       None \<Rightarrow> \<not> fRequestPtr s' \<and> unread s k = unread s' k' \<and>
         (length (arrivals (sRecvs k')) < length (arrivals (sRecvs k)) \<or> fRequestPtr s \<and> sRecvs k' = sRecvs k)
     | Some e \<Rightarrow>
         if fRequestPtr s' then e \<in> {CF_RequestArrived, E2BIG} \<and> unread s k = request_of s' @ unread s' k'
         else (e = CF_NoErr \<or> 0 < e \<and> e \<noteq> E2BIG \<and> \<not> IsConnected k') \<and> unread s k = unread s' k')"
proof -
  obtain s1 where 1: "next_request s = Some (if fRequestPtr s then length (buffered s) else 0, s1)" "rs_ok s1" "\<not> fRequestPtr s1"
    "buffered s1 = buffered s"
    using next_request_ok [OF assms(1)] by blast
  have ex: "\<exists>r s'. examine t = Some (r, s') \<and> rs_ok s' \<and>
    (case r of None \<Rightarrow> \<not> fRequestPtr s' \<and> buffered s' = buffered t
     | Some e \<Rightarrow> e \<in> {CF_RequestArrived, E2BIG} \<and> fRequestPtr s' \<and> buffered t = request_of s' @ buffered s')"
    if "rs_ok t" "\<not> fRequestPtr t" "0 < length (buffered t)" for t
    using examine_ok [OF that(1,2)] that by (simp add: buffered_def request_of_def rs_ok_def)
  show ?thesis
  proof (cases "fRequestPtr s \<and> buffered s \<noteq> []")
    case True
    obtain r s' where e: "examine s1 = Some (r, s')" "rs_ok s'"
      "case r of None \<Rightarrow> \<not> fRequestPtr s' \<and> buffered s' = buffered s1
       | Some e \<Rightarrow> e \<in> {CF_RequestArrived, E2BIG} \<and> fRequestPtr s' \<and> buffered s1 = request_of s' @ buffered s'"
      using ex [OF 1(2,3)] True 1(4) by auto
    have "read_round blk k s = Some (r, k, s')" using True 1(1) e(1) by (simp add: read_round_def)
    then show ?thesis using e(2,3) assms(2) True 1(4) by (cases r) (auto simp: unread_def)
  next
    case False
    then have n: "(if fRequestPtr s then length (buffered s) else 0) = 0" by auto
    obtain r k' s2 where g: "get_data blk k s1 = Some (r, k', s2)" "recv_ok k'" "sWire k' = sWire k" "sSends k' = sSends k"
      "case r of
       Inl e \<Rightarrow> s2 = s1 \<and> arrivals (sRecvs k') = arrivals (sRecvs k) \<and> (e = CF_NoErr \<or> 0 < e \<and> e \<noteq> E2BIG \<and> \<not> IsConnected k')
     | Inr n \<Rightarrow> \<exists>d. s2 = more_data s1 d \<and> n = length d \<and> 0 < n \<and> n \<le> room s1 \<and> arrivals (sRecvs k) = d @ arrivals (sRecvs k')"
      using get_data_ok [OF 1(2,3) assms(2)] by blast
    show ?thesis
    proof (cases r)
      case (Inl e)
      then have "read_round blk k s = Some (Some e, k', s1)" using 1(1) n g(1,5) by (simp add: read_round_def)
      then show ?thesis using Inl g(2-5) 1 by (auto simp: unread_def)
    next
      case (Inr n)
      then obtain d where d: "s2 = more_data s1 d" "n = length d" "0 < n" "n \<le> room s1" "arrivals (sRecvs k) = d @ arrivals (sRecvs k')"
        using g(5) by auto
      note m = more_data_ok [OF 1(2,3), of d] 
      obtain q s' where e: "examine s2 = Some (q, s')" "rs_ok s'"
        "case q of None \<Rightarrow> \<not> fRequestPtr s' \<and> buffered s' = buffered s2
         | Some e \<Rightarrow> e \<in> {CF_RequestArrived, E2BIG} \<and> fRequestPtr s' \<and> buffered s2 = request_of s' @ buffered s'"
        using ex [of s2] m d by auto
      have "read_round blk k s = Some (q, k', s')" using 1(1) \<open>(if _ then _ else _) = 0\<close> g(1) Inr d(3) e(1) by (simp add: read_round_def)
      then show ?thesis using e(2,3) g(2-4) d m 1(4) by (cases q) (auto simp: unread_def)
    qed
  qed
qed

lemma ReadRequest_ok:
  assumes "rs_ok s" "recv_ok k"
  shows "\<exists>e k' s'. ReadRequest blk k s = Some (e, k', s') \<and> rs_ok s' \<and> recv_ok k' \<and> sWire k' = sWire k \<and> sSends k' = sSends k \<and>
    (if fRequestPtr s' then e \<in> {CF_RequestArrived, E2BIG} \<and> unread s k = request_of s' @ unread s' k'
     else (e = CF_NoErr \<or> 0 < e \<and> e \<noteq> E2BIG \<and> \<not> IsConnected k') \<and> unread s k = unread s' k')"
  using assms
proof (induction "2 * length (arrivals (sRecvs k)) + (if fRequestPtr s then 1 else 0)" arbitrary: k s rule: less_induct)
  case less
  obtain r k' s' where r: "read_round blk k s = Some (r, k', s')" "rs_ok s'" "recv_ok k'" "sWire k' = sWire k" "sSends k' = sSends k"
    "case r of
       None \<Rightarrow> \<not> fRequestPtr s' \<and> unread s k = unread s' k' \<and>
         (length (arrivals (sRecvs k')) < length (arrivals (sRecvs k)) \<or> fRequestPtr s \<and> sRecvs k' = sRecvs k)
     | Some e \<Rightarrow>
         if fRequestPtr s' then e \<in> {CF_RequestArrived, E2BIG} \<and> unread s k = request_of s' @ unread s' k'
         else (e = CF_NoErr \<or> 0 < e \<and> e \<noteq> E2BIG \<and> \<not> IsConnected k') \<and> unread s k = unread s' k'"
    using read_round_ok [OF less.prems] by blast
  show ?case
  proof (cases r)
    case (Some e)
    then have "ReadRequest blk k s = Some (e, k', s')" using r(1) by (simp add: ReadRequest.simps)
    then show ?thesis using r(2-6) Some by simp
  next
    case None
    then have R: "ReadRequest blk k s = ReadRequest blk k' s'" using r(1) by (subst ReadRequest.simps) simp
    have m: "2 * length (arrivals (sRecvs k')) + (if fRequestPtr s' then 1 else 0) <
      2 * length (arrivals (sRecvs k)) + (if fRequestPtr s then 1 else 0)"
      using r(6) None by auto
    have u: "unread s k = unread s' k'" using r(6) None by simp
    from less.hyps [OF m r(2,3)] show ?thesis unfolding R u r(4,5) .
  qed
qed

text \<open>C3: On a stream that does not decode from base64, reading a request always returns, within the buffer, and never
  loses, repeats or reorders input: when a request has arrived, or the buffer is full, the bytes handed out followed by
  what is still unread are what was unread before; otherwise everything is still unread, and an error other than
  success means that the socket is disconnected. That error is then the positive number of the operating system, where
  the header file documents CF_RequestFailed, which is -1, for a client that has disconnected.\<close>

theorem ReadRequest_conserves:
  assumes "rs_ok s" "recv_ok k"
  shows "\<exists>e k' s'. ReadRequest blk k s = Some (e, k', s') \<and> rs_ok s' \<and> recv_ok k' \<and> sWire k' = sWire k \<and>
    (if fRequestPtr s' then e \<in> {CF_RequestArrived, E2BIG} \<and> unread s k = request_of s' @ unread s' k'
     else (e = CF_NoErr \<or> 0 < e \<and> e \<noteq> E2BIG \<and> \<not> IsConnected k') \<and> unread s k = unread s' k')"
  using ReadRequest_ok [OF assms] by blast

text \<open>A header that arrives in pieces.\<close>

definition header_lines :: "string list \<Rightarrow> bool" where
  "header_lines ls \<longleftrightarrow> ls \<noteq> [] \<and> (\<forall>l \<in> set ls. line_ok l) \<and> CHR '' '' \<in> set (hd ls) \<and> hd (hd ls) \<noteq> CHR ''$''"

lemma examine_header:
  assumes "rs_ok s" "\<not> fRequestPtr s" "buffered s = take n (head_text ls @ x)" "n \<le> length (head_text ls @ x)" "0 < n" "header_lines ls"
  shows "examine s = (if length (head_text ls) \<le> n
    then Some (Some CF_RequestArrived, complete (s\<lparr>fIsDataPacket := False\<rparr>) (length (head_text ls)))
    else if fRequestLen s = kRequestBufferSizeInBytes - 1
    then Some (Some E2BIG, s\<lparr>fIsDataPacket := False, fRequestPtr := True\<rparr>) else Some (None, s\<lparr>fIsDataPacket := False\<rparr>))"
proof -
  let ?m = "fRequestBuffer s" and ?s = "s\<lparr>fIsDataPacket := False\<rparr>"
  have m: "fRequest_mem s = ?m" "fRequest_mem ?s = ?m" "length ?m = 2048" "fRequestLen s < 2048" "fCurOffset s = fRequestLen s"
    using assms(1,2) by (auto simp: rs_ok_def fRequest_mem_def kRequestBufferSizeInBytes_def CF_MAX_REQUEST_BUFFER_SIZE_def)
  have b: "request_of s = take n (head_text ls @ x)" using assms(2,3) by (simp add: buffered_def)
  have len: "fRequestLen s = n" using arg_cong [OF b, of length] m(3,4) assms(4) by (simp add: request_of_def)
  obtain l ls' where ls: "ls = l # ls'" using assms(6) by (cases ls) (auto simp: header_lines_def)
  then obtain c l' where c: "l = c # l'" "c \<noteq> CHR ''$''" using assms(6) by (cases l) (auto simp: header_lines_def line_ok_def)
  have h: "head_text ls @ x = l @ CHR 0x0D # CHR 0x0A # head_text ls' @ x" by (simp add: ls head_text_def crlf_def)
  have c0: "?m ! 0 = c" using b len assms(5) m(3) unfolding request_of_def h c(1) by (cases ?m; cases n) auto
  let ?p = "StringParser_new (Some \<lparr>Ptr = Some ?m, Len = fRequestLen s\<rparr>)"
  have p: "parser_ok ?p ?m" "remaining ?p = request_of s" "fEndGet ?p = fRequestLen s"
    using StringParser_new_ok [of "\<lparr>Ptr = Some ?m, Len = fRequestLen s\<rparr>" ?m] m
    by (simp_all add: stream_ok_def str_def request_of_def)
  have scan: "if length (head_text ls) \<le> n
    then \<exists>p'. header_loop ?m (fRequestLen s) 0 ?p = Some (True, p') \<and> parser_ok p' ?m \<and>
           remaining p' = drop (length (head_text ls)) (remaining ?p)
    else \<exists>p'. header_loop ?m (fRequestLen s) 0 ?p = Some (False, p')"
  proof (cases "n \<le> length l")
    case True
    then have "\<forall>c \<in> set (remaining ?p). byte c \<noteq> 10 \<and> byte c \<noteq> 13"
      using assms(6) set_take_subset [of n l] unfolding p(2) b h by (auto simp: header_lines_def line_ok_def ls)
    then have "\<exists>p'. header_loop ?m (fRequestLen s) 0 ?p = Some (False, p')" by (rule header_loop_done [OF p(1)])
    moreover have "\<not> length (head_text ls) \<le> n" using True by (simp add: ls head_text_def crlf_def)
    ultimately show ?thesis by simp
  next
    case False
    have "take n (head_text ls @ x) = l @ take (n - length l) (CHR 0x0D # CHR 0x0A # head_text ls' @ x)" using False unfolding h by simp
    then have "CHR '' '' \<in> set (take n ?m)" using b len assms(6) by (auto simp: request_of_def header_lines_def ls)
    then have "filter (\<lambda>c. c = CHR '' '') (take n ?m) \<noteq> []" by (auto simp: filter_empty_conv)
    then have "0 < length (filter (\<lambda>c. c = CHR '' '') (take n ?m))" by simp
    moreover have "length (filter (\<lambda>c. c = CHR '' '') (take n ?m)) \<le> n"
      using length_filter_le [of "\<lambda>c. c = CHR '' ''" "take n ?m"] by simp
    ultimately have nb: "\<not> no_blanks ?m (fRequestLen s)"
      using m(4) len by (auto simp: no_blanks_def word_of_nat_eq_0_iff dest!: dvd_imp_le)
    have ok: "ls \<noteq> []" "\<forall>l \<in> set ls. line_ok l" using assms(6) by (auto simp: header_lines_def)
    have "remaining ?p = take n (head_text ls @ x)" using p(2) b by simp
    from header_loop_scan [OF ok p(1) nb this assms(4), of 0] show ?thesis by (auto split: if_splits)
  qed
  have sz: "kRequestBufferSizeInBytes = 2048" by (simp add: kRequestBufferSizeInBytes_def CF_MAX_REQUEST_BUFFER_SIZE_def)
  show ?thesis
  proof (cases "length (head_text ls) \<le> n")
    case True
    then obtain p' where q: "header_loop ?m (fRequestLen s) 0 ?p = Some (True, p')" "parser_ok p' ?m"
      "remaining p' = drop (length (head_text ls)) (remaining ?p)"
      using scan by auto
    have "GetDataRemaining p' = n - length (head_text ls)"
      using assms(4) by (simp add: GetDataRemaining_ok [OF q(2)] q(3) p(2) b)
    then show ?thesis using True q(1) m c0 c(2) len by (simp add: examine_def)
  next
    case False
    then show ?thesis using scan m c0 c(2) sz by (auto simp: examine_def)
  qed
qed

lemma request_complete:
  assumes "rs_ok s" "\<not> fRequestPtr s" "buffered s = t @ u" "0 < length t"
  shows "request_of (complete (s\<lparr>fIsDataPacket := b\<rparr>) (length t)) = t" "buffered (complete (s\<lparr>fIsDataPacket := b\<rparr>) (length t)) = u"
    "fRequestPtr (complete (s\<lparr>fIsDataPacket := b\<rparr>) (length t))" "rs_ok (complete (s\<lparr>fIsDataPacket := b\<rparr>) (length t))"
    "\<not> b \<Longrightarrow> \<not> fIsDataPacket (complete (s\<lparr>fIsDataPacket := b\<rparr>) (length t))"
proof -
  have s: "take (fRequestLen s) (fRequestBuffer s) = t @ u" "fRetreatBytes s = 0" "fRetreatBytesRead s = 0"
    "fRequestLen s < length (fRequestBuffer s)"
    using assms(1-3) by (auto simp: buffered_def request_of_def rs_ok_def)
  have l: "fRequestLen s = length t + length u" using arg_cong [OF s(1), of length] s(4) by simp
  show "request_of (complete (s\<lparr>fIsDataPacket := b\<rparr>) (length t)) = t"
    using arg_cong [OF s(1), of "take (length t)"] l by (simp add: request_of_def complete_def)
  show "buffered (complete (s\<lparr>fIsDataPacket := b\<rparr>) (length t)) = u"
    using arg_cong [OF s(1), of "drop (length t)"] l s(2,3) by (simp add: buffered_def complete_def drop_take)
  show "rs_ok (complete (s\<lparr>fIsDataPacket := b\<rparr>) (length t))"
    using assms(1,2,4) l by (auto simp: rs_ok_def complete_def)
qed (simp_all add: complete_def)

text \<open>The outcome: the header is handed out, some of the pieces have been read, and the rest of
  them is behind the header in the buffer.\<close>

definition arrived :: "string \<Rightarrow> string \<Rightarrow> string list \<Rightarrow> os_recv list \<Rightarrow> TCPSocket \<Rightarrow> (int \<times> TCPSocket \<times> HTTPRequestStream) option \<Rightarrow> bool" where
  "arrived t pre cs rest k r \<longleftrightarrow>
     (\<exists>n s'. r = Some (CF_RequestArrived, k\<lparr>sRecvs := map Arrived (drop n cs) @ rest\<rparr>, s') \<and> rs_ok s' \<and> fRequestPtr s' \<and>
        \<not> fIsDataPacket s' \<and> request_of s' = t \<and> t @ buffered s' = pre @ concat (take n cs))"

lemma arrived_Cons:
  "arrived t (pre @ c) cs rest (k\<lparr>sRecvs := w\<rparr>) r \<Longrightarrow> arrived t pre (c # cs) rest k r"
proof -
  assume "arrived t (pre @ c) cs rest (k\<lparr>sRecvs := w\<rparr>) r"
  then obtain n s' where "r = Some (CF_RequestArrived, k\<lparr>sRecvs := map Arrived (drop n cs) @ rest\<rparr>, s')" "rs_ok s'" "fRequestPtr s'"
    "\<not> fIsDataPacket s'" "request_of s' = t" "t @ buffered s' = (pre @ c) @ concat (take n cs)"
    unfolding arrived_def by auto
  then show ?thesis unfolding arrived_def by (intro exI [of _ "Suc n"] exI [of _ s']) simp
qed

lemma chunk_rounds:
  assumes "header_lines ls" "rs_ok s" "\<not> fRequestPtr s" "IsConnected k" "sRecvs k = map Arrived cs @ rest" "[] \<notin> set cs"
    "buffered s @ concat cs = head_text ls @ x" "length (buffered s @ concat cs) < kRequestBufferSizeInBytes"
    "length (buffered s) < length (head_text ls)"
  shows "arrived (head_text ls) (buffered s) cs rest k (ReadRequest blk k s)"
  using assms
proof (induction cs arbitrary: s k)
  case Nil
  then have "length (head_text ls @ x) < length (head_text ls)" by (metis append_Nil2 concat.simps(1))
  then show ?case by simp
next
  case (Cons c cs)
  let ?t = "head_text ls" and ?s2 = "more_data s c" and ?k = "k\<lparr>sRecvs := map Arrived cs @ rest\<rparr>"
  have s: "length (buffered s) = fRequestLen s" "fRetreatBytes s = 0" "length (fRequestBuffer s) = kRequestBufferSizeInBytes"
    "fCurOffset s = fRequestLen s" "\<not> fDecode s"
    using Cons.prems(2,3) by (auto simp: buffered_def request_of_def rs_ok_def)
  have c: "c \<noteq> []" "fRequestLen s + length c < kRequestBufferSizeInBytes" using Cons.prems(6,8) s(1) by auto
  then have fit: "length c \<le> room s" using room_eq [OF Cons.prems(2,3)] by simp
  have "Read k (room s) = (CF_NoErr, Some c, ?k)" using Cons.prems(4,5) fit c(1) by (simp add: Read_def)
  then have g: "get_data blk k s = Some (Inr (length c), ?k, ?s2)"
    using c(2) s by (simp add: get_data_def take_in_def write_at_def more_data_def CF_NoErr_def EAGAIN_def)
  note m = more_data_ok [OF Cons.prems(2,3) fit]
  let ?n = "length (buffered ?s2)"
  have b: "buffered ?s2 @ concat cs = ?t @ x" using Cons.prems(7) m(3) by simp
  have tk: "buffered ?s2 = take ?n (?t @ x)" "?n \<le> length (?t @ x)" unfolding b [symmetric] by simp_all
  have n0: "0 < ?n" using m(3) c(1) by simp
  note E = examine_header [OF m(1,2) tk n0 Cons.prems(1)]
  have R: "read_round blk k s = do { (e, s3) \<leftarrow> examine ?s2; Some (e, ?k, s3) }"
    using Cons.prems(3) g c(1) by (simp add: read_round_def next_request_def)
  show ?case
  proof (cases "length ?t \<le> ?n")
    case True
    obtain u where u: "buffered ?s2 = ?t @ u" using True tk(1) by (metis take_all_iff take_append)
    have "0 < length ?t" by (simp add: head_text_def crlf_def)
    note q = request_complete [OF m(1,2) u this, of False]
    have "ReadRequest blk k s = Some (CF_RequestArrived, ?k, complete (?s2\<lparr>fIsDataPacket := False\<rparr>) (length ?t))"
      using R E True by (simp add: ReadRequest.simps)
    then show ?thesis unfolding arrived_def using q u m(3) by (intro exI [of _ 1] exI conjI) (simp_all add: drop_Cons')
  next
    case False
    let ?s3 = "?s2\<lparr>fIsDataPacket := False\<rparr>"
    have l2: "length (buffered ?s2) = fRequestLen ?s2" using m(3,4) s(1) by simp
    have tot: "length (?t @ x) < kRequestBufferSizeInBytes" using Cons.prems(7,8) by metis
    then have nf: "fRequestLen ?s2 \<noteq> kRequestBufferSizeInBytes - 1" using False l2 by simp
    have s3: "rs_ok ?s3" "\<not> fRequestPtr ?s3" "buffered ?s3 = buffered ?s2"
      using m(1,2) by (simp_all add: rs_ok_def buffered_def request_of_def)
    have L: "ReadRequest blk k s = ReadRequest blk ?k ?s3" using R E False nf by (subst ReadRequest.simps) simp
    have "arrived ?t (buffered ?s3) cs rest ?k (ReadRequest blk ?k ?s3)"
      by (rule Cons.IH) (use Cons.prems(1,4,6) tot s3 b False m(3) in simp_all)
    then show ?thesis unfolding L s3(3) m(3) by (rule arrived_Cons)
  qed
qed

lemma ReadRequest_header:
  assumes "header_lines ls" "rs_ok s" "IsConnected k" "sRecvs k = map Arrived cs @ rest" "[] \<notin> set cs"
    "buffered s @ concat cs = head_text ls @ x" "length (buffered s @ concat cs) < kRequestBufferSizeInBytes"
    "\<not> fRequestPtr s \<Longrightarrow> length (buffered s) < length (head_text ls)"
  shows "arrived (head_text ls) (buffered s) cs rest k (ReadRequest blk k s)"
proof (cases "fRequestPtr s")
  case False
  then show ?thesis using chunk_rounds [OF assms(1,2) _ assms(3-7)] assms(8) by blast
next
  case True
  let ?t = "head_text ls"
  obtain s1 where 1: "next_request s = Some (length (buffered s), s1)" "rs_ok s1" "\<not> fRequestPtr s1" "buffered s1 = buffered s"
    using next_request_ok [OF assms(2)] True by auto
  show ?thesis
  proof (cases "buffered s = []")
    case e: True
    have "read_round blk k s = read_round blk k s1" using 1 e by (simp add: read_round_def next_request_def)
    then have "ReadRequest blk k s = ReadRequest blk k s1" by (simp add: ReadRequest.simps [of blk k s] ReadRequest.simps [of blk k s1])
    moreover have "0 < length ?t" by (simp add: head_text_def crlf_def)
    ultimately show ?thesis using chunk_rounds [OF assms(1) 1(2,3) assms(3-5), of x blk] assms(6,7) 1(4) e by simp
  next
    case False
    let ?n = "length (buffered s1)"
    have tk: "buffered s1 = take ?n (?t @ x)" "?n \<le> length (?t @ x)" unfolding assms(6) [symmetric] 1(4) by simp_all
    have n0: "0 < ?n" using 1(4) False by simp
    note E = examine_header [OF 1(2,3) tk n0 assms(1)]
    have R: "read_round blk k s = do { (e, s3) \<leftarrow> examine s1; Some (e, k, s3) }" using 1 False by (simp add: read_round_def)
    show ?thesis
    proof (cases "length ?t \<le> ?n")
      case True
      obtain u where u: "buffered s1 = ?t @ u" using True tk(1) by (metis take_all_iff take_append)
      have "0 < length ?t" by (simp add: head_text_def crlf_def)
      note q = request_complete [OF 1(2,3) u this, of False]
      have "ReadRequest blk k s = Some (CF_RequestArrived, k, complete (s1\<lparr>fIsDataPacket := False\<rparr>) (length ?t))"
        using R E True by (simp add: ReadRequest.simps)
      then show ?thesis unfolding arrived_def using q u 1(4) assms(4) by (intro exI [of _ 0] exI conjI) simp_all
    next
      case False
      let ?s3 = "s1\<lparr>fIsDataPacket := False\<rparr>"
      have l2: "length (buffered s1) = fRequestLen s1" using 1(2,3) by (auto simp: buffered_def request_of_def rs_ok_def)
      have "length (?t @ x) < kRequestBufferSizeInBytes" using assms(6,7) by metis
      then have nf: "fRequestLen s1 \<noteq> kRequestBufferSizeInBytes - 1" using False l2 by simp
      have s3: "rs_ok ?s3" "\<not> fRequestPtr ?s3" "buffered ?s3 = buffered s"
        using 1 by (simp_all add: rs_ok_def buffered_def request_of_def)
      have L: "ReadRequest blk k s = ReadRequest blk k ?s3" using R E False nf by (subst ReadRequest.simps) simp
      show ?thesis unfolding L using chunk_rounds [OF assms(1) s3(1,2) assms(3-5), of x blk] assms(6,7) s3(3) False 1(4) by simp
    qed
  qed
qed

text \<open>C2: A header is recognised exactly, however the network cuts it up: if the bytes in the buffer
  and the pieces that arrive form a header (lines, then an empty line; a blank in the first line)
  followed by anything, and all of it fits into the buffer, then the request that is handed out is
  the header, no piece behind the one that completes it is read, and what followed the
  header in the pieces that were read stays in the buffer. The stream does not decode from base64, and the header does
  not begin with a dollar sign, which would make it a data packet.\<close>

theorem ReadRequest_exact:
  assumes "header_lines ls" "rs_ok s" "IsConnected k" "sRecvs k = map Arrived cs @ rest" "[] \<notin> set cs"
    "buffered s @ concat cs = head_text ls @ x" "length (buffered s @ concat cs) < kRequestBufferSizeInBytes"
    "\<not> fRequestPtr s \<Longrightarrow> length (buffered s) < length (head_text ls)"
  shows "\<exists>n s'. ReadRequest blk k s = Some (CF_RequestArrived, k\<lparr>sRecvs := map Arrived (drop n cs) @ rest\<rparr>, s') \<and>
    rs_ok s' \<and> fRequestPtr s' \<and> request_of s' = head_text ls \<and> head_text ls @ buffered s' = buffered s @ concat (take n cs)"
  using ReadRequest_header [OF assms] unfolding arrived_def by blast

definition ex_socket :: TCPSocket where
  "ex_socket = \<lparr>sState = kConnected, sSends = [],
     sRecvs = [Arrived ''GE'', Arrived (''T / HTTP'' @ [CHR 0x0D]), Arrived ([CHR 0x0A] @ ''a: b'' @ crlf @ [CHR 0x0D]),
       Arrived ([CHR 0x0A] @ ''body''), RecvFails EAGAIN], sWire = []\<rparr>"

theorem ReadRequest_exact_witness:
  "\<exists>k' s'. ReadRequest [] (ex_socket\<lparr>sRecvs := map Arrived [''GE'', ''T / HTTP'' @ [CHR 0x0D], [CHR 0x0A] @ ''a: b'' @ crlf @ [CHR 0x0D],
       [CHR 0x0A] @ ''body''] @ [RecvFails EAGAIN]\<rparr>) (HTTPRequestStream_new (replicate 2048 NUL)) = Some (CF_RequestArrived, k', s') \<and>
     request_of s' = ''GET / HTTP'' @ crlf @ ''a: b'' @ crlf @ crlf"
proof -
  let ?cs = "[''GE'', ''T / HTTP'' @ [CHR 0x0D], [CHR 0x0A] @ ''a: b'' @ crlf @ [CHR 0x0D], [CHR 0x0A] @ ''body'']"
  let ?s = "HTTPRequestStream_new (replicate 2048 NUL)" and ?k = "ex_socket\<lparr>sRecvs := map Arrived ?cs @ [RecvFails EAGAIN]\<rparr>"
  have sz: "kRequestBufferSizeInBytes = 2048" by (simp add: kRequestBufferSizeInBytes_def CF_MAX_REQUEST_BUFFER_SIZE_def)
  have h: "header_lines [''GET / HTTP'', ''a: b'']" by (simp add: header_lines_def line_ok_def byte_def)
  have s: "rs_ok ?s" "buffered ?s = []" using rs_ok_new [of "replicate 2048 NUL"]
    by (simp_all add: sz buffered_def request_of_def HTTPRequestStream_new_def)
  have k: "IsConnected ?k" by (simp add: ex_socket_def IsConnected_def kConnected_def)
  have t: "head_text [''GET / HTTP'', ''a: b''] = ''GET / HTTP'' @ crlf @ ''a: b'' @ crlf @ crlf" by (simp add: head_text_def)
  show ?thesis
    using ReadRequest_exact [OF h s(1) k, of ?cs "[RecvFails EAGAIN]" "''body''" "[]"] unfolding t
    by (auto simp: s(2) sz crlf_def)
qed

theorem ReadRequest_conserves_witness:
  "\<exists>e k' s'. ReadRequest [] ex_socket (HTTPRequestStream_new (replicate 2048 NUL)) = Some (e, k', s') \<and>
     (if fRequestPtr s' then request_of s' @ unread s' k' else unread s' k') = arrivals (sRecvs ex_socket)"
proof -
  let ?s = "HTTPRequestStream_new (replicate 2048 NUL)"
  have "rs_ok ?s" by (rule rs_ok_new) (simp add: kRequestBufferSizeInBytes_def CF_MAX_REQUEST_BUFFER_SIZE_def)
  moreover have "recv_ok ex_socket" by (simp add: ex_socket_def recv_ok_def EAGAIN_def E2BIG_def)
  moreover have "unread ?s ex_socket = arrivals (sRecvs ex_socket)"
    by (simp add: unread_def buffered_def request_of_def HTTPRequestStream_new_def)
  ultimately obtain e k' s' where "ReadRequest [] ex_socket ?s = Some (e, k', s')"
    "if fRequestPtr s' then e \<in> {CF_RequestArrived, E2BIG} \<and> arrivals (sRecvs ex_socket) = request_of s' @ unread s' k'
     else (e = CF_NoErr \<or> 0 < e \<and> e \<noteq> E2BIG \<and> \<not> IsConnected k') \<and> arrivals (sRecvs ex_socket) = unread s' k'"
    using ReadRequest_conserves [of ?s ex_socket "[]"] by metis
  then show ?thesis by (intro exI [of _ e] exI [of _ k'] exI [of _ s']) (cases "fRequestPtr s'"; simp only: if_True if_False)
qed

text \<open>Reading the body.\<close>

lemma Read_stream_ok:
  assumes "rs_ok s" "fRequestPtr s" "recv_ok k"
  shows "\<exists>e bs k' s'. Read_stream k s n = Some (e, bs, k', s') \<and> rs_ok s' \<and> recv_ok k' \<and> length bs \<le> n \<and> sWire k' = sWire k \<and>
    unread s k = bs @ unread s' k' \<and> request_of s' = request_of s \<and> fRequestPtr s' \<and>
    (e = CF_NoErr \<or> e = EAGAIN \<or> 0 < e \<and> \<not> IsConnected k') \<and> (length bs < n \<longrightarrow> buffered s' = []) \<and>
    (length bs = n \<longrightarrow> e = CF_NoErr) \<and> sSends k' = sSends k \<and> min n (length (buffered s)) \<le> length bs"
proof -
  let ?r = "min (fRetreatBytes s) n"
  define s1 where "s1 = s\<lparr>fRetreatBytes := fRetreatBytes s - ?r, fRetreatBytesRead := fRetreatBytesRead s + ?r\<rparr>"
  have b: "length (fRequestBuffer s) = kRequestBufferSizeInBytes" "fRequestLen s + fRetreatBytesRead s + fRetreatBytes s < kRequestBufferSizeInBytes"
    "fDecoded s = None"
    using assms(1) by (auto simp: rs_ok_def)
  have l: "length (buffered s) = fRetreatBytes s" using assms(2) b by (simp add: buffered_def)
  have s1: "rs_ok s1" "request_of s1 = request_of s" "fRequestPtr s1" using assms(1,2) by (auto simp: rs_ok_def s1_def request_of_def)
  have d: "buffered s1 = drop n (buffered s)"
    using assms(2) by (auto simp: buffered_def s1_def drop_take min_def add.assoc add.commute add.left_commute)
  have sl: "slice (fRequest_mem s) (fRequestLen s + fRetreatBytesRead s) ?r = Some (take n (buffered s))"
    using b assms(2) by (simp add: slice_def fRequest_mem_def buffered_def min.commute)
  have t: "buffered s = take n (buffered s) @ buffered s1" unfolding d by simp
  show ?thesis
  proof (cases "?r = n")
    case True
    then have "Read_stream k s n = Some (CF_NoErr, take n (buffered s), k, s1)" using sl by (simp add: Read_stream_def s1_def)
    moreover have "length (take n (buffered s)) = n" using True l by simp
    ultimately show ?thesis using s1 t assms(3) by (auto simp: unread_def)
  next
    case False
    then have n: "fRetreatBytes s < n" "buffered s1 = []" "take n (buffered s) = buffered s" using d l by simp_all
    have R: "Read_stream k s n = (case Read k (n - fRetreatBytes s) of (theErr, data, k1) \<Rightarrow>
       Some (theErr, buffered s @ (case data of None \<Rightarrow> [] | Some d \<Rightarrow> d), k1, s1))"
      using False sl n by (simp add: Read_stream_def s1_def min_def Let_def)
    show ?thesis
      by (rule ReadE [OF assms(3), of "n - fRetreatBytes s"]) (use s1 n l in \<open>auto simp: R unread_def\<close>)
  qed
qed

text \<open>What a read gives, exactly: from the buffer alone, from the buffer and the next piece that has arrived, or all of
  the buffer when nothing has arrived.\<close>

lemma Read_stream_exact:
  assumes "rs_ok s" "fRequestPtr s" "IsConnected k" "sRecvs k = map Arrived cs" "[] \<notin> set cs"
  obtains e bs k' s' cs' where "Read_stream k s n = Some (e, bs, k', s')" "rs_ok s'" "fRequestPtr s'" "IsConnected k'"
    "sRecvs k' = map Arrived cs'" "[] \<notin> set cs'" "bs = take n (buffered s @ (case cs of [] \<Rightarrow> [] | c # _ \<Rightarrow> c))"
    "buffered s @ concat cs = bs @ buffered s' @ concat cs'" "length bs < n \<Longrightarrow> buffered s' = [] \<and> cs' = tl cs"
    "e \<in> {CF_NoErr, EAGAIN}" "length bs = n \<Longrightarrow> e = CF_NoErr"
proof -
  let ?r = "min (fRetreatBytes s) n"
  define s1 where "s1 = s\<lparr>fRetreatBytes := fRetreatBytes s - ?r, fRetreatBytesRead := fRetreatBytesRead s + ?r\<rparr>"
  have b: "length (fRequestBuffer s) = kRequestBufferSizeInBytes" "fRequestLen s + fRetreatBytesRead s + fRetreatBytes s < kRequestBufferSizeInBytes"
    "fDecoded s = None"
    using assms(1) by (auto simp: rs_ok_def)
  have l: "length (buffered s) = fRetreatBytes s" using assms(2) b by (simp add: buffered_def)
  have s1: "rs_ok s1" "fRequestPtr s1" using assms(1,2) by (auto simp: rs_ok_def s1_def)
  have d: "buffered s1 = drop n (buffered s)"
    using assms(2) by (auto simp: buffered_def s1_def drop_take min_def add.assoc add.commute add.left_commute)
  have sl: "slice (fRequest_mem s) (fRequestLen s + fRetreatBytesRead s) ?r = Some (take n (buffered s))"
    using b assms(2) by (simp add: slice_def fRequest_mem_def buffered_def min.commute)
  have t: "buffered s = take n (buffered s) @ buffered s1" unfolding d by simp
  show thesis
  proof (cases "n \<le> fRetreatBytes s")
    case True
    then have "Read_stream k s n = Some (CF_NoErr, take n (buffered s), k, s1)" using sl by (simp add: Read_stream_def s1_def)
    then show thesis
      by (rule that [OF _ s1 assms(3-5)]) (use True l d in simp_all)
  next
    case False
    let ?w = "n - fRetreatBytes s"
    have n: "buffered s1 = []" "take n (buffered s) = buffered s" using False d l by simp_all
    have R: "Read_stream k s n = (case Read k ?w of (theErr, data, k1) \<Rightarrow>
       Some (theErr, buffered s @ (case data of None \<Rightarrow> [] | Some d \<Rightarrow> d), k1, s1))"
      using False sl n by (simp add: Read_stream_def s1_def min_def Let_def)
    show thesis
    proof (cases cs)
      case Nil
      then have "Read k ?w = (EAGAIN, None, k)" using assms(3,4) by (simp add: Read_def failed_def)
      then have "Read_stream k s n = Some (EAGAIN, buffered s, k, s1)" unfolding R by simp
      then show thesis by (rule that [OF _ s1 assms(3,4,5)]) (use False Nil n l in simp_all)
    next
      case (Cons c r)
      have c: "take ?w c \<noteq> []" using assms(5) False Cons by auto
      let ?cs = "if length c \<le> ?w then r else drop ?w c # r"
      let ?k = "k\<lparr>sRecvs := map Arrived ?cs\<rparr>"
      have "Read k ?w = (CF_NoErr, Some (take ?w c), ?k)" using assms(3,4) Cons c by (simp add: Read_def)
      then have "Read_stream k s n = Some (CF_NoErr, buffered s @ take ?w c, ?k, s1)" unfolding R by simp
      then show thesis
      proof (rule that [OF _ s1])
        show "IsConnected ?k" "sRecvs ?k = map Arrived ?cs" using assms(3) by (simp_all add: IsConnected_def)
        show "[] \<notin> set ?cs" using assms(5) Cons by auto
        show "buffered s @ take ?w c = take n (buffered s @ (case cs of [] \<Rightarrow> [] | c # _ \<Rightarrow> c))" using Cons n l by simp
        have "c @ concat r = take ?w c @ concat ?cs"
        proof (cases "length c \<le> ?w")
          case False
          have "take ?w c @ drop ?w c @ concat r = (take ?w c @ drop ?w c) @ concat r" by (simp only: append_assoc)
          then show ?thesis using False by simp
        qed simp
        then show "buffered s @ concat cs = (buffered s @ take ?w c) @ buffered s1 @ concat ?cs" using Cons n by simp
      qed (use Cons n l False in auto)
    qed
  qed
qed

text \<open>Reading the body takes the bytes that came with the header first and the socket's after them:
  what is delivered, followed by what is still unread, is what was unread before; the header that was
  handed out stays as it is; and less is delivered than was asked for only when the buffer is empty.\<close>

theorem Read_stream_conserves:
  assumes "rs_ok s" "fRequestPtr s" "recv_ok k"
  shows "\<exists>e bs k' s'. Read_stream k s n = Some (e, bs, k', s') \<and> rs_ok s' \<and> length bs \<le> n \<and>
    unread s k = bs @ unread s' k' \<and> request_of s' = request_of s \<and> fRequestPtr s' \<and>
    (e = CF_NoErr \<or> e = EAGAIN \<or> 0 < e \<and> \<not> IsConnected k') \<and> (length bs < n \<longrightarrow> buffered s' = [])"
  using Read_stream_ok [OF assms] by blast

definition ex_request :: HTTPRequestStream where
  "ex_request = (HTTPRequestStream_new (''POST / HTTP'' @ crlf @ crlf @ ''bo'' @ replicate 2031 NUL))
     \<lparr>fRequestPtr := True, fRequestLen := 15, fRetreatBytes := 2, fCurOffset := 17\<rparr>"

theorem Read_stream_conserves_witness:
  "\<exists>e bs k' s'. Read_stream (ex_socket\<lparr>sRecvs := [Arrived ''dy1'', Arrived ''x'']\<rparr>) ex_request 4 = Some (e, bs, k', s') \<and>
     ''body1x'' = bs @ unread s' k'"
proof -
  let ?k = "ex_socket\<lparr>sRecvs := [Arrived ''dy1'', Arrived ''x'']\<rparr>"
  have i: "rs_ok ex_request" "fRequestPtr ex_request" "unread ex_request ?k = ''body1x''" "recv_ok ?k"
    by (simp_all add: ex_request_def rs_ok_def HTTPRequestStream_new_def crlf_def kRequestBufferSizeInBytes_def
        CF_MAX_REQUEST_BUFFER_SIZE_def unread_def buffered_def recv_ok_def)
  show ?thesis using Read_stream_conserves [OF i(1,2,4), of 4] unfolding i(3) by blast
qed

text \<open>A data packet that is longer than the buffer ends the connection: with 2047 bytes of it in
  the buffer there is no room left, the socket is asked for no bytes at all, and its answer is taken
  for the end of the stream, although the rest of the packet is waiting.\<close>

theorem ReadRequest_long_packet:
  assumes "rs_ok s" "\<not> fRequestPtr s" "fRequestLen s = 2047" "fRequestBuffer s ! 0 = CHR ''$''"
    "IsConnected k" "sRecvs k = Arrived d # r" "d \<noteq> []"
  shows "\<exists>k'. ReadRequest blk k s = Some (ENOTCONN, k', s) \<and> \<not> IsConnected k' \<and> sRecvs k' = sRecvs k"
proof -
  have "room s = 0" using room_eq [OF assms(1,2)] assms(3) by (simp add: kRequestBufferSizeInBytes_def CF_MAX_REQUEST_BUFFER_SIZE_def)
  moreover have "fRetreatBytes s = 0" using assms(1,2) by (simp add: rs_ok_def)
  moreover have "\<not> IsConnected (k\<lparr>sRecvs := sRecvs k, sState := sState k XOR kConnected\<rparr>)"
    using disconnect [of "k\<lparr>sRecvs := sRecvs k\<rparr>"] assms(5) by simp
  ultimately show ?thesis using assms
    by (subst ReadRequest.simps) (simp add: read_round_def next_request_def get_data_def Read_def ENOTCONN_def EAGAIN_def CF_NoErr_def)
qed

theorem ReadRequest_long_packet_witness:
  "\<exists>k' s. ReadRequest [] (ex_socket\<lparr>sRecvs := [Arrived ''x'']\<rparr>)
      ((HTTPRequestStream_new (''$'' @ replicate 2047 (CHR ''x'')))\<lparr>fRequestLen := 2047, fCurOffset := 2047\<rparr>) = Some (ENOTCONN, k', s) \<and>
     \<not> IsConnected k'"
proof -
  let ?s = "(HTTPRequestStream_new (''$'' @ replicate 2047 (CHR ''x'')))\<lparr>fRequestLen := 2047, fCurOffset := 2047\<rparr>"
  have "rs_ok ?s" by (simp add: rs_ok_def HTTPRequestStream_new_def kRequestBufferSizeInBytes_def CF_MAX_REQUEST_BUFFER_SIZE_def)
  then show ?thesis using ReadRequest_long_packet [of ?s "ex_socket\<lparr>sRecvs := [Arrived ''x'']\<rparr>" "''x''" "[]" "[]"]
    by (auto simp: HTTPRequestStream_new_def ex_socket_def IsConnected_def kConnected_def)
qed

end
