(* ===== verification/CF_HTTPResponseStream.thy ===== *)
theory CF_HTTPResponseStream
  imports CF_Socket CF_StringFormatter CF_IdleTask
begin

text \<open>
  The output stream of a session: \<^verbatim>\<open>src/CFHttp/HTTPResponseStream.cpp\<close> and its header. It
  is a growing formatter (theory \<^verbatim>\<open>CF_StringFormatter\<close>) whose text is sent through the
  socket of theory \<^verbatim>\<open>CF_Socket\<close>, and it refreshes the timeout task of theory
  \<^verbatim>\<open>CF_IdleTask\<close> whenever a write succeeds; \<open>curTime\<close> is the time of such a
  refresh. \<^term>\<open>None\<close> is a failed assertion or an access outside the vector.
\<close>

section \<open>State and operations\<close>

definition kDontBuffer :: nat where "kDontBuffer = 0"
definition kAllOrNothing :: nat where "kAllOrNothing = 1"
definition kAlwaysBuffer :: nat where "kAlwaysBuffer = 2"

definition kOutputBufferSizeInBytes :: nat where "kOutputBufferSizeInBytes = CF_MAX_REQUEST_BUFFER_SIZE"

record HTTPResponseStream = ResizeableStringFormatter +
  fSocket :: TCPSocket
  fBytesSentInBuffer :: nat
  fTimeoutTask :: TimeoutTask

definition HTTPResponseStream_new :: "TCPSocket \<Rightarrow> TimeoutTask \<Rightarrow> HTTPResponseStream" where
  "HTTPResponseStream_new inSocket inTimeoutTask =
     \<lparr>fBuffer = replicate kOutputBufferSizeInBytes NUL, fCurrentPut = 0, fBytesWritten = 0, fOriginalBuffer = None,
      fSocket = inSocket, fBytesSentInBuffer = 0, fTimeoutTask = inTimeoutTask\<rparr>"

text \<open>The bytes of the buffer that have not been sent yet.\<close>

definition amtInBuffer :: "HTTPResponseStream \<Rightarrow> nat" where
  "amtInBuffer s = unat (of_nat (GetCurrentOffset s) - of_nat (fBytesSentInBuffer s) :: UInt32)"

definition unsent :: "HTTPResponseStream \<Rightarrow> string" where
  "unsent s = take (amtInBuffer s) (drop (fBytesSentInBuffer s) (fBuffer s))"

text \<open>
  What \<^verbatim>\<open>WriteV\<close> and \<^verbatim>\<open>Flush\<close> do with the number of bytes the socket took: the
  part of it that belongs to the vector is returned.
\<close>

definition account :: "HTTPResponseStream \<Rightarrow> nat \<Rightarrow> (nat \<times> HTTPResponseStream) option" where
  "account s theLengthSent =
     (if theLengthSent \<ge> amtInBuffer s
      then Some (theLengthSent - amtInBuffer s, (Reset s 0)\<lparr>fBytesSentInBuffer := 0\<rparr>)
      else do {
        let s1 = s\<lparr>fBytesSentInBuffer := fBytesSentInBuffer s + theLengthSent\<rparr>;
        Assert (fBytesSentInBuffer s1 < GetCurrentOffset s1);
        Some (0, s1)
      })"

text \<open>The two loops that copy the rest of the vector into the buffer.\<close>

function skip_sent :: "string list \<Rightarrow> nat \<Rightarrow> nat \<Rightarrow> (nat \<times> nat) option" where
  "skip_sent inVec theLengthSent curVec =
     (if curVec < length inVec
      then if theLengthSent \<ge> length (inVec ! curVec)
           then skip_sent inVec (theLengthSent - length (inVec ! curVec)) (curVec + 1)
           else Some (curVec, theLengthSent)
      else None)"
  by pat_completeness auto

termination
  by (relation "measure (\<lambda>(v, n, c). length v - c)") auto

declare skip_sent.simps [simp del]

fun put_rest :: "HTTPResponseStream \<Rightarrow> string list \<Rightarrow> nat \<Rightarrow> HTTPResponseStream option" where
  "put_rest s [] theLengthSent = Some s"
| "put_rest s (v # vs) theLengthSent =
     do { s1 \<leftarrow> Put BufferIsFull s (drop theLengthSent v); put_rest s1 vs 0 }"

text \<open>
  \<open>inVec\<close> holds the entries of the vector; the first one is the caller's blank entry. The
  result is the error, the number of bytes the caller shall consider sent (\<^term>\<open>None\<close> where
  it is not assigned), and the stream.
\<close>

definition WriteV_stream ::
  "int \<Rightarrow> HTTPResponseStream \<Rightarrow> string list \<Rightarrow> nat \<Rightarrow> nat \<Rightarrow> (int \<times> nat option \<times> HTTPResponseStream) option" where
  "WriteV_stream curTime s inVec inTotalLength inSendType =
     do {
       (theErr, theLengthSent, s1) \<leftarrow>
         (if amtInBuffer s > 0 then
            (if inVec = [] then None else case WriteV (fSocket s) (unsent s # tl inVec) of
               (e, n, k) \<Rightarrow> do {
                 (m, s1) \<leftarrow> account (s\<lparr>fSocket := k\<rparr>) (case n of None \<Rightarrow> 0 | Some n \<Rightarrow> n);
                 Some (e, m, s1)
               })
          else if length inVec > 1 then
            (case WriteV (fSocket s) (tl inVec) of
               (e, n, k) \<Rightarrow> Some (e, case n of None \<Rightarrow> 0 | Some n \<Rightarrow> n, s\<lparr>fSocket := k\<rparr>))
          else Some (CF_NoErr, 0, s));
       let s2 = (if theErr = CF_NoErr then s1\<lparr>fTimeoutTask := RefreshTimeout curTime (fTimeoutTask s1)\<rparr> else s1);
       if theErr \<noteq> CF_NoErr \<and> theErr \<noteq> EAGAIN then Some (theErr, None, s2)
       else do {
         let s3 = s2\<lparr>fBytesWritten := fBytesWritten s2 + of_nat theLengthSent\<rparr>;
         if theLengthSent = inTotalLength then Some (CF_NoErr, Some theLengthSent, s3)
         else if inSendType = kDontBuffer then Some (theErr, Some theLengthSent, s3)
         else if inSendType = kAllOrNothing \<and> theLengthSent = 0 then Some (EAGAIN, Some 0, s3)
         else do {
           (curVec, rest) \<leftarrow> skip_sent inVec theLengthSent 1;
           s4 \<leftarrow> put_rest s3 (drop curVec inVec) rest;
           Some (CF_NoErr, Some inTotalLength, s4)
         }
       }
     }"

definition Flush :: "int \<Rightarrow> HTTPResponseStream \<Rightarrow> (int \<times> HTTPResponseStream) option" where
  "Flush curTime s =
     (if amtInBuffer s > 0 then
        (case Send (fSocket s) (unsent s) of
           (_, n, k) \<Rightarrow> do {
             let theLengthSent = (case n of None \<Rightarrow> 0 | Some n \<Rightarrow> n);
             let s1 = s\<lparr>fSocket := k\<rparr>;
             let s2 = (if theLengthSent > 0 then s1\<lparr>fTimeoutTask := RefreshTimeout curTime (fTimeoutTask s1)\<rparr> else s1);
             if theLengthSent = amtInBuffer s
             then Some (CF_NoErr, (Reset s2 0)\<lparr>fBytesSentInBuffer := 0\<rparr>)
             else do {
               let s3 = s2\<lparr>fBytesSentInBuffer := fBytesSentInBuffer s2 + theLengthSent\<rparr>;
               Assert (fBytesSentInBuffer s3 < GetCurrentOffset s3);
               Some (EAGAIN, s3)
             }
           })
      else Some (CF_NoErr, s))"

section \<open>The stream as a sequence of bytes\<close>

definition stream_inv :: "HTTPResponseStream \<Rightarrow> bool" where
  "stream_inv s \<longleftrightarrow> fmt_ok s \<and> fBytesSentInBuffer s \<le> fCurrentPut s \<and> fCurrentPut s < 2 ^ 31"

text \<open>Everything that has entered the stream: the bytes on the wire, then the unsent ones.\<close>

definition stream_log :: "HTTPResponseStream \<Rightarrow> string" where
  "stream_log s = sWire (fSocket s) @ drop (fBytesSentInBuffer s) (contents s)"

lemma amt_eq: "stream_inv s \<Longrightarrow> amtInBuffer s = fCurrentPut s - fBytesSentInBuffer s"
proof -
  assume "stream_inv s"
  then have "fBytesSentInBuffer s \<le> fCurrentPut s" "fCurrentPut s - fBytesSentInBuffer s < 2 ^ 32" by (auto simp: stream_inv_def)
  then show ?thesis by (simp add: amtInBuffer_def GetCurrentOffset_def unat_of_nat flip: of_nat_diff)
qed

lemma unsent_eq: "stream_inv s \<Longrightarrow> unsent s = drop (fBytesSentInBuffer s) (contents s)"
  by (simp add: unsent_def amt_eq contents_def drop_take)

lemma length_unsent: "stream_inv s \<Longrightarrow> length (unsent s) = amtInBuffer s"
  by (simp add: unsent_eq amt_eq) (simp add: stream_inv_def)

lemma stream_inv_cong [simp]:
  "stream_inv (s\<lparr>fSocket := k\<rparr>) = stream_inv s" "stream_inv (s\<lparr>fTimeoutTask := t\<rparr>) = stream_inv s"
  "stream_inv (s\<lparr>fBytesWritten := w\<rparr>) = stream_inv s"
  by (simp_all add: stream_inv_def fmt_ok_def)

lemma stream_log_cong [simp]:
  "stream_log (s\<lparr>fTimeoutTask := t\<rparr>) = stream_log s" "stream_log (s\<lparr>fBytesWritten := w\<rparr>) = stream_log s"
  by (simp_all add: stream_log_def contents_def)

lemma Put_stream:
  assumes "stream_inv s" "fCurrentPut s + length b < 2 ^ 31 - 1"
  obtains s' where "Put BufferIsFull s b = Some s'" "stream_inv s'" "stream_log s' = stream_log s @ b"
    "fCurrentPut s' = fCurrentPut s + length b" "fBytesWritten s' = fBytesWritten s + of_nat (length b)" "fSocket s' = fSocket s"
proof -
  obtain s' where s': "Put BufferIsFull s b = Some s'" "appended s b s'"
    using resizing.Put_all [of s b] assms by (auto simp: stream_inv_def)
  have "(fSocket s', fBytesSentInBuffer s') = (fSocket s, fBytesSentInBuffer s)"
    by (rule Put_frame [OF s'(1), of "\<lambda>s. (fSocket s, fBytesSentInBuffer s)"])
      (auto simp: copy_in_def BufferIsFull_def Let_def split: Option.bind_splits)
  then have f: "fSocket s' = fSocket s" "fBytesSentInBuffer s' = fBytesSentInBuffer s" by auto
  have ok: "fmt_ok s" "fmt_ok s'" "contents s' = contents s @ b" "fBytesWritten s' = fBytesWritten s + of_nat (length b)"
    using s'(2) assms(1) by (auto simp: appended_def stream_inv_def)
  have c: "fCurrentPut s' = fCurrentPut s + length b"
    using length_contents [OF ok(1)] length_contents [OF ok(2)] ok(3) by simp
  have "stream_inv s'" using assms ok(2) f c by (auto simp: stream_inv_def)
  moreover have "stream_log s' = stream_log s @ b"
    using assms(1) length_contents [OF ok(1)] by (simp add: stream_log_def f ok(3) stream_inv_def)
  ultimately show thesis using that s'(1) c ok(4) f(1) by blast
qed

text \<open>The bytes the socket took, in terms of the log.\<close>

lemma account_ok:
  assumes inv: "stream_inv s" and amt: "0 < amtInBuffer s" and n: "n \<le> amtInBuffer s + length V"
    and w: "sWire k = sWire (fSocket s) @ take n (unsent s @ V)"
  obtains m s1 where "account (s\<lparr>fSocket := k\<rparr>) n = Some (m, s1)" "stream_inv s1" "m \<le> length V"
    "stream_log s1 = stream_log s @ take m V" "fCurrentPut s1 \<le> fCurrentPut s" "fSocket s1 = k"
proof (cases "amtInBuffer s \<le> n")
  case True
  let ?s = "(Reset (s\<lparr>fSocket := k\<rparr>) 0)\<lparr>fBytesSentInBuffer := 0\<rparr>"
  have a: "amtInBuffer (s\<lparr>fSocket := k\<rparr>) = amtInBuffer s" by (simp add: amtInBuffer_def GetCurrentOffset_def)
  have "stream_inv ?s" using inv by (simp add: stream_inv_def Reset_def fmt_ok_def)
  moreover have "stream_log ?s = stream_log s @ take (n - amtInBuffer s) V"
    using w True length_unsent [OF inv] unsent_eq [OF inv] by (simp add: stream_log_def Reset_def contents_def)
  ultimately show thesis using that [of "n - amtInBuffer s" ?s] True n by (simp add: account_def a Reset_def)
next
  case False
  let ?s = "s\<lparr>fSocket := k, fBytesSentInBuffer := fBytesSentInBuffer s + n\<rparr>"
  have a: "amtInBuffer (s\<lparr>fSocket := k\<rparr>) = amtInBuffer s" by (simp add: amtInBuffer_def GetCurrentOffset_def)
  have lt: "fBytesSentInBuffer s + n < fCurrentPut s" using False amt_eq [OF inv] by simp
  have "stream_inv ?s" using inv lt by (simp add: stream_inv_def fmt_ok_def)
  moreover have "stream_log ?s = stream_log s"
    using w False length_unsent [OF inv] unsent_eq [OF inv]
      append_take_drop_id [of n "drop (fBytesSentInBuffer s) (contents s)"]
    by (simp add: stream_log_def contents_def add.commute)
  ultimately show thesis using that [of 0 ?s] lt False by (simp add: account_def a GetCurrentOffset_def)
qed

text \<open>The two loops append what has not been sent.\<close>

lemma skip_sent_ok:
  assumes "n < length (concat (drop c vec))"
  obtains c' r where "skip_sent vec n c = Some (c', r)" "c' < length vec" "r < length (vec ! c')"
    "drop r (concat (drop c' vec)) = drop n (concat (drop c vec))"
  using assms
proof (induction vec n c arbitrary: thesis rule: skip_sent.induct)
  case (1 vec n c)
  have c: "c < length vec" using "1.prems"(2) by (cases "c < length vec") auto
  have d: "drop c vec = vec ! c # drop (c + 1) vec" using Cons_nth_drop_Suc [OF c] by simp
  show ?case
  proof (cases "length (vec ! c) \<le> n")
    case True
    have "n - length (vec ! c) < length (concat (drop (c + 1) vec))" using "1.prems"(2) True unfolding d by simp
    then obtain c' r where "skip_sent vec (n - length (vec ! c)) (c + 1) = Some (c', r)" "c' < length vec" "r < length (vec ! c')"
      "drop r (concat (drop c' vec)) = drop (n - length (vec ! c)) (concat (drop (c + 1) vec))"
      using "1.IH" [OF c True] by metis
    moreover from this(1) have "skip_sent vec n c = Some (c', r)" by (simp add: skip_sent.simps [of vec n c] c True)
    ultimately show ?thesis using "1.prems"(1) [of c' r] True unfolding d by simp
  next
    case False
    then show ?thesis using "1.prems"(1) [of c n] c by (simp add: skip_sent.simps [of vec n c])
  qed
qed

lemma put_rest_ok:
  assumes "stream_inv s" "fCurrentPut s + length (drop n (concat vs)) < 2 ^ 31 - 1" "vs \<noteq> [] \<Longrightarrow> n \<le> length (hd vs)" "vs = [] \<Longrightarrow> n = 0"
  shows "\<exists>s'. put_rest s vs n = Some s' \<and> stream_inv s' \<and> stream_log s' = stream_log s @ drop n (concat vs)"
  using assms
proof (induction vs arbitrary: s n)
  case (Cons v vs)
  have "fCurrentPut s + length (drop n v) < 2 ^ 31 - 1" using Cons.prems(2) by simp
  then obtain s1 where s1: "Put BufferIsFull s (drop n v) = Some s1" "stream_inv s1" "stream_log s1 = stream_log s @ drop n v"
      "fCurrentPut s1 = fCurrentPut s + length (drop n v)"
    by (rule Put_stream [OF Cons.prems(1)])
  have "\<exists>s'. put_rest s1 vs 0 = Some s' \<and> stream_inv s' \<and> stream_log s' = stream_log s1 @ drop 0 (concat vs)"
    using Cons.prems(2) Cons.prems(3) s1(4) by (intro Cons.IH [OF s1(2)]) auto
  then show ?case using s1 Cons.prems(3) by auto
qed simp

section \<open>Properties\<close>

text \<open>The first half of \<^verbatim>\<open>WriteV\<close>: what the socket took of the buffer and the vector.\<close>

definition write_out :: "HTTPResponseStream \<Rightarrow> string list \<Rightarrow> (int \<times> nat \<times> HTTPResponseStream) option" where
  "write_out s inVec =
     (if amtInBuffer s > 0 then
        (if inVec = [] then None else case WriteV (fSocket s) (unsent s # tl inVec) of
           (e, n, k) \<Rightarrow> do {
             (m, s1) \<leftarrow> account (s\<lparr>fSocket := k\<rparr>) (case n of None \<Rightarrow> 0 | Some n \<Rightarrow> n);
             Some (e, m, s1)
           })
      else if length inVec > 1 then
        (case WriteV (fSocket s) (tl inVec) of
           (e, n, k) \<Rightarrow> Some (e, case n of None \<Rightarrow> 0 | Some n \<Rightarrow> n, s\<lparr>fSocket := k\<rparr>))
      else Some (CF_NoErr, 0, s))"

lemma write_out_ok:
  assumes inv: "stream_inv s"
  obtains e m s1 where "write_out s (b # vs) = Some (e, m, s1)" "stream_inv s1" "m \<le> length (concat vs)"
    "stream_log s1 = stream_log s @ take m (concat vs)" "fCurrentPut s1 \<le> fCurrentPut s" "e \<noteq> CF_NoErr \<Longrightarrow> m = 0"
proof (cases "0 < amtInBuffer s")
  case True
  let ?d = "unsent s @ concat vs"
  have w: "WriteV (fSocket s) (unsent s # tl (b # vs)) = Send (fSocket s) ?d" by (simp add: WriteV_Send)
  have l: "length ?d = amtInBuffer s + length (concat vs)" using length_unsent [OF inv] by simp
  show thesis
  proof (rule SendE [of "fSocket s" ?d])
    fix n k assume k: "Send (fSocket s) ?d = (CF_NoErr, Some n, k)" "n \<le> length ?d" "sWire k = sWire (fSocket s) @ take n ?d"
    obtain m s1 where "account (s\<lparr>fSocket := k\<rparr>) n = Some (m, s1)" "stream_inv s1" "m \<le> length (concat vs)"
      "stream_log s1 = stream_log s @ take m (concat vs)" "fCurrentPut s1 \<le> fCurrentPut s"
      using account_ok [OF inv True _ k(3)] k(2) l by metis
    then show thesis using that [of CF_NoErr m s1] True k(1) w by (simp add: write_out_def)
  next
    fix e k assume k: "Send (fSocket s) ?d = (e, None, k)" "sWire k = sWire (fSocket s)"
    obtain m s1 where "account (s\<lparr>fSocket := k\<rparr>) 0 = Some (m, s1)" "stream_inv s1" "m \<le> length (concat vs)"
      "stream_log s1 = stream_log s @ take m (concat vs)" "fCurrentPut s1 \<le> fCurrentPut s"
      by (rule account_ok [OF inv True, of 0 "concat vs" k]) (use k(2) in auto)
    moreover from this have "m = 0" using True by (auto simp: account_def amtInBuffer_def GetCurrentOffset_def Let_def split: if_splits Option.bind_splits)
    ultimately show thesis using that [of e 0 s1] True k(1) w by (simp add: write_out_def)
  qed
next
  case False
  have u: "drop (fBytesSentInBuffer s) (contents s) = []" using False length_unsent [OF inv] unsent_eq [OF inv] by simp
  show thesis
  proof (cases "vs = []")
    case True
    then show thesis using that [of CF_NoErr 0 s] False inv by (simp add: write_out_def)
  next
    case v: False
    then have w: "write_out s (b # vs) = (case Send (fSocket s) (concat vs) of
         (e, n, k) \<Rightarrow> Some (e, case n of None \<Rightarrow> 0 | Some n \<Rightarrow> n, s\<lparr>fSocket := k\<rparr>))"
      using False by (simp add: write_out_def WriteV_Send)
    show thesis
    proof (rule SendE [of "fSocket s" "concat vs"])
      fix n k assume "Send (fSocket s) (concat vs) = (CF_NoErr, Some n, k)" "n \<le> length (concat vs)"
        "sWire k = sWire (fSocket s) @ take n (concat vs)"
      then show thesis using that [of CF_NoErr n "s\<lparr>fSocket := k\<rparr>"] inv u by (simp add: w stream_log_def contents_def)
    next
      fix e k assume "Send (fSocket s) (concat vs) = (e, None, k)" "sWire k = sWire (fSocket s)"
      then show thesis using that [of e 0 "s\<lparr>fSocket := k\<rparr>"] inv u by (simp add: w stream_log_def contents_def)
    qed
  qed
qed

lemma WriteV_stream_eq:
  "WriteV_stream curTime s inVec inTotalLength inSendType =
     do {
       (theErr, theLengthSent, s1) \<leftarrow> write_out s inVec;
       let s2 = (if theErr = CF_NoErr then s1\<lparr>fTimeoutTask := RefreshTimeout curTime (fTimeoutTask s1)\<rparr> else s1);
       if theErr \<noteq> CF_NoErr \<and> theErr \<noteq> EAGAIN then Some (theErr, None, s2)
       else do {
         let s3 = s2\<lparr>fBytesWritten := fBytesWritten s2 + of_nat theLengthSent\<rparr>;
         if theLengthSent = inTotalLength then Some (CF_NoErr, Some theLengthSent, s3)
         else if inSendType = kDontBuffer then Some (theErr, Some theLengthSent, s3)
         else if inSendType = kAllOrNothing \<and> theLengthSent = 0 then Some (EAGAIN, Some 0, s3)
         else do {
           (curVec, rest) \<leftarrow> skip_sent inVec theLengthSent 1;
           s4 \<leftarrow> put_rest s3 (drop curVec inVec) rest;
           Some (CF_NoErr, Some inTotalLength, s4)
         }
       }
     }"
  unfolding WriteV_stream_def write_out_def by (rule refl)

text \<open>C37: Writing a vector adds to the byte stream (wire and buffer together) exactly the bytes it
  reports as sent, in order, whatever part of them the socket takes: nothing is lost,
  duplicated or reordered against data that was buffered before. With buffering the whole vector
  is accepted; a hard error adds nothing.\<close>

theorem WriteV_stream_log:
  assumes "stream_inv s" "fCurrentPut s + length (concat vs) < 2 ^ 31 - 1"
  shows "\<exists>e r s'. WriteV_stream curTime s (hole # vs) (length (concat vs)) inSendType = Some (e, r, s') \<and> stream_inv s' \<and>
    (case r of
       None \<Rightarrow> e \<notin> {CF_NoErr, EAGAIN} \<and> stream_log s' = stream_log s
     | Some n \<Rightarrow> e \<in> {CF_NoErr, EAGAIN} \<and> n \<le> length (concat vs) \<and> stream_log s' = stream_log s @ take n (concat vs) \<and>
         (inSendType = kAlwaysBuffer \<longrightarrow> e = CF_NoErr \<and> n = length (concat vs)))"
proof -
  let ?V = "concat vs" and ?v = "hole # vs"
  obtain e m s1 where 1: "write_out s ?v = Some (e, m, s1)" "stream_inv s1" "m \<le> length ?V"
      "stream_log s1 = stream_log s @ take m ?V" "fCurrentPut s1 \<le> fCurrentPut s" "e \<noteq> CF_NoErr \<Longrightarrow> m = 0"
    using write_out_ok [OF assms(1), of hole vs] by blast
  define s3 where "s3 = (if e = CF_NoErr then s1\<lparr>fTimeoutTask := RefreshTimeout curTime (fTimeoutTask s1)\<rparr> else s1)
      \<lparr>fBytesWritten := fBytesWritten (if e = CF_NoErr then s1\<lparr>fTimeoutTask := RefreshTimeout curTime (fTimeoutTask s1)\<rparr> else s1) + of_nat m\<rparr>"
  have s3: "stream_inv s3" "stream_log s3 = stream_log s @ take m ?V" "fCurrentPut s3 \<le> fCurrentPut s"
    using 1 by (auto simp: s3_def)
  have W: "WriteV_stream curTime s ?v (length ?V) inSendType =
     (if e \<noteq> CF_NoErr \<and> e \<noteq> EAGAIN then Some (e, None, s1)
      else if m = length ?V then Some (CF_NoErr, Some m, s3)
      else if inSendType = kDontBuffer then Some (e, Some m, s3)
      else if inSendType = kAllOrNothing \<and> m = 0 then Some (EAGAIN, Some 0, s3)
      else do { (curVec, rest) \<leftarrow> skip_sent ?v m 1; s4 \<leftarrow> put_rest s3 (drop curVec ?v) rest; Some (CF_NoErr, Some (length ?V), s4) })"
    unfolding WriteV_stream_eq 1(1) s3_def Let_def by simp
  show ?thesis
  proof (cases "m = length ?V \<or> inSendType = kDontBuffer \<or> inSendType = kAllOrNothing \<and> m = 0 \<or> e \<noteq> CF_NoErr \<and> e \<noteq> EAGAIN")
    case True
    then show ?thesis unfolding W using 1 s3 by (auto simp: kDontBuffer_def kAllOrNothing_def kAlwaysBuffer_def)
  next
    case False
    then have m: "m < length (concat (drop 1 ?v))" using 1(3) by simp
    obtain c r where c: "skip_sent ?v m 1 = Some (c, r)" "c < length ?v" "r < length (?v ! c)"
        "drop r (concat (drop c ?v)) = drop m (concat (drop 1 ?v))"
      by (rule skip_sent_ok [OF m])
    have d: "drop c ?v = ?v ! c # drop (c + 1) ?v" using Cons_nth_drop_Suc [OF c(2)] by simp
    have "length (concat (drop c ?v)) - r = length ?V - m" using arg_cong [OF c(4), of length] by simp
    moreover have "r \<le> length (concat (drop c ?v))" unfolding d using c(3) by simp
    moreover have "fCurrentPut s3 + length (drop r (concat (drop c ?v))) < 2 ^ 31 - 1" using assms(2) s3(3) c(4) by simp
    ultimately obtain s4 where "put_rest s3 (drop c ?v) r = Some s4" "stream_inv s4" "stream_log s4 = stream_log s3 @ drop r (concat (drop c ?v))"
      using put_rest_ok [OF s3(1), of r "drop c ?v"] c(3) unfolding d by auto
    then show ?thesis unfolding W using False c s3(2) by (auto simp: kAlwaysBuffer_def)
  qed
qed

definition ex_stream :: HTTPResponseStream where
  "ex_stream = (HTTPResponseStream_new
      \<lparr>sState = kConnected, sSends = [Accepted 3, SendFails EINTR, Accepted 2], sRecvs = [], sWire = []\<rparr> (TimeoutTask_new 0 None 0))"

lemma ex_stream_inv: "stream_inv ex_stream" "fCurrentPut ex_stream = 0" "amtInBuffer ex_stream = 0" "stream_log ex_stream = []"
  by (simp_all add: ex_stream_def HTTPResponseStream_new_def stream_inv_def fmt_ok_def amtInBuffer_def GetCurrentOffset_def
      stream_log_def contents_def)

theorem WriteV_stream_log_witness:
  "\<exists>e r s'. WriteV_stream 5 ex_stream ([] # [''ab'', ''cde'']) (length (concat [''ab'', ''cde''])) kAlwaysBuffer = Some (e, r, s') \<and>
     stream_log s' = (case r of None \<Rightarrow> [] | Some n \<Rightarrow> ''abcde'')"
proof -
  have "fCurrentPut ex_stream + length (concat [''ab'', ''cde'']) < 2 ^ 31 - 1" by (simp add: ex_stream_inv)
  from WriteV_stream_log [OF ex_stream_inv(1) this, of 5 "[]" kAlwaysBuffer] obtain e r s' where
    "WriteV_stream 5 ex_stream ([] # [''ab'', ''cde'']) (length (concat [''ab'', ''cde''])) kAlwaysBuffer = Some (e, r, s')"
    "case r of None \<Rightarrow> e \<notin> {CF_NoErr, EAGAIN} \<and> stream_log s' = stream_log ex_stream
     | Some n \<Rightarrow> e \<in> {CF_NoErr, EAGAIN} \<and> n \<le> length (concat [''ab'', ''cde'']) \<and>
         stream_log s' = stream_log ex_stream @ take n (concat [''ab'', ''cde'']) \<and>
         (kAlwaysBuffer = kAlwaysBuffer \<longrightarrow> e = CF_NoErr \<and> n = length (concat [''ab'', ''cde'']))"
    by blast
  then show ?thesis
    by (intro exI [of _ e] exI [of _ r] exI [of _ s']) (auto simp: ex_stream_inv split: option.splits)
qed

text \<open>One flush.\<close>

lemma Flush_ok:
  assumes inv: "stream_inv s"
  obtains e s' where "Flush curTime s = Some (e, s')" "stream_inv s'" "stream_log s' = stream_log s" "e \<in> {CF_NoErr, EAGAIN}"
    "e = CF_NoErr \<longleftrightarrow> unsent s' = []"
    "0 < amtInBuffer s \<Longrightarrow> fSocket s' = snd (snd (Send (fSocket s) (unsent s)))"
    "amtInBuffer s = 0 \<Longrightarrow> s' = s" "fBytesWritten s' = fBytesWritten s" "fCurrentPut s' \<le> fCurrentPut s"
proof (cases "0 < amtInBuffer s")
  case False
  then have "unsent s = []" using length_unsent [OF inv] by simp
  then show thesis using that [of CF_NoErr s] False inv by (simp add: Flush_def)
next
  case True
  obtain r n k where S: "Send (fSocket s) (unsent s) = (r, n, k)" by (cases "Send (fSocket s) (unsent s)") auto
  let ?n = "case n of None \<Rightarrow> 0 | Some n \<Rightarrow> n"
  have n: "?n \<le> amtInBuffer s + length []" "sWire k = sWire (fSocket s) @ take ?n (unsent s @ [])"
    using length_unsent [OF inv] by (rule_tac SendE [of "fSocket s" "unsent s"]; simp add: S)+
  let ?t = "if ?n > 0 then RefreshTimeout curTime (fTimeoutTask s) else fTimeoutTask s"
  obtain m s1 where a: "account (s\<lparr>fSocket := k\<rparr>) ?n = Some (m, s1)" "stream_inv s1" "stream_log s1 = stream_log s" "fSocket s1 = k"
    by (rule account_ok [OF inv True n]) auto
  have am: "amtInBuffer (s\<lparr>fSocket := k\<rparr>) = amtInBuffer s" by (simp add: amtInBuffer_def GetCurrentOffset_def)
  show thesis
  proof (cases "?n = amtInBuffer s")
    case eq: True
    then have s1: "s1 = (Reset (s\<lparr>fSocket := k\<rparr>) 0)\<lparr>fBytesSentInBuffer := 0\<rparr>" using a(1) by (simp add: account_def am)
    have F: "Flush curTime s = Some (CF_NoErr, s1\<lparr>fTimeoutTask := ?t\<rparr>)"
      using True eq by (simp add: Flush_def S Let_def s1 Reset_def)
    have "unsent (s1\<lparr>fTimeoutTask := ?t\<rparr>) = []"
      using a(2) by (subst unsent_eq) (simp_all add: s1 Reset_def contents_def)
    then show thesis using that [OF F] a True by (simp add: S s1 Reset_def)
  next
    case False
    then have lt: "?n < amtInBuffer s" using n(1) by simp
    then have s1: "s1 = s\<lparr>fSocket := k, fBytesSentInBuffer := fBytesSentInBuffer s + ?n\<rparr>"
        "fBytesSentInBuffer s + ?n < GetCurrentOffset s"
      using a(1) by (auto simp: account_def am Let_def GetCurrentOffset_def Assert_def split: if_splits)
    have F: "Flush curTime s = Some (EAGAIN, s1\<lparr>fTimeoutTask := ?t\<rparr>)"
      using True False s1(2) by (simp add: Flush_def S Let_def s1(1) GetCurrentOffset_def)
    have "unsent (s1\<lparr>fTimeoutTask := ?t\<rparr>) \<noteq> []"
      using a(2) s1(2) length_contents [of s] inv
      by (subst unsent_eq) (simp_all add: s1(1) contents_def GetCurrentOffset_def stream_inv_def fmt_ok_def)
    then show thesis using that [OF F] a True by (simp add: S cf_error_defs s1(1))
  qed
qed

text \<open>A stream with two bytes in its buffer.\<close>

definition busy_stream :: HTTPResponseStream where
  "busy_stream = ex_stream\<lparr>fBuffer := ''ab'' @ replicate 510 NUL, fCurrentPut := 2\<rparr>"

lemma busy_stream_facts: "stream_inv busy_stream" "stream_log busy_stream = ''ab''" "IsConnected (fSocket busy_stream)"
  "amtInBuffer busy_stream = 2"
  by (simp_all add: busy_stream_def ex_stream_def HTTPResponseStream_new_def stream_inv_def fmt_ok_def amtInBuffer_def
      GetCurrentOffset_def stream_log_def contents_def IsConnected_def kConnected_def)

text \<open>A flush keeps the byte stream as it is, whatever the socket takes, and reports success exactly
  when nothing is left in the buffer; otherwise it reports that the socket would block.\<close>

theorem Flush_log:
  assumes "stream_inv s"
  shows "\<exists>e s'. Flush curTime s = Some (e, s') \<and> stream_inv s' \<and> stream_log s' = stream_log s \<and>
    e = (if unsent s' = [] then CF_NoErr else EAGAIN)"
  by (rule Flush_ok [OF assms, of curTime]) auto

theorem Flush_log_witness:
  "\<exists>e s'. Flush 7 busy_stream = Some (e, s') \<and> stream_log s' = ''ab''"
  using Flush_log [OF busy_stream_facts(1), of 7] by (auto simp: busy_stream_facts(2))

text \<open>On a socket that is no longer connected a flush of pending data reports that the socket
  would block, not that the client has gone: the caller is sent to wait for the dead socket to
  become writable.\<close>

theorem Flush_disconnected:
  assumes "stream_inv s" "\<not> IsConnected (fSocket s)" "unsent s \<noteq> []"
  shows "Flush curTime s = Some (EAGAIN, s)"
proof -
  have "0 < amtInBuffer s" using assms(3) length_unsent [OF assms(1)] by (metis length_greater_0_conv)
  moreover from this have "fBytesSentInBuffer s < GetCurrentOffset s" using amt_eq [OF assms(1)] by (simp add: GetCurrentOffset_def)
  ultimately show ?thesis using assms(2) by (simp add: Flush_def Send_def Let_def)
qed

theorem Flush_disconnected_witness:
  "let s = ex_stream\<lparr>fCurrentPut := 2, fSocket := (fSocket ex_stream)\<lparr>sState := 0\<rparr>\<rparr> in Flush 0 s = Some (EAGAIN, s)"
proof -
  let ?s = "ex_stream\<lparr>fCurrentPut := 2, fSocket := (fSocket ex_stream)\<lparr>sState := 0\<rparr>\<rparr>"
  have i: "stream_inv ?s"
    by (simp add: ex_stream_def HTTPResponseStream_new_def stream_inv_def fmt_ok_def kOutputBufferSizeInBytes_def CF_MAX_REQUEST_BUFFER_SIZE_def)
  have "amtInBuffer ?s = 2" using amt_eq [OF i] by (simp add: ex_stream_def HTTPResponseStream_new_def)
  then have u: "unsent ?s \<noteq> []" using length_unsent [OF i] by (metis list.size(3) zero_neq_numeral)
  have "\<not> IsConnected (fSocket ?s)" by (simp add: IsConnected_def)
  from Flush_disconnected [OF i this u] show ?thesis by (simp add: Let_def)
qed

text \<open>Flushing again and again.\<close>

fun flush_times :: "int \<Rightarrow> nat \<Rightarrow> HTTPResponseStream \<Rightarrow> (int \<times> HTTPResponseStream) option" where
  "flush_times curTime 0 s = Flush curTime s"
| "flush_times curTime (Suc n) s = do { (e, s1) \<leftarrow> Flush curTime s; flush_times curTime n s1 }"

text \<open>C38: As long as the socket stays connected and takes at least one byte of every write, flushing
  as often as there are bytes in the buffer puts all of them on the wire, in order.\<close>

theorem Flush_drains:
  assumes "stream_inv s" "IsConnected (fSocket s)" "sSends (fSocket s) = map Accepted ns" "\<forall>n \<in> set ns. 0 < n" "k < length ns"
    "length (unsent s) \<le> k"
  shows "\<exists>s'. flush_times curTime k s = Some (CF_NoErr, s') \<and> sWire (fSocket s') = stream_log s"
  using assms
proof (induction k arbitrary: s ns)
  case 0
  then have "amtInBuffer s = 0" "unsent s = []" using length_unsent [OF "0.prems"(1)] by simp_all
  then show ?case using unsent_eq [OF "0.prems"(1)] by (auto simp: Flush_def stream_log_def)
next
  case (Suc k)
  obtain e s1 where f: "Flush curTime s = Some (e, s1)" "stream_inv s1" "stream_log s1 = stream_log s"
    "0 < amtInBuffer s \<Longrightarrow> fSocket s1 = snd (snd (Send (fSocket s) (unsent s)))" "amtInBuffer s = 0 \<Longrightarrow> s1 = s"
  proof (rule Flush_ok [OF Suc.prems(1), of curTime])
    fix e s1
    assume "Flush curTime s = Some (e, s1)" "stream_inv s1" "stream_log s1 = stream_log s"
      "0 < amtInBuffer s \<Longrightarrow> fSocket s1 = snd (snd (Send (fSocket s) (unsent s)))" "amtInBuffer s = 0 \<Longrightarrow> s1 = s"
    then show thesis by (rule that)
  qed
  have "\<exists>s'. flush_times curTime k s1 = Some (CF_NoErr, s') \<and> sWire (fSocket s') = stream_log s1"
  proof (cases "amtInBuffer s = 0")
    case True
    then show ?thesis using Suc.IH [OF Suc.prems(1-4)] Suc.prems(5) length_unsent [OF Suc.prems(1)] f(5) by simp
  next
    case False
    obtain n ms where ns: "ns = n # ms" "0 < n" using Suc.prems(4,5) by (cases ns) auto
    have k: "fSocket s1 = (fSocket s)\<lparr>sSends := map Accepted ms, sWire := sWire (fSocket s) @ take n (unsent s)\<rparr>"
      using f(4) False Suc.prems(2,3) ns(1) by (simp add: Send_def)
    have "length (stream_log s1) = length (stream_log s)" using f(3) by simp
    then have "length (take n (unsent s)) + length (unsent s1) = length (unsent s)"
      unfolding stream_log_def unsent_eq [OF f(2), symmetric] unsent_eq [OF Suc.prems(1), symmetric] by (simp add: k)
    moreover have "0 < length (take n (unsent s))" using False ns(2) length_unsent [OF Suc.prems(1)] by simp
    ultimately have "length (unsent s1) \<le> k" using Suc.prems(6) by linarith
    then show ?thesis using Suc.IH [OF f(2), of ms] k Suc.prems(2,4,5) ns by simp
  qed
  then show ?case by (simp add: f(1,3))
qed

theorem Flush_drains_witness:
  "\<exists>s'. flush_times 3 2 (busy_stream\<lparr>fSocket := (fSocket busy_stream)\<lparr>sSends := [Accepted 1, Accepted 4, Accepted 4]\<rparr>\<rparr>) = Some (CF_NoErr, s') \<and>
     sWire (fSocket s') = ''ab''"
proof -
  let ?s = "busy_stream\<lparr>fSocket := (fSocket busy_stream)\<lparr>sSends := [Accepted 1, Accepted 4, Accepted 4]\<rparr>\<rparr>"
  have i: "stream_inv ?s" "stream_log ?s = ''ab''" "IsConnected (fSocket ?s)" "length (unsent ?s) \<le> 2"
    using busy_stream_facts length_unsent [OF busy_stream_facts(1)]
    by (simp_all add: stream_log_def contents_def unsent_def amtInBuffer_def GetCurrentOffset_def)
  show ?thesis using Flush_drains [OF i(1,3), of "[1, 4, 4]" 2 3] i(2,4) by simp
qed

end
