(* ===== verification/CF_HTTPSession.thy ===== *)
theory CF_HTTPSession
  imports CF_HTTPHeader CF_HTTPDispatcher CF_HTTPRequestStream CF_HTTPResponseStream
begin

text \<open>
  A connection of the HTTP server: \<^verbatim>\<open>src/CFHttp/HTTPSession.cpp\<close> and
  \<^verbatim>\<open>HTTPSessionInterface.cpp\<close>. A session is a task; each \<^verbatim>\<open>Run\<close> drives the
  state machine that reads a request through the input stream, parses it, reads its body,
  dispatches it to a handler, writes the response through the output stream and starts over.

  The two streams and the two socket pointers share one socket (the input socket differs only after
  \<^verbatim>\<open>SnarfInputSocket\<close>, which nothing calls); it is kept in the output stream and lent to the
  operations of the input stream. The two mutexes are counters of how often the running thread
  holds them. What surrounds the session is an environment: the clock and the date, the server name,
  the dispatcher's mappers with the handlers as functions, and the block the allocator would
  return to a decoding input stream. \<^term>\<open>None\<close> is an access outside of a block, a null
  pointer or a failed assertion.
\<close>

section \<open>State\<close>

datatype http_state = kReadingRequest | kFilteringRequest | kPreprocessingRequest | kProcessingRequest | kSendingResponse
  | kCleaningUp | kReadingFirstRequest | kHaveCompleteMessage

definition EV_RE :: nat where "EV_RE = 1"
definition EV_WR :: nat where "EV_WR = 2"

record HTTPSession =
  fState :: http_state
  fRequest :: "HTTPPacket option"
  fResponse :: "HTTPPacket option"
  fInputStream :: HTTPRequestStream
  fOutputStream :: HTTPResponseStream
  fLiveSession :: bool
  fObjectHolders :: int
  fRequestBodyLen :: int
  fReadMutex :: nat
  fSessionMutex :: nat
  requestedEvents :: "nat list"
  signals :: "UInt32 list"
  sameThread :: bool

type_synonym CF_CGIFunction = "HTTPPacket \<Rightarrow> HTTPPacket \<Rightarrow> int \<times> HTTPPacket \<times> HTTPPacket"

record HTTPEnv =
  eTime :: int
  eDate :: mem
  eServer :: StrPtrLen
  eBlock :: mem
  sDispatcher :: "CF_CGIFunction HTTPPathMapper list"

definition HTTPSession_new :: "HTTPEnv \<Rightarrow> nat \<Rightarrow> TCPSocket \<Rightarrow> mem \<Rightarrow> HTTPSession" where
  "HTTPSession_new env task sock buf =
     \<lparr>fState = kReadingFirstRequest, fRequest = None, fResponse = None, fInputStream = HTTPRequestStream_new buf,
      fOutputStream = HTTPResponseStream_new sock (SetTask (Some task) (TimeoutTask_new (eTime env) None (30 * 1000))),
      fLiveSession = True, fObjectHolders = 0, fRequestBodyLen = -1, fReadMutex = 0, fSessionMutex = 0,
      requestedEvents = [], signals = [], sameThread = False\<rparr>"

definition IsLiveSession :: "HTTPSession \<Rightarrow> bool" where
  "IsLiveSession s \<longleftrightarrow> IsConnected (fSocket (fOutputStream s)) \<and> fLiveSession s"

definition set_socket :: "TCPSocket \<Rightarrow> HTTPSession \<Rightarrow> HTTPSession" where
  "set_socket k s = s\<lparr>fOutputStream := (fOutputStream s)\<lparr>fSocket := k\<rparr>\<rparr>"

definition request_event :: "nat \<Rightarrow> HTTPSession \<Rightarrow> HTTPSession" where
  "request_event ev s = s\<lparr>requestedEvents := requestedEvents s @ [ev]\<rparr>"

definition force_same_thread :: "HTTPSession \<Rightarrow> HTTPSession" where
  "force_same_thread s = s\<lparr>sameThread := True\<rparr>"

definition SignalTask :: "UInt32 \<Rightarrow> HTTPSession \<Rightarrow> HTTPSession" where
  "SignalTask ev s = s\<lparr>signals := signals s @ [ev]\<rparr>"

section \<open>Streams of the session\<close>

definition DecrementObjectHolderCount :: "HTTPSession \<Rightarrow> HTTPSession" where
  "DecrementObjectHolderCount s = (SignalTask kReadEvent s)\<lparr>fObjectHolders := fObjectHolders s - 1\<rparr>"

definition Write_session ::
  "HTTPEnv \<Rightarrow> HTTPSession \<Rightarrow> string \<Rightarrow> nat \<Rightarrow> (int \<times> nat option \<times> HTTPSession) option" where
  "Write_session env s inBuffer inFlags = do {
     let sendType = (if inFlags AND cfWriteFlagsBufferData \<noteq> 0 then kAlwaysBuffer else kDontBuffer);
     (e, n, o1) \<leftarrow> WriteV_stream (eTime env) (fOutputStream s) [[], inBuffer] (length inBuffer) sendType;
     Some (e, n, s\<lparr>fOutputStream := o1\<rparr>)
   }"

definition WriteV_session ::
  "HTTPEnv \<Rightarrow> HTTPSession \<Rightarrow> string list \<Rightarrow> nat \<Rightarrow> (int \<times> nat option \<times> HTTPSession) option" where
  "WriteV_session env s inVec inTotalLength = do {
     (e, n, o1) \<leftarrow> WriteV_stream (eTime env) (fOutputStream s) inVec inTotalLength kDontBuffer;
     Some (e, n, s\<lparr>fOutputStream := o1\<rparr>)
   }"

definition Read_session :: "HTTPSession \<Rightarrow> nat \<Rightarrow> (int \<times> string \<times> HTTPSession) option" where
  "Read_session s inLength =
     (if fRequestBodyLen s = 0 then Some (CF_NoMoreData, [], s)
      else do {
        let n = (if fRequestBodyLen s > 0 \<and> int inLength > fRequestBodyLen s then nat (fRequestBodyLen s) else inLength);
        (theErr, bs, k, i) \<leftarrow> Read_stream (fSocket (fOutputStream s)) (fInputStream s) n;
        let s1 = set_socket k (s\<lparr>fInputStream := i\<rparr>);
        Some (theErr, bs,
          if fRequestBodyLen s \<ge> 0 then s1\<lparr>fRequestBodyLen := fRequestBodyLen s - int (length bs)\<rparr> else s1)
      })"

definition RequestEvent :: "nat \<Rightarrow> HTTPSession \<Rightarrow> HTTPSession" where
  "RequestEvent inEventMask s =
     (let s1 = (if inEventMask AND 1 \<noteq> 0 then request_event EV_RE s else s)
      in if inEventMask AND 2 \<noteq> 0 then request_event EV_WR s1 else s1)"

section \<open>The request\<close>

text \<open>The request's body: a counted string over a block of its own.\<close>

definition body_of :: "HTTPPacket \<Rightarrow> UInt32 \<Rightarrow> StrPtrLen" where
  "body_of k content_length =
     (case fHTTPBody k of Some b \<Rightarrow> b
      | None \<Rightarrow> \<lparr>Ptr = Some (replicate (unat (content_length + 1)) NUL), Len = 0\<rparr>)"

definition content_length_of :: "HTTPPacket \<Rightarrow> UInt32 option" where
  "content_length_of k = do {
     lengthPtr \<leftarrow> GetHeaderValue k httpContentLengthHeader;
     p \<leftarrow> ConsumeWhitespace (StringParser_new (Some lengthPtr));
     (n, _, _) \<leftarrow> ConsumeInteger p;
     Some n
   }"

definition SetupRequest :: "HTTPSession \<Rightarrow> (int \<times> HTTPSession) option" where
  "SetupRequest s = do {
     req \<leftarrow> fRequest s;
     (theErr, req1) \<leftarrow> (if fHTTPType req = httpIllegalType then Parse req else Some (CF_NoErr, req));
     let s1 = s\<lparr>fRequest := Some req1\<rparr>;
     if theErr \<noteq> CF_NoErr then Some (CF_BadArgument, s1)
     else do {
       content_length \<leftarrow> content_length_of req1;
       if content_length = 0 then Some (CF_NoErr, s1)
       else do {
         let requestBody = body_of req1 content_length;
         let theBufferOffset = Len requestBody;
         let wanted = unat (content_length - of_nat theBufferOffset);
         theRequestBody \<leftarrow> Ptr requestBody;
         (theErr, bs, k, i) \<leftarrow> Read_stream (fSocket (fOutputStream s1)) (fInputStream s1) wanted;
         block \<leftarrow> write_at theRequestBody theBufferOffset bs;
         Assert (theErr \<noteq> CF_BadArgument);
         let s2 = set_socket k (s1\<lparr>fInputStream := i\<rparr>);
         let body = (\<lambda>n. s2\<lparr>fRequest := Some (SetBody req1 (Some \<lparr>Ptr = Some block, Len = n\<rparr>))\<rparr>);
         if theErr = CF_RequestFailed then Some (CF_RequestFailed, body theBufferOffset)
         else do {
           let s3 = body (theBufferOffset + length bs);
           if theErr = CF_WouldBlock \<or> length bs < wanted then Some (CF_WouldBlock, s3)
           else do {
             Assert (theErr = CF_NoErr);
             Some (CF_NoErr, s3)
           }
         }
       }
     }
   }"

section \<open>The response\<close>

definition body_length :: "HTTPPacket \<Rightarrow> nat" where
  "body_length k = (case fHTTPBody k of None \<Rightarrow> 0 | Some b \<Rightarrow> Len b)"

definition SetupResponse :: "HTTPEnv \<Rightarrow> HTTPSession \<Rightarrow> HTTPSession option" where
  "SetupResponse env s = do {
     resp \<leftarrow> fResponse s;
     req \<leftarrow> fRequest s;
     let resp1 = (if fVersion resp = httpIllegalVersion
                  then SetVersion resp (if fVersion req \<noteq> httpIllegalVersion then fVersion req else http11Version) else resp);
     (_, resp2) \<leftarrow> CreateResponseHeader (eDate env) resp1;
     resp3 \<leftarrow> AppendContentLengthHeader resp2 (of_nat (body_length resp2));
     resp4 \<leftarrow> (if fRequestKeepAlive req then Some resp3 else AppendConnectionCloseHeader resp3);
     (ackPtr, resp5) \<leftarrow> GetCompleteHTTPHeader resp4;
     ack \<leftarrow> Ptr ackPtr;
     respHeader \<leftarrow> strncpy (replicate 2048 NUL) ack (Len ackPtr);
     o1 \<leftarrow> Put_cstr BufferIsFull (fOutputStream s) respHeader;
     o2 \<leftarrow> (case fHTTPBody resp5 of None \<Rightarrow> Some o1
            | Some b \<Rightarrow> if Len b > 0 then Put_spl BufferIsFull o1 b else Some o1);
     Some (s\<lparr>fResponse := Some resp5, fOutputStream := o2\<rparr>)
   }"

definition CleanupRequestAndResponse :: "HTTPSession \<Rightarrow> HTTPSession" where
  "CleanupRequestAndResponse s =
     (let s1 = (case fRequest s of None \<Rightarrow> s
                | Some req \<Rightarrow> (if \<not> fRequestKeepAlive req then SignalTask kKillEvent s else s)\<lparr>fRequest := None\<rparr>)
      in s1\<lparr>fResponse := None, fSessionMutex := fSessionMutex s1 - 1, fReadMutex := fReadMutex s1 - 1,
            fRequestBodyLen := -1\<rparr>)"

partial_function (option) dumpRequestData :: "HTTPSession \<Rightarrow> (int \<times> HTTPSession) option" where
  "dumpRequestData s = do {
     (theErr, _, s1) \<leftarrow> Read_session s CF_MAX_REQUEST_BUFFER_SIZE;
     if theErr = CF_NoErr then dumpRequestData s1 else Some (theErr, s1)
   }"

declare dumpRequestData.simps [code]

text \<open>
  A packet sent outside of the request cycle. The packet is made with the constructor for a packet
  that is to be parsed: its text is the server name, its type is illegal.
\<close>

definition SendHTTPPacket ::
  "HTTPEnv \<Rightarrow> HTTPSession \<Rightarrow> StrPtrLen \<Rightarrow> bool \<Rightarrow> bool \<Rightarrow> (int \<times> HTTPSession) option" where
  "SendHTTPPacket env s contentXML connectionClose decrement = do {
     let httpAck = HTTPPacket_parse (eServer env) (eServer env);
     (_, a1) \<leftarrow> CreateResponseHeader (eDate env) httpAck;
     a2 \<leftarrow> (if Len contentXML \<noteq> 0 then AppendContentLengthHeader a1 (of_nat (Len contentXML)) else Some a1);
     a3 \<leftarrow> (if connectionClose then AppendConnectionCloseHeader a2 else Some a2);
     (ackPtr, _) \<leftarrow> GetCompleteHTTPHeader a3;
     ack \<leftarrow> Ptr ackPtr;
     respHeader \<leftarrow> strncpy (replicate 2048 NUL) ack (Len ackPtr);
     o1 \<leftarrow> Put_cstr BufferIsFull (fOutputStream s) respHeader;
     o2 \<leftarrow> (if Len contentXML > 0 then Put_spl BufferIsFull o1 contentXML else Some o1);
     o3 \<leftarrow> (if fBytesWritten o2 \<noteq> 0 then map_option snd (Flush (eTime env) o2) else Some o2);
     let s1 = s\<lparr>fOutputStream := o3\<rparr>;
     let s2 = (if fObjectHolders s1 \<noteq> 0 \<and> decrement then DecrementObjectHolderCount s1 else s1);
     Some (CF_NoErr, if connectionClose then SignalTask kKillEvent s2 else s2)
   }"

section \<open>The state machine\<close>

text \<open>A round of the loop ends the run with a result, or goes on with the value of \<^verbatim>\<open>err\<close>.\<close>

datatype outcome = Return int | Again int

definition wait_for :: "nat \<Rightarrow> HTTPSession \<Rightarrow> (outcome \<times> HTTPSession) option" where
  "wait_for ev s = Some (Return 0, request_event ev s)"

definition CleaningUp :: "int \<Rightarrow> HTTPSession \<Rightarrow> (outcome \<times> HTTPSession) option" where
  "CleaningUp err s = do {
     (e, s1) \<leftarrow> (if fRequestBodyLen s > 0 then dumpRequestData s else Some (err, s));
     if fRequestBodyLen s > 0 \<and> e = EAGAIN then wait_for EV_RE (force_same_thread s1)
     else Some (Again e, (CleanupRequestAndResponse s1)\<lparr>fState := kReadingRequest\<rparr>)
   }"

definition SendingResponse :: "HTTPEnv \<Rightarrow> int \<Rightarrow> HTTPSession \<Rightarrow> (outcome \<times> HTTPSession) option" where
  "SendingResponse env err s = do {
     Assert (fRequest s \<noteq> None);
     Assert (fResponse s \<noteq> None);
     s1 \<leftarrow> SetupResponse env s;
     if fBytesWritten (fOutputStream s1) = 0 then Some (Again err, s1\<lparr>fState := kCleaningUp\<rparr>)
     else do {
       (e, o1) \<leftarrow> Flush (eTime env) (fOutputStream s1);
       let s2 = s1\<lparr>fOutputStream := o1\<rparr>;
       if e = EAGAIN then wait_for EV_WR (force_same_thread s2)
       else if e \<noteq> CF_NoErr then do { Assert (\<not> IsLiveSession s2); Some (Again e, s2) }
       else CleaningUp e (s2\<lparr>fState := kCleaningUp\<rparr>)
     }
   }"

definition ProcessingRequest :: "HTTPEnv \<Rightarrow> int \<Rightarrow> HTTPSession \<Rightarrow> (outcome \<times> HTTPSession) option" where
  "ProcessingRequest env err s = do {
     req \<leftarrow> fRequest s;
     resp \<leftarrow> fResponse s;
     d \<leftarrow> Dispatch (sDispatcher env) (fRelativeURI req);
     let (theErr, req1, resp1) = (case d of Inl f \<Rightarrow> f req resp | Inr e \<Rightarrow> (e, req, resp));
     let resp2 = (if theErr = CF_FileNotFound then SetStatusCode resp1 httpNotFound
                  else if theErr \<noteq> CF_NoErr then SetStatusCode resp1 httpInternalServerError else resp1);
     SendingResponse env err (s\<lparr>fRequest := Some req1, fResponse := Some resp2, fState := kSendingResponse\<rparr>)
   }"

definition PreprocessingRequest :: "int \<Rightarrow> HTTPSession \<Rightarrow> (outcome \<times> HTTPSession) option" where
  "PreprocessingRequest err s = do {
     req \<leftarrow> fRequest s;
     s1 \<leftarrow> (if fVersion req = httpIllegalVersion
            then do { resp \<leftarrow> fResponse s;
                      Some (s\<lparr>fResponse := Some (SetStatusCode resp httpHTTPVersionNotSupported), fState := kSendingResponse\<rparr>) }
            else Some s);
     Some (Again err, s1\<lparr>fState := kProcessingRequest\<rparr>)
   }"

definition FilteringRequest :: "HTTPEnv \<Rightarrow> int \<Rightarrow> HTTPSession \<Rightarrow> (outcome \<times> HTTPSession) option" where
  "FilteringRequest env err s = do {
     let s1 = s\<lparr>fOutputStream := (fOutputStream s)\<lparr>fTimeoutTask := RefreshTimeout (eTime env) (fTimeoutTask (fOutputStream s))\<rparr>\<rparr>;
     (theErr, s2) \<leftarrow> SetupRequest s1;
     if theErr = CF_WouldBlock then wait_for EV_RE (force_same_thread s2)
     else Some (Again err, s2\<lparr>fState := kPreprocessingRequest\<rparr>)
   }"

definition HaveCompleteMessage :: "HTTPEnv \<Rightarrow> int \<Rightarrow> HTTPSession \<Rightarrow> (outcome \<times> HTTPSession) option" where
  "HaveCompleteMessage env err s = do {
     text \<leftarrow> GetRequestBuffer (fInputStream s);
     Assert (fRequest s = None);
     Assert (fResponse s = None);
     let resp = HTTPPacket_new (eServer env) httpResponseType;
     let s1 = s\<lparr>fRequest := Some (HTTPPacket_parse (eServer env) text), fResponse := Some resp,
                fReadMutex := fReadMutex s + 1, fSessionMutex := fSessionMutex s + 1,
                fOutputStream := ResetBytesWritten (fOutputStream s)\<rparr>;
     if err = E2BIG \<or> err = CF_BadArgument
     then Some (Again err, s1\<lparr>fResponse := Some (SetStatusCode resp httpInternalServerError), fState := kSendingResponse\<rparr>)
     else do {
       Assert (err = CF_RequestArrived);
       FilteringRequest env err (s1\<lparr>fState := kFilteringRequest\<rparr>)
     }
   }"

definition ReadingFirstRequest :: "HTTPEnv \<Rightarrow> HTTPSession \<Rightarrow> (outcome \<times> HTTPSession) option" where
  "ReadingFirstRequest env s = do {
     (err, k, i) \<leftarrow> ReadRequest (eBlock env) (fSocket (fOutputStream s)) (fInputStream s);
     let s1 = set_socket k (s\<lparr>fInputStream := i\<rparr>);
     if err = CF_NoErr then wait_for EV_RE s1
     else if err \<noteq> CF_RequestArrived \<and> err \<noteq> E2BIG
     then do { Assert (err > 0); Assert (\<not> IsLiveSession s1); Some (Again err, s1) }
     else Some (Again err, s1\<lparr>fState := kHaveCompleteMessage\<rparr>)
   }"

definition ReadingRequest :: "HTTPEnv \<Rightarrow> HTTPSession \<Rightarrow> (outcome \<times> HTTPSession) option" where
  "ReadingRequest env s = do {
     (err, k, i) \<leftarrow> ReadRequest (eBlock env) (fSocket (fOutputStream s)) (fInputStream s);
     let s1 = set_socket k (s\<lparr>fInputStream := i\<rparr>);
     if err = CF_NoErr then wait_for EV_RE s1
     else if err \<noteq> CF_RequestArrived \<and> err \<noteq> E2BIG \<and> err \<noteq> CF_BadArgument
     then do {
       Assert (err > 0);
       Assert (\<not> IsConnected k);
       Assert (\<not> IsLiveSession s1);
       Some (Again err, s1)
     }
     else HaveCompleteMessage env err (s1\<lparr>fState := kHaveCompleteMessage\<rparr>)
   }"

fun session_round :: "HTTPEnv \<Rightarrow> int \<Rightarrow> HTTPSession \<Rightarrow> (outcome \<times> HTTPSession) option" where
  "session_round env err s =
     (case fState s of
        kReadingFirstRequest \<Rightarrow> ReadingFirstRequest env s
      | kReadingRequest \<Rightarrow> ReadingRequest env s
      | kHaveCompleteMessage \<Rightarrow> HaveCompleteMessage env err s
      | kFilteringRequest \<Rightarrow> FilteringRequest env err s
      | kPreprocessingRequest \<Rightarrow> PreprocessingRequest err s
      | kProcessingRequest \<Rightarrow> ProcessingRequest env err s
      | kSendingResponse \<Rightarrow> SendingResponse env err s
      | kCleaningUp \<Rightarrow> CleaningUp err s)"

declare session_round.simps [simp del]

partial_function (option) run_loop :: "HTTPEnv \<Rightarrow> int \<Rightarrow> HTTPSession \<Rightarrow> (int \<times> HTTPSession) option" where
  "run_loop env err s =
     (if IsLiveSession s then do {
        (r, s1) \<leftarrow> session_round env err s;
        case r of Return n \<Rightarrow> Some (n, s1) | Again e \<Rightarrow> run_loop env e s1
      }
      else Some (if fObjectHolders s = 0 then -1 else 0, CleanupRequestAndResponse s))"

declare run_loop.simps [code]

definition Run :: "HTTPEnv \<Rightarrow> UInt32 \<Rightarrow> HTTPSession \<Rightarrow> (int \<times> HTTPSession) option" where
  "Run env events s =
     (let s1 = (if events AND kKillEvent \<noteq> 0 then s\<lparr>fLiveSession := False\<rparr> else s)
      in if events AND kTimeoutEvent \<noteq> 0 then Some (-1, s1) else run_loop env CF_NoErr s1)"

section \<open>The response\<close>

lemma CreateResponseHeader_body: "CreateResponseHeader d k = Some (b, k') \<Longrightarrow> fHTTPBody k' = fHTTPBody k"
  by (auto simp: CreateResponseHeader_def AppendDateField_def AppendResponseHeader_def Let_def bind_eq_Some_conv split: if_splits)

lemma lit_cstr: "NUL \<notin> set t \<Longrightarrow> StrPtrLen_cstr (Some (cstring t)) = Some (lit t)"
  by (simp add: StrPtrLen_cstr_def lit_def cstring_def strlen_def)

lemma dec_plain: "NUL \<notin> set (dec n)" "ascii (dec n)"
  using dec_digits [of n] by (auto simp: ascii_def byte_def)

text \<open>The fields that the session adds to the header of a response.\<close>

definition session_fields :: "HTTPPacket \<Rightarrow> HTTPPacket \<Rightarrow> (nat \<times> StrPtrLen) list" where
  "session_fields req resp =
     (httpContentLengthHeader, lit (dec (unat (of_nat (body_length resp) :: UInt32)))) #
     (if fRequestKeepAlive req then [] else [(httpConnectionHeader, sCloseString)])"

definition versioned :: "HTTPPacket \<Rightarrow> HTTPPacket \<Rightarrow> HTTPPacket" where
  "versioned req resp =
     (if fVersion resp = httpIllegalVersion
      then SetVersion resp (if fVersion req \<noteq> httpIllegalVersion then fVersion req else http11Version) else resp)"

definition body_text :: "HTTPPacket \<Rightarrow> string" where
  "body_text k = (case fHTTPBody k of None \<Rightarrow> [] | Some b \<Rightarrow> str b)"

definition response_bytes :: "HTTPEnv \<Rightarrow> HTTPPacket \<Rightarrow> HTTPPacket \<Rightarrow> string" where
  "response_bytes env req resp =
     response_of (versioned req resp) (eDate env) (session_fields req resp) @ body_text resp"

lemma SetupResponse_eq:
  assumes "fResponse s = Some resp" "fRequest s = Some req"
  shows "SetupResponse env s = do {
     (ackPtr, resp5) \<leftarrow> make_header (eDate env) (versioned req resp) (session_fields req resp);
     ack \<leftarrow> Ptr ackPtr;
     respHeader \<leftarrow> strncpy (replicate 2048 NUL) ack (Len ackPtr);
     o1 \<leftarrow> Put_cstr BufferIsFull (fOutputStream s) respHeader;
     o2 \<leftarrow> (case fHTTPBody resp5 of None \<Rightarrow> Some o1
            | Some b \<Rightarrow> if Len b > 0 then Put_spl BufferIsFull o1 b else Some o1);
     Some (s\<lparr>fResponse := Some resp5, fOutputStream := o2\<rparr>)
   }"
proof (cases "CreateResponseHeader (eDate env) (versioned req resp)")
  case None
  then show ?thesis using assms by (simp add: SetupResponse_def make_header_def versioned_def [symmetric])
next
  case (Some x)
  obtain b k1 where x: "CreateResponseHeader (eDate env) (versioned req resp) = Some (b, k1)" using Some by (cases x) auto
  have "body_length k1 = body_length resp"
    using CreateResponseHeader_body [OF x] by (simp add: body_length_def versioned_def SetVersion_def)
  then have A: "AppendContentLengthHeader k1 (of_nat (body_length k1)) =
      AppendResponseHeader k1 httpContentLengthHeader (lit (dec (unat (of_nat (body_length resp) :: UInt32))))"
    using lit_cstr [OF dec_plain(1)] by (simp add: AppendContentLengthHeader_def)
  show ?thesis
    using assms x A
    by (simp add: SetupResponse_def make_header_def versioned_def [symmetric] session_fields_def AppendConnectionCloseHeader_def)
qed

lemma put_padded:
  assumes "NUL \<notin> set t" "0 < k"
  shows "Put_cstr full s (t @ replicate k NUL) = Put full s t"
proof -
  have "replicate k NUL = NUL # replicate (k - 1) NUL" using assms(2) by (cases k) auto
  then show ?thesis using assms(1) by (simp add: Put_cstr_def strlen_def)
qed

text \<open>Packets and environments that the server's own code sets up.\<close>

definition env_ok :: "HTTPEnv \<Rightarrow> bool" where
  "env_ok env \<longleftrightarrow> 29 \<le> length (eDate env) \<and> ascii (take 29 (eDate env)) \<and> NUL \<notin> set (take 29 (eDate env)) \<and>
     text_ok (eServer env) \<and> NUL \<notin> set (str (eServer env))"

definition response_ok :: "HTTPEnv \<Rightarrow> HTTPPacket \<Rightarrow> bool" where
  "response_ok env k \<longleftrightarrow> fHTTPType k = httpResponseType \<and> fSvrHeader k = eServer env \<and> fStatusCode k < 40 \<and>
     (fVersion k < 3 \<or> fVersion k = httpIllegalVersion) \<and>
     (\<forall>b. fHTTPBody k = Some b \<longrightarrow> valid b)"

lemma tables_no_NUL:
  "\<forall>t \<in> set sVersionStrings. NUL \<notin> set t" "\<forall>t \<in> set sStatusCodeAsStrings. NUL \<notin> set t" "\<forall>t \<in> set sStatusCodeStrings. NUL \<notin> set t"
  "\<forall>t \<in> set sHeaders. NUL \<notin> set t"
  by code_simp+

lemma versioned_ok:
  assumes "response_ok env resp" "fVersion req < 4"
  shows "fVersion (versioned req resp) < 3" "fHTTPType (versioned req resp) = httpResponseType"
    "fSvrHeader (versioned req resp) = eServer env" "fStatusCode (versioned req resp) = fStatusCode resp"
    "fHTTPBody (versioned req resp) = fHTTPBody resp"
  using assms by (auto simp: response_ok_def versioned_def SetVersion_def httpIllegalVersion_def http11Version_def)

lemma response_no_NUL:
  assumes "response_ok env resp" "env_ok env" "fVersion req < 4"
  shows "NUL \<notin> set (response_of (versioned req resp) (eDate env) (session_fields req resp))"
proof -
  note v = versioned_ok [OF assms(1,3)]
  have st: "fStatusCode resp < 40" using assms(1) by (simp add: response_ok_def)
  have "NUL \<notin> set (status_line (fStatusCode resp) (fVersion (versioned req resp)))"
    using tables_no_NUL v(1) st tables_length(2) table_lengths by (simp add: status_line_def byte_def)
  moreover have "NUL \<notin> set (sHeaders ! i)" if "i < 52" for i using tables_no_NUL(4) that tables_length(1) by simp
  moreover have "str (theDate (eDate env)) = take 29 (eDate env)" by (simp add: theDate_def str_def kDateBufferLen_def)
  moreover have "NUL \<notin> set (str (eServer env))" "NUL \<notin> set (take 29 (eDate env))" using assms(2) by (auto simp: env_ok_def)
  ultimately show ?thesis
    using dec_plain(1)
    by (simp add: response_of_def response_text_def header_values_def first_fields_def session_fields_def header_line_def
        v crlf_def sAllString_def sCloseString_def httpServerHeader_def httpDateHeader_def httpContentLengthHeader_def
        httpAccessControlAllowOriginHeader_def httpConnectionHeader_def)
qed

text \<open>The response is appended to the output, header and body.\<close>

lemma SetupResponse_ok:
  assumes "fResponse s = Some resp" "fRequest s = Some req" "response_ok env resp" "env_ok env" "fVersion req < 4"
    and "stream_inv (fOutputStream s)" "length (response_of (versioned req resp) (eDate env) (session_fields req resp)) < 512"
    and "fCurrentPut (fOutputStream s) + length (response_bytes env req resp) < 2 ^ 31 - 1"
  obtains f n o1 where
    "SetupResponse env s = Some (s\<lparr>fResponse := Some ((versioned req resp)\<lparr>fHTTPHeaderFormatter := f, fHTTPHeader := n\<rparr>),
       fOutputStream := o1\<rparr>)"
    "stream_inv o1" "stream_log o1 = stream_log (fOutputStream s) @ response_bytes env req resp" "fSocket o1 = fSocket (fOutputStream s)"
    "fCurrentPut o1 = fCurrentPut (fOutputStream s) + length (response_bytes env req resp)"
    "fBytesWritten o1 = fBytesWritten (fOutputStream s) + of_nat (length (response_bytes env req resp))"
proof -
  let ?k = "versioned req resp" and ?hs = "session_fields req resp"
  let ?t = "response_of ?k (eDate env) ?hs"
  note v = versioned_ok [OF assms(3,5)]
  have e: "text_ok (eServer env)" "kDateBufferLen \<le> length (eDate env)" "ascii (take kDateBufferLen (eDate env))"
    using assms(4) by (auto simp: env_ok_def kDateBufferLen_def)
  have tk: "\<forall>x \<in> set ?hs. text_ok (snd x)"
    using dec_plain by (auto simp: session_fields_def text_ok_def sCloseString_def ascii_def byte_def lit_def str_def valid_def)
  have len: "length ?t < 2 ^ 31 - 1" using assms(7) by simp
  obtain f where f: "make_header (eDate env) ?k ?hs = Some (\<lparr>Ptr = Some (start_block f), Len = length ?t\<rparr>,
      ?k\<lparr>fHTTPHeaderFormatter := Some f, fHTTPHeader := length ?t\<rparr>)" "written f ?t"
    using make_header_ok [of ?k "eDate env" ?hs] v(2,3) e tk len by metis
  have nn: "NUL \<notin> set ?t" by (rule response_no_NUL [OF assms(3-5)])
  have c: "strncpy (replicate 2048 NUL) (start_block f) (length ?t) = Some (?t @ replicate (2048 - length ?t) NUL)"
    using strncpy_text [OF start_block_text(1) [OF f(2) assms(7)] nn, of 2048] assms(7) by simp
  let ?o = "fOutputStream s"
  have b: "length (body_text resp) + length ?t = length (response_bytes env req resp)"
    by (simp add: response_bytes_def)
  then have "fCurrentPut ?o + length ?t < 2 ^ 31 - 1" using assms(8) by linarith
  then obtain o1 where 1: "Put BufferIsFull ?o ?t = Some o1" "stream_inv o1" "stream_log o1 = stream_log ?o @ ?t"
    "fCurrentPut o1 = fCurrentPut ?o + length ?t" "fBytesWritten o1 = fBytesWritten ?o + of_nat (length ?t)" "fSocket o1 = fSocket ?o"
    by (rule Put_stream [OF assms(6)])
  have pc: "Put_cstr BufferIsFull ?o (?t @ replicate (2048 - length ?t) NUL) = Some o1"
    using put_padded [OF nn, of "2048 - length ?t" BufferIsFull ?o] assms(7) 1(1) by simp
  have S: "SetupResponse env s = do {
     o2 \<leftarrow> (case fHTTPBody resp of None \<Rightarrow> Some o1 | Some b \<Rightarrow> if Len b > 0 then Put_spl BufferIsFull o1 b else Some o1);
     Some (s\<lparr>fResponse := Some (?k\<lparr>fHTTPHeaderFormatter := Some f, fHTTPHeader := length ?t\<rparr>), fOutputStream := o2\<rparr>) }"
    using v(5) by (simp add: SetupResponse_eq [OF assms(1,2)] f(1) c pc split: option.splits)
  show thesis
  proof (cases "body_length resp = 0")
    case True
    then have "body_text resp = []" by (auto simp: body_length_def body_text_def str_def split: option.splits)
    then show thesis using that [of o1 "length ?t" "Some f"] S 1 True
      by (auto simp: body_length_def response_bytes_def split: option.splits)
  next
    case False
    then obtain bd where bd: "fHTTPBody resp = Some bd" "0 < Len bd" "valid bd"
      using assms(3) by (cases "fHTTPBody resp") (auto simp: body_length_def response_ok_def)
    have "bytes_of bd = Some (str bd)" using bd(2,3) by (auto simp: bytes_of_def valid_def str_def split: option.splits)
    then have ps: "Put_spl BufferIsFull o1 bd = Put BufferIsFull o1 (str bd)" by (simp add: Put_spl_def)
    have bt: "body_text resp = str bd" by (simp add: body_text_def bd(1))
    have "fCurrentPut o1 + length (str bd) < 2 ^ 31 - 1" using assms(8) b 1(4) bt by simp
    then obtain o2 where 2: "Put BufferIsFull o1 (str bd) = Some o2" "stream_inv o2" "stream_log o2 = stream_log o1 @ str bd"
      "fCurrentPut o2 = fCurrentPut o1 + length (str bd)" "fBytesWritten o2 = fBytesWritten o1 + of_nat (length (str bd))" "fSocket o2 = fSocket o1"
      by (rule Put_stream [OF 1(2)])
    show thesis using that [of o2 "length ?t" "Some f"] S 1 2 bd ps bt
      by (simp add: response_bytes_def)
  qed
qed

text \<open>Sending puts the whole response into the stream and flushes; what is left in the buffer then
  decides whether the session is done with the request or waits for the socket.\<close>

definition sent :: "HTTPEnv \<Rightarrow> HTTPSession \<Rightarrow> HTTPPacket \<Rightarrow> HTTPPacket \<Rightarrow> HTTPResponseStream \<Rightarrow> HTTPSession \<Rightarrow> bool" where
  "sent env s req resp o1 s1 \<longleftrightarrow>
     (\<exists>f n. s1 = s\<lparr>fResponse := Some ((versioned req resp)\<lparr>fHTTPHeaderFormatter := f, fHTTPHeader := n\<rparr>), fOutputStream := o1\<rparr>)"

lemma SendingResponse_ok:
  assumes "fResponse s = Some resp" "fRequest s = Some req" "response_ok env resp" "env_ok env" "fVersion req < 4"
    and "stream_inv (fOutputStream s)" "length (response_of (versioned req resp) (eDate env) (session_fields req resp)) < 512"
    and "fCurrentPut (fOutputStream s) + length (response_bytes env req resp) < 2 ^ 31 - 1"
    and "unat (fBytesWritten (fOutputStream s)) + length (response_bytes env req resp) < 2 ^ 32" "fRequestBodyLen s = -1"
  obtains e o0 o1 s1 where "sent env s req resp o1 s1" "stream_inv o1"
    "stream_log o1 = stream_log (fOutputStream s) @ response_bytes env req resp"
    "fCurrentPut o1 \<le> fCurrentPut (fOutputStream s) + length (response_bytes env req resp)"
    "fBytesWritten o1 = fBytesWritten (fOutputStream s) + of_nat (length (response_bytes env req resp))"
    "fSocket o0 = fSocket (fOutputStream s)" "stream_inv o0" "stream_log o0 = stream_log (fOutputStream s) @ response_bytes env req resp"
    "fSocket o1 = snd (snd (Send (fSocket o0) (unsent o0)))" "e = CF_NoErr \<longleftrightarrow> unsent o1 = []"
    "SendingResponse env err s =
       (if e = EAGAIN then wait_for EV_WR (force_same_thread s1)
        else Some (Again CF_NoErr, (CleanupRequestAndResponse s1)\<lparr>fState := kReadingRequest\<rparr>))" "e \<in> {CF_NoErr, EAGAIN}"
proof -
  let ?R = "response_bytes env req resp"
  obtain f n o0 where 0: "SetupResponse env s = Some (s\<lparr>fResponse := Some ((versioned req resp)\<lparr>fHTTPHeaderFormatter := f, fHTTPHeader := n\<rparr>),
       fOutputStream := o0\<rparr>)"
    "stream_inv o0" "stream_log o0 = stream_log (fOutputStream s) @ ?R" "fSocket o0 = fSocket (fOutputStream s)"
    "fCurrentPut o0 = fCurrentPut (fOutputStream s) + length ?R"
    "fBytesWritten o0 = fBytesWritten (fOutputStream s) + of_nat (length ?R)"
    by (rule SetupResponse_ok [OF assms(1-8)])
  have R: "0 < length ?R" by (simp add: response_bytes_def response_of_def response_text_def crlf_def)
  have "length (unsent o0) = length (drop (fBytesSentInBuffer o0) (contents o0))" by (simp add: unsent_eq [OF 0(2)])
  moreover have "length (stream_log o0) = length (sWire (fSocket o0)) + length (drop (fBytesSentInBuffer o0) (contents o0))"
    by (simp add: stream_log_def)
  moreover have "length (stream_log o0) \<ge> length (sWire (fSocket o0)) + length ?R" unfolding 0(3,4) by (simp add: stream_log_def)
  ultimately have amt: "0 < amtInBuffer o0" using R length_unsent [OF 0(2)] by linarith
  have "unat (fBytesWritten o0) = unat (fBytesWritten (fOutputStream s)) + length ?R"
    unfolding 0(6) using assms(9) by (simp add: unat_word_ariths unat_of_nat)
  then have bw: "fBytesWritten o0 \<noteq> 0" using R by auto
  obtain e o1 where F: "Flush (eTime env) o0 = Some (e, o1)" "stream_inv o1" "stream_log o1 = stream_log o0" "e \<in> {CF_NoErr, EAGAIN}"
    "e = CF_NoErr \<longleftrightarrow> unsent o1 = []" "0 < amtInBuffer o0 \<Longrightarrow> fSocket o1 = snd (snd (Send (fSocket o0) (unsent o0)))"
    "fBytesWritten o1 = fBytesWritten o0" "fCurrentPut o1 \<le> fCurrentPut o0"
  proof (rule Flush_ok [OF 0(2), of "eTime env"])
    fix e o1
    assume "Flush (eTime env) o0 = Some (e, o1)" "stream_inv o1" "stream_log o1 = stream_log o0" "e \<in> {CF_NoErr, EAGAIN}"
      "e = CF_NoErr \<longleftrightarrow> unsent o1 = []" "0 < amtInBuffer o0 \<Longrightarrow> fSocket o1 = snd (snd (Send (fSocket o0) (unsent o0)))"
      "amtInBuffer o0 = 0 \<Longrightarrow> o1 = o0" "fBytesWritten o1 = fBytesWritten o0" "fCurrentPut o1 \<le> fCurrentPut o0"
    then show thesis by (intro that [of e o1])
  qed
  define s1 where "s1 = s\<lparr>fResponse := Some ((versioned req resp)\<lparr>fHTTPHeaderFormatter := f, fHTTPHeader := n\<rparr>), fOutputStream := o1\<rparr>"
  have st: "sent env s req resp o1 s1" by (auto simp: sent_def s1_def)
  have cu: "(CleanupRequestAndResponse (s1\<lparr>fState := kCleaningUp\<rparr>))\<lparr>fState := kReadingRequest\<rparr> =
      (CleanupRequestAndResponse s1)\<lparr>fState := kReadingRequest\<rparr>"
    by (simp add: CleanupRequestAndResponse_def SignalTask_def Let_def split: option.splits)
  have bl: "\<not> 0 < fRequestBodyLen s1" using assms(10) by (simp add: s1_def)
  have "SendingResponse env err s =
       (if e = EAGAIN then wait_for EV_WR (force_same_thread s1)
        else Some (Again CF_NoErr, (CleanupRequestAndResponse s1)\<lparr>fState := kReadingRequest\<rparr>))"
    using assms(1,2) 0(1) bw F(1,4) cu bl
    by (auto simp: SendingResponse_def CleaningUp_def s1_def [symmetric] CF_NoErr_def EAGAIN_def)
  then show thesis using that [OF st F(2) _ _ _ 0(4,2,3) F(6) F(5) _ F(4)] F 0 amt by simp
qed

section \<open>The request\<close>

definition number_of :: "string \<Rightarrow> nat" where
  "number_of t = foldl (\<lambda>a c. a * 10 + (byte c - 48)) 0 (takeWhile is_digit (dropWhile (\<lambda>x. space_char (byte x)) t))"

lemma content_length_ok:
  assumes "field_ok (fFieldValues k ! httpContentLengthHeader)"
  shows "content_length_of k = Some (of_nat (number_of (str (fFieldValues k ! httpContentLengthHeader))))"
proof -
  let ?x = "fFieldValues k ! httpContentLengthHeader"
  have h: "GetHeaderValue k httpContentLengthHeader = Some ?x"
    by (simp add: GetHeaderValue_def httpContentLengthHeader_def httpIllegalHeader_def)
  show ?thesis
  proof (cases "?x = StrPtrLen_null")
    case True
    then show ?thesis
      by (simp add: content_length_of_def h StringParser_new_def StrPtrLen_null_def ConsumeWhitespace_def ConsumeUntil_mask_def
          consume_with_def ParserIsEmpty_def ConsumeInteger_def str_def number_of_def)
  next
    case False
    then obtain m where m: "stream_ok ?x m" using assms by (auto simp: field_ok_def)
    note p = StringParser_new_ok [OF m]
    obtain p1 where 1: "ConsumeWhitespace (StringParser_new (Some ?x)) = Some p1" "parser_ok p1 m"
      "remaining p1 = dropWhile (\<lambda>x. space_char (byte x)) (str ?x)"
      using ConsumeWhitespaceE [OF p(1)] p(2) by metis
    obtain v out p2 where 2: "ConsumeInteger p1 = Some (v, out, p2)"
      "unat v = foldl (\<lambda>a c. a * 10 + (byte c - 48)) 0 (takeWhile is_digit (remaining p1)) mod 2 ^ 32"
      using ConsumeInteger_ok [OF 1(2)] by blast
    have "unat v = number_of (str ?x) mod 2 ^ 32" using 2(2) 1(3) by (simp add: number_of_def)
    then have "v = of_nat (number_of (str ?x))" by (simp add: word_unat_eq_iff unat_of_nat)
    then show ?thesis using 1(1) 2(1) by (simp add: content_length_of_def h)
  qed
qed

text \<open>Collecting the body.\<close>

definition body_ok :: "HTTPPacket \<Rightarrow> nat \<Rightarrow> bool" where
  "body_ok k n \<longleftrightarrow>
     (case fHTTPBody k of None \<Rightarrow> True
      | Some b \<Rightarrow> Len b \<le> n \<and> (\<exists>blk. Ptr b = Some blk \<and> length blk = n + 1))"

lemma body_text_SetBody [simp]: "body_text (SetBody k (Some b)) = str b"
  by (simp add: body_text_def SetBody_def)

lemma SetBody_fields [simp]:
  "fHTTPType (SetBody k b) = fHTTPType k" "content_length_of (SetBody k b) = content_length_of k" "SetBody (SetBody k b) b' = SetBody k b'"
  by (simp_all add: SetBody_def content_length_of_def GetHeaderValue_def)

text \<open>One call reads what is missing of the body and puts it behind the part that is there.\<close>

lemma SetupRequest_read:
  assumes "fRequest s = Some req" "fHTTPType req \<noteq> httpIllegalType" "content_length_of req = Some n" "n \<noteq> 0" "n \<noteq> -1"
    and "body_ok req (unat n)" "w = unat n - length (body_text req)"
    and "Read_stream (fSocket (fOutputStream s)) (fInputStream s) w = Some (e, bs, k, i)" "length bs \<le> w"
    and "e \<in> {CF_NoErr, EAGAIN}" "length bs = w \<Longrightarrow> e = CF_NoErr"
  obtains b where
    "SetupRequest s = Some (if length bs = w then CF_NoErr else CF_WouldBlock,
       set_socket k (s\<lparr>fInputStream := i, fRequest := Some (SetBody req (Some b))\<rparr>))"
    "body_ok (SetBody req (Some b)) (unat n)" "str b = body_text req @ bs" "length (body_text req) \<le> unat n"
proof -
  have "1 + n \<noteq> 0" using assms(5) unfolding add_eq_0_iff .
  then have n1: "unat (n + 1) = unat n + 1" using unatSuc [of n] by (simp add: add.commute)
  obtain blk off where b: "body_of req n = \<lparr>Ptr = Some blk, Len = off\<rparr>" "length blk = unat n + 1" "off \<le> unat n"
    "body_text req = take off blk"
  proof (cases "fHTTPBody req")
    case None
    then show thesis using that [of "replicate (unat n + 1) NUL" 0] n1 by (simp add: body_of_def body_text_def)
  next
    case (Some b)
    then obtain blk where "b = \<lparr>Ptr = Some blk, Len = Len b\<rparr>" "Len b \<le> unat n" "length blk = unat n + 1"
      using assms(6) by (cases b) (auto simp: body_ok_def)
    then show thesis using that [of blk "Len b"] Some by (cases b) (auto simp: body_of_def body_text_def str_def)
  qed
  have lt: "length (body_text req) = off" using b(2-4) by simp
  have "off < 2 ^ 32" using b(3) unsigned_less [of n, where 'a = nat] by simp
  then have "unat (of_nat off :: UInt32) = off" by (simp add: unat_of_nat)
  then have w: "unat (n - of_nat off) = w" using b(3) lt assms(7) by (simp add: unat_sub word_le_nat_alt)
  have fit: "off + length bs \<le> length blk" using assms(7,9) lt b(2,3) by simp
  obtain blk' where wr: "write_at blk off bs = Some blk'" "length blk' = length blk" "take (off + length bs) blk' = take off blk @ bs"
    using write_at_spec [OF fit] by blast
  define b' where "b' = \<lparr>Ptr = Some blk', Len = off + length bs\<rparr>"
  have e: "e \<noteq> CF_BadArgument" "e \<noteq> CF_RequestFailed" "e \<noteq> CF_WouldBlock"
    using assms(10) by (auto simp: cf_error_defs EAGAIN_def)
  have "SetupRequest s = Some (if length bs = w then CF_NoErr else CF_WouldBlock,
      set_socket k (s\<lparr>fInputStream := i, fRequest := Some (SetBody req (Some b'))\<rparr>))"
    using assms(1-4,8,9,11) b(1,3) w wr(1) e
    by (auto simp: SetupRequest_def b'_def set_socket_def cf_error_defs Let_def)
  moreover have "str b' = body_text req @ bs" using wr(2,3) fit b(4) by (simp add: str_def b'_def)
  moreover have "body_ok (SetBody req (Some b')) (unat n)"
    using wr(2) b(2,3) assms(7,9) lt by (simp add: body_ok_def SetBody_def b'_def)
  ultimately show thesis using that [of b'] lt b(3) by simp
qed

text \<open>The runs of a session that collects the body of a request: each one calls \<^verbatim>\<open>SetupRequest\<close>, which
  makes it wait for more or go on.\<close>

fun setup_runs :: "nat \<Rightarrow> HTTPSession \<Rightarrow> (int \<times> HTTPSession) option" where
  "setup_runs 0 s = Some (CF_WouldBlock, s)"
| "setup_runs (Suc m) s = do {
     (e, s1) \<leftarrow> SetupRequest s;
     if e = CF_WouldBlock then setup_runs m s1 else Some (e, s1)
   }"

definition collected :: "HTTPSession \<Rightarrow> HTTPPacket \<Rightarrow> nat \<Rightarrow> string \<Rightarrow> (int \<times> HTTPSession) option \<Rightarrow> bool" where
  "collected s req n t r \<longleftrightarrow>
     (\<exists>b k i. r = Some (if n \<le> length t then CF_NoErr else CF_WouldBlock,
            set_socket k (s\<lparr>fInputStream := i, fRequest := Some (SetBody req (Some b))\<rparr>)) \<and>
        str b = take n t \<and> unread i k = drop n t \<and> body_ok (SetBody req (Some b)) n \<and> rs_ok i \<and> fRequestPtr i \<and> IsConnected k)"

lemma arrivals_pieces [simp]: "arrivals (map Arrived cs) = concat cs"
  by (induction cs) auto

lemma setup_runs_collected:
  assumes "fRequest s = Some req" "fHTTPType req \<noteq> httpIllegalType" "content_length_of req = Some n" "n \<noteq> 0" "n \<noteq> -1"
    and "body_ok req (unat n)" "length (body_text req) < unat n" "rs_ok (fInputStream s)" "fRequestPtr (fInputStream s)"
    and "IsConnected (fSocket (fOutputStream s))" "sRecvs (fSocket (fOutputStream s)) = map Arrived cs" "[] \<notin> set cs"
  shows "collected s req (unat n) (body_text req @ buffered (fInputStream s) @ concat cs) (setup_runs (Suc (length cs)) s)"
  using assms
proof (induction cs arbitrary: s req rule: length_induct)
  case (1 cs)
  note a = "1.prems"
  let ?t = "body_text req @ buffered (fInputStream s) @ concat cs"
  define w where "w = unat n - length (body_text req)"
  obtain e bs k i cs' where r: "Read_stream (fSocket (fOutputStream s)) (fInputStream s) w = Some (e, bs, k, i)" "rs_ok i" "fRequestPtr i"
    "IsConnected k" "sRecvs k = map Arrived cs'" "[] \<notin> set cs'"
    "bs = take w (buffered (fInputStream s) @ (case cs of [] \<Rightarrow> [] | c # _ \<Rightarrow> c))"
    "buffered (fInputStream s) @ concat cs = bs @ buffered i @ concat cs'" "length bs < w \<Longrightarrow> buffered i = [] \<and> cs' = tl cs"
    "e \<in> {CF_NoErr, EAGAIN}" "length bs = w \<Longrightarrow> e = CF_NoErr"
    by (rule Read_stream_exact [OF a(8-12), of w]) blast
  have lb: "length bs \<le> w" using r(7) by simp
  obtain b where b: "SetupRequest s = Some (if length bs = w then CF_NoErr else CF_WouldBlock,
       set_socket k (s\<lparr>fInputStream := i, fRequest := Some (SetBody req (Some b))\<rparr>))"
    "body_ok (SetBody req (Some b)) (unat n)" "str b = body_text req @ bs"
    by (rule SetupRequest_read [OF a(1-6) w_def r(1) lb r(10,11)]) blast
  let ?s1 = "set_socket k (s\<lparr>fInputStream := i, fRequest := Some (SetBody req (Some b))\<rparr>)"
  have t: "?t = body_text req @ bs @ buffered i @ concat cs'" using r(8) by simp
  have nw: "unat n = length (body_text req) + w" using a(7) by (simp add: w_def)
  have fin: "collected s req (unat n) ?t (Some (if unat n \<le> length ?t then CF_NoErr else CF_WouldBlock, ?s1))"
    if "length bs = w \<or> buffered i @ concat cs' = []"
    unfolding collected_def unfolding t using that b(2,3) r(2-5) nw lb
    by (intro exI [of _ b] exI [of _ k] exI [of _ i]) (auto simp: unread_def simp del: concat_eq_Nil_conv)
  show ?case
  proof (cases "length bs = w")
    case True
    then have "setup_runs (Suc (length cs)) s = Some (CF_NoErr, ?s1)" using b(1) by (simp add: cf_error_defs)
    moreover have "unat n \<le> length ?t" unfolding t using True nw by simp
    ultimately show ?thesis using fin True by simp
  next
    case False
    then have c: "buffered i = []" "cs' = tl cs" "length bs < w" using r(9) lb by auto
    have step: "setup_runs (Suc (length cs)) s = setup_runs (length cs) ?s1" using b(1) False by simp
    show ?thesis
    proof (cases cs)
      case Nil
      then have "\<not> unat n \<le> length ?t" unfolding t using c nw by simp
      then show ?thesis using fin c Nil unfolding step by simp
    next
      case (Cons d ds)
      have "collected ?s1 (SetBody req (Some b)) (unat n) (str b @ buffered i @ concat ds) (setup_runs (Suc (length ds)) ?s1)"
        using "1.IH" [rule_format, of ds ?s1 "SetBody req (Some b)"] a(2-5) b(2,3) c nw r(2-6) Cons by (simp add: set_socket_def)
      then have "collected ?s1 (SetBody req (Some b)) (unat n) ?t (setup_runs (Suc (length cs)) s)"
        unfolding t step using b(3) c Cons by simp
      then show ?thesis by (auto simp: collected_def set_socket_def)
    qed
  qed
qed

section \<open>Properties of the rounds\<close>

text \<open>\<^verbatim>\<open>SendHTTPPacket\<close> always dereferences a null pointer. The packet it makes is one
  to be parsed, so that no header is created and there is no formatter to write to, whatever the
  session and the arguments are.\<close>

theorem SendHTTPPacket_null:
  "SendHTTPPacket env s contentXML connectionClose decrement = None"
proof -
  let ?k = "HTTPPacket_parse (eServer env) (eServer env)"
  have "CreateResponseHeader (eDate env) ?k = Some (False, ?k)" "fHTTPHeaderFormatter ?k = None"
    by (simp_all add: CreateResponseHeader_def HTTPPacket_parse_def HTTPPacket_new_def httpIllegalType_def httpResponseType_def)
  then show ?thesis
    by (simp add: SendHTTPPacket_def AppendContentLengthHeader_def AppendConnectionCloseHeader_def AppendResponseHeader_def
        GetCompleteHTTPHeader_def split: option.splits)
qed

text \<open>C35: The body of a parsed request is collected over as many runs as it takes. When pieces of input arrive on a
  connected socket, at most one more run than there are pieces reads them: the body is then the announced number of
  bytes of what was there and what arrived, in order, everything behind it is still unread, and the session goes on; as
  long as less has arrived, all of it is in the body and the session waits for more, in a state from which the next run
  continues. An announced length of 0 needs no body, and of 4294967295 ends in a write outside of the block
  (SetupRequest_overflow).\<close>

theorem SetupRequest_collects:
  assumes "fRequest s = Some req" "fHTTPType req \<noteq> httpIllegalType" "content_length_of req = Some n" "n \<noteq> 0" "n \<noteq> -1"
    and "body_ok req (unat n)" "length (body_text req) < unat n" "rs_ok (fInputStream s)" "fRequestPtr (fInputStream s)"
    and "IsConnected (fSocket (fOutputStream s))" "sRecvs (fSocket (fOutputStream s)) = map Arrived cs" "[] \<notin> set cs"
    and "t = body_text req @ buffered (fInputStream s) @ concat cs"
  shows "\<exists>e b k i. setup_runs (length cs + 1) s = Some (e, set_socket k (s\<lparr>fInputStream := i, fRequest := Some (SetBody req (Some b))\<rparr>)) \<and>
    e = (if unat n \<le> length t then CF_NoErr else CF_WouldBlock) \<and> str b = take (unat n) t \<and> unread i k = drop (unat n) t \<and>
    body_ok (SetBody req (Some b)) (unat n) \<and> rs_ok i \<and> fRequestPtr i \<and> IsConnected k"
  using setup_runs_collected [OF assms(1-12)] unfolding collected_def assms(13) by auto

text \<open>A request that announces a body of 4294967295 bytes makes the session write outside of the
  body's block: the length plus one is zero in 32 bits, so the block has no bytes, and the first byte
  of the body that has arrived is written behind it.\<close>

theorem SetupRequest_overflow:
  assumes "fRequest s = Some req" "fHTTPType req \<noteq> httpIllegalType" "content_length_of req = Some (-1)" "fHTTPBody req = None"
    and "rs_ok (fInputStream s)" "fRequestPtr (fInputStream s)" "recv_ok (fSocket (fOutputStream s))" "buffered (fInputStream s) \<noteq> []"
  shows "SetupRequest s = None"
proof -
  let ?k = "fSocket (fOutputStream s)" and ?w = "unat (-1 :: UInt32)"
  obtain e bs k i where r: "Read_stream ?k (fInputStream s) ?w = Some (e, bs, k, i)" "min ?w (length (buffered (fInputStream s))) \<le> length bs"
    using Read_stream_ok [OF assms(5-7), of ?w] by blast
  have "?w = 4294967295" by (simp add: unsigned_minus_1_eq_mask mask_eq_exp_minus_1)
  moreover have "0 < length (buffered (fInputStream s))" using assms(8) by simp
  ultimately have "0 < length bs" using r(2) by linarith
  then have "write_at (replicate (unat (-1 + 1 :: UInt32)) NUL) 0 bs = None" by (simp add: write_at_def)
  then show ?thesis using assms(1-4) r(1) by (simp add: SetupRequest_def body_of_def)
qed

text \<open>C32: When the socket cannot take the whole response, the session waits for it to become writable
  and stays in the sending state. The next run builds the response again and puts it behind the first
  one: the client receives the response twice.\<close>

theorem response_sent_twice:
  assumes "fState s = kSendingResponse" "fResponse s = Some resp" "fRequest s = Some req" "response_ok env resp" "env_ok env"
    and "fVersion req < 4" "stream_inv (fOutputStream s)" "fRequestBodyLen s = -1"
    and "length (response_of (versioned req resp) (eDate env) (session_fields req resp)) < 512"
    and "fCurrentPut (fOutputStream s) + 2 * length (response_bytes env req resp) < 2 ^ 31 - 1"
    and "unat (fBytesWritten (fOutputStream s)) + 2 * length (response_bytes env req resp) < 2 ^ 32"
    and "session_round env err s = Some (Return 0, s1)"
  shows "fState s1 = kSendingResponse \<and>
    (\<exists>r s2. session_round env err' s1 = Some (r, s2) \<and>
       stream_log (fOutputStream s2) = stream_log (fOutputStream s) @ response_bytes env req resp @ response_bytes env req resp)"
proof -
  let ?R = "response_bytes env req resp"
  have S: "session_round env err t = SendingResponse env err t" if "fState t = kSendingResponse" for err t
    using that by (simp add: session_round.simps)
  have 1: "fCurrentPut (fOutputStream s) + length ?R < 2 ^ 31 - 1" "unat (fBytesWritten (fOutputStream s)) + length ?R < 2 ^ 32"
    using assms(10,11) by linarith+
  obtain e o0 o1 t1 where a: "sent env s req resp o1 t1" "stream_inv o1" "stream_log o1 = stream_log (fOutputStream s) @ ?R"
    "fCurrentPut o1 \<le> fCurrentPut (fOutputStream s) + length ?R" "fBytesWritten o1 = fBytesWritten (fOutputStream s) + of_nat (length ?R)"
    "SendingResponse env err s = (if e = EAGAIN then wait_for EV_WR (force_same_thread t1)
        else Some (Again CF_NoErr, (CleanupRequestAndResponse t1)\<lparr>fState := kReadingRequest\<rparr>))"
    by (rule SendingResponse_ok [OF assms(2-7,9) 1 assms(8), of err]) blast
  then have s1: "s1 = request_event EV_WR (force_same_thread t1)"
    using assms(1,12) S [of s] by (auto simp: wait_for_def split: if_splits)
  obtain f n where t1: "t1 = s\<lparr>fResponse := Some ((versioned req resp)\<lparr>fHTTPHeaderFormatter := f, fHTTPHeader := n\<rparr>), fOutputStream := o1\<rparr>"
    using a(1) by (auto simp: sent_def)
  let ?q = "(versioned req resp)\<lparr>fHTTPHeaderFormatter := f, fHTTPHeader := n\<rparr>"
  note v = versioned_ok [OF assms(4,6)]
  have q: "response_ok env ?q" using assms(4) v by (auto simp: response_ok_def)
  have vq: "versioned req ?q = ?q" using v(1) by (simp add: versioned_def httpIllegalVersion_def)
  have sf: "session_fields req ?q = session_fields req resp" using v(5) by (simp add: session_fields_def body_length_def)
  have same: "response_of (versioned req ?q) (eDate env) (session_fields req ?q) =
      response_of (versioned req resp) (eDate env) (session_fields req resp)"
    unfolding vq sf by (simp add: response_of_def)
  have R: "response_bytes env req ?q = ?R" using same v(5) by (simp add: response_bytes_def body_text_def)
  have f1: "fResponse s1 = Some ?q" "fRequest s1 = Some req" "fOutputStream s1 = o1" "fRequestBodyLen s1 = -1" "fState s1 = kSendingResponse"
    using assms(1,3,8) by (simp_all add: s1 t1 request_event_def force_same_thread_def)
  have "unat (fBytesWritten o1) = unat (fBytesWritten (fOutputStream s)) + length ?R"
    unfolding a(5) using 1(2) by (simp add: unat_word_ariths unat_of_nat)
  then have 2: "fCurrentPut (fOutputStream s1) + length (response_bytes env req ?q) < 2 ^ 31 - 1"
    "unat (fBytesWritten (fOutputStream s1)) + length (response_bytes env req ?q) < 2 ^ 32"
    using assms(10,11) a(4) unfolding f1(3) R by linarith+
  have i: "stream_inv (fOutputStream s1)" "length (response_of (versioned req ?q) (eDate env) (session_fields req ?q)) < 512"
    using a(2) f1(3) assms(9) same by simp_all
  obtain e2 p0 p1 t2 where b: "sent env s1 req ?q p1 t2" "stream_log p1 = stream_log (fOutputStream s1) @ response_bytes env req ?q"
    "SendingResponse env err' s1 = (if e2 = EAGAIN then wait_for EV_WR (force_same_thread t2)
        else Some (Again CF_NoErr, (CleanupRequestAndResponse t2)\<lparr>fState := kReadingRequest\<rparr>))"
    by (rule SendingResponse_ok [OF f1(1,2) q assms(5,6) i 2 f1(4), of err']) blast
  have o2: "fOutputStream (force_same_thread t2) = p1" "fOutputStream (CleanupRequestAndResponse t2) = p1"
    using b(1) by (auto simp: sent_def force_same_thread_def CleanupRequestAndResponse_def SignalTask_def Let_def split: option.splits)
  have "stream_log p1 = stream_log (fOutputStream s) @ ?R @ ?R" unfolding b(2) R f1(3) a(3) by simp
  then show ?thesis using f1(5) b(3) o2 S [OF f1(5), of err']
    by (cases "e2 = EAGAIN") (simp_all add: wait_for_def request_event_def)
qed

text \<open>A request whose version is not supported is dispatched all the same: the state that the check
  of the version sets is overwritten, the handler of the path runs, and when no route covers the
  path the client is told that nothing was found.\<close>

theorem bad_version_dispatched:
  assumes "fState s = kPreprocessingRequest" "fRequest s = Some req" "fResponse s = Some resp" "fVersion req = httpIllegalVersion"
  shows "\<exists>s1. session_round env err s = Some (Again err, s1) \<and>
    (Dispatch (sDispatcher env) (fRelativeURI req) = Some (Inr CF_FileNotFound) \<longrightarrow>
       session_round env err s1 = SendingResponse env err
         (s\<lparr>fRequest := Some req, fResponse := Some (SetStatusCode resp httpNotFound), fState := kSendingResponse\<rparr>)) \<and>
    (\<forall>f. Dispatch (sDispatcher env) (fRelativeURI req) = Some (Inl f) \<longrightarrow>
       (\<forall>q r. f req (SetStatusCode resp httpHTTPVersionNotSupported) = (CF_NoErr, q, r) \<longrightarrow>
          session_round env err s1 = SendingResponse env err (s\<lparr>fRequest := Some q, fResponse := Some r, fState := kSendingResponse\<rparr>)))"
proof -
  let ?s = "s\<lparr>fResponse := Some (SetStatusCode resp httpHTTPVersionNotSupported), fState := kProcessingRequest\<rparr>"
  have "session_round env err s = Some (Again err, ?s)"
    using assms by (simp add: session_round.simps PreprocessingRequest_def)
  moreover have "session_round env err ?s = ProcessingRequest env err ?s" by (simp add: session_round.simps)
  ultimately show ?thesis using assms(2)
    by (intro exI [of _ ?s]) (auto simp: ProcessingRequest_def SetStatusCode_def cf_error_defs)
qed

text \<open>What holds of every value a computation returns, computed along its structure.\<close>

definition yields :: "('a \<Rightarrow> bool) \<Rightarrow> 'a option \<Rightarrow> bool" where
  "yields P m \<longleftrightarrow> (\<forall>x. m = Some x \<longrightarrow> P x)"

lemma yieldsD: "yields P m \<Longrightarrow> m = Some x \<Longrightarrow> P x"
  by (simp add: yields_def)

lemma yields_None: "yields P None"
  and yields_Some: "P x \<Longrightarrow> yields P (Some x)"
  and yields_bind: "(\<And>x. c = Some x \<Longrightarrow> yields P (f x)) \<Longrightarrow> yields P (c \<bind> f)"
  and yields_if: "(b \<Longrightarrow> yields P m) \<Longrightarrow> (\<not> b \<Longrightarrow> yields P m') \<Longrightarrow> yields P (if b then m else m')"
  and yields_Let: "yields P (g a) \<Longrightarrow> yields P (Let a g)"
  and yields_prod: "(\<And>a b. y = (a, b) \<Longrightarrow> yields P (h a b)) \<Longrightarrow> yields P (case y of (a, b) \<Rightarrow> h a b)"
  by (auto simp: yields_def bind_eq_Some_conv split: prod.splits)

lemmas yields_intros = yields_None yields_bind yields_if yields_Let yields_prod yields_Some

text \<open>The shape of the state: outside of the states that read, a request and a response exist and both
  locks are held once; while the session reads, there are none and no lock is held.\<close>

definition reading :: "http_state \<Rightarrow> bool" where
  "reading st \<longleftrightarrow> st \<in> {kReadingFirstRequest, kReadingRequest, kHaveCompleteMessage}"

lemma reading_simps [simp]: "reading kReadingFirstRequest" "reading kReadingRequest" "reading kHaveCompleteMessage"
  "\<not> reading kFilteringRequest" "\<not> reading kPreprocessingRequest" "\<not> reading kProcessingRequest" "\<not> reading kSendingResponse"
  "\<not> reading kCleaningUp"
  by (simp_all add: reading_def)

definition shape_ok :: "bool \<Rightarrow> HTTPSession \<Rightarrow> bool" where
  "shape_ok r s \<longleftrightarrow>
     (if r then fRequest s = None \<and> fResponse s = None \<and> fReadMutex s = 0 \<and> fSessionMutex s = 0
      else fRequest s \<noteq> None \<and> fResponse s \<noteq> None \<and> fReadMutex s = 1 \<and> fSessionMutex s = 1)"

definition session_typed :: "HTTPSession \<Rightarrow> bool" where
  "session_typed s \<longleftrightarrow> shape_ok (reading (fState s)) s"

lemma frame [simp]:
  "shape_ok b (set_socket k s) = shape_ok b s" "shape_ok b (request_event ev s) = shape_ok b s"
  "shape_ok b (force_same_thread s) = shape_ok b s" "shape_ok b (s\<lparr>fOutputStream := o1\<rparr>) = shape_ok b s"
  "shape_ok b (s\<lparr>fInputStream := i\<rparr>) = shape_ok b s" "shape_ok b (s\<lparr>fLiveSession := l\<rparr>) = shape_ok b s"
  "shape_ok b (s\<lparr>fRequestBodyLen := n\<rparr>) = shape_ok b s" "shape_ok b (s\<lparr>fState := st\<rparr>) = shape_ok b s"
  "shape_ok False s \<Longrightarrow> shape_ok False (s\<lparr>fRequest := Some q\<rparr>)" "shape_ok False s \<Longrightarrow> shape_ok False (s\<lparr>fResponse := Some q\<rparr>)"
  "shape_ok False s \<Longrightarrow> shape_ok True (CleanupRequestAndResponse s)"
  "fState (set_socket k s) = fState s" "fState (request_event ev s) = fState s" "fState (force_same_thread s) = fState s"
  by (auto simp: shape_ok_def set_socket_def request_event_def force_same_thread_def CleanupRequestAndResponse_def SignalTask_def
      Let_def split: option.splits)

definition same_shape :: "HTTPSession \<Rightarrow> HTTPSession \<Rightarrow> bool" where
  "same_shape s s1 \<longleftrightarrow> fState s1 = fState s \<and> (\<forall>b. shape_ok b s \<longrightarrow> shape_ok b s1)"

lemma Read_session_shape: "yields (\<lambda>(e, bs, s1). same_shape s s1) (Read_session s n)"
  unfolding Read_session_def by (intro yields_intros) (simp_all add: same_shape_def)

lemma dumpRequestData_shape:
  assumes "dumpRequestData s = Some x"
  shows "same_shape s (snd x)"
proof (rule dumpRequestData.raw_induct [OF _ assms, of "\<lambda>s x. same_shape s (snd x)"])
  fix f s x
  assume IH: "\<And>s x. f s = Some x \<Longrightarrow> same_shape s (snd x)"
    and x: "do { (theErr, _, s1) \<leftarrow> Read_session s CF_MAX_REQUEST_BUFFER_SIZE; if theErr = CF_NoErr then f s1 else Some (theErr, s1) } = Some x"
  obtain e bs s1 where r: "Read_session s CF_MAX_REQUEST_BUFFER_SIZE = Some (e, bs, s1)" "(if e = CF_NoErr then f s1 else Some (e, s1)) = Some x"
    using x by (auto simp: bind_eq_Some_conv)
  have "same_shape s s1" using yieldsD [OF Read_session_shape r(1)] by simp
  then show "same_shape s (snd x)" using r(2) IH [of s1 x] by (auto simp: same_shape_def split: if_splits)
qed

definition typed_outcome :: "outcome \<times> HTTPSession \<Rightarrow> bool" where
  "typed_outcome x \<longleftrightarrow> session_typed (snd x) \<and> (\<forall>n. fst x = Return n \<longrightarrow> n = 0)"

lemma typed_outcome_pair [simp]: "typed_outcome (Again e, s) = session_typed s" "typed_outcome (Return n, s) = (session_typed s \<and> n = 0)"
  by (auto simp: typed_outcome_def)

lemma wait_for_typed: "session_typed s \<Longrightarrow> yields typed_outcome (wait_for ev s)"
  by (simp add: wait_for_def yields_def session_typed_def)

lemma CleaningUp_typed:
  assumes "shape_ok False s" "\<not> reading (fState s)"
  shows "yields typed_outcome (CleaningUp err s)"
  unfolding CleaningUp_def
proof (rule yields_bind)
  fix y
  assume y: "(if fRequestBodyLen s > 0 then dumpRequestData s else Some (err, s)) = Some y"
  have "same_shape s (snd y)" using y dumpRequestData_shape [of s y] by (auto simp: same_shape_def split: if_splits)
  then have "shape_ok False (snd y)" "\<not> reading (fState (snd y))" using assms by (auto simp: same_shape_def)
  then show "yields typed_outcome
      (case y of (e, s1) \<Rightarrow> if fRequestBodyLen s > 0 \<and> e = EAGAIN then wait_for EV_RE (force_same_thread s1)
         else Some (Again e, (CleanupRequestAndResponse s1)\<lparr>fState := kReadingRequest\<rparr>))"
    by (intro yields_prod yields_if wait_for_typed yields_Some) (simp_all add: session_typed_def)
qed

lemma SetupResponse_shape: "shape_ok False s \<Longrightarrow> yields (\<lambda>s1. shape_ok False s1 \<and> fState s1 = fState s) (SetupResponse env s)"
  unfolding SetupResponse_def Let_def by (intro yields_intros) simp_all

lemma SendingResponse_typed:
  assumes "shape_ok False s" "\<not> reading (fState s)"
  shows "yields typed_outcome (SendingResponse env err s)"
proof -
  have S: "shape_ok False s1" "\<not> reading (fState s1)" if "SetupResponse env s = Some s1" for s1
    using yieldsD [OF SetupResponse_shape [OF assms(1)] that] assms(2) by simp_all
  show ?thesis unfolding SendingResponse_def Let_def
    by (intro yields_bind yields_if yields_prod wait_for_typed CleaningUp_typed yields_Some) (simp_all add: session_typed_def S)
qed

lemma SetupRequest_shape: "shape_ok False s \<Longrightarrow> yields (\<lambda>(e, s1). shape_ok False s1 \<and> fState s1 = fState s) (SetupRequest s)"
  unfolding SetupRequest_def Let_def by (intro yields_intros) simp_all

lemma FilteringRequest_typed:
  assumes "shape_ok False s" "\<not> reading (fState s)"
  shows "yields typed_outcome (FilteringRequest env err s)"
proof -
  let ?t = "s\<lparr>fOutputStream := (fOutputStream s)\<lparr>fTimeoutTask := RefreshTimeout (eTime env) (fTimeoutTask (fOutputStream s))\<rparr>\<rparr>"
  have S: "shape_ok (reading (fState s1)) s1" "shape_ok False s1" if "SetupRequest ?t = Some (e, s1)" for e s1
    using yieldsD [OF SetupRequest_shape that] assms by simp_all
  show ?thesis unfolding FilteringRequest_def Let_def
    by (intro yields_bind yields_if yields_prod wait_for_typed yields_Some) (auto simp: session_typed_def S)
qed

lemma HaveCompleteMessage_typed:
  assumes "shape_ok True s"
  shows "yields typed_outcome (HaveCompleteMessage env err s)"
  unfolding HaveCompleteMessage_def Let_def
  by (intro yields_bind yields_if FilteringRequest_typed yields_Some)
    (use assms in \<open>simp_all add: session_typed_def shape_ok_def\<close>)

lemma session_round_typed:
  assumes "session_typed s"
  shows "yields typed_outcome (session_round env err s)"
proof (cases "fState s")
  case kReadingFirstRequest
  then have "shape_ok True s" using assms by (simp add: session_typed_def)
  then show ?thesis unfolding session_round.simps ReadingFirstRequest_def Let_def kReadingFirstRequest http_state.case
    by (intro yields_bind yields_if yields_prod wait_for_typed yields_Some) (simp_all add: session_typed_def kReadingFirstRequest)
next
  case kReadingRequest
  then have "shape_ok True s" using assms by (simp add: session_typed_def)
  then show ?thesis unfolding session_round.simps ReadingRequest_def Let_def kReadingRequest http_state.case
    by (intro yields_bind yields_if yields_prod wait_for_typed HaveCompleteMessage_typed yields_Some)
      (simp_all add: session_typed_def kReadingRequest)
next
  case kHaveCompleteMessage
  then have "shape_ok True s" using assms by (simp add: session_typed_def)
  then show ?thesis unfolding session_round.simps kHaveCompleteMessage http_state.case by (rule HaveCompleteMessage_typed)
next
  case kFilteringRequest
  then have "shape_ok False s" "\<not> reading (fState s)" using assms by (simp_all add: session_typed_def)
  then show ?thesis using FilteringRequest_typed [of s] kFilteringRequest by (simp add: session_round.simps)
next
  case kPreprocessingRequest
  then have "shape_ok False s" using assms by (simp add: session_typed_def)
  then show ?thesis unfolding session_round.simps PreprocessingRequest_def kPreprocessingRequest http_state.case
    by (intro yields_bind yields_Some) (auto simp: session_typed_def bind_eq_Some_conv split: if_splits)
next
  case kProcessingRequest
  then have "shape_ok False s" using assms by (simp add: session_typed_def)
  then show ?thesis unfolding session_round.simps ProcessingRequest_def Let_def kProcessingRequest http_state.case
    by (intro yields_bind yields_prod SendingResponse_typed) (simp_all add: kProcessingRequest)
next
  case kSendingResponse
  then have "shape_ok False s" "\<not> reading (fState s)" using assms by (simp_all add: session_typed_def)
  then show ?thesis using SendingResponse_typed [of s] kSendingResponse by (simp add: session_round.simps)
next
  case kCleaningUp
  then have "shape_ok False s" "\<not> reading (fState s)" using assms by (simp_all add: session_typed_def)
  then show ?thesis using CleaningUp_typed [of s] kCleaningUp by (simp add: session_round.simps)
qed

text \<open>A run goes on waiting in a well-formed state, or the session is over.\<close>

definition ended :: "int \<Rightarrow> HTTPSession \<Rightarrow> bool" where
  "ended n s \<longleftrightarrow> \<not> IsLiveSession s \<and> shape_ok True s \<and> n = (if fObjectHolders s = 0 then -1 else 0)"

lemma run_loop_typed:
  assumes "run_loop env err s = Some x"
  shows "session_typed s \<longrightarrow> fst x = 0 \<and> session_typed (snd x) \<or> ended (fst x) (snd x)"
proof (rule run_loop.raw_induct [OF _ assms,
    of "\<lambda>env err s x. session_typed s \<longrightarrow> fst x = 0 \<and> session_typed (snd x) \<or> ended (fst x) (snd x)"], rule impI)
  fix f env err s x
  assume IH: "\<And>env err s x. f env err s = Some x \<Longrightarrow>
        session_typed s \<longrightarrow> fst x = 0 \<and> session_typed (snd x) \<or> ended (fst x) (snd x)"
    and x: "(if IsLiveSession s then do { (r, s1) \<leftarrow> session_round env err s;
               case r of Return n \<Rightarrow> Some (n, s1) | Again e \<Rightarrow> f env e s1 }
             else Some (if fObjectHolders s = 0 then -1 else 0, CleanupRequestAndResponse s)) = Some x"
    and t: "session_typed s"
  show "fst x = 0 \<and> session_typed (snd x) \<or> ended (fst x) (snd x)"
  proof (cases "IsLiveSession s")
    case True
    then obtain r s1 where r: "session_round env err s = Some (r, s1)" "(case r of Return n \<Rightarrow> Some (n, s1) | Again e \<Rightarrow> f env e s1) = Some x"
      using x by (auto simp: bind_eq_Some_conv)
    have "typed_outcome (r, s1)" by (rule yieldsD [OF session_round_typed [OF t] r(1)])
    then show ?thesis using r(2) IH [of env _ s1 x] by (cases r) auto
  next
    case False
    then have "IsLiveSession (CleanupRequestAndResponse s) = IsLiveSession s" "fObjectHolders (CleanupRequestAndResponse s) = fObjectHolders s"
      by (auto simp: IsLiveSession_def CleanupRequestAndResponse_def SignalTask_def Let_def split: option.splits)
    moreover have "shape_ok True (CleanupRequestAndResponse s)"
      using t False by (auto simp: session_typed_def shape_ok_def CleanupRequestAndResponse_def SignalTask_def Let_def split: if_splits option.splits)
    ultimately show ?thesis using x False by (auto simp: ended_def)
  qed
qed

text \<open>C4: Whatever arrives and whatever the handlers do, a run of a session that returns (no assertion fails and no
  access is outside of an object) leaves a well-formed state: either it returns 0 with a request and a response and both
  locks held once exactly while a request is being processed, also when the run is left in the middle of a request to
  wait for the socket; or the session is over, is not live any more, holds no packet and no lock, and -1 asks for its
  removal unless an object still refers to it. The exception is a run with a timeout event: it returns -1 at once and
  changes none of this, so that a session that waits in the middle of a request ends with its packets and with both
  locks held, even when an object still refers to it, and only its destructor releases them.\<close>

theorem session_typing:
  assumes "session_typed s" "Run env events s = Some (n, s1)"
  shows "if events AND kTimeoutEvent \<noteq> 0
    then n = -1 \<and> fRequest s1 = fRequest s \<and> fResponse s1 = fResponse s \<and> fState s1 = fState s \<and>
      fReadMutex s1 = fReadMutex s \<and> fSessionMutex s1 = fSessionMutex s
    else n = 0 \<and> session_typed s1 \<or>
      \<not> IsLiveSession s1 \<and> fRequest s1 = None \<and> fResponse s1 = None \<and> fReadMutex s1 = 0 \<and> fSessionMutex s1 = 0 \<and>
      n = (if fObjectHolders s1 = 0 then -1 else 0)"
proof -
  let ?s = "if events AND kKillEvent \<noteq> 0 then s\<lparr>fLiveSession := False\<rparr> else s"
  have k: "session_typed ?s" using assms(1) by (simp add: session_typed_def)
  show ?thesis
  proof (cases "events AND kTimeoutEvent = 0")
    case True
    then have "run_loop env CF_NoErr ?s = Some (n, s1)" using assms(2) by (simp add: Run_def Let_def)
    from run_loop_typed [OF this] show ?thesis using k True by (auto simp: ended_def shape_ok_def)
  next
    case False
    then show ?thesis using assms(2) by (auto simp: Run_def Let_def split: if_splits)
  qed
qed

section \<open>Serving a request\<close>




text \<open>From a complete message to a parsed request without a body.\<close>

definition fresh_response :: "HTTPEnv \<Rightarrow> HTTPPacket" where
  "fresh_response env = HTTPPacket_new (eServer env) httpResponseType"




text \<open>The answer of a handler that sets a body: the status line, the server's fields, the length
  of the body, and the body.\<close>

definition answer_text :: "HTTPEnv \<Rightarrow> nat \<Rightarrow> string \<Rightarrow> string" where
  "answer_text env v body =
     response_text httpOK v
       [(httpServerHeader, str (eServer env)), (httpDateHeader, take 29 (eDate env)),
        (httpAccessControlAllowOriginHeader, ''*''), (httpContentLengthHeader, dec (length body))] @ body"

lemma answer_bytes:
  assumes "fVersion req < 3" "fRequestKeepAlive req" "valid b" "Len b < 2 ^ 32"
  shows "response_bytes env req (SetBody (fresh_response env) (Some b)) = answer_text env (fVersion req) (str b)"
    "response_of (versioned req (SetBody (fresh_response env) (Some b))) (eDate env)
       (session_fields req (SetBody (fresh_response env) (Some b))) @ str b = answer_text env (fVersion req) (str b)"
proof -
  let ?r = "SetBody (fresh_response env) (Some b)"
  have v: "fVersion (versioned req ?r) = fVersion req" "fStatusCode (versioned req ?r) = httpOK" "fSvrHeader (versioned req ?r) = eServer env"
    using assms(1) by (simp_all add: versioned_def SetVersion_def SetBody_def fresh_response_def HTTPPacket_new_def httpIllegalVersion_def)
  have l: "unat (of_nat (body_length ?r) :: UInt32) = length (str b)"
    using assms(3,4) by (simp add: body_length_def SetBody_def unat_of_nat)
  have d: "str (theDate (eDate env)) = take 29 (eDate env)" by (simp add: theDate_def str_def kDateBufferLen_def)
  show 1: "response_of (versioned req ?r) (eDate env) (session_fields req ?r) @ str b = answer_text env (fVersion req) (str b)"
    using assms(2) d l
    by (simp add: response_of_def v answer_text_def header_values_def first_fields_def session_fields_def sAllString_def)
  show "response_bytes env req ?r = answer_text env (fVersion req) (str b)"
    using 1 by (simp add: response_bytes_def body_text_def SetBody_def)
qed

lemma answer_header_short:
  assumes "v < 3" "length (str (eServer env)) \<le> 200" "length body < 2 ^ 32"
  shows "length (answer_text env v body) < 512 + length body"
proof -
  have "length (sVersionStrings ! v) \<le> 8"
  proof -
    have "\<forall>t \<in> set sVersionStrings. length t \<le> 8" by code_simp
    then show ?thesis using assms(1) tables_length(2) by simp
  qed
  moreover have "length (sStatusCodeAsStrings ! httpOK) = 3" "length (sStatusCodeStrings ! httpOK) = 2"
    "length (sHeaders ! httpServerHeader) = 6" "length (sHeaders ! httpDateHeader) = 4"
    "length (sHeaders ! httpAccessControlAllowOriginHeader) = 27" "length (sHeaders ! httpContentLengthHeader) = 14"
    by code_simp+
  moreover have "length (dec (length body)) \<le> 10" using assms(3) by (intro length_dec) simp_all
  ultimately show ?thesis using assms(2)
    by (simp add: answer_text_def response_text_def status_line_def header_line_def crlf_def)
qed



section \<open>Examples\<close>

definition ex_handler :: CF_CGIFunction where
  "ex_handler req resp = (CF_NoErr, req, SetBody resp (Some (lit ''hello'')))"

definition ex_env :: HTTPEnv where
  "ex_env = \<lparr>eTime = 0, eDate = replicate 32 (CHR ''d''), eServer = lit ''S'', eBlock = [], sDispatcher = [DefaultPathMapper ex_handler]\<rparr>"

definition ex_session :: "os_recv list \<Rightarrow> os_send list \<Rightarrow> HTTPSession" where
  "ex_session r t = HTTPSession_new ex_env 0 \<lparr>sState = kConnected, sSends = t, sRecvs = r, sWire = []\<rparr> (replicate 2048 NUL)"

definition length_request :: "string \<Rightarrow> HTTPPacket" where
  "length_request t = (HTTPPacket_new (lit ''S'') httpRequestType)
     \<lparr>fFieldValues := (replicate 51 StrPtrLen_null)[httpContentLengthHeader := lit t]\<rparr>"

lemma length_request_facts [simp]:
  "content_length_of (length_request t) = Some (of_nat (number_of t))" "fHTTPType (length_request t) \<noteq> httpIllegalType"
  "fHTTPBody (length_request t) = None"
proof -
  have "field_ok (lit t)" "str (lit t) = t" by (simp_all add: field_ok_def stream_ok_def lit_def str_def)
  then show "content_length_of (length_request t) = Some (of_nat (number_of t))"
    using content_length_ok [of "length_request t"] by (simp add: length_request_def httpContentLengthHeader_def)
qed (simp_all add: length_request_def HTTPPacket_new_def httpRequestType_def httpIllegalType_def)

lemma ex_env_ok: "env_ok ex_env"
  by (simp add: env_ok_def ex_env_def ascii_def byte_def text_ok_def lit_def valid_def str_def)

lemma ex_session_facts:
  "stream_inv (fOutputStream (ex_session r t))" "fCurrentPut (fOutputStream (ex_session r t)) = 0"
  "fBytesWritten (fOutputStream (ex_session r t)) = 0" "fRequestBodyLen (ex_session r t) = -1"
  "fSocket (fOutputStream (ex_session r t)) = \<lparr>sState = kConnected, sSends = t, sRecvs = r, sWire = []\<rparr>"
  "rs_ok (fInputStream (ex_session r t))" "buffered (fInputStream (ex_session r t)) = []"
  "stream_log (fOutputStream (ex_session r t)) = []"
  by (simp_all add: ex_session_def HTTPSession_new_def HTTPResponseStream_new_def stream_inv_def fmt_ok_def stream_log_def contents_def
      kRequestBufferSizeInBytes_def CF_MAX_REQUEST_BUFFER_SIZE_def rs_ok_new buffered_def request_of_def HTTPRequestStream_new_def
      rs_ok_def)

theorem SetupRequest_collects_witness:
  "\<exists>b k i s1. setup_runs 3 ((ex_session [Arrived ''d'', Arrived ''yGET''] [])\<lparr>fRequest := Some (length_request ''4''), fInputStream := ex_request\<rparr>) =
       Some (CF_NoErr, set_socket k (s1\<lparr>fInputStream := i, fRequest := Some (SetBody (length_request ''4'') (Some b))\<rparr>)) \<and>
     str b = ''body'' \<and> unread i k = ''GET''"
proof -
  let ?s = "(ex_session [Arrived ''d'', Arrived ''yGET''] [])\<lparr>fRequest := Some (length_request ''4''), fInputStream := ex_request\<rparr>"
  have n: "number_of ''4'' = 4" by code_simp
  have r: "fRequest ?s = Some (length_request ''4'')" "body_ok (length_request ''4'') (unat (4 :: UInt32))" "body_text (length_request ''4'') = []"
    by (simp_all add: body_ok_def body_text_def)
  have i: "rs_ok (fInputStream ?s)" "fRequestPtr (fInputStream ?s)" "IsConnected (fSocket (fOutputStream ?s))"
    "sRecvs (fSocket (fOutputStream ?s)) = map Arrived [''d'', ''yGET'']" "[] \<notin> set [''d'', ''yGET'']"
    by (simp_all add: ex_session_facts ex_request_def rs_ok_def HTTPRequestStream_new_def crlf_def kRequestBufferSizeInBytes_def
        CF_MAX_REQUEST_BUFFER_SIZE_def IsConnected_def kConnected_def)
  have t: "''bodyGET'' = body_text (length_request ''4'') @ buffered (fInputStream ?s) @ concat [''d'', ''yGET'']"
    unfolding r(3) by (simp add: ex_session_facts ex_request_def HTTPRequestStream_new_def crlf_def buffered_def)
  have c: "content_length_of (length_request ''4'') = Some 4" "length (body_text (length_request ''4'')) < unat (4 :: UInt32)"
    using n by (simp_all add: r(3))
  obtain e b k i where b: "setup_runs (length [''d'', ''yGET''] + 1) ?s = Some (e, set_socket k (?s\<lparr>fInputStream := i, fRequest := Some (SetBody (length_request ''4'') (Some b))\<rparr>))"
    "e = (if unat (4 :: UInt32) \<le> length ''bodyGET'' then CF_NoErr else CF_WouldBlock)" "str b = take (unat (4 :: UInt32)) ''bodyGET''"
    "unread i k = drop (unat (4 :: UInt32)) ''bodyGET''"
    using SetupRequest_collects [OF r(1) length_request_facts(2) c(1) _ _ r(2) c(2) i t] by auto
  have l: "length [''d'', ''yGET''] + 1 = 3" by simp
  have "e = CF_NoErr" "str b = ''body''" "unread i k = ''GET''" using b(2-4) by simp_all
  then show ?thesis using b(1) unfolding l by (intro exI [of _ b] exI [of _ k] exI [of _ i] exI [of _ ?s]) simp
qed

theorem SetupRequest_overflow_witness:
  "SetupRequest ((ex_session [] [])\<lparr>fRequest := Some (length_request ''4294967295''), fInputStream := ex_request\<rparr>) = None"
proof -
  let ?s = "(ex_session [] [])\<lparr>fRequest := Some (length_request ''4294967295''), fInputStream := ex_request\<rparr>"
  have n: "of_nat (number_of ''4294967295'') = (-1 :: UInt32)"
  proof -
    have "number_of ''4294967295'' = 4294967295" by (simp add: number_of_def byte_def space_char_def is_digit_def)
    then show ?thesis by simp
  qed
  have i: "rs_ok (fInputStream ?s)" "fRequestPtr (fInputStream ?s)" "recv_ok (fSocket (fOutputStream ?s))" "buffered (fInputStream ?s) \<noteq> []"
    by (simp_all add: ex_session_facts ex_request_def rs_ok_def HTTPRequestStream_new_def crlf_def kRequestBufferSizeInBytes_def
        CF_MAX_REQUEST_BUFFER_SIZE_def recv_ok_def buffered_def)
  show ?thesis using SetupRequest_overflow [of ?s "length_request ''4294967295''", OF _ _ _ _ i] n by simp
qed

theorem bad_version_dispatched_witness:
  "\<exists>s1 r. session_round ex_env 0 ((ex_session [] [])\<lparr>fState := kPreprocessingRequest, fRequest := Some (HTTPPacket_new (lit ''S'') httpRequestType),
       fResponse := Some (fresh_response ex_env)\<rparr>) = Some (Again 0, s1) \<and>
     session_round ex_env 0 s1 = SendingResponse ex_env 0 ((ex_session [] [])
       \<lparr>fState := kSendingResponse, fRequest := Some (HTTPPacket_new (lit ''S'') httpRequestType), fResponse := Some r\<rparr>) \<and>
     fHTTPBody r = Some (lit ''hello'')"
proof -
  let ?q = "HTTPPacket_new (lit ''S'') httpRequestType"
  let ?s = "(ex_session [] [])\<lparr>fState := kPreprocessingRequest, fRequest := Some ?q, fResponse := Some (fresh_response ex_env)\<rparr>"
  have s: "fState ?s = kPreprocessingRequest" "fRequest ?s = Some ?q" "fResponse ?s = Some (fresh_response ex_env)"
    "fVersion ?q = httpIllegalVersion" by (simp_all add: HTTPPacket_new_def)
  have d: "Dispatch (sDispatcher ex_env) (fRelativeURI ?q) = Some (Inl ex_handler)" by (simp add: ex_env_def)
  obtain r where r: "ex_handler ?q (SetStatusCode (fresh_response ex_env) httpHTTPVersionNotSupported) = (CF_NoErr, ?q, r)"
    "fHTTPBody r = Some (lit ''hello'')" by (simp add: ex_handler_def SetBody_def)
  obtain s1 where "session_round ex_env 0 ?s = Some (Again 0, s1)"
    "\<forall>f. Dispatch (sDispatcher ex_env) (fRelativeURI ?q) = Some (Inl f) \<longrightarrow>
       (\<forall>q' r'. f ?q (SetStatusCode (fresh_response ex_env) httpHTTPVersionNotSupported) = (CF_NoErr, q', r') \<longrightarrow>
          session_round ex_env 0 s1 = SendingResponse ex_env 0 (?s\<lparr>fRequest := Some q', fResponse := Some r', fState := kSendingResponse\<rparr>))"
    using bad_version_dispatched [OF s, of ex_env 0] by blast
  moreover from this have "session_round ex_env 0 s1 =
      SendingResponse ex_env 0 (?s\<lparr>fRequest := Some ?q, fResponse := Some r, fState := kSendingResponse\<rparr>)"
    using d r(1) by blast
  moreover have "?s\<lparr>fRequest := Some ?q, fResponse := Some r, fState := kSendingResponse\<rparr> =
      (ex_session [] [])\<lparr>fState := kSendingResponse, fRequest := Some ?q, fResponse := Some r\<rparr>" by simp
  ultimately show ?thesis using r(2) by metis
qed

theorem response_sent_twice_witness:
  "\<exists>s1 r s2 R. session_round ex_env 0 ((ex_session [] [Accepted 9])\<lparr>fState := kSendingResponse,
       fRequest := Some ((HTTPPacket_new (lit ''S'') httpRequestType)\<lparr>fVersion := http11Version, fRequestKeepAlive := True\<rparr>),
       fResponse := Some (SetBody (fresh_response ex_env) (Some (lit ''hello'')))\<rparr>) = Some (Return 0, s1) \<and>
     session_round ex_env 0 s1 = Some (r, s2) \<and> stream_log (fOutputStream s2) = R @ R \<and> 9 < length R"
proof -
  let ?q = "(HTTPPacket_new (lit ''S'') httpRequestType)\<lparr>fVersion := http11Version, fRequestKeepAlive := True\<rparr>"
  let ?r = "SetBody (fresh_response ex_env) (Some (lit ''hello''))"
  let ?s = "(ex_session [] [Accepted 9])\<lparr>fState := kSendingResponse, fRequest := Some ?q, fResponse := Some ?r\<rparr>"
  let ?R = "response_bytes ex_env ?q ?r"
  have s: "fState ?s = kSendingResponse" "fResponse ?s = Some ?r" "fRequest ?s = Some ?q" "response_ok ex_env ?r" "env_ok ex_env"
    "fVersion ?q < 4" "stream_inv (fOutputStream ?s)" "fRequestBodyLen ?s = -1"
    using ex_env_ok by (simp_all add: HTTPPacket_new_def fresh_response_def response_ok_def ex_env_def httpIllegalVersion_def httpOK_def
        ex_session_facts SetBody_def http11Version_def valid_def lit_def)
  have b: "valid (lit ''hello'')" "Len (lit ''hello'') < 2 ^ 32" "str (lit ''hello'') = ''hello''" "str (eServer ex_env) = ''S''"
    by (simp_all add: valid_def lit_def str_def ex_env_def)
  have v: "fVersion ?q < 3" "fRequestKeepAlive ?q" by (simp_all add: http11Version_def)
  note R = answer_bytes [OF v b(1,2), of ex_env]
  have l: "length (answer_text ex_env (fVersion ?q) ''hello'') < 517"
    using answer_header_short [OF v(1), of ex_env "''hello''"] b(4) by simp
  have "length (sHeaders ! httpAccessControlAllowOriginHeader) = 27" by code_simp
  then have l9: "9 < length ?R" unfolding R(1) by (simp add: answer_text_def response_text_def header_line_def)
  have lh: "length (response_of (versioned ?q ?r) (eDate ex_env) (session_fields ?q ?r)) < 512"
    using l arg_cong [OF R(2), of length] unfolding b(3) length_append by simp
  have lr: "length ?R < 517" using l unfolding R(1) b(3) .
  have fit: "fCurrentPut (fOutputStream ?s) + 2 * length ?R < 2 ^ 31 - 1"
    "unat (fBytesWritten (fOutputStream ?s)) + 2 * length ?R < 2 ^ 32"
    using lr by (simp_all add: ex_session_facts)
  then have fit1: "fCurrentPut (fOutputStream ?s) + length ?R < 2 ^ 31 - 1"
    "unat (fBytesWritten (fOutputStream ?s)) + length ?R < 2 ^ 32" by linarith+
  obtain e o0 o1 s1 where S: "stream_inv o1" "stream_log o1 = stream_log (fOutputStream ?s) @ ?R"
    "fSocket o0 = fSocket (fOutputStream ?s)" "stream_inv o0" "stream_log o0 = stream_log (fOutputStream ?s) @ ?R"
    "fSocket o1 = snd (snd (Send (fSocket o0) (unsent o0)))" "e = CF_NoErr \<longleftrightarrow> unsent o1 = []"
    "SendingResponse ex_env 0 ?s = (if e = EAGAIN then wait_for EV_WR (force_same_thread s1)
        else Some (Again CF_NoErr, (CleanupRequestAndResponse s1)\<lparr>fState := kReadingRequest\<rparr>))" "e \<in> {CF_NoErr, EAGAIN}"
    by (rule SendingResponse_ok [OF s(2-7) lh fit1 s(8), of 0]) blast
  have k: "fSocket o0 = \<lparr>sState = kConnected, sSends = [Accepted 9], sRecvs = [], sWire = []\<rparr>" using S(3) by (simp add: ex_session_facts)
  have L: "stream_log (fOutputStream ?s) = []" by (simp add: ex_session_facts(8))
  have u0: "unsent o0 = ?R" using S(5) k unsent_eq [OF S(4)] unfolding L by (simp add: stream_log_def)
  have "sWire (fSocket o1) = take 9 ?R" unfolding S(6) k u0 by (simp add: Send_def IsConnected_def kConnected_def)
  moreover have "sWire (fSocket o1) @ unsent o1 = ?R"
    using S(2) unsent_eq [OF S(1)] unfolding L by (simp add: stream_log_def)
  ultimately have "unsent o1 \<noteq> []" using l9 by (metis append_Nil2 length_take min.absorb2 nat_less_le)
  then have "session_round ex_env 0 ?s = Some (Return 0, request_event EV_WR (force_same_thread s1))"
    using S(7-9) s(1) by (simp add: session_round.simps wait_for_def)
  from response_sent_twice [OF s lh fit this, of 0] this l9 show ?thesis by (simp add: ex_session_facts) blast
qed


theorem session_typing_witness:
  "(\<exists>s'. Run ex_env kKillEvent (ex_session [] []) = Some (-1, s') \<and> fRequest s' = None \<and> fReadMutex s' = 0) \<and>
   (\<exists>s'. Run ex_env kTimeoutEvent ((ex_session [] [])\<lparr>fState := kFilteringRequest, fRequest := Some (length_request ''4''),
       fResponse := Some (fresh_response ex_env), fReadMutex := 1, fSessionMutex := 1\<rparr>) = Some (-1, s') \<and>
     fRequest s' \<noteq> None \<and> fReadMutex s' = 1)"
proof (rule conjI)
  let ?s = "ex_session [] []"
  have t: "session_typed ?s" by (simp add: session_typed_def shape_ok_def ex_session_def HTTPSession_new_def)
  have f: "fObjectHolders (?s\<lparr>fLiveSession := False\<rparr>) = 0" by (simp add: ex_session_def HTTPSession_new_def)
  have "\<not> IsLiveSession (?s\<lparr>fLiveSession := False\<rparr>)" by (simp add: IsLiveSession_def)
  then have r: "Run ex_env kKillEvent ?s = Some (-1, CleanupRequestAndResponse (?s\<lparr>fLiveSession := False\<rparr>))"
    using f by (simp add: Run_def run_loop.simps kKillEvent_def kTimeoutEvent_def)
  have k: "kKillEvent AND kTimeoutEvent = 0" by (simp add: kKillEvent_def kTimeoutEvent_def)
  show "\<exists>s'. Run ex_env kKillEvent ?s = Some (-1, s') \<and> fRequest s' = None \<and> fReadMutex s' = 0"
    using session_typing [OF t r] k r by simp
next
  let ?s = "(ex_session [] [])\<lparr>fState := kFilteringRequest, fRequest := Some (length_request ''4''),
       fResponse := Some (fresh_response ex_env), fReadMutex := 1, fSessionMutex := 1\<rparr>"
  have t: "session_typed ?s" by (simp add: session_typed_def shape_ok_def)
  have k: "kTimeoutEvent AND kTimeoutEvent \<noteq> 0" "kTimeoutEvent AND kKillEvent = 0" by (simp_all add: kKillEvent_def kTimeoutEvent_def)
  have r: "Run ex_env kTimeoutEvent ?s = Some (-1, ?s)" using k by (simp add: Run_def Let_def)
  show "\<exists>s'. Run ex_env kTimeoutEvent ?s = Some (-1, s') \<and> fRequest s' \<noteq> None \<and> fReadMutex s' = 1"
    using session_typing [OF t r] k(1) r by simp
qed

end
