(* ===== verification/CF_ConfParser.thy ===== *)
theory CF_ConfParser
  imports CF_Def
begin

text \<open>
  The configuration files of the server: \<^verbatim>\<open>src/CFBasic/ConfParser.cpp\<close>,
  \<^verbatim>\<open>GetWord.c\<close> and \<^verbatim>\<open>Trim.c\<close>. Every line holds a
  parameter and its values, words that are separated by blanks or written in quotes; a line that
  starts with a number sign is a comment. The file is its contents (\<^term>\<open>None\<close> if it cannot be
  opened), \<^verbatim>\<open>fgets\<close> takes lines from it, and the setter is a function on the
  user data. The messages about errors are left out. A pointer into the line is the rest of the
  line buffer from there on; \<^term>\<open>None\<close> is an access outside of a buffer or a failed assertion.
\<close>

section \<open>Words\<close>

definition kConfParserMaxParamSize :: nat where "kConfParserMaxParamSize = 512"
definition kConfParserMaxLineSize :: nat where "kConfParserMaxLineSize = 1024"
definition kConfParserMaxParamValues :: nat where "kConfParserMaxParamValues = 10"

definition dquote :: char where "dquote = CHR 0x22"

text \<open>The value of a \<^verbatim>\<open>char\<close>, which is signed.\<close>

definition signed_char :: "char \<Rightarrow> int" where
  "signed_char c = (if byte c < 128 then int (byte c) else int (byte c) - 256)"

fun TrimLeft_mem :: "mem \<Rightarrow> mem option" where
  "TrimLeft_mem [] = None"
| "TrimLeft_mem (c # m) = (if signed_char c \<le> 32 \<and> c \<noteq> NUL then TrimLeft_mem m else Some (c # m))"

fun skip_white :: "mem \<Rightarrow> mem option" where
  "skip_white [] = None"
| "skip_white (c # m) = (if byte c \<le> 0x20 \<and> c \<noteq> NUL then skip_white m else Some (c # m))"

text \<open>The copying loops give the characters that are written and the position where they stop.\<close>

fun copy_word :: "mem \<Rightarrow> nat \<Rightarrow> (string \<times> mem) option" where
  "copy_word m 0 = Some ([], m)"
| "copy_word [] (Suc limit) = None"
| "copy_word (c # m) (Suc limit) =
     (if byte c > 0x20 \<and> c \<noteq> NUL then do { (w, r) \<leftarrow> copy_word m limit; Some (c # w, r) } else Some ([], c # m))"

definition GetWord :: "mem \<Rightarrow> mem \<Rightarrow> nat \<Rightarrow> (mem \<times> mem) option" where
  "GetWord toWordPtr fromStrPtr limit = do {
     m \<leftarrow> skip_white fromStrPtr;
     (w, r) \<leftarrow> copy_word m limit;
     t \<leftarrow> write_at toWordPtr 0 (w @ [NUL]);
     Some (t, r)
   }"

fun copy_quoted :: "mem \<Rightarrow> nat \<Rightarrow> bool \<Rightarrow> (string \<times> mem) option" where
  "copy_quoted m 0 lastWasQuote = Some ([], m)"
| "copy_quoted [] (Suc limit) lastWasQuote = None"
| "copy_quoted (c # m) (Suc limit) lastWasQuote =
     (if c = NUL then Some ([], c # m)
      else if c = dquote then
        (if lastWasQuote then do { (w, r) \<leftarrow> copy_quoted m limit False; Some (dquote # w, r) }
         else copy_quoted m (Suc limit) True)
      else if \<not> lastWasQuote then do { (w, r) \<leftarrow> copy_quoted m limit lastWasQuote; Some (c # w, r) }
      else Some ([], c # m))"

definition GetQuotedWord :: "mem \<Rightarrow> mem \<Rightarrow> nat \<Rightarrow> (mem \<times> mem) option" where
  "GetQuotedWord toWordPtr fromStrPtr limit = do {
     m \<leftarrow> skip_white fromStrPtr;
     c \<leftarrow> rd m 0;
     (w, r) \<leftarrow> (if c = dquote then copy_quoted (tl m) limit False else Some ([], m));
     t \<leftarrow> write_at toWordPtr 0 (w @ [NUL]);
     Some (t, r)
   }"

section \<open>Lines\<close>

text \<open>A word of the line, quoted or not, into the word buffer; then the copy that is made of it.\<close>

definition next_word :: "mem \<Rightarrow> mem \<Rightarrow> (mem \<times> mem) option" where
  "next_word wordBuff next = do {
     c \<leftarrow> rd next 0;
     if c = dquote then GetQuotedWord wordBuff next kConfParserMaxParamSize
     else GetWord wordBuff next kConfParserMaxParamSize
   }"

definition copy_of :: "mem \<Rightarrow> string option" where
  "copy_of wordBuff = do { n \<leftarrow> strlen wordBuff; Some (take n wordBuff) }"

text \<open>The loop over the values; the number is how many more the array can take.\<close>

fun read_values :: "nat \<Rightarrow> mem \<Rightarrow> mem \<Rightarrow> (string list \<times> mem) option" where
  "read_values 0 wordBuff next = Some ([], wordBuff)"
| "read_values (Suc n) wordBuff next = do {
     c \<leftarrow> rd next 0;
     if c = NUL then Some ([], wordBuff)
     else do {
       next1 \<leftarrow> TrimLeft_mem next;
       c1 \<leftarrow> rd next1 0;
       if c1 = NUL then Some ([], wordBuff)
       else do {
         (wordBuff1, next2) \<leftarrow> next_word wordBuff next1;
         v \<leftarrow> copy_of wordBuff1;
         (vs, wordBuff2) \<leftarrow> read_values n wordBuff1 next2;
         Some (v # vs, wordBuff2)
       }
     }
   }"

type_synonym 'd CFConfigSetter = "string \<Rightarrow> string list \<Rightarrow> 'd \<Rightarrow> bool \<times> 'd"

definition parse_config_line ::
  "bool \<Rightarrow> 'd CFConfigSetter \<Rightarrow> mem \<Rightarrow> mem \<Rightarrow> 'd \<Rightarrow> (int \<times> mem \<times> 'd) option" where
  "parse_config_line allowNullValues setter lineBuff wordBuff userData = do {
     next \<leftarrow> TrimLeft_mem lineBuff;
     c \<leftarrow> rd next 0;
     if c = NUL \<or> c = CHR ''#'' then Some (0, wordBuff, userData)
     else do {
       (wordBuff1, next1) \<leftarrow> next_word wordBuff next;
       param \<leftarrow> copy_of wordBuff1;
       Assert (param \<noteq> []);
       (values, wordBuff2) \<leftarrow> read_values kConfParserMaxParamValues wordBuff1 next1;
       if values \<noteq> [] \<or> allowNullValues
       then case setter param values userData of (refused, d) \<Rightarrow> Some (if refused then -1 else 0, wordBuff2, d)
       else Some (-1, wordBuff2, userData)
     }
   }"

section \<open>Files\<close>

text \<open>
  \<^verbatim>\<open>fgets\<close> with room for \<open>n\<close> characters: the line with its end, what is left of
  the file, and whether the end of the file was met.
\<close>

fun fgets :: "nat \<Rightarrow> string \<Rightarrow> string \<times> string \<times> bool" where
  "fgets 0 f = ([], f, False)"
| "fgets (Suc n) [] = ([], [], True)"
| "fgets (Suc n) (c # f) =
     (if c = CHR 0x0A then ([c], f, False) else case fgets n f of (l, r, e) \<Rightarrow> (c # l, r, e))"

lemma fgets_append: "fgets n f = (l, r, e) \<Longrightarrow> f = l @ r"
  by (induction n f arbitrary: l r e rule: fgets.induct) (auto split: if_splits prod.splits)

lemma fgets_progress: "0 < n \<Longrightarrow> f \<noteq> [] \<Longrightarrow> fst (fgets n f) \<noteq> []"
  by (cases n; cases f) (auto split: prod.splits)

lemma fgets_shorter: "0 < n \<Longrightarrow> f \<noteq> [] \<Longrightarrow> length (fst (snd (fgets n f))) < length f"
  using fgets_append [of n f] fgets_progress [of n f] by (cases "fgets n f") auto

function config_loop ::
  "bool \<Rightarrow> 'd CFConfigSetter \<Rightarrow> int \<Rightarrow> string \<Rightarrow> mem \<Rightarrow> 'd \<Rightarrow> (int \<times> 'd) option" where
  "config_loop allowNullValues setter error f wordBuff userData =
     (if f = [] then Some (error, userData)
      else case fgets (kConfParserMaxLineSize - 1) f of (line, r, eof) \<Rightarrow> do {
        (e, wordBuff1, d) \<leftarrow> parse_config_line allowNullValues setter (cstring line) wordBuff userData;
        if \<not> eof \<and> e = 0 then config_loop allowNullValues setter e r wordBuff1 d else Some (e, d)
      })"
  by pat_completeness auto

termination
proof (relation "measure (\<lambda>(a, s, e, f, w, d). length f)", goal_cases)
  case (2 a s e f w d line r eof)
  then show ?case using fgets_shorter [of "kConfParserMaxLineSize - 1" f] 
    by (auto simp: kConfParserMaxLineSize_def dest: sym [of "(_, _)"] split: prod.splits)
qed simp

declare config_loop.simps [simp del]

definition ParseConfigFile ::
  "bool \<Rightarrow> string option \<Rightarrow> 'd CFConfigSetter \<Rightarrow> mem \<Rightarrow> 'd \<Rightarrow> (int \<times> 'd) option" where
  "ParseConfigFile allowNullValues file setter wordBuff userData =
     (case file of None \<Rightarrow> Some (-1, userData)
      | Some f \<Rightarrow> config_loop allowNullValues setter (-1) f wordBuff userData)"

section \<open>Words that are read back\<close>

definition escape :: "string \<Rightarrow> string" where
  "escape w = concat (map (\<lambda>c. if c = dquote then [dquote, dquote] else [c]) w)"

definition quoted :: "string \<Rightarrow> string" where
  "quoted w = dquote # escape w @ [dquote]"

definition word_ok :: "string \<Rightarrow> bool" where
  "word_ok w \<longleftrightarrow> NUL \<notin> set w \<and> CHR 0x0A \<notin> set w \<and> length w < kConfParserMaxParamSize"

lemma quote_facts [simp]: "dquote \<noteq> NUL" "NUL \<noteq> dquote" "dquote \<noteq> CHR 0x0A" "CHR 0x0A \<noteq> dquote" "signed_char dquote = 34" "byte dquote = 34"
  "dquote \<noteq> CHR ''#''" "dquote \<noteq> CHR '' ''" "CHR '' '' \<noteq> dquote"
  by (simp_all add: dquote_def signed_char_def byte_def)

lemma blank_facts [simp]: "signed_char (CHR '' '') = 32" "signed_char (CHR 0x0A) = 10" "signed_char NUL = 0"
  by (simp_all add: signed_char_def byte_def)

lemma copy_quoted_ok:
  assumes "NUL \<notin> set w" "length w < limit" "d \<noteq> dquote"
  shows "copy_quoted (escape w @ dquote # d # r) limit False = Some (w, d # r)"
  using assms
proof (induction w arbitrary: limit)
  case Nil
  then show ?case by (cases limit) (auto simp: escape_def)
next
  case (Cons c w)
  then obtain l where "limit = Suc l" by (cases limit) auto
  moreover have "c \<noteq> NUL" using Cons.prems(1) by auto
  ultimately show ?case using Cons by (simp add: escape_def)
qed

lemma write_word:
  assumes "length wb = kConfParserMaxParamSize" "NUL \<notin> set w" "length w < kConfParserMaxParamSize"
  obtains wb' where "write_at wb 0 (w @ [NUL]) = Some wb'" "length wb' = kConfParserMaxParamSize" "copy_of wb' = Some w"
proof
  let ?wb = "(w @ [NUL]) @ drop (Suc (length w)) wb"
  show "write_at wb 0 (w @ [NUL]) = Some ?wb" "length ?wb = kConfParserMaxParamSize" using assms by (simp_all add: write_at_def)
  show "copy_of ?wb = Some w" using assms(2) by (simp add: copy_of_def strlen_def)
qed

lemma next_word_quoted:
  assumes "length wb = kConfParserMaxParamSize" "word_ok w" "d \<noteq> dquote"
  obtains wb' where "next_word wb (quoted w @ d # r) = Some (wb', d # r)" "length wb' = kConfParserMaxParamSize" "copy_of wb' = Some w"
proof -
  have w: "NUL \<notin> set w" "length w < kConfParserMaxParamSize" using assms(2) by (simp_all add: word_ok_def)
  obtain wb' where "write_at wb 0 (w @ [NUL]) = Some wb'" "length wb' = kConfParserMaxParamSize" "copy_of wb' = Some w"
    by (rule write_word [OF assms(1) w])
  then show thesis using that copy_quoted_ok [OF w assms(3)] by (simp add: next_word_def GetQuotedWord_def quoted_def)
qed

lemma read_values_quoted:
  assumes "length vs \<le> n" "\<forall>v \<in> set vs. word_ok v" "length wb = kConfParserMaxParamSize"
  shows "\<exists>wb'. read_values n wb (concat (map (\<lambda>v. CHR '' '' # quoted v) vs) @ [CHR 0x0A, NUL]) = Some (vs, wb') \<and>
    length wb' = kConfParserMaxParamSize"
  using assms
proof (induction vs arbitrary: n wb)
  case Nil
  then show ?case by (cases n) simp_all
next
  case (Cons v vs)
  let ?r = "concat (map (\<lambda>v. CHR '' '' # quoted v) vs) @ [CHR 0x0A, NUL]"
  obtain m where n: "n = Suc m" using Cons.prems(1) by (cases n) auto
  obtain d r where d: "?r = d # r" "d \<noteq> dquote" by (cases vs) auto
  obtain wb1 where 1: "next_word wb (quoted v @ ?r) = Some (wb1, ?r)" "length wb1 = kConfParserMaxParamSize" "copy_of wb1 = Some v"
    using next_word_quoted [of wb v d r] Cons.prems d by auto
  obtain wb2 where 2: "read_values m wb1 ?r = Some (vs, wb2)" "length wb2 = kConfParserMaxParamSize"
    using Cons.IH [of m wb1] Cons.prems n 1(2) by auto
  have t: "TrimLeft_mem (CHR '' '' # quoted v @ ?r) = Some (quoted v @ ?r)" by (simp add: quoted_def)
  have q: "rd (quoted v @ ?r) 0 = Some dquote" by (simp add: quoted_def rd_def)
  show ?case using 1 2 t q by (simp add: n)
qed

section \<open>Files that are read back\<close>

definition config_line :: "string \<times> string list \<Rightarrow> string" where
  "config_line e = quoted (fst e) @ concat (map (\<lambda>v. CHR '' '' # quoted v) (snd e)) @ [CHR 0x0A]"

definition config_text :: "(string \<times> string list) list \<Rightarrow> string" where
  "config_text es = concat (map config_line es)"

definition entry_ok :: "string \<times> string list \<Rightarrow> bool" where
  "entry_ok e \<longleftrightarrow> fst e \<noteq> [] \<and> word_ok (fst e) \<and> (\<forall>v \<in> set (snd e). word_ok v) \<and> length (snd e) \<le> kConfParserMaxParamValues \<and>
     length (config_line e) < kConfParserMaxLineSize"

text \<open>What a sequence of entries means: the setter is called for one after the other until it refuses
  one or one has no value.\<close>

fun apply_entries ::
  "bool \<Rightarrow> 'd CFConfigSetter \<Rightarrow> (string \<times> string list) list \<Rightarrow> int \<Rightarrow> 'd \<Rightarrow> int \<times> 'd" where
  "apply_entries allowNull setter [] e d = (e, d)"
| "apply_entries allowNull setter ((p, vs) # es) e d =
     (if vs = [] \<and> \<not> allowNull then (-1, d)
      else case setter p vs d of (refused, d1) \<Rightarrow> if refused then (-1, d1) else apply_entries allowNull setter es 0 d1)"

lemma parse_entry:
  assumes "entry_ok e" "length wb = kConfParserMaxParamSize"
  shows "\<exists>wb'. length wb' = kConfParserMaxParamSize \<and>
    parse_config_line allowNull setter (cstring (config_line e)) wb d =
      Some (if snd e = [] \<and> \<not> allowNull then (-1, wb', d)
            else case setter (fst e) (snd e) d of (refused, d1) \<Rightarrow> (if refused then -1 else 0, wb', d1))"
proof -
  let ?r = "concat (map (\<lambda>v. CHR '' '' # quoted v) (snd e)) @ [CHR 0x0A, NUL]"
  have e: "fst e \<noteq> []" "word_ok (fst e)" "\<forall>v \<in> set (snd e). word_ok v" "length (snd e) \<le> kConfParserMaxParamValues"
    using assms(1) by (simp_all add: entry_ok_def)
  have c: "cstring (config_line e) = quoted (fst e) @ ?r" by (simp add: cstring_def config_line_def)
  obtain x r where x: "?r = x # r" "x \<noteq> dquote" by (cases "snd e") auto
  obtain wb1 where 1: "next_word wb (quoted (fst e) @ ?r) = Some (wb1, ?r)" "length wb1 = kConfParserMaxParamSize" "copy_of wb1 = Some (fst e)"
    using next_word_quoted [of wb "fst e" x r] assms(2) e(2) x by auto
  obtain wb2 where 2: "read_values kConfParserMaxParamValues wb1 ?r = Some (snd e, wb2)" "length wb2 = kConfParserMaxParamSize"
    using read_values_quoted [OF e(4,3) 1(2)] by blast
  have t: "TrimLeft_mem (quoted (fst e) @ ?r) = Some (quoted (fst e) @ ?r)" "rd (quoted (fst e) @ ?r) 0 = Some dquote"
    by (simp_all add: quoted_def rd_def)
  show ?thesis
    by (rule exI [of _ wb2]) (use 1 2 t e(1) in \<open>simp add: parse_config_line_def c split: prod.splits\<close>)
qed

lemma fgets_line:
  assumes "CHR 0x0A \<notin> set l" "length l < n"
  shows "fgets n (l @ CHR 0x0A # r) = (l @ [CHR 0x0A], r, False)"
  using assms by (induction l arbitrary: n) (auto simp: gr0_conv_Suc less_Suc_eq_0_disj Suc_less_eq2)

lemma escape_plain: "CHR 0x0A \<notin> set w \<Longrightarrow> CHR 0x0A \<notin> set (escape w)"
  by (auto simp: escape_def)

lemma fgets_entry:
  assumes "entry_ok e"
  shows "fgets (kConfParserMaxLineSize - 1) (config_line e @ r) = (config_line e, r, False)"
proof -
  let ?l = "quoted (fst e) @ concat (map (\<lambda>v. CHR '' '' # quoted v) (snd e))"
  have "CHR 0x0A \<notin> set (quoted w)" if "word_ok w" for w
    using that escape_plain [of w] by (simp add: quoted_def word_ok_def)
  then have "CHR 0x0A \<notin> set ?l" using assms by (auto simp: entry_ok_def)
  moreover have "length ?l < kConfParserMaxLineSize - 1" using assms by (simp add: entry_ok_def config_line_def less_diff_conv)
  ultimately show ?thesis using fgets_line [of ?l "kConfParserMaxLineSize - 1" r] by (simp add: config_line_def)
qed

lemma config_loop_entries:
  assumes "\<forall>e \<in> set es. entry_ok e" "length wb = kConfParserMaxParamSize"
  shows "config_loop allowNull setter err (config_text es) wb d = Some (apply_entries allowNull setter es err d)"
  using assms
proof (induction es arbitrary: err wb d)
  case Nil
  then show ?case by (simp add: config_text_def config_loop.simps)
next
  case (Cons e es)
  obtain p vs where e: "e = (p, vs)" by (cases e)
  have ok: "entry_ok e" using Cons.prems(1) by simp
  obtain wb1 where P: "length wb1 = kConfParserMaxParamSize"
    "parse_config_line allowNull setter (cstring (config_line e)) wb d =
      Some (if vs = [] \<and> \<not> allowNull then (-1, wb1, d)
            else case setter p vs d of (refused, d1) \<Rightarrow> (if refused then -1 else 0, wb1, d1))"
    using parse_entry [OF ok Cons.prems(2), of allowNull setter d] by (auto simp: e)
  have IH: "config_loop allowNull setter 0 (config_text es) wb1 d1 = Some (apply_entries allowNull setter es 0 d1)" for d1
    using Cons.IH Cons.prems(1) P(1) by simp
  have t: "config_text (e # es) = config_line e @ config_text es" "config_line e @ config_text es \<noteq> []"
    by (simp_all add: config_text_def config_line_def)
  obtain refused d1 where s: "setter p vs d = (refused, d1)" by (cases "setter p vs d")
  have "config_loop allowNull setter err (config_text (e # es)) wb d =
      (do { (x, w, y) \<leftarrow> parse_config_line allowNull setter (cstring (config_line e)) wb d;
            if x = 0 then config_loop allowNull setter x (config_text es) w y else Some (x, y) })"
    unfolding t(1) by (subst config_loop.simps) (simp only: t(2) fgets_entry [OF ok] if_False prod.case, simp)
  then show ?case using P(2) IH s by (simp add: e)
qed

section \<open>Properties\<close>

text \<open>C23: A configuration file that was written with all words in quotes is read back: the setter is
  called with every parameter and exactly its values, in the order of the file, whatever blanks,
  number signs or quotes the words contain, and reading stops with an error at the first entry that
  is refused or that has no value where one is required. The limits of the parser apply: a parameter is not empty, a word has
  less than 512 bytes and no zero byte or line feed, an entry has at most 10 values, and its line less than 1024
  bytes.\<close>

theorem config_roundtrip:
  assumes "\<forall>e \<in> set es. entry_ok e" "length wb = kConfParserMaxParamSize"
  shows "ParseConfigFile allowNull (Some (config_text es)) setter wb d = Some (apply_entries allowNull setter es (-1) d)"
  using config_loop_entries [OF assms] by (simp add: ParseConfigFile_def)

definition ex_setter :: "(string \<times> string list) list CFConfigSetter" where
  "ex_setter p vs d = (p = ''stop'', d @ [(p, vs)])"

definition ex_entries :: "(string \<times> string list) list" where
  "ex_entries = [(''root dir'', [''/srv'', ''a#b'']), (''say'', [[dquote], []]), (''stop'', [''1'']), (''never'', [''2''])]"

theorem config_roundtrip_witness:
  "ParseConfigFile False (Some (config_text ex_entries)) ex_setter (replicate 512 NUL) [] = Some (-1, take 3 ex_entries)"
proof -
  have "\<forall>e \<in> set ex_entries. entry_ok e"
    by (simp add: ex_entries_def entry_ok_def word_ok_def config_line_def quoted_def escape_def kConfParserMaxParamSize_def
        kConfParserMaxParamValues_def kConfParserMaxLineSize_def dquote_def)
  from config_roundtrip [OF this, of "replicate 512 NUL" False ex_setter "[]"] show ?thesis
    by (simp add: kConfParserMaxParamSize_def ex_entries_def ex_setter_def)
qed

text \<open>Words without quotes.\<close>

lemma copy_word_ok:
  assumes "\<forall>c \<in> set w. byte c > 0x20" "length w < limit" "byte d \<le> 0x20"
  shows "copy_word (w @ d # r) limit = Some (w, d # r)"
  using assms
proof (induction w arbitrary: limit)
  case Nil
  then show ?case by (cases limit) auto
next
  case (Cons c w)
  then obtain l where "limit = Suc l" by (cases limit) auto
  moreover have "c \<noteq> NUL" using Cons.prems(1) by (auto simp: byte_def)
  ultimately show ?case using Cons by simp
qed

lemma copy_word_long:
  assumes "\<forall>c \<in> set w. byte c > 0x20" "limit \<le> length w"
  shows "copy_word (w @ r) limit = Some (take limit w, drop limit w @ r)"
  using assms
proof (induction w arbitrary: limit)
  case Nil
  then show ?case by simp
next
  case (Cons c w)
  have "c \<noteq> NUL" using Cons.prems(1) by (auto simp: byte_def)
  then show ?case using Cons by (cases limit) simp_all
qed

text \<open>A word of 512 or more bytes is copied up to the size of the word buffer, and the zero byte
  behind it is written outside of the buffer: a line that starts with such a word makes the reader
  leave its array, whatever follows.\<close>

theorem long_parameter_overflow:
  assumes "\<forall>c \<in> set p. byte c > 0x20 \<and> c \<noteq> dquote" "byte (hd p) < 128" "hd p \<noteq> CHR ''#''" "length p = kConfParserMaxParamSize"
    and "length wb = kConfParserMaxParamSize"
  shows "ParseConfigFile allowNull (Some (p @ CHR 0x0A # r)) setter wb d = None"
proof -
  obtain c q where p: "p = c # q" using assms(4) by (cases p) (auto simp: kConfParserMaxParamSize_def)
  have c: "byte c > 0x20" "c \<noteq> dquote" "signed_char c > 32" "c \<noteq> NUL" "c \<noteq> CHR ''#''"
    using assms(1-3) by (auto simp: p signed_char_def byte_def)
  have nl: "CHR 0x0A \<notin> set p" using assms(1) by (auto simp: byte_def)
  have "copy_word (p @ [CHR 0x0A, NUL]) kConfParserMaxParamSize = Some (p, [CHR 0x0A, NUL])"
    using copy_word_long [of p kConfParserMaxParamSize "[CHR 0x0A, NUL]"] assms(1,4) by simp
  moreover have "write_at wb 0 (p @ [NUL]) = None" using assms(4,5) by (simp add: write_at_def)
  ultimately have "next_word wb (p @ [CHR 0x0A, NUL]) = None" using c by (simp add: next_word_def GetWord_def p)
  then have "parse_config_line allowNull setter (cstring (p @ [CHR 0x0A])) wb d = None"
    using c by (simp add: parse_config_line_def cstring_def p)
  moreover have "fgets (kConfParserMaxLineSize - 1) (p @ CHR 0x0A # r) = (p @ [CHR 0x0A], r, False)"
    by (rule fgets_line [OF nl]) (simp add: assms(4) kConfParserMaxParamSize_def kConfParserMaxLineSize_def)
  ultimately show ?thesis by (simp add: ParseConfigFile_def) (subst config_loop.simps, simp)
qed

theorem long_parameter_overflow_witness:
  "ParseConfigFile True (Some (replicate 512 (CHR ''a'') @ [CHR 0x0A])) ex_setter (replicate 512 NUL) [] = None"
  using long_parameter_overflow [of "replicate 512 (CHR ''a'')" "replicate 512 NUL" True "[]" ex_setter "[]"]
  by (simp add: kConfParserMaxParamSize_def byte_def dquote_def)

lemma TrimLeft_high:
  assumes "\<forall>c \<in> set h. byte c \<ge> 128"
  shows "TrimLeft_mem (h @ m) = TrimLeft_mem m"
  using assms
proof (induction h)
  case (Cons c h)
  have "signed_char c < 0" "c \<noteq> NUL" using Cons.prems byte_less [of c] by (auto simp: signed_char_def byte_def)
  then show ?case using Cons by simp
qed simp

text \<open>A value that starts with bytes above 127, as every letter outside of ASCII does in UTF-8,
  loses them: \<^verbatim>\<open>TrimLeft\<close> compares signed characters and takes them for blanks, where the
  functions that copy words take them for letters.\<close>

theorem high_bytes_lost:
  assumes "\<forall>c \<in> set p. byte c > 0x20 \<and> c \<noteq> dquote" "p \<noteq> []" "byte (hd p) < 128" "hd p \<noteq> CHR ''#''" "length p < kConfParserMaxParamSize"
    and "\<forall>c \<in> set h. byte c \<ge> 128" "CHR 0x0A \<notin> set w" "NUL \<notin> set w" "length p + length h + length w + 2 < kConfParserMaxLineSize"
    and "length wb = kConfParserMaxParamSize"
  shows "ParseConfigFile allowNull (Some (p @ CHR '' '' # h @ w @ [CHR 0x0A])) setter wb d =
         ParseConfigFile allowNull (Some (p @ CHR '' '' # w @ [CHR 0x0A])) setter wb d"
proof -
  obtain c q where p: "p = c # q" using assms(2) by (cases p) auto
  have c: "c \<noteq> dquote" "signed_char c > 32" "c \<noteq> NUL" "c \<noteq> CHR ''#''"
    using assms(1,3,4) by (auto simp: p signed_char_def byte_def)
  have nl: "CHR 0x0A \<notin> set (p @ CHR '' '' # g @ w)" if "\<forall>c \<in> set g. byte c \<ge> 128" for g
    using assms(1,7) that by (auto simp: byte_def)
  have NULp: "NUL \<notin> set p" using assms(1) by (auto simp: byte_def)
  obtain wb1 where wb1: "write_at wb 0 (p @ [NUL]) = Some wb1" "length wb1 = kConfParserMaxParamSize" "copy_of wb1 = Some p"
    by (rule write_word [OF assms(10) NULp assms(5)])
  have N: "next_word wb (p @ CHR '' '' # m) = Some (wb1, CHR '' '' # m)" for m
    using copy_word_ok [of p kConfParserMaxParamSize "CHR '' ''" m] assms(1,5) c wb1(1)
    by (simp add: next_word_def GetWord_def p byte_def)
  have T: "read_values n wb1 (CHR '' '' # h @ m) = read_values n wb1 (CHR '' '' # m)" for n m
    using TrimLeft_high [OF assms(6), of m] by (cases n) simp_all
  have L: "parse_config_line allowNull setter (cstring (p @ CHR '' '' # h @ w @ [CHR 0x0A])) wb d =
      parse_config_line allowNull setter (cstring (p @ CHR '' '' # w @ [CHR 0x0A])) wb d"
    using N [of "h @ w @ [CHR 0x0A, NUL]"] N [of "w @ [CHR 0x0A, NUL]"] T [of _ "w @ [CHR 0x0A, NUL]"] c
    by (simp add: parse_config_line_def cstring_def p wb1(3))
  have F: "ParseConfigFile allowNull (Some (p @ CHR '' '' # g @ w @ [CHR 0x0A])) setter wb d =
      (case parse_config_line allowNull setter (cstring (p @ CHR '' '' # g @ w @ [CHR 0x0A])) wb d of
         None \<Rightarrow> None | Some (e, wb1, d1) \<Rightarrow> Some (e, d1))"
    if g: "\<forall>c \<in> set g. byte c \<ge> 128" "length g \<le> length h" for g
  proof -
    have "fgets (kConfParserMaxLineSize - 1) ((p @ CHR '' '' # g @ w) @ CHR 0x0A # []) = ((p @ CHR '' '' # g @ w) @ [CHR 0x0A], [], False)"
      by (rule fgets_line [OF nl [OF g(1)]]) (use assms(9) g(2) in simp)
    then show ?thesis
      by (simp add: ParseConfigFile_def) (subst config_loop.simps, auto simp: config_loop.simps [of _ _ _ "[]"] split: option.splits)
  qed
  show ?thesis using F [of h] F [of "[]"] L assms(6) by simp
qed

theorem high_bytes_lost_witness:
  "ParseConfigFile False (Some (''name '' @ [CHR 0xC3, CHR 0x89] @ ''t'' @ [CHR 0x0A])) ex_setter (replicate 512 NUL) [] =
     ParseConfigFile False (Some (''name '' @ ''t'' @ [CHR 0x0A])) ex_setter (replicate 512 NUL) []"
  using high_bytes_lost [of "''name''" "[CHR 0xC3, CHR 0x89]" "''t''" "replicate 512 NUL" False ex_setter "[]"]
  by (simp add: byte_def dquote_def kConfParserMaxParamSize_def kConfParserMaxLineSize_def)

text \<open>An empty parameter in quotes ends the process: the assertion that the word is not empty fails.\<close>

theorem empty_parameter_aborts:
  "length wb = kConfParserMaxParamSize \<Longrightarrow>
   ParseConfigFile allowNull (Some (dquote # dquote # CHR 0x0A # r)) setter wb d = None"
proof -
  assume wb: "length wb = kConfParserMaxParamSize"
  obtain wb1 where "next_word wb (quoted [] @ [CHR 0x0A, NUL]) = Some (wb1, [CHR 0x0A, NUL])" "copy_of wb1 = Some []"
    using next_word_quoted [OF wb, of "[]" "CHR 0x0A" "[NUL]"] by (auto simp: word_ok_def kConfParserMaxParamSize_def)
  then have "parse_config_line allowNull setter (cstring ([dquote, dquote] @ [CHR 0x0A])) wb d = None"
    by (simp add: parse_config_line_def cstring_def quoted_def escape_def)
  moreover have "fgets (kConfParserMaxLineSize - 1) ([dquote, dquote] @ CHR 0x0A # r) = ([dquote, dquote] @ [CHR 0x0A], r, False)"
    by (rule fgets_line) (simp_all add: kConfParserMaxLineSize_def)
  ultimately show ?thesis by (simp add: ParseConfigFile_def) (subst config_loop.simps, simp)
qed

theorem empty_parameter_aborts_witness:
  "ParseConfigFile True (Some [dquote, dquote, CHR 0x0A]) ex_setter (replicate 512 NUL) [] = None"
  using empty_parameter_aborts [of "replicate 512 NUL" True "[]" ex_setter "[]"] by (simp add: kConfParserMaxParamSize_def)

end
