(* ===== verification/CF_DateTranslator.thy ===== *)
theory CF_DateTranslator
  imports CF_HTTPHeader
begin

text \<open>
  Dates of HTTP: \<^verbatim>\<open>src/CFCore/DateTranslator.cpp\<close> and its header. A date is
  formatted by the C library's \<^verbatim>\<open>strftime\<close> in its default locale, which is written out
  here for the one format in use, and parsed with the scanner. The calendar of the C library, that is
  \<^verbatim>\<open>gmtime\<close>, \<^verbatim>\<open>mktime\<close> and the \<^verbatim>\<open>tm_gmtoff\<close> of \<^verbatim>\<open>localtime\<close>, and the
  clock are arguments. Milliseconds
  since 1970 are an \<^typ>\<open>int\<close>, as is every field of \<^verbatim>\<open>struct tm\<close>.
  \<^term>\<open>None\<close> is a failed assertion, an access outside of a block, or a character above 127
  given to \<^verbatim>\<open>toupper\<close>.
\<close>

section \<open>State\<close>

record tm =
  tm_sec :: int
  tm_min :: int
  tm_hour :: int
  tm_mday :: int
  tm_mon :: int
  tm_year :: int
  tm_wday :: int

definition tm_zero :: tm where
  "tm_zero = \<lparr>tm_sec = 0, tm_min = 0, tm_hour = 0, tm_mday = 0, tm_mon = 0, tm_year = 0, tm_wday = 0\<rparr>"

record DateBuffer =
  fDateBuffer :: mem
  fLastDateUpdate :: int

definition kUpdateInterval :: int where "kUpdateInterval = 60000"

text \<open>The buffer before its first character is set to zero has any contents.\<close>

definition DateBuffer_new :: "mem \<Rightarrow> DateBuffer" where
  "DateBuffer_new m = \<lparr>fDateBuffer = m[0 := NUL], fLastDateUpdate = 0\<rparr>"

section \<open>Parsing\<close>

definition kMonthHashTable :: "nat list" where
  "kMonthHashTable =
     [12, 12, 12, 12, 12, 12, 12, 12, 12, 11,
      1, 12, 12, 12, 12, 12, 12, 12, 12, 12,
      12, 12, 0, 12, 12, 12, 7, 12, 12, 2,
      12, 12, 3, 12, 12, 9, 4, 8, 12, 12,
      6, 12, 5, 12, 12, 12, 12, 12, 10, 12]"

definition kMonthHashTableSize :: UInt32 where "kMonthHashTableSize = 49"

definition convertCharToMonthTableIndex :: "char \<Rightarrow> UInt32 option" where
  "convertCharToMonthTableIndex c =
     (let b = byte c in
      if b \<ge> 128 then None
      else Some (of_int (int (if 97 \<le> b \<and> b \<le> 122 then b - 32 else b) - 65)))"

text \<open>The month with three given letters, 12 if there is none, and the month at the position of the scanner.\<close>

definition month_of :: "char \<Rightarrow> char \<Rightarrow> char \<Rightarrow> nat option" where
  "month_of c0 c1 c2 = do {
     i0 \<leftarrow> convertCharToMonthTableIndex c0;
     i1 \<leftarrow> convertCharToMonthTableIndex c1;
     i2 \<leftarrow> convertCharToMonthTableIndex c2;
     let theIndex = i0 + i1 + i2;
     Some (if theIndex > kMonthHashTableSize then 12 else kMonthHashTable ! unat theIndex)
   }"

definition month_at :: "StringParser \<Rightarrow> nat option" where
  "month_at p = do {
     m \<leftarrow> fObj p;
     c0 \<leftarrow> rd m (fStartGet p);
     c1 \<leftarrow> rd m (fStartGet p + 1);
     c2 \<leftarrow> rd m (fStartGet p + 2);
     month_of c0 c1 c2
   }"

text \<open>
  The offset of the time zone in whole hours (\<^verbatim>\<open>src/CFCore/Time.cpp\<close>): the offset in seconds that
  \<^verbatim>\<open>localtime\<close> gives for the start of 1970, divided by 3600 and truncated towards zero.
\<close>

definition GetGMTOffset :: "(int \<Rightarrow> int option) \<Rightarrow> int" where
  "GetGMTOffset localtime =
     (case localtime 0 of None \<Rightarrow> 0 | Some tm_gmtoff \<Rightarrow> sgn tm_gmtoff * (\<bar>tm_gmtoff\<bar> div 3600))"

definition ParseDate :: "(tm \<Rightarrow> int) \<Rightarrow> (int \<Rightarrow> int option) \<Rightarrow> StrPtrLen \<Rightarrow> int option" where
  "ParseDate mktime localtime inDateString =
     (if Len inDateString \<noteq> kDateBufferLen then Some 0
      else do {
        (_, p1) \<leftarrow> ConsumeLength (StringParser_new (Some inDateString)) 5;
        (mday, _, p2) \<leftarrow> ConsumeInteger p1;
        p3 \<leftarrow> ConsumeWhitespace p2;
        if GetDataRemaining p3 < 4 then Some 0
        else do {
          mon \<leftarrow> month_at p3;
          if mon \<ge> 12 then Some 0
          else do {
            (_, p4) \<leftarrow> ConsumeLength p3 4;
            (year, _, p5) \<leftarrow> ConsumeInteger p4;
            p6 \<leftarrow> ConsumeWhitespace p5;
            (hour, _, p7) \<leftarrow> ConsumeInteger p6;
            (_, p8) \<leftarrow> ConsumeLength p7 1;
            (minute, _, p9) \<leftarrow> ConsumeInteger p8;
            (_, p10) \<leftarrow> ConsumeLength p9 1;
            (sec, _, _) \<leftarrow> ConsumeInteger p10;
            Some (mktime (tm_zero\<lparr>tm_mday := sint mday, tm_mon := int mon, tm_year := sint (year - 1900),
                                  tm_hour := sint hour + GetGMTOffset localtime, tm_min := sint minute, tm_sec := sint sec\<rparr>) * 1000)
          }
        }
      })"

section \<open>Formatting\<close>

definition day_names :: "string list" where
  "day_names = [''Sun'', ''Mon'', ''Tue'', ''Wed'', ''Thu'', ''Fri'', ''Sat'']"

definition month_names :: "string list" where
  "month_names = [''Jan'', ''Feb'', ''Mar'', ''Apr'', ''May'', ''Jun'', ''Jul'', ''Aug'', ''Sep'', ''Oct'', ''Nov'', ''Dec'']"

definition two_digits :: "int \<Rightarrow> string" where
  "two_digits n = [char_of (48 + nat n div 10), char_of (48 + nat n mod 10)]"

text \<open>The format \<^verbatim>\<open>"%a, %d %b %Y %H:%M:%S GMT"\<close>.\<close>

definition date_text :: "tm \<Rightarrow> string" where
  "date_text t =
     day_names ! nat (tm_wday t) @ '', '' @ two_digits (tm_mday t) @ '' '' @ month_names ! nat (tm_mon t) @ '' '' @
     dec (nat (tm_year t + 1900)) @ '' '' @ two_digits (tm_hour t) @ '':'' @ two_digits (tm_min t) @ '':'' @
     two_digits (tm_sec t) @ '' GMT''"

text \<open>\<^verbatim>\<open>strftime\<close> gives the number of characters, or zero if they do not fit.\<close>

definition strftime_date :: "mem \<Rightarrow> nat \<Rightarrow> tm \<Rightarrow> (nat \<times> mem) option" where
  "strftime_date buf n t =
     (if length (date_text t) < n then do { m \<leftarrow> write_at buf 0 (date_text t @ [NUL]); Some (length (date_text t), m) }
      else Some (0, buf))"

text \<open>Integer division of C truncates towards zero.\<close>

definition UpdateDateBuffer ::
  "(int \<Rightarrow> tm option) \<Rightarrow> int \<Rightarrow> DateBuffer option \<Rightarrow> int \<Rightarrow> int \<Rightarrow> DateBuffer option option" where
  "UpdateDateBuffer gmtime time inDateBuffer inDate gmtoffset =
     (case inDateBuffer of None \<Rightarrow> Some None
      | Some d \<Rightarrow> do {
          let t = (if inDate = 0 then time else sgn inDate * (\<bar>inDate\<bar> div 1000)) + gmtoffset;
          gmt \<leftarrow> gmtime t;
          (size, m) \<leftarrow> (if gmtoffset = 0 then strftime_date (fDateBuffer d) (kDateBufferLen + 2) gmt
                       else Some (0, fDateBuffer d));
          Assert (size = kDateBufferLen);
          Some (Some (d\<lparr>fDateBuffer := m\<rparr>))
        })"

definition InexactUpdate :: "(int \<Rightarrow> tm option) \<Rightarrow> int \<Rightarrow> int \<Rightarrow> DateBuffer \<Rightarrow> DateBuffer option" where
  "InexactUpdate gmtime time theCurTime d =
     (if fLastDateUpdate d = 0 \<or> fLastDateUpdate d + kUpdateInterval < theCurTime
      then do {
        r \<leftarrow> UpdateDateBuffer gmtime time (Some (d\<lparr>fLastDateUpdate := theCurTime\<rparr>)) 0 0;
        r
      }
      else Some d)"

definition GetDateBuffer :: "DateBuffer \<Rightarrow> mem" where
  "GetDateBuffer d = fDateBuffer d"

section \<open>Numbers in a date\<close>

lemma is_digit_char_of [simp]: "n < 10 \<Longrightarrow> is_digit (char_of (48 + n))" "n < 10 \<Longrightarrow> byte (char_of (48 + n)) = 48 + n"
  by (simp_all add: is_digit_def byte_def)

lemma two_digits_ok:
  assumes "0 \<le> n" "n < 100"
  shows "\<forall>c \<in> set (two_digits n). is_digit c" "length (two_digits n) = 2"
    "foldl (\<lambda>a c. a * 10 + (byte c - 48)) 0 (two_digits n) = nat n"
  using assms by (auto simp: two_digits_def)

lemma dec_ok: "\<forall>c \<in> set (dec n). is_digit c"
  using dec_digits [of n] by (simp add: is_digit_def)

text \<open>An integer that ends at a character other than a digit.\<close>

lemma ConsumeInteger_text:
  assumes "parser_ok p m" "remaining p = ds @ x # r" "\<forall>c \<in> set ds. is_digit c" "\<not> is_digit x"
    and "foldl (\<lambda>a c. a * 10 + (byte c - 48)) 0 ds = n" "n < 2 ^ 31"
  obtains v out p' where "ConsumeInteger p = Some (v, out, p')" "parser_ok p' m" "remaining p' = x # r" "sint v = int n" "unat v = n"
proof (rule ConsumeIntegerE [OF assms(1)])
  fix v out p'
  assume a: "ConsumeInteger p = Some (v, out, p')" "parser_ok p' m" "remaining p' = dropWhile is_digit (remaining p)"
    "unat v = foldl (\<lambda>a c. a * 10 + (byte c - 48)) 0 (takeWhile is_digit (remaining p)) mod 2 ^ 32"
  have u: "unat v = n" using a(4) assms(2-6) by (simp add: takeWhile_stop)
  have "remaining p' = x # r" using a(3) assms(2-4) by (simp add: dropWhile_stop)
  moreover have "sint v = int n"
  proof -
    have "v = of_nat n" using u assms(6) by (simp add: word_unat_eq_iff unat_of_nat)
    then show ?thesis using assms(6) by (simp add: signed_of_nat signed_take_bit_int_eq_self)
  qed
  ultimately show thesis using that a u by blast
qed

lemma ConsumeWhitespace_text:
  assumes "parser_ok p m" "remaining p = CHR '' '' # x # r" "\<not> space_char (byte x)"
  obtains p' where "ConsumeWhitespace p = Some p'" "parser_ok p' m" "remaining p' = x # r"
proof (rule ConsumeWhitespaceE [OF assms(1)])
  fix p'
  assume "ConsumeWhitespace p = Some p'" "parser_ok p' m" "remaining p' = dropWhile (\<lambda>x. space_char (byte x)) (remaining p)"
  moreover have "space_char (byte (CHR '' ''))" by (simp add: space_char_def byte_def)
  ultimately show thesis using that assms(2,3) by simp
qed

lemma month_names_ok: "\<forall>i \<in> set [0..<12]. month_names ! i = [month_names ! i ! 0, month_names ! i ! 1, month_names ! i ! 2] \<and>
    month_of (month_names ! i ! 0) (month_names ! i ! 1) (month_names ! i ! 2) = Some i"
  by code_simp

lemma month_at_text:
  assumes "parser_ok p m" "remaining p = month_names ! i @ r" "i < 12"
  shows "month_at p = Some i" "length (month_names ! i) = 3"
proof -
  let ?a = "month_names ! i ! 0" and ?b = "month_names ! i ! 1" and ?c = "month_names ! i ! 2"
  have n: "month_names ! i = [?a, ?b, ?c]" "month_of ?a ?b ?c = Some i" using month_names_ok assms(3) by auto
  show "length (month_names ! i) = 3" by (subst n(1)) simp
  have R: "remaining p = ?a # ?b # ?c # r" using assms(2) n(1) by (metis append_Cons append_Nil)
  have len: "fEndGet p - fStartGet p = Suc (Suc (Suc (length r)))" using length_remaining [OF assms(1)] R by simp
  have e: "fEndGet p \<le> length m" "fStartGet p \<le> fEndGet p" using assms(1) by (auto simp: parser_ok_def guarded_def)
  have "m ! (fStartGet p + j) = remaining p ! j \<and> fStartGet p + j < length m" if "j < 3" for j
    using remaining_eq [OF assms(1)] len e that by auto
  from this [of 0] this [of 1] this [of 2]
  have "rd m (fStartGet p) = Some ?a" "rd m (fStartGet p + 1) = Some ?b" "rd m (fStartGet p + 2) = Some ?c" by (simp_all add: R)
  then show "month_at p = Some i" using assms(1) n(2) by (simp add: month_at_def parser_ok_def)
qed

section \<open>Dates that are read back\<close>

definition date_ok :: "tm \<Rightarrow> bool" where
  "date_ok t \<longleftrightarrow> 0 \<le> tm_wday t \<and> tm_wday t < 7 \<and> 1 \<le> tm_mday t \<and> tm_mday t \<le> 31 \<and> 0 \<le> tm_mon t \<and> tm_mon t < 12 \<and>
     -900 \<le> tm_year t \<and> tm_year t \<le> 8099 \<and> 0 \<le> tm_hour t \<and> tm_hour t < 24 \<and> 0 \<le> tm_min t \<and> tm_min t < 60 \<and>
     0 \<le> tm_sec t \<and> tm_sec t \<le> 60"

lemma length_dec_4:
  assumes "1000 \<le> n" "n < 10000"
  shows "length (dec n) = 4"
proof -
  have "length (dec n) \<le> 4" using length_dec [of n 4] assms(2) by simp
  moreover have "\<not> length (dec n) \<le> 3"
  proof
    assume l: "length (dec n) \<le> 3"
    have v: "foldl (\<lambda>a c. a * 10 + (byte c - 48)) 0 ds < 10 ^ length ds" if "\<forall>c \<in> set ds. is_digit c" for ds
      using that
    proof (induction ds rule: rev_induct)
      case (snoc c ds)
      then have "foldl (\<lambda>a c. a * 10 + (byte c - 48)) 0 ds < 10 ^ length ds" "byte c \<le> 57" by (auto simp: is_digit_def)
      then show ?case by simp
    qed simp
    have "n < 10 ^ length (dec n)" using v [OF dec_ok [of n]] unfolding dec_value .
    also have "(10 :: nat) ^ length (dec n) \<le> 10 ^ 3" using l by (intro power_increasing) simp_all
    finally show False using assms(1) by simp
  qed
  ultimately show ?thesis by linarith
qed

lemma name_lengths: "i < 7 \<Longrightarrow> length (day_names ! i) = 3" "j < 12 \<Longrightarrow> length (month_names ! j) = 3"
proof -
  have "\<forall>x \<in> set day_names. length x = 3" "length day_names = 7" by (simp_all add: day_names_def)
  then show "i < 7 \<Longrightarrow> length (day_names ! i) = 3" by (metis nth_mem)
  have "\<forall>x \<in> set month_names. length x = 3" "length month_names = 12" by (simp_all add: month_names_def)
  then show "j < 12 \<Longrightarrow> length (month_names ! j) = 3" by (metis nth_mem)
qed

lemma length_date_text:
  assumes "date_ok t"
  shows "length (date_text t) = kDateBufferLen"
proof -
  have "length (day_names ! nat (tm_wday t)) = 3" "length (month_names ! nat (tm_mon t)) = 3"
    using assms by (auto simp: date_ok_def intro!: name_lengths)
  moreover have "length (dec (nat (tm_year t + 1900))) = 4" using assms by (intro length_dec_4) (auto simp: date_ok_def)
  ultimately show ?thesis by (simp add: date_text_def two_digits_def kDateBufferLen_def)
qed

text \<open>A number of two digits and the separator behind it.\<close>

lemma two_digits_text:
  assumes "parser_ok p m" "remaining p = two_digits n @ x # r" "0 \<le> n" "n < 100" "\<not> is_digit x"
  obtains v out p' where "ConsumeInteger p = Some (v, out, p')" "parser_ok p' m" "remaining p' = x # r" "sint v = n"
proof (rule ConsumeInteger_text [OF assms(1,2) two_digits_ok(1) assms(5) two_digits_ok(3)])
  fix v out p'
  assume "ConsumeInteger p = Some (v, out, p')" "parser_ok p' m" "remaining p' = x # r" "sint v = int (nat n)"
  then show thesis using that assms(3) by simp
qed (use assms in simp_all)

lemma skip_one:
  assumes "parser_ok p m" "remaining p = x # r"
  obtains out p' where "ConsumeLength p 1 = Some (out, p')" "parser_ok p' m" "remaining p' = r"
proof (rule ConsumeLength1E [OF assms(1)])
  fix out p'
  assume "ConsumeLength p 1 = Some (out, p')" "parser_ok p' m" "remaining p' = drop 1 (remaining p)"
  then show thesis using that assms(2) by simp
qed

lemma skip_n:
  assumes "parser_ok p m" "0 < n" "n \<le> 32767" "remaining p = a @ r" "length a = n"
  obtains out p' where "ConsumeLength p (int n) = Some (out, p')" "parser_ok p' m" "remaining p' = r"
proof (rule ConsumeLengthE [OF assms(1-3)])
  fix out p'
  assume "ConsumeLength p (int n) = Some (out, p')" "parser_ok p' m" "remaining p' = drop n (remaining p)"
  then show thesis using that assms(4,5) by simp
qed

lemma ParseDate_ok:
  assumes "stream_ok s m" "str s = date_text t" "date_ok t"
  shows "ParseDate mktime localtime s = Some (mktime (t\<lparr>tm_wday := 0, tm_hour := tm_hour t + GetGMTOffset localtime\<rparr>) * 1000)"
proof -
  let ?off = "GetGMTOffset localtime"
  let ?day = "day_names ! nat (tm_wday t)" and ?mon = "month_names ! nat (tm_mon t)" and ?y = "dec (nat (tm_year t + 1900))"
  let ?r6 = "two_digits (tm_hour t) @ CHR '':'' # two_digits (tm_min t) @ CHR '':'' # two_digits (tm_sec t) @ CHR '' '' # ''GMT''"
  let ?r4 = "?y @ CHR '' '' # ?r6"
  let ?r3 = "?mon @ CHR '' '' # ?r4"
  have r: "0 \<le> tm_mday t" "tm_mday t < 100" "0 \<le> tm_hour t" "tm_hour t < 100" "0 \<le> tm_min t" "tm_min t < 100" "0 \<le> tm_sec t"
    "tm_sec t < 100" "nat (tm_mon t) < 12" "nat (tm_wday t) < 7" "nat (tm_year t + 1900) < 2 ^ 31" "0 \<le> tm_mon t" "0 \<le> tm_year t + 1900"
    "nat (tm_year t + 1900) < 10000"
    using assms(3) by (auto simp: date_ok_def)
  have len: "Len s = kDateBufferLen"
  proof -
    have "length (str s) = Len s" using assms(1) by (auto simp: stream_ok_def str_def)
    then show ?thesis using length_date_text [OF assms(3)] assms(2) by simp
  qed
  have nd: "\<not> is_digit (CHR '' '')" "\<not> is_digit (CHR '':'')" by (simp_all add: is_digit_def byte_def)
  have T: "str s = (?day @ '', '') @ two_digits (tm_mday t) @ CHR '' '' # ?r3" by (simp add: assms(2) date_text_def)
  have nm: "length ?mon = 3" "length (?day @ '', '') = 5" using name_lengths r(9,10) by simp_all
  obtain c0 mr where mon: "?mon = c0 # mr" "\<not> space_char (byte c0)"
  proof -
    have "\<forall>x \<in> set month_names. x \<noteq> [] \<and> \<not> space_char (byte (hd x))" by (simp add: month_names_def space_char_def byte_def)
    moreover have "?mon \<in> set month_names"
    proof (rule nth_mem)
      have "length month_names = 12" by (simp add: month_names_def)
      then show "nat (tm_mon t) < length month_names" using r(9) by (simp only:)
    qed
    ultimately have "?mon \<noteq> []" "\<not> space_char (byte (hd ?mon))" by blast+
    then show thesis using that [of "hd ?mon" "tl ?mon"] by simp
  qed
  have hd: "\<not> space_char (byte (hd d))" if "\<forall>c \<in> set d. is_digit c" "d \<noteq> []" for d
    using that by (cases d) (auto simp: is_digit_def space_char_def)
  note p0 = StringParser_new_ok [OF assms(1)]
  obtain o1 p1 where 1: "ConsumeLength (StringParser_new (Some s)) (int 5) = Some (o1, p1)" "parser_ok p1 m"
    "remaining p1 = two_digits (tm_mday t) @ CHR '' '' # ?r3"
    by (rule skip_n [OF p0(1) _ _ p0(2) [unfolded T] nm(2)]) simp_all
  obtain v2 o2 p2 where 2: "ConsumeInteger p1 = Some (v2, o2, p2)" "parser_ok p2 m" "remaining p2 = CHR '' '' # ?r3" "sint v2 = tm_mday t"
    by (rule two_digits_text [OF 1(2,3) r(1,2) nd(1)])
  obtain p3 where 3: "ConsumeWhitespace p2 = Some p3" "parser_ok p3 m" "remaining p3 = ?r3"
  proof (rule ConsumeWhitespace_text [OF 2(2), of c0 "mr @ CHR '' '' # ?r4"])
    show "remaining p2 = CHR '' '' # c0 # mr @ CHR '' '' # ?r4" unfolding 2(3) by (simp only: mon(1) append_Cons)
    fix p' assume "ConsumeWhitespace p2 = Some p'" "parser_ok p' m" "remaining p' = c0 # mr @ CHR '' '' # ?r4"
    then show thesis using that [of p'] by (simp only: mon(1) append_Cons)
  qed (rule mon(2))
  have g: "\<not> GetDataRemaining p3 < 4" using GetDataRemaining_ok [OF 3(2)] nm(1) by (simp add: 3(3))
  note m3 = month_at_text [OF 3(2,3) r(9)]
  obtain o4 p4 where 4: "ConsumeLength p3 (int 4) = Some (o4, p4)" "parser_ok p4 m" "remaining p4 = ?r4"
  proof (rule skip_n [OF 3(2), of 4 "?mon @ '' ''" ?r4])
    show "remaining p3 = (?mon @ '' '') @ ?r4" unfolding 3(3) by simp
    fix out p' assume "ConsumeLength p3 (int 4) = Some (out, p')" "parser_ok p' m" "remaining p' = ?r4"
    then show thesis by (rule that)
  qed (use nm(1) in simp_all)
  obtain v5 o5 p5 where 5: "ConsumeInteger p4 = Some (v5, o5, p5)" "parser_ok p5 m" "remaining p5 = CHR '' '' # ?r6"
    "unat v5 = nat (tm_year t + 1900)"
    by (rule ConsumeInteger_text [OF 4(2,3) dec_ok nd(1) dec_value r(11)])
  obtain h0 hr where h: "two_digits (tm_hour t) = h0 # hr" "\<not> space_char (byte h0)"
    using hd [OF two_digits_ok(1) [OF r(3,4)]] by (auto simp: two_digits_def)
  obtain p6 where 6: "ConsumeWhitespace p5 = Some p6" "parser_ok p6 m" "remaining p6 = ?r6"
  proof (rule ConsumeWhitespace_text [OF 5(2), of h0 "hr @ CHR '':'' # two_digits (tm_min t) @ CHR '':'' # two_digits (tm_sec t) @ CHR '' '' # ''GMT''"])
    show "remaining p5 = CHR '' '' # h0 # hr @ CHR '':'' # two_digits (tm_min t) @ CHR '':'' # two_digits (tm_sec t) @ CHR '' '' # ''GMT''"
      unfolding 5(3) by (simp only: h(1) append_Cons)
    fix p' assume "ConsumeWhitespace p5 = Some p'" "parser_ok p' m"
      "remaining p' = h0 # hr @ CHR '':'' # two_digits (tm_min t) @ CHR '':'' # two_digits (tm_sec t) @ CHR '' '' # ''GMT''"
    then show thesis using that [of p'] by (simp only: h(1) append_Cons)
  qed (rule h(2))
  obtain v7 o7 p7 where 7: "ConsumeInteger p6 = Some (v7, o7, p7)" "parser_ok p7 m"
    "remaining p7 = CHR '':'' # two_digits (tm_min t) @ CHR '':'' # two_digits (tm_sec t) @ CHR '' '' # ''GMT''" "sint v7 = tm_hour t"
    by (rule two_digits_text [OF 6(2,3) r(3,4) nd(2)])
  obtain o8 p8 where 8: "ConsumeLength p7 1 = Some (o8, p8)" "parser_ok p8 m"
    "remaining p8 = two_digits (tm_min t) @ CHR '':'' # two_digits (tm_sec t) @ CHR '' '' # ''GMT''" by (rule skip_one [OF 7(2,3)])
  obtain v9 o9 p9 where 9: "ConsumeInteger p8 = Some (v9, o9, p9)" "parser_ok p9 m"
    "remaining p9 = CHR '':'' # two_digits (tm_sec t) @ CHR '' '' # ''GMT''" "sint v9 = tm_min t"
    by (rule two_digits_text [OF 8(2,3) r(5,6) nd(2)])
  obtain o10 p10 where 10: "ConsumeLength p9 1 = Some (o10, p10)" "parser_ok p10 m"
    "remaining p10 = two_digits (tm_sec t) @ CHR '' '' # ''GMT''" by (rule skip_one [OF 9(2,3)])
  obtain v11 o11 p11 where 11: "ConsumeInteger p10 = Some (v11, o11, p11)" "sint v11 = tm_sec t"
    by (rule two_digits_text [OF 10(2,3) r(7,8) nd(1)]) blast
  have y: "sint (v5 - 1900) = tm_year t"
  proof -
    have "v5 = of_nat (nat (tm_year t + 1900))" using 5(4) r(14) by (simp add: word_unat_eq_iff unat_of_nat)
    then have "v5 = word_of_int (tm_year t + 1900)" using r(13) by simp
    then have "v5 - 1900 = word_of_int (tm_year t)" by simp
    then show ?thesis using r(13,14) by (simp add: signed_of_int signed_take_bit_int_eq_self)
  qed
  have "tm_zero\<lparr>tm_mday := sint v2, tm_mon := int (nat (tm_mon t)), tm_year := sint (v5 - 1900), tm_hour := sint v7 + ?off,
      tm_min := sint v9, tm_sec := sint v11\<rparr> = t\<lparr>tm_wday := 0, tm_hour := tm_hour t + ?off\<rparr>"
    using 2(4) r(12) y 7(4) 9(4) 11(2) by (simp add: tm_zero_def)
  then show ?thesis
    using len 1(1) 2(1) 3(1) g m3(1) r(9) 4(1) 5(1) 6(1) 7(1) 8(1) 9(1) 10(1) 11(1) by (simp add: ParseDate_def)
qed

text \<open>A date buffer that is filled.\<close>

lemma UpdateDateBuffer_ok:
  assumes "gmtime (if inDate = 0 then time else sgn inDate * (\<bar>inDate\<bar> div 1000)) = Some t" "date_ok t"
    and "length (fDateBuffer d) = kDateBufferLen + 2"
  shows "\<exists>m. UpdateDateBuffer gmtime time (Some d) inDate 0 = Some (Some (d\<lparr>fDateBuffer := m\<rparr>)) \<and>
    length m = kDateBufferLen + 2 \<and> take kDateBufferLen m = date_text t \<and> m ! kDateBufferLen = NUL"
proof -
  have l: "length (date_text t) = kDateBufferLen" by (rule length_date_text [OF assms(2)])
  let ?m = "(date_text t @ [NUL]) @ drop (Suc kDateBufferLen) (fDateBuffer d)"
  have w: "write_at (fDateBuffer d) 0 (date_text t @ [NUL]) = Some ?m" using l assms(3) by (simp add: write_at_def)
  have "UpdateDateBuffer gmtime time (Some d) inDate 0 = Some (Some (d\<lparr>fDateBuffer := ?m\<rparr>))"
    using assms(1) l w by (simp add: UpdateDateBuffer_def strftime_date_def)
  moreover have "length ?m = kDateBufferLen + 2" "take kDateBufferLen ?m = date_text t" "?m ! kDateBufferLen = NUL"
    using l assms(3) by (simp_all add: nth_append)
  ultimately show ?thesis by blast
qed

section \<open>Properties\<close>

text \<open>C28: A date that was written to a date buffer is read back, before and after 1970: the buffer holds the 29
  characters of the date and a zero byte, and parsing them gives the same point in time to the second, for every
  time other than 0 (which stands for now) whose calendar date has a year of four digits, in a time zone that is as
  many whole hours from GMT as it was at the start of 1970. In any other zone, for example one with a half hour, the result is off by the
  difference, since GetGMTOffset cuts off the offset of 1970 to hours. The calendar of the C library is an argument:
  mktime takes a time of a zone that is g seconds east of GMT and accepts hours out of range.\<close>

theorem date_roundtrip:
  assumes "inDate \<noteq> 0" "secs = sgn inDate * (\<bar>inDate\<bar> div 1000)" "gmtime secs = Some t" "date_ok t"
    and "length (fDateBuffer d) = kDateBufferLen + 2"
    and "\<And>h. mktime (t\<lparr>tm_wday := 0, tm_hour := tm_hour t + h\<rparr>) = secs + 3600 * h - g"
  shows "\<exists>d'. UpdateDateBuffer gmtime time (Some d) inDate 0 = Some (Some d') \<and>
    take kDateBufferLen (GetDateBuffer d') = date_text t \<and> GetDateBuffer d' ! kDateBufferLen = NUL \<and>
    ParseDate mktime localtime \<lparr>Ptr = Some (GetDateBuffer d'), Len = kDateBufferLen\<rparr> =
      Some (secs * 1000 + (3600 * GetGMTOffset localtime - g) * 1000)"
proof -
  have g: "gmtime (if inDate = 0 then time else sgn inDate * (\<bar>inDate\<bar> div 1000)) = Some t" using assms(1-3) by simp
  obtain m where m: "UpdateDateBuffer gmtime time (Some d) inDate 0 = Some (Some (d\<lparr>fDateBuffer := m\<rparr>))"
    "length m = kDateBufferLen + 2" "take kDateBufferLen m = date_text t" "m ! kDateBufferLen = NUL"
    using UpdateDateBuffer_ok [of gmtime, OF g assms(4,5)] by blast
  let ?s = "\<lparr>Ptr = Some m, Len = kDateBufferLen\<rparr>"
  have "stream_ok ?s m" "str ?s = date_text t" using m(2,3) by (simp_all add: stream_ok_def str_def)
  from ParseDate_ok [OF this assms(4), of mktime localtime]
  have "ParseDate mktime localtime ?s = Some ((secs + 3600 * GetGMTOffset localtime - g) * 1000)" unfolding assms(6) .
  then show ?thesis using m(1,3,4) by (auto simp: GetDateBuffer_def algebra_simps)
qed

text \<open>04 Nov 1996 21:42:17, and a calendar that knows this one day, in two zones: one hour, and five and a half hours
  east of GMT.\<close>

definition ex_tm :: tm where
  "ex_tm = \<lparr>tm_sec = 17, tm_min = 42, tm_hour = 21, tm_mday = 4, tm_mon = 10, tm_year = 96, tm_wday = 1\<rparr>"

definition ex_gmtime :: "int \<Rightarrow> tm option" where
  "ex_gmtime n = (if n = 847143737 then Some ex_tm else None)"

definition ex_mktime :: "int \<Rightarrow> tm \<Rightarrow> int" where
  "ex_mktime g t = (if t\<lparr>tm_hour := 21\<rparr> = ex_tm\<lparr>tm_wday := 0\<rparr> then 847143737 + 3600 * (tm_hour t - 21) - g else -1)"

theorem date_roundtrip_witness:
  "\<exists>d' d2. UpdateDateBuffer ex_gmtime 0 (Some (DateBuffer_new (replicate 31 (CHR ''?'')))) 847143737456 0 = Some (Some d') \<and>
     take 29 (GetDateBuffer d') = ''Mon, 04 Nov 1996 21:42:17 GMT'' \<and>
     ParseDate (ex_mktime 3600) (\<lambda>_. Some 3600) \<lparr>Ptr = Some (GetDateBuffer d'), Len = 29\<rparr> = Some 847143737000 \<and>
     ParseDate (ex_mktime 19800) (\<lambda>_. Some 19800) \<lparr>Ptr = Some (GetDateBuffer d2), Len = 29\<rparr> = Some (847143737000 - 1800000)"
proof -
  have t: "date_text ex_tm = ''Mon, 04 Nov 1996 21:42:17 GMT''" by code_simp
  have ok: "date_ok ex_tm" by (simp add: date_ok_def ex_tm_def)
  have n: "(847143737456 :: int) \<noteq> 0" "847143737 = sgn (847143737456 :: int) * (\<bar>847143737456\<bar> div 1000)" by simp_all
  have c: "ex_gmtime 847143737 = Some ex_tm" by (simp add: ex_gmtime_def)
  have l: "length (fDateBuffer (DateBuffer_new (replicate 31 (CHR ''?'')))) = kDateBufferLen + 2"
    by (simp add: DateBuffer_new_def kDateBufferLen_def)
  have z: "ex_mktime g (ex_tm\<lparr>tm_wday := 0, tm_hour := tm_hour ex_tm + h\<rparr>) = 847143737 + 3600 * h - g" for g h
    by (simp add: ex_mktime_def ex_tm_def)
  have o: "GetGMTOffset (\<lambda>_. Some 3600) = 1" "GetGMTOffset (\<lambda>_. Some 19800) = 5" by (simp_all add: GetGMTOffset_def)
  from date_roundtrip [where gmtime = ex_gmtime and secs = 847143737 and t = ex_tm and mktime = "ex_mktime 3600" and g = 3600 and time = 0 and localtime = "\<lambda>_. Some 3600", OF n c ok l z]
    date_roundtrip [where gmtime = ex_gmtime and secs = 847143737 and t = ex_tm and mktime = "ex_mktime 19800" and g = 19800 and time = 0 and localtime = "\<lambda>_. Some 19800", OF n c ok l z]
  show ?thesis
    unfolding o t by (auto simp: kDateBufferLen_def)
qed

text \<open>An update with an offset to GMT always fails its assertion: the format is only applied
  when the offset is zero, and no characters count as a wrong length.\<close>

theorem UpdateDateBuffer_offset:
  "gmtoffset \<noteq> 0 \<Longrightarrow> UpdateDateBuffer gmtime time (Some d) inDate gmtoffset = None"
  by (simp add: UpdateDateBuffer_def kDateBufferLen_def split: Option.bind_splits)

theorem UpdateDateBuffer_offset_witness:
  "UpdateDateBuffer ex_gmtime 0 (Some (DateBuffer_new (replicate 31 NUL))) 847140137000 3600 = None"
  by (rule UpdateDateBuffer_offset) simp

text \<open>The date of a response header is at most a minute old: after an inexact update at a time \<open>cur\<close>
  the buffer was updated at most \<^verbatim>\<open>kUpdateInterval\<close> milliseconds before \<open>cur\<close>, and it is a full
  date whenever it was one before or is written now.\<close>

theorem InexactUpdate_fresh:
  assumes "length (fDateBuffer d) = kDateBufferLen + 2" "fLastDateUpdate d \<le> cur" "gmtime time = Some t" "date_ok t"
  shows "\<exists>d'. InexactUpdate gmtime time cur d = Some d' \<and> cur - fLastDateUpdate d' \<le> kUpdateInterval \<and>
    fLastDateUpdate d' \<le> cur \<and> length (fDateBuffer d') = kDateBufferLen + 2 \<and>
    (if fLastDateUpdate d = 0 \<or> fLastDateUpdate d + kUpdateInterval < cur
     then take kDateBufferLen (fDateBuffer d') = date_text t \<and> fLastDateUpdate d' = cur else d' = d)"
proof (cases "fLastDateUpdate d = 0 \<or> fLastDateUpdate d + kUpdateInterval < cur")
  case True
  let ?d = "d\<lparr>fLastDateUpdate := cur\<rparr>"
  have g: "gmtime (if (0 :: int) = 0 then time else sgn 0 * (\<bar>0\<bar> div 1000)) = Some t" using assms(3) by simp
  obtain m where "UpdateDateBuffer gmtime time (Some ?d) 0 0 = Some (Some (?d\<lparr>fDateBuffer := m\<rparr>))"
    "length m = kDateBufferLen + 2" "take kDateBufferLen m = date_text t"
    using UpdateDateBuffer_ok [of gmtime, OF g assms(4), of ?d] assms(1) by auto
  then show ?thesis using True by (simp add: InexactUpdate_def kUpdateInterval_def)
next
  case False
  then show ?thesis using assms(1,2) by (simp add: InexactUpdate_def)
qed

theorem InexactUpdate_fresh_witness:
  "\<exists>d'. InexactUpdate ex_gmtime 847143737 60001 ((DateBuffer_new (replicate 31 NUL))\<lparr>fLastDateUpdate := 0\<rparr>) = Some d' \<and>
     fLastDateUpdate d' = 60001"
proof -
  let ?d = "(DateBuffer_new (replicate 31 NUL))\<lparr>fLastDateUpdate := 0\<rparr>"
  have "date_ok ex_tm" by (simp add: date_ok_def ex_tm_def)
  then show ?thesis using InexactUpdate_fresh [of ?d 60001 ex_gmtime 847143737 ex_tm]
    by (auto simp: ex_gmtime_def DateBuffer_new_def kDateBufferLen_def)
qed

end
