(* ===== verification/CF_MD5.thy ===== *)
theory CF_MD5
  imports CF_Def
begin

text \<open>
  The message digest MD5: \<^verbatim>\<open>src/CFBasic/md5.c\<close>. A context holds the chaining value, the
  number of bits so far as two 32-bit words, and the bytes that do not fill a block yet; all
  arithmetic is on 32-bit words. An input is the bytes that a call reads, so its length is the
  argument \<^verbatim>\<open>inputLen\<close>. The specification beside it pads the whole message and works off its
  blocks. \<^term>\<open>None\<close> is an access outside of a block.
\<close>

unbundle bit_operations_syntax

section \<open>The transformation of a block\<close>

type_synonym md5_state = "UInt32 \<times> UInt32 \<times> UInt32 \<times> UInt32"

definition S11 :: nat where "S11 = 7"
definition S12 :: nat where "S12 = 12"
definition S13 :: nat where "S13 = 17"
definition S14 :: nat where "S14 = 22"
definition S21 :: nat where "S21 = 5"
definition S22 :: nat where "S22 = 9"
definition S23 :: nat where "S23 = 14"
definition S24 :: nat where "S24 = 20"
definition S31 :: nat where "S31 = 4"
definition S32 :: nat where "S32 = 11"
definition S33 :: nat where "S33 = 16"
definition S34 :: nat where "S34 = 23"
definition S41 :: nat where "S41 = 6"
definition S42 :: nat where "S42 = 10"
definition S43 :: nat where "S43 = 15"
definition S44 :: nat where "S44 = 21"

definition md5_F :: "UInt32 \<Rightarrow> UInt32 \<Rightarrow> UInt32 \<Rightarrow> UInt32" where "md5_F x y z = (x AND y) OR (NOT x AND z)"
definition md5_G :: "UInt32 \<Rightarrow> UInt32 \<Rightarrow> UInt32 \<Rightarrow> UInt32" where "md5_G x y z = (x AND z) OR (y AND NOT z)"
definition md5_H :: "UInt32 \<Rightarrow> UInt32 \<Rightarrow> UInt32 \<Rightarrow> UInt32" where "md5_H x y z = x XOR y XOR z"
definition md5_I :: "UInt32 \<Rightarrow> UInt32 \<Rightarrow> UInt32 \<Rightarrow> UInt32" where "md5_I x y z = y XOR (x OR NOT z)"

definition ROTATE_LEFT :: "UInt32 \<Rightarrow> nat \<Rightarrow> UInt32" where
  "ROTATE_LEFT x n = push_bit n x OR drop_bit (32 - n) x"

definition FF :: "UInt32 \<Rightarrow> UInt32 \<Rightarrow> UInt32 \<Rightarrow> UInt32 \<Rightarrow> UInt32 \<Rightarrow> nat \<Rightarrow> UInt32 \<Rightarrow> UInt32" where
  "FF a b c d x s ac = ROTATE_LEFT (a + (md5_F b c d + x + ac)) s + b"
definition GG :: "UInt32 \<Rightarrow> UInt32 \<Rightarrow> UInt32 \<Rightarrow> UInt32 \<Rightarrow> UInt32 \<Rightarrow> nat \<Rightarrow> UInt32 \<Rightarrow> UInt32" where
  "GG a b c d x s ac = ROTATE_LEFT (a + (md5_G b c d + x + ac)) s + b"
definition HH :: "UInt32 \<Rightarrow> UInt32 \<Rightarrow> UInt32 \<Rightarrow> UInt32 \<Rightarrow> UInt32 \<Rightarrow> nat \<Rightarrow> UInt32 \<Rightarrow> UInt32" where
  "HH a b c d x s ac = ROTATE_LEFT (a + (md5_H b c d + x + ac)) s + b"
definition II :: "UInt32 \<Rightarrow> UInt32 \<Rightarrow> UInt32 \<Rightarrow> UInt32 \<Rightarrow> UInt32 \<Rightarrow> nat \<Rightarrow> UInt32 \<Rightarrow> UInt32" where
  "II a b c d x s ac = ROTATE_LEFT (a + (md5_I b c d + x + ac)) s + b"

text \<open>
  One step changes the first of the four variables; the next step takes them in the order
  \<open>d a b c\<close>. After four steps every variable is back in its place.
\<close>

definition md5_step ::
  "(UInt32 \<Rightarrow> UInt32 \<Rightarrow> UInt32 \<Rightarrow> UInt32 \<Rightarrow> UInt32 \<Rightarrow> nat \<Rightarrow> UInt32 \<Rightarrow> UInt32) \<Rightarrow>
   UInt32 list \<Rightarrow> nat \<times> nat \<times> UInt32 \<Rightarrow> md5_state \<Rightarrow> md5_state" where
  "md5_step f x = (\<lambda>(k, s, ac) (a, b, c, d). (d, f a b c d (x ! k) s ac, b, c))"

definition round_1 :: "UInt32 list \<Rightarrow> md5_state \<Rightarrow> md5_state" where
  "round_1 x = fold (md5_step FF x)
     [(0, S11, 0xd76aa478), (1, S12, 0xe8c7b756), (2, S13, 0x242070db), (3, S14, 0xc1bdceee),
      (4, S11, 0xf57c0faf), (5, S12, 0x4787c62a), (6, S13, 0xa8304613), (7, S14, 0xfd469501),
      (8, S11, 0x698098d8), (9, S12, 0x8b44f7af), (10, S13, 0xffff5bb1), (11, S14, 0x895cd7be),
      (12, S11, 0x6b901122), (13, S12, 0xfd987193), (14, S13, 0xa679438e), (15, S14, 0x49b40821)]"

definition round_2 :: "UInt32 list \<Rightarrow> md5_state \<Rightarrow> md5_state" where
  "round_2 x = fold (md5_step GG x)
     [(1, S21, 0xf61e2562), (6, S22, 0xc040b340), (11, S23, 0x265e5a51), (0, S24, 0xe9b6c7aa),
      (5, S21, 0xd62f105d), (10, S22, 0x2441453), (15, S23, 0xd8a1e681), (4, S24, 0xe7d3fbc8),
      (9, S21, 0x21e1cde6), (14, S22, 0xc33707d6), (3, S23, 0xf4d50d87), (8, S24, 0x455a14ed),
      (13, S21, 0xa9e3e905), (2, S22, 0xfcefa3f8), (7, S23, 0x676f02d9), (12, S24, 0x8d2a4c8a)]"

definition round_3 :: "UInt32 list \<Rightarrow> md5_state \<Rightarrow> md5_state" where
  "round_3 x = fold (md5_step HH x)
     [(5, S31, 0xfffa3942), (8, S32, 0x8771f681), (11, S33, 0x6d9d6122), (14, S34, 0xfde5380c),
      (1, S31, 0xa4beea44), (4, S32, 0x4bdecfa9), (7, S33, 0xf6bb4b60), (10, S34, 0xbebfbc70),
      (13, S31, 0x289b7ec6), (0, S32, 0xeaa127fa), (3, S33, 0xd4ef3085), (6, S34, 0x4881d05),
      (9, S31, 0xd9d4d039), (12, S32, 0xe6db99e5), (15, S33, 0x1fa27cf8), (2, S34, 0xc4ac5665)]"

definition round_4 :: "UInt32 list \<Rightarrow> md5_state \<Rightarrow> md5_state" where
  "round_4 x = fold (md5_step II x)
     [(0, S41, 0xf4292244), (7, S42, 0x432aff97), (14, S43, 0xab9423a7), (5, S44, 0xfc93a039),
      (12, S41, 0x655b59c3), (3, S42, 0x8f0ccc92), (10, S43, 0xffeff47d), (1, S44, 0x85845dd1),
      (8, S41, 0x6fa87e4f), (15, S42, 0xfe2ce6e0), (6, S43, 0xa3014314), (13, S44, 0x4e0811a1),
      (4, S41, 0xf7537e82), (11, S42, 0xbd3af235), (2, S43, 0x2ad7d2bb), (9, S44, 0xeb86d391)]"

text \<open>Words and bytes, the least significant byte first.\<close>

fun Decode :: "mem \<Rightarrow> UInt32 list" where
  "Decode (b0 # b1 # b2 # b3 # m) =
     (of_nat (byte b0) OR push_bit 8 (of_nat (byte b1)) OR push_bit 16 (of_nat (byte b2)) OR push_bit 24 (of_nat (byte b3))) # Decode m"
| "Decode _ = []"

definition byte_of :: "UInt32 \<Rightarrow> char" where
  "byte_of w = char_of (unat (w AND 0xff))"

definition Encode_word :: "UInt32 \<Rightarrow> mem" where
  "Encode_word w = [byte_of w, byte_of (drop_bit 8 w), byte_of (drop_bit 16 w), byte_of (drop_bit 24 w)]"

definition Encode :: "UInt32 list \<Rightarrow> mem" where
  "Encode ws = concat (map Encode_word ws)"

definition MD5Transform :: "md5_state \<Rightarrow> mem \<Rightarrow> md5_state" where
  "MD5Transform st block =
     (case st of (s0, s1, s2, s3) \<Rightarrow>
        let x = Decode block;
            (a, b, c, d) = round_4 x (round_3 x (round_2 x (round_1 x (s0, s1, s2, s3))))
        in (s0 + a, s1 + b, s2 + c, s3 + d))"

section \<open>Contexts\<close>

record MD5_CTX =
  ctx_state :: md5_state
  ctx_count :: "UInt32 \<times> UInt32"
  ctx_buffer :: mem

definition PADDING :: mem where
  "PADDING = char_of (0x80 :: nat) # replicate 63 NUL"

definition md5_start :: md5_state where
  "md5_start = (0x67452301, 0xefcdab89, 0x98badcfe, 0x10325476)"

definition MD5_Init :: "MD5_CTX \<Rightarrow> MD5_CTX" where
  "MD5_Init ctx = ctx\<lparr>ctx_state := md5_start, ctx_count := (0, 0)\<rparr>"

text \<open>The loop over full blocks; the index is an \<^verbatim>\<open>unsigned int\<close>, and its sum with 63 can wrap.\<close>

function transform_loop :: "md5_state \<Rightarrow> mem \<Rightarrow> nat \<Rightarrow> (md5_state \<times> nat) option" where
  "transform_loop st input i =
     (if u32 (i + 63) < length input
      then if i + 64 \<le> length input then transform_loop (MD5Transform st (take 64 (drop i input))) input (i + 64) else None
      else Some (st, i))"
  by pat_completeness auto

termination
  by (relation "measure (\<lambda>(st, input, i). length input - i)") auto

declare transform_loop.simps [simp del]

definition count_index :: "MD5_CTX \<Rightarrow> nat" where
  "count_index ctx = unat (drop_bit 3 (fst (ctx_count ctx)) AND 0x3f)"

definition MD5_Update :: "MD5_CTX \<Rightarrow> string \<Rightarrow> MD5_CTX option" where
  "MD5_Update ctx input = do {
     let index = count_index ctx;
     let n = (of_nat (length input) :: UInt32);
     let c0 = fst (ctx_count ctx) + push_bit 3 n;
     let c1 = (if c0 < push_bit 3 n then snd (ctx_count ctx) + 1 else snd (ctx_count ctx)) + drop_bit 29 n;
     let partLen = 64 - index;
     (st, i, buf, idx) \<leftarrow> (if partLen \<le> length input then do {
          buf \<leftarrow> write_at (ctx_buffer ctx) index (take partLen input);
          (st, i) \<leftarrow> transform_loop (MD5Transform (ctx_state ctx) buf) input partLen;
          Some (st, i, buf, 0)
        }
        else Some (ctx_state ctx, 0, ctx_buffer ctx, index));
     buf1 \<leftarrow> write_at buf idx (drop i input);
     Some \<lparr>ctx_state = st, ctx_count = (c0, c1), ctx_buffer = buf1\<rparr>
   }"

text \<open>The context after \<^verbatim>\<open>MD5_memset\<close>.\<close>

definition MD5_zero :: MD5_CTX where
  "MD5_zero = \<lparr>ctx_state = (0, 0, 0, 0), ctx_count = (0, 0), ctx_buffer = replicate 64 NUL\<rparr>"

definition MD5_Final :: "MD5_CTX \<Rightarrow> (mem \<times> MD5_CTX) option" where
  "MD5_Final ctx = do {
     let bits = Encode [fst (ctx_count ctx), snd (ctx_count ctx)];
     let index = count_index ctx;
     let padLen = (if index < 56 then 56 - index else 120 - index);
     ctx1 \<leftarrow> MD5_Update ctx (take padLen PADDING);
     ctx2 \<leftarrow> MD5_Update ctx1 bits;
     (case ctx_state ctx2 of (s0, s1, s2, s3) \<Rightarrow>
        Some (Encode [s0, s1, s2, s3], MD5_zero))
   }"

section \<open>Specification\<close>

text \<open>The digest of a message: pad it to a multiple of 64 bytes, the last eight of which hold its length
  in bits, and work off the blocks one after the other.\<close>

function absorb :: "md5_state \<Rightarrow> string \<Rightarrow> md5_state" where
  "absorb st m = (if length m < 64 then st else absorb (MD5Transform st (take 64 m)) (drop 64 m))"
  by pat_completeness auto

termination
  by (relation "measure (\<lambda>(st, m). length m)") auto

declare absorb.simps [simp del]

definition md5_padding :: "nat \<Rightarrow> string" where
  "md5_padding l =
     char_of (0x80 :: nat) # replicate ((119 - l mod 64) mod 64) NUL @
     Encode [of_nat (8 * l), of_nat (8 * l div 2 ^ 32)]"

definition md5 :: "string \<Rightarrow> string" where
  "md5 m = (case absorb md5_start (m @ md5_padding (length m)) of (s0, s1, s2, s3) \<Rightarrow> Encode [s0, s1, s2, s3])"

section \<open>Blocks and remainders\<close>

lemma absorb_short: "length m < 64 \<Longrightarrow> absorb st m = st"
  by (simp add: absorb.simps)

lemma absorb_block: "length b = 64 \<Longrightarrow> absorb st (b @ m) = absorb (MD5Transform st b) m"
  by (subst absorb.simps) simp

lemma absorb_append:
  assumes "64 dvd length a"
  shows "absorb st (a @ b) = absorb (absorb st a) b"
  using assms
proof (induction st a rule: absorb.induct)
  case (1 st a)
  show ?case
  proof (cases "a = []")
    case True
    then show ?thesis by (simp add: absorb_short)
  next
    case False
    then have l: "\<not> length a < 64" using 1(2) by (auto dest: dvd_imp_le)
    then obtain p q where a: "a = p @ q" "length p = 64" by (metis append_take_drop_id length_take min.absorb2 not_less)
    then have "64 dvd length q" using 1(2) by simp
    then have IH: "absorb (MD5Transform st p) (q @ b) = absorb (absorb (MD5Transform st p) q) b"
      using 1(1) l a by simp
    then show ?thesis using absorb_block [OF a(2), of st "q @ b"] absorb_block [OF a(2), of st q] a(1) by simp
  qed
qed

lemma transform_loop_ok:
  assumes "i \<le> length input" "length input + 64 < 2 ^ 32"
  shows "transform_loop st input i = Some (absorb st (drop i input), length input - (length input - i) mod 64)"
  using assms
proof (induction st input i rule: transform_loop.induct)
  case (1 st input i)
  have u: "u32 (i + 63) = i + 63" using 1(2,3) by simp
  show ?case
  proof (cases "i + 63 < length input")
    case True
    have "drop i input = take 64 (drop i input) @ drop (i + 64) input" by (metis add.commute append_take_drop_id drop_drop)
    then have "absorb st (drop i input) = absorb (MD5Transform st (take 64 (drop i input))) (drop (i + 64) input)"
      using absorb_block [of "take 64 (drop i input)" st "drop (i + 64) input"] True by simp
    moreover have "(length input - (i + 64)) mod 64 = (length input - i) mod 64"
    proof -
      have "length input - i = length input - (i + 64) + 64" using True by simp
      then show ?thesis by (metis mod_add_self2)
    qed
    ultimately show ?thesis using 1 True u by (subst transform_loop.simps) simp
  next
    case False
    then have "(length input - i) mod 64 = length input - i" using 1(2) by simp
    then show ?thesis using False u 1(2) by (subst transform_loop.simps) (simp add: absorb_short)
  qed
qed

text \<open>A context stands for the message that was fed to it.\<close>

definition count_of :: "nat \<Rightarrow> UInt32 \<times> UInt32" where
  "count_of l = (of_nat (8 * l), of_nat (8 * l div 2 ^ 32))"

definition represents :: "MD5_CTX \<Rightarrow> string \<Rightarrow> bool" where
  "represents ctx m \<longleftrightarrow>
     (\<exists>a t. m = a @ t \<and> 64 dvd length a \<and> length t < 64 \<and> ctx_state ctx = absorb md5_start a \<and>
        length (ctx_buffer ctx) = 64 \<and> take (length t) (ctx_buffer ctx) = t) \<and>
     ctx_count ctx = count_of (length m)"

lemma representsI:
  assumes "a @ t = m" "64 dvd length a" "length t < 64" "st = absorb md5_start a" "length buf = 64" "take (length t) buf = t"
  shows "represents \<lparr>ctx_state = st, ctx_count = count_of (length m), ctx_buffer = buf\<rparr> m"
  unfolding represents_def using assms by (intro conjI exI [of _ a] exI [of _ t]) simp_all

lemma represents_init: "length (ctx_buffer ctx) = 64 \<Longrightarrow> represents (MD5_Init ctx) []"
  by (simp add: represents_def MD5_Init_def count_of_def absorb_short)

lemma unat_eqD: "unat (w :: UInt32) = n \<Longrightarrow> w = of_nat n"
  by auto

lemma count_index_ok:
  assumes "ctx_count ctx = count_of l"
  shows "count_index ctx = l mod 64"
proof -
  have "drop_bit 3 (of_nat (8 * l) :: UInt32) AND 0x3f = of_nat (8 * l mod 2 ^ 32 div 8 mod 64)"
  proof -
    have "(0x3f :: UInt32) = mask 6" by (simp add: mask_eq_exp_minus_1)
    then have "drop_bit 3 (of_nat (8 * l) :: UInt32) AND 0x3f = take_bit 6 (drop_bit 3 (of_nat (8 * l)))" by (simp add: take_bit_eq_mask)
    moreover have "unat (take_bit 6 (drop_bit 3 (of_nat (8 * l) :: UInt32))) = 8 * l mod 2 ^ 32 div 8 mod 64"
      by (simp only: unsigned_take_bit_eq unat_drop_bit_eq unat_of_nat) (simp add: take_bit_eq_mod drop_bit_eq_div)
    ultimately have "unat (drop_bit 3 (of_nat (8 * l) :: UInt32) AND 0x3f) = 8 * l mod 2 ^ 32 div 8 mod 64" by simp
    then show ?thesis by (rule unat_eqD)
  qed
  moreover have "8 * l mod 2 ^ 32 div 8 mod 64 = l mod 64"
  proof -
    have "8 * l mod 2 ^ 32 = 8 * (l mod 2 ^ 29)" using mult_mod_right [of 8 l "2 ^ 29"] by simp
    then show ?thesis by (simp add: mod_mod_cancel)
  qed
  moreover have "unat (of_nat (l mod 64) :: UInt32) = l mod 64" by (simp add: unat_of_nat)
  ultimately show ?thesis using assms by (simp add: count_index_def count_of_def)
qed

lemma wrap_add:
  fixes x y M :: nat
  assumes "x < M" "y < M"
  shows "(x + y) mod M < y \<longleftrightarrow> M \<le> x + y" "(x + y) div M = (if M \<le> x + y then 1 else 0)"
proof -
  have r: "x + y - M < M" using assms by linarith
  have "(x + y) mod M = x + y - M" "(x + y) div M = 1" if "M \<le> x + y"
    using le_mod_geq [OF that] le_div_geq [OF _ that] r assms by simp_all
  moreover have "(x + y) mod M = x + y" "(x + y) div M = 0" if "\<not> M \<le> x + y" using that by simp_all
  ultimately show "(x + y) mod M < y \<longleftrightarrow> M \<le> x + y" "(x + y) div M = (if M \<le> x + y then 1 else 0)"
    using assms by (cases "M \<le> x + y"; simp; linarith?)+
qed

lemma count_carry:
  fixes l n :: nat
  assumes "n < 2 ^ 32"
  defines "k \<equiv> push_bit 3 (of_nat n :: UInt32)"
  shows "(of_nat (8 * l) + k,
      (if of_nat (8 * l) + k < k then of_nat (8 * l div 2 ^ 32) + 1 else of_nat (8 * l div 2 ^ 32)) + drop_bit 29 (of_nat n)) = count_of (l + n)"
proof -
  have k: "k = of_nat (8 * n)" by (simp add: k_def push_bit_eq_mult)
  have s: "of_nat (8 * l) + k = of_nat (8 * (l + n))" unfolding k by (simp only: distrib_left of_nat_add)
  have d: "drop_bit 29 (of_nat n :: UInt32) = of_nat (8 * n div 2 ^ 32)"
  proof -
    have "unat (drop_bit 29 (of_nat n :: UInt32)) = 8 * n div 2 ^ 32"
      using assms(1) by (simp only: unat_drop_bit_eq unat_of_nat) (simp add: drop_bit_eq_div)
    then show ?thesis by (rule unat_eqD)
  qed
  have c: "of_nat (8 * l) + k < k \<longleftrightarrow> 2 ^ 32 \<le> 8 * l mod 2 ^ 32 + 8 * n mod 2 ^ 32"
  proof -
    let ?x = "8 * l mod 2 ^ 32" and ?y = "8 * n mod 2 ^ 32"
    have b: "?x < 2 ^ 32" "?y < 2 ^ 32" by simp_all
    have "of_nat (8 * l) + k < k \<longleftrightarrow> (?x + ?y) mod 2 ^ 32 < ?y"
      unfolding s unfolding k word_less_nat_alt unat_of_nat by (simp add: distrib_left mod_add_eq)
    also have "\<dots> \<longleftrightarrow> 2 ^ 32 \<le> ?x + ?y" by (rule wrap_add(1) [OF b])
    finally show ?thesis .
  qed
  have q: "8 * (l + n) div 2 ^ 32 = 8 * l div 2 ^ 32 + 8 * n div 2 ^ 32 + (if 2 ^ 32 \<le> 8 * l mod 2 ^ 32 + 8 * n mod 2 ^ 32 then 1 else 0)"
  proof -
    have b: "8 * l mod 2 ^ 32 < 2 ^ 32" "8 * n mod 2 ^ 32 < (2 :: nat) ^ 32" by simp_all
    have "(8 * l mod 2 ^ 32 + 8 * n mod 2 ^ 32) div 2 ^ 32 = (if 2 ^ 32 \<le> 8 * l mod 2 ^ 32 + 8 * n mod 2 ^ 32 then 1 else 0 :: nat)"
      by (rule wrap_add(2) [OF b])
    then show ?thesis using div_add1_eq [of "8 * l" "8 * n" "2 ^ 32"] by (simp only: distrib_left)
  qed
  show ?thesis unfolding c unfolding count_of_def s q d by simp
qed

lemma rest_less: "n - (n - (n - p) mod 64) < (64 :: nat)"
proof -
  have "(n - p) mod 64 < 64" by simp
  then show ?thesis by linarith
qed

lemma add_rest: "(r :: nat) < 64 \<Longrightarrow> r + (64 - r) = 64"
  by simp

lemma pad_length:
  assumes "(j :: nat) < 64"
  shows "(if j < 56 then 56 - j else 120 - j) = Suc ((119 - j) mod 64)"
proof (cases "j < 56")
  case True
  then have "119 - j = (55 - j) + 64" by simp
  then have "(119 - j) mod 64 = (55 - j) mod 64" by (simp only: mod_add_self2)
  also have "\<dots> = 55 - j" using True by simp
  finally show ?thesis using True by simp
next
  case False
  then have "(119 - j) mod 64 = 119 - j" by simp
  then show ?thesis using False assms by simp
qed

lemma pad_dvd: "64 dvd l + (if l mod 64 < 56 then 56 - l mod 64 else 120 - l mod 64) + (8 :: nat)"
proof -
  obtain q j where l: "l = 64 * q + j" "j < 64" using that [of "l div 64" "l mod 64"] by simp
  then have "l mod 64 = j" by simp
  then have "l + (if l mod 64 < 56 then 56 - l mod 64 else 120 - l mod 64) + 8 = 64 * q + (if j < 56 then 64 else 128)"
    using l by auto
  then show ?thesis by simp
qed

lemma Update_ok:
  assumes "represents ctx m" "length input + 64 < 2 ^ 32"
  shows "\<exists>ctx'. MD5_Update ctx input = Some ctx' \<and> represents ctx' (m @ input)"
proof -
  obtain a t where t: "m = a @ t" "64 dvd length a" "length t < 64" "ctx_state ctx = absorb md5_start a"
    "length (ctx_buffer ctx) = 64" "take (length t) (ctx_buffer ctx) = t" "ctx_count ctx = count_of (length m)"
    using assms(1) by (auto simp: represents_def)
  have idx: "count_index ctx = length t"
    using count_index_ok [OF t(7)] t(1-3) by (simp add: mod_add_left_eq [symmetric])
  let ?n = "of_nat (length input) :: UInt32"
  have c: "fst (ctx_count ctx) = of_nat (8 * length m)" "snd (ctx_count ctx) = of_nat (8 * length m div 2 ^ 32)"
    unfolding t(7) count_of_def by simp_all
  have "length input < 2 ^ 32" using assms(2) by simp
  note cnt = count_carry [OF this, of "length m", folded c length_append]
  show ?thesis
  proof (cases "64 - length t \<le> length input")
    case True
    let ?p = "64 - length t"
    have "write_at (ctx_buffer ctx) (length t) (take ?p input) = Some (t @ take ?p input)"
      using t(3,5,6) True by (simp add: write_at_def)
    moreover have b: "length (t @ take ?p input) = 64" using t(3) True by simp
    moreover let ?i = "length input - (length input - ?p) mod 64"
    have "transform_loop (MD5Transform (ctx_state ctx) (t @ take ?p input)) input ?p =
        Some (absorb (MD5Transform (ctx_state ctx) (t @ take ?p input)) (drop ?p input), ?i)"
      by (rule transform_loop_ok [OF True assms(2)])
    moreover let ?buf = "drop ?i input @ drop (length input - ?i) (t @ take ?p input)"
    have "write_at (t @ take ?p input) 0 (drop ?i input) = Some ?buf" using b by (simp add: write_at_def)
    ultimately have U: "MD5_Update ctx input = Some \<lparr>ctx_state = absorb (MD5Transform (ctx_state ctx) (t @ take ?p input)) (drop ?p input),
        ctx_count = count_of (length (m @ input)), ctx_buffer = ?buf\<rparr>"
      using True idx cnt by (simp add: MD5_Update_def Let_def)
    define a' where "a' = a @ (t @ take ?p input) @ take (?i - ?p) (drop ?p input)"
    have k: "?p \<le> ?i" by (metis True diff_diff_cancel diff_le_mono2 mod_less_eq_dividend)
    have "64 dvd ?i - ?p"
    proof -
      have "?i - ?p = (length input - ?p) - (length input - ?p) mod 64" by (simp add: add.commute)
      then show ?thesis by (simp add: minus_mod_eq_mult_div)
    qed
    moreover have "length a' = length a + (64 + (?i - ?p))"
      using b k by (simp only: a'_def length_append length_take length_drop) simp
    ultimately have d: "64 dvd length a'" using t(2) by (simp only: dvd_add dvd_refl)
    have e: "a' @ drop ?i input = m @ input"
    proof -
      have "take (?i - ?p) (drop ?p input) @ drop ?i input = drop ?p input" using k by (metis append_take_drop_id drop_drop le_add_diff_inverse2)
      then show ?thesis by (simp add: a'_def t(1))
    qed
    have f: "absorb (MD5Transform (ctx_state ctx) (t @ take ?p input)) (drop ?p input) = absorb md5_start a'"
    proof -
      let ?st = "MD5Transform (ctx_state ctx) (t @ take ?p input)"
      have "drop ?p input = take (?i - ?p) (drop ?p input) @ drop ?i input"
        using k by (metis append_take_drop_id drop_drop le_add_diff_inverse2)
      moreover have "64 dvd length (take (?i - ?p) (drop ?p input))"
        using \<open>64 dvd ?i - ?p\<close> by (simp only: length_take length_drop) (simp add: min_absorb2)
      ultimately have "absorb ?st (drop ?p input) = absorb (absorb ?st (take (?i - ?p) (drop ?p input))) (drop ?i input)"
        using absorb_append [of "take (?i - ?p) (drop ?p input)" ?st "drop ?i input"] by (simp only:)
      also have "\<dots> = absorb ?st (take (?i - ?p) (drop ?p input))" by (rule absorb_short) simp
      also have "\<dots> = absorb md5_start a'"
        unfolding a'_def absorb_append [OF t(2)] absorb_block [OF b] t(4) ..
      finally show ?thesis .
    qed
    have r: "length input - ?i < 64" by (rule rest_less)
    have g: "length (drop ?i input) < 64" using r by (simp only: length_drop)
    have h: "length ?buf = 64"
      unfolding length_append [of "drop ?i input"] length_drop b by (rule add_rest [OF r])
    have j: "take (length (drop ?i input)) ?buf = drop ?i input" by simp
    show ?thesis using U representsI [OF e d g f h j] by blast
  next
    case False
    have "write_at (ctx_buffer ctx) (length t) input = Some (t @ input @ drop (length t + length input) (ctx_buffer ctx))"
      using t(5,6) False by (simp add: write_at_def)
    then have U: "MD5_Update ctx input = Some \<lparr>ctx_state = ctx_state ctx, ctx_count = count_of (length (m @ input)),
        ctx_buffer = t @ input @ drop (length t + length input) (ctx_buffer ctx)\<rparr>"
      using False idx cnt by (simp add: MD5_Update_def Let_def)
    moreover have "a @ (t @ input) = m @ input" using t(1) by simp
    then have "represents \<lparr>ctx_state = ctx_state ctx, ctx_count = count_of (length (m @ input)),
        ctx_buffer = t @ input @ drop (length t + length input) (ctx_buffer ctx)\<rparr> (m @ input)"
      by (rule representsI) (use t False in simp_all)
    ultimately show ?thesis by blast
  qed
qed

text \<open>The end of a message.\<close>

lemma Final_ok:
  assumes "represents ctx m"
  shows "MD5_Final ctx = Some (md5 m, MD5_zero)"
proof -
  let ?l = "length m"
  let ?k = "if ?l mod 64 < 56 then 56 - ?l mod 64 else 120 - ?l mod 64"
  have cnt: "ctx_count ctx = count_of ?l" using assms by (simp add: represents_def)
  have idx: "count_index ctx = ?l mod 64" by (rule count_index_ok [OF cnt])
  have k: "?k = Suc ((119 - ?l mod 64) mod 64)" "?k \<le> 64" "64 dvd ?l + ?k + 8"
  proof -
    have m: "?l mod 64 < 64" by simp
    show "?k = Suc ((119 - ?l mod 64) mod 64)" by (rule pad_length [OF m])
    show "?k \<le> 64" using m by auto
    show "64 dvd ?l + ?k + 8" by (rule pad_dvd)
  qed
  have p: "take ?k PADDING = char_of (0x80 :: nat) # replicate ((119 - ?l mod 64) mod 64) NUL"
  proof -
    have "min ((119 - ?l mod 64) mod 64) 63 = (119 - ?l mod 64) mod 64" by simp
    then show ?thesis unfolding k(1) PADDING_def by (simp only: take_Suc_Cons take_replicate)
  qed
  have lp: "length (take ?k PADDING) + 64 < 2 ^ 32" unfolding length_take by (simp add: PADDING_def)
  obtain ctx1 where 1: "MD5_Update ctx (take ?k PADDING) = Some ctx1" "represents ctx1 (m @ take ?k PADDING)"
    using Update_ok [OF assms, of "take ?k PADDING"] lp by blast
  let ?bits = "Encode [fst (ctx_count ctx), snd (ctx_count ctx)]"
  have lb: "length ?bits = 8" by (simp add: Encode_def Encode_word_def)
  obtain ctx2 where 2: "MD5_Update ctx1 ?bits = Some ctx2" "represents ctx2 ((m @ take ?k PADDING) @ ?bits)"
    using Update_ok [OF 1(2), of ?bits] lb by auto
  have pad: "take ?k PADDING @ ?bits = md5_padding ?l" unfolding p cnt md5_padding_def count_of_def by simp
  have len: "64 dvd length ((m @ take ?k PADDING) @ ?bits)"
    using k(2,3) lb by (simp add: PADDING_def min_absorb2 add.commute add.left_commute del: One_nat_def)
  obtain a t where t: "(m @ take ?k PADDING) @ ?bits = a @ t" "64 dvd length a" "length t < 64" "ctx_state ctx2 = absorb md5_start a"
    using 2(2) by (auto simp: represents_def)
  have "64 dvd length t" using len t(1,2) by (metis dvd_add_right_iff length_append)
  then have "t = []" using t(3) by (metis dvd_imp_le length_greater_0_conv not_le)
  then have "ctx_state ctx2 = absorb md5_start (m @ md5_padding ?l)" using t(1,4) pad by (metis append.assoc append_Nil2)
  then show ?thesis
    using idx 1(1) 2(1) by (simp add: MD5_Final_def Let_def md5_def split: prod.splits)
qed

section \<open>Properties\<close>

text \<open>Feeding a message in pieces.\<close>

fun MD5_Updates :: "MD5_CTX \<Rightarrow> string list \<Rightarrow> MD5_CTX option" where
  "MD5_Updates ctx [] = Some ctx"
| "MD5_Updates ctx (x # xs) = do { ctx1 \<leftarrow> MD5_Update ctx x; MD5_Updates ctx1 xs }"

lemma Updates_ok:
  assumes "represents ctx m" "\<forall>x \<in> set xs. length x + 64 < 2 ^ 32"
  shows "\<exists>ctx'. MD5_Updates ctx xs = Some ctx' \<and> represents ctx' (m @ concat xs)"
  using assms
proof (induction xs arbitrary: ctx m)
  case (Cons x xs)
  obtain ctx1 where 1: "MD5_Update ctx x = Some ctx1" "represents ctx1 (m @ x)"
    using Update_ok [of ctx m x] Cons.prems by auto
  obtain ctx2 where "MD5_Updates ctx1 xs = Some ctx2" "represents ctx2 ((m @ x) @ concat xs)"
    using Cons.IH [OF 1(2)] Cons.prems(2) by auto
  then show ?case using 1(1) by simp
qed simp

text \<open>Hashing the pieces of a message from a fresh context.\<close>

definition md5_pieces :: "MD5_CTX \<Rightarrow> string list \<Rightarrow> string option" where
  "md5_pieces ctx xs = do { ctx1 \<leftarrow> MD5_Updates (MD5_Init ctx) xs; (d, _) \<leftarrow> MD5_Final ctx1; Some d }"

lemma md5_pieces_ok:
  assumes "length (ctx_buffer ctx) = 64" "\<forall>x \<in> set xs. length x + 64 < 2 ^ 32"
  shows "md5_pieces ctx xs = Some (md5 (concat xs))"
proof -
  obtain ctx1 where 1: "MD5_Updates (MD5_Init ctx) xs = Some ctx1" "represents ctx1 (concat xs)"
    using Updates_ok [OF represents_init [OF assms(1)] assms(2)] by auto
  then show ?thesis using Final_ok [OF 1(2)] by (auto simp: md5_pieces_def)
qed

text \<open>C25: The digest of a message does not depend on how the message is cut into calls of
  \<^verbatim>\<open>MD5_Update\<close>: buffering the rest of every call, counting its bits over two words and
  padding the last block amounts to padding the whole message and working off its blocks in order, for
  pieces of every length from zero up to almost 4 GB and a context that held anything before.\<close>

theorem MD5_incremental:
  assumes "length (ctx_buffer ctx) = 64" "\<forall>x \<in> set xs. length x + 64 < 2 ^ 32"
  shows "md5_pieces ctx xs = Some (md5 (concat xs))"
  by (rule md5_pieces_ok [OF assms])

definition ex_ctx :: MD5_CTX where
  "ex_ctx = \<lparr>ctx_state = (1, 2, 3, 4), ctx_count = (5, 6), ctx_buffer = replicate 64 (CHR ''x'')\<rparr>"

definition ex_words :: "UInt32 list" where
  "ex_words = [0x80636261, 0x0, 0x0, 0x0, 0x0, 0x0, 0x0, 0x0, 0x0, 0x0, 0x0, 0x0, 0x0, 0x0, 0x18, 0x0]"

lemma ex_round_1: "round_1 ex_words (0x67452301, 0xefcdab89, 0x98badcfe, 0x10325476) = (0xdda9b9a6, 0x72aff2e0, 0xe396856b, 0xa1051895)"
  by code_simp

lemma ex_round_2: "round_2 ex_words (0xdda9b9a6, 0x72aff2e0, 0xe396856b, 0xa1051895) = (0x790a77fb, 0x726342d3, 0xa62884aa, 0x9f47e4f8)"
  by code_simp

lemma ex_round_3: "round_3 ex_words (0x790a77fb, 0x726342d3, 0xa62884aa, 0x9f47e4f8) = (0x7f2e507b, 0x7beb9700, 0x8fae6399, 0x99d9679d)"
  by code_simp

lemma ex_round_4: "round_4 ex_words (0x7f2e507b, 0x7beb9700, 0x8fae6399, 0x99d9679d) = (0x310ade8f, 0xc08226b3, 0xe484b9d8, 0x624d8cb2)"
  by code_simp


text \<open>The digest of the string abc, as in the test suite of RFC 1321.\<close>

lemma md5_abc: "md5 ''abc'' = [CHR 0x90, CHR 0x01, CHR 0x50, CHR 0x98, CHR 0x3C, CHR 0xD2, CHR 0x4F, CHR 0xB0, CHR 0xD6, CHR 0x96, CHR 0x3F, CHR 0x7D, CHR 0x28, CHR 0xE1, CHR 0x7F, CHR 0x72]"
proof -
  have c: "char_of (0x80 :: nat) = CHR 0x80" "char_of (24 :: nat) = CHR 0x18" "char_of (0 :: nat) = NUL" by code_simp+
  have p: "md5_padding 3 = CHR 0x80 # replicate 52 NUL @ [CHR 0x18, NUL, NUL, NUL, NUL, NUL, NUL, NUL]"
    by (simp add: md5_padding_def Encode_def Encode_word_def byte_of_def c)
  have r: "replicate 52 NUL = [NUL, NUL, NUL, NUL, NUL, NUL, NUL, NUL, NUL, NUL, NUL, NUL, NUL, NUL, NUL, NUL, NUL, NUL, NUL, NUL, NUL, NUL, NUL, NUL, NUL, NUL] @ [NUL, NUL, NUL, NUL, NUL, NUL, NUL, NUL, NUL, NUL, NUL, NUL, NUL, NUL, NUL, NUL, NUL, NUL, NUL, NUL, NUL, NUL, NUL, NUL, NUL, NUL]" by code_simp
  have l: "length (''abc'' @ md5_padding 3) = 64" by (simp add: p)
  have d: "Decode (''abc'' @ md5_padding 3) = ex_words" by (simp add: p r ex_words_def byte_def)
  have "MD5Transform md5_start (''abc'' @ md5_padding 3) = (0x98500190, 0xb04fd23c, 0x7d3f96d6, 0x727fe128)"
    unfolding MD5Transform_def d by (simp add: md5_start_def ex_round_1 ex_round_2 ex_round_3 ex_round_4)
  then have "absorb md5_start (''abc'' @ md5_padding 3) = (0x98500190, 0xb04fd23c, 0x7d3f96d6, 0x727fe128)"
    using absorb_block [OF l, of md5_start "[]"] by (simp add: absorb_short)
  moreover have "(case (0x98500190, 0xb04fd23c, 0x7d3f96d6, 0x727fe128) of (s0, s1, s2, s3) \<Rightarrow> Encode [s0, s1, s2, s3]) = [CHR 0x90, CHR 0x01, CHR 0x50, CHR 0x98, CHR 0x3C, CHR 0xD2, CHR 0x4F, CHR 0xB0, CHR 0xD6, CHR 0x96, CHR 0x3F, CHR 0x7D, CHR 0x28, CHR 0xE1, CHR 0x7F, CHR 0x72]"
    by (simp add: Encode_def Encode_word_def byte_of_def) code_simp
  moreover have "length ''abc'' = 3" by simp
  ultimately show ?thesis by (simp only: md5_def)
qed

theorem MD5_incremental_witness:
  "md5_pieces ex_ctx [''a'', [], ''bc''] = Some [CHR 0x90, CHR 0x01, CHR 0x50, CHR 0x98, CHR 0x3C, CHR 0xD2, CHR 0x4F, CHR 0xB0, CHR 0xD6, CHR 0x96, CHR 0x3F, CHR 0x7D, CHR 0x28, CHR 0xE1, CHR 0x7F, CHR 0x72]"
  using MD5_incremental [of ex_ctx "[''a'', [], ''bc'']"] md5_abc by (simp add: ex_ctx_def)

end
