(* ===== verification/CF_MD5Digest.thy ===== *)
theory CF_MD5Digest
  imports CF_MD5 CF_StringFormatter
begin

text \<open>
  Digest authentication and hashed passwords: \<^verbatim>\<open>src/CFBasic/md5digest.cpp\<close> and
  \<^verbatim>\<open>src/CFBasic/include/CF/md5digest.h\<close>. The digests are those of RFC 2617; the password
  hash is the scheme of FreeBSD with the prefix \<^verbatim>\<open>$dufr$\<close>. The contexts and buffers that the
  functions keep on the stack are arguments here, with any content. \<^term>\<open>None\<close> is a
  failed assertion or an access outside of an object.
\<close>

section \<open>Digests\<close>

definition kHashLen :: nat where "kHashLen = 16"
definition kHashHexLen :: nat where "kHashHexLen = 32"

definition sColon :: StrPtrLen where "sColon = StrPtrLen_of (Some (cstring '':'')) 1"
definition sMD5Sess :: StrPtrLen where "sMD5Sess = StrPtrLen_of (Some (cstring ''md5-sess'')) 8"
definition sQopAuthInt :: StrPtrLen where "sQopAuthInt = StrPtrLen_of (Some (cstring ''auth-int'')) 8"

definition hexDigit :: "nat \<Rightarrow> char" where
  "hexDigit d = char_of (if d \<le> 9 then d + byte (CHR ''0'') else d + byte (CHR ''a'') - 10)"

fun hash_loop :: "mem \<Rightarrow> nat \<Rightarrow> nat \<Rightarrow> mem \<Rightarrow> mem option" where
  "hash_loop aHash i 0 s = Some s"
| "hash_loop aHash i (Suc n) s = do {
     c \<leftarrow> rd aHash i;
     s1 \<leftarrow> write_at s (i * 2) [hexDigit (byte c div 16 mod 16)];
     s2 \<leftarrow> write_at s1 (i * 2 + 1) [hexDigit (byte c mod 16)];
     hash_loop aHash (i + 1) n s2
   }"

definition HashToString :: "mem \<Rightarrow> StrPtrLen option" where
  "HashToString aHash = do {
     s \<leftarrow> write_at (replicate (kHashHexLen + 1) NUL) kHashHexLen [NUL];
     s1 \<leftarrow> hash_loop aHash 0 kHashLen s;
     Some \<lparr>Ptr = Some s1, Len = kHashHexLen\<rparr>
   }"

text \<open>A call of \<^verbatim>\<open>MD5_Update\<close> with the bytes of a counted string.\<close>

definition Update_spl :: "MD5_CTX \<Rightarrow> StrPtrLen \<Rightarrow> MD5_CTX option" where
  "Update_spl ctx s = do { b \<leftarrow> bytes_of s; MD5_Update ctx b }"

definition CalcMD5HA1 :: "MD5_CTX \<Rightarrow> StrPtrLen \<Rightarrow> StrPtrLen \<Rightarrow> StrPtrLen \<Rightarrow> StrPtrLen \<Rightarrow> StrPtrLen option" where
  "CalcMD5HA1 ctx userName realm userPassword hashA1Hex16Bit = do {
     Assert (Ptr hashA1Hex16Bit = None);
     c1 \<leftarrow> Update_spl (MD5_Init ctx) userName;
     c2 \<leftarrow> Update_spl c1 sColon;
     c3 \<leftarrow> Update_spl c2 realm;
     c4 \<leftarrow> Update_spl c3 sColon;
     c5 \<leftarrow> Update_spl c4 userPassword;
     (aHash, _) \<leftarrow> MD5_Final c5;
     Some \<lparr>Ptr = Some aHash, Len = kHashLen\<rparr>
   }"

definition CalcHA1 ::
  "MD5_CTX \<Rightarrow> StrPtrLen \<Rightarrow> StrPtrLen \<Rightarrow> StrPtrLen \<Rightarrow> StrPtrLen \<Rightarrow> StrPtrLen \<Rightarrow> StrPtrLen \<Rightarrow> StrPtrLen \<Rightarrow> StrPtrLen option" where
  "CalcHA1 ctx algorithm userName realm userPassword nonce cNonce hA1 = do {
     Assert (Ptr hA1 = None);
     c1 \<leftarrow> Update_spl (MD5_Init ctx) userName;
     c2 \<leftarrow> Update_spl c1 sColon;
     c3 \<leftarrow> Update_spl c2 realm;
     c4 \<leftarrow> Update_spl c3 sColon;
     c5 \<leftarrow> Update_spl c4 userPassword;
     (aHash, c6) \<leftarrow> MD5_Final c5;
     sess \<leftarrow> Equal algorithm sMD5Sess;
     aHash1 \<leftarrow> (if sess then do {
         d1 \<leftarrow> MD5_Update (MD5_Init c6) (take kHashLen aHash);
         d2 \<leftarrow> Update_spl d1 sColon;
         d3 \<leftarrow> Update_spl d2 nonce;
         d4 \<leftarrow> Update_spl d3 sColon;
         d5 \<leftarrow> Update_spl d4 cNonce;
         (aHash1, _) \<leftarrow> MD5_Final d5;
         Some aHash1
       } else Some aHash);
     HashToString aHash1
   }"

definition CalcHA1Md5Sess :: "MD5_CTX \<Rightarrow> StrPtrLen \<Rightarrow> StrPtrLen \<Rightarrow> StrPtrLen \<Rightarrow> StrPtrLen \<Rightarrow> StrPtrLen option" where
  "CalcHA1Md5Sess ctx hashA1Hex16Bit nonce cNonce hA1 = do {
     Assert (Len hashA1Hex16Bit = kHashLen);
     Assert (Ptr hA1 = None);
     c1 \<leftarrow> Update_spl (MD5_Init ctx) (hashA1Hex16Bit\<lparr>Len := kHashLen\<rparr>);
     c2 \<leftarrow> Update_spl c1 sColon;
     c3 \<leftarrow> Update_spl c2 nonce;
     c4 \<leftarrow> Update_spl c3 sColon;
     c5 \<leftarrow> Update_spl c4 cNonce;
     (aHash, _) \<leftarrow> MD5_Final c5;
     HashToString aHash
   }"

definition CalcRequestDigest ::
  "MD5_CTX \<Rightarrow> StrPtrLen \<Rightarrow> StrPtrLen \<Rightarrow> StrPtrLen \<Rightarrow> StrPtrLen \<Rightarrow> StrPtrLen \<Rightarrow> StrPtrLen \<Rightarrow> StrPtrLen \<Rightarrow> StrPtrLen \<Rightarrow>
   StrPtrLen \<Rightarrow> StrPtrLen option" where
  "CalcRequestDigest ctx hA1 nonce nonceCount cNonce qop method digestUri hEntity requestDigest = do {
     Assert (Ptr requestDigest = None);
     c1 \<leftarrow> Update_spl (MD5_Init ctx) method;
     c2 \<leftarrow> Update_spl c1 sColon;
     c3 \<leftarrow> Update_spl c2 digestUri;
     auth_int \<leftarrow> Equal qop sQopAuthInt;
     c5 \<leftarrow> (if auth_int then do { c4 \<leftarrow> Update_spl c3 sColon; Update_spl c4 hEntity } else Some c3);
     (aHash, c6) \<leftarrow> MD5_Final c5;
     hA2 \<leftarrow> HashToString aHash;
     d1 \<leftarrow> Update_spl (MD5_Init c6) hA1;
     d2 \<leftarrow> Update_spl d1 sColon;
     d3 \<leftarrow> Update_spl d2 nonce;
     d4 \<leftarrow> Update_spl d3 sColon;
     d10 \<leftarrow> (if Ptr qop \<noteq> None then do {
         d5 \<leftarrow> Update_spl d4 nonceCount;
         d6 \<leftarrow> Update_spl d5 sColon;
         d7 \<leftarrow> Update_spl d6 cNonce;
         d8 \<leftarrow> Update_spl d7 sColon;
         d9 \<leftarrow> Update_spl d8 qop;
         Update_spl d9 sColon
       } else Some d4);
     d11 \<leftarrow> Update_spl d10 hA2;
     (requestHash, _) \<leftarrow> MD5_Final d11;
     HashToString requestHash
   }"

section \<open>Hashed passwords\<close>

definition itoa64 :: string where
  "itoa64 = ''./0123456789ABCDEFGHIJKLMNOPQRSTUVWXYZabcdefghijklmnopqrstuvwxyz''"

text \<open>The shift is that of a signed 32-bit number.\<close>

fun to64 :: "mem \<Rightarrow> nat \<Rightarrow> UInt32 \<Rightarrow> nat \<Rightarrow> mem option" where
  "to64 m s v 0 = Some m"
| "to64 m s v (Suc n) = do {
     m1 \<leftarrow> write_at m s [itoa64 ! unat (v AND 0x3f)];
     to64 m1 (s + 1) (signed_drop_bit 6 v) n
   }"

definition dufr_id :: string where "dufr_id = ''$dufr$''"

text \<open>Functions of the C library on zero-terminated strings.\<close>

fun strncmp_eq :: "mem \<Rightarrow> mem \<Rightarrow> nat \<Rightarrow> bool option" where
  "strncmp_eq (a # x) (b # y) (Suc n) =
     (if a \<noteq> b then Some False else if a = NUL then Some True else strncmp_eq x y n)"
| "strncmp_eq _ _ 0 = Some True"
| "strncmp_eq _ _ _ = None"

definition strcpy :: "mem \<Rightarrow> mem \<Rightarrow> mem option" where
  "strcpy dest src = do { n \<leftarrow> strlen src; write_at dest 0 (take n src @ [NUL]) }"

definition strcat :: "mem \<Rightarrow> mem \<Rightarrow> mem option" where
  "strcat dest src = do { l \<leftarrow> strlen dest; n \<leftarrow> strlen src; write_at dest l (take n src @ [NUL]) }"

definition strncat :: "mem \<Rightarrow> mem \<Rightarrow> nat \<Rightarrow> mem option" where
  "strncat dest src n = do {
     l \<leftarrow> strlen dest;
     let t = takeWhile (\<lambda>c. c \<noteq> NUL) (take n src);
     if length t = n \<or> length t < length src then write_at dest l (t @ [NUL]) else None
   }"

text \<open>A call of \<^verbatim>\<open>MD5_Update\<close> with a pointer and a number of bytes.\<close>

definition Update_ptr :: "MD5_CTX \<Rightarrow> mem \<Rightarrow> nat \<Rightarrow> MD5_CTX option" where
  "Update_ptr ctx p n = (if n \<le> length p then MD5_Update ctx (take n p) else None)"

fun salt_end :: "mem \<Rightarrow> nat \<Rightarrow> nat option" where
  "salt_end [] i = None"
| "salt_end (c # ep) i = (if c \<noteq> NUL \<and> c \<noteq> CHR ''$'' \<and> i < 8 then salt_end ep (i + 1) else Some i)"

function pl_loop :: "MD5_CTX \<Rightarrow> mem \<Rightarrow> int \<Rightarrow> MD5_CTX option" where
  "pl_loop ctx final pl =
     (if 0 < pl then do {
        ctx1 \<leftarrow> Update_ptr ctx final (if int kHashLen < pl then kHashLen else nat pl);
        pl_loop ctx1 final (pl - int kHashLen)
      } else Some ctx)"
  by pat_completeness auto

termination
  by (relation "measure (\<lambda>(ctx, final, pl). nat pl)") (auto simp: kHashLen_def)

declare pl_loop.simps [simp del]

function weird_loop :: "MD5_CTX \<Rightarrow> mem \<Rightarrow> mem \<Rightarrow> nat \<Rightarrow> MD5_CTX option" where
  "weird_loop ctx final pw i =
     (if i \<noteq> 0 then do {
        ctx1 \<leftarrow> (if i mod 2 = 1 then Update_ptr ctx final 1 else Update_ptr ctx pw 1);
        weird_loop ctx1 final pw (i div 2)
      } else Some ctx)"
  by pat_completeness auto

termination
  by (relation "measure (\<lambda>(ctx, final, pw, i). i)") auto

declare weird_loop.simps [simp del]

text \<open>One of the thousand rounds, and the rounds from \<open>i\<close> on.\<close>

definition encode_round :: "mem \<Rightarrow> nat \<Rightarrow> mem \<Rightarrow> nat \<Rightarrow> nat \<Rightarrow> mem \<times> MD5_CTX \<Rightarrow> (mem \<times> MD5_CTX) option" where
  "encode_round pw n sp sl i = (\<lambda>(final, ctx1). do {
     e1 \<leftarrow> (if i mod 2 = 1 then Update_ptr (MD5_Init ctx1) pw n else Update_ptr (MD5_Init ctx1) final kHashLen);
     e2 \<leftarrow> (if i mod 3 \<noteq> 0 then Update_ptr e1 sp sl else Some e1);
     e3 \<leftarrow> (if i mod 7 \<noteq> 0 then Update_ptr e2 pw n else Some e2);
     e4 \<leftarrow> (if i mod 2 = 1 then Update_ptr e3 final kHashLen else Update_ptr e3 pw n);
     MD5_Final e4
   })"

fun encode_rounds :: "mem \<Rightarrow> nat \<Rightarrow> mem \<Rightarrow> nat \<Rightarrow> nat \<Rightarrow> nat \<Rightarrow> mem \<times> MD5_CTX \<Rightarrow> (mem \<times> MD5_CTX) option" where
  "encode_rounds pw n sp sl i 0 s = Some s"
| "encode_rounds pw n sp sl i (Suc k) s = do {
     s1 \<leftarrow> encode_round pw n sp sl i s;
     encode_rounds pw n sp sl (i + 1) k s1
   }"

definition pack3 :: "mem \<Rightarrow> nat \<Rightarrow> nat \<Rightarrow> nat \<Rightarrow> UInt32 option" where
  "pack3 final i j k = do {
     a \<leftarrow> rd final i; b \<leftarrow> rd final j; c \<leftarrow> rd final k;
     Some (push_bit 16 (of_nat (byte a)) OR push_bit 8 (of_nat (byte b)) OR of_nat (byte c))
   }"

text \<open>The output of the digest, 22 characters and a zero byte from \<open>p\<close> on.\<close>

definition encode_final :: "mem \<Rightarrow> mem \<Rightarrow> nat \<Rightarrow> mem option" where
  "encode_final final passwd p = do {
     l0 \<leftarrow> pack3 final 0 6 12; m0 \<leftarrow> to64 passwd p l0 4;
     l1 \<leftarrow> pack3 final 1 7 13; m1 \<leftarrow> to64 m0 (p + 4) l1 4;
     l2 \<leftarrow> pack3 final 2 8 14; m2 \<leftarrow> to64 m1 (p + 8) l2 4;
     l3 \<leftarrow> pack3 final 3 9 15; m3 \<leftarrow> to64 m2 (p + 12) l3 4;
     l4 \<leftarrow> pack3 final 4 10 5; m4 \<leftarrow> to64 m3 (p + 16) l4 4;
     c \<leftarrow> rd final 11; m5 \<leftarrow> to64 m4 (p + 20) (of_nat (byte c)) 2;
     write_at m5 (p + 22) [NUL]
   }"

text \<open>
  The length of the password goes through an \<^verbatim>\<open>int\<close>; from \<open>2 ^ 31\<close> on it would be
  negative there and the shifts would not end. The size of the result less one becomes a
  \<^verbatim>\<open>size_t\<close>.
\<close>

definition MD5Encode :: "MD5_CTX \<Rightarrow> MD5_CTX \<Rightarrow> mem \<Rightarrow> mem \<Rightarrow> mem \<Rightarrow> mem \<Rightarrow> int \<Rightarrow> mem option" where
  "MD5Encode ctx ctx1 passwd pw salt result nbytes = do {
     prefixed \<leftarrow> strncmp_eq salt (cstring dufr_id) (length dufr_id);
     let sp = (if prefixed then drop (length dufr_id) salt else salt);
     sl \<leftarrow> salt_end sp 0;
     n \<leftarrow> strlen pw;
     (if n < 2 ^ 31 then Some () else None);
     a1 \<leftarrow> Update_ptr (MD5_Init ctx) pw n;
     a2 \<leftarrow> Update_ptr a1 (cstring dufr_id) (length dufr_id);
     a3 \<leftarrow> Update_ptr a2 sp sl;
     b1 \<leftarrow> Update_ptr (MD5_Init ctx1) pw n;
     b2 \<leftarrow> Update_ptr b1 sp sl;
     b3 \<leftarrow> Update_ptr b2 pw n;
     (final, b4) \<leftarrow> MD5_Final b3;
     a4 \<leftarrow> pl_loop a3 final (int n);
     let zeroed = replicate kHashLen NUL;
     a5 \<leftarrow> weird_loop a4 zeroed pw n;
     p1 \<leftarrow> strcpy passwd (cstring dufr_id);
     p2 \<leftarrow> strncat p1 sp sl;
     p3 \<leftarrow> strcat p2 (cstring ''$'');
     (final1, _) \<leftarrow> MD5_Final a5;
     (final2, _) \<leftarrow> encode_rounds pw n sp sl 0 1000 (final1, b4);
     p \<leftarrow> strlen p3;
     p4 \<leftarrow> encode_final final2 p3 p;
     strncpy result p4 (nat ((nbytes - 1) mod 2 ^ 64))
   }"

section \<open>Specification\<close>

definition hex_text :: "string \<Rightarrow> string" where
  "hex_text h = concat (map (\<lambda>c. [hexDigit (byte c div 16), hexDigit (byte c mod 16)]) h)"

definition hex_spl :: "string \<Rightarrow> StrPtrLen" where
  "hex_spl h = \<lparr>Ptr = Some (hex_text h @ [NUL]), Len = kHashHexLen\<rparr>"

definition HA1_spec :: "string \<Rightarrow> string \<Rightarrow> string \<Rightarrow> string \<Rightarrow> string \<Rightarrow> string \<Rightarrow> string" where
  "HA1_spec algorithm user realm pw nonce cnonce =
     (let h = md5 (user @ '':'' @ realm @ '':'' @ pw)
      in if algorithm = ''md5-sess'' then md5 (h @ '':'' @ nonce @ '':'' @ cnonce) else h)"

definition HA2_spec :: "string \<Rightarrow> string \<Rightarrow> string \<Rightarrow> string \<Rightarrow> string" where
  "HA2_spec qop method uri entity = md5 (method @ '':'' @ uri @ (if qop = ''auth-int'' then '':'' @ entity else []))"

definition response_spec :: "string \<Rightarrow> string \<Rightarrow> string \<Rightarrow> string \<Rightarrow> string option \<Rightarrow> string \<Rightarrow> string" where
  "response_spec ha1 nonce nc cnonce qop ha2 =
     md5 (hex_text ha1 @ '':'' @ nonce @ '':'' @
       (case qop of None \<Rightarrow> [] | Some q \<Rightarrow> nc @ '':'' @ cnonce @ '':'' @ q @ '':'') @ hex_text ha2)"

section \<open>Chains of updates\<close>

definition small :: "string \<Rightarrow> bool" where
  "small x \<longleftrightarrow> length x + 64 < 2 ^ 32"

lemma bind_Update:
  assumes "represents c m" "small x" "\<And>c'. represents c' (m @ x) \<Longrightarrow> k c' = R"
  shows "(MD5_Update c x \<bind> k) = R"
  using Update_ok [OF assms(1), of x] assms(2,3) by (auto simp: small_def)

lemma bind_Final:
  assumes "represents c m" "k (md5 m, MD5_zero) = R"
  shows "(MD5_Final c \<bind> k) = R"
  using Final_ok [OF assms(1)] assms(2) by simp

lemma bind_spl:
  assumes "represents c m" "bytes_of s = Some x" "small x" "\<And>c'. represents c' (m @ x) \<Longrightarrow> k c' = R"
  shows "(Update_spl c s \<bind> k) = R"
  using Update_ok [OF assms(1), of x] assms(2-4) by (auto simp: Update_spl_def small_def)

lemma bind_ptr:
  assumes "represents c m" "take n p = x" "n \<le> length p" "small x" "\<And>c'. represents c' (m @ x) \<Longrightarrow> k c' = R"
  shows "(Update_ptr c p n \<bind> k) = R"
  using Update_ok [OF assms(1), of x] assms(2-5) by (auto simp: Update_ptr_def small_def)

lemma bytes_of_colon: "bytes_of sColon = Some '':''" "small '':''"
  by (simp_all add: sColon_def StrPtrLen_of_def cstring_def bytes_of_def small_def)

lemma length_md5 [simp]: "length (md5 m) = 16"
  by (simp add: md5_def Encode_def Encode_word_def split: prod.splits)

lemma zero_buffer [simp]: "length (ctx_buffer MD5_zero) = 64"
  by (simp add: MD5_zero_def)

section \<open>Hexadecimal text\<close>

lemma write_app: "s = length t \<Longrightarrow> length bs \<le> length u \<Longrightarrow> write_at (t @ u) s bs = Some (t @ bs @ drop (length bs) u)"
  by (simp add: write_at_def)

lemma length_hex_text [simp]: "length (hex_text h) = 2 * length h"
  by (induction h) (simp_all add: hex_text_def)

lemma hash_loop_ok:
  assumes "length t = 2 * i" "2 * n \<le> length u" "i + n \<le> length h"
  shows "hash_loop h i n (t @ u) = Some (t @ hex_text (take n (drop i h)) @ drop (2 * n) u)"
  using assms
proof (induction n arbitrary: i t u)
  case 0
  then show ?case by (simp add: hex_text_def)
next
  case (Suc n)
  obtain a b u' where u: "u = a # b # u'" using Suc.prems(2) by (cases u; cases "tl u") auto
  let ?c = "h ! i"
  let ?t = "t @ [hexDigit (byte ?c div 16), hexDigit (byte ?c mod 16)]"
  have "byte ?c div 16 < 16" using byte_less [of ?c] by (simp add: less_mult_imp_div_less del: byte_less)
  then have m: "byte ?c div 16 mod 16 = byte ?c div 16" by (rule mod_less)
  have 1: "write_at (t @ u) (i * 2) [hexDigit (byte ?c div 16)] = Some ((t @ [hexDigit (byte ?c div 16)]) @ b # u')"
    using Suc.prems(1) write_app [of "i * 2" t "[hexDigit (byte ?c div 16)]" u] by (simp add: u)
  have 2: "write_at ((t @ [hexDigit (byte ?c div 16)]) @ b # u') (i * 2 + 1) [hexDigit (byte ?c mod 16)] = Some (?t @ u')"
    using Suc.prems(1) write_app [of "i * 2 + 1" "t @ [hexDigit (byte ?c div 16)]" "[hexDigit (byte ?c mod 16)]" "b # u'"] by simp
  have 3: "hash_loop h (i + 1) n (?t @ u') = Some (?t @ hex_text (take n (drop (i + 1) h)) @ drop (2 * n) u')"
    using Suc.prems by (intro Suc.IH) (simp_all add: u)
  have "take (Suc n) (drop i h) = ?c # take n (drop (i + 1) h)" using Suc.prems(3) by (simp add: drop_nth_Cons)
  then have 4: "hex_text (take (Suc n) (drop i h)) = hexDigit (byte ?c div 16) # hexDigit (byte ?c mod 16) # hex_text (take n (drop (i + 1) h))"
    by (simp add: hex_text_def)
  have "rd h i = Some ?c" using Suc.prems(3) by simp
  then have "hash_loop h i (Suc n) (t @ u) = Some (?t @ hex_text (take n (drop (i + 1) h)) @ drop (2 * n) u')"
    using 1 2 3 by (simp add: m)
  then show ?case unfolding 4 by (simp add: u)
qed

lemma HashToString_ok:
  assumes "length h = 16"
  shows "HashToString h = Some (hex_spl h)"
proof -
  have "write_at (replicate 33 NUL) 32 [NUL] = Some ([] @ replicate 32 NUL @ [NUL])" by code_simp
  moreover have "hash_loop h 0 16 ([] @ replicate 32 NUL @ [NUL]) = Some ([] @ hex_text (take 16 (drop 0 h)) @ drop (2 * 16) (replicate 32 NUL @ [NUL]))"
    by (rule hash_loop_ok) (use assms in simp_all)
  ultimately show ?thesis using assms by (simp add: HashToString_def hex_spl_def kHashLen_def kHashHexLen_def)
qed

lemma bytes_of_hex:
  assumes "length h = 16"
  shows "bytes_of (hex_spl h) = Some (hex_text h)" "small (hex_text h)"
  using assms by (simp_all add: bytes_of_def hex_spl_def kHashHexLen_def small_def)

lemma Equal_text:
  assumes "bytes_of s = Some t" "l \<noteq> []" "n = length l"
  shows "Equal s (StrPtrLen_of (Some (cstring l)) n) = Some (t = l)"
proof (cases "Ptr s")
  case None
  then show ?thesis using assms by (auto simp: bytes_of_def Equal_def StrPtrLen_of_def split: if_splits)
next
  case (Some m)
  then have "Len s \<le> length m" "t = take (Len s) m" using assms(1) by (auto simp: bytes_of_def split: if_splits)
  then show ?thesis using Some assms(3) by (auto simp: Equal_def StrPtrLen_of_def memcmp_eq_def cstring_def)
qed

lemma Equal_sess: "bytes_of s = Some t \<Longrightarrow> Equal s sMD5Sess = Some (t = ''md5-sess'')"
  using Equal_text [of s t "''md5-sess''" 8] by (simp add: sMD5Sess_def)

lemma Equal_auth_int: "bytes_of s = Some t \<Longrightarrow> Equal s sQopAuthInt = Some (t = ''auth-int'')"
  using Equal_text [of s t "''auth-int''" 8] by (simp add: sQopAuthInt_def)

section \<open>Correctness of the digests\<close>

text \<open>A counted string as an argument: the bytes it counts, few enough for a call.\<close>

definition arg :: "StrPtrLen \<Rightarrow> string \<Rightarrow> bool" where
  "arg s t \<longleftrightarrow> bytes_of s = Some t \<and> small t"

lemma bind_arg:
  assumes "arg s x" "represents c m" "\<And>c'. represents c' (m @ x) \<Longrightarrow> k c' = R"
  shows "(Update_spl c s \<bind> k) = R"
  using assms(1) by (intro bind_spl [OF assms(2) _ _ assms(3)]) (simp_all add: arg_def)

lemma arg_colon: "arg sColon '':''"
  by (simp add: arg_def bytes_of_colon)

lemma arg_hex: "length h = 16 \<Longrightarrow> arg (hex_spl h) (hex_text h)"
  by (simp add: arg_def bytes_of_hex)

lemma CalcMD5HA1_ok:
  assumes "length (ctx_buffer ctx) = 64" "arg user u" "arg realm r" "arg pw p"
  shows "CalcMD5HA1 ctx user realm pw StrPtrLen_null = Some \<lparr>Ptr = Some (md5 (u @ '':'' @ r @ '':'' @ p)), Len = kHashLen\<rparr>"
  unfolding CalcMD5HA1_def
  by (simp add: StrPtrLen_null_def, rule bind_arg [OF assms(2) represents_init [OF assms(1)]],
      (erule arg_colon [THEN bind_arg] assms(3,4) [THEN bind_arg])+, erule bind_Final, simp)

lemma CalcHA1_ok:
  assumes "length (ctx_buffer ctx) = 64" "arg algorithm a" "arg user u" "arg realm r" "arg pw p" "arg nonce n" "arg cnonce c"
  shows "CalcHA1 ctx algorithm user realm pw nonce cnonce StrPtrLen_null = Some (hex_spl (HA1_spec a u r p n c))"
proof -
  have e: "Equal algorithm sMD5Sess = Some (a = ''md5-sess'')" using assms(2) by (simp add: arg_def Equal_sess)
  let ?h = "md5 (u @ '':'' @ r @ '':'' @ p)"
  note start = represents_init [OF zero_buffer, THEN bind_Update]
  note step = arg_colon [THEN bind_arg] assms(4-7) [THEN bind_arg]
  show ?thesis
    unfolding CalcHA1_def
    by (cases "a = ''md5-sess''"; simp add: StrPtrLen_null_def e kHashLen_def, rule bind_arg [OF assms(3) represents_init [OF assms(1)]],
      (erule step)+, erule bind_Final, simp,
      ((rule start, simp add: small_def, (erule step)+, erule bind_Final)?, simp add: HashToString_ok HA1_spec_def Let_def))
qed

lemma CalcHA1Md5Sess_ok:
  assumes "length (ctx_buffer ctx) = 64" "arg h hb" "Len h = kHashLen" "arg nonce n" "arg cnonce c"
  shows "CalcHA1Md5Sess ctx h nonce cnonce StrPtrLen_null = Some (hex_spl (md5 (hb @ '':'' @ n @ '':'' @ c)))"
proof -
  have h: "h\<lparr>Len := kHashLen\<rparr> = h" using assms(3) by simp
  show ?thesis
    unfolding CalcHA1Md5Sess_def h
    by (simp add: StrPtrLen_null_def assms(3), rule bind_arg [OF assms(2) represents_init [OF assms(1)]],
      (erule arg_colon [THEN bind_arg] assms(4,5) [THEN bind_arg])+, erule bind_Final, simp add: HashToString_ok)
qed

text \<open>The digest of a request, with its two optional parts.\<close>

lemma CalcRequestDigest_ok:
  assumes "length (ctx_buffer ctx) = 64" "length ha1 = 16" "arg nonce n" "arg nonceCount nc" "arg cnonce c" "arg qop q"
    and "arg method me" "arg uri u" "arg hEntity en"
  shows "CalcRequestDigest ctx (hex_spl ha1) nonce nonceCount cnonce qop method uri hEntity StrPtrLen_null =
    Some (hex_spl (response_spec ha1 n nc c (if Ptr qop = None then None else Some q) (HA2_spec q me u en)))"
proof -
  have e: "Equal qop sQopAuthInt = Some (q = ''auth-int'')" using assms(6) by (simp add: arg_def Equal_auth_int)
  note step = arg_colon [THEN bind_arg] assms(3-9) [THEN bind_arg]
  show ?thesis
    unfolding CalcRequestDigest_def
    by (cases "q = ''auth-int''"; cases "Ptr qop = None"; simp add: StrPtrLen_null_def e del: not_None_eq,
        rule bind_arg [OF assms(7) represents_init [OF assms(1)]], (erule step)+, erule bind_Final,
        simp add: HashToString_ok del: not_None_eq, rule bind_arg [OF arg_hex [OF assms(2)] represents_init [OF zero_buffer]],
        (erule step)+, erule arg_hex [OF length_md5, THEN bind_arg], erule bind_Final,
        simp add: HashToString_ok response_spec_def HA2_spec_def)
qed

section \<open>Correctness of the password hash\<close>

text \<open>The text of a hash, in terms of the digest of whole messages.\<close>

definition salt_of :: "string \<Rightarrow> string" where
  "salt_of t = take 8 (takeWhile (\<lambda>c. c \<noteq> CHR ''$'') (if take 6 t = dufr_id then drop 6 t else t))"

fun weird_bytes :: "char \<Rightarrow> nat \<Rightarrow> string" where
  "weird_bytes c i = (if i = 0 then [] else (if i mod 2 = 1 then NUL else c) # weird_bytes c (i div 2))"

declare weird_bytes.simps [simp del]

definition prefix_of :: "string \<Rightarrow> nat \<Rightarrow> string" where
  "prefix_of h n = concat (replicate (n div 16) h) @ take (n mod 16) h"

definition round_text :: "string \<Rightarrow> string \<Rightarrow> nat \<Rightarrow> string \<Rightarrow> string" where
  "round_text pw s i h =
     (if i mod 2 = 1 then pw else h) @ (if i mod 3 \<noteq> 0 then s else []) @ (if i mod 7 \<noteq> 0 then pw else []) @
     (if i mod 2 = 1 then h else pw)"

definition dufr_hash :: "string \<Rightarrow> string \<Rightarrow> string" where
  "dufr_hash pw s =
     fold (\<lambda>i h. md5 (round_text pw s i h)) [0..<1000]
       (md5 (pw @ dufr_id @ s @ prefix_of (md5 (pw @ s @ pw)) (length pw) @ weird_bytes (hd pw) (length pw)))"

fun chars64 :: "UInt32 \<Rightarrow> nat \<Rightarrow> string" where
  "chars64 v 0 = []"
| "chars64 v (Suc n) = itoa64 ! unat (v AND 0x3f) # chars64 (signed_drop_bit 6 v) n"

definition word3 :: "char \<Rightarrow> char \<Rightarrow> char \<Rightarrow> UInt32" where
  "word3 a b c = push_bit 16 (of_nat (byte a)) OR push_bit 8 (of_nat (byte b)) OR of_nat (byte c)"

definition text64 :: "string \<Rightarrow> string" where
  "text64 h = chars64 (word3 (h ! 0) (h ! 6) (h ! 12)) 4 @ chars64 (word3 (h ! 1) (h ! 7) (h ! 13)) 4 @
     chars64 (word3 (h ! 2) (h ! 8) (h ! 14)) 4 @ chars64 (word3 (h ! 3) (h ! 9) (h ! 15)) 4 @
     chars64 (word3 (h ! 4) (h ! 10) (h ! 5)) 4 @ chars64 (of_nat (byte (h ! 11))) 2"

definition dufr_text :: "string \<Rightarrow> string \<Rightarrow> string" where
  "dufr_text pw t = dufr_id @ salt_of t @ ''$'' @ text64 (dufr_hash pw (salt_of t))"

text \<open>The salt.\<close>

lemma strncmp_prefix:
  assumes "NUL \<notin> set t" "NUL \<notin> set d"
  shows "strncmp_eq (t @ NUL # r) (cstring d) (length d) = Some (take (length d) t = d)"
  using assms
proof (induction d arbitrary: t)
  case (Cons b d)
  then show ?case by (cases t) (auto simp: cstring_def)
qed (simp add: cstring_def)

lemma salt_end_ok:
  assumes "NUL \<notin> set t" "i \<le> 8"
  shows "salt_end (t @ NUL # r) i = Some (i + length (take (8 - i) (takeWhile (\<lambda>c. c \<noteq> CHR ''$'') t)))"
  using assms
proof (induction t arbitrary: i)
  case (Cons c t)
  then show ?case by (cases "i < 8") (auto simp: min_def)
qed simp

lemma salt_chars: "NUL \<notin> set t \<Longrightarrow> NUL \<notin> set (salt_of t) \<and> CHR ''$'' \<notin> set (salt_of t) \<and> length (salt_of t) \<le> 8"
  unfolding salt_of_def by (auto dest!: in_set_takeD set_takeWhileD in_set_dropD split: if_splits)

lemma salt_of_stored:
  assumes "NUL \<notin> set t"
  shows "salt_of (dufr_id @ salt_of t @ ''$'' @ x) = salt_of t"
proof -
  let ?s = "salt_of t"
  have "take 6 (dufr_id @ y) = dufr_id" "drop 6 (dufr_id @ y) = y" for y by (simp_all add: dufr_id_def)
  then have "salt_of (dufr_id @ ?s @ ''$'' @ x) = take 8 (takeWhile (\<lambda>c. c \<noteq> CHR ''$'') (?s @ ''$'' @ x))"
    unfolding salt_of_def [of "dufr_id @ _"] by (simp only: if_True simp_thms)
  then show ?thesis using salt_chars [OF assms] by simp
qed

text \<open>The loops over digests.\<close>

lemma prefix_of_step: "16 < n \<Longrightarrow> length h = 16 \<Longrightarrow> prefix_of h n = h @ prefix_of h (n - 16)"
  by (simp add: prefix_of_def le_div_geq le_mod_geq)

lemma prefix_of_short: "n \<le> 16 \<Longrightarrow> length h = 16 \<Longrightarrow> prefix_of h n = take n h"
  by (cases "n = 16") (simp_all add: prefix_of_def)

lemma pl_loop_ok:
  assumes "represents c m" "length h = 16"
  shows "\<exists>c'. pl_loop c h (int n) = Some c' \<and> represents c' (m @ prefix_of h n)"
  using assms
proof (induction n arbitrary: c m rule: less_induct)
  case (less n)
  consider "n = 0" | "0 < n" "n \<le> 16" | "16 < n" by linarith
  then show ?case
  proof cases
    case 1
    then show ?thesis using less.prems by (subst pl_loop.simps) (simp add: prefix_of_def)
  next
    case 2
    have s: "small (take n h)" using less.prems(2) by (simp add: small_def)
    obtain c1 where 1: "MD5_Update c (take n h) = Some c1" "represents c1 (m @ take n h)"
      using Update_ok [OF less.prems(1), of "take n h"] s by (auto simp: small_def)
    have "pl_loop c1 h (int n - 16) = Some c1" using 2 by (subst pl_loop.simps) simp
    then have "pl_loop c h (int n) = Some c1"
      using 2 1(1) less.prems(2) by (subst pl_loop.simps) (simp add: kHashLen_def Update_ptr_def)
    then show ?thesis using 1(2) 2 less.prems(2) by (simp add: prefix_of_short)
  next
    case 3
    have t: "take 16 h = h" "small h" using less.prems(2) by (simp_all add: small_def)
    obtain c1 where 1: "MD5_Update c h = Some c1" "represents c1 (m @ h)"
      using Update_ok [OF less.prems(1), of h] t by (auto simp: small_def)
    obtain c2 where 2: "pl_loop c1 h (int (n - 16)) = Some c2" "represents c2 ((m @ h) @ prefix_of h (n - 16))"
      using less.IH [OF _ 1(2) less.prems(2), of "n - 16"] 3 by auto
    have "int n - 16 = int (n - 16)" using 3 by simp
    then have "pl_loop c h (int n) = Some c2"
      using 3 1(1) 2(1) less.prems(2) t(1) by (subst pl_loop.simps) (simp add: kHashLen_def Update_ptr_def)
    then show ?thesis using 2(2) 3 less.prems(2) by (simp add: prefix_of_step)
  qed
qed

lemma weird_loop_ok:
  assumes "represents c m" "i = 0 \<or> pw \<noteq> []"
  shows "\<exists>c'. weird_loop c (replicate 16 NUL) pw i = Some c' \<and> represents c' (m @ weird_bytes (hd pw) i)"
  using assms
proof (induction i arbitrary: c m rule: less_induct)
  case (less i)
  show ?case
  proof (cases "i = 0")
    case True
    then show ?thesis using less.prems by (subst weird_loop.simps, subst weird_bytes.simps) simp
  next
    case False
    then have p: "take 1 pw = [hd pw]" "1 \<le> length pw" using less.prems(2) by (cases pw; simp)+
    let ?b = "if i mod 2 = 1 then NUL else hd pw"
    obtain c1 where 1: "MD5_Update c [?b] = Some c1" "represents c1 (m @ [?b])"
      using Update_ok [OF less.prems(1), of "[?b]"] by auto
    have u: "(if i mod 2 = 1 then Update_ptr c (replicate 16 NUL) 1 else Update_ptr c pw 1) = Some c1"
    proof -
      have "take 1 (replicate 16 NUL) = [NUL]" by code_simp
      then show ?thesis using 1(1) p by (auto simp: Update_ptr_def simp del: take_replicate One_nat_def)
    qed
    obtain c2 where 2: "weird_loop c1 (replicate 16 NUL) pw (i div 2) = Some c2" "represents c2 ((m @ [?b]) @ weird_bytes (hd pw) (i div 2))"
      using less.IH [OF _ 1(2), of "i div 2"] False less.prems(2) by auto
    have "weird_loop c (replicate 16 NUL) pw i = Some c2" using False u 2(1) by (subst weird_loop.simps) simp
    moreover have "weird_bytes (hd pw) i = ?b # weird_bytes (hd pw) (i div 2)" using False by (subst weird_bytes.simps) simp
    ultimately show ?thesis using 2(2) by simp
  qed
qed

text \<open>The thousand rounds.\<close>

lemma encode_round_ok:
  assumes "length (ctx_buffer c) = 64" "length h = 16" "small pw" "n = length pw" "take n p = pw" "n \<le> length p"
    and "take sl sp = s" "sl \<le> length sp" "small s"
  shows "encode_round p n sp sl i (h, c) = Some (md5 (round_text pw s i h), MD5_zero)"
proof -
  note start = represents_init [OF assms(1)]
  have h: "take 16 h = h" "16 \<le> length h" "small h" using assms(2) by (simp_all add: small_def)
  note steps = bind_ptr [OF _ h] bind_ptr [OF _ assms(5,6,3)] bind_ptr [OF _ assms(7-9)]
  note firsts = bind_ptr [OF start h] bind_ptr [OF start assms(5,6,3)]
  show ?thesis
    unfolding encode_round_def kHashLen_def
    by (cases "i mod 2 = 1"; cases "i mod 3 = 0"; cases "i mod 7 = 0"; simp, rule firsts, (erule steps)+, drule Final_ok,
        simp add: round_text_def)
qed

lemma encode_rounds_ok:
  assumes "length (ctx_buffer c) = 64" "length h = 16" "small pw" "n = length pw" "take n p = pw" "n \<le> length p"
    and "take sl sp = s" "sl \<le> length sp" "small s"
  shows "\<exists>c'. encode_rounds p n sp sl i k (h, c) = Some (fold (\<lambda>i h. md5 (round_text pw s i h)) [i..<i + k] h, c')"
  using assms(1,2)
proof (induction k arbitrary: i h c)
  case (Suc k)
  have "encode_round p n sp sl i (h, c) = Some (md5 (round_text pw s i h), MD5_zero)"
    by (rule encode_round_ok [OF Suc.prems assms(3-9)])
  moreover have "[i..<i + Suc k] = i # [i + 1..<i + 1 + k]" by (simp add: upt_conv_Cons)
  ultimately show ?case using Suc.IH [OF zero_buffer length_md5, of "i + 1"] by simp
qed simp

text \<open>The characters of the digest.\<close>

lemma length_chars64 [simp]: "length (chars64 v n) = n"
  by (induction n arbitrary: v) auto

lemma to64_ok:
  assumes "s = length t" "n \<le> length u"
  shows "to64 (t @ u) s v n = Some (t @ chars64 v n @ drop n u)"
  using assms
proof (induction n arbitrary: s t u v)
  case (Suc n)
  obtain a u' where u: "u = a # u'" using Suc.prems(2) by (cases u) auto
  let ?x = "itoa64 ! unat (v AND 0x3f)"
  have "write_at (t @ u) s [?x] = Some ((t @ [?x]) @ u')" using Suc.prems by (simp add: u write_app)
  moreover have "to64 ((t @ [?x]) @ u') (s + 1) (signed_drop_bit 6 v) n =
      Some ((t @ [?x]) @ chars64 (signed_drop_bit 6 v) n @ drop n u')"
    using Suc.prems by (intro Suc.IH) (simp_all add: u)
  ultimately show ?case by (simp add: u)
qed simp

lemma itoa64_chars: "unat (v AND 0x3f :: UInt32) < 64" "NUL \<notin> set itoa64" "CHR ''$'' \<notin> set itoa64" "length itoa64 = 64"
proof -
  have "v AND 0x3f \<le> 0x3f" by (rule word_and_le1)
  then show "unat (v AND 0x3f :: UInt32) < 64" by (simp add: word_le_nat_alt)
qed (simp_all add: itoa64_def)

lemma chars64_set: "set (chars64 v n) \<subseteq> set itoa64"
proof (induction n arbitrary: v)
  case (Suc n)
  have "itoa64 ! unat (v AND 0x3f) \<in> set itoa64" using itoa64_chars by (intro nth_mem) simp
  then show ?case using Suc.IH by simp
qed simp

lemma text64_ok: "length (text64 h) = 22" "NUL \<notin> set (text64 h)"
  using chars64_set itoa64_chars(2) by (auto simp: text64_def simp del: chars64.simps)

lemma encode_final_ok:
  assumes "length h = 16" "p = length t" "23 \<le> length u"
  shows "encode_final h (t @ u) p = Some (t @ text64 h @ NUL # drop 23 u)"
proof -
  let ?x = "[chars64 (word3 (h ! 0) (h ! 6) (h ! 12)) 4, chars64 (word3 (h ! 1) (h ! 7) (h ! 13)) 4,
    chars64 (word3 (h ! 2) (h ! 8) (h ! 14)) 4, chars64 (word3 (h ! 3) (h ! 9) (h ! 15)) 4,
    chars64 (word3 (h ! 4) (h ! 10) (h ! 5)) 4, chars64 (of_nat (byte (h ! 11))) 2]"
  have 1: "to64 (t @ u) p v 4 = Some (t @ chars64 v 4 @ drop 4 u)" for v
    using assms by (intro to64_ok) simp_all
  have 2: "to64 (t @ a @ drop 4 u) (p + 4) v 4 = Some (t @ a @ chars64 v 4 @ drop 8 u)" if "length a = 4" for a v
    using assms that to64_ok [of "p + 4" "t @ a" 4 "drop 4 u" v] by simp
  have 3: "to64 (t @ a @ b @ drop 8 u) (p + 8) v 4 = Some (t @ a @ b @ chars64 v 4 @ drop 12 u)" if "length a = 4" "length b = 4" for a b v
    using assms that to64_ok [of "p + 8" "t @ a @ b" 4 "drop 8 u" v] by simp
  have 4: "to64 (t @ a @ b @ c @ drop 12 u) (p + 12) v 4 = Some (t @ a @ b @ c @ chars64 v 4 @ drop 16 u)"
    if "length a = 4" "length b = 4" "length c = 4" for a b c v
    using assms that to64_ok [of "p + 12" "t @ a @ b @ c" 4 "drop 12 u" v] by simp
  have 5: "to64 (t @ a @ b @ c @ d @ drop 16 u) (p + 16) v 4 = Some (t @ a @ b @ c @ d @ chars64 v 4 @ drop 20 u)"
    if "length a = 4" "length b = 4" "length c = 4" "length d = 4" for a b c d v
    using assms that to64_ok [of "p + 16" "t @ a @ b @ c @ d" 4 "drop 16 u" v] by simp
  have 6: "to64 (t @ a @ b @ c @ d @ e @ drop 20 u) (p + 20) v 2 = Some (t @ a @ b @ c @ d @ e @ chars64 v 2 @ drop 22 u)"
    if "length a = 4" "length b = 4" "length c = 4" "length d = 4" "length e = 4" for a b c d e v
    using assms that to64_ok [of "p + 20" "t @ a @ b @ c @ d @ e" 2 "drop 20 u" v] by simp
  have 7: "write_at (t @ a @ b @ c @ d @ e @ f @ drop 22 u) (p + 22) [NUL] = Some (t @ a @ b @ c @ d @ e @ f @ NUL # drop 23 u)"
    if "length a = 4" "length b = 4" "length c = 4" "length d = 4" "length e = 4" "length f = 2" for a b c d e f
    using assms that write_app [of "p + 22" "t @ a @ b @ c @ d @ e @ f" "[NUL]" "drop 22 u"] by simp
  have r: "i < 16 \<Longrightarrow> rd h i = Some (h ! i)" for i using assms(1) by simp
  show ?thesis
    by (simp add: encode_final_def pack3_def r word3_def [symmetric] 1 2 3 4 5 6 7 text64_def del: chars64.simps)
qed

section \<open>Properties\<close>

lemma bind_pl:
  assumes "represents c m" "length h = 16" "\<And>c'. represents c' (m @ prefix_of h n) \<Longrightarrow> k c' = R"
  shows "(pl_loop c h (int n) \<bind> k) = R"
  using pl_loop_ok [OF assms(1,2), of n] assms(3) by auto

lemma bind_weird:
  assumes "represents c m" "i = 0 \<or> pw \<noteq> []" "\<And>c'. represents c' (m @ weird_bytes (hd pw) i) \<Longrightarrow> k c' = R"
  shows "(weird_loop c (replicate 16 NUL) pw i \<bind> k) = R"
  using weird_loop_ok [OF assms(1,2)] assms(3) by auto

text \<open>Building the text in its buffer.\<close>

lemma strcpy_ok:
  assumes "NUL \<notin> set d" "length d < length u"
  shows "strcpy u (cstring d) = Some (d @ NUL # drop (length d + 1) u)"
  using assms by (simp add: strcpy_def cstring_def write_at_def)

lemma strncat_ok:
  assumes "NUL \<notin> set d" "NUL \<notin> set t" "take n src = t" "n = length t" "n \<le> length u"
  shows "strncat (d @ NUL # u) src n = Some (d @ t @ NUL # drop n u)"
proof -
  have "takeWhile (\<lambda>c. c \<noteq> NUL) (take n src) = t" using assms(2,3) by (auto simp: takeWhile_eq_all_conv)
  then show ?thesis using assms(1,4,5) write_app [of "length d" d "t @ [NUL]" "NUL # u"] by (simp add: strncat_def Let_def)
qed

lemma strcat_ok:
  assumes "NUL \<notin> set d" "NUL \<notin> set t" "length t \<le> length u"
  shows "strcat (d @ NUL # u) (cstring t) = Some (d @ t @ NUL # drop (length t) u)"
  using assms write_app [of "length d" d "t @ [NUL]" "NUL # u"] by (simp add: strcat_def cstring_def)

lemma strncpy_ok:
  assumes "NUL \<notin> set t" "length t < n" "n \<le> length u"
  shows "strncpy u (t @ NUL # r) n = Some (t @ replicate (n - length t) NUL @ drop n u)"
proof -
  have "takeWhile (\<lambda>c. c \<noteq> NUL) (take n (t @ NUL # r)) = t" using assms(1,2) by (simp add: take_Cons')
  then show ?thesis using assms by (simp add: strncpy_def write_at_def)
qed

lemma MD5Encode_ok:
  assumes "length (ctx_buffer ctx) = 64" "length (ctx_buffer ctx1) = 64" "length passwd = 120"
    and "NUL \<notin> set pw" "length pw < 2 ^ 31" "NUL \<notin> set t"
    and "31 + length (salt_of t) \<le> nat nbytes" "nat nbytes \<le> length result" "nbytes < 2 ^ 64"
  shows "MD5Encode ctx ctx1 passwd (pw @ NUL # x) (t @ NUL # y) result nbytes =
    Some (dufr_text pw t @ replicate (nat nbytes - 1 - length (dufr_text pw t)) NUL @ drop (nat nbytes - 1) result)"
proof -
  let ?t = "if take 6 t = dufr_id then drop 6 t else t"
  let ?sp = "?t @ NUL # y" and ?s = "salt_of t" and ?n = "length pw" and ?p = "pw @ NUL # x"
  let ?sl = "length ?s"
  have N: "NUL \<notin> set ?t" using assms(6) by (auto dest: in_set_dropD)
  have l6: "length dufr_id = 6" "NUL \<notin> set dufr_id" by (simp_all add: dufr_id_def)
  have pre: "strncmp_eq (t @ NUL # y) (cstring dufr_id) (length dufr_id) = Some (take 6 t = dufr_id)"
    using strncmp_prefix [OF assms(6) l6(2)] l6(1) by simp
  have sp: "(if take 6 t = dufr_id then drop (length dufr_id) (t @ NUL # y) else t @ NUL # y) = ?sp"
  proof (cases "take 6 t = dufr_id")
    case True
    then have "6 \<le> length t" using l6(1) by (metis length_take min.cobounded1)
    then show ?thesis using True l6(1) by simp
  qed simp
  have sl: "salt_end ?sp 0 = Some ?sl" using salt_end_ok [OF N, of 0 y] by (simp add: salt_of_def)
  have s: "take ?sl ?sp = ?s" "?sl \<le> length ?sp" "small ?s"
  proof -
    have "?s = take 8 (takeWhile (\<lambda>c. c \<noteq> CHR ''$'') ?t)" by (simp add: salt_of_def)
    also have "\<dots> = take (min 8 (length (takeWhile (\<lambda>c. c \<noteq> CHR ''$'') ?t))) ?t"
      by (metis take_take takeWhile_eq_take)
    finally obtain k where k: "?s = take k ?t" by blast
    then show "take ?sl ?sp = ?s" by (simp add: min_def)
    show "?sl \<le> length ?sp" using k by simp
    show "small ?s" using salt_chars [OF assms(6)] by (simp add: small_def)
  qed
  have pw: "take ?n ?p = pw" "?n \<le> length ?p" "small pw" "strlen ?p = Some ?n"
    using assms(4,5) by (simp_all add: small_def)
  let ?d = "md5 (pw @ dufr_id @ ?s @ prefix_of (md5 (pw @ ?s @ pw)) ?n @ weird_bytes (hd pw) ?n)"
  have hd: "hd ?p = hd pw" if "pw \<noteq> []" using that by simp
  have w: "weird_bytes (hd ?p) ?n = weird_bytes (hd pw) ?n" by (cases "pw = []") (simp_all add: weird_bytes.simps)
  have b1: "strcpy passwd (cstring dufr_id) = Some (dufr_id @ NUL # drop 7 passwd)"
    using strcpy_ok [OF l6(2), of passwd] assms(3) l6(1) by simp
  have sc: "NUL \<notin> set ?s" "?sl \<le> 8" using salt_chars [OF assms(6)] by simp_all
  let ?u = "drop ?sl (drop 7 passwd)"
  have b2: "strncat (dufr_id @ NUL # drop 7 passwd) ?sp ?sl = Some ((dufr_id @ ?s) @ NUL # ?u)"
    using strncat_ok [OF l6(2) sc(1) s(1), of "drop 7 passwd"] assms(3) sc(2) by simp
  have b3: "strcat ((dufr_id @ ?s) @ NUL # ?u) (cstring ''$'') = Some ((dufr_id @ ?s @ ''$'') @ NUL # drop 1 ?u)"
    using strcat_ok [of "dufr_id @ ?s" "''$''" ?u] l6(2) sc assms(3) by simp
  have sl3: "strlen ((dufr_id @ ?s @ ''$'') @ NUL # drop 1 ?u) = Some (7 + ?sl)"
    using strlen_append [of "dufr_id @ ?s @ ''$''"] l6 sc by simp
  obtain c' where r: "encode_rounds ?p ?n ?sp ?sl 0 1000 (?d, MD5_zero) = Some (dufr_hash pw ?s, c')"
    using encode_rounds_ok [OF zero_buffer length_md5 pw(3) refl pw(1,2) s, of 0 1000] by (auto simp: dufr_hash_def)
  have ld: "length (dufr_hash pw ?s) = 16"
  proof -
    have "length (fold (\<lambda>i h. md5 (round_text pw ?s i h)) is h) = 16" if "length h = 16" for "is" h
      using that by (induction "is" arbitrary: h) auto
    then show ?thesis unfolding dufr_hash_def by (metis length_md5)
  qed
  have f: "encode_final (dufr_hash pw ?s) ((dufr_id @ ?s @ ''$'') @ NUL # drop 1 ?u) (7 + ?sl) =
      Some (dufr_text pw t @ NUL # drop 23 (NUL # drop 1 ?u))"
    using encode_final_ok [OF ld, of "7 + ?sl" "dufr_id @ ?s @ ''$''" "NUL # drop 1 ?u"] l6(1) assms(3) sc(2)
    by (simp add: dufr_text_def)
  have lt: "length (dufr_text pw t) = 29 + ?sl" "NUL \<notin> set (dufr_text pw t)"
    using l6 sc(1) text64_ok by (simp_all add: dufr_text_def)
  have nb: "nat ((nbytes - 1) mod 2 ^ 64) = nat nbytes - 1" using assms(7,9) by simp
  have e: "strncpy result (dufr_text pw t @ NUL # drop 23 (NUL # drop 1 ?u)) (nat nbytes - 1) =
      Some (dufr_text pw t @ replicate (nat nbytes - 1 - length (dufr_text pw t)) NUL @ drop (nat nbytes - 1) result)"
    using assms(7,8) lt by (intro strncpy_ok) simp_all
  note start = represents_init [THEN bind_ptr, OF _ pw(1-3)]
  have id: "take (length dufr_id) (cstring dufr_id) = dufr_id" "length dufr_id \<le> length (cstring dufr_id)" "small dufr_id"
    using l6(1) by (simp_all add: cstring_def small_def)
  have n0: "?n = 0 \<or> ?p \<noteq> []" by simp
  show ?thesis
    unfolding MD5Encode_def Let_def
    by (simp only: pre Option.bind.bind_lunit sp sl pw(4) assms(5) if_True, rule start [OF assms(1)],
        erule bind_ptr [OF _ id], erule bind_ptr [OF _ s], rule start [OF assms(2)], erule bind_ptr [OF _ s],
        erule bind_ptr [OF _ pw(1-3)], erule bind_Final, simp only: prod.case, erule bind_pl [OF _ length_md5],
        simp only: kHashLen_def, erule bind_weird [OF _ n0], simp only: b1 b2 b3 sl3 Option.bind.bind_lunit,
        erule bind_Final,
        simp only: w append.assoc append_Nil prod.case r sl3 f [unfolded append.assoc] nb e Option.bind.bind_lunit)
qed

text \<open>C26: The response that the two steps of digest authentication compute, the hash of the user's
  secret and the hash of the request, is the one of RFC 2617: with or without a session hash, with or
  without a quality of protection and the body in it. Every argument may be a null pointer of length
  zero, and what the contexts on the stack held before has no influence.\<close>

theorem response_correct:
  assumes "length (ctx_buffer ctx) = 64" "length (ctx_buffer ctx') = 64"
    and "arg algorithm a" "arg user u" "arg realm r" "arg pw p" "arg nonce n" "arg cnonce c"
    and "arg nonceCount nc" "arg qop q" "arg method me" "arg uri ur" "arg hEntity en"
  shows "(do {
      hA1 \<leftarrow> CalcHA1 ctx algorithm user realm pw nonce cnonce StrPtrLen_null;
      CalcRequestDigest ctx' hA1 nonce nonceCount cnonce qop method uri hEntity StrPtrLen_null
    }) = Some (hex_spl (response_spec (HA1_spec a u r p n c) n nc c (if Ptr qop = None then None else Some q) (HA2_spec q me ur en)))"
proof -
  have "length (HA1_spec a u r p n c) = 16" by (simp add: HA1_spec_def Let_def)
  then show ?thesis using assms by (simp add: CalcHA1_ok CalcRequestDigest_ok)
qed

definition spl_text :: "string \<Rightarrow> StrPtrLen" where
  "spl_text t = StrPtrLen_of (Some t) (length t)"

lemma arg_spl_text: "small t \<Longrightarrow> arg (spl_text t) t"
  by (simp add: arg_def spl_text_def StrPtrLen_of_def bytes_of_def)

lemma Ptr_spl_text: "Ptr (spl_text t) = Some t"
  by (simp add: spl_text_def StrPtrLen_of_def)

lemma arg_null: "arg StrPtrLen_null []"
  by (simp add: arg_def StrPtrLen_null_def bytes_of_def small_def)

text \<open>The request of section 3.5 of RFC 2617.\<close>

theorem response_correct_witness:
  "(do {
      hA1 \<leftarrow> CalcHA1 ex_ctx (spl_text ''md5'') (spl_text ''Mufasa'') (spl_text ''testrealm@host.com'') (spl_text ''Circle Of Life'')
        (spl_text ''dcd98b7102dd2f0e8b11d0f600bfb0c093'') (spl_text ''0a4f113b'') StrPtrLen_null;
      CalcRequestDigest ex_ctx hA1 (spl_text ''dcd98b7102dd2f0e8b11d0f600bfb0c093'') (spl_text ''00000001'') (spl_text ''0a4f113b'')
        (spl_text ''auth'') (spl_text ''GET'') (spl_text ''/dir/index.html'') StrPtrLen_null StrPtrLen_null
    }) = Some (hex_spl (md5 (hex_text (md5 ''Mufasa:testrealm@host.com:Circle Of Life'') @
      '':dcd98b7102dd2f0e8b11d0f600bfb0c093:00000001:0a4f113b:auth:'' @ hex_text (md5 ''GET:/dir/index.html''))))"
  using response_correct [of ex_ctx ex_ctx "spl_text ''md5''" "''md5''" "spl_text ''Mufasa''" "''Mufasa''" "spl_text ''testrealm@host.com''"
      "''testrealm@host.com''" "spl_text ''Circle Of Life''" "''Circle Of Life''" "spl_text ''dcd98b7102dd2f0e8b11d0f600bfb0c093''"
      "''dcd98b7102dd2f0e8b11d0f600bfb0c093''" "spl_text ''0a4f113b''" "''0a4f113b''" "spl_text ''00000001''" "''00000001''"
      "spl_text ''auth''" "''auth''" "spl_text ''GET''" "''GET''" "spl_text ''/dir/index.html''" "''/dir/index.html''" StrPtrLen_null "[]"]
  by (simp add: arg_spl_text arg_null small_def ex_ctx_def response_spec_def HA1_spec_def HA2_spec_def Ptr_spl_text)

text \<open>A server that stores only the binary hash of a user's secret computes the same session hash
  from it as a client that has the password: \<^verbatim>\<open>CalcMD5HA1\<close> followed by
  \<^verbatim>\<open>CalcHA1Md5Sess\<close> is \<^verbatim>\<open>CalcHA1\<close> with the algorithm
  \<^verbatim>\<open>md5-sess\<close>.\<close>

theorem HA1_session_agrees:
  assumes "length (ctx_buffer ctx) = 64" "length (ctx_buffer ctx') = 64" "length (ctx_buffer ctx'') = 64"
    and "arg algorithm ''md5-sess''" "arg user u" "arg realm r" "arg pw p" "arg nonce n" "arg cnonce c"
  shows "(do {
      h \<leftarrow> CalcMD5HA1 ctx user realm pw StrPtrLen_null;
      CalcHA1Md5Sess ctx' h nonce cnonce StrPtrLen_null
    }) = CalcHA1 ctx'' algorithm user realm pw nonce cnonce StrPtrLen_null"
proof -
  let ?h = "md5 (u @ '':'' @ r @ '':'' @ p)"
  have "arg \<lparr>Ptr = Some ?h, Len = kHashLen\<rparr> ?h" by (simp add: arg_def bytes_of_def kHashLen_def small_def)
  then show ?thesis
    using CalcHA1Md5Sess_ok [OF assms(2) _ _ assms(8,9)] CalcMD5HA1_ok [OF assms(1,5-7)] CalcHA1_ok [OF assms(3-9)]
    by (simp add: HA1_spec_def Let_def)
qed

theorem HA1_session_agrees_witness:
  "(do {
      h \<leftarrow> CalcMD5HA1 ex_ctx (spl_text ''u'') StrPtrLen_null (spl_text ''p'') StrPtrLen_null;
      CalcHA1Md5Sess ex_ctx h (spl_text ''n'') (spl_text ''c'') StrPtrLen_null
    }) = CalcHA1 ex_ctx (spl_text ''md5-sess'') (spl_text ''u'') StrPtrLen_null (spl_text ''p'') (spl_text ''n'') (spl_text ''c'') StrPtrLen_null"
  using HA1_session_agrees [of ex_ctx ex_ctx ex_ctx "spl_text ''md5-sess''" "spl_text ''u''" "''u''" StrPtrLen_null "[]" "spl_text ''p''" "''p''"
      "spl_text ''n''" "''n''" "spl_text ''c''" "''c''"]
  by (simp add: arg_spl_text arg_null small_def ex_ctx_def)

text \<open>C27: A stored password can be checked: hashing a password with any salt gives a text that holds the
  salt, and hashing the same password with that whole text as the salt gives the same text again, so
  that comparing the two texts recognises the password. Both calls stay within their buffers whatever
  these held before, and the text of 29 characters and the salt is the thousandfold digest of the
  scheme.\<close>

theorem MD5Encode_verify:
  assumes "length (ctx_buffer ctx) = 64" "length (ctx_buffer ctx1) = 64" "length passwd = 120"
    and "NUL \<notin> set pw" "length pw < 2 ^ 31" "NUL \<notin> set t"
    and "31 + length (salt_of t) \<le> nat nbytes" "nat nbytes \<le> length result" "nbytes < 2 ^ 64"
  shows "\<exists>y'. MD5Encode ctx ctx1 passwd (cstring pw) (cstring t) result nbytes = Some (dufr_text pw t @ NUL # y') \<and>
    (\<exists>y''. MD5Encode ctx ctx1 passwd (cstring pw) (dufr_text pw t @ NUL # y') result nbytes = Some (dufr_text pw t @ NUL # y''))"
proof -
  let ?h = "dufr_text pw t"
  have s: "salt_of ?h = salt_of t" unfolding dufr_text_def by (rule salt_of_stored [OF assms(6)])
  then have d: "dufr_text pw ?h = ?h" by (simp add: dufr_text_def)
  have l: "length ?h = 29 + length (salt_of t)" by (simp add: dufr_text_def dufr_id_def text64_ok)
  have N: "NUL \<notin> set ?h" using text64_ok salt_chars [OF assms(6)] by (simp add: dufr_text_def dufr_id_def)
  obtain k where k: "nat nbytes - 1 - length ?h = Suc k" using assms(7) l by (intro that [of "nat nbytes - 2 - length ?h"]) simp
  let ?y = "replicate k NUL @ drop (nat nbytes - 1) result"
  have 1: "MD5Encode ctx ctx1 passwd (cstring pw) (cstring t) result nbytes = Some (?h @ NUL # ?y)"
    using MD5Encode_ok [OF assms, of "[]" "[]"] k by (simp add: cstring_def)
  have 2: "MD5Encode ctx ctx1 passwd (cstring pw) (?h @ NUL # ?y) result nbytes = Some (?h @ NUL # ?y)"
    using MD5Encode_ok [OF assms(1-5) N _ assms(8,9), of "[]" ?y] assms(7) k by (simp add: cstring_def s d)
  show ?thesis using 1 2 by blast
qed

theorem MD5Encode_verify_witness:
  "\<exists>y'. MD5Encode ex_ctx ex_ctx (replicate 120 NUL) (cstring ''secret'') (cstring ''Zq$x'') (replicate 64 NUL) 64 =
      Some (dufr_text ''secret'' ''Zq$x'' @ NUL # y') \<and>
    (\<exists>y''. MD5Encode ex_ctx ex_ctx (replicate 120 NUL) (cstring ''secret'') (dufr_text ''secret'' ''Zq$x'' @ NUL # y')
      (replicate 64 NUL) 64 = Some (dufr_text ''secret'' ''Zq$x'' @ NUL # y''))"
  using MD5Encode_verify [of ex_ctx ex_ctx "replicate 120 NUL" "''secret''" "''Zq$x''" 64 "replicate 64 NUL"]
  by (simp add: ex_ctx_def salt_of_def dufr_id_def)

end
