(* ===== verification/CF_UDP.thy ===== *)
theory CF_UDP
  imports CF_Ref
begin

text \<open>
  The UDP side of the socket library: the demultiplexer of
  \<^verbatim>\<open>src/CFSocket/UDPDemuxer.cpp\<close>, which finds the task of a remote address and
  port through the hash table of theory \<open>CF_HashTable\<close>, and the pool of pairs of sockets
  on adjacent ports of \<^verbatim>\<open>src/CFSocket/UDPSocketPool.cpp\<close>. The mutexes make each
  operation atomic. The queue of pairs is the list of their addresses, oldest first, as
  theory \<open>CF_Queue\<close> shows. The pairs are built and deleted by virtual functions of a
  class that is not in the repository, and opening and binding is done by the operating
  system: their answers are arguments, given for every pair, so that they can be any.
  \<^term>\<open>None\<close> is a failed assertion, an access to a deleted pair, or a loop that does
  not end.
\<close>

section \<open>The demultiplexer\<close>

record UDPDemuxerTask =
  fRemoteAddr :: UInt32
  fRemotePort :: UInt16
  fHashValue :: UInt32

record UDPDemuxer =
  dmTasks :: "entry \<Rightarrow> UDPDemuxerTask"
  dmTable :: "links \<times> HashTable"

definition ComputeHashValue :: "UInt32 \<Rightarrow> UInt16 \<Rightarrow> UInt32" where
  "ComputeHashValue inRemoteAddr inRemotePort = push_bit 16 inRemoteAddr + ucast inRemotePort"

definition UDPDemuxerTask_new :: UDPDemuxerTask where
  "UDPDemuxerTask_new = \<lparr>fRemoteAddr = 0, fRemotePort = 0, fHashValue = 0\<rparr>"

definition UDPDemuxerTask_set :: "UInt32 \<Rightarrow> UInt16 \<Rightarrow> UDPDemuxerTask \<Rightarrow> UDPDemuxerTask" where
  "UDPDemuxerTask_set inRemoteAddr inRemotePort t =
     t\<lparr>fRemoteAddr := inRemoteAddr, fRemotePort := inRemotePort,
       fHashValue := ComputeHashValue inRemoteAddr inRemotePort\<rparr>"

definition kMaxHashTableSize :: nat where "kMaxHashTableSize = 2747"

definition UDPDemuxer_new :: "(entry \<Rightarrow> UDPDemuxerTask) \<Rightarrow> UDPDemuxer" where
  "UDPDemuxer_new ts = \<lparr>dmTasks = ts, dmTable = (\<lambda>_. None, HashTable_new kMaxHashTableSize)\<rparr>"

definition task_hash :: "UDPDemuxer \<Rightarrow> entry \<Rightarrow> nat" where
  "task_hash d e = unat (fHashValue (dmTasks d e))"

definition GetTask :: "UDPDemuxer \<Rightarrow> UInt32 \<Rightarrow> UInt16 \<Rightarrow> entry option option" where
  "GetTask d inRemoteAddr inRemotePort =
     Map (dmTable d) (unat (ComputeHashValue inRemoteAddr inRemotePort))
       (\<lambda>e. fRemoteAddr (dmTasks d e) = inRemoteAddr \<and> fRemotePort (dmTasks d e) = inRemotePort)"

definition RegisterTask :: "UDPDemuxer \<Rightarrow> UInt32 \<Rightarrow> UInt16 \<Rightarrow> entry option \<Rightarrow> (OS_Error \<times> UDPDemuxer) option" where
  "RegisterTask d inRemoteAddr inRemotePort inTaskP =
     do {
       Assert (inTaskP \<noteq> None);
       r \<leftarrow> GetTask d inRemoteAddr inRemotePort;
       if r \<noteq> None then Some (EPERM, d)
       else do {
         e \<leftarrow> inTaskP;
         let d1 = d\<lparr>dmTasks := (dmTasks d)(e := UDPDemuxerTask_set inRemoteAddr inRemotePort (dmTasks d e))\<rparr>;
         t \<leftarrow> Add (task_hash d1) (dmTable d1) e;
         Some (OS_NoErr, d1\<lparr>dmTable := t\<rparr>)
       }
     }"

definition UnregisterTask :: "UDPDemuxer \<Rightarrow> UInt32 \<Rightarrow> UInt16 \<Rightarrow> entry option \<Rightarrow> (OS_Error \<times> UDPDemuxer) option" where
  "UnregisterTask d inRemoteAddr inRemotePort inTaskP =
     do {
       theTask \<leftarrow> GetTask d inRemoteAddr inRemotePort;
       case theTask of
         Some e \<Rightarrow>
           (if theTask = inTaskP
            then do { t \<leftarrow> Remove_h (task_hash d) (dmTable d) e; Some (OS_NoErr, d\<lparr>dmTable := t\<rparr>) }
            else Some (EPERM, d))
       | None \<Rightarrow> Some (EPERM, d)
     }"

definition AddrInMap :: "UDPDemuxer \<Rightarrow> UInt32 \<Rightarrow> UInt16 \<Rightarrow> bool option" where
  "AddrInMap d inRemoteAddr inRemotePort = map_option (\<lambda>r. r \<noteq> None) (GetTask d inRemoteAddr inRemotePort)"

section \<open>Sockets and pairs\<close>

text \<open>What the pool uses of a socket: whether it has a descriptor, its local address and its demultiplexer.\<close>

record UDPSocket =
  sOpened :: bool
  fLocalAddr :: UInt32
  fLocalPort :: UInt16
  fDemuxer :: "UDPDemuxer option"

definition UDPSocket_Open :: "bool \<Rightarrow> UDPSocket \<Rightarrow> (bool \<times> UDPSocket) option" where
  "UDPSocket_Open os s = do { Assert (\<not> sOpened s); Some (os, s\<lparr>sOpened := os\<rparr>) }"

text \<open>\<open>os\<close> is the address that the system reports after a successful \<^verbatim>\<open>bind\<close>.\<close>

definition UDPSocket_Bind :: "(UInt32 \<times> UInt16) option \<Rightarrow> UDPSocket \<Rightarrow> bool \<times> UDPSocket" where
  "UDPSocket_Bind os s =
     (case os of
        None \<Rightarrow> (False, s\<lparr>fLocalAddr := 0, fLocalPort := 0\<rparr>)
      | Some (addr, port) \<Rightarrow> (True, s\<lparr>fLocalAddr := addr, fLocalPort := port\<rparr>))"

record UDPSocketPair =
  fSocketA :: UDPSocket
  fSocketB :: UDPSocket
  fRefCount :: UInt32

record UDPSocketPool =
  udpPairs :: "nat \<Rightarrow> UDPSocketPair option"
  fUDPQueue :: "nat list"
  udpFresh :: nat

definition UDPSocketPool_new :: UDPSocketPool where
  "UDPSocketPool_new = \<lparr>udpPairs = (\<lambda>_. None), fUDPQueue = [], udpFresh = 0\<rparr>"

text \<open>
  The answers: the pair that \<^verbatim>\<open>ConstructUDPSocketPair\<close> builds at an address
  (\<open>None\<close> for a null pointer), and for socket A (\<open>False\<close>) or B (\<open>True\<close>) of the pair at an
  address whether it can be opened and what binding it to an address and port gives.
\<close>

record UDPEnv =
  ConstructUDPSocketPair :: "nat \<Rightarrow> UDPSocketPair option"
  os_open :: "nat \<Rightarrow> bool \<Rightarrow> bool"
  os_bind :: "nat \<Rightarrow> bool \<Rightarrow> UInt32 \<Rightarrow> UInt16 \<Rightarrow> (UInt32 \<times> UInt16) option"

section \<open>The pool\<close>

definition kLowestUDPPort :: UInt16 where "kLowestUDPPort = 6970"
definition kHighestUDPPort :: UInt16 where "kHighestUDPPort = 65535"

datatype attempt = OpenFailed | BindFailed | Bound

text \<open>One round of the loop: open both sockets, bind A to the port and B to the next one.\<close>

definition try_pair :: "UDPEnv \<Rightarrow> UInt32 \<Rightarrow> UInt16 \<Rightarrow> nat \<Rightarrow> UDPSocketPair \<Rightarrow> (attempt \<times> UDPSocketPair) option" where
  "try_pair env inAddr socketAPort a thePair =
     do {
       let socketBPort = socketAPort + 1;
       (okA, sa) \<leftarrow> UDPSocket_Open (os_open env a False) (fSocketA thePair);
       if \<not> okA then Some (OpenFailed, thePair\<lparr>fSocketA := sa\<rparr>)
       else do {
         (okB, sb) \<leftarrow> UDPSocket_Open (os_open env a True) (fSocketB thePair);
         if \<not> okB then Some (OpenFailed, thePair\<lparr>fSocketA := sa, fSocketB := sb\<rparr>)
         else
           (let (bindA, sa1) = UDPSocket_Bind (os_bind env a False inAddr socketAPort) sa
            in if \<not> bindA then Some (BindFailed, thePair\<lparr>fSocketA := sa1, fSocketB := sb\<rparr>)
               else
                 (let (bindB, sb1) = UDPSocket_Bind (os_bind env a True inAddr socketBPort) sb
                  in Some (if bindB then Bound else BindFailed, thePair\<lparr>fSocketA := sa1, fSocketB := sb1\<rparr>)))
       }
     }"

definition DestructUDPSocketPair :: "nat \<Rightarrow> UDPSocketPool \<Rightarrow> UDPSocketPool" where
  "DestructUDPSocketPair a pool = pool\<lparr>udpPairs := (udpPairs pool)(a := None)\<rparr>"

definition put_pair :: "nat \<Rightarrow> UDPSocketPair \<Rightarrow> UDPSocketPool \<Rightarrow> UDPSocketPool" where
  "put_pair a P pool = pool\<lparr>udpPairs := (udpPairs pool)(a \<mapsto> P)\<rparr>"

partial_function (option) create_loop ::
  "UDPEnv \<Rightarrow> UInt32 \<Rightarrow> UInt16 \<Rightarrow> UInt16 \<Rightarrow> UDPSocketPool \<Rightarrow> (nat option \<times> UDPSocketPool) option" where
  "create_loop env inAddr inPort socketAPort pool =
     (if socketAPort < kHighestUDPPort then
        do {
          let a = udpFresh pool;
          thePair \<leftarrow> ConstructUDPSocketPair env a;
          (r, P) \<leftarrow> try_pair env inAddr socketAPort a thePair;
          let pool1 = put_pair a P (pool\<lparr>udpFresh := a + 1\<rparr>);
          if r = Bound then
            Some (Some a, put_pair a (P\<lparr>fRefCount := fRefCount P + 1\<rparr>) (pool1\<lparr>fUDPQueue := fUDPQueue pool1 @ [a]\<rparr>))
          else if r = OpenFailed \<or> inPort \<noteq> 0 then Some (None, DestructUDPSocketPair a pool1)
          else create_loop env inAddr inPort (socketAPort + 2) (DestructUDPSocketPair a pool1)
        }
      else Some (None, pool))"

declare create_loop.simps [code]

definition CreateUDPSocketPair :: "UDPEnv \<Rightarrow> UDPSocketPool \<Rightarrow> UInt32 \<Rightarrow> UInt16 \<Rightarrow> (nat option \<times> UDPSocketPool) option" where
  "CreateUDPSocketPair env pool inAddr inPort =
     create_loop env inAddr inPort (if inPort \<noteq> 0 then inPort else kLowestUDPPort) pool"

text \<open>The loop over the queue: a pair, the early return of a null pointer, or the end of the queue.\<close>

datatype found = Found nat | GiveUp | NotFound

definition addr_busy :: "UDPSocket \<Rightarrow> UInt32 \<Rightarrow> UInt16 \<Rightarrow> bool option" where
  "addr_busy s inSrcIPAddr inSrcPort =
     (case fDemuxer s of
        None \<Rightarrow> Some False
      | Some d \<Rightarrow> do { b \<leftarrow> AddrInMap d 0 0; if b then Some True else AddrInMap d inSrcIPAddr inSrcPort })"

fun search_pair :: "UDPSocketPool \<Rightarrow> UInt32 \<Rightarrow> UInt16 \<Rightarrow> UInt32 \<Rightarrow> UInt16 \<Rightarrow> nat list \<Rightarrow> found option" where
  "search_pair pool inIPAddr inPort inSrcIPAddr inSrcPort [] = Some NotFound"
| "search_pair pool inIPAddr inPort inSrcIPAddr inSrcPort (e # es) =
     do {
       theElem \<leftarrow> udpPairs pool e;
       if fLocalAddr (fSocketA theElem) = inIPAddr \<and> (inPort = 0 \<or> fLocalPort (fSocketA theElem) = inPort)
       then do {
         busy \<leftarrow> addr_busy (fSocketB theElem) inSrcIPAddr inSrcPort;
         if \<not> busy then Some (Found e)
         else if inPort \<noteq> 0 then Some GiveUp
         else search_pair pool inIPAddr inPort inSrcIPAddr inSrcPort es
       }
       else search_pair pool inIPAddr inPort inSrcIPAddr inSrcPort es
     }"

definition GetUDPSocketPair ::
  "UDPEnv \<Rightarrow> UDPSocketPool \<Rightarrow> UInt32 \<Rightarrow> UInt16 \<Rightarrow> UInt32 \<Rightarrow> UInt16 \<Rightarrow> (nat option \<times> UDPSocketPool) option" where
  "GetUDPSocketPair env pool inIPAddr inPort inSrcIPAddr inSrcPort =
     (if inSrcIPAddr \<noteq> 0 \<or> inSrcPort \<noteq> 0 then
        do {
          r \<leftarrow> search_pair pool inIPAddr inPort inSrcIPAddr inSrcPort (fUDPQueue pool);
          case r of
            Found e \<Rightarrow>
              do { P \<leftarrow> udpPairs pool e; Some (Some e, put_pair e (P\<lparr>fRefCount := fRefCount P + 1\<rparr>) pool) }
          | GiveUp \<Rightarrow> Some (None, pool)
          | NotFound \<Rightarrow> CreateUDPSocketPair env pool inIPAddr inPort
        }
      else CreateUDPSocketPair env pool inIPAddr inPort)"

definition ReleaseUDPSocketPair :: "UDPSocketPool \<Rightarrow> nat \<Rightarrow> UDPSocketPool option" where
  "ReleaseUDPSocketPair pool inPair =
     do {
       P \<leftarrow> udpPairs pool inPair;
       let pool1 = put_pair inPair (P\<lparr>fRefCount := fRefCount P - 1\<rparr>) pool;
       Some (if fRefCount P - 1 = 0
             then DestructUDPSocketPair inPair (pool1\<lparr>fUDPQueue := remove1 inPair (fUDPQueue pool1)\<rparr>)
             else pool1)
     }"

section \<open>The map of a demultiplexer\<close>

definition dm_key :: "UDPDemuxer \<Rightarrow> entry \<Rightarrow> UInt32 \<times> UInt16" where
  "dm_key d e = (fRemoteAddr (dmTasks d e), fRemotePort (dmTasks d e))"

definition pair_hash :: "UInt32 \<times> UInt16 \<Rightarrow> nat" where
  "pair_hash k = unat (ComputeHashValue (fst k) (snd k))"

abbreviation dm_members :: "UDPDemuxer \<Rightarrow> entry set" where
  "dm_members d \<equiv> members (\<lambda>e. pair_hash (dm_key d e)) (dmTable d)"

text \<open>Every task object holds the hash value of its address, and the registered ones have different addresses.\<close>

definition dm_inv :: "UDPDemuxer \<Rightarrow> bool" where
  "dm_inv d \<longleftrightarrow>
     (\<forall>e. task_hash d e = pair_hash (dm_key d e)) \<and>
     table_inv (\<lambda>e. pair_hash (dm_key d e)) (dmTable d) \<and> inj_on (dm_key d) (dm_members d)"

definition dm_map :: "UDPDemuxer \<Rightarrow> UInt32 \<times> UInt16 \<Rightarrow> entry option" where
  "dm_map d k = (case Map_key (dm_key d) pair_hash (dmTable d) k of Some r \<Rightarrow> r | None \<Rightarrow> None)"

lemma dm_invD:
  assumes "dm_inv d"
  shows "task_hash d = (\<lambda>e. pair_hash (dm_key d e))" "table_inv (\<lambda>e. pair_hash (dm_key d e)) (dmTable d)"
    "inj_on (dm_key d) (dm_members d)"
  using assms by (auto simp: dm_inv_def)

lemma Map_key_Some:
  assumes "dm_inv d"
  shows "Map_key (dm_key d) pair_hash (dmTable d) k = Some (dm_map d k)"
proof -
  from hash_table.lookup_law [where keyof = "dm_key d" and hashk = pair_hash, OF dm_invD(2) [OF assms], of k]
  show ?thesis by (auto simp: dm_map_def)
qed

lemma GetTask_eq:
  assumes "dm_inv d"
  shows "GetTask d addr port = Some (dm_map d (addr, port))"
proof -
  have "GetTask d addr port = Map_key (dm_key d) pair_hash (dmTable d) (addr, port)"
    by (simp add: GetTask_def Map_key_def pair_hash_def dm_key_def)
  with Map_key_Some [OF assms] show ?thesis by simp
qed

lemma dm_map_iff:
  assumes "dm_inv d"
  shows "dm_map d k = Some e \<longleftrightarrow> e \<in> dm_members d \<and> dm_key d e = k"
    and "dm_map d k = None \<longleftrightarrow> (\<forall>e \<in> dm_members d. dm_key d e \<noteq> k)"
  using hash_table.lookup_iff [where keyof = "dm_key d" and hashk = pair_hash, OF dm_invD(2,3) [OF assms], of k]
  by (auto simp: Map_key_Some [OF assms])

lemma ran_dm_map: "dm_inv d \<Longrightarrow> ran (dm_map d) = dm_members d"
  by (auto simp: ran_def dm_map_iff)

lemma dm_map_intro:
  assumes "dm_inv d" "\<And>e. e \<in> dm_members d \<longleftrightarrow> m (dm_key d e) = Some e" "\<And>k e. m k = Some e \<Longrightarrow> dm_key d e = k"
  shows "dm_map d = m"
proof
  fix k show "dm_map d k = m k"
  proof (cases "m k")
    case None
    then show ?thesis using dm_map_iff(2) [OF assms(1), of k] assms(2) by auto
  next
    case (Some e)
    then show ?thesis using dm_map_iff(1) [OF assms(1), of k e] assms(2,3) by auto
  qed
qed

lemma UDPDemuxer_new_inv:
  assumes "\<And>e. fHashValue (ts e) = ComputeHashValue (fRemoteAddr (ts e)) (fRemotePort (ts e))"
  shows "dm_inv (UDPDemuxer_new ts)" "dm_map (UDPDemuxer_new ts) = (\<lambda>_. None)"
proof -
  have n: "0 < kMaxHashTableSize" "kMaxHashTableSize < 2 ^ 32" by (simp_all add: kMaxHashTableSize_def)
  show i: "dm_inv (UDPDemuxer_new ts)"
    using table_rep_new [OF n] members_new [OF n] assms
    unfolding dm_inv_def by (auto simp: UDPDemuxer_new_def task_hash_def pair_hash_def dm_key_def table_inv_def)
  show "dm_map (UDPDemuxer_new ts) = (\<lambda>_. None)"
    by (rule dm_map_intro [OF i]) (use members_new [OF n] in \<open>simp_all add: UDPDemuxer_new_def\<close>)
qed

lemma RegisterTask_new:
  assumes inv: "dm_inv d" and k: "dm_map d (addr, port) = None" and e: "e \<notin> ran (dm_map d)"
  shows "\<exists>d'. RegisterTask d addr port (Some e) = Some (OS_NoErr, d') \<and> dm_inv d' \<and>
    dm_map d' = (dm_map d)((addr, port) \<mapsto> e)"
proof -
  define d1 where "d1 = d\<lparr>dmTasks := (dmTasks d)(e := UDPDemuxerTask_set addr port (dmTasks d e))\<rparr>"
  have key: "dm_key d1 x = (if x = e then (addr, port) else dm_key d x)" for x
    by (simp add: d1_def dm_key_def UDPDemuxerTask_set_def)
  have "task_hash d1 x = (if x = e then unat (ComputeHashValue addr port) else task_hash d x)" for x
    by (simp add: task_hash_def d1_def UDPDemuxerTask_set_def)
  then have th: "task_hash d1 = (\<lambda>x. pair_hash (dm_key d1 x))"
    by (intro ext) (simp add: key dm_invD(1) [OF inv] pair_hash_def)
  have nm: "e \<notin> dm_members d" using e ran_dm_map [OF inv] by simp
  have tab: "dmTable d1 = dmTable d" by (simp add: d1_def)
  have same: "pair_hash (dm_key d1 x) = pair_hash (dm_key d x)" if "x \<in> dm_members d" for x
    using that nm by (auto simp: key)
  have mem1: "members (\<lambda>x. pair_hash (dm_key d1 x)) (dmTable d) = dm_members d"
    by (rule table_cong(2) [OF dm_invD(2) [OF inv] same])
  have "table_inv (\<lambda>x. pair_hash (dm_key d1 x)) (dmTable d)"
    by (rule table_cong(1) [OF dm_invD(2) [OF inv] same])
  from hash_table.add_law [where keyof = "dm_key d1" and hashk = pair_hash, OF this, of e] nm mem1
  obtain t where t: "Add (task_hash d1) (dmTable d) e = Some t" "table_inv (\<lambda>x. pair_hash (dm_key d1 x)) t"
    "members (\<lambda>x. pair_hash (dm_key d1 x)) t = insert e (dm_members d)" by (auto simp: th)
  define d2 where "d2 = d1\<lparr>dmTable := t\<rparr>"
  have key2: "dm_key d2 = dm_key d1" and th2: "task_hash d2 = task_hash d1"
    by (auto simp: d2_def dm_key_def task_hash_def)
  have mem2: "dm_members d2 = insert e (dm_members d)" using t(3) by (simp add: key2) (simp add: d2_def)
  have old: "\<forall>x \<in> dm_members d. dm_key d x \<noteq> (addr, port)" using dm_map_iff(2) [OF inv] k by blast
  have "inj_on (dm_key d2) (dm_members d2)"
    unfolding mem2 unfolding key2 using dm_invD(3) [OF inv] nm old by (auto simp: inj_on_def key)
  moreover have "table_inv (\<lambda>x. pair_hash (dm_key d2 x)) (dmTable d2)" unfolding key2 using t(2) by (simp add: d2_def)
  ultimately have i2: "dm_inv d2" unfolding dm_inv_def th2 key2 using th by simp
  have "dm_map d2 = (dm_map d)((addr, port) \<mapsto> e)"
  proof (rule dm_map_intro [OF i2])
    show "x \<in> dm_members d2 \<longleftrightarrow> ((dm_map d)((addr, port) \<mapsto> e)) (dm_key d2 x) = Some x" for x
      unfolding mem2 unfolding key2 key using dm_map_iff(1) [OF inv, of "dm_key d x" x] old nm by auto
    show "dm_key d2 x = q" if "((dm_map d)((addr, port) \<mapsto> e)) q = Some x" for q x
      using that dm_map_iff(1) [OF inv, of q x] nm unfolding key2 key by (auto split: if_splits)
  qed
  moreover have "RegisterTask d addr port (Some e) = Some (OS_NoErr, d2)"
    using t(1) k by (simp add: RegisterTask_def GetTask_eq [OF inv] Let_def d2_def d1_def)
  ultimately show ?thesis using i2 by blast
qed

lemma UnregisterTask_eq:
  assumes inv: "dm_inv d"
  shows "\<exists>d'. UnregisterTask d addr port (Some e) =
      Some (if dm_map d (addr, port) = Some e then OS_NoErr else EPERM, d') \<and> dm_inv d' \<and>
    dm_map d' = (if dm_map d (addr, port) = Some e then (dm_map d)((addr, port) := None) else dm_map d)"
proof (cases "dm_map d (addr, port) = Some e")
  case False
  then show ?thesis using inv
    by (cases "dm_map d (addr, port)") (auto simp: UnregisterTask_def GetTask_eq [OF inv])
next
  case True
  from hash_table.rem_law [where keyof = "dm_key d" and hashk = pair_hash, OF dm_invD(2) [OF inv], of e]
  obtain t where t: "Remove_h (task_hash d) (dmTable d) e = Some t" "table_inv (\<lambda>x. pair_hash (dm_key d x)) t"
    "members (\<lambda>x. pair_hash (dm_key d x)) t = dm_members d - {e}" by (auto simp: dm_invD(1) [OF inv])
  define d2 where "d2 = d\<lparr>dmTable := t\<rparr>"
  have key2: "dm_key d2 = dm_key d" and th2: "task_hash d2 = task_hash d"
    by (auto simp: d2_def dm_key_def task_hash_def)
  have mem2: "dm_members d2 = dm_members d - {e}" using t(3) by (simp add: key2) (simp add: d2_def)
  have "inj_on (dm_key d2) (dm_members d2)"
    unfolding mem2 unfolding key2 using dm_invD(3) [OF inv] by (auto simp: inj_on_def)
  moreover have "table_inv (\<lambda>x. pair_hash (dm_key d2 x)) (dmTable d2)" unfolding key2 using t(2) by (simp add: d2_def)
  ultimately have i2: "dm_inv d2" unfolding dm_inv_def th2 key2 using dm_invD(1) [OF inv] by simp
  have e: "e \<in> dm_members d" "dm_key d e = (addr, port)" using dm_map_iff(1) [OF inv] True by auto
  have "dm_map d2 = (dm_map d)((addr, port) := None)"
  proof (rule dm_map_intro [OF i2])
    show "x \<in> dm_members d2 \<longleftrightarrow> ((dm_map d)((addr, port) := None)) (dm_key d2 x) = Some x" for x
      unfolding mem2 unfolding key2 using dm_map_iff(1) [OF inv, of "dm_key d x" x] e dm_invD(3) [OF inv] by (auto simp: inj_on_def)
    show "dm_key d2 x = q" if "((dm_map d)((addr, port) := None)) q = Some x" for q x
      using that dm_map_iff(1) [OF inv, of q x] unfolding key2 by (auto split: if_splits)
  qed
  moreover have "UnregisterTask d addr port (Some e) = Some (OS_NoErr, d2)"
    using t(1) True by (simp add: UnregisterTask_def GetTask_eq [OF inv] d2_def)
  ultimately show ?thesis using i2 True by (intro exI [of _ d2]) simp
qed

section \<open>The pool and its holders\<close>

text \<open>
  What the pool relies on: a new pair has closed sockets, no references and an empty
  demultiplexer, if it has one; and a socket that was bound to an address and a port other
  than zero has that address and port.
\<close>

definition udp_env_ok :: "UDPEnv \<Rightarrow> bool" where
  "udp_env_ok env \<longleftrightarrow>
     (\<forall>a. \<exists>P. ConstructUDPSocketPair env a = Some P \<and> fRefCount P = 0 \<and>
        \<not> sOpened (fSocketA P) \<and> \<not> sOpened (fSocketB P) \<and>
        (\<forall>d. fDemuxer (fSocketB P) = Some d \<longrightarrow> dm_inv d \<and> dm_map d = (\<lambda>_. None))) \<and>
     (\<forall>a b addr port x. os_bind env a b addr port = Some x \<longrightarrow> fst x = addr \<and> (port \<noteq> 0 \<longrightarrow> snd x = port))"

text \<open>
  \<open>held e\<close> is the number of holders of pair \<open>e\<close>. The pairs that exist are those in the
  queue, each with as many references as it has holders, and at least one.
\<close>

definition pair_ok :: "UDPSocketPool \<Rightarrow> (nat \<Rightarrow> nat) \<Rightarrow> nat \<Rightarrow> bool" where
  "pair_ok pool held e \<longleftrightarrow>
     (case udpPairs pool e of
        None \<Rightarrow> e \<notin> set (fUDPQueue pool) \<and> held e = 0
      | Some P \<Rightarrow> e \<in> set (fUDPQueue pool) \<and> e < udpFresh pool \<and> unat (fRefCount P) = held e \<and> 0 < held e \<and>
          pred_option dm_inv (fDemuxer (fSocketB P)))"

definition udp_inv :: "UDPSocketPool \<Rightarrow> (nat \<Rightarrow> nat) \<Rightarrow> bool" where
  "udp_inv pool held \<longleftrightarrow> distinct (fUDPQueue pool) \<and> (\<forall>e. pair_ok pool held e)"

text \<open>A pair on the wanted local address whose demultiplexer has no task for the remote one.\<close>

definition serves :: "UDPSocketPool \<Rightarrow> UInt32 \<Rightarrow> UInt16 \<Rightarrow> UInt32 \<Rightarrow> UInt16 \<Rightarrow> nat \<Rightarrow> bool" where
  "serves pool inIPAddr inPort inSrcIPAddr inSrcPort e \<longleftrightarrow>
     (case udpPairs pool e of
        None \<Rightarrow> False
      | Some P \<Rightarrow>
          fLocalAddr (fSocketA P) = inIPAddr \<and> (inPort \<noteq> 0 \<longrightarrow> fLocalPort (fSocketA P) = inPort) \<and>
          pred_option (\<lambda>d. dm_map d (0, 0) = None \<and> dm_map d (inSrcIPAddr, inSrcPort) = None) (fDemuxer (fSocketB P)))"

lemma udp_inv_pair:
  assumes "udp_inv pool held" "e \<in> set (fUDPQueue pool)"
  shows "\<exists>P. udpPairs pool e = Some P \<and> e < udpFresh pool \<and> unat (fRefCount P) = held e \<and> 0 < held e \<and>
    pred_option dm_inv (fDemuxer (fSocketB P))"
proof -
  have "pair_ok pool held e" using assms(1) by (simp add: udp_inv_def)
  with assms(2) show ?thesis by (cases "udpPairs pool e") (auto simp: pair_ok_def)
qed

lemma udp_inv_fresh:
  assumes "udp_inv pool held" "udpFresh pool \<le> e"
  shows "udpPairs pool e = None" "held e = 0" "e \<notin> set (fUDPQueue pool)"
proof -
  have "pair_ok pool held e" using assms(1) by (simp add: udp_inv_def)
  with assms(2) show "udpPairs pool e = None" "held e = 0" "e \<notin> set (fUDPQueue pool)"
    by (auto simp: pair_ok_def split: option.splits)
qed

lemma UDPSocketPool_new_inv: "udp_inv UDPSocketPool_new (\<lambda>_. 0)"
  by (simp add: udp_inv_def pair_ok_def UDPSocketPool_new_def)

lemma addr_busy_eq:
  assumes "pred_option dm_inv (fDemuxer s)"
  shows "addr_busy s src sp =
    Some (\<not> pred_option (\<lambda>d. dm_map d (0, 0) = None \<and> dm_map d (src, sp) = None) (fDemuxer s))"
  using assms by (cases "fDemuxer s") (auto simp: addr_busy_def AddrInMap_def GetTask_eq)

lemma search_pair_spec:
  assumes inv: "udp_inv pool held" and es: "set es \<subseteq> set (fUDPQueue pool)"
  shows "\<exists>r. search_pair pool ip port src sp es = Some r \<and>
    (case r of
       Found e \<Rightarrow> e \<in> set es \<and> serves pool ip port src sp e
     | GiveUp \<Rightarrow> True
     | NotFound \<Rightarrow> \<forall>e \<in> set es. \<not> serves pool ip port src sp e)"
  using es
proof (induction es)
  case Nil
  then show ?case by simp
next
  case (Cons e es)
  then obtain P where P: "udpPairs pool e = Some P" "pred_option dm_inv (fDemuxer (fSocketB P))"
    using udp_inv_pair [OF inv, of e] by auto
  from Cons obtain r where r: "search_pair pool ip port src sp es = Some r"
    "case r of Found e \<Rightarrow> e \<in> set es \<and> serves pool ip port src sp e | GiveUp \<Rightarrow> True
     | NotFound \<Rightarrow> \<forall>e \<in> set es. \<not> serves pool ip port src sp e" by auto
  have s: "serves pool ip port src sp e \<longleftrightarrow>
      (fLocalAddr (fSocketA P) = ip \<and> (port = 0 \<or> fLocalPort (fSocketA P) = port)) \<and>
      pred_option (\<lambda>d. dm_map d (0, 0) = None \<and> dm_map d (src, sp) = None) (fDemuxer (fSocketB P))"
    by (auto simp: serves_def P)
  show ?case
  proof (cases "fLocalAddr (fSocketA P) = ip \<and> (port = 0 \<or> fLocalPort (fSocketA P) = port)")
    case False
    have "search_pair pool ip port src sp (e # es) = Some r"
      unfolding search_pair.simps P(1) by (simp only: Option.bind.simps False if_False r(1))
    then show ?thesis using r(2) s False by (cases r) auto
  next
    case match: True
    show ?thesis
    proof (cases "pred_option (\<lambda>d. dm_map d (0, 0) = None \<and> dm_map d (src, sp) = None) (fDemuxer (fSocketB P))")
      case True
      then have "search_pair pool ip port src sp (e # es) = Some (Found e)"
        using P match by (simp add: addr_busy_eq)
      then show ?thesis using s True match by simp
    next
      case False
      then have "search_pair pool ip port src sp (e # es) = (if port \<noteq> 0 then Some GiveUp else Some r)"
        using P match r(1) by (cases "port = 0") (simp_all add: addr_busy_eq)
      then show ?thesis using r(2) s False by (cases r) auto
    qed
  qed
qed

text \<open>One round of the loop that creates a pair.\<close>

definition round_result :: "UDPEnv \<Rightarrow> UInt32 \<Rightarrow> UInt16 \<Rightarrow> nat \<Rightarrow> attempt option" where
  "round_result env addr port a =
     do { P \<leftarrow> ConstructUDPSocketPair env a; (r, _) \<leftarrow> try_pair env addr port a P; Some r }"

lemma try_pair_spec:
  assumes env: "udp_env_ok env"
  shows "\<exists>P0 r P. ConstructUDPSocketPair env a = Some P0 \<and> try_pair env addr port a P0 = Some (r, P) \<and>
    round_result env addr port a = Some r \<and> fRefCount P = 0 \<and>
    (\<forall>d. fDemuxer (fSocketB P) = Some d \<longrightarrow> dm_inv d \<and> dm_map d = (\<lambda>_. None)) \<and>
    (r = Bound \<longrightarrow> fLocalAddr (fSocketA P) = addr \<and> fLocalAddr (fSocketB P) = addr \<and>
       (port \<noteq> 0 \<longrightarrow> fLocalPort (fSocketA P) = port) \<and> (port + 1 \<noteq> 0 \<longrightarrow> fLocalPort (fSocketB P) = port + 1))"
proof -
  obtain P0 where P0: "ConstructUDPSocketPair env a = Some P0" "fRefCount P0 = 0" "\<not> sOpened (fSocketA P0)"
    "\<not> sOpened (fSocketB P0)" "\<forall>d. fDemuxer (fSocketB P0) = Some d \<longrightarrow> dm_inv d \<and> dm_map d = (\<lambda>_. None)"
    using env unfolding udp_env_ok_def by blast
  have b: "fst x = addr \<and> (q \<noteq> 0 \<longrightarrow> snd x = q)" if "os_bind env a c addr q = Some x" for c q x
    using env that unfolding udp_env_ok_def by blast
  have "\<exists>r P. try_pair env addr port a P0 = Some (r, P) \<and> fRefCount P = 0 \<and>
    fDemuxer (fSocketB P) = fDemuxer (fSocketB P0) \<and>
    (r = Bound \<longrightarrow> fLocalAddr (fSocketA P) = addr \<and> fLocalAddr (fSocketB P) = addr \<and>
       (port \<noteq> 0 \<longrightarrow> fLocalPort (fSocketA P) = port) \<and> (port + 1 \<noteq> 0 \<longrightarrow> fLocalPort (fSocketB P) = port + 1))"
  proof (cases "os_bind env a False addr port")
    case None
    with P0 show ?thesis by (auto simp: try_pair_def UDPSocket_Open_def UDPSocket_Bind_def Let_def)
  next
    case A: (Some x)
    show ?thesis
    proof (cases "os_bind env a True addr (port + 1)")
      case None
      with P0 A show ?thesis
        by (cases x) (auto simp: try_pair_def UDPSocket_Open_def UDPSocket_Bind_def Let_def)
    next
      case B: (Some y)
      from b [OF A] b [OF B] P0 A B show ?thesis
        by (cases x; cases y) (auto simp: try_pair_def UDPSocket_Open_def UDPSocket_Bind_def Let_def)
    qed
  qed
  then obtain r P where r: "try_pair env addr port a P0 = Some (r, P)" "fRefCount P = 0"
    "fDemuxer (fSocketB P) = fDemuxer (fSocketB P0)"
    "r = Bound \<longrightarrow> fLocalAddr (fSocketA P) = addr \<and> fLocalAddr (fSocketB P) = addr \<and>
       (port \<noteq> 0 \<longrightarrow> fLocalPort (fSocketA P) = port) \<and> (port + 1 \<noteq> 0 \<longrightarrow> fLocalPort (fSocketB P) = port + 1)"
    by blast
  have "round_result env addr port a = Some r" using P0(1) r(1) by (simp add: round_result_def)
  with P0(1,5) r show ?thesis by (intro exI [of _ P0] exI [of _ r] exI [of _ P]) simp
qed

definition udp_added :: "nat \<Rightarrow> UDPSocketPair \<Rightarrow> UDPSocketPool \<Rightarrow> UDPSocketPool" where
  "udp_added a P pool = pool\<lparr>udpFresh := a + 1, udpPairs := (udpPairs pool)(a \<mapsto> P\<lparr>fRefCount := fRefCount P + 1\<rparr>),
     fUDPQueue := fUDPQueue pool @ [a]\<rparr>"

lemma destruct_fresh:
  "udpPairs pool a = None \<Longrightarrow>
   DestructUDPSocketPair a (put_pair a P (pool\<lparr>udpFresh := n\<rparr>)) = pool\<lparr>udpFresh := n\<rparr>"
  by (auto simp: DestructUDPSocketPair_def put_pair_def fun_eq_iff intro!: UDPSocketPool.equality)

lemma create_loop_step:
  assumes env: "udp_env_ok env" and inv: "udp_inv pool held" and port: "port < kHighestUDPPort"
  defines "a \<equiv> udpFresh pool"
  shows "\<exists>r P. round_result env addr port a = Some r \<and>
    create_loop env addr inPort port pool =
      (if r = Bound then Some (Some a, udp_added a P pool)
       else if r = OpenFailed \<or> inPort \<noteq> 0 then Some (None, pool\<lparr>udpFresh := a + 1\<rparr>)
       else create_loop env addr inPort (port + 2) (pool\<lparr>udpFresh := a + 1\<rparr>)) \<and>
    fRefCount P = 0 \<and> (\<forall>d. fDemuxer (fSocketB P) = Some d \<longrightarrow> dm_inv d \<and> dm_map d = (\<lambda>_. None)) \<and>
    (r = Bound \<longrightarrow> fLocalAddr (fSocketA P) = addr \<and> fLocalAddr (fSocketB P) = addr \<and>
       (port \<noteq> 0 \<longrightarrow> fLocalPort (fSocketA P) = port \<and> fLocalPort (fSocketB P) = port + 1))"
proof -
  from try_pair_spec [OF env, of a addr port] obtain P0 r P where
    t: "ConstructUDPSocketPair env a = Some P0" "try_pair env addr port a P0 = Some (r, P)"
      "round_result env addr port a = Some r" "fRefCount P = 0"
      "\<forall>d. fDemuxer (fSocketB P) = Some d \<longrightarrow> dm_inv d \<and> dm_map d = (\<lambda>_. None)"
      "r = Bound \<longrightarrow> fLocalAddr (fSocketA P) = addr \<and> fLocalAddr (fSocketB P) = addr \<and>
       (port \<noteq> 0 \<longrightarrow> fLocalPort (fSocketA P) = port) \<and> (port + 1 \<noteq> 0 \<longrightarrow> fLocalPort (fSocketB P) = port + 1)"
    by blast
  have n: "udpPairs pool a = None" using udp_inv_fresh(1) [OF inv, of a] by (simp add: a_def)
  have p1: "port + 1 \<noteq> 0"
  proof
    assume "port + 1 = 0"
    then have "port = - 1" by (simp add: eq_neg_iff_add_eq_0)
    with port show False by (simp add: kHighestUDPPort_def)
  qed
  have "create_loop env addr inPort port pool =
      (if r = Bound then Some (Some a, udp_added a P pool)
       else if r = OpenFailed \<or> inPort \<noteq> 0 then Some (None, pool\<lparr>udpFresh := a + 1\<rparr>)
       else create_loop env addr inPort (port + 2) (pool\<lparr>udpFresh := a + 1\<rparr>))"
    unfolding create_loop.simps [of env addr inPort port pool] Let_def a_def [symmetric]
    using port t(1,2) by (simp add: destruct_fresh [OF n]) (simp add: udp_added_def put_pair_def)
  with t p1 show ?thesis by (intro exI [of _ r] exI [of _ P]) simp
qed

text \<open>What the loop leaves when it ends.\<close>

definition udp_get_ok :: "UDPSocketPool \<Rightarrow> (nat \<Rightarrow> nat) \<Rightarrow> nat option \<Rightarrow> UDPSocketPool \<Rightarrow> bool" where
  "udp_get_ok pool held r pool' \<longleftrightarrow>
     (case r of
        None \<Rightarrow> udp_inv pool' held \<and> fUDPQueue pool' = fUDPQueue pool \<and> udpPairs pool' = udpPairs pool
      | Some e \<Rightarrow> udp_inv pool' (held(e := held e + 1)))"

lemma udp_inv_skip:
  assumes "udp_inv pool held" "udpFresh pool \<le> n"
  shows "udp_inv (pool\<lparr>udpFresh := n\<rparr>) held"
proof -
  have "pair_ok (pool\<lparr>udpFresh := n\<rparr>) held e" for e
  proof -
    have "pair_ok pool held e" using assms(1) by (simp add: udp_inv_def)
    with assms(2) show ?thesis by (auto simp: pair_ok_def split: option.splits)
  qed
  with assms(1) show ?thesis by (simp add: udp_inv_def)
qed

lemma udp_added_inv:
  assumes inv: "udp_inv pool held" and a: "a = udpFresh pool" and P: "fRefCount P = 0"
    "\<forall>d. fDemuxer (fSocketB P) = Some d \<longrightarrow> dm_inv d \<and> dm_map d = (\<lambda>_. None)"
  shows "udp_inv (udp_added a P pool) (held(a := Suc 0))" "held a = 0"
proof -
  note n = udp_inv_fresh [OF inv, of a]
  show "held a = 0" using n(2) a by simp
  have "pair_ok (udp_added a P pool) (held(a := Suc 0)) e" for e
  proof (cases "e = a")
    case True
    with P show ?thesis by (cases "fDemuxer (fSocketB P)") (simp_all add: pair_ok_def udp_added_def)
  next
    case False
    have "pair_ok pool held e" using inv by (simp add: udp_inv_def)
    with False a show ?thesis by (auto simp: pair_ok_def udp_added_def split: option.splits)
  qed
  moreover have "distinct (fUDPQueue (udp_added a P pool))" using inv n(3) a by (simp add: udp_inv_def udp_added_def)
  ultimately show "udp_inv (udp_added a P pool) (held(a := Suc 0))" by (simp add: udp_inv_def)
qed

lemma udp_added_serves:
  assumes "fLocalAddr (fSocketA P) = ip" "port \<noteq> 0 \<longrightarrow> fLocalPort (fSocketA P) = port"
    "\<forall>d. fDemuxer (fSocketB P) = Some d \<longrightarrow> dm_inv d \<and> dm_map d = (\<lambda>_. None)"
  shows "serves (udp_added a P pool) ip port src sp a"
  using assms by (cases "fDemuxer (fSocketB P)") (simp_all add: serves_def udp_added_def)

text \<open>The search for a free pair of ports ends as soon as one round does not fail to bind.\<close>

lemma even_port: "even port \<Longrightarrow> port < kHighestUDPPort" for port :: UInt16
proof -
  assume e: "even port"
  have "port \<noteq> - 1"
  proof
    assume "port = - 1"
    with e show False by simp
  qed
  then have "port < - 1" by (simp add: word_order.not_eq_extremum)
  moreover have "(- 1 :: UInt16) = kHighestUDPPort" by (simp add: kHighestUDPPort_def)
  ultimately show ?thesis by simp
qed

lemma create_loop_returns:
  assumes env: "udp_env_ok env"
  shows "udp_inv pool held \<Longrightarrow> even port \<Longrightarrow>
    round_result env addr (port + 2 * of_nat n) (udpFresh pool + n) \<noteq> Some BindFailed \<Longrightarrow>
    \<exists>r pool'. create_loop env addr 0 port pool = Some (r, pool') \<and> udp_get_ok pool held r pool' \<and>
      (\<forall>e. r = Some e \<longrightarrow> held e = 0 \<and> serves pool' addr 0 src sp e)"
proof (induction n arbitrary: port pool)
  case (0 port pool)
  note inv = "0.prems"(1)
  from create_loop_step [OF env inv even_port [OF "0.prems"(2)], of addr 0] obtain r P where
    s: "round_result env addr port (udpFresh pool) = Some r"
      "create_loop env addr 0 port pool = (if r = Bound then Some (Some (udpFresh pool), udp_added (udpFresh pool) P pool)
       else if r = OpenFailed \<or> (0::UInt16) \<noteq> 0 then Some (None, pool\<lparr>udpFresh := udpFresh pool + 1\<rparr>)
       else create_loop env addr 0 (port + 2) (pool\<lparr>udpFresh := udpFresh pool + 1\<rparr>))"
      "fRefCount P = 0" "\<forall>d. fDemuxer (fSocketB P) = Some d \<longrightarrow> dm_inv d \<and> dm_map d = (\<lambda>_. None)"
      "r = Bound \<longrightarrow> fLocalAddr (fSocketA P) = addr" by blast
  from s(1) "0.prems"(3) have "r \<noteq> BindFailed" by simp
  then consider "r = Bound" | "r = OpenFailed" by (cases r) auto
  then show ?case
  proof cases
    case 1
    with s udp_added_inv [OF inv refl s(3,4)] udp_added_serves [of P addr 0 "udpFresh pool" pool src sp] show ?thesis
      by (simp add: udp_get_ok_def)
  next
    case 2
    with s udp_inv_skip [OF inv, of "udpFresh pool + 1"] show ?thesis by (simp add: udp_get_ok_def)
  qed
next
  case (Suc n port pool)
  note inv = Suc.prems(1)
  from create_loop_step [OF env inv even_port [OF Suc.prems(2)], of addr 0] obtain r P where
    s: "round_result env addr port (udpFresh pool) = Some r"
      "create_loop env addr 0 port pool = (if r = Bound then Some (Some (udpFresh pool), udp_added (udpFresh pool) P pool)
       else if r = OpenFailed \<or> (0::UInt16) \<noteq> 0 then Some (None, pool\<lparr>udpFresh := udpFresh pool + 1\<rparr>)
       else create_loop env addr 0 (port + 2) (pool\<lparr>udpFresh := udpFresh pool + 1\<rparr>))"
      "fRefCount P = 0" "\<forall>d. fDemuxer (fSocketB P) = Some d \<longrightarrow> dm_inv d \<and> dm_map d = (\<lambda>_. None)"
      "r = Bound \<longrightarrow> fLocalAddr (fSocketA P) = addr" by blast
  let ?pool = "pool\<lparr>udpFresh := udpFresh pool + 1\<rparr>"
  consider "r = Bound" | "r = OpenFailed" | "r = BindFailed" by (cases r) auto
  then show ?case
  proof cases
    case 1
    with s udp_added_inv [OF inv refl s(3,4)] udp_added_serves [of P addr 0 "udpFresh pool" pool src sp] show ?thesis
      by (simp add: udp_get_ok_def)
  next
    case 2
    with s udp_inv_skip [OF inv, of "udpFresh pool + 1"] show ?thesis by (simp add: udp_get_ok_def)
  next
    case 3
    have i': "udp_inv ?pool held" using udp_inv_skip [OF inv] by simp
    have "round_result env addr (port + 2 + 2 * of_nat n) (udpFresh ?pool + n) \<noteq> Some BindFailed"
      using Suc.prems(3) by (simp add: algebra_simps)
    from Suc.IH [OF i' _ this] Suc.prems(2) obtain r' pool' where
      c: "create_loop env addr 0 (port + 2) ?pool = Some (r', pool')" "udp_get_ok ?pool held r' pool'"
        "\<forall>e. r' = Some e \<longrightarrow> held e = 0 \<and> serves pool' addr 0 src sp e" by fastforce
    have "create_loop env addr 0 port pool = Some (r', pool')" using s(2) 3 c(1) by simp
    moreover have "udp_get_ok pool held r' pool'" using c(2) by (simp add: udp_get_ok_def split: option.splits)
    ultimately show ?thesis using c(3) by blast
  qed
qed

text \<open>A pair that is handed out again gets one more reference.\<close>

lemma reuse_inv:
  assumes inv: "udp_inv pool held" and e: "e \<in> set (fUDPQueue pool)" and h: "held e < 2 ^ 32 - 1"
  shows "\<exists>P. udpPairs pool e = Some P \<and> 0 < held e \<and>
    udp_inv (put_pair e (P\<lparr>fRefCount := fRefCount P + 1\<rparr>) pool) (held(e := held e + 1))"
proof -
  obtain P where P: "udpPairs pool e = Some P" "e < udpFresh pool" "unat (fRefCount P) = held e" "0 < held e"
    "pred_option dm_inv (fDemuxer (fSocketB P))" using udp_inv_pair [OF inv e] by blast
  have u: "unat (fRefCount P + 1) = held e + 1" using P(3) h by (simp add: unat_word_ariths)
  have "pair_ok (put_pair e (P\<lparr>fRefCount := fRefCount P + 1\<rparr>) pool) (held(e := held e + 1)) x" for x
  proof (cases "x = e")
    case True
    with P u e show ?thesis by (simp add: pair_ok_def put_pair_def)
  next
    case False
    have "pair_ok pool held x" using inv by (simp add: udp_inv_def)
    with False show ?thesis by (simp add: pair_ok_def put_pair_def split: option.splits)
  qed
  moreover have "distinct (fUDPQueue (put_pair e (P\<lparr>fRefCount := fRefCount P + 1\<rparr>) pool))"
    using inv by (simp add: udp_inv_def put_pair_def)
  ultimately have "udp_inv (put_pair e (P\<lparr>fRefCount := fRefCount P + 1\<rparr>) pool) (held(e := held e + 1))"
    unfolding udp_inv_def by blast
  with P(1,4) show ?thesis by blast
qed

text \<open>A given port is tried once.\<close>

lemma create_loop_once:
  assumes env: "udp_env_ok env" and inv: "udp_inv pool held" and port: "port \<noteq> 0"
  shows "\<exists>r pool'. create_loop env addr port port pool = Some (r, pool') \<and> udp_get_ok pool held r pool' \<and>
      (\<forall>e. r = Some e \<longrightarrow> held e = 0 \<and> serves pool' addr port src sp e)"
proof (cases "port < kHighestUDPPort")
  case False
  then show ?thesis using inv by (simp add: create_loop.simps udp_get_ok_def)
next
  case True
  from create_loop_step [OF env inv True, of addr port] obtain r P where
    s0: "create_loop env addr port port pool = (if r = Bound then Some (Some (udpFresh pool), udp_added (udpFresh pool) P pool)
       else if r = OpenFailed \<or> port \<noteq> 0 then Some (None, pool\<lparr>udpFresh := udpFresh pool + 1\<rparr>)
       else create_loop env addr port (port + 2) (pool\<lparr>udpFresh := udpFresh pool + 1\<rparr>))"
      "fRefCount P = 0" "\<forall>d. fDemuxer (fSocketB P) = Some d \<longrightarrow> dm_inv d \<and> dm_map d = (\<lambda>_. None)"
      "r = Bound \<longrightarrow> fLocalAddr (fSocketA P) = addr" "r = Bound \<longrightarrow> port \<noteq> 0 \<longrightarrow> fLocalPort (fSocketA P) = port" by blast
  from s0 port have
    s: "create_loop env addr port port pool = (if r = Bound then Some (Some (udpFresh pool), udp_added (udpFresh pool) P pool)
       else Some (None, pool\<lparr>udpFresh := udpFresh pool + 1\<rparr>))"
      "fRefCount P = 0" "\<forall>d. fDemuxer (fSocketB P) = Some d \<longrightarrow> dm_inv d \<and> dm_map d = (\<lambda>_. None)"
      "r = Bound \<longrightarrow> fLocalAddr (fSocketA P) = addr \<and> fLocalPort (fSocketA P) = port" by simp_all
  show ?thesis
  proof (cases "r = Bound")
    case True
    with s udp_added_inv [OF inv refl s(2,3)] udp_added_serves [of P addr port "udpFresh pool" pool src sp] show ?thesis
      by (simp add: udp_get_ok_def)
  next
    case False
    with s udp_inv_skip [OF inv, of "udpFresh pool + 1"] show ?thesis by (simp add: udp_get_ok_def)
  qed
qed

text \<open>If every round fails to bind, the 16-bit port wraps around and the loop never ends.\<close>

lemma create_loop_forever:
  assumes env: "udp_env_ok env" and all: "\<And>p a. round_result env addr p a = Some BindFailed"
  shows "even port \<Longrightarrow> create_loop env addr 0 port pool = None"
proof (rule ccontr)
  assume e: "even port" and "create_loop env addr 0 port pool \<noteq> None"
  then obtain r where c: "create_loop env addr 0 port pool = Some r" by blast
  have "even port \<longrightarrow> udp_env_ok env \<longrightarrow>
      (\<forall>p a. round_result env addr p a = Some BindFailed) \<longrightarrow> (0::UInt16) = 0 \<longrightarrow> False"
  proof (rule create_loop.raw_induct [where P = "\<lambda>env addr inPort port pool r. even port \<longrightarrow> udp_env_ok env \<longrightarrow>
      (\<forall>p a. round_result env addr p a = Some BindFailed) \<longrightarrow> inPort = 0 \<longrightarrow> False", OF _ c], goal_cases)
    case (1 f env addr inPort port pool r)
    show ?case
    proof (intro impI)
      assume h: "even port" "udp_env_ok env" "\<forall>p a. round_result env addr p a = Some BindFailed" "inPort = 0"
      note pt = even_port [OF h(1)]
      let ?a = "udpFresh pool"
      from try_pair_spec [OF h(2), of ?a addr port] h(3) obtain P0 P where
        t: "ConstructUDPSocketPair env ?a = Some P0" "try_pair env addr port ?a P0 = Some (BindFailed, P)" by auto
      have "f env addr inPort (port + 2) (DestructUDPSocketPair ?a (put_pair ?a P (pool\<lparr>udpFresh := ?a + 1\<rparr>))) = Some r"
        using 1(2) pt t h(4) by (simp add: Let_def)
      from 1(1) [OF this] h show False by simp
    qed
  qed
  then show False using e env all by blast
qed

section \<open>Properties\<close>

text \<open>C34: A \<^verbatim>\<open>UDPDemuxer\<close> is a map from remote addresses and ports to tasks.
  The lookup reads it; registering a task that is not registered adds it under its address
  and fails with \<^verbatim>\<open>EPERM\<close>, changing nothing, when the address is taken;
  unregistering removes the address if the task is the one registered there, and otherwise
  fails with \<^verbatim>\<open>EPERM\<close> and changes nothing. A new demultiplexer is empty.\<close>

theorem UDPDemuxer_map:
  assumes inv: "dm_inv d"
  shows "GetTask d addr port = Some (dm_map d (addr, port)) \<and>
    (dm_map d (addr, port) \<noteq> None \<longrightarrow> RegisterTask d addr port (Some e) = Some (EPERM, d)) \<and>
    (dm_map d (addr, port) = None \<and> e \<notin> ran (dm_map d) \<longrightarrow>
       (\<exists>d'. RegisterTask d addr port (Some e) = Some (OS_NoErr, d') \<and> dm_inv d' \<and>
          dm_map d' = (dm_map d)((addr, port) \<mapsto> e))) \<and>
    (\<exists>d'. UnregisterTask d addr port (Some e) =
         Some (if dm_map d (addr, port) = Some e then OS_NoErr else EPERM, d') \<and> dm_inv d' \<and>
       dm_map d' = (if dm_map d (addr, port) = Some e then (dm_map d)((addr, port) := None) else dm_map d)) \<and>
    dm_map (UDPDemuxer_new (\<lambda>_. UDPDemuxerTask_new)) = (\<lambda>_. None)"
proof -
  have new: "dm_map (UDPDemuxer_new (\<lambda>_. UDPDemuxerTask_new)) = (\<lambda>_. None)"
    by (rule UDPDemuxer_new_inv(2)) (simp add: UDPDemuxerTask_new_def ComputeHashValue_def)
  have taken: "RegisterTask d addr port (Some e) = Some (EPERM, d)" if "dm_map d (addr, port) \<noteq> None"
    using that by (simp add: RegisterTask_def GetTask_eq [OF inv])
  show ?thesis
    using GetTask_eq [OF inv] taken RegisterTask_new [OF inv] UnregisterTask_eq [OF inv, of addr port e] new by blast
qed

definition ex_demuxer :: UDPDemuxer where
  "ex_demuxer = UDPDemuxer_new (\<lambda>_. UDPDemuxerTask_new)"

lemma ex_demuxer_inv: "dm_inv ex_demuxer" "dm_map ex_demuxer = (\<lambda>_. None)"
  using UDPDemuxer_new_inv [of "\<lambda>_. UDPDemuxerTask_new"]
  by (simp_all add: ex_demuxer_def UDPDemuxerTask_new_def ComputeHashValue_def)

theorem UDPDemuxer_map_witness:
  "\<exists>d. RegisterTask ex_demuxer 0x7F000001 6970 (Some 3) = Some (OS_NoErr, d) \<and>
     dm_map d = [(0x7F000001, 6970) \<mapsto> 3]"
  using UDPDemuxer_map [OF ex_demuxer_inv(1), of "0x7F000001" 6970 3] by (simp add: ex_demuxer_inv(2)) blast

text \<open>C31: \<^verbatim>\<open>GetUDPSocketPair\<close> returns a pair that serves the caller. For a given
  local port, or when some pair of ports can be bound, the call returns; the pair it
  returns is bound to the wanted local address and port and its demultiplexer has no task
  for the wanted remote address, the caller is counted as a holder, and no other pair
  changes its holders. For a remote address a new pair is made only when no pair of the
  pool serves; without one, always. A null pointer leaves the pool as it was.\<close>

theorem GetUDPSocketPair_serves:
  assumes env: "udp_env_ok env" and inv: "udp_inv pool held" and held: "\<And>e. held e < 2 ^ 32 - 1"
    and free: "inPort \<noteq> 0 \<or>
      (\<exists>n. round_result env inIPAddr (kLowestUDPPort + 2 * of_nat n) (udpFresh pool + n) \<noteq> Some BindFailed)"
  shows "\<exists>r pool'. GetUDPSocketPair env pool inIPAddr inPort src sp = Some (r, pool') \<and>
    (case r of
       None \<Rightarrow> udp_inv pool' held \<and> fUDPQueue pool' = fUDPQueue pool \<and> udpPairs pool' = udpPairs pool
     | Some e \<Rightarrow> udp_inv pool' (held(e := held e + 1)) \<and> serves pool' inIPAddr inPort src sp e \<and>
         (held e = 0 \<longrightarrow> (src = 0 \<and> sp = 0) \<or> (\<forall>x \<in> set (fUDPQueue pool). \<not> serves pool inIPAddr inPort src sp x)) \<and>
         (src = 0 \<and> sp = 0 \<longrightarrow> held e = 0))"
proof -
  have new: "\<exists>r pool'. CreateUDPSocketPair env pool inIPAddr inPort = Some (r, pool') \<and> udp_get_ok pool held r pool' \<and>
      (\<forall>e. r = Some e \<longrightarrow> held e = 0 \<and> serves pool' inIPAddr inPort src sp e)"
  proof (cases "inPort = 0")
    case True
    have "even kLowestUDPPort" by (simp add: kLowestUDPPort_def)
    with True free create_loop_returns [OF env inv, of kLowestUDPPort inIPAddr _ src sp] show ?thesis
      by (auto simp: CreateUDPSocketPair_def)
  next
    case False
    with create_loop_once [OF env inv False, of inIPAddr src sp] show ?thesis by (simp add: CreateUDPSocketPair_def)
  qed
  then obtain rn pn where rn: "CreateUDPSocketPair env pool inIPAddr inPort = Some (rn, pn)" "udp_get_ok pool held rn pn"
    "\<forall>e. rn = Some e \<longrightarrow> held e = 0 \<and> serves pn inIPAddr inPort src sp e" by blast
  show ?thesis
  proof (cases "src \<noteq> 0 \<or> sp \<noteq> 0")
    case False
    then show ?thesis using rn by (cases rn) (simp_all add: GetUDPSocketPair_def udp_get_ok_def)
  next
    case True
    obtain q where q: "search_pair pool inIPAddr inPort src sp (fUDPQueue pool) = Some q"
      "case q of Found e \<Rightarrow> e \<in> set (fUDPQueue pool) \<and> serves pool inIPAddr inPort src sp e | GiveUp \<Rightarrow> True
       | NotFound \<Rightarrow> \<forall>e \<in> set (fUDPQueue pool). \<not> serves pool inIPAddr inPort src sp e"
      using search_pair_spec [OF inv subset_refl] by blast
    show ?thesis
    proof (cases q)
      case (Found e)
      then have e: "e \<in> set (fUDPQueue pool)" "serves pool inIPAddr inPort src sp e" using q(2) by auto
      from reuse_inv [OF inv e(1) held] obtain P where
        P: "udpPairs pool e = Some P" "udp_inv (put_pair e (P\<lparr>fRefCount := fRefCount P + 1\<rparr>) pool) (held(e := held e + 1))"
          "0 < held e" by blast
      have "serves (put_pair e (P\<lparr>fRefCount := fRefCount P + 1\<rparr>) pool) inIPAddr inPort src sp e"
        using e(2) P(1) by (simp add: serves_def put_pair_def)
      with True q(1) Found P show ?thesis by (simp add: GetUDPSocketPair_def)
    next
      case GiveUp
      with True q(1) inv show ?thesis by (simp add: GetUDPSocketPair_def)
    next
      case NotFound
      then have "GetUDPSocketPair env pool inIPAddr inPort src sp = Some (rn, pn)"
        using True q(1) rn(1) by (simp add: GetUDPSocketPair_def)
      with rn(2,3) NotFound q(2) True show ?thesis by (cases rn) (auto simp: udp_get_ok_def)
    qed
  qed
qed

text \<open>An environment in which every socket can be opened and bound.\<close>

definition ex_udp_socket :: UDPSocket where
  "ex_udp_socket = \<lparr>sOpened = False, fLocalAddr = 0, fLocalPort = 0, fDemuxer = Some ex_demuxer\<rparr>"

definition ex_udp_env :: UDPEnv where
  "ex_udp_env = \<lparr>ConstructUDPSocketPair = (\<lambda>_. Some \<lparr>fSocketA = ex_udp_socket, fSocketB = ex_udp_socket, fRefCount = 0\<rparr>),
     os_open = (\<lambda>_ _. True), os_bind = (\<lambda>_ _ addr port. Some (addr, port))\<rparr>"

lemma ex_udp_env_ok: "udp_env_ok ex_udp_env"
  by (simp add: udp_env_ok_def ex_udp_env_def ex_udp_socket_def ex_demuxer_inv)

theorem GetUDPSocketPair_serves_witness:
  "\<exists>e pool'. GetUDPSocketPair ex_udp_env UDPSocketPool_new 0x7F000001 7000 0x7F000002 9000 = Some (Some e, pool') \<and>
     serves pool' 0x7F000001 7000 0x7F000002 9000 e"
proof -
  have b: "round_result ex_udp_env 0x7F000001 7000 0 = Some Bound"
    by (simp add: round_result_def try_pair_def ex_udp_env_def ex_udp_socket_def UDPSocket_Open_def UDPSocket_Bind_def)
  from create_loop_step [OF ex_udp_env_ok UDPSocketPool_new_inv, of 7000 "0x7F000001" 7000] b
  have "GetUDPSocketPair ex_udp_env UDPSocketPool_new 0x7F000001 7000 0x7F000002 9000
      = Some (Some 0, snd (the (GetUDPSocketPair ex_udp_env UDPSocketPool_new 0x7F000001 7000 0x7F000002 9000)))"
    by (auto simp: GetUDPSocketPair_def CreateUDPSocketPair_def kHighestUDPPort_def UDPSocketPool_new_def)
  with GetUDPSocketPair_serves [OF ex_udp_env_ok UDPSocketPool_new_inv, of 7000 "0x7F000001" "0x7F000002" 9000]
  show ?thesis by auto
qed

text \<open>\<^verbatim>\<open>ReleaseUDPSocketPair\<close> takes one holder from a pair: the last one deletes
  it and takes it out of the queue, and until then the pair stays.\<close>

theorem ReleaseUDPSocketPair_last:
  assumes inv: "udp_inv pool held" and e: "0 < held e"
  shows "\<exists>pool'. ReleaseUDPSocketPair pool e = Some pool' \<and> udp_inv pool' (held(e := held e - 1)) \<and>
    (udpPairs pool' e = None \<longleftrightarrow> held e = 1) \<and> (\<forall>x. x \<noteq> e \<longrightarrow> udpPairs pool' x = udpPairs pool x)"
proof -
  have "pair_ok pool held e" using inv by (simp add: udp_inv_def)
  with e obtain P where P: "udpPairs pool e = Some P" "e \<in> set (fUDPQueue pool)" "e < udpFresh pool"
    "unat (fRefCount P) = held e" "pred_option dm_inv (fDemuxer (fSocketB P))"
    by (auto simp: pair_ok_def split: option.splits)
  have nz: "fRefCount P \<noteq> 0" using P(4) e by auto
  then have u: "unat (fRefCount P - 1) = held e - 1" using P(4) by (simp add: unat_minus_one)
  then have z: "fRefCount P - 1 = 0 \<longleftrightarrow> held e = 1" using e by (metis One_nat_def Suc_pred diff_Suc_1 unat_eq_zero)
  define pool' where "pool' = (let pool1 = put_pair e (P\<lparr>fRefCount := fRefCount P - 1\<rparr>) pool
    in if fRefCount P - 1 = 0 then DestructUDPSocketPair e (pool1\<lparr>fUDPQueue := remove1 e (fUDPQueue pool1)\<rparr>) else pool1)"
  have d: "distinct (fUDPQueue pool)" using inv by (simp add: udp_inv_def)
  have "pair_ok pool' (held(e := held e - 1)) x" for x
  proof (cases "x = e")
    case True
    then show ?thesis using P u z d e
      by (cases "held e = 1") (simp_all add: pool'_def Let_def pair_ok_def put_pair_def DestructUDPSocketPair_def)
  next
    case False
    have "pair_ok pool held x" using inv by (simp add: udp_inv_def)
    with False d show ?thesis
      by (auto simp: pool'_def Let_def pair_ok_def put_pair_def DestructUDPSocketPair_def split: option.splits)
  qed
  moreover have "distinct (fUDPQueue pool')" using d by (simp add: pool'_def Let_def put_pair_def DestructUDPSocketPair_def)
  ultimately have "udp_inv pool' (held(e := held e - 1))" by (simp add: udp_inv_def)
  moreover have "udpPairs pool' e = None \<longleftrightarrow> held e = 1" "x \<noteq> e \<Longrightarrow> udpPairs pool' x = udpPairs pool x" for x
    using z by (auto simp: pool'_def Let_def put_pair_def DestructUDPSocketPair_def)
  moreover have "ReleaseUDPSocketPair pool e = Some pool'" using P(1) by (simp add: ReleaseUDPSocketPair_def pool'_def Let_def)
  ultimately show ?thesis by (intro exI [of _ pool']) simp
qed

theorem ReleaseUDPSocketPair_last_witness:
  "\<exists>pool'. ReleaseUDPSocketPair (udp_added 0 \<lparr>fSocketA = ex_udp_socket, fSocketB = ex_udp_socket, fRefCount = 0\<rparr> UDPSocketPool_new) 0
     = Some pool' \<and> udpPairs pool' 0 = None"
proof -
  have "udp_inv (udp_added 0 \<lparr>fSocketA = ex_udp_socket, fSocketB = ex_udp_socket, fRefCount = 0\<rparr> UDPSocketPool_new) ((\<lambda>_. 0)(0 := Suc 0))"
    by (rule udp_added_inv(1) [OF UDPSocketPool_new_inv])
       (simp_all add: UDPSocketPool_new_def ex_udp_socket_def ex_demuxer_inv)
  from ReleaseUDPSocketPair_last [OF this, of 0] show ?thesis by auto
qed

text \<open>C36: The search for a free pair of ports does not give up. When the caller leaves the
  port open and no pair of ports can be bound, the port, a 16-bit number, passes from 65534
  to 0 and the loop goes on for ever, where the interface promises a null pointer.\<close>

theorem CreateUDPSocketPair_forever:
  assumes "udp_env_ok env" "\<And>port a. round_result env inIPAddr port a = Some BindFailed"
  shows "CreateUDPSocketPair env pool inIPAddr 0 = None \<and> GetUDPSocketPair env pool inIPAddr 0 0 0 = None"
proof -
  have "even kLowestUDPPort" by (simp add: kLowestUDPPort_def)
  then have "CreateUDPSocketPair env pool inIPAddr 0 = None"
    using create_loop_forever [OF assms] by (simp add: CreateUDPSocketPair_def)
  then show ?thesis by (simp add: GetUDPSocketPair_def)
qed

theorem CreateUDPSocketPair_forever_witness:
  "GetUDPSocketPair (ex_udp_env\<lparr>os_bind := \<lambda>_ _ _ _. None\<rparr>) UDPSocketPool_new 0 0 0 0 = None"
proof -
  have "udp_env_ok (ex_udp_env\<lparr>os_bind := \<lambda>_ _ _ _. None\<rparr>)" using ex_udp_env_ok by (simp add: udp_env_ok_def ex_udp_env_def)
  moreover have "round_result (ex_udp_env\<lparr>os_bind := \<lambda>_ _ _ _. None\<rparr>) 0 port a = Some BindFailed" for port a
    by (simp add: round_result_def try_pair_def ex_udp_env_def ex_udp_socket_def UDPSocket_Open_def UDPSocket_Bind_def)
  ultimately show ?thesis using CreateUDPSocketPair_forever [of "ex_udp_env\<lparr>os_bind := \<lambda>_ _ _ _. None\<rparr>" 0] by simp
qed

end
