(* ===== verification/Spec2Isabelle.thy ===== *)
theory Spec2Isabelle
  imports CF_StrPtrLen_Test CF_FileSource CF_Select CF_EventContext CF_RWMutex CF_IdleTask CF_UserAgentParser CF_HTTPSession CF_ConfParser CF_DateTranslator CF_MD5Digest CF_UDP
begin

text \<open>
  A verification development for CxxFramework, a C++ framework for network servers with an HTTP
  server on top.  Every definition that models code keeps the name of the code; where that name is
  taken it carries a suffix or the name of its class.

  \<^bold>\<open>The program.\<close>  The library \<^verbatim>\<open>CFCore\<close> holds the containers and the string handling:
  a binary heap of timers, intrusive queues, a hash table with the reference counting dictionary built
  on it, a reader/writer lock, counted strings with a scanner, a URL translator and buffered
  formatters.  \<^verbatim>\<open>CFThread\<close> runs tasks: events are signalled to a task, which is put on the
  queue of one of the task threads, is run, and asks to be run again after a number of milliseconds
  or waits for the next event; idle and timeout tasks are timers on top.  \<^verbatim>\<open>CFSocket\<close>
  delivers the readiness of sockets as such events.  \<^verbatim>\<open>CFHttp\<close> reads a request from the
  socket, parses it into a packet, dispatches it by its path to a handler, and writes the response.

  \<^bold>\<open>Theories and sources\<close> (paths below \<^verbatim>\<open>src/\<close>).
  \<^item> \<open>CF_Prelude\<close>: memory blocks as character lists, reads that fail outside of them, 32-bit
    arithmetic, C strings.
  \<^item> \<open>CF_Def\<close>: error codes and the assertion macro
    (\<^verbatim>\<open>Include/CF/CFDef.h\<close>, \<^verbatim>\<open>CFCore/include/CF/MyAssert.h\<close>).
  \<^item> \<open>CF_Heap\<close>: the 1-based array heap (\<^verbatim>\<open>CFCore/Heap.cpp\<close>).
  \<^item> \<open>CF_Queue\<close>: the intrusive ring queue with its iterator and self-test, the concurrent and
    the blocking queue and the buffer pool (\<^verbatim>\<open>CFCore/Queue.cpp\<close>,
    \<^verbatim>\<open>ConcurrentQueue.cpp\<close>, \<^verbatim>\<open>BufferPool.cpp\<close>).
  \<^item> \<open>CF_DList\<close>: the doubly linked list (\<^verbatim>\<open>CFCore/include/CF/PLDoubleLinkedList.h\<close>).
  \<^item> \<open>CF_HashTable\<close>, \<open>CF_Ref\<close>: the hash table and the dictionary of reference
    counted objects (\<^verbatim>\<open>CFCore/include/CF/HashTable.h\<close>, \<^verbatim>\<open>CFCore/Ref.cpp\<close>).
  \<^item> \<open>CF_RWMutex\<close>: the reader/writer lock (\<^verbatim>\<open>CFCore/RWMutex.cpp\<close>).
  \<^item> \<open>CF_StrPtrLen\<close>, \<open>CF_StrPtrLen_Test\<close>: counted strings and their self-test
    (\<^verbatim>\<open>CFCore/StrPtrLen.cpp\<close>).
  \<^item> \<open>CF_StringParser\<close>: the scanner (\<^verbatim>\<open>CFCore/StringParser.cpp\<close>).
  \<^item> \<open>CF_StringTranslator\<close>: URL decoding and encoding (\<^verbatim>\<open>CFCore/StringTranslator.cpp\<close>).
  \<^item> \<open>CF_StringFormatter\<close>: the fixed and the growing output buffer
    (\<^verbatim>\<open>CFCore/StringFormatter.cpp\<close>, \<^verbatim>\<open>ResizeableStringFormatter.cpp\<close>).
  \<^item> \<open>CF_Task\<close>: tasks, task threads and the thread pool as a step relation
    (\<^verbatim>\<open>CFThread/Task.cpp\<close>).
  \<^item> \<open>CF_IdleTask\<close>: idle timers and timeouts (\<^verbatim>\<open>CFThread/IdleTask.cpp\<close>,
    \<^verbatim>\<open>TimeoutTask.cpp\<close>).
  \<^item> \<open>CF_HTTPProtocol\<close>: methods, headers, versions, status codes
    (\<^verbatim>\<open>CFHttp/HTTPProtocol.cpp\<close>).
  \<^item> \<open>CF_QueryParamList\<close>: the parameters of a query (\<^verbatim>\<open>CFHttp/QueryParamList.cpp\<close>).
  \<^item> \<open>CF_UserAgentParser\<close>: the fields of a User-Agent header
    (\<^verbatim>\<open>CFHttp/UserAgentParser.cpp\<close>).
  \<^item> \<open>CF_HTTPDispatcher\<close>: the choice of a handler (\<^verbatim>\<open>CFHttp/HTTPDispatcher.cpp\<close>).
  \<^item> \<open>CF_HTTPPacket\<close>, \<open>CF_HTTPHeader\<close>: parsing of a request, construction of a response
    or request header (\<^verbatim>\<open>CFHttp/HTTPPacket.cpp\<close>).
  \<^item> \<open>CF_Socket\<close>: sending and receiving on a connection (\<^verbatim>\<open>CFSocket/Socket.cpp\<close>).
  \<^item> \<open>CF_Ev\<close>: the interface of an event queue and the contract of its operations
    (\<^verbatim>\<open>CFSocket/include/CF/Net/ev.h\<close>); \<open>CF_Select\<close>, \<open>CF_Epoll\<close>: its implementations by
    \<^verbatim>\<open>select\<close> and \<^verbatim>\<open>epoll\<close> (\<^verbatim>\<open>CFSocket/ev.cpp\<close>, \<^verbatim>\<open>epollev.cpp\<close>).
  \<^item> \<open>CF_EventContext\<close>: event contexts and the event thread (\<^verbatim>\<open>CFSocket/EventContext.cpp\<close>).
  \<^item> \<open>CF_HTTPResponseStream\<close>: the buffered output of a session
    (\<^verbatim>\<open>CFHttp/HTTPResponseStream.cpp\<close>).
  \<^item> \<open>CF_HTTPRequestStream\<close>: the buffered input of a session, with base64 decoding
    (\<^verbatim>\<open>CFHttp/HTTPRequestStream.cpp\<close>).
  \<^item> \<open>CF_HTTPSession\<close>: the state machine of a connection
    (\<^verbatim>\<open>CFHttp/HTTPSession.cpp\<close>, \<^verbatim>\<open>HTTPSessionInterface.cpp\<close>).
  \<^item> \<open>CF_Base64\<close>: the base64 codec (\<^verbatim>\<open>CFBasic/base64.c\<close>).
  \<^item> \<open>CF_ConfParser\<close>: configuration files (\<^verbatim>\<open>CFBasic/ConfParser.cpp\<close>,
    \<^verbatim>\<open>GetWord.c\<close>, \<^verbatim>\<open>Trim.c\<close>).
  \<^item> \<open>CF_DateTranslator\<close>: dates of HTTP (\<^verbatim>\<open>CFCore/DateTranslator.cpp\<close>).
  \<^item> \<open>CF_FileSource\<close>: reading files through a cache of blocks
    (\<^verbatim>\<open>CFCore/FileSource.cpp\<close>).
  \<^item> \<open>CF_UDP\<close>: demultiplexing of remote addresses and the pool of UDP socket pairs
    (\<^verbatim>\<open>CFSocket/UDPDemuxer.cpp\<close>, \<^verbatim>\<open>UDPSocketPool.cpp\<close>).
  \<^item> \<open>CF_MD5\<close>, \<open>CF_MD5Digest\<close>: the digest MD5, digest authentication and hashed passwords
    (\<^verbatim>\<open>CFBasic/md5.c\<close>, \<^verbatim>\<open>md5digest.cpp\<close>).

  \<^bold>\<open>State and operations.\<close>  A class is a record of its fields; a method takes the record and
  returns it updated.  Where the code links objects by pointers (queue, linked list, hash chains,
  references) the objects live in a store, a function from addresses to records, and a representation
  predicate relates the store to the list or map that the links represent.  A pointer into a
  buffer is an index into a character list.  The outcome \<^const>\<open>None\<close> of a definition stands for what
  the code must not do: read or write outside of a block, dereference a null pointer, fail an
  assertion, or (for a \<open>partial_function\<close>) loop forever.  Operations that several threads run
  under one mutex are atomic; for the lock and for the scheduler, whose correctness is about
  interleavings, the steps between two atomic accesses are the steps of an inductive relation and
  the theorems are about all reachable states.  Integers have the width of the code wherever they
  can wrap (the 16-bit counters of the scanner and of the agent parser, the 32-bit lengths, reference
  counts, event masks).

  \<^bold>\<open>What is shown.\<close>
  \<^item> Containers: the heap keeps its order under insertion, extraction of the minimum and
    re-prioritising, and drains in order; removal of an inner element does not keep it.  The queue
    and the linked list refine sequences, the dictionary refines a partial map, and no referenced
    object leaves the dictionary.
  \<^item> Concurrency: at most one writer among lock users that follow the protocol, and the schedule
    that admits two writers; a signalled task is in exactly one place (a queue, a timer heap, a
    thread) and is run again, and the interleaving that loses an event.
  \<^item> Events: in every history of the select queue, with other threads active during the system call, no
    access leaves its arrays, an event comes only if it was asked for, with the cookie of the last watch, and
    removed descriptors are closed once; a result is handed out completely and in order.  The epoll queue keeps the
    cookies as well, and drops the last event of an answer.  A ready descriptor signals the task of its context
    through the reference table, and no task once the context is cleaned up.
  \<^item> Datagrams: the demultiplexer is a map from remote addresses to tasks; the pool hands out a pair of sockets on
    the wanted local address that has no task for the remote one, and deletes it with its last holder; and the
    search for free ports that never ends.
  \<^item> Text: the scanner's operations consume exactly the prefix they are documented to consume; URL
    decoding leaves no dot segment in the path and inverts encoding; form decoding inverts
    form encoding through the parameter list; the growing formatter appends all of its input, the
    fixed one a prefix.
  \<^item> HTTP: header and method lookup by their first letters agree with a linear search; a
    well-formed request text is parsed into exactly the method, path, query, version, headers and
    keep-alive flag it was made of; the dispatcher takes the first matching handler of the highest
    priority; and the inputs on which parsing leaves its buffers or aborts.  A response header of up
    to 511 bytes is exactly the text of its fields, and the parser reads it back when its reason is
    one word.
  \<^item> Streams: whatever the socket takes of each write, the bytes on the wire followed by the unsent
    bytes of the buffer are the bytes that were written, and flushing ends as long as the socket
    takes something.  However a request is cut into pieces, the input stream hands out exactly its
    header, keeps the bytes behind it for the body and the next request, and loses none.  Decoding what base64 encoding wrote gives the input, in buffers of the sizes
    the two length functions announce.
  \<^item> Session: a run that receives the text of a request calls the handler of its path with the parsed
    request and writes the response, byte for byte; every run leaves the session in a state in which
    packets and locks are held exactly while a request is processed; and the runs that send a response
    twice, dispatch an unsupported version or write behind the block of a body.
  \<^item> Files, dates and digests: reading through the cache of blocks, with evictions and changes of its
    size, is reading the file, except after another file was opened; a configuration file is read back entry by entry, and the lines that leave
    its buffers or lose characters; a formatted date is parsed to the same second; MD5 does not depend on
    how its input is cut into pieces and gives the digest of the padded message, the responses of digest
    authentication are those of RFC 2617, and a stored password hash is reproduced when it is used as the
    salt.

  \<^bold>\<open>Interfaces.\<close>  The contracts between components are locales: the priority queue that the timers
  use (\<open>CF_Heap\<close>), the first-in-first-out queue (\<open>CF_Queue\<close>), the list of nodes
  (\<open>CF_DList\<close>), the event queue with its two implementations (\<open>CF_Ev\<close>), the keyed table behind the reference dictionary (\<open>CF_HashTable\<close>) and
  the overflow hook of the formatters, with one extension for the fixed and one for the growing buffer
  (\<open>CF_StringFormatter\<close>).  Each is interpreted on the model of the code that provides it.

  \<^bold>\<open>Loops and bounds.\<close>  Loops that always end are total functions with a termination proof.
  Loops whose end depends on their input are partial functions into \<^typ>\<open>'a option\<close>, and the theorems
  show that they return.  No definition uses fuel, except the iteration counters of \<open>CF_Queue\<close>
  and \<open>CF_HashTable\<close> that bound a walk by the number of elements, which is enough because a
  walk visits every element once.

  \<^bold>\<open>Not modelled.\<close>  Wrappers of the operating system (opening of sockets, threads, mutexes, clocks,
  shared libraries, process control, enumeration of network interfaces) have no logic of their own; what the other
  components use of them is an argument.  Debug output is left out.  Floating point parsing in the scanner is left out,
  since no component uses it.  Taking over the input socket of another session is left out, since nothing calls
  it.  The streams of the HTTP client are copies of those of the server, which are modelled.  The stop states of the
  event thread and the event queues of Windows and macOS are left out, and so are sending and receiving datagrams,
  which are single calls of the system.
\<close>

end
